(* ===== verification/Prelude.thy ===== *)
theory Prelude
  imports Main "HOL-Library.Word"
begin

text \<open>
  Shared vocabulary of the development: the machine integer types of the crate, Rust
  results with panics made explicit, checked slice access, loops in the result type, and
  the generic list lemmas the component theories rely on.

  A Rust function returning \<open>Result<T, E>\<close> becomes a function into
  \<open>'e fault + 'a\<close>: \<open>Inr\<close> is \<open>Ok\<close>, \<open>Inl (Err e)\<close> is \<open>Err(e)\<close>,
  and \<open>Inl Panic\<close> is a panic (an index or slice out of range, a failed
  \<open>expect\<close>). \<open>usize\<close> is \<open>nat\<close> (64-bit platform; checked arithmetic writes the
  bound out), fixed-width integers are words, whose \<open>+\<close> wraps as release builds do.
\<close>

section \<open>Machine integers\<close>

type_synonym u8 = "8 word"
type_synonym u16 = "16 word"
type_synonym u32 = "32 word"
type_synonym u64 = "64 word"
type_synonym usize = nat

definition usize_max :: usize where
  "usize_max = 2 ^ 64 - 1"

definition checked_add_usize :: "usize \<Rightarrow> usize \<Rightarrow> usize option" where
  "checked_add_usize a b = (if a + b \<le> usize_max then Some (a + b) else None)"

definition checked_mul_usize :: "usize \<Rightarrow> usize \<Rightarrow> usize option" where
  "checked_mul_usize a b = (if a * b \<le> usize_max then Some (a * b) else None)"

definition saturating_add_usize :: "usize \<Rightarrow> usize \<Rightarrow> usize" where
  "saturating_add_usize a b = min usize_max (a + b)"

definition u8_try_from :: "u32 \<Rightarrow> u8 option" where
  "u8_try_from x = (if x \<le> 255 then Some (ucast x) else None)"

definition u16_try_from :: "u32 \<Rightarrow> u16 option" where
  "u16_try_from x = (if x \<le> 65535 then Some (ucast x) else None)"

section \<open>Results, panics and loops\<close>

datatype 'e fault = Err 'e | Panic

type_synonym ('e, 'a) rust_result = "'e fault + 'a"

definition rbind ::
  "('e, 'a) rust_result \<Rightarrow> ('a \<Rightarrow> ('e, 'b) rust_result) \<Rightarrow> ('e, 'b) rust_result" where
  "rbind m f = (case m of Inl e \<Rightarrow> Inl e | Inr x \<Rightarrow> f x)"

definition ok_or :: "'e fault \<Rightarrow> 'a option \<Rightarrow> ('e, 'a) rust_result" where
  "ok_or e m = (case m of None \<Rightarrow> Inl e | Some x \<Rightarrow> Inr x)"

primrec fold_r ::
  "('a \<Rightarrow> 's \<Rightarrow> ('e, 's) rust_result) \<Rightarrow> 'a list \<Rightarrow> 's \<Rightarrow> ('e, 's) rust_result" where
  "fold_r f [] s = Inr s"
| "fold_r f (x # xs) s = rbind (f x s) (fold_r f xs)"

primrec map_r :: "('a \<Rightarrow> ('e, 'b) rust_result) \<Rightarrow> 'a list \<Rightarrow> ('e, 'b list) rust_result" where
  "map_r f [] = Inr []"
| "map_r f (x # xs) = rbind (f x) (\<lambda>y. rbind (map_r f xs) (\<lambda>ys. Inr (y # ys)))"

text \<open>\<open>xs.get(i)\<close>, \<open>xs[i]\<close>, \<open>xs[i] = v\<close>, \<open>&xs[i..j]\<close> and \<open>xs.get(i..j)\<close>.\<close>

definition get_opt :: "'a list \<Rightarrow> nat \<Rightarrow> 'a option" where
  "get_opt xs i = (if i < length xs then Some (xs ! i) else None)"

definition index_r :: "'a list \<Rightarrow> nat \<Rightarrow> ('e, 'a) rust_result" where
  "index_r xs i = (if i < length xs then Inr (xs ! i) else Inl Panic)"

definition update_r :: "'a list \<Rightarrow> nat \<Rightarrow> 'a \<Rightarrow> ('e, 'a list) rust_result" where
  "update_r xs i v = (if i < length xs then Inr (xs[i := v]) else Inl Panic)"

definition slice :: "nat \<Rightarrow> nat \<Rightarrow> 'a list \<Rightarrow> 'a list" where
  "slice i j xs = take (j - i) (drop i xs)"

definition slice_r :: "'a list \<Rightarrow> nat \<Rightarrow> nat \<Rightarrow> ('e, 'a list) rust_result" where
  "slice_r xs i j = (if i \<le> j \<and> j \<le> length xs then Inr (slice i j xs) else Inl Panic)"

definition get_slice_opt :: "'a list \<Rightarrow> nat \<Rightarrow> nat \<Rightarrow> 'a list option" where
  "get_slice_opt xs i j = (if i \<le> j \<and> j \<le> length xs then Some (slice i j xs) else None)"

definition opt_filter :: "('a \<Rightarrow> bool) \<Rightarrow> 'a option \<Rightarrow> 'a option" where
  "opt_filter p m = (case m of None \<Rightarrow> None | Some x \<Rightarrow> if p x then Some x else None)"

definition opt_get_or :: "'a \<Rightarrow> 'a option \<Rightarrow> 'a" where
  "opt_get_or d m = (case m of None \<Rightarrow> d | Some x \<Rightarrow> x)"

text \<open>Decimal rendering of an unsigned integer, as \<open>format!\<close> does it.\<close>

fun show_nat :: "nat \<Rightarrow> string" where
  "show_nat n =
     (if n < 10 then [char_of (48 + n)] else show_nat (n div 10) @ [char_of (48 + n mod 10)])"

declare show_nat.simps [simp del]

section \<open>Lemmas\<close>

named_theorems result_simps \<open>unfolding of result-typed operations in a success case\<close>

lemma rbind_Inr [simp]: "rbind (Inr x) f = f x"
  by (simp add: rbind_def)

lemma rbind_Inl [simp]: "rbind (Inl e) f = Inl e"
  by (simp add: rbind_def)

lemma rbind_eq_Inr [result_simps]: "rbind m f = Inr y \<longleftrightarrow> (\<exists>x. m = Inr x \<and> f x = Inr y)"
  by (cases m) auto

lemma rbind_assoc: "rbind (rbind m f) g = rbind m (\<lambda>x. rbind (f x) g)"
  by (cases m) auto

lemma rbind_cong [fundef_cong]:
  "m = m' \<Longrightarrow> (\<And>x. m' = Inr x \<Longrightarrow> f x = f' x) \<Longrightarrow> rbind m f = rbind m' f'"
  by (cases m') auto

lemma ok_or_simps [simp]: "ok_or e None = Inl e" "ok_or e (Some x) = Inr x"
  by (simp_all add: ok_or_def)

lemma ok_or_eq_Inr [result_simps]: "ok_or e m = Inr x \<longleftrightarrow> m = Some x"
  by (cases m) auto

lemma index_r_eq_Inr [result_simps]: "index_r xs i = Inr v \<longleftrightarrow> i < length xs \<and> v = xs ! i"
  by (auto simp: index_r_def)

lemma index_r_ok [simp]: "i < length xs \<Longrightarrow> index_r xs i = Inr (xs ! i)"
  by (simp add: index_r_def)

lemma update_r_eq_Inr [result_simps]:
  "update_r xs i v = Inr ys \<longleftrightarrow> i < length xs \<and> ys = xs[i := v]"
  by (auto simp: update_r_def)

lemma update_r_ok [simp]: "i < length xs \<Longrightarrow> update_r xs i v = Inr (xs[i := v])"
  by (simp add: update_r_def)

lemma slice_r_eq_Inr [result_simps]:
  "slice_r xs i j = Inr ys \<longleftrightarrow> i \<le> j \<and> j \<le> length xs \<and> ys = slice i j xs"
  by (auto simp: slice_r_def)

lemma slice_r_ok [simp]: "i \<le> j \<Longrightarrow> j \<le> length xs \<Longrightarrow> slice_r xs i j = Inr (slice i j xs)"
  by (simp add: slice_r_def)

lemma get_opt_simps [simp]:
  "i < length xs \<Longrightarrow> get_opt xs i = Some (xs ! i)"
  "length xs \<le> i \<Longrightarrow> get_opt xs i = None"
  by (simp_all add: get_opt_def)

lemma opt_filter_simps [simp]:
  "opt_filter p None = None" "opt_filter p (Some x) = (if p x then Some x else None)"
  by (simp_all add: opt_filter_def)

lemma opt_get_or_simps [simp]: "opt_get_or d None = d" "opt_get_or d (Some x) = x"
  by (simp_all add: opt_get_or_def)

lemma length_slice [simp]: "j \<le> length xs \<Longrightarrow> length (slice i j xs) = j - i"
  by (simp add: slice_def)

lemma nth_slice [simp]: "i + k < j \<Longrightarrow> j \<le> length xs \<Longrightarrow> slice i j xs ! k = xs ! (i + k)"
  by (simp add: slice_def)

lemma slice_map: "slice i j (map f xs) = map f (slice i j xs)"
  by (simp add: slice_def take_map drop_map)

lemma slice_eq_map_nth: "i \<le> j \<Longrightarrow> j \<le> length xs \<Longrightarrow> slice i j xs = map ((!) xs) [i..<j]"
  by (rule nth_equalityI) auto

lemma slice_Nil [simp]: "slice i j [] = []"
  by (simp add: slice_def)

lemma upt_split: "i \<le> j \<Longrightarrow> j \<le> k \<Longrightarrow> [i..<k] = [i..<j] @ [j..<k]"
  by (metis le_Suc_ex upt_add_eq_append)

lemma set_sliceD: "x \<in> set (slice i j xs) \<Longrightarrow> x \<in> set xs"
  by (auto simp: slice_def dest: in_set_takeD in_set_dropD)

lemma fold_r_append: "fold_r f (xs @ ys) s = rbind (fold_r f xs s) (fold_r f ys)"
  by (induction xs arbitrary: s) (auto simp: rbind_assoc intro!: rbind_cong)

lemma fold_r_concat: "fold_r f (concat xss) s = fold_r (\<lambda>xs. fold_r f xs) xss s"
  by (induction xss arbitrary: s) (auto simp: fold_r_append intro!: rbind_cong)

lemma fold_r_map: "fold_r f (map g xs) s = fold_r (\<lambda>x. f (g x)) xs s"
  by (induction xs arbitrary: s) (auto intro!: rbind_cong)

lemma fold_r_cong:
  "(\<And>x s. x \<in> set xs \<Longrightarrow> f x s = g x s) \<Longrightarrow> fold_r f xs s = fold_r g xs s"
  by (induction xs arbitrary: s) (auto intro!: rbind_cong)

text \<open>
  Total correctness of a loop: an invariant indexed by the processed prefix that every
  iteration re-establishes without a fault.
\<close>

lemma fold_r_rule:
  assumes init: "P [] s"
    and step: "\<And>pre x post s. xs = pre @ x # post \<Longrightarrow> P pre s \<Longrightarrow>
      \<exists>s'. f x s = Inr s' \<and> P (pre @ [x]) s'"
  shows "\<exists>s'. fold_r f xs s = Inr s' \<and> P xs s'"
proof -
  have "\<exists>s'. fold_r f post s = Inr s' \<and> P xs s'" if "xs = pre @ post" "P pre s" for pre post s
    using that
  proof (induction post arbitrary: pre s)
    case Nil
    then show ?case by simp
  next
    case (Cons x post)
    then obtain s1 where "f x s = Inr s1" "P (pre @ [x]) s1"
      using step by blast
    then show ?case using Cons.IH [of "pre @ [x]" s1] Cons.prems by simp
  qed
  from this [of "[]" xs s] init show ?thesis by simp
qed

text \<open>Partial correctness of a loop: whatever a successful run ends with satisfies the invariant.\<close>

lemma fold_r_inv:
  assumes "fold_r f xs s = Inr s'" and "P s"
    and "\<And>x s s'. x \<in> set xs \<Longrightarrow> P s \<Longrightarrow> f x s = Inr s' \<Longrightarrow> P s'"
  shows "P s'"
  using assms by (induction xs arbitrary: s) (auto simp: result_simps)

lemma unat_inc: "w < (x :: 'a :: len word) \<Longrightarrow> unat (w + 1) = Suc (unat w)"
proof -
  assume "w < x"
  then have "unat w < unat x" by (simp add: word_less_nat_alt)
  also have "unat x < 2 ^ LENGTH('a)" by (rule unsigned_less)
  finally have "Suc (unat w) < 2 ^ LENGTH('a)"
    using \<open>unat w < unat x\<close> \<open>unat x < 2 ^ LENGTH('a)\<close> by linarith
  then show ?thesis by (simp add: unat_word_ariths)
qed

lemma unat_u32_less: "unat (v :: u32) < 4294967296"
  using unsigned_less [of v] by simp

lemma unat_of_nat_u32 [simp]: "n < 4294967296 \<Longrightarrow> unat (word_of_nat n :: u32) = n"
  by (simp add: unat_of_nat)

lemma unat_Suc_u32: "Suc (unat (v :: u32)) < 4294967296 \<Longrightarrow> unat (v + 1) = Suc (unat v)"
  by (simp add: unat_word_ariths)

text \<open>Several existential witnesses at once.\<close>

lemma exI4: "P a b c d \<Longrightarrow> \<exists>a b c d. P a b c d"
  by blast

lemma exI5: "P a b c d e \<Longrightarrow> \<exists>a b c d e. P a b c d e"
  by blast

text \<open>A loop with an invariant indexed by the number of iterations done.\<close>

lemma fold_r_count:
  assumes init: "P b s"
    and step: "\<And>i s. i < length xs \<Longrightarrow> P (b + i) s \<Longrightarrow> \<exists>s'. f (xs ! i) s = Inr s' \<and> P (Suc (b + i)) s'"
  shows "\<exists>s'. fold_r f xs s = Inr s' \<and> P (b + length xs) s'"
proof (rule fold_r_rule [where P = "\<lambda>pre s. P (b + length pre) s"])
  show "P (b + length []) s" using init by simp
next
  fix pre x post s
  assume "xs = pre @ x # post" "P (b + length pre) s"
  then show "\<exists>s'. f x s = Inr s' \<and> P (b + length (pre @ [x])) s'"
    using step [of "length pre" s] by simp
qed

lemma map_r_eq_Inr [result_simps]:
  "map_r f xs = Inr ys \<longleftrightarrow> list_all2 (\<lambda>x y. f x = Inr y) xs ys"
  by (induction xs arbitrary: ys) (auto simp: result_simps list_all2_Cons1)

text \<open>Lists ordered by a key: the elements below a bound are a prefix.\<close>

lemma sorted_key_partition:
  fixes k :: "'a \<Rightarrow> 'k :: linorder"
  shows "sorted (map k xs) \<Longrightarrow> filter (\<lambda>x. k x < b) xs @ filter (\<lambda>x. b \<le> k x) xs = xs"
proof (induction xs)
  case Nil
  then show ?case by simp
next
  case (Cons x xs)
  show ?case
  proof (cases "k x < b")
    case True
    with Cons show ?thesis by simp
  next
    case False
    with Cons.prems have "filter (\<lambda>x. k x < b) xs = []" "filter (\<lambda>x. b \<le> k x) xs = xs"
      by (fastforce simp: filter_empty_conv filter_id_conv)+
    with False show ?thesis by simp
  qed
qed

lemma sorted_key_slice:
  fixes k :: "'a \<Rightarrow> 'k :: linorder"
  assumes s: "sorted (map k xs)" and ab: "a \<le> b"
  shows "slice (length (filter (\<lambda>x. k x < a) xs)) (length (filter (\<lambda>x. k x < b) xs)) xs =
    filter (\<lambda>x. a \<le> k x \<and> k x < b) xs"
proof -
  define A B where "A = filter (\<lambda>x. k x < a) xs" and "B = filter (\<lambda>x. k x < b) xs"
  have "filter (\<lambda>x. k x < a) B = A"
    using ab by (auto simp: A_def B_def intro: filter_cong)
  moreover have "filter (\<lambda>x. k x < a) B @ filter (\<lambda>x. a \<le> k x) B = B"
    using sorted_key_partition [OF sorted_filter [OF s]] by (simp add: B_def)
  ultimately have B: "B = A @ filter (\<lambda>x. a \<le> k x) B"
    by simp
  have "take (length B) xs = B"
    using sorted_key_partition [OF s, of b] by (metis B_def append_eq_conv_conj)
  then have "slice (length A) (length B) xs = drop (length A) B"
    by (simp add: slice_def flip: drop_take)
  also have "\<dots> = filter (\<lambda>x. a \<le> k x) B"
    using B by (metis append_eq_conv_conj)
  finally show ?thesis
    by (simp add: A_def B_def conj_commute)
qed

section \<open>Computations that may not return\<close>

text \<open>Sequencing of computations that may not return (\<open>None\<close>) and may fail.\<close>

definition obind ::
  "('e, 'a) rust_result option \<Rightarrow> ('a \<Rightarrow> ('e, 'b) rust_result option) \<Rightarrow> ('e, 'b) rust_result option" where
  "obind m f = (case m of None \<Rightarrow> None | Some (Inl e) \<Rightarrow> Some (Inl e) | Some (Inr x) \<Rightarrow> f x)"

primrec fold_o ::
  "('a \<Rightarrow> 's \<Rightarrow> ('e, 's) rust_result option) \<Rightarrow> 'a list \<Rightarrow> 's \<Rightarrow> ('e, 's) rust_result option" where
  "fold_o f [] s = Some (Inr s)"
| "fold_o f (x # xs) s = obind (f x s) (fold_o f xs)"

lemma obind_simps [simp]:
  "obind None f = None" "obind (Some (Inl e)) f = Some (Inl e)" "obind (Some (Inr x)) f = f x"
  by (simp_all add: obind_def)

text \<open>
  Total correctness of such a computation: it returns, an error satisfies \<open>Q\<close>, a success
  satisfies \<open>P\<close>.
\<close>

definition returns :: "('e fault \<Rightarrow> bool) \<Rightarrow> ('a \<Rightarrow> bool) \<Rightarrow> ('e, 'a) rust_result option \<Rightarrow> bool" where
  "returns Q P m \<longleftrightarrow> (case m of None \<Rightarrow> False | Some (Inl e) \<Rightarrow> Q e | Some (Inr x) \<Rightarrow> P x)"

lemma returns_simps [simp]:
  "\<not> returns Q P None" "returns Q P (Some (Inl e)) \<longleftrightarrow> Q e" "returns Q P (Some (Inr x)) \<longleftrightarrow> P x"
  by (simp_all add: returns_def)

lemma returns_cases: "returns Q P m \<Longrightarrow> (\<exists>e. m = Some (Inl e) \<and> Q e) \<or> (\<exists>x. m = Some (Inr x) \<and> P x)"
  by (auto simp: returns_def split: option.splits sum.splits)

lemma returns_obind:
  "returns Q P m \<Longrightarrow> (\<And>x. P x \<Longrightarrow> returns Q R (f x)) \<Longrightarrow> returns Q R (obind m f)"
  by (drule returns_cases) auto

lemma returns_mono: "returns Q P m \<Longrightarrow> (\<And>x. P x \<Longrightarrow> R x) \<Longrightarrow> returns Q R m"
  by (auto simp: returns_def split: option.splits sum.splits)

lemma returns_InrI: "m = Some (Inr x) \<Longrightarrow> P x \<Longrightarrow> returns Q P m"
  by simp

lemma returns_Inr: "returns Q P m \<Longrightarrow> m = Some (Inr x) \<Longrightarrow> P x"
  by simp

lemma returns_Inl: "returns Q P m \<Longrightarrow> m = Some (Inl e) \<Longrightarrow> Q e"
  by simp

lemma returns_total: "returns (\<lambda>e. False) P m \<Longrightarrow> \<exists>x. m = Some (Inr x) \<and> P x"
  using returns_cases by blast

lemma returns_fold:
  assumes "P [] s"
    and "\<And>pre x post s. xs = pre @ x # post \<Longrightarrow> P pre s \<Longrightarrow> returns Q (P (pre @ [x])) (f x s)"
  shows "returns Q (P xs) (fold_o f xs s)"
proof -
  have "returns Q (P xs) (fold_o f post s)" if "xs = pre @ post" "P pre s" for pre post s
    using that
  proof (induction post arbitrary: pre s)
    case (Cons x post)
    then have "returns Q (P (pre @ [x])) (f x s)" using assms(2) by blast
    then show ?case
      using Cons.IH [of "pre @ [x]"] Cons.prems(1) by (auto intro: returns_obind)
  qed simp
  from this [of "[]" xs s] assms(1) show ?thesis by simp
qed

end
