(* ===== verification/Safety.thy ===== *)
theory Safety
  imports Prelude
begin

text \<open>
  The error type of the crate (\<open>graph/src/safety.rs\<close>): \<open>GraphError\<close>, its stable
  diagnostic codes and the classification every error gets at the PostgreSQL boundary.
  The texts of the messages and hints (\<open>Display\<close>, \<open>hint\<close>) are not modelled; the
  payload fields they interpolate are kept.
\<close>

datatype graph_error =
    Oom u64 u64 u64
  | AclDenied string
  | NotBuilt
  | EdgeTypeLimit
  | InvalidFilter string
  | GqlSyntax string
  | GqlUnsupported string
  | GqlSemantic string
  | GqlParameter string
  | GqlExecution string
  | UnsupportedOperation string string
  | BuildLocked
  | ResourceLimit string string u64 u64 u64
  | EdgeBufferFull usize
  | ReadOnly string
  | OverlayLimit string usize usize
  | CorruptFile string
  | IncompatibleVersion string
  | NodeNotFound string string
  | Disabled
  | RlsTopologyBoundary string
  | SyncLogPruned int int
  | RlsRelationshipIdentityMissing
  | RecursiveVisibilityResolution
  | Internal string

type_synonym 'a graph_result = "(graph_error, 'a) rust_result"

datatype graph_diagnostic_code =
    DInternal
  | DOom
  | DAclDenied
  | DNotBuilt
  | DEdgeTypeLimit
  | DInvalidFilter
  | DBuildLocked
  | DResourceLimit
  | DEdgeBufferFull
  | DCorruptFile
  | DNodeNotFound
  | DIncompatibleVersion
  | DReadOnly
  | DGqlSyntax
  | DGqlUnsupported
  | DGqlSemantic
  | DGqlParameter
  | DGqlExecution
  | DUnsupportedOperation
  | DOverlayLimit
  | DDisabled
  | DRlsTopologyBoundary
  | DSyncLogPruned
  | DRlsRelationshipIdentityMissing
  | DRecursiveVisibilityResolution

text \<open>The SQLSTATE constants of \<open>PgSqlErrorCode\<close> that the classification names.\<close>

datatype pg_sql_error_code =
    ERRCODE_OUT_OF_MEMORY
  | ERRCODE_INSUFFICIENT_PRIVILEGE
  | ERRCODE_OBJECT_NOT_IN_PREREQUISITE_STATE
  | ERRCODE_PROGRAM_LIMIT_EXCEEDED
  | ERRCODE_INVALID_PARAMETER_VALUE
  | ERRCODE_SYNTAX_ERROR
  | ERRCODE_FEATURE_NOT_SUPPORTED
  | ERRCODE_DATA_EXCEPTION
  | ERRCODE_LOCK_NOT_AVAILABLE
  | ERRCODE_DATA_CORRUPTED
  | ERRCODE_NO_DATA_FOUND
  | ERRCODE_INTERNAL_ERROR

record graph_error_classification =
  diagnostic :: graph_diagnostic_code
  sqlstate_text :: string
  postgres_code :: pg_sql_error_code

fun as_str :: "graph_diagnostic_code \<Rightarrow> string" where
  "as_str DInternal = ''PG000''"
| "as_str DOom = ''PG001''"
| "as_str DAclDenied = ''PG002''"
| "as_str DNotBuilt = ''PG003''"
| "as_str DEdgeTypeLimit = ''PG004''"
| "as_str DInvalidFilter = ''PG005''"
| "as_str DBuildLocked = ''PG006''"
| "as_str DResourceLimit = ''PG007''"
| "as_str DEdgeBufferFull = ''PG008''"
| "as_str DCorruptFile = ''PG009''"
| "as_str DNodeNotFound = ''PG010''"
| "as_str DIncompatibleVersion = ''PG011''"
| "as_str DReadOnly = ''PG012''"
| "as_str DGqlSyntax = ''PG013''"
| "as_str DGqlUnsupported = ''PG014''"
| "as_str DGqlSemantic = ''PG015''"
| "as_str DGqlParameter = ''PG016''"
| "as_str DGqlExecution = ''PG017''"
| "as_str DUnsupportedOperation = ''PG018''"
| "as_str DOverlayLimit = ''PG019''"
| "as_str DDisabled = ''PG020''"
| "as_str DRlsTopologyBoundary = ''PG021''"
| "as_str DSyncLogPruned = ''PG022''"
| "as_str DRlsRelationshipIdentityMissing = ''PG023''"
| "as_str DRecursiveVisibilityResolution = ''PG024''"

fun classification :: "graph_error \<Rightarrow> graph_error_classification" where
  "classification (Oom _ _ _) = \<lparr>diagnostic = DOom, sqlstate_text = ''53200'',
     postgres_code = ERRCODE_OUT_OF_MEMORY\<rparr>"
| "classification (AclDenied _) = \<lparr>diagnostic = DAclDenied, sqlstate_text = ''42501'',
     postgres_code = ERRCODE_INSUFFICIENT_PRIVILEGE\<rparr>"
| "classification NotBuilt = \<lparr>diagnostic = DNotBuilt, sqlstate_text = ''55000'',
     postgres_code = ERRCODE_OBJECT_NOT_IN_PREREQUISITE_STATE\<rparr>"
| "classification EdgeTypeLimit = \<lparr>diagnostic = DEdgeTypeLimit, sqlstate_text = ''54000'',
     postgres_code = ERRCODE_PROGRAM_LIMIT_EXCEEDED\<rparr>"
| "classification (InvalidFilter _) = \<lparr>diagnostic = DInvalidFilter, sqlstate_text = ''22023'',
     postgres_code = ERRCODE_INVALID_PARAMETER_VALUE\<rparr>"
| "classification (GqlSyntax _) = \<lparr>diagnostic = DGqlSyntax, sqlstate_text = ''42601'',
     postgres_code = ERRCODE_SYNTAX_ERROR\<rparr>"
| "classification (GqlUnsupported _) = \<lparr>diagnostic = DGqlUnsupported, sqlstate_text = ''0A000'',
     postgres_code = ERRCODE_FEATURE_NOT_SUPPORTED\<rparr>"
| "classification (GqlSemantic _) = \<lparr>diagnostic = DGqlSemantic, sqlstate_text = ''22023'',
     postgres_code = ERRCODE_INVALID_PARAMETER_VALUE\<rparr>"
| "classification (GqlParameter _) = \<lparr>diagnostic = DGqlParameter, sqlstate_text = ''22023'',
     postgres_code = ERRCODE_INVALID_PARAMETER_VALUE\<rparr>"
| "classification (GqlExecution _) = \<lparr>diagnostic = DGqlExecution, sqlstate_text = ''22000'',
     postgres_code = ERRCODE_DATA_EXCEPTION\<rparr>"
| "classification (UnsupportedOperation _ _) = \<lparr>diagnostic = DUnsupportedOperation, sqlstate_text = ''0A000'',
     postgres_code = ERRCODE_FEATURE_NOT_SUPPORTED\<rparr>"
| "classification BuildLocked = \<lparr>diagnostic = DBuildLocked, sqlstate_text = ''55P03'',
     postgres_code = ERRCODE_LOCK_NOT_AVAILABLE\<rparr>"
| "classification (ResourceLimit _ _ _ _ _) = \<lparr>diagnostic = DResourceLimit, sqlstate_text = ''54000'',
     postgres_code = ERRCODE_PROGRAM_LIMIT_EXCEEDED\<rparr>"
| "classification (EdgeBufferFull _) = \<lparr>diagnostic = DEdgeBufferFull, sqlstate_text = ''54000'',
     postgres_code = ERRCODE_PROGRAM_LIMIT_EXCEEDED\<rparr>"
| "classification (ReadOnly _) = \<lparr>diagnostic = DReadOnly, sqlstate_text = ''55000'',
     postgres_code = ERRCODE_OBJECT_NOT_IN_PREREQUISITE_STATE\<rparr>"
| "classification (OverlayLimit _ _ _) = \<lparr>diagnostic = DOverlayLimit, sqlstate_text = ''54000'',
     postgres_code = ERRCODE_PROGRAM_LIMIT_EXCEEDED\<rparr>"
| "classification (CorruptFile _) = \<lparr>diagnostic = DCorruptFile, sqlstate_text = ''XX001'',
     postgres_code = ERRCODE_DATA_CORRUPTED\<rparr>"
| "classification (IncompatibleVersion _) = \<lparr>diagnostic = DIncompatibleVersion, sqlstate_text = ''0A000'',
     postgres_code = ERRCODE_FEATURE_NOT_SUPPORTED\<rparr>"
| "classification (NodeNotFound _ _) = \<lparr>diagnostic = DNodeNotFound, sqlstate_text = ''P0002'',
     postgres_code = ERRCODE_NO_DATA_FOUND\<rparr>"
| "classification Disabled = \<lparr>diagnostic = DDisabled, sqlstate_text = ''55000'',
     postgres_code = ERRCODE_OBJECT_NOT_IN_PREREQUISITE_STATE\<rparr>"
| "classification (RlsTopologyBoundary _) = \<lparr>diagnostic = DRlsTopologyBoundary, sqlstate_text = ''55000'',
     postgres_code = ERRCODE_OBJECT_NOT_IN_PREREQUISITE_STATE\<rparr>"
| "classification (SyncLogPruned _ _) = \<lparr>diagnostic = DSyncLogPruned, sqlstate_text = ''55000'',
     postgres_code = ERRCODE_OBJECT_NOT_IN_PREREQUISITE_STATE\<rparr>"
| "classification RlsRelationshipIdentityMissing = \<lparr>diagnostic = DRlsRelationshipIdentityMissing, sqlstate_text = ''55000'',
     postgres_code = ERRCODE_OBJECT_NOT_IN_PREREQUISITE_STATE\<rparr>"
| "classification RecursiveVisibilityResolution = \<lparr>diagnostic = DRecursiveVisibilityResolution, sqlstate_text = ''55000'',
     postgres_code = ERRCODE_OBJECT_NOT_IN_PREREQUISITE_STATE\<rparr>"
| "classification (Internal _) = \<lparr>diagnostic = DInternal, sqlstate_text = ''XX000'',
     postgres_code = ERRCODE_INTERNAL_ERROR\<rparr>"

definition diagnostic_code :: "graph_error \<Rightarrow> graph_diagnostic_code" where
  "diagnostic_code e = diagnostic (classification e)"

definition sqlstate :: "graph_error \<Rightarrow> string" where
  "sqlstate e = sqlstate_text (classification e)"

definition postgres_error_code :: "graph_error \<Rightarrow> pg_sql_error_code" where
  "postgres_error_code e = postgres_code (classification e)"

lemma as_str_inj: "as_str c = as_str d \<Longrightarrow> c = d"
  by (cases c; cases d) simp_all

text \<open>
  The text sent on the wire and the pgrx constant
  are two columns of one table, and one determines the other.
\<close>

lemma sqlstate_postgres_code: "sqlstate e = sqlstate f \<longleftrightarrow> postgres_error_code e = postgres_error_code f"
  by (cases e; cases f) (simp_all add: sqlstate_def postgres_error_code_def)

end
