(* ===== verification/EdgeTypes.thy ===== *)
theory EdgeTypes
  imports Safety
begin

text \<open>
  Relationship-type identifiers (\<open>types.rs\<close>: \<open>EdgeTypeId\<close> and its checked v6 codec)
  and the adaptive one/two/four byte arrays that store them (\<open>edge_store.rs\<close>:
  \<open>EdgeTypeWidth\<close>, \<open>EdgeTypeStorage\<close>, \<open>EdgeTypeSlice\<close>, \<open>EdgeTypeIter\<close>).

  The newtype \<open>EdgeTypeId(u32)\<close> is its \<open>u32\<close>. A borrowed \<open>EdgeTypeSlice\<close> has the
  shape of the owned storage it borrows from, so one datatype models both. The allocator
  is an argument: \<open>can_reserve al n\<close> says whether a request for \<open>n\<close> elements succeeds,
  and a refused request is the \<open>Oom\<close> branch of the code.
\<close>

section \<open>Identifiers\<close>

type_synonym edge_type_id = u32

datatype edge_type_id_error = LogicalSentinel | V6Sentinel | DoesNotFitV6

definition UNTYPED :: edge_type_id where
  "UNTYPED = 0"

definition SENTINEL :: edge_type_id where
  "SENTINEL = 4294967295"

definition V6_MAX_USER_ID :: u32 where
  "V6_MAX_USER_ID = 255 - 1"

definition from_v6_storage :: "u8 \<Rightarrow> edge_type_id_error + edge_type_id" where
  "from_v6_storage value =
     (if value = 255 then Inl V6Sentinel else Inr (ucast value))"

definition to_v6_storage :: "edge_type_id \<Rightarrow> edge_type_id_error + u8" where
  "to_v6_storage self =
     (if self = SENTINEL then Inl LogicalSentinel
      else if self > V6_MAX_USER_ID then Inl DoesNotFitV6
      else case u8_try_from self of None \<Rightarrow> Inl DoesNotFitV6 | Some b \<Rightarrow> Inr b)"

definition edge_type_try_from :: "u32 \<Rightarrow> edge_type_id_error + edge_type_id" where
  "edge_type_try_from value = (if value = SENTINEL then Inl LogicalSentinel else Inr value)"

section \<open>Physical widths\<close>

datatype edge_type_width = One | Two | Four

fun width_bytes :: "edge_type_width \<Rightarrow> usize" where
  "width_bytes One = 1"
| "width_bytes Two = 2"
| "width_bytes Four = 4"

definition select_for_max_id :: "edge_type_id \<Rightarrow> edge_type_width" where
  "select_for_max_id max_id =
     (if max_id \<le> V6_MAX_USER_ID then One
      else if max_id < 65535 then Two
      else Four)"

definition width_from_bytes :: "u32 \<Rightarrow> edge_type_width option" where
  "width_from_bytes bytes =
     (if bytes = 1 then Some One
      else if bytes = 2 then Some Two
      else if bytes = 4 then Some Four
      else None)"

section \<open>The allocator\<close>

record alloc_env =
  can_reserve :: "usize \<Rightarrow> bool"
  config_memory_limit_mb :: int

text \<open>\<open>csr_allocation_error\<close> and a \<open>try_reserve\<close> whose error it maps.\<close>

definition csr_allocation_error :: "alloc_env \<Rightarrow> graph_error" where
  "csr_allocation_error al = Oom 0 1 (word_of_int (max (config_memory_limit_mb al) 1))"

definition try_reserve :: "alloc_env \<Rightarrow> usize \<Rightarrow> unit graph_result" where
  "try_reserve al n = (if can_reserve al n then Inr () else Inl (Err (csr_allocation_error al)))"

definition unlimited_alloc :: alloc_env where
  "unlimited_alloc = \<lparr>can_reserve = (\<lambda>_. True), config_memory_limit_mb = 2048\<rparr>"

lemma try_reserve_ok [simp]: "can_reserve al n \<Longrightarrow> try_reserve al n = Inr ()"
  by (simp add: try_reserve_def)

lemma try_reserve_eq_Inr [result_simps]: "try_reserve al n = Inr u \<longleftrightarrow> can_reserve al n"
  by (simp add: try_reserve_def)

lemma can_reserve_unlimited [simp]: "can_reserve unlimited_alloc n"
  by (simp add: unlimited_alloc_def)

section \<open>Adaptive storage\<close>

datatype edge_type_storage = SOne "u8 list" | STwo "u16 list" | SFour "u32 list"

definition storage_new :: edge_type_storage where
  "storage_new = SOne []"

definition storage_with_capacity ::
  "alloc_env \<Rightarrow> usize \<Rightarrow> edge_type_width \<Rightarrow> edge_type_storage graph_result" where
  "storage_with_capacity al capacity width =
     rbind (try_reserve al capacity) (\<lambda>_.
       Inr (case width of One \<Rightarrow> SOne [] | Two \<Rightarrow> STwo [] | Four \<Rightarrow> SFour []))"

fun storage_width :: "edge_type_storage \<Rightarrow> edge_type_width" where
  "storage_width (SOne _) = One"
| "storage_width (STwo _) = Two"
| "storage_width (SFour _) = Four"

fun widen :: "alloc_env \<Rightarrow> edge_type_storage \<Rightarrow> edge_type_width \<Rightarrow> edge_type_storage graph_result" where
  "widen al (SOne values) Two =
     rbind (try_reserve al (length values)) (\<lambda>_. Inr (STwo (map ucast values)))"
| "widen al (SOne values) Four =
     rbind (try_reserve al (length values)) (\<lambda>_. Inr (SFour (map ucast values)))"
| "widen al (STwo values) Four =
     rbind (try_reserve al (length values)) (\<lambda>_. Inr (SFour (map ucast values)))"
| "widen al self target = Inr self"

definition prepare_push :: "alloc_env \<Rightarrow> edge_type_storage \<Rightarrow> edge_type_id \<Rightarrow> edge_type_storage graph_result" where
  "prepare_push al self type_id =
     (if type_id = SENTINEL then Inl (Err EdgeTypeLimit)
      else let required = select_for_max_id type_id in
        rbind (if width_bytes (storage_width self) < width_bytes required
               then widen al self required else Inr self)
          (\<lambda>self'. rbind (try_reserve al 1) (\<lambda>_. Inr self')))"

fun storage_push :: "edge_type_storage \<Rightarrow> edge_type_id \<Rightarrow> edge_type_storage graph_result" where
  "storage_push (SOne values) type_id =
     rbind (ok_or (Err EdgeTypeLimit) (u8_try_from type_id)) (\<lambda>v. Inr (SOne (values @ [v])))"
| "storage_push (STwo values) type_id =
     rbind (ok_or (Err EdgeTypeLimit) (u16_try_from type_id)) (\<lambda>v. Inr (STwo (values @ [v])))"
| "storage_push (SFour values) type_id = Inr (SFour (values @ [type_id]))"

definition storage_try_push :: "alloc_env \<Rightarrow> edge_type_storage \<Rightarrow> edge_type_id \<Rightarrow> edge_type_storage graph_result" where
  "storage_try_push al self type_id =
     rbind (prepare_push al self type_id) (\<lambda>self'. storage_push self' type_id)"

section \<open>Borrowed views\<close>

fun types_len :: "edge_type_storage \<Rightarrow> usize" where
  "types_len (SOne values) = length values"
| "types_len (STwo values) = length values"
| "types_len (SFour values) = length values"

text \<open>The raw value at an index, as both accessors read it.\<close>

fun types_raw :: "edge_type_storage \<Rightarrow> usize \<Rightarrow> u32 option" where
  "types_raw (SOne values) index = map_option ucast (get_opt values index)"
| "types_raw (STwo values) index = map_option ucast (get_opt values index)"
| "types_raw (SFour values) index = get_opt values index"

definition types_get :: "edge_type_storage \<Rightarrow> usize \<Rightarrow> edge_type_id option" where
  "types_get self index =
     (case types_raw self index of
        None \<Rightarrow> None
      | Some raw \<Rightarrow> (case edge_type_try_from raw of Inl _ \<Rightarrow> None | Inr t \<Rightarrow> Some t))"

definition types_at :: "edge_type_storage \<Rightarrow> usize \<Rightarrow> edge_type_id graph_result" where
  "types_at self index = ok_or Panic (types_raw self index)"

function types_iter_from :: "edge_type_storage \<Rightarrow> usize \<Rightarrow> edge_type_id list" where
  "types_iter_from self position =
     (if position < types_len self then
        (case types_get self position of
           None \<Rightarrow> []
         | Some value \<Rightarrow> value # types_iter_from self (position + 1))
      else [])"
  by pat_completeness auto
termination
  by (relation "measure (\<lambda>(self, position). types_len self - position)") auto

declare types_iter_from.simps [simp del]

definition types_iter :: "edge_type_storage \<Rightarrow> edge_type_id list" where
  "types_iter self = types_iter_from self 0"

fun types_subslice :: "edge_type_storage \<Rightarrow> usize \<Rightarrow> usize \<Rightarrow> edge_type_storage graph_result" where
  "types_subslice (SOne values) i j = rbind (slice_r values i j) (\<lambda>v. Inr (SOne v))"
| "types_subslice (STwo values) i j = rbind (slice_r values i j) (\<lambda>v. Inr (STwo v))"
| "types_subslice (SFour values) i j = rbind (slice_r values i j) (\<lambda>v. Inr (SFour v))"

fun contains_physical_sentinel :: "edge_type_storage \<Rightarrow> bool" where
  "contains_physical_sentinel (SOne values) = (255 \<in> set values)"
| "contains_physical_sentinel (STwo values) = (65535 \<in> set values)"
| "contains_physical_sentinel (SFour values) = (4294967295 \<in> set values)"

section \<open>Abstraction: the list of logical identifiers\<close>

fun logical_ids :: "edge_type_storage \<Rightarrow> edge_type_id list" where
  "logical_ids (SOne values) = map ucast values"
| "logical_ids (STwo values) = map ucast values"
| "logical_ids (SFour values) = values"

lemma types_len_eq [simp]: "types_len s = length (logical_ids s)"
  by (cases s) auto

lemma types_raw_eq: "types_raw s i = get_opt (logical_ids s) i"
  by (cases s) (auto simp: get_opt_def)

lemma types_at_eq: "types_at s i = index_r (logical_ids s) i"
  by (auto simp: types_at_def types_raw_eq get_opt_def index_r_def)

lemma logical_ids_storage_new [simp]: "logical_ids storage_new = []"
  by (simp add: storage_new_def)

lemma ucast_u8_u16_u32 [simp]: "ucast (ucast (v :: u8) :: u16) = (ucast v :: u32)"
  by transfer simp

lemma unat_u8_bound: "unat (v :: u8) < 256"
  using unsigned_less [of v] by simp

lemma unat_u16_bound: "unat (v :: u16) < 65536"
  using unsigned_less [of v] by simp

lemma unat_u32_bound: "unat (v :: u32) < 4294967296"
  using unsigned_less [of v] by simp

lemma unat_ucast_u8 [simp]: "unat (ucast (v :: u8) :: u32) = unat v"
  using unat_u8_bound [of v] by (simp add: unsigned_ucast_eq take_bit_nat_eq_self)

lemma unat_ucast_u16 [simp]: "unat (ucast (v :: u16) :: u32) = unat v"
  using unat_u16_bound [of v] by (simp add: unsigned_ucast_eq take_bit_nat_eq_self)

lemma take_bit_u32_small [simp]: "unat (t :: u32) < 2 ^ n \<Longrightarrow> take_bit n t = t"
  by (simp add: word_unat_eq_iff unsigned_take_bit_eq take_bit_nat_eq_self)

lemma ucast_u32_u8_u32 [simp]: "unat (t :: u32) < 256 \<Longrightarrow> (ucast (ucast t :: u8) :: u32) = t"
  by (simp add: word_unat_eq_iff unsigned_ucast_eq take_bit_nat_eq_self)

lemma ucast_u32_u16_u32 [simp]: "unat (t :: u32) < 65536 \<Longrightarrow> (ucast (ucast t :: u16) :: u32) = t"
  by (simp add: word_unat_eq_iff unsigned_ucast_eq take_bit_nat_eq_self)

lemma u8_try_from_eq: "u8_try_from t = (if unat t < 256 then Some (ucast t) else None)"
  by (auto simp: u8_try_from_def word_le_nat_alt)

lemma u16_try_from_eq: "u16_try_from t = (if unat t < 65536 then Some (ucast t) else None)"
  by (auto simp: u16_try_from_def word_le_nat_alt)

lemma select_for_max_id_eq:
  "select_for_max_id t = (if unat t < 255 then One else if unat t < 65535 then Two else Four)"
  by (auto simp: select_for_max_id_def V6_MAX_USER_ID_def word_le_nat_alt word_less_nat_alt)

lemma SENTINEL_iff: "t = SENTINEL \<longleftrightarrow> unat t = 4294967295"
  by (auto simp: SENTINEL_def word_unat_eq_iff)

lemma ucast_inj_u8: "ucast (v :: u8) = (w :: u32) \<Longrightarrow> unat v = unat w"
  by auto

text \<open>The identifiers a width can hold without its all-ones value.\<close>

definition fits_width :: "edge_type_width \<Rightarrow> edge_type_id \<Rightarrow> bool" where
  "fits_width w t \<longleftrightarrow> width_bytes (select_for_max_id t) \<le> width_bytes w \<and> t \<noteq> SENTINEL"

lemma fits_width_simps:
  "fits_width One t \<longleftrightarrow> unat t < 255"
  "fits_width Two t \<longleftrightarrow> unat t < 65535"
  "fits_width Four t \<longleftrightarrow> unat t < 4294967295"
  using unat_u32_bound [of t]
  by (auto simp: fits_width_def select_for_max_id_eq SENTINEL_iff)

section \<open>Storage invariant\<close>

definition storage_ok :: "edge_type_storage \<Rightarrow> bool" where
  "storage_ok s \<longleftrightarrow> \<not> contains_physical_sentinel s"

lemma storage_ok_iff: "storage_ok s \<longleftrightarrow> (\<forall>t \<in> set (logical_ids s). fits_width (storage_width s) t)"
proof (cases s)
  case (SOne vs)
  have "v = 255 \<longleftrightarrow> \<not> unat v < 255" for v :: u8
    using unat_u8_bound [of v] by (auto simp: word_unat_eq_iff)
  then have "255 \<notin> set vs \<longleftrightarrow> (\<forall>v \<in> set vs. unat v < 255)" by metis
  with SOne show ?thesis by (simp add: storage_ok_def fits_width_simps)
next
  case (STwo vs)
  have "v = 65535 \<longleftrightarrow> \<not> unat v < 65535" for v :: u16
    using unat_u16_bound [of v] by (auto simp: word_unat_eq_iff)
  then have "65535 \<notin> set vs \<longleftrightarrow> (\<forall>v \<in> set vs. unat v < 65535)" by metis
  with STwo show ?thesis by (simp add: storage_ok_def fits_width_simps)
next
  case (SFour vs)
  have "v = 4294967295 \<longleftrightarrow> \<not> unat v < 4294967295" for v :: u32
    using unat_u32_bound [of v] by (auto simp: word_unat_eq_iff)
  then have "4294967295 \<notin> set vs \<longleftrightarrow> (\<forall>v \<in> set vs. unat v < 4294967295)" by metis
  with SFour show ?thesis by (simp add: storage_ok_def fits_width_simps)
qed

lemma storage_ok_new [simp]: "storage_ok storage_new"
  by (simp add: storage_ok_def storage_new_def)

definition wider :: "edge_type_width \<Rightarrow> edge_type_width \<Rightarrow> edge_type_width" where
  "wider v w = (if width_bytes v < width_bytes w then w else v)"

lemma wider_simps [simp]: "wider w w = w" "wider One w = w" "wider w One = w"
  "wider Four w = Four" "wider w Four = Four"
  by (cases w; simp add: wider_def)+

lemma wider_absorb [simp]: "wider (wider v w) w = wider v w"
  by (simp add: wider_def)

lemma wider_assoc: "wider (wider u v) w = wider u (wider v w)"
  by (cases u; cases v; cases w) (simp_all add: wider_def)

lemma fits_wider: "fits_width v t \<Longrightarrow> fits_width (wider v w) t"
  by (auto simp: wider_def fits_width_def)

lemma fits_wider_select: "t \<noteq> SENTINEL \<Longrightarrow> fits_width (wider w (select_for_max_id t)) t"
  by (auto simp: wider_def fits_width_def)

lemma widen_Inr:
  "widen al s w = Inr s' \<Longrightarrow> width_bytes (storage_width s) < width_bytes w \<Longrightarrow>
    logical_ids s' = logical_ids s \<and> storage_width s' = w"
  by (cases s; cases w) (auto simp: result_simps)

lemma widen_unlimited: "\<exists>s'. widen unlimited_alloc s w = Inr s'"
  by (cases s; cases w) auto

lemma prepare_push_Inr:
  "prepare_push al s t = Inr s' \<Longrightarrow>
    t \<noteq> SENTINEL \<and> logical_ids s' = logical_ids s \<and>
    storage_width s' = wider (storage_width s) (select_for_max_id t)"
  by (auto simp: prepare_push_def Let_def result_simps wider_def dest: widen_Inr split: if_splits)

lemma storage_push_ok:
  "fits_width (storage_width s) t \<Longrightarrow>
    \<exists>s'. storage_push s t = Inr s' \<and> logical_ids s' = logical_ids s @ [t] \<and>
      storage_width s' = storage_width s"
  by (cases s) (auto simp: fits_width_simps u8_try_from_eq u16_try_from_eq)

text \<open>
  What a push does when it returns: the logical list grows by the identifier, the width
  grows to what the identifier needs, the invariant is kept.
\<close>

lemma storage_try_push_Inr:
  assumes "storage_try_push al s t = Inr s'"
  shows "t \<noteq> SENTINEL" and "logical_ids s' = logical_ids s @ [t]"
    and "storage_width s' = wider (storage_width s) (select_for_max_id t)"
proof -
  from assms obtain s1 where s1: "prepare_push al s t = Inr s1" and s': "storage_push s1 t = Inr s'"
    by (auto simp: storage_try_push_def result_simps)
  from prepare_push_Inr [OF s1]
  have t: "t \<noteq> SENTINEL" and ids: "logical_ids s1 = logical_ids s"
    and w: "storage_width s1 = wider (storage_width s) (select_for_max_id t)"
    by auto
  have "fits_width (storage_width s1) t"
    using t w by (simp add: fits_wider_select)
  from storage_push_ok [OF this] s' ids w
  show "logical_ids s' = logical_ids s @ [t]"
    and "storage_width s' = wider (storage_width s) (select_for_max_id t)"
    by auto
  from t show "t \<noteq> SENTINEL" .
qed

lemma prepare_push_ok:
  assumes "prepare_push al s t = Inr s'" and "storage_ok s"
  shows "storage_ok s'"
  using prepare_push_Inr [OF assms(1)] assms(2) by (auto simp: storage_ok_iff fits_wider)

lemma storage_try_push_ok:
  assumes "storage_try_push al s t = Inr s'" and "storage_ok s"
  shows "storage_ok s'"
  using storage_try_push_Inr [OF assms(1)] assms(2)
  by (auto simp: storage_ok_iff fits_wider fits_wider_select)

lemma storage_try_push_unlimited:
  assumes "t \<noteq> SENTINEL"
  shows "\<exists>s'. storage_try_push unlimited_alloc s t = Inr s'"
proof -
  obtain s1 where s1: "prepare_push unlimited_alloc s t = Inr s1"
    using assms widen_unlimited [of s "select_for_max_id t"]
    by (cases "width_bytes (storage_width s) < width_bytes (select_for_max_id t)")
      (auto simp: prepare_push_def Let_def)
  from prepare_push_Inr [OF s1] assms have "fits_width (storage_width s1) t"
    by (simp add: fits_wider_select)
  from storage_push_ok [OF this] s1 show ?thesis
    by (auto simp: storage_try_push_def)
qed

text \<open>A storage is determined by its width and its logical list.\<close>

lemma storage_eqI:
  "storage_width s = storage_width s' \<Longrightarrow> logical_ids s = logical_ids s' \<Longrightarrow> s = s'"
proof -
  have inj8: "inj (ucast :: u8 \<Rightarrow> u32)" and inj16: "inj (ucast :: u16 \<Rightarrow> u32)"
    by (auto intro!: injI simp: word_unat_eq_iff dest!: arg_cong [of _ _ unat])
  assume "storage_width s = storage_width s'" "logical_ids s = logical_ids s'"
  then show "s = s'"
    using inj8 inj16 by (cases s; cases s') (auto simp: inj_map_eq_map)
qed

lemma types_get_eq:
  "types_get s i = opt_filter (\<lambda>t. t \<noteq> SENTINEL) (get_opt (logical_ids s) i)"
  by (auto simp: types_get_def types_raw_eq edge_type_try_from_def get_opt_def)

lemma storage_ok_no_SENTINEL: "storage_ok s \<Longrightarrow> SENTINEL \<notin> set (logical_ids s)"
  by (auto simp: storage_ok_iff fits_width_def)

lemma types_iter_from_ok:
  "storage_ok s \<Longrightarrow> types_iter_from s i = drop i (logical_ids s)"
proof (induction s i rule: types_iter_from.induct)
  case (1 s i)
  show ?case
  proof (cases "i < types_len s")
    case True
    with "1.prems" have "logical_ids s ! i \<noteq> SENTINEL"
      using storage_ok_no_SENTINEL nth_mem by fastforce
    with True have get: "types_get s i = Some (logical_ids s ! i)"
      by (simp add: types_get_eq)
    with True "1.IH" "1.prems" show ?thesis
      by (subst types_iter_from.simps) (simp add: Cons_nth_drop_Suc)
  next
    case False
    then show ?thesis by (subst types_iter_from.simps) simp
  qed
qed

lemma types_iter_ok: "storage_ok s \<Longrightarrow> types_iter s = logical_ids s"
  by (simp add: types_iter_def types_iter_from_ok)

lemma types_subslice_ok:
  assumes "i \<le> j" and "j \<le> types_len s"
  shows "\<exists>v. types_subslice s i j = Inr v \<and> logical_ids v = slice i j (logical_ids s) \<and>
    storage_width v = storage_width s"
  using assms by (cases s) (auto simp: slice_map)

lemma types_subslice_storage_ok:
  assumes "types_subslice s i j = Inr v" and "storage_ok s"
  shows "storage_ok v"
  using assms by (cases s) (auto simp: result_simps storage_ok_def dest: set_sliceD)

end
