(* ===== verification/EdgeStore.thy ===== *)
theory EdgeStore
  imports EdgeTypes "HOL-Library.Product_Lexorder" "HOL-Library.Multiset"
begin

text \<open>
  The compressed sparse row edge storage of \<open>edge_store.rs\<close>: raw edges, the streaming
  builder over edges sorted by source, the owned arrays, the accessors every traversal
  reads, and the bulk constructor from unsorted edges. The memory-mapped backing is in
  theory \<open>EdgeMmap\<close>, the reverse CSR in \<open>EdgeReverse\<close>.

  Vector capacities are the allocator's business and are not modelled, apart from the
  builder's own \<open>edge_capacity\<close> guard.
\<close>

section \<open>Raw edges\<close>

type_synonym relationship_id = u32

definition NO_RELATIONSHIP_ID :: relationship_id where
  "NO_RELATIONSHIP_ID = 0"

record raw_edge =
  source :: u32
  target :: u32
  type_id :: edge_type_id
  weight :: "u32 option"
  reversed_copy :: bool

record identified_raw_edge =
  edge :: raw_edge
  edge_relationship_id :: relationship_id

definition validate_raw_edge :: "u32 \<Rightarrow> raw_edge \<Rightarrow> unit graph_result" where
  "validate_raw_edge node_count e =
     (if type_id e = SENTINEL then Inl (Err EdgeTypeLimit)
      else if source e \<ge> node_count then
        Inl (Err (Internal (''edge source '' @ show_nat (unat (source e)) @
          '' is outside node range 0..'' @ show_nat (unat node_count))))
      else if target e \<ge> node_count then
        Inl (Err (Internal (''edge target '' @ show_nat (unat (target e)) @
          '' is outside node range 0..'' @ show_nat (unat node_count))))
      else Inr ())"

section \<open>Owned arrays\<close>

record edge_arrays =
  edge_offsets :: "u32 list"
  targets :: "u32 list"
  type_ids :: edge_type_storage
  schema_reversed :: "u8 list"
  weights :: "u32 list"
  relationship_ids :: "relationship_id list"

definition edge_store_new :: edge_arrays where
  "edge_store_new = \<lparr>edge_offsets = [0], targets = [], type_ids = storage_new,
     schema_reversed = [], weights = [], relationship_ids = []\<rparr>"

section \<open>The streaming builder\<close>

record edge_builder = edge_arrays +
  b_node_count :: u32
  b_has_weights :: bool
  b_current_node :: u32
  b_edge_capacity :: "usize option"
  b_type_width_limit :: "edge_type_width option"

definition csr_internal :: "string \<Rightarrow> graph_error fault" where
  "csr_internal msg = Err (Internal msg)"

definition planned_storage_bytes_for_width ::
  "u32 \<Rightarrow> usize \<Rightarrow> bool \<Rightarrow> edge_type_width \<Rightarrow> usize graph_result" where
  "planned_storage_bytes_for_width node_count edge_capacity has_weights type_width =
     (if edge_capacity > 4294967295 then
        Inl (csr_internal ''CSR edge count exceeds the u32 offset format'')
      else
        rbind (ok_or (csr_internal ''CSR offset bytes overflowed usize'')
          (Option.bind (checked_add_usize (unat node_count) 1) (\<lambda>count. checked_mul_usize count 4)))
        (\<lambda>offsets.
        rbind (ok_or (csr_internal ''CSR edge width overflowed usize'')
          (Option.bind (checked_add_usize 4 (width_bytes type_width)) (\<lambda>bytes.
           Option.bind (checked_add_usize bytes 1) (\<lambda>bytes.
           Option.bind (checked_add_usize bytes 4) (\<lambda>bytes.
             checked_add_usize bytes (if has_weights then 4 else 0))))))
        (\<lambda>per_edge.
        rbind (ok_or (csr_internal ''CSR edge bytes overflowed usize'')
          (checked_mul_usize edge_capacity per_edge))
        (\<lambda>edge_bytes.
          ok_or (csr_internal ''CSR storage bytes overflowed usize'')
            (checked_add_usize offsets edge_bytes)))))"

definition offset_capacity :: "u32 \<Rightarrow> usize graph_result" where
  "offset_capacity node_count =
     ok_or (csr_internal ''CSR offset count overflowed usize'') (checked_add_usize (unat node_count) 1)"

definition builder_try_new :: "alloc_env \<Rightarrow> u32 \<Rightarrow> bool \<Rightarrow> edge_builder graph_result" where
  "builder_try_new al node_count has_weights =
     rbind (offset_capacity node_count) (\<lambda>cap.
     rbind (try_reserve al cap) (\<lambda>_.
     Inr \<lparr>edge_offsets = [0], targets = [], type_ids = storage_new, schema_reversed = [],
       weights = [], relationship_ids = [], b_node_count = node_count,
       b_has_weights = has_weights, b_current_node = 0, b_edge_capacity = None,
       b_type_width_limit = None\<rparr>))"

definition builder_with_capacity ::
  "alloc_env \<Rightarrow> u32 \<Rightarrow> usize \<Rightarrow> bool \<Rightarrow> edge_type_width \<Rightarrow> edge_builder graph_result" where
  "builder_with_capacity al node_count edge_capacity has_weights type_width =
     rbind (planned_storage_bytes_for_width node_count edge_capacity has_weights type_width) (\<lambda>_.
     rbind (offset_capacity node_count) (\<lambda>cap.
     rbind (try_reserve al cap) (\<lambda>_.
     rbind (try_reserve al edge_capacity) (\<lambda>_.
     rbind (storage_with_capacity al edge_capacity type_width) (\<lambda>type_ids.
     rbind (try_reserve al edge_capacity) (\<lambda>_.
     rbind (try_reserve al edge_capacity) (\<lambda>_.
     rbind (if has_weights then try_reserve al edge_capacity else Inr ()) (\<lambda>_.
     Inr \<lparr>edge_offsets = [0], targets = [], type_ids = type_ids, schema_reversed = [],
       weights = [], relationship_ids = [], b_node_count = node_count,
       b_has_weights = has_weights, b_current_node = 0, b_edge_capacity = Some edge_capacity,
       b_type_width_limit = Some type_width\<rparr>))))))))"

text \<open>
  \<open>while self.current_node < edge.source\<close>: one offset per node passed over. The counter
  grows to \<open>source\<close>, so the distance between them is the measure.
\<close>

function advance_offsets :: "u32 \<Rightarrow> edge_builder \<Rightarrow> edge_builder" where
  "advance_offsets src b =
     (if b_current_node b < src then
        advance_offsets src (b\<lparr>b_current_node := b_current_node b + 1,
          edge_offsets := edge_offsets b @ [word_of_nat (length (targets b))]\<rparr>)
      else b)"
  by pat_completeness auto
termination
proof (relation "measure (\<lambda>(src, b). unat src - unat (b_current_node b))")
  show "((src, b\<lparr>b_current_node := b_current_node b + 1,
      edge_offsets := edge_offsets b @ [word_of_nat (length (targets b))]\<rparr>), (src, b))
    \<in> measure (\<lambda>(src, b). unat src - unat (b_current_node b))"
    if "b_current_node b < src" for src and b :: edge_builder
    using that by (simp add: unat_inc word_less_nat_alt)
qed simp

declare advance_offsets.simps [simp del]

definition try_push_identified ::
  "alloc_env \<Rightarrow> identified_raw_edge \<Rightarrow> edge_builder \<Rightarrow> edge_builder graph_result" where
  "try_push_identified al identified b =
     (let e = edge identified in
      rbind (validate_raw_edge (b_node_count b) e) (\<lambda>_.
      if (case b_edge_capacity b of None \<Rightarrow> False | Some capacity \<Rightarrow> length (targets b) \<ge> capacity)
      then Inl (csr_internal ''CSR edge count exceeded its preflight capacity'')
      else if (case b_type_width_limit b of None \<Rightarrow> False
               | Some width \<Rightarrow> width_bytes (select_for_max_id (type_id e)) > width_bytes width)
      then Inl (csr_internal ''edge type ID exceeded its preflight physical width'')
      else
        rbind (prepare_push al (type_ids b) (type_id e)) (\<lambda>prepared.
        rbind (try_reserve al 1) (\<lambda>_.
        rbind (try_reserve al 1) (\<lambda>_.
        rbind (try_reserve al 1) (\<lambda>_.
        rbind (if b_has_weights b then try_reserve al 1 else Inr ()) (\<lambda>_.
        let b1 = advance_offsets (source e) (b\<lparr>type_ids := prepared\<rparr>);
            b2 = b1\<lparr>targets := targets b1 @ [target e]\<rparr> in
        rbind (storage_try_push al (type_ids b2) (type_id e)) (\<lambda>pushed.
        Inr (b2\<lparr>type_ids := pushed,
          schema_reversed := schema_reversed b2 @ [if reversed_copy e then 1 else 0],
          relationship_ids := relationship_ids b2 @ [edge_relationship_id identified],
          weights := (if b_has_weights b then weights b2 @ [opt_get_or 1 (weight e)]
                      else weights b2)\<rparr>)))))))))"

definition try_push :: "alloc_env \<Rightarrow> raw_edge \<Rightarrow> edge_builder \<Rightarrow> edge_builder graph_result" where
  "try_push al e b =
     try_push_identified al \<lparr>edge = e, edge_relationship_id = NO_RELATIONSHIP_ID\<rparr> b"

text \<open>\<open>while edge_offsets.len() < node_count + 1\<close> pushes the edge count.\<close>

function fill_offsets :: "nat \<Rightarrow> u32 \<Rightarrow> u32 list \<Rightarrow> u32 list" where
  "fill_offsets n v offs = (if length offs < n then fill_offsets n v (offs @ [v]) else offs)"
  by pat_completeness auto
termination
  by (relation "measure (\<lambda>(n, v, offs). n - length offs)") auto

declare fill_offsets.simps [simp del]

definition finish :: "edge_builder \<Rightarrow> edge_arrays" where
  "finish b =
     \<lparr>edge_offsets = fill_offsets (unat (b_node_count b) + 1) (word_of_nat (length (targets b)))
        (edge_offsets b),
      targets = targets b, type_ids = type_ids b, schema_reversed = schema_reversed b,
      weights = weights b, relationship_ids = relationship_ids b\<rparr>"

definition try_from_sorted_edges ::
  "alloc_env \<Rightarrow> u32 \<Rightarrow> raw_edge list \<Rightarrow> bool \<Rightarrow> edge_arrays graph_result" where
  "try_from_sorted_edges al node_count edges has_weights =
     rbind (builder_try_new al node_count has_weights) (\<lambda>b.
     rbind (fold_r (try_push al) edges b) (\<lambda>b. Inr (finish b)))"

section \<open>Bulk construction from unsorted edges\<close>

text \<open>The sort key of \<open>from_valid_edges\<close>, compared lexicographically.\<close>

definition edge_key :: "raw_edge \<Rightarrow> u32 \<times> u32 \<times> edge_type_id \<times> bool" where
  "edge_key e = (source e, target e, type_id e, reversed_copy e)"

text \<open>
  \<open>sort_unstable_by\<close> may order equal keys either way, so the sort is an argument: any
  function that permutes its input into key order.
\<close>

definition sorts_edges :: "(raw_edge list \<Rightarrow> raw_edge list) \<Rightarrow> bool" where
  "sorts_edges srt \<longleftrightarrow> (\<forall>es. mset (srt es) = mset es \<and> sorted (map edge_key (srt es)))"

definition storage_for_width :: "edge_type_width \<Rightarrow> edge_type_storage" where
  "storage_for_width w = (case w of One \<Rightarrow> SOne [] | Two \<Rightarrow> STwo [] | Four \<Rightarrow> SFour [])"

definition max_type_id :: "raw_edge list \<Rightarrow> edge_type_id" where
  "max_type_id es = (case es of [] \<Rightarrow> UNTYPED | e # rest \<Rightarrow> fold max (map type_id rest) (type_id e))"

text \<open>The inner loop: copy the edges of one source node; a failed push is the \<open>expect\<close> panic.\<close>

fun copy_node_edges ::
  "alloc_env \<Rightarrow> bool \<Rightarrow> u32 \<Rightarrow> raw_edge list \<Rightarrow> edge_arrays \<Rightarrow> (raw_edge list \<times> edge_arrays) graph_result" where
  "copy_node_edges al has_weights node [] a = Inr ([], a)"
| "copy_node_edges al has_weights node (e # es) a =
     (if source e = node then
        (case storage_try_push al (type_ids a) (type_id e) of
           Inl _ \<Rightarrow> Inl Panic
         | Inr pushed \<Rightarrow>
             copy_node_edges al has_weights node es
               (a\<lparr>targets := targets a @ [target e], type_ids := pushed,
                  schema_reversed := schema_reversed a @ [if reversed_copy e then 1 else 0],
                  weights := (if has_weights then weights a @ [opt_get_or 1 (weight e)]
                              else weights a)\<rparr>))
      else Inr (e # es, a))"

definition copy_node ::
  "alloc_env \<Rightarrow> bool \<Rightarrow> nat \<Rightarrow> raw_edge list \<times> edge_arrays \<Rightarrow> (raw_edge list \<times> edge_arrays) graph_result" where
  "copy_node al has_weights node st =
     (case st of (es, a) \<Rightarrow>
        copy_node_edges al has_weights (word_of_nat node) es
          (a\<lparr>edge_offsets := edge_offsets a @ [word_of_nat (length (targets a))]\<rparr>))"

definition from_valid_edges ::
  "alloc_env \<Rightarrow> (raw_edge list \<Rightarrow> raw_edge list) \<Rightarrow> u32 \<Rightarrow> raw_edge list \<Rightarrow> bool \<Rightarrow> edge_arrays graph_result" where
  "from_valid_edges al srt node_count edges has_weights =
     (let es = srt edges;
          edge_count = length es;
          init = \<lparr>edge_offsets = [], targets = [],
            type_ids = storage_for_width (select_for_max_id (max_type_id es)),
            schema_reversed = [], weights = [], relationship_ids = []\<rparr> in
      rbind (fold_r (copy_node al has_weights) [0..<unat node_count] (es, init))
        (\<lambda>(_, a). Inr (a\<lparr>edge_offsets := edge_offsets a @ [word_of_nat (length (targets a))],
           relationship_ids := replicate edge_count NO_RELATIONSHIP_ID\<rparr>)))"

definition try_from_edges ::
  "alloc_env \<Rightarrow> (raw_edge list \<Rightarrow> raw_edge list) \<Rightarrow> u32 \<Rightarrow> raw_edge list \<Rightarrow> bool \<Rightarrow> edge_arrays graph_result" where
  "try_from_edges al srt node_count edges has_weights =
     rbind (fold_r (\<lambda>e _. validate_raw_edge node_count e) edges ()) (\<lambda>_.
       from_valid_edges al srt node_count edges has_weights)"

section \<open>Specification of the arrays\<close>

text \<open>
  \<open>csr_of nc hw es a\<close>: the arrays \<open>a\<close> are the CSR layout of the edge list \<open>es\<close>, in
  which offset \<open>i\<close> counts the edges whose source is below \<open>i\<close>.
\<close>

definition edge_source :: "identified_raw_edge \<Rightarrow> nat" where
  "edge_source e = unat (source (edge e))"

definition count_below :: "identified_raw_edge list \<Rightarrow> nat \<Rightarrow> nat" where
  "count_below es i = length (filter (\<lambda>e. edge_source e < i) es)"

definition flag_u8 :: "bool \<Rightarrow> u8" where
  "flag_u8 b = (if b then 1 else 0)"

definition payload_of ::
  "bool \<Rightarrow> identified_raw_edge list \<Rightarrow> ('a edge_arrays_scheme) \<Rightarrow> bool" where
  "payload_of hw es a \<longleftrightarrow>
     targets a = map (\<lambda>e. target (edge e)) es \<and>
     logical_ids (type_ids a) = map (\<lambda>e. type_id (edge e)) es \<and>
     storage_ok (type_ids a) \<and>
     schema_reversed a = map (\<lambda>e. flag_u8 (reversed_copy (edge e))) es \<and>
     weights a = (if hw then map (\<lambda>e. opt_get_or 1 (weight (edge e))) es else [])"

definition csr_of :: "u32 \<Rightarrow> bool \<Rightarrow> identified_raw_edge list \<Rightarrow> edge_arrays \<Rightarrow> bool" where
  "csr_of nc hw es a \<longleftrightarrow>
     edge_offsets a = map (\<lambda>i. word_of_nat (count_below es i)) [0..<Suc (unat nc)] \<and>
     relationship_ids a = map edge_relationship_id es \<and> payload_of hw es a"

lemma count_below_simps [simp]:
  "count_below [] i = 0"
  "count_below (es @ es') i = count_below es i + count_below es' i"
  "count_below [e] i = (if edge_source e < i then 1 else 0)"
  "count_below es 0 = 0"
  by (simp_all add: count_below_def)

lemma count_below_all: "(\<And>e. e \<in> set es \<Longrightarrow> edge_source e < i) \<Longrightarrow> count_below es i = length es"
  unfolding count_below_def by (metis filter_True)

lemma count_below_bound: "\<forall>e \<in> set es. edge_source e \<le> c \<Longrightarrow> c < i \<Longrightarrow> count_below es i = length es"
  by (rule count_below_all) auto

lemma count_below_le: "count_below es i \<le> length es"
  by (simp add: count_below_def)

lemma count_below_mono: "i \<le> j \<Longrightarrow> count_below es i \<le> count_below es j"
  unfolding count_below_def by (induction es) auto

subsection \<open>The builder\<close>

lemma advance_offsets_eq:
  "advance_offsets src b =
     (if b_current_node b < src then
        b\<lparr>b_current_node := src,
          edge_offsets := edge_offsets b @
            replicate (unat src - unat (b_current_node b)) (word_of_nat (length (targets b)))\<rparr>
      else b)"
proof (induction src b rule: advance_offsets.induct)
  case (1 src b)
  show ?case
  proof (cases "b_current_node b < src")
    case True
    let ?c = "b_current_node b"
    have inc: "unat (?c + 1) = Suc (unat ?c)" and lt: "unat ?c < unat src"
      using True by (simp_all add: unat_inc word_less_nat_alt)
    have step: "unat src - unat ?c = Suc (unat src - unat (?c + 1))"
      using inc lt by simp
    show ?thesis
    proof (cases "?c + 1 < src")
      case True
      with "1.IH" [OF \<open>?c < src\<close>] \<open>?c < src\<close> show ?thesis
        by (subst advance_offsets.simps) (simp add: step)
    next
      case False
      then have "?c + 1 = src"
        using inc lt by (simp add: word_unat_eq_iff word_less_nat_alt)
      moreover from this have "unat src - unat ?c = 1"
        using inc by simp
      ultimately show ?thesis
        using "1.IH" [OF \<open>?c < src\<close>] \<open>?c < src\<close> by (subst advance_offsets.simps) simp
    qed
  next
    case False
    then show ?thesis by (subst advance_offsets.simps) simp
  qed
qed

lemma fill_offsets_eq: "fill_offsets n v offs = offs @ replicate (n - length offs) v"
proof (induction n v offs rule: fill_offsets.induct)
  case (1 n v offs)
  show ?case
  proof (cases "length offs < n")
    case True
    then have "n - length offs = Suc (n - length (offs @ [v]))" by simp
    with True "1.IH" show ?thesis by (subst fill_offsets.simps) simp
  next
    case False
    then show ?thesis by (subst fill_offsets.simps) simp
  qed
qed

definition builder_inv :: "u32 \<Rightarrow> bool \<Rightarrow> identified_raw_edge list \<Rightarrow> edge_builder \<Rightarrow> bool" where
  "builder_inv nc hw es b \<longleftrightarrow>
     b_node_count b = nc \<and> b_has_weights b = hw \<and>
     relationship_ids b = map edge_relationship_id es \<and> payload_of hw es b \<and>
     edge_offsets b =
       map (\<lambda>i. word_of_nat (count_below es i)) [0..<Suc (unat (b_current_node b))] \<and>
     (\<forall>e \<in> set es. edge_source e \<le> unat (b_current_node b)) \<and>
     (\<forall>e \<in> set es. validate_raw_edge nc (edge e) = Inr ()) \<and>
     (b_current_node b \<noteq> 0 \<longrightarrow> (\<exists>e \<in> set es. edge_source e = unat (b_current_node b)))"

text \<open>What a successful push changes, and the checks it has passed.\<close>

lemma try_push_identified_Inr:
  assumes "try_push_identified al i b = Inr b'"
  obtains st where
    "validate_raw_edge (b_node_count b) (edge i) = Inr ()"
    "logical_ids st = logical_ids (type_ids b) @ [type_id (edge i)]"
    "storage_width st = wider (storage_width (type_ids b)) (select_for_max_id (type_id (edge i)))"
    "storage_ok (type_ids b) \<longrightarrow> storage_ok st"
    "b' = (advance_offsets (source (edge i)) b)
      \<lparr>targets := targets b @ [target (edge i)], type_ids := st,
       schema_reversed := schema_reversed b @ [flag_u8 (reversed_copy (edge i))],
       relationship_ids := relationship_ids b @ [edge_relationship_id i],
       weights := (if b_has_weights b then weights b @ [opt_get_or 1 (weight (edge i))]
                   else weights b)\<rparr>"
proof -
  let ?t = "type_id (edge i)" and ?src = "source (edge i)"
  from assms obtain prep st where
    val: "validate_raw_edge (b_node_count b) (edge i) = Inr ()"
    and prep: "prepare_push al (type_ids b) ?t = Inr prep"
    and st: "storage_try_push al (type_ids (advance_offsets ?src (b\<lparr>type_ids := prep\<rparr>))) ?t = Inr st"
    and b': "b' = (advance_offsets ?src (b\<lparr>type_ids := prep\<rparr>))
      \<lparr>targets := targets (advance_offsets ?src (b\<lparr>type_ids := prep\<rparr>)) @ [target (edge i)],
       type_ids := st,
       schema_reversed := schema_reversed (advance_offsets ?src (b\<lparr>type_ids := prep\<rparr>)) @
         [if reversed_copy (edge i) then 1 else 0],
       relationship_ids := relationship_ids (advance_offsets ?src (b\<lparr>type_ids := prep\<rparr>)) @
         [edge_relationship_id i],
       weights := (if b_has_weights b
         then weights (advance_offsets ?src (b\<lparr>type_ids := prep\<rparr>)) @ [opt_get_or 1 (weight (edge i))]
         else weights (advance_offsets ?src (b\<lparr>type_ids := prep\<rparr>)))\<rparr>"
    by (auto simp: try_push_identified_def Let_def result_simps split: if_splits)
  have st': "storage_try_push al prep ?t = Inr st"
    using st by (simp add: advance_offsets_eq split: if_splits)
  note P = prepare_push_Inr [OF prep] and S = storage_try_push_Inr [OF st']
  show ?thesis
  proof (rule that [of st])
    show "validate_raw_edge (b_node_count b) (edge i) = Inr ()" by (rule val)
    show "logical_ids st = logical_ids (type_ids b) @ [?t]" using P S by simp
    show "storage_width st = wider (storage_width (type_ids b)) (select_for_max_id ?t)"
      using P S by simp
    show "storage_ok (type_ids b) \<longrightarrow> storage_ok st"
      using prepare_push_ok [OF prep] storage_try_push_ok [OF st'] by simp
    show "b' = (advance_offsets (source (edge i)) b)
      \<lparr>targets := targets b @ [target (edge i)], type_ids := st,
       schema_reversed := schema_reversed b @ [flag_u8 (reversed_copy (edge i))],
       relationship_ids := relationship_ids b @ [edge_relationship_id i],
       weights := (if b_has_weights b then weights b @ [opt_get_or 1 (weight (edge i))]
                   else weights b)\<rparr>"
      unfolding b' by (simp add: advance_offsets_eq flag_u8_def)
  qed
qed

lemma try_push_identified_inv:
  assumes push: "try_push_identified al i b = Inr b'" and inv: "builder_inv nc hw es b"
    and ord: "\<forall>e \<in> set es. edge_source e \<le> edge_source i"
  shows "builder_inv nc hw (es @ [i]) b'"
proof -
  let ?c = "unat (b_current_node b)" and ?s = "edge_source i"
  from push obtain st where
    val: "validate_raw_edge (b_node_count b) (edge i) = Inr ()"
    and ids: "logical_ids st = logical_ids (type_ids b) @ [type_id (edge i)]"
    and width: "storage_width st =
      wider (storage_width (type_ids b)) (select_for_max_id (type_id (edge i)))"
    and ok: "storage_ok (type_ids b) \<longrightarrow> storage_ok st"
    and b': "b' = (advance_offsets (source (edge i)) b)
      \<lparr>targets := targets b @ [target (edge i)], type_ids := st,
       schema_reversed := schema_reversed b @ [flag_u8 (reversed_copy (edge i))],
       relationship_ids := relationship_ids b @ [edge_relationship_id i],
       weights := (if b_has_weights b then weights b @ [opt_get_or 1 (weight (edge i))]
                   else weights b)\<rparr>"
    by (rule try_push_identified_Inr)
  have le: "\<forall>e \<in> set es. edge_source e \<le> ?c" and len: "length (targets b) = length es"
    and offs: "edge_offsets b = map (\<lambda>i. word_of_nat (count_below es i)) [0..<Suc ?c]"
    using inv by (auto simp: builder_inv_def payload_of_def)
  have "?c \<le> ?s"
    using inv ord by (cases "b_current_node b = 0") (auto simp: builder_inv_def)
  have cur: "unat (b_current_node (advance_offsets (source (edge i)) b)) = ?s"
    using \<open>?c \<le> ?s\<close> by (auto simp: advance_offsets_eq edge_source_def word_less_nat_alt)
  have "edge_offsets (advance_offsets (source (edge i)) b) =
      edge_offsets b @ replicate (?s - ?c) (word_of_nat (length es))"
    using len by (auto simp: advance_offsets_eq edge_source_def word_less_nat_alt)
  also have "replicate (?s - ?c) (word_of_nat (length es)) =
      (map (\<lambda>i. word_of_nat (count_below es i)) [Suc ?c..<Suc ?s] :: u32 list)"
    using le by (intro replicate_eqI [symmetric]) (auto simp: count_below_bound)
  also have "edge_offsets b @ \<dots> = map (\<lambda>k. word_of_nat (count_below (es @ [i]) k)) [0..<Suc ?s]"
    unfolding offs map_append [symmetric] using \<open>?c \<le> ?s\<close>
    by (subst upt_split [of 0 "Suc ?c" "Suc ?s", symmetric]) (auto simp del: upt_Suc)
  finally have offs': "edge_offsets b' = map (\<lambda>k. word_of_nat (count_below (es @ [i]) k)) [0..<Suc ?s]"
    by (simp add: b')
  show ?thesis
    using inv val ids ok offs' cur ord b'
    by (auto simp: builder_inv_def payload_of_def advance_offsets_eq)
qed

lemma validate_raw_edge_Inr:
  "validate_raw_edge nc e = Inr u \<longleftrightarrow>
    type_id e \<noteq> SENTINEL \<and> unat (source e) < unat nc \<and> unat (target e) < unat nc"
  by (auto simp: validate_raw_edge_def word_le_nat_alt not_less not_le)

lemma builder_inv_init:
  "builder_try_new al nc hw = Inr b \<Longrightarrow> builder_inv nc hw [] b"
  by (auto simp: builder_try_new_def result_simps builder_inv_def payload_of_def)

lemma builder_inv_with_capacity:
  "builder_with_capacity al nc cap hw w = Inr b \<Longrightarrow> builder_inv nc hw [] b"
  by (auto simp: builder_with_capacity_def result_simps builder_inv_def payload_of_def
      storage_with_capacity_def storage_ok_def split: edge_type_width.splits)

lemma fold_push_inv:
  "fold_r (try_push_identified al) es b = Inr b' \<Longrightarrow> builder_inv nc hw pre b \<Longrightarrow>
    sorted (map edge_source (pre @ es)) \<Longrightarrow> builder_inv nc hw (pre @ es) b'"
proof (induction es arbitrary: pre b)
  case Nil
  then show ?case by simp
next
  case (Cons e es)
  from Cons.prems obtain b1 where
    b1: "try_push_identified al e b = Inr b1" "fold_r (try_push_identified al) es b1 = Inr b'"
    by (auto simp: result_simps)
  have "\<forall>x \<in> set pre. edge_source x \<le> edge_source e"
    using Cons.prems(3) by (auto simp: sorted_append)
  then have "builder_inv nc hw (pre @ [e]) b1"
    using b1(1) Cons.prems(2) by (blast intro: try_push_identified_inv)
  from Cons.IH [OF b1(2) this] Cons.prems(3) show ?case by simp
qed

lemma finish_csr_of:
  assumes "builder_inv nc hw es b"
  shows "csr_of nc hw es (finish b)"
proof -
  let ?c = "unat (b_current_node b)"
  have le: "\<forall>e \<in> set es. edge_source e \<le> ?c" and len: "length (targets b) = length es"
    and offs: "edge_offsets b = map (\<lambda>i. word_of_nat (count_below es i)) [0..<Suc ?c]"
    using assms by (auto simp: builder_inv_def payload_of_def)
  have "?c \<le> unat nc"
    using assms
    by (cases "b_current_node b = 0")
      (auto simp: builder_inv_def validate_raw_edge_Inr edge_source_def)
  have "replicate (unat nc - ?c) (word_of_nat (length es)) =
      (map (\<lambda>i. word_of_nat (count_below es i)) [Suc ?c..<Suc (unat nc)] :: u32 list)"
    using le by (intro replicate_eqI [symmetric]) (auto simp: count_below_bound)
  then have "edge_offsets (finish b) = map (\<lambda>i. word_of_nat (count_below es i)) [0..<Suc (unat nc)]"
    using \<open>?c \<le> unat nc\<close> assms len
    by (simp add: finish_def fill_offsets_eq offs builder_inv_def upt_split [of 0 "Suc ?c" "Suc (unat nc)"]
        del: upt_Suc)
  then show ?thesis
    using assms by (auto simp: csr_of_def builder_inv_def payload_of_def finish_def)
qed

subsection \<open>Widths\<close>

lemma select_for_max_id_max:
  "wider (select_for_max_id a) (select_for_max_id b) = select_for_max_id (max a b)"
  by (auto simp: select_for_max_id_eq wider_def max_def word_le_nat_alt)

lemma select_for_max_id_0 [simp]: "select_for_max_id 0 = One"
  by (simp add: select_for_max_id_eq)

lemma try_push_identified_width:
  "try_push_identified al i b = Inr b' \<Longrightarrow>
    storage_width (type_ids b) = select_for_max_id m \<Longrightarrow>
    storage_width (type_ids b') = select_for_max_id (max m (type_id (edge i)))"
  by (erule try_push_identified_Inr) (simp add: select_for_max_id_max)

lemma fold_push_width:
  "fold_r (try_push_identified al) es b = Inr b' \<Longrightarrow>
    storage_width (type_ids b) = select_for_max_id m \<Longrightarrow>
    storage_width (type_ids b') = select_for_max_id (fold max (map (\<lambda>i. type_id (edge i)) es) m)"
  by (induction es arbitrary: b m)
    (auto simp: result_simps max.commute dest!: try_push_identified_width)

subsection \<open>A push succeeds exactly on a valid edge within the limits\<close>

definition within_limits :: "edge_builder \<Rightarrow> identified_raw_edge \<Rightarrow> bool" where
  "within_limits b i \<longleftrightarrow>
     (case b_edge_capacity b of None \<Rightarrow> True | Some capacity \<Rightarrow> length (targets b) < capacity) \<and>
     (case b_type_width_limit b of None \<Rightarrow> True
      | Some w \<Rightarrow> width_bytes (select_for_max_id (type_id (edge i))) \<le> width_bytes w)"

lemma prepare_push_unlimited:
  "t \<noteq> SENTINEL \<Longrightarrow> \<exists>s'. prepare_push unlimited_alloc s t = Inr s'"
  using widen_unlimited [of s "select_for_max_id t"]
  by (cases "width_bytes (storage_width s) < width_bytes (select_for_max_id t)")
    (auto simp: prepare_push_def Let_def)

lemma try_push_identified_unlimited:
  assumes "validate_raw_edge (b_node_count b) (edge i) = Inr ()" and "within_limits b i"
  shows "\<exists>b'. try_push_identified unlimited_alloc i b = Inr b'"
proof -
  have t: "type_id (edge i) \<noteq> SENTINEL"
    using assms(1) by (simp add: validate_raw_edge_Inr)
  obtain p where p: "prepare_push unlimited_alloc (type_ids b) (type_id (edge i)) = Inr p"
    using prepare_push_unlimited [OF t] by blast
  obtain st where "storage_try_push unlimited_alloc p (type_id (edge i)) = Inr st"
    using storage_try_push_unlimited [OF t] by blast
  with assms p show ?thesis
    by (auto simp: try_push_identified_def Let_def within_limits_def advance_offsets_eq
        split: option.splits)
qed

lemma try_push_identified_frame:
  "try_push_identified al i b = Inr b' \<Longrightarrow>
    b_node_count b' = b_node_count b \<and> b_has_weights b' = b_has_weights b \<and>
    b_edge_capacity b' = b_edge_capacity b \<and> b_type_width_limit b' = b_type_width_limit b \<and>
    length (targets b') = Suc (length (targets b))"
  by (erule try_push_identified_Inr) (simp add: advance_offsets_eq)

section \<open>Well-formed arrays and adjacency rows\<close>

definition node_count_of :: "('a edge_arrays_scheme) \<Rightarrow> nat" where
  "node_count_of a = length (edge_offsets a) - 1"

definition csr_wf :: "edge_arrays \<Rightarrow> bool" where
  "csr_wf a \<longleftrightarrow>
     edge_offsets a \<noteq> [] \<and> hd (edge_offsets a) = 0 \<and>
     node_count_of a < 4294967296 \<and>
     unat (last (edge_offsets a)) = length (targets a) \<and>
     sorted (map unat (edge_offsets a)) \<and>
     (\<forall>t \<in> set (targets a). unat t < node_count_of a) \<and>
     length (logical_ids (type_ids a)) = length (targets a) \<and> storage_ok (type_ids a) \<and>
     length (schema_reversed a) = length (targets a) \<and>
     (\<forall>f \<in> set (schema_reversed a). f = 0 \<or> f = 1) \<and>
     (weights a = [] \<or> length (weights a) = length (targets a)) \<and>
     length (relationship_ids a) = length (targets a)"

text \<open>One adjacency: target, type, registered-direction flag, relationship id.\<close>

type_synonym adjacency = "u32 \<times> edge_type_id \<times> u8 \<times> relationship_id"

definition entry :: "edge_arrays \<Rightarrow> nat \<Rightarrow> adjacency" where
  "entry a k =
     (targets a ! k, logical_ids (type_ids a) ! k, schema_reversed a ! k, relationship_ids a ! k)"

definition row_start :: "edge_arrays \<Rightarrow> nat \<Rightarrow> nat" where
  "row_start a n = unat (edge_offsets a ! n)"

definition row :: "edge_arrays \<Rightarrow> nat \<Rightarrow> adjacency list" where
  "row a n = map (entry a) [row_start a n..<row_start a (Suc n)]"

definition edge_adjacency :: "identified_raw_edge \<Rightarrow> adjacency" where
  "edge_adjacency i =
     (target (edge i), type_id (edge i), flag_u8 (reversed_copy (edge i)), edge_relationship_id i)"

lemma row_start_mono:
  "csr_wf a \<Longrightarrow> n \<le> m \<Longrightarrow> m \<le> node_count_of a \<Longrightarrow> row_start a n \<le> row_start a m"
proof -
  assume "csr_wf a" "n \<le> m" "m \<le> node_count_of a"
  then have "m < length (edge_offsets a)" "sorted (map unat (edge_offsets a))"
    by (cases "edge_offsets a"; simp add: csr_wf_def node_count_of_def)+
  from sorted_nth_mono [OF this(2) \<open>n \<le> m\<close>] this(1) \<open>n \<le> m\<close> show ?thesis
    by (simp add: row_start_def)
qed

lemma row_start_last: "csr_wf a \<Longrightarrow> row_start a (node_count_of a) = length (targets a)"
  using last_conv_nth [of "edge_offsets a"]
  by (auto simp: csr_wf_def row_start_def node_count_of_def)

lemma row_start_0: "csr_wf a \<Longrightarrow> row_start a 0 = 0"
  by (cases "edge_offsets a") (simp_all add: csr_wf_def row_start_def)

lemma row_start_le: "csr_wf a \<Longrightarrow> n \<le> node_count_of a \<Longrightarrow> row_start a n \<le> length (targets a)"
  using row_start_mono [of a n "node_count_of a"] row_start_last by simp

lemma csr_of_lengths:
  "csr_of nc hw es a \<Longrightarrow>
    length (edge_offsets a) = Suc (unat nc) \<and> node_count_of a = unat nc \<and>
    length (targets a) = length es \<and> length (logical_ids (type_ids a)) = length es \<and>
    length (schema_reversed a) = length es \<and> length (relationship_ids a) = length es"
  by (simp add: csr_of_def payload_of_def node_count_of_def)

lemma csr_of_row_start:
  assumes "csr_of nc hw es a" and "length es < 4294967296" and "n \<le> unat nc"
  shows "row_start a n = count_below es n"
  using assms count_below_le [of es n]
  by (simp add: csr_of_def row_start_def del: upt_Suc)

lemma csr_of_wf:
  assumes csr: "csr_of nc hw es a" and len: "length es < 4294967296"
    and valid: "\<forall>e \<in> set es. validate_raw_edge nc (edge e) = Inr ()"
  shows "csr_wf a"
proof -
  note L = csr_of_lengths [OF csr]
  have below: "count_below es i < 4294967296" for i
    using count_below_le [of es i] len by simp
  have src: "edge_source e < unat nc" if "e \<in> set es" for e
    using valid that by (auto simp: validate_raw_edge_Inr edge_source_def)
  have "sorted (map unat (edge_offsets a))"
    using csr below
    by (auto simp: csr_of_def comp_def sorted_iff_nth_mono count_below_mono simp del: upt_Suc)
  moreover have "unat (last (edge_offsets a)) = length (targets a)"
    using csr below [of "unat nc"] src L
    by (simp add: csr_of_def last_map count_below_all)
  moreover have "hd (edge_offsets a) = 0"
    using csr by (simp add: csr_of_def hd_map del: upt_Suc)
  moreover have "\<forall>t \<in> set (targets a). unat t < node_count_of a"
    using csr valid L by (auto simp: csr_of_def payload_of_def validate_raw_edge_Inr)
  moreover have "\<forall>f \<in> set (schema_reversed a). f = 0 \<or> f = 1"
    using csr by (auto simp: csr_of_def payload_of_def flag_u8_def)
  moreover have "storage_ok (type_ids a)" "weights a = [] \<or> length (weights a) = length es"
    using csr by (auto simp: csr_of_def payload_of_def)
  moreover have "edge_offsets a \<noteq> []" using L by auto
  ultimately show ?thesis
    using L unat_u32_less [of nc] by (simp add: csr_wf_def)
qed

text \<open>The adjacency row of a node lists exactly its edges, in input order.\<close>

lemma csr_of_row:
  assumes csr: "csr_of nc hw es a" and len: "length es < 4294967296"
    and sorted: "sorted (map edge_source es)" and n: "n < unat nc"
  shows "row a n = map edge_adjacency (filter (\<lambda>e. edge_source e = n) es)"
proof -
  have ent: "entry a k = edge_adjacency (es ! k)" if "k < length es" for k
    using csr that by (simp add: entry_def csr_of_def payload_of_def edge_adjacency_def)
  have "row a n = map (\<lambda>k. edge_adjacency (es ! k)) [count_below es n..<count_below es (Suc n)]"
    using csr_of_row_start [OF csr len] n count_below_le [of es "Suc n"]
    by (auto simp: row_def ent)
  also have "\<dots> = map edge_adjacency (slice (count_below es n) (count_below es (Suc n)) es)"
    by (simp add: slice_eq_map_nth count_below_le count_below_mono)
  also have "slice (count_below es n) (count_below es (Suc n)) es =
      filter (\<lambda>e. n \<le> edge_source e \<and> edge_source e < Suc n) es"
    unfolding count_below_def using sorted by (intro sorted_key_slice) simp_all
  also have "\<dots> = filter (\<lambda>e. edge_source e = n) es"
    by (rule filter_cong) auto
  finally show ?thesis .
qed

end
