(* ===== verification/EdgeBulk.thy ===== *)
theory EdgeBulk
  imports EdgeStore
begin

text \<open>
  What the two constructors of \<open>edge_store.rs\<close> build: the streaming one
  (\<open>try_from_sorted_edges\<close>) and the bulk one (\<open>try_from_edges\<close>). Both lay an edge
  list out as specified by \<open>csr_of\<close>, and they agree on every valid input.
\<close>

section \<open>The streaming constructor\<close>

definition identify :: "raw_edge \<Rightarrow> identified_raw_edge" where
  "identify e = \<lparr>edge = e, edge_relationship_id = NO_RELATIONSHIP_ID\<rparr>"

lemma identify_simps [simp]:
  "edge (identify e) = e" "edge_relationship_id (identify e) = NO_RELATIONSHIP_ID"
  "edge_source (identify e) = unat (source e)"
  by (simp_all add: identify_def edge_source_def)

lemma fold_try_push: "fold_r (try_push al) es b = fold_r (try_push_identified al) (map identify es) b"
  by (simp add: fold_r_map identify_def try_push_def [abs_def])

lemma edge_adjacency_identify:
  "edge_adjacency (identify e) =
    (target e, type_id e, flag_u8 (reversed_copy e), NO_RELATIONSHIP_ID)"
  by (simp add: edge_adjacency_def)

lemma try_from_sorted_edges_csr_of:
  assumes "try_from_sorted_edges al nc es hw = Inr a" and "sorted (map (\<lambda>e. unat (source e)) es)"
  shows "csr_of nc hw (map identify es) a"
    and "\<forall>e \<in> set es. validate_raw_edge nc e = Inr ()"
    and "storage_width (type_ids a) = select_for_max_id (fold max (map type_id es) 0)"
proof -
  from assms(1) obtain b b' where
    b: "builder_try_new al nc hw = Inr b"
    and b': "fold_r (try_push_identified al) (map identify es) b = Inr b'"
    and a: "a = finish b'"
    by (auto simp: try_from_sorted_edges_def fold_try_push result_simps)
  have inv: "builder_inv nc hw (map identify es) b'"
    using fold_push_inv [OF b' builder_inv_init [OF b]] assms(2) by (simp add: comp_def)
  then show "csr_of nc hw (map identify es) a"
    unfolding a by (rule finish_csr_of)
  show "\<forall>e \<in> set es. validate_raw_edge nc e = Inr ()"
    using inv by (auto simp: builder_inv_def)
  have "storage_width (type_ids b) = select_for_max_id 0"
    using b by (auto simp: builder_try_new_def result_simps storage_new_def)
  from fold_push_width [OF b' this]
  show "storage_width (type_ids a) = select_for_max_id (fold max (map type_id es) 0)"
    by (simp add: a finish_def comp_def)
qed

lemma fold_push_total:
  assumes "\<forall>i \<in> set es. validate_raw_edge (b_node_count b) (edge i) = Inr ()"
    and "b_edge_capacity b = None" and "b_type_width_limit b = None"
  shows "\<exists>b'. fold_r (try_push_identified unlimited_alloc) es b = Inr b'"
  using assms
proof (induction es arbitrary: b)
  case Nil
  then show ?case by simp
next
  case (Cons i es)
  then obtain b1 where b1: "try_push_identified unlimited_alloc i b = Inr b1"
    using try_push_identified_unlimited [of b i] by (auto simp: within_limits_def)
  from Cons.IH [of b1] Cons.prems try_push_identified_frame [OF b1] b1 show ?case by auto
qed

lemma checked_node_count [simp]: "checked_add_usize (unat (nc :: u32)) (Suc 0) = Some (Suc (unat nc))"
  using unat_u32_less [of nc] by (simp add: checked_add_usize_def usize_max_def)

lemma builder_try_new_unlimited:
  "\<exists>b. builder_try_new unlimited_alloc nc hw = Inr b \<and> b_node_count b = nc \<and>
    b_edge_capacity b = None \<and> b_type_width_limit b = None"
  by (simp add: builder_try_new_def offset_capacity_def)

lemma try_from_sorted_edges_total:
  assumes "\<forall>e \<in> set es. validate_raw_edge nc e = Inr ()"
  shows "\<exists>a. try_from_sorted_edges unlimited_alloc nc es hw = Inr a"
proof -
  obtain b where b: "builder_try_new unlimited_alloc nc hw = Inr b" "b_node_count b = nc"
    "b_edge_capacity b = None" "b_type_width_limit b = None"
    using builder_try_new_unlimited by blast
  from fold_push_total [of "map identify es" b] assms b show ?thesis
    by (auto simp: try_from_sorted_edges_def fold_try_push)
qed

text \<open>
  the streaming constructor is correct. For edges sorted by source it returns, and the
  arrays it returns are well formed (monotone offsets ending at the edge count, targets in
  range, no sentinel type byte) and hold, for every node, exactly that node's edges in input
  order with their types and direction flags.
\<close>

theorem sorted_builder_rows:
  assumes "sorted (map (\<lambda>e. unat (source e)) es)"
    and "\<forall>e \<in> set es. type_id e \<noteq> SENTINEL \<and> source e < nc \<and> target e < nc"
    and "length es < 4294967296"
  shows "\<exists>a. try_from_sorted_edges unlimited_alloc nc es hw = Inr a \<and> csr_wf a \<and>
    node_count_of a = unat nc \<and>
    (\<forall>n < unat nc. row a n =
       map (\<lambda>e. (target e, type_id e, flag_u8 (reversed_copy e), NO_RELATIONSHIP_ID))
         (filter (\<lambda>e. unat (source e) = n) es))"
proof -
  have valid: "\<forall>e \<in> set es. validate_raw_edge nc e = Inr ()"
    using assms(2) by (simp add: validate_raw_edge_Inr word_less_nat_alt)
  from try_from_sorted_edges_total [OF this] obtain a where
    a: "try_from_sorted_edges unlimited_alloc nc es hw = Inr a" by blast
  note csr = try_from_sorted_edges_csr_of(1) [OF a assms(1)]
  have "csr_wf a"
    by (rule csr_of_wf [OF csr]) (use assms(3) valid in auto)
  moreover have "row a n =
      map (\<lambda>e. (target e, type_id e, flag_u8 (reversed_copy e), NO_RELATIONSHIP_ID))
        (filter (\<lambda>e. unat (source e) = n) es)" if "n < unat nc" for n
    using csr_of_row [OF csr _ _ that] assms(1,3)
    by (simp add: filter_map comp_def edge_adjacency_identify)
  ultimately show ?thesis
    using a csr_of_lengths [OF csr] by blast
qed

theorem sorted_builder_rows_witness:
  "\<exists>a. try_from_sorted_edges unlimited_alloc 3
      [\<lparr>source = 0, target = 2, type_id = 1, weight = None, reversed_copy = False\<rparr>,
       \<lparr>source = 0, target = 1, type_id = 300, weight = Some 7, reversed_copy = True\<rparr>,
       \<lparr>source = 2, target = 0, type_id = 0, weight = None, reversed_copy = False\<rparr>] True = Inr a \<and>
    csr_wf a \<and> row a 0 = [(2, 1, 0, 0), (1, 300, 1, 0)] \<and> row a 1 = []"
proof -
  let ?es = "[\<lparr>source = 0, target = 2, type_id = 1, weight = None, reversed_copy = False\<rparr>,
    \<lparr>source = 0, target = 1, type_id = 300, weight = Some 7, reversed_copy = True\<rparr>,
    \<lparr>source = 2, target = 0, type_id = 0, weight = None, reversed_copy = False\<rparr>]"
  have "\<exists>a. try_from_sorted_edges unlimited_alloc 3 ?es True = Inr a \<and> csr_wf a \<and>
    node_count_of a = unat (3 :: u32) \<and>
    (\<forall>n < unat (3 :: u32). row a n =
       map (\<lambda>e. (target e, type_id e, flag_u8 (reversed_copy e), NO_RELATIONSHIP_ID))
         (filter (\<lambda>e. unat (source e) = n) ?es))"
    by (rule sorted_builder_rows) (simp_all add: SENTINEL_def)
  then show ?thesis
    by (auto simp: flag_u8_def NO_RELATIONSHIP_ID_def)
qed

section \<open>The bulk constructor\<close>

text \<open>Runs of equal keys in a list sorted by key.\<close>

lemma sorted_run:
  fixes k :: "'a \<Rightarrow> nat"
  assumes "sorted (map k xs)"
  shows "takeWhile (\<lambda>x. k x = n) (filter (\<lambda>x. n \<le> k x) xs) = filter (\<lambda>x. k x = n) xs"
    and "dropWhile (\<lambda>x. k x = n) (filter (\<lambda>x. n \<le> k x) xs) = filter (\<lambda>x. Suc n \<le> k x) xs"
    and "filter (\<lambda>x. k x < n) xs @ filter (\<lambda>x. k x = n) xs = filter (\<lambda>x. k x < Suc n) xs"
  using assms
proof (induction xs)
  case Nil
  {
    case 1 show ?case by simp
  next
    case 2 show ?case by simp
  next
    case 3 show ?case by simp
  }
next
  case (Cons x xs)
  {
    case 1
    then have "n < k x \<Longrightarrow> filter (\<lambda>x. k x = n) xs = []"
      by (auto simp: filter_empty_conv)
    with 1 Cons(1) show ?case by (cases "k x" n rule: linorder_cases) simp_all
  next
    case 2
    then have "n < k x \<Longrightarrow> filter (\<lambda>x. n \<le> k x) xs = filter (\<lambda>x. Suc n \<le> k x) xs"
      by (auto intro!: filter_cong)
    with 2 Cons(2) show ?case by (cases "k x" n rule: linorder_cases) auto
  next
    case 3
    then have "n \<le> k x \<Longrightarrow> filter (\<lambda>x. k x < n) xs = []"
      by (auto simp: filter_empty_conv)
    moreover from 3 have "n < k x \<Longrightarrow> filter (\<lambda>x. k x < Suc n) xs = [] \<and> filter (\<lambda>x. k x = n) xs = []"
      by (auto simp: filter_empty_conv)
    moreover from 3 have "k x = n \<Longrightarrow> filter (\<lambda>x. k x < Suc n) xs = filter (\<lambda>x. k x = n) xs"
      by (auto intro!: filter_cong)
    ultimately show ?case using 3 Cons(3) by (cases "k x" n rule: linorder_cases) auto
  }
qed

lemma copy_node_edges_unlimited:
  assumes "payload_of hw (map identify pre) a" and "storage_width (type_ids a) = w"
    and "\<forall>e \<in> set es. type_id e \<noteq> SENTINEL \<and> wider w (select_for_max_id (type_id e)) = w"
  shows "\<exists>a'. copy_node_edges unlimited_alloc hw node es a =
      Inr (dropWhile (\<lambda>e. source e = node) es, a') \<and>
    payload_of hw (map identify (pre @ takeWhile (\<lambda>e. source e = node) es)) a' \<and>
    edge_offsets a' = edge_offsets a \<and> relationship_ids a' = relationship_ids a \<and>
    storage_width (type_ids a') = w"
  using assms
proof (induction es arbitrary: pre a)
  case Nil
  then show ?case by simp
next
  case (Cons e es)
  show ?case
  proof (cases "source e = node")
    case True
    obtain st where st: "storage_try_push unlimited_alloc (type_ids a) (type_id e) = Inr st"
      using storage_try_push_unlimited Cons.prems(3) by fastforce
    note S = storage_try_push_Inr [OF st]
    let ?a = "a\<lparr>targets := targets a @ [target e], type_ids := st,
      schema_reversed := schema_reversed a @ [if reversed_copy e then 1 else 0],
      weights := (if hw then weights a @ [opt_get_or 1 (weight e)] else weights a)\<rparr>"
    have p: "payload_of hw (map identify (pre @ [e])) ?a"
      using Cons.prems(1) S storage_try_push_ok [OF st] by (auto simp: payload_of_def flag_u8_def)
    have w: "storage_width (type_ids ?a) = w"
      using S Cons.prems by simp
    from Cons.IH [OF p w] Cons.prems(3) True st show ?thesis by auto
  next
    case False
    with Cons.prems show ?thesis by simp
  qed
qed

lemma fold_max_ge: "(m :: 'a :: linorder) \<le> fold max xs m \<and> (\<forall>x \<in> set xs. x \<le> fold max xs m)"
proof (induction xs arbitrary: m)
  case Nil
  then show ?case by simp
next
  case (Cons x xs)
  from Cons [of "max x m"] show ?case by auto
qed

lemma max_type_id_eq: "max_type_id es = fold max (map type_id es) 0"
  by (cases es) (simp_all add: max_type_id_def UNTYPED_def max_def)

lemma wider_max_type_id:
  "e \<in> set es \<Longrightarrow>
    wider (select_for_max_id (max_type_id es)) (select_for_max_id (type_id e)) =
    select_for_max_id (max_type_id es)"
  using fold_max_ge [of 0 "map type_id es"]
  by (simp add: select_for_max_id_max max_type_id_eq max_absorb1)

lemma storage_for_width_simps [simp]:
  "logical_ids (storage_for_width w) = []" "storage_width (storage_for_width w) = w"
  "storage_ok (storage_for_width w)"
  by (cases w; simp add: storage_for_width_def storage_ok_def)+

lemma count_below_identify:
  "count_below (map identify es) i = length (filter (\<lambda>e. unat (source e) < i) es)"
  by (simp add: count_below_def filter_map comp_def)

definition bulk_inv ::
  "bool \<Rightarrow> raw_edge list \<Rightarrow> edge_type_width \<Rightarrow> nat list \<Rightarrow> raw_edge list \<times> edge_arrays \<Rightarrow> bool" where
  "bulk_inv hw es w ns st \<longleftrightarrow>
     (case st of (rest, a) \<Rightarrow>
        rest = filter (\<lambda>e. length ns \<le> unat (source e)) es \<and>
        payload_of hw (map identify (filter (\<lambda>e. unat (source e) < length ns) es)) a \<and>
        edge_offsets a = map (\<lambda>i. word_of_nat (count_below (map identify es) i)) [0..<length ns] \<and>
        relationship_ids a = [] \<and> storage_width (type_ids a) = w)"

lemma bulk_inv_step:
  assumes inv: "bulk_inv hw es w ns st" and sorted: "sorted (map (\<lambda>e. unat (source e)) es)"
    and fits: "\<forall>e \<in> set es. type_id e \<noteq> SENTINEL \<and> wider w (select_for_max_id (type_id e)) = w"
    and bound: "length ns < 4294967296"
  shows "\<exists>st'. copy_node unlimited_alloc hw (length ns) st = Inr st' \<and> bulk_inv hw es w (ns @ [n]) st'"
proof -
  let ?k = "length ns" and ?src = "\<lambda>e :: raw_edge. unat (source e)"
  obtain rest a where st: "st = (rest, a)" by (cases st)
  let ?a = "a\<lparr>edge_offsets := edge_offsets a @ [word_of_nat (length (targets a))]\<rparr>"
  have src: "source e = word_of_nat ?k \<longleftrightarrow> ?src e = ?k" for e :: raw_edge
    using bound by (auto simp: word_unat_eq_iff)
  have pa: "payload_of hw (map identify (filter (\<lambda>e. ?src e < ?k) es)) ?a"
    and wa: "storage_width (type_ids ?a) = w"
    and rest: "rest = filter (\<lambda>e. ?k \<le> ?src e) es"
    using inv by (auto simp: bulk_inv_def st payload_of_def)
  have len: "length (targets a) = count_below (map identify es) ?k"
    using inv by (simp add: bulk_inv_def st payload_of_def count_below_identify)
  have "\<forall>e \<in> set rest. type_id e \<noteq> SENTINEL \<and> wider w (select_for_max_id (type_id e)) = w"
    using fits rest by auto
  from copy_node_edges_unlimited [OF pa wa this, of "word_of_nat ?k"] obtain a' where
    cp: "copy_node_edges unlimited_alloc hw (word_of_nat ?k) rest ?a =
      Inr (dropWhile (\<lambda>e. ?src e = ?k) rest, a')"
    and pay: "payload_of hw (map identify (filter (\<lambda>e. ?src e < ?k) es @ takeWhile (\<lambda>e. ?src e = ?k) rest)) a'"
    and frame: "edge_offsets a' = edge_offsets ?a" "relationship_ids a' = relationship_ids ?a"
      "storage_width (type_ids a') = w"
    by (auto simp: src)
  have "bulk_inv hw es w (ns @ [n]) (dropWhile (\<lambda>e. ?src e = ?k) rest, a')"
    using pay frame inv sorted_run [OF sorted, of ?k] len
    by (simp add: bulk_inv_def st rest)
  with cp show ?thesis by (auto simp: copy_node_def st)
qed

lemma sorts_edges_set: "sorts_edges srt \<Longrightarrow> set (srt es) = set es"
  unfolding sorts_edges_def by (metis mset_eq_setD)

lemma sorts_edges_source:
  assumes "sorts_edges srt"
  shows "sorted (map (\<lambda>e. unat (source e)) (srt es))"
proof -
  have "sorted_wrt (\<lambda>x y. edge_key x \<le> edge_key y) (srt es)"
    using assms by (simp add: sorts_edges_def sorted_map)
  then show ?thesis
    unfolding sorted_map
    by (rule sorted_wrt_mono_rel [rotated])
      (auto simp: edge_key_def less_eq_prod_def word_le_nat_alt word_less_nat_alt)
qed

lemma from_valid_edges_csr_of:
  assumes srt: "sorts_edges srt" and valid: "\<forall>e \<in> set es. validate_raw_edge nc e = Inr ()"
  shows "\<exists>a. from_valid_edges unlimited_alloc srt nc es hw = Inr a \<and>
    csr_of nc hw (map identify (srt es)) a \<and>
    storage_width (type_ids a) = select_for_max_id (fold max (map type_id (srt es)) 0)"
proof -
  let ?es = "srt es" and ?w = "select_for_max_id (max_type_id (srt es))"
  let ?init = "\<lparr>edge_offsets = [], targets = [], type_ids = storage_for_width ?w,
    schema_reversed = [], weights = [], relationship_ids = []\<rparr>"
  note set = sorts_edges_set [OF srt, of es] and sorted = sorts_edges_source [OF srt, of es]
  have fits: "\<forall>e \<in> set ?es. type_id e \<noteq> SENTINEL \<and> wider ?w (select_for_max_id (type_id e)) = ?w"
    using valid set by (auto simp: validate_raw_edge_Inr wider_max_type_id)
  have "\<exists>st. fold_r (copy_node unlimited_alloc hw) [0..<unat nc] (?es, ?init) = Inr st \<and>
      bulk_inv hw ?es ?w [0..<unat nc] st"
  proof (rule fold_r_rule [where P = "bulk_inv hw ?es ?w"])
    show "bulk_inv hw ?es ?w [] (?es, ?init)"
      by (simp add: bulk_inv_def payload_of_def)
  next
    fix pre x post st
    assume split: "[0..<unat nc] = pre @ x # post" and inv: "bulk_inv hw ?es ?w pre st"
    have "length pre < unat nc" using arg_cong [OF split, of length] by simp
    moreover have "x = length pre"
      using arg_cong [OF split, of "\<lambda>l. l ! length pre"] \<open>length pre < unat nc\<close> by simp
    ultimately show "\<exists>st'. copy_node unlimited_alloc hw x st = Inr st' \<and>
        bulk_inv hw ?es ?w (pre @ [x]) st'"
      using bulk_inv_step [OF inv sorted fits, of x] unat_u32_less [of nc] by simp
  qed
  then obtain rest a where
    run: "fold_r (copy_node unlimited_alloc hw) [0..<unat nc] (?es, ?init) = Inr (rest, a)"
    and inv: "bulk_inv hw ?es ?w [0..<unat nc] (rest, a)"
    by auto
  let ?a = "a\<lparr>edge_offsets := edge_offsets a @ [word_of_nat (length (targets a))],
    relationship_ids := replicate (length ?es) NO_RELATIONSHIP_ID\<rparr>"
  have all: "filter (\<lambda>e. unat (source e) < unat nc) ?es = ?es"
    using valid set by (auto simp: validate_raw_edge_Inr filter_id_conv)
  have "csr_of nc hw (map identify ?es) ?a"
    using inv by (simp add: csr_of_def bulk_inv_def all payload_of_def count_below_identify
        comp_def map_replicate_const)
  moreover have "storage_width (type_ids ?a) = ?w"
    using inv by (simp add: bulk_inv_def)
  ultimately show ?thesis
    using run by (simp add: from_valid_edges_def Let_def max_type_id_eq [symmetric])
qed

lemma csr_of_unique:
  assumes "csr_of nc hw es a" and "csr_of nc hw es a'"
    and "storage_width (type_ids a) = storage_width (type_ids a')"
  shows "a = a'"
proof -
  have "type_ids a = type_ids a'"
    using assms by (intro storage_eqI) (simp_all add: csr_of_def payload_of_def)
  with assms(1,2) show ?thesis
    by (intro edge_arrays.equality) (auto simp: csr_of_def payload_of_def)
qed

lemma fold_validate:
  "fold_r (\<lambda>e _. validate_raw_edge nc e) es () = Inr u \<longleftrightarrow>
    (\<forall>e \<in> set es. validate_raw_edge nc e = Inr ())"
  by (induction es) (auto simp: result_simps)

text \<open>
  C12: the two constructors agree. Whatever permutation into key order the unstable sort
  picks, building from unsorted edges succeeds exactly when streaming the sorted edges
  succeeds, and both return the same arrays, down to the width of the type section.
\<close>

theorem try_from_edges_equiv_sorted:
  assumes "sorts_edges srt"
  shows "try_from_edges unlimited_alloc srt nc es hw = Inr a \<longleftrightarrow>
    try_from_sorted_edges unlimited_alloc nc (srt es) hw = Inr a"
proof (cases "\<forall>e \<in> set es. validate_raw_edge nc e = Inr ()")
  case True
  then have ok: "fold_r (\<lambda>e _. validate_raw_edge nc e) es () = Inr ()"
    by (simp add: fold_validate)
  from from_valid_edges_csr_of [OF assms True] ok obtain b where
    b: "try_from_edges unlimited_alloc srt nc es hw = Inr b"
    "csr_of nc hw (map identify (srt es)) b"
    "storage_width (type_ids b) = select_for_max_id (fold max (map type_id (srt es)) 0)"
    by (auto simp: try_from_edges_def)
  obtain c where c: "try_from_sorted_edges unlimited_alloc nc (srt es) hw = Inr c"
    using try_from_sorted_edges_total True sorts_edges_set [OF assms] by metis
  from try_from_sorted_edges_csr_of [OF c sorts_edges_source [OF assms]] b have "b = c"
    by (intro csr_of_unique) auto
  with b c show ?thesis by simp
next
  case False
  then have "try_from_edges unlimited_alloc srt nc es hw \<noteq> Inr a"
    using fold_validate [of nc es] by (auto simp: try_from_edges_def result_simps)
  moreover have "try_from_sorted_edges unlimited_alloc nc (srt es) hw \<noteq> Inr a"
    using False try_from_sorted_edges_csr_of(2) [OF _ sorts_edges_source [OF assms]]
      sorts_edges_set [OF assms] by blast
  ultimately show ?thesis by simp
qed

theorem try_from_edges_equiv_sorted_witness:
  "sorts_edges (sort_key edge_key) \<and>
    (\<forall>a. try_from_edges unlimited_alloc (sort_key edge_key) 2
       [\<lparr>source = 1, target = 0, type_id = 5, weight = None, reversed_copy = False\<rparr>,
        \<lparr>source = 0, target = 1, type_id = 9, weight = None, reversed_copy = False\<rparr>] False = Inr a \<longleftrightarrow>
      try_from_sorted_edges unlimited_alloc 2
       [\<lparr>source = 0, target = 1, type_id = 9, weight = None, reversed_copy = False\<rparr>,
        \<lparr>source = 1, target = 0, type_id = 5, weight = None, reversed_copy = False\<rparr>] False = Inr a)"
proof
  show srt: "sorts_edges (sort_key edge_key)"
    by (simp add: sorts_edges_def)
  show "\<forall>a. try_from_edges unlimited_alloc (sort_key edge_key) 2
       [\<lparr>source = 1, target = 0, type_id = 5, weight = None, reversed_copy = False\<rparr>,
        \<lparr>source = 0, target = 1, type_id = 9, weight = None, reversed_copy = False\<rparr>] False = Inr a \<longleftrightarrow>
      try_from_sorted_edges unlimited_alloc 2
       [\<lparr>source = 0, target = 1, type_id = 9, weight = None, reversed_copy = False\<rparr>,
        \<lparr>source = 1, target = 0, type_id = 5, weight = None, reversed_copy = False\<rparr>] False = Inr a"
    using try_from_edges_equiv_sorted [OF srt] by (simp add: edge_key_def)
qed

end
