(* ===== verification/EdgeAccess.thy ===== *)
theory EdgeAccess
  imports EdgeStore
begin

text \<open>
  The two backings of an \<open>EdgeStore\<close> and the accessors every graph algorithm reads it
  through (\<open>edge_store.rs\<close>). A mapped store is a byte region with ranges that
  \<open>MmapEdgeArrays::validate\<close> has checked; its typed slices read little-endian words out
  of the region. The specification is that a validated mapped store is well formed and
  cannot be told apart from the owned store with the same decoded arrays.

  The target is little-endian (\<open>validate\<close> returns \<open>None\<close> at once on any other).
\<close>

section \<open>Little-endian typed views\<close>

definition le_u16 :: "u8 \<Rightarrow> u8 \<Rightarrow> u16" where
  "le_u16 a b = word_of_nat (unat a + 256 * unat b)"

definition le_u32 :: "u8 \<Rightarrow> u8 \<Rightarrow> u8 \<Rightarrow> u8 \<Rightarrow> u32" where
  "le_u32 a b c d = word_of_nat (unat a + 256 * unat b + 65536 * unat c + 16777216 * unat d)"

fun decode_u16s :: "u8 list \<Rightarrow> u16 list" where
  "decode_u16s (a # b # rest) = le_u16 a b # decode_u16s rest"
| "decode_u16s _ = []"

fun decode_u32s :: "u8 list \<Rightarrow> u32 list" where
  "decode_u32s (a # b # c # d # rest) = le_u32 a b c d # decode_u32s rest"
| "decode_u32s _ = []"

type_synonym byte_range = "usize \<times> usize"

definition range_len :: "byte_range \<Rightarrow> usize" where
  "range_len r = snd r - fst r"

definition range_in_region :: "byte_range \<Rightarrow> usize \<Rightarrow> bool" where
  "range_in_region r region_len \<longleftrightarrow> fst r \<le> snd r \<and> snd r \<le> region_len"

definition range_bytes :: "u8 list \<Rightarrow> byte_range \<Rightarrow> u8 list" where
  "range_bytes mmap r = slice (fst r) (snd r) mmap"

definition u32_slice :: "u8 list \<Rightarrow> byte_range \<Rightarrow> u32 list" where
  "u32_slice mmap r = decode_u32s (range_bytes mmap r)"

definition edge_type_slice :: "u8 list \<Rightarrow> byte_range \<Rightarrow> edge_type_width \<Rightarrow> edge_type_storage" where
  "edge_type_slice mmap r w =
     (case w of One \<Rightarrow> SOne (range_bytes mmap r)
      | Two \<Rightarrow> STwo (decode_u16s (range_bytes mmap r))
      | Four \<Rightarrow> SFour (decode_u32s (range_bytes mmap r)))"

section \<open>Mapped arrays and their validation\<close>

record mmap_edge_arrays =
  mmap :: "u8 list"
  mmap_base :: usize
  offsets_range :: byte_range
  targets_range :: byte_range
  type_ids_range :: byte_range
  schema_reversed_range :: byte_range
  weights_range :: "byte_range option"
  relationship_ids_range :: byte_range
  mapped_node_count :: u32
  mapped_edge_count :: u32
  mapped_type_width :: edge_type_width

definition opt_all :: "('a \<Rightarrow> bool) \<Rightarrow> 'a option \<Rightarrow> bool" where
  "opt_all p m = (case m of None \<Rightarrow> True | Some x \<Rightarrow> p x)"

definition ranges_ok :: "mmap_edge_arrays \<Rightarrow> usize \<Rightarrow> usize \<Rightarrow> usize \<Rightarrow> usize \<Rightarrow> bool" where
  "ranges_ok p offset_bytes u32_bytes type_id_bytes flag_bytes \<longleftrightarrow>
     \<not> (range_len (offsets_range p) \<noteq> offset_bytes
       \<or> range_len (targets_range p) \<noteq> u32_bytes
       \<or> range_len (type_ids_range p) \<noteq> type_id_bytes
       \<or> range_len (schema_reversed_range p) \<noteq> flag_bytes
       \<or> \<not> opt_all (\<lambda>r. range_len r = u32_bytes) (weights_range p)
       \<or> range_len (relationship_ids_range p) \<noteq> u32_bytes
       \<or> \<not> range_in_region (offsets_range p) (length (mmap p))
       \<or> \<not> range_in_region (targets_range p) (length (mmap p))
       \<or> \<not> range_in_region (type_ids_range p) (length (mmap p))
       \<or> \<not> range_in_region (schema_reversed_range p) (length (mmap p))
       \<or> \<not> opt_all (\<lambda>r. range_in_region r (length (mmap p))) (weights_range p)
       \<or> \<not> range_in_region (relationship_ids_range p) (length (mmap p)))"

definition aligned_at :: "usize \<Rightarrow> byte_range \<Rightarrow> usize \<Rightarrow> bool option" where
  "aligned_at base r n = map_option (\<lambda>addr. addr mod n = 0) (checked_add_usize base (fst r))"

definition type_alignment :: "edge_type_width \<Rightarrow> usize" where
  "type_alignment w = (case w of One \<Rightarrow> 1 | Two \<Rightarrow> 2 | Four \<Rightarrow> 4)"

text \<open>A missing address (\<open>checked_add\<close> overflow) rejects the region like a misaligned one.\<close>

definition alignment_ok :: "mmap_edge_arrays \<Rightarrow> bool" where
  "alignment_ok p \<longleftrightarrow>
     aligned_at (mmap_base p) (offsets_range p) 4 = Some True \<and>
     aligned_at (mmap_base p) (targets_range p) 4 = Some True \<and>
     opt_all (\<lambda>r. aligned_at (mmap_base p) r 4 = Some True) (weights_range p) \<and>
     aligned_at (mmap_base p) (type_ids_range p) (type_alignment (mapped_type_width p)) = Some True \<and>
     aligned_at (mmap_base p) (relationship_ids_range p) 4 = Some True"

definition windows_ok :: "u32 \<Rightarrow> u32 list \<Rightarrow> bool" where
  "windows_ok edge_count offs \<longleftrightarrow>
     \<not> list_ex (\<lambda>(a, b). a > b \<or> b > edge_count) (zip offs (tl offs))"

definition contents_ok :: "mmap_edge_arrays \<Rightarrow> bool" where
  "contents_ok p \<longleftrightarrow>
     (let offs = u32_slice (mmap p) (offsets_range p);
          tgts = u32_slice (mmap p) (targets_range p);
          flags = range_bytes (mmap p) (schema_reversed_range p) in
      \<not> (get_opt offs 0 \<noteq> Some 0
        \<or> (if offs = [] then None else Some (last offs)) \<noteq> Some (mapped_edge_count p)
        \<or> \<not> windows_ok (mapped_edge_count p) offs
        \<or> list_ex (\<lambda>t. t \<ge> mapped_node_count p) tgts
        \<or> list_ex (\<lambda>f. f > 1) flags))"

definition mmap_validate :: "mmap_edge_arrays \<Rightarrow> mmap_edge_arrays option" where
  "mmap_validate p =
     Option.bind (Option.bind (checked_add_usize (unat (mapped_node_count p)) 1)
       (\<lambda>count. checked_mul_usize count 4)) (\<lambda>offset_bytes.
     Option.bind (checked_mul_usize (unat (mapped_edge_count p)) 4) (\<lambda>u32_bytes.
     Option.bind (checked_mul_usize (unat (mapped_edge_count p)) (width_bytes (mapped_type_width p)))
       (\<lambda>type_id_bytes.
     if \<not> ranges_ok p offset_bytes u32_bytes type_id_bytes (unat (mapped_edge_count p)) then None
     else if \<not> alignment_ok p then None
     else if contains_physical_sentinel
       (edge_type_slice (mmap p) (type_ids_range p) (mapped_type_width p)) then None
     else if \<not> contents_ok p then None
     else Some p)))"

section \<open>The decoded view\<close>

definition mapped_view :: "mmap_edge_arrays \<Rightarrow> edge_arrays" where
  "mapped_view m =
     \<lparr>edge_offsets = u32_slice (mmap m) (offsets_range m),
      targets = u32_slice (mmap m) (targets_range m),
      type_ids = edge_type_slice (mmap m) (type_ids_range m) (mapped_type_width m),
      schema_reversed = range_bytes (mmap m) (schema_reversed_range m),
      weights = (case weights_range m of None \<Rightarrow> [] | Some r \<Rightarrow> u32_slice (mmap m) r),
      relationship_ids = u32_slice (mmap m) (relationship_ids_range m)\<rparr>"

definition neighbor_range :: "mmap_edge_arrays \<Rightarrow> u32 \<Rightarrow> (usize \<times> usize) option" where
  "neighbor_range m node_idx =
     (if node_idx \<ge> mapped_node_count m then None
      else
        let offs = edge_offsets (mapped_view m) in
        Option.bind (get_opt offs (unat node_idx)) (\<lambda>s.
        Option.bind (get_opt offs (unat node_idx + 1)) (\<lambda>e.
          if unat s \<le> unat e \<and> unat e \<le> unat (mapped_edge_count m)
          then Some (unat s, unat e) else None)))"

section \<open>Accessors\<close>

datatype edge_store = Owned edge_arrays | Mmap mmap_edge_arrays

fun neighbors :: "edge_store \<Rightarrow> u32 \<Rightarrow> (u32 list \<times> edge_type_storage) graph_result" where
  "neighbors (Owned a) node_idx =
     (if unat node_idx + 1 \<ge> length (edge_offsets a) then Inr ([], SOne [])
      else
        rbind (index_r (edge_offsets a) (unat node_idx)) (\<lambda>s.
        rbind (index_r (edge_offsets a) (unat node_idx + 1)) (\<lambda>e.
        rbind (slice_r (targets a) (unat s) (unat e)) (\<lambda>ts.
        rbind (types_subslice (type_ids a) (unat s) (unat e)) (\<lambda>tys.
          Inr (ts, tys))))))"
| "neighbors (Mmap m) node_idx =
     (case neighbor_range m node_idx of
        None \<Rightarrow> Inr ([], SOne [])
      | Some (s, e) \<Rightarrow>
          rbind (slice_r (targets (mapped_view m)) s e) (\<lambda>ts.
          rbind (types_subslice (type_ids (mapped_view m)) s e) (\<lambda>tys.
            Inr (ts, tys))))"

fun neighbors_with_schema ::
  "edge_store \<Rightarrow> u32 \<Rightarrow> (u32 list \<times> edge_type_storage \<times> u8 list) graph_result" where
  "neighbors_with_schema (Owned a) node_idx =
     (if unat node_idx + 1 \<ge> length (edge_offsets a) then Inr ([], SOne [], [])
      else
        rbind (index_r (edge_offsets a) (unat node_idx)) (\<lambda>s.
        rbind (index_r (edge_offsets a) (unat node_idx + 1)) (\<lambda>e.
        rbind (slice_r (targets a) (unat s) (unat e)) (\<lambda>ts.
        rbind (types_subslice (type_ids a) (unat s) (unat e)) (\<lambda>tys.
        rbind (slice_r (schema_reversed a) (unat s) (unat e)) (\<lambda>flags.
          Inr (ts, tys, flags)))))))"
| "neighbors_with_schema (Mmap m) node_idx =
     (case neighbor_range m node_idx of
        None \<Rightarrow> Inr ([], SOne [], [])
      | Some (s, e) \<Rightarrow>
          rbind (slice_r (targets (mapped_view m)) s e) (\<lambda>ts.
          rbind (types_subslice (type_ids (mapped_view m)) s e) (\<lambda>tys.
          rbind (slice_r (schema_reversed (mapped_view m)) s e) (\<lambda>flags.
            Inr (ts, tys, flags)))))"

fun store_offsets :: "edge_store \<Rightarrow> u32 list" where
  "store_offsets (Owned a) = edge_offsets a"
| "store_offsets (Mmap m) = edge_offsets (mapped_view m)"

fun store_targets :: "edge_store \<Rightarrow> u32 list" where
  "store_targets (Owned a) = targets a"
| "store_targets (Mmap m) = targets (mapped_view m)"

fun store_schema_reversed :: "edge_store \<Rightarrow> u8 list" where
  "store_schema_reversed (Owned a) = schema_reversed a"
| "store_schema_reversed (Mmap m) = schema_reversed (mapped_view m)"

fun store_weights :: "edge_store \<Rightarrow> u32 list" where
  "store_weights (Owned a) = weights a"
| "store_weights (Mmap m) = weights (mapped_view m)"

fun store_relationship_ids :: "edge_store \<Rightarrow> relationship_id list" where
  "store_relationship_ids (Owned a) = relationship_ids a"
| "store_relationship_ids (Mmap m) = relationship_ids (mapped_view m)"

fun store_type_storage :: "edge_store \<Rightarrow> edge_type_storage" where
  "store_type_storage (Owned a) = type_ids a"
| "store_type_storage (Mmap m) = type_ids (mapped_view m)"

definition neighbors_with_schema_and_relationship_ids ::
  "edge_store \<Rightarrow> u32 \<Rightarrow>
    (u32 list \<times> edge_type_storage \<times> u8 list \<times> relationship_id list) graph_result" where
  "neighbors_with_schema_and_relationship_ids st node_idx =
     rbind (neighbors_with_schema st node_idx) (\<lambda>(ts, tys, flags).
       let s = unat (opt_get_or 0 (get_opt (store_offsets st) (unat node_idx)));
           e = saturating_add_usize s (length ts) in
       Inr (ts, tys, flags, opt_get_or [] (get_slice_opt (store_relationship_ids st) s e)))"

fun edge_count :: "edge_store \<Rightarrow> u32" where
  "edge_count (Owned a) = word_of_nat (length (targets a))"
| "edge_count (Mmap m) = mapped_edge_count m"

fun store_type_width :: "edge_store \<Rightarrow> edge_type_width" where
  "store_type_width (Owned a) = storage_width (type_ids a)"
| "store_type_width (Mmap m) = mapped_type_width m"

definition edge_type_ids :: "edge_store \<Rightarrow> edge_type_id list" where
  "edge_type_ids st = types_iter (store_type_storage st)"

fun node_count :: "edge_store \<Rightarrow> u32" where
  "node_count (Owned a) =
     (if edge_offsets a = [] then 0 else word_of_nat (length (edge_offsets a) - 1))"
| "node_count (Mmap m) = mapped_node_count m"

fun has_weights :: "edge_store \<Rightarrow> bool" where
  "has_weights (Owned a) = (weights a \<noteq> [])"
| "has_weights (Mmap m) = (weights_range m \<noteq> None)"

definition neighbors_weighted ::
  "edge_store \<Rightarrow> u32 \<Rightarrow> (u32 list \<times> edge_type_storage \<times> u32 list) graph_result" where
  "neighbors_weighted st node_idx =
     (if node_idx \<ge> node_count st then Inr ([], SOne [], [])
      else case st of
        Owned a \<Rightarrow>
          rbind (index_r (edge_offsets a) (unat node_idx)) (\<lambda>s.
          rbind (index_r (edge_offsets a) (unat node_idx + 1)) (\<lambda>e.
          rbind (slice_r (targets a) (unat s) (unat e)) (\<lambda>ts.
          rbind (types_subslice (type_ids a) (unat s) (unat e)) (\<lambda>tys.
          if weights a = [] then Inr (ts, tys, [])
          else rbind (slice_r (weights a) (unat s) (unat e)) (\<lambda>ws. Inr (ts, tys, ws))))))
      | Mmap m \<Rightarrow>
          (case neighbor_range m node_idx of
             None \<Rightarrow> Inr ([], SOne [], [])
           | Some (s, e) \<Rightarrow>
               rbind (slice_r (targets (mapped_view m)) s e) (\<lambda>ts.
               rbind (types_subslice (type_ids (mapped_view m)) s e) (\<lambda>tys.
               if weights_range m = None then Inr (ts, tys, [])
               else rbind (slice_r (weights (mapped_view m)) s e) (\<lambda>ws. Inr (ts, tys, ws))))))"

definition neighbors_weighted_with_schema ::
  "edge_store \<Rightarrow> u32 \<Rightarrow> (u32 list \<times> edge_type_storage \<times> u8 list \<times> u32 list) graph_result" where
  "neighbors_weighted_with_schema st node_idx =
     rbind (neighbors_with_schema st node_idx) (\<lambda>(ts, tys, flags).
     rbind (neighbors_weighted st node_idx) (\<lambda>(_, _, ws). Inr (ts, tys, flags, ws)))"

fun degree :: "edge_store \<Rightarrow> u32 \<Rightarrow> u32 graph_result" where
  "degree (Owned a) node_idx =
     (if unat node_idx + 1 \<ge> length (edge_offsets a) then Inr 0
      else
        rbind (index_r (edge_offsets a) (unat node_idx)) (\<lambda>s.
        rbind (index_r (edge_offsets a) (unat node_idx + 1)) (\<lambda>e. Inr (e - s))))"
| "degree (Mmap m) node_idx =
     (if node_idx \<ge> mapped_node_count m then Inr 0
      else
        rbind (index_r (edge_offsets (mapped_view m)) (unat node_idx)) (\<lambda>s.
        rbind (index_r (edge_offsets (mapped_view m)) (unat node_idx + 1)) (\<lambda>e.
          Inr (if e \<ge> s then e - s else 0))))"

fun estimated_mmap_bytes :: "edge_store \<Rightarrow> usize" where
  "estimated_mmap_bytes (Owned _) = 0"
| "estimated_mmap_bytes (Mmap m) =
     (let n = unat (mapped_node_count m); e = unat (mapped_edge_count m);
          weight_bytes = (case weights_range m of None \<Rightarrow> 0 | Some r \<Rightarrow> range_len r) in
      saturating_add_usize (saturating_add_usize (saturating_add_usize (saturating_add_usize
        (saturating_add_usize (min usize_max ((n + 1) * 4)) (e * 4))
        (e * width_bytes (mapped_type_width m))) e) weight_bytes)
        (range_len (relationship_ids_range m)))"

fun v6_type_ids_bytes :: "edge_store \<Rightarrow> u8 list" where
  "v6_type_ids_bytes st =
     (case store_type_storage st of SOne values \<Rightarrow> values | STwo _ \<Rightarrow> [] | SFour _ \<Rightarrow> [])"

definition missing_relationship_identity_edge_types :: "edge_store \<Rightarrow> u32 set" where
  "missing_relationship_identity_edge_types st =
     set (map fst (filter (\<lambda>(_, rid). rid = NO_RELATIONSHIP_ID)
       (zip (edge_type_ids st) (store_relationship_ids st))))"

fun mapped_snapshot :: "edge_store \<Rightarrow> edge_store option" where
  "mapped_snapshot (Owned _) = None"
| "mapped_snapshot (Mmap m) = Some (Mmap m)"

section \<open>Decoding and validation\<close>

lemma length_decode_u16s: "length (decode_u16s bs) = length bs div 2"
  by (induction bs rule: decode_u16s.induct) auto

lemma length_decode_u32s: "length (decode_u32s bs) = length bs div 4"
  by (induction bs rule: decode_u32s.induct) auto

lemma length_range_bytes: "range_in_region r (length m) \<Longrightarrow> length (range_bytes m r) = range_len r"
  by (simp add: range_in_region_def range_bytes_def range_len_def)

lemma windows_ok_sorted: "windows_ok c offs \<Longrightarrow> sorted (map unat offs)"
proof (induction offs)
  case Nil
  then show ?case by simp
next
  case (Cons a offs)
  show ?case
  proof (cases offs)
    case Nil
    then show ?thesis by simp
  next
    case (Cons b rest)
    with Cons.prems have "windows_ok c offs" and ab: "unat a \<le> unat b"
      by (auto simp: windows_ok_def word_le_nat_alt not_less)
    with Cons.IH have "sorted (map unat offs)" by blast
    with ab Cons show ?thesis by auto
  qed
qed

lemma length_edge_type_slice:
  assumes "range_in_region r (length m)" and "range_len r = n * width_bytes w"
  shows "length (logical_ids (edge_type_slice m r w)) = n"
  using assms length_range_bytes [of r m]
  by (cases w) (simp_all add: edge_type_slice_def length_decode_u16s length_decode_u32s)

lemma storage_width_edge_type_slice [simp]: "storage_width (edge_type_slice m r w) = w"
  by (cases w) (simp_all add: edge_type_slice_def)

lemma checked_mul_usize_Some: "checked_mul_usize a b = Some c \<longleftrightarrow> c = a * b \<and> a * b \<le> usize_max"
  by (auto simp: checked_mul_usize_def)

lemma checked_add_usize_Some: "checked_add_usize a b = Some c \<longleftrightarrow> c = a + b \<and> a + b \<le> usize_max"
  by (auto simp: checked_add_usize_def)

lemma mmap_validate_Some:
  assumes "mmap_validate p = Some m"
  shows "m = p"
    and "ranges_ok p ((unat (mapped_node_count p) + 1) * 4) (unat (mapped_edge_count p) * 4)
      (unat (mapped_edge_count p) * width_bytes (mapped_type_width p)) (unat (mapped_edge_count p))"
    and "alignment_ok p"
    and "storage_ok (type_ids (mapped_view p))"
    and "contents_ok p"
  using assms
  by (auto simp: mmap_validate_def bind_eq_Some_conv checked_add_usize_Some checked_mul_usize_Some
      storage_ok_def mapped_view_def split: if_splits)

lemma mapped_view_lengths:
  assumes "mmap_validate p = Some m"
  shows "length (edge_offsets (mapped_view m)) = Suc (unat (mapped_node_count m))"
    and "length (targets (mapped_view m)) = unat (mapped_edge_count m)"
    and "length (logical_ids (type_ids (mapped_view m))) = unat (mapped_edge_count m)"
    and "length (schema_reversed (mapped_view m)) = unat (mapped_edge_count m)"
    and "weights_range m = None \<or> length (weights (mapped_view m)) = unat (mapped_edge_count m)"
    and "length (relationship_ids (mapped_view m)) = unat (mapped_edge_count m)"
proof -
  from mmap_validate_Some [OF assms]
  have m: "m = p" and R: "ranges_ok p ((unat (mapped_node_count p) + 1) * 4)
      (unat (mapped_edge_count p) * 4)
      (unat (mapped_edge_count p) * width_bytes (mapped_type_width p)) (unat (mapped_edge_count p))"
    by auto
  have words: "length (u32_slice (mmap p) r) = n" if "range_in_region r (length (mmap p))"
    "range_len r = n * 4" for r n
    using that length_range_bytes [of r "mmap p"] by (simp add: u32_slice_def length_decode_u32s)
  show "length (edge_offsets (mapped_view m)) = Suc (unat (mapped_node_count m))"
    using R unfolding m by (simp add: ranges_ok_def mapped_view_def words [where n = "Suc _"])
  show "length (targets (mapped_view m)) = unat (mapped_edge_count m)"
    using R unfolding m by (simp add: ranges_ok_def mapped_view_def words)
  show "length (logical_ids (type_ids (mapped_view m))) = unat (mapped_edge_count m)"
    using R unfolding m by (simp add: ranges_ok_def mapped_view_def length_edge_type_slice)
  show "length (schema_reversed (mapped_view m)) = unat (mapped_edge_count m)"
    using R unfolding m by (simp add: ranges_ok_def mapped_view_def length_range_bytes)
  show "weights_range m = None \<or> length (weights (mapped_view m)) = unat (mapped_edge_count m)"
    using R unfolding m
    by (cases "weights_range p") (simp_all add: ranges_ok_def mapped_view_def opt_all_def words)
  show "length (relationship_ids (mapped_view m)) = unat (mapped_edge_count m)"
    using R unfolding m by (simp add: ranges_ok_def mapped_view_def words)
qed

lemma mapped_view_wf:
  assumes "mmap_validate p = Some m"
  shows "csr_wf (mapped_view m) \<and> node_count_of (mapped_view m) = unat (mapped_node_count m)"
proof -
  let ?v = "mapped_view m"
  note L = mapped_view_lengths [OF assms] and V = mmap_validate_Some [OF assms]
  have offs: "u32_slice (mmap p) (offsets_range p) = edge_offsets ?v"
    and tgts: "u32_slice (mmap p) (targets_range p) = targets ?v"
    and flags: "range_bytes (mmap p) (schema_reversed_range p) = schema_reversed ?v"
    by (simp_all add: mapped_view_def V(1))
  from V(5) have first: "get_opt (edge_offsets ?v) 0 = Some 0"
    and last: "last (edge_offsets ?v) = mapped_edge_count m"
    and win: "windows_ok (mapped_edge_count m) (edge_offsets ?v)"
    and tg: "\<forall>t \<in> set (targets ?v). unat t < unat (mapped_node_count m)"
    and fl: "\<forall>f \<in> set (schema_reversed ?v). \<not> 1 < f"
    by (auto simp: contents_ok_def Let_def offs tgts flags V(1) list_ex_iff word_le_nat_alt not_le
        split: if_splits)
  have bit: "f = 0 \<or> f = 1" if "\<not> 1 < f" for f :: u8
    using that by (auto simp: word_less_nat_alt word_unat_eq_iff)
  have ne: "edge_offsets ?v \<noteq> []" using L(1) by auto
  with first have "hd (edge_offsets ?v) = 0"
    by (cases "edge_offsets ?v") auto
  moreover have "weights ?v = [] \<or> length (weights ?v) = unat (mapped_edge_count m)"
    using L(5) by (auto simp: mapped_view_def)
  ultimately show ?thesis
    using L ne last windows_ok_sorted [OF win] tg fl bit V(1,4) unat_u32_less [of "mapped_node_count m"]
    by (auto simp: csr_wf_def node_count_of_def)
qed

section \<open>What the bytes of a region say\<close>

text \<open>
  The specification of the typed views, with no decoder in it: the little-endian number of
  \<open>w\<close> bytes at a position, and the words a range holds, one after the other.
\<close>

definition le_at :: "u8 list \<Rightarrow> nat \<Rightarrow> nat \<Rightarrow> nat" where
  "le_at region pos w = (\<Sum>j<w. unat (region ! (pos + j)) * 256 ^ j)"

definition holds_words :: "u8 list \<Rightarrow> byte_range \<Rightarrow> nat \<Rightarrow> nat \<Rightarrow> 'a :: len word list \<Rightarrow> bool" where
  "holds_words region r w n ws \<longleftrightarrow>
     length ws = n \<and> snd r = fst r + n * w \<and> snd r \<le> length region \<and>
     (\<forall>k<n. unat (ws ! k) = le_at region (fst r + k * w) w)"

lemma le_at_simps:
  "le_at region pos (Suc 0) = unat (region ! pos)"
  "le_at region pos 2 = unat (region ! pos) + 256 * unat (region ! (pos + 1))"
  "le_at region pos 4 = unat (region ! pos) + 256 * unat (region ! (pos + 1)) +
     65536 * unat (region ! (pos + 2)) + 16777216 * unat (region ! (pos + 3))"
  by (simp_all add: le_at_def lessThan_nat_numeral lessThan_Suc)

lemma unat_le_u16: "unat (le_u16 a b) = unat a + 256 * unat b"
  unfolding le_u16_def
  by (rule of_nat_inverse [OF refl]) (use unat_u8_bound [of a] unat_u8_bound [of b] in simp)

lemma unat_le_u32:
  "unat (le_u32 a b c d) = unat a + 256 * unat b + 65536 * unat c + 16777216 * unat d"
  unfolding le_u32_def
  by (rule of_nat_inverse [OF refl])
    (use unat_u8_bound [of a] unat_u8_bound [of b] unat_u8_bound [of c] unat_u8_bound [of d] in simp)

lemma nth_decode_u16s:
  "k < length bs div 2 \<Longrightarrow> decode_u16s bs ! k = le_u16 (bs ! (k * 2)) (bs ! (k * 2 + 1))"
proof (induction bs arbitrary: k rule: decode_u16s.induct)
  case (1 a b rest)
  then show ?case by (cases k) simp_all
qed simp_all

lemma nth_decode_u32s:
  "k < length bs div 4 \<Longrightarrow> decode_u32s bs ! k =
    le_u32 (bs ! (k * 4)) (bs ! (k * 4 + 1)) (bs ! (k * 4 + 2)) (bs ! (k * 4 + 3))"
proof (induction bs arbitrary: k rule: decode_u32s.induct)
  case (1 a b c d rest)
  then show ?case by (cases k) (simp_all add: add.commute [of 3])
qed simp_all

lemma nth_range_bytes:
  "range_in_region r (length m) \<Longrightarrow> i < range_len r \<Longrightarrow> range_bytes m r ! i = m ! (fst r + i)"
  by (simp add: range_in_region_def range_bytes_def range_len_def slice_def)

lemma holds_words_bytes:
  assumes "range_in_region r (length m)" and "range_len r = n"
  shows "holds_words m r (Suc 0) n (range_bytes m r)"
  using assms length_range_bytes [OF assms(1)]
  by (auto simp: holds_words_def le_at_simps(1) nth_range_bytes range_in_region_def range_len_def)

lemma holds_words_u16s:
  assumes "range_in_region r (length m)" and "range_len r = n * 2"
  shows "holds_words m r 2 n (decode_u16s (range_bytes m r))"
  using assms length_range_bytes [OF assms(1)]
  by (auto simp: holds_words_def le_at_simps(2) nth_range_bytes nth_decode_u16s length_decode_u16s
      unat_le_u16 range_in_region_def range_len_def)

lemma holds_words_u32s:
  assumes "range_in_region r (length m)" and "range_len r = n * 4"
  shows "holds_words m r 4 n (u32_slice m r)"
  using assms length_range_bytes [OF assms(1)]
  by (auto simp: holds_words_def u32_slice_def le_at_simps(3) nth_range_bytes nth_decode_u32s add.assoc
      length_decode_u32s unat_le_u32 range_in_region_def range_len_def)

lemma holds_words_ucast:
  assumes "holds_words m r w n (ws :: u8 list)"
  shows "holds_words m r w n (map ucast ws :: u32 list)"
  using assms by (auto simp: holds_words_def)

lemma holds_words_ucast16:
  assumes "holds_words m r w n (ws :: u16 list)"
  shows "holds_words m r w n (map ucast ws :: u32 list)"
  using assms by (auto simp: holds_words_def)

lemma holds_words_types:
  assumes "range_in_region r (length m)" and "range_len r = n * width_bytes w"
  shows "holds_words m r (width_bytes w) n (logical_ids (edge_type_slice m r w))"
  using assms holds_words_ucast [OF holds_words_bytes [OF assms(1)]]
    holds_words_ucast16 [OF holds_words_u16s [OF assms(1)]] holds_words_u32s [OF assms(1)]
  by (cases w) (simp_all add: edge_type_slice_def u32_slice_def)

text \<open>Every array of a validated region is the words of its own range.\<close>

definition region_arrays :: "mmap_edge_arrays \<Rightarrow> edge_arrays \<Rightarrow> bool" where
  "region_arrays m a \<longleftrightarrow>
     (let n = unat (mapped_node_count m); e = unat (mapped_edge_count m); w = mapped_type_width m in
      holds_words (mmap m) (offsets_range m) 4 (n + 1) (edge_offsets a) \<and>
      holds_words (mmap m) (targets_range m) 4 e (targets a) \<and>
      storage_width (type_ids a) = w \<and>
      holds_words (mmap m) (type_ids_range m) (width_bytes w) e (logical_ids (type_ids a)) \<and>
      holds_words (mmap m) (schema_reversed_range m) 1 e (schema_reversed a) \<and>
      (case weights_range m of None \<Rightarrow> weights a = []
       | Some r \<Rightarrow> holds_words (mmap m) r 4 e (weights a)) \<and>
      holds_words (mmap m) (relationship_ids_range m) 4 e (relationship_ids a))"

lemma mapped_view_words:
  assumes "mmap_validate p = Some m"
  shows "region_arrays m (mapped_view m)"
proof -
  from mmap_validate_Some [OF assms]
  have m: "m = p" and R: "ranges_ok p ((unat (mapped_node_count p) + 1) * 4)
      (unat (mapped_edge_count p) * 4)
      (unat (mapped_edge_count p) * width_bytes (mapped_type_width p)) (unat (mapped_edge_count p))"
    by auto
  show ?thesis
    using R unfolding m
    by (auto simp: region_arrays_def Let_def ranges_ok_def mapped_view_def opt_all_def
        holds_words_u32s holds_words_bytes holds_words_types split: option.splits)
qed

section \<open>What the accessors return\<close>

lemma adjacency_slice:
  assumes "csr_wf a" and "n < node_count_of a"
  shows "slice (row_start a n) (row_start a (Suc n)) (targets a) = map fst (row a n)"
    and "slice (row_start a n) (row_start a (Suc n)) (logical_ids (type_ids a)) =
      map (\<lambda>x. fst (snd x)) (row a n)"
    and "slice (row_start a n) (row_start a (Suc n)) (schema_reversed a) =
      map (\<lambda>x. fst (snd (snd x))) (row a n)"
    and "slice (row_start a n) (row_start a (Suc n)) (relationship_ids a) =
      map (\<lambda>x. snd (snd (snd x))) (row a n)"
proof -
  have "row_start a n \<le> row_start a (Suc n)" "row_start a (Suc n) \<le> length (targets a)"
    using assms row_start_mono [of a n "Suc n"] row_start_le [of a "Suc n"] by auto
  then show "slice (row_start a n) (row_start a (Suc n)) (targets a) = map fst (row a n)"
    and "slice (row_start a n) (row_start a (Suc n)) (logical_ids (type_ids a)) =
      map (\<lambda>x. fst (snd x)) (row a n)"
    and "slice (row_start a n) (row_start a (Suc n)) (schema_reversed a) =
      map (\<lambda>x. fst (snd (snd x))) (row a n)"
    and "slice (row_start a n) (row_start a (Suc n)) (relationship_ids a) =
      map (\<lambda>x. snd (snd (snd x))) (row a n)"
    using assms(1) by (simp_all add: slice_eq_map_nth row_def entry_def csr_wf_def)
qed

lemma length_row:
  "csr_wf a \<Longrightarrow> n < node_count_of a \<Longrightarrow> length (row a n) = row_start a (Suc n) - row_start a n"
  by (simp add: row_def)

lemma neighbors_with_schema_Owned:
  assumes wf: "csr_wf a" and n: "unat i < node_count_of a"
  shows "\<exists>tys. neighbors_with_schema (Owned a) i =
      Inr (map fst (row a (unat i)), tys, map (\<lambda>x. fst (snd (snd x))) (row a (unat i))) \<and>
    logical_ids tys = map (\<lambda>x. fst (snd x)) (row a (unat i)) \<and>
    storage_width tys = storage_width (type_ids a) \<and> storage_ok tys"
proof -
  let ?s = "row_start a (unat i)" and ?e = "row_start a (Suc (unat i))"
  have len: "Suc (unat i) < length (edge_offsets a)"
    using n by (simp add: node_count_of_def)
  have le: "?s \<le> ?e" "?e \<le> length (targets a)"
    using assms row_start_mono [of a "unat i" "Suc (unat i)"] row_start_le [of a "Suc (unat i)"]
    by auto
  have L: "length (logical_ids (type_ids a)) = length (targets a)"
    "length (schema_reversed a) = length (targets a)" "storage_ok (type_ids a)"
    using wf by (auto simp: csr_wf_def)
  obtain tys where tys: "types_subslice (type_ids a) ?s ?e = Inr tys"
    "logical_ids tys = slice ?s ?e (logical_ids (type_ids a))"
    "storage_width tys = storage_width (type_ids a)"
    using types_subslice_ok [of ?s ?e "type_ids a"] le L by auto
  show ?thesis
    using len le L tys types_subslice_storage_ok [OF tys(1) L(3)] adjacency_slice [OF wf n]
    by (auto simp: row_start_def [symmetric])
qed

lemma neighbors_with_schema_outside:
  "node_count_of a \<le> unat i \<Longrightarrow> neighbors_with_schema (Owned a) i = Inr ([], SOne [], [])"
  by (auto simp: node_count_of_def)

text \<open>
  The accessor of the traversal hot loop, on any node index: the four slices of the row of
  a node in range, four empty slices outside.
\<close>

lemma neighbors_full_Owned:
  assumes wf: "csr_wf a" and n: "unat i < node_count_of a" and small: "length (targets a) \<le> usize_max"
  shows "\<exists>tys. neighbors_with_schema_and_relationship_ids (Owned a) i =
      Inr (map fst (row a (unat i)), tys, map (\<lambda>x. fst (snd (snd x))) (row a (unat i)),
        map (\<lambda>x. snd (snd (snd x))) (row a (unat i))) \<and>
    logical_ids tys = map (\<lambda>x. fst (snd x)) (row a (unat i)) \<and> storage_ok tys"
proof -
  let ?s = "row_start a (unat i)" and ?e = "row_start a (Suc (unat i))"
  from neighbors_with_schema_Owned [OF wf n] obtain tys where
    tys: "neighbors_with_schema (Owned a) i =
      Inr (map fst (row a (unat i)), tys, map (\<lambda>x. fst (snd (snd x))) (row a (unat i)))"
    "logical_ids tys = map (\<lambda>x. fst (snd x)) (row a (unat i))" "storage_ok tys"
    by blast
  have le: "?s \<le> ?e" "?e \<le> length (targets a)"
    using assms row_start_mono [of a "unat i" "Suc (unat i)"] row_start_le [of a "Suc (unat i)"]
    by auto
  have "unat i < length (edge_offsets a)"
    using n by (simp add: node_count_of_def)
  then have s: "unat (opt_get_or 0 (get_opt (edge_offsets a) (unat i))) = ?s"
    by (simp add: row_start_def)
  have e: "saturating_add_usize ?s (length (row a (unat i))) = ?e"
    using le small length_row [OF wf n] by (simp add: saturating_add_usize_def)
  have "get_slice_opt (relationship_ids a) ?s ?e = Some (map (\<lambda>x. snd (snd (snd x))) (row a (unat i)))"
    using adjacency_slice(4) [OF wf n] le wf by (simp add: get_slice_opt_def csr_wf_def)
  with tys s e show ?thesis
    by (simp add: neighbors_with_schema_and_relationship_ids_def)
qed

lemma neighbors_full_outside:
  assumes "csr_wf a" and "node_count_of a \<le> unat i"
  shows "neighbors_with_schema_and_relationship_ids (Owned a) i = Inr ([], SOne [], [], [])"
proof -
  have "opt_get_or [] (get_slice_opt (relationship_ids a) s s) = []" for s
    by (simp add: get_slice_opt_def slice_def)
  moreover have "saturating_add_usize (unat (w :: u32)) 0 = unat w" for w
    using unat_u32_less [of w] by (simp add: saturating_add_usize_def usize_max_def)
  ultimately show ?thesis
    using neighbors_with_schema_outside [OF assms(2)]
    by (simp add: neighbors_with_schema_and_relationship_ids_def Let_def
        del: neighbors_with_schema.simps)
qed

section \<open>A mapped store refines the owned store\<close>

lemma neighbor_range_eq:
  assumes "mmap_validate p = Some m"
  shows "neighbor_range m i =
    (if unat i < unat (mapped_node_count m)
     then Some (row_start (mapped_view m) (unat i), row_start (mapped_view m) (Suc (unat i)))
     else None)"
proof (cases "unat i < unat (mapped_node_count m)")
  case True
  let ?v = "mapped_view m"
  have wf: "csr_wf ?v" and nc: "node_count_of ?v = unat (mapped_node_count m)"
    using mapped_view_wf [OF assms] by auto
  have "row_start ?v (unat i) \<le> row_start ?v (Suc (unat i))"
    "row_start ?v (Suc (unat i)) \<le> unat (mapped_edge_count m)"
    using True nc row_start_mono [OF wf, of "unat i" "Suc (unat i)"]
      row_start_le [OF wf, of "Suc (unat i)"] mapped_view_lengths(2) [OF assms] by auto
  with True mapped_view_lengths(1) [OF assms] show ?thesis
    by (simp add: neighbor_range_def Let_def row_start_def word_le_nat_alt)
next
  case False
  then show ?thesis by (simp add: neighbor_range_def word_le_nat_alt)
qed

lemma mapped_weights_None: "weights_range m = None \<Longrightarrow> weights (mapped_view m) = []"
  by (simp add: mapped_view_def)

lemma mapped_rows_in_range:
  assumes "mmap_validate p = Some m" and "unat i < unat (mapped_node_count m)"
  shows "row_start (mapped_view m) (unat i) \<le> row_start (mapped_view m) (Suc (unat i))"
    and "row_start (mapped_view m) (Suc (unat i)) \<le> unat (mapped_edge_count m)"
  using assms mapped_view_wf [OF assms(1)] mapped_view_lengths(2) [OF assms(1)]
    row_start_mono [of "mapped_view m" "unat i" "Suc (unat i)"]
    row_start_le [of "mapped_view m" "Suc (unat i)"]
  by auto

lemma mapped_neighbors:
  assumes "mmap_validate p = Some m"
  shows "neighbors (Mmap m) i = neighbors (Owned (mapped_view m)) i"
    and "neighbors_with_schema (Mmap m) i = neighbors_with_schema (Owned (mapped_view m)) i"
  using mapped_view_lengths(1) [OF assms]
  by (auto simp: neighbor_range_eq [OF assms] row_start_def)

lemma mapped_neighbors_weighted:
  assumes "mmap_validate p = Some m"
  shows "neighbors_weighted (Mmap m) i = neighbors_weighted (Owned (mapped_view m)) i"
proof (cases "unat i < unat (mapped_node_count m)")
  case True
  let ?v = "mapped_view m"
  note L = mapped_view_lengths [OF assms] and R = mapped_rows_in_range [OF assms True]
  have nc: "unat (word_of_nat (unat (mapped_node_count m)) :: u32) = unat (mapped_node_count m)"
    by simp
  have ne: "edge_offsets ?v \<noteq> []" using L(1) by auto
  show ?thesis
    using True L ne R mapped_weights_None [of m]
    by (cases "weights_range m"; cases "weights ?v = []")
      (simp_all add: neighbors_weighted_def neighbor_range_eq [OF assms] word_le_nat_alt
        row_start_def [symmetric])
next
  case False
  then show ?thesis
    using mapped_view_lengths(1) [OF assms]
    by (auto simp: neighbors_weighted_def word_le_nat_alt)
qed

lemma mapped_degree:
  assumes "mmap_validate p = Some m"
  shows "degree (Mmap m) i = degree (Owned (mapped_view m)) i"
proof (cases "unat i < unat (mapped_node_count m)")
  case True
  note R = mapped_rows_in_range [OF assms True]
  with True show ?thesis
    using mapped_view_lengths(1) [OF assms]
    by (simp add: word_le_nat_alt row_start_def)
next
  case False
  then show ?thesis
    using mapped_view_lengths(1) [OF assms] by (simp add: word_le_nat_alt)
qed

lemma degree_row_length:
  assumes "csr_wf a"
  shows "\<exists>d. degree (Owned a) i = Inr d \<and>
    unat d = (if unat i < node_count_of a then length (row a (unat i)) else 0)"
proof (cases "unat i < node_count_of a")
  case True
  then have len: "Suc (unat i) < length (edge_offsets a)"
    by (simp add: node_count_of_def)
  have "edge_offsets a ! unat i \<le> edge_offsets a ! Suc (unat i)"
    using row_start_mono [OF assms, of "unat i" "Suc (unat i)"] True
    by (simp add: row_start_def word_le_nat_alt)
  with len True length_row [OF assms True] show ?thesis
    by (simp add: unat_sub row_start_def)
next
  case False
  then show ?thesis by (auto simp: node_count_of_def)
qed

lemma neighbors_total:
  assumes "csr_wf a"
  shows "\<exists>r. neighbors (Owned a) i = Inr r"
proof (cases "unat i < node_count_of a")
  case True
  then obtain r where "neighbors_with_schema (Owned a) i = Inr r"
    using neighbors_with_schema_Owned [OF assms True] by blast
  then show ?thesis by (auto simp: result_simps split: if_splits)
next
  case False
  then show ?thesis by (auto simp: node_count_of_def)
qed

lemma neighbors_with_schema_total:
  "csr_wf a \<Longrightarrow> \<exists>r. neighbors_with_schema (Owned a) i = Inr r"
  using neighbors_with_schema_Owned [of a i] neighbors_with_schema_outside [of a i]
  by (cases "unat i < node_count_of a") auto

lemma neighbors_weighted_total:
  assumes "csr_wf a"
  shows "\<exists>r. neighbors_weighted (Owned a) i = Inr r"
proof (cases "i < node_count (Owned a)")
  case True
  have "node_count_of a < 4294967296" and "edge_offsets a \<noteq> []"
    using assms by (auto simp: csr_wf_def)
  with True have n: "unat i < node_count_of a"
    by (simp add: word_less_nat_alt node_count_of_def unat_of_nat)
  have "row_start a (unat i) \<le> row_start a (Suc (unat i))"
    "row_start a (Suc (unat i)) \<le> length (targets a)"
    using assms n row_start_mono [of a "unat i" "Suc (unat i)"] row_start_le [of a "Suc (unat i)"]
    by auto
  moreover obtain r where "neighbors (Owned a) i = Inr r"
    using neighbors_total [OF assms] by blast
  moreover have "weights a = [] \<or> length (weights a) = length (targets a)"
    using assms by (simp add: csr_wf_def)
  ultimately show ?thesis
    using True n
    by (cases "weights a = []")
      (auto simp: neighbors_weighted_def result_simps row_start_def node_count_of_def slice_r_def
        simp del: node_count.simps split: if_splits)
qed (simp add: neighbors_weighted_def not_less)

text \<open>
  C6: a byte region that passes validation is a well-formed CSR whose arrays are, word for
  word, the little-endian numbers of its ranges, and no accessor can tell it from the owned
  store with those arrays: for every node index neither faults and both return the same
  neighbors (plain, schema-aware, identified, weighted, weighted and schema-aware) and the
  same degree, and both have the same counts, identifier width, edge types, slices, section
  bytes and relationship types without identity. The one difference is \<open>has_weights\<close> on a region
  with a weights range and no edges: it says yes of the region and no of the empty weights of the
  owned store.
\<close>

theorem mapped_store_refines_owned:
  assumes "mmap_validate p = Some m"
  shows "m = p \<and> csr_wf (mapped_view m) \<and> region_arrays m (mapped_view m) \<and>
    (\<exists>r. neighbors (Mmap m) i = Inr r \<and> neighbors (Owned (mapped_view m)) i = Inr r) \<and>
    (\<exists>r. neighbors_with_schema (Mmap m) i = Inr r \<and>
       neighbors_with_schema (Owned (mapped_view m)) i = Inr r) \<and>
    (\<exists>r. neighbors_with_schema_and_relationship_ids (Mmap m) i = Inr r \<and>
       neighbors_with_schema_and_relationship_ids (Owned (mapped_view m)) i = Inr r) \<and>
    (\<exists>r. neighbors_weighted (Mmap m) i = Inr r \<and>
       neighbors_weighted (Owned (mapped_view m)) i = Inr r) \<and>
    (\<exists>r. neighbors_weighted_with_schema (Mmap m) i = Inr r \<and>
       neighbors_weighted_with_schema (Owned (mapped_view m)) i = Inr r) \<and>
    (\<exists>d. degree (Mmap m) i = Inr d \<and> degree (Owned (mapped_view m)) i = Inr d) \<and>
    node_count (Mmap m) = node_count (Owned (mapped_view m)) \<and>
    edge_count (Mmap m) = edge_count (Owned (mapped_view m)) \<and>
    store_type_width (Mmap m) = store_type_width (Owned (mapped_view m)) \<and>
    edge_type_ids (Mmap m) = edge_type_ids (Owned (mapped_view m)) \<and>
    store_offsets (Mmap m) = store_offsets (Owned (mapped_view m)) \<and>
    store_targets (Mmap m) = store_targets (Owned (mapped_view m)) \<and>
    store_schema_reversed (Mmap m) = store_schema_reversed (Owned (mapped_view m)) \<and>
    store_weights (Mmap m) = store_weights (Owned (mapped_view m)) \<and>
    store_relationship_ids (Mmap m) = store_relationship_ids (Owned (mapped_view m)) \<and>
    v6_type_ids_bytes (Mmap m) = v6_type_ids_bytes (Owned (mapped_view m)) \<and>
    missing_relationship_identity_edge_types (Mmap m) =
      missing_relationship_identity_edge_types (Owned (mapped_view m)) \<and>
    (has_weights (Mmap m) \<noteq> has_weights (Owned (mapped_view m)) \<longleftrightarrow>
       weights_range m \<noteq> None \<and> edge_count (Mmap m) = 0)"
proof -
  let ?v = "mapped_view m"
  have wf: "csr_wf ?v" using mapped_view_wf [OF assms] by auto
  have small: "length (targets ?v) \<le> usize_max"
    using mapped_view_lengths(2) [OF assms] unat_u32_less [of "mapped_edge_count m"]
    by (simp add: usize_max_def)
  have full: "neighbors_with_schema_and_relationship_ids (Mmap m) i =
      neighbors_with_schema_and_relationship_ids (Owned ?v) i"
    using mapped_neighbors(2) [OF assms, of i]
    by (simp add: neighbors_with_schema_and_relationship_ids_def del: neighbors_with_schema.simps)
  have both: "neighbors_weighted_with_schema (Mmap m) i = neighbors_weighted_with_schema (Owned ?v) i"
    by (simp add: neighbors_weighted_with_schema_def mapped_neighbors [OF assms]
        mapped_neighbors_weighted [OF assms] del: neighbors_with_schema.simps)
  have "\<exists>r. neighbors_with_schema_and_relationship_ids (Owned ?v) i = Inr r"
    using neighbors_full_Owned [OF wf _ small, of i] neighbors_full_outside [OF wf, of i]
    by (cases "unat i < node_count_of ?v") auto
  moreover have "\<exists>r. neighbors_weighted_with_schema (Owned ?v) i = Inr r"
    using neighbors_with_schema_total [OF wf, of i] neighbors_weighted_total [OF wf, of i]
    by (auto simp: neighbors_weighted_with_schema_def simp del: neighbors_with_schema.simps)
  moreover have "\<exists>d. degree (Owned ?v) i = Inr d" using degree_row_length [OF wf, of i] by blast
  moreover have "edge_offsets ?v \<noteq> []" using wf by (simp add: csr_wf_def)
  moreover have "store_type_width (Mmap m) = store_type_width (Owned ?v)"
    by (simp add: mapped_view_def)
  moreover have "has_weights (Mmap m) \<noteq> has_weights (Owned ?v) \<longleftrightarrow>
      weights_range m \<noteq> None \<and> edge_count (Mmap m) = 0"
    using mapped_view_lengths(5) [OF assms] mapped_weights_None [of m] unat_eq_0 [of "mapped_edge_count m"]
    by (cases "weights_range m"; cases "weights ?v = []") auto
  ultimately show ?thesis
    using wf full both mapped_view_words [OF assms] mmap_validate_Some(1) [OF assms]
      mapped_neighbors [OF assms, of i] mapped_neighbors_weighted [OF assms, of i]
      mapped_degree [OF assms, of i] mapped_view_lengths [OF assms]
      neighbors_total [OF wf, of i] neighbors_with_schema_total [OF wf, of i]
      neighbors_weighted_total [OF wf, of i]
    by (simp add: edge_type_ids_def missing_relationship_identity_edge_types_def
        del: neighbors.simps neighbors_with_schema.simps degree.simps has_weights.simps
          store_type_width.simps)
qed

text \<open>A hand-made region with two nodes and one edge, for the witnesses.\<close>

definition sample_region :: mmap_edge_arrays where
  "sample_region =
     \<lparr>mmap = [0,0,0,0, 1,0,0,0, 1,0,0,0, 1,0,0,0, 7, 0, 0, 0, 42,0,0,0], mmap_base = 4096,
      offsets_range = (0, 12), targets_range = (12, 16), type_ids_range = (16, 17),
      schema_reversed_range = (17, 18), weights_range = None, relationship_ids_range = (20, 24),
      mapped_node_count = 2, mapped_edge_count = 1, mapped_type_width = One\<rparr>"

lemma sample_region_valid: "mmap_validate sample_region = Some sample_region"
  by (simp add: sample_region_def mmap_validate_def ranges_ok_def alignment_ok_def contents_ok_def
      windows_ok_def opt_all_def aligned_at_def type_alignment_def checked_add_usize_def
      checked_mul_usize_def usize_max_def range_len_def range_in_region_def range_bytes_def
      u32_slice_def edge_type_slice_def le_u32_def slice_def get_opt_def Let_def word_le_nat_alt)

lemma sample_region_view:
  "mapped_view sample_region =
    \<lparr>edge_offsets = [0, 1, 1], targets = [1], type_ids = SOne [7], schema_reversed = [0],
     weights = [], relationship_ids = [42]\<rparr>"
  by (simp add: sample_region_def mapped_view_def range_bytes_def u32_slice_def
      edge_type_slice_def le_u32_def slice_def)

theorem mapped_store_refines_owned_witness:
  "mmap_validate sample_region = Some sample_region \<and>
    neighbors_with_schema_and_relationship_ids (Mmap sample_region) 0 = Inr ([1], SOne [7], [0], [42]) \<and>
    neighbors_with_schema_and_relationship_ids (Owned (mapped_view sample_region)) 0 =
      Inr ([1], SOne [7], [0], [42])"
proof -
  have "neighbors_with_schema_and_relationship_ids (Owned (mapped_view sample_region)) 0 =
      Inr ([1], SOne [7], [0], [42])"
    by (simp add: sample_region_view neighbors_with_schema_and_relationship_ids_def slice_r_def
        slice_def saturating_add_usize_def usize_max_def get_slice_opt_def)
  with sample_region_valid mapped_store_refines_owned [OF sample_region_valid, of 0] show ?thesis
    by simp
qed

end
