(* ===== verification/EdgeReverse.thy ===== *)
theory EdgeReverse
  imports EdgeAccess
begin

text \<open>
  \<open>EdgeStore::try_reversed\<close>: the inbound CSR built by a counting sort over the forward
  arrays (count the targets, prefix-sum the counts, place every edge at its target's write
  cursor). The theorems show that it never faults on a well-formed store, that the row of a
  node in the result lists its inbound edges in forward order, and that reversing twice
  gives back a store whose rows are sorted by target.
\<close>

section \<open>The algorithm\<close>

definition try_filled_vec :: "alloc_env \<Rightarrow> usize \<Rightarrow> 'a \<Rightarrow> 'a list graph_result" where
  "try_filled_vec al len v = rbind (try_reserve al len) (\<lambda>_. Inr (replicate len v))"

definition count_target :: "u32 \<Rightarrow> u32 list \<Rightarrow> u32 list graph_result" where
  "count_target t offs =
     rbind (index_r offs (unat t + 1)) (\<lambda>c. update_r offs (unat t + 1) (c + 1))"

definition count_targets :: "edge_store \<Rightarrow> nat \<Rightarrow> u32 list \<Rightarrow> u32 list graph_result" where
  "count_targets st src offs =
     rbind (neighbors st (word_of_nat src)) (\<lambda>(ts, _). fold_r count_target ts offs)"

definition prefix_sum_step :: "nat \<Rightarrow> u32 list \<Rightarrow> u32 list graph_result" where
  "prefix_sum_step idx offs =
     rbind (index_r offs (idx - 1)) (\<lambda>prev.
     rbind (index_r offs idx) (\<lambda>cur. update_r offs idx (cur + prev)))"

definition filled_storage ::
  "alloc_env \<Rightarrow> edge_type_width \<Rightarrow> usize \<Rightarrow> edge_type_storage graph_result" where
  "filled_storage al w n =
     (case w of
        One \<Rightarrow> rbind (try_filled_vec al n 0) (\<lambda>v. Inr (SOne v))
      | Two \<Rightarrow> rbind (try_filled_vec al n 0) (\<lambda>v. Inr (STwo v))
      | Four \<Rightarrow> rbind (try_filled_vec al n 0) (\<lambda>v. Inr (SFour v)))"

fun storage_set :: "edge_type_storage \<Rightarrow> usize \<Rightarrow> edge_type_id \<Rightarrow> edge_type_storage graph_result" where
  "storage_set (SOne values) i t =
     rbind (ok_or (Err EdgeTypeLimit) (u8_try_from t)) (\<lambda>v.
     rbind (update_r values i v) (\<lambda>vs. Inr (SOne vs)))"
| "storage_set (STwo values) i t =
     rbind (ok_or (Err EdgeTypeLimit) (u16_try_from t)) (\<lambda>v.
     rbind (update_r values i v) (\<lambda>vs. Inr (STwo vs)))"
| "storage_set (SFour values) i t = rbind (update_r values i t) (\<lambda>vs. Inr (SFour vs))"

record reverse_state =
  write_offsets :: "u32 list"
  reversed_targets :: "u32 list"
  reversed_type_ids :: edge_type_storage
  reversed_schema_reversed :: "u8 list"
  reversed_weights :: "u32 list"
  reversed_relationship_ids :: "relationship_id list"

definition place_edge ::
  "edge_store \<Rightarrow> bool \<Rightarrow> u32 \<Rightarrow> u8 list \<Rightarrow> u32 list \<Rightarrow> nat \<times> u32 \<times> edge_type_id \<Rightarrow>
    reverse_state \<Rightarrow> reverse_state graph_result" where
  "place_edge st hw src flags ws item rs =
     (case item of (idx, tgt, ty) \<Rightarrow>
        rbind (index_r (write_offsets rs) (unat tgt)) (\<lambda>write_idx.
        rbind (update_r (write_offsets rs) (unat tgt) (write_idx + 1)) (\<lambda>wo.
        rbind (update_r (reversed_targets rs) (unat write_idx) src) (\<lambda>rt.
        rbind (storage_set (reversed_type_ids rs) (unat write_idx) ty) (\<lambda>rty.
        rbind (index_r flags idx) (\<lambda>flag.
        rbind (update_r (reversed_schema_reversed rs) (unat write_idx) flag) (\<lambda>rf.
        rbind (index_r (store_offsets st) (unat src)) (\<lambda>off.
        rbind (update_r (reversed_relationship_ids rs) (unat write_idx)
          (opt_get_or NO_RELATIONSHIP_ID (get_opt (store_relationship_ids st) (unat off + idx)))) (\<lambda>rr.
        rbind (if hw then update_r (reversed_weights rs) (unat write_idx) (opt_get_or 1 (get_opt ws idx))
               else Inr (reversed_weights rs)) (\<lambda>rw.
        Inr \<lparr>write_offsets = wo, reversed_targets = rt, reversed_type_ids = rty,
          reversed_schema_reversed = rf, reversed_weights = rw,
          reversed_relationship_ids = rr\<rparr>))))))))))"

definition place_edges :: "edge_store \<Rightarrow> bool \<Rightarrow> nat \<Rightarrow> reverse_state \<Rightarrow> reverse_state graph_result" where
  "place_edges st hw src rs =
     rbind (neighbors_weighted_with_schema st (word_of_nat src)) (\<lambda>(ts, tys, flags, ws).
       fold_r (place_edge st hw (word_of_nat src) flags ws)
         (enumerate 0 (zip ts (types_iter tys))) rs)"

definition try_reversed :: "alloc_env \<Rightarrow> edge_store \<Rightarrow> edge_arrays graph_result" where
  "try_reversed al st =
     (let hw = has_weights st; nc = node_count st; ec = unat (edge_count st) in
      rbind (ok_or (csr_internal ''reverse CSR offset count overflowed'')
        (checked_add_usize (unat nc) 1)) (\<lambda>offset_count.
      rbind (try_filled_vec al offset_count 0) (\<lambda>offs0.
      rbind (fold_r (count_targets st) [0..<unat nc] offs0) (\<lambda>counts.
      rbind (fold_r prefix_sum_step [1..<length counts] counts) (\<lambda>offs.
      rbind (try_filled_vec al ec 0) (\<lambda>rt.
      rbind (filled_storage al (store_type_width st) ec) (\<lambda>rty.
      rbind (try_filled_vec al ec 0) (\<lambda>rf.
      rbind (if hw then try_filled_vec al ec 0 else Inr []) (\<lambda>rw.
      rbind (try_filled_vec al ec NO_RELATIONSHIP_ID) (\<lambda>rr.
      rbind (try_reserve al (length offs)) (\<lambda>_.
      rbind (fold_r (place_edges st hw) [0..<unat nc]
        \<lparr>write_offsets = offs, reversed_targets = rt, reversed_type_ids = rty,
         reversed_schema_reversed = rf, reversed_weights = rw,
         reversed_relationship_ids = rr\<rparr>) (\<lambda>rs.
      Inr \<lparr>edge_offsets = offs, targets = reversed_targets rs, type_ids = reversed_type_ids rs,
        schema_reversed = reversed_schema_reversed rs, weights = reversed_weights rs,
        relationship_ids = reversed_relationship_ids rs\<rparr>))))))))))))"

section \<open>Counting positions\<close>

text \<open>
  For a key function \<open>f\<close> on the positions \<open>0..<m\<close>: \<open>occ f t k\<close> counts the positions below
  \<open>k\<close> with key \<open>t\<close>, \<open>below f m t\<close> the positions with a smaller key, and \<open>place f m k\<close> is
  where the counting sort puts position \<open>k\<close>.
\<close>

definition occ :: "(nat \<Rightarrow> nat) \<Rightarrow> nat \<Rightarrow> nat \<Rightarrow> nat" where
  "occ f t k = length (filter (\<lambda>j. f j = t) [0..<k])"

definition below :: "(nat \<Rightarrow> nat) \<Rightarrow> nat \<Rightarrow> nat \<Rightarrow> nat" where
  "below f m t = length (filter (\<lambda>j. f j < t) [0..<m])"

definition place :: "(nat \<Rightarrow> nat) \<Rightarrow> nat \<Rightarrow> nat \<Rightarrow> nat" where
  "place f m k = below f m (f k) + occ f (f k) k"

lemma occ_0 [simp]: "occ f t 0 = 0"
  by (simp add: occ_def)

lemma occ_Suc: "occ f t (Suc k) = occ f t k + (if f k = t then 1 else 0)"
  by (simp add: occ_def)

lemma occ_mono: "j \<le> k \<Longrightarrow> occ f t j \<le> occ f t k"
  by (induction rule: dec_induct) (simp_all add: occ_Suc)

lemma occ_strict: "j < k \<Longrightarrow> f j = t \<Longrightarrow> occ f t j < occ f t k"
  using occ_mono [of "Suc j" k f t] by (simp add: occ_Suc)

lemma below_0 [simp]: "below f m 0 = 0"
  by (simp add: below_def)

lemma below_Suc: "below f m (Suc t) = below f m t + occ f t m"
  unfolding below_def occ_def by (induction m) auto

lemma below_mono: "s \<le> t \<Longrightarrow> below f m s \<le> below f m t"
  by (induction rule: dec_induct) (simp_all add: below_Suc)

lemma below_le: "below f m t \<le> m"
  unfolding below_def by (metis length_filter_le length_upt diff_zero)

lemma below_all: "(\<And>k. k < m \<Longrightarrow> f k < t) \<Longrightarrow> below f m t = m"
  by (simp add: below_def)

lemma occ_le: "occ f t k \<le> k"
  unfolding occ_def by (metis length_filter_le length_upt diff_zero)

lemma place_bounds:
  assumes "k < m"
  shows "below f m (f k) \<le> place f m k" and "place f m k < below f m (Suc (f k))" and "place f m k < m"
proof -
  show "below f m (f k) \<le> place f m k" by (simp add: place_def)
  show lt: "place f m k < below f m (Suc (f k))"
    using occ_strict [of k m f "f k"] assms by (simp add: place_def below_Suc)
  show "place f m k < m" using lt below_le [of f m "Suc (f k)"] by simp
qed

lemma place_inj:
  assumes "j < k" and "k < m"
  shows "place f m j \<noteq> place f m k"
proof (cases "f j" "f k" rule: linorder_cases)
  case less
  then have "below f m (Suc (f j)) \<le> below f m (f k)" by (intro below_mono) simp
  with place_bounds(2) [of j m f] place_bounds(1) [of k m f] assms show ?thesis by simp
next
  case equal
  with occ_strict [of j k f "f k"] assms show ?thesis by (simp add: place_def)
next
  case greater
  then have "below f m (Suc (f k)) \<le> below f m (f j)" by (intro below_mono) simp
  with place_bounds(1) [of j m f] place_bounds(2) [of k m f] assms show ?thesis by simp
qed

lemma occ_nth_filter:
  assumes "k < m" and "f k = t"
  shows "filter (\<lambda>k. f k = t) [0..<m] ! occ f t k = k" and "occ f t k < length (filter (\<lambda>k. f k = t) [0..<m])"
proof -
  have "[0..<m] = [0..<k] @ k # [Suc k..<m]"
    using assms(1) upt_split [of 0 k m] upt_conv_Cons [of k m] by simp
  then have "filter (\<lambda>k. f k = t) [0..<m] =
      filter (\<lambda>k. f k = t) [0..<k] @ k # filter (\<lambda>k. f k = t) [Suc k..<m]"
    using assms(2) by (metis (mono_tags, lifting) filter.simps(2) filter_append)
  then show "filter (\<lambda>k. f k = t) [0..<m] ! occ f t k = k"
    and "occ f t k < length (filter (\<lambda>k. f k = t) [0..<m])"
    by (simp_all add: occ_def)
qed

lemma place_row:
  assumes n: "n < occ f t m" and k: "k = filter (\<lambda>k. f k = t) [0..<m] ! n"
  shows "place f m k = below f m t + n" and "k < m" and "f k = t"
proof -
  have len: "n < length (filter (\<lambda>k. f k = t) [0..<m])" using n by (simp add: occ_def)
  then have "k \<in> set (filter (\<lambda>k. f k = t) [0..<m])" unfolding k by (rule nth_mem)
  then show km: "k < m" and fk: "f k = t" by auto
  have "distinct (filter (\<lambda>k. f k = t) [0..<m])" by simp
  then have "occ f t k = n"
    using len occ_nth_filter [of k m f t] km fk k by (metis nth_eq_iff_index_eq)
  with fk show "place f m k = below f m t + n" by (simp add: place_def)
qed

section \<open>Reading the rows of the forward store\<close>

lemma csr_wf_small: "csr_wf a \<Longrightarrow> length (targets a) < 4294967296"
  using unat_u32_less [of "last (edge_offsets a)"] by (simp add: csr_wf_def)

lemma neighbors_from_schema:
  "neighbors (Owned a) i =
    (case neighbors_with_schema (Owned a) i of
       Inl e \<Rightarrow> neighbors (Owned a) i | Inr (ts, tys, fl) \<Rightarrow> Inr (ts, tys))"
  by (auto simp: result_simps split: sum.splits)

lemma neighbors_Owned:
  assumes "csr_wf a" and "unat i < node_count_of a"
  shows "\<exists>tys. neighbors (Owned a) i = Inr (map fst (row a (unat i)), tys)"
proof -
  from neighbors_with_schema_Owned [OF assms] obtain tys where
    "neighbors_with_schema (Owned a) i =
      Inr (map fst (row a (unat i)), tys, map (\<lambda>x. fst (snd (snd x))) (row a (unat i)))"
    by blast
  with neighbors_from_schema [of a i] have "neighbors (Owned a) i = Inr (map fst (row a (unat i)), tys)"
    by (simp del: neighbors.simps neighbors_with_schema.simps)
  then show ?thesis ..
qed

lemma unat_node_count:
  assumes "csr_wf a"
  shows "unat (node_count (Owned a)) = node_count_of a"
proof -
  have "node_count (Owned a) = word_of_nat (node_count_of a)"
    using assms unfolding node_count_of_def node_count.simps csr_wf_def by argo
  with assms show ?thesis by (simp add: csr_wf_def)
qed

lemma neighbors_weighted_Owned:
  assumes wf: "csr_wf a" and n: "unat i < node_count_of a"
  shows "\<exists>ts tys. neighbors_weighted (Owned a) i = Inr (ts, tys,
    if weights a = [] then [] else slice (row_start a (unat i)) (row_start a (Suc (unat i))) (weights a))"
proof -
  let ?s = "row_start a (unat i)" and ?e = "row_start a (Suc (unat i))"
  have len: "Suc (unat i) < length (edge_offsets a)"
    using n by (simp add: node_count_of_def)
  have nc: "\<not> node_count (Owned a) \<le> i"
    using n unat_node_count [OF wf] by (simp add: word_le_nat_alt del: node_count.simps)
  have le: "?s \<le> ?e" "?e \<le> length (targets a)"
    using assms row_start_mono [of a "unat i" "Suc (unat i)"] row_start_le [of a "Suc (unat i)"]
    by auto
  have L: "length (logical_ids (type_ids a)) = length (targets a)"
    "weights a = [] \<or> length (weights a) = length (targets a)"
    using wf by (auto simp: csr_wf_def)
  obtain tys where "types_subslice (type_ids a) ?s ?e = Inr tys"
    using types_subslice_ok [of ?s ?e "type_ids a"] le L by auto
  then show ?thesis
    using len le L nc by (auto simp: neighbors_weighted_def row_start_def [symmetric] simp del: node_count.simps)
qed

text \<open>The two payload readings the placing loop takes, at position \<open>row_start a n + idx\<close>.\<close>

lemma neighbors_weighted_with_schema_Owned:
  assumes wf: "csr_wf a" and n: "unat i < node_count_of a"
  shows "\<exists>tys. neighbors_weighted_with_schema (Owned a) i =
      Inr (map fst (row a (unat i)), tys, map (\<lambda>x. fst (snd (snd x))) (row a (unat i)),
        if weights a = [] then []
        else slice (row_start a (unat i)) (row_start a (Suc (unat i))) (weights a)) \<and>
    types_iter tys = map (\<lambda>x. fst (snd x)) (row a (unat i))"
proof -
  from neighbors_with_schema_Owned [OF assms] obtain tys where
    "neighbors_with_schema (Owned a) i =
      Inr (map fst (row a (unat i)), tys, map (\<lambda>x. fst (snd (snd x))) (row a (unat i)))"
    "logical_ids tys = map (\<lambda>x. fst (snd x)) (row a (unat i))" "storage_ok tys"
    by blast
  with neighbors_weighted_Owned [OF assms] show ?thesis
    by (auto simp: neighbors_weighted_with_schema_def types_iter_ok
        simp del: neighbors_with_schema.simps)
qed

lemma row_nth:
  assumes "csr_wf a" and "n < node_count_of a" and "idx < length (row a n)"
  shows "row a n ! idx = entry a (row_start a n + idx)" and "row_start a n + idx < length (targets a)"
proof -
  have "idx < row_start a (Suc n) - row_start a n"
    using assms by (simp add: length_row)
  with row_start_le [OF assms(1), of "Suc n"] assms(2)
  show "row a n ! idx = entry a (row_start a n + idx)" and "row_start a n + idx < length (targets a)"
    by (simp_all add: row_def)
qed

definition pos_source :: "edge_arrays \<Rightarrow> nat \<Rightarrow> nat" where
  "pos_source a k = (LEAST n. k < row_start a (Suc n))"

lemma pos_source_eq:
  assumes wf: "csr_wf a" and n: "n < node_count_of a" and k: "row_start a n \<le> k" "k < row_start a (Suc n)"
  shows "pos_source a k = n"
  unfolding pos_source_def
proof (rule Least_equality)
  show "k < row_start a (Suc n)" by (rule k(2))
next
  fix y assume y: "k < row_start a (Suc y)"
  show "n \<le> y"
  proof (rule ccontr)
    assume "\<not> n \<le> y"
    then have "row_start a (Suc y) \<le> row_start a n"
      using n by (intro row_start_mono [OF wf]) simp_all
    with y k(1) show False by simp
  qed
qed

text \<open>A loop over the nodes, each advancing an invariant over the edge positions by its row.\<close>

lemma rows_loop:
  assumes wf: "csr_wf a" and init: "P 0 s"
    and body: "\<And>n s. n < node_count_of a \<Longrightarrow> P (row_start a n) s \<Longrightarrow>
      \<exists>s'. g n s = Inr s' \<and> P (row_start a n + length (row a n)) s'"
  shows "\<exists>s'. fold_r g [0..<node_count_of a] s = Inr s' \<and> P (length (targets a)) s'"
proof -
  have "\<exists>s'. fold_r g [0..<node_count_of a] s = Inr s' \<and>
      P (row_start a (0 + length [0..<node_count_of a])) s'"
  proof (rule fold_r_count [where b = 0 and P = "\<lambda>n. P (row_start a n)"])
    show "P (row_start a 0) s" using init by (simp add: row_start_0 [OF wf])
  next
    fix i s assume i: "i < length [0..<node_count_of a]" and p: "P (row_start a (0 + i)) s"
    then have "row_start a i + length (row a i) = row_start a (Suc i)"
      using row_start_mono [OF wf, of i "Suc i"] length_row [OF wf, of i] by simp
    with body [of i s] i p show "\<exists>s'. g ([0..<node_count_of a] ! i) s = Inr s' \<and>
        P (row_start a (Suc (0 + i))) s'"
      by simp
  qed
  then show ?thesis by (simp add: row_start_last [OF wf])
qed

section \<open>The offsets of the inbound store\<close>

abbreviation tkey :: "edge_arrays \<Rightarrow> nat \<Rightarrow> nat" where
  "tkey a k \<equiv> unat (targets a ! k)"

definition counted :: "edge_arrays \<Rightarrow> nat \<Rightarrow> u32 list \<Rightarrow> bool" where
  "counted a k offs \<longleftrightarrow> length offs = Suc (node_count_of a) \<and> offs ! 0 = 0 \<and>
     (\<forall>t < node_count_of a. unat (offs ! Suc t) = occ (tkey a) t k)"

lemma count_target_step:
  assumes wf: "csr_wf a" and inv: "counted a k offs" and k: "k < length (targets a)"
  shows "\<exists>offs'. count_target (targets a ! k) offs = Inr offs' \<and> counted a (Suc k) offs'"
proof -
  let ?t = "tkey a k"
  have t: "?t < node_count_of a" using wf k by (simp add: csr_wf_def)
  have "Suc (unat (offs ! Suc ?t)) < 4294967296"
    using inv t occ_le [of "tkey a" ?t k] k csr_wf_small [OF wf] by (simp add: counted_def)
  then have "unat (offs ! Suc ?t + 1) = Suc (occ (tkey a) ?t k)"
    using inv t by (simp add: unat_Suc_u32 counted_def)
  with inv t show ?thesis
    by (auto simp: count_target_def counted_def occ_Suc nth_list_update)
qed

lemma count_targets_ok:
  assumes wf: "csr_wf a" and len: "length offs = Suc (node_count_of a)" and zero: "set offs \<subseteq> {0}"
  shows "\<exists>offs'. fold_r (count_targets (Owned a)) [0..<node_count_of a] offs = Inr offs' \<and>
    counted a (length (targets a)) offs'"
proof (rule rows_loop [OF wf])
  have "offs ! i = 0" if "i < Suc (node_count_of a)" for i
    using that len zero nth_mem [of i offs] by (metis singletonD subsetD)
  then show "counted a 0 offs" using len by (simp add: counted_def)
next
  fix n s assume n: "n < node_count_of a" and inv: "counted a (row_start a n) s"
  have "unat (word_of_nat n :: u32) = n" using n wf by (simp add: csr_wf_def)
  with neighbors_Owned [OF wf, of "word_of_nat n"] n obtain tys where
    nb: "neighbors (Owned a) (word_of_nat n) = Inr (map fst (row a n), tys)" by auto
  have "\<exists>s'. fold_r count_target (map fst (row a n)) s = Inr s' \<and>
      counted a (row_start a n + length (map fst (row a n))) s'"
  proof (rule fold_r_count [where P = "counted a", OF inv])
    fix i s assume i: "i < length (map fst (row a n))" and inv: "counted a (row_start a n + i) s"
    then have "map fst (row a n) ! i = targets a ! (row_start a n + i)"
      using row_nth(1) [OF wf n, of i] by (simp add: entry_def)
    with count_target_step [OF wf inv] row_nth(2) [OF wf n, of i] i
    show "\<exists>s'. count_target (map fst (row a n) ! i) s = Inr s' \<and> counted a (Suc (row_start a n + i)) s'"
      by simp
  qed
  then show "\<exists>s'. count_targets (Owned a) n s = Inr s' \<and> counted a (row_start a n + length (row a n)) s'"
    by (simp add: count_targets_def nb del: neighbors.simps)
qed

definition summed :: "edge_arrays \<Rightarrow> nat \<Rightarrow> u32 list \<Rightarrow> bool" where
  "summed a k offs \<longleftrightarrow> length offs = Suc (node_count_of a) \<and>
     (\<forall>t < k. unat (offs ! t) = below (tkey a) (length (targets a)) t) \<and>
     (\<forall>t < node_count_of a. k \<le> Suc t \<longrightarrow> unat (offs ! Suc t) = occ (tkey a) t (length (targets a)))"

lemma prefix_sum_ok:
  assumes wf: "csr_wf a" and inv: "counted a (length (targets a)) offs"
  shows "\<exists>offs'. fold_r prefix_sum_step [1..<length offs] offs = Inr offs' \<and>
    summed a (Suc (node_count_of a)) offs'"
proof -
  let ?m = "length (targets a)" and ?f = "tkey a"
  have "\<exists>offs'. fold_r prefix_sum_step [1..<length offs] offs = Inr offs' \<and>
      summed a (1 + length [1..<length offs]) offs'"
  proof (rule fold_r_count [where P = "summed a"])
    show "summed a 1 offs" using inv by (auto simp: summed_def counted_def)
  next
    fix i s assume i: "i < length [1..<length offs]" and s: "summed a (1 + i) s"
    have i': "i < node_count_of a" using i inv by (simp add: counted_def)
    have prev: "unat (s ! i) = below ?f ?m i" and cur: "unat (s ! Suc i) = occ ?f i ?m"
      and len: "length s = Suc (node_count_of a)"
      using s i' by (auto simp: summed_def)
    have "unat (s ! Suc i) + unat (s ! i) < 4294967296"
      using below_le [of ?f ?m "Suc i"] csr_wf_small [OF wf] by (simp add: prev cur below_Suc)
    then have sum: "unat (s ! Suc i + s ! i) = below ?f ?m (Suc i)"
      by (simp add: unat_word_ariths prev cur below_Suc)
    have "prefix_sum_step (Suc i) s = Inr (s[Suc i := s ! Suc i + s ! i])"
      using len i' by (simp add: prefix_sum_step_def)
    moreover have "s[Suc i := s ! Suc i + s ! i] ! Suc i = s ! Suc i + s ! i"
      using len i' by simp
    then have "summed a (Suc (1 + i)) (s[Suc i := s ! Suc i + s ! i])"
      using s i' sum len by (auto simp: summed_def nth_list_update less_Suc_eq)
    moreover have "[1..<length offs] ! i = Suc i" using i by simp
    ultimately show "\<exists>s'. prefix_sum_step ([1..<length offs] ! i) s = Inr s' \<and> summed a (Suc (1 + i)) s'"
      by auto
  qed
  moreover have "1 + length [1..<length offs] = Suc (node_count_of a)"
    using inv by (simp add: counted_def)
  ultimately show ?thesis by simp
qed

section \<open>Placing the edges\<close>

lemma storage_set_ok:
  assumes "i < length (logical_ids s)" and "fits_width (storage_width s) t"
  shows "\<exists>s'. storage_set s i t = Inr s' \<and> logical_ids s' = (logical_ids s)[i := t] \<and>
    storage_width s' = storage_width s"
  using assms
  by (cases s) (auto simp: fits_width_simps u8_try_from_eq u16_try_from_eq map_update)

definition filled :: "(nat \<Rightarrow> nat) \<Rightarrow> nat \<Rightarrow> nat \<Rightarrow> 'a list \<Rightarrow> (nat \<Rightarrow> 'a) \<Rightarrow> bool" where
  "filled f m k arr g \<longleftrightarrow> length arr = m \<and> (\<forall>j < k. arr ! place f m j = g j)"

lemma filled_0 [simp]: "filled f m 0 arr g \<longleftrightarrow> length arr = m"
  by (simp add: filled_def)

lemma filled_update:
  assumes "filled f m k arr g" and "k < m"
  shows "filled f m (Suc k) (arr[place f m k := g k]) g"
proof -
  have "\<forall>j < k. place f m k \<noteq> place f m j"
    using place_inj [OF _ assms(2)] by metis
  with assms place_bounds(3) [OF assms(2)] show ?thesis
    by (auto simp: filled_def less_Suc_eq)
qed

definition placed :: "edge_arrays \<Rightarrow> nat \<Rightarrow> reverse_state \<Rightarrow> bool" where
  "placed a k rs \<longleftrightarrow>
     (let m = length (targets a); f = tkey a in
      length (write_offsets rs) = Suc (node_count_of a) \<and>
      (\<forall>t < node_count_of a. unat (write_offsets rs ! t) = below f m t + occ f t k) \<and>
      filled f m k (reversed_targets rs) (\<lambda>j. word_of_nat (pos_source a j)) \<and>
      filled f m k (logical_ids (reversed_type_ids rs)) (\<lambda>j. logical_ids (type_ids a) ! j) \<and>
      filled f m k (reversed_schema_reversed rs) (\<lambda>j. schema_reversed a ! j) \<and>
      filled f m k (reversed_relationship_ids rs) (\<lambda>j. relationship_ids a ! j) \<and>
      (if weights a = [] then reversed_weights rs = []
       else filled f m k (reversed_weights rs) (\<lambda>j. weights a ! j)) \<and>
      storage_width (reversed_type_ids rs) = storage_width (type_ids a) \<and>
      storage_ok (reversed_type_ids rs) \<and>
      (\<forall>x \<in> set (reversed_schema_reversed rs). x = 0 \<or> x = 1) \<and>
      (\<forall>x \<in> set (reversed_targets rs). unat x < node_count_of a))"

lemma in_set_updateD: "x \<in> set (xs[i := v]) \<Longrightarrow> x = v \<or> x \<in> set xs"
  using set_update_subset_insert [of xs i v] by auto

lemma place_edge_step:
  assumes wf: "csr_wf a" and inv: "placed a (row_start a n + idx) rs" and n: "n < node_count_of a"
    and idx: "idx < length (row a n)"
    and flags: "flags = map (\<lambda>x. fst (snd (snd x))) (row a n)"
    and ws: "ws = (if weights a = [] then [] else slice (row_start a n) (row_start a (Suc n)) (weights a))"
  shows "\<exists>rs'. place_edge (Owned a) (weights a \<noteq> []) (word_of_nat n) flags ws
      (idx, targets a ! (row_start a n + idx), logical_ids (type_ids a) ! (row_start a n + idx)) rs = Inr rs' \<and>
    placed a (Suc (row_start a n + idx)) rs'"
proof -
  let ?k = "row_start a n + idx" and ?m = "length (targets a)" and ?f = "tkey a"
  let ?t = "?f ?k" and ?p = "place ?f ?m ?k"
  have k: "?k < ?m" by (rule row_nth(2) [OF wf n idx])
  have t: "?t < node_count_of a" using wf k by (simp add: csr_wf_def)
  have p: "?p < ?m" by (rule place_bounds(3) [OF k])
  have un: "unat (word_of_nat n :: u32) = n" using n wf by (simp add: csr_wf_def)
  have src: "pos_source a ?k = n"
    using idx length_row [OF wf n] by (intro pos_source_eq [OF wf n]) simp_all
  have wo: "length (write_offsets rs) = Suc (node_count_of a)" "unat (write_offsets rs ! ?t) = ?p"
    using inv t by (auto simp: placed_def Let_def place_def)
  have inc: "unat (write_offsets rs ! ?t + 1) = Suc ?p"
    using p csr_wf_small [OF wf] wo(2) by (simp add: unat_Suc_u32)
  have lens: "length (reversed_targets rs) = ?m" "length (logical_ids (reversed_type_ids rs)) = ?m"
    "length (reversed_schema_reversed rs) = ?m" "length (reversed_relationship_ids rs) = ?m"
    "weights a \<noteq> [] \<Longrightarrow> length (reversed_weights rs) = ?m"
    using inv by (auto simp: placed_def Let_def filled_def)
  have alens: "length (logical_ids (type_ids a)) = ?m" "length (relationship_ids a) = ?m"
    "length (schema_reversed a) = ?m" "weights a \<noteq> [] \<Longrightarrow> length (weights a) = ?m"
    using wf by (auto simp: csr_wf_def)
  have fits: "fits_width (storage_width (reversed_type_ids rs)) (logical_ids (type_ids a) ! ?k)"
    using wf inv alens k by (auto simp: placed_def Let_def csr_wf_def storage_ok_iff)
  then obtain st where st: "storage_set (reversed_type_ids rs) ?p (logical_ids (type_ids a) ! ?k) = Inr st"
    "logical_ids st = (logical_ids (reversed_type_ids rs))[?p := logical_ids (type_ids a) ! ?k]"
    "storage_width st = storage_width (reversed_type_ids rs)"
    using storage_set_ok [of ?p "reversed_type_ids rs"] p lens by auto
  have stok: "storage_ok st"
    using inv fits unfolding placed_def Let_def storage_ok_iff st(2,3) by (auto dest!: in_set_updateD)
  have flag: "idx < length flags" "flags ! idx = schema_reversed a ! ?k"
    using idx row_nth(1) [OF wf n idx] by (simp_all add: flags entry_def)
  have rel: "opt_get_or NO_RELATIONSHIP_ID (get_opt (relationship_ids a) ?k) = relationship_ids a ! ?k"
    using k alens by simp
  have off: "n < length (edge_offsets a)" "unat (edge_offsets a ! n) = row_start a n"
    using n by (simp_all add: node_count_of_def row_start_def)
  have wt: "opt_get_or 1 (get_opt ws idx) = weights a ! ?k" if "weights a \<noteq> []"
  proof -
    have "row_start a (Suc n) \<le> length (weights a)"
      using row_start_le [OF wf, of "Suc n"] n alens(4) [OF that] by simp
    then show ?thesis
      using idx that length_row [OF wf n] by (simp add: ws)
  qed
  have fl01: "schema_reversed a ! ?k = 0 \<or> schema_reversed a ! ?k = 1"
    using wf k alens by (simp add: csr_wf_def)
  let ?rs' = "\<lparr>write_offsets = (write_offsets rs)[?t := write_offsets rs ! ?t + 1],
      reversed_targets = (reversed_targets rs)[?p := word_of_nat n], reversed_type_ids = st,
      reversed_schema_reversed = (reversed_schema_reversed rs)[?p := schema_reversed a ! ?k],
      reversed_weights = (if weights a = [] then reversed_weights rs
        else (reversed_weights rs)[?p := weights a ! ?k]),
      reversed_relationship_ids = (reversed_relationship_ids rs)[?p := relationship_ids a ! ?k]\<rparr>"
  have "place_edge (Owned a) (weights a \<noteq> []) (word_of_nat n) flags ws
      (idx, targets a ! ?k, logical_ids (type_ids a) ! ?k) rs = Inr ?rs'"
    using wo t p lens st flag rel off wt by (simp add: place_edge_def un)
  moreover have "placed a (Suc ?k) ?rs'"
    using inv wo t inc k stok st(2,3) fl01 n un
      filled_update [OF _ k, of ?f _ "\<lambda>j. word_of_nat (pos_source a j)"]
      filled_update [OF _ k, of ?f _ "\<lambda>j. logical_ids (type_ids a) ! j"]
      filled_update [OF _ k, of ?f _ "\<lambda>j. schema_reversed a ! j"]
      filled_update [OF _ k, of ?f _ "\<lambda>j. relationship_ids a ! j"]
      filled_update [OF _ k, of ?f _ "\<lambda>j. weights a ! j"]
    unfolding placed_def Let_def src
    by (auto simp: nth_list_update occ_Suc place_def dest!: in_set_updateD)
  ultimately show ?thesis by blast
qed

lemma place_edges_ok:
  assumes wf: "csr_wf a" and inv: "placed a 0 rs"
  shows "\<exists>rs'. fold_r (place_edges (Owned a) (weights a \<noteq> [])) [0..<node_count_of a] rs = Inr rs' \<and>
    placed a (length (targets a)) rs'"
proof (rule rows_loop [OF wf, where P = "placed a", OF inv])
  fix n s assume n: "n < node_count_of a" and inv: "placed a (row_start a n) s"
  let ?ws = "if weights a = [] then [] else slice (row_start a n) (row_start a (Suc n)) (weights a)"
  let ?fl = "map (\<lambda>x. fst (snd (snd x))) (row a n)"
  have "unat (word_of_nat n :: u32) = n" using n wf by (simp add: csr_wf_def)
  with neighbors_weighted_with_schema_Owned [OF wf, of "word_of_nat n"] n obtain tys where
    nb: "neighbors_weighted_with_schema (Owned a) (word_of_nat n) =
        Inr (map fst (row a n), tys, ?fl, ?ws)"
      "types_iter tys = map (\<lambda>x. fst (snd x)) (row a n)" by auto
  let ?items = "enumerate 0 (zip (map fst (row a n)) (types_iter tys))"
  have len: "length ?items = length (row a n)" by (simp add: nb(2))
  have "\<exists>s'. fold_r (place_edge (Owned a) (weights a \<noteq> []) (word_of_nat n) ?fl ?ws) ?items s = Inr s' \<and>
      placed a (row_start a n + length ?items) s'"
  proof (rule fold_r_count [where P = "placed a", OF inv])
    fix i s assume i: "i < length ?items" and inv: "placed a (row_start a n + i) s"
    then have i': "i < length (row a n)" using len by simp
    have "?items ! i = (i, targets a ! (row_start a n + i), logical_ids (type_ids a) ! (row_start a n + i))"
      using i' row_nth(1) [OF wf n i'] by (simp add: nth_enumerate_eq nb(2) entry_def)
    with place_edge_step [OF wf inv n i' refl refl]
    show "\<exists>s'. place_edge (Owned a) (weights a \<noteq> []) (word_of_nat n) ?fl ?ws (?items ! i) s = Inr s' \<and>
        placed a (Suc (row_start a n + i)) s'" by simp
  qed
  then show "\<exists>s'. place_edges (Owned a) (weights a \<noteq> []) n s = Inr s' \<and>
      placed a (row_start a n + length (row a n)) s'"
    using len by (simp add: place_edges_def nb(1))
qed

section \<open>What the inbound store holds\<close>

definition inbound_positions :: "edge_arrays \<Rightarrow> nat \<Rightarrow> nat list" where
  "inbound_positions a t = filter (\<lambda>k. tkey a k = t) [0..<length (targets a)]"

text \<open>
  \<open>reverse_of a r\<close>: position \<open>place j\<close> of \<open>r\<close> holds edge \<open>j\<close> of \<open>a\<close> with its source.
\<close>

definition reverse_of :: "edge_arrays \<Rightarrow> edge_arrays \<Rightarrow> bool" where
  "reverse_of a r \<longleftrightarrow>
     csr_wf r \<and> node_count_of r = node_count_of a \<and> length (targets r) = length (targets a) \<and>
     storage_width (type_ids r) = storage_width (type_ids a) \<and> (weights r = [] \<longleftrightarrow> weights a = []) \<and>
     (\<forall>t \<le> node_count_of a. row_start r t = below (tkey a) (length (targets a)) t) \<and>
     (\<forall>j < length (targets a). let p = place (tkey a) (length (targets a)) j in
        entry r p = (word_of_nat (pos_source a j), snd (entry a j)) \<and>
        (weights a \<noteq> [] \<longrightarrow> weights r ! p = weights a ! j))"

lemma placed_reverse_of:
  assumes wf: "csr_wf a" and inv: "placed a (length (targets a)) rs"
    and offs: "summed a (Suc (node_count_of a)) offs"
  shows "reverse_of a \<lparr>edge_offsets = offs, targets = reversed_targets rs,
    type_ids = reversed_type_ids rs, schema_reversed = reversed_schema_reversed rs,
    weights = reversed_weights rs, relationship_ids = reversed_relationship_ids rs\<rparr>" (is "reverse_of a ?r")
proof -
  let ?m = "length (targets a)" and ?n = "node_count_of a"
  have olen: "length offs = Suc ?n" and o: "\<And>t. t \<le> ?n \<Longrightarrow> unat (offs ! t) = below (tkey a) ?m t"
    using offs by (auto simp: summed_def)
  have "below (tkey a) ?m ?n = ?m"
    using wf by (intro below_all) (simp add: csr_wf_def)
  then have last: "unat (last offs) = ?m"
    using olen o [of ?n] by (cases offs rule: rev_cases) (simp_all add: last_conv_nth nth_append)
  have hd: "hd offs = 0"
    using olen o [of 0] by (cases offs) (simp_all add: unat_eq_0)
  have sorted: "sorted (map unat offs)"
    using olen o by (auto simp: sorted_iff_nth_mono below_mono)
  have lens: "length (reversed_targets rs) = ?m" "length (logical_ids (reversed_type_ids rs)) = ?m"
    "length (reversed_schema_reversed rs) = ?m" "length (reversed_relationship_ids rs) = ?m"
    "weights a \<noteq> [] \<Longrightarrow> length (reversed_weights rs) = ?m"
    using inv by (auto simp: placed_def Let_def filled_def)
  have nc: "node_count_of ?r = ?n" using olen by (simp add: node_count_of_def)
  have w: "reversed_weights rs = [] \<longleftrightarrow> weights a = []"
  proof (cases "weights a = []")
    case True
    then show ?thesis using inv by (simp add: placed_def Let_def)
  next
    case False
    then have "length (weights a) = ?m" using wf by (simp add: csr_wf_def)
    with False lens(5) show ?thesis by (metis length_0_conv)
  qed
  have "csr_wf ?r"
    using inv wf lens w hd last sorted olen nc
    by (auto simp: csr_wf_def placed_def Let_def node_count_of_def split: if_splits)
  moreover have "entry ?r (place (tkey a) ?m j) = (word_of_nat (pos_source a j), snd (entry a j))"
    if "j < ?m" for j
    using inv that by (simp add: placed_def Let_def filled_def entry_def)
  moreover have "weights ?r ! (place (tkey a) ?m j) = weights a ! j" if "j < ?m" "weights a \<noteq> []" for j
    using inv that by (simp add: placed_def Let_def filled_def)
  ultimately show ?thesis
    using inv w nc lens o by (simp add: reverse_of_def Let_def row_start_def placed_def)
qed

lemma filled_storage_ok:
  "\<exists>s. filled_storage unlimited_alloc w n = Inr s \<and> logical_ids s = replicate n 0 \<and>
    storage_width s = w \<and> storage_ok s"
  by (cases w) (auto simp: filled_storage_def try_filled_vec_def storage_ok_def)

lemma try_reversed_ok:
  assumes wf: "csr_wf a"
  shows "\<exists>r. try_reversed unlimited_alloc (Owned a) = Inr r \<and> reverse_of a r"
proof -
  let ?m = "length (targets a)" and ?n = "node_count_of a"
  have nc: "unat (node_count (Owned a)) = ?n" by (rule unat_node_count [OF wf])
  have ec: "unat (edge_count (Owned a)) = ?m" using csr_wf_small [OF wf] by simp
  have cap: "checked_add_usize ?n 1 = Some (Suc ?n)"
    using wf by (simp add: checked_add_usize_def usize_max_def csr_wf_def)
  obtain cs where cs: "fold_r (count_targets (Owned a)) [0..<?n] (replicate (Suc ?n) 0) = Inr cs"
    "counted a ?m cs"
    using count_targets_ok [OF wf length_replicate, of 0] by (metis in_set_replicate singletonI subsetI)
  obtain offs where offs: "fold_r prefix_sum_step [1..<length cs] cs = Inr offs" "summed a (Suc ?n) offs"
    using prefix_sum_ok [OF wf cs(2)] by blast
  obtain st where st: "filled_storage unlimited_alloc (storage_width (type_ids a)) ?m = Inr st"
    "logical_ids st = replicate ?m 0" "storage_width st = storage_width (type_ids a)" "storage_ok st"
    using filled_storage_ok by blast
  let ?rs = "\<lparr>write_offsets = offs, reversed_targets = replicate ?m 0, reversed_type_ids = st,
      reversed_schema_reversed = replicate ?m 0,
      reversed_weights = (if weights a = [] then [] else replicate ?m 0),
      reversed_relationship_ids = replicate ?m NO_RELATIONSHIP_ID\<rparr>"
  have "?m = 0 \<or> 0 < ?n"
    using wf by (cases "targets a") (auto simp: csr_wf_def)
  then have "placed a 0 ?rs"
    using offs(2) st by (auto simp: placed_def summed_def)
  from place_edges_ok [OF wf this] obtain rs where
    rs: "fold_r (place_edges (Owned a) (weights a \<noteq> [])) [0..<?n] ?rs = Inr rs" "placed a ?m rs"
    by blast
  have "try_reversed unlimited_alloc (Owned a) =
      Inr \<lparr>edge_offsets = offs, targets = reversed_targets rs,
        type_ids = reversed_type_ids rs, schema_reversed = reversed_schema_reversed rs,
        weights = reversed_weights rs, relationship_ids = reversed_relationship_ids rs\<rparr>"
    using cs(1) offs(1) st(1) rs(1)
    by (auto simp: try_reversed_def Let_def nc ec cap try_filled_vec_def
        simp del: One_nat_def node_count.simps edge_count.simps replicate.simps)
  with placed_reverse_of [OF wf rs(2) offs(2)] show ?thesis by blast
qed

text \<open>The row of a node with its weights (an unweighted edge weighs 1).\<close>

definition weighted_entry :: "edge_arrays \<Rightarrow> nat \<Rightarrow> adjacency \<times> u32" where
  "weighted_entry a k = (entry a k, opt_get_or 1 (get_opt (weights a) k))"

definition weighted_row :: "edge_arrays \<Rightarrow> nat \<Rightarrow> (adjacency \<times> u32) list" where
  "weighted_row a n = map (weighted_entry a) [row_start a n..<row_start a (Suc n)]"

definition with_source :: "nat \<Rightarrow> adjacency \<times> u32 \<Rightarrow> adjacency \<times> u32" where
  "with_source n x = ((word_of_nat n, snd (fst x)), snd x)"

definition points_to :: "nat \<Rightarrow> adjacency \<times> u32 \<Rightarrow> bool" where
  "points_to t x \<longleftrightarrow> unat (fst (fst x)) = t"

text \<open>The inbound edges of a node: sources in order, each with its edges to the node.\<close>

definition inbound :: "edge_arrays \<Rightarrow> nat \<Rightarrow> (adjacency \<times> u32) list" where
  "inbound a t =
     concat (map (\<lambda>n. map (with_source n) (filter (points_to t) (weighted_row a n)))
       [0..<node_count_of a])"

lemma positions_by_row:
  assumes wf: "csr_wf a"
  shows "n \<le> node_count_of a \<Longrightarrow>
    [0..<row_start a n] = concat (map (\<lambda>n. [row_start a n..<row_start a (Suc n)]) [0..<n])"
proof (induction n)
  case 0
  then show ?case by (simp add: row_start_0 [OF wf])
next
  case (Suc n)
  then show ?case
    using upt_split [of 0 "row_start a n" "row_start a (Suc n)"] row_start_mono [OF wf, of n "Suc n"]
    by simp
qed

lemma inbound_eq_positions:
  assumes wf: "csr_wf a"
  shows "inbound a t =
    map (\<lambda>k. with_source (pos_source a k) (weighted_entry a k)) (inbound_positions a t)"
proof -
  let ?row = "\<lambda>n. [row_start a n..<row_start a (Suc n)]"
  have "inbound_positions a t = concat (map (\<lambda>n. filter (\<lambda>k. tkey a k = t) (?row n)) [0..<node_count_of a])"
    using positions_by_row [OF wf order_refl]
    by (simp add: inbound_positions_def row_start_last [OF wf] filter_concat comp_def)
  moreover have "map (with_source n) (filter (points_to t) (weighted_row a n)) =
      map (\<lambda>k. with_source (pos_source a k) (weighted_entry a k)) (filter (\<lambda>k. tkey a k = t) (?row n))"
    if "n < node_count_of a" for n
    using pos_source_eq [OF wf that]
    by (simp add: weighted_row_def filter_map comp_def points_to_def weighted_entry_def entry_def)
  ultimately show ?thesis
    by (auto simp: inbound_def map_concat comp_def intro!: arg_cong [of _ _ concat])
qed

lemma reverse_of_row:
  assumes wf: "csr_wf a" and r: "reverse_of a r" and t: "t < node_count_of a"
  shows "weighted_row r t = inbound a t"
proof -
  let ?m = "length (targets a)" and ?f = "tkey a"
  let ?ks = "inbound_positions a t"
  have st: "row_start r t = below ?f ?m t" "row_start r (Suc t) = below ?f ?m t + occ ?f t ?m"
    using r t by (simp_all add: reverse_of_def below_Suc)
  have len: "length ?ks = occ ?f t ?m" by (simp add: inbound_positions_def occ_def)
  have lr: "length (weights r) = length (targets r)" if "weights r \<noteq> []"
    using r that by (simp add: reverse_of_def csr_wf_def)
  have la: "length (weights a) = ?m" if "weights a \<noteq> []"
    using wf that by (simp add: csr_wf_def)
  have "weighted_entry r (below ?f ?m t + i) =
      with_source (pos_source a (?ks ! i)) (weighted_entry a (?ks ! i))" if i: "i < occ ?f t ?m" for i
  proof -
    note P = place_row [OF i refl]
    have p: "place ?f ?m (?ks ! i) = below ?f ?m t + i" and k: "?ks ! i < ?m"
      using P(1,2) by (simp_all add: inbound_positions_def)
    have lt: "below ?f ?m t + i < ?m"
      using place_bounds(3) [OF k, of ?f] p by simp
    show ?thesis
      using r k p lr la lt
      by (cases "weights a = []")
        (auto simp: reverse_of_def Let_def weighted_entry_def with_source_def)
  qed
  then show ?thesis
    by (intro nth_equalityI) (simp_all add: inbound_eq_positions [OF wf] weighted_row_def st len)
qed

text \<open>
  C4: the reverse CSR is complete and exact. On every well-formed store the construction
  returns (no index panic, no width error), the result is a well-formed store over the same
  nodes and edge count, and the row of each node lists its inbound edges, sources ascending
  and in row order within a source, with type, direction flag, relationship id and weight.
\<close>

theorem reversed_rows_are_inbound:
  assumes "csr_wf a"
  shows "\<exists>r. try_reversed unlimited_alloc (Owned a) = Inr r \<and> csr_wf r \<and>
    node_count_of r = node_count_of a \<and> length (targets r) = length (targets a) \<and>
    (\<forall>t < node_count_of a. weighted_row r t = inbound a t)"
proof -
  obtain r where "try_reversed unlimited_alloc (Owned a) = Inr r" "reverse_of a r"
    using try_reversed_ok [OF assms] by blast
  with reverse_of_row [OF assms] show ?thesis by (auto simp: reverse_of_def)
qed

definition sample_csr :: edge_arrays where
  "sample_csr = \<lparr>edge_offsets = [0, 2, 3, 3], targets = [1, 2, 2], type_ids = SOne [5, 6, 7],
     schema_reversed = [0, 1, 0], weights = [10, 20, 30], relationship_ids = [1, 2, 3]\<rparr>"

lemma sample_csr_wf: "csr_wf sample_csr"
  by (simp add: sample_csr_def csr_wf_def node_count_of_def storage_ok_def)

theorem reversed_rows_are_inbound_witness:
  "csr_wf sample_csr \<and> (\<exists>r. try_reversed unlimited_alloc (Owned sample_csr) = Inr r \<and>
    weighted_row r 2 = [((0, 6, 1, 2), 20), ((1, 7, 0, 3), 30)])"
proof -
  have upts: "[0..<3::nat] = [0, 1, 2]" "[0..<2::nat] = [0, 1]" "[2..<3::nat] = [2]"
    by (simp_all add: upt_rec)
  have starts: "row_start sample_csr 0 = 0" "row_start sample_csr 1 = 2" "row_start sample_csr 2 = 3"
    "row_start sample_csr 3 = 3"
    by (simp_all add: row_start_def sample_csr_def)
  have sucs: "Suc 0 = 1" "Suc 1 = 2" "Suc 2 = 3" by simp_all
  have "weighted_row sample_csr 0 = [((1, 5, 0, 1), 10), ((2, 6, 1, 2), 20)]"
    "weighted_row sample_csr 1 = [((2, 7, 0, 3), 30)]" "weighted_row sample_csr 2 = []"
    unfolding weighted_row_def sucs starts upts
    by (simp_all add: weighted_entry_def entry_def sample_csr_def)
  moreover have "node_count_of sample_csr = 3" by (simp add: sample_csr_def node_count_of_def)
  ultimately have "inbound sample_csr 2 = [((0, 6, 1, 2), 20), ((1, 7, 0, 3), 30)]"
    by (simp add: inbound_def upts(1) with_source_def points_to_def)
  moreover have "2 < node_count_of sample_csr" by (simp add: sample_csr_def node_count_of_def)
  ultimately show ?thesis
    using sample_csr_wf reversed_rows_are_inbound [OF sample_csr_wf] by auto
qed

section \<open>Reversing twice\<close>

abbreviation row_target :: "adjacency \<times> u32 \<Rightarrow> nat" where
  "row_target x \<equiv> unat (fst (fst x))"

lemma mset_buckets:
  "\<forall>x \<in> set xs. f x < (n::nat) \<Longrightarrow> mset (concat (map (\<lambda>t. filter (\<lambda>x. f x = t) xs) [0..<n])) = mset xs"
proof (induction n arbitrary: xs)
  case 0
  then show ?case by simp
next
  case (Suc n)
  have "concat (map (\<lambda>t. filter (\<lambda>x. f x = t) xs) [0..<n]) =
      concat (map (\<lambda>t. filter (\<lambda>x. f x = t) (filter (\<lambda>x. f x \<noteq> n) xs)) [0..<n])"
    by (auto intro!: arg_cong [of _ _ concat] filter_cong)
  moreover have "\<forall>x \<in> set (filter (\<lambda>x. f x \<noteq> n) xs). f x < n" using Suc.prems by auto
  ultimately show ?case using Suc.IH [of "filter (\<lambda>x. f x \<noteq> n) xs"] by (simp add: multiset_partition)
qed

lemma sort_key_buckets:
  assumes "\<forall>x \<in> set xs. f x < (n::nat)"
  shows "sort_key f xs = concat (map (\<lambda>t. filter (\<lambda>x. f x = t) xs) [0..<n])"
proof (rule properties_for_sort_key)
  show "mset (concat (map (\<lambda>t. filter (\<lambda>x. f x = t) xs) [0..<n])) = mset xs"
    by (rule mset_buckets [OF assms])
next
  fix k assume "k \<in> set (concat (map (\<lambda>t. filter (\<lambda>x. f x = t) xs) [0..<n]))"
  then have k: "f k < n" by auto
  have "concat (map (\<lambda>t. filter (\<lambda>x. f k = f x) (filter (\<lambda>x. f x = t) xs)) [0..<n]) =
      filter (\<lambda>x. f k = f x) xs"
    using k
  proof (induction n)
    case (Suc n)
    have "filter (\<lambda>x. f k = f x) (filter (\<lambda>x. f x = t) xs) =
        (if t = f k then filter (\<lambda>x. f k = f x) xs else [])" for t
      by (auto simp: filter_empty_conv intro!: filter_cong)
    with Suc show ?case by (cases "f k = n") (simp_all add: concat_eq_Nil_conv)
  qed simp
  then show "filter (\<lambda>x. f k = f x) (concat (map (\<lambda>t. filter (\<lambda>x. f x = t) xs) [0..<n])) =
      filter (\<lambda>x. f k = f x) xs"
    by (simp add: filter_concat comp_def)
next
  show "sorted (map f (concat (map (\<lambda>t. filter (\<lambda>x. f x = t) xs) [0..<n])))"
  proof (induction n)
    case (Suc n)
    have "sorted (map f (filter (\<lambda>x. f x = n) xs))"
      by (rule sorted_wrt_mono_rel [of _ "(=)"]) (induction xs; simp)+
    with Suc show ?case by (auto simp: sorted_append)
  qed simp
qed

lemma concat_pick: "s < n \<Longrightarrow> concat (map (\<lambda>k. if k = s then g k else []) [0..<n]) = g s"
proof (induction n)
  case (Suc n)
  have "concat (map (\<lambda>k. if k = n then g k else []) [0..<n]) = []"
    by (simp add: concat_eq_Nil_conv)
  with Suc show ?case by (cases "s = n") simp_all
qed simp

lemma with_source_back:
  "points_to t x \<Longrightarrow> with_source t (with_source s x) = x"
  by (cases x) (auto simp: with_source_def points_to_def)

lemma points_to_with_source:
  "n < 4294967296 \<Longrightarrow> points_to s (with_source n x) \<longleftrightarrow> n = s"
  by (simp add: points_to_def with_source_def)

lemma inbound_filter:
  assumes "node_count_of a < 4294967296" and "s < node_count_of a"
  shows "map (with_source t) (filter (points_to s) (inbound a t)) =
    filter (points_to t) (weighted_row a s)"
proof -
  let ?g = "\<lambda>n. map (with_source n) (filter (points_to t) (weighted_row a n))"
  have one: "filter (points_to s) (?g n) = (if n = s then ?g n else [])" if "n < node_count_of a" for n
    using that assms(1) by (auto simp: filter_map comp_def points_to_with_source)
  have "filter (points_to s) (inbound a t) =
      concat (map (\<lambda>n. if n = s then ?g n else []) [0..<node_count_of a])"
    using one by (auto simp: inbound_def filter_concat comp_def intro!: arg_cong [of _ _ concat])
  also have "\<dots> = ?g s" by (rule concat_pick [OF assms(2)])
  finally show ?thesis by (auto simp: with_source_back intro: map_idI)
qed

lemma weighted_row_targets:
  assumes "csr_wf a" and "n < node_count_of a" and "x \<in> set (weighted_row a n)"
  shows "row_target x < node_count_of a"
proof -
  from assms(3) obtain k where "k < row_start a (Suc n)" "x = weighted_entry a k"
    by (auto simp: weighted_row_def)
  with assms(1,2) row_start_le [OF assms(1), of "Suc n"] show ?thesis
    by (auto simp: weighted_entry_def entry_def csr_wf_def)
qed

lemma reverse_twice_row:
  assumes wf: "csr_wf a" and r: "reverse_of a r" and r': "reverse_of r r'" and s: "s < node_count_of a"
  shows "weighted_row r' s = sort_key row_target (weighted_row a s)"
proof -
  have wr: "csr_wf r" and nr: "node_count_of r = node_count_of a" using r by (auto simp: reverse_of_def)
  have small: "node_count_of a < 4294967296" using wf by (simp add: csr_wf_def)
  have "weighted_row r' s = inbound r s"
    using reverse_of_row [OF wr r'] s nr by simp
  also have "\<dots> = concat (map (\<lambda>t. map (with_source t) (filter (points_to s) (inbound a t)))
      [0..<node_count_of a])"
    using reverse_of_row [OF wf r] by (auto simp: inbound_def [of r] nr intro!: arg_cong [of _ _ concat])
  also have "\<dots> = concat (map (\<lambda>t. filter (\<lambda>x. row_target x = t) (weighted_row a s))
      [0..<node_count_of a])"
    by (simp only: inbound_filter [OF small s]) (simp add: points_to_def [abs_def])
  also have "\<dots> = sort_key row_target (weighted_row a s)"
    using weighted_row_targets [OF wf s] by (intro sort_key_buckets [symmetric]) blast
  finally show ?thesis .
qed

text \<open>A well-formed store is determined by its weighted rows and its physical layout.\<close>

lemma csr_wf_length: "csr_wf a \<Longrightarrow> length (edge_offsets a) = Suc (node_count_of a)"
  by (cases "edge_offsets a") (simp_all add: csr_wf_def node_count_of_def)

lemma weighted_rows_concat:
  assumes wf: "csr_wf a"
  shows "map (weighted_entry a) [0..<length (targets a)] =
    concat (map (weighted_row a) [0..<node_count_of a])"
  using positions_by_row [OF wf order_refl]
  by (simp add: row_start_last [OF wf] map_concat comp_def weighted_row_def [abs_def])

lemma csr_ext_rows:
  assumes wa: "csr_wf a" and wb: "csr_wf b" and n: "node_count_of b = node_count_of a"
    and rows: "\<And>k. k < node_count_of a \<Longrightarrow> weighted_row b k = weighted_row a k"
    and width: "storage_width (type_ids b) = storage_width (type_ids a)"
    and w: "weights b = [] \<longleftrightarrow> weights a = []"
  shows "b = a"
proof -
  let ?m = "length (targets a)"
  have all: "map (weighted_entry b) [0..<length (targets b)] = map (weighted_entry a) [0..<?m]"
    unfolding weighted_rows_concat [OF wa] weighted_rows_concat [OF wb] n
    using rows by (auto intro!: arg_cong [of _ _ concat])
  then have m: "length (targets b) = ?m" by (metis length_map length_upt diff_zero)
  with all have ent: "weighted_entry b k = weighted_entry a k" if "k < ?m" for k
    using that by simp
  have start: "row_start b k = row_start a k" if "k \<le> node_count_of a" for k
    using that
  proof (induction k)
    case 0
    then show ?case by (simp add: row_start_0 wa wb)
  next
    case (Suc k)
    then have "length (weighted_row b k) = length (weighted_row a k)" using rows by simp
    with Suc row_start_mono [OF wa, of k "Suc k"] row_start_mono [OF wb, of k "Suc k"] n
    show ?case by (simp add: weighted_row_def)
  qed
  have lens: "length (edge_offsets a) = Suc (node_count_of a)" "length (edge_offsets b) = Suc (node_count_of a)"
    using wa wb n by (simp_all add: csr_wf_length)
  have "edge_offsets b = edge_offsets a"
    using start lens by (auto simp: row_start_def less_Suc_eq_le word_unat_eq_iff intro!: nth_equalityI)
  moreover have "targets b = targets a" "schema_reversed b = schema_reversed a"
    "relationship_ids b = relationship_ids a" "logical_ids (type_ids b) = logical_ids (type_ids a)"
  proof -
    have L: "length (schema_reversed a) = ?m" "length (schema_reversed b) = ?m"
      "length (relationship_ids a) = ?m" "length (relationship_ids b) = ?m"
      "length (logical_ids (type_ids a)) = ?m" "length (logical_ids (type_ids b)) = ?m"
      using wa wb m by (simp_all add: csr_wf_def)
    have E: "targets b ! k = targets a ! k \<and> schema_reversed b ! k = schema_reversed a ! k \<and>
        relationship_ids b ! k = relationship_ids a ! k \<and>
        logical_ids (type_ids b) ! k = logical_ids (type_ids a) ! k" if "k < ?m" for k
      using ent [OF that] by (simp add: weighted_entry_def entry_def)
    show "targets b = targets a" using E m by (simp add: list_eq_iff_nth_eq)
    show "schema_reversed b = schema_reversed a" "relationship_ids b = relationship_ids a"
      "logical_ids (type_ids b) = logical_ids (type_ids a)"
      using E L by (simp_all add: list_eq_iff_nth_eq)
  qed
  moreover have "weights b = weights a"
  proof (cases "weights a = []")
    case False
    then have "length (weights a) = ?m" "length (weights b) = ?m" using w m wa wb by (auto simp: csr_wf_def)
    with ent show ?thesis by (auto simp: weighted_entry_def intro!: nth_equalityI)
  qed (use w in simp)
  ultimately show ?thesis
    using storage_eqI [OF width] by (simp add: edge_arrays.equality)
qed

text \<open>
  reversing the reverse store gives back every node's outbound edges, stably sorted by
  target; so a store whose rows are already sorted by target (as the builders that sort by
  source and target leave them) is reproduced exactly, array for array.
\<close>

theorem reversed_twice:
  assumes "csr_wf a"
  shows "\<exists>r r'. try_reversed unlimited_alloc (Owned a) = Inr r \<and>
    try_reversed unlimited_alloc (Owned r) = Inr r' \<and>
    (\<forall>s < node_count_of a. weighted_row r' s = sort_key row_target (weighted_row a s)) \<and>
    ((\<forall>s < node_count_of a. sorted (map row_target (weighted_row a s))) \<longrightarrow> r' = a)"
proof -
  obtain r where r: "try_reversed unlimited_alloc (Owned a) = Inr r" "reverse_of a r"
    using try_reversed_ok [OF assms] by blast
  have wr: "csr_wf r" using r(2) by (simp add: reverse_of_def)
  obtain r' where r': "try_reversed unlimited_alloc (Owned r) = Inr r'" "reverse_of r r'"
    using try_reversed_ok [OF wr] by blast
  note rows = reverse_twice_row [OF assms r(2) r'(2)]
  have "r' = a" if srt: "\<forall>s < node_count_of a. sorted (map row_target (weighted_row a s))"
  proof (rule csr_ext_rows [OF assms])
    show "weighted_row r' k = weighted_row a k" if "k < node_count_of a" for k
      using rows [OF that] srt that by (simp add: sorted_sort_id sort_key_id_if_sorted)
  qed (use r(2) r'(2) in \<open>simp_all add: reverse_of_def\<close>)
  with r(1) r'(1) rows show ?thesis by blast
qed

theorem reversed_twice_witness:
  "\<exists>r. try_reversed unlimited_alloc (Owned sample_csr) = Inr r \<and>
    (\<exists>r'. try_reversed unlimited_alloc (Owned r) = Inr r' \<and>
      weighted_row r' 0 = sort_key row_target (weighted_row sample_csr 0))"
proof -
  have "0 < node_count_of sample_csr" by (simp add: sample_csr_def node_count_of_def)
  with reversed_twice [OF sample_csr_wf] show ?thesis by blast
qed

end
