(* ===== verification/Neighbors.thy ===== *)
theory Neighbors
  imports EdgeAccess
begin

text \<open>
  The neighbor streams of \<open>projection/neighbors.rs\<close>: items, the CSR and overlay
  iterators and their collected order. The paged form of the same streams is in theory
  \<open>NeighborPaging\<close>.

  A node's adjacency is the four parallel slices the store returns (\<open>adjacency_view\<close>).
  Overlay maps are partial functions from source nodes; a set of tombstones is a HOL set.
  The specification is \<open>overlay_spec\<close>: the base rows that no tombstone covers, then the
  inserts that repeat neither a base row nor an earlier insert.
\<close>

section \<open>Items and views\<close>

record neighbor =
  nb_target :: u32
  nb_type_id :: edge_type_id
  nb_schema_reversed :: bool
  nb_relationship_id :: "relationship_id option"

record weighted_neighbor =
  wn_target :: u32
  wn_type_id :: edge_type_id
  wn_weight :: u32
  wn_schema_reversed :: bool
  wn_relationship_id :: "relationship_id option"

type_synonym overlay_insert = "u32 \<times> edge_type_id \<times> bool \<times> relationship_id option"
type_synonym overlay_delete = "u32 \<times> edge_type_id \<times> bool \<times> relationship_id option"
type_synonym overlay_inserts = "u32 \<Rightarrow> overlay_insert list option"
type_synonym overlay_deletes = "u32 \<Rightarrow> overlay_delete set option"

type_synonym adjacency_view =
  "u32 list \<times> edge_type_storage \<times> u8 list \<times> relationship_id list"

definition known_relationship :: "relationship_id list \<Rightarrow> usize \<Rightarrow> relationship_id option" where
  "known_relationship rels pos = opt_filter (\<lambda>i. i \<noteq> NO_RELATIONSHIP_ID) (get_opt rels pos)"

definition neighbor_at :: "adjacency_view \<Rightarrow> usize \<Rightarrow> neighbor graph_result" where
  "neighbor_at v pos =
     (case v of (ts, tys, flags, rels) \<Rightarrow>
        rbind (index_r ts pos) (\<lambda>t.
        rbind (types_at tys pos) (\<lambda>ty.
        rbind (index_r flags pos) (\<lambda>f.
        Inr \<lparr>nb_target = t, nb_type_id = ty, nb_schema_reversed = (f \<noteq> 0),
          nb_relationship_id = known_relationship rels pos\<rparr>))))"

definition view_targets :: "adjacency_view \<Rightarrow> u32 list" where
  "view_targets v = fst v"

definition view_rels :: "adjacency_view \<Rightarrow> relationship_id list" where
  "view_rels v = snd (snd (snd v))"

section \<open>The CSR iterator\<close>

record csr_iter =
  it_view :: adjacency_view
  it_pos :: usize
  it_reversed :: bool

definition csr_iter_forward :: "adjacency_view \<Rightarrow> csr_iter" where
  "csr_iter_forward v = \<lparr>it_view = v, it_pos = 0, it_reversed = False\<rparr>"

definition csr_iter_reversed :: "adjacency_view \<Rightarrow> csr_iter" where
  "csr_iter_reversed v = \<lparr>it_view = v, it_pos = length (view_targets v), it_reversed = True\<rparr>"

definition csr_next :: "csr_iter \<Rightarrow> (neighbor option \<times> csr_iter) graph_result" where
  "csr_next it =
     (if it_reversed it then
        (if it_pos it = 0 then Inr (None, it)
         else rbind (neighbor_at (it_view it) (it_pos it - 1)) (\<lambda>n.
           Inr (Some n, it\<lparr>it_pos := it_pos it - 1\<rparr>)))
      else if it_pos it \<ge> length (view_targets (it_view it)) then Inr (None, it)
      else rbind (neighbor_at (it_view it) (it_pos it)) (\<lambda>n.
        Inr (Some n, it\<lparr>it_pos := it_pos it + 1\<rparr>)))"

definition csr_remaining :: "csr_iter \<Rightarrow> nat" where
  "csr_remaining it =
     (if it_reversed it then it_pos it else length (view_targets (it_view it)) - it_pos it)"

lemma csr_next_remaining:
  "csr_next it = Inr (Some n, it') \<Longrightarrow> csr_remaining it' < csr_remaining it"
  by (auto simp: csr_next_def csr_remaining_def result_simps split: if_splits)

section \<open>The overlay iterator\<close>

datatype overlay_phase = Base | Inserts

record overlay_iter =
  ov_base :: csr_iter
  ov_deleted :: "overlay_delete set option"
  ov_inserted :: "overlay_insert list option"
  ov_insert_pos :: usize
  ov_phase :: overlay_phase
  ov_reversed :: bool

definition overlay_iter_forward ::
  "adjacency_view \<Rightarrow> overlay_insert list option \<Rightarrow> overlay_delete set option \<Rightarrow> overlay_iter" where
  "overlay_iter_forward v inserted deleted =
     \<lparr>ov_base = csr_iter_forward v, ov_deleted = deleted, ov_inserted = inserted,
      ov_insert_pos = 0, ov_phase = Base, ov_reversed = False\<rparr>"

definition overlay_iter_reversed ::
  "adjacency_view \<Rightarrow> overlay_insert list option \<Rightarrow> overlay_delete set option \<Rightarrow> overlay_iter" where
  "overlay_iter_reversed v inserted deleted =
     \<lparr>ov_base = csr_iter_reversed v, ov_deleted = deleted, ov_inserted = inserted,
      ov_insert_pos = (case inserted of None \<Rightarrow> 0 | Some xs \<Rightarrow> length xs),
      ov_phase = Inserts, ov_reversed = True\<rparr>"

text \<open>The tombstone test: a topology-wide tombstone or one naming the row's relationship.\<close>

definition is_deleted :: "overlay_delete set option \<Rightarrow> neighbor \<Rightarrow> bool" where
  "is_deleted deleted n =
     (case deleted of
        None \<Rightarrow> False
      | Some ds \<Rightarrow>
          (nb_target n, nb_type_id n, nb_schema_reversed n, None) \<in> ds \<or>
          (nb_target n, nb_type_id n, nb_schema_reversed n, nb_relationship_id n) \<in> ds)"

definition base_contains :: "adjacency_view \<Rightarrow> overlay_insert \<Rightarrow> bool" where
  "base_contains v ins =
     (case v of (ts, tys, flags, rels) \<Rightarrow> case ins of (tgt, tid, reversed, rel) \<Rightarrow>
        list_ex (\<lambda>(idx, (t, ty), f).
            t = tgt \<and> ty = tid \<and> (f \<noteq> 0) = reversed \<and> known_relationship rels idx = rel)
          (enumerate 0 (zip (zip ts (types_iter tys)) flags)))"

definition inserted_duplicate :: "overlay_insert list \<Rightarrow> usize \<Rightarrow> overlay_insert \<Rightarrow> bool" where
  "inserted_duplicate inserted pos ins = list_ex (\<lambda>x. x = ins) (take pos inserted)"

definition insert_neighbor :: "overlay_insert \<Rightarrow> neighbor" where
  "insert_neighbor ins =
     (case ins of (tgt, tid, reversed, rel) \<Rightarrow>
        \<lparr>nb_target = tgt, nb_type_id = tid, nb_schema_reversed = reversed,
         nb_relationship_id = rel\<rparr>)"

function (sequential) next_base_from ::
  "overlay_delete set option \<Rightarrow> csr_iter \<Rightarrow> (neighbor option \<times> csr_iter) graph_result" where
  "next_base_from deleted it =
     rbind (csr_next it) (\<lambda>r.
       case r of
         (None, it') \<Rightarrow> Inr (None, it')
       | (Some n, it') \<Rightarrow>
           if is_deleted deleted n then next_base_from deleted it' else Inr (Some n, it'))"
  by pat_completeness auto
termination
  by (relation "measure (\<lambda>(_, it). csr_remaining it)") (auto dest: csr_next_remaining)

declare next_base_from.simps [simp del]

definition next_base :: "overlay_iter \<Rightarrow> (neighbor option \<times> overlay_iter) graph_result" where
  "next_base it =
     rbind (next_base_from (ov_deleted it) (ov_base it)) (\<lambda>(n, b). Inr (n, it\<lparr>ov_base := b\<rparr>))"

text \<open>
  The \<open>loop\<close> of \<open>next_insert\<close>: the position moves by one per iteration, down to zero in
  reverse and up to the length forward.
\<close>

function next_insert_from ::
  "bool \<Rightarrow> adjacency_view \<Rightarrow> overlay_insert list \<Rightarrow> usize \<Rightarrow> (neighbor option \<times> usize) graph_result" where
  "next_insert_from rev_dir v inserted insert_pos =
     (if (if rev_dir then insert_pos = 0 else insert_pos \<ge> length inserted)
      then Inr (None, insert_pos)
      else
        let pos = (if rev_dir then insert_pos - 1 else insert_pos);
            next = (if rev_dir then insert_pos - 1 else insert_pos + 1) in
        rbind (index_r inserted pos) (\<lambda>ins.
          if base_contains v ins \<or> inserted_duplicate inserted pos ins
          then next_insert_from rev_dir v inserted next
          else Inr (Some (insert_neighbor ins), next)))"
  by pat_completeness auto
termination
  by (relation "measure (\<lambda>(d, _, inserted, p). if d then p else length inserted - p)")
    (auto split: if_splits)

declare next_insert_from.simps [simp del]

definition next_insert :: "overlay_iter \<Rightarrow> (neighbor option \<times> overlay_iter) graph_result" where
  "next_insert it =
     (case ov_inserted it of
        None \<Rightarrow> Inr (None, it)
      | Some inserted \<Rightarrow>
          rbind (next_insert_from (ov_reversed it) (it_view (ov_base it)) inserted (ov_insert_pos it))
            (\<lambda>(n, p). Inr (n, it\<lparr>ov_insert_pos := p\<rparr>)))"

definition overlay_next :: "overlay_iter \<Rightarrow> (neighbor option \<times> overlay_iter) graph_result" where
  "overlay_next it =
     (case ov_phase it of
        Base \<Rightarrow> rbind (next_base it) (\<lambda>(n, it').
          if n \<noteq> None then Inr (n, it') else next_insert (it'\<lparr>ov_phase := Inserts\<rparr>))
      | Inserts \<Rightarrow> rbind (next_insert it) (\<lambda>(n, it').
          if n \<noteq> None then Inr (n, it') else next_base (it'\<lparr>ov_phase := Base\<rparr>)))"

section \<open>The common iterator and the sources\<close>

datatype neighbor_iter = Csr csr_iter | Overlay overlay_iter | OwnedItems "neighbor list"

fun iter_next :: "neighbor_iter \<Rightarrow> (neighbor option \<times> neighbor_iter) graph_result" where
  "iter_next (Csr it) = rbind (csr_next it) (\<lambda>(n, it'). Inr (n, Csr it'))"
| "iter_next (Overlay it) = rbind (overlay_next it) (\<lambda>(n, it'). Inr (n, Overlay it'))"
| "iter_next (OwnedItems []) = Inr (None, OwnedItems [])"
| "iter_next (OwnedItems (x # xs)) = Inr (Some x, OwnedItems xs)"

text \<open>What a \<open>for\<close> loop over an iterator sees; \<open>yields it ns\<close> also says that it ends.\<close>

inductive yields :: "neighbor_iter \<Rightarrow> neighbor list \<Rightarrow> bool" where
  finished: "iter_next it = Inr (None, it') \<Longrightarrow> yields it []"
| item: "iter_next it = Inr (Some n, it') \<Longrightarrow> yields it' ns \<Longrightarrow> yields it (n # ns)"

definition csr_neighbors :: "edge_store \<Rightarrow> u32 \<Rightarrow> neighbor_iter graph_result" where
  "csr_neighbors st node_idx =
     rbind (neighbors_with_schema_and_relationship_ids st node_idx) (\<lambda>v.
       Inr (Csr (csr_iter_forward v)))"

definition csr_neighbors_reversed :: "edge_store \<Rightarrow> u32 \<Rightarrow> neighbor_iter graph_result" where
  "csr_neighbors_reversed st node_idx =
     rbind (neighbors_with_schema_and_relationship_ids st node_idx) (\<lambda>v.
       Inr (Csr (csr_iter_reversed v)))"

definition overlay_neighbors ::
  "edge_store \<Rightarrow> overlay_inserts \<Rightarrow> overlay_deletes \<Rightarrow> u32 \<Rightarrow> neighbor_iter graph_result" where
  "overlay_neighbors st inserts deletes node_idx =
     rbind (neighbors_with_schema_and_relationship_ids st node_idx) (\<lambda>v.
       Inr (Overlay (overlay_iter_forward v (inserts node_idx) (deletes node_idx))))"

definition overlay_neighbors_reversed ::
  "edge_store \<Rightarrow> overlay_inserts \<Rightarrow> overlay_deletes \<Rightarrow> u32 \<Rightarrow> neighbor_iter graph_result" where
  "overlay_neighbors_reversed st inserts deletes node_idx =
     rbind (neighbors_with_schema_and_relationship_ids st node_idx) (\<lambda>v.
       Inr (Overlay (overlay_iter_reversed v (inserts node_idx) (deletes node_idx))))"

text \<open>\<open>WeightedNeighborSource\<close> on an edge store.\<close>

definition weighted_neighbors :: "edge_store \<Rightarrow> u32 \<Rightarrow> weighted_neighbor list graph_result" where
  "weighted_neighbors st node_idx =
     rbind (neighbors_weighted_with_schema st node_idx) (\<lambda>(ts, tys, flags, ws).
     rbind (neighbors_with_schema_and_relationship_ids st node_idx) (\<lambda>(_, _, _, rels).
       Inr (map (\<lambda>(idx, ((t, ty), f), w).
           \<lparr>wn_target = t, wn_type_id = ty, wn_weight = w, wn_schema_reversed = (f \<noteq> 0),
            wn_relationship_id = known_relationship rels idx\<rparr>)
         (enumerate 0 (zip (zip (zip ts (types_iter tys)) flags) ws)))))"

inductive_cases yields_NilE: "yields it []"
inductive_cases yields_ConsE: "yields it (n # ns)"

section \<open>Specification\<close>

definition adjacency_neighbor :: "adjacency \<Rightarrow> neighbor" where
  "adjacency_neighbor x =
     (case x of (t, ty, f, r) \<Rightarrow>
        \<lparr>nb_target = t, nb_type_id = ty, nb_schema_reversed = (f \<noteq> 0),
         nb_relationship_id = (if r = NO_RELATIONSHIP_ID then None else Some r)\<rparr>)"

definition view_of :: "adjacency_view \<Rightarrow> adjacency list \<Rightarrow> bool" where
  "view_of v xs \<longleftrightarrow>
     (case v of (ts, tys, flags, rels) \<Rightarrow>
        ts = map fst xs \<and> logical_ids tys = map (\<lambda>x. fst (snd x)) xs \<and> storage_ok tys \<and>
        flags = map (\<lambda>x. fst (snd (snd x))) xs \<and> rels = map (\<lambda>x. snd (snd (snd x))) xs)"

definition node_rows :: "edge_arrays \<Rightarrow> u32 \<Rightarrow> adjacency list" where
  "node_rows a i = (if unat i < node_count_of a then row a (unat i) else [])"

definition fresh_inserts :: "neighbor list \<Rightarrow> overlay_insert list \<Rightarrow> overlay_insert list" where
  "fresh_inserts base ins =
     map ((!) ins) (filter (\<lambda>p. insert_neighbor (ins ! p) \<notin> set base \<and> ins ! p \<notin> set (take p ins))
       [0..<length ins])"

definition overlay_spec ::
  "neighbor list \<Rightarrow> overlay_insert list option \<Rightarrow> overlay_delete set option \<Rightarrow> neighbor list" where
  "overlay_spec base ins del =
     filter (\<lambda>n. \<not> is_deleted del n) base @
     map insert_neighbor (fresh_inserts base (opt_get_or [] ins))"

section \<open>Iterators against the specification\<close>

definition first_opt :: "'a list \<Rightarrow> 'a option" where
  "first_opt xs = (case xs of [] \<Rightarrow> None | x # _ \<Rightarrow> Some x)"

lemma first_opt_simps [simp]:
  "first_opt [] = None" "first_opt (x # xs) = Some x"
  "first_opt xs = None \<longleftrightarrow> xs = []"
  "xs \<noteq> [] \<Longrightarrow> first_opt xs = Some (hd xs)"
  "first_opt (xs @ ys) = (if xs = [] then first_opt ys else Some (hd xs))"
  by (cases xs; simp add: first_opt_def)+

lemma yields_unique: "yields it ns \<Longrightarrow> yields it ms \<Longrightarrow> ms = ns"
proof (induction arbitrary: ms rule: yields.induct)
  case (finished it it')
  from finished.prems show ?case by (cases rule: yields.cases) (use finished.hyps in simp_all)
next
  case (item it n it' ns)
  from item.prems show ?case
  proof (cases rule: yields.cases)
    case finished
    with item.hyps(1) show ?thesis by simp
  next
    case (item n' it'' ns')
    with \<open>iter_next it = Inr (Some n, it')\<close> item.IH [of ns'] show ?thesis by simp
  qed
qed

lemma known_relationship_map:
  "pos < length xs \<Longrightarrow> known_relationship (map g xs) pos =
    (if g (xs ! pos) = NO_RELATIONSHIP_ID then None else Some (g (xs ! pos)))"
  by (simp add: known_relationship_def)

lemma neighbor_at_view:
  "view_of v xs \<Longrightarrow> pos < length xs \<Longrightarrow> neighbor_at v pos = Inr (adjacency_neighbor (xs ! pos))"
  by (auto simp: view_of_def neighbor_at_def types_at_eq adjacency_neighbor_def
      known_relationship_map split: prod.splits)

lemma view_targets_length: "view_of v xs \<Longrightarrow> length (view_targets v) = length xs"
  by (auto simp: view_of_def view_targets_def)

text \<open>The rows a CSR iterator has left, as items.\<close>

definition csr_items :: "neighbor list \<Rightarrow> csr_iter \<Rightarrow> neighbor list" where
  "csr_items base it =
     (if it_reversed it then rev (take (it_pos it) base) else drop (it_pos it) base)"

definition csr_iter_ok :: "adjacency list \<Rightarrow> csr_iter \<Rightarrow> bool" where
  "csr_iter_ok xs it \<longleftrightarrow> view_of (it_view it) xs \<and> it_pos it \<le> length xs"

lemma csr_next_items:
  assumes ok: "csr_iter_ok xs it" and base: "base = map adjacency_neighbor xs"
  shows "\<exists>it'. csr_next it = Inr (first_opt (csr_items base it), it') \<and>
    csr_items base it' = tl (csr_items base it) \<and> csr_iter_ok xs it' \<and> it_view it' = it_view it"
proof (cases "it_reversed it")
  have len: "length (view_targets (it_view it)) = length xs"
    using ok by (simp add: csr_iter_ok_def view_targets_length)
  case True
  show ?thesis
  proof (cases "it_pos it")
    case 0
    with True ok show ?thesis by (simp add: csr_next_def csr_items_def)
  next
    case (Suc p)
    then have "p < length xs" using ok by (simp add: csr_iter_ok_def)
    with Suc True ok base show ?thesis
      by (simp add: csr_next_def csr_items_def csr_iter_ok_def neighbor_at_view take_Suc_conv_app_nth)
  qed
next
  have len: "length (view_targets (it_view it)) = length xs"
    using ok by (simp add: csr_iter_ok_def view_targets_length)
  case False
  show ?thesis
  proof (cases "it_pos it < length xs")
    case True
    with False ok base len show ?thesis
      by (simp add: csr_next_def csr_items_def csr_iter_ok_def neighbor_at_view
          hd_drop_conv_nth drop_Suc tl_drop)
  next
    case False': False
    with False ok base len show ?thesis
      by (simp add: csr_next_def csr_items_def csr_iter_ok_def)
  qed
qed

lemma csr_yields:
  assumes "csr_iter_ok xs it"
  shows "yields (Csr it) (csr_items (map adjacency_neighbor xs) it)"
  using assms
proof (induction "csr_items (map adjacency_neighbor xs) it" arbitrary: it)
  case Nil
  from csr_next_items [OF Nil.prems refl] Nil.hyps obtain it' where "csr_next it = Inr (None, it')"
    by auto
  then have "yields (Csr it) []" by (intro yields.finished [of _ "Csr it'"]) simp
  then show ?case using Nil.hyps by simp
next
  case (Cons n ns)
  from Cons.hyps(2) have items_it: "csr_items (map adjacency_neighbor xs) it = n # ns" by simp
  from csr_next_items [OF Cons.prems refl] obtain it' where
    it': "csr_next it = Inr (Some n, it')" "csr_items (map adjacency_neighbor xs) it' = ns"
      "csr_iter_ok xs it'"
    unfolding items_it by auto
  have "yields (Csr it) (n # ns)"
    using it' Cons.hyps(1) [OF it'(2) [symmetric] it'(3)] by (auto intro: yields.item)
  then show ?case using Cons.hyps(2) by simp
qed

text \<open>The overlay iterator: filtered base items, then fresh inserts, or the reverse.\<close>

lemma next_base_from_items:
  assumes "csr_iter_ok xs it" and base: "base = map adjacency_neighbor xs"
    and items: "items = (\<lambda>it. filter (\<lambda>n. \<not> is_deleted del n) (csr_items base it))"
  shows "\<exists>it'. next_base_from del it = Inr (first_opt (items it), it') \<and>
    items it' = tl (items it) \<and> csr_iter_ok xs it' \<and> it_view it' = it_view it"
  using assms(1)
proof (induction "csr_items base it" arbitrary: it)
  case Nil
  from csr_next_items [OF Nil.prems base] obtain it' where
    "csr_next it = Inr (None, it')" "csr_items base it' = []" "csr_iter_ok xs it'" "it_view it' = it_view it"
    unfolding Nil.hyps [symmetric] by auto
  with Nil.hyps show ?case by (subst next_base_from.simps) (simp add: items)
next
  case (Cons n ns)
  from Cons.hyps(2) have items_it: "csr_items base it = n # ns" by simp
  from csr_next_items [OF Cons.prems base] obtain it' where
    it': "csr_next it = Inr (Some n, it')" "csr_items base it' = ns" "csr_iter_ok xs it'"
      "it_view it' = it_view it"
    unfolding items_it by auto
  show ?case
  proof (cases "is_deleted del n")
    case True
    then have same: "items it = items it'" using it'(2) by (simp add: items flip: Cons.hyps(2))
    have "next_base_from del it = next_base_from del it'"
      using True it' by (subst next_base_from.simps) simp
    with Cons.hyps(1) [OF it'(2) [symmetric] it'(3)] it'(4) show ?thesis
      unfolding same by simp
  next
    case False
    then have "items it = n # items it'" using it'(2) by (simp add: items flip: Cons.hyps(2))
    with False it' show ?thesis by (subst next_base_from.simps) simp
  qed
qed

lemma list_ex_enumerate: "list_ex P (enumerate 0 ys) \<longleftrightarrow> (\<exists>i < length ys. P (i, ys ! i))"
  by (auto simp: list_ex_iff in_set_enumerate_eq)

lemma base_contains_view:
  assumes "view_of v xs" and base: "base = map adjacency_neighbor xs"
  shows "base_contains v ins \<longleftrightarrow> insert_neighbor ins \<in> set base"
proof -
  obtain ts tys flags rels where v: "v = (ts, tys, flags, rels)" by (cases v)
  obtain t ty d r where ins: "ins = (t, ty, d, r)" by (cases ins)
  have it: "types_iter tys = map (\<lambda>x. fst (snd x)) xs" "ts = map fst xs"
    "flags = map (\<lambda>x. fst (snd (snd x))) xs" "rels = map (\<lambda>x. snd (snd (snd x))) xs"
    using assms(1) by (auto simp: v view_of_def types_iter_ok)
  have "base_contains v ins \<longleftrightarrow>
      (\<exists>i < length xs. fst (xs ! i) = t \<and> fst (snd (xs ! i)) = ty \<and> (fst (snd (snd (xs ! i))) \<noteq> 0) = d \<and>
        known_relationship rels i = r)"
    by (auto simp: base_contains_def v ins it(1,2,3) list_ex_enumerate)
  also have "\<dots> \<longleftrightarrow> (\<exists>i < length xs. adjacency_neighbor (xs ! i) = insert_neighbor ins)"
  proof -
    have "(fst (xs ! i) = t \<and> fst (snd (xs ! i)) = ty \<and> (fst (snd (snd (xs ! i))) \<noteq> 0) = d \<and>
        known_relationship rels i = r) \<longleftrightarrow> adjacency_neighbor (xs ! i) = insert_neighbor ins"
      if "i < length xs" for i
      using that by (cases "xs ! i") (simp add: adjacency_neighbor_def insert_neighbor_def ins it(4)
          known_relationship_map)
    then show ?thesis by blast
  qed
  also have "\<dots> \<longleftrightarrow> insert_neighbor ins \<in> set base"
    by (fastforce simp: base in_set_conv_nth simp del: set_map)
  finally show ?thesis .
qed

definition fresh_at :: "neighbor list \<Rightarrow> overlay_insert list \<Rightarrow> nat \<Rightarrow> bool" where
  "fresh_at base ins p \<longleftrightarrow> insert_neighbor (ins ! p) \<notin> set base \<and> ins ! p \<notin> set (take p ins)"

definition pending :: "neighbor list \<Rightarrow> overlay_insert list \<Rightarrow> bool \<Rightarrow> nat \<Rightarrow> neighbor list" where
  "pending base ins d p =
     map (\<lambda>q. insert_neighbor (ins ! q))
       (if d then rev (filter (fresh_at base ins) [0..<p]) else filter (fresh_at base ins) [p..<length ins])"

lemma pending_step:
  "p < length ins \<Longrightarrow> pending base ins False p =
    (if fresh_at base ins p then [insert_neighbor (ins ! p)] else []) @ pending base ins False (Suc p)"
  "pending base ins True (Suc p) =
    (if fresh_at base ins p then [insert_neighbor (ins ! p)] else []) @ pending base ins True p"
  "pending base ins False (length ins) = []"
  "pending base ins True 0 = []"
  by (simp_all add: pending_def upt_conv_Cons)

lemma pending_all:
  "pending base ins False 0 = map insert_neighbor (fresh_inserts base ins)"
  "pending base ins True (length ins) = rev (map insert_neighbor (fresh_inserts base ins))"
  by (simp_all add: pending_def fresh_inserts_def fresh_at_def [abs_def] rev_map)

lemma inserted_duplicate_iff: "inserted_duplicate ins p x \<longleftrightarrow> x \<in> set (take p ins)"
  by (auto simp: inserted_duplicate_def list_ex_iff)

definition inserts_left ::
  "neighbor list \<Rightarrow> overlay_insert list \<Rightarrow> bool \<Rightarrow> (neighbor option \<times> usize) graph_result \<Rightarrow> neighbor list \<Rightarrow> bool" where
  "inserts_left base ins d r ns \<longleftrightarrow>
     (\<exists>p'. r = Inr (first_opt ns, p') \<and>
       pending base ins d p' = tl ns \<and> p' \<le> length ins)"

lemma next_insert_from_forward:
  assumes view: "view_of v xs" and base: "base = map adjacency_neighbor xs" and p: "p \<le> length ins"
  shows "inserts_left base ins False (next_insert_from False v ins p) (pending base ins False p)"
  using p
proof (induction "length ins - p" arbitrary: p)
  case 0
  then have "p = length ins" by simp
  then show ?case by (subst next_insert_from.simps) (simp add: inserts_left_def pending_step)
next
  case (Suc n)
  then have lt: "p < length ins" and IH: "inserts_left base ins False
      (next_insert_from False v ins (Suc p)) (pending base ins False (Suc p))" by simp_all
  show ?case
    using lt IH pending_step(1) [OF lt, of base]
    by (subst next_insert_from.simps)
      (auto simp: base_contains_view [OF view base] inserted_duplicate_iff fresh_at_def inserts_left_def)
qed

lemma next_insert_from_reverse:
  assumes view: "view_of v xs" and base: "base = map adjacency_neighbor xs" and p: "p \<le> length ins"
  shows "inserts_left base ins True (next_insert_from True v ins p) (pending base ins True p)"
  using p
proof (induction p)
  case 0
  then show ?case by (subst next_insert_from.simps) (simp add: inserts_left_def pending_step)
next
  case (Suc p)
  then have lt: "p < length ins" and IH: "inserts_left base ins True
      (next_insert_from True v ins p) (pending base ins True p)" by simp_all
  show ?case
    using lt IH pending_step(2) [of base ins p]
    by (subst next_insert_from.simps)
      (auto simp: base_contains_view [OF view base] inserted_duplicate_iff fresh_at_def inserts_left_def)
qed

lemma next_insert_from_pending:
  assumes "view_of v xs" and "base = map adjacency_neighbor xs" and "p \<le> length ins"
  shows "inserts_left base ins d (next_insert_from d v ins p) (pending base ins d p)"
  using next_insert_from_forward [OF assms] next_insert_from_reverse [OF assms] by (cases d) auto

text \<open>All that an overlay iterator has left, in the order of its phases.\<close>

definition base_left :: "neighbor list \<Rightarrow> overlay_iter \<Rightarrow> neighbor list" where
  "base_left base it = filter (\<lambda>n. \<not> is_deleted (ov_deleted it) n) (csr_items base (ov_base it))"

definition overlay_items :: "neighbor list \<Rightarrow> overlay_iter \<Rightarrow> neighbor list" where
  "overlay_items base it =
     (let pend = pending base (opt_get_or [] (ov_inserted it)) (ov_reversed it) (ov_insert_pos it) in
      case ov_phase it of Base \<Rightarrow> base_left base it @ pend | Inserts \<Rightarrow> pend @ base_left base it)"

definition overlay_iter_ok :: "adjacency list \<Rightarrow> overlay_iter \<Rightarrow> bool" where
  "overlay_iter_ok xs it \<longleftrightarrow>
     csr_iter_ok xs (ov_base it) \<and> ov_insert_pos it \<le> length (opt_get_or [] (ov_inserted it))"

lemma next_base_left:
  assumes ok: "overlay_iter_ok xs it" and base: "base = map adjacency_neighbor xs"
  shows "\<exists>b'. next_base it = Inr (first_opt (base_left base it),
      it\<lparr>ov_base := b'\<rparr>) \<and>
    base_left base (it\<lparr>ov_base := b'\<rparr>) = tl (base_left base it) \<and> csr_iter_ok xs b'"
proof -
  have "csr_iter_ok xs (ov_base it)" using ok by (simp add: overlay_iter_ok_def)
  from next_base_from_items [OF this base refl, of "ov_deleted it"] obtain b' where
    "next_base_from (ov_deleted it) (ov_base it) = Inr (first_opt (base_left base it), b')"
    "base_left base (it\<lparr>ov_base := b'\<rparr>) = tl (base_left base it)" "csr_iter_ok xs b'"
    by (auto simp: base_left_def)
  then show ?thesis by (intro exI [of _ b']) (simp add: next_base_def)
qed

lemma next_insert_left:
  assumes ok: "overlay_iter_ok xs it" and base: "base = map adjacency_neighbor xs"
    and pend: "pend = (\<lambda>p. pending base (opt_get_or [] (ov_inserted it)) (ov_reversed it) p)"
  shows "\<exists>p'. next_insert it = Inr (first_opt (pend (ov_insert_pos it)), it\<lparr>ov_insert_pos := p'\<rparr>) \<and>
    pend p' = tl (pend (ov_insert_pos it)) \<and> p' \<le> length (opt_get_or [] (ov_inserted it))"
proof (cases "ov_inserted it")
  case None
  then have "ov_insert_pos it = 0" using ok by (simp add: overlay_iter_ok_def)
  moreover have "pend 0 = []" using None by (simp add: pend pending_def)
  ultimately show ?thesis
    using None by (intro exI [of _ "ov_insert_pos it"]) (simp add: next_insert_def)
next
  case (Some ins)
  have "view_of (it_view (ov_base it)) xs" "ov_insert_pos it \<le> length ins"
    using ok Some by (simp_all add: overlay_iter_ok_def csr_iter_ok_def)
  from next_insert_from_pending [OF this(1) base this(2), of "ov_reversed it"] Some obtain p' where
    "next_insert_from (ov_reversed it) (it_view (ov_base it)) ins (ov_insert_pos it) =
      Inr (first_opt (pend (ov_insert_pos it)), p')"
    "pend p' = tl (pend (ov_insert_pos it))" "p' \<le> length ins"
    by (auto simp: inserts_left_def pend)
  with Some show ?thesis by (intro exI [of _ p']) (simp add: next_insert_def)
qed

lemma overlay_next_items:
  assumes ok: "overlay_iter_ok xs it" and base: "base = map adjacency_neighbor xs"
  shows "\<exists>it'. overlay_next it = Inr (first_opt (overlay_items base it), it') \<and>
    overlay_items base it' = tl (overlay_items base it) \<and> overlay_iter_ok xs it'"
proof -
  obtain b' where b': "next_base it = Inr (first_opt (base_left base it),
      it\<lparr>ov_base := b'\<rparr>)" "base_left base (it\<lparr>ov_base := b'\<rparr>) = tl (base_left base it)" "csr_iter_ok xs b'"
    using next_base_left [OF ok base] by blast
  let ?pend = "\<lambda>p. pending base (opt_get_or [] (ov_inserted it)) (ov_reversed it) p"
  obtain p' where p': "next_insert it = Inr (first_opt (?pend (ov_insert_pos it)), it\<lparr>ov_insert_pos := p'\<rparr>)"
      "?pend p' = tl (?pend (ov_insert_pos it))" "p' \<le> length (opt_get_or [] (ov_inserted it))"
    using next_insert_left [OF ok base refl] by blast
  show ?thesis
  proof (cases "ov_phase it")
    case Base
    show ?thesis
    proof (cases "base_left base it = []")
      case True
      let ?it = "it\<lparr>ov_base := b', ov_phase := Inserts\<rparr>"
      have "overlay_iter_ok xs ?it" using ok b'(3) by (simp add: overlay_iter_ok_def)
      from next_insert_left [OF this base refl] Base True b' show ?thesis
        by (auto simp: overlay_next_def overlay_items_def base_left_def overlay_iter_ok_def)
    next
      case False
      with Base b' ok show ?thesis
        by (auto simp: overlay_next_def overlay_items_def base_left_def overlay_iter_ok_def)
    qed
  next
    case Inserts
    show ?thesis
    proof (cases "?pend (ov_insert_pos it) = []")
      case True
      let ?it = "it\<lparr>ov_insert_pos := p', ov_phase := Base\<rparr>"
      have "overlay_iter_ok xs ?it" using ok p'(3) by (simp add: overlay_iter_ok_def)
      from next_base_left [OF this base] Inserts True p' show ?thesis
        by (auto simp: overlay_next_def overlay_items_def base_left_def overlay_iter_ok_def)
    next
      case False
      with Inserts p' ok show ?thesis
        by (auto simp: overlay_next_def overlay_items_def base_left_def overlay_iter_ok_def)
    qed
  qed
qed

lemma overlay_yields:
  assumes "overlay_iter_ok xs it"
  shows "yields (Overlay it) (overlay_items (map adjacency_neighbor xs) it)"
  using assms
proof (induction "overlay_items (map adjacency_neighbor xs) it" arbitrary: it)
  case Nil
  from overlay_next_items [OF Nil.prems refl] obtain it' where "overlay_next it = Inr (None, it')"
    unfolding Nil.hyps [symmetric] by auto
  then have "yields (Overlay it) []" by (intro yields.finished [of _ "Overlay it'"]) simp
  then show ?case using Nil.hyps by simp
next
  case (Cons n ns)
  from Cons.hyps(2) have items_it: "overlay_items (map adjacency_neighbor xs) it = n # ns" by simp
  from overlay_next_items [OF Cons.prems refl] obtain it' where
    it': "overlay_next it = Inr (Some n, it')" "overlay_items (map adjacency_neighbor xs) it' = ns"
      "overlay_iter_ok xs it'"
    unfolding items_it by auto
  have "yields (Overlay it) (n # ns)"
    using it' Cons.hyps(1) [OF it'(2) [symmetric] it'(3)] by (auto intro: yields.item)
  then show ?case using Cons.hyps(2) by simp
qed

section \<open>The sources over any well-formed store\<close>

fun store_arrays :: "edge_store \<Rightarrow> edge_arrays" where
  "store_arrays (Owned a) = a"
| "store_arrays (Mmap m) = mapped_view m"

fun store_ok :: "edge_store \<Rightarrow> bool" where
  "store_ok (Owned a) = csr_wf a"
| "store_ok (Mmap m) = (mmap_validate m = Some m)"

lemma store_ok_wf: "store_ok st \<Longrightarrow> csr_wf (store_arrays st)"
  using mapped_view_wf by (cases st) auto

lemma store_full_Owned:
  assumes "store_ok st"
  shows "neighbors_with_schema_and_relationship_ids st i =
    neighbors_with_schema_and_relationship_ids (Owned (store_arrays st)) i"
proof (cases st)
  case (Mmap m)
  then have "mmap_validate m = Some m" using assms by simp
  from mapped_neighbors(2) [OF this, of i] Mmap show ?thesis
    by (simp add: neighbors_with_schema_and_relationship_ids_def del: neighbors_with_schema.simps)
qed simp

lemma store_node_view:
  assumes "store_ok st"
  shows "\<exists>v. neighbors_with_schema_and_relationship_ids st i = Inr v \<and>
    view_of v (node_rows (store_arrays st) i)"
proof -
  let ?a = "store_arrays st"
  have wf: "csr_wf ?a" by (rule store_ok_wf [OF assms])
  have small: "length (targets ?a) \<le> usize_max"
    using wf unat_u32_less [of "last (edge_offsets ?a)"] by (simp add: csr_wf_def usize_max_def)
  show ?thesis
  proof (cases "unat i < node_count_of ?a")
    case True
    from neighbors_full_Owned [OF wf True small] True show ?thesis
      by (auto simp: store_full_Owned [OF assms] view_of_def node_rows_def)
  next
    case False
    with neighbors_full_outside [OF wf, of i] show ?thesis
      by (simp add: store_full_Owned [OF assms] view_of_def node_rows_def storage_ok_def)
  qed
qed

definition base_neighbors :: "edge_store \<Rightarrow> u32 \<Rightarrow> neighbor list" where
  "base_neighbors st i = map adjacency_neighbor (node_rows (store_arrays st) i)"

lemma csr_neighbors_yields:
  assumes "store_ok st"
  shows "\<exists>it. csr_neighbors st i = Inr it \<and> yields it (base_neighbors st i)"
    and "\<exists>it. csr_neighbors_reversed st i = Inr it \<and> yields it (rev (base_neighbors st i))"
proof -
  obtain v where v: "neighbors_with_schema_and_relationship_ids st i = Inr v"
    "view_of v (node_rows (store_arrays st) i)"
    using store_node_view [OF assms] by blast
  let ?xs = "node_rows (store_arrays st) i"
  have "csr_iter_ok ?xs (csr_iter_forward v)" "csr_iter_ok ?xs (csr_iter_reversed v)"
    using v(2) by (simp_all add: csr_iter_ok_def csr_iter_forward_def csr_iter_reversed_def
        view_targets_length)
  from csr_yields [OF this(1)] csr_yields [OF this(2)] v view_targets_length [OF v(2)]
  show "\<exists>it. csr_neighbors st i = Inr it \<and> yields it (base_neighbors st i)"
    and "\<exists>it. csr_neighbors_reversed st i = Inr it \<and> yields it (rev (base_neighbors st i))"
    by (simp_all add: csr_neighbors_def csr_neighbors_reversed_def base_neighbors_def csr_items_def
        csr_iter_forward_def csr_iter_reversed_def)
qed

lemma overlay_stream:
  assumes "store_ok st"
  shows "(\<exists>it. overlay_neighbors st ins del i = Inr it \<and>
      yields it (overlay_spec (base_neighbors st i) (ins i) (del i))) \<and>
    (\<exists>it. overlay_neighbors_reversed st ins del i = Inr it \<and>
      yields it (rev (overlay_spec (base_neighbors st i) (ins i) (del i))))"
proof -
  obtain v where v: "neighbors_with_schema_and_relationship_ids st i = Inr v"
    "view_of v (node_rows (store_arrays st) i)"
    using store_node_view [OF assms] by blast
  let ?xs = "node_rows (store_arrays st) i" and ?ins = "opt_get_or [] (ins i)"
  have ilen: "(case ins i of None \<Rightarrow> 0 | Some xs \<Rightarrow> length xs) = length ?ins"
    by (simp split: option.splits)
  have "overlay_iter_ok ?xs (overlay_iter_forward v (ins i) (del i))"
    "overlay_iter_ok ?xs (overlay_iter_reversed v (ins i) (del i))"
    using v(2) by (simp_all add: overlay_iter_ok_def csr_iter_ok_def overlay_iter_forward_def
        overlay_iter_reversed_def csr_iter_forward_def csr_iter_reversed_def view_targets_length ilen)
  note yields = overlay_yields [OF this(1)] overlay_yields [OF this(2)]
  have "overlay_items (base_neighbors st i) (overlay_iter_forward v (ins i) (del i)) =
      overlay_spec (base_neighbors st i) (ins i) (del i)"
    by (simp add: overlay_items_def overlay_iter_forward_def base_left_def csr_items_def
        csr_iter_forward_def pending_all overlay_spec_def)
  moreover have "overlay_items (base_neighbors st i) (overlay_iter_reversed v (ins i) (del i)) =
      rev (overlay_spec (base_neighbors st i) (ins i) (del i))"
    using view_targets_length [OF v(2)]
    by (simp add: overlay_items_def overlay_iter_reversed_def base_left_def csr_items_def
        csr_iter_reversed_def pending_all overlay_spec_def ilen rev_filter base_neighbors_def)
  ultimately show ?thesis
    using yields v(1)
    by (simp add: overlay_neighbors_def overlay_neighbors_reversed_def base_neighbors_def)
qed

text \<open>
  C7: both neighbor streams are exact. Over any well-formed store (owned, or mapped and
  validated), the clean source yields the node's adjacency row and the overlay source
  yields the undeleted rows followed by the inserts that repeat neither a row nor an
  earlier insert; the reversed streams yield exactly the reverse, and no stream faults.
\<close>

theorem neighbor_streams_exact:
  assumes "store_ok st"
  shows "(\<exists>it. csr_neighbors st i = Inr it \<and> yields it (base_neighbors st i)) \<and>
    (\<exists>it. csr_neighbors_reversed st i = Inr it \<and> yields it (rev (base_neighbors st i))) \<and>
    (\<exists>it. overlay_neighbors st ins del i = Inr it \<and>
      yields it (overlay_spec (base_neighbors st i) (ins i) (del i))) \<and>
    (\<exists>it. overlay_neighbors_reversed st ins del i = Inr it \<and>
      yields it (rev (overlay_spec (base_neighbors st i) (ins i) (del i))))"
  using overlay_stream [OF assms] csr_neighbors_yields [OF assms] by blast

definition sample_inserts :: overlay_inserts where
  "sample_inserts = [0 \<mapsto> [(1, 7, False, Some 42), (0, 3, True, None), (0, 3, True, None)]]"

lemma sample_region_rows:
  "node_rows (store_arrays (Mmap sample_region)) 0 = [(1, 7, 0, 42)]"
proof -
  have "row_start (mapped_view sample_region) 0 = 0" "row_start (mapped_view sample_region) (Suc 0) = 1"
    by (simp_all add: sample_region_view row_start_def)
  then show ?thesis
    by (simp add: node_rows_def sample_region_view node_count_of_def row_def entry_def)
qed

theorem neighbor_streams_exact_witness:
  "store_ok (Mmap sample_region) \<and>
    (\<exists>it. overlay_neighbors (Mmap sample_region) sample_inserts (\<lambda>_. None) 0 = Inr it \<and>
      yields it [\<lparr>nb_target = 1, nb_type_id = 7, nb_schema_reversed = False, nb_relationship_id = Some 42\<rparr>,
        \<lparr>nb_target = 0, nb_type_id = 3, nb_schema_reversed = True, nb_relationship_id = None\<rparr>])"
proof -
  have ok: "store_ok (Mmap sample_region)" by (simp add: sample_region_valid)
  have base: "base_neighbors (Mmap sample_region) 0 =
      [\<lparr>nb_target = 1, nb_type_id = 7, nb_schema_reversed = False, nb_relationship_id = Some 42\<rparr>]"
    by (simp only: base_neighbors_def sample_region_rows)
      (simp add: adjacency_neighbor_def NO_RELATIONSHIP_ID_def)
  have "overlay_spec (base_neighbors (Mmap sample_region) 0) (sample_inserts 0) None =
      [\<lparr>nb_target = 1, nb_type_id = 7, nb_schema_reversed = False, nb_relationship_id = Some 42\<rparr>,
       \<lparr>nb_target = 0, nb_type_id = 3, nb_schema_reversed = True, nb_relationship_id = None\<rparr>]"
    by (simp add: overlay_spec_def is_deleted_def sample_inserts_def fresh_inserts_def insert_neighbor_def
        base upt_rec)
  with ok neighbor_streams_exact [OF ok, of 0 sample_inserts "\<lambda>_. None"] show ?thesis
    by simp
qed

text \<open>The weighted rows of a node, in row order; an unweighted store has none.\<close>

definition weighted_rows :: "edge_arrays \<Rightarrow> u32 \<Rightarrow> weighted_neighbor list" where
  "weighted_rows a i =
     (if weights a = [] \<or> node_count_of a \<le> unat i then []
      else map (\<lambda>k. \<lparr>wn_target = targets a ! k, wn_type_id = logical_ids (type_ids a) ! k,
          wn_weight = weights a ! k, wn_schema_reversed = (schema_reversed a ! k \<noteq> 0),
          wn_relationship_id = (if relationship_ids a ! k = NO_RELATIONSHIP_ID then None
            else Some (relationship_ids a ! k))\<rparr>)
        [row_start a (unat i)..<row_start a (Suc (unat i))])"

end
