(* ===== verification/NeighborPaging.thy ===== *)
theory NeighborPaging
  imports Neighbors EdgeBulk
begin

text \<open>
  The paged form of the neighbor streams (\<open>projection/neighbors.rs\<close>:
  \<open>fill_neighbors\<close>, \<open>fill_neighbors_reversed\<close> and their owned cursors). A page examines
  a bounded number of rows and inserts and leaves a cursor from which the next page goes
  on. The locale \<open>paged_stream\<close> states what a caller relies on, and is interpreted on
  every implementation: pages concatenate to the stream, and non-empty pages end it.
\<close>

section \<open>Cursors\<close>

text \<open>How far the duplicate check of the current overlay insert has come.\<close>

record dup_check =
  dup_base_pos :: usize
  dup_base_end :: usize
  dup_insert_pos :: usize
  dup_initialized :: bool

type_synonym stream_key = "u32 \<times> edge_type_id \<times> bool \<times> relationship_id option"

datatype owned_neighbor_cursor =
    Start
  | CsrPos usize
  | CsrReverse usize
  | OverlayPos usize usize bool dup_check
  | OverlayReverse usize usize bool dup_check
  | Layered usize usize usize usize "stream_key option"
  | LayeredReverse usize usize usize usize "stream_key option"
  | LayeredAny usize usize usize usize usize usize usize usize "stream_key option"
  | LayeredAnyReverse usize usize usize usize usize usize usize usize "stream_key option"
  | Logical usize

fun logical_position :: "owned_neighbor_cursor \<Rightarrow> usize" where
  "logical_position (CsrPos pos) = pos"
| "logical_position (Logical pos) = pos"
| "logical_position (CsrReverse consumed) = consumed"
| "logical_position _ = 0"

definition advance_logical :: "owned_neighbor_cursor \<Rightarrow> usize \<Rightarrow> owned_neighbor_cursor" where
  "advance_logical cursor n = Logical (saturating_add_usize (logical_position cursor) n)"

type_synonym 'i filled_page = "bool \<times> owned_neighbor_cursor \<times> 'i list"

section \<open>The default implementation and the clean store\<close>

text \<open>The trait's default methods, over the collected stream they skip into.\<close>

definition default_fill ::
  "neighbor list \<Rightarrow> owned_neighbor_cursor \<Rightarrow> usize \<Rightarrow> neighbor list \<Rightarrow> neighbor filled_page graph_result" where
  "default_fill stream cursor limit out =
     (let rest = drop (logical_position cursor) stream;
          out' = out @ take limit rest in
      Inr (drop limit rest = [], advance_logical cursor (length out'), out'))"

definition csr_fill ::
  "edge_store \<Rightarrow> u32 \<Rightarrow> owned_neighbor_cursor \<Rightarrow> usize \<Rightarrow> neighbor list \<Rightarrow> neighbor filled_page graph_result" where
  "csr_fill st node_idx cursor limit out =
     rbind (neighbors_with_schema_and_relationship_ids st node_idx) (\<lambda>v.
       let len = length (view_targets v);
           pos = (case cursor of Start \<Rightarrow> 0 | CsrPos p \<Rightarrow> p | _ \<Rightarrow> logical_position cursor);
           stop = min (saturating_add_usize pos limit) len in
       rbind (map_r (neighbor_at v) [min pos len..<stop]) (\<lambda>ns.
         Inr (stop = len, CsrPos stop, out @ ns)))"

definition csr_fill_reversed ::
  "edge_store \<Rightarrow> u32 \<Rightarrow> owned_neighbor_cursor \<Rightarrow> usize \<Rightarrow> neighbor list \<Rightarrow> neighbor filled_page graph_result" where
  "csr_fill_reversed st node_idx cursor limit out =
     rbind (neighbors_with_schema_and_relationship_ids st node_idx) (\<lambda>v.
       let len = length (view_targets v);
           consumed = (case cursor of CsrReverse c \<Rightarrow> c | _ \<Rightarrow> 0);
           stop = min (saturating_add_usize consumed limit) len in
       rbind (map_r (\<lambda>offset. neighbor_at v (len - 1 - offset)) [consumed..<stop]) (\<lambda>ns.
         Inr (stop = len, CsrReverse stop, out @ ns)))"

section \<open>The overlay: duplicate checks\<close>

function bsearch :: "(nat \<Rightarrow> bool graph_result) \<Rightarrow> nat \<Rightarrow> nat \<Rightarrow> nat graph_result" where
  "bsearch p low high =
     (if low < high then
        let mid = low + (high - low) div 2 in
        rbind (p mid) (\<lambda>b. if b then bsearch p (mid + 1) high else bsearch p low mid)
      else Inr low)"
  by pat_completeness auto
termination
  by (relation "measure (\<lambda>(p, low, high). high - low)") auto

declare bsearch.simps [simp del]

type_synonym edge_row_key = "u32 \<times> edge_type_id \<times> bool"

definition nb_key :: "neighbor \<Rightarrow> edge_row_key" where
  "nb_key n = (nb_target n, nb_type_id n, nb_schema_reversed n)"

definition insert_key :: "overlay_insert \<Rightarrow> edge_row_key" where
  "insert_key ins = (fst ins, fst (snd ins), fst (snd (snd ins)))"

definition insert_rel :: "overlay_insert \<Rightarrow> relationship_id option" where
  "insert_rel ins = snd (snd (snd ins))"

definition row_key :: "adjacency_view \<Rightarrow> nat \<Rightarrow> edge_row_key graph_result" where
  "row_key v idx = rbind (neighbor_at v idx) (\<lambda>n. Inr (nb_key n))"

definition init_dup :: "adjacency_view \<Rightarrow> overlay_insert \<Rightarrow> dup_check \<Rightarrow> dup_check graph_result" where
  "init_dup v ins d =
     (if dup_initialized d then Inr d
      else
        let len = length (view_targets v) in
        rbind (bsearch (\<lambda>i. rbind (row_key v i) (\<lambda>k. Inr (k < insert_key ins))) 0 len) (\<lambda>low.
        rbind (bsearch (\<lambda>i. rbind (row_key v i) (\<lambda>k. Inr (k \<le> insert_key ins))) low len) (\<lambda>high.
        Inr \<lparr>dup_base_pos = low, dup_base_end = high, dup_insert_pos = 0, dup_initialized = True\<rparr>)))"

function dup_base_loop ::
  "relationship_id list \<Rightarrow> relationship_id option \<Rightarrow> usize \<Rightarrow> usize \<Rightarrow> usize \<Rightarrow> usize \<Rightarrow> bool \<times> usize \<times> usize" where
  "dup_base_loop rels rel limit examined pos stop =
     (if examined < limit \<and> pos < stop then
        if known_relationship rels pos = rel then (True, examined + 1, pos + 1)
        else dup_base_loop rels rel limit (examined + 1) (pos + 1) stop
      else (False, examined, pos))"
  by pat_completeness auto
termination
  by (relation "measure (\<lambda>(_, _, _, _, pos, stop). stop - pos)") auto

declare dup_base_loop.simps [simp del]

function dup_insert_loop ::
  "overlay_insert list \<Rightarrow> overlay_insert \<Rightarrow> usize \<Rightarrow> bool \<Rightarrow> usize \<Rightarrow> usize \<Rightarrow> usize \<Rightarrow>
    (bool \<times> usize \<times> usize) graph_result" where
  "dup_insert_loop vals ins limit duplicate examined pos stop =
     (if \<not> duplicate \<and> examined < limit \<and> pos < stop then
        rbind (index_r vals pos) (\<lambda>x.
          dup_insert_loop vals ins limit (x = ins) (examined + 1) (pos + 1) stop)
      else Inr (duplicate, examined, pos))"
  by pat_completeness auto
termination
  by (relation "measure (\<lambda>(_, _, _, _, _, pos, stop). stop - pos)") auto

declare dup_insert_loop.simps [simp del]

text \<open>
  One overlay insert at index \<open>pos\<close>: \<open>Stalled\<close> when the page is used up before the check
  (or the push) is done, otherwise a duplicate to skip or a fresh item to push.
\<close>

datatype insert_outcome = Stalled | Duplicate | Fresh

definition insert_step ::
  "adjacency_view \<Rightarrow> overlay_insert list \<Rightarrow> usize \<Rightarrow> usize \<Rightarrow> usize \<Rightarrow> dup_check \<Rightarrow>
    (insert_outcome \<times> usize \<times> dup_check) graph_result" where
  "insert_step v vals limit pos examined d =
     rbind (index_r vals pos) (\<lambda>ins.
     rbind (init_dup v ins d) (\<lambda>d.
     case dup_base_loop (view_rels v) (insert_rel ins) limit examined (dup_base_pos d) (dup_base_end d) of
       (duplicate, examined, base_pos) \<Rightarrow>
     rbind (dup_insert_loop vals ins limit duplicate examined (dup_insert_pos d) pos)
       (\<lambda>(duplicate, examined, insert_pos).
     let d' = d\<lparr>dup_base_pos := base_pos, dup_insert_pos := insert_pos\<rparr> in
     if \<not> (duplicate \<or> (base_pos = dup_base_end d \<and> insert_pos = pos)) then Inr (Stalled, examined, d')
     else if duplicate then Inr (Duplicate, examined, d')
     else if examined = limit then Inr (Stalled, examined, d')
     else Inr (Fresh, examined + 1, d'))))"

definition dup_reset :: dup_check where
  "dup_reset = \<lparr>dup_base_pos = 0, dup_base_end = 0, dup_insert_pos = 0, dup_initialized = False\<rparr>"

section \<open>The overlay: pages\<close>

definition push_undeleted :: "overlay_delete set option \<Rightarrow> neighbor \<Rightarrow> neighbor list \<Rightarrow> neighbor list" where
  "push_undeleted del n out = (if is_deleted del n then out else out @ [n])"

text \<open>The base phase, forward: ends with the phase flag, the examined count and the position.\<close>

function base_loop ::
  "adjacency_view \<Rightarrow> overlay_delete set option \<Rightarrow> usize \<Rightarrow> usize \<Rightarrow> usize \<Rightarrow> neighbor list \<Rightarrow>
    (bool \<times> usize \<times> usize \<times> neighbor list) graph_result" where
  "base_loop v del limit examined base_pos out =
     (if examined < limit then
        if base_pos < length (view_targets v) then
          rbind (neighbor_at v base_pos) (\<lambda>n.
            base_loop v del limit (examined + 1) (base_pos + 1) (push_undeleted del n out))
        else Inr (True, examined, base_pos, out)
      else Inr (False, examined, base_pos, out))"
  by pat_completeness auto
termination
  by (relation "measure (\<lambda>(_, _, limit, examined, _). limit - examined)") auto

declare base_loop.simps [simp del]

function insert_loop ::
  "adjacency_view \<Rightarrow> overlay_insert list option \<Rightarrow> usize \<Rightarrow> usize \<Rightarrow> usize \<Rightarrow> dup_check \<Rightarrow> neighbor list \<Rightarrow>
    (usize \<times> dup_check \<times> neighbor list) graph_result" where
  "insert_loop v inserted limit examined insert_pos d out =
     (case inserted of
        None \<Rightarrow> Inr (insert_pos, d, out)
      | Some vals \<Rightarrow>
          if examined < limit \<and> insert_pos < length vals then
            rbind (insert_step v vals limit insert_pos examined d) (\<lambda>(outcome, examined, d').
              case outcome of
                Stalled \<Rightarrow> Inr (insert_pos, d', out)
              | Duplicate \<Rightarrow> insert_loop v inserted limit examined (insert_pos + 1) dup_reset out
              | Fresh \<Rightarrow> insert_loop v inserted limit examined (insert_pos + 1) dup_reset
                  (out @ [insert_neighbor (vals ! insert_pos)]))
          else Inr (insert_pos, d, out))"
  by pat_completeness auto
termination
  by (relation "measure (\<lambda>(_, inserted, _, _, insert_pos, _). length (opt_get_or [] inserted) - insert_pos)")
    auto

declare insert_loop.simps [simp del]

definition overlay_fill ::
  "edge_store \<Rightarrow> overlay_inserts \<Rightarrow> overlay_deletes \<Rightarrow> u32 \<Rightarrow> owned_neighbor_cursor \<Rightarrow> usize \<Rightarrow>
    neighbor list \<Rightarrow> neighbor filled_page graph_result" where
  "overlay_fill st inserts deletes node_idx cursor limit out =
     (if inserts node_idx = None \<and> deletes node_idx = None then csr_fill st node_idx cursor limit out
      else
        rbind (neighbors_with_schema_and_relationship_ids st node_idx) (\<lambda>v.
        case (case cursor of OverlayPos b i p d \<Rightarrow> (b, i, p, d) | _ \<Rightarrow> (0, 0, False, dup_reset)) of
          (base_pos, insert_pos, inserts_phase, d) \<Rightarrow>
        rbind (if inserts_phase then Inr (True, 0, base_pos, out)
               else base_loop v (deletes node_idx) limit 0 base_pos out)
          (\<lambda>(inserts_phase, examined, base_pos, out).
        rbind (if inserts_phase then insert_loop v (inserts node_idx) limit examined insert_pos d out
               else Inr (insert_pos, d, out))
          (\<lambda>(insert_pos, d, out).
        Inr (inserts_phase \<and> insert_pos \<ge> length (opt_get_or [] (inserts node_idx)),
          OverlayPos base_pos insert_pos inserts_phase d, out)))))"

function insert_loop_reversed ::
  "adjacency_view \<Rightarrow> overlay_insert list \<Rightarrow> usize \<Rightarrow> usize \<Rightarrow> usize \<Rightarrow> dup_check \<Rightarrow> neighbor list \<Rightarrow>
    (bool \<times> usize \<times> usize \<times> dup_check \<times> neighbor list) graph_result" where
  "insert_loop_reversed v vals limit examined insert_consumed d out =
     (if examined < limit then
        if insert_consumed \<ge> length vals then Inr (True, examined, insert_consumed, d, out)
        else
          let pos = length vals - 1 - insert_consumed in
          rbind (insert_step v vals limit pos examined d) (\<lambda>(outcome, examined, d').
            case outcome of
              Stalled \<Rightarrow> Inr (False, examined, insert_consumed, d', out)
            | Duplicate \<Rightarrow> insert_loop_reversed v vals limit examined (insert_consumed + 1) dup_reset out
            | Fresh \<Rightarrow> insert_loop_reversed v vals limit examined (insert_consumed + 1) dup_reset
                (out @ [insert_neighbor (vals ! pos)]))
      else Inr (False, examined, insert_consumed, d, out))"
  by pat_completeness auto
termination
  by (relation "measure (\<lambda>(_, vals, _, _, consumed, _). length vals - consumed)") auto

declare insert_loop_reversed.simps [simp del]

function base_loop_reversed ::
  "adjacency_view \<Rightarrow> overlay_delete set option \<Rightarrow> usize \<Rightarrow> usize \<Rightarrow> usize \<Rightarrow> neighbor list \<Rightarrow>
    (usize \<times> neighbor list) graph_result" where
  "base_loop_reversed v del limit examined base_consumed out =
     (if examined < limit \<and> base_consumed < length (view_targets v) then
        rbind (neighbor_at v (length (view_targets v) - 1 - base_consumed)) (\<lambda>n.
          base_loop_reversed v del limit (examined + 1) (base_consumed + 1) (push_undeleted del n out))
      else Inr (base_consumed, out))"
  by pat_completeness auto
termination
  by (relation "measure (\<lambda>(_, _, limit, examined, _). limit - examined)") auto

declare base_loop_reversed.simps [simp del]

definition overlay_fill_reversed ::
  "edge_store \<Rightarrow> overlay_inserts \<Rightarrow> overlay_deletes \<Rightarrow> u32 \<Rightarrow> owned_neighbor_cursor \<Rightarrow> usize \<Rightarrow>
    neighbor list \<Rightarrow> neighbor filled_page graph_result" where
  "overlay_fill_reversed st inserts deletes node_idx cursor limit out =
     (if inserts node_idx = None \<and> deletes node_idx = None
      then csr_fill_reversed st node_idx cursor limit out
      else
        rbind (neighbors_with_schema_and_relationship_ids st node_idx) (\<lambda>v.
        case (case cursor of OverlayReverse b i p d \<Rightarrow> (b, i, p, d) | _ \<Rightarrow> (0, 0, False, dup_reset)) of
          (base_consumed, insert_consumed, base_phase, d) \<Rightarrow>
        rbind (if base_phase then Inr (True, 0, insert_consumed, d, out)
               else insert_loop_reversed v (opt_get_or [] (inserts node_idx)) limit 0 insert_consumed d out)
          (\<lambda>(base_phase, examined, insert_consumed, d, out).
        rbind (if base_phase then base_loop_reversed v (deletes node_idx) limit examined base_consumed out
               else Inr (base_consumed, out))
          (\<lambda>(base_consumed, out).
        Inr (base_phase \<and> base_consumed \<ge> length (view_targets v),
          OverlayReverse base_consumed insert_consumed base_phase d, out)))))"

section \<open>The contract of a paged stream\<close>

text \<open>A caller that asks for pages of the given sizes until the stream says it is done.\<close>

primrec drain_pages ::
  "(owned_neighbor_cursor \<Rightarrow> usize \<Rightarrow> 'i list \<Rightarrow> 'i filled_page graph_result) \<Rightarrow> usize list \<Rightarrow>
    owned_neighbor_cursor \<Rightarrow> 'i list \<Rightarrow> 'i filled_page graph_result" where
  "drain_pages fill [] c acc = Inr (False, c, acc)"
| "drain_pages fill (l # ls) c acc =
     rbind (fill c l []) (\<lambda>(fin, c', items).
       if fin then Inr (True, c', acc @ items) else drain_pages fill ls c' (acc @ items))"

text \<open>
  \<open>left s c rest\<close>: from cursor \<open>c\<close> the items \<open>rest\<close> of the stream are still to come.
  A page takes a prefix of them; if it may examine anything at all it ends the stream or
  gets closer to its end.
\<close>

locale paged_stream =
  fixes fill :: "'s \<Rightarrow> owned_neighbor_cursor \<Rightarrow> usize \<Rightarrow> 'i list \<Rightarrow> 'i filled_page graph_result"
    and ok :: "'s \<Rightarrow> bool"
    and full :: "'s \<Rightarrow> 'i list"
    and left :: "'s \<Rightarrow> owned_neighbor_cursor \<Rightarrow> 'i list \<Rightarrow> bool"
    and work :: "'s \<Rightarrow> owned_neighbor_cursor \<Rightarrow> nat"
  assumes start: "ok s \<Longrightarrow> left s Start (full s)"
    and page: "ok s \<Longrightarrow> left s c rest \<Longrightarrow>
      \<exists>fin c' items rest'. fill s c limit [] = Inr (fin, c', items) \<and> rest = items @ rest' \<and>
        left s c' rest' \<and> length items \<le> limit \<and> (fin \<longrightarrow> rest' = []) \<and>
        (0 < limit \<longrightarrow> fin \<or> work s c' < work s c)"
begin

lemma drain_prefix:
  "ok s \<Longrightarrow> left s c rest \<Longrightarrow> \<exists>fin c' items rest'. drain_pages (fill s) ls c acc = Inr (fin, c', acc @ items) \<and>
    rest = items @ rest' \<and> (fin \<longrightarrow> rest' = [])"
proof (induction ls arbitrary: c acc rest)
  case Nil
  show ?case by (intro exI [of _ False] exI [of _ c] exI [of _ "[]"] exI [of _ rest]) simp
next
  case (Cons l ls)
  from page [OF Cons.prems, of l] obtain fin c' items rest' where
    f: "fill s c l [] = Inr (fin, c', items)" "rest = items @ rest'" "left s c' rest'" "fin \<longrightarrow> rest' = []"
    by blast
  show ?case
  proof (cases fin)
    case True
    with f show ?thesis
      by (intro exI [of _ True] exI [of _ c'] exI [of _ items] exI [of _ "[]"]) simp
  next
    case False
    from Cons.IH [OF Cons.prems(1) f(3), of "acc @ items"] obtain fin2 c2 items2 rest2 where
      "drain_pages (fill s) ls c' (acc @ items) = Inr (fin2, c2, (acc @ items) @ items2)"
      "rest' = items2 @ rest2" "fin2 \<longrightarrow> rest2 = []" by blast
    with f False show ?thesis by auto
  qed
qed

lemma drain_all:
  "ok s \<Longrightarrow> left s c rest \<Longrightarrow> \<forall>l \<in> set ls. 0 < l \<Longrightarrow> work s c < length ls \<Longrightarrow>
    \<exists>c'. drain_pages (fill s) ls c acc = Inr (True, c', acc @ rest)"
proof (induction ls arbitrary: c acc rest)
  case Nil
  then show ?case by simp
next
  case (Cons l ls)
  from page [OF Cons.prems(1,2), of l] Cons.prems(3) obtain fin c' items rest' where
    f: "fill s c l [] = Inr (fin, c', items)" "rest = items @ rest'" "left s c' rest'" "fin \<longrightarrow> rest' = []"
      "fin \<or> work s c' < work s c"
    by auto
  show ?case
  proof (cases fin)
    case True
    with f show ?thesis by simp
  next
    case False
    from Cons.IH [OF Cons.prems(1) f(3), of "acc @ items"] False f(5) Cons.prems(3,4) obtain c2 where
      "drain_pages (fill s) ls c' (acc @ items) = Inr (True, c2, (acc @ items) @ rest')" by auto
    with f False show ?thesis by auto
  qed
qed

text \<open>Pages of any sizes give a prefix of the stream; enough non-empty pages give all of it.\<close>

lemma pages_concatenate:
  assumes "ok s"
  shows "(\<exists>fin c items rest. drain_pages (fill s) ls Start [] = Inr (fin, c, items) \<and> full s = items @ rest \<and>
      (fin \<longrightarrow> items = full s)) \<and>
    ((\<forall>l \<in> set ls. 0 < l) \<longrightarrow> work s Start < length ls \<longrightarrow>
      (\<exists>c. drain_pages (fill s) ls Start [] = Inr (True, c, full s)))"
  using drain_prefix [OF assms start [OF assms], of ls "[]"]
    drain_all [OF assms start [OF assms], of ls "[]"] by auto

end

section \<open>The default methods\<close>

lemma map_r_upt:
  "(\<And>i. a \<le> i \<Longrightarrow> i < b \<Longrightarrow> f i = Inr (g i)) \<Longrightarrow> map_r f [a..<b] = Inr (map g [a..<b])"
proof -
  assume "\<And>i. a \<le> i \<Longrightarrow> i < b \<Longrightarrow> f i = Inr (g i)"
  then have "list_all2 (\<lambda>x y. f x = Inr y) [a..<b] (map g [a..<b])"
    by (auto simp: list_all2_conv_all_nth)
  then show ?thesis by (simp add: map_r_eq_Inr)
qed

definition default_left :: "neighbor list \<Rightarrow> owned_neighbor_cursor \<Rightarrow> neighbor list \<Rightarrow> bool" where
  "default_left stream c rest \<longleftrightarrow>
     logical_position c \<le> length stream \<and> rest = drop (logical_position c) stream \<and>
     (c = Start \<or> (\<exists>p. c = Logical p))"

definition logical_work :: "nat \<Rightarrow> owned_neighbor_cursor \<Rightarrow> nat" where
  "logical_work len c = len - logical_position c"

interpretation default_pages: paged_stream
  "\<lambda>stream c limit out. default_fill stream c limit out"
  "\<lambda>stream. length stream \<le> usize_max" "\<lambda>stream. stream" default_left
  "\<lambda>stream. logical_work (length stream)"
proof
  fix s :: "neighbor list" assume "length s \<le> usize_max"
  then show "default_left s Start s" by (simp add: default_left_def)
next
  fix s rest :: "neighbor list" and c limit
  assume s: "length s \<le> usize_max" and l: "default_left s c rest"
  let ?p = "logical_position c"
  have "?p + length (take limit rest) \<le> length s" using l by (auto simp: default_left_def min_def)
  then have adv: "advance_logical c (length (take limit rest)) = Logical (?p + length (take limit rest))"
    using s by (simp add: advance_logical_def saturating_add_usize_def)
  have rest: "rest = drop ?p s" "?p \<le> length s" using l by (simp_all add: default_left_def)
  have "drop (?p + length (take limit rest)) s = drop limit rest"
    using rest by (simp add: min_def add.commute)
  with \<open>?p + length (take limit rest) \<le> length s\<close>
  have L: "default_left s (Logical (?p + length (take limit rest))) (drop limit rest)"
    by (simp add: default_left_def)
  have W: "drop limit rest = [] \<or>
      logical_work (length s) (Logical (?p + length (take limit rest))) < logical_work (length s) c"
    if "0 < limit"
    using rest that by (auto simp: logical_work_def)
  have F: "default_fill s c limit [] =
      Inr (drop limit rest = [], Logical (?p + length (take limit rest)), take limit rest)"
    unfolding default_fill_def Let_def rest(1) [symmetric] append_Nil adv ..
  show "\<exists>fin c' items rest'. default_fill s c limit [] = Inr (fin, c', items) \<and>
      rest = items @ rest' \<and> default_left s c' rest' \<and> length items \<le> limit \<and> (fin \<longrightarrow> rest' = []) \<and>
      (0 < limit \<longrightarrow> fin \<or> logical_work (length s) c' < logical_work (length s) c)"
    using F L W
    by (intro exI [of _ "drop limit rest = []"] exI [of _ "Logical (?p + length (take limit rest))"]
        exI [of _ "take limit rest"] exI [of _ "drop limit rest"] conjI) auto
qed

section \<open>The clean store\<close>

lemma base_neighbors_small:
  assumes "store_ok st"
  shows "length (base_neighbors st i) \<le> usize_max"
proof -
  let ?a = "store_arrays st"
  have "length (node_rows ?a i) \<le> length (targets ?a)"
    using row_start_le [OF store_ok_wf [OF assms], of "Suc (unat i)"]
    by (auto simp: node_rows_def row_def)
  also have "\<dots> \<le> usize_max"
    using store_ok_wf [OF assms] unat_u32_less [of "last (edge_offsets ?a)"]
    by (simp add: csr_wf_def usize_max_def)
  finally show ?thesis by (simp add: base_neighbors_def)
qed

definition csr_left :: "edge_store \<times> u32 \<Rightarrow> owned_neighbor_cursor \<Rightarrow> neighbor list \<Rightarrow> bool" where
  "csr_left s c rest \<longleftrightarrow>
     (c = Start \<or> (\<exists>p. c = CsrPos p)) \<and>
     logical_position c \<le> length (base_neighbors (fst s) (snd s)) \<and>
     rest = drop (logical_position c) (base_neighbors (fst s) (snd s))"

definition csr_left_reversed :: "edge_store \<times> u32 \<Rightarrow> owned_neighbor_cursor \<Rightarrow> neighbor list \<Rightarrow> bool" where
  "csr_left_reversed s c rest \<longleftrightarrow>
     (c = Start \<or> (\<exists>p. c = CsrReverse p)) \<and>
     logical_position c \<le> length (base_neighbors (fst s) (snd s)) \<and>
     rest = drop (logical_position c) (rev (base_neighbors (fst s) (snd s)))"

definition csr_work :: "edge_store \<times> u32 \<Rightarrow> owned_neighbor_cursor \<Rightarrow> nat" where
  "csr_work s c = length (base_neighbors (fst s) (snd s)) - logical_position c"

lemma csr_page:
  assumes view: "neighbors_with_schema_and_relationship_ids st i = Inr v"
      "view_of v (node_rows (store_arrays st) i)"
    and small: "length (base_neighbors st i) \<le> usize_max"
    and left: "csr_left (st, i) c rest"
    and stop_def: "stop = min (logical_position c + limit) (length (base_neighbors st i))"
  shows "csr_fill st i c limit out =
    Inr (stop = length (base_neighbors st i), CsrPos stop, out @ slice (logical_position c) stop (base_neighbors st i))"
proof -
  let ?B = "base_neighbors st i" and ?p = "logical_position c"
  have len: "length (view_targets v) = length ?B"
    using view_targets_length [OF view(2)] by (simp add: base_neighbors_def)
  have p: "?p \<le> length ?B" using left by (simp add: csr_left_def)
  have stop: "min (saturating_add_usize ?p limit) (length ?B) = stop"
    using small p by (auto simp: stop_def saturating_add_usize_def)
  have pos: "(case c of Start \<Rightarrow> 0 | CsrPos p \<Rightarrow> p | _ \<Rightarrow> ?p) = ?p"
    using left by (auto simp: csr_left_def)
  have "map_r (neighbor_at v) [?p..<stop] = Inr (map ((!) ?B) [?p..<stop])"
    by (rule map_r_upt) (use view(2) in \<open>auto simp: stop_def base_neighbors_def neighbor_at_view\<close>)
  also have "map ((!) ?B) [?p..<stop] = slice ?p stop ?B"
    using p by (simp add: slice_eq_map_nth stop_def)
  finally show ?thesis
    using view(1) p by (simp add: csr_fill_def Let_def len pos stop)
qed

lemma csr_page_reversed:
  assumes view: "neighbors_with_schema_and_relationship_ids st i = Inr v"
      "view_of v (node_rows (store_arrays st) i)"
    and small: "length (base_neighbors st i) \<le> usize_max"
    and left: "csr_left_reversed (st, i) c rest"
    and stop_def: "stop = min (logical_position c + limit) (length (base_neighbors st i))"
  shows "csr_fill_reversed st i c limit out = Inr (stop = length (base_neighbors st i), CsrReverse stop,
    out @ slice (logical_position c) stop (rev (base_neighbors st i)))"
proof -
  let ?B = "base_neighbors st i" and ?p = "logical_position c"
  have len: "length (view_targets v) = length ?B"
    using view_targets_length [OF view(2)] by (simp add: base_neighbors_def)
  have p: "?p \<le> length ?B" using left by (simp add: csr_left_reversed_def)
  have stop: "min (saturating_add_usize ?p limit) (length ?B) = stop"
    using small p by (auto simp: stop_def saturating_add_usize_def)
  have pos: "(case c of CsrReverse c \<Rightarrow> c | _ \<Rightarrow> 0) = ?p"
    using left by (auto simp: csr_left_reversed_def)
  have "map_r (\<lambda>k. neighbor_at v (length ?B - 1 - k)) [?p..<stop] = Inr (map ((!) (rev ?B)) [?p..<stop])"
    by (rule map_r_upt) (use view(2) in \<open>auto simp: stop_def base_neighbors_def neighbor_at_view rev_nth\<close>)
  also have "map ((!) (rev ?B)) [?p..<stop] = slice ?p stop (rev ?B)"
    using p by (simp add: slice_eq_map_nth stop_def)
  finally show ?thesis
    using view(1) by (simp add: csr_fill_reversed_def Let_def len pos stop)
qed

lemma slice_drop_split:
  "p \<le> q \<Longrightarrow> drop p xs = slice p q xs @ drop q xs"
  using append_take_drop_id [of "q - p" "drop p xs"] by (simp add: slice_def)

lemma min_page:
  fixes p l n :: nat
  shows "p \<le> n \<Longrightarrow> p \<le> min (p + l) n" "min (p + l) n - p \<le> l"
    "0 < l \<Longrightarrow> p \<le> n \<Longrightarrow> min (p + l) n = n \<or> n - min (p + l) n < n - p"
  by auto

interpretation csr_pages: paged_stream
  "\<lambda>s. csr_fill (fst s) (snd s)" "\<lambda>s. store_ok (fst s)" "\<lambda>s. base_neighbors (fst s) (snd s)"
  csr_left csr_work
proof
  fix s :: "edge_store \<times> u32"
  show "csr_left s Start (base_neighbors (fst s) (snd s))" by (simp add: csr_left_def)
next
  fix s :: "edge_store \<times> u32" and c rest limit
  assume ok: "store_ok (fst s)" and left: "csr_left s c rest"
  obtain st i where s: "s = (st, i)" by (cases s)
  let ?B = "base_neighbors st i" and ?p = "logical_position c"
  let ?q = "min (?p + limit) (length ?B)"
  obtain v where v: "neighbors_with_schema_and_relationship_ids st i = Inr v"
    "view_of v (node_rows (store_arrays st) i)"
    using store_node_view [of st i] ok s by auto
  have p: "?p \<le> length ?B" "rest = drop ?p ?B" using left s by (simp_all add: csr_left_def)
  have "csr_fill st i c limit [] = Inr (?q = length ?B, CsrPos ?q, slice ?p ?q ?B)"
    using csr_page [OF v base_neighbors_small _ refl, of c rest limit "[]"] ok left s by simp
  then show "\<exists>fin c' items rest'. csr_fill (fst s) (snd s) c limit [] = Inr (fin, c', items) \<and>
      rest = items @ rest' \<and> csr_left s c' rest' \<and> length items \<le> limit \<and> (fin \<longrightarrow> rest' = []) \<and>
      (0 < limit \<longrightarrow> fin \<or> csr_work s c' < csr_work s c)"
    using p slice_drop_split [OF min_page(1) [OF p(1), of limit], of ?B] min_page(3) [OF _ p(1), of limit]
    by (intro exI [of _ "?q = length ?B"] exI [of _ "CsrPos ?q"] exI [of _ "slice ?p ?q ?B"] exI [of _ "drop ?q ?B"])
      (auto simp: s csr_left_def csr_work_def)
qed

interpretation csr_pages_reversed: paged_stream
  "\<lambda>s. csr_fill_reversed (fst s) (snd s)" "\<lambda>s. store_ok (fst s)"
  "\<lambda>s. rev (base_neighbors (fst s) (snd s))" csr_left_reversed csr_work
proof
  fix s :: "edge_store \<times> u32"
  show "csr_left_reversed s Start (rev (base_neighbors (fst s) (snd s)))"
    by (simp add: csr_left_reversed_def)
next
  fix s :: "edge_store \<times> u32" and c rest limit
  assume ok: "store_ok (fst s)" and left: "csr_left_reversed s c rest"
  obtain st i where s: "s = (st, i)" by (cases s)
  let ?B = "base_neighbors st i" and ?p = "logical_position c"
  let ?q = "min (?p + limit) (length ?B)"
  obtain v where v: "neighbors_with_schema_and_relationship_ids st i = Inr v"
    "view_of v (node_rows (store_arrays st) i)"
    using store_node_view [of st i] ok s by auto
  have p: "?p \<le> length ?B" "rest = drop ?p (rev ?B)" using left s by (simp_all add: csr_left_reversed_def)
  have "csr_fill_reversed st i c limit [] = Inr (?q = length ?B, CsrReverse ?q, slice ?p ?q (rev ?B))"
    using csr_page_reversed [OF v base_neighbors_small _ refl, of c rest limit "[]"] ok left s by simp
  then show "\<exists>fin c' items rest'. csr_fill_reversed (fst s) (snd s) c limit [] = Inr (fin, c', items) \<and>
      rest = items @ rest' \<and> csr_left_reversed s c' rest' \<and> length items \<le> limit \<and> (fin \<longrightarrow> rest' = []) \<and>
      (0 < limit \<longrightarrow> fin \<or> csr_work s c' < csr_work s c)"
    using p slice_drop_split [OF min_page(1) [OF p(1), of limit], of "rev ?B"]
      min_page(3) [OF _ p(1), of limit]
    by (intro exI [of _ "?q = length ?B"] exI [of _ "CsrReverse ?q"] exI [of _ "slice ?p ?q (rev ?B)"] exI [of _ "drop ?q (rev ?B)"])
      (auto simp: s csr_left_reversed_def csr_work_def)
qed

section \<open>Binary search and the equal range\<close>

lemma bsearch_partition:
  assumes p: "\<And>i. i < n \<Longrightarrow> p i = Inr (i < c)"
  shows "low \<le> c \<Longrightarrow> c \<le> high \<Longrightarrow> high \<le> n \<Longrightarrow> bsearch p low high = Inr c"
proof (induction "high - low" arbitrary: low high rule: less_induct)
  case less
  show ?case
  proof (cases "low < high")
    case True
    let ?m = "low + (high - low) div 2"
    have m: "low \<le> ?m" "?m < high" using True by auto
    then have pm: "p ?m = Inr (?m < c)" using p less.prems(3) by simp
    show ?thesis
    proof (cases "?m < c")
      case True': True
      then have "bsearch p (?m + 1) high = Inr c"
        using less.hyps [of high "?m + 1"] less.prems m by simp
      with True True' pm show ?thesis by (subst bsearch.simps) (simp add: Let_def)
    next
      case False
      then have "bsearch p low ?m = Inr c"
        using less.hyps [of ?m low] less.prems m by simp
      with True False pm show ?thesis by (subst bsearch.simps) (simp add: Let_def)
    qed
  next
    case False
    with less.prems show ?thesis by (subst bsearch.simps) simp
  qed
qed

lemma partition_index:
  assumes "filter P xs @ filter (\<lambda>x. \<not> P x) xs = xs" and "i < length xs"
  shows "P (xs ! i) \<longleftrightarrow> i < length (filter P xs)"
proof (cases "i < length (filter P xs)")
  case True
  then have "xs ! i = filter P xs ! i" by (metis assms(1) nth_append)
  with True show ?thesis using nth_mem [OF True] by simp
next
  case False
  let ?ys = "filter (\<lambda>x. \<not> P x) xs"
  have "xs ! i = ?ys ! (i - length (filter P xs))" by (metis False assms(1) nth_append)
  moreover have "i - length (filter P xs) < length ?ys"
    using False assms(2) arg_cong [OF assms(1), of length] by simp
  ultimately have "xs ! i \<in> set ?ys" by (metis nth_mem)
  with False show ?thesis by simp
qed

lemma sorted_key_split:
  fixes k :: "'a \<Rightarrow> 'k :: linorder"
  assumes "sorted (map k xs)" and mono: "\<And>x y. k x \<le> k y \<Longrightarrow> P y \<Longrightarrow> P x"
  shows "filter P xs @ filter (\<lambda>x. \<not> P x) xs = xs"
  using assms(1)
proof (induction xs)
  case (Cons x xs)
  show ?case
  proof (cases "P x")
    case False
    then have "\<forall>y \<in> set xs. \<not> P y" using Cons.prems mono by auto
    then have "filter P xs = []" "filter (\<lambda>x. \<not> P x) xs = xs" by (auto simp: filter_empty_conv filter_id_conv)
    with False show ?thesis by simp
  qed (use Cons in simp)
qed simp

definition range_low :: "neighbor list \<Rightarrow> overlay_insert \<Rightarrow> nat" where
  "range_low B ins = length (filter (\<lambda>n. nb_key n < insert_key ins) B)"

definition range_high :: "neighbor list \<Rightarrow> overlay_insert \<Rightarrow> nat" where
  "range_high B ins = length (filter (\<lambda>n. nb_key n \<le> insert_key ins) B)"

lemma range_index:
  assumes "sorted (map nb_key B)" and "i < length B"
  shows "nb_key (B ! i) < insert_key ins \<longleftrightarrow> i < range_low B ins"
    and "nb_key (B ! i) \<le> insert_key ins \<longleftrightarrow> i < range_high B ins"
  unfolding range_low_def range_high_def
  using partition_index [OF sorted_key_split [OF assms(1)] assms(2)] by (auto intro: order.strict_trans1)

lemma range_le: "range_high B ins \<le> length B" "range_low B ins \<le> range_high B ins"
proof -
  show "range_high B ins \<le> length B" by (simp add: range_high_def)
  show "range_low B ins \<le> range_high B ins"
    unfolding range_low_def range_high_def by (induction B) auto
qed

lemma in_base_iff:
  assumes "sorted (map nb_key B)"
  shows "insert_neighbor ins \<in> set B \<longleftrightarrow>
    (\<exists>i. range_low B ins \<le> i \<and> i < range_high B ins \<and> nb_relationship_id (B ! i) = insert_rel ins)"
proof -
  have eq: "n = insert_neighbor ins \<longleftrightarrow> nb_key n = insert_key ins \<and> nb_relationship_id n = insert_rel ins"
    for n :: neighbor
    by (cases ins) (auto simp: insert_neighbor_def nb_key_def insert_key_def insert_rel_def)
  have "nb_key (B ! i) = insert_key ins \<longleftrightarrow> range_low B ins \<le> i \<and> i < range_high B ins" if "i < length B" for i
    using range_index [OF assms that, of ins] by (metis linorder_not_less order.antisym order.refl)
  then show ?thesis
    using range_le(1) [of B ins] by (auto simp: in_set_conv_nth eq) (meson less_le_trans)+
qed

lemma row_key_view:
  "view_of v xs \<Longrightarrow> i < length xs \<Longrightarrow> row_key v i = Inr (nb_key (map adjacency_neighbor xs ! i))"
  by (simp add: row_key_def neighbor_at_view)

lemma init_dup_eq:
  assumes view: "view_of v xs" and B: "B = map adjacency_neighbor xs" and srt: "sorted (map nb_key B)"
  shows "init_dup v ins d = Inr (if dup_initialized d then d
    else \<lparr>dup_base_pos = range_low B ins, dup_base_end = range_high B ins, dup_insert_pos = 0,
      dup_initialized = True\<rparr>)"
proof -
  have len: "length (view_targets v) = length B" by (simp add: B view_targets_length [OF view])
  have "bsearch (\<lambda>i. rbind (row_key v i) (\<lambda>k. Inr (k < insert_key ins))) 0 (length B) = Inr (range_low B ins)"
    using range_index(1) [OF srt] row_key_view [OF view] range_le [of B ins]
    by (intro bsearch_partition [where n = "length B"]) (auto simp: B)
  moreover have "bsearch (\<lambda>i. rbind (row_key v i) (\<lambda>k. Inr (k \<le> insert_key ins))) (range_low B ins) (length B) =
      Inr (range_high B ins)"
    using range_index(2) [OF srt] row_key_view [OF view] range_le [of B ins]
    by (intro bsearch_partition [where n = "length B"]) (auto simp: B)
  ultimately show ?thesis by (simp add: init_dup_def Let_def len)
qed

section \<open>One insert\<close>

lemma dup_base_loop_spec:
  "dup_base_loop rels rel limit e p stop = (dup, e', p') \<Longrightarrow> e \<le> limit \<Longrightarrow> p \<le> stop \<Longrightarrow>
    e' \<le> limit \<and> p' \<le> stop \<and> p \<le> p' \<and> e' - e = p' - p \<and> e \<le> e' \<and>
    (if dup then (\<exists>i. p \<le> i \<and> i < stop \<and> known_relationship rels i = rel)
     else (\<forall>i. p \<le> i \<and> i < p' \<longrightarrow> known_relationship rels i \<noteq> rel) \<and> (e' = limit \<or> p' = stop))"
proof (induction rels rel limit e p stop rule: dup_base_loop.induct)
  case (1 rels rel limit e p stop)
  show ?case
  proof (cases "e < limit \<and> p < stop")
    case go: True
    show ?thesis
    proof (cases "known_relationship rels p = rel")
      case True
      then have "dup \<and> e' = e + 1 \<and> p' = p + 1"
        using "1.prems"(1) go by (subst (asm) dup_base_loop.simps) simp
      with go True show ?thesis by auto
    next
      case False
      then have step: "dup_base_loop rels rel limit (e + 1) (p + 1) stop = (dup, e', p')"
        using "1.prems"(1) go by (subst (asm) dup_base_loop.simps) simp
      have IH: "e' \<le> limit \<and> p' \<le> stop \<and> p + 1 \<le> p' \<and> e' - (e + 1) = p' - (p + 1) \<and> e + 1 \<le> e' \<and>
          (if dup then (\<exists>i. p + 1 \<le> i \<and> i < stop \<and> known_relationship rels i = rel)
           else (\<forall>i. p + 1 \<le> i \<and> i < p' \<longrightarrow> known_relationship rels i \<noteq> rel) \<and> (e' = limit \<or> p' = stop))"
        using go by (intro "1.IH" [OF go False step]) auto
      have "known_relationship rels i \<noteq> rel" if "\<not> dup" "p \<le> i" "i < p'" for i
        using that IH False by (cases "i = p") auto
      moreover have "\<exists>i. p \<le> i \<and> i < stop \<and> known_relationship rels i = rel" if dup
      proof -
        from IH that obtain i where "p + 1 \<le> i" "i < stop" "known_relationship rels i = rel" by auto
        then show ?thesis by (intro exI [of _ i]) simp
      qed
      ultimately show ?thesis using IH by auto
    qed
  next
    case False
    then have "(dup, e', p') = (False, e, p)"
      using "1.prems"(1) by (subst (asm) dup_base_loop.simps) (simp split: if_splits)
    with False "1.prems" show ?thesis by auto
  qed
qed

lemma dup_insert_loop_spec:
  "stop \<le> length vals \<Longrightarrow> e \<le> limit \<Longrightarrow> p \<le> stop \<Longrightarrow>
    \<exists>dup' e' p'. dup_insert_loop vals ins limit dup e p stop = Inr (dup', e', p') \<and>
      e' \<le> limit \<and> p' \<le> stop \<and> p \<le> p' \<and> e' - e = p' - p \<and> e \<le> e' \<and>
      (if dup then dup' \<and> p' = p
       else if dup' then (\<exists>j. p \<le> j \<and> j < stop \<and> vals ! j = ins)
       else (\<forall>j. p \<le> j \<and> j < p' \<longrightarrow> vals ! j \<noteq> ins) \<and> (e' = limit \<or> p' = stop))"
proof (induction vals ins limit dup e p stop rule: dup_insert_loop.induct)
  case (1 vals ins limit dup e p stop)
  show ?case
  proof (cases "\<not> dup \<and> e < limit \<and> p < stop")
    case go: True
    then have x: "index_r vals p = Inr (vals ! p)" using "1.prems"(1) by simp
    from "1.IH" [OF go x] go "1.prems" obtain dup' e' p' where IH:
      "dup_insert_loop vals ins limit (vals ! p = ins) (e + 1) (p + 1) stop = Inr (dup', e', p')"
      "e' \<le> limit" "p' \<le> stop" "p + 1 \<le> p'" "e' - (e + 1) = p' - (p + 1)" "e + 1 \<le> e'"
      "if vals ! p = ins then dup' \<and> p' = p + 1
       else if dup' then (\<exists>j. p + 1 \<le> j \<and> j < stop \<and> vals ! j = ins)
       else (\<forall>j. p + 1 \<le> j \<and> j < p' \<longrightarrow> vals ! j \<noteq> ins) \<and> (e' = limit \<or> p' = stop)"
      by auto
    have eq: "dup_insert_loop vals ins limit dup e p stop = Inr (dup', e', p')"
      using go "1.prems"(1) IH(1) by (subst dup_insert_loop.simps) simp
    have d: "\<exists>j. p \<le> j \<and> j < stop \<and> vals ! j = ins" if dup'
      using IH(7) that go by (cases "vals ! p = ins") (auto dest: Suc_leD)
    have n: "(\<forall>j. p \<le> j \<and> j < p' \<longrightarrow> vals ! j \<noteq> ins) \<and> (e' = limit \<or> p' = stop)" if "\<not> dup'"
    proof -
      have ne: "vals ! p \<noteq> ins" using IH(7) that by auto
      have "vals ! j \<noteq> ins" if "p \<le> j" "j < p'" for j
        using IH(7) \<open>\<not> dup'\<close> ne that by (cases "j = p") auto
      with IH(7) that ne show ?thesis by auto
    qed
    show ?thesis
      using eq IH(2-6) d n go
      by (intro exI [of _ dup'] exI [of _ e'] exI [of _ p']) auto
  next
    case False
    then have "dup_insert_loop vals ins limit dup e p stop = Inr (dup, e, p)"
      by (subst dup_insert_loop.simps) (simp only: if_False)
    with False "1.prems" show ?thesis by auto
  qed
qed

text \<open>What an unfinished duplicate check has established so far.\<close>

definition dup_ok :: "neighbor list \<Rightarrow> overlay_insert list \<Rightarrow> nat \<Rightarrow> dup_check \<Rightarrow> bool" where
  "dup_ok B vals pos d \<longleftrightarrow>
     (dup_initialized d \<longrightarrow>
       dup_base_end d = range_high B (vals ! pos) \<and>
       range_low B (vals ! pos) \<le> dup_base_pos d \<and> dup_base_pos d \<le> dup_base_end d \<and>
       (\<forall>i. range_low B (vals ! pos) \<le> i \<and> i < dup_base_pos d \<longrightarrow>
         nb_relationship_id (B ! i) \<noteq> insert_rel (vals ! pos)) \<and>
       dup_insert_pos d \<le> pos \<and> (\<forall>j < dup_insert_pos d. vals ! j \<noteq> vals ! pos))"

definition dup_work :: "dup_check \<Rightarrow> nat" where
  "dup_work d = (if dup_initialized d then 1 + dup_base_pos d + dup_insert_pos d else 0)"

lemma dup_ok_reset [simp]: "dup_ok B vals pos dup_reset" "dup_work dup_reset = 0"
  by (simp_all add: dup_ok_def dup_reset_def dup_work_def)

lemma dup_work_bound:
  "dup_ok B vals pos d \<Longrightarrow> pos < length vals \<Longrightarrow> dup_work d < length B + length vals + 2"
  using range_le(1) [of B "vals ! pos"] by (auto simp: dup_ok_def dup_work_def)

lemma in_take_iff: "pos \<le> length xs \<Longrightarrow> x \<in> set (take pos xs) \<longleftrightarrow> (\<exists>j < pos. xs ! j = x)"
  by (auto simp: in_set_conv_nth)

lemma insert_step_spec:
  assumes view: "view_of v xs" and B: "B = map adjacency_neighbor xs" and srt: "sorted (map nb_key B)"
    and pos: "pos < length vals" and e: "e < limit" and d: "dup_ok B vals pos d"
  shows "\<exists>res e' d'. insert_step v vals limit pos e d = Inr (res, e', d') \<and> e \<le> e' \<and> e' \<le> limit \<and>
    (res = Fresh \<longrightarrow> fresh_at B vals pos \<and> e < e') \<and> (res = Duplicate \<longrightarrow> \<not> fresh_at B vals pos) \<and>
    (res = Stalled \<longrightarrow> dup_ok B vals pos d' \<and> dup_work d < dup_work d')"
proof -
  let ?ins = "vals ! pos"
  let ?lo = "range_low B ?ins" and ?hi = "range_high B ?ins"
  define d0 where "d0 = (if dup_initialized d then d
    else \<lparr>dup_base_pos = ?lo, dup_base_end = ?hi, dup_insert_pos = 0, dup_initialized = True\<rparr>)"
  have d0: "dup_initialized d0" "dup_ok B vals pos d0" "dup_work d \<le> dup_work d0"
    "dup_initialized d \<or> dup_work d < dup_work d0"
    using d range_le(2) [of B ?ins] by (auto simp: d0_def dup_ok_def dup_work_def)
  have init: "init_dup v ?ins d = Inr d0"
    using init_dup_eq [OF view B srt] by (simp add: d0_def)
  have rels: "known_relationship (view_rels v) i = nb_relationship_id (B ! i)" if "i < ?hi" for i
    using that view range_le(1) [of B ?ins]
    by (auto simp: B view_of_def view_rels_def known_relationship_map adjacency_neighbor_def
        split: prod.splits)
  have D: "dup_base_end d0 = ?hi" "?lo \<le> dup_base_pos d0" "dup_base_pos d0 \<le> ?hi" "dup_insert_pos d0 \<le> pos"
    "\<forall>i. ?lo \<le> i \<and> i < dup_base_pos d0 \<longrightarrow> nb_relationship_id (B ! i) \<noteq> insert_rel ?ins"
    "\<forall>j < dup_insert_pos d0. vals ! j \<noteq> ?ins"
    using d0(1,2) by (auto simp: dup_ok_def)
  obtain dup1 e1 p1 where l1: "dup_base_loop (view_rels v) (insert_rel ?ins) limit e (dup_base_pos d0) ?hi = (dup1, e1, p1)"
    by (metis prod_cases3)
  note L1 = dup_base_loop_spec [OF l1 less_imp_le [OF e] D(3)]
  obtain dup2 e2 p2 where l2: "dup_insert_loop vals ?ins limit dup1 e1 (dup_insert_pos d0) pos = Inr (dup2, e2, p2)"
    and L2: "e2 \<le> limit" "p2 \<le> pos" "dup_insert_pos d0 \<le> p2" "e2 - e1 = p2 - dup_insert_pos d0" "e1 \<le> e2"
      "if dup1 then dup2 \<and> p2 = dup_insert_pos d0
       else if dup2 then (\<exists>j. dup_insert_pos d0 \<le> j \<and> j < pos \<and> vals ! j = ?ins)
       else (\<forall>j. dup_insert_pos d0 \<le> j \<and> j < p2 \<longrightarrow> vals ! j \<noteq> ?ins) \<and> (e2 = limit \<or> p2 = pos)"
    using dup_insert_loop_spec [of pos vals e1 limit "dup_insert_pos d0" "?ins" dup1] pos L1 D(4) by auto
  let ?d' = "d0\<lparr>dup_base_pos := p1, dup_insert_pos := p2\<rparr>"
  have step: "insert_step v vals limit pos e d =
      (if \<not> (dup2 \<or> (p1 = ?hi \<and> p2 = pos)) then Inr (Stalled, e2, ?d')
       else if dup2 then Inr (Duplicate, e2, ?d')
       else if e2 = limit then Inr (Stalled, e2, ?d') else Inr (Fresh, e2 + 1, ?d'))"
    using pos init l1 l2 D(1) by (simp add: insert_step_def Let_def)
  have isdup: "\<not> fresh_at B vals pos" if dup2
  proof (cases dup1)
    case True
    with L1 obtain i where "dup_base_pos d0 \<le> i" "i < ?hi" "nb_relationship_id (B ! i) = insert_rel ?ins"
      using rels by auto
    with D(2) have "insert_neighbor ?ins \<in> set B"
      unfolding in_base_iff [OF srt] by (intro exI [of _ i]) simp
    then show ?thesis by (simp add: fresh_at_def)
  next
    case False
    with L2(6) that have "\<exists>j < pos. vals ! j = ?ins" by auto
    then show ?thesis using pos by (simp add: fresh_at_def in_take_iff)
  qed
  have base: "\<forall>i. ?lo \<le> i \<and> i < p1 \<longrightarrow> nb_relationship_id (B ! i) \<noteq> insert_rel ?ins" if "\<not> dup2"
  proof (intro allI impI)
    fix i assume i: "?lo \<le> i \<and> i < p1"
    have "\<not> dup1" using L2(6) that by (auto split: if_splits)
    then show "nb_relationship_id (B ! i) \<noteq> insert_rel ?ins"
      using L1 D(5) i rels [of i] by (cases "i < dup_base_pos d0") auto
  qed
  have vls: "\<forall>j < p2. vals ! j \<noteq> ?ins" if "\<not> dup2"
    using L2(6) D(6) that by (auto split: if_splits) (meson not_le_imp_less)+
  have fresh: "fresh_at B vals pos" if "\<not> dup2" "p1 = ?hi" "p2 = pos"
    using base [OF that(1)] vls [OF that(1)] that(2,3) pos
    by (auto simp: fresh_at_def in_base_iff [OF srt] in_take_iff)
  have ok: "dup_ok B vals pos ?d'" if "\<not> dup2"
    using d0(1) D(1,2) L1 L2(2,3) base [OF that] vls [OF that] by (auto simp: dup_ok_def)
  have work: "dup_work d < dup_work ?d'" if "e < e2 \<or> \<not> dup_initialized d"
    using d0 L1 L2(3,4,5) that by (auto simp: dup_work_def)
  have stall: "e2 = limit" if "\<not> dup2" "\<not> (p1 = ?hi \<and> p2 = pos) \<or> e2 = limit"
    using L1 L2(1,5,6) that by (auto split: if_splits)
  have mono: "e \<le> e2" "e2 \<le> limit" using L1 L2(1,5) by auto
  consider (dup) dup2 | (stall) "\<not> dup2" "\<not> (p1 = ?hi \<and> p2 = pos) \<or> e2 = limit"
    | (fresh) "\<not> dup2" "p1 = ?hi" "p2 = pos" "e2 \<noteq> limit" by blast
  then show ?thesis
  proof cases
    case dup
    with step have "insert_step v vals limit pos e d = Inr (Duplicate, e2, ?d')" by simp
    then show ?thesis using mono isdup [OF dup]
      by (intro exI [of _ Duplicate] exI [of _ e2] exI [of _ "?d'"]) simp
  next
    case st: stall
    from st step have "insert_step v vals limit pos e d = Inr (Stalled, e2, ?d')" by auto
    moreover have "e < e2" using stall [OF st] e by simp
    ultimately show ?thesis using mono ok [OF st(1)] work
      by (intro exI [of _ Stalled] exI [of _ e2] exI [of _ "?d'"]) simp
  next
    case fr: fresh
    from fr step have "insert_step v vals limit pos e d = Inr (Fresh, e2 + 1, ?d')" by simp
    then show ?thesis using mono fresh [OF fr(1-3)] fr(4)
      by (intro exI [of _ Fresh] exI [of _ "e2 + 1"] exI [of _ "?d'"]) simp
  qed
qed

section \<open>The loops of a page\<close>

lemma length_view: "view_of v xs \<Longrightarrow> B = map adjacency_neighbor xs \<Longrightarrow> length (view_targets v) = length B"
  by (simp add: view_targets_length)

lemma push_undeleted_eq: "push_undeleted del n out = out @ filter (\<lambda>n. \<not> is_deleted del n) [n]"
  by (simp add: push_undeleted_def)

definition undeleted :: "overlay_delete set option \<Rightarrow> neighbor list \<Rightarrow> neighbor list" where
  "undeleted del ns = filter (\<lambda>n. \<not> is_deleted del n) ns"

lemma base_loop_spec:
  assumes view: "view_of v xs" and B: "B = map adjacency_neighbor xs"
  shows "b \<le> length B \<Longrightarrow> e \<le> limit \<Longrightarrow>
    \<exists>ph e' b' items. base_loop v del limit e b out = Inr (ph, e', b', out @ items) \<and>
      undeleted del (drop b B) = items @ undeleted del (drop b' B) \<and> b \<le> b' \<and> b' \<le> length B \<and>
      e' - e = b' - b \<and> e \<le> e' \<and> e' \<le> limit \<and> length items \<le> e' - e \<and>
      (if ph then b' = length B \<and> e' < limit else e' = limit)"
proof (induction "limit - e" arbitrary: e b out)
  case 0
  then have "base_loop v del limit e b out = Inr (False, e, b, out @ [])"
    by (subst base_loop.simps) simp
  with 0 show ?case
    by (intro exI4 [of _ False e b "[]"]) simp
next
  case (Suc n)
  note len = length_view [OF view B]
  show ?case
  proof (cases "b < length B")
    case True
    let ?n = "B ! b"
    have lt: "e < limit" using Suc.hyps(2) by simp
    have at: "neighbor_at v b = Inr ?n" using True by (simp add: B neighbor_at_view [OF view])
    have eq: "base_loop v del limit e b out = base_loop v del limit (e + 1) (b + 1) (out @ undeleted del [?n])"
      using True at lt
      by (subst base_loop.simps) (simp add: len push_undeleted_eq undeleted_def)
    have n: "n = limit - (e + 1)" and b1: "b + 1 \<le> length B" and e1: "e + 1 \<le> limit"
      using Suc.hyps(2) True by simp_all
    from Suc.hyps(1) [OF n b1 e1, of "out @ undeleted del [?n]"] obtain ph e' b' items where
      IH: "base_loop v del limit (e + 1) (b + 1) (out @ undeleted del [?n]) =
          Inr (ph, e', b', (out @ undeleted del [?n]) @ items)"
        "undeleted del (drop (b + 1) B) = items @ undeleted del (drop b' B)" "b + 1 \<le> b'" "b' \<le> length B"
        "e' - (e + 1) = b' - (b + 1)" "e + 1 \<le> e'" "e' \<le> limit" "length items \<le> e' - (e + 1)"
        "if ph then b' = length B \<and> e' < limit else e' = limit"
      by blast
    have "drop b B = [?n] @ drop (b + 1) B" using True by (simp add: Cons_nth_drop_Suc)
    then have "undeleted del (drop b B) = (undeleted del [?n] @ items) @ undeleted del (drop b' B)"
      using IH(2) by (simp add: undeleted_def)
    moreover have "length (undeleted del [?n]) \<le> 1" by (simp add: undeleted_def)
    ultimately show ?thesis
      using eq IH
      by (intro exI4 [of _ ph e' b' "undeleted del [?n] @ items"])
        (cases ph; simp; arith)
  next
    case False
    then have "base_loop v del limit e b out = Inr (True, e, b, out @ [])"
      using Suc.hyps(2) by (subst base_loop.simps) (simp add: len)
    with False Suc.prems Suc.hyps(2) show ?thesis
      by (intro exI4 [of _ True e b "[]"]) simp
  qed
qed

lemma base_loop_reversed_spec:
  assumes view: "view_of v xs" and B: "B = map adjacency_neighbor xs"
  shows "b \<le> length B \<Longrightarrow> e \<le> limit \<Longrightarrow>
    \<exists>b' items. base_loop_reversed v del limit e b out = Inr (b', out @ items) \<and>
      undeleted del (drop b (rev B)) = items @ undeleted del (drop b' (rev B)) \<and> b \<le> b' \<and> b' \<le> length B \<and>
      length items \<le> limit - e \<and> (e < limit \<longrightarrow> b < b' \<or> b' = length B)"
proof (induction "limit - e" arbitrary: e b out)
  case 0
  then have "base_loop_reversed v del limit e b out = Inr (b, out @ [])"
    by (subst base_loop_reversed.simps) simp
  with 0 show ?case by (intro exI [of _ b] exI [of _ "[]"]) simp
next
  case (Suc n)
  note len = length_view [OF view B]
  show ?case
  proof (cases "b < length B")
    case True
    let ?n = "rev B ! b"
    have lt: "e < limit" using Suc.hyps(2) by simp
    have at: "neighbor_at v (length B - 1 - b) = Inr ?n"
      using True by (simp add: B neighbor_at_view [OF view] rev_nth)
    have eq: "base_loop_reversed v del limit e b out =
        base_loop_reversed v del limit (e + 1) (b + 1) (out @ undeleted del [?n])"
      using True at lt
      by (subst base_loop_reversed.simps) (simp add: len push_undeleted_eq undeleted_def)
    have n: "n = limit - (e + 1)" and b1: "b + 1 \<le> length B" and e1: "e + 1 \<le> limit"
      using Suc.hyps(2) True by simp_all
    from Suc.hyps(1) [OF n b1 e1, of "out @ undeleted del [?n]"] obtain b' items where
      IH: "base_loop_reversed v del limit (e + 1) (b + 1) (out @ undeleted del [?n]) =
          Inr (b', (out @ undeleted del [?n]) @ items)"
        "undeleted del (drop (b + 1) (rev B)) = items @ undeleted del (drop b' (rev B))"
        "b + 1 \<le> b'" "b' \<le> length B" "length items \<le> limit - (e + 1)"
      by blast
    have "drop b (rev B) = [?n] @ drop (b + 1) (rev B)" using True by (simp add: Cons_nth_drop_Suc)
    then have "undeleted del (drop b (rev B)) =
        (undeleted del [?n] @ items) @ undeleted del (drop b' (rev B))"
      using IH(2) by (simp add: undeleted_def)
    moreover have "length (undeleted del [?n]) \<le> 1" by (simp add: undeleted_def)
    ultimately show ?thesis
      using eq IH Suc.hyps(2)
      by (intro exI [of _ b'] exI [of _ "undeleted del [?n] @ items"]) auto
  next
    case False
    then have "base_loop_reversed v del limit e b out = Inr (b, out @ [])"
      by (subst base_loop_reversed.simps) (simp add: len)
    with False Suc.prems show ?thesis by (intro exI [of _ b] exI [of _ "[]"]) simp
  qed
qed

text \<open>Work left in the insert phase: full work per insert, less what the current check has done.\<close>

definition insert_work :: "neighbor list \<Rightarrow> overlay_insert list \<Rightarrow> nat \<Rightarrow> dup_check \<Rightarrow> nat" where
  "insert_work B vals r d = r * (length B + length vals + 2) - (if r = 0 then 0 else dup_work d)"

lemma insert_work_step:
  assumes "dup_ok B vals p d" "p < length vals"
  shows "insert_work B vals r dup_reset < insert_work B vals (Suc r) d"
  using dup_work_bound [OF assms] by (simp add: insert_work_def)

lemma insert_work_stall:
  assumes "dup_ok B vals p d'" "p < length vals" "dup_work d < dup_work d'"
  shows "insert_work B vals (Suc r) d' < insert_work B vals (Suc r) d"
  using dup_work_bound [OF assms(1,2)] assms(3) by (simp add: insert_work_def)

lemma insert_loop_spec:
  assumes view: "view_of v xs" and B: "B = map adjacency_neighbor xs" and srt: "sorted (map nb_key B)"
  shows "p \<le> length vals \<Longrightarrow> p < length vals \<longrightarrow> dup_ok B vals p d \<Longrightarrow> e \<le> limit \<Longrightarrow>
    \<exists>p' d' items. insert_loop v (Some vals) limit e p d out = Inr (p', d', out @ items) \<and>
      pending B vals False p = items @ pending B vals False p' \<and> p \<le> p' \<and> p' \<le> length vals \<and>
      (p' < length vals \<longrightarrow> dup_ok B vals p' d') \<and> length items \<le> limit - e \<and>
      insert_work B vals (length vals - p') d' \<le> insert_work B vals (length vals - p) d \<and>
      (e < limit \<and> p < length vals \<longrightarrow>
        insert_work B vals (length vals - p') d' < insert_work B vals (length vals - p) d)"
proof (induction "length vals - p" arbitrary: p d e out)
  case 0
  then have "insert_loop v (Some vals) limit e p d out = Inr (p, d, out @ [])"
    by (subst insert_loop.simps) simp
  with 0 show ?case by (intro exI [of _ p] exI [of _ d] exI [of _ "[]"]) simp
next
  case (Suc n)
  then have p: "p < length vals" and d: "dup_ok B vals p d" by auto
  let ?r = "length vals - Suc p"
  have r: "length vals - p = Suc ?r" using p by simp
  show ?case
  proof (cases "e < limit")
    case False
    then have "insert_loop v (Some vals) limit e p d out = Inr (p, d, out @ [])"
      by (subst insert_loop.simps) simp
    with False Suc.prems show ?thesis by (intro exI [of _ p] exI [of _ d] exI [of _ "[]"]) simp
  next
    case True
    from insert_step_spec [OF view B srt p True d] obtain res e1 d1 where
      st: "insert_step v vals limit p e d = Inr (res, e1, d1)" "e \<le> e1" "e1 \<le> limit"
        "res = Fresh \<longrightarrow> fresh_at B vals p \<and> e < e1" "res = Duplicate \<longrightarrow> \<not> fresh_at B vals p"
        "res = Stalled \<longrightarrow> dup_ok B vals p d1 \<and> dup_work d < dup_work d1"
      by blast
    have n: "n = length vals - Suc p" and ok: "Suc p < length vals \<longrightarrow> dup_ok B vals (Suc p) dup_reset"
      using Suc.hyps(2) by simp_all
    note IH = Suc.hyps(1) [OF n Suc_leI [OF p] ok st(3)]
    show ?thesis
    proof (cases res)
      case Stalled
      then have "insert_loop v (Some vals) limit e p d out = Inr (p, d1, out @ [])"
        using True p st(1) by (subst insert_loop.simps) simp
      with Stalled st p insert_work_stall [of B vals p d1 d "?r"] show ?thesis
        by (intro exI [of _ p] exI [of _ d1] exI [of _ "[]"]) (simp add: r)
    next
      case Duplicate
      then have eq: "insert_loop v (Some vals) limit e p d out =
          insert_loop v (Some vals) limit e1 (Suc p) dup_reset out"
        using True p st(1) by (subst insert_loop.simps) simp
      from IH [of out] obtain p' d' items where
        "insert_loop v (Some vals) limit e1 (Suc p) dup_reset out = Inr (p', d', out @ items)"
        "pending B vals False (Suc p) = items @ pending B vals False p'" "Suc p \<le> p'" "p' \<le> length vals"
        "p' < length vals \<longrightarrow> dup_ok B vals p' d'" "length items \<le> limit - e1"
        "insert_work B vals (length vals - p') d' \<le> insert_work B vals ?r dup_reset"
        by blast
      with eq Duplicate st p insert_work_step [OF d p, of "?r"] pending_step(1) [OF p, of B] show ?thesis
        by (intro exI [of _ p'] exI [of _ d'] exI [of _ items]) (simp add: r)
    next
      case Fresh
      let ?x = "insert_neighbor (vals ! p)"
      have eq: "insert_loop v (Some vals) limit e p d out =
          insert_loop v (Some vals) limit e1 (Suc p) dup_reset (out @ [?x])"
        using True p st(1) Fresh by (subst insert_loop.simps) simp
      from IH [of "out @ [?x]"] obtain p' d' items where
        "insert_loop v (Some vals) limit e1 (Suc p) dup_reset (out @ [?x]) = Inr (p', d', (out @ [?x]) @ items)"
        "pending B vals False (Suc p) = items @ pending B vals False p'" "Suc p \<le> p'" "p' \<le> length vals"
        "p' < length vals \<longrightarrow> dup_ok B vals p' d'" "length items \<le> limit - e1"
        "insert_work B vals (length vals - p') d' \<le> insert_work B vals ?r dup_reset"
        by blast
      with eq Fresh st p insert_work_step [OF d p, of "?r"] pending_step(1) [OF p, of B] show ?thesis
        by (intro exI [of _ p'] exI [of _ d'] exI [of _ "?x # items"]) (auto simp: r)
    qed
  qed
qed

lemma insert_loop_reversed_spec:
  assumes view: "view_of v xs" and B: "B = map adjacency_neighbor xs" and srt: "sorted (map nb_key B)"
  shows "r \<le> length vals \<Longrightarrow> 0 < r \<longrightarrow> dup_ok B vals (r - 1) d \<Longrightarrow> e \<le> limit \<Longrightarrow>
    \<exists>ph e' r' d' items. insert_loop_reversed v vals limit e (length vals - r) d out =
        Inr (ph, e', length vals - r', d', out @ items) \<and>
      pending B vals True r = items @ pending B vals True r' \<and> r' \<le> r \<and>
      (0 < r' \<longrightarrow> dup_ok B vals (r' - 1) d') \<and> length items \<le> e' - e \<and> e \<le> e' \<and> e' \<le> limit \<and>
      insert_work B vals r' d' \<le> insert_work B vals r d \<and>
      (if ph then r' = 0 \<and> e' < limit
       else e < limit \<longrightarrow> 0 < r \<and> insert_work B vals r' d' < insert_work B vals r d)"
proof (induction r arbitrary: d e out)
  case 0
  show ?case
  proof (cases "e < limit")
    case True
    then have "insert_loop_reversed v vals limit e (length vals - 0) d out = Inr (True, e, length vals - 0, d, out @ [])"
      by (subst insert_loop_reversed.simps) simp
    with True show ?thesis
      by (intro exI5 [of _ True e 0 d "[]"]) simp
  next
    case False
    then have "insert_loop_reversed v vals limit e (length vals - 0) d out = Inr (False, e, length vals - 0, d, out @ [])"
      by (subst insert_loop_reversed.simps) simp
    with False 0 show ?thesis
      by (intro exI5 [of _ False e 0 d "[]"]) simp
  qed
next
  case (Suc r)
  then have p: "r < length vals" and d: "dup_ok B vals r d" by auto
  have pos: "length vals - 1 - (length vals - Suc r) = r" "\<not> length vals \<le> length vals - Suc r"
    "length vals - Suc r + 1 = length vals - r"
    using p by auto
  show ?case
  proof (cases "e < limit")
    case False
    then have "insert_loop_reversed v vals limit e (length vals - Suc r) d out =
        Inr (False, e, length vals - Suc r, d, out @ [])"
      by (subst insert_loop_reversed.simps) simp
    with False Suc.prems show ?thesis
      by (intro exI5 [of _ False e "Suc r" d "[]"]) simp
  next
    case True
    from insert_step_spec [OF view B srt p True d] obtain res e1 d1 where
      st: "insert_step v vals limit r e d = Inr (res, e1, d1)" "e \<le> e1" "e1 \<le> limit"
        "res = Fresh \<longrightarrow> fresh_at B vals r \<and> e < e1" "res = Duplicate \<longrightarrow> \<not> fresh_at B vals r"
        "res = Stalled \<longrightarrow> dup_ok B vals r d1 \<and> dup_work d < dup_work d1"
      by blast
    note unfold = insert_loop_reversed.simps [of v vals limit e "length vals - Suc r" d out]
    have ok: "0 < r \<longrightarrow> dup_ok B vals (r - 1) dup_reset" by simp
    note IH = Suc.IH [OF less_imp_le [OF p] ok st(3)]
    show ?thesis
    proof (cases res)
      case Stalled
      then have "insert_loop_reversed v vals limit e (length vals - Suc r) d out =
          Inr (False, e1, length vals - Suc r, d1, out @ [])"
        using True st(1) pos(1,2) unfolding unfold Let_def pos(1) by simp
      with Stalled st p insert_work_stall [of B vals r d1 d r] show ?thesis
        by (intro exI5 [of _ False e1 "Suc r" d1 "[]"]) simp
    next
      case Duplicate
      then have eq: "insert_loop_reversed v vals limit e (length vals - Suc r) d out =
          insert_loop_reversed v vals limit e1 (length vals - r) dup_reset out"
        using True st(1) pos(2) unfolding unfold Let_def pos(1,3) by simp
      from IH [of out] obtain ph e' r' d' items where
        "insert_loop_reversed v vals limit e1 (length vals - r) dup_reset out =
          Inr (ph, e', length vals - r', d', out @ items)"
        "pending B vals True r = items @ pending B vals True r'" "r' \<le> r"
        "0 < r' \<longrightarrow> dup_ok B vals (r' - 1) d'" "length items \<le> e' - e1" "e1 \<le> e'" "e' \<le> limit"
        "insert_work B vals r' d' \<le> insert_work B vals r dup_reset"
        "if ph then r' = 0 \<and> e' < limit
         else e1 < limit \<longrightarrow> 0 < r \<and> insert_work B vals r' d' < insert_work B vals r dup_reset"
        by blast
      with eq Duplicate st p insert_work_step [OF d p, of r] pending_step(2) [of B vals r] show ?thesis
        by (intro exI5 [of _ ph e' r' d' items])
          (cases ph; simp)
    next
      case Fresh
      let ?x = "insert_neighbor (vals ! r)"
      have eq: "insert_loop_reversed v vals limit e (length vals - Suc r) d out =
          insert_loop_reversed v vals limit e1 (length vals - r) dup_reset (out @ [?x])"
        using True st(1) pos(2) Fresh unfolding unfold Let_def pos(1,3) by simp
      from IH [of "out @ [?x]"] obtain ph e' r' d' items where
        "insert_loop_reversed v vals limit e1 (length vals - r) dup_reset (out @ [?x]) =
          Inr (ph, e', length vals - r', d', (out @ [?x]) @ items)"
        "pending B vals True r = items @ pending B vals True r'" "r' \<le> r"
        "0 < r' \<longrightarrow> dup_ok B vals (r' - 1) d'" "length items \<le> e' - e1" "e1 \<le> e'" "e' \<le> limit"
        "insert_work B vals r' d' \<le> insert_work B vals r dup_reset"
        "if ph then r' = 0 \<and> e' < limit
         else e1 < limit \<longrightarrow> 0 < r \<and> insert_work B vals r' d' < insert_work B vals r dup_reset"
        by blast
      with eq Fresh st p insert_work_step [OF d p, of r] pending_step(2) [of B vals r] show ?thesis
        by (intro exI5 [of _ ph e' r' d' "?x # items"])
          (cases ph; auto)
    qed
  qed
qed

section \<open>Overlay pages\<close>

type_synonym overlay_source = "edge_store \<times> overlay_inserts \<times> overlay_deletes \<times> u32"

fun overlay_stream :: "overlay_source \<Rightarrow> neighbor list" where
  "overlay_stream (st, ins, del, i) = overlay_spec (base_neighbors st i) (ins i) (del i)"

text \<open>The rows are in the key order of the bulk builders: the binary search relies on it.\<close>

fun overlay_source_ok :: "overlay_source \<Rightarrow> bool" where
  "overlay_source_ok (st, ins, del, i) \<longleftrightarrow> store_ok st \<and> sorted (map nb_key (base_neighbors st i))"

fun overlay_pages_fill ::
  "overlay_source \<Rightarrow> owned_neighbor_cursor \<Rightarrow> usize \<Rightarrow> neighbor list \<Rightarrow> neighbor filled_page graph_result" where
  "overlay_pages_fill (st, ins, del, i) = overlay_fill st ins del i"

fun overlay_pages_fill_reversed ::
  "overlay_source \<Rightarrow> owned_neighbor_cursor \<Rightarrow> usize \<Rightarrow> neighbor list \<Rightarrow> neighbor filled_page graph_result" where
  "overlay_pages_fill_reversed (st, ins, del, i) = overlay_fill_reversed st ins del i"

definition overlay_parts :: "owned_neighbor_cursor \<Rightarrow> usize \<times> usize \<times> bool \<times> dup_check" where
  "overlay_parts c = (case c of OverlayPos b p ph d \<Rightarrow> (b, p, ph, d) | _ \<Rightarrow> (0, 0, False, dup_reset))"

definition overlay_parts_reversed :: "owned_neighbor_cursor \<Rightarrow> usize \<times> usize \<times> bool \<times> dup_check" where
  "overlay_parts_reversed c =
     (case c of OverlayReverse b p ph d \<Rightarrow> (b, p, ph, d) | _ \<Rightarrow> (0, 0, False, dup_reset))"

definition parts_left ::
  "neighbor list \<Rightarrow> overlay_insert list \<Rightarrow> overlay_delete set option \<Rightarrow> usize \<times> usize \<times> bool \<times> dup_check \<Rightarrow>
    neighbor list \<Rightarrow> bool" where
  "parts_left B vals del parts rest \<longleftrightarrow>
     (case parts of (b, p, ph, d) \<Rightarrow>
        b \<le> length B \<and> p \<le> length vals \<and> (if ph then b = length B else p = 0 \<and> d = dup_reset) \<and>
        (p < length vals \<longrightarrow> dup_ok B vals p d) \<and>
        rest = undeleted del (drop b B) @ pending B vals False p)"

definition parts_left_reversed ::
  "neighbor list \<Rightarrow> overlay_insert list \<Rightarrow> overlay_delete set option \<Rightarrow> usize \<times> usize \<times> bool \<times> dup_check \<Rightarrow>
    neighbor list \<Rightarrow> bool" where
  "parts_left_reversed B vals del parts rest \<longleftrightarrow>
     (case parts of (b, p, ph, d) \<Rightarrow>
        b \<le> length B \<and> p \<le> length vals \<and> (if ph then p = length vals else b = 0) \<and>
        (p < length vals \<longrightarrow> dup_ok B vals (length vals - 1 - p) d) \<and>
        rest = pending B vals True (length vals - p) @ undeleted del (drop b (rev B)))"

definition parts_work ::
  "neighbor list \<Rightarrow> overlay_insert list \<Rightarrow> usize \<times> usize \<times> bool \<times> dup_check \<Rightarrow> nat" where
  "parts_work B vals parts =
     (case parts of (b, p, ph, d) \<Rightarrow>
        (length B - b) + (if ph then 0 else 1) + insert_work B vals (length vals - p) d)"

definition no_overlay :: "overlay_source \<Rightarrow> bool" where
  "no_overlay s = (case s of (st, ins, del, i) \<Rightarrow> ins i = None \<and> del i = None)"

fun overlay_left :: "overlay_source \<Rightarrow> owned_neighbor_cursor \<Rightarrow> neighbor list \<Rightarrow> bool" where
  "overlay_left (st, ins, del, i) c rest =
     (if no_overlay (st, ins, del, i) then csr_left (st, i) c rest
      else parts_left (base_neighbors st i) (opt_get_or [] (ins i)) (del i) (overlay_parts c) rest)"

fun overlay_left_reversed :: "overlay_source \<Rightarrow> owned_neighbor_cursor \<Rightarrow> neighbor list \<Rightarrow> bool" where
  "overlay_left_reversed (st, ins, del, i) c rest =
     (if no_overlay (st, ins, del, i) then csr_left_reversed (st, i) c rest
      else parts_left_reversed (base_neighbors st i) (opt_get_or [] (ins i)) (del i)
        (overlay_parts_reversed c) rest)"

fun overlay_work :: "overlay_source \<Rightarrow> owned_neighbor_cursor \<Rightarrow> nat" where
  "overlay_work (st, ins, del, i) c =
     (if no_overlay (st, ins, del, i) then csr_work (st, i) c
      else parts_work (base_neighbors st i) (opt_get_or [] (ins i)) (overlay_parts c))"

fun overlay_work_reversed :: "overlay_source \<Rightarrow> owned_neighbor_cursor \<Rightarrow> nat" where
  "overlay_work_reversed (st, ins, del, i) c =
     (if no_overlay (st, ins, del, i) then csr_work (st, i) c
      else parts_work (base_neighbors st i) (opt_get_or [] (ins i)) (overlay_parts_reversed c))"

lemma insert_loop_opt:
  assumes "view_of v xs" and "B = map adjacency_neighbor xs" and "sorted (map nb_key B)"
    and vals: "vals = opt_get_or [] inserted"
    and "p \<le> length vals" and "p < length vals \<longrightarrow> dup_ok B vals p d" and "e \<le> limit"
  shows "\<exists>p' d' items. insert_loop v inserted limit e p d out = Inr (p', d', out @ items) \<and>
      pending B vals False p = items @ pending B vals False p' \<and> p \<le> p' \<and> p' \<le> length vals \<and>
      (p' < length vals \<longrightarrow> dup_ok B vals p' d') \<and> length items \<le> limit - e \<and>
      insert_work B vals (length vals - p') d' \<le> insert_work B vals (length vals - p) d \<and>
      (e < limit \<and> p < length vals \<longrightarrow>
        insert_work B vals (length vals - p') d' < insert_work B vals (length vals - p) d)"
proof (cases inserted)
  case None
  then have "insert_loop v inserted limit e p d out = Inr (p, d, out @ [])"
    by (subst insert_loop.simps) simp
  with assms None show ?thesis by (intro exI [of _ p] exI [of _ d] exI [of _ "[]"]) simp
next
  case (Some ins)
  with insert_loop_spec [OF assms(1-3), of p ins d e limit out] assms show ?thesis by simp
qed

lemma overlay_page:
  assumes ok: "overlay_source_ok (st, ins, del, i)" and over: "\<not> no_overlay (st, ins, del, i)"
    and left: "overlay_left (st, ins, del, i) c rest"
  shows "\<exists>fin c' items rest'. overlay_fill st ins del i c limit [] = Inr (fin, c', items) \<and>
    rest = items @ rest' \<and> overlay_left (st, ins, del, i) c' rest' \<and> length items \<le> limit \<and>
    (fin \<longrightarrow> rest' = []) \<and>
    (0 < limit \<longrightarrow> fin \<or> overlay_work (st, ins, del, i) c' < overlay_work (st, ins, del, i) c)"
proof -
  let ?B = "base_neighbors st i" and ?vals = "opt_get_or [] (ins i)"
  let ?xs = "node_rows (store_arrays st) i"
  obtain v where v: "neighbors_with_schema_and_relationship_ids st i = Inr v" "view_of v ?xs"
    using store_node_view [of st i] ok by auto
  have B: "?B = map adjacency_neighbor ?xs" by (simp add: base_neighbors_def)
  have srt: "sorted (map nb_key ?B)" using ok by simp
  have none: "(ins i = None \<and> del i = None) = False" using over by (auto simp: no_overlay_def)
  obtain b p ph d where parts: "overlay_parts c = (b, p, ph, d)" by (metis prod_cases4)
  have L: "b \<le> length ?B" "p \<le> length ?vals" "if ph then b = length ?B else p = 0 \<and> d = dup_reset"
    "p < length ?vals \<longrightarrow> dup_ok ?B ?vals p d" "rest = undeleted (del i) (drop b ?B) @ pending ?B ?vals False p"
    using left over parts by (auto simp: parts_left_def)
  obtain ph1 e1 b1 items1 where l1:
    "(if ph then Inr (True, 0, b, []) else base_loop v (del i) limit 0 b []) = Inr (ph1, e1, b1, items1)"
    "undeleted (del i) (drop b ?B) = items1 @ undeleted (del i) (drop b1 ?B)" "b \<le> b1" "b1 \<le> length ?B"
    "e1 \<le> limit" "length items1 \<le> e1" "if ph1 then b1 = length ?B else e1 = limit \<and> \<not> ph"
    "0 < limit \<and> \<not> ph1 \<longrightarrow> b < b1" "ph1 \<longrightarrow> e1 < limit \<or> ph"
  proof (cases ph)
    case True
    with L(3) that [of True 0 b "[]"] show ?thesis by simp
  next
    case False
    from base_loop_spec [OF v(2) B L(1) le0, where del = "del i" and limit = limit and out = "[]"]
    obtain ph' e' b' items where "base_loop v (del i) limit 0 b [] = Inr (ph', e', b', [] @ items)"
      "undeleted (del i) (drop b ?B) = items @ undeleted (del i) (drop b' ?B)" "b \<le> b'" "b' \<le> length ?B"
      "e' - 0 = b' - b" "e' \<le> limit" "length items \<le> e' - 0"
      "if ph' then b' = length ?B \<and> e' < limit else e' = limit" by blast
    with False that [of ph' e' b' items] show ?thesis by (cases ph') auto
  qed
  show ?thesis
  proof (cases ph1)
    case True
    then have b1: "b1 = length ?B" using l1(7) by simp
    from insert_loop_opt [OF v(2) B srt refl L(2,4) l1(5), of items1] obtain p' d' items2 where
      l2: "insert_loop v (ins i) limit e1 p d items1 = Inr (p', d', items1 @ items2)"
        "pending ?B ?vals False p = items2 @ pending ?B ?vals False p'" "p \<le> p'" "p' \<le> length ?vals"
        "p' < length ?vals \<longrightarrow> dup_ok ?B ?vals p' d'" "length items2 \<le> limit - e1"
        "insert_work ?B ?vals (length ?vals - p') d' \<le> insert_work ?B ?vals (length ?vals - p) d"
        "e1 < limit \<and> p < length ?vals \<longrightarrow>
          insert_work ?B ?vals (length ?vals - p') d' < insert_work ?B ?vals (length ?vals - p) d"
      by blast
    have fill: "overlay_fill st ins del i c limit [] =
        Inr (p' \<ge> length ?vals, OverlayPos b1 p' True d', items1 @ items2)"
      using v(1) parts l1(1) l2(1) True
      by (simp add: overlay_fill_def none overlay_parts_def [symmetric])
    have work: "0 < limit \<longrightarrow> p' \<ge> length ?vals \<or>
        parts_work ?B ?vals (b1, p', True, d') < parts_work ?B ?vals (b, p, ph, d)"
    proof (cases ph)
      case True
      have "limit = 0 \<or> e1 < limit" using l1(1) True by auto
      with True l1(3) L(3) b1 l2(3,8) show ?thesis by (auto simp: parts_work_def)
    next
      case False
      with l2(7) b1 show ?thesis by (simp add: parts_work_def)
    qed
    have "overlay_left (st, ins, del, i) (OverlayPos b1 p' True d')
        (undeleted (del i) (drop b1 ?B) @ pending ?B ?vals False p')"
      using over b1 l2(4,5) by (simp add: parts_left_def overlay_parts_def)
    moreover have "p' \<ge> length ?vals \<Longrightarrow> pending ?B ?vals False p' = []"
      using l2(4) pending_step(3) by (metis le_antisym)
    ultimately show ?thesis
      using fill work L(5) l1(2,5,6) l2(2,6) b1 over parts
      by (intro exI4 [of _ "p' \<ge> length ?vals" "OverlayPos b1 p' True d'" "items1 @ items2"
            "undeleted (del i) (drop b1 ?B) @ pending ?B ?vals False p'"])
        (auto simp: overlay_parts_def undeleted_def)
  next
    case False
    then have ph: "\<not> ph" and e1: "e1 = limit" using l1(7) by auto
    have fill: "overlay_fill st ins del i c limit [] = Inr (False, OverlayPos b1 p False d, items1)"
      using v(1) parts l1(1) False
      by (simp add: overlay_fill_def none overlay_parts_def [symmetric])
    have "overlay_left (st, ins, del, i) (OverlayPos b1 p False d)
        (undeleted (del i) (drop b1 ?B) @ pending ?B ?vals False p)"
      using over l1(4) L ph by (simp add: parts_left_def overlay_parts_def)
    moreover have "0 < limit \<longrightarrow> parts_work ?B ?vals (b1, p, False, d) < parts_work ?B ?vals (b, p, ph, d)"
      using l1(4,8) False ph by (auto simp: parts_work_def)
    ultimately show ?thesis
      using fill L(5) l1(2,6) e1 over parts
      by (intro exI4 [of _ False "OverlayPos b1 p False d" items1
            "undeleted (del i) (drop b1 ?B) @ pending ?B ?vals False p"])
        (auto simp: overlay_parts_def)
  qed
qed

interpretation overlay_pages: paged_stream
  overlay_pages_fill overlay_source_ok overlay_stream overlay_left overlay_work
proof
  fix s assume ok: "overlay_source_ok s"
  obtain st ins del i where s: "s = (st, ins, del, i)" by (metis prod_cases4)
  have "overlay_stream s = undeleted (del i) (base_neighbors st i) @
      pending (base_neighbors st i) (opt_get_or [] (ins i)) False 0"
    by (simp add: s overlay_spec_def undeleted_def pending_all)
  moreover have "overlay_stream s = base_neighbors st i" if "no_overlay s"
    using that by (simp add: s no_overlay_def overlay_spec_def is_deleted_def fresh_inserts_def)
  ultimately show "overlay_left s Start (overlay_stream s)"
    by (auto simp: s csr_left_def parts_left_def overlay_parts_def)
next
  fix s c rest limit
  assume ok: "overlay_source_ok s" and left: "overlay_left s c rest"
  obtain st ins del i where s: "s = (st, ins, del, i)" by (metis prod_cases4)
  show "\<exists>fin c' items rest'. overlay_pages_fill s c limit [] = Inr (fin, c', items) \<and>
      rest = items @ rest' \<and> overlay_left s c' rest' \<and> length items \<le> limit \<and> (fin \<longrightarrow> rest' = []) \<and>
      (0 < limit \<longrightarrow> fin \<or> overlay_work s c' < overlay_work s c)"
  proof (cases "no_overlay s")
    case True
    then have "overlay_pages_fill s c limit [] = csr_fill st i c limit []"
      by (simp add: s overlay_fill_def no_overlay_def)
    with csr_pages.page [of "(st, i)" c rest limit] ok left True show ?thesis by (simp add: s)
  next
    case False
    with overlay_page [of st ins del i c rest limit] ok left show ?thesis by (simp add: s)
  qed
qed

lemma overlay_page_reversed:
  assumes ok: "overlay_source_ok (st, ins, del, i)" and over: "\<not> no_overlay (st, ins, del, i)"
    and left: "overlay_left_reversed (st, ins, del, i) c rest"
  shows "\<exists>fin c' items rest'. overlay_fill_reversed st ins del i c limit [] = Inr (fin, c', items) \<and>
    rest = items @ rest' \<and> overlay_left_reversed (st, ins, del, i) c' rest' \<and> length items \<le> limit \<and>
    (fin \<longrightarrow> rest' = []) \<and>
    (0 < limit \<longrightarrow> fin \<or>
      overlay_work_reversed (st, ins, del, i) c' < overlay_work_reversed (st, ins, del, i) c)"
proof -
  let ?B = "base_neighbors st i" and ?vals = "opt_get_or [] (ins i)"
  let ?xs = "node_rows (store_arrays st) i"
  obtain v where v: "neighbors_with_schema_and_relationship_ids st i = Inr v" "view_of v ?xs"
    using store_node_view [of st i] ok by auto
  have B: "?B = map adjacency_neighbor ?xs" by (simp add: base_neighbors_def)
  have len: "length (view_targets v) = length ?B" by (rule length_view [OF v(2) B])
  have srt: "sorted (map nb_key ?B)" using ok by simp
  have none: "(ins i = None \<and> del i = None) = False" using over by (auto simp: no_overlay_def)
  obtain b p ph d where parts: "overlay_parts_reversed c = (b, p, ph, d)" by (metis prod_cases4)
  let ?r = "length ?vals - p"
  have L: "b \<le> length ?B" "p \<le> length ?vals" "if ph then p = length ?vals else b = 0"
    "p < length ?vals \<longrightarrow> dup_ok ?B ?vals (length ?vals - 1 - p) d"
    "rest = pending ?B ?vals True ?r @ undeleted (del i) (drop b (rev ?B))"
    using left over parts by (auto simp: parts_left_reversed_def)
  have p: "length ?vals - ?r = p" using L(2) by simp
  have dok: "0 < ?r \<longrightarrow> dup_ok ?B ?vals (?r - 1) d" using L(4) by (auto simp: diff_commute)
  obtain ph1 e1 r1 d1 items1 where l1:
    "(if ph then Inr (True, 0, p, d, []) else insert_loop_reversed v ?vals limit 0 p d []) =
      Inr (ph1, e1, length ?vals - r1, d1, items1)"
    "pending ?B ?vals True ?r = items1 @ pending ?B ?vals True r1" "r1 \<le> ?r"
    "0 < r1 \<longrightarrow> dup_ok ?B ?vals (r1 - 1) d1" "length items1 \<le> e1" "e1 \<le> limit"
    "insert_work ?B ?vals r1 d1 \<le> insert_work ?B ?vals ?r d"
    "if ph1 then r1 = 0 \<and> (ph \<and> e1 = 0 \<or> e1 < limit)
     else \<not> ph \<and> (0 < limit \<longrightarrow> insert_work ?B ?vals r1 d1 < insert_work ?B ?vals ?r d)"
  proof (cases ph)
    case True
    with L(2,3) that [of True 0 0 d "[]"] show ?thesis by simp
  next
    case False
    from insert_loop_reversed_spec [OF v(2) B srt diff_le_self dok le0, where limit = limit and out = "[]"]
    obtain ph' e' r' d' items where
      "insert_loop_reversed v ?vals limit 0 (length ?vals - ?r) d [] =
        Inr (ph', e', length ?vals - r', d', [] @ items)"
      "pending ?B ?vals True ?r = items @ pending ?B ?vals True r'" "r' \<le> ?r"
      "0 < r' \<longrightarrow> dup_ok ?B ?vals (r' - 1) d'" "length items \<le> e' - 0" "0 \<le> e'" "e' \<le> limit"
      "insert_work ?B ?vals r' d' \<le> insert_work ?B ?vals ?r d"
      "if ph' then r' = 0 \<and> e' < limit
       else 0 < limit \<longrightarrow> 0 < ?r \<and> insert_work ?B ?vals r' d' < insert_work ?B ?vals ?r d"
      by blast
    with False that [of ph' e' r' d' items] p show ?thesis by (cases ph') auto
  qed
  show ?thesis
  proof (cases ph1)
    case True
    then have r1: "r1 = 0" using l1(8) by simp
    from base_loop_reversed_spec [OF v(2) B L(1) l1(6), where del = "del i" and out = items1]
    obtain b' items2 where
      l2: "base_loop_reversed v (del i) limit e1 b items1 = Inr (b', items1 @ items2)"
        "undeleted (del i) (drop b (rev ?B)) = items2 @ undeleted (del i) (drop b' (rev ?B))"
        "b \<le> b'" "b' \<le> length ?B" "length items2 \<le> limit - e1" "e1 < limit \<longrightarrow> b < b' \<or> b' = length ?B"
      by blast
    have fill: "overlay_fill_reversed st ins del i c limit [] =
        Inr (b' \<ge> length ?B, OverlayReverse b' (length ?vals) True d1, items1 @ items2)"
      using v(1) parts l1(1) l2(1) True r1
      by (simp add: overlay_fill_reversed_def none overlay_parts_reversed_def [symmetric] len)
    have "overlay_left_reversed (st, ins, del, i) (OverlayReverse b' (length ?vals) True d1)
        (undeleted (del i) (drop b' (rev ?B)))"
      using over l2(4) by (simp add: parts_left_reversed_def overlay_parts_reversed_def pending_step(4))
    moreover have "0 < limit \<longrightarrow> b' \<ge> length ?B \<or>
        parts_work ?B ?vals (b', length ?vals, True, d1) < parts_work ?B ?vals (b, p, ph, d)"
    proof (cases ph)
      case True
      then show ?thesis using l1(7,8) l2(3,4,6) L(3) r1 \<open>ph1\<close> by (auto simp: parts_work_def insert_work_def)
    next
      case False
      then show ?thesis using l1(7) l2(3) r1 by (auto simp: parts_work_def)
    qed
    moreover have "pending ?B ?vals True ?r = items1" using l1(2) r1 by (simp add: pending_step(4))
    ultimately show ?thesis
      using fill L(5) l2(2,5) l1(5,6) over parts
      by (intro exI4 [of _ "b' \<ge> length ?B" "OverlayReverse b' (length ?vals) True d1" "items1 @ items2"
            "undeleted (del i) (drop b' (rev ?B))"])
        (auto simp: overlay_parts_reversed_def undeleted_def)
  next
    case False
    then have ph: "\<not> ph" and b: "b = 0" using l1(8) L(3) by auto
    have r1: "r1 \<le> length ?vals" using l1(3) by simp
    have fill: "overlay_fill_reversed st ins del i c limit [] =
        Inr (False, OverlayReverse b (length ?vals - r1) False d1, items1)"
      using v(1) parts l1(1) False
      by (simp add: overlay_fill_reversed_def none overlay_parts_reversed_def [symmetric])
    have "overlay_left_reversed (st, ins, del, i) (OverlayReverse b (length ?vals - r1) False d1)
        (pending ?B ?vals True r1 @ undeleted (del i) (drop b (rev ?B)))"
      using over l1(4) b r1 by (auto simp: parts_left_reversed_def overlay_parts_reversed_def diff_commute)
    moreover have "0 < limit \<longrightarrow> parts_work ?B ?vals (b, length ?vals - r1, False, d1) <
        parts_work ?B ?vals (b, p, ph, d)"
      using l1(8) False ph r1 by (auto simp: parts_work_def)
    ultimately show ?thesis
      using fill L(5) l1(2,5,6) over parts
      by (intro exI4 [of _ False "OverlayReverse b (length ?vals - r1) False d1" items1
            "pending ?B ?vals True r1 @ undeleted (del i) (drop b (rev ?B))"])
        (auto simp: overlay_parts_reversed_def)
  qed
qed

interpretation overlay_pages_reversed: paged_stream
  overlay_pages_fill_reversed overlay_source_ok "\<lambda>s. rev (overlay_stream s)"
  overlay_left_reversed overlay_work_reversed
proof
  fix s assume ok: "overlay_source_ok s"
  obtain st ins del i where s: "s = (st, ins, del, i)" by (metis prod_cases4)
  have "rev (overlay_stream s) =
      pending (base_neighbors st i) (opt_get_or [] (ins i)) True (length (opt_get_or [] (ins i))) @
      undeleted (del i) (rev (base_neighbors st i))"
    by (simp add: s overlay_spec_def undeleted_def pending_all rev_filter)
  moreover have "overlay_stream s = base_neighbors st i" if "no_overlay s"
    using that by (simp add: s no_overlay_def overlay_spec_def is_deleted_def fresh_inserts_def)
  ultimately show "overlay_left_reversed s Start (rev (overlay_stream s))"
    by (auto simp: s csr_left_reversed_def parts_left_reversed_def overlay_parts_reversed_def)
next
  fix s c rest limit
  assume ok: "overlay_source_ok s" and left: "overlay_left_reversed s c rest"
  obtain st ins del i where s: "s = (st, ins, del, i)" by (metis prod_cases4)
  show "\<exists>fin c' items rest'. overlay_pages_fill_reversed s c limit [] = Inr (fin, c', items) \<and>
      rest = items @ rest' \<and> overlay_left_reversed s c' rest' \<and> length items \<le> limit \<and>
      (fin \<longrightarrow> rest' = []) \<and> (0 < limit \<longrightarrow> fin \<or> overlay_work_reversed s c' < overlay_work_reversed s c)"
  proof (cases "no_overlay s")
    case True
    then have "overlay_pages_fill_reversed s c limit [] = csr_fill_reversed st i c limit []"
      by (simp add: s overlay_fill_reversed_def no_overlay_def)
    with csr_pages_reversed.page [of "(st, i)" c rest limit] ok left True show ?thesis by (simp add: s)
  next
    case False
    with overlay_page_reversed [of st ins del i c rest limit] ok left show ?thesis by (simp add: s)
  qed
qed

section \<open>What callers rely on\<close>

lemma overlay_work_Start:
  "overlay_work (st, ins, del, i) Start \<le> 1 + length (base_neighbors st i) +
    length (opt_get_or [] (ins i)) * (length (base_neighbors st i) + length (opt_get_or [] (ins i)) + 2)"
  "overlay_work_reversed (st, ins, del, i) Start \<le> 1 + length (base_neighbors st i) +
    length (opt_get_or [] (ins i)) * (length (base_neighbors st i) + length (opt_get_or [] (ins i)) + 2)"
  by (simp_all add: csr_work_def parts_work_def overlay_parts_def overlay_parts_reversed_def insert_work_def)

text \<open>
  C8: pagination loses nothing, repeats nothing and ends. Over a well-formed store whose
  rows are in key order, draining a node's overlay stream in pages of any positive sizes, at
  most as many as there are rows, inserts and duplicate checks, returns exactly the items of
  the unpaged stream, forward and in reverse, although a page may stop in the middle of a
  duplicate check.
\<close>

theorem overlay_pages_exact:
  assumes "store_ok st" and "sorted (map nb_key (base_neighbors st i))" and "\<forall>l \<in> set ls. 0 < l"
    and "1 + length (base_neighbors st i) + length (opt_get_or [] (ins i)) *
      (length (base_neighbors st i) + length (opt_get_or [] (ins i)) + 2) < length ls"
  shows "(\<exists>c. drain_pages (overlay_fill st ins del i) ls Start [] =
      Inr (True, c, overlay_spec (base_neighbors st i) (ins i) (del i))) \<and>
    (\<exists>c. drain_pages (overlay_fill_reversed st ins del i) ls Start [] =
      Inr (True, c, rev (overlay_spec (base_neighbors st i) (ins i) (del i))))"
proof -
  have ok: "overlay_source_ok (st, ins, del, i)" using assms(1,2) by simp
  have "overlay_work (st, ins, del, i) Start < length ls"
    "overlay_work_reversed (st, ins, del, i) Start < length ls"
    using overlay_work_Start [of st ins del i] assms(4) by linarith+
  then show ?thesis
    using overlay_pages.pages_concatenate [OF ok, of ls] overlay_pages_reversed.pages_concatenate [OF ok, of ls]
      assms(3) unfolding overlay_pages_fill.simps overlay_pages_fill_reversed.simps overlay_stream.simps
    by blast
qed

theorem overlay_pages_exact_witness:
  "\<exists>c. drain_pages (overlay_fill (Mmap sample_region) sample_inserts (\<lambda>_. None) 0) (replicate 30 2) Start [] =
    Inr (True, c, overlay_spec (base_neighbors (Mmap sample_region) 0) (sample_inserts 0) None)"
proof -
  have ok: "store_ok (Mmap sample_region)" by (simp add: sample_region_valid)
  have "length (base_neighbors (Mmap sample_region) 0) = 1"
    by (simp only: base_neighbors_def sample_region_rows) simp
  then have "sorted (map nb_key (base_neighbors (Mmap sample_region) 0))"
    "1 + length (base_neighbors (Mmap sample_region) 0) + length (opt_get_or [] (sample_inserts 0)) *
      (length (base_neighbors (Mmap sample_region) 0) + length (opt_get_or [] (sample_inserts 0)) + 2)
      < length (replicate 30 (2 :: nat))"
    by (auto simp: sample_inserts_def length_Suc_conv)
  with ok overlay_pages_exact [where st = "Mmap sample_region" and i = 0 and ins = sample_inserts
      and del = "\<lambda>_. None" and ls = "replicate 30 2"]
  show ?thesis by simp
qed

text \<open>
  the rows of a store built in bulk are in the key order (target, type, direction) that
  the binary search of the overlay pages assumes, and the store is well formed.
\<close>

theorem bulk_rows_searchable:
  assumes "sorts_edges srt" and "length es < 4294967296"
    and "try_from_edges unlimited_alloc srt nc es hw = Inr a"
  shows "csr_wf a \<and> sorted (map nb_key (base_neighbors (Owned a) i))"
proof -
  have valid: "\<forall>e \<in> set es. validate_raw_edge nc e = Inr ()"
    using assms(3) fold_validate [of nc es] by (auto simp: try_from_edges_def result_simps)
  then have "from_valid_edges unlimited_alloc srt nc es hw = Inr a"
    using assms(3) fold_validate [of nc es "()"] by (simp add: try_from_edges_def)
  with from_valid_edges_csr_of [OF assms(1) valid, of hw] have csr: "csr_of nc hw (map identify (srt es)) a"
    by auto
  have len: "length (map identify (srt es)) < 4294967296"
    using assms(1,2) by (metis length_map mset_eq_length sorts_edges_def)
  have "\<forall>e \<in> set (map identify (srt es)). validate_raw_edge nc (edge e) = Inr ()"
    using valid sorts_edges_set [OF assms(1)] by (simp add: identify_def)
  from csr_of_wf [OF csr len this] have wf: "csr_wf a" .
  have "sorted (map nb_key (base_neighbors (Owned a) i))"
  proof (cases "unat i < node_count_of a")
    case True
    let ?es = "filter (\<lambda>e. unat (source e) = unat i) (srt es)"
    have n: "unat i < unat nc" using True csr_of_lengths [OF csr] by simp
    have "sorted (map edge_source (map identify (srt es)))"
      using sorts_edges_source [OF assms(1)] by (simp add: comp_def edge_source_def identify_def)
    from csr_of_row [OF csr len this n]
    have "base_neighbors (Owned a) i = map (\<lambda>e. adjacency_neighbor (edge_adjacency (identify e))) ?es"
      using True by (simp add: base_neighbors_def node_rows_def filter_map comp_def edge_source_def identify_def)
    moreover have "nb_key (adjacency_neighbor (edge_adjacency (identify e))) =
        (target e, type_id e, reversed_copy e)" for e
      by (simp add: nb_key_def adjacency_neighbor_def edge_adjacency_def identify_def flag_u8_def)
    ultimately have keys: "map nb_key (base_neighbors (Owned a) i) =
        map (\<lambda>e. (target e, type_id e, reversed_copy e)) ?es"
      by simp
    have "sorted (map edge_key ?es)"
      using assms(1) by (intro sorted_filter) (simp add: sorts_edges_def)
    then have "sorted_wrt (\<lambda>x y. edge_key x \<le> edge_key y) ?es" by (simp add: sorted_wrt_map)
    then have "sorted_wrt (\<lambda>x y. (target x, type_id x, reversed_copy x) \<le> (target y, type_id y, reversed_copy y)) ?es"
    proof (rule sorted_wrt_mono_rel [rotated])
      fix x y assume xy: "x \<in> set ?es" "y \<in> set ?es" "edge_key x \<le> edge_key y"
      then have "source x = source y" by (simp add: word_unat_eq_iff)
      with xy(3) show "(target x, type_id x, reversed_copy x) \<le> (target y, type_id y, reversed_copy y)"
        by (simp add: edge_key_def)
    qed
    then show ?thesis by (simp add: keys sorted_wrt_map)
  next
    case False
    then show ?thesis by (simp add: base_neighbors_def node_rows_def)
  qed
  with wf show ?thesis by simp
qed

theorem bulk_rows_searchable_witness:
  "\<exists>a. try_from_edges unlimited_alloc (sort_key edge_key) 2
      [\<lparr>source = 0, target = 1, type_id = 9, weight = None, reversed_copy = False\<rparr>,
       \<lparr>source = 0, target = 1, type_id = 5, weight = None, reversed_copy = True\<rparr>] False = Inr a \<and>
    csr_wf a \<and> sorted (map nb_key (base_neighbors (Owned a) 0))"
proof -
  let ?es = "[\<lparr>source = 0, target = 1, type_id = 9, weight = None, reversed_copy = False\<rparr>,
    \<lparr>source = 0, target = 1, type_id = 5, weight = None, reversed_copy = True\<rparr>] :: raw_edge list"
  have srt: "sorts_edges (sort_key edge_key)" by (simp add: sorts_edges_def)
  have valid: "\<forall>e \<in> set ?es. validate_raw_edge 2 e = Inr ()"
    by (simp add: validate_raw_edge_def SENTINEL_def word_le_nat_alt)
  then have "fold_r (\<lambda>e _. validate_raw_edge 2 e) ?es () = Inr ()" by (simp add: fold_validate)
  with from_valid_edges_csr_of [OF srt valid, of False] obtain a where
    a: "try_from_edges unlimited_alloc (sort_key edge_key) 2 ?es False = Inr a"
    by (auto simp: try_from_edges_def)
  from bulk_rows_searchable [OF srt _ a, of 0] a show ?thesis by auto
qed

end
