(* ===== verification/NeighborWeights.thy ===== *)
theory NeighborWeights
  imports NeighborPaging EdgeReverse
begin

text \<open>
  Weighted neighbors (\<open>WeightedNeighborSource\<close> for \<open>EdgeStore\<close> in
  \<open>projection/neighbors.rs\<close>): the materialised list and its paged form, over any
  well-formed store. A store without weights has no weighted neighbors.
\<close>

definition fill_weighted_row ::
  "u32 list \<times> edge_type_storage \<times> u8 list \<times> u32 list \<Rightarrow> relationship_id list \<Rightarrow> usize \<Rightarrow>
    weighted_neighbor list \<Rightarrow> weighted_neighbor list graph_result" where
  "fill_weighted_row wv rels position out =
     (case wv of (ts, tys, flags, ws) \<Rightarrow>
        case get_opt ws position of
          None \<Rightarrow> Inr out
        | Some w \<Rightarrow>
            rbind (index_r ts position) (\<lambda>t.
            rbind (types_at tys position) (\<lambda>ty.
            rbind (index_r flags position) (\<lambda>f.
            Inr (out @ [\<lparr>wn_target = t, wn_type_id = ty, wn_weight = w, wn_schema_reversed = (f \<noteq> 0),
              wn_relationship_id = known_relationship rels position\<rparr>])))))"

definition fill_weighted_neighbors ::
  "edge_store \<Rightarrow> u32 \<Rightarrow> owned_neighbor_cursor \<Rightarrow> usize \<Rightarrow> weighted_neighbor list \<Rightarrow>
    weighted_neighbor filled_page graph_result" where
  "fill_weighted_neighbors st node_idx cursor limit out =
     rbind (neighbors_weighted_with_schema st node_idx) (\<lambda>(ts, tys, flags, ws).
     rbind (neighbors_with_schema_and_relationship_ids st node_idx) (\<lambda>(_, _, _, rels).
       let position = (case cursor of CsrPos p \<Rightarrow> p | _ \<Rightarrow> 0);
           stop = min (saturating_add_usize position limit) (length ts) in
       rbind (fold_r (fill_weighted_row (ts, tys, flags, ws) rels) [position..<stop] out) (\<lambda>out'.
         Inr (max position stop \<ge> length ts, CsrPos (max position stop), out'))))"

section \<open>Rows with weights\<close>

lemma neighbors_weighted_outside:
  assumes "csr_wf a" and "node_count_of a \<le> unat i"
  shows "neighbors_weighted (Owned a) i = Inr ([], SOne [], [])"
  using assms unat_node_count [OF assms(1)] by (simp add: neighbors_weighted_def word_le_nat_alt)

definition row_weights :: "edge_arrays \<Rightarrow> u32 \<Rightarrow> u32 list" where
  "row_weights a i =
     (if weights a = [] \<or> node_count_of a \<le> unat i then []
      else slice (row_start a (unat i)) (row_start a (Suc (unat i))) (weights a))"

definition weighted_view_of ::
  "u32 list \<times> edge_type_storage \<times> u8 list \<times> u32 list \<Rightarrow> adjacency list \<Rightarrow> u32 list \<Rightarrow> bool" where
  "weighted_view_of v xs ws \<longleftrightarrow>
     (case v of (ts, tys, flags, ws') \<Rightarrow>
        ts = map fst xs \<and> logical_ids tys = map (\<lambda>x. fst (snd x)) xs \<and> storage_ok tys \<and>
        flags = map (\<lambda>x. fst (snd (snd x))) xs \<and> ws' = ws)"

lemma store_weighted_view:
  assumes "store_ok st"
  shows "\<exists>v. neighbors_weighted_with_schema st i = Inr v \<and>
    weighted_view_of v (node_rows (store_arrays st) i) (row_weights (store_arrays st) i)"
proof -
  let ?a = "store_arrays st"
  have wf: "csr_wf ?a" by (rule store_ok_wf [OF assms])
  have st: "neighbors_weighted_with_schema st i = neighbors_weighted_with_schema (Owned ?a) i"
  proof (cases st)
    case (Mmap m)
    then have "mmap_validate m = Some m" using assms by simp
    with Mmap mapped_neighbors(2) [OF this, of i] mapped_neighbors_weighted [OF this, of i] show ?thesis
      by (simp add: neighbors_weighted_with_schema_def del: neighbors_with_schema.simps)
  qed simp
  show ?thesis
  proof (cases "unat i < node_count_of ?a")
    case True
    from neighbors_with_schema_Owned [OF wf True] neighbors_weighted_Owned [OF wf True] True show ?thesis
      unfolding st
      by (auto simp: neighbors_weighted_with_schema_def weighted_view_of_def node_rows_def row_weights_def
          simp del: neighbors_with_schema.simps)
  next
    case False
    with neighbors_with_schema_outside [of "?a" i] neighbors_weighted_outside [OF wf, of i] show ?thesis
      unfolding st
      by (simp add: neighbors_weighted_with_schema_def weighted_view_of_def node_rows_def row_weights_def
          storage_ok_def del: neighbors_with_schema.simps)
  qed
qed

lemma length_row_weights:
  assumes "csr_wf a"
  shows "length (row_weights a i) = (if weights a = [] then 0 else length (node_rows a i))"
proof (cases "weights a = [] \<or> node_count_of a \<le> unat i")
  case False
  then have n: "unat i < node_count_of a" and w: "length (weights a) = length (targets a)"
    using assms by (auto simp: csr_wf_def)
  from False n w row_start_le [OF assms, of "Suc (unat i)"] length_row [OF assms n] show ?thesis
    by (simp add: row_weights_def node_rows_def)
qed (auto simp: row_weights_def node_rows_def)

definition weighted_of :: "adjacency \<Rightarrow> u32 \<Rightarrow> weighted_neighbor" where
  "weighted_of x w =
     (let n = adjacency_neighbor x in
      \<lparr>wn_target = nb_target n, wn_type_id = nb_type_id n, wn_weight = w,
       wn_schema_reversed = nb_schema_reversed n, wn_relationship_id = nb_relationship_id n\<rparr>)"

lemma weighted_rows_zip:
  assumes wf: "csr_wf a"
  shows "weighted_rows a i = map (\<lambda>(x, w). weighted_of x w) (zip (node_rows a i) (row_weights a i))"
proof (cases "weights a = [] \<or> node_count_of a \<le> unat i")
  case True
  then show ?thesis by (auto simp: weighted_rows_def row_weights_def node_rows_def)
next
  case False
  then have n: "unat i < node_count_of a" and w: "length (weights a) = length (targets a)"
    using wf by (auto simp: csr_wf_def)
  have le: "row_start a (unat i) \<le> row_start a (Suc (unat i))" "row_start a (Suc (unat i)) \<le> length (weights a)"
    using row_start_mono [OF wf, of "unat i" "Suc (unat i)"] row_start_le [OF wf, of "Suc (unat i)"] n w
    by auto
  from False n le show ?thesis
    by (simp add: weighted_rows_def row_weights_def node_rows_def row_def slice_eq_map_nth
        zip_map_map zip_same_conv_map comp_def weighted_of_def adjacency_neighbor_def entry_def)
qed

section \<open>The two readings\<close>

lemma slice_split: "p \<le> r \<Longrightarrow> r \<le> q \<Longrightarrow> slice p q xs = slice p r xs @ slice r q xs"
  using take_add [of "r - p" "q - r" "drop p xs"] by (simp add: slice_def)

lemma weighted_neighbors_rows:
  assumes "store_ok st"
  shows "weighted_neighbors st i = Inr (weighted_rows (store_arrays st) i)"
proof -
  let ?a = "store_arrays st" and ?xs = "node_rows (store_arrays st) i"
  have wf: "csr_wf ?a" by (rule store_ok_wf [OF assms])
  obtain ts tys flags ws where w: "neighbors_weighted_with_schema st i = Inr (ts, tys, flags, ws)"
    "weighted_view_of (ts, tys, flags, ws) ?xs (row_weights ?a i)"
    using store_weighted_view [OF assms, of i] by (metis prod_cases4)
  obtain ts2 tys2 flags2 rels where v: "neighbors_with_schema_and_relationship_ids st i = Inr (ts2, tys2, flags2, rels)"
    "view_of (ts2, tys2, flags2, rels) ?xs"
    using store_node_view [OF assms, of i] by (metis prod_cases4)
  have "map (\<lambda>(idx, ((t, ty), f), w). \<lparr>wn_target = t, wn_type_id = ty, wn_weight = w,
        wn_schema_reversed = (f \<noteq> 0), wn_relationship_id = known_relationship rels idx\<rparr>)
      (enumerate 0 (zip (zip (zip ts (types_iter tys)) flags) ws)) =
    map (\<lambda>(x, w). weighted_of x w) (zip ?xs (row_weights ?a i))"
    using w(2) v(2)
    by (intro nth_equalityI)
      (auto simp: weighted_view_of_def view_of_def types_iter_ok nth_enumerate_eq known_relationship_map
        weighted_of_def adjacency_neighbor_def Let_def split: prod.splits)
  with w(1) v(1) show ?thesis
    by (simp add: weighted_neighbors_def weighted_rows_zip [OF wf])
qed

definition weighted_left :: "edge_store \<times> u32 \<Rightarrow> owned_neighbor_cursor \<Rightarrow> weighted_neighbor list \<Rightarrow> bool" where
  "weighted_left s c rest \<longleftrightarrow>
     (c = Start \<or> (\<exists>p. c = CsrPos p)) \<and>
     logical_position c \<le> length (base_neighbors (fst s) (snd s)) \<and>
     rest = drop (logical_position c) (weighted_rows (store_arrays (fst s)) (snd s))"

lemma fill_weighted_row_fold:
  assumes v: "weighted_view_of (ts, tys, flags, ws) xs ws0" and r: "view_of (ts2, tys2, flags2, rels) xs"
    and ws: "length ws0 \<le> length xs" and W: "W = map (\<lambda>(x, w). weighted_of x w) (zip xs ws0)"
  shows "p \<le> q \<Longrightarrow> q \<le> length xs \<Longrightarrow>
    fold_r (fill_weighted_row (ts, tys, flags, ws) rels) [p..<q] out = Inr (out @ slice p q W)"
proof (induction "q - p" arbitrary: p out)
  case 0
  then show ?case by (simp add: slice_def)
next
  case (Suc n)
  then have p: "p < q" "p < length xs" by simp_all
  have "ws = ws0" using v by (simp add: weighted_view_of_def)
  have step: "fill_weighted_row (ts, tys, flags, ws) rels p out = Inr (out @ slice p (Suc p) W)"
  proof (cases "p < length ws0")
    case True
    then have "slice p (Suc p) W = [weighted_of (xs ! p) (ws0 ! p)]"
      using p ws by (simp add: slice_eq_map_nth W)
    with True v r p show ?thesis
      by (auto simp: fill_weighted_row_def weighted_view_of_def view_of_def types_at_eq known_relationship_map
          weighted_of_def adjacency_neighbor_def Let_def split: prod.splits)
  next
    case False
    then have "slice p (Suc p) W = []" by (simp add: slice_def W)
    with False \<open>ws = ws0\<close> show ?thesis by (simp add: fill_weighted_row_def)
  qed
  have "slice p q W = slice p (Suc p) W @ slice (Suc p) q W"
    using p(1) by (intro slice_split) simp_all
  with step Suc.hyps(1) [of "Suc p" "out @ slice p (Suc p) W"] Suc.hyps(2) p Suc.prems show ?case
    by (simp add: upt_conv_Cons)
qed

lemma weighted_page:
  assumes ok: "store_ok st" and left: "weighted_left (st, i) c rest"
  defines "n \<equiv> length (base_neighbors st i)" and "W \<equiv> weighted_rows (store_arrays st) i"
  shows "fill_weighted_neighbors st i c limit out =
    Inr (min (logical_position c + limit) n = n, CsrPos (min (logical_position c + limit) n),
      out @ slice (logical_position c) (min (logical_position c + limit) n) W)"
    and "length W \<le> n"
proof -
  let ?a = "store_arrays st" and ?xs = "node_rows (store_arrays st) i"
  have wf: "csr_wf ?a" by (rule store_ok_wf [OF ok])
  obtain ts tys flags ws where w: "neighbors_weighted_with_schema st i = Inr (ts, tys, flags, ws)"
    "weighted_view_of (ts, tys, flags, ws) ?xs (row_weights ?a i)"
    using store_weighted_view [OF ok, of i] by (metis prod_cases4)
  obtain ts2 tys2 flags2 rels where v: "neighbors_with_schema_and_relationship_ids st i = Inr (ts2, tys2, flags2, rels)"
    "view_of (ts2, tys2, flags2, rels) ?xs"
    using store_node_view [OF ok, of i] by (metis prod_cases4)
  have rw: "length (row_weights ?a i) \<le> length ?xs"
    by (simp add: length_row_weights [OF wf])
  then show "length W \<le> n"
    by (simp add: W_def n_def weighted_rows_zip [OF wf] base_neighbors_def)
  let ?p = "logical_position c"
  have p: "?p \<le> n" using left by (simp add: weighted_left_def n_def)
  have n: "n \<le> usize_max" unfolding n_def by (rule base_neighbors_small [OF ok])
  have len: "length ts = n" using w(2) by (simp add: weighted_view_of_def n_def base_neighbors_def)
  have pos: "(case c of CsrPos p \<Rightarrow> p | _ \<Rightarrow> 0) = ?p" using left by (auto simp: weighted_left_def)
  have stop: "min (saturating_add_usize ?p limit) n = min (?p + limit) n"
    using n p by (auto simp: saturating_add_usize_def)
  have "fold_r (fill_weighted_row (ts, tys, flags, ws) rels) [?p..<min (?p + limit) n] out =
      Inr (out @ slice ?p (min (?p + limit) n) W)"
    using fill_weighted_row_fold [OF w(2) v(2) rw, of W "?p" "min (?p + limit) n" out] p
    by (simp add: W_def weighted_rows_zip [OF wf] n_def base_neighbors_def)
  moreover have "max ?p (min (?p + limit) n) = min (?p + limit) n" using p by auto
  ultimately show "fill_weighted_neighbors st i c limit out =
      Inr (min (?p + limit) n = n, CsrPos (min (?p + limit) n), out @ slice ?p (min (?p + limit) n) W)"
    using w(1) v(1) by (auto simp: fill_weighted_neighbors_def Let_def len pos stop)
qed

interpretation weighted_pages: paged_stream
  "\<lambda>s. fill_weighted_neighbors (fst s) (snd s)" "\<lambda>s. store_ok (fst s)"
  "\<lambda>s. weighted_rows (store_arrays (fst s)) (snd s)" weighted_left csr_work
proof
  fix s :: "edge_store \<times> u32"
  show "weighted_left s Start (weighted_rows (store_arrays (fst s)) (snd s))"
    by (simp add: weighted_left_def)
next
  fix s :: "edge_store \<times> u32" and c rest limit
  assume ok: "store_ok (fst s)" and left: "weighted_left s c rest"
  obtain st i where s: "s = (st, i)" by (cases s)
  let ?n = "length (base_neighbors st i)" and ?p = "logical_position c"
  let ?q = "min (?p + limit) ?n" and ?W = "weighted_rows (store_arrays st) i"
  have p: "?p \<le> ?n" "rest = drop ?p ?W" using left s by (simp_all add: weighted_left_def)
  have page: "fill_weighted_neighbors st i c limit [] = Inr (?q = ?n, CsrPos ?q, slice ?p ?q ?W)"
    and W: "length ?W \<le> ?n"
    using weighted_page(1) [of st i c rest limit "[]"] weighted_page(2) [of st i c rest] ok left s by simp_all
  have "length (slice ?p ?q ?W) \<le> limit"
    using min_page(2) [of "?p" limit "?n"] by (simp add: slice_def)
  then show "\<exists>fin c' items rest'. fill_weighted_neighbors (fst s) (snd s) c limit [] = Inr (fin, c', items) \<and>
      rest = items @ rest' \<and> weighted_left s c' rest' \<and> length items \<le> limit \<and> (fin \<longrightarrow> rest' = []) \<and>
      (0 < limit \<longrightarrow> fin \<or> csr_work s c' < csr_work s c)"
    using page W p slice_drop_split [OF min_page(1) [OF p(1), of limit], of "?W"]
      min_page(3) [OF _ p(1), of limit]
    by (intro exI4 [of _ "?q = ?n" "CsrPos ?q" "slice ?p ?q ?W" "drop ?q ?W"])
      (auto simp: s weighted_left_def csr_work_def)
qed

text \<open>
  the weighted neighbors of a node are its row with weights, flags and known relationship
  ids (nothing when the store is unweighted), and the paged form, drained in positive pages,
  at most one per row of the node, returns the same list.
\<close>

theorem weighted_neighbors_exact:
  assumes "store_ok st"
  shows "weighted_neighbors st i = Inr (weighted_rows (store_arrays st) i) \<and>
    ((\<forall>l \<in> set ls. 0 < l) \<longrightarrow> length (base_neighbors st i) < length ls \<longrightarrow>
      (\<exists>c. drain_pages (fill_weighted_neighbors st i) ls Start [] =
        Inr (True, c, weighted_rows (store_arrays st) i)))"
  using weighted_neighbors_rows [OF assms] weighted_pages.pages_concatenate [of "(st, i)" ls] assms
  by (simp add: csr_work_def)

theorem weighted_neighbors_exact_witness:
  "store_ok (Owned sample_csr) \<and>
    weighted_neighbors (Owned sample_csr) 1 =
      Inr [\<lparr>wn_target = 2, wn_type_id = 7, wn_weight = 30, wn_schema_reversed = False,
        wn_relationship_id = Some 3\<rparr>]"
proof -
  have ok: "store_ok (Owned sample_csr)" by (simp add: sample_csr_wf)
  have "row_start sample_csr 1 = 2" "row_start sample_csr (Suc 1) = 3"
    by (simp_all add: row_start_def sample_csr_def)
  moreover have "node_count_of sample_csr = 3" "weights sample_csr \<noteq> []"
    by (simp_all add: node_count_of_def sample_csr_def)
  moreover have "[2..<3::nat] = [2]" by (simp add: upt_rec)
  ultimately have "weighted_rows sample_csr 1 = [\<lparr>wn_target = 2, wn_type_id = 7, wn_weight = 30,
      wn_schema_reversed = False, wn_relationship_id = Some 3\<rparr>]"
    by (simp add: weighted_rows_def) (simp add: sample_csr_def NO_RELATIONSHIP_ID_def)
  with ok weighted_neighbors_exact [OF ok, of 1 "[]"] show ?thesis by simp
qed

end
