(* ===== verification/NodeStore.thy ===== *)
theory NodeStore
  imports EdgeAccess
begin

text \<open>
  Struct-of-arrays node storage (\<open>graph/src/node_store.rs\<close>): active bits, source table
  OIDs and primary keys, either in owned vectors or read out of a mapped artifact whose
  ranges \<open>MmapNodeArrays::validate\<close> has checked. A Rust \<open>String\<close> is its list of
  UTF-8 bytes, a \<open>BitVec\<close> its list of bits. The specification is the list of node rows
  (active flag, table OID, primary key) a store represents.
\<close>

section \<open>Bytes, bits and UTF-8\<close>

definition le_u64 :: "u8 list \<Rightarrow> u64" where
  "le_u64 bs = word_of_nat (foldr (\<lambda>b acc. unat b + 256 * acc) bs 0)"

fun decode_u64s :: "u8 list \<Rightarrow> u64 list" where
  "decode_u64s (a # b # c # d # e # f # g # h # rest) =
     le_u64 [a, b, c, d, e, f, g, h] # decode_u64s rest"
| "decode_u64s _ = []"

definition u64_slice :: "u8 list \<Rightarrow> byte_range \<Rightarrow> u64 list" where
  "u64_slice region r = decode_u64s (range_bytes region r)"

definition continuation :: "u8 \<Rightarrow> bool" where
  "continuation b \<longleftrightarrow> 0x80 \<le> b \<and> b \<le> 0xBF"

text \<open>\<open>std::str::from_utf8(bytes).is_ok()\<close>: the well-formed byte sequences of Unicode.\<close>

fun utf8_ok :: "u8 list \<Rightarrow> bool" where
  "utf8_ok [] = True"
| "utf8_ok (a # bs) =
     (if a \<le> 0x7F then utf8_ok bs
      else if 0xC2 \<le> a \<and> a \<le> 0xDF then
        (case bs of b # rest \<Rightarrow> continuation b \<and> utf8_ok rest | _ \<Rightarrow> False)
      else if 0xE0 \<le> a \<and> a \<le> 0xEF then
        (case bs of
           b # c # rest \<Rightarrow>
             (if a = 0xE0 then 0xA0 \<le> b \<and> b \<le> 0xBF
              else if a = 0xED then 0x80 \<le> b \<and> b \<le> 0x9F
              else continuation b) \<and> continuation c \<and> utf8_ok rest
         | _ \<Rightarrow> False)
      else if 0xF0 \<le> a \<and> a \<le> 0xF4 then
        (case bs of
           b # c # d # rest \<Rightarrow>
             (if a = 0xF0 then 0x90 \<le> b \<and> b \<le> 0xBF
              else if a = 0xF4 then 0x80 \<le> b \<and> b \<le> 0x8F
              else continuation b) \<and> continuation c \<and> continuation d \<and> utf8_ok rest
         | _ \<Rightarrow> False)
      else False)"

definition from_utf8 :: "u8 list \<Rightarrow> u8 list option" where
  "from_utf8 bs = (if utf8_ok bs then Some bs else None)"

definition count_ones :: "u8 \<Rightarrow> nat" where
  "count_ones b = length (filter (\<lambda>i. bit b i) [0..<8])"

definition bit_set :: "u8 \<Rightarrow> nat \<Rightarrow> bool" where
  "bit_set b i \<longleftrightarrow> and (drop_bit i b) 1 = 1"

section \<open>Mapped node arrays\<close>

record mmap_node_arrays =
  node_mmap :: "u8 list"
  node_mmap_base :: usize
  active_range :: byte_range
  oid_range :: byte_range
  pk_offsets_range :: byte_range
  pk_bytes_range :: byte_range
  arrays_node_count :: u32

definition active_bytes :: "mmap_node_arrays \<Rightarrow> u8 list" where
  "active_bytes m = range_bytes (node_mmap m) (active_range m)"

definition mapped_table_oids :: "mmap_node_arrays \<Rightarrow> u32 list" where
  "mapped_table_oids m = u32_slice (node_mmap m) (oid_range m)"

definition primary_key_offsets :: "mmap_node_arrays \<Rightarrow> u64 list" where
  "primary_key_offsets m = u64_slice (node_mmap m) (pk_offsets_range m)"

definition primary_key_bytes :: "mmap_node_arrays \<Rightarrow> u8 list" where
  "primary_key_bytes m = range_bytes (node_mmap m) (pk_bytes_range m)"

definition node_ranges_ok :: "mmap_node_arrays \<Rightarrow> usize \<Rightarrow> usize \<Rightarrow> bool" where
  "node_ranges_ok p oid_bytes pk_offsets_bytes \<longleftrightarrow>
     \<not> (range_len (oid_range p) \<noteq> oid_bytes
       \<or> range_len (pk_offsets_range p) \<noteq> pk_offsets_bytes
       \<or> \<not> range_in_region (active_range p) (length (node_mmap p))
       \<or> \<not> range_in_region (oid_range p) (length (node_mmap p))
       \<or> \<not> range_in_region (pk_offsets_range p) (length (node_mmap p))
       \<or> \<not> range_in_region (pk_bytes_range p) (length (node_mmap p)))"

definition pk_window_ok :: "u8 list \<Rightarrow> u64 \<times> u64 \<Rightarrow> bool" where
  "pk_window_ok pk_bytes w \<longleftrightarrow>
     \<not> (unat (fst w) > unat (snd w)
       \<or> unat (snd w) > length pk_bytes
       \<or> from_utf8 (slice (unat (fst w)) (unat (snd w)) pk_bytes) = None)"

definition windows2 :: "'a list \<Rightarrow> ('a \<times> 'a) list" where
  "windows2 xs = zip xs (tl xs)"

definition pk_contents_ok :: "mmap_node_arrays \<Rightarrow> bool" where
  "pk_contents_ok p \<longleftrightarrow>
     (let offs = primary_key_offsets p; bytes = primary_key_bytes p in
      \<not> (get_opt offs 0 \<noteq> Some 0
        \<or> (if offs = [] then None else Some (last offs)) \<noteq> Some (word_of_nat (length bytes)))
      \<and> list_all (pk_window_ok bytes) (windows2 offs))"

definition validate_nodes :: "mmap_node_arrays \<Rightarrow> mmap_node_arrays option" where
  "validate_nodes p =
     (let active_byte_count = (unat (arrays_node_count p) + 7) div 8 in
      if range_len (active_range p) \<noteq> active_byte_count then None
      else
        Option.bind (checked_mul_usize (unat (arrays_node_count p)) 4) (\<lambda>oid_bytes.
        Option.bind (Option.bind (checked_add_usize (unat (arrays_node_count p)) 1)
          (\<lambda>count. checked_mul_usize count 8)) (\<lambda>pk_offsets_bytes.
        if \<not> node_ranges_ok p oid_bytes pk_offsets_bytes then None
        else
          Option.bind (aligned_at (node_mmap_base p) (oid_range p) 4) (\<lambda>oid_aligned.
          if \<not> oid_aligned then None
          else
            Option.bind (aligned_at (node_mmap_base p) (pk_offsets_range p) 8) (\<lambda>pk_aligned.
            if \<not> pk_aligned then None
            else if \<not> pk_contents_ok p then None
            else Some p)))))"

section \<open>The store and its operations\<close>

datatype array_backing =
    OwnedNodes "bool list" "u32 list" "u8 list list"
  | MmapNodes mmap_node_arrays

record node_store =
  backing :: array_backing
  max_primary_key_bytes :: usize

definition new_node_store :: node_store where
  "new_node_store = \<lparr>backing = OwnedNodes [] [] [], max_primary_key_bytes = 0\<rparr>"

definition checked_sub_u64 :: "u64 \<Rightarrow> u64 \<Rightarrow> u64 option" where
  "checked_sub_u64 a b = (if b \<le> a then Some (a - b) else None)"

definition from_mmap :: "mmap_node_arrays \<Rightarrow> node_store" where
  "from_mmap m =
     \<lparr>backing = MmapNodes m,
      max_primary_key_bytes =
        foldr max (map unat (List.map_filter (\<lambda>w. checked_sub_u64 (snd w) (fst w))
          (windows2 (primary_key_offsets m)))) 0\<rparr>"

definition add_node :: "node_store \<Rightarrow> u32 \<Rightarrow> u8 list \<Rightarrow> (node_store \<times> u32) graph_result" where
  "add_node s table primary_key =
     (case backing s of
        OwnedNodes bits oids pks \<Rightarrow>
          Inr (\<lparr>backing = OwnedNodes (bits @ [True]) (oids @ [table]) (pks @ [primary_key]),
                max_primary_key_bytes = max (max_primary_key_bytes s) (length primary_key)\<rparr>,
               word_of_nat (length oids))
      | MmapNodes _ \<Rightarrow> Inl Panic)"

definition try_add_node :: "node_store \<Rightarrow> u32 \<Rightarrow> u8 list \<Rightarrow> (node_store \<times> u32) graph_result" where
  "try_add_node s table primary_key =
     (case backing s of
        OwnedNodes bits oids pks \<Rightarrow>
          if length oids \<ge> 2 ^ 32
          then Inl (Err (Internal ''node count exceeds u32 index space''))
          else Inr (\<lparr>backing = OwnedNodes (bits @ [True]) (oids @ [table]) (pks @ [primary_key]),
                     max_primary_key_bytes = max (max_primary_key_bytes s) (length primary_key)\<rparr>,
                    word_of_nat (length oids))
      | MmapNodes _ \<Rightarrow>
          Inl (Err (Internal ''cannot add nodes to mmap-backed storage during build'')))"

definition deactivate :: "node_store \<Rightarrow> u32 \<Rightarrow> node_store" where
  "deactivate s node_idx =
     (case backing s of
        OwnedNodes bits oids pks \<Rightarrow>
          if unat node_idx < length bits
          then s\<lparr>backing := OwnedNodes (bits[unat node_idx := False]) oids pks\<rparr>
          else s
      | MmapNodes _ \<Rightarrow> s)"

definition is_active :: "node_store \<Rightarrow> u32 \<Rightarrow> bool graph_result" where
  "is_active s node_idx =
     (case backing s of
        OwnedNodes bits _ _ \<Rightarrow> Inr (opt_get_or False (get_opt bits (unat node_idx)))
      | MmapNodes m \<Rightarrow>
          if node_idx \<ge> arrays_node_count m then Inr False
          else
            let byte_idx = unat node_idx div 8; bit_idx = unat node_idx mod 8 in
            rbind (index_r (active_bytes m) byte_idx) (\<lambda>byte. Inr (bit_set byte bit_idx)))"

definition ns_node_count :: "node_store \<Rightarrow> u32" where
  "ns_node_count s =
     (case backing s of
        OwnedNodes _ oids _ \<Rightarrow> word_of_nat (length oids)
      | MmapNodes m \<Rightarrow> arrays_node_count m)"

definition active_count :: "node_store \<Rightarrow> u32 graph_result" where
  "active_count s =
     (case backing s of
        OwnedNodes bits _ _ \<Rightarrow> Inr (word_of_nat (length (filter id bits)))
      | MmapNodes m \<Rightarrow>
          (let bytes = active_bytes m;
               ones = foldl (\<lambda>n byte. n + word_of_nat (count_ones byte)) (0 :: u32) bytes;
               total_bits = length bytes * 8;
               excess = (word_of_nat total_bits :: u32) - arrays_node_count m in
           if excess > 0 then
             rbind (if bytes = [] then Inl Panic else Inr (last bytes)) (\<lambda>last_byte.
               let first = (if unat excess \<le> 8 then 8 - unat excess else 8) in
               Inr (foldl (\<lambda>n i. if bit_set last_byte i then n - 1 else n) ones [first..<8]))
           else Inr ones))"

definition table_oid :: "node_store \<Rightarrow> u32 \<Rightarrow> u32 option" where
  "table_oid s node_idx =
     (case backing s of
        OwnedNodes _ oids _ \<Rightarrow> get_opt oids (unat node_idx)
      | MmapNodes m \<Rightarrow>
          if node_idx \<ge> arrays_node_count m then None
          else get_opt (mapped_table_oids m) (unat node_idx))"

definition primary_key :: "node_store \<Rightarrow> u32 \<Rightarrow> u8 list option graph_result" where
  "primary_key s node_idx =
     (case backing s of
        OwnedNodes _ _ pks \<Rightarrow> Inr (get_opt pks (unat node_idx))
      | MmapNodes m \<Rightarrow>
          if node_idx \<ge> arrays_node_count m then Inr None
          else
            rbind (index_r (primary_key_offsets m) (unat node_idx)) (\<lambda>first.
            rbind (index_r (primary_key_offsets m) (unat node_idx + 1)) (\<lambda>next.
              let bytes = primary_key_bytes m in
              Inr (if unat first > unat next \<or> unat next > length bytes then None
                   else from_utf8 (slice (unat first) (unat next) bytes)))))"

definition is_mmap_backed :: "node_store \<Rightarrow> bool" where
  "is_mmap_backed s = (case backing s of OwnedNodes _ _ _ \<Rightarrow> False | MmapNodes _ \<Rightarrow> True)"

definition ns_estimated_mmap_bytes :: "node_store \<Rightarrow> usize" where
  "ns_estimated_mmap_bytes s =
     (case backing s of
        OwnedNodes _ _ _ \<Rightarrow> 0
      | MmapNodes m \<Rightarrow>
          saturating_add_usize (saturating_add_usize (saturating_add_usize
            (range_len (active_range m)) (range_len (oid_range m)))
            (range_len (pk_offsets_range m))) (range_len (pk_bytes_range m)))"

definition to_owned_store :: "node_store \<Rightarrow> node_store graph_result" where
  "to_owned_store s =
     (case backing s of
        OwnedNodes bits oids pks \<Rightarrow>
          Inr \<lparr>backing = OwnedNodes bits oids pks, max_primary_key_bytes = max_primary_key_bytes s\<rparr>
      | MmapNodes m \<Rightarrow>
          rbind (map_r (\<lambda>i. is_active s (word_of_nat i)) [0..<unat (arrays_node_count m)]) (\<lambda>bits.
          Inr \<lparr>backing = OwnedNodes bits (mapped_table_oids m)
                 (map (\<lambda>w. opt_get_or []
                    (Option.bind (get_slice_opt (primary_key_bytes m) (unat (fst w)) (unat (snd w)))
                      from_utf8))
                    (windows2 (primary_key_offsets m))),
               max_primary_key_bytes = max_primary_key_bytes s\<rparr>))"

definition table_oids_slice :: "node_store \<Rightarrow> u32 list" where
  "table_oids_slice s =
     (case backing s of OwnedNodes _ oids _ \<Rightarrow> oids | MmapNodes m \<Rightarrow> mapped_table_oids m)"

section \<open>Specification\<close>

type_synonym node_row = "bool \<times> u32 \<times> u8 list"

text \<open>The rows a store represents, in index order.\<close>

definition mapped_row :: "mmap_node_arrays \<Rightarrow> nat \<Rightarrow> node_row" where
  "mapped_row m i =
     (bit (active_bytes m ! (i div 8)) (i mod 8),
      mapped_table_oids m ! i,
      slice (unat (primary_key_offsets m ! i)) (unat (primary_key_offsets m ! Suc i))
        (primary_key_bytes m))"

definition store_nodes :: "node_store \<Rightarrow> node_row list" where
  "store_nodes s =
     (case backing s of
        OwnedNodes bits oids pks \<Rightarrow> zip bits (zip oids pks)
      | MmapNodes m \<Rightarrow> map (mapped_row m) [0..<unat (arrays_node_count m)])"

definition max_width :: "node_row list \<Rightarrow> usize" where
  "max_width rows = foldr max (map (\<lambda>(_, _, pk). length pk) rows) 0"

definition backing_ok :: "array_backing \<Rightarrow> bool" where
  "backing_ok b =
     (case b of
        OwnedNodes bits oids pks \<Rightarrow>
          length bits = length oids \<and> length pks = length oids \<and> length oids < 2 ^ 32 \<and>
          list_all utf8_ok pks
      | MmapNodes m \<Rightarrow> validate_nodes m = Some m)"

definition nodes_ok :: "node_store \<Rightarrow> bool" where
  "nodes_ok s \<longleftrightarrow> backing_ok (backing s) \<and> max_primary_key_bytes s = max_width (store_nodes s)"

section \<open>Validated mappings\<close>

lemma length_decode_u64s: "length (decode_u64s bs) = length bs div 8"
  by (induction bs rule: decode_u64s.induct) auto

lemma bit_set_eq: "bit_set b i = bit b i"
  by (simp add: bit_set_def bit_iff_odd_drop_bit and_one_eq odd_iff_mod_2_eq_one)

lemma validate_nodes_Some:
  assumes "validate_nodes p = Some m"
  shows "m = p" "length (active_bytes m) = (unat (arrays_node_count m) + 7) div 8"
    "length (mapped_table_oids m) = unat (arrays_node_count m)"
    "length (primary_key_offsets m) = Suc (unat (arrays_node_count m))"
    "pk_contents_ok m"
proof -
  note facts = assms [unfolded validate_nodes_def Let_def node_ranges_ok_def]
  show eq: "m = p" using facts by (auto split: if_splits Option.bind_splits)
  show "pk_contents_ok m" using facts eq by (auto split: if_splits Option.bind_splits)
  show "length (active_bytes m) = (unat (arrays_node_count m) + 7) div 8"
    using facts eq
    by (auto simp: active_bytes_def length_range_bytes split: if_splits Option.bind_splits)
  show "length (mapped_table_oids m) = unat (arrays_node_count m)"
    using facts eq
    by (auto simp: mapped_table_oids_def u32_slice_def length_decode_u32s length_range_bytes
        checked_mul_usize_def split: if_splits Option.bind_splits)
  show "length (primary_key_offsets m) = Suc (unat (arrays_node_count m))"
    using facts eq
    by (auto simp: primary_key_offsets_def u64_slice_def length_decode_u64s length_range_bytes
        checked_mul_usize_def checked_add_usize_def split: if_splits Option.bind_splits)
qed

lemma windows2_nth: "Suc i < length xs \<Longrightarrow> windows2 xs ! i = (xs ! i, xs ! Suc i)"
  by (simp add: windows2_def nth_tl)

lemma length_windows2 [simp]: "length (windows2 xs) = length xs - 1"
  by (simp add: windows2_def)

lemma windows2_map_upt: "windows2 xs = map (\<lambda>i. (xs ! i, xs ! Suc i)) [0..<length xs - 1]"
  by (rule nth_equalityI) (auto simp: windows2_nth)

lemma validated_key_window:
  assumes "validate_nodes p = Some m" "i < unat (arrays_node_count m)"
  shows "unat (primary_key_offsets m ! i) \<le> unat (primary_key_offsets m ! Suc i)"
    "unat (primary_key_offsets m ! Suc i) \<le> length (primary_key_bytes m)"
    "utf8_ok (slice (unat (primary_key_offsets m ! i)) (unat (primary_key_offsets m ! Suc i))
       (primary_key_bytes m))"
proof -
  note v = validate_nodes_Some [OF assms(1)]
  have "list_all (pk_window_ok (primary_key_bytes m)) (windows2 (primary_key_offsets m))"
    using v(5) by (simp add: pk_contents_ok_def Let_def)
  then have "pk_window_ok (primary_key_bytes m) (primary_key_offsets m ! i, primary_key_offsets m ! Suc i)"
    using assms(2) v(4) windows2_nth [of i "primary_key_offsets m"]
    by (auto simp: list_all_length dest!: spec [of _ i])
  then show "unat (primary_key_offsets m ! i) \<le> unat (primary_key_offsets m ! Suc i)"
    "unat (primary_key_offsets m ! Suc i) \<le> length (primary_key_bytes m)"
    "utf8_ok (slice (unat (primary_key_offsets m ! i)) (unat (primary_key_offsets m ! Suc i))
       (primary_key_bytes m))"
    by (auto simp: pk_window_ok_def from_utf8_def split: if_splits)
qed

lemma mapped_is_active:
  assumes "validate_nodes p = Some m" "backing s = MmapNodes m"
  shows "is_active s i = Inr (i < arrays_node_count m \<and> fst (mapped_row m (unat i)))"
proof -
  have "unat i div 8 < length (active_bytes m)" if "i < arrays_node_count m"
    using that validate_nodes_Some(2) [OF assms(1)] by (simp add: word_less_nat_alt)
  then show ?thesis
    using assms(2) by (auto simp: is_active_def Let_def mapped_row_def bit_set_eq not_le)
qed

lemma mapped_table_oid:
  assumes "validate_nodes p = Some m" "backing s = MmapNodes m"
  shows "table_oid s i = (if i < arrays_node_count m then Some (mapped_table_oids m ! unat i) else None)"
  using assms(2) validate_nodes_Some(3) [OF assms(1)]
  by (auto simp: table_oid_def word_less_nat_alt word_le_nat_alt)

lemma mapped_primary_key:
  assumes "validate_nodes p = Some m" "backing s = MmapNodes m"
  shows "primary_key s i =
    Inr (if i < arrays_node_count m then Some (snd (snd (mapped_row m (unat i)))) else None)"
proof (cases "i < arrays_node_count m")
  case True
  then have "unat i < unat (arrays_node_count m)" by (simp add: word_less_nat_alt)
  with validated_key_window [OF assms(1) this] validate_nodes_Some(4) [OF assms(1)] True assms(2)
  show ?thesis
    by (simp add: primary_key_def Let_def not_le [symmetric] from_utf8_def mapped_row_def)
next
  case False
  then show ?thesis using assms(2) by (simp add: primary_key_def not_le)
qed

section \<open>Counting active bits\<close>

lemma bytes_bits:
  "concat (map (\<lambda>b. map (bit b) [0..<8]) bytes) =
    map (\<lambda>i. bit ((bytes :: u8 list) ! (i div 8)) (i mod 8)) [0..<8 * length bytes]"
proof (induction bytes rule: rev_induct)
  case Nil
  then show ?case by simp
next
  case (snoc b bytes)
  let ?n = "8 * length bytes"
  have "[0..<8 * length (bytes @ [b])] = [0..<?n] @ map ((+) ?n) [0..<8]"
    by (rule nth_equalityI) (auto simp: nth_append)
  moreover have "map (\<lambda>i. bit ((bytes @ [b]) ! (i div 8)) (i mod 8)) [0..<?n] =
      map (\<lambda>i. bit (bytes ! (i div 8)) (i mod 8)) [0..<?n]"
    by (rule map_cong) (auto simp: nth_append)
  moreover have "map (\<lambda>i. bit ((bytes @ [b]) ! (i div 8)) (i mod 8)) (map ((+) ?n) [0..<8]) =
      map (bit b) [0..<8]"
    by (auto simp: nth_append)
  ultimately show ?case using snoc.IH by simp
qed

lemma foldl_count_ones:
  "foldl (\<lambda>n byte. n + word_of_nat (count_ones byte)) (c :: u32) bytes =
    c + word_of_nat (length (filter id (concat (map (\<lambda>b. map (bit b) [0..<8]) bytes))))"
proof (induction bytes arbitrary: c)
  case Nil
  then show ?case by simp
next
  case (Cons b bytes)
  have "length (filter id (map (bit b) [0..<8])) = count_ones b"
    by (simp add: count_ones_def filter_map comp_def)
  with Cons.IH [of "c + word_of_nat (count_ones b)"] show ?case
    by (simp add: ac_simps comp_def)
qed

lemma foldl_discount:
  "foldl (\<lambda>n i. if p i then n - 1 else n) (c :: u32) is = c - word_of_nat (length (filter p is))"
  by (induction "is" arbitrary: c) (auto simp: algebra_simps)

lemma mapped_active_count:
  assumes "validate_nodes p = Some m" "backing s = MmapNodes m"
  shows "active_count s = Inr (word_of_nat (length (filter fst (store_nodes s))))"
proof -
  define n bytes where "n = unat (arrays_node_count m)" and "bytes = active_bytes m"
  define L where "L = length bytes"
  define f where "f = (\<lambda>i. bit (bytes ! (i div 8)) (i mod 8))"
  have L: "L = (n + 7) div 8"
    using validate_nodes_Some(2) [OF assms(1)] by (simp add: L_def bytes_def n_def)
  then have nL: "n \<le> 8 * L" "8 * L - n < 8" by auto
  have nc: "arrays_node_count m = word_of_nat n" by (simp add: n_def)
  have excess: "(word_of_nat (length bytes * 8) :: u32) - arrays_node_count m = word_of_nat (8 * L - n)"
    using nL by (simp add: nc L_def of_nat_diff mult.commute)
  have ex: "unat (word_of_nat (8 * L - n) :: u32) = 8 * L - n"
    by (rule unat_of_nat_u32) (use nL in simp)
  have ones: "foldl (\<lambda>k byte. k + word_of_nat (count_ones byte)) (0 :: u32) bytes =
      word_of_nat (length (filter f [0..<8 * L]))"
    by (simp add: foldl_count_ones bytes_bits filter_map comp_def f_def L_def)
  have rows: "length (filter fst (store_nodes s)) = length (filter f [0..<n])"
    using assms(2) by (simp add: store_nodes_def mapped_row_def filter_map comp_def f_def bytes_def n_def)
  have split: "length (filter f [0..<8 * L]) = length (filter f [0..<n]) + length (filter f [n..<8 * L])"
    using nL by (simp add: upt_split [of 0 n "8 * L"])
  show ?thesis
  proof (cases "8 * L - n = 0")
    case True
    then show ?thesis
      using assms(2) rows nL excess ones
      by (simp add: active_count_def Let_def flip: bytes_def)
  next
    case False
    then have "bytes \<noteq> []" by (auto simp: L_def)
    then have last: "last bytes = bytes ! (L - 1)" by (simp add: last_conv_nth L_def)
    have L0: "0 < L" using \<open>bytes \<noteq> []\<close> by (simp add: L_def)
    have "[n..<8 * L] = map ((+) (8 * (L - 1))) [8 - (8 * L - n)..<8]"
      using nL L0 by (intro nth_equalityI) auto
    moreover have "filter (\<lambda>j. f (8 * (L - 1) + j)) [8 - (8 * L - n)..<8] =
        filter (bit_set (last bytes)) [8 - (8 * L - n)..<8]"
      by (rule filter_cong) (auto simp: f_def last bit_set_eq)
    ultimately have tail: "length (filter f [n..<8 * L]) =
        length (filter (bit_set (last bytes)) [8 - (8 * L - n)..<8])"
      by (simp only: filter_map comp_def length_map)
    define x where "x = (word_of_nat (length bytes * 8) :: u32) - arrays_node_count m"
    have x: "unat x = 8 * L - n" unfolding x_def excess by (rule ex)
    then have pos: "0 < x" using False by (metis word_neq_0_conv unat_0)
    have "active_count s = rbind (if bytes = [] then Inl Panic else Inr (last bytes)) (\<lambda>last_byte.
        Inr (foldl (\<lambda>k i. if bit_set last_byte i then k - 1 else k)
          (foldl (\<lambda>k byte. k + word_of_nat (count_ones byte)) (0 :: u32) bytes)
          [if unat x \<le> 8 then 8 - unat x else 8..<8]))"
      unfolding active_count_def Let_def assms(2) array_backing.case bytes_def [symmetric]
        x_def [symmetric] using pos by simp
    then show ?thesis
      using \<open>bytes \<noteq> []\<close> nL x tail split rows by (simp add: ones foldl_discount)
  qed
qed

section \<open>Reads of a well-formed store\<close>

lemma store_nodes_count:
  assumes "backing_ok (backing s)"
  shows "unat (ns_node_count s) = length (store_nodes s)"
  using assms by (auto simp: backing_ok_def ns_node_count_def store_nodes_def split: array_backing.splits)

lemma owned_rows_nth:
  assumes "length bits = length oids" "length pks = length oids" "i < length oids"
  shows "zip bits (zip oids pks) ! i = (bits ! i, oids ! i, pks ! i)"
  using assms by simp

lemma filter_fst_zip: "length xs = length ys \<Longrightarrow> length (filter fst (zip xs ys)) = length (filter id xs)"
  by (induction xs ys rule: list_induct2) auto

lemma is_active_row:
  assumes "backing_ok (backing s)"
  shows "is_active s i = Inr (unat i < length (store_nodes s) \<and> fst (store_nodes s ! unat i))"
proof (cases "backing s")
  case (OwnedNodes bits oids pks)
  with assms show ?thesis
    by (auto simp: is_active_def backing_ok_def store_nodes_def get_opt_def)
next
  case (MmapNodes m)
  with assms show ?thesis
    using mapped_is_active [of m m s i]
    by (auto simp: backing_ok_def store_nodes_def word_less_nat_alt)
qed

lemma table_oid_row:
  assumes "backing_ok (backing s)"
  shows "table_oid s i =
    (if unat i < length (store_nodes s) then Some (fst (snd (store_nodes s ! unat i))) else None)"
proof (cases "backing s")
  case (OwnedNodes bits oids pks)
  with assms show ?thesis
    by (auto simp: table_oid_def backing_ok_def store_nodes_def get_opt_def)
next
  case (MmapNodes m)
  with assms show ?thesis
    using mapped_table_oid [of m m s i]
    by (auto simp: backing_ok_def store_nodes_def word_less_nat_alt mapped_row_def)
qed

lemma primary_key_row:
  assumes "backing_ok (backing s)"
  shows "primary_key s i =
    Inr (if unat i < length (store_nodes s) then Some (snd (snd (store_nodes s ! unat i))) else None)"
proof (cases "backing s")
  case (OwnedNodes bits oids pks)
  with assms show ?thesis
    by (auto simp: primary_key_def backing_ok_def store_nodes_def get_opt_def)
next
  case (MmapNodes m)
  with assms show ?thesis
    using mapped_primary_key [of m m s i]
    by (auto simp: backing_ok_def store_nodes_def word_less_nat_alt)
qed

lemma active_count_rows:
  assumes "backing_ok (backing s)"
  shows "active_count s = Inr (word_of_nat (length (filter fst (store_nodes s))))"
proof (cases "backing s")
  case (OwnedNodes bits oids pks)
  with assms show ?thesis
    by (simp add: active_count_def backing_ok_def store_nodes_def filter_fst_zip)
next
  case (MmapNodes m)
  with assms show ?thesis
    using mapped_active_count [of m m s] by (simp add: backing_ok_def)
qed

lemma primary_keys_utf8:
  assumes "backing_ok (backing s)" "r \<in> set (store_nodes s)"
  shows "utf8_ok (snd (snd r))"
proof (cases "backing s")
  case (OwnedNodes bits oids pks)
  with assms have "list_all utf8_ok pks" "snd (snd r) \<in> set pks"
    by (cases r; auto simp: backing_ok_def store_nodes_def dest!: set_zip_rightD)+
  then show ?thesis by (simp add: list_all_iff)
next
  case (MmapNodes m)
  with assms show ?thesis
    using validated_key_window(3) [of m m]
    by (auto simp: backing_ok_def store_nodes_def mapped_row_def)
qed

section \<open>Materialization and mutation\<close>

lemma map_r_Inr: "map_r (\<lambda>i. Inr (g i)) xs = Inr (map g xs)"
  by (induction xs) simp_all

lemma map_r_cong: "(\<And>x. x \<in> set xs \<Longrightarrow> f x = g x) \<Longrightarrow> map_r f xs = map_r g xs"
  by (induction xs) (auto intro!: rbind_cong)

lemma max_width_snoc: "max_width (rows @ [r]) = max (max_width rows) (length (snd (snd r)))"
  by (induction rows) (auto simp: max_width_def split: prod.splits)

lemma max_width_update:
  "i < length rows \<Longrightarrow> max_width (rows[i := (b, snd (rows ! i))]) = max_width rows"
proof (induction rows arbitrary: i)
  case Nil
  then show ?case by simp
next
  case (Cons r rows)
  then show ?case by (cases i) (auto simp: max_width_def split: prod.splits)
qed

lemma from_mmap_ok:
  assumes "validate_nodes p = Some m"
  shows "nodes_ok (from_mmap m)"
proof -
  note v = validate_nodes_Some [OF assms]
  let ?offs = "primary_key_offsets m" and ?n = "unat (arrays_node_count m)"
  have sub: "checked_sub_u64 (?offs ! Suc i) (?offs ! i) = Some (?offs ! Suc i - ?offs ! i)"
    and len: "unat (?offs ! Suc i - ?offs ! i) = length (snd (snd (mapped_row m i)))" if "i < ?n" for i
    using validated_key_window(1,2) [OF assms that]
    by (auto simp: checked_sub_u64_def word_le_nat_alt unat_sub mapped_row_def)
  have "List.map_filter (\<lambda>w. checked_sub_u64 (snd w) (fst w)) (windows2 ?offs) =
      map (\<lambda>i. ?offs ! Suc i - ?offs ! i) [0..<?n]"
    using v(4) sub by (simp add: windows2_map_upt List.map_filter_def comp_def cong: filter_cong)
  moreover have "map (\<lambda>i. unat (?offs ! Suc i - ?offs ! i)) [0..<?n] =
      map (\<lambda>i. length (snd (snd (mapped_row m i)))) [0..<?n]"
    by (rule map_cong) (auto simp: len)
  ultimately have "max_primary_key_bytes (from_mmap m) = max_width (store_nodes (from_mmap m))"
    by (simp add: from_mmap_def max_width_def store_nodes_def case_prod_unfold comp_def
        del: map_eq_conv)
  moreover have "backing_ok (backing (from_mmap m))"
    using assms v(1) by (simp add: backing_ok_def from_mmap_def)
  ultimately show ?thesis by (simp add: nodes_ok_def)
qed

lemma to_owned_mapped:
  assumes "validate_nodes m = Some m" "backing s = MmapNodes m"
    and "max_primary_key_bytes s = max_width (store_nodes s)"
  shows "\<exists>t. to_owned_store s = Inr t \<and> nodes_ok t \<and> \<not> is_mmap_backed t \<and> store_nodes t = store_nodes s"
proof -
  note v = validate_nodes_Some [OF assms(1)]
  let ?n = "unat (arrays_node_count m)" and ?offs = "primary_key_offsets m"
  define bits where "bits = map (\<lambda>i. fst (mapped_row m i)) [0..<?n]"
  define pks where "pks = map (\<lambda>i. snd (snd (mapped_row m i))) [0..<?n]"
  have "map_r (\<lambda>i. is_active s (word_of_nat i)) [0..<?n] = map_r (\<lambda>i. Inr (fst (mapped_row m i))) [0..<?n]"
  proof (rule map_r_cong)
    fix i assume "i \<in> set [0..<?n]"
    then have "i < ?n" "unat (word_of_nat i :: u32) = i"
      using unat_u32_less [of "arrays_node_count m"] by auto
    then show "is_active s (word_of_nat i) = Inr (fst (mapped_row m i))"
      using mapped_is_active [OF assms(1,2), of "word_of_nat i"] by (simp add: word_less_nat_alt)
  qed
  moreover have "map (\<lambda>w. opt_get_or []
      (Option.bind (get_slice_opt (primary_key_bytes m) (unat (fst w)) (unat (snd w))) from_utf8))
      (windows2 ?offs) = pks"
    using validated_key_window [OF assms(1)] v(4)
    by (auto simp: pks_def windows2_map_upt get_slice_opt_def from_utf8_def mapped_row_def)
  ultimately have eq: "to_owned_store s = Inr \<lparr>backing = OwnedNodes bits (mapped_table_oids m) pks,
      max_primary_key_bytes = max_primary_key_bytes s\<rparr>" (is "_ = Inr ?t")
    using assms(2) by (simp add: to_owned_store_def map_r_Inr bits_def)
  have "mapped_table_oids m = map (\<lambda>i. fst (snd (mapped_row m i))) [0..<?n]"
    using v(3) by (intro nth_equalityI) (auto simp: mapped_row_def)
  then have rows: "store_nodes ?t = store_nodes s"
    using assms(2) by (auto simp: store_nodes_def bits_def pks_def intro!: nth_equalityI)
  have "list_all utf8_ok pks"
    using validated_key_window(3) [OF assms(1)] by (auto simp: pks_def list_all_iff mapped_row_def)
  then have "nodes_ok ?t"
    using rows v(3) assms(3) unat_u32_less [of "arrays_node_count m"]
    by (simp add: nodes_ok_def backing_ok_def bits_def pks_def)
  with eq rows show ?thesis by (auto simp: is_mmap_backed_def)
qed

lemma try_add_node_owned:
  assumes "nodes_ok s" "\<not> is_mmap_backed s" "length (store_nodes s) + 1 < 2 ^ 32" "utf8_ok key"
  shows "\<exists>t. try_add_node s oid key = Inr (t, word_of_nat (length (store_nodes s))) \<and>
    add_node s oid key = Inr (t, word_of_nat (length (store_nodes s))) \<and>
    nodes_ok t \<and> store_nodes t = store_nodes s @ [(True, oid, key)]"
proof -
  obtain bits oids pks where b: "backing s = OwnedNodes bits oids pks"
    using assms(2) by (auto simp: is_mmap_backed_def split: array_backing.splits)
  with assms(1) have lens: "length bits = length oids" "length pks = length oids"
    and utf: "list_all utf8_ok pks" and m: "max_primary_key_bytes s = max_width (zip bits (zip oids pks))"
    by (auto simp: nodes_ok_def backing_ok_def store_nodes_def)
  let ?t = "\<lparr>backing = OwnedNodes (bits @ [True]) (oids @ [oid]) (pks @ [key]),
    max_primary_key_bytes = max (max_primary_key_bytes s) (length key)\<rparr>"
  have rows: "store_nodes ?t = store_nodes s @ [(True, oid, key)]"
    using b lens by (simp add: store_nodes_def)
  have "nodes_ok ?t"
    unfolding nodes_ok_def rows max_width_snoc
    using b lens utf m assms(3,4) by (simp add: backing_ok_def store_nodes_def)
  moreover have "try_add_node s oid key = Inr (?t, word_of_nat (length (store_nodes s)))"
    "add_node s oid key = Inr (?t, word_of_nat (length (store_nodes s)))"
    using b lens assms(3) by (simp_all add: try_add_node_def add_node_def store_nodes_def)
  ultimately show ?thesis using rows by blast
qed

lemma deactivate_owned:
  assumes "nodes_ok s" "\<not> is_mmap_backed s"
  shows "nodes_ok (deactivate s i) \<and>
    store_nodes (deactivate s i) =
      (if unat i < length (store_nodes s)
       then (store_nodes s)[unat i := (False, snd (store_nodes s ! unat i))] else store_nodes s)"
proof -
  obtain bits oids pks where b: "backing s = OwnedNodes bits oids pks"
    using assms(2) by (auto simp: is_mmap_backed_def split: array_backing.splits)
  with assms(1) have lens: "length bits = length oids" "length pks = length oids"
    by (auto simp: nodes_ok_def backing_ok_def)
  show ?thesis
  proof (cases "unat i < length bits")
    case True
    then have rows: "store_nodes (deactivate s i) =
        (store_nodes s)[unat i := (False, snd (store_nodes s ! unat i))]"
      using b lens by (auto simp: deactivate_def store_nodes_def nth_list_update intro!: nth_equalityI)
    have "max_width (store_nodes (deactivate s i)) = max_width (store_nodes s)"
      unfolding rows by (rule max_width_update) (use True b lens in \<open>simp add: store_nodes_def\<close>)
    with rows True assms(1) b lens show ?thesis
      by (simp add: nodes_ok_def backing_ok_def deactivate_def) (simp add: store_nodes_def)
  next
    case False
    with assms(1) b lens show ?thesis by (simp add: deactivate_def store_nodes_def)
  qed
qed

text \<open>
  The index check of \<open>try_add_node\<close> admits \<open>u32::MAX\<close> as an index, one row more
  than \<open>node_count\<close> can count: the count of the full store wraps to zero.
\<close>

lemma try_add_node_last_index:
  assumes "backing s = OwnedNodes bits oids pks" "length oids = 2 ^ 32 - 1"
  shows "\<exists>t. try_add_node s oid key = Inr (t, 0xFFFFFFFF) \<and> ns_node_count t = 0"
  using assms by (simp add: try_add_node_def ns_node_count_def)

section \<open>Properties\<close>

definition sample_nodes :: mmap_node_arrays where
  "sample_nodes =
     \<lparr>node_mmap = [0xFD, 0, 0, 0,  9, 0, 0, 0,  10, 1, 0, 0,  0, 0, 0, 0,
        0, 0, 0, 0, 0, 0, 0, 0,  1, 0, 0, 0, 0, 0, 0, 0,  3, 0, 0, 0, 0, 0, 0, 0,  97, 0xC3, 0xA9],
      node_mmap_base = 4096, active_range = (0, 1), oid_range = (4, 12),
      pk_offsets_range = (16, 40), pk_bytes_range = (40, 43), arrays_node_count = 2\<rparr>"

lemma sample_nodes_views:
  "active_bytes sample_nodes = [0xFD]" "mapped_table_oids sample_nodes = [9, 266]"
  "primary_key_offsets sample_nodes = [0, 1, 3]" "primary_key_bytes sample_nodes = [97, 0xC3, 0xA9]"
  by (simp_all add: sample_nodes_def active_bytes_def mapped_table_oids_def primary_key_offsets_def
      primary_key_bytes_def u32_slice_def u64_slice_def range_bytes_def slice_def le_u32_def le_u64_def)

lemma sample_nodes_valid: "validate_nodes sample_nodes = Some sample_nodes"
proof -
  have "pk_contents_ok sample_nodes"
    by (simp add: pk_contents_ok_def sample_nodes_views windows2_def pk_window_ok_def from_utf8_def
        slice_def continuation_def)
  then show ?thesis
    by (simp add: validate_nodes_def sample_nodes_def range_len_def checked_mul_usize_def
        checked_add_usize_def usize_max_def node_ranges_ok_def range_in_region_def aligned_at_def)
qed

lemma sample_nodes_rows:
  "store_nodes (from_mmap sample_nodes) = [(True, 9, [97]), (False, 266, [0xC3, 0xA9])]"
  by (simp add: store_nodes_def from_mmap_def mapped_row_def sample_nodes_views slice_def upt_rec
      sample_nodes_def [THEN arg_cong, of arrays_node_count] bit_iff_odd)

text \<open>
  reads never panic on a well-formed store, owned or mapped, and return exactly the
  row of the index: the active flag (false out of range), the table OID and the primary
  key (none out of range, always valid UTF-8), the node count, and the number of active
  rows, which the mapped store computes by counting the bits of the packed bytes and
  subtracting the padding of the last one in wrapping 32-bit arithmetic.
\<close>

theorem node_reads_exact:
  assumes "nodes_ok s"
  shows "unat (ns_node_count s) = length (store_nodes s) \<and>
    is_active s i = Inr (unat i < length (store_nodes s) \<and> fst (store_nodes s ! unat i)) \<and>
    table_oid s i =
      (if unat i < length (store_nodes s) then Some (fst (snd (store_nodes s ! unat i))) else None) \<and>
    primary_key s i =
      Inr (if unat i < length (store_nodes s) then Some (snd (snd (store_nodes s ! unat i))) else None) \<and>
    (\<forall>(_, _, key) \<in> set (store_nodes s). utf8_ok key) \<and>
    (\<exists>c. active_count s = Inr c \<and> unat c = length (filter fst (store_nodes s)))"
proof -
  have ok: "backing_ok (backing s)" using assms by (simp add: nodes_ok_def)
  have "length (filter fst (store_nodes s)) < 4294967296"
    using store_nodes_count [OF ok] unat_u32_less [of "ns_node_count s"]
      length_filter_le [of fst "store_nodes s"] by linarith
  moreover have "\<forall>(_, _, key) \<in> set (store_nodes s). utf8_ok key"
    using primary_keys_utf8 [OF ok] by fastforce
  ultimately show ?thesis
    by (simp add: store_nodes_count [OF ok] is_active_row [OF ok] table_oid_row [OF ok]
        primary_key_row [OF ok] active_count_rows [OF ok])
qed

theorem node_reads_exact_witness:
  "nodes_ok (from_mmap sample_nodes) \<and> is_active (from_mmap sample_nodes) 0 = Inr True \<and>
    primary_key (from_mmap sample_nodes) 1 = Inr (Some [0xC3, 0xA9]) \<and>
    (\<exists>c. active_count (from_mmap sample_nodes) = Inr c \<and> unat c = 1)"
  using node_reads_exact [OF from_mmap_ok [OF sample_nodes_valid], of 0]
    node_reads_exact [OF from_mmap_ok [OF sample_nodes_valid], of 1]
    from_mmap_ok [OF sample_nodes_valid]
  by (simp add: sample_nodes_rows)

text \<open>
  a mapping accepted by \<open>MmapNodeArrays::validate\<close> makes a well-formed store, and
  \<open>to_owned_store\<close> (run before the first sync mutation) turns it, or any well-formed
  store, into a mutable owned store with the same rows and the same primary-key width.
\<close>

theorem materialized_store_same_rows:
  "(validate_nodes p = Some m \<longrightarrow> nodes_ok (from_mmap m)) \<and>
   (nodes_ok s \<longrightarrow>
     (\<exists>t. to_owned_store s = Inr t \<and> nodes_ok t \<and> \<not> is_mmap_backed t \<and>
       store_nodes t = store_nodes s \<and> max_primary_key_bytes t = max_primary_key_bytes s))"
proof -
  have "\<exists>t. to_owned_store s = Inr t \<and> nodes_ok t \<and> \<not> is_mmap_backed t \<and>
       store_nodes t = store_nodes s \<and> max_primary_key_bytes t = max_primary_key_bytes s"
    if ok: "nodes_ok s"
  proof (cases "backing s")
    case (OwnedNodes bits oids pks)
    then have "to_owned_store s = Inr s" by (cases s) (simp add: to_owned_store_def)
    with OwnedNodes ok show ?thesis by (simp add: is_mmap_backed_def)
  next
    case (MmapNodes m)
    with ok to_owned_mapped [of m s] obtain t where "to_owned_store s = Inr t" "nodes_ok t"
      "\<not> is_mmap_backed t" "store_nodes t = store_nodes s"
      by (auto simp: nodes_ok_def backing_ok_def)
    with ok show ?thesis by (auto simp: nodes_ok_def)
  qed
  then show ?thesis using from_mmap_ok by blast
qed

theorem materialized_store_same_rows_witness:
  "nodes_ok (from_mmap sample_nodes) \<and>
    (\<exists>t. to_owned_store (from_mmap sample_nodes) = Inr t \<and> \<not> is_mmap_backed t \<and>
      store_nodes t = [(True, 9, [97]), (False, 266, [0xC3, 0xA9])])"
  using materialized_store_same_rows [of sample_nodes sample_nodes "from_mmap sample_nodes"]
    sample_nodes_valid by (auto simp: sample_nodes_rows)

text \<open>
  on a well-formed owned store with room for one more 32-bit index, adding a node
  appends one active row and returns its index (the fallible and the panicking variant
  alike), deactivating clears the active flag of exactly one row and ignores an index out
  of range, and both keep the store well formed, its key width included.
\<close>

theorem node_mutations_exact:
  assumes "nodes_ok s" and "\<not> is_mmap_backed s"
    and "length (store_nodes s) + 1 < 2 ^ 32" and "utf8_ok key"
  shows "(\<exists>t. try_add_node s oid key = Inr (t, word_of_nat (length (store_nodes s))) \<and>
      add_node s oid key = Inr (t, word_of_nat (length (store_nodes s))) \<and>
      nodes_ok t \<and> store_nodes t = store_nodes s @ [(True, oid, key)]) \<and>
    nodes_ok (deactivate s i) \<and>
    store_nodes (deactivate s i) =
      (if unat i < length (store_nodes s)
       then (store_nodes s)[unat i := (False, snd (store_nodes s ! unat i))] else store_nodes s)"
  using try_add_node_owned [OF assms] deactivate_owned [OF assms(1,2)] by blast

theorem node_mutations_exact_witness:
  "nodes_ok new_node_store \<and>
    (\<exists>t. try_add_node new_node_store 7 [97] = Inr (t, 0) \<and> store_nodes t = [(True, 7, [97])] \<and>
      store_nodes (deactivate new_node_store 3) = [])"
proof -
  have ok: "nodes_ok new_node_store" "\<not> is_mmap_backed new_node_store" "store_nodes new_node_store = []"
    by (simp_all add: nodes_ok_def backing_ok_def new_node_store_def store_nodes_def max_width_def
        is_mmap_backed_def)
  with node_mutations_exact [OF ok(1,2), of "[97]" 7 3] show ?thesis by auto
qed

end
