(* ===== verification/Visibility.thy ===== *)
theory Visibility
  imports EdgeStore Safety "HOL-Library.AList"
begin

text \<open>
  Caller visibility (\<open>graph/src/visibility.rs\<close>): the prepared scope a graph algorithm
  asks for every node and relationship, the bounded statement cache of resolved verdicts,
  and the candidate, probe and verdict batches exchanged with the row-level-security
  probes. A \<open>RoaringBitmap\<close> or \<open>HashSet\<close> is a set; a \<open>HashMap\<close> that is only looked
  up and counted is an association list without duplicate keys. Allocation failures
  (\<open>try_reserve\<close>) are not modelled.
\<close>

section \<open>Visibility scope\<close>

datatype relationship_type_policy = Selected "u32 set" | AllTypes

definition requires_identity :: "relationship_type_policy \<Rightarrow> edge_type_id \<Rightarrow> bool" where
  "requires_identity p edge_type = (case p of Selected types \<Rightarrow> edge_type \<in> types | AllTypes \<Rightarrow> True)"

datatype visibility_scope =
    Unrestricted
  | DirectNode u32
  | Enforced "u32 set" "u32 set" relationship_type_policy

fun allows_node :: "visibility_scope \<Rightarrow> u32 \<Rightarrow> bool" where
  "allows_node Unrestricted node_idx = True"
| "allows_node (DirectNode visible_node) node_idx = (node_idx = visible_node)"
| "allows_node (Enforced hidden_nodes _ _) node_idx = (node_idx \<notin> hidden_nodes)"

fun allows_relationship ::
  "visibility_scope \<Rightarrow> edge_type_id \<Rightarrow> relationship_id option \<Rightarrow> bool graph_result" where
  "allows_relationship Unrestricted _ _ = Inr True"
| "allows_relationship (DirectNode _) _ _ = Inr False"
| "allows_relationship (Enforced _ hidden_relationships policy) edge_type rid =
     (if \<not> requires_identity policy edge_type then Inr True
      else ok_or (Err RlsRelationshipIdentityMissing)
        (map_option (\<lambda>i. i \<notin> hidden_relationships) rid))"

fun hide_nodes :: "visibility_scope \<Rightarrow> u32 set \<Rightarrow> visibility_scope" where
  "hide_nodes (Enforced hn hr p) nodes = Enforced (hn \<union> nodes) hr p"
| "hide_nodes s _ = s"

fun hide_node :: "visibility_scope \<Rightarrow> u32 \<Rightarrow> visibility_scope" where
  "hide_node (Enforced hn hr p) node_idx = Enforced (insert node_idx hn) hr p"
| "hide_node s _ = s"

fun reveal_node :: "visibility_scope \<Rightarrow> u32 \<Rightarrow> visibility_scope" where
  "reveal_node (Enforced hn hr p) node_idx = Enforced (hn - {node_idx}) hr p"
| "reveal_node s _ = s"

fun hide_relationship :: "visibility_scope \<Rightarrow> relationship_id \<Rightarrow> visibility_scope" where
  "hide_relationship (Enforced hn hr p) rid = Enforced hn (insert rid hr) p"
| "hide_relationship s _ = s"

fun reveal_relationship :: "visibility_scope \<Rightarrow> relationship_id \<Rightarrow> visibility_scope" where
  "reveal_relationship (Enforced hn hr p) rid = Enforced hn (hr - {rid}) p"
| "reveal_relationship s _ = s"

definition is_unrestricted :: "visibility_scope \<Rightarrow> bool" where
  "is_unrestricted s = (s = Unrestricted)"

section \<open>Statement cache\<close>

datatype visibility_verdict = Unknown | Visible | Hidden

record visibility_cache_limits =
  max_entries :: usize
  max_bytes :: usize

record visibility_statement_cache =
  node_verdicts :: "(u32 \<times> visibility_verdict) list"
  relationship_verdicts :: "(relationship_id \<times> visibility_verdict) list"
  retained_bytes :: usize
  limits :: visibility_cache_limits

definition new_cache :: "visibility_cache_limits \<Rightarrow> visibility_statement_cache" where
  "new_cache l =
     \<lparr>node_verdicts = [], relationship_verdicts = [], retained_bytes = 0, limits = l\<rparr>"

definition node_verdict :: "visibility_statement_cache \<Rightarrow> u32 \<Rightarrow> visibility_verdict" where
  "node_verdict c node_idx = opt_get_or Unknown (map_of (node_verdicts c) node_idx)"

definition relationship_verdict ::
  "visibility_statement_cache \<Rightarrow> relationship_id \<Rightarrow> visibility_verdict" where
  "relationship_verdict c rid = opt_get_or Unknown (map_of (relationship_verdicts c) rid)"

definition u64_saturated :: "usize \<Rightarrow> u64" where
  "u64_saturated n = (if n < 2 ^ 64 then word_of_nat n else - 1)"

definition cache_resource_limit :: "usize \<Rightarrow> usize \<Rightarrow> visibility_cache_limits \<Rightarrow> graph_error" where
  "cache_resource_limit requested_bytes entry_bytes l =
     ResourceLimit ''visibility_cache'' ''query.visibility''
       (u64_saturated (requested_bytes - entry_bytes)) (u64_saturated entry_bytes)
       (u64_saturated (max_bytes l))"

definition check_capacity ::
  "visibility_statement_cache \<Rightarrow> usize \<Rightarrow> usize \<Rightarrow> usize \<Rightarrow> unit graph_result" where
  "check_capacity c requested_entries requested_bytes entry_bytes =
     (if requested_entries > max_entries (limits c) \<or> requested_bytes > max_bytes (limits c)
      then Inl (Err (cache_resource_limit requested_bytes entry_bytes (limits c)))
      else Inr ())"

text \<open>\<open>size_of::<(u32, VisibilityVerdict)>() * 2\<close>, for nodes and relationships alike.\<close>

definition ENTRY_BYTES :: usize where
  "ENTRY_BYTES = 8 * 2"

definition unknown_verdict_error :: "graph_error fault" where
  "unknown_verdict_error = Err (InvalidFilter ''visibility cache cannot record Unknown'')"

definition requested_entries :: "visibility_statement_cache \<Rightarrow> usize option" where
  "requested_entries c =
     Option.bind (checked_add_usize (length (node_verdicts c)) (length (relationship_verdicts c)))
       (\<lambda>n. checked_add_usize n 1)"

definition entries_overflow :: "graph_error fault" where
  "entries_overflow = Err (InvalidFilter ''visibility cache entry count overflow'')"

definition bytes_overflow :: "graph_error fault" where
  "bytes_overflow = Err (InvalidFilter ''visibility cache byte count overflow'')"

definition try_record ::
  "visibility_statement_cache \<Rightarrow> u32 \<Rightarrow> visibility_verdict \<Rightarrow> visibility_statement_cache graph_result"
where
  "try_record c node_idx verdict =
     (if verdict = Unknown then Inl unknown_verdict_error
      else if map_of (node_verdicts c) node_idx \<noteq> None
      then Inr (c\<lparr>node_verdicts := AList.update node_idx verdict (node_verdicts c)\<rparr>)
      else
        rbind (ok_or entries_overflow (requested_entries c)) (\<lambda>entries.
        rbind (ok_or bytes_overflow (checked_add_usize (retained_bytes c) ENTRY_BYTES)) (\<lambda>bytes.
        rbind (check_capacity c entries bytes ENTRY_BYTES) (\<lambda>_.
          Inr (c\<lparr>node_verdicts := AList.update node_idx verdict (node_verdicts c),
                 retained_bytes := bytes\<rparr>)))))"

definition try_record_relationship ::
  "visibility_statement_cache \<Rightarrow> relationship_id \<Rightarrow> visibility_verdict \<Rightarrow>
    visibility_statement_cache graph_result" where
  "try_record_relationship c rid verdict =
     (if verdict = Unknown then Inl unknown_verdict_error
      else if map_of (relationship_verdicts c) rid \<noteq> None
      then Inr (c\<lparr>relationship_verdicts := AList.update rid verdict (relationship_verdicts c)\<rparr>)
      else
        rbind (ok_or entries_overflow (requested_entries c)) (\<lambda>entries.
        rbind (ok_or bytes_overflow (checked_add_usize (retained_bytes c) ENTRY_BYTES)) (\<lambda>bytes.
        rbind (check_capacity c entries bytes ENTRY_BYTES) (\<lambda>_.
          Inr (c\<lparr>relationship_verdicts := AList.update rid verdict (relationship_verdicts c),
                 retained_bytes := bytes\<rparr>)))))"

section \<open>Lazy coordinator\<close>

datatype lazy_visibility_mode = LazyUnrestricted | LazyEnforced

datatype lazy_relationship_type_policy = LazySelected "edge_type_id set" | LazyAll

record lazy_visibility_coordinator =
  cache :: visibility_statement_cache
  mode :: lazy_visibility_mode
  probe_tables :: "u32 set"
  policy_rls_tables :: "u32 set"
  probe_mappings :: "u64 set"
  probe_edge_types :: lazy_relationship_type_policy

definition with_relationship_mappings ::
  "visibility_cache_limits \<Rightarrow> lazy_visibility_mode \<Rightarrow> u32 set \<Rightarrow> u32 set \<Rightarrow> u64 set \<Rightarrow>
    lazy_relationship_type_policy \<Rightarrow> lazy_visibility_coordinator" where
  "with_relationship_mappings l md tables rls_tables mappings edge_types =
     \<lparr>cache = new_cache l, mode = md, probe_tables = tables, policy_rls_tables = rls_tables,
      probe_mappings = mappings, probe_edge_types = edge_types\<rparr>"

definition new_lazy_coordinator ::
  "visibility_cache_limits \<Rightarrow> lazy_visibility_mode \<Rightarrow> u32 set \<Rightarrow> u32 set \<Rightarrow>
    lazy_visibility_coordinator" where
  "new_lazy_coordinator l md tables rls_tables =
     with_relationship_mappings l md tables rls_tables {} (LazySelected {})"

definition table_requires_probe :: "lazy_visibility_coordinator \<Rightarrow> u32 \<Rightarrow> bool" where
  "table_requires_probe v oid \<longleftrightarrow> mode v = LazyEnforced \<and> oid \<in> probe_tables v"

definition table_has_policy_rls :: "lazy_visibility_coordinator \<Rightarrow> u32 \<Rightarrow> bool" where
  "table_has_policy_rls v oid \<longleftrightarrow> oid \<in> policy_rls_tables v"

definition is_enforced :: "lazy_visibility_coordinator \<Rightarrow> bool" where
  "is_enforced v \<longleftrightarrow> mode v = LazyEnforced"

definition mapping_requires_probe :: "lazy_visibility_coordinator \<Rightarrow> u64 \<Rightarrow> bool" where
  "mapping_requires_probe v mapping \<longleftrightarrow> mode v = LazyEnforced \<and> mapping \<in> probe_mappings v"

definition edge_type_requires_relationship_identity ::
  "lazy_visibility_coordinator \<Rightarrow> edge_type_id \<Rightarrow> bool" where
  "edge_type_requires_relationship_identity v edge_type \<longleftrightarrow>
     mode v = LazyEnforced \<and>
     (case probe_edge_types v of LazySelected types \<Rightarrow> edge_type \<in> types | LazyAll \<Rightarrow> True)"

datatype proven_visible_node = ProvenVisibleNode u32

definition prove_visible_node ::
  "lazy_visibility_coordinator \<Rightarrow> u32 \<Rightarrow> proven_visible_node graph_result" where
  "prove_visible_node v node_idx =
     (if node_verdict (cache v) node_idx \<noteq> Visible
      then Inl (Err (Internal ''cannot authorize an unresolved or hidden direct node''))
      else Inr (ProvenVisibleNode node_idx))"

fun direct_node :: "proven_visible_node \<Rightarrow> visibility_scope" where
  "direct_node (ProvenVisibleNode node_idx) = DirectNode node_idx"

definition record_node ::
  "lazy_visibility_coordinator \<Rightarrow> u32 \<Rightarrow> visibility_verdict \<Rightarrow>
    lazy_visibility_coordinator graph_result" where
  "record_node v node_idx verdict =
     rbind (try_record (cache v) node_idx verdict) (\<lambda>c. Inr (v\<lparr>cache := c\<rparr>))"

definition record_relationship ::
  "lazy_visibility_coordinator \<Rightarrow> relationship_id \<Rightarrow> visibility_verdict \<Rightarrow>
    lazy_visibility_coordinator graph_result" where
  "record_relationship v rid verdict =
     rbind (try_record_relationship (cache v) rid verdict) (\<lambda>c. Inr (v\<lparr>cache := c\<rparr>))"

section \<open>Candidate, probe and verdict batches\<close>

datatype visibility_candidate =
    NodeCandidate u32 u32 "u8 list" u32
  | RelationshipCandidate u32 u64 "u8 list" "relationship_id option" edge_type_id

fun sequence :: "visibility_candidate \<Rightarrow> u32" where
  "sequence (NodeCandidate sq _ _ _) = sq"
| "sequence (RelationshipCandidate sq _ _ _ _) = sq"

fun candidate_key_bytes :: "visibility_candidate \<Rightarrow> usize" where
  "candidate_key_bytes (NodeCandidate _ _ source_key _) = length source_key"
| "candidate_key_bytes (RelationshipCandidate _ _ source_key _ _) = length source_key"

record visibility_batch_limits =
  max_candidates :: usize
  max_key_bytes :: usize

type_synonym visibility_candidate_batch = "visibility_candidate list"

definition candidate_step ::
  "visibility_batch_limits \<Rightarrow> visibility_candidate \<Rightarrow> usize \<times> u32 option \<Rightarrow>
    (usize \<times> u32 option) graph_result" where
  "candidate_step l c = (\<lambda>(bytes, previous).
     if (case previous of None \<Rightarrow> False | Some v \<Rightarrow> sequence c \<le> v)
     then Inl (Err (InvalidFilter ''visibility candidate sequence must be strictly increasing''))
     else
       rbind (ok_or (Err (InvalidFilter ''visibility candidate key bytes overflow''))
         (checked_add_usize bytes (candidate_key_bytes c))) (\<lambda>bytes'.
       if bytes' > max_key_bytes l
       then Inl (Err (InvalidFilter ''visibility candidate key bytes exceed batch limit''))
       else Inr (bytes', Some (sequence c))))"

definition candidate_batch_try_new ::
  "visibility_candidate list \<Rightarrow> visibility_batch_limits \<Rightarrow> visibility_candidate_batch graph_result"
where
  "candidate_batch_try_new candidates l =
     (if length candidates > max_candidates l
      then Inl (Err (InvalidFilter ''visibility candidate count exceeds batch limit''))
      else rbind (fold_r (candidate_step l) candidates (0, None)) (\<lambda>_. Inr candidates))"

definition batch_key_bytes :: "visibility_candidate_batch \<Rightarrow> usize graph_result" where
  "batch_key_bytes batch =
     fold_r (\<lambda>c total. ok_or (Err (InvalidFilter ''visibility candidate key bytes overflow''))
       (checked_add_usize total (candidate_key_bytes c))) batch 0"

record visibility_probe_batch =
  probe_candidates :: "visibility_candidate list"
  unique_node_keys :: "(u32 \<times> u8 list) list"
  unique_relationship_keys :: "(u64 \<times> u8 list) list"

fun probe_step ::
  "visibility_candidate \<Rightarrow> (u32 \<times> u8 list) set \<times> (u32 \<times> u8 list) list \<times> (u64 \<times> u8 list) list \<Rightarrow>
    (u32 \<times> u8 list) set \<times> (u32 \<times> u8 list) list \<times> (u64 \<times> u8 list) list" where
  "probe_step (NodeCandidate _ oid source_key _) (seen, nodes, rels) =
     (let key = (oid, source_key) in
      (insert key seen, (if key \<in> seen then nodes else nodes @ [key]), rels))"
| "probe_step (RelationshipCandidate _ mapping source_key _ _) (seen, nodes, rels) =
     (let key = (mapping, source_key) in
      (seen, nodes, (if key \<in> set rels then rels else rels @ [key])))"

definition probe_batch_try_new :: "visibility_candidate_batch \<Rightarrow> visibility_probe_batch" where
  "probe_batch_try_new batch =
     (case fold probe_step batch ({}, [], []) of (_, nodes, rels) \<Rightarrow>
        \<lparr>probe_candidates = batch, unique_node_keys = nodes, unique_relationship_keys = rels\<rparr>)"

type_synonym visibility_verdict_batch = "(u32 \<times> visibility_verdict) list"

definition verdict_batch_try_new ::
  "visibility_candidate_batch \<Rightarrow> (u32 \<times> visibility_verdict) list \<Rightarrow>
    visibility_verdict_batch graph_result" where
  "verdict_batch_try_new batch verdicts =
     (if length verdicts \<noteq> length batch
        \<or> list_ex (\<lambda>((sq, verdict), candidate). sq \<noteq> sequence candidate \<or> verdict = Unknown)
            (zip verdicts batch)
      then Inl (Err (InvalidFilter
        ''visibility verdicts must be complete, resolved, and sequence-aligned''))
      else Inr verdicts)"

definition batch_verdict :: "visibility_verdict_batch \<Rightarrow> u32 \<Rightarrow> visibility_verdict graph_result" where
  "batch_verdict verdicts sq =
     ok_or (Err (Internal (''visibility verdict sequence '' @ show_nat (unat sq) @ '' is absent'')))
       (map_option snd (List.find (\<lambda>(c, _). c = sq) verdicts))"

fun candidate_visible :: "visibility_scope \<Rightarrow> visibility_candidate \<Rightarrow> bool graph_result" where
  "candidate_visible s (NodeCandidate _ _ _ node_idx) = Inr (allows_node s node_idx)"
| "candidate_visible s (RelationshipCandidate _ _ _ rid edge_type) =
     allows_relationship s edge_type rid"

definition resolve_prepared_batch ::
  "visibility_scope \<Rightarrow> visibility_candidate_batch \<Rightarrow> visibility_verdict_batch graph_result" where
  "resolve_prepared_batch s batch =
     rbind (map_r (\<lambda>c. rbind (candidate_visible s c) (\<lambda>v.
       Inr (sequence c, if v then Visible else Hidden))) batch) (\<lambda>verdicts.
     verdict_batch_try_new batch verdicts)"

section \<open>Batches\<close>

lemma candidate_step_Inr:
  "candidate_step l c (bytes, previous) = Inr t \<longleftrightarrow>
    (\<forall>v. previous = Some v \<longrightarrow> v < sequence c) \<and>
    bytes + candidate_key_bytes c \<le> min usize_max (max_key_bytes l) \<and>
    t = (bytes + candidate_key_bytes c, Some (sequence c))"
  by (auto simp: candidate_step_def checked_add_usize_def ok_or_def split: option.splits if_splits)

lemma candidate_fold_Inr:
  assumes "bytes \<le> min usize_max (max_key_bytes l)"
  shows "(\<exists>t. fold_r (candidate_step l) cs (bytes, previous) = Inr t) \<longleftrightarrow>
    sorted_wrt (<) (map sequence cs) \<and>
    (\<forall>v. previous = Some v \<longrightarrow> (\<forall>c \<in> set cs. v < sequence c)) \<and>
    bytes + sum_list (map candidate_key_bytes cs) \<le> min usize_max (max_key_bytes l)"
  using assms
proof (induction cs arbitrary: bytes previous)
  case Nil
  then show ?case by simp
next
  case (Cons c cs)
  show ?case
  proof (cases "(\<forall>v. previous = Some v \<longrightarrow> v < sequence c) \<and>
      bytes + candidate_key_bytes c \<le> min usize_max (max_key_bytes l)")
    case True
    then have "candidate_step l c (bytes, previous) =
        Inr (bytes + candidate_key_bytes c, Some (sequence c))"
      by (simp add: candidate_step_Inr)
    with True Cons.IH [of "bytes + candidate_key_bytes c" "Some (sequence c)"] show ?thesis
      by (auto simp: add.assoc intro: less_trans)
  next
    case False
    then have "\<nexists>t. candidate_step l c (bytes, previous) = Inr t"
      by (auto simp: candidate_step_Inr)
    then have "\<nexists>t. fold_r (candidate_step l) (c # cs) (bytes, previous) = Inr t"
      by (auto simp: result_simps)
    with False show ?thesis by auto
  qed
qed

lemma candidate_batch_Inr:
  "candidate_batch_try_new cs l = Inr b \<longleftrightarrow>
    b = cs \<and> length cs \<le> max_candidates l \<and> sorted_wrt (<) (map sequence cs) \<and>
    sum_list (map candidate_key_bytes cs) \<le> min usize_max (max_key_bytes l)"
  using candidate_fold_Inr [of 0 l cs None]
  by (auto simp: candidate_batch_try_new_def result_simps)

lemma batch_verdict_zip:
  assumes "sorted_wrt (<) (map sequence cs)" "c \<in> set cs"
  shows "batch_verdict (map (\<lambda>c. (sequence c, f c)) cs) (sequence c) = Inr (f c)"
  using assms by (induction cs) (auto simp: batch_verdict_def)

lemma candidate_visible_error:
  "candidate_visible s c = Inl e \<Longrightarrow> e = Err RlsRelationshipIdentityMissing"
  by (cases "(s, c)" rule: candidate_visible.cases; cases s)
    (auto simp: ok_or_def split: if_splits option.splits)

lemma resolve_map:
  "map_r (\<lambda>c. rbind (candidate_visible s c) (\<lambda>v. Inr (sequence c, if v then Visible else Hidden))) cs =
    (if \<exists>c \<in> set cs. \<exists>e. candidate_visible s c = Inl e
     then Inl (Err RlsRelationshipIdentityMissing)
     else Inr (map (\<lambda>c. (sequence c, if candidate_visible s c = Inr True then Visible else Hidden)) cs))"
proof (induction cs)
  case Nil
  then show ?case by simp
next
  case (Cons c cs)
  then show ?case
    by (cases "candidate_visible s c") (auto dest: candidate_visible_error)
qed

lemma verdict_batch_aligned:
  "verdict_batch_try_new cs (map (\<lambda>c. (sequence c, if p c then Visible else Hidden)) cs) =
    Inr (map (\<lambda>c. (sequence c, if p c then Visible else Hidden)) cs)"
proof -
  have "\<not> list_ex (\<lambda>((sq, verdict), candidate). sq \<noteq> sequence candidate \<or> verdict = Unknown)
      (zip (map (\<lambda>c. (sequence c, if p c then Visible else Hidden)) cs) cs)"
    by (induction cs) auto
  then show ?thesis by (simp add: verdict_batch_try_new_def)
qed

lemma probe_fold:
  assumes "seen = set nodes"
  shows "\<exists>seen'. fold probe_step batch (seen, nodes, rels) =
    (seen',
     fold (\<lambda>k ks. if k \<in> set ks then ks else ks @ [k])
       (List.map_filter (\<lambda>c. case c of NodeCandidate _ oid key _ \<Rightarrow> Some (oid, key) | _ \<Rightarrow> None) batch) nodes,
     fold (\<lambda>k ks. if k \<in> set ks then ks else ks @ [k])
       (List.map_filter (\<lambda>c. case c of RelationshipCandidate _ mp key _ _ \<Rightarrow> Some (mp, key) | _ \<Rightarrow> None)
         batch) rels)"
  using assms
proof (induction batch arbitrary: seen nodes rels)
  case Nil
  then show ?case by (simp add: List.map_filter_def)
next
  case (Cons c batch)
  show ?case
  proof (cases c)
    case (NodeCandidate sq oid key idx)
    with Cons.prems Cons.IH [of "insert (oid, key) seen"
        "if (oid, key) \<in> set nodes then nodes else nodes @ [(oid, key)]" rels]
    show ?thesis by (auto simp: List.map_filter_simps Let_def insert_absorb)
  next
    case (RelationshipCandidate sq mp key rid ty)
    with Cons.prems Cons.IH [of seen nodes "if (mp, key) \<in> set rels then rels else rels @ [(mp, key)]"]
    show ?thesis by (auto simp: List.map_filter_simps Let_def)
  qed
qed

text \<open>First occurrences, in order.\<close>

definition first_seen :: "'a list \<Rightarrow> 'a list" where
  "first_seen xs = rev (remdups (rev xs))"

lemma fold_first_seen: "fold (\<lambda>k ks. if k \<in> set ks then ks else ks @ [k]) xs [] = first_seen xs"
  by (induction xs rule: rev_induct) (auto simp: first_seen_def)

definition node_keys :: "visibility_candidate list \<Rightarrow> (u32 \<times> u8 list) list" where
  "node_keys = List.map_filter (\<lambda>c. case c of NodeCandidate _ oid key _ \<Rightarrow> Some (oid, key) | _ \<Rightarrow> None)"

definition relationship_keys :: "visibility_candidate list \<Rightarrow> (u64 \<times> u8 list) list" where
  "relationship_keys =
     List.map_filter (\<lambda>c. case c of RelationshipCandidate _ mp key _ _ \<Rightarrow> Some (mp, key) | _ \<Rightarrow> None)"

lemma probe_batch_keys:
  "probe_batch_try_new batch = \<lparr>probe_candidates = batch,
     unique_node_keys = first_seen (node_keys batch),
     unique_relationship_keys = first_seen (relationship_keys batch)\<rparr>"
proof -
  obtain seen' where "fold probe_step batch ({}, [], []) =
      (seen', first_seen (node_keys batch), first_seen (relationship_keys batch))"
    using probe_fold [of "{}" "[]" batch "[]"]
    by (auto simp: fold_first_seen node_keys_def relationship_keys_def)
  then show ?thesis by (simp add: probe_batch_try_new_def)
qed

section \<open>Recording verdicts\<close>

text \<open>
  What the statement cache and the coordinator promise of either of their verdict tables:
  recording one verdict changes the lookup of that key only, keeps the state well formed,
  and never stores \<open>Unknown\<close>.
\<close>

locale verdict_table =
  fixes ok :: "'s \<Rightarrow> bool"
    and lookup :: "'s \<Rightarrow> 'k \<Rightarrow> visibility_verdict"
    and record_verdict :: "'s \<Rightarrow> 'k \<Rightarrow> visibility_verdict \<Rightarrow> 's graph_result"
  assumes record_ok: "ok s \<Longrightarrow> record_verdict s k v = Inr t \<Longrightarrow> ok t"
    and record_lookup: "ok s \<Longrightarrow> record_verdict s k v = Inr t \<Longrightarrow>
      lookup t k' = (if k' = k then v else lookup s k')"
    and record_resolved: "record_verdict s k v = Inr t \<Longrightarrow> v \<noteq> Unknown"
begin

lemma record_all:
  assumes "ok s" "fold_r (\<lambda>(k, v) s. record_verdict s k v) kvs s = Inr t"
  shows "ok t \<and> lookup t k = (case map_of (rev kvs) k of Some v \<Rightarrow> v | None \<Rightarrow> lookup s k) \<and>
    (\<forall>v \<in> snd ` set kvs. v \<noteq> Unknown)"
  using assms
proof (induction kvs arbitrary: s)
  case Nil
  then show ?case by simp
next
  case (Cons kv kvs)
  obtain k' v where kv: "kv = (k', v)" by (cases kv)
  with Cons.prems obtain s1 where s1: "record_verdict s k' v = Inr s1"
    "fold_r (\<lambda>(k, v) s. record_verdict s k v) kvs s1 = Inr t"
    by (auto simp: result_simps)
  from Cons.IH [OF record_ok [OF Cons.prems(1) s1(1)] s1(2)]
    record_lookup [OF Cons.prems(1) s1(1), of k] record_resolved [OF s1(1)]
  show ?case by (auto simp: kv map_add_def split: option.splits)
qed

end

definition cache_ok :: "visibility_statement_cache \<Rightarrow> bool" where
  "cache_ok c \<longleftrightarrow>
     distinct (map fst (node_verdicts c)) \<and> distinct (map fst (relationship_verdicts c)) \<and>
     Unknown \<notin> snd ` set (node_verdicts c) \<and> Unknown \<notin> snd ` set (relationship_verdicts c) \<and>
     retained_bytes c = ENTRY_BYTES * (length (node_verdicts c) + length (relationship_verdicts c)) \<and>
     length (node_verdicts c) + length (relationship_verdicts c) \<le> max_entries (limits c) \<and>
     retained_bytes c \<le> max_bytes (limits c) \<and> max_bytes (limits c) \<le> usize_max"

lemma new_cache_ok: "max_bytes l \<le> usize_max \<Longrightarrow> cache_ok (new_cache l)"
  by (simp add: cache_ok_def new_cache_def)

lemma length_update_new: "map_of xs k = None \<Longrightarrow> length (AList.update k v xs) = Suc (length xs)"
  by (induction xs) (auto split: if_splits)

lemma length_update_old: "map_of xs k = Some w \<Longrightarrow> length (AList.update k v xs) = length xs"
  by (induction xs) (auto split: if_splits)

lemma snd_update: "snd ` set (AList.update k v xs) \<subseteq> insert v (snd ` set xs)"
  by (induction xs) auto

lemma resolved_update:
  "Unknown \<notin> snd ` set xs \<Longrightarrow> v \<noteq> Unknown \<Longrightarrow> Unknown \<notin> snd ` set (AList.update k v xs)"
  using snd_update [of k v xs] by blast

definition has_room :: "visibility_statement_cache \<Rightarrow> bool" where
  "has_room c \<longleftrightarrow>
     Suc (length (node_verdicts c) + length (relationship_verdicts c)) \<le> max_entries (limits c) \<and>
     retained_bytes c + ENTRY_BYTES \<le> max_bytes (limits c)"

lemma capacity_check:
  assumes "cache_ok c"
  shows "has_room c \<Longrightarrow> requested_entries c =
      Some (Suc (length (node_verdicts c) + length (relationship_verdicts c))) \<and>
    checked_add_usize (retained_bytes c) ENTRY_BYTES = Some (retained_bytes c + ENTRY_BYTES) \<and>
    check_capacity c (Suc (length (node_verdicts c) + length (relationship_verdicts c)))
      (retained_bytes c + ENTRY_BYTES) ENTRY_BYTES = Inr ()"
    and "\<not> has_room c \<Longrightarrow> requested_entries c = Some n \<Longrightarrow>
      checked_add_usize (retained_bytes c) ENTRY_BYTES = Some b \<Longrightarrow>
      check_capacity c n b ENTRY_BYTES \<noteq> Inr ()"
  using assms
  by (auto simp: has_room_def cache_ok_def requested_entries_def checked_add_usize_def
      check_capacity_def ENTRY_BYTES_def split: if_splits Option.bind_splits)

lemma try_record_cases:
  assumes "cache_ok c" "v \<noteq> Unknown"
  shows "map_of (node_verdicts c) k \<noteq> None \<Longrightarrow>
      try_record c k v = Inr (c\<lparr>node_verdicts := AList.update k v (node_verdicts c)\<rparr>)"
    and "map_of (node_verdicts c) k = None \<Longrightarrow> has_room c \<Longrightarrow>
      try_record c k v = Inr (c\<lparr>node_verdicts := AList.update k v (node_verdicts c),
        retained_bytes := retained_bytes c + ENTRY_BYTES\<rparr>)"
    and "map_of (node_verdicts c) k = None \<Longrightarrow> \<not> has_room c \<Longrightarrow> try_record c k v \<noteq> Inr t"
  using assms capacity_check [OF assms(1)] by (auto simp: try_record_def result_simps)

lemma try_record_relationship_cases:
  assumes "cache_ok c" "v \<noteq> Unknown"
  shows "map_of (relationship_verdicts c) k \<noteq> None \<Longrightarrow>
      try_record_relationship c k v =
        Inr (c\<lparr>relationship_verdicts := AList.update k v (relationship_verdicts c)\<rparr>)"
    and "map_of (relationship_verdicts c) k = None \<Longrightarrow> has_room c \<Longrightarrow>
      try_record_relationship c k v =
        Inr (c\<lparr>relationship_verdicts := AList.update k v (relationship_verdicts c),
          retained_bytes := retained_bytes c + ENTRY_BYTES\<rparr>)"
    and "map_of (relationship_verdicts c) k = None \<Longrightarrow> \<not> has_room c \<Longrightarrow>
      try_record_relationship c k v \<noteq> Inr t"
  using assms capacity_check [OF assms(1)] by (auto simp: try_record_relationship_def result_simps)

lemma try_record_resolved: "try_record c k v = Inr t \<Longrightarrow> v \<noteq> Unknown"
  by (auto simp: try_record_def)

lemma try_record_relationship_resolved: "try_record_relationship c k v = Inr t \<Longrightarrow> v \<noteq> Unknown"
  by (auto simp: try_record_relationship_def)

lemma try_record_step:
  assumes "cache_ok c" "try_record c k v = Inr t"
  shows "cache_ok t \<and> limits t = limits c \<and> relationship_verdicts t = relationship_verdicts c \<and>
    node_verdicts t = AList.update k v (node_verdicts c)"
proof -
  note v = try_record_resolved [OF assms(2)]
  show ?thesis
  proof (cases "map_of (node_verdicts c) k")
    case None
    have room: "has_room c"
      using try_record_cases(3) [OF assms(1) v None] assms(2) by blast
    have t: "t = c\<lparr>node_verdicts := AList.update k v (node_verdicts c),
        retained_bytes := retained_bytes c + ENTRY_BYTES\<rparr>"
      using try_record_cases(2) [OF assms(1) v None room] assms(2) by simp
    show ?thesis
      using assms(1) room v unfolding t cache_ok_def has_room_def
      by (auto simp: length_update_new [OF None] ENTRY_BYTES_def distinct_update
          dest: resolved_update [of "node_verdicts c" v k])
  next
    case (Some w)
    with try_record_cases(1) [OF assms(1) v] assms(2)
    have t: "t = c\<lparr>node_verdicts := AList.update k v (node_verdicts c)\<rparr>" by auto
    show ?thesis
      using assms(1) v unfolding t cache_ok_def
      by (auto simp: length_update_old [OF Some] distinct_update
          dest: resolved_update [of "node_verdicts c" v k])
  qed
qed

lemma try_record_relationship_step:
  assumes "cache_ok c" "try_record_relationship c k v = Inr t"
  shows "cache_ok t \<and> limits t = limits c \<and> node_verdicts t = node_verdicts c \<and>
    relationship_verdicts t = AList.update k v (relationship_verdicts c)"
proof -
  note v = try_record_relationship_resolved [OF assms(2)]
  show ?thesis
  proof (cases "map_of (relationship_verdicts c) k")
    case None
    have room: "has_room c"
      using try_record_relationship_cases(3) [OF assms(1) v None] assms(2) by blast
    have t: "t = c\<lparr>relationship_verdicts := AList.update k v (relationship_verdicts c),
        retained_bytes := retained_bytes c + ENTRY_BYTES\<rparr>"
      using try_record_relationship_cases(2) [OF assms(1) v None room] assms(2) by simp
    show ?thesis
      using assms(1) room v unfolding t cache_ok_def has_room_def
      by (auto simp: length_update_new [OF None] ENTRY_BYTES_def distinct_update
          dest: resolved_update [of "relationship_verdicts c" v k])
  next
    case (Some w)
    with try_record_relationship_cases(1) [OF assms(1) v] assms(2)
    have t: "t = c\<lparr>relationship_verdicts := AList.update k v (relationship_verdicts c)\<rparr>" by auto
    show ?thesis
      using assms(1) v unfolding t cache_ok_def
      by (auto simp: length_update_old [OF Some] distinct_update
          dest: resolved_update [of "relationship_verdicts c" v k])
  qed
qed

interpretation node_table: verdict_table cache_ok node_verdict try_record
proof (unfold_locales, goal_cases)
  case (1 s k v t)
  then show ?case using try_record_step by blast
next
  case (2 s k v t k')
  then show ?case using try_record_step [OF 2] by (simp add: node_verdict_def update_conv')
next
  case (3 s k v t)
  then show ?case by (rule try_record_resolved)
qed

interpretation relationship_table: verdict_table cache_ok relationship_verdict try_record_relationship
proof (unfold_locales, goal_cases)
  case (1 s k v t)
  then show ?case using try_record_relationship_step by blast
next
  case (2 s k v t k')
  then show ?case
    using try_record_relationship_step [OF 2] by (simp add: relationship_verdict_def update_conv')
next
  case (3 s k v t)
  then show ?case by (rule try_record_relationship_resolved)
qed

interpretation coordinator_table: verdict_table "\<lambda>v. cache_ok (cache v)" "\<lambda>v. node_verdict (cache v)" record_node
proof (unfold_locales, goal_cases)
  case (1 s k v t)
  then show ?case by (auto simp: record_node_def result_simps intro: node_table.record_ok)
next
  case (2 s k v t k')
  then show ?case by (auto simp: record_node_def result_simps node_table.record_lookup)
next
  case (3 s k v t)
  then show ?case by (auto simp: record_node_def result_simps dest: try_record_resolved)
qed

section \<open>Properties\<close>

text \<open>
  a candidate batch is admitted, unchanged, exactly when it has at most the configured
  number of candidates, their sequence numbers strictly increase and their source keys
  together fit the byte limit (and \<open>usize\<close>); the probe built from it asks for every
  distinct node key and relationship key once, in the order of first occurrence.
\<close>

theorem candidate_batches_admitted:
  "(candidate_batch_try_new cs l = Inr b) =
    (b = cs \<and> length cs \<le> max_candidates l \<and> sorted_wrt (<) (map sequence cs) \<and>
     sum_list (map candidate_key_bytes cs) \<le> min usize_max (max_key_bytes l)) \<and>
   probe_candidates (probe_batch_try_new cs) = cs \<and>
   unique_node_keys (probe_batch_try_new cs) = first_seen (node_keys cs) \<and>
   unique_relationship_keys (probe_batch_try_new cs) = first_seen (relationship_keys cs)"
  by (simp add: candidate_batch_Inr probe_batch_keys)

text \<open>The scope needs a durable identity to decide a relationship of this type.\<close>

definition identity_needed :: "visibility_scope \<Rightarrow> visibility_candidate \<Rightarrow> bool" where
  "identity_needed s c =
     (case (s, c) of
        (Enforced _ _ p, RelationshipCandidate _ _ _ None ty) \<Rightarrow> requires_identity p ty
      | _ \<Rightarrow> False)"

lemma candidate_visible_cases:
  "candidate_visible s c = Inl e \<longleftrightarrow> identity_needed s c \<and> e = Err RlsRelationshipIdentityMissing"
  by (cases "(s, c)" rule: candidate_visible.cases; cases s)
    (auto simp: ok_or_def identity_needed_def split: option.splits)

text \<open>
  Who may see what, as rules: a node is hidden only by an enforced scope that lists it or by a scope for
  another single node; a relationship of a protected type is shown by its identity alone, and a scope
  for a single node shows no relationship.
\<close>

inductive shows_node :: "visibility_scope \<Rightarrow> u32 \<Rightarrow> bool" where
  everything: "shows_node Unrestricted i"
| proven: "shows_node (DirectNode i) i"
| not_hidden: "i \<notin> hidden_nodes \<Longrightarrow> shows_node (Enforced hidden_nodes hidden_relationships policy) i"

inductive protects :: "relationship_type_policy \<Rightarrow> edge_type_id \<Rightarrow> bool" where
  selected_type: "ty \<in> types \<Longrightarrow> protects (Selected types) ty"
| every_type: "protects AllTypes ty"

inductive shows_relationship :: "visibility_scope \<Rightarrow> edge_type_id \<Rightarrow> relationship_id option \<Rightarrow> bool" where
  everything_related: "shows_relationship Unrestricted ty rid"
| unprotected: "\<not> protects policy ty \<Longrightarrow> shows_relationship (Enforced hidden_nodes hidden_relationships policy) ty rid"
| identified: "i \<notin> hidden_relationships \<Longrightarrow>
    shows_relationship (Enforced hidden_nodes hidden_relationships policy) ty (Some i)"

inductive lacks_identity :: "visibility_scope \<Rightarrow> edge_type_id \<Rightarrow> relationship_id option \<Rightarrow> bool" where
  "protects policy ty \<Longrightarrow> lacks_identity (Enforced hidden_nodes hidden_relationships policy) ty None"

inductive shows_candidate :: "visibility_scope \<Rightarrow> visibility_candidate \<Rightarrow> bool" where
  "shows_node s i \<Longrightarrow> shows_candidate s (NodeCandidate sq oid key i)"
| "shows_relationship s ty rid \<Longrightarrow> shows_candidate s (RelationshipCandidate sq mapping key rid ty)"

inductive unidentified_candidate :: "visibility_scope \<Rightarrow> visibility_candidate \<Rightarrow> bool" where
  "lacks_identity s ty rid \<Longrightarrow> unidentified_candidate s (RelationshipCandidate sq mapping key rid ty)"

inductive_simps shows_node_simps [simp]:
  "shows_node Unrestricted i" "shows_node (DirectNode j) i" "shows_node (Enforced hn hr p) i"

inductive_simps protects_simps [simp]: "protects (Selected types) ty" "protects AllTypes ty"

inductive_simps shows_relationship_simps [simp]:
  "shows_relationship Unrestricted ty rid" "shows_relationship (DirectNode j) ty rid"
  "shows_relationship (Enforced hn hr p) ty rid"

inductive_simps lacks_identity_simps [simp]:
  "lacks_identity Unrestricted ty rid" "lacks_identity (DirectNode j) ty rid" "lacks_identity (Enforced hn hr p) ty rid"

inductive_simps shows_candidate_simps [simp]:
  "shows_candidate s (NodeCandidate sq oid key i)" "shows_candidate s (RelationshipCandidate sq mapping key rid ty)"

inductive_simps unidentified_candidate_simps [simp]:
  "unidentified_candidate s (NodeCandidate sq oid key i)" "unidentified_candidate s (RelationshipCandidate sq mapping key rid ty)"

lemma requires_identity_protects: "requires_identity p ty = protects p ty"
  by (cases p) (simp_all add: requires_identity_def)

lemma allows_node_shows: "allows_node s i = shows_node s i"
  by (cases s) auto

lemma allows_relationship_shows:
  "allows_relationship s ty rid =
    (if lacks_identity s ty rid then Inl (Err RlsRelationshipIdentityMissing) else Inr (shows_relationship s ty rid))"
  by (cases s; cases rid) (auto simp: requires_identity_protects)

lemma candidate_visible_shows:
  "candidate_visible s c =
    (if unidentified_candidate s c then Inl (Err RlsRelationshipIdentityMissing) else Inr (shows_candidate s c))"
  by (cases c) (simp_all add: allows_node_shows allows_relationship_shows)

text \<open>
  C11: resolving an admitted batch against the prepared scope fails closed: if one relationship of a
  protected type has no durable identity the whole batch is refused with \<open>RlsRelationshipIdentityMissing\<close>.
  Otherwise every candidate is answered, in order and under its own sequence number, \<open>Visible\<close> exactly
  when the rules above show it and \<open>Hidden\<close> otherwise, and looking a sequence number up finds that
  answer.
\<close>

theorem prepared_verdicts_exact:
  assumes "candidate_batch_try_new cs l = Inr batch"
  shows "if \<exists>c \<in> set cs. unidentified_candidate s c
    then resolve_prepared_batch s batch = Inl (Err RlsRelationshipIdentityMissing)
    else \<exists>vs. resolve_prepared_batch s batch = Inr vs \<and>
      vs = map (\<lambda>c. (sequence c, if shows_candidate s c then Visible else Hidden)) cs \<and>
      (\<forall>c \<in> set cs. batch_verdict vs (sequence c) = Inr (if shows_candidate s c then Visible else Hidden))"
proof -
  have b: "batch = cs" "sorted_wrt (<) (map sequence cs)"
    using assms by (auto simp: candidate_batch_Inr)
  have err: "(\<exists>c \<in> set cs. \<exists>e. candidate_visible s c = Inl e) \<longleftrightarrow> (\<exists>c \<in> set cs. unidentified_candidate s c)"
    by (simp add: candidate_visible_shows)
  have ans: "(if candidate_visible s c = Inr True then Visible else Hidden) = (if shows_candidate s c then Visible else Hidden)"
    if "\<not> unidentified_candidate s c" for c
    using that by (simp add: candidate_visible_shows)
  show ?thesis
    using batch_verdict_zip [OF b(2)]
    by (auto simp: resolve_prepared_batch_def resolve_map err b(1) verdict_batch_aligned ans)
qed

theorem prepared_verdicts_exact_witness:
  "\<exists>vs. resolve_prepared_batch (Enforced {4} {8} (Selected {9}))
      [NodeCandidate 1 50 [97] 4, RelationshipCandidate 2 3 [98] None 5, RelationshipCandidate 3 3 [99] (Some 8) 9] = Inr vs \<and>
    batch_verdict vs 1 = Inr Hidden \<and> batch_verdict vs 2 = Inr Visible \<and> batch_verdict vs 3 = Inr Hidden"
proof -
  let ?cs = "[NodeCandidate 1 50 [97] 4, RelationshipCandidate 2 3 [98] None 5, RelationshipCandidate 3 3 [99] (Some 8) 9]"
  have "candidate_batch_try_new ?cs \<lparr>max_candidates = 3, max_key_bytes = 3\<rparr> = Inr ?cs"
    by (simp add: candidate_batch_Inr usize_max_def)
  from prepared_verdicts_exact [OF this, of "Enforced {4} {8} (Selected {9})"] show ?thesis by auto
qed

text \<open>
  the statement cache keeps its invariant: no key twice, no \<open>Unknown\<close> stored, the byte
  account exactly 16 per entry, and both limits respected. Recording a resolved verdict
  fails only when the key is new and an entry or its bytes would pass a limit, and on
  success it changes the lookup of that key alone and leaves the other table untouched.
\<close>

theorem cache_record_exact:
  assumes "cache_ok c" and "v \<noteq> Unknown"
  shows "((\<exists>t. try_record c k v = Inr t) \<longleftrightarrow> node_verdict c k \<noteq> Unknown \<or> has_room c) \<and>
    (\<forall>t. try_record c k v = Inr t \<longrightarrow>
      cache_ok t \<and> limits t = limits c \<and> node_verdict t = (node_verdict c)(k := v) \<and>
      relationship_verdict t = relationship_verdict c)"
proof -
  have resolved: "map_of (node_verdicts c) k \<noteq> Some Unknown"
    using assms(1) by (force simp: cache_ok_def dest: map_of_SomeD)
  have "node_verdict c k \<noteq> Unknown \<longleftrightarrow> map_of (node_verdicts c) k \<noteq> None"
    using resolved by (cases "map_of (node_verdicts c) k") (auto simp: node_verdict_def)
  then have "(\<exists>t. try_record c k v = Inr t) \<longleftrightarrow> node_verdict c k \<noteq> Unknown \<or> has_room c"
    using try_record_cases [OF assms, of k] by auto
  moreover have "cache_ok t \<and> limits t = limits c \<and> node_verdict t = (node_verdict c)(k := v) \<and>
      relationship_verdict t = relationship_verdict c" if t: "try_record c k v = Inr t" for t
    using try_record_step [OF assms(1) t] node_table.record_lookup [OF assms(1) t]
    by (auto simp: relationship_verdict_def)
  ultimately show ?thesis by blast
qed

theorem cache_record_exact_witness:
  "cache_ok (new_cache \<lparr>max_entries = 1, max_bytes = 16\<rparr>) \<and>
    (\<exists>t. try_record (new_cache \<lparr>max_entries = 1, max_bytes = 16\<rparr>) 3 Hidden = Inr t \<and>
      node_verdict t 3 = Hidden)"
proof -
  have ok: "cache_ok (new_cache \<lparr>max_entries = 1, max_bytes = 16\<rparr>)"
    by (simp add: new_cache_ok usize_max_def)
  have "has_room (new_cache \<lparr>max_entries = 1, max_bytes = 16\<rparr>)"
    by (simp add: has_room_def new_cache_def ENTRY_BYTES_def)
  with cache_record_exact [OF ok, of Hidden 3] ok show ?thesis by auto
qed

text \<open>
  direct-node authority is sound: after any run of recordings on a fresh coordinator,
  a node can be authorized exactly when the last verdict recorded for it is \<open>Visible\<close>,
  and the scope the proof opens admits that node only and no relationship at all.
\<close>

theorem direct_node_authorized:
  assumes "max_bytes l \<le> usize_max"
    and "fold_r (\<lambda>(k, v) s. record_node s k v) kvs (new_lazy_coordinator l md tables rls) = Inr coord"
  shows "prove_visible_node coord i =
      (if map_of (rev kvs) i = Some Visible then Inr (ProvenVisibleNode i)
       else Inl (Err (Internal ''cannot authorize an unresolved or hidden direct node''))) \<and>
    cache_ok (cache coord) \<and>
    allows_node (direct_node (ProvenVisibleNode i)) j = (j = i) \<and>
    allows_relationship (direct_node (ProvenVisibleNode i)) ty rid = Inr False"
proof -
  let ?init = "new_lazy_coordinator l md tables rls"
  have "cache_ok (cache ?init)"
    using new_cache_ok [OF assms(1)] by (simp add: new_lazy_coordinator_def with_relationship_mappings_def)
  from coordinator_table.record_all [OF this assms(2), of i]
  have "cache_ok (cache coord)" and "node_verdict (cache coord) i =
      (case map_of (rev kvs) i of Some v \<Rightarrow> v | None \<Rightarrow> node_verdict (cache ?init) i)"
    by auto
  moreover have "node_verdict (cache ?init) i = Unknown"
    by (simp add: new_lazy_coordinator_def with_relationship_mappings_def new_cache_def node_verdict_def)
  ultimately show ?thesis
    by (auto simp: prove_visible_node_def split: option.splits)
qed

theorem direct_node_authorized_witness:
  "\<exists>coord. fold_r (\<lambda>(k, v) s. record_node s k v) [(5, Hidden), (5, Visible)]
      (new_lazy_coordinator \<lparr>max_entries = 2, max_bytes = 64\<rparr> LazyEnforced {} {}) = Inr coord \<and>
    prove_visible_node coord 5 = Inr (ProvenVisibleNode 5)"
proof -
  let ?l = "\<lparr>max_entries = 2, max_bytes = 64\<rparr>"
  have l: "max_bytes ?l \<le> usize_max" by (simp add: usize_max_def)
  obtain coord where c: "fold_r (\<lambda>(k, v) s. record_node s k v) [(5, Hidden), (5, Visible)]
      (new_lazy_coordinator ?l LazyEnforced {} {}) = Inr coord"
    by (simp add: record_node_def try_record_def new_lazy_coordinator_def with_relationship_mappings_def
        new_cache_def requested_entries_def checked_add_usize_def usize_max_def check_capacity_def
        ENTRY_BYTES_def)
  with direct_node_authorized [OF l c, of 5] show ?thesis by auto
qed

end
