(* ===== verification/TraversalMaps.thy ===== *)
theory TraversalMaps
  imports EdgeTypes Safety
begin

text \<open>
  Per-node traversal metadata (\<open>graph/src/bfs.rs\<close>): depth, parent and parent edge type,
  kept either densely with one slot and a sentinel per graph node or sparsely in a hash
  map. A Rust \<open>i32\<close> is an \<open>int\<close> (depths never leave the range, see the traversal
  invariants); a \<open>HashMap\<close> that is only inserted into and looked up is a partial function.
\<close>

section \<open>The three maps\<close>

datatype traversal_depth_map = DenseDepth "int list" | SparseDepth "u32 \<rightharpoonup> int"

definition try_filled_vec :: "usize \<Rightarrow> 'a \<Rightarrow> 'a list" where
  "try_filled_vec len value = replicate len value"

definition depth_new :: "usize \<Rightarrow> bool \<Rightarrow> traversal_depth_map" where
  "depth_new count sparse =
     (if sparse then SparseDepth Map.empty else DenseDepth (try_filled_vec count (- 1)))"

fun depth_set :: "traversal_depth_map \<Rightarrow> u32 \<Rightarrow> int \<Rightarrow> traversal_depth_map graph_result" where
  "depth_set (DenseDepth depths) node_idx d =
     rbind (update_r depths (unat node_idx) d) (\<lambda>depths. Inr (DenseDepth depths))"
| "depth_set (SparseDepth depths) node_idx d = Inr (SparseDepth (depths(node_idx \<mapsto> d)))"

fun depth_get :: "traversal_depth_map \<Rightarrow> u32 \<Rightarrow> int option" where
  "depth_get (DenseDepth depths) node_idx = opt_filter (\<lambda>d. d \<ge> 0) (get_opt depths (unat node_idx))"
| "depth_get (SparseDepth depths) node_idx = depths node_idx"

datatype traversal_parent_map = DenseParent "u32 list" | SparseParent "u32 \<rightharpoonup> u32"

definition U32_MAX :: u32 where
  "U32_MAX = 4294967295"

definition parent_new :: "usize \<Rightarrow> bool \<Rightarrow> traversal_parent_map" where
  "parent_new count sparse =
     (if sparse then SparseParent Map.empty else DenseParent (try_filled_vec count U32_MAX))"

fun parent_set :: "traversal_parent_map \<Rightarrow> u32 \<Rightarrow> u32 \<Rightarrow> traversal_parent_map graph_result" where
  "parent_set (DenseParent parents) node_idx p =
     rbind (update_r parents (unat node_idx) p) (\<lambda>parents. Inr (DenseParent parents))"
| "parent_set (SparseParent parents) node_idx p = Inr (SparseParent (parents(node_idx \<mapsto> p)))"

fun parent_get :: "traversal_parent_map \<Rightarrow> u32 \<Rightarrow> u32 option" where
  "parent_get (DenseParent parents) node_idx =
     opt_filter (\<lambda>p. p \<noteq> U32_MAX) (get_opt parents (unat node_idx))"
| "parent_get (SparseParent parents) node_idx = parents node_idx"

datatype traversal_parent_edge_types =
    DenseEdgeTypes "edge_type_id list"
  | SparseEdgeTypes "u32 \<rightharpoonup> edge_type_id"

definition edge_types_new :: "usize \<Rightarrow> bool \<Rightarrow> traversal_parent_edge_types" where
  "edge_types_new count sparse =
     (if sparse then SparseEdgeTypes Map.empty else DenseEdgeTypes (try_filled_vec count SENTINEL))"

fun edge_types_set ::
  "traversal_parent_edge_types \<Rightarrow> u32 \<Rightarrow> edge_type_id \<Rightarrow> traversal_parent_edge_types graph_result" where
  "edge_types_set (DenseEdgeTypes tys) node_idx ty =
     rbind (update_r tys (unat node_idx) ty) (\<lambda>tys. Inr (DenseEdgeTypes tys))"
| "edge_types_set (SparseEdgeTypes tys) node_idx ty = Inr (SparseEdgeTypes (tys(node_idx \<mapsto> ty)))"

fun edge_types_get :: "traversal_parent_edge_types \<Rightarrow> u32 \<Rightarrow> edge_type_id option" where
  "edge_types_get (DenseEdgeTypes tys) node_idx =
     opt_filter (\<lambda>ty. ty \<noteq> SENTINEL) (get_opt tys (unat node_idx))"
| "edge_types_get (SparseEdgeTypes tys) node_idx = tys node_idx"

section \<open>Choosing the representation\<close>

definition SPARSE_METADATA_MIN_NODES :: usize where
  "SPARSE_METADATA_MIN_NODES = 4096"

definition SPARSE_METADATA_RATIO :: usize where
  "SPARSE_METADATA_RATIO = 16"

definition RESUMABLE_BFS_PAGE_CAPACITY :: usize where
  "RESUMABLE_BFS_PAGE_CAPACITY = 64"

definition expected_visit_capacity :: "usize \<Rightarrow> u32 \<Rightarrow> usize" where
  "expected_visit_capacity count max_visits = min (unat max_visits) count"

definition saturating_mul_usize :: "usize \<Rightarrow> usize \<Rightarrow> usize" where
  "saturating_mul_usize a b = min usize_max (a * b)"

definition use_sparse_metadata :: "usize \<Rightarrow> u32 \<Rightarrow> bool" where
  "use_sparse_metadata count max_visits \<longleftrightarrow>
     count \<ge> SPARSE_METADATA_MIN_NODES \<and>
     saturating_mul_usize (expected_visit_capacity count max_visits) SPARSE_METADATA_RATIO < count"

text \<open>
  \<open>size_of::<i32>() + size_of::<u32>() + size_of::<EdgeTypeId>()\<close> is 12 and
  \<open>size_of::<Neighbor>()\<close> is 20.
\<close>

definition estimated_workspace_bytes :: "usize \<Rightarrow> u32 \<Rightarrow> u32 \<Rightarrow> u64 graph_result" where
  "estimated_workspace_bytes count max_visits frontier_limit =
     (let visits = expected_visit_capacity count max_visits;
          metadata_per_node = (if use_sparse_metadata count max_visits then 128 else 4 + 4 + 4);
          metadata_nodes = (if use_sparse_metadata count max_visits then visits else count) in
      ok_or (Err (Internal ''traversal workspace estimate overflowed''))
        (map_option word_of_nat
        (Option.bind (checked_mul_usize metadata_nodes metadata_per_node) (\<lambda>bytes.
         Option.bind (checked_mul_usize visits 8) (\<lambda>queue.
         Option.bind (checked_add_usize bytes queue) (\<lambda>bytes.
         Option.bind (checked_mul_usize (unat frontier_limit) 4) (\<lambda>frontier_bytes.
         Option.bind (checked_add_usize bytes frontier_bytes) (\<lambda>bytes.
         Option.bind (checked_mul_usize RESUMABLE_BFS_PAGE_CAPACITY 20) (\<lambda>page.
           checked_add_usize bytes page)))))))))"

section \<open>The common contract\<close>

text \<open>
  Each of the maps starts with nothing recorded, and recording a storable value for a
  node of the graph succeeds and changes the lookup of that node only. Everything the
  traversals prove of their metadata rests on these laws.
\<close>

locale node_metadata =
  fixes new :: "usize \<Rightarrow> bool \<Rightarrow> 'm"
    and ok :: "usize \<Rightarrow> 'm \<Rightarrow> bool"
    and storable :: "'v \<Rightarrow> bool"
    and set_value :: "'m \<Rightarrow> u32 \<Rightarrow> 'v \<Rightarrow> 'm graph_result"
    and get_value :: "'m \<Rightarrow> u32 \<Rightarrow> 'v option"
  assumes new_ok: "ok count (new count sparse)"
    and new_get: "get_value (new count sparse) i = None"
    and set_get: "ok count m \<Longrightarrow> unat i < count \<Longrightarrow> storable v \<Longrightarrow>
      \<exists>m'. set_value m i v = Inr m' \<and> ok count m' \<and> get_value m' = (get_value m)(i := Some v)"
begin

lemma set_fold:
  assumes "ok count m" "\<forall>(i, v) \<in> set kvs. unat i < count \<and> storable v"
  shows "\<exists>m'. fold_r (\<lambda>(i, v) m. set_value m i v) kvs m = Inr m' \<and> ok count m' \<and>
    get_value m' = get_value m ++ map_of (rev kvs)"
  using assms
proof (induction kvs arbitrary: m)
  case Nil
  then show ?case by simp
next
  case (Cons kv kvs)
  obtain i v where kv: "kv = (i, v)" by (cases kv)
  with Cons.prems set_get [of count m i v] obtain m1 where m1: "set_value m i v = Inr m1" "ok count m1"
    "get_value m1 = (get_value m)(i := Some v)" by auto
  have "\<forall>(i, v) \<in> set kvs. unat i < count \<and> storable v"
    using Cons.prems(2) by simp
  from Cons.IH [OF m1(2) this] obtain m' where
    "fold_r (\<lambda>(i, v) m. set_value m i v) kvs m1 = Inr m'" "ok count m'"
    "get_value m' = get_value m1 ++ map_of (rev kvs)" by blast
  with m1 show ?case by (auto simp: kv map_add_def split: option.splits)
qed

text \<open>Dense and sparse metadata cannot be told apart by any sequence of writes.\<close>

lemma representation_irrelevant:
  assumes "\<forall>(i, v) \<in> set kvs. unat i < count \<and> storable v"
  shows "\<exists>dense sparse. fold_r (\<lambda>(i, v) m. set_value m i v) kvs (new count False) = Inr dense \<and>
    fold_r (\<lambda>(i, v) m. set_value m i v) kvs (new count True) = Inr sparse \<and>
    get_value dense = get_value sparse"
proof -
  have "get_value (new count False) = get_value (new count True)"
    by (rule ext) (simp add: new_get)
  with set_fold [OF new_ok assms, of False] set_fold [OF new_ok assms, of True] show ?thesis
    by metis
qed

end

definition depth_ok :: "usize \<Rightarrow> traversal_depth_map \<Rightarrow> bool" where
  "depth_ok count m = (case m of DenseDepth ds \<Rightarrow> length ds = count | SparseDepth _ \<Rightarrow> True)"

definition parent_ok :: "usize \<Rightarrow> traversal_parent_map \<Rightarrow> bool" where
  "parent_ok count m = (case m of DenseParent ps \<Rightarrow> length ps = count | SparseParent _ \<Rightarrow> True)"

definition edge_types_ok :: "usize \<Rightarrow> traversal_parent_edge_types \<Rightarrow> bool" where
  "edge_types_ok count m = (case m of DenseEdgeTypes ts \<Rightarrow> length ts = count | SparseEdgeTypes _ \<Rightarrow> True)"

lemma dense_lookup_update:
  "unat i < length xs \<Longrightarrow> p v \<Longrightarrow>
    (\<lambda>j. opt_filter p (get_opt (xs[unat i := v]) (unat j))) =
    (\<lambda>j. opt_filter p (get_opt xs (unat j)))(i := Some (v :: 'a))" for i :: u32
  by (rule ext) (auto simp: get_opt_def nth_list_update word_unat_eq_iff)

lemma dense_lookup_new: "\<not> p v \<Longrightarrow> opt_filter p (get_opt (try_filled_vec n v) i) = None"
  by (simp add: try_filled_vec_def get_opt_def)

interpretation depths: node_metadata depth_new depth_ok "\<lambda>d. d \<ge> 0" depth_set depth_get
proof (unfold_locales, goal_cases)
  case (1 count sparse)
  then show ?case by (simp add: depth_ok_def depth_new_def try_filled_vec_def)
next
  case (2 count sparse i)
  then show ?case by (simp add: depth_new_def dense_lookup_new)
next
  case (3 count m i v)
  then show ?case
    by (cases m) (auto simp: depth_ok_def fun_eq_iff dense_lookup_update [THEN fun_cong] split: if_splits)
qed

interpretation parents: node_metadata parent_new parent_ok "\<lambda>p. p \<noteq> U32_MAX" parent_set parent_get
proof (unfold_locales, goal_cases)
  case (1 count sparse)
  then show ?case by (simp add: parent_ok_def parent_new_def try_filled_vec_def)
next
  case (2 count sparse i)
  then show ?case by (simp add: parent_new_def dense_lookup_new)
next
  case (3 count m i v)
  then show ?case
    by (cases m) (auto simp: parent_ok_def fun_eq_iff dense_lookup_update [THEN fun_cong] split: if_splits)
qed

interpretation edge_types: node_metadata edge_types_new edge_types_ok "\<lambda>ty. ty \<noteq> SENTINEL"
  edge_types_set edge_types_get
proof (unfold_locales, goal_cases)
  case (1 count sparse)
  then show ?case by (simp add: edge_types_ok_def edge_types_new_def try_filled_vec_def)
next
  case (2 count sparse i)
  then show ?case by (simp add: edge_types_new_def dense_lookup_new)
next
  case (3 count m i v)
  then show ?case
    by (cases m) (auto simp: edge_types_ok_def fun_eq_iff dense_lookup_update [THEN fun_cong] split: if_splits)
qed

text \<open>
  The reservation never overflows: node counts and limits are 32-bit, so the estimate is
  the plain sum.
\<close>

lemma estimated_workspace_total:
  assumes "count < 2 ^ 32"
  shows "\<exists>bytes. estimated_workspace_bytes count max_visits frontier_limit = Inr bytes"
proof -
  have "unat max_visits < 2 ^ 32" "unat frontier_limit < 2 ^ 32"
    using unat_u32_less [of max_visits] unat_u32_less [of frontier_limit] by simp_all
  with assms show ?thesis
    by (auto simp: estimated_workspace_bytes_def Let_def checked_mul_usize_def checked_add_usize_def
        usize_max_def expected_visit_capacity_def RESUMABLE_BFS_PAGE_CAPACITY_def min_def)
qed

end
