(* ===== verification/Traversal.thy ===== *)
theory Traversal
  imports TraversalMaps NodeStore Visibility Neighbors
begin

text \<open>
  Breadth-first and depth-first traversal (\<open>graph/src/bfs.rs\<close>): the admission gate every
  candidate passes, the expansion of one node, the two work loops and path
  reconstruction. Both loops expand a node the same way and differ only in where a
  discovered node is queued, which is the \<open>traversal_strategy\<close> argument: at the back of
  the \<open>VecDeque\<close>, or on top of the stack (the head of the list here).

  What a traversal calls outside its own state is a record of functions: the node store
  and visibility scope of this development, the typed filter check and the mapped tenant
  lookup of the filter index, the tombstones of the running transaction, and the resource
  governor, a state passed through every expansion that may refuse it.
\<close>

section \<open>Configuration and environment\<close>

datatype edge_type_filter = AllEdgeTypes | Only "edge_type_id set" | NoneMatched

datatype traversal_strategy = Bfs | Dfs

record 'f bfs_config =
  seed_node :: u32
  max_depth :: int
  max_nodes :: u32
  max_frontier :: u32
  type_filter :: edge_type_filter
  filter_ops :: "'f list"
  tenant :: "u8 list option"
  tenanted_table_oids :: "u32 set"
  tenant_membership :: "u8 list \<rightharpoonup> u32 set"
  tenant_membership_removals :: "u8 list \<rightharpoonup> u32 set"

record ('f, 'g) traversal_env =
  nodes :: node_store
  scope :: visibility_scope
  check_filters :: "u32 \<Rightarrow> 'f list \<Rightarrow> bool"
  mapped_tenant_contains :: "u8 list \<Rightarrow> u32 \<Rightarrow> bool"
  tx_node_deleted :: "u32 \<Rightarrow> bool"
  consume_expansion :: "'g \<Rightarrow> 'g graph_result"

section \<open>Admission\<close>

definition bitmap_has :: "(u8 list \<rightharpoonup> u32 set) \<Rightarrow> u8 list \<Rightarrow> u32 \<Rightarrow> bool" where
  "bitmap_has bitmaps t i = (case bitmaps t of None \<Rightarrow> False | Some bitmap \<Rightarrow> i \<in> bitmap)"

definition tenant_denies :: "('f, 'g) traversal_env \<Rightarrow> 'f bfs_config \<Rightarrow> u32 \<Rightarrow> bool" where
  "tenant_denies env cfg i =
     (case tenant cfg of None \<Rightarrow> False
      | Some t \<Rightarrow>
          (case table_oid (nodes env) i of None \<Rightarrow> False
           | Some oid \<Rightarrow>
               oid \<in> tenanted_table_oids cfg \<and>
               \<not> (bitmap_has (tenant_membership cfg) t i \<or>
                  (mapped_tenant_contains env t i \<and>
                   \<not> bitmap_has (tenant_membership_removals cfg) t i))))"

definition candidate_allowed ::
  "('f, 'g) traversal_env \<Rightarrow> 'f bfs_config \<Rightarrow> neighbor \<Rightarrow> u32 set \<Rightarrow> bool \<Rightarrow> bool graph_result" where
  "candidate_allowed env cfg n visited has_filters =
     (if (case type_filter cfg of Only allowed \<Rightarrow> nb_type_id n \<notin> allowed | _ \<Rightarrow> False) then Inr False
      else
        rbind (allows_relationship (scope env) (nb_type_id n) (nb_relationship_id n)) (\<lambda>rel.
        if \<not> rel \<or> \<not> allows_node (scope env) (nb_target n) then Inr False
        else if nb_target n \<in> visited then Inr False
        else
          rbind (is_active (nodes env) (nb_target n)) (\<lambda>active.
          if \<not> active \<or> tx_node_deleted env (nb_target n) then Inr False
          else if tenant_denies env cfg (nb_target n) then Inr False
          else if has_filters \<and> \<not> check_filters env (nb_target n) (filter_ops cfg) then Inr False
          else Inr True)))"

section \<open>Expansion of one node\<close>

record 'g traversal_state =
  visited :: "u32 set"
  depth :: traversal_depth_map
  parent :: traversal_parent_map
  parent_edge_type :: traversal_parent_edge_types
  frontier :: "u32 list"
  nodes_visited :: u32
  governor :: 'g

fun push_pending :: "traversal_strategy \<Rightarrow> u32 \<Rightarrow> u32 list \<Rightarrow> u32 list" where
  "push_pending Bfs node_idx waiting = waiting @ [node_idx]"
| "push_pending Dfs node_idx waiting = node_idx # waiting"

definition record_visit ::
  "u32 \<Rightarrow> int \<Rightarrow> neighbor \<Rightarrow> 'g traversal_state \<Rightarrow> 'g traversal_state graph_result" where
  "record_visit current current_depth n s =
     rbind (depth_set (depth s) (nb_target n) (current_depth + 1)) (\<lambda>d.
     rbind (parent_set (parent s) (nb_target n) current) (\<lambda>p.
     rbind (edge_types_set (parent_edge_type s) (nb_target n) (nb_type_id n)) (\<lambda>t.
       Inr (s\<lparr>visited := insert (nb_target n) (visited s), depth := d, parent := p,
              parent_edge_type := t, nodes_visited := nodes_visited s + 1\<rparr>))))"

text \<open>The flag is true when the loop may go on and false when a circuit breaker fired.\<close>

definition visit_candidate ::
  "traversal_strategy \<Rightarrow> ('f, 'g) traversal_env \<Rightarrow> 'f bfs_config \<Rightarrow> u32 \<Rightarrow> int \<Rightarrow> neighbor \<Rightarrow>
    'g traversal_state \<Rightarrow> (bool \<times> 'g traversal_state) graph_result" where
  "visit_candidate strategy env cfg current current_depth n s =
     rbind (candidate_allowed env cfg n (visited s) (filter_ops cfg \<noteq> [])) (\<lambda>ok.
     if \<not> ok then Inr (True, s)
     else
       rbind (record_visit current current_depth n s) (\<lambda>s.
       if nodes_visited s \<ge> max_nodes cfg then Inr (False, s)
       else if current_depth + 1 < max_depth cfg then
         let waiting = push_pending strategy (nb_target n) (frontier s) in
         if word_of_nat (length waiting) \<ge> max_frontier cfg
         then Inr (False, s\<lparr>frontier := waiting\<rparr>)
         else Inr (True, s\<lparr>frontier := waiting\<rparr>)
       else Inr (True, s)))"

fun expand ::
  "traversal_strategy \<Rightarrow> ('f, 'g) traversal_env \<Rightarrow> 'f bfs_config \<Rightarrow> u32 \<Rightarrow> int \<Rightarrow> neighbor list \<Rightarrow>
    'g traversal_state \<Rightarrow> (bool \<times> 'g traversal_state) graph_result" where
  "expand strategy env cfg current current_depth [] s = Inr (False, s)"
| "expand strategy env cfg current current_depth (n # ns) s =
     rbind (consume_expansion env (governor s)) (\<lambda>g.
     rbind (visit_candidate strategy env cfg current current_depth n (s\<lparr>governor := g\<rparr>)) (\<lambda>(go, s).
     if go then expand strategy env cfg current current_depth ns s else Inr (True, s)))"

section \<open>Admission facts and the termination measure\<close>

definition unvisited :: "'g traversal_state \<Rightarrow> nat" where
  "unvisited s = card (- visited s)"

lemma candidate_unvisited:
  "candidate_allowed env cfg n vs hf = Inr True \<Longrightarrow> nb_target n \<notin> vs"
  by (auto simp: candidate_allowed_def result_simps split: if_splits edge_type_filter.splits)

lemma record_visit_visited:
  "record_visit cur d n s = Inr t \<Longrightarrow>
    visited t = insert (nb_target n) (visited s) \<and> frontier t = frontier s \<and>
    nodes_visited t = nodes_visited s + 1 \<and> governor t = governor s"
  by (auto simp: record_visit_def result_simps)

lemma length_push [simp]: "length (push_pending st i xs) = Suc (length xs)"
  by (cases st) auto

lemma visit_candidate_cases:
  assumes "visit_candidate st env cfg cur d n s = Inr (go, t)"
  obtains (skip) "candidate_allowed env cfg n (visited s) (filter_ops cfg \<noteq> []) = Inr False"
      "go" "t = s"
  | (visit) u where "candidate_allowed env cfg n (visited s) (filter_ops cfg \<noteq> []) = Inr True"
      "record_visit cur d n s = Inr u"
      "t = (if nodes_visited u < max_nodes cfg \<and> d + 1 < max_depth cfg
            then u\<lparr>frontier := push_pending st (nb_target n) (frontier u)\<rparr> else u)"
      "go \<longleftrightarrow> nodes_visited u < max_nodes cfg \<and>
        (d + 1 < max_depth cfg \<longrightarrow>
          word_of_nat (Suc (length (frontier u))) < max_frontier cfg)"
proof -
  from assms obtain ok where ok: "candidate_allowed env cfg n (visited s) (filter_ops cfg \<noteq> []) = Inr ok"
    unfolding visit_candidate_def by (auto simp only: rbind_eq_Inr)
  show ?thesis
  proof (cases ok)
    case False
    with assms ok have "go" "t = s" by (auto simp: visit_candidate_def)
    with ok False show ?thesis by (intro skip) auto
  next
    case True
    with assms ok obtain u where u: "record_visit cur d n s = Inr u"
      unfolding visit_candidate_def by (auto simp: rbind_eq_Inr)
    have "t = (if nodes_visited u < max_nodes cfg \<and> d + 1 < max_depth cfg
            then u\<lparr>frontier := push_pending st (nb_target n) (frontier u)\<rparr> else u)"
      "go \<longleftrightarrow> nodes_visited u < max_nodes cfg \<and>
        (d + 1 < max_depth cfg \<longrightarrow>
          word_of_nat (Suc (length (frontier u))) < max_frontier cfg)"
      using assms ok True u by (auto simp: visit_candidate_def Let_def not_le split: if_splits)
    with ok True u show ?thesis by (intro visit) auto
  qed
qed

lemma visit_candidate_measure:
  assumes "visit_candidate st env cfg cur d n s = Inr (go, t)"
  shows "unvisited t + length (frontier t) \<le> unvisited s + length (frontier s)"
  using assms
proof (cases rule: visit_candidate_cases)
  case skip
  then show ?thesis by simp
next
  case (visit u)
  note u = record_visit_visited [OF visit(2)]
  have "- visited u = - visited s - {nb_target n}" using u by auto
  then have "Suc (unvisited u) = unvisited s"
    using candidate_unvisited [OF visit(1)] card_Suc_Diff1 [of "- visited s" "nb_target n"]
    by (simp add: unvisited_def)
  with visit(3) u show ?thesis by (auto simp: unvisited_def)
qed

lemma expand_measure:
  assumes "expand st env cfg cur d ns s = Inr (stop, t)"
  shows "unvisited t + length (frontier t) \<le> unvisited s + length (frontier s)"
  using assms
proof (induction ns arbitrary: s)
  case Nil
  then show ?case by simp
next
  case (Cons n ns)
  then obtain g go u where v: "visit_candidate st env cfg cur d n (s\<lparr>governor := g\<rparr>) = Inr (go, u)"
    and r: "(if go then expand st env cfg cur d ns u else Inr (True, u)) = Inr (stop, t)"
    by (auto simp: result_simps)
  have "unvisited u + length (frontier u) \<le> unvisited s + length (frontier s)"
    using visit_candidate_measure [OF v] by (simp add: unvisited_def)
  with r Cons.IH [of u] show ?case by (cases go) auto
qed

section \<open>The work loop\<close>

function (sequential) run ::
  "traversal_strategy \<Rightarrow> ('f, 'g) traversal_env \<Rightarrow> 'f bfs_config \<Rightarrow> (u32 \<Rightarrow> neighbor list graph_result) \<Rightarrow>
    'g traversal_state \<Rightarrow> (bool \<times> 'g traversal_state) graph_result" where
  "run strategy env cfg source_of s =
     (case frontier s of
        [] \<Rightarrow> Inr (False, s)
      | current # waiting \<Rightarrow>
          (let s = s\<lparr>frontier := waiting\<rparr>;
               current_depth = opt_get_or (- 1) (depth_get (depth s) current) in
           if current_depth \<ge> max_depth cfg then run strategy env cfg source_of s
           else
             rbind (source_of current) (\<lambda>ns.
             rbind (expand strategy env cfg current current_depth ns s) (\<lambda>(stop, s).
               if stop then Inr (True, s) else run strategy env cfg source_of s))))"
  by pat_completeness auto

termination
proof (relation "measure (\<lambda>(_, _, _, _, s). unvisited s + length (frontier s))", goal_cases)
  case 1
  then show ?case by simp
next
  case (2 strategy env cfg source_of s current waiting s' d)
  then show ?case by (simp add: unvisited_def)
next
  case (3 strategy env cfg source_of s current waiting s' d ns r stop t)
  then have "unvisited t + length (frontier t) \<le> unvisited s' + length (frontier s')"
    using expand_measure [of strategy env cfg current d ns s' stop t] by simp
  with 3 show ?case by (simp add: unvisited_def)
qed

declare run.simps [simp del]

section \<open>Entry points\<close>

record bfs_result =
  res_visited :: "u32 set"
  res_depth :: traversal_depth_map
  res_parent :: traversal_parent_map
  res_parent_edge_type :: traversal_parent_edge_types
  truncated :: bool

definition result_of :: "bool \<Rightarrow> 'g traversal_state \<Rightarrow> bfs_result" where
  "result_of stopped s =
     \<lparr>res_visited = visited s, res_depth = depth s, res_parent = parent s,
      res_parent_edge_type = parent_edge_type s, truncated = stopped\<rparr>"

definition fresh_metadata ::
  "('f, 'g) traversal_env \<Rightarrow> 'f bfs_config \<Rightarrow> 'g \<Rightarrow> 'g traversal_state" where
  "fresh_metadata env cfg g =
     (let count = unat (ns_node_count (nodes env));
          sparse = use_sparse_metadata count (max_nodes cfg) in
      \<lparr>visited = {}, depth = depth_new count sparse, parent = parent_new count sparse,
       parent_edge_type = edge_types_new count sparse, frontier = [], nodes_visited = 0,
       governor = g\<rparr>)"

definition seed_state ::
  "u32 \<Rightarrow> 'g traversal_state \<Rightarrow> 'g traversal_state graph_result" where
  "seed_state seed s =
     rbind (depth_set (depth s) seed 0) (\<lambda>d.
     rbind (parent_set (parent s) seed seed) (\<lambda>p.
     rbind (edge_types_set (parent_edge_type s) seed UNTYPED) (\<lambda>t.
       Inr (s\<lparr>visited := insert seed (visited s), depth := d, parent := p,
              parent_edge_type := t, frontier := [seed], nodes_visited := nodes_visited s + 1\<rparr>))))"

definition execute_traversal ::
  "traversal_strategy \<Rightarrow> ('f, 'g) traversal_env \<Rightarrow> (u32 \<Rightarrow> neighbor list graph_result) \<Rightarrow>
    'f bfs_config \<Rightarrow> 'g \<Rightarrow> bfs_result graph_result" where
  "execute_traversal strategy env source_of cfg g =
     (let s = fresh_metadata env cfg g in
      if unat (seed_node cfg) \<ge> unat (ns_node_count (nodes env)) \<or>
         \<not> allows_node (scope env) (seed_node cfg)
      then Inr (result_of False s)
      else
        rbind (seed_state (seed_node cfg) s) (\<lambda>s.
        if type_filter cfg = NoneMatched then Inr (result_of False s)
        else
          rbind (run strategy env cfg source_of s) (\<lambda>(stopped, s). Inr (result_of stopped s))))"

definition execute_with_neighbors_inner ::
  "('f, 'g) traversal_env \<Rightarrow> (u32 \<Rightarrow> neighbor list graph_result) \<Rightarrow> 'f bfs_config \<Rightarrow> 'g \<Rightarrow>
    bfs_result graph_result" where
  "execute_with_neighbors_inner = execute_traversal Bfs"

text \<open>The argument is the \<open>neighbors_reversed\<close> stream of the source.\<close>

definition execute_dfs_with_neighbors_inner ::
  "('f, 'g) traversal_env \<Rightarrow> (u32 \<Rightarrow> neighbor list graph_result) \<Rightarrow> 'f bfs_config \<Rightarrow> 'g \<Rightarrow>
    bfs_result graph_result" where
  "execute_dfs_with_neighbors_inner = execute_traversal Dfs"

text \<open>
  Running an iterator to its end. The fuel of the two sources below is one more than the
  number of items a store and its overlay can produce.
\<close>

fun collect_iter :: "nat \<Rightarrow> neighbor_iter \<Rightarrow> neighbor list graph_result" where
  "collect_iter 0 it = Inr []"
| "collect_iter (Suc fuel) it =
     rbind (iter_next it) (\<lambda>(item, it').
       case item of None \<Rightarrow> Inr []
       | Some n \<Rightarrow> rbind (collect_iter fuel it') (\<lambda>ns. Inr (n # ns)))"

definition source_fuel :: "edge_store \<Rightarrow> overlay_inserts \<Rightarrow> u32 \<Rightarrow> nat" where
  "source_fuel st ins i = Suc (length (store_targets st) + length (opt_get_or [] (ins i)))"

definition overlay_source ::
  "edge_store \<Rightarrow> overlay_inserts \<Rightarrow> overlay_deletes \<Rightarrow> u32 \<Rightarrow> neighbor list graph_result" where
  "overlay_source st ins del i =
     rbind (overlay_neighbors st ins del i) (collect_iter (source_fuel st ins i))"

definition overlay_source_reversed ::
  "edge_store \<Rightarrow> overlay_inserts \<Rightarrow> overlay_deletes \<Rightarrow> u32 \<Rightarrow> neighbor list graph_result" where
  "overlay_source_reversed st ins del i =
     rbind (overlay_neighbors_reversed st ins del i) (collect_iter (source_fuel st ins i))"

definition execute_inner ::
  "('f, 'g) traversal_env \<Rightarrow> edge_store \<Rightarrow> overlay_inserts \<Rightarrow> overlay_deletes \<Rightarrow> 'f bfs_config \<Rightarrow> 'g \<Rightarrow>
    bfs_result graph_result" where
  "execute_inner env st ins del = execute_traversal Bfs env (overlay_source st ins del)"

definition execute_dfs ::
  "('f, 'g) traversal_env \<Rightarrow> edge_store \<Rightarrow> overlay_inserts \<Rightarrow> overlay_deletes \<Rightarrow> 'f bfs_config \<Rightarrow> 'g \<Rightarrow>
    bfs_result graph_result" where
  "execute_dfs env st ins del = execute_traversal Dfs env (overlay_source_reversed st ins del)"

section \<open>Paths and results\<close>

text \<open>
  Walking the parent links may not end on arbitrary metadata, so the walks are options:
  \<open>None\<close> is a loop that never breaks. They return the nodes from the target backwards,
  as the code pushes them before it reverses the vector.
\<close>

partial_function (option) parent_walk ::
  "traversal_parent_map \<Rightarrow> u32 \<Rightarrow> u32 \<Rightarrow> u32 list option" where
  "parent_walk parents_of seed current =
     (if current = seed then Some [current]
      else case parent_get parents_of current of
        None \<Rightarrow> Some [current]
      | Some p \<Rightarrow>
          if p = current then Some [current]
          else Option.bind (parent_walk parents_of seed p) (\<lambda>path. Some (current # path)))"

definition reconstruct_path :: "traversal_parent_map \<Rightarrow> u32 \<Rightarrow> u32 \<Rightarrow> u32 list option" where
  "reconstruct_path parents_of seed tgt = map_option rev (parent_walk parents_of seed tgt)"

partial_function (option) edge_walk ::
  "traversal_parent_map \<Rightarrow> traversal_parent_edge_types \<Rightarrow> u32 \<Rightarrow> u32 \<Rightarrow> edge_type_id list option" where
  "edge_walk parents_of types_of seed current =
     (if current = seed then Some []
      else case parent_get parents_of current of
        None \<Rightarrow> Some []
      | Some p \<Rightarrow>
          if p = current then Some []
          else
            Option.bind (edge_walk parents_of types_of seed p) (\<lambda>path.
              Some (opt_get_or UNTYPED (edge_types_get types_of current) # path)))"

definition reconstruct_edge_path ::
  "traversal_parent_map \<Rightarrow> traversal_parent_edge_types \<Rightarrow> u32 \<Rightarrow> u32 \<Rightarrow> edge_type_id list option" where
  "reconstruct_edge_path parents_of types_of seed tgt =
     map_option rev (edge_walk parents_of types_of seed tgt)"

definition node_coordinate :: "node_store \<Rightarrow> u32 \<Rightarrow> (u32 \<times> u8 list) graph_result" where
  "node_coordinate ns i =
     rbind (ok_or (Err (CorruptFile (''node index '' @ show_nat (unat i) @ '' has no table OID metadata'')))
       (table_oid ns i)) (\<lambda>oid.
     rbind (primary_key ns i) (\<lambda>key.
     rbind (ok_or (Err (CorruptFile (''node index '' @ show_nat (unat i) @ '' has no primary-key metadata'')))
       key) (\<lambda>key. Inr (oid, key))))"

record traversal_result =
  node_table :: u32
  node_id :: "u8 list"
  result_depth :: int
  result_path :: "(u32 \<times> u8 list) list"
  edge_path :: "string list"

definition edge_type_text :: "(edge_type_id \<Rightarrow> string option) \<Rightarrow> edge_type_id \<Rightarrow> string" where
  "edge_type_text label ty =
     (case label ty of Some text \<Rightarrow> text | None \<Rightarrow> ''EdgeTypeId('' @ show_nat (unat ty) @ '')'')"

definition result_row ::
  "bfs_result \<Rightarrow> node_store \<Rightarrow> (edge_type_id \<Rightarrow> string option) \<Rightarrow> u32 \<Rightarrow> u32 \<Rightarrow>
    traversal_result graph_result option" where
  "result_row r ns label seed node_idx =
     Option.bind (reconstruct_path (res_parent r) seed node_idx) (\<lambda>path_indices.
     Option.bind (reconstruct_edge_path (res_parent r) (res_parent_edge_type r) seed node_idx) (\<lambda>edges.
       Some (
         rbind (map_r (node_coordinate ns) path_indices) (\<lambda>path.
         rbind (node_coordinate ns node_idx) (\<lambda>(table, key).
           Inr \<lparr>node_table = table, node_id = key,
                result_depth = opt_get_or (- 1) (depth_get (res_depth r) node_idx),
                result_path = path, edge_path = map (edge_type_text label) edges\<rparr>)))))"

fun result_rows ::
  "(u32 \<Rightarrow> traversal_result graph_result option) \<Rightarrow> u32 list \<Rightarrow> traversal_result list graph_result option"
where
  "result_rows row_of [] = Some (Inr [])"
| "result_rows row_of (i # is) =
     Option.bind (row_of i) (\<lambda>row.
       case row of Inl e \<Rightarrow> Some (Inl e)
       | Inr x \<Rightarrow> map_option (\<lambda>rest. rbind rest (\<lambda>xs. Inr (x # xs))) (result_rows row_of is))"

definition to_traversal_results_with ::
  "bfs_result \<Rightarrow> node_store \<Rightarrow> (edge_type_id \<Rightarrow> string option) \<Rightarrow>
    traversal_result list graph_result option" where
  "to_traversal_results_with r ns label =
     (let order = sorted_list_of_set (res_visited r);
          seed = opt_get_or 0 (List.find (\<lambda>i. depth_get (res_depth r) i = Some 0) order) in
      map_option (\<lambda>rows. rbind rows (\<lambda>rows. Inr (sort_key result_depth rows)))
        (result_rows (result_row r ns label seed) order))"

end
