(* ===== verification/TraversalSteps.thy ===== *)
theory TraversalSteps
  imports Traversal
begin

text \<open>
  What one expansion and one run of the work loop do to the traversal state, for either
  strategy: the metadata invariant (a parent tree whose links are admitted edges and whose
  depths increase by one along them), the visit budget, and closure of the expanded nodes.
\<close>

section \<open>Admitted edges and walks\<close>

definition admitted :: "('f, 'g) traversal_env \<Rightarrow> 'f bfs_config \<Rightarrow> neighbor \<Rightarrow> bool" where
  "admitted env cfg n \<longleftrightarrow> candidate_allowed env cfg n {} (filter_ops cfg \<noteq> []) = Inr True"

definition hop ::
  "('f, 'g) traversal_env \<Rightarrow> 'f bfs_config \<Rightarrow> (u32 \<Rightarrow> neighbor list graph_result) \<Rightarrow> u32 \<Rightarrow> u32 \<Rightarrow>
    edge_type_id \<Rightarrow> bool" where
  "hop env cfg source_of u v ty \<longleftrightarrow>
     (\<exists>ns. source_of u = Inr ns \<and> (\<exists>n \<in> set ns. admitted env cfg n \<and> nb_target n = v \<and> nb_type_id n = ty))"

inductive walk ::
  "('f, 'g) traversal_env \<Rightarrow> 'f bfs_config \<Rightarrow> (u32 \<Rightarrow> neighbor list graph_result) \<Rightarrow> u32 \<Rightarrow> nat \<Rightarrow> bool"
  for env cfg source_of where
  start: "walk env cfg source_of (seed_node cfg) 0"
| step: "walk env cfg source_of u k \<Longrightarrow> hop env cfg source_of u v ty \<Longrightarrow> walk env cfg source_of v (Suc k)"

inductive_cases walk_SucE: "walk env cfg source_of v (Suc k)"
inductive_simps walk_0: "walk env cfg source_of v 0"

lemma candidate_allowed_True:
  "candidate_allowed env cfg n V (filter_ops cfg \<noteq> []) = Inr True \<longleftrightarrow> admitted env cfg n \<and> nb_target n \<notin> V"
  by (auto simp: candidate_allowed_def admitted_def result_simps split: if_splits edge_type_filter.splits)

lemma admitted_in_range:
  assumes "admitted env cfg n" "backing_ok (backing (nodes env))"
  shows "unat (nb_target n) < length (store_nodes (nodes env))"
  using assms is_active_row [OF assms(2), of "nb_target n"]
  by (auto simp: candidate_allowed_def admitted_def result_simps split: if_splits edge_type_filter.splits)

text \<open>The admission gate never panics on a well-formed node store; only visibility can refuse to decide.\<close>

lemma candidate_allowed_faults:
  assumes "backing_ok (backing (nodes env))" "candidate_allowed env cfg n V hf = Inl e"
  shows "e = Err RlsRelationshipIdentityMissing"
proof -
  have "is_active (nodes env) i \<noteq> Inl f" for i f
    using is_active_row [OF assms(1), of i] by simp
  moreover have "allows_relationship (scope env) ty rid = Inl f \<Longrightarrow> f = Err RlsRelationshipIdentityMissing"
    for ty rid f
    by (cases "scope env") (auto simp: ok_or_def split: if_splits option.splits)
  ultimately show ?thesis
    using assms(2)
    by (auto simp: candidate_allowed_def rbind_def split: if_splits edge_type_filter.splits sum.splits)
qed

section \<open>The metadata invariant\<close>

definition source_ok :: "(u32 \<Rightarrow> neighbor list graph_result) \<Rightarrow> bool" where
  "source_ok source_of \<longleftrightarrow>
     (\<forall>u ns. source_of u = Inr ns \<longrightarrow> (\<forall>n \<in> set ns. nb_type_id n \<noteq> SENTINEL))"

definition tree_link ::
  "('f, 'g) traversal_env \<Rightarrow> 'f bfs_config \<Rightarrow> (u32 \<Rightarrow> neighbor list graph_result) \<Rightarrow>
    'g traversal_state \<Rightarrow> u32 \<Rightarrow> bool" where
  "tree_link env cfg source_of s v \<longleftrightarrow>
     (\<exists>p d ty. parent_get (parent s) v = Some p \<and> depth_get (depth s) p = Some d \<and>
        depth_get (depth s) v = Some (d + 1) \<and> d + 1 \<le> max_depth cfg \<and>
        edge_types_get (parent_edge_type s) v = Some ty \<and> hop env cfg source_of p v ty)"

definition meta_ok ::
  "('f, 'g) traversal_env \<Rightarrow> 'f bfs_config \<Rightarrow> (u32 \<Rightarrow> neighbor list graph_result) \<Rightarrow>
    'g traversal_state \<Rightarrow> bool" where
  "meta_ok env cfg source_of s \<longleftrightarrow>
     (let count = length (store_nodes (nodes env)) in
      depth_ok count (depth s) \<and> parent_ok count (parent s) \<and> edge_types_ok count (parent_edge_type s) \<and>
      dom (depth_get (depth s)) = visited s \<and> dom (parent_get (parent s)) = visited s \<and>
      dom (edge_types_get (parent_edge_type s)) = visited s \<and>
      visited s \<subseteq> {i. unat i < count} \<and>
      nodes_visited s = word_of_nat (card (visited s)) \<and>
      seed_node cfg \<in> visited s \<and> depth_get (depth s) (seed_node cfg) = Some 0 \<and>
      parent_get (parent s) (seed_node cfg) = Some (seed_node cfg) \<and>
      (\<forall>v d. depth_get (depth s) v = Some d \<longrightarrow> 0 \<le> d) \<and>
      (\<forall>v \<in> visited s - {seed_node cfg}. tree_link env cfg source_of s v) \<and>
      set (frontier s) \<subseteq> visited s \<and> distinct (frontier s))"

text \<open>The circuit breaker on visited nodes, as an invariant of the running loop.\<close>

definition budget_open :: "'f bfs_config \<Rightarrow> 'g traversal_state \<Rightarrow> bool" where
  "budget_open cfg s \<longleftrightarrow> card (visited s) = 1 \<or> card (visited s) < unat (max_nodes cfg)"

lemma meta_ok_count:
  assumes "meta_ok env cfg source_of s" "backing_ok (backing (nodes env))"
  shows "card (visited s) \<le> length (store_nodes (nodes env))"
    "unat (nodes_visited s) = card (visited s)"
proof -
  let ?count = "length (store_nodes (nodes env))"
  have "visited s \<subseteq> {i. unat i < ?count}" and nv: "nodes_visited s = word_of_nat (card (visited s))"
    using assms(1) by (simp_all add: meta_ok_def Let_def)
  then have "unat ` visited s \<subseteq> {..<?count}" by auto
  then have "card (unat ` visited s) \<le> ?count"
    using card_mono [of "{..<?count}" "unat ` visited s"] by simp
  moreover have "card (unat ` visited s) = card (visited s)"
    by (rule card_image) (auto simp: inj_on_def word_unat_eq_iff)
  ultimately show le: "card (visited s) \<le> ?count" by simp
  then have "card (visited s) < 4294967296"
    using store_nodes_count [OF assms(2)] unat_u32_less [of "ns_node_count (nodes env)"] by simp
  with nv show "unat (nodes_visited s) = card (visited s)" by simp
qed

lemma record_visit_ok:
  assumes m: "meta_ok env cfg source_of s" and b: "backing_ok (backing (nodes env))"
    and src: "source_ok source_of" "source_of cur = Inr ns" "n \<in> set ns"
    and cur: "depth_get (depth s) cur = Some d" "d < max_depth cfg"
    and n: "admitted env cfg n" "nb_target n \<notin> visited s"
  obtains t where "record_visit cur d n s = Inr t" "meta_ok env cfg source_of t"
    "depth_get (depth t) = (depth_get (depth s))(nb_target n \<mapsto> d + 1)"
    "visited t = insert (nb_target n) (visited s)" "frontier t = frontier s" "governor t = governor s"
proof -
  let ?v = "nb_target n" and ?count = "length (store_nodes (nodes env))"
  note m' = m [unfolded meta_ok_def Let_def]
  have v: "unat ?v < ?count" by (rule admitted_in_range [OF n(1) b])
  have small: "?count < 4294967296"
    using store_nodes_count [OF b] unat_u32_less [of "ns_node_count (nodes env)"] by simp
  have curv: "cur \<in> visited s" using m' cur(1) by blast
  then have "unat cur < ?count" using m' by blast
  then have "cur \<noteq> U32_MAX" using small by (auto simp: U32_MAX_def)
  have ty: "nb_type_id n \<noteq> SENTINEL" using src by (auto simp: source_ok_def)
  have d0: "0 \<le> d" using m' cur(1) by blast
  obtain dm where dm: "depth_set (depth s) ?v (d + 1) = Inr dm" "depth_ok ?count dm"
    "depth_get dm = (depth_get (depth s))(?v := Some (d + 1))"
    using depths.set_get [of ?count "depth s" ?v "d + 1"] m' v d0 by auto
  obtain pm where pm: "parent_set (parent s) ?v cur = Inr pm" "parent_ok ?count pm"
    "parent_get pm = (parent_get (parent s))(?v := Some cur)"
    using parents.set_get [of ?count "parent s" ?v cur] m' v \<open>cur \<noteq> U32_MAX\<close> by auto
  obtain tm where tm: "edge_types_set (parent_edge_type s) ?v (nb_type_id n) = Inr tm"
    "edge_types_ok ?count tm"
    "edge_types_get tm = (edge_types_get (parent_edge_type s))(?v := Some (nb_type_id n))"
    using edge_types.set_get [of ?count "parent_edge_type s" ?v "nb_type_id n"] m' v ty by auto
  let ?t = "s\<lparr>visited := insert ?v (visited s), depth := dm, parent := pm, parent_edge_type := tm,
    nodes_visited := nodes_visited s + 1\<rparr>"
  have rec: "record_visit cur d n s = Inr ?t"
    using dm pm tm by (simp add: record_visit_def)
  have vs: "?v \<noteq> seed_node cfg" "?v \<noteq> cur" using m' n(2) curv by auto
  have hop: "hop env cfg source_of cur ?v (nb_type_id n)"
    using src n(1) by (auto simp: hop_def)
  have link: "tree_link env cfg source_of ?t u" if u: "u \<in> visited ?t - {seed_node cfg}" for u
  proof (cases "u = ?v")
    case True
    then show ?thesis
      using dm(3) pm(3) tm(3) cur vs hop by (auto simp: tree_link_def)
  next
    case False
    with u m' have "tree_link env cfg source_of s u" by auto
    then obtain p e ty where l: "parent_get (parent s) u = Some p" "depth_get (depth s) p = Some e"
      "depth_get (depth s) u = Some (e + 1)" "e + 1 \<le> max_depth cfg"
      "edge_types_get (parent_edge_type s) u = Some ty" "hop env cfg source_of p u ty"
      by (auto simp: tree_link_def)
    from l(2) m' n(2) have "p \<noteq> ?v" by blast
    with l False dm(3) pm(3) tm(3) show ?thesis by (auto simp: tree_link_def)
  qed
  have doms: "dom (depth_get dm) = insert ?v (visited s)" "dom (parent_get pm) = insert ?v (visited s)"
    "dom (edge_types_get tm) = insert ?v (visited s)"
    unfolding dm(3) pm(3) tm(3) using m' by auto
  have cardv: "card (insert ?v (visited s)) = Suc (card (visited s))"
    using n(2) by simp
  have "meta_ok env cfg source_of ?t"
    unfolding meta_ok_def Let_def
  proof (intro conjI ballI)
    show "nodes_visited ?t = word_of_nat (card (visited ?t))"
      using m' cardv by simp
    show "\<forall>u e. depth_get (depth ?t) u = Some e \<longrightarrow> 0 \<le> e"
      using m' d0 by (auto simp: dm(3))
    show "tree_link env cfg source_of ?t u" if "u \<in> visited ?t - {seed_node cfg}" for u
      by (rule link [OF that])
  qed (use m' v vs dm pm tm doms in auto)
  with rec dm(3) show thesis by (intro that [of ?t]) simp_all
qed

section \<open>One expansion\<close>

lemma tree_link_queue [simp]:
  "tree_link env cfg source_of (s\<lparr>governor := g\<rparr>) v = tree_link env cfg source_of s v"
  "tree_link env cfg source_of (s\<lparr>frontier := f\<rparr>) v = tree_link env cfg source_of s v"
  by (simp_all add: tree_link_def)

lemma meta_ok_governor [simp]: "meta_ok env cfg source_of (s\<lparr>governor := g\<rparr>) = meta_ok env cfg source_of s"
  by (simp add: meta_ok_def)

lemma meta_ok_frontier:
  "meta_ok env cfg source_of s \<Longrightarrow> set f \<subseteq> visited s \<Longrightarrow> distinct f \<Longrightarrow>
    meta_ok env cfg source_of (s\<lparr>frontier := f\<rparr>)"
  by (simp add: meta_ok_def Let_def)

lemma set_push [simp]: "set (push_pending st v f) = insert v (set f)"
  by (cases st) auto

lemma distinct_push [simp]: "distinct (push_pending st v f) \<longleftrightarrow> v \<notin> set f \<and> distinct f"
  by (cases st) auto

lemma fold_push:
  "fold (push_pending Bfs) new f = f @ new" "fold (push_pending Dfs) new f = rev new @ f"
  by (induction new arbitrary: f) auto

lemma visit_ok:
  assumes m: "meta_ok env cfg source_of s" and b: "backing_ok (backing (nodes env))"
    and src: "source_ok source_of" "source_of cur = Inr ns" "n \<in> set ns"
    and cur: "depth_get (depth s) cur = Some d" "d < max_depth cfg"
    and open_: "budget_open cfg s"
    and v: "visit_candidate st env cfg cur d n s = Inr (go, t)"
  shows "go \<and> t = s \<and> (admitted env cfg n \<longrightarrow> nb_target n \<in> visited s) \<or>
    nb_target n \<notin> visited s \<and> meta_ok env cfg source_of t \<and>
    visited t = insert (nb_target n) (visited s) \<and>
    depth_get (depth t) = (depth_get (depth s))(nb_target n \<mapsto> d + 1) \<and>
    (if go then budget_open cfg t \<and>
       frontier t = (if d + 1 < max_depth cfg then push_pending st (nb_target n) (frontier s) else frontier s)
     else card (visited t) \<le> max 2 (unat (max_nodes cfg)))"
  using v
proof (cases rule: visit_candidate_cases)
  case skip
  then show ?thesis using candidate_allowed_True [of env cfg n "visited s"] by auto
next
  case (visit u)
  then have n: "admitted env cfg n" "nb_target n \<notin> visited s"
    using candidate_allowed_True [of env cfg n "visited s"] by auto
  obtain u' where u': "record_visit cur d n s = Inr u'" "meta_ok env cfg source_of u'"
    "depth_get (depth u') = (depth_get (depth s))(nb_target n \<mapsto> d + 1)"
    "visited u' = insert (nb_target n) (visited s)" "frontier u' = frontier s"
    using record_visit_ok [OF m b src cur n] by metis
  then have u: "u' = u" using visit(2) by simp
  have card: "card (visited u) = Suc (card (visited s))"
    using u' n(2) by (simp add: u)
  have nv: "unat (nodes_visited u) = card (visited u)"
    using meta_ok_count(2) [OF _ b, of cfg source_of u] u' by (simp add: u)
  have fr: "set (frontier s) \<subseteq> visited s" "distinct (frontier s)"
    using m by (simp_all add: meta_ok_def Let_def)
  have "meta_ok env cfg source_of t"
    using u' fr n(2) unfolding visit(3) u by (auto intro!: meta_ok_frontier)
  moreover have "visited t = visited u" "depth t = depth u"
    by (simp_all add: visit(3))
  moreover have "card (visited u) \<le> max 2 (unat (max_nodes cfg))"
    using card open_ by (auto simp: budget_open_def)
  moreover have "budget_open cfg t \<and> frontier t =
      (if d + 1 < max_depth cfg then push_pending st (nb_target n) (frontier s) else frontier s)" if go
    using that nv visit(3,4) u' u by (auto simp: budget_open_def word_less_nat_alt)
  ultimately show ?thesis using u' n(2) u by auto
qed

lemma expand_ok:
  assumes "meta_ok env cfg source_of s" and b: "backing_ok (backing (nodes env))"
    and src: "source_ok source_of" "source_of cur = Inr ns" "set rest \<subseteq> set ns"
    and "depth_get (depth s) cur = Some d" "d < max_depth cfg" "budget_open cfg s"
    and "expand st env cfg cur d rest s = Inr (stop, t)"
  shows "\<exists>new. meta_ok env cfg source_of t \<and> visited t = visited s \<union> set new \<and> distinct new \<and>
    set new \<inter> visited s = {} \<and> depth_get (depth s) \<subseteq>\<^sub>m depth_get (depth t) \<and>
    (\<forall>v \<in> set new. depth_get (depth t) v = Some (d + 1)) \<and>
    (if stop then card (visited t) \<le> max 2 (unat (max_nodes cfg))
     else budget_open cfg t \<and>
       frontier t = (if d + 1 < max_depth cfg then fold (push_pending st) new (frontier s) else frontier s) \<and>
       (\<forall>n \<in> set rest. admitted env cfg n \<longrightarrow> nb_target n \<in> visited t))"
  using assms
proof (induction rest arbitrary: s)
  case Nil
  then show ?case by (intro exI [of _ "[]"]) auto
next
  case (Cons n rest)
  from Cons.prems(9) obtain g go u where
    v: "visit_candidate st env cfg cur d n (s\<lparr>governor := g\<rparr>) = Inr (go, u)"
    and r: "(if go then expand st env cfg cur d rest u else Inr (True, u)) = Inr (stop, t)"
    by (auto simp: result_simps)
  have step: "go \<and> u = s\<lparr>governor := g\<rparr> \<and> (admitted env cfg n \<longrightarrow> nb_target n \<in> visited s) \<or>
    nb_target n \<notin> visited s \<and> meta_ok env cfg source_of u \<and>
    visited u = insert (nb_target n) (visited s) \<and>
    depth_get (depth u) = (depth_get (depth s))(nb_target n \<mapsto> d + 1) \<and>
    (if go then budget_open cfg u \<and>
       frontier u = (if d + 1 < max_depth cfg then push_pending st (nb_target n) (frontier s) else frontier s)
     else card (visited u) \<le> max 2 (unat (max_nodes cfg)))"
  proof -
    have "meta_ok env cfg source_of (s\<lparr>governor := g\<rparr>)" "n \<in> set ns"
      "depth_get (depth (s\<lparr>governor := g\<rparr>)) cur = Some d" "budget_open cfg (s\<lparr>governor := g\<rparr>)"
      using Cons.prems by (auto simp: budget_open_def)
    from visit_ok [OF this(1) b src(1) Cons.prems(4) this(2,3) Cons.prems(7) this(4) v] show ?thesis
      by (cases go) auto
  qed
  from step show ?case
  proof (elim disjE)
    assume a: "go \<and> u = s\<lparr>governor := g\<rparr> \<and> (admitted env cfg n \<longrightarrow> nb_target n \<in> visited s)"
    with r have "expand st env cfg cur d rest u = Inr (stop, t)" by simp
    from Cons.IH [OF _ b src(1) Cons.prems(4) _ _ _ _ this] Cons.prems a show ?case
      by (auto simp: budget_open_def)
  next
    assume a: "nb_target n \<notin> visited s \<and> meta_ok env cfg source_of u \<and>
      visited u = insert (nb_target n) (visited s) \<and>
      depth_get (depth u) = (depth_get (depth s))(nb_target n \<mapsto> d + 1) \<and>
      (if go then budget_open cfg u \<and>
         frontier u = (if d + 1 < max_depth cfg then push_pending st (nb_target n) (frontier s) else frontier s)
       else card (visited u) \<le> max 2 (unat (max_nodes cfg)))"
    have dom: "dom (depth_get (depth s)) = visited s"
      using Cons.prems(1) by (simp add: meta_ok_def Let_def)
    then have ext: "depth_get (depth s) \<subseteq>\<^sub>m depth_get (depth u)"
      using a by (auto simp: map_le_def)
    show ?case
    proof (cases go)
      case False
      then have t: "stop" "t = u" using r by auto
      have "depth_get (depth s) \<subseteq>\<^sub>m depth_get (depth t)" using ext t by simp
      moreover have "depth_get (depth t) (nb_target n) = Some (d + 1)" using a t by simp
      ultimately show ?thesis
        using a t False by (intro exI [of _ "[nb_target n]"]) (auto simp del: fun_upd_apply)
    next
      case True
      with r have e: "expand st env cfg cur d rest u = Inr (stop, t)" by simp
      have "depth_get (depth u) cur = Some d"
        using ext Cons.prems(6) by (auto simp: map_le_def dom_def)
      moreover have "meta_ok env cfg source_of u" "budget_open cfg u" "set rest \<subseteq> set ns"
        using a True Cons.prems(5) by simp_all
      ultimately obtain new where new: "meta_ok env cfg source_of t" "visited t = visited u \<union> set new" "distinct new"
        "set new \<inter> visited u = {}" "depth_get (depth u) \<subseteq>\<^sub>m depth_get (depth t)"
        "\<forall>v \<in> set new. depth_get (depth t) v = Some (d + 1)"
        "if stop then card (visited t) \<le> max 2 (unat (max_nodes cfg))
         else budget_open cfg t \<and>
           frontier t = (if d + 1 < max_depth cfg then fold (push_pending st) new (frontier u) else frontier u) \<and>
           (\<forall>n \<in> set rest. admitted env cfg n \<longrightarrow> nb_target n \<in> visited t)"
        using Cons.IH [OF _ b src(1) Cons.prems(4) _ _ Cons.prems(7) _ e] by blast
      have "depth_get (depth t) (nb_target n) = Some (d + 1)"
        using new(5) a by (auto simp: map_le_def dom_def)
      moreover have "depth_get (depth s) \<subseteq>\<^sub>m depth_get (depth t)"
        by (rule map_le_trans [OF ext new(5)])
      ultimately show ?thesis
        using new a True by (intro exI [of _ "nb_target n # new"]) auto
    qed
  qed
qed

section \<open>The work loop\<close>

abbreviation depth_at :: "'g traversal_state \<Rightarrow> u32 \<Rightarrow> int" where
  "depth_at s v \<equiv> opt_get_or (- 1) (depth_get (depth s) v)"

text \<open>
  Rule of the loop: an invariant kept when a node at the depth limit is dropped and when an
  expansion runs to its end, and a postcondition of an expansion a circuit breaker stops.
\<close>

lemma run_rule:
  assumes "run st env cfg source_of s = Inr (stopped, t)" and "P s"
    and drop: "\<And>s cur waiting. P s \<Longrightarrow> frontier s = cur # waiting \<Longrightarrow> depth_at s cur \<ge> max_depth cfg \<Longrightarrow>
      P (s\<lparr>frontier := waiting\<rparr>)"
    and full: "\<And>s cur waiting ns t. P s \<Longrightarrow> frontier s = cur # waiting \<Longrightarrow> depth_at s cur < max_depth cfg \<Longrightarrow>
      source_of cur = Inr ns \<Longrightarrow>
      expand st env cfg cur (depth_at s cur) ns (s\<lparr>frontier := waiting\<rparr>) = Inr (False, t) \<Longrightarrow> P t"
    and stop: "\<And>s cur waiting ns t. P s \<Longrightarrow> frontier s = cur # waiting \<Longrightarrow> depth_at s cur < max_depth cfg \<Longrightarrow>
      source_of cur = Inr ns \<Longrightarrow>
      expand st env cfg cur (depth_at s cur) ns (s\<lparr>frontier := waiting\<rparr>) = Inr (True, t) \<Longrightarrow> Q t"
  shows "if stopped then Q t else P t \<and> frontier t = []"
  using assms(1,2)
proof (induction "unvisited s + length (frontier s)" arbitrary: s rule: less_induct)
  case (less s)
  show ?case
  proof (cases "frontier s")
    case Nil
    with less.prems show ?thesis by (auto simp: run.simps)
  next
    case (Cons cur waiting)
    let ?s = "s\<lparr>frontier := waiting\<rparr>"
    show ?thesis
    proof (cases "depth_at s cur \<ge> max_depth cfg")
      case True
      with less.prems(1) Cons have "run st env cfg source_of ?s = Inr (stopped, t)"
        by (simp add: run.simps [of st env cfg source_of s] Let_def)
      with less.hyps [of ?s] drop [OF less.prems(2) Cons True] Cons show ?thesis
        by (simp add: unvisited_def)
    next
      case False
      with less.prems(1) Cons obtain ns b u where src: "source_of cur = Inr ns"
        and e: "expand st env cfg cur (depth_at s cur) ns ?s = Inr (b, u)"
        and r: "(if b then Inr (True, u) else run st env cfg source_of u) = Inr (stopped, t)"
        by (auto simp: run.simps [of st env cfg source_of s] Let_def result_simps)
      have lt: "depth_at s cur < max_depth cfg" using False by simp
      show ?thesis
      proof (cases b)
        case True
        with r stop [OF less.prems(2) Cons lt src] e show ?thesis by auto
      next
        case False
        have "unvisited u + length (frontier u) < unvisited s + length (frontier s)"
          using expand_measure [OF e] Cons by (simp add: unvisited_def)
        with r False less.hyps [of u] full [OF less.prems(2) Cons lt src] e show ?thesis by auto
      qed
    qed
  qed
qed

definition closed ::
  "('f, 'g) traversal_env \<Rightarrow> 'f bfs_config \<Rightarrow> (u32 \<Rightarrow> neighbor list graph_result) \<Rightarrow>
    'g traversal_state \<Rightarrow> bool" where
  "closed env cfg source_of s \<longleftrightarrow>
     (\<forall>u \<in> visited s - set (frontier s). depth_at s u < max_depth cfg \<longrightarrow>
        (\<forall>v ty. hop env cfg source_of u v ty \<longrightarrow> v \<in> visited s))"

definition levels ::
  "('f, 'g) traversal_env \<Rightarrow> 'f bfs_config \<Rightarrow> (u32 \<Rightarrow> neighbor list graph_result) \<Rightarrow>
    'g traversal_state \<Rightarrow> bool" where
  "levels env cfg source_of s \<longleftrightarrow>
     (\<exists>k a b. frontier s = a @ b \<and> (\<forall>v \<in> set a. depth_at s v = k) \<and> (\<forall>v \<in> set b. depth_at s v = k + 1) \<and>
        (\<forall>v \<in> visited s. depth_at s v \<le> k + 1)) \<and>
     (\<forall>u \<in> visited s - set (frontier s). depth_at s u < max_depth cfg \<longrightarrow>
        (\<forall>v ty. hop env cfg source_of u v ty \<longrightarrow> depth_at s v \<le> depth_at s u + 1))"

definition loop_ok ::
  "traversal_strategy \<Rightarrow> ('f, 'g) traversal_env \<Rightarrow> 'f bfs_config \<Rightarrow> (u32 \<Rightarrow> neighbor list graph_result) \<Rightarrow>
    'g traversal_state \<Rightarrow> bool" where
  "loop_ok st env cfg source_of s \<longleftrightarrow>
     meta_ok env cfg source_of s \<and> budget_open cfg s \<and> closed env cfg source_of s \<and>
     (st = Bfs \<longrightarrow> levels env cfg source_of s)"

definition stop_ok ::
  "('f, 'g) traversal_env \<Rightarrow> 'f bfs_config \<Rightarrow> (u32 \<Rightarrow> neighbor list graph_result) \<Rightarrow>
    'g traversal_state \<Rightarrow> bool" where
  "stop_ok env cfg source_of s \<longleftrightarrow>
     meta_ok env cfg source_of s \<and> card (visited s) \<le> max 2 (unat (max_nodes cfg))"

lemma depth_at_visited:
  assumes "meta_ok env cfg source_of s" "v \<in> visited s"
  shows "depth_get (depth s) v = Some (depth_at s v)"
  using assms by (cases "depth_get (depth s) v") (auto simp: meta_ok_def Let_def)

lemma levels_head:
  assumes "levels env cfg source_of s" "frontier s = cur # waiting"
  obtains a b where "waiting = a @ b" "\<forall>v \<in> set a. depth_at s v = depth_at s cur"
    "\<forall>v \<in> set b. depth_at s v = depth_at s cur + 1" "\<forall>v \<in> visited s. depth_at s v \<le> depth_at s cur + 1"
proof -
  from assms(1) obtain k a b where k: "frontier s = a @ b" "\<forall>v \<in> set a. depth_at s v = k"
    "\<forall>v \<in> set b. depth_at s v = k + 1" "\<forall>v \<in> visited s. depth_at s v \<le> k + 1"
    by (auto simp: levels_def)
  show thesis
  proof (cases a)
    case Nil
    then have b: "b = cur # waiting" using k(1) assms(2) by simp
    then have "depth_at s cur = k + 1" using k(3) by simp
    then have "\<forall>v \<in> set waiting. depth_at s v = depth_at s cur"
      "\<forall>v \<in> visited s. depth_at s v \<le> depth_at s cur + 1"
      using b k(3,4) by fastforce+
    then show thesis by (intro that [of waiting "[]"]) simp_all
  next
    case (Cons x a')
    then have "x = cur" "waiting = a' @ b" using k(1) assms(2) by simp_all
    moreover from this have "depth_at s cur = k" using k(2) Cons by simp
    moreover from this have "\<forall>v \<in> set a'. depth_at s v = depth_at s cur"
      "\<forall>v \<in> set b. depth_at s v = depth_at s cur + 1"
      "\<forall>v \<in> visited s. depth_at s v \<le> depth_at s cur + 1"
      using k(2-4) Cons by simp_all
    ultimately show thesis by (intro that [of a' b]) simp_all
  qed
qed

lemma drop_ok:
  assumes "loop_ok st env cfg source_of s" "frontier s = cur # waiting" "depth_at s cur \<ge> max_depth cfg"
  shows "loop_ok st env cfg source_of (s\<lparr>frontier := waiting\<rparr>)"
proof -
  have "meta_ok env cfg source_of (s\<lparr>frontier := waiting\<rparr>)"
    using assms(1,2) by (intro meta_ok_frontier) (auto simp: loop_ok_def meta_ok_def Let_def)
  moreover have "closed env cfg source_of (s\<lparr>frontier := waiting\<rparr>)"
    unfolding closed_def
  proof (intro ballI impI allI)
    fix u v ty
    assume u: "u \<in> visited (s\<lparr>frontier := waiting\<rparr>) - set (frontier (s\<lparr>frontier := waiting\<rparr>))"
      "depth_at (s\<lparr>frontier := waiting\<rparr>) u < max_depth cfg" "hop env cfg source_of u v ty"
    then have "u \<noteq> cur" using assms(3) by auto
    then have "u \<in> visited s - set (frontier s)" using u(1) assms(2) by simp
    moreover have "closed env cfg source_of s" using assms(1) by (simp add: loop_ok_def)
    ultimately have "v \<in> visited s" using u(2,3) unfolding closed_def by fastforce
    then show "v \<in> visited (s\<lparr>frontier := waiting\<rparr>)" by simp
  qed
  moreover have "levels env cfg source_of (s\<lparr>frontier := waiting\<rparr>)" if "st = Bfs"
  proof -
    have l: "levels env cfg source_of s" using assms(1) that by (simp add: loop_ok_def)
    from levels_head [OF l assms(2)] obtain a b where "waiting = a @ b"
      "\<forall>v \<in> set a. depth_at s v = depth_at s cur" "\<forall>v \<in> set b. depth_at s v = depth_at s cur + 1"
      "\<forall>v \<in> visited s. depth_at s v \<le> depth_at s cur + 1" by metis
    moreover have "\<forall>u \<in> visited s - set waiting. depth_at s u < max_depth cfg \<longrightarrow>
        (\<forall>v ty. hop env cfg source_of u v ty \<longrightarrow> depth_at s v \<le> depth_at s u + 1)"
    proof (intro ballI impI allI)
      fix u v ty
      assume u: "u \<in> visited s - set waiting" "depth_at s u < max_depth cfg" "hop env cfg source_of u v ty"
      then have "u \<noteq> cur" using assms(3) by auto
      then have "u \<in> visited s - set (frontier s)" using u(1) assms(2) by simp
      then show "depth_at s v \<le> depth_at s u + 1" using l u(2,3) unfolding levels_def by blast
    qed
    ultimately show ?thesis
      unfolding levels_def by (intro conjI exI [of _ "depth_at s cur"] exI [of _ a] exI [of _ b]) simp_all
  qed
  ultimately show ?thesis using assms(1) by (simp add: loop_ok_def budget_open_def)
qed

lemma full_ok:
  assumes p: "loop_ok st env cfg source_of s" and b: "backing_ok (backing (nodes env))"
    and src: "source_ok source_of" "source_of cur = Inr ns"
    and fr: "frontier s = cur # waiting" and lt: "depth_at s cur < max_depth cfg"
    and e: "expand st env cfg cur (depth_at s cur) ns (s\<lparr>frontier := waiting\<rparr>) = Inr (stop, t)"
  shows "if stop then stop_ok env cfg source_of t else loop_ok st env cfg source_of t"
proof -
  let ?s = "s\<lparr>frontier := waiting\<rparr>" and ?d = "depth_at s cur"
  have m: "meta_ok env cfg source_of s" and cl: "closed env cfg source_of s"
    using p by (simp_all add: loop_ok_def)
  have fr': "cur \<in> visited s" "set waiting \<subseteq> visited s" "distinct (cur # waiting)"
    using m fr by (simp_all add: meta_ok_def Let_def)
  have ms: "meta_ok env cfg source_of ?s"
    using m fr' by (intro meta_ok_frontier) auto
  have dcur: "depth_get (depth ?s) cur = Some ?d"
    using depth_at_visited [OF m fr'(1)] by simp
  have "budget_open cfg ?s" using p by (simp add: loop_ok_def budget_open_def)
  from expand_ok [OF ms b src subset_refl dcur lt this e]
  obtain new where t': "meta_ok env cfg source_of t" "visited t = visited ?s \<union> set new"
    "set new \<inter> visited ?s = {}" "depth_get (depth ?s) \<subseteq>\<^sub>m depth_get (depth t)"
    "\<forall>v \<in> set new. depth_get (depth t) v = Some (?d + 1)"
    and out: "if stop then card (visited t) \<le> max 2 (unat (max_nodes cfg))
     else budget_open cfg t \<and>
       frontier t = (if ?d + 1 < max_depth cfg then fold (push_pending st) new (frontier ?s) else frontier ?s) \<and>
       (\<forall>n \<in> set ns. admitted env cfg n \<longrightarrow> nb_target n \<in> visited t)"
    by blast
  note t = t' [simplified]
  show ?thesis
  proof (cases stop)
    case True
    with t(1) out show ?thesis by (simp add: stop_ok_def)
  next
    case False
    then have bo: "budget_open cfg t"
      and ft: "frontier t = (if ?d + 1 < max_depth cfg then fold (push_pending st) new waiting else waiting)"
      and all: "\<forall>n \<in> set ns. admitted env cfg n \<longrightarrow> nb_target n \<in> visited t"
      using out by simp_all
    have same: "depth_at t v = depth_at s v" if "v \<in> visited s" for v
      using t(4) depth_at_visited [OF m that] by (auto simp: map_le_def dom_def)
    have newd: "depth_at t v = ?d + 1" if "v \<in> set new" for v
      using t(5) that by simp
    have fset: "set (frontier t) = (if ?d + 1 < max_depth cfg then set new \<union> set waiting else set waiting)"
      by (cases st) (simp_all add: ft fold_push Un_commute)
    have reach_cur: "v \<in> visited t" if "hop env cfg source_of cur v ty" for v ty
      using that all src(2) by (auto simp: hop_def)
    have old: "u \<in> visited s - set (frontier s) \<or> u = cur"
      if u: "u \<in> visited t - set (frontier t)" "depth_at t u < max_depth cfg" for u
    proof (cases "u \<in> set new")
      case True
      with newd u(2) have "?d + 1 < max_depth cfg" by simp
      with True fset u(1) show ?thesis by simp
    next
      case False
      with u(1) t(2) fset fr show ?thesis by (auto split: if_splits)
    qed
    have "closed env cfg source_of t"
      unfolding closed_def
    proof (intro ballI impI allI)
      fix u v ty
      assume u: "u \<in> visited t - set (frontier t)" "depth_at t u < max_depth cfg" "hop env cfg source_of u v ty"
      from old [OF u(1,2)] show "v \<in> visited t"
      proof
        assume a: "u \<in> visited s - set (frontier s)"
        then have "depth_at s u < max_depth cfg" using same [of u] u(2) by simp
        with a u(3) cl have "v \<in> visited s" unfolding closed_def by blast
        then show "v \<in> visited t" using t(2) by simp
      next
        assume "u = cur"
        with reach_cur u(3) show "v \<in> visited t" by blast
      qed
    qed
    moreover have "levels env cfg source_of t" if bfs: "st = Bfs"
    proof -
      have l: "levels env cfg source_of s" using p bfs by (simp add: loop_ok_def)
      from levels_head [OF l fr] obtain a c where q: "waiting = a @ c"
        "\<forall>v \<in> set a. depth_at s v = ?d" "\<forall>v \<in> set c. depth_at s v = ?d + 1"
        "\<forall>v \<in> visited s. depth_at s v \<le> ?d + 1" by metis
      have le: "depth_at t v \<le> ?d + 1" if "v \<in> visited t" for v
        using that t(2) same newd q(4) by force
      let ?tail = "c @ (if ?d + 1 < max_depth cfg then new else [])"
      have "frontier t = a @ ?tail" by (simp add: ft bfs fold_push q(1))
      moreover have "\<forall>v \<in> set a. depth_at t v = ?d"
        using q(1,2) fr'(2) same by auto
      moreover have "\<forall>v \<in> set ?tail. depth_at t v = ?d + 1"
        using q(1,3) fr'(2) same newd by auto
      moreover have "\<forall>u \<in> visited t - set (frontier t). depth_at t u < max_depth cfg \<longrightarrow>
          (\<forall>v ty. hop env cfg source_of u v ty \<longrightarrow> depth_at t v \<le> depth_at t u + 1)"
      proof (intro ballI impI allI)
        fix u v ty
        assume u: "u \<in> visited t - set (frontier t)" "depth_at t u < max_depth cfg"
          "hop env cfg source_of u v ty"
        from old [OF u(1,2)] show "depth_at t v \<le> depth_at t u + 1"
        proof
          assume a: "u \<in> visited s - set (frontier s)"
          then have du: "depth_at t u = depth_at s u" using same [of u] by simp
          then have ds: "depth_at s u < max_depth cfg" using u(2) by simp
          have "v \<in> visited s" using a ds u(3) cl unfolding closed_def by blast
          moreover have "depth_at s v \<le> depth_at s u + 1"
            using a ds u(3) l unfolding levels_def by blast
          ultimately show ?thesis using same du by simp
        next
          assume "u = cur"
          with u(3) reach_cur le [of v] same [OF fr'(1)] show ?thesis by auto
        qed
      qed
      ultimately show ?thesis
        unfolding levels_def using le
        by (intro conjI exI [of _ "?d"] exI [of _ a] exI [of _ ?tail]) blast+
    qed
    ultimately show ?thesis using False t(1) bo by (simp add: loop_ok_def)
  qed
qed

text \<open>A finished run keeps the invariant with nothing queued; a stopped one keeps the metadata.\<close>

lemma run_ok:
  assumes "run st env cfg source_of s = Inr (stopped, t)" and "loop_ok st env cfg source_of s"
    and b: "backing_ok (backing (nodes env))" and src: "source_ok source_of"
  shows "if stopped then stop_ok env cfg source_of t
    else loop_ok st env cfg source_of t \<and> frontier t = []"
  using assms(1,2)
proof (rule run_rule)
  show "loop_ok st env cfg source_of (s\<lparr>frontier := waiting\<rparr>)"
    if "loop_ok st env cfg source_of s" "frontier s = cur # waiting" "depth_at s cur \<ge> max_depth cfg"
    for s cur waiting
    by (rule drop_ok [OF that])
  show "loop_ok st env cfg source_of t"
    if "loop_ok st env cfg source_of s" "frontier s = cur # waiting" "depth_at s cur < max_depth cfg"
      "source_of cur = Inr ns"
      "expand st env cfg cur (depth_at s cur) ns (s\<lparr>frontier := waiting\<rparr>) = Inr (False, t)"
    for s t cur waiting ns
    using full_ok [OF that(1) b src that(4,2,3,5)] by simp
  show "stop_ok env cfg source_of t"
    if "loop_ok st env cfg source_of s" "frontier s = cur # waiting" "depth_at s cur < max_depth cfg"
      "source_of cur = Inr ns"
      "expand st env cfg cur (depth_at s cur) ns (s\<lparr>frontier := waiting\<rparr>) = Inr (True, t)"
    for s t cur waiting ns
    using full_ok [OF that(1) b src that(4,2,3,5)] by simp
qed

end
