(* ===== verification/TraversalResults.thy ===== *)
theory TraversalResults
  imports TraversalSteps
begin

text \<open>
  What the traversal entry points return: shortest distances for an untruncated
  breadth-first run, a valid path and edge path for every visited node under either
  strategy, the visit budget, closure of an untruncated depth-first run, and the faults a
  traversal can end with.
\<close>

section \<open>The seeded state\<close>

lemma seed_loop_ok:
  assumes b: "backing_ok (backing (nodes env))"
    and seed: "unat (seed_node cfg) < unat (ns_node_count (nodes env))"
  obtains s where "seed_state (seed_node cfg) (fresh_metadata env cfg g) = Inr s"
    "loop_ok st env cfg source_of s" "visited s = {seed_node cfg}" "governor s = g"
proof -
  let ?count = "length (store_nodes (nodes env))" and ?v = "seed_node cfg"
  let ?sparse = "use_sparse_metadata ?count (max_nodes cfg)"
  have count: "unat (ns_node_count (nodes env)) = ?count" by (rule store_nodes_count [OF b])
  have small: "?count < 4294967296"
    using count unat_u32_less [of "ns_node_count (nodes env)"] by simp
  have v: "unat ?v < ?count" using seed count by simp
  then have "?v \<noteq> U32_MAX" using small by (auto simp: U32_MAX_def)
  obtain dm where dm: "depth_set (depth_new ?count ?sparse) ?v 0 = Inr dm" "depth_ok ?count dm"
    "depth_get dm = (depth_get (depth_new ?count ?sparse))(?v := Some 0)"
    using depths.set_get [OF depths.new_ok v, of 0] by auto
  obtain pm where pm: "parent_set (parent_new ?count ?sparse) ?v ?v = Inr pm" "parent_ok ?count pm"
    "parent_get pm = (parent_get (parent_new ?count ?sparse))(?v := Some ?v)"
    using parents.set_get [OF parents.new_ok v] \<open>?v \<noteq> U32_MAX\<close> by metis
  obtain tm where tm: "edge_types_set (edge_types_new ?count ?sparse) ?v UNTYPED = Inr tm"
    "edge_types_ok ?count tm"
    "edge_types_get tm = (edge_types_get (edge_types_new ?count ?sparse))(?v := Some UNTYPED)"
    using edge_types.set_get [OF edge_types.new_ok v, of UNTYPED] by (auto simp: UNTYPED_def SENTINEL_def)
  let ?s = "\<lparr>visited = {?v}, depth = dm, parent = pm, parent_edge_type = tm, frontier = [?v],
    nodes_visited = 1, governor = g\<rparr>"
  have "seed_state ?v (fresh_metadata env cfg g) = Inr ?s"
    using dm(1) pm(1) tm(1) by (simp add: seed_state_def fresh_metadata_def Let_def count)
  moreover have doms: "dom (depth_get dm) = {?v}" "dom (parent_get pm) = {?v}"
    "dom (edge_types_get tm) = {?v}"
    unfolding dm(3) pm(3) tm(3)
    by (auto simp: depths.new_get parents.new_get edge_types.new_get split: if_splits)
  have "meta_ok env cfg source_of ?s"
    using dm(2,3) pm(2,3) tm(2) doms v by (auto simp: meta_ok_def Let_def depths.new_get)
  moreover have "levels env cfg source_of ?s"
    unfolding levels_def
    by (intro conjI exI [of _ "0"] exI [of _ "[?v]"] exI [of _ "[]"]) (simp_all add: dm(3))
  ultimately show thesis
    by (intro that [of ?s]) (simp_all add: loop_ok_def budget_open_def closed_def)
qed

definition seed_admitted :: "('f, 'g) traversal_env \<Rightarrow> 'f bfs_config \<Rightarrow> bool" where
  "seed_admitted env cfg \<longleftrightarrow>
     unat (seed_node cfg) < unat (ns_node_count (nodes env)) \<and> allows_node (scope env) (seed_node cfg)"

lemma execute_outcome:
  assumes b: "backing_ok (backing (nodes env))" and src: "source_ok source_of"
    and e: "execute_traversal st env source_of cfg g = Inr r"
  shows "if seed_admitted env cfg then
      (\<exists>t. r = result_of (truncated r) t \<and>
        (if type_filter cfg = NoneMatched
         then \<not> truncated r \<and> loop_ok st env cfg source_of t \<and> visited t = {seed_node cfg}
         else if truncated r then stop_ok env cfg source_of t
         else loop_ok st env cfg source_of t \<and> frontier t = []))
    else r = result_of False (fresh_metadata env cfg g)"
proof (cases "seed_admitted env cfg")
  case False
  then show ?thesis
    using e by (auto simp: execute_traversal_def seed_admitted_def Let_def not_less)
next
  case True
  then obtain s where s: "seed_state (seed_node cfg) (fresh_metadata env cfg g) = Inr s"
    "loop_ok st env cfg source_of s" "visited s = {seed_node cfg}"
    using seed_loop_ok [OF b, of cfg g st source_of] by (auto simp: seed_admitted_def)
  have fin: "(if type_filter cfg = NoneMatched then Inr (result_of False s)
      else rbind (run st env cfg source_of s) (\<lambda>(stopped, s). Inr (result_of stopped s))) = Inr r"
    using e True s(1) by (simp add: execute_traversal_def seed_admitted_def Let_def not_le)
  then show ?thesis
  proof (cases "type_filter cfg = NoneMatched")
    case True
    with \<open>seed_admitted env cfg\<close> s e show ?thesis
      by (auto simp: execute_traversal_def seed_admitted_def Let_def not_le result_of_def)
  next
    case False
    with fin obtain stopped t where t: "run st env cfg source_of s = Inr (stopped, t)"
      "r = result_of stopped t" by (auto simp: result_simps)
    from run_ok [OF t(1) s(2) b src] t(2) True False show ?thesis
      by (auto simp: result_of_def)
  qed
qed

section \<open>Parent links lead back to the seed\<close>

lemma tree_induct:
  assumes m: "meta_ok env cfg source_of s" and v: "depth_get (depth s) v = Some d"
    and base: "P (seed_node cfg) 0"
    and step: "\<And>p v d ty. v \<noteq> seed_node cfg \<Longrightarrow> p \<noteq> v \<Longrightarrow> parent_get (parent s) v = Some p \<Longrightarrow>
      depth_get (depth s) p = Some (int d) \<Longrightarrow> depth_get (depth s) v = Some (int (Suc d)) \<Longrightarrow>
      int (Suc d) \<le> max_depth cfg \<Longrightarrow> edge_types_get (parent_edge_type s) v = Some ty \<Longrightarrow>
      hop env cfg source_of p v ty \<Longrightarrow> P p d \<Longrightarrow> P v (Suc d)"
  shows "P v (nat d)"
  using v
proof (induction "nat d" arbitrary: v d rule: less_induct)
  case less
  note m' = m [unfolded meta_ok_def Let_def]
  show ?case
  proof (cases "v = seed_node cfg")
    case True
    with less.prems m' base show ?thesis by simp
  next
    case False
    have "v \<in> visited s" using less.prems m' by blast
    with False m' have "tree_link env cfg source_of s v" by blast
    then obtain p e ty where l: "parent_get (parent s) v = Some p" "depth_get (depth s) p = Some e"
      "depth_get (depth s) v = Some (e + 1)" "e + 1 \<le> max_depth cfg"
      "edge_types_get (parent_edge_type s) v = Some ty" "hop env cfg source_of p v ty"
      by (auto simp: tree_link_def)
    have e0: "0 \<le> e" using m' l(2) by blast
    have d: "d = e + 1" using less.prems l(3) by simp
    have "P p (nat e)" using less.hyps [of e p] l(2) e0 d by simp
    moreover have "p \<noteq> v" using l(2,3) by auto
    ultimately have "P v (Suc (nat e))"
      using step [of v p "nat e" ty] False l e0 by (simp add: add.commute)
    then show ?thesis using d e0 by (simp add: nat_add_distrib)
  qed
qed

lemma meta_walk:
  assumes "meta_ok env cfg source_of s" "depth_get (depth s) v = Some d"
  shows "walk env cfg source_of v (nat d) \<and> d \<le> max 0 (max_depth cfg)"
proof -
  have "walk env cfg source_of v (nat d) \<and> int (nat d) \<le> max 0 (max_depth cfg)"
    using assms by (rule tree_induct) (auto intro: walk.intros)
  moreover have "0 \<le> d" using assms by (auto simp: meta_ok_def Let_def)
  ultimately show ?thesis by simp
qed

text \<open>A path of admitted edges, forwards from its first node.\<close>

fun hop_path ::
  "('f, 'g) traversal_env \<Rightarrow> 'f bfs_config \<Rightarrow> (u32 \<Rightarrow> neighbor list graph_result) \<Rightarrow> u32 list \<Rightarrow>
    edge_type_id list \<Rightarrow> bool" where
  "hop_path env cfg source_of [u] [] = True"
| "hop_path env cfg source_of (u # v # path) (ty # tys) =
     (hop env cfg source_of u v ty \<and> hop_path env cfg source_of (v # path) tys)"
| "hop_path env cfg source_of _ _ = False"

lemma hop_path_snoc:
  "hop_path env cfg source_of path tys \<Longrightarrow> path \<noteq> [] \<Longrightarrow> hop env cfg source_of (last path) v ty \<Longrightarrow>
    hop_path env cfg source_of (path @ [v]) (tys @ [ty])"
proof (induction path tys rule: hop_path.induct)
  case (2 env cfg source_of u w path ty' tys)
  then show ?case by (cases path) auto
qed auto

lemma hop_path_length: "hop_path env cfg source_of path tys \<Longrightarrow> length path = Suc (length tys)"
  by (induction path tys rule: hop_path.induct) auto

lemma reconstructed:
  assumes m: "meta_ok env cfg source_of s" and v: "depth_get (depth s) v = Some d"
  shows "\<exists>path tys. reconstruct_path (parent s) (seed_node cfg) v = Some path \<and>
    reconstruct_edge_path (parent s) (parent_edge_type s) (seed_node cfg) v = Some tys \<and>
    path \<noteq> [] \<and> hd path = seed_node cfg \<and> last path = v \<and> length tys = nat d \<and>
    hop_path env cfg source_of path tys"
  using m v
proof (rule tree_induct)
  show "\<exists>path tys. reconstruct_path (parent s) (seed_node cfg) (seed_node cfg) = Some path \<and>
      reconstruct_edge_path (parent s) (parent_edge_type s) (seed_node cfg) (seed_node cfg) = Some tys \<and>
      path \<noteq> [] \<and> hd path = seed_node cfg \<and> last path = seed_node cfg \<and> length tys = 0 \<and>
      hop_path env cfg source_of path tys"
    by (simp add: reconstruct_path_def reconstruct_edge_path_def parent_walk.simps edge_walk.simps)
next
  fix p v d ty
  assume l: "v \<noteq> seed_node cfg" "p \<noteq> v" "parent_get (parent s) v = Some p"
    "edge_types_get (parent_edge_type s) v = Some ty" "hop env cfg source_of p v ty"
    and "\<exists>path tys. reconstruct_path (parent s) (seed_node cfg) p = Some path \<and>
      reconstruct_edge_path (parent s) (parent_edge_type s) (seed_node cfg) p = Some tys \<and>
      path \<noteq> [] \<and> hd path = seed_node cfg \<and> last path = p \<and> length tys = d \<and>
      hop_path env cfg source_of path tys"
  then obtain path tys where ih: "reconstruct_path (parent s) (seed_node cfg) p = Some path"
    "reconstruct_edge_path (parent s) (parent_edge_type s) (seed_node cfg) p = Some tys"
    "path \<noteq> []" "hd path = seed_node cfg" "last path = p" "length tys = d"
    "hop_path env cfg source_of path tys" by blast
  have "reconstruct_path (parent s) (seed_node cfg) v = Some (path @ [v])"
    using ih(1) l(1-3)
    by (auto simp: reconstruct_path_def parent_walk.simps [of "parent s" "seed_node cfg" v])
  moreover have "reconstruct_edge_path (parent s) (parent_edge_type s) (seed_node cfg) v = Some (tys @ [ty])"
    using ih(2) l(1-4)
    by (auto simp: reconstruct_edge_path_def edge_walk.simps [of "parent s" "parent_edge_type s" "seed_node cfg" v])
  moreover have "hop_path env cfg source_of (path @ [v]) (tys @ [ty])"
    using ih(3,5,7) l(5) by (intro hop_path_snoc) auto
  ultimately show "\<exists>path tys. reconstruct_path (parent s) (seed_node cfg) v = Some path \<and>
      reconstruct_edge_path (parent s) (parent_edge_type s) (seed_node cfg) v = Some tys \<and>
      path \<noteq> [] \<and> hd path = seed_node cfg \<and> last path = v \<and> length tys = Suc d \<and>
      hop_path env cfg source_of path tys"
    using ih(3,4,6) by auto
qed

section \<open>Completeness of a finished run\<close>

lemma closed_reaches:
  assumes "walk env cfg source_of v k"
    and m: "meta_ok env cfg source_of s" and "frontier s = []"
    and cl: "closed env cfg source_of s" and lv: "levels env cfg source_of s"
    and "int k \<le> max 0 (max_depth cfg)"
  shows "v \<in> visited s \<and> depth_at s v \<le> int k"
  using assms(1,6)
proof (induction rule: walk.induct)
  case start
  then show ?case using m by (simp add: meta_ok_def Let_def)
next
  case (step u k v ty)
  then have u: "u \<in> visited s" "depth_at s u \<le> int k" and lt: "int k < max_depth cfg" by auto
  then have "v \<in> visited s" "depth_at s v \<le> depth_at s u + 1"
    using cl lv step.hyps(2) assms(3) unfolding closed_def levels_def by force+
  with u show ?case by simp
qed

lemma closed_reaches_all:
  assumes "walk env cfg source_of v k" and m: "meta_ok env cfg source_of s" and "frontier s = []"
    and cl: "closed env cfg source_of s" and d: "\<forall>u \<in> visited s. depth_at s u < max_depth cfg"
  shows "v \<in> visited s"
  using assms(1)
proof (induction rule: walk.induct)
  case start
  then show ?case using m by (simp add: meta_ok_def Let_def)
next
  case (step u k v ty)
  with cl d assms(3) show ?case unfolding closed_def by force
qed

section \<open>Faults\<close>

definition fault_ok ::
  "('f, 'g) traversal_env \<Rightarrow> (u32 \<Rightarrow> neighbor list graph_result) \<Rightarrow> graph_error fault \<Rightarrow> bool" where
  "fault_ok env source_of e \<longleftrightarrow>
     e = Err RlsRelationshipIdentityMissing \<or> (\<exists>g. consume_expansion env g = Inl e) \<or>
     (\<exists>u. source_of u = Inl e)"

lemma visit_faults:
  assumes m: "meta_ok env cfg source_of s" and b: "backing_ok (backing (nodes env))"
    and src: "source_ok source_of" "source_of cur = Inr ns" "n \<in> set ns"
    and cur: "depth_get (depth s) cur = Some d" "d < max_depth cfg"
    and v: "visit_candidate st env cfg cur d n s = Inl e"
  shows "e = Err RlsRelationshipIdentityMissing"
proof (cases "candidate_allowed env cfg n (visited s) (filter_ops cfg \<noteq> [])")
  case (Inl f)
  with v candidate_allowed_faults [OF b Inl] show ?thesis by (simp add: visit_candidate_def)
next
  case (Inr ok)
  have "\<exists>t. record_visit cur d n s = Inr t" if ok
    using record_visit_ok [OF m b src cur] candidate_allowed_True [of env cfg n "visited s"] Inr that
    by (metis (full_types))
  with v Inr show ?thesis
    by (cases ok) (auto simp: visit_candidate_def Let_def split: if_splits)
qed

lemma expand_faults:
  assumes "meta_ok env cfg source_of s" and b: "backing_ok (backing (nodes env))"
    and src: "source_ok source_of" "source_of cur = Inr ns" "set rest \<subseteq> set ns"
    and "depth_get (depth s) cur = Some d" "d < max_depth cfg" "budget_open cfg s"
    and "expand st env cfg cur d rest s = Inl e"
  shows "fault_ok env source_of e"
  using assms
proof (induction rest arbitrary: s)
  case Nil
  then show ?case by simp
next
  case (Cons n rest)
  show ?case
  proof (cases "consume_expansion env (governor s)")
    case (Inl f)
    with Cons.prems(9) show ?thesis by (auto simp: fault_ok_def)
  next
    case (Inr g)
    let ?s = "s\<lparr>governor := g\<rparr>"
    have s: "meta_ok env cfg source_of ?s" "n \<in> set ns" "depth_get (depth ?s) cur = Some d"
      "budget_open cfg ?s"
      using Cons.prems by (auto simp: budget_open_def)
    show ?thesis
    proof (cases "visit_candidate st env cfg cur d n ?s")
      case (Inl f)
      with visit_faults [OF s(1) b src(1) Cons.prems(4) s(2,3) Cons.prems(7) Inl] Cons.prems(9) Inr
      show ?thesis by (simp add: fault_ok_def)
    next
      case v: (Inr r)
      obtain go u where r: "r = (go, u)" by (cases r)
      have go: "go" and e: "expand st env cfg cur d rest u = Inl e"
        using Cons.prems(9) Inr v r by (auto split: if_splits)
      have cv: "cur \<in> visited s" using Cons.prems(1,6) by (auto simp: meta_ok_def Let_def)
      have "meta_ok env cfg source_of u \<and> budget_open cfg u \<and> depth_get (depth u) cur = Some d"
        using visit_ok [OF s(1) b src(1) Cons.prems(4) s(2,3) Cons.prems(7) s(4) v [unfolded r]] go
      proof (elim disjE conjE, goal_cases)
        case 1
        then show ?case using s by simp
      next
        case 2
        then show ?case using s(3) cv by auto
      qed
      with Cons.IH [of u] b src(1) Cons.prems(4,5,7) e show ?thesis by simp
    qed
  qed
qed

lemma run_faults:
  assumes "run st env cfg source_of s = Inl e" and "loop_ok st env cfg source_of s"
    and b: "backing_ok (backing (nodes env))" and src: "source_ok source_of"
  shows "fault_ok env source_of e"
  using assms(1,2)
proof (induction "unvisited s + length (frontier s)" arbitrary: s rule: less_induct)
  case (less s)
  show ?case
  proof (cases "frontier s")
    case Nil
    with less.prems show ?thesis by (simp add: run.simps)
  next
    case (Cons cur waiting)
    let ?s = "s\<lparr>frontier := waiting\<rparr>"
    show ?thesis
    proof (cases "depth_at s cur \<ge> max_depth cfg")
      case True
      with less.prems(1) Cons have "run st env cfg source_of ?s = Inl e"
        by (simp add: run.simps [of st env cfg source_of s] Let_def)
      with less.hyps [of ?s] drop_ok [OF less.prems(2) Cons True] Cons show ?thesis
        by (simp add: unvisited_def)
    next
      case False
      then have lt: "depth_at s cur < max_depth cfg" by simp
      have run: "rbind (source_of cur) (\<lambda>ns. rbind (expand st env cfg cur (depth_at s cur) ns ?s)
          (\<lambda>(stop, s). if stop then Inr (True, s) else run st env cfg source_of s)) = Inl e"
        using less.prems(1) Cons False by (simp add: run.simps [of st env cfg source_of s] Let_def)
      show ?thesis
      proof (cases "source_of cur")
        case (Inl f)
        with run show ?thesis by (auto simp: fault_ok_def)
      next
        case ns: (Inr ns)
        have m: "meta_ok env cfg source_of s" "budget_open cfg s"
          using less.prems(2) by (simp_all add: loop_ok_def)
        then have fr: "cur \<in> visited s" "set waiting \<subseteq> visited s" "distinct waiting"
          using Cons by (simp_all add: meta_ok_def Let_def)
        have s: "meta_ok env cfg source_of ?s" "depth_get (depth ?s) cur = Some (depth_at s cur)"
          "budget_open cfg ?s"
          using m fr depth_at_visited [OF m(1) fr(1)]
          by (auto intro!: meta_ok_frontier simp: budget_open_def)
        show ?thesis
        proof (cases "expand st env cfg cur (depth_at s cur) ns ?s")
          case (Inl f)
          with expand_faults [OF s(1) b src ns subset_refl s(2) lt s(3) Inl] run ns show ?thesis by simp
        next
          case (Inr r)
          then obtain u where e: "expand st env cfg cur (depth_at s cur) ns ?s = Inr (False, u)"
            and r: "run st env cfg source_of u = Inl e"
            using run ns by (cases r) (auto split: if_splits)
          have "unvisited u + length (frontier u) < unvisited s + length (frontier s)"
            using expand_measure [OF e] Cons by (simp add: unvisited_def)
          with less.hyps [of u] r full_ok [OF less.prems(2) b src ns Cons lt e] show ?thesis by simp
        qed
      qed
    qed
  qed
qed

end
