(* ===== verification/TraversalTheorems.thy ===== *)
theory TraversalTheorems
  imports TraversalResults
begin

text \<open>
  The properties of the traversal entry points, with a concrete six-node graph on which
  each of them is instantiated.
\<close>

section \<open>A concrete graph\<close>

definition sample_neighbor :: "u32 \<Rightarrow> neighbor" where
  "sample_neighbor v =
     \<lparr>nb_target = v, nb_type_id = 1, nb_schema_reversed = False, nb_relationship_id = None\<rparr>"

definition sample_store :: node_store where
  "sample_store =
     \<lparr>backing = OwnedNodes [True, True, True, True, True, True] [9, 9, 9, 9, 9, 9]
        [[97], [97], [97], [97], [97], [97]],
      max_primary_key_bytes = 1\<rparr>"

definition sample_env :: "(unit, unit) traversal_env" where
  "sample_env =
     \<lparr>nodes = sample_store, scope = Unrestricted, check_filters = (\<lambda>_ _. True),
      mapped_tenant_contains = (\<lambda>_ _. False), tx_node_deleted = (\<lambda>_. False), consume_expansion = Inr\<rparr>"

definition sample_cfg :: "u32 \<Rightarrow> int \<Rightarrow> unit bfs_config" where
  "sample_cfg limit depth_limit =
     \<lparr>seed_node = 0, max_depth = depth_limit, max_nodes = limit, max_frontier = 100,
      type_filter = AllEdgeTypes, filter_ops = [], tenant = None, tenanted_table_oids = {},
      tenant_membership = Map.empty, tenant_membership_removals = Map.empty\<rparr>"

definition sample_targets :: "u32 \<Rightarrow> u32 list" where
  "sample_targets u =
     (if u = 0 then [1, 2] else if u = 1 then [3] else if u = 2 then [4] else if u = 3 then [4]
      else if u = 4 then [5] else [])"

definition sample_source :: "u32 \<Rightarrow> neighbor list graph_result" where
  "sample_source u = Inr (map sample_neighbor (sample_targets u))"

definition sample_source_reversed :: "u32 \<Rightarrow> neighbor list graph_result" where
  "sample_source_reversed u = Inr (rev (map sample_neighbor (sample_targets u)))"

lemma sample_store_ok: "nodes_ok sample_store" "length (store_nodes sample_store) = 6"
  by (simp_all add: nodes_ok_def backing_ok_def sample_store_def store_nodes_def max_width_def)

lemma sample_sources_ok: "source_ok sample_source" "source_ok sample_source_reversed"
  by (auto simp: source_ok_def sample_source_def sample_source_reversed_def sample_neighbor_def SENTINEL_def)

lemma sample_seed_admitted: "seed_admitted sample_env (sample_cfg limit d)"
  by (simp add: seed_admitted_def sample_env_def sample_cfg_def ns_node_count_def sample_store_def)

lemma sample_count: "ns_node_count sample_store = 6"
  by (simp add: ns_node_count_def sample_store_def)

lemma sample_env_fields [simp]:
  "nodes sample_env = sample_store" "scope sample_env = Unrestricted"
  "consume_expansion sample_env = Inr" "tx_node_deleted sample_env v = False"
  by (simp_all add: sample_env_def)

lemma sample_cfg_fields [simp]:
  "seed_node (sample_cfg limit d) = 0" "max_depth (sample_cfg limit d) = d"
  "max_nodes (sample_cfg limit d) = limit" "max_frontier (sample_cfg limit d) = 100"
  "type_filter (sample_cfg limit d) = AllEdgeTypes" "tenant (sample_cfg limit d) = None"
  "filter_ops (sample_cfg limit d) = []"
  by (simp_all add: sample_cfg_def)

lemma sample_neighbor_fields [simp]:
  "nb_target (sample_neighbor v) = v" "nb_type_id (sample_neighbor v) = 1"
  by (simp_all add: sample_neighbor_def)

lemma sample_candidate:
  assumes "unat v < 6"
  shows "candidate_allowed sample_env (sample_cfg limit d) (sample_neighbor v) V False = Inr (v \<notin> V)"
proof -
  have "\<forall>r \<in> set (store_nodes sample_store). fst r"
    by (simp add: store_nodes_def sample_store_def)
  then have "fst (store_nodes sample_store ! unat v)"
    using assms sample_store_ok(2) nth_mem [of "unat v" "store_nodes sample_store"] by auto
  then show ?thesis
    using assms is_active_row [of sample_store v] sample_store_ok
    by (simp add: candidate_allowed_def tenant_denies_def nodes_ok_def)
qed

lemma limit_open: "\<not> (100 :: u32) \<le> 1"
  by (simp add: word_le_nat_alt)

lemma six: "try_filled_vec 6 x = [x, x, x, x, x, x]"
  by (simp add: try_filled_vec_def numeral_eq_Suc)

text \<open>Unfolding the loop only where its head is known, for evaluation.\<close>

lemma run_Nil: "frontier s = [] \<Longrightarrow> run st env cfg source_of s = Inr (False, s)"
  by (simp add: run.simps)

lemma run_drop: "frontier s = cur # waiting \<Longrightarrow> max_depth cfg \<le> depth_at s cur \<Longrightarrow>
    run st env cfg source_of s = run st env cfg source_of (s\<lparr>frontier := waiting\<rparr>)"
  by (simp add: run.simps [of st env cfg source_of s] Let_def)

lemma run_full: "frontier s = cur # waiting \<Longrightarrow> depth_at s cur < max_depth cfg \<Longrightarrow>
    source_of cur = Inr ns \<Longrightarrow>
    expand st env cfg cur (depth_at s cur) ns (s\<lparr>frontier := waiting\<rparr>) = Inr (False, t) \<Longrightarrow>
    run st env cfg source_of s = run st env cfg source_of t"
  by (simp add: run.simps [of st env cfg source_of s] Let_def)

lemma run_stop: "frontier s = cur # waiting \<Longrightarrow> depth_at s cur < max_depth cfg \<Longrightarrow>
    source_of cur = Inr ns \<Longrightarrow>
    expand st env cfg cur (depth_at s cur) ns (s\<lparr>frontier := waiting\<rparr>) = Inr (True, t) \<Longrightarrow>
    run st env cfg source_of s = Inr (True, t)"
  by (simp add: run.simps [of st env cfg source_of s] Let_def)

lemmas evaluate = execute_traversal_def fresh_metadata_def seed_state_def result_of_def run_Nil run_drop
  run_full run_stop visit_candidate_def record_visit_def sample_candidate sample_source_def sample_count
  sample_source_reversed_def sample_targets_def use_sparse_metadata_def SPARSE_METADATA_MIN_NODES_def
  depth_new_def parent_new_def edge_types_new_def six limit_open update_r_def get_opt_def U32_MAX_def
  SENTINEL_def UNTYPED_def Let_def

lemma sample_bfs:
  "execute_with_neighbors_inner sample_env sample_source (sample_cfg 100 3) () =
    Inr \<lparr>res_visited = {5, 4, 3, 2, 1, 0}, res_depth = DenseDepth [0, 1, 1, 2, 2, 3],
      res_parent = DenseParent [0, 0, 0, 1, 2, 4],
      res_parent_edge_type = DenseEdgeTypes [0, 1, 1, 1, 1, 1], truncated = False\<rparr>"
  unfolding execute_with_neighbors_inner_def
  by (simp add: evaluate)

lemma sample_dfs:
  "execute_dfs_with_neighbors_inner sample_env sample_source_reversed (sample_cfg 100 3) () =
    Inr \<lparr>res_visited = {4, 3, 1, 2, 0}, res_depth = DenseDepth [0, 1, 1, 2, 3, - 1],
      res_parent = DenseParent [0, 0, 0, 1, 3, 4294967295],
      res_parent_edge_type = DenseEdgeTypes [0, 1, 1, 1, 1, 4294967295], truncated = False\<rparr>"
  unfolding execute_dfs_with_neighbors_inner_def
  by (simp add: evaluate)

lemma sample_budget:
  "execute_traversal Bfs sample_env sample_source (sample_cfg 1 3) () =
    Inr \<lparr>res_visited = {1, 0}, res_depth = DenseDepth [0, 1, - 1, - 1, - 1, - 1],
      res_parent = DenseParent [0, 0, 4294967295, 4294967295, 4294967295, 4294967295],
      res_parent_edge_type = DenseEdgeTypes [0, 1, 4294967295, 4294967295, 4294967295, 4294967295],
      truncated = True\<rparr>"
  by (simp add: evaluate)

section \<open>Breadth first: shortest distances\<close>

lemma meta_visited_depth:
  assumes "meta_ok env cfg source_of s"
  shows "v \<in> visited s \<longleftrightarrow> (\<exists>d. depth_get (depth s) v = Some d)"
  using assms by (auto simp: meta_ok_def Let_def dom_def)

lemma least_walk:
  assumes "walk env cfg source_of v (nat d)" "0 \<le> d" "\<And>k. walk env cfg source_of v k \<Longrightarrow> d \<le> int k"
  shows "int (LEAST k. walk env cfg source_of v k) = d"
proof -
  have "(LEAST k. walk env cfg source_of v k) = nat d"
    using assms by (intro Least_equality) force+
  then show ?thesis using assms(2) by simp
qed

text \<open>
  C1: an untruncated breadth-first traversal from an admitted seed visits exactly the nodes
  that a walk of admitted edges reaches within \<open>max_depth\<close> hops, and the depth it records
  for each of them is the length of a shortest such walk.
\<close>

theorem bfs_shortest_distances:
  assumes "nodes_ok (nodes env)" and "source_ok source_of" and "seed_admitted env cfg"
    and "type_filter cfg \<noteq> NoneMatched"
    and "execute_with_neighbors_inner env source_of cfg g = Inr r" and "\<not> truncated r"
  shows "res_visited r = {v. \<exists>k. walk env cfg source_of v k \<and> int k \<le> max 0 (max_depth cfg)} \<and>
    (\<forall>v \<in> res_visited r.
       depth_get (res_depth r) v = Some (int (LEAST k. walk env cfg source_of v k)))"
proof -
  have b: "backing_ok (backing (nodes env))" using assms(1) by (simp add: nodes_ok_def)
  from execute_outcome [OF b assms(2) assms(5) [unfolded execute_with_neighbors_inner_def]] assms(3,4,6)
  obtain t where r: "r = result_of False t" and t: "loop_ok Bfs env cfg source_of t" "frontier t = []"
    by auto
  then have m: "meta_ok env cfg source_of t" and cl: "closed env cfg source_of t"
    and lv: "levels env cfg source_of t" by (simp_all add: loop_ok_def)
  have sound: "walk env cfg source_of v (nat (depth_at t v)) \<and> depth_at t v \<le> max 0 (max_depth cfg)"
    if "v \<in> visited t" for v
    using meta_walk [OF m depth_at_visited [OF m that]] .
  have complete: "v \<in> visited t \<and> depth_at t v \<le> int k"
    if "walk env cfg source_of v k" "int k \<le> max 0 (max_depth cfg)" for v k
    using closed_reaches [OF that(1) m t(2) cl lv that(2)] .
  have nonneg: "0 \<le> depth_at t v" if "v \<in> visited t" for v
    using depth_at_visited [OF m that] m by (auto simp: meta_ok_def Let_def)
  have "int (LEAST k. walk env cfg source_of v k) = depth_at t v" if v: "v \<in> visited t" for v
  proof (rule least_walk)
    show "walk env cfg source_of v (nat (depth_at t v))" "0 \<le> depth_at t v"
      using sound [OF v] nonneg [OF v] by auto
    show "depth_at t v \<le> int k" if "walk env cfg source_of v k" for k
      using complete [OF that] sound [OF v] by (cases "int k \<le> max 0 (max_depth cfg)") auto
  qed
  then have "\<forall>v \<in> visited t. depth_get (depth t) v = Some (int (LEAST k. walk env cfg source_of v k))"
    using depth_at_visited [OF m] by simp
  moreover have "visited t = {v. \<exists>k. walk env cfg source_of v k \<and> int k \<le> max 0 (max_depth cfg)}"
  proof (intro set_eqI iffI)
    fix v assume v: "v \<in> visited t"
    then have "int (nat (depth_at t v)) \<le> max 0 (max_depth cfg)"
      using sound [OF v] nonneg [OF v] by simp
    then show "v \<in> {v. \<exists>k. walk env cfg source_of v k \<and> int k \<le> max 0 (max_depth cfg)}"
      using sound [OF v] by blast
  qed (use complete in blast)
  ultimately show ?thesis by (simp add: r result_of_def)
qed

theorem bfs_shortest_distances_witness:
  "int (LEAST k. walk sample_env (sample_cfg 100 3) sample_source 5 k) = 3"
proof -
  have "nodes_ok (nodes sample_env)" "type_filter (sample_cfg 100 3) \<noteq> NoneMatched"
    using sample_store_ok by simp_all
  from bfs_shortest_distances [OF this(1) sample_sources_ok(1) sample_seed_admitted this(2) sample_bfs]
  show ?thesis by (simp add: get_opt_def)
qed

section \<open>Paths\<close>

text \<open>
  C5: whatever a traversal returns, under either strategy and truncated or not, the parent
  metadata is a tree rooted at the seed: for every visited node the reconstruction loops
  end, and give a path of admitted edges from the seed to the node together with the types
  of exactly those edges, as many as the depth recorded for the node.
\<close>

theorem traversal_paths_valid:
  assumes "nodes_ok (nodes env)" and "source_ok source_of"
    and "execute_traversal strategy env source_of cfg g = Inr r" and "v \<in> res_visited r"
  shows "\<exists>path tys d. reconstruct_path (res_parent r) (seed_node cfg) v = Some path \<and>
    reconstruct_edge_path (res_parent r) (res_parent_edge_type r) (seed_node cfg) v = Some tys \<and>
    depth_get (res_depth r) v = Some d \<and> int (length tys) = d \<and>
    path \<noteq> [] \<and> hd path = seed_node cfg \<and> last path = v \<and> hop_path env cfg source_of path tys"
proof -
  have b: "backing_ok (backing (nodes env))" using assms(1) by (simp add: nodes_ok_def)
  from execute_outcome [OF b assms(2,3)] assms(4)
  obtain t where r: "r = result_of (truncated r) t" and m: "meta_ok env cfg source_of t"
    by (auto simp: loop_ok_def stop_ok_def result_of_def fresh_metadata_def Let_def split: if_splits)
  have fields: "res_visited r = visited t" "res_depth r = depth t" "res_parent r = parent t"
    "res_parent_edge_type r = parent_edge_type t" by (subst r, simp add: result_of_def)+
  have v: "depth_get (depth t) v = Some (depth_at t v)"
    using depth_at_visited [OF m] assms(4) fields by simp
  moreover have "0 \<le> depth_at t v" using v m by (auto simp: meta_ok_def Let_def)
  ultimately show ?thesis using reconstructed [OF m v] by (auto simp: fields)
qed

theorem traversal_paths_valid_witness:
  "\<exists>path tys. reconstruct_path (DenseParent [0, 0, 0, 1, 2, 4]) 0 5 = Some path \<and> length tys = 3 \<and>
    hop_path sample_env (sample_cfg 100 3) sample_source path tys \<and> last path = 5"
proof -
  have ok: "nodes_ok (nodes sample_env)" using sample_store_ok by simp
  from traversal_paths_valid [OF ok sample_sources_ok(1) sample_bfs [unfolded execute_with_neighbors_inner_def],
    of 5] show ?thesis by (auto simp: get_opt_def)
qed

section \<open>Admission, budget and faults\<close>






lemma outcome_visited:
  assumes b: "backing_ok (backing (nodes env))" and src: "source_ok source_of"
    and e: "execute_traversal strategy env source_of cfg g = Inr r"
  shows "res_visited r = {} \<or>
    (\<exists>t. r = result_of (truncated r) t \<and> res_visited r = visited t \<and> meta_ok env cfg source_of t \<and>
      allows_node (scope env) (seed_node cfg) \<and> card (visited t) \<le> max 2 (unat (max_nodes cfg)) \<and>
      (\<not> truncated r \<longrightarrow> budget_open cfg t))"
proof (cases "seed_admitted env cfg")
  case False
  with execute_outcome [OF b src e] show ?thesis by (auto simp: result_of_def fresh_metadata_def Let_def)
next
  case True
  with execute_outcome [OF b src e] obtain t where t: "r = result_of (truncated r) t"
    "meta_ok env cfg source_of t" "if truncated r then card (visited t) \<le> max 2 (unat (max_nodes cfg))
       else budget_open cfg t"
    by (auto simp: loop_ok_def stop_ok_def split: if_splits)
  moreover have "res_visited r = visited t" by (subst t(1)) (simp add: result_of_def)
  moreover have "card (visited t) \<le> max 2 (unat (max_nodes cfg))"
    using t(3) by (auto simp: budget_open_def split: if_splits)
  ultimately show ?thesis using True by (auto simp: seed_admitted_def)
qed


text \<open>
  A caller of tenant \<open>t\<close> from whom node 2 is hidden: node 1 is returned, node 3 of another tenant is not.
\<close>

definition secured_env :: "(unit, unit) traversal_env" where
  "secured_env = sample_env\<lparr>scope := Enforced {2} {} (Selected {})\<rparr>"

definition secured_cfg :: "unit bfs_config" where
  "secured_cfg = sample_cfg 100 3\<lparr>tenant := Some [116], tenanted_table_oids := {9}, tenant_membership := [[116] \<mapsto> {1}]\<rparr>"

lemma secured_fields [simp]:
  "nodes secured_env = sample_store" "scope secured_env = Enforced {2} {} (Selected {})"
  "consume_expansion secured_env = Inr" "tx_node_deleted secured_env v = False" "mapped_tenant_contains secured_env t v = False"
  "seed_node secured_cfg = 0" "max_depth secured_cfg = 3" "max_nodes secured_cfg = 100" "max_frontier secured_cfg = 100"
  "type_filter secured_cfg = AllEdgeTypes" "filter_ops secured_cfg = []" "tenant secured_cfg = Some [116]"
  "tenanted_table_oids secured_cfg = {9}" "tenant_membership secured_cfg = [[116] \<mapsto> {1}]"
  by (simp_all add: secured_env_def secured_cfg_def sample_cfg_def sample_env_def)



text \<open>
  C3: the visit budget. A traversal never returns more than \<open>max_nodes\<close> nodes, except that
  a budget of zero or one still returns the seed and one neighbor; an untruncated result is
  the seed alone or stays strictly below the budget, so a result at the budget is always
  flagged.
\<close>

theorem visit_budget:
  assumes "nodes_ok (nodes env)" and "source_ok source_of"
    and "execute_traversal strategy env source_of cfg g = Inr r"
  shows "card (res_visited r) \<le> max 2 (unat (max_nodes cfg)) \<and>
    (\<not> truncated r \<longrightarrow> card (res_visited r) \<le> 1 \<or> card (res_visited r) < unat (max_nodes cfg))"
proof -
  have b: "backing_ok (backing (nodes env))" using assms(1) by (simp add: nodes_ok_def)
  from outcome_visited [OF b assms(2,3)] show ?thesis by (auto simp: budget_open_def)
qed

theorem visit_budget_witness:
  "\<exists>r. execute_traversal Bfs sample_env sample_source (sample_cfg 1 3) () = Inr r \<and>
    card (res_visited r) = 2 \<and> truncated r \<and> card (res_visited r) \<le> max 2 1"
proof -
  have ok: "nodes_ok (nodes sample_env)" using sample_store_ok by simp
  from visit_budget [OF ok sample_sources_ok(1) sample_budget] show ?thesis
    by (simp add: sample_budget)
qed

text \<open>
  C10: a traversal never panics on its own account. It returns a result, or an error that is
  the missing relationship identity of a row-level-secured type, a refusal of the resource
  governor, or a fault of the neighbor source; with a governor and a source that never
  refuse, only the visibility error is left.
\<close>

theorem traversal_faults:
  assumes "nodes_ok (nodes env)" and "source_ok source_of"
    and "execute_traversal strategy env source_of cfg g = Inl e"
  shows "e = Err RlsRelationshipIdentityMissing \<or> (\<exists>g. consume_expansion env g = Inl e) \<or>
    (\<exists>u. source_of u = Inl e)"
proof -
  have b: "backing_ok (backing (nodes env))" using assms(1) by (simp add: nodes_ok_def)
  have adm: "seed_admitted env cfg"
    using assms(3) by (auto simp: execute_traversal_def seed_admitted_def Let_def split: if_splits)
  then obtain s where s: "seed_state (seed_node cfg) (fresh_metadata env cfg g) = Inr s"
    "loop_ok strategy env cfg source_of s"
    using seed_loop_ok [OF b, of cfg g strategy source_of] by (auto simp: seed_admitted_def)
  then have "run strategy env cfg source_of s = Inl e"
    using assms(3) adm
    by (cases "run strategy env cfg source_of s")
      (auto simp: execute_traversal_def seed_admitted_def Let_def not_le split: if_splits)
  from run_faults [OF this s(2) b assms(2)] show ?thesis by (simp add: fault_ok_def)
qed

theorem traversal_faults_witness:
  "\<exists>e. execute_traversal Bfs sample_env (\<lambda>_. Inl Panic) (sample_cfg 100 3) () = Inl e \<and> e = Panic"
proof -
  have ok: "nodes_ok (nodes sample_env)" "source_ok (\<lambda>_. Inl Panic)"
    using sample_store_ok by (simp_all add: source_ok_def)
  have e: "execute_traversal Bfs sample_env (\<lambda>_. Inl Panic) (sample_cfg 100 3) () = Inl Panic"
    by (simp add: evaluate run.simps)
  from traversal_faults [OF ok e] e show ?thesis by auto
qed

section \<open>Depth first\<close>

text \<open>
  C13: an untruncated depth-first traversal is closed: every admitted edge out of a visited
  node whose recorded depth is below the limit leads to a visited node. So when no recorded
  depth reaches \<open>max_depth\<close>, it visits exactly the nodes reachable from the seed.
\<close>

theorem dfs_closed:
  assumes "nodes_ok (nodes env)" and "source_ok source_of" and "seed_admitted env cfg"
    and "type_filter cfg \<noteq> NoneMatched"
    and "execute_dfs_with_neighbors_inner env source_of cfg g = Inr r" and "\<not> truncated r"
  shows "(\<forall>u \<in> res_visited r. \<forall>d v ty. depth_get (res_depth r) u = Some d \<and> d < max_depth cfg \<and>
      hop env cfg source_of u v ty \<longrightarrow> v \<in> res_visited r) \<and>
    ((\<forall>u d. depth_get (res_depth r) u = Some d \<longrightarrow> d < max_depth cfg) \<longrightarrow>
      res_visited r = {v. \<exists>k. walk env cfg source_of v k})"
proof -
  have b: "backing_ok (backing (nodes env))" using assms(1) by (simp add: nodes_ok_def)
  from execute_outcome [OF b assms(2) assms(5) [unfolded execute_dfs_with_neighbors_inner_def]] assms(3,4,6)
  obtain t where r: "r = result_of False t" and t: "loop_ok Dfs env cfg source_of t" "frontier t = []"
    by auto
  then have m: "meta_ok env cfg source_of t" and cl: "closed env cfg source_of t"
    by (simp_all add: loop_ok_def)
  have at: "depth_get (depth t) u = Some d \<Longrightarrow> u \<in> visited t \<and> depth_at t u = d" for u d
    using meta_visited_depth [OF m] by auto
  have "v \<in> visited t" if "u \<in> visited t" "depth_get (depth t) u = Some d" "d < max_depth cfg"
    "hop env cfg source_of u v ty" for u d v ty
    using cl [unfolded closed_def, THEN bspec, of u] that at [OF that(2)] t(2) by auto
  moreover have "visited t = {v. \<exists>k. walk env cfg source_of v k}"
    if d: "\<forall>u d. depth_get (depth t) u = Some d \<longrightarrow> d < max_depth cfg"
  proof -
    have "\<forall>u \<in> visited t. depth_at t u < max_depth cfg"
      using d depth_at_visited [OF m] by blast
    then show ?thesis
      using closed_reaches_all [OF _ m t(2) cl] meta_walk [OF m] depth_at_visited [OF m] by blast
  qed
  ultimately show ?thesis by (auto simp: r result_of_def)
qed

lemma sample_hop:
  assumes "v \<in> set (sample_targets u)" "unat v < 6"
  shows "hop sample_env (sample_cfg 100 3) sample_source_reversed u v 1"
  using assms sample_candidate [of v 100 3 "{}"]
  by (auto simp: hop_def sample_source_reversed_def admitted_def intro!: bexI [of _ "sample_neighbor v"])

theorem dfs_closed_witness:
  "\<exists>r. execute_dfs_with_neighbors_inner sample_env sample_source_reversed (sample_cfg 100 3) () = Inr r \<and>
    hop sample_env (sample_cfg 100 3) sample_source_reversed 3 4 1 \<and> 4 \<in> res_visited r"
proof -
  have hop: "hop sample_env (sample_cfg 100 3) sample_source_reversed 3 4 1"
    by (rule sample_hop) (simp_all add: sample_targets_def)
  have "nodes_ok (nodes sample_env)" "type_filter (sample_cfg 100 3) \<noteq> NoneMatched"
    using sample_store_ok by simp_all
  from dfs_closed [OF this(1) sample_sources_ok(2) sample_seed_admitted this(2) sample_dfs] hop
  have "4 \<in> ({4, 3, 1, 2, 0} :: u32 set)" by (simp add: get_opt_def)
  with hop show ?thesis by (simp add: sample_dfs)
qed

text \<open>
  the depth limit makes depth-first answers incomplete: node 5 is three hops from the seed
  (over nodes 2 and 4), but depth first reaches node 4 over nodes 1 and 3 at depth 3 and
  stops there. With \<open>max_depth = 3\<close> the run misses node 5 and still reports that nothing was
  truncated, and it records depth 3 for node 4, which is two hops away.
\<close>

theorem dfs_misses_within_depth:
  "\<exists>r. execute_dfs_with_neighbors_inner sample_env sample_source_reversed (sample_cfg 100 3) () = Inr r \<and>
    \<not> truncated r \<and> 5 \<notin> res_visited r \<and> depth_get (res_depth r) 4 = Some 3 \<and>
    walk sample_env (sample_cfg 100 3) sample_source_reversed 4 2 \<and>
    walk sample_env (sample_cfg 100 3) sample_source_reversed 5 3"
proof -
  let ?walk = "walk sample_env (sample_cfg 100 3) sample_source_reversed"
  have "?walk 0 0" using walk.start [of sample_env "sample_cfg 100 3"] by simp
  then have "?walk 2 (Suc 0)" by (rule walk.step [OF _ sample_hop]) (simp_all add: sample_targets_def)
  then have w4: "?walk 4 (Suc (Suc 0))" by (rule walk.step [OF _ sample_hop]) (simp_all add: sample_targets_def)
  then have "?walk 5 (Suc (Suc (Suc 0)))" by (rule walk.step [OF _ sample_hop]) (simp_all add: sample_targets_def)
  moreover have "Suc (Suc 0) = 2" "Suc (Suc (Suc 0)) = 3" by simp_all
  ultimately have "?walk 4 2" "?walk 5 3" using w4 by metis+
  then show ?thesis by (simp add: sample_dfs get_opt_def)
qed

section \<open>Traversing a store under its overlay\<close>

lemma collect_yields:
  assumes "yields it ns" "length ns < fuel"
  shows "collect_iter fuel it = Inr ns"
  using assms
proof (induction arbitrary: fuel rule: yields.induct)
  case (finished it it')
  then show ?case by (cases fuel) simp_all
next
  case (item it n it' ns)
  then show ?case by (cases fuel) simp_all
qed

lemma overlay_spec_length:
  "length (overlay_spec base ins del) \<le> length base + length (opt_get_or [] ins)"
proof -
  have "length (fresh_inserts base is) \<le> length is" for "is"
    using length_filter_le [of _ "[0..<length is]"] by (simp add: fresh_inserts_def)
  moreover have "length (filter (\<lambda>n. \<not> is_deleted del n) base) \<le> length base"
    by (rule length_filter_le)
  ultimately show ?thesis by (simp add: overlay_spec_def add_mono)
qed

lemma base_neighbors_length:
  assumes "store_ok st"
  shows "length (base_neighbors st i) \<le> length (store_targets st)"
proof -
  have wf: "csr_wf (store_arrays st)" by (rule store_ok_wf [OF assms])
  have tgts: "store_targets st = targets (store_arrays st)" by (cases st) simp_all
  show ?thesis
  proof (cases "unat i < node_count_of (store_arrays st)")
    case True
    then show ?thesis
      using length_row [OF wf True] row_start_le [OF wf, of "Suc (unat i)"]
      by (simp add: base_neighbors_def node_rows_def tgts)
  next
    case False
    then show ?thesis by (simp add: base_neighbors_def node_rows_def)
  qed
qed

lemma store_source:
  assumes "store_ok st"
  shows "overlay_source st ins del i = Inr (overlay_spec (base_neighbors st i) (ins i) (del i))"
    and "overlay_source_reversed st ins del i =
      Inr (rev (overlay_spec (base_neighbors st i) (ins i) (del i)))"
proof -
  have len: "length (overlay_spec (base_neighbors st i) (ins i) (del i)) < source_fuel st ins i"
    using overlay_spec_length [of "base_neighbors st i" "ins i" "del i"] base_neighbors_length [OF assms, of i]
    by (simp add: source_fuel_def)
  obtain it where "overlay_neighbors st ins del i = Inr it"
    "yields it (overlay_spec (base_neighbors st i) (ins i) (del i))"
    using overlay_stream [OF assms] by blast
  with collect_yields [OF this(2) len]
  show "overlay_source st ins del i = Inr (overlay_spec (base_neighbors st i) (ins i) (del i))"
    by (simp add: overlay_source_def)
  obtain it where "overlay_neighbors_reversed st ins del i = Inr it"
    "yields it (rev (overlay_spec (base_neighbors st i) (ins i) (del i)))"
    using overlay_stream [OF assms] by blast
  with collect_yields [OF this(2)] len
  show "overlay_source_reversed st ins del i =
      Inr (rev (overlay_spec (base_neighbors st i) (ins i) (del i)))"
    by (simp add: overlay_source_reversed_def)
qed

text \<open>
  C9: traversing a well-formed owned or mapped store under its pending overlay is exactly
  traversing the specified adjacency: the surviving base rows of a node followed by its
  fresh inserts, and for depth first the same list backwards. The iterators neither panic
  nor drop, repeat or reorder a neighbor on the way into the loop.
\<close>

theorem store_traversals_exact:
  assumes "store_ok st"
  shows "execute_inner env st ins del cfg g =
      execute_with_neighbors_inner env
        (\<lambda>i. Inr (overlay_spec (base_neighbors st i) (ins i) (del i))) cfg g \<and>
    execute_dfs env st ins del cfg g =
      execute_dfs_with_neighbors_inner env
        (\<lambda>i. Inr (rev (overlay_spec (base_neighbors st i) (ins i) (del i)))) cfg g"
proof -
  have "overlay_source st ins del = (\<lambda>i. Inr (overlay_spec (base_neighbors st i) (ins i) (del i)))"
    "overlay_source_reversed st ins del =
      (\<lambda>i. Inr (rev (overlay_spec (base_neighbors st i) (ins i) (del i))))"
    by (rule ext, rule store_source [OF assms])+
  then show ?thesis
    by (simp add: execute_inner_def execute_dfs_def execute_with_neighbors_inner_def
        execute_dfs_with_neighbors_inner_def)
qed

theorem store_traversals_exact_witness:
  "execute_inner sample_env (Mmap sample_region) (\<lambda>_. None) (\<lambda>_. None) (sample_cfg 100 3) () =
    execute_with_neighbors_inner sample_env
      (\<lambda>i. Inr (overlay_spec (base_neighbors (Mmap sample_region) i) None None)) (sample_cfg 100 3) ()"
  using store_traversals_exact [of "Mmap sample_region" sample_env "\<lambda>_. None" "\<lambda>_. None" "sample_cfg 100 3" "()"]
  by (simp add: sample_region_valid)

section \<open>Metadata representations\<close>

text \<open>
  the dense and the sparse representation of the depth, parent and edge-type metadata
  are interchangeable: any sequence of writes of storable values to nodes of the graph
  succeeds on both, and every lookup afterwards is the same.
\<close>

theorem metadata_representation_irrelevant:
  assumes "\<forall>(i, d) \<in> set ds. unat i < n \<and> 0 \<le> d"
    and "\<forall>(i, p) \<in> set ps. unat i < n \<and> p \<noteq> U32_MAX"
    and "\<forall>(i, ty) \<in> set ts. unat i < n \<and> ty \<noteq> SENTINEL"
  shows "(\<exists>dense sparse. fold_r (\<lambda>(i, d) m. depth_set m i d) ds (depth_new n False) = Inr dense \<and>
      fold_r (\<lambda>(i, d) m. depth_set m i d) ds (depth_new n True) = Inr sparse \<and>
      depth_get dense = depth_get sparse) \<and>
    (\<exists>dense sparse. fold_r (\<lambda>(i, p) m. parent_set m i p) ps (parent_new n False) = Inr dense \<and>
      fold_r (\<lambda>(i, p) m. parent_set m i p) ps (parent_new n True) = Inr sparse \<and>
      parent_get dense = parent_get sparse) \<and>
    (\<exists>dense sparse. fold_r (\<lambda>(i, ty) m. edge_types_set m i ty) ts (edge_types_new n False) = Inr dense \<and>
      fold_r (\<lambda>(i, ty) m. edge_types_set m i ty) ts (edge_types_new n True) = Inr sparse \<and>
      edge_types_get dense = edge_types_get sparse)"
  using depths.representation_irrelevant [OF assms(1)] parents.representation_irrelevant [OF assms(2)]
    edge_types.representation_irrelevant [OF assms(3)] by blast

theorem metadata_representation_irrelevant_witness:
  "\<exists>dense sparse. fold_r (\<lambda>(i, d) m. depth_set m i d) [(2, 1)] (depth_new 4 False) = Inr dense \<and>
    fold_r (\<lambda>(i, d) m. depth_set m i d) [(2, 1)] (depth_new 4 True) = Inr sparse \<and>
    depth_get dense = depth_get sparse"
  using metadata_representation_irrelevant [of "[(2, 1)]" 4 "[]" "[]"] by simp

end
