(* ===== verification/UnionFind.thy ===== *)
theory UnionFind
  imports Safety
begin

text \<open>
  The disjoint-set structure behind connected components (\<open>graph/src/connected_components.rs\<close>):
  parent links with path compression and union by rank. \<open>find\<close> recurses along parent links, so
  on arbitrary links it may not return: it is an option whose \<open>None\<close> is an endless recursion.
  The specification is the root function of a well-founded forest and, for a sequence of
  unions, the equivalence closure of the united pairs.
\<close>

section \<open>The structure\<close>

record union_find =
  uf_parent :: "u32 list"
  uf_rank :: "u8 list"

definition component_allocation_error :: "graph_error fault" where
  "component_allocation_error = Err (Oom 0 1 0)"

definition uf_try_new :: "usize \<Rightarrow> union_find graph_result" where
  "uf_try_new n =
     (if n < 2 ^ 32 then Inr \<lparr>uf_parent = map word_of_nat [0..<n], uf_rank = replicate n 0\<rparr>
      else Inl component_allocation_error)"

partial_function (option) find_root :: "u32 list \<Rightarrow> u32 \<Rightarrow> (u32 \<times> u32 list) graph_result option" where
  "find_root ps x =
     (if unat x < length ps then
        (if ps ! unat x \<noteq> x then
           Option.bind (find_root ps (ps ! unat x)) (\<lambda>r.
             Some (rbind r (\<lambda>(root, ps').
               rbind (update_r ps' (unat x) root) (\<lambda>ps'. Inr (root, ps')))))
         else Some (Inr (ps ! unat x, ps)))
      else Some (Inl Panic))"

declare find_root.simps [code]

definition find :: "union_find \<Rightarrow> u32 \<Rightarrow> (u32 \<times> union_find) graph_result option" where
  "find uf x = obind (find_root (uf_parent uf) x) (\<lambda>(root, ps). Some (Inr (root, uf\<lparr>uf_parent := ps\<rparr>)))"

definition link_roots :: "union_find \<Rightarrow> u32 \<Rightarrow> u32 \<Rightarrow> union_find graph_result" where
  "link_roots uf rx ry =
     (if rx = ry then Inr uf
      else
        rbind (index_r (uf_rank uf) (unat rx)) (\<lambda>kx.
        rbind (index_r (uf_rank uf) (unat ry)) (\<lambda>ky.
        if kx < ky then
          rbind (update_r (uf_parent uf) (unat rx) ry) (\<lambda>ps. Inr (uf\<lparr>uf_parent := ps\<rparr>))
        else if kx > ky then
          rbind (update_r (uf_parent uf) (unat ry) rx) (\<lambda>ps. Inr (uf\<lparr>uf_parent := ps\<rparr>))
        else
          rbind (update_r (uf_parent uf) (unat ry) rx) (\<lambda>ps.
          rbind (update_r (uf_rank uf) (unat rx) (kx + 1)) (\<lambda>ks.
            Inr (uf\<lparr>uf_parent := ps, uf_rank := ks\<rparr>))))))"

definition union :: "union_find \<Rightarrow> u32 \<Rightarrow> u32 \<Rightarrow> union_find graph_result option" where
  "union uf x y =
     obind (find uf x) (\<lambda>(rx, uf).
     obind (find uf y) (\<lambda>(ry, uf). Some (link_roots uf rx ry)))"

section \<open>Roots\<close>

inductive root_of :: "u32 list \<Rightarrow> u32 \<Rightarrow> u32 \<Rightarrow> bool" for ps where
  root: "unat r < length ps \<Longrightarrow> ps ! unat r = r \<Longrightarrow> root_of ps r r"
| up: "unat x < length ps \<Longrightarrow> ps ! unat x \<noteq> x \<Longrightarrow> root_of ps (ps ! unat x) r \<Longrightarrow> root_of ps x r"

inductive_cases root_ofE: "root_of ps x r"

lemma root_of_range: "root_of ps x r \<Longrightarrow> unat x < length ps \<and> unat r < length ps \<and> ps ! unat r = r"
  by (induction rule: root_of.induct) auto

lemma root_of_unique: "root_of ps x r \<Longrightarrow> root_of ps x s \<Longrightarrow> s = r"
proof (induction rule: root_of.induct)
  case (root r)
  from root.prems root.hyps show ?case by (auto elim: root_ofE)
next
  case (up x r)
  from up.prems show ?case
    by (rule root_ofE) (use up in auto)
qed

lemma root_of_root: "root_of ps x r \<Longrightarrow> root_of ps r r"
  using root_of_range by (auto intro: root_of.root)

lemma root_of_self: "ps ! unat x = x \<Longrightarrow> root_of ps x r \<Longrightarrow> r = x"
  by (auto elim: root_ofE)

text \<open>Compressing one path leaves every root as it was.\<close>

lemma compress_keeps:
  assumes x: "root_of ps x r" and y: "root_of ps y s"
  shows "root_of (ps[unat x := r]) y s"
  using y
proof (induction rule: root_of.induct)
  case (root s)
  show ?case
  proof (cases "s = x")
    case True
    with x root have "r = s" using root_of_self by blast
    with True root show ?thesis by (intro root_of.root) auto
  next
    case False
    with root show ?thesis
      by (intro root_of.root) (auto simp: nth_list_update word_unat_eq_iff)
  qed
next
  case (up y s)
  show ?case
  proof (cases "y = x")
    case True
    have "s = r" using root_of_unique [OF x] root_of.up [OF up.hyps] True by blast
    note r = root_of_range [OF x]
    have "r \<noteq> x" using r up.hyps(2) True by auto
    have root: "root_of (ps[unat x := r]) r r"
      using r \<open>r \<noteq> x\<close> by (intro root_of.root) (auto simp: nth_list_update word_unat_eq_iff)
    have "ps[unat x := r] ! unat y = r" using r True by simp
    with root \<open>r \<noteq> x\<close> r True \<open>s = r\<close> show ?thesis using root_of.up [of x "ps[unat x := r]" r] by simp
  next
    case False
    then have "ps[unat x := r] ! unat y = ps ! unat y"
      by (simp add: nth_list_update word_unat_eq_iff)
    with up root_of.up [of y "ps[unat x := r]" s] show ?thesis by simp
  qed
qed

definition forest :: "u32 list \<Rightarrow> bool" where
  "forest ps \<longleftrightarrow> (\<forall>x. unat x < length ps \<longrightarrow> (\<exists>r. root_of ps x r))"

lemma compress_iff:
  assumes f: "forest ps" and x: "root_of ps x r"
  shows "root_of (ps[unat x := r]) y s \<longleftrightarrow> root_of ps y s"
proof
  assume a: "root_of (ps[unat x := r]) y s"
  then have "unat y < length ps" using root_of_range by fastforce
  then obtain t where t: "root_of ps y t" using f by (auto simp: forest_def)
  from compress_keeps [OF x t] a have "t = s" using root_of_unique by blast
  with t show "root_of ps y s" by simp
qed (rule compress_keeps [OF x])

lemma forest_update: "forest ps \<Longrightarrow> root_of ps x r \<Longrightarrow> forest (ps[unat x := r])"
  using compress_iff by (simp add: forest_def)

lemma find_root_ok:
  assumes "root_of ps x r" "forest ps"
  shows "\<exists>ps'. find_root ps x = Some (Inr (r, ps')) \<and> length ps' = length ps \<and>
    (\<forall>y s. root_of ps' y s \<longleftrightarrow> root_of ps y s) \<and>
    (\<forall>y. ps' ! unat y = ps ! unat y \<or> root_of ps y (ps' ! unat y))"
  using assms
proof (induction rule: root_of.induct)
  case (root r)
  then show ?case by (intro exI [of _ ps]) (simp add: find_root.simps)
next
  case (up x r)
  then obtain ps' where ps': "find_root ps (ps ! unat x) = Some (Inr (r, ps'))" "length ps' = length ps"
    "\<forall>y s. root_of ps' y s \<longleftrightarrow> root_of ps y s"
    "\<forall>y. ps' ! unat y = ps ! unat y \<or> root_of ps y (ps' ! unat y)" by blast
  have x: "root_of ps x r" by (rule root_of.up [OF up.hyps])
  have f: "forest ps'" using up.prems ps'(2,3) by (simp add: forest_def)
  have iff: "root_of (ps'[unat x := r]) y s \<longleftrightarrow> root_of ps y s" for y s
    using compress_iff [OF f, of x r] x ps'(3) by simp
  have near: "ps'[unat x := r] ! unat y = ps ! unat y \<or> root_of ps y (ps'[unat x := r] ! unat y)" for y
  proof (cases "y = x")
    case True
    with x up.hyps(1) ps'(2) show ?thesis by simp
  next
    case False
    then have "ps'[unat x := r] ! unat y = ps' ! unat y"
      by (simp add: nth_list_update word_unat_eq_iff)
    with ps'(4) show ?thesis by metis
  qed
  have "find_root ps x = Some (Inr (r, ps'[unat x := r]))"
    using up.hyps(1,2) ps'(1,2) by (simp add: find_root.simps [of ps x])
  with ps'(2) iff near show ?case by simp
qed

text \<open>Hanging one root below another renames it in every lookup.\<close>

lemma link_root_of:
  assumes f: "forest ps" and a: "root_of ps a a" and b: "root_of ps b b" and "a \<noteq> b"
  shows "root_of (ps[unat a := b]) y s \<longleftrightarrow> (\<exists>t. root_of ps y t \<and> s = (if t = a then b else t))"
proof -
  let ?ps = "ps[unat a := b]"
  have b': "root_of ?ps b b"
    using root_of_range [OF b] \<open>a \<noteq> b\<close> by (intro root_of.root) (auto simp: nth_list_update word_unat_eq_iff)
  have keep: "root_of ?ps y (if t = a then b else t)" if "root_of ps y t" for y t
    using that
  proof (induction rule: root_of.induct)
    case (root r)
    show ?case
    proof (cases "r = a")
      case True
      have "?ps ! unat r = b" using root True by simp
      with True root b' \<open>a \<noteq> b\<close> show ?thesis using root_of.up [of r ?ps b] by simp
    next
      case False
      then have "?ps ! unat r = ps ! unat r" by (simp add: nth_list_update word_unat_eq_iff)
      with root False root_of.root [of r ?ps] show ?thesis by simp
    qed
  next
    case (up x r)
    have "x \<noteq> a" using up.hyps(2) root_of_range [OF a] by auto
    then have "?ps ! unat x = ps ! unat x" by (simp add: nth_list_update word_unat_eq_iff)
    with up root_of.up [of x ?ps] show ?case by simp
  qed
  show ?thesis
  proof
    assume s: "root_of ?ps y s"
    then have "unat y < length ps" using root_of_range by fastforce
    then obtain t where "root_of ps y t" using f by (auto simp: forest_def)
    with keep [OF this] root_of_unique [OF s] show "\<exists>t. root_of ps y t \<and> s = (if t = a then b else t)"
      by metis
  qed (use keep in auto)
qed

lemma forest_link:
  assumes "forest ps" "root_of ps a a" "root_of ps b b" "a \<noteq> b"
  shows "forest (ps[unat a := b])"
  using assms(1) link_root_of [OF assms] by (fastforce simp: forest_def)

section \<open>Union by rank\<close>

text \<open>
  Ranks rise strictly along parent links, and a root of rank \<open>k\<close> has at least \<open>2 ^ k\<close>
  nodes below it: a structure over fewer than \<open>2 ^ 32\<close> nodes never reaches rank 32.
\<close>

definition class_of :: "u32 list \<Rightarrow> u32 \<Rightarrow> u32 set" where
  "class_of ps r = {y. root_of ps y r}"

definition uf_ok :: "union_find \<Rightarrow> bool" where
  "uf_ok uf \<longleftrightarrow>
     forest (uf_parent uf) \<and> length (uf_rank uf) = length (uf_parent uf) \<and>
     length (uf_parent uf) < 2 ^ 32 \<and>
     (\<forall>x. unat x < length (uf_parent uf) \<longrightarrow> uf_parent uf ! unat x \<noteq> x \<longrightarrow>
        uf_rank uf ! unat x < uf_rank uf ! unat (uf_parent uf ! unat x)) \<and>
     (\<forall>r. root_of (uf_parent uf) r r \<longrightarrow> 2 ^ unat (uf_rank uf ! unat r) \<le> card (class_of (uf_parent uf) r))"

definition same_class :: "union_find \<Rightarrow> u32 \<Rightarrow> u32 \<Rightarrow> bool" where
  "same_class uf x y \<longleftrightarrow> (\<exists>r. root_of (uf_parent uf) x r \<and> root_of (uf_parent uf) y r)"

lemma class_of_range: "class_of ps r \<subseteq> {y. unat y < length ps}"
  using root_of_range by (auto simp: class_of_def)

lemma card_indices: "n \<le> 2 ^ 32 \<Longrightarrow> card {y :: u32. unat y < n} = n"
proof -
  assume n: "n \<le> 2 ^ 32"
  have "{y :: u32. unat y < n} = word_of_nat ` {..<n}"
  proof (intro set_eqI iffI)
    fix y :: u32
    assume "y \<in> {y. unat y < n}"
    then show "y \<in> word_of_nat ` {..<n}" by (intro image_eqI [of _ _ "unat y"]) auto
  qed (use n in auto)
  moreover have "inj_on (word_of_nat :: nat \<Rightarrow> u32) {..<n}"
    by (rule inj_on_inverseI [of _ unat]) (use n in auto)
  ultimately show ?thesis by (simp add: card_image)
qed

lemma rank_bound:
  assumes ok: "uf_ok uf" and r: "root_of (uf_parent uf) r r"
  shows "unat (uf_rank uf ! unat r) \<le> 31"
proof -
  let ?n = "length (uf_parent uf)"
  have "2 ^ unat (uf_rank uf ! unat r) \<le> card (class_of (uf_parent uf) r)"
    using ok r by (auto simp: uf_ok_def)
  also have "\<dots> \<le> card {y :: u32. unat y < ?n}"
    by (rule card_mono [OF _ class_of_range]) simp
  also have "\<dots> = ?n" using ok by (intro card_indices) (simp add: uf_ok_def)
  also have "\<dots> < 2 ^ 32" using ok by (simp add: uf_ok_def)
  finally have lt: "(2 :: nat) ^ unat (uf_rank uf ! unat r) < 2 ^ 32" .
  have "unat (uf_rank uf ! unat r) < 32"
    by (rule power_less_imp_less_exp [OF _ lt]) simp
  then show ?thesis by simp
qed

lemma rank_below_root:
  assumes "uf_ok uf" "root_of (uf_parent uf) x r"
  shows "uf_rank uf ! unat x \<le> uf_rank uf ! unat r"
  using assms(2)
proof (induction rule: root_of.induct)
  case (root r)
  then show ?case by simp
next
  case (up x r)
  with assms(1) have "uf_rank uf ! unat x < uf_rank uf ! unat (uf_parent uf ! unat x)"
    unfolding uf_ok_def by blast
  with up.IH show ?case by simp
qed

lemma find_ok:
  assumes ok: "uf_ok uf" and x: "unat x < length (uf_parent uf)"
  shows "\<exists>r uf'. find uf x = Some (Inr (r, uf')) \<and> root_of (uf_parent uf) x r \<and> uf_ok uf' \<and>
    length (uf_parent uf') = length (uf_parent uf) \<and>
    (\<forall>y s. root_of (uf_parent uf') y s \<longleftrightarrow> root_of (uf_parent uf) y s)"
proof -
  let ?ps = "uf_parent uf"
  obtain r where r: "root_of ?ps x r" using ok x by (auto simp: uf_ok_def forest_def)
  obtain ps' where ps': "find_root ?ps x = Some (Inr (r, ps'))" "length ps' = length ?ps"
    "\<forall>y s. root_of ps' y s \<longleftrightarrow> root_of ?ps y s"
    "\<forall>y. ps' ! unat y = ?ps ! unat y \<or> root_of ?ps y (ps' ! unat y)"
    using find_root_ok [OF r] ok by (auto simp: uf_ok_def)
  let ?uf = "uf\<lparr>uf_parent := ps'\<rparr>"
  have rise: "uf_rank uf ! unat y < uf_rank uf ! unat (ps' ! unat y)"
    if y: "unat y < length ?ps" "ps' ! unat y \<noteq> y" for y
  proof -
    have "?ps ! unat y \<noteq> y"
    proof
      assume "?ps ! unat y = y"
      with y have "root_of ps' y y" using root_of.root ps'(3) by blast
      with y(2) show False using root_of_range by blast
    qed
    with y ok have up: "uf_rank uf ! unat y < uf_rank uf ! unat (?ps ! unat y)"
      by (simp add: uf_ok_def)
    from ps'(4) consider "ps' ! unat y = ?ps ! unat y" | "root_of ?ps y (ps' ! unat y)" by blast
    then show ?thesis
    proof cases
      case 1
      with up show ?thesis by simp
    next
      case 2
      then have "root_of ?ps (?ps ! unat y) (ps' ! unat y)"
        by (rule root_ofE) (use y(2) in auto)
      from up rank_below_root [OF ok this] show ?thesis by simp
    qed
  qed
  have "class_of ps' = class_of ?ps" using ps'(3) by (simp add: class_of_def fun_eq_iff)
  with ok ps'(2,3) rise have "uf_ok ?uf" by (simp add: uf_ok_def forest_def)
  moreover have "find uf x = Some (Inr (r, ?uf))" using ps'(1) by (simp add: find_def)
  ultimately show ?thesis using ps'(2,3) r by auto
qed

definition attach :: "union_find \<Rightarrow> u32 \<Rightarrow> u32 \<Rightarrow> union_find" where
  "attach uf a b =
     \<lparr>uf_parent = (uf_parent uf)[unat a := b],
      uf_rank = (if uf_rank uf ! unat a = uf_rank uf ! unat b
                 then (uf_rank uf)[unat b := uf_rank uf ! unat b + 1] else uf_rank uf)\<rparr>"

lemma class_attach:
  assumes "forest ps" "root_of ps a a" "root_of ps b b" "a \<noteq> b"
  shows "class_of (ps[unat a := b]) s = (if s = b then class_of ps a \<union> class_of ps b
    else if s = a then {} else class_of ps s)"
  using assms(4) by (auto simp: class_of_def link_root_of [OF assms])

lemma attach_ok:
  assumes ok: "uf_ok uf" and a: "root_of (uf_parent uf) a a" and b: "root_of (uf_parent uf) b b"
    and ab: "a \<noteq> b" and le: "uf_rank uf ! unat a \<le> uf_rank uf ! unat b"
  shows "uf_ok (attach uf a b)"
proof -
  define ps ks ps' ks' where "ps = uf_parent uf" and "ks = uf_rank uf"
    and "ps' = uf_parent (attach uf a b)" and "ks' = uf_rank (attach uf a b)"
  note d = ps_def [symmetric] ks_def [symmetric]
  note okd = ok [unfolded uf_ok_def d] and a' = a [unfolded d] and b' = b [unfolded d]
  have f: "forest ps" and len: "length ks = length ps" using okd by auto
  note ra = root_of_range [OF a'] and rb = root_of_range [OF b']
  have ps': "ps' = ps[unat a := b]" by (simp add: ps'_def attach_def d)
  have below: "unat (ks ! unat b) < 2 ^ 8 - 1" using rank_bound [OF ok b] by (simp add: d)
  have bump: "unat (ks ! unat b + 1) = Suc (unat (ks ! unat b))"
    using below by (simp add: unat_word_ariths)
  have lift: "ks ! unat b < ks ! unat b + 1" using bump by (simp add: word_less_nat_alt)
  have ks': "ks' ! unat y = (if y = b \<and> ks ! unat a = ks ! unat b then ks ! unat b + 1 else ks ! unat y)" for y
    using rb len by (simp add: ks'_def attach_def d nth_list_update word_unat_eq_iff)
  have nth: "ps' ! unat y = (if y = a then b else ps ! unat y)" for y
    using ra by (simp add: ps' nth_list_update word_unat_eq_iff)
  have rise: "ks' ! unat y < ks' ! unat (ps' ! unat y)"
    if y: "unat y < length ps" "ps' ! unat y \<noteq> y" for y
  proof (cases "y = a")
    case True
    with le lift ab show ?thesis by (auto simp: nth ks' d)
  next
    case False
    with y have "ks ! unat y < ks ! unat (ps ! unat y)" "y \<noteq> b" using okd rb by (auto simp: nth)
    with False lift show ?thesis by (auto simp: nth ks')
  qed
  have size: "2 ^ unat (ks' ! unat r) \<le> card (class_of ps' r)" if r: "root_of ps' r r" for r
  proof -
    have "r \<noteq> a" using root_of_range [OF r] ab by (auto simp: nth)
    have old: "2 ^ unat (ks ! unat s) \<le> card (class_of ps s)" if "root_of ps s s" for s
      using okd that by blast
    show ?thesis
    proof (cases "r = b")
      case True
      have disj: "class_of ps a \<inter> class_of ps b = {}"
        using ab root_of_unique by (auto simp: class_of_def)
      have "card (class_of ps' r) = card (class_of ps a) + card (class_of ps b)"
        using True class_attach [OF f a' b' ab] disj by (simp add: ps' card_Un_disjoint)
      then show ?thesis using True old [OF a'] old [OF b'] bump by (auto simp: ks')
    next
      case False
      with r \<open>r \<noteq> a\<close> have "root_of ps r r"
        unfolding ps' link_root_of [OF f a' b' ab] by (auto split: if_splits)
      with old False \<open>r \<noteq> a\<close> class_attach [OF f a' b' ab] show ?thesis by (simp add: ps' ks')
    qed
  qed
  have len': "length ps' = length ps" "length ks' = length ps"
    using len by (simp_all add: ps' ks'_def attach_def d)
  have "forest ps'" unfolding ps' by (rule forest_link [OF f a' b' ab])
  with rise size okd len' show ?thesis
    unfolding uf_ok_def ps'_def [symmetric] ks'_def [symmetric] by simp
qed

lemma link_roots_attach:
  assumes ok: "uf_ok uf" and x: "root_of (uf_parent uf) x x" and y: "root_of (uf_parent uf) y y"
    and "x \<noteq> y"
  shows "\<exists>a b. link_roots uf x y = Inr (attach uf a b) \<and> {a, b} = {x, y} \<and>
    uf_rank uf ! unat a \<le> uf_rank uf ! unat b"
proof -
  have r: "unat x < length (uf_parent uf)" "unat y < length (uf_parent uf)"
    "length (uf_rank uf) = length (uf_parent uf)"
    using root_of_range [OF x] root_of_range [OF y] ok by (auto simp: uf_ok_def)
  consider (less) "uf_rank uf ! unat x < uf_rank uf ! unat y"
    | (greater) "uf_rank uf ! unat y < uf_rank uf ! unat x"
    | (equal) "uf_rank uf ! unat x = uf_rank uf ! unat y" by fastforce
  then show ?thesis
  proof cases
    case less
    with r \<open>x \<noteq> y\<close> show ?thesis
      by (intro exI [of _ x] exI [of _ y]) (auto simp: link_roots_def attach_def)
  next
    case greater
    with r \<open>x \<noteq> y\<close> show ?thesis
      by (intro exI [of _ y] exI [of _ x]) (auto simp: link_roots_def attach_def)
  next
    case equal
    with r \<open>x \<noteq> y\<close> show ?thesis
      by (intro exI [of _ y] exI [of _ x]) (auto simp: link_roots_def attach_def)
  qed
qed

lemma union_ok:
  assumes ok: "uf_ok uf" and x: "unat x < length (uf_parent uf)" and y: "unat y < length (uf_parent uf)"
  shows "\<exists>uf'. union uf x y = Some (Inr uf') \<and> uf_ok uf' \<and>
    length (uf_parent uf') = length (uf_parent uf) \<and>
    (\<forall>u v. same_class uf' u v \<longleftrightarrow> same_class uf u v \<or>
       (same_class uf u x \<and> same_class uf y v) \<or> (same_class uf u y \<and> same_class uf x v))"
proof -
  obtain rx uf1 where 1: "find uf x = Some (Inr (rx, uf1))" "root_of (uf_parent uf) x rx" "uf_ok uf1"
    "length (uf_parent uf1) = length (uf_parent uf)"
    "\<forall>y s. root_of (uf_parent uf1) y s \<longleftrightarrow> root_of (uf_parent uf) y s"
    using find_ok [OF ok x] by blast
  obtain ry uf2 where 2: "find uf1 y = Some (Inr (ry, uf2))" "root_of (uf_parent uf) y ry" "uf_ok uf2"
    "length (uf_parent uf2) = length (uf_parent uf)"
    "\<forall>y s. root_of (uf_parent uf2) y s \<longleftrightarrow> root_of (uf_parent uf) y s"
    using find_ok [OF 1(3), of y] y 1(4,5) by auto
  have u: "union uf x y = Some (link_roots uf2 rx ry)" using 1(1) 2(1) by (simp add: union_def)
  show ?thesis
  proof (cases "rx = ry")
    case True
    have "same_class uf u x \<longleftrightarrow> same_class uf u y" "same_class uf x v \<longleftrightarrow> same_class uf y v" for u v
      using True 1(2) 2(2) root_of_unique unfolding same_class_def by metis+
    moreover have "same_class uf u x \<Longrightarrow> same_class uf x v \<Longrightarrow> same_class uf u v" for u v
      using root_of_unique unfolding same_class_def by metis
    moreover have "same_class uf2 u v \<longleftrightarrow> same_class uf u v" for u v
      using 2(5) by (simp add: same_class_def)
    moreover have "union uf x y = Some (Inr uf2)" using True u by (simp add: link_roots_def)
    ultimately show ?thesis using 2(3,4) by blast
  next
    case False
    have rt: "root_of (uf_parent uf2) rx rx" "root_of (uf_parent uf2) ry ry"
      using 1(2) 2(2,5) root_of_root by blast+
    obtain a b where ab: "link_roots uf2 rx ry = Inr (attach uf2 a b)" "{a, b} = {rx, ry}"
      "uf_rank uf2 ! unat a \<le> uf_rank uf2 ! unat b"
      using link_roots_attach [OF 2(3) rt False] by blast
    have ab': "root_of (uf_parent uf2) a a" "root_of (uf_parent uf2) b b" "a \<noteq> b"
      using ab(2) rt False by (auto simp: doubleton_eq_iff)
    have f: "forest (uf_parent uf2)" using 2(3) by (simp add: uf_ok_def)
    have roots: "root_of (uf_parent (attach uf2 a b)) u s \<longleftrightarrow>
      (\<exists>t. root_of (uf_parent uf) u t \<and> s = (if t = a then b else t))" for u s
      using link_root_of [OF f ab'] 2(5) by (simp add: attach_def)
    have "same_class (attach uf2 a b) u v \<longleftrightarrow> same_class uf u v \<or>
       (same_class uf u x \<and> same_class uf y v) \<or> (same_class uf u y \<and> same_class uf x v)" for u v
    proof -
      have "same_class uf u x \<longleftrightarrow> root_of (uf_parent uf) u rx" "same_class uf u y \<longleftrightarrow> root_of (uf_parent uf) u ry"
        "same_class uf x v \<longleftrightarrow> root_of (uf_parent uf) v rx" "same_class uf y v \<longleftrightarrow> root_of (uf_parent uf) v ry"
        using 1(2) 2(2) root_of_unique unfolding same_class_def by metis+
      moreover have "same_class (attach uf2 a b) u v \<longleftrightarrow> same_class uf u v \<or>
        (root_of (uf_parent uf) u a \<and> root_of (uf_parent uf) v b) \<or>
        (root_of (uf_parent uf) u b \<and> root_of (uf_parent uf) v a)"
        (is "?l \<longleftrightarrow> ?r")
      proof
        show "?l \<Longrightarrow> ?r" unfolding same_class_def roots using ab'(3) by (auto split: if_splits)
        have join: "?l" if "root_of (uf_parent uf) u t" "root_of (uf_parent uf) v w"
          "(if t = a then b else t) = (if w = a then b else w)" for t w
          using that unfolding same_class_def roots by metis
        show "?r \<Longrightarrow> ?l" using join unfolding same_class_def by (auto split: if_splits)
      qed
      ultimately show ?thesis using ab(2) by (auto simp: doubleton_eq_iff)
    qed
    with u ab(1) attach_ok [OF 2(3) ab' ab(3)] 2(4) show ?thesis by (auto simp: attach_def)
  qed
qed

section \<open>Sequences of unions\<close>

lemma uf_try_new_ok:
  assumes "n < 2 ^ 32"
  shows "\<exists>uf. uf_try_new n = Inr uf \<and> uf_ok uf \<and> length (uf_parent uf) = n \<and>
    (\<forall>x y. same_class uf x y \<longleftrightarrow> x = y \<and> unat x < n)"
proof -
  let ?ps = "map word_of_nat [0..<n] :: u32 list"
  have nth: "?ps ! unat x = x" if "unat x < n" for x :: u32 using that by simp
  have roots: "root_of ?ps x r \<longleftrightarrow> r = x \<and> unat x < n" for x r
    using nth by (auto elim: root_ofE dest: root_of_range intro: root_of.root)
  have cls: "class_of ?ps r = {r}" if "unat r < n" for r
    using that by (auto simp: class_of_def roots)
  have "uf_ok \<lparr>uf_parent = ?ps, uf_rank = replicate n 0\<rparr>"
    using assms nth cls by (simp add: uf_ok_def forest_def roots)
  with assms show ?thesis by (auto simp: uf_try_new_def same_class_def roots)
qed

text \<open>The equivalence generated by a set of pairs.\<close>

definition connected :: "(u32 \<times> u32) set \<Rightarrow> (u32 \<times> u32) set" where
  "connected E = (E \<union> E\<inverse>)\<^sup>*"

lemma connected_insert:
  "(u, v) \<in> connected (insert (x, y) E) \<longleftrightarrow> (u, v) \<in> connected E \<or>
     ((u, x) \<in> connected E \<and> (y, v) \<in> connected E) \<or> ((u, y) \<in> connected E \<and> (x, v) \<in> connected E)"
proof -
  have "insert (x, y) E \<union> (insert (x, y) E)\<inverse> = insert (x, y) (insert (y, x) (E \<union> E\<inverse>))" by auto
  moreover have "sym ((E \<union> E\<inverse>)\<^sup>*)" by (rule sym_rtrancl) (auto simp: sym_def)
  ultimately show ?thesis
    unfolding connected_def by (auto simp: rtrancl_insert dest: symD intro: rtrancl_trans)
qed

lemma connected_empty [simp]: "connected {} = Id"
  by (simp add: connected_def)

lemma connected_sym: "(x, y) \<in> connected E \<Longrightarrow> (y, x) \<in> connected E"
  using sym_rtrancl [of "E \<union> E\<inverse>"] by (auto simp: connected_def sym_def)

lemma connected_trans: "(x, y) \<in> connected E \<Longrightarrow> (y, z) \<in> connected E \<Longrightarrow> (x, z) \<in> connected E"
  by (simp add: connected_def)

text \<open>What a structure over \<open>n\<close> elements is after the pairs \<open>E\<close> were united.\<close>

definition represents :: "union_find \<Rightarrow> nat \<Rightarrow> (u32 \<times> u32) set \<Rightarrow> bool" where
  "represents uf n E \<longleftrightarrow> uf_ok uf \<and> length (uf_parent uf) = n \<and>
     E \<subseteq> {x. unat x < n} \<times> {x. unat x < n} \<and>
     (\<forall>x y. same_class uf x y \<longleftrightarrow> unat x < n \<and> unat y < n \<and> (x, y) \<in> connected E)"

lemma represents_new: "n < 2 ^ 32 \<Longrightarrow> \<exists>uf. uf_try_new n = Inr uf \<and> represents uf n {}"
  using uf_try_new_ok [of n] by (auto simp: represents_def)

lemma represents_union:
  assumes uf: "represents uf n E" and xy: "unat x < n" "unat y < n"
  shows "\<exists>uf'. union uf x y = Some (Inr uf') \<and> represents uf' n (insert (x, y) E)"
proof -
  obtain uf' where uf': "union uf x y = Some (Inr uf')" "uf_ok uf'"
    "length (uf_parent uf') = length (uf_parent uf)"
    "\<forall>u v. same_class uf' u v \<longleftrightarrow> same_class uf u v \<or>
       (same_class uf u x \<and> same_class uf y v) \<or> (same_class uf u y \<and> same_class uf x v)"
    using union_ok [of uf x y] uf xy by (auto simp: represents_def)
  with uf xy have "represents uf' n (insert (x, y) E)"
    by (auto simp: represents_def connected_insert)
  with uf'(1) show ?thesis by blast
qed

lemma represents_find:
  assumes uf: "represents uf n E" and x: "unat x < n"
  shows "\<exists>r uf'. find uf x = Some (Inr (r, uf')) \<and> represents uf' n E \<and>
    root_of (uf_parent uf) x r \<and> uf_parent uf' ! unat r = r \<and>
    (\<forall>y s. root_of (uf_parent uf') y s \<longleftrightarrow> root_of (uf_parent uf) y s)"
proof -
  obtain r uf' where f: "find uf x = Some (Inr (r, uf'))" "root_of (uf_parent uf) x r" "uf_ok uf'"
    "length (uf_parent uf') = length (uf_parent uf)"
    "\<forall>y s. root_of (uf_parent uf') y s \<longleftrightarrow> root_of (uf_parent uf) y s"
    using find_ok [of uf x] uf x by (auto simp: represents_def)
  moreover from f have "uf_parent uf' ! unat r = r" using root_of_range by blast
  moreover from f uf have "represents uf' n E" by (auto simp: represents_def same_class_def)
  ultimately show ?thesis by blast
qed

text \<open>The number of recursive calls of \<open>find\<close> is bounded by the rank of the root.\<close>

lemma chain_length:
  assumes ok: "uf_ok uf" and x: "root_of (uf_parent uf) x r"
  shows "\<exists>k. k + unat (uf_rank uf ! unat x) \<le> unat (uf_rank uf ! unat r) \<and>
    ((\<lambda>z. uf_parent uf ! unat z) ^^ k) x = r"
  using x
proof (induction rule: root_of.induct)
  case (root r)
  show ?case by (rule exI [of _ 0]) simp
next
  case (up x r)
  then obtain k where k: "k + unat (uf_rank uf ! unat (uf_parent uf ! unat x)) \<le> unat (uf_rank uf ! unat r)"
    "((\<lambda>z. uf_parent uf ! unat z) ^^ k) (uf_parent uf ! unat x) = r" by blast
  have "uf_rank uf ! unat x < uf_rank uf ! unat (uf_parent uf ! unat x)"
    using ok up.hyps unfolding uf_ok_def by blast
  then have "unat (uf_rank uf ! unat x) < unat (uf_rank uf ! unat (uf_parent uf ! unat x))"
    by (simp add: word_less_nat_alt)
  with k show ?case by (intro exI [of _ "Suc k"]) (simp add: funpow_Suc_right del: funpow.simps)
qed

definition unite_all :: "(u32 \<times> u32) list \<Rightarrow> union_find \<Rightarrow> union_find graph_result option" where
  "unite_all = fold_o (\<lambda>(x, y) uf. union uf x y)"

lemma unite_all_represents:
  assumes "represents uf n E" "set pairs \<subseteq> {x. unat x < n} \<times> {x. unat x < n}"
  shows "\<exists>uf'. unite_all pairs uf = Some (Inr uf') \<and> represents uf' n (E \<union> set pairs)"
proof -
  have "returns (\<lambda>e. False) (\<lambda>uf'. represents uf' n (E \<union> set pairs)) (unite_all pairs uf)"
    unfolding unite_all_def
  proof (rule returns_fold [where P = "\<lambda>pre uf'. represents uf' n (E \<union> set pre)" and xs = pairs])
    fix pre p post uf
    assume "pairs = pre @ p # post" "represents uf n (E \<union> set pre)"
    with assms(2) show "returns (\<lambda>e. False) (\<lambda>uf'. represents uf' n (E \<union> set (pre @ [p])))
      ((\<lambda>(x, y) uf. union uf x y) p uf)"
      using represents_union [of uf n "E \<union> set pre" "fst p" "snd p"]
      by (auto simp: split_beta intro: returns_InrI)
  qed (use assms in simp)
  then show ?thesis by (rule returns_total)
qed

section \<open>Properties\<close>

text \<open>
  After any sequence of unions over a fresh structure every \<open>find\<close> returns, and two
  elements get the same representative exactly when the united pairs connect them.
\<close>

theorem union_find_exact:
  assumes "n < 2 ^ 32" "set pairs \<subseteq> {x. unat x < n} \<times> {x. unat x < n}" "unat x < n" "unat y < n"
  shows "\<exists>uf0 uf r uf1 s uf2. uf_try_new n = Inr uf0 \<and> unite_all pairs uf0 = Some (Inr uf) \<and>
    find uf x = Some (Inr (r, uf1)) \<and> find uf1 y = Some (Inr (s, uf2)) \<and>
    (r = s \<longleftrightarrow> (x, y) \<in> connected (set pairs))"
proof -
  obtain uf0 where uf0: "uf_try_new n = Inr uf0" "represents uf0 n {}"
    using represents_new [OF assms(1)] by blast
  obtain uf where uf: "unite_all pairs uf0 = Some (Inr uf)" "represents uf n (set pairs)"
    using unite_all_represents [OF uf0(2) assms(2)] by auto
  obtain r uf1 where r: "find uf x = Some (Inr (r, uf1))" "represents uf1 n (set pairs)"
    "root_of (uf_parent uf) x r" using represents_find [OF uf(2) assms(3)] by blast
  obtain s uf2 where s: "find uf1 y = Some (Inr (s, uf2))" "root_of (uf_parent uf) y s"
    using represents_find [OF r(2) assms(4)] represents_find [OF uf(2) assms(3)] r(1) by auto
  have "r = s \<longleftrightarrow> same_class uf x y"
    using r(3) s(2) root_of_unique unfolding same_class_def by metis
  with uf(2) assms(3,4) have "r = s \<longleftrightarrow> (x, y) \<in> connected (set pairs)"
    by (simp add: represents_def)
  with uf0(1) uf(1) r(1) s(1) show ?thesis by blast
qed

theorem union_find_exact_witness:
  "\<exists>uf0 uf r uf1 s uf2. uf_try_new 3 = Inr uf0 \<and> unite_all [(0, 1)] uf0 = Some (Inr uf) \<and>
    find uf 0 = Some (Inr (r, uf1)) \<and> find uf1 1 = Some (Inr (s, uf2)) \<and>
    (r = s \<longleftrightarrow> (0, 1) \<in> connected (set [(0, 1)]))"
  by (rule union_find_exact) simp_all

text \<open>
  After any sequence of unions the recursion of \<open>find\<close> ends within 31 steps up the
  parent links and the rank of every element is at most 31, so the byte that holds a rank
  never wraps.
\<close>

theorem find_depth_bounded:
  assumes "n < 2 ^ 32" "set pairs \<subseteq> {x. unat x < n} \<times> {x. unat x < n}" "unat x < n"
  shows "\<exists>uf0 uf r uf1 k. uf_try_new n = Inr uf0 \<and> unite_all pairs uf0 = Some (Inr uf) \<and>
    find uf x = Some (Inr (r, uf1)) \<and> k \<le> 31 \<and> ((\<lambda>z. uf_parent uf ! unat z) ^^ k) x = r \<and>
    unat (uf_rank uf ! unat x) \<le> 31"
proof -
  obtain uf0 where uf0: "uf_try_new n = Inr uf0" "represents uf0 n {}"
    using represents_new [OF assms(1)] by blast
  obtain uf where uf: "unite_all pairs uf0 = Some (Inr uf)" "represents uf n (set pairs)"
    using unite_all_represents [OF uf0(2) assms(2)] by auto
  obtain r uf1 where r: "find uf x = Some (Inr (r, uf1))" "root_of (uf_parent uf) x r"
    using represents_find [OF uf(2) assms(3)] by blast
  have ok: "uf_ok uf" using uf(2) by (simp add: represents_def)
  obtain k where k: "k + unat (uf_rank uf ! unat x) \<le> unat (uf_rank uf ! unat r)"
    "((\<lambda>z. uf_parent uf ! unat z) ^^ k) x = r" using chain_length [OF ok r(2)] by blast
  have "unat (uf_rank uf ! unat r) \<le> 31" using rank_bound [OF ok root_of_root [OF r(2)]] .
  with k(1) have "k \<le> 31" "unat (uf_rank uf ! unat x) \<le> 31" by simp_all
  with k(2) uf0(1) uf(1) r(1) show ?thesis by blast
qed

theorem find_depth_bounded_witness:
  "\<exists>uf0 uf r uf1 k. uf_try_new 3 = Inr uf0 \<and> unite_all [(0, 1), (1, 2)] uf0 = Some (Inr uf) \<and>
    find uf 2 = Some (Inr (r, uf1)) \<and> k \<le> 31 \<and> ((\<lambda>z. uf_parent uf ! unat z) ^^ k) (2 :: u32) = r \<and>
    unat (uf_rank uf ! unat (2 :: u32)) \<le> 31"
  using find_depth_bounded [of 3 "[(0, 1), (1, 2)]" 2] by simp

end
