(* ===== verification/Resource.thy ===== *)
theory Resource
  imports Safety
begin

text \<open>
  Resource accounting of one statement (\<open>graph/src/resource.rs\<close>): checked byte units, the
  governor with its memory, disk, row and work budgets, the leases that hold reservations
  and give them back, and the batch policy of the build spools. The governor's interior
  cells are a record passed through every operation; a lease is a value, and the life of
  all leases of one governor is the step relation at the end. Settings are the fields of a
  record and the clock is an argument (elapsed microseconds).
\<close>

section \<open>Checked units\<close>

type_synonym byte_count = u64

definition checked_add_u64 :: "u64 \<Rightarrow> u64 \<Rightarrow> u64 option" where
  "checked_add_u64 a b = (if unat a + unat b < 2 ^ 64 then Some (a + b) else None)"

definition checked_mul_u64 :: "u64 \<Rightarrow> u64 \<Rightarrow> u64 option" where
  "checked_mul_u64 a b = (if unat a * unat b < 2 ^ 64 then Some (a * b) else None)"

definition bytes_checked_sub :: "byte_count \<Rightarrow> byte_count \<Rightarrow> byte_count option" where
  "bytes_checked_sub a b = (if b \<le> a then Some (a - b) else None)"

definition saturating_sub_u64 :: "u64 \<Rightarrow> u64 \<Rightarrow> u64" where
  "saturating_sub_u64 a b = (if b \<le> a then a - b else 0)"

definition saturating_add_u64 :: "u64 \<Rightarrow> u64 \<Rightarrow> u64" where
  "saturating_add_u64 a b = opt_get_or (- 1) (checked_add_u64 a b)"

definition from_usize :: "usize \<Rightarrow> byte_count option" where
  "from_usize n = (if n < 2 ^ 64 then Some (word_of_nat n) else None)"

definition from_mib :: "u64 \<Rightarrow> byte_count option" where
  "from_mib mib = checked_mul_u64 mib 1048576"

definition ceil_mib :: "byte_count \<Rightarrow> u64" where
  "ceil_mib b = b div 1048576 + (if b mod 1048576 = 0 then 0 else 1)"

definition adaptive_build_batch_target :: "byte_count \<Rightarrow> byte_count" where
  "adaptive_build_batch_target available =
     (let proportional = available div 16;
          min_batch = 64 * 1024; max_batch = 8 * 1024 * 1024
      in min (max min_batch (min max_batch proportional)) available)"

section \<open>Phases, kinds and errors\<close>

datatype resource_phase =
    Serving | SafetyReserve | Replacement | NodesPhase | NodeBatch | Filters | Tenants
  | ResolutionPhase | EdgeBatch | EdgeResolve | CsrPhase | BuildRunWrite | BuildRunMerge
  | Persistence | LoadMetadata | QueryVisibility | QueryCandidates | QueryExpand
  | QueryFrontier | QueryPaths | QueryHydrate | QueryBlocking | SyncIngest
  | CompactionMerge | AnalyticsWorkspace

fun phase_as_str :: "resource_phase \<Rightarrow> string" where
  "phase_as_str Serving = ''build.serving''"
| "phase_as_str SafetyReserve = ''build.safety_reserve''"
| "phase_as_str Replacement = ''build.replacement''"
| "phase_as_str NodesPhase = ''build.nodes''"
| "phase_as_str NodeBatch = ''build.node_batch''"
| "phase_as_str Filters = ''build.filters''"
| "phase_as_str Tenants = ''build.tenants''"
| "phase_as_str ResolutionPhase = ''build.resolution''"
| "phase_as_str EdgeBatch = ''build.edge_batch''"
| "phase_as_str EdgeResolve = ''build.edge_resolve''"
| "phase_as_str CsrPhase = ''build.csr''"
| "phase_as_str BuildRunWrite = ''build.run_write''"
| "phase_as_str BuildRunMerge = ''build.run_merge''"
| "phase_as_str Persistence = ''build.persistence''"
| "phase_as_str LoadMetadata = ''load.metadata''"
| "phase_as_str QueryVisibility = ''query.visibility''"
| "phase_as_str QueryCandidates = ''query.candidates''"
| "phase_as_str QueryExpand = ''query.expand''"
| "phase_as_str QueryFrontier = ''query.frontier''"
| "phase_as_str QueryPaths = ''query.paths''"
| "phase_as_str QueryHydrate = ''query.hydrate''"
| "phase_as_str QueryBlocking = ''query.blocking''"
| "phase_as_str SyncIngest = ''sync.ingest''"
| "phase_as_str CompactionMerge = ''compact.merge''"
| "phase_as_str AnalyticsWorkspace = ''analytics.workspace''"

datatype resource_kind = MemoryKind | DiskKind | RowsKind | WorkKind | ElapsedKind

fun kind_as_str :: "resource_kind \<Rightarrow> string" where
  "kind_as_str MemoryKind = ''memory bytes''"
| "kind_as_str DiskKind = ''disk bytes''"
| "kind_as_str RowsKind = ''rows''"
| "kind_as_str WorkKind = ''work units''"
| "kind_as_str ElapsedKind = ''elapsed microseconds''"

record resource_limit_error =
  err_kind :: resource_kind
  err_phase :: resource_phase
  err_used :: u64
  err_requested :: u64
  err_limit :: u64

type_synonym 'a limit_result = "(resource_limit_error, 'a) rust_result"

definition limit_error :: "resource_kind \<Rightarrow> resource_phase \<Rightarrow> u64 \<Rightarrow> u64 \<Rightarrow> u64 \<Rightarrow> resource_limit_error fault" where
  "limit_error k p used requested limit =
     Err \<lparr>err_kind = k, err_phase = p, err_used = used, err_requested = requested, err_limit = limit\<rparr>"

definition to_graph_error :: "resource_limit_error \<Rightarrow> graph_error" where
  "to_graph_error e =
     ResourceLimit (kind_as_str (err_kind e)) (phase_as_str (err_phase e))
       (err_used e) (err_requested e) (err_limit e)"

definition map_err :: "('e \<Rightarrow> 'f) \<Rightarrow> ('e, 'a) rust_result \<Rightarrow> ('f, 'a) rust_result" where
  "map_err f m = (case m of Inl (Err e) \<Rightarrow> Inl (Err (f e)) | Inl Panic \<Rightarrow> Inl Panic | Inr x \<Rightarrow> Inr x)"

section \<open>Governor\<close>

record resource_limits =
  memory_limit :: byte_count
  disk_limit :: byte_count
  rows_limit :: u64
  work_limit :: u64
  elapsed_limit :: nat

text \<open>Durations are microseconds; \<open>Duration::MAX\<close> is \<open>u64::MAX\<close> seconds and 999,999,999 ns.\<close>

definition DURATION_MAX :: nat where
  "DURATION_MAX = (2 ^ 64 - 1) * 1000000 + 999999"

definition memory_only :: "byte_count \<Rightarrow> resource_limits" where
  "memory_only m = \<lparr>memory_limit = m, disk_limit = - 1, rows_limit = - 1, work_limit = - 1,
     elapsed_limit = DURATION_MAX\<rparr>"

record resource_governor =
  operation :: "string option"
  limits :: resource_limits
  memory_used :: u64
  memory_peak :: u64
  memory_peak_phase :: "resource_phase option"
  disk_used :: u64
  disk_peak :: u64
  rows_used :: u64
  work_used :: u64

definition new_governor :: "resource_limits \<Rightarrow> resource_governor" where
  "new_governor l = \<lparr>operation = None, limits = l, memory_used = 0, memory_peak = 0,
     memory_peak_phase = None, disk_used = 0, disk_peak = 0, rows_used = 0, work_used = 0\<rparr>"

definition new_named :: "string \<Rightarrow> resource_limits \<Rightarrow> resource_governor" where
  "new_named name l = (new_governor l)\<lparr>operation := Some name\<rparr>"

text \<open>The settings (\<open>graph.*\<close>) a governor is derived from, and the derivation.\<close>

record resource_settings =
  MEMORY_LIMIT_MB :: int
  QUERY_MEMORY_MB :: int
  MAINTENANCE_MEMORY_MB :: int
  SPILL_DISK_LIMIT_MB :: int
  QUERY_WORK_LIMIT :: int
  OPERATION_TIMEOUT_MS :: int

definition mib_setting :: "int \<Rightarrow> byte_count" where
  "mib_setting mb = opt_get_or 0 (from_mib (word_of_int (max 1 mb)))"

definition configured_query_work_limit :: "resource_settings \<Rightarrow> u64" where
  "configured_query_work_limit c = word_of_int (max 1 (QUERY_WORK_LIMIT c))"

definition configured_operation_timeout_ms :: "resource_settings \<Rightarrow> u64" where
  "configured_operation_timeout_ms c = word_of_int (max 0 (OPERATION_TIMEOUT_MS c))"

definition elapsed_budget :: "resource_settings \<Rightarrow> nat" where
  "elapsed_budget c =
     (if configured_operation_timeout_ms c = 0 then DURATION_MAX
      else unat (configured_operation_timeout_ms c) * 1000)"

definition build_governor :: "resource_settings \<Rightarrow> byte_count \<Rightarrow> resource_governor" where
  "build_governor c memory =
     new_named ''build''
       \<lparr>memory_limit = memory, disk_limit = mib_setting (SPILL_DISK_LIMIT_MB c), rows_limit = - 1,
        work_limit = - 1, elapsed_limit = elapsed_budget c\<rparr>"

definition operation_governor ::
  "resource_settings \<Rightarrow> string \<Rightarrow> byte_count \<Rightarrow> int \<Rightarrow> u64 \<Rightarrow> u64 \<Rightarrow> resource_governor" where
  "operation_governor c name resident workspace_mb rows work =
     (let hard = mib_setting (MEMORY_LIMIT_MB c);
          remaining = opt_get_or 0 (bytes_checked_sub hard resident);
          workspace = mib_setting workspace_mb
      in new_named name
           \<lparr>memory_limit = min remaining workspace, disk_limit = mib_setting (SPILL_DISK_LIMIT_MB c),
            rows_limit = rows, work_limit = work, elapsed_limit = elapsed_budget c\<rparr>)"

definition query_governor :: "resource_settings \<Rightarrow> byte_count \<Rightarrow> resource_governor" where
  "query_governor c resident =
     operation_governor c ''query'' resident (QUERY_MEMORY_MB c) (- 1) (configured_query_work_limit c)"

definition load_governor :: "resource_settings \<Rightarrow> byte_count \<Rightarrow> resource_governor" where
  "load_governor c resident =
     operation_governor c ''load'' resident (MEMORY_LIMIT_MB c) (- 1) (- 1)"

definition maintenance_governor :: "resource_settings \<Rightarrow> byte_count \<Rightarrow> u64 \<Rightarrow> resource_governor" where
  "maintenance_governor c resident rows =
     operation_governor c ''maintenance'' resident (MAINTENANCE_MEMORY_MB c) rows (- 1)"

definition analytics_governor :: "resource_settings \<Rightarrow> byte_count \<Rightarrow> resource_governor" where
  "analytics_governor c resident =
     operation_governor c ''analytics'' resident (MAINTENANCE_MEMORY_MB c) (- 1) (configured_query_work_limit c)"

section \<open>Reservations\<close>

record resource_lease =
  lease_phase :: resource_phase
  lease_amount :: u64

definition reserve_memory ::
  "resource_governor \<Rightarrow> resource_phase \<Rightarrow> byte_count \<Rightarrow> (resource_governor \<times> resource_lease) limit_result" where
  "reserve_memory g phase requested =
     (let limit = memory_limit (limits g); used = memory_used g in
      case checked_add_u64 used requested of
        None \<Rightarrow> Inl (limit_error MemoryKind phase used requested limit)
      | Some next \<Rightarrow>
          if next > limit then Inl (limit_error MemoryKind phase used requested limit)
          else
            let g = g\<lparr>memory_used := next\<rparr>;
                g = (if next > memory_peak g
                     then g\<lparr>memory_peak := next, memory_peak_phase := Some phase\<rparr> else g)
            in Inr (g, \<lparr>lease_phase = phase, lease_amount = requested\<rparr>))"

definition reserve_disk ::
  "resource_governor \<Rightarrow> resource_phase \<Rightarrow> byte_count \<Rightarrow> (resource_governor \<times> u64) limit_result" where
  "reserve_disk g phase requested =
     (let limit = disk_limit (limits g); used = disk_used g in
      case checked_add_u64 used requested of
        None \<Rightarrow> Inl (limit_error DiskKind phase used requested limit)
      | Some next \<Rightarrow>
          if next > limit then Inl (limit_error DiskKind phase used requested limit)
          else Inr (g\<lparr>disk_used := next, disk_peak := max (disk_peak g) next\<rparr>, requested))"

definition release_memory :: "u64 \<Rightarrow> resource_governor \<Rightarrow> resource_governor" where
  "release_memory amount g = g\<lparr>memory_used := saturating_sub_u64 (memory_used g) amount\<rparr>"

definition release_disk :: "u64 \<Rightarrow> resource_governor \<Rightarrow> resource_governor" where
  "release_disk amount g = g\<lparr>disk_used := saturating_sub_u64 (disk_used g) amount\<rparr>"

definition consume_counter ::
  "u64 \<Rightarrow> u64 \<Rightarrow> u64 \<Rightarrow> resource_kind \<Rightarrow> resource_phase \<Rightarrow> u64 limit_result" where
  "consume_counter used requested limit kind phase =
     (case checked_add_u64 used requested of
        None \<Rightarrow> Inl (limit_error kind phase used requested limit)
      | Some next \<Rightarrow>
          if next > limit then Inl (limit_error kind phase used requested limit) else Inr next)"

definition consume_rows ::
  "resource_phase \<Rightarrow> u64 \<Rightarrow> resource_governor \<Rightarrow> resource_governor limit_result" where
  "consume_rows phase n g =
     rbind (consume_counter (rows_used g) n (rows_limit (limits g)) RowsKind phase) (\<lambda>next.
       Inr (g\<lparr>rows_used := next\<rparr>))"

definition consume_work ::
  "resource_phase \<Rightarrow> u64 \<Rightarrow> resource_governor \<Rightarrow> resource_governor limit_result" where
  "consume_work phase n g =
     rbind (consume_counter (work_used g) n (work_limit (limits g)) WorkKind phase) (\<lambda>next.
       Inr (g\<lparr>work_used := next\<rparr>))"

definition check_elapsed_duration ::
  "resource_governor \<Rightarrow> resource_phase \<Rightarrow> nat \<Rightarrow> unit limit_result" where
  "check_elapsed_duration g phase elapsed =
     (let elapsed = word_of_nat (min elapsed (2 ^ 64 - 1));
          limit = word_of_nat (min (elapsed_limit (limits g)) (2 ^ 64 - 1))
      in if elapsed > limit then Inl (limit_error ElapsedKind phase elapsed 0 limit) else Inr ())"

section \<open>Leases\<close>

text \<open>
  Growing a lease reserves an extra lease and absorbs it; on the (checked) overflow of the
  sum the extra lease is dropped. The governor and the lease come back with the outcome.
\<close>

definition try_grow_in ::
  "resource_phase \<Rightarrow> byte_count \<Rightarrow> resource_governor \<Rightarrow> resource_lease \<Rightarrow>
    (resource_governor \<times> resource_lease) \<times> unit limit_result" where
  "try_grow_in phase additional g l =
     (case reserve_memory g phase additional of
        Inl e \<Rightarrow> ((g, l), Inl e)
      | Inr (g', extra) \<Rightarrow>
          (case checked_add_u64 (lease_amount l) (lease_amount extra) of
             None \<Rightarrow> ((release_memory (lease_amount extra) g', l),
               Inl (limit_error MemoryKind phase (lease_amount l) additional (- 1)))
           | Some combined \<Rightarrow> ((g', l\<lparr>lease_amount := combined\<rparr>), Inr ())))"

definition try_grow ::
  "byte_count \<Rightarrow> resource_governor \<Rightarrow> resource_lease \<Rightarrow>
    (resource_governor \<times> resource_lease) \<times> unit limit_result" where
  "try_grow additional g l = try_grow_in (lease_phase l) additional g l"

definition try_resize ::
  "byte_count \<Rightarrow> resource_governor \<Rightarrow> resource_lease \<Rightarrow>
    (resource_governor \<times> resource_lease) \<times> unit limit_result" where
  "try_resize new_amount g l =
     (if new_amount > lease_amount l
      then try_grow (saturating_sub_u64 new_amount (lease_amount l)) g l
      else if new_amount < lease_amount l
      then ((release_memory (saturating_sub_u64 (lease_amount l) new_amount) g,
             l\<lparr>lease_amount := new_amount\<rparr>), Inr ())
      else ((g, l), Inr ()))"

definition release_all :: "resource_governor \<Rightarrow> resource_lease \<Rightarrow> resource_governor \<times> resource_lease" where
  "release_all g l = (release_memory (lease_amount l) g, l\<lparr>lease_amount := 0\<rparr>)"

definition drop_lease :: "resource_governor \<Rightarrow> resource_lease \<Rightarrow> resource_governor" where
  "drop_lease g l = release_memory (lease_amount l) g"

definition retain_until_governor_drop :: "resource_governor \<Rightarrow> resource_lease \<Rightarrow> resource_governor" where
  "retain_until_governor_drop g l = drop_lease g (l\<lparr>lease_amount := 0\<rparr>)"

definition disk_try_grow ::
  "resource_phase \<Rightarrow> byte_count \<Rightarrow> resource_governor \<Rightarrow> u64 \<Rightarrow>
    (resource_governor \<times> u64) \<times> unit limit_result" where
  "disk_try_grow phase additional g amount =
     (case reserve_disk g phase additional of
        Inl e \<Rightarrow> ((g, amount), Inl e)
      | Inr (g', extra) \<Rightarrow>
          (case checked_add_u64 amount extra of
             None \<Rightarrow> ((release_disk extra g', amount),
               Inl (limit_error DiskKind phase amount additional (- 1)))
           | Some combined \<Rightarrow> ((g', combined), Inr ())))"

definition disk_release_all :: "resource_governor \<Rightarrow> u64 \<Rightarrow> resource_governor \<times> u64" where
  "disk_release_all g amount = (release_disk amount g, 0)"

section \<open>Telemetry\<close>

record resource_snapshot =
  snap_operation :: string
  memory_budget_bytes :: u64
  memory_peak_bytes :: u64
  snap_memory_peak_phase :: "string option"
  disk_peak_bytes :: u64
  snap_rows :: u64
  work_units :: u64

definition drop_governor :: "resource_governor \<Rightarrow> resource_snapshot option \<Rightarrow> resource_snapshot option" where
  "drop_governor g last_operation =
     (case operation g of None \<Rightarrow> last_operation
      | Some name \<Rightarrow> Some
          \<lparr>snap_operation = name, memory_budget_bytes = memory_limit (limits g),
           memory_peak_bytes = memory_peak g,
           snap_memory_peak_phase = map_option phase_as_str (memory_peak_phase g),
           disk_peak_bytes = disk_peak g, snap_rows = rows_used g, work_units = work_used g\<rparr>)"

section \<open>Batch policy\<close>

datatype batch_action = Append | Flush

record adaptive_batch =
  batch_phase :: resource_phase
  row_limit :: usize
  byte_limit :: byte_count
  batch_rows :: usize
  batch_bytes :: byte_count
  pressure_events :: u64

definition new_batch :: "resource_phase \<Rightarrow> usize \<Rightarrow> byte_count \<Rightarrow> adaptive_batch" where
  "new_batch phase rows bytes = \<lparr>batch_phase = phase, row_limit = max rows 1, byte_limit = bytes,
     batch_rows = 0, batch_bytes = 0, pressure_events = 0\<rparr>"

definition before_push :: "byte_count \<Rightarrow> adaptive_batch \<Rightarrow> adaptive_batch \<times> batch_action" where
  "before_push row_bytes b =
     (let exceeds_rows = batch_rows b \<ge> row_limit b;
          exceeds_bytes = (case checked_add_u64 (batch_bytes b) row_bytes of
             None \<Rightarrow> True | Some next \<Rightarrow> next > byte_limit b)
      in if batch_rows b \<noteq> 0 \<and> (exceeds_rows \<or> exceeds_bytes)
         then (b\<lparr>pressure_events := saturating_add_u64 (pressure_events b) 1\<rparr>, Flush)
         else (b, Append))"

definition batch_record :: "byte_count \<Rightarrow> adaptive_batch \<Rightarrow> adaptive_batch limit_result" where
  "batch_record row_bytes b =
     rbind (ok_or (limit_error MemoryKind (batch_phase b) (batch_bytes b) row_bytes (- 1))
       (checked_add_u64 (batch_bytes b) row_bytes)) (\<lambda>bytes.
     rbind (ok_or (limit_error MemoryKind (batch_phase b) (word_of_nat (batch_rows b)) 1 (- 1))
       (checked_add_usize (batch_rows b) 1)) (\<lambda>rows.
       Inr (b\<lparr>batch_bytes := bytes, batch_rows := rows\<rparr>)))"

definition is_full :: "adaptive_batch \<Rightarrow> bool" where
  "is_full b \<longleftrightarrow> batch_rows b \<ge> row_limit b \<or> (batch_rows b \<noteq> 0 \<and> batch_bytes b \<ge> byte_limit b)"

definition clear_batch :: "adaptive_batch \<Rightarrow> adaptive_batch" where
  "clear_batch b = b\<lparr>batch_rows := 0, batch_bytes := 0\<rparr>"

section \<open>Lemmas on the operations\<close>

lemma checked_add_u64_Some: "checked_add_u64 a b = Some c \<Longrightarrow> c = a + b \<and> unat c = unat a + unat b"
  by (auto simp: checked_add_u64_def unat_word_ariths split: if_splits)

lemma unat_saturating_sub [simp]: "unat (saturating_sub_u64 a b) = unat a - unat b"
  by (auto simp: saturating_sub_u64_def word_le_nat_alt unat_sub)

lemma unat_u64_less: "unat (v :: u64) < 18446744073709551616"
  using unsigned_less [of v] by simp

lemma reserve_memory_Inr:
  "reserve_memory g p n = Inr (g', l) \<longleftrightarrow>
     unat (memory_used g) + unat n \<le> unat (memory_limit (limits g)) \<and>
     l = \<lparr>lease_phase = p, lease_amount = n\<rparr> \<and>
     g' = g\<lparr>memory_used := memory_used g + n,
            memory_peak := max (memory_peak g) (memory_used g + n),
            memory_peak_phase := if memory_used g + n > memory_peak g then Some p else memory_peak_phase g\<rparr>"
proof -
  note lim = unat_u64_less [of "memory_limit (limits g)"]
  show ?thesis
  proof (cases "unat (memory_used g) + unat n < 2 ^ 64")
    case True
    then have "unat (memory_used g + n) = unat (memory_used g) + unat n" by (simp add: unat_word_ariths)
    then have over: "memory_limit (limits g) < memory_used g + n \<longleftrightarrow>
        \<not> unat (memory_used g) + unat n \<le> unat (memory_limit (limits g))"
      unfolding word_less_nat_alt by linarith
    have "reserve_memory g p n =
      (if unat (memory_used g) + unat n \<le> unat (memory_limit (limits g))
       then Inr (g\<lparr>memory_used := memory_used g + n,
            memory_peak := max (memory_peak g) (memory_used g + n),
            memory_peak_phase := if memory_used g + n > memory_peak g then Some p else memory_peak_phase g\<rparr>,
          \<lparr>lease_phase = p, lease_amount = n\<rparr>)
       else Inl (limit_error MemoryKind p (memory_used g) n (memory_limit (limits g))))"
    proof (cases "memory_limit (limits g) < memory_used g + n")
      case False
      show ?thesis
      proof (cases "memory_used g + n > memory_peak g")
        case True
        with \<open>unat (memory_used g) + unat n < 2 ^ 64\<close> False over show ?thesis
          by (simp add: reserve_memory_def checked_add_u64_def Let_def max_absorb2)
      next
        case small: False
        then have "g\<lparr>memory_used := memory_used g + n, memory_peak := max (memory_peak g) (memory_used g + n),
            memory_peak_phase := memory_peak_phase g\<rparr> = g\<lparr>memory_used := memory_used g + n\<rparr>"
          by (cases g) (simp add: max_absorb1)
        with small \<open>unat (memory_used g) + unat n < 2 ^ 64\<close> False over show ?thesis
          by (simp add: reserve_memory_def checked_add_u64_def Let_def)
      qed
    qed (use True over in \<open>simp add: reserve_memory_def checked_add_u64_def Let_def\<close>)
    then show ?thesis by auto
  next
    case False
    with lim show ?thesis by (auto simp: reserve_memory_def checked_add_u64_def)
  qed
qed

lemma reserve_disk_Inr:
  "reserve_disk g p n = Inr (g', l) \<longleftrightarrow>
     unat (disk_used g) + unat n \<le> unat (disk_limit (limits g)) \<and> l = n \<and>
     g' = g\<lparr>disk_used := disk_used g + n, disk_peak := max (disk_peak g) (disk_used g + n)\<rparr>"
proof -
  note lim = unat_u64_less [of "disk_limit (limits g)"]
  show ?thesis
  proof (cases "unat (disk_used g) + unat n < 2 ^ 64")
    case True
    then have "unat (disk_used g + n) = unat (disk_used g) + unat n" by (simp add: unat_word_ariths)
    with True show ?thesis
      by (auto simp: reserve_disk_def checked_add_u64_def Let_def word_less_nat_alt)
  next
    case False
    with lim show ?thesis by (auto simp: reserve_disk_def checked_add_u64_def)
  qed
qed

lemma consume_counter_Inr:
  "consume_counter u n lim k p = Inr m \<longleftrightarrow> unat u + unat n \<le> unat lim \<and> m = u + n"
proof (cases "unat u + unat n < 2 ^ 64")
  case True
  then have "unat (u + n) = unat u + unat n" by (simp add: unat_word_ariths)
  with True show ?thesis by (auto simp: consume_counter_def checked_add_u64_def word_less_nat_alt)
next
  case False
  then show ?thesis using unat_u64_less [of lim] by (auto simp: consume_counter_def checked_add_u64_def)
qed

text \<open>The error of a refused reservation or counter carries what was used and asked for.\<close>

lemma consume_counter_Inl:
  "consume_counter u n lim k p = Inl e \<longleftrightarrow> unat lim < unat u + unat n \<and> e = limit_error k p u n lim"
proof (cases "unat u + unat n < 2 ^ 64")
  case True
  then have "unat (u + n) = unat u + unat n" by (simp add: unat_word_ariths)
  with True show ?thesis by (auto simp: consume_counter_def checked_add_u64_def word_less_nat_alt)
next
  case False
  then show ?thesis using unat_u64_less [of lim] by (auto simp: consume_counter_def checked_add_u64_def)
qed

lemma reserve_memory_Inl:
  "reserve_memory g p n = Inl e \<longleftrightarrow>
     unat (memory_limit (limits g)) < unat (memory_used g) + unat n \<and>
     e = limit_error MemoryKind p (memory_used g) n (memory_limit (limits g))"
proof -
  have "reserve_memory g p n = Inl e \<longleftrightarrow> consume_counter (memory_used g) n (memory_limit (limits g)) MemoryKind p = Inl e"
    by (simp add: reserve_memory_def consume_counter_def Let_def split: option.splits)
  then show ?thesis by (simp add: consume_counter_Inl)
qed

lemma reserve_disk_Inl:
  "reserve_disk g p n = Inl e \<longleftrightarrow>
     unat (disk_limit (limits g)) < unat (disk_used g) + unat n \<and>
     e = limit_error DiskKind p (disk_used g) n (disk_limit (limits g))"
proof -
  have "reserve_disk g p n = Inl e \<longleftrightarrow> consume_counter (disk_used g) n (disk_limit (limits g)) DiskKind p = Inl e"
    by (simp add: reserve_disk_def consume_counter_def Let_def split: option.splits)
  then show ?thesis by (simp add: consume_counter_Inl)
qed

section \<open>The life of all leases of a governor\<close>

text \<open>
  A governor, its live memory leases and disk leases, and the memory that was retained when
  a lease was given up with its charge. One step is one call on the governor or on one of
  the leases, failing calls included; a drop removes the lease.
\<close>

record lease_system =
  gov :: resource_governor
  memory_leases :: "resource_lease list"
  disk_leases :: "u64 list"
  retained :: nat

definition new_system :: "resource_governor \<Rightarrow> lease_system" where
  "new_system g = \<lparr>gov = g, memory_leases = [], disk_leases = [], retained = 0\<rparr>"

inductive lease_step :: "lease_system \<Rightarrow> lease_system \<Rightarrow> bool" where
  reserve: "reserve_memory (gov s) p n = Inr (g, l) \<Longrightarrow>
    lease_step s (s\<lparr>gov := g, memory_leases := l # memory_leases s\<rparr>)"
| grow: "memory_leases s = as @ l # bs \<Longrightarrow> try_grow_in p n (gov s) l = ((g, l'), r) \<Longrightarrow>
    lease_step s (s\<lparr>gov := g, memory_leases := as @ l' # bs\<rparr>)"
| resize: "memory_leases s = as @ l # bs \<Longrightarrow> try_resize n (gov s) l = ((g, l'), r) \<Longrightarrow>
    lease_step s (s\<lparr>gov := g, memory_leases := as @ l' # bs\<rparr>)"
| release: "memory_leases s = as @ l # bs \<Longrightarrow> release_all (gov s) l = (g, l') \<Longrightarrow>
    lease_step s (s\<lparr>gov := g, memory_leases := as @ l' # bs\<rparr>)"
| drop: "memory_leases s = as @ l # bs \<Longrightarrow>
    lease_step s (s\<lparr>gov := drop_lease (gov s) l, memory_leases := as @ bs\<rparr>)"
| retain: "memory_leases s = as @ l # bs \<Longrightarrow>
    lease_step s (s\<lparr>gov := retain_until_governor_drop (gov s) l, memory_leases := as @ bs,
      retained := retained s + unat (lease_amount l)\<rparr>)"
| reserve_disk: "reserve_disk (gov s) p n = Inr (g, a) \<Longrightarrow>
    lease_step s (s\<lparr>gov := g, disk_leases := a # disk_leases s\<rparr>)"
| grow_disk: "disk_leases s = as @ a # bs \<Longrightarrow> disk_try_grow p n (gov s) a = ((g, a'), r) \<Longrightarrow>
    lease_step s (s\<lparr>gov := g, disk_leases := as @ a' # bs\<rparr>)"
| release_disk: "disk_leases s = as @ a # bs \<Longrightarrow> disk_release_all (gov s) a = (g, a') \<Longrightarrow>
    lease_step s (s\<lparr>gov := g, disk_leases := as @ a' # bs\<rparr>)"
| drop_disk: "disk_leases s = as @ a # bs \<Longrightarrow>
    lease_step s (s\<lparr>gov := release_disk a (gov s), disk_leases := as @ bs\<rparr>)"
| rows: "consume_rows p n (gov s) = Inr g \<Longrightarrow> lease_step s (s\<lparr>gov := g\<rparr>)"
| work: "consume_work p n (gov s) = Inr g \<Longrightarrow> lease_step s (s\<lparr>gov := g\<rparr>)"

text \<open>The invariant: what is charged is what the live leases hold and what was retained.\<close>

definition memory_total :: "lease_system \<Rightarrow> nat" where
  "memory_total s = (\<Sum>l\<leftarrow>memory_leases s. unat (lease_amount l)) + retained s"

definition disk_total :: "lease_system \<Rightarrow> nat" where
  "disk_total s = (\<Sum>a\<leftarrow>disk_leases s. unat a)"

definition gov_ok :: "resource_governor \<Rightarrow> nat \<Rightarrow> nat \<Rightarrow> bool" where
  "gov_ok g mt dt \<longleftrightarrow>
     unat (memory_used g) = mt \<and>
     memory_used g \<le> memory_peak g \<and> memory_peak g \<le> memory_limit (limits g) \<and>
     (memory_peak g = 0 \<longleftrightarrow> memory_peak_phase g = None) \<and>
     unat (disk_used g) = dt \<and>
     disk_used g \<le> disk_peak g \<and> disk_peak g \<le> disk_limit (limits g) \<and>
     rows_used g \<le> rows_limit (limits g) \<and> work_used g \<le> work_limit (limits g)"

definition system_ok :: "lease_system \<Rightarrow> bool" where
  "system_ok s \<longleftrightarrow> gov_ok (gov s) (memory_total s) (disk_total s)"

lemma unat_add_below: "unat (a :: u64) + unat b \<le> unat (c :: u64) \<Longrightarrow> unat (a + b) = unat a + unat b"
  using unat_u64_less [of c] by (simp add: unat_word_ariths)

lemma add_le_limit: "unat (a :: u64) + unat b \<le> unat (c :: u64) \<Longrightarrow> a + b \<le> c"
  by (simp add: word_le_nat_alt unat_add_below)

lemma gov_ok_new: "gov_ok (new_governor l) 0 0" "gov_ok (new_named n l) 0 0"
  by (simp_all add: gov_ok_def new_governor_def new_named_def)

lemma gov_ok_reserve:
  assumes "gov_ok g mt dt" "reserve_memory g p n = Inr (g', l)"
  shows "gov_ok g' (mt + unat n) dt" "limits g' = limits g" "lease_amount l = n"
proof -
  have fits: "unat (memory_used g) + unat n \<le> unat (memory_limit (limits g))"
    and g': "g' = g\<lparr>memory_used := memory_used g + n,
            memory_peak := max (memory_peak g) (memory_used g + n),
            memory_peak_phase := if memory_used g + n > memory_peak g then Some p else memory_peak_phase g\<rparr>"
    using assms(2) by (auto simp: reserve_memory_Inr)
  show "gov_ok g' (mt + unat n) dt"
    using assms(1) unat_add_below [OF fits] add_le_limit [OF fits]
    by (auto simp: g' gov_ok_def max_def word_le_nat_alt word_less_nat_alt unat_eq_zero)
  show "limits g' = limits g" "lease_amount l = n" using assms(2) by (auto simp: reserve_memory_Inr)
qed

lemma gov_ok_reserve_disk:
  assumes "gov_ok g mt dt" "reserve_disk g p n = Inr (g', a)"
  shows "gov_ok g' mt (dt + unat n)" "limits g' = limits g" "a = n"
proof -
  have fits: "unat (disk_used g) + unat n \<le> unat (disk_limit (limits g))"
    and g': "g' = g\<lparr>disk_used := disk_used g + n, disk_peak := max (disk_peak g) (disk_used g + n)\<rparr>"
    using assms(2) by (auto simp: reserve_disk_Inr)
  show "gov_ok g' mt (dt + unat n)"
    using assms(1) unat_add_below [OF fits] add_le_limit [OF fits]
    by (auto simp: g' gov_ok_def max_def word_le_nat_alt)
  show "limits g' = limits g" "a = n" using assms(2) by (auto simp: reserve_disk_Inr)
qed

lemma gov_ok_release: "gov_ok g (unat a + mt) dt \<Longrightarrow> gov_ok (release_memory a g) mt dt"
  by (auto simp: gov_ok_def release_memory_def word_le_nat_alt)

lemma gov_ok_release_disk: "gov_ok g mt (unat a + dt) \<Longrightarrow> gov_ok (Resource.release_disk a g) mt dt"
  by (auto simp: gov_ok_def release_disk_def word_le_nat_alt)

lemma release_limits [simp]:
  "limits (release_memory a g) = limits g" "limits (Resource.release_disk a g) = limits g"
  by (simp_all add: release_memory_def release_disk_def)

text \<open>Under the invariant growing a lease fails only at the limit, and then changes nothing.\<close>

lemma try_grow_in_ok:
  assumes "gov_ok g (unat (lease_amount l) + mt) dt" "try_grow_in p n g l = ((g', l'), r)"
  shows "gov_ok g' (unat (lease_amount l') + mt) dt \<and> limits g' = limits g \<and> lease_phase l' = lease_phase l \<and>
    (case r of
       Inl e \<Rightarrow> g' = g \<and> l' = l \<and> unat (memory_limit (limits g)) < unat (memory_used g) + unat n \<and>
         e = limit_error MemoryKind p (memory_used g) n (memory_limit (limits g))
     | Inr _ \<Rightarrow> unat (lease_amount l') = unat (lease_amount l) + unat n)"
proof (cases "reserve_memory g p n")
  case (Inl e)
  with assms show ?thesis by (auto simp: try_grow_in_def reserve_memory_Inl)
next
  case (Inr q)
  then obtain g1 x where q: "reserve_memory g p n = Inr (g1, x)" by (cases q) auto
  note r = gov_ok_reserve [OF assms(1) q]
  have "unat (memory_used g1) = unat (lease_amount l) + mt + unat n" using r(1) by (simp add: gov_ok_def)
  then have add: "checked_add_u64 (lease_amount l) n = Some (lease_amount l + n)"
    "unat (lease_amount l + n) = unat (lease_amount l) + unat n"
    using unat_u64_less [of "memory_used g1"] by (auto simp: checked_add_u64_def unat_word_ariths)
  with assms(2) q r show ?thesis by (auto simp: try_grow_in_def add_ac)
qed

lemma disk_try_grow_ok:
  assumes "gov_ok g mt (unat a + dt)" "disk_try_grow p n g a = ((g', a'), r)"
  shows "gov_ok g' mt (unat a' + dt) \<and> limits g' = limits g \<and>
    (case r of
       Inl e \<Rightarrow> g' = g \<and> a' = a \<and> unat (disk_limit (limits g)) < unat (disk_used g) + unat n \<and>
         e = limit_error DiskKind p (disk_used g) n (disk_limit (limits g))
     | Inr _ \<Rightarrow> unat a' = unat a + unat n)"
proof (cases "reserve_disk g p n")
  case (Inl e)
  with assms show ?thesis by (auto simp: disk_try_grow_def reserve_disk_Inl)
next
  case (Inr q)
  then obtain g1 x where q: "reserve_disk g p n = Inr (g1, x)" by (cases q) auto
  note r = gov_ok_reserve_disk [OF assms(1) q]
  have "unat (disk_used g1) = unat a + dt + unat n" using r(1) by (simp add: gov_ok_def)
  then have add: "checked_add_u64 a n = Some (a + n)" "unat (a + n) = unat a + unat n"
    using unat_u64_less [of "disk_used g1"] by (auto simp: checked_add_u64_def unat_word_ariths)
  with assms(2) q r show ?thesis by (auto simp: disk_try_grow_def add_ac)
qed

lemma try_resize_ok:
  assumes ok: "gov_ok g (unat (lease_amount l) + mt) dt" and r: "try_resize n g l = ((g', l'), r)"
  shows "gov_ok g' (unat (lease_amount l') + mt) dt \<and> limits g' = limits g \<and>
    (case r of Inl e \<Rightarrow> g' = g \<and> l' = l | Inr _ \<Rightarrow> lease_amount l' = n)"
proof -
  consider (grow) "n > lease_amount l" | (shrink) "n < lease_amount l" | (same) "n = lease_amount l"
    by fastforce
  then show ?thesis
  proof cases
    case grow
    let ?d = "saturating_sub_u64 n (lease_amount l)"
    have "try_grow_in (lease_phase l) ?d g l = ((g', l'), r)"
      using grow r by (simp add: try_resize_def try_grow_def)
    from try_grow_in_ok [OF ok this] grow show ?thesis
      by (auto simp: word_less_nat_alt word_unat_eq_iff split: sum.splits)
  next
    case shrink
    let ?d = "saturating_sub_u64 (lease_amount l) n"
    have "unat (lease_amount l) + mt = unat ?d + (unat n + mt)"
      using shrink by (simp add: word_less_nat_alt)
    with ok have "gov_ok (release_memory ?d g) (unat n + mt) dt" by (metis gov_ok_release)
    moreover have "\<not> lease_amount l < n" using shrink by simp
    ultimately show ?thesis using shrink r by (auto simp: try_resize_def)
  next
    case same
    with ok r show ?thesis by (auto simp: try_resize_def)
  qed
qed

lemma memory_total_split:
  "memory_leases s = as @ l # bs \<Longrightarrow>
    memory_total s = unat (lease_amount l) +
      (retained s + (\<Sum>x\<leftarrow>as. unat (lease_amount x)) + (\<Sum>x\<leftarrow>bs. unat (lease_amount x)))"
  by (simp add: memory_total_def)

lemma disk_total_split:
  "disk_leases s = as @ a # bs \<Longrightarrow>
    disk_total s = unat a + ((\<Sum>x\<leftarrow>as. unat x) + (\<Sum>x\<leftarrow>bs. unat x))"
  by (simp add: disk_total_def)

lemma lease_step_ok:
  assumes "lease_step s t" "system_ok s"
  shows "system_ok t \<and> limits (gov t) = limits (gov s)"
  using assms
proof (induction rule: lease_step.induct)
  case (reserve s p n g l)
  then show ?case
    using gov_ok_reserve [of "gov s" "memory_total s" "disk_total s" p n g l]
    by (simp add: system_ok_def memory_total_def disk_total_def add_ac)
next
  case (grow s as l bs p n g l' r)
  then show ?case
    using try_grow_in_ok [of "gov s" l "memory_total s - unat (lease_amount l)" "disk_total s" p n g l' r]
    by (simp add: system_ok_def memory_total_def disk_total_def add_ac)
next
  case (resize s as l bs n g l' r)
  then show ?case
    using try_resize_ok [of "gov s" l "memory_total s - unat (lease_amount l)" "disk_total s" n g l' r]
    by (simp add: system_ok_def memory_total_def disk_total_def add_ac)
next
  case (release s as l bs g l')
  then have g: "g = release_memory (lease_amount l) (gov s)" "lease_amount l' = 0"
    by (auto simp: release_all_def)
  have "gov_ok g (memory_total s - unat (lease_amount l)) (disk_total s)"
    unfolding g using release by (intro gov_ok_release) (simp add: system_ok_def memory_total_def add_ac)
  with release g show ?case by (simp add: system_ok_def memory_total_def disk_total_def add_ac)
next
  case (drop s as l bs)
  have "gov_ok (drop_lease (gov s) l) (memory_total s - unat (lease_amount l)) (disk_total s)"
    unfolding drop_lease_def using drop
    by (intro gov_ok_release) (simp add: system_ok_def memory_total_def add_ac)
  with drop show ?case by (simp add: system_ok_def memory_total_def disk_total_def drop_lease_def add_ac)
next
  case (retain s as l bs)
  have "gov_ok (retain_until_governor_drop (gov s) l) (memory_total s) (disk_total s)"
    unfolding retain_until_governor_drop_def drop_lease_def using retain
    by (intro gov_ok_release) (simp add: system_ok_def)
  with retain show ?case
    by (simp add: system_ok_def memory_total_def disk_total_def retain_until_governor_drop_def
        drop_lease_def add_ac)
next
  case (reserve_disk s p n g a)
  then show ?case
    using gov_ok_reserve_disk [of "gov s" "memory_total s" "disk_total s" p n g a]
    by (simp add: system_ok_def memory_total_def disk_total_def add_ac)
next
  case (grow_disk s as a bs p n g a' r)
  then show ?case
    using disk_try_grow_ok [of "gov s" "memory_total s" a "disk_total s - unat a" p n g a' r]
    by (simp add: system_ok_def memory_total_def disk_total_def add_ac)
next
  case (release_disk s as a bs g a')
  then have g: "g = Resource.release_disk a (gov s)" "a' = 0" by (auto simp: disk_release_all_def)
  have "gov_ok g (memory_total s) (disk_total s - unat a)"
    unfolding g using release_disk by (intro gov_ok_release_disk) (simp add: system_ok_def disk_total_def add_ac)
  with release_disk g show ?case by (simp add: system_ok_def memory_total_def disk_total_def add_ac)
next
  case (drop_disk s as a bs)
  have "gov_ok (Resource.release_disk a (gov s)) (memory_total s) (disk_total s - unat a)"
    using drop_disk by (intro gov_ok_release_disk) (simp add: system_ok_def disk_total_def add_ac)
  with drop_disk show ?case by (simp add: system_ok_def memory_total_def disk_total_def add_ac)
next
  case (rows p n s g)
  then show ?case
    by (auto simp: consume_rows_def result_simps consume_counter_Inr system_ok_def gov_ok_def
        memory_total_def disk_total_def add_le_limit)
next
  case (work p n s g)
  then show ?case
    by (auto simp: consume_work_def result_simps consume_counter_Inr system_ok_def gov_ok_def
        memory_total_def disk_total_def add_le_limit)
qed

lemma reachable_ok:
  assumes "lease_step\<^sup>*\<^sup>* (new_system g) s" "gov_ok g 0 0"
  shows "system_ok s \<and> limits (gov s) = limits g"
  using assms(1)
proof (induction rule: rtranclp_induct)
  case base
  with assms(2) show ?case by (simp add: new_system_def system_ok_def memory_total_def disk_total_def)
next
  case (step s t)
  with lease_step_ok show ?case by metis
qed

section \<open>Properties\<close>

text \<open>
  C16: In every state a governor and its leases can reach, the memory charged is exactly what
  the live leases hold plus what was retained, the disk charged is exactly what the live disk
  leases hold, both stay below their recorded peaks and the peaks below the limits; rows and
  work stay below their limits. Dropping every lease therefore returns the whole allowance.
\<close>

theorem leases_conserve_budget:
  assumes "lease_step\<^sup>*\<^sup>* (new_system (new_named name l)) s"
  shows "unat (memory_used (gov s)) = (\<Sum>x\<leftarrow>memory_leases s. unat (lease_amount x)) + retained s \<and>
    unat (disk_used (gov s)) = (\<Sum>a\<leftarrow>disk_leases s. unat a) \<and>
    memory_used (gov s) \<le> memory_peak (gov s) \<and> memory_peak (gov s) \<le> memory_limit l \<and>
    disk_used (gov s) \<le> disk_peak (gov s) \<and> disk_peak (gov s) \<le> disk_limit l \<and>
    rows_used (gov s) \<le> rows_limit l \<and> work_used (gov s) \<le> work_limit l"
  using reachable_ok [OF assms gov_ok_new(2)]
  by (auto simp: system_ok_def gov_ok_def memory_total_def disk_total_def new_named_def new_governor_def)

definition sample_governor :: resource_governor where
  "sample_governor = new_named ''query'' (memory_only 100)"

lemma sample_reserve:
  "reserve_memory sample_governor QueryPaths 10 =
     Inr (sample_governor\<lparr>memory_used := 10, memory_peak := 10, memory_peak_phase := Some QueryPaths\<rparr>,
          \<lparr>lease_phase = QueryPaths, lease_amount = 10\<rparr>)"
  by (simp add: sample_governor_def new_named_def new_governor_def memory_only_def reserve_memory_def
      checked_add_u64_def)

definition sample_system :: lease_system where
  "sample_system =
     \<lparr>gov = sample_governor\<lparr>memory_used := 10, memory_peak := 10, memory_peak_phase := Some QueryPaths\<rparr>,
      memory_leases = [\<lparr>lease_phase = QueryPaths, lease_amount = 10\<rparr>], disk_leases = [], retained = 0\<rparr>"

lemma sample_reachable: "lease_step\<^sup>*\<^sup>* (new_system (new_named ''query'' (memory_only 100))) sample_system"
  using lease_step.reserve [of "new_system sample_governor", OF _] sample_reserve
  by (intro r_into_rtranclp) (simp add: new_system_def sample_system_def sample_governor_def)

theorem leases_conserve_budget_witness:
  "unat (memory_used (gov sample_system)) =
     (\<Sum>x\<leftarrow>memory_leases sample_system. unat (lease_amount x)) + retained sample_system \<and>
   memory_peak (gov sample_system) \<le> memory_limit (memory_only 100)"
  using leases_conserve_budget [OF sample_reachable] by blast

text \<open>
  A live lease of a reachable state grows exactly when the governor's limit allows it, by
  exactly the requested amount; a refused growth reports the phase, the amount in use and the
  limit, and leaves governor and lease as they were.
\<close>

theorem lease_growth_exact:
  assumes "lease_step\<^sup>*\<^sup>* (new_system (new_named name l)) s" and "memory_leases s = as @ x # bs"
    and "try_grow_in p n (gov s) x = ((g, x'), r)"
  shows "if unat (memory_used (gov s)) + unat n \<le> unat (memory_limit l)
    then r = Inr () \<and> unat (lease_amount x') = unat (lease_amount x) + unat n \<and>
      unat (memory_used g) = unat (memory_used (gov s)) + unat n
    else r = Inl (limit_error MemoryKind p (memory_used (gov s)) n (memory_limit l)) \<and> g = gov s \<and> x' = x"
proof -
  have ok: "gov_ok (gov s) (unat (lease_amount x) + (memory_total s - unat (lease_amount x))) (disk_total s)"
    and lim: "limits (gov s) = l"
    using reachable_ok [OF assms(1) gov_ok_new(2)] assms(2)
    by (auto simp: system_ok_def memory_total_def new_named_def new_governor_def add_ac)
  note grow = try_grow_in_ok [OF ok assms(3)]
  show ?thesis
  proof (cases r)
    case (Inl e)
    with grow lim show ?thesis by auto
  next
    case (Inr u)
    then obtain y where "reserve_memory (gov s) p n = Inr y"
      using assms(3) by (auto simp: try_grow_in_def split: sum.splits)
    then have "unat (memory_used (gov s)) + unat n \<le> unat (memory_limit l)"
      using lim by (cases y) (auto simp: reserve_memory_Inr)
    moreover from Inr grow ok have "unat (lease_amount x') = unat (lease_amount x) + unat n"
      "unat (memory_used g) = unat (memory_used (gov s)) + unat n" by (auto simp: gov_ok_def)
    ultimately show ?thesis using Inr by simp
  qed
qed

theorem lease_growth_exact_witness:
  "fst (try_grow_in QueryPaths 91 (gov sample_system) \<lparr>lease_phase = QueryPaths, lease_amount = 10\<rparr>) =
     (gov sample_system, \<lparr>lease_phase = QueryPaths, lease_amount = 10\<rparr>)"
proof -
  obtain g x r where g: "try_grow_in QueryPaths 91 (gov sample_system)
    \<lparr>lease_phase = QueryPaths, lease_amount = 10\<rparr> = ((g, x), r)" by (metis prod.exhaust)
  show ?thesis
    using lease_growth_exact [OF sample_reachable, of "[]" _ "[]", OF _ g] g
    by (simp add: sample_system_def memory_only_def)
qed

text \<open>
  The memory budget of an operation never lets it and the resident graph together exceed
  the configured hard limit, nor the operation its own workspace setting; and the batch target
  derived from an allowance is within it and within 8 MiB.
\<close>

theorem operation_budget_within_hard_limit:
  "let budget = memory_limit (limits (operation_governor c name resident workspace_mb rows work)) in
     unat budget \<le> unat (mib_setting (MEMORY_LIMIT_MB c)) - unat resident \<and>
     budget \<le> mib_setting workspace_mb \<and>
     adaptive_build_batch_target budget \<le> budget \<and>
     adaptive_build_batch_target budget \<le> 8 * 1024 * 1024"
proof -
  define hard where "hard = mib_setting (MEMORY_LIMIT_MB c)"
  have rest: "unat (opt_get_or 0 (bytes_checked_sub hard resident)) = unat hard - unat resident"
    by (auto simp: bytes_checked_sub_def word_le_nat_alt unat_sub)
  have target: "adaptive_build_batch_target b \<le> b" "adaptive_build_batch_target b \<le> 8 * 1024 * 1024" for b
    by (auto simp: adaptive_build_batch_target_def Let_def min_def max_def word_le_nat_alt)
  show ?thesis
    unfolding Let_def using target rest
    by (auto simp: operation_governor_def new_named_def new_governor_def Let_def hard_def [symmetric]
        min_def word_le_nat_alt)
qed

end
