(* ===== verification/Components.thy ===== *)
theory Components
  imports UnionFind Resource Traversal "HOL-Library.List_Lexorder" "HOL-Library.Option_ord"
    "HOL-Library.Product_Lexorder"
begin

text \<open>
  Connected components (\<open>graph/src/connected_components.rs\<close>): the union pass over every
  admitted edge, the labelling pass, and the row conversions with their pages. The neighbor
  source, the tombstones of the running transaction and the clock are functions of the
  environment; the node store, the visibility scope, the governor and the disjoint sets are
  the models of this development. A \<open>HashMap\<close> of sizes is an association list; its
  iteration order only feeds a maximum and a total sort.
\<close>

section \<open>Environment and result\<close>

record component_result =
  component :: "u32 list"
  num_components :: u32
  largest_component_size :: u32
  component_sizes :: "(u32 \<times> u32) list"

definition component_size :: "component_result \<Rightarrow> u32 \<Rightarrow> u32" where
  "component_size r component_id = opt_get_or 0 (map_of (component_sizes r) component_id)"

record component_env =
  cc_nodes :: node_store
  cc_scope :: visibility_scope
  cc_tx_deleted :: "u32 \<Rightarrow> bool"
  cc_elapsed :: "u64 \<Rightarrow> nat"

text \<open>
  One unit of work; every 1024 units the clock is read (the reading belongs to the amount of
  work done so far). Without a governor nothing is accounted.
\<close>

definition consume_analytics_work ::
  "component_env \<Rightarrow> resource_governor option \<Rightarrow> resource_governor option graph_result" where
  "consume_analytics_work env go =
     (case go of None \<Rightarrow> Inr None
      | Some g \<Rightarrow>
          rbind (map_err to_graph_error (consume_work AnalyticsWorkspace 1 g)) (\<lambda>g.
          if work_used g mod 1024 = 0 then
            rbind (map_err to_graph_error
              (check_elapsed_duration g AnalyticsWorkspace (cc_elapsed env (work_used g)))) (\<lambda>_. Inr (Some g))
          else Inr (Some g)))"

definition node_admitted :: "component_env \<Rightarrow> u32 \<Rightarrow> bool graph_result" where
  "node_admitted env node =
     rbind (is_active (cc_nodes env) node) (\<lambda>active.
       Inr (active \<and> \<not> cc_tx_deleted env node \<and> allows_node (cc_scope env) node))"

section \<open>Union pass\<close>

type_synonym component_state = "union_find \<times> resource_governor option"

definition unite_edge ::
  "component_env \<Rightarrow> u32 \<Rightarrow> neighbor \<Rightarrow> component_state \<Rightarrow> (graph_error, component_state) rust_result option"
where
  "unite_edge env node e = (\<lambda>(uf, go).
     obind (Some (consume_analytics_work env go)) (\<lambda>go.
     obind (Some (allows_relationship (cc_scope env) (nb_type_id e) (nb_relationship_id e))) (\<lambda>rel.
     obind (if rel then Some (node_admitted env (nb_target e)) else Some (Inr False)) (\<lambda>ok.
     if ok then obind (union uf node (nb_target e)) (\<lambda>uf. Some (Inr (uf, go)))
     else Some (Inr (uf, go))))))"

definition unite_node ::
  "component_env \<Rightarrow> (u32 \<Rightarrow> neighbor list graph_result) \<Rightarrow> u32 \<Rightarrow> component_state \<Rightarrow>
    (graph_error, component_state) rust_result option" where
  "unite_node env source_of node s =
     obind (Some (node_admitted env node)) (\<lambda>ok.
     if \<not> ok then Some (Inr s)
     else obind (Some (source_of node)) (\<lambda>edges. fold_o (unite_edge env node) edges s))"

section \<open>Labelling pass\<close>

type_synonym label_state = "union_find \<times> resource_governor option \<times> u32 list \<times> (u32 \<times> u32) list"

definition label_node ::
  "component_env \<Rightarrow> u32 \<Rightarrow> label_state \<Rightarrow> (graph_error, label_state) rust_result option" where
  "label_node env node = (\<lambda>(uf, go, labels, sizes).
     obind (Some (consume_analytics_work env go)) (\<lambda>go.
     obind (Some (node_admitted env node)) (\<lambda>ok.
     if \<not> ok then
       obind (Some (update_r labels (unat node) U32_MAX)) (\<lambda>labels. Some (Inr (uf, go, labels, sizes)))
     else
       obind (find uf node) (\<lambda>(root, uf).
       obind (Some (update_r labels (unat node) root)) (\<lambda>labels.
         Some (Inr (uf, go, labels,
           AList.update root (opt_get_or 0 (map_of sizes root) + 1) sizes)))))))"

definition node_range :: "nat \<Rightarrow> u32 list" where
  "node_range n = map word_of_nat [0..<n]"

definition compute_components ::
  "component_env \<Rightarrow> (u32 \<Rightarrow> neighbor list graph_result) \<Rightarrow> resource_governor option \<Rightarrow>
    (graph_error, component_result) rust_result option" where
  "compute_components env source_of go =
     (let node_count = unat (ns_node_count (cc_nodes env)) in
      if node_count = 0 then
        Some (Inr \<lparr>component = [], num_components = 0, largest_component_size = 0, component_sizes = []\<rparr>)
      else
        obind (Some (uf_try_new node_count)) (\<lambda>uf.
        obind (fold_o (unite_node env source_of) (node_range node_count) (uf, go)) (\<lambda>(uf, go).
        obind (fold_o (label_node env) (node_range node_count) (uf, go, replicate node_count 0, []))
          (\<lambda>(uf, go, labels, sizes).
          Some (Inr \<lparr>component = labels, num_components = word_of_nat (length sizes),
            largest_component_size = fold max (map snd sizes) 0, component_sizes = sizes\<rparr>)))))"

section \<open>Rows and pages\<close>

record component_row =
  row_node_table :: u32
  row_node_id :: "u8 list"
  row_component_id :: u32
  row_component_size :: u32

definition component_row_of :: "node_store \<Rightarrow> u32 \<Rightarrow> u32 \<Rightarrow> u32 \<Rightarrow> component_row graph_result" where
  "component_row_of ns node component_id sz =
     rbind (node_coordinate ns node) (\<lambda>(table, key).
       Inr \<lparr>row_node_table = table, row_node_id = key, row_component_id = component_id,
            row_component_size = sz\<rparr>)"

definition to_component_rows :: "component_result \<Rightarrow> node_store \<Rightarrow> component_row list graph_result" where
  "to_component_rows r ns =
     rbind (fold_r (\<lambda>node rows.
         rbind (index_r (component r) (unat node)) (\<lambda>component_id.
         if component_id = U32_MAX then Inr rows
         else
           rbind (component_row_of ns node component_id (component_size r component_id)) (\<lambda>row.
             Inr (rows @ [row]))))
       (node_range (unat (ns_node_count ns))) []) Inr"

text \<open>Sorted by size, largest first, then by component.\<close>

definition component_size_rows :: "component_result \<Rightarrow> (u32 \<times> u32) list" where
  "component_size_rows r = sort_key (\<lambda>(component_id, sz). (- uint sz, component_id)) (component_sizes r)"

text \<open>
  The nodes of a component in the order of table and primary key (\<open>None\<close> first); the keys
  are read once before sorting.
\<close>

definition keyed_node :: "node_store \<Rightarrow> u32 \<Rightarrow> ((u32 option \<times> u8 list option) \<times> u32) graph_result" where
  "keyed_node ns node =
     rbind (primary_key ns node) (\<lambda>key. Inr ((table_oid ns node, key), node))"

definition matching_nodes :: "component_result \<Rightarrow> u32 \<Rightarrow> u32 list" where
  "matching_nodes r component_id =
     map (\<lambda>(_, i). word_of_nat i)
       (filter (\<lambda>(c, _). c = component_id) (zip (component r) [0..<length (component r)]))"

definition component_rows_page ::
  "component_result \<Rightarrow> node_store \<Rightarrow> u32 \<Rightarrow> usize \<Rightarrow> usize \<Rightarrow> component_row list graph_result" where
  "component_rows_page r ns component_id offset limit =
     rbind (map_r (keyed_node ns) (matching_nodes r component_id)) (\<lambda>keyed.
       map_r (\<lambda>(_, node). component_row_of ns node component_id (component_size r component_id))
         (take limit (drop offset (sort_key fst keyed))))"

definition isolated_nodes :: "component_result \<Rightarrow> (u32 \<times> u32) list" where
  "isolated_nodes r =
     map (\<lambda>(c, i). (c, word_of_nat i))
       (filter (\<lambda>(c, _). c \<noteq> U32_MAX \<and> component_size r c = 1)
         (zip (component r) [0..<length (component r)]))"

definition isolated_rows_page ::
  "component_result \<Rightarrow> node_store \<Rightarrow> usize \<Rightarrow> usize \<Rightarrow> component_row list graph_result" where
  "isolated_rows_page r ns offset limit =
     rbind (map_r (\<lambda>(c, node). rbind (keyed_node ns node) (\<lambda>(key, _). Inr ((c, key), c, node)))
       (isolated_nodes r)) (\<lambda>keyed.
       map_r (\<lambda>(_, c, node). component_row_of ns node c 1)
         (take limit (drop offset (sort_key fst keyed))))"

section \<open>Admitted nodes and links\<close>

definition node_total :: "component_env \<Rightarrow> nat" where
  "node_total env = length (store_nodes (cc_nodes env))"

definition admitted :: "component_env \<Rightarrow> u32 \<Rightarrow> bool" where
  "admitted env i \<longleftrightarrow> unat i < node_total env \<and> fst (store_nodes (cc_nodes env) ! unat i) \<and>
     \<not> cc_tx_deleted env i \<and> allows_node (cc_scope env) i"

definition edge_links :: "component_env \<Rightarrow> u32 \<Rightarrow> neighbor \<Rightarrow> (u32 \<times> u32) set" where
  "edge_links env u e =
     (if allows_relationship (cc_scope env) (nb_type_id e) (nb_relationship_id e) = Inr True \<and>
         admitted env (nb_target e) then {(u, nb_target e)} else {})"

definition node_links ::
  "component_env \<Rightarrow> (u32 \<Rightarrow> neighbor list graph_result) \<Rightarrow> u32 \<Rightarrow> (u32 \<times> u32) set" where
  "node_links env source_of u =
     (if admitted env u
      then (case source_of u of Inl _ \<Rightarrow> {} | Inr es \<Rightarrow> \<Union>e\<in>set es. edge_links env u e) else {})"

definition links :: "component_env \<Rightarrow> (u32 \<Rightarrow> neighbor list graph_result) \<Rightarrow> (u32 \<times> u32) set" where
  "links env source_of = (\<Union>u. node_links env source_of u)"

definition analysis_fault ::
  "(u32 \<Rightarrow> neighbor list graph_result) \<Rightarrow> graph_error fault \<Rightarrow> bool" where
  "analysis_fault source_of f \<longleftrightarrow>
     f = Err RlsRelationshipIdentityMissing \<or>
     (\<exists>le. f = Err (to_graph_error le) \<and> err_phase le = AnalyticsWorkspace) \<or> (\<exists>i. source_of i = Inl f)"

lemma node_links_iff:
  "(a, v) \<in> node_links env source_of u \<longleftrightarrow> a = u \<and> admitted env u \<and> admitted env v \<and>
     (\<exists>es e. source_of u = Inr es \<and> e \<in> set es \<and> nb_target e = v \<and>
        allows_relationship (cc_scope env) (nb_type_id e) (nb_relationship_id e) = Inr True)"
  by (cases "source_of u") (auto simp: node_links_def edge_links_def split: if_splits)

lemma links_iff:
  "(u, v) \<in> links env source_of \<longleftrightarrow> admitted env u \<and> admitted env v \<and>
     (\<exists>es e. source_of u = Inr es \<and> e \<in> set es \<and> nb_target e = v \<and>
        allows_relationship (cc_scope env) (nb_type_id e) (nb_relationship_id e) = Inr True)"
  by (auto simp: links_def node_links_iff)

lemma node_admitted_eq:
  "backing_ok (backing (cc_nodes env)) \<Longrightarrow> node_admitted env i = Inr (admitted env i)"
  by (auto simp: node_admitted_def is_active_row admitted_def node_total_def)

lemma admitted_range: "admitted env i \<Longrightarrow> unat i < node_total env"
  by (simp add: admitted_def)

lemma allows_relationship_fault:
  "allows_relationship sc t r = Inl f \<Longrightarrow> f = Err RlsRelationshipIdentityMissing"
  by (cases "(sc, t, r)" rule: allows_relationship.cases) (auto simp: ok_or_def split: if_splits option.splits)

lemma consume_work_fault:
  "consume_analytics_work env go = Inl f \<Longrightarrow>
    \<exists>le. f = Err (to_graph_error le) \<and> err_phase le = AnalyticsWorkspace"
  by (auto simp: consume_analytics_work_def consume_work_def check_elapsed_duration_def map_err_def
      limit_error_def rbind_def Let_def consume_counter_Inl
      split: option.splits sum.splits if_splits fault.splits)

lemma returns_lift: "(\<And>f. m = Inl f \<Longrightarrow> Q f) \<Longrightarrow> (\<And>x. m = Inr x \<Longrightarrow> P x) \<Longrightarrow> returns Q P (Some m)"
  by (cases m) simp_all

lemma unite_edge_ok:
  assumes nodes: "backing_ok (backing (cc_nodes env))"
    and uf: "represents uf (node_total env) E" and node: "unat node < node_total env"
  shows "returns (analysis_fault src)
    (\<lambda>(uf', go'). represents uf' (node_total env) (E \<union> edge_links env node e)) (unite_edge env node e (uf, go))"
  unfolding unite_edge_def split
proof (rule returns_obind [where P = "\<lambda>_. True"])
  show "returns (analysis_fault src) (\<lambda>_. True) (Some (consume_analytics_work env go))"
    using consume_work_fault by (intro returns_lift) (auto simp: analysis_fault_def)
  fix go
  let ?rel = "allows_relationship (cc_scope env) (nb_type_id e) (nb_relationship_id e)"
  show "returns (analysis_fault src)
    (\<lambda>(uf', go'). represents uf' (node_total env) (E \<union> edge_links env node e))
    (obind (Some ?rel) (\<lambda>rel.
       obind (if rel then Some (node_admitted env (nb_target e)) else Some (Inr False)) (\<lambda>ok.
         if ok then obind (union uf node (nb_target e)) (\<lambda>uf. Some (Inr (uf, go)))
         else Some (Inr (uf, go)))))"
  proof (cases ?rel)
    case (Inl f)
    then show ?thesis using allows_relationship_fault [OF Inl] by (simp add: analysis_fault_def)
  next
    case (Inr rel)
    show ?thesis
    proof (cases "rel \<and> admitted env (nb_target e)")
      case True
      obtain uf' where "union uf node (nb_target e) = Some (Inr uf')"
        "represents uf' (node_total env) (insert (node, nb_target e) E)"
        using represents_union [OF uf node] True admitted_range by blast
      with True Inr nodes show ?thesis by (simp add: node_admitted_eq edge_links_def)
    next
      case False
      with Inr nodes uf show ?thesis by (auto simp: node_admitted_eq edge_links_def)
    qed
  qed
qed

lemma unite_node_ok:
  assumes nodes: "backing_ok (backing (cc_nodes env))"
    and uf: "represents uf (node_total env) E"
  shows "returns (analysis_fault src)
    (\<lambda>(uf', go'). represents uf' (node_total env) (E \<union> node_links env src node))
    (unite_node env src node (uf, go))"
proof (cases "admitted env node")
  case False
  with nodes uf show ?thesis by (simp add: unite_node_def node_admitted_eq node_links_def)
next
  case True
  show ?thesis
  proof (cases "src node")
    case (Inl f)
    with True nodes show ?thesis by (auto simp: unite_node_def node_admitted_eq analysis_fault_def)
  next
    case (Inr es)
    have "returns (analysis_fault src)
      (\<lambda>(uf', go'). represents uf' (node_total env) (E \<union> (\<Union>e\<in>set es. edge_links env node e)))
      (fold_o (unite_edge env node) es (uf, go))"
    proof (rule returns_fold [where xs = es and
          P = "\<lambda>pre (uf', go'). represents uf' (node_total env) (E \<union> (\<Union>e\<in>set pre. edge_links env node e))"])
      fix pre e post and s :: component_state
      assume "case s of (uf', go') \<Rightarrow>
        represents uf' (node_total env) (E \<union> (\<Union>e\<in>set pre. edge_links env node e))"
      then obtain uf' and go' :: "resource_governor option" where s: "s = (uf', go')"
        "represents uf' (node_total env) (E \<union> (\<Union>e\<in>set pre. edge_links env node e))" by (cases s) auto
      from unite_edge_ok [OF nodes s(2) admitted_range [OF True], of src e go']
      show "returns (analysis_fault src) (\<lambda>(uf', go').
          represents uf' (node_total env) (E \<union> (\<Union>e\<in>set (pre @ [e]). edge_links env node e)))
          (unite_edge env node e s)"
        unfolding s(1) by (rule returns_mono) (auto simp: Un_ac)
    qed (use uf in simp)
    with True Inr nodes show ?thesis by (simp add: unite_node_def node_admitted_eq node_links_def)
  qed
qed

lemma set_node_range: "n < 2 ^ 32 \<Longrightarrow> set (node_range n) = {i. unat i < n}"
proof (intro set_eqI iffI)
  fix i :: u32
  assume "i \<in> {i. unat i < n}"
  then show "i \<in> set (node_range n)" by (auto simp: node_range_def intro!: image_eqI [of _ _ "unat i"])
qed (auto simp: node_range_def)

lemma union_pass_ok:
  assumes nodes: "backing_ok (backing (cc_nodes env))" and n: "node_total env < 2 ^ 32"
    and uf: "represents uf (node_total env) {}"
  shows "returns (analysis_fault src) (\<lambda>(uf', go'). represents uf' (node_total env) (links env src))
    (fold_o (unite_node env src) (node_range (node_total env)) (uf, go))"
proof -
  have "returns (analysis_fault src)
    (\<lambda>(uf', go'). represents uf' (node_total env) (\<Union>u\<in>set (node_range (node_total env)). node_links env src u))
    (fold_o (unite_node env src) (node_range (node_total env)) (uf, go))"
  proof (rule returns_fold [where xs = "node_range (node_total env)" and
        P = "\<lambda>pre (uf', go'). represents uf' (node_total env) (\<Union>u\<in>set pre. node_links env src u)"])
    fix pre u post and s :: component_state
    assume "case s of (uf', go') \<Rightarrow> represents uf' (node_total env) (\<Union>u\<in>set pre. node_links env src u)"
    then obtain uf' and go' :: "resource_governor option" where s: "s = (uf', go')"
      "represents uf' (node_total env) (\<Union>u\<in>set pre. node_links env src u)" by (cases s) auto
    from unite_node_ok [OF nodes s(2), of src u go']
    show "returns (analysis_fault src)
      (\<lambda>(uf', go'). represents uf' (node_total env) (\<Union>u\<in>set (pre @ [u]). node_links env src u))
      (unite_node env src u s)"
      unfolding s(1) by (rule returns_mono) (auto simp: Un_ac)
  qed (use uf in simp)
  moreover have "(\<Union>u\<in>set (node_range (node_total env)). node_links env src u) = links env src"
    unfolding links_def set_node_range [OF n]
    by (auto simp: node_links_def split: if_splits dest: admitted_range)
  ultimately show ?thesis by simp
qed

section \<open>The labelling pass\<close>

text \<open>
  After a prefix of the nodes: admitted nodes carry their root, the others the sentinel, and
  the sizes count the labels given so far.
\<close>

definition labelled_count :: "component_env \<Rightarrow> u32 list \<Rightarrow> u32 list \<Rightarrow> u32 \<Rightarrow> nat" where
  "labelled_count env ps pre c = card {i \<in> set pre. admitted env i \<and> root_of ps i c}"

definition labelled :: "component_env \<Rightarrow> u32 list \<Rightarrow> u32 list \<Rightarrow> label_state \<Rightarrow> bool" where
  "labelled env ps pre = (\<lambda>(uf, go, labels, sizes).
     uf_ok uf \<and> length (uf_parent uf) = node_total env \<and>
     (\<forall>y r. root_of (uf_parent uf) y r \<longleftrightarrow> root_of ps y r) \<and>
     length labels = node_total env \<and> distinct (map fst sizes) \<and>
     (\<forall>i\<in>set pre. if admitted env i then root_of ps i (labels ! unat i) else labels ! unat i = U32_MAX) \<and>
     (\<forall>c. map_of sizes c =
        (if labelled_count env ps pre c = 0 then None
         else Some (word_of_nat (labelled_count env ps pre c)))))"

lemma labelled_count_snoc:
  assumes "x \<notin> set pre"
  shows "labelled_count env ps (pre @ [x]) c =
    (if admitted env x \<and> root_of ps x c then Suc (labelled_count env ps pre c) else labelled_count env ps pre c)"
proof -
  let ?P = "\<lambda>i. admitted env i \<and> root_of ps i c"
  have "{i \<in> set (pre @ [x]). ?P i} = (if ?P x then insert x {i \<in> set pre. ?P i} else {i \<in> set pre. ?P i})"
    by auto
  then show ?thesis using assms by (simp add: labelled_count_def)
qed

lemma label_node_ok:
  assumes nodes: "backing_ok (backing (cc_nodes env))" and l: "labelled env ps pre s"
    and x: "unat x < node_total env" "x \<notin> set pre"
  shows "returns (analysis_fault src) (labelled env ps (pre @ [x])) (label_node env x s)"
proof -
  obtain uf go labels sizes where s: "s = (uf, go, labels, sizes)" by (cases s) auto
  note l' = l [unfolded labelled_def s split]
  have keep: "labels[unat x := v] ! unat i = labels ! unat i" if "i \<in> set pre" for v i
    using that x(2) by (metis nth_list_update_neq word_unat_eq_iff)
  show ?thesis
  proof (cases "consume_analytics_work env go")
    case (Inl f)
    then show ?thesis using consume_work_fault [OF Inl] by (auto simp: s label_node_def analysis_fault_def)
  next
    case (Inr go')
    show ?thesis
    proof (cases "admitted env x")
      case False
      have "labelled env ps (pre @ [x]) (uf, go', labels[unat x := U32_MAX], sizes)"
        using l' x False keep by (simp add: labelled_def labelled_count_snoc)
      with Inr False nodes x(1) l' show ?thesis by (simp add: s label_node_def node_admitted_eq)
    next
      case True
      obtain r uf' where r: "find uf x = Some (Inr (r, uf'))" "root_of (uf_parent uf) x r" "uf_ok uf'"
        "length (uf_parent uf') = length (uf_parent uf)"
        "\<forall>y s. root_of (uf_parent uf') y s \<longleftrightarrow> root_of (uf_parent uf) y s"
        using find_ok [of uf x] l' x(1) by auto
      have root: "root_of ps x r" using r(2) l' by blast
      let ?sizes = "AList.update r (opt_get_or 0 (map_of sizes r) + 1) sizes"
      let ?k = "labelled_count env ps"
      have k: "?k (pre @ [x]) c = (if c = r then Suc (?k pre c) else ?k pre c)" for c
        using labelled_count_snoc [OF x(2)] True root root_of_unique by auto
      have "map_of sizes r = (if ?k pre r = 0 then None else Some (word_of_nat (?k pre r)))"
        using l' by blast
      then have new: "opt_get_or 0 (map_of sizes r) + 1 = word_of_nat (Suc (?k pre r))"
        by simp
      have "map_of ?sizes c = (if ?k (pre @ [x]) c = 0 then None else Some (word_of_nat (?k (pre @ [x]) c)))" for c
        using l' unfolding update_conv' k new by auto
      moreover have "distinct (map fst ?sizes)" using l' by (simp add: distinct_update)
      ultimately have "labelled env ps (pre @ [x]) (uf', go', labels[unat x := r], ?sizes)"
        using l' x r(3-5) True root keep unfolding labelled_def split by simp
      with Inr True nodes x(1) l' r(1) show ?thesis by (simp add: s label_node_def node_admitted_eq)
    qed
  qed
qed

lemma distinct_node_range: "n < 2 ^ 32 \<Longrightarrow> distinct (node_range n)"
  unfolding node_range_def distinct_map
  by (auto intro!: inj_on_inverseI [of _ unat])

lemma labelling_pass_ok:
  assumes nodes: "backing_ok (backing (cc_nodes env))" and n: "node_total env < 2 ^ 32"
    and uf: "represents uf (node_total env) E"
  shows "returns (analysis_fault src) (labelled env (uf_parent uf) (node_range (node_total env)))
    (fold_o (label_node env) (node_range (node_total env)) (uf, go, replicate (node_total env) 0, []))"
proof (rule returns_fold [where xs = "node_range (node_total env)"])
  show "labelled env (uf_parent uf) [] (uf, go, replicate (node_total env) 0, [])"
    using uf by (simp add: labelled_def labelled_count_def represents_def)
  fix pre x post s
  assume x: "node_range (node_total env) = pre @ x # post" and l: "labelled env (uf_parent uf) pre s"
  have "x \<in> set (node_range (node_total env))" using x by simp
  then have "unat x < node_total env" using set_node_range [OF n] by blast
  moreover have "x \<notin> set pre" using distinct_node_range [OF n] x by simp
  ultimately show "returns (analysis_fault src) (labelled env (uf_parent uf) (pre @ [x])) (label_node env x s)"
    by (rule label_node_ok [OF nodes l])
qed

section \<open>The whole computation\<close>

definition components_spec ::
  "component_env \<Rightarrow> (u32 \<Rightarrow> neighbor list graph_result) \<Rightarrow> component_result \<Rightarrow> bool" where
  "components_spec env src r \<longleftrightarrow>
     (\<exists>uf s. represents uf (node_total env) (links env src) \<and>
        labelled env (uf_parent uf) (node_range (node_total env)) (s, None, component r, component_sizes r) \<and>
        num_components r = word_of_nat (length (component_sizes r)) \<and>
        largest_component_size r = fold max (map snd (component_sizes r)) 0)"

lemma labelled_governor:
  "labelled env ps pre (uf, go, ls, zs) \<longleftrightarrow> labelled env ps pre (uf, None, ls, zs)"
  by (simp add: labelled_def)

lemma node_total_eq:
  "backing_ok (backing (cc_nodes env)) \<Longrightarrow> unat (ns_node_count (cc_nodes env)) = node_total env"
  by (simp add: node_total_def store_nodes_count)

lemma compute_components_returns:
  assumes nodes: "backing_ok (backing (cc_nodes env))"
  shows "returns (analysis_fault src) (components_spec env src) (compute_components env src go)"
proof -
  have total: "unat (ns_node_count (cc_nodes env)) = node_total env" by (rule node_total_eq [OF nodes])
  then have n: "node_total env < 2 ^ 32" using unat_u32_less [of "ns_node_count (cc_nodes env)"] by simp
  obtain uf0 where uf0: "uf_try_new (node_total env) = Inr uf0" "represents uf0 (node_total env) {}"
    using represents_new [OF n] by blast
  show ?thesis
  proof (cases "node_total env = 0")
    case True
    have none: "\<not> admitted env i" for i using True by (simp add: admitted_def)
    then have "links env src = {}" by (auto simp: links_iff)
    then have "components_spec env src
      \<lparr>component = [], num_components = 0, largest_component_size = 0, component_sizes = []\<rparr>"
      using True uf0(2) unfolding components_spec_def
      by (intro exI [of _ uf0]) (simp add: labelled_def labelled_count_def represents_def node_range_def)
    with True total show ?thesis by (simp add: compute_components_def Let_def)
  next
    case False
    have "returns (analysis_fault src) (components_spec env src)
      (obind (fold_o (unite_node env src) (node_range (node_total env)) (uf0, go)) (\<lambda>(uf, go).
        obind (fold_o (label_node env) (node_range (node_total env)) (uf, go, replicate (node_total env) 0, []))
          (\<lambda>(uf, go, labels, sizes).
          Some (Inr \<lparr>component = labels, num_components = word_of_nat (length sizes),
            largest_component_size = fold max (map snd sizes) 0, component_sizes = sizes\<rparr>))))"
    proof (rule returns_obind [OF union_pass_ok [OF nodes n uf0(2)]], clarsimp)
      fix uf go
      assume uf: "represents uf (node_total env) (links env src)"
      show "returns (analysis_fault src) (components_spec env src)
        (obind (fold_o (label_node env) (node_range (node_total env)) (uf, go, replicate (node_total env) 0, []))
          (\<lambda>(uf, go, labels, sizes).
          Some (Inr \<lparr>component = labels, num_components = word_of_nat (length sizes),
            largest_component_size = fold max (map snd sizes) 0, component_sizes = sizes\<rparr>)))"
      proof (rule returns_obind [OF labelling_pass_ok [OF nodes n uf]], clarsimp)
        fix s go labels sizes
        assume "labelled env (uf_parent uf) (node_range (node_total env)) (s, go, labels, sizes)"
        with uf show "components_spec env src
          \<lparr>component = labels, num_components = word_of_nat (length sizes),
            largest_component_size = fold max (map snd sizes) 0, component_sizes = sizes\<rparr>"
          unfolding components_spec_def by (auto simp: labelled_governor [of _ _ _ s go])
      qed
    qed
    with False total uf0(1) show ?thesis by (simp add: compute_components_def Let_def)
  qed
qed

text \<open>Consequences of the specification.\<close>

lemma connected_admitted:
  assumes "(i, j) \<in> connected (links env src)" "admitted env i"
  shows "admitted env j"
  using assms unfolding connected_def
  by (induction rule: rtrancl_induct) (auto simp: links_iff)

lemma spec_length: "components_spec env src r \<Longrightarrow> length (component r) = node_total env"
  by (auto simp: components_spec_def labelled_def)

lemma spec_hidden:
  "components_spec env src r \<Longrightarrow> node_total env < 2 ^ 32 \<Longrightarrow> unat i < node_total env \<Longrightarrow>
    \<not> admitted env i \<Longrightarrow> component r ! unat i = U32_MAX"
  using set_node_range by (auto simp: components_spec_def labelled_def)

lemma spec_roots:
  assumes "components_spec env src r" "node_total env < 2 ^ 32"
  obtains uf where "represents uf (node_total env) (links env src)"
    "\<And>i. admitted env i \<Longrightarrow> root_of (uf_parent uf) i (component r ! unat i)"
    "distinct (map fst (component_sizes r))"
    "\<And>c. map_of (component_sizes r) c =
        (let k = card {i. admitted env i \<and> root_of (uf_parent uf) i c} in
         if k = 0 then None else Some (word_of_nat k))"
proof -
  obtain uf s where uf: "represents uf (node_total env) (links env src)"
    and l: "labelled env (uf_parent uf) (node_range (node_total env)) (s, None, component r, component_sizes r)"
    using assms(1) by (auto simp: components_spec_def)
  have 1: "root_of (uf_parent uf) i (component r ! unat i)" if "admitted env i" for i
    using l that admitted_range [OF that] set_node_range [OF assms(2)] by (auto simp: labelled_def)
  have "{i \<in> set (node_range (node_total env)). admitted env i \<and> root_of (uf_parent uf) i c} =
    {i. admitted env i \<and> root_of (uf_parent uf) i c}" for c
    using admitted_range set_node_range [OF assms(2)] by auto
  then have 2: "map_of (component_sizes r) c =
        (let k = card {i. admitted env i \<and> root_of (uf_parent uf) i c} in
         if k = 0 then None else Some (word_of_nat k))" for c
    using l by (simp add: labelled_def labelled_count_def)
  show thesis by (rule that [OF uf 1 _ 2]) (use l in \<open>auto simp: labelled_def\<close>)
qed

lemma spec_class:
  assumes spec: "components_spec env src r" "node_total env < 2 ^ 32" and i: "admitted env i"
  shows "admitted env (component r ! unat i)" "(i, component r ! unat i) \<in> connected (links env src)"
    "admitted env j \<Longrightarrow> component r ! unat i = component r ! unat j \<longleftrightarrow> (i, j) \<in> connected (links env src)"
proof -
  obtain uf where uf: "represents uf (node_total env) (links env src)"
    and root: "\<And>i. admitted env i \<Longrightarrow> root_of (uf_parent uf) i (component r ! unat i)"
    using spec_roots [OF spec] by metis
  have "same_class uf i (component r ! unat i)"
    using root [OF i] root_of_root [OF root [OF i]] by (auto simp: same_class_def)
  then show c: "(i, component r ! unat i) \<in> connected (links env src)"
    using uf by (simp add: represents_def)
  show "admitted env (component r ! unat i)" using connected_admitted [OF c i] .
  assume j: "admitted env j"
  have "component r ! unat i = component r ! unat j \<longleftrightarrow> same_class uf i j"
    using root [OF i] root [OF j] root_of_unique unfolding same_class_def by metis
  then show "component r ! unat i = component r ! unat j \<longleftrightarrow> (i, j) \<in> connected (links env src)"
    using uf i j admitted_range by (simp add: represents_def)
qed

lemma spec_label_self:
  assumes "components_spec env src r" "node_total env < 2 ^ 32" "admitted env i"
  shows "component r ! unat (component r ! unat i) = component r ! unat i"
  by (rule sym, rule iffD2 [OF spec_class(3) [OF assms spec_class(1) [OF assms]] spec_class(2) [OF assms]])

lemma not_max: "node_total env < 2 ^ 32 \<Longrightarrow> admitted env i \<Longrightarrow> i \<noteq> U32_MAX"
  by (auto simp: admitted_def U32_MAX_def)

lemma spec_count:
  assumes spec: "components_spec env src r" "node_total env < 2 ^ 32"
  shows "unat (component_size r c) = card {i. admitted env i \<and> component r ! unat i = c}"
    "map_of (component_sizes r) c \<noteq> None \<longleftrightarrow> (\<exists>i. admitted env i \<and> component r ! unat i = c)"
proof -
  obtain uf where "represents uf (node_total env) (links env src)"
    and root: "\<And>i. admitted env i \<Longrightarrow> root_of (uf_parent uf) i (component r ! unat i)"
    and "distinct (map fst (component_sizes r))"
    and m: "\<And>c. map_of (component_sizes r) c =
        (let k = card {i. admitted env i \<and> root_of (uf_parent uf) i c} in
         if k = 0 then None else Some (word_of_nat k))"
    by (rule spec_roots [OF spec]) blast
  have cls: "{i. admitted env i \<and> root_of (uf_parent uf) i c} = {i. admitted env i \<and> component r ! unat i = c}"
    using root root_of_unique by blast
  have "card {i. admitted env i \<and> component r ! unat i = c} \<le> card {i :: u32. unat i < node_total env}"
    using admitted_range by (intro card_mono) auto
  then have small: "card {i. admitted env i \<and> component r ! unat i = c} < 4294967296"
    using spec(2) card_indices [of "node_total env"] by simp
  show "unat (component_size r c) = card {i. admitted env i \<and> component r ! unat i = c}"
    using small by (auto simp: component_size_def m cls Let_def)
  show "map_of (component_sizes r) c \<noteq> None \<longleftrightarrow> (\<exists>i. admitted env i \<and> component r ! unat i = c)"
    by (auto simp: m cls Let_def)
qed

section \<open>Pages\<close>

definition keyed :: "node_store \<Rightarrow> u32 \<Rightarrow> (u32 option \<times> u8 list option) \<times> u32" where
  "keyed ns i =
     (let row = store_nodes ns ! unat i in ((Some (fst (snd row)), Some (snd (snd row))), i))"

definition row_of :: "node_store \<Rightarrow> u32 \<Rightarrow> u32 \<Rightarrow> u32 \<Rightarrow> component_row" where
  "row_of ns i c sz =
     (let row = store_nodes ns ! unat i in
      \<lparr>row_node_table = fst (snd row), row_node_id = snd (snd row), row_component_id = c,
       row_component_size = sz\<rparr>)"

lemma keyed_node_eq:
  "backing_ok (backing ns) \<Longrightarrow> unat i < length (store_nodes ns) \<Longrightarrow> keyed_node ns i = Inr (keyed ns i)"
  by (simp add: keyed_node_def keyed_def primary_key_row table_oid_row Let_def)

lemma component_row_of_eq:
  "backing_ok (backing ns) \<Longrightarrow> unat i < length (store_nodes ns) \<Longrightarrow>
    component_row_of ns i c sz = Inr (row_of ns i c sz)"
  by (simp add: component_row_of_def row_of_def node_coordinate_def primary_key_row table_oid_row Let_def
      split_beta)

lemma map_r_ok: "(\<And>x. x \<in> set xs \<Longrightarrow> f x = Inr (g x)) \<Longrightarrow> map_r f xs = Inr (map g xs)"
  by (induction xs) simp_all

lemma zip_index_filter:
  "length xs < 2 ^ 32 \<Longrightarrow>
    map (\<lambda>(_, i). word_of_nat i :: u32) (filter (\<lambda>(c, _). P c) (zip xs [0..<length xs])) =
    filter (\<lambda>i. P (xs ! unat i)) (node_range (length xs))"
proof -
  assume n: "length xs < 2 ^ 32"
  have "zip xs [0..<length xs] = map (\<lambda>i. (xs ! i, i)) [0..<length xs]"
    by (rule nth_equalityI) auto
  with n show ?thesis
    by (auto simp: node_range_def filter_map comp_def intro!: arg_cong [of _ _ "map word_of_nat"] filter_cong)
qed

text \<open>The nodes a page is cut from: all nodes with the label, by table and primary key.\<close>

definition component_order :: "component_result \<Rightarrow> node_store \<Rightarrow> u32 \<Rightarrow> u32 list" where
  "component_order r ns c =
     map snd (sort_key fst (map (keyed ns) (filter (\<lambda>i. component r ! unat i = c) (node_range (length (component r))))))"

lemma component_order_set:
  "length (component r) < 2 ^ 32 \<Longrightarrow>
    set (component_order r ns c) = {i. unat i < length (component r) \<and> component r ! unat i = c}"
  by (simp add: component_order_def keyed_def Let_def set_node_range image_image)

lemma sorted_component_order:
  "sorted (map (\<lambda>i. fst (keyed ns i)) (component_order r ns c)) \<and> distinct (component_order r ns c)"
  if "length (component r) < 2 ^ 32"
proof -
  let ?xs = "map (keyed ns) (filter (\<lambda>i. component r ! unat i = c) (node_range (length (component r))))"
  have "fst (keyed ns (snd x)) = fst x" if "x \<in> set ?xs" for x
    using that by (auto simp: keyed_def Let_def)
  then have "map (\<lambda>i. fst (keyed ns i)) (component_order r ns c) = map fst (sort_key fst ?xs)"
    unfolding component_order_def map_map comp_def by (intro map_cong) auto
  moreover have "map snd ?xs = filter (\<lambda>i. component r ! unat i = c) (node_range (length (component r)))"
    by (simp add: keyed_def Let_def comp_def)
  then have "distinct (map snd ?xs)" using distinct_node_range [OF that] by simp
  moreover have "mset (component_order r ns c) = mset (map snd ?xs)"
    unfolding component_order_def mset_map by simp
  ultimately show ?thesis using sorted_sort_key [of fst ?xs] mset_eq_imp_distinct_iff by metis
qed

lemma page_eq:
  assumes ns: "backing_ok (backing ns)" and len: "length (component r) = length (store_nodes ns)"
  shows "component_rows_page r ns c offset limit =
    Inr (map (\<lambda>i. row_of ns i c (component_size r c)) (take limit (drop offset (component_order r ns c))))"
proof -
  have n: "length (component r) < 2 ^ 32"
    using len store_nodes_count [OF ns] unat_u32_less [of "ns_node_count ns"] by simp
  let ?m = "filter (\<lambda>i. component r ! unat i = c) (node_range (length (component r)))"
  have m: "matching_nodes r c = ?m" unfolding matching_nodes_def by (rule zip_index_filter [OF n])
  have k: "map_r (keyed_node ns) ?m = Inr (map (keyed ns) ?m)"
    by (rule map_r_ok) (use ns len n in \<open>auto simp: keyed_node_eq set_node_range\<close>)
  have rows: "map_r (\<lambda>(_, i). component_row_of ns i c z) (take limit (drop offset (sort_key fst (map (keyed ns) ?m)))) =
    Inr (map (\<lambda>(_, i). row_of ns i c z) (take limit (drop offset (sort_key fst (map (keyed ns) ?m)))))" for z
    by (rule map_r_ok)
      (use ns len n in \<open>auto dest!: in_set_takeD in_set_dropD simp: component_row_of_eq keyed_def Let_def set_node_range\<close>)
  show ?thesis
    by (simp add: component_rows_page_def m k rows component_order_def take_map drop_map comp_def split_beta)
qed

text \<open>Isolated nodes: a component of one node is named by that node, so pages run by index.\<close>

definition isolated :: "component_env \<Rightarrow> (u32 \<Rightarrow> neighbor list graph_result) \<Rightarrow> u32 \<Rightarrow> bool" where
  "isolated env src i \<longleftrightarrow> admitted env i \<and> (\<forall>j. (i, j) \<in> connected (links env src) \<longrightarrow> j = i)"

lemma isolated_iff:
  assumes spec: "components_spec env src r" "node_total env < 2 ^ 32" and i: "unat i < node_total env"
  shows "component r ! unat i \<noteq> U32_MAX \<and> component_size r (component r ! unat i) = 1 \<longleftrightarrow> isolated env src i"
    "isolated env src i \<Longrightarrow> component r ! unat i = i"
proof -
  show self: "component r ! unat i = i" if "isolated env src i"
    using that spec_class(2) [OF spec, of i] by (auto simp: isolated_def)
  have adm: "component r ! unat i \<noteq> U32_MAX \<longleftrightarrow> admitted env i"
    using spec_hidden [OF spec i] spec_class(1) [OF spec] not_max [OF spec(2)] by blast
  let ?C = "{j. admitted env j \<and> component r ! unat j = component r ! unat i}"
  have C: "?C = {j. (i, j) \<in> connected (links env src)}" if a: "admitted env i"
    using spec_class(3) [OF spec a] connected_admitted [of i _ env src] a by (auto simp: eq_commute)
  have one: "component_size r (component r ! unat i) = 1 \<longleftrightarrow> card ?C = 1"
    using spec_count(1) [OF spec, of "component r ! unat i"] by (simp add: word_unat_eq_iff)
  have refl: "(i, i) \<in> connected (links env src)" by (simp add: connected_def)
  have "card ?C = 1 \<longleftrightarrow> (\<forall>j. (i, j) \<in> connected (links env src) \<longrightarrow> j = i)" if a: "admitted env i"
    unfolding C [OF a] card_1_singleton_iff One_nat_def [symmetric] using refl
    by (auto simp: card_1_singleton_iff set_eq_iff)
  then show "component r ! unat i \<noteq> U32_MAX \<and> component_size r (component r ! unat i) = 1 \<longleftrightarrow> isolated env src i"
    using adm one by (auto simp: isolated_def)
qed

lemma sort_key_sorted: "sorted (map f xs) \<Longrightarrow> sort_key f xs = xs"
  by (rule properties_for_sort_key) auto

lemma sorted_node_range: "n < 2 ^ 32 \<Longrightarrow> sorted (node_range n)"
  by (auto simp: node_range_def sorted_iff_nth_mono word_le_nat_alt)

lemma isolated_page_eq:
  assumes nodes: "backing_ok (backing (cc_nodes env))" and spec: "components_spec env src r"
  shows "isolated_rows_page r (cc_nodes env) offset limit =
    Inr (map (\<lambda>i. row_of (cc_nodes env) i i 1)
      (take limit (drop offset (filter (isolated env src) (node_range (node_total env))))))"
proof -
  have n: "node_total env < 2 ^ 32"
    using node_total_eq [OF nodes] unat_u32_less [of "ns_node_count (cc_nodes env)"] by simp
  let ?ns = "cc_nodes env" and ?xs = "filter (isolated env src) (node_range (node_total env))"
  have len: "length (component r) = node_total env" by (rule spec_length [OF spec])
  have zip: "zip (component r) [0..<length (component r)] =
    map (\<lambda>i. (component r ! unat i, unat i)) (node_range (node_total env))"
    using n by (intro nth_equalityI) (auto simp: node_range_def len)
  have "isolated_nodes r = map (\<lambda>i. (component r ! unat i, i))
    (filter (\<lambda>i. component r ! unat i \<noteq> U32_MAX \<and> component_size r (component r ! unat i) = 1)
      (node_range (node_total env)))"
    unfolding isolated_nodes_def zip by (simp add: filter_map comp_def)
  also have "\<dots> = map (\<lambda>i. (component r ! unat i, i)) ?xs"
    using isolated_iff(1) [OF spec n] by (intro arg_cong [of _ _ "map _"] filter_cong) (auto simp: set_node_range [OF n])
  also have "\<dots> = map (\<lambda>i. (i, i)) ?xs"
    using isolated_iff(2) [OF spec n] by (intro map_cong) (auto simp: set_node_range [OF n])
  finally have iso: "isolated_nodes r = map (\<lambda>i. (i, i)) ?xs" .
  have "map_r (\<lambda>(c, node). rbind (keyed_node ?ns node) (\<lambda>(key, _). Inr ((c, key), c, node))) (isolated_nodes r) =
    Inr (map (\<lambda>(c, node). ((c, fst (keyed ?ns node)), c, node)) (isolated_nodes r))"
    by (rule map_r_ok) (use n nodes in \<open>auto simp: iso keyed_node_eq set_node_range node_total_def split_beta\<close>)
  moreover have "sort_key fst (map (\<lambda>(c, node). ((c, fst (keyed ?ns node)), c, node)) (isolated_nodes r)) =
    map (\<lambda>i. ((i, fst (keyed ?ns i)), i, i)) ?xs"
  proof -
    have "sorted_wrt (<) ?xs"
      using sorted_node_range [OF n] distinct_node_range [OF n]
      by (intro sorted_wrt_filter) (simp add: strict_sorted_iff)
    then have "sorted (map (\<lambda>i. (i, fst (keyed ?ns i))) ?xs)"
      by (induction ?xs rule: rev_induct) (auto simp: sorted_wrt_map intro: sorted_wrt_mono_rel [rotated])
    then show ?thesis unfolding iso by (subst sort_key_sorted) (simp_all add: comp_def)
  qed
  moreover have "map_r (\<lambda>(_, c, node). component_row_of ?ns node c 1)
      (take limit (drop offset (map (\<lambda>i. ((i, fst (keyed ?ns i)), i, i)) ?xs))) =
    Inr (map (\<lambda>(_, c, node). row_of ?ns node c 1)
      (take limit (drop offset (map (\<lambda>i. ((i, fst (keyed ?ns i)), i, i)) ?xs))))"
    by (rule map_r_ok)
      (use n nodes in \<open>auto dest!: in_set_takeD in_set_dropD simp: component_row_of_eq set_node_range node_total_def\<close>)
  ultimately show ?thesis
    by (simp add: isolated_rows_page_def take_map drop_map comp_def)
qed

section \<open>A small graph\<close>

text \<open>Three nodes of one table, an edge from the first to the second, the third one hidden.\<close>

definition sample_cc :: component_env where
  "sample_cc = \<lparr>cc_nodes = \<lparr>backing = OwnedNodes [True, True, True] [7, 7, 7] [[97], [98], [99]],
       max_primary_key_bytes = 1\<rparr>,
     cc_scope = Enforced {2} {} (Selected {}), cc_tx_deleted = (\<lambda>_. False), cc_elapsed = (\<lambda>_. 0)\<rparr>"

definition sample_links :: "u32 \<Rightarrow> neighbor list graph_result" where
  "sample_links i = Inr (if i = 0
     then [\<lparr>nb_target = 1, nb_type_id = 1, nb_schema_reversed = False, nb_relationship_id = None\<rparr>] else [])"

definition sample_components :: component_result where
  "sample_components = \<lparr>component = [0, 0, U32_MAX], num_components = 1, largest_component_size = 2,
     component_sizes = [(0, 2)]\<rparr>"

lemma sample_union:
  "union \<lparr>uf_parent = [0, 1, 2], uf_rank = [0, 0, 0]\<rparr> 0 1 =
    Some (Inr \<lparr>uf_parent = [0, 0, 2], uf_rank = [1, 0, 0]\<rparr>)"
  "find \<lparr>uf_parent = [0, 0, 2], uf_rank = [1, 0, 0]\<rparr> 1 =
    Some (Inr (0, \<lparr>uf_parent = [0, 0, 2], uf_rank = [1, 0, 0]\<rparr>))"
  "find \<lparr>uf_parent = [0, 0, 2], uf_rank = [1, 0, 0]\<rparr> 0 =
    Some (Inr (0, \<lparr>uf_parent = [0, 0, 2], uf_rank = [1, 0, 0]\<rparr>))"
  by (simp_all add: union_def find_def find_root.simps link_roots_def)

lemma sample_nodes_admitted:
  "node_admitted sample_cc 0 = Inr True" "node_admitted sample_cc 1 = Inr True"
  "node_admitted sample_cc 2 = Inr False"
  by (simp_all add: node_admitted_def sample_cc_def is_active_def opt_get_or_def get_opt_def)

lemma sample_backing: "backing_ok (backing (cc_nodes sample_cc))"
  by (simp add: sample_cc_def backing_ok_def utf8_ok.simps)

lemma sample_run: "compute_components sample_cc sample_links None = Some (Inr sample_components)"
proof -
  have "ns_node_count (cc_nodes sample_cc) = 3" "cc_scope sample_cc = Enforced {2} {} (Selected {})"
    by (simp_all add: sample_cc_def ns_node_count_def)
  moreover have "uf_try_new 3 = Inr \<lparr>uf_parent = [0, 1, 2], uf_rank = [0, 0, 0]\<rparr>"
    by (simp add: uf_try_new_def upt_rec numeral_3_eq_3)
  moreover have "replicate 3 (0 :: u32) = [0, 0, 0]" by (simp add: numeral_3_eq_3)
  moreover have "node_range 3 = [0, 1, 2]" by (simp add: node_range_def upt_rec)
  ultimately show ?thesis
    by (simp add: compute_components_def unite_node_def sample_nodes_admitted sample_links_def unite_edge_def
        consume_analytics_work_def requires_identity_def sample_union label_node_def U32_MAX_def Let_def
        sample_components_def)
qed

lemma sample_total: "node_total sample_cc = 3"
  by (simp add: node_total_def sample_cc_def store_nodes_def)

lemma sample_admitted: "admitted sample_cc 0" "admitted sample_cc 1" "\<not> admitted sample_cc 2"
  by (simp_all add: admitted_def sample_total) (simp_all add: sample_cc_def store_nodes_def)

section \<open>Properties\<close>

text \<open>
  C14: Two visible, active nodes get the same component exactly when admitted edges connect
  them; a component is named by one of its own nodes, and a hidden, deleted or inactive node
  carries the sentinel.
\<close>

theorem components_exact:
  assumes "backing_ok (backing (cc_nodes env))" "compute_components env src go = Some (Inr r)"
  shows "length (component r) = node_total env \<and>
    (\<forall>i. unat i < node_total env \<longrightarrow> \<not> admitted env i \<longrightarrow> component r ! unat i = U32_MAX) \<and>
    (\<forall>i. admitted env i \<longrightarrow> admitted env (component r ! unat i) \<and> component r ! unat i \<noteq> U32_MAX \<and>
       component r ! unat (component r ! unat i) = component r ! unat i) \<and>
    (\<forall>i j. admitted env i \<longrightarrow> admitted env j \<longrightarrow>
       (component r ! unat i = component r ! unat j \<longleftrightarrow> (i, j) \<in> connected (links env src)))"
proof -
  have spec: "components_spec env src r"
    using returns_Inr [OF compute_components_returns [OF assms(1)] assms(2)] .
  have n: "node_total env < 2 ^ 32"
    using node_total_eq [OF assms(1)] unat_u32_less [of "ns_node_count (cc_nodes env)"] by simp
  show ?thesis
    using spec_length [OF spec] spec_hidden [OF spec n] spec_class [OF spec n] not_max [OF n]
      spec_label_self [OF spec n] by blast
qed

theorem components_exact_witness:
  "component sample_components ! 0 = component sample_components ! 1 \<and>
   (0, 1) \<in> connected (links sample_cc sample_links) \<and> component sample_components ! 2 = U32_MAX"
proof -
  have "component sample_components ! unat (0 :: u32) = component sample_components ! unat (1 :: u32) \<longleftrightarrow>
    (0, 1) \<in> connected (links sample_cc sample_links)"
    using components_exact [OF sample_backing sample_run] sample_admitted by blast
  then show ?thesis by (simp add: sample_components_def)
qed

text \<open>
  The size of a component is the number of nodes it labels, the number of components is
  the number of distinct labels of visible nodes, and the largest size is attained and not
  exceeded.
\<close>

theorem component_sizes_exact:
  assumes "backing_ok (backing (cc_nodes env))" "compute_components env src go = Some (Inr r)"
  shows "(\<forall>c. c \<noteq> U32_MAX \<longrightarrow> unat (component_size r c) =
      card {i :: u32. unat i < node_total env \<and> component r ! unat i = c}) \<and>
    unat (num_components r) = card ((\<lambda>i. component r ! unat i) ` {i. admitted env i}) \<and>
    (\<forall>c. component_size r c \<le> largest_component_size r) \<and>
    (\<exists>c. component_size r c = largest_component_size r)"
proof -
  have spec: "components_spec env src r"
    using returns_Inr [OF compute_components_returns [OF assms(1)] assms(2)] .
  have n: "node_total env < 2 ^ 32"
    using node_total_eq [OF assms(1)] unat_u32_less [of "ns_node_count (cc_nodes env)"] by simp
  note count = spec_count [OF spec n]
  have size: "unat (component_size r c) = card {i :: u32. unat i < node_total env \<and> component r ! unat i = c}"
    if "c \<noteq> U32_MAX" for c
  proof -
    have "{i :: u32. unat i < node_total env \<and> component r ! unat i = c} = {i. admitted env i \<and> component r ! unat i = c}"
      using that spec_hidden [OF spec n] admitted_range by blast
    from arg_cong [OF this, of card] show ?thesis using count(1) [of c] by linarith
  qed
  have d: "distinct (map fst (component_sizes r))" using spec_roots [OF spec n] by metis
  have keys: "fst ` set (component_sizes r) = (\<lambda>i. component r ! unat i) ` {i. admitted env i}"
    using count(2) by (auto simp: dom_map_of_conv_image_fst [symmetric] dom_def)
  have num: "num_components r = word_of_nat (card ((\<lambda>i. component r ! unat i) ` {i. admitted env i}))"
    using spec distinct_card [OF d] keys by (auto simp: components_spec_def)
  have "card ((\<lambda>i. component r ! unat i) ` {i. admitted env i}) \<le> card {i :: u32. unat i < node_total env}"
    using admitted_range by (intro order_trans [OF card_image_le] card_mono) auto
  then have num': "unat (num_components r) = card ((\<lambda>i. component r ! unat i) ` {i. admitted env i})"
    using n card_indices [of "node_total env"] num by simp
  have large: "largest_component_size r = Max (insert 0 (snd ` set (component_sizes r)))"
    using spec Max.set_eq_fold [of 0 "map snd (component_sizes r)"] by (auto simp: components_spec_def)
  have le: "component_size r c \<le> largest_component_size r" for c
    unfolding large component_size_def
    by (cases "map_of (component_sizes r) c") (force dest: map_of_SomeD intro!: Max_ge)+
  have "largest_component_size r \<in> insert 0 (snd ` set (component_sizes r))"
    unfolding large by (rule Max_in) auto
  then consider "largest_component_size r = 0" |
    c where "(c, largest_component_size r) \<in> set (component_sizes r)" by force
  then have "\<exists>c. component_size r c = largest_component_size r"
  proof cases
    case 1
    then show ?thesis using le [of 0] by (intro exI [of _ 0]) simp
  next
    case 2
    then have "component_size r c = largest_component_size r"
      using map_of_is_SomeI [OF d] by (simp add: component_size_def)
    then show ?thesis by blast
  qed
  with size num' le show ?thesis by blast
qed

theorem component_sizes_exact_witness:
  "unat (component_size sample_components 0) =
     card {i :: u32. unat i < node_total sample_cc \<and> component sample_components ! unat i = 0} \<and>
   (\<exists>c. component_size sample_components c = largest_component_size sample_components)"
  using component_sizes_exact [OF sample_backing sample_run] by (simp add: U32_MAX_def)

text \<open>
  C15: The computation always ends: with a result, or with the missing relationship identity,
  a work or time limit of the analytics phase, or a fault of the neighbor source. In
  particular the recursive \<open>find\<close> always returns and no index of it is out of range.
\<close>

theorem components_terminate:
  assumes "backing_ok (backing (cc_nodes env))"
  shows "\<exists>r. compute_components env src go = Some r \<and>
    (case r of Inl f \<Rightarrow> analysis_fault src f | Inr _ \<Rightarrow> True)"
  using returns_cases [OF compute_components_returns [OF assms, of src go]] by auto

theorem components_terminate_witness:
  "\<exists>r. compute_components sample_cc sample_links (Some (new_governor (memory_only 1))) = Some r \<and>
    (case r of Inl f \<Rightarrow> analysis_fault sample_links f | Inr _ \<Rightarrow> True)"
  by (rule components_terminate [OF sample_backing])

text \<open>
  The pages of a component are cut from one list, sorted by table and primary key, of
  exactly the nodes carrying its label, each once: no node is lost or repeated between pages.
\<close>

theorem component_pages_exact:
  assumes "backing_ok (backing ns)" "length (component r) = length (store_nodes ns)"
  shows "\<exists>nodes. set nodes = {i. unat i < length (component r) \<and> component r ! unat i = c} \<and>
    distinct nodes \<and> sorted (map (\<lambda>i. fst (keyed ns i)) nodes) \<and>
    (\<forall>offset limit. component_rows_page r ns c offset limit =
      Inr (map (\<lambda>i. row_of ns i c (component_size r c)) (take limit (drop offset nodes))))"
proof -
  have n: "length (component r) < 2 ^ 32"
    using assms store_nodes_count [OF assms(1)] unat_u32_less [of "ns_node_count ns"] by simp
  show ?thesis
    using component_order_set [OF n] sorted_component_order [OF n] page_eq [OF assms] by blast
qed

theorem component_pages_exact_witness:
  "\<exists>nodes. set nodes = {i. unat i < length (component sample_components) \<and> component sample_components ! unat i = 0} \<and>
    distinct nodes \<and> sorted (map (\<lambda>i. fst (keyed (cc_nodes sample_cc) i)) nodes) \<and>
    (\<forall>offset limit. component_rows_page sample_components (cc_nodes sample_cc) 0 offset limit =
      Inr (map (\<lambda>i. row_of (cc_nodes sample_cc) i 0 (component_size sample_components 0))
        (take limit (drop offset nodes))))"
  by (rule component_pages_exact [OF sample_backing])
    (use sample_total in \<open>simp add: node_total_def sample_components_def\<close>)

text \<open>
  The pages of isolated nodes list, in index order, exactly the visible active nodes that
  no admitted edge joins to another node.
\<close>

theorem isolated_pages_exact:
  assumes "backing_ok (backing (cc_nodes env))" "compute_components env src go = Some (Inr r)"
  shows "isolated_rows_page r (cc_nodes env) offset limit =
    Inr (map (\<lambda>i. row_of (cc_nodes env) i i 1)
      (take limit (drop offset (filter (isolated env src) (node_range (node_total env))))))"
  using isolated_page_eq [OF assms(1) returns_Inr [OF compute_components_returns [OF assms(1)] assms(2)]] .

theorem isolated_pages_exact_witness:
  "isolated_rows_page sample_components (cc_nodes sample_cc) 0 5 =
    Inr (map (\<lambda>i. row_of (cc_nodes sample_cc) i i 1)
      (take 5 (drop 0 (filter (isolated sample_cc sample_links) (node_range (node_total sample_cc))))))"
  by (rule isolated_pages_exact [OF sample_backing sample_run])

text \<open>
  The label that marks hidden nodes is accepted as a component: asking for component
  4294967295 lists the table and primary key of every node that is hidden from the caller,
  deleted or inactive.
\<close>

theorem sentinel_component_lists_hidden_nodes:
  assumes "backing_ok (backing (cc_nodes env))" "compute_components env src go = Some (Inr r)"
  shows "\<exists>nodes. set nodes = {i. unat i < node_total env \<and> \<not> admitted env i} \<and>
    (\<forall>offset limit. component_rows_page r (cc_nodes env) U32_MAX offset limit =
      Inr (map (\<lambda>i. row_of (cc_nodes env) i U32_MAX 0) (take limit (drop offset nodes))))"
proof -
  have spec: "components_spec env src r"
    using returns_Inr [OF compute_components_returns [OF assms(1)] assms(2)] .
  have n: "node_total env < 2 ^ 32"
    using node_total_eq [OF assms(1)] unat_u32_less [of "ns_node_count (cc_nodes env)"] by simp
  have len: "length (component r) = node_total env" by (rule spec_length [OF spec])
  have hidden: "{i. unat i < node_total env \<and> component r ! unat i = U32_MAX} =
    {i. unat i < node_total env \<and> \<not> admitted env i}"
    using spec_hidden [OF spec n] spec_class(1) [OF spec n] not_max [OF n] by blast
  have "map_of (component_sizes r) U32_MAX = None"
    using spec_count(2) [OF spec n, of U32_MAX] spec_class(1) [OF spec n] not_max [OF n] by metis
  then have zero: "component_size r U32_MAX = 0" by (simp add: component_size_def)
  have n': "length (component r) < 2 ^ 32" using n len by simp
  show ?thesis
    using component_order_set [OF n'] hidden zero page_eq [OF assms(1), of r U32_MAX] len
    by (intro exI [of _ "component_order r (cc_nodes env) U32_MAX"]) (simp add: node_total_def)
qed

theorem sentinel_component_lists_hidden_nodes_witness:
  "\<exists>nodes. set nodes = {i. unat i < node_total sample_cc \<and> \<not> admitted sample_cc i} \<and>
    (\<forall>offset limit. component_rows_page sample_components (cc_nodes sample_cc) U32_MAX offset limit =
      Inr (map (\<lambda>i. row_of (cc_nodes sample_cc) i U32_MAX 0) (take limit (drop offset nodes))))"
  by (rule sentinel_component_lists_hidden_nodes [OF sample_backing sample_run])

end
