(* ===== verification/PathAdmission.thy ===== *)
theory PathAdmission
  imports Resource NodeStore Visibility Neighbors
begin

text \<open>
  What the path searches of \<open>graph/src/path_finder.rs\<close> share: the work budget that remembers
  the first error, the visibility and edge type admission of a candidate, and the rows of a
  path. The tombstones of the running transaction and the clock are functions of the
  environment.
\<close>

section \<open>Environment and budget\<close>

record path_env =
  pe_nodes :: node_store
  pe_scope :: visibility_scope
  pe_tx_deleted :: "u32 \<Rightarrow> bool"
  pe_filter :: "u32 set option"
  pe_elapsed :: "u64 \<Rightarrow> nat"

record path_work_budget =
  pb_governor :: resource_governor
  pb_error :: "graph_error option"

definition new_budget :: "resource_governor \<Rightarrow> path_work_budget" where
  "new_budget g = \<lparr>pb_governor = g, pb_error = None\<rparr>"

definition budget_finish :: "path_work_budget \<Rightarrow> 'a option \<Rightarrow> 'a option graph_result" where
  "budget_finish b r = (case pb_error b of Some e \<Rightarrow> Inl (Err e) | None \<Rightarrow> Inr r)"

definition record_error :: "graph_error \<Rightarrow> path_work_budget \<Rightarrow> path_work_budget" where
  "record_error e b = (if pb_error b = None then b\<lparr>pb_error := Some e\<rparr> else b)"

text \<open>One unit of work: false when the search must stop. Every 1024 units the clock is read.\<close>

definition consume_path_work ::
  "path_env \<Rightarrow> path_work_budget option \<Rightarrow> bool \<times> path_work_budget option" where
  "consume_path_work env bo =
     (case bo of None \<Rightarrow> (True, None)
      | Some b \<Rightarrow>
          (case consume_work QueryPaths 1 (pb_governor b) of
             Inl (Err e) \<Rightarrow> (False, Some (record_error (to_graph_error e) b))
           | Inl Panic \<Rightarrow> (False, Some b)
           | Inr g \<Rightarrow>
               let b = b\<lparr>pb_governor := g\<rparr> in
               if work_used g mod 1024 = 0 then
                 (case check_elapsed_duration g QueryPaths (pe_elapsed env (work_used g)) of
                    Inl (Err e) \<Rightarrow> (False, Some (record_error (to_graph_error e) b))
                  | _ \<Rightarrow> (True, Some b))
               else (True, Some b)))"

section \<open>Admission\<close>

definition note_error :: "graph_error fault \<Rightarrow> path_work_budget option \<Rightarrow> path_work_budget option" where
  "note_error f bo = (case f of Err e \<Rightarrow> map_option (record_error e) bo | Panic \<Rightarrow> bo)"

definition path_candidate_visible ::
  "path_env \<Rightarrow> path_work_budget option \<Rightarrow> neighbor \<Rightarrow> bool \<times> path_work_budget option" where
  "path_candidate_visible env bo e =
     (case allows_relationship (pe_scope env) (nb_type_id e) (nb_relationship_id e) of
        Inr allowed \<Rightarrow>
          (allowed \<and> allows_node (pe_scope env) (nb_target e) \<and>
           (case pe_filter env of None \<Rightarrow> True | Some ids \<Rightarrow> nb_type_id e \<in> ids), bo)
      | Inl f \<Rightarrow> (False, note_error f bo))"

definition path_weighted_candidate_visible ::
  "path_env \<Rightarrow> path_work_budget option \<Rightarrow> weighted_neighbor \<Rightarrow> bool \<times> path_work_budget option" where
  "path_weighted_candidate_visible env bo e =
     (case allows_relationship (pe_scope env) (wn_type_id e) (wn_relationship_id e) of
        Inr allowed \<Rightarrow> (allowed \<and> allows_node (pe_scope env) (wn_target e), bo)
      | Inl f \<Rightarrow> (False, note_error f bo))"

text \<open>The node is active and not deleted by the running transaction.\<close>

definition live_node :: "path_env \<Rightarrow> u32 \<Rightarrow> bool graph_result" where
  "live_node env i =
     rbind (is_active (pe_nodes env) i) (\<lambda>active. Inr (active \<and> \<not> pe_tx_deleted env i))"

section \<open>Labels and rows\<close>

type_synonym i32 = "32 word"

definition resolve_edge_type_label ::
  "string list \<Rightarrow> (edge_type_id \<Rightarrow> string option) option \<Rightarrow> edge_type_id \<Rightarrow> string" where
  "resolve_edge_type_label registry resolver t =
     (case Option.bind resolver (\<lambda>resolve. resolve t) of
        Some l \<Rightarrow> l
      | None \<Rightarrow> opt_get_or (''type_'' @ show_nat (unat t)) (get_opt registry (unat t)))"

text \<open>Table and key of a node; \<open>None\<close> is the early return of the search.\<close>

definition node_identity :: "node_store \<Rightarrow> u32 \<Rightarrow> (u32 \<times> u8 list) option graph_result" where
  "node_identity ns i =
     (case table_oid ns i of None \<Rightarrow> Inr None
      | Some oid \<Rightarrow> rbind (primary_key ns i) (\<lambda>key. Inr (map_option (\<lambda>key. (oid, key)) key)))"

text \<open>Collecting options: the first \<open>None\<close> ends the search without a path.\<close>

primrec collect_opt :: "('a \<Rightarrow> 'b option graph_result) \<Rightarrow> 'a list \<Rightarrow> 'b list option graph_result" where
  "collect_opt f [] = Inr (Some [])"
| "collect_opt f (x # xs) =
     rbind (f x) (\<lambda>y. case y of None \<Rightarrow> Inr None
       | Some y \<Rightarrow> rbind (collect_opt f xs) (\<lambda>ys. Inr (map_option (\<lambda>ys. y # ys) ys)))"

section \<open>Facts\<close>

definition path_nodes :: "path_env \<Rightarrow> nat" where
  "path_nodes env = length (store_nodes (pe_nodes env))"

definition live :: "path_env \<Rightarrow> u32 \<Rightarrow> bool" where
  "live env i \<longleftrightarrow> unat i < path_nodes env \<and> fst (store_nodes (pe_nodes env) ! unat i) \<and> \<not> pe_tx_deleted env i"

lemma live_node_eq: "backing_ok (backing (pe_nodes env)) \<Longrightarrow> live_node env i = Inr (live env i)"
  by (auto simp: live_node_def live_def path_nodes_def is_active_row)

lemma path_nodes_count:
  "backing_ok (backing (pe_nodes env)) \<Longrightarrow> unat (ns_node_count (pe_nodes env)) = path_nodes env"
  by (simp add: path_nodes_def store_nodes_count)

lemma path_nodes_bound: "backing_ok (backing (pe_nodes env)) \<Longrightarrow> path_nodes env < 2 ^ 32"
  using path_nodes_count [of env] unat_u32_less [of "ns_node_count (pe_nodes env)"] by simp

definition identity_of :: "path_env \<Rightarrow> u32 \<Rightarrow> u32 \<times> u8 list" where
  "identity_of env i = snd (store_nodes (pe_nodes env) ! unat i)"

lemma node_identity_eq:
  "backing_ok (backing (pe_nodes env)) \<Longrightarrow> unat i < path_nodes env \<Longrightarrow>
    node_identity (pe_nodes env) i = Inr (Some (identity_of env i))"
  by (simp add: node_identity_def identity_of_def path_nodes_def table_oid_row primary_key_row)

lemma collect_opt_ok:
  "(\<And>x. x \<in> set xs \<Longrightarrow> f x = Inr (Some (g x))) \<Longrightarrow> collect_opt f xs = Inr (Some (map g xs))"
  by (induction xs) simp_all

text \<open>The only errors a search records.\<close>

definition path_error :: "graph_error \<Rightarrow> bool" where
  "path_error e \<longleftrightarrow> e = RlsRelationshipIdentityMissing \<or>
     (\<exists>le. e = to_graph_error le \<and> err_phase le = QueryPaths)"

definition budget_ok :: "path_work_budget option \<Rightarrow> bool" where
  "budget_ok bo \<longleftrightarrow> (case bo of None \<Rightarrow> True
     | Some b \<Rightarrow> (case pb_error b of None \<Rightarrow> True | Some e \<Rightarrow> path_error e))"

definition failed :: "path_work_budget option \<Rightarrow> bool" where
  "failed bo \<longleftrightarrow> (case bo of None \<Rightarrow> False | Some b \<Rightarrow> pb_error b \<noteq> None)"

lemma record_error_ok: "budget_ok (Some b) \<Longrightarrow> path_error e \<Longrightarrow> budget_ok (Some (record_error e b))"
  by (auto simp: budget_ok_def record_error_def split: option.splits)

lemma record_error_failed: "failed (Some (record_error e b))"
  by (auto simp: failed_def record_error_def)

lemma failed_record: "failed (Some b) \<Longrightarrow> failed (Some (record_error e b))"
  by (auto simp: failed_def record_error_def)

lemma consume_path_work_cases:
  assumes "consume_path_work env bo = (go, bo')" "budget_ok bo"
  shows "budget_ok bo' \<and> (failed bo \<longrightarrow> failed bo') \<and> (\<not> go \<longrightarrow> failed bo') \<and> (bo = None \<longrightarrow> go \<and> bo' = None) \<and>
    (bo' = None \<longrightarrow> bo = None)"
proof (cases bo)
  case None
  with assms show ?thesis by (auto simp: consume_path_work_def budget_ok_def failed_def)
next
  case (Some b)
  have phase: "err_phase e = QueryPaths" if "consume_work QueryPaths 1 (pb_governor b) = Inl (Err e)" for e
    using that by (auto simp: consume_work_def rbind_def consume_counter_Inl limit_error_def split: sum.splits)
  have panic: "consume_work QueryPaths 1 (pb_governor b) \<noteq> Inl Panic"
    by (auto simp: consume_work_def rbind_def consume_counter_Inl limit_error_def split: sum.splits)
  have phase': "err_phase e = QueryPaths" if "check_elapsed_duration g QueryPaths d = Inl (Err e)" for e g d
    using that by (auto simp: check_elapsed_duration_def Let_def limit_error_def split: if_splits)
  have upd: "budget_ok (Some (b\<lparr>pb_governor := g\<rparr>)) = budget_ok (Some b)"
    "failed (Some (b\<lparr>pb_governor := g\<rparr>)) = failed (Some b)" for g
    by (simp_all add: budget_ok_def failed_def)
  show ?thesis
  proof (cases "consume_work QueryPaths 1 (pb_governor b)")
    case (Inl f)
    then obtain e where f: "f = Err e" using panic by (cases f) auto
    then have "path_error (to_graph_error e)" using phase Inl by (auto simp: path_error_def)
    with assms Some Inl f show ?thesis
      by (auto simp: consume_path_work_def record_error_failed intro: record_error_ok)
  next
    case (Inr g)
    show ?thesis
    proof (cases "\<exists>e. work_used g mod 1024 = 0 \<and>
        check_elapsed_duration g QueryPaths (pe_elapsed env (work_used g)) = Inl (Err e)")
      case True
      then obtain e where e: "work_used g mod 1024 = 0"
        "check_elapsed_duration g QueryPaths (pe_elapsed env (work_used g)) = Inl (Err e)"
        by (elim exE conjE)
      then have "path_error (to_graph_error e)" using phase' by (auto simp: path_error_def)
      with assms Some Inr e show ?thesis
        by (auto simp: consume_path_work_def Let_def record_error_failed upd intro: record_error_ok)
    next
      case False
      with assms Some Inr show ?thesis
        by (auto simp: consume_path_work_def Let_def upd split: if_splits sum.splits fault.splits)
    qed
  qed
qed

lemma allows_relationship_error:
  "allows_relationship sc t r = Inl f \<Longrightarrow> f = Err RlsRelationshipIdentityMissing"
  by (cases "(sc, t, r)" rule: allows_relationship.cases) (auto simp: ok_or_def split: if_splits option.splits)

lemma note_error_cases:
  assumes "allows_relationship sc t r = Inl f" "budget_ok bo"
  shows "budget_ok (note_error f bo) \<and> (failed bo \<longrightarrow> failed (note_error f bo)) \<and>
    (note_error f bo = None \<longleftrightarrow> bo = None)"
  using allows_relationship_error [OF assms(1)] assms(2)
  by (cases bo) (auto simp: note_error_def path_error_def intro: record_error_ok failed_record)

text \<open>What every step of a search does to its budget.\<close>

definition budget_step :: "path_work_budget option \<Rightarrow> path_work_budget option \<Rightarrow> bool" where
  "budget_step b b' \<longleftrightarrow> (budget_ok b \<longrightarrow> budget_ok b') \<and> (failed b \<longrightarrow> failed b') \<and> (b = None \<longleftrightarrow> b' = None)"

lemma budget_step_refl [simp]: "budget_step b b"
  by (simp add: budget_step_def)

lemma budget_step_trans: "budget_step a b \<Longrightarrow> budget_step b c \<Longrightarrow> budget_step a c"
  by (auto simp: budget_step_def)

lemma consume_step:
  assumes "consume_path_work env b = (go, b')" "budget_ok b"
  shows "budget_step b b' \<and> (\<not> go \<longrightarrow> failed b')"
  using consume_path_work_cases [OF assms] by (auto simp: budget_step_def)

end
