(* ===== verification/Dijkstra.thy ===== *)
theory Dijkstra
  imports PathAdmission "HOL-Library.Product_Lexorder"
begin

text \<open>
  Weighted shortest paths (\<open>weighted_shortest_path_with_neighbors_inner\<close> in
  \<open>graph/src/path_finder.rs\<close>): Dijkstra's loop with a binary heap of cost and node, stale
  entries skipped when popped. The heap is the ascending list of its entries; popping takes
  the least. The walk along the parent links is an option whose \<open>None\<close> would be a loop that
  never breaks.
\<close>

section \<open>State\<close>

record weighted_parent_step =
  wp_parent :: u32
  wp_edge_type :: edge_type_id
  wp_edge_weight :: u32

record dijkstra_state =
  dist :: "u64 list"
  parent_of :: "u32 \<rightharpoonup> weighted_parent_step"
  heap :: "(u64 \<times> u32) list"
  budget :: "path_work_budget option"

definition U64_MAX :: u64 where
  "U64_MAX = - 1"

definition heap_push :: "u64 \<times> u32 \<Rightarrow> (u64 \<times> u32) list \<Rightarrow> (u64 \<times> u32) list" where
  "heap_push e h = insort e h"

section \<open>Relaxation and the main loop\<close>

text \<open>The flag is false when the search must stop without a path.\<close>

definition relax ::
  "path_env \<Rightarrow> u64 \<Rightarrow> u32 \<Rightarrow> weighted_neighbor \<Rightarrow> dijkstra_state \<Rightarrow> (bool \<times> dijkstra_state) graph_result" where
  "relax env cost current e s =
     (let (go, b) = consume_path_work env (budget s); s = s\<lparr>budget := b\<rparr> in
      if \<not> go then Inr (False, s)
      else
        let (seen, b) = path_weighted_candidate_visible env (budget s) e; s = s\<lparr>budget := b\<rparr> in
        if \<not> seen \<or> (case pe_filter env of None \<Rightarrow> False | Some ids \<Rightarrow> wn_type_id e \<notin> ids) then Inr (True, s)
        else
          (case checked_add_u64 cost (ucast (wn_weight e)) of
             None \<Rightarrow> Inr (True, s)
           | Some new_cost \<Rightarrow>
               rbind (index_r (dist s) (unat (wn_target e))) (\<lambda>old.
               if \<not> new_cost < old then Inr (True, s)
               else
                 rbind (live_node env (wn_target e)) (\<lambda>live.
                 if \<not> live then Inr (True, s)
                 else
                   rbind (update_r (dist s) (unat (wn_target e)) new_cost) (\<lambda>d.
                   Inr (True, s\<lparr>dist := d,
                     parent_of := (parent_of s)(wn_target e \<mapsto>
                       \<lparr>wp_parent = current, wp_edge_type = wn_type_id e, wp_edge_weight = wn_weight e\<rparr>),
                     heap := heap_push (new_cost, wn_target e) (heap s)\<rparr>))))))"

fun relax_all ::
  "path_env \<Rightarrow> u64 \<Rightarrow> u32 \<Rightarrow> weighted_neighbor list \<Rightarrow> dijkstra_state \<Rightarrow> (bool \<times> dijkstra_state) graph_result" where
  "relax_all env cost current [] s = Inr (True, s)"
| "relax_all env cost current (e # es) s =
     rbind (relax env cost current e s) (\<lambda>(go, s).
       if go then relax_all env cost current es s else Inr (False, s))"

definition dist_sum :: "dijkstra_state \<Rightarrow> nat" where
  "dist_sum s = sum_list (map unat (dist s))"

lemma relax_measure:
  assumes "relax env cost current e s = Inr (go, t)"
  shows "dist_sum t < dist_sum s \<or> (dist t = dist s \<and> heap t = heap s)"
proof -
  have less: "sum_list (map unat (xs[i := v])) < sum_list (map unat xs)"
    if "i < length xs" "v < xs ! i" for xs :: "u64 list" and i v
  proof -
    have "sum_list ((map unat xs)[i := unat v]) = sum_list (map unat xs) + unat v - map unat xs ! i"
      using that by (intro sum_list_update) simp
    moreover have "map unat xs ! i \<le> sum_list (map unat xs)"
      using that by (intro elem_le_sum_list) simp
    ultimately show ?thesis using that by (simp add: map_update word_less_nat_alt)
  qed
  from assms show ?thesis
    by (auto simp: relax_def dist_sum_def Let_def split_beta result_simps less
        split: if_splits option.splits)
qed

lemma relax_all_measure:
  assumes "relax_all env cost current es s = Inr (go, t)"
  shows "dist_sum t < dist_sum s \<or> (dist t = dist s \<and> heap t = heap s)"
  using assms
proof (induction es arbitrary: s)
  case (Cons e es)
  then obtain go' u where r: "relax env cost current e s = Inr (go', u)"
    and rest: "(if go' then relax_all env cost current es u else Inr (False, u)) = Inr (go, t)"
    by (auto simp: result_simps)
  show ?case
    using relax_measure [OF r] rest Cons.IH [of u] by (cases go') (auto simp: dist_sum_def)
qed simp

function (sequential) dijkstra_loop ::
  "path_env \<Rightarrow> (u32 \<Rightarrow> weighted_neighbor list graph_result) \<Rightarrow> u32 \<Rightarrow> dijkstra_state \<Rightarrow>
    (bool \<times> dijkstra_state) graph_result" where
  "dijkstra_loop env source_of goal s =
     (case heap s of
        [] \<Rightarrow> Inr (True, s)
      | (cost, current) # rest \<Rightarrow>
          (let s = s\<lparr>heap := rest\<rparr> in
           if current = goal then Inr (True, s)
           else
             rbind (index_r (dist s) (unat current)) (\<lambda>d.
             if cost > d then dijkstra_loop env source_of goal s
             else
               rbind (source_of current) (\<lambda>es.
               rbind (relax_all env cost current es s) (\<lambda>(go, s).
                 if go then dijkstra_loop env source_of goal s else Inr (False, s))))))"
  by pat_completeness auto

termination
proof (relation "inv_image (less_than <*lex*> less_than) (\<lambda>(_, _, _, s). (dist_sum s, length (heap s)))",
    goal_cases)
  case 1
  then show ?case by auto
next
  case (2 env source_of goal s entry rest cost current s' d)
  then show ?case by (simp add: dist_sum_def)
next
  case (3 env source_of goal s entry rest cost current s' d es r go t)
  then have "dist_sum t < dist_sum s' \<or> (dist t = dist s' \<and> heap t = heap s')"
    using relax_all_measure [of env cost current es s' go t] by simp
  with 3 show ?case by (auto simp: dist_sum_def)
qed

declare dijkstra_loop.simps [simp del]

section \<open>The path\<close>

text \<open>
  The nodes from the goal back to the source, in the order they are pushed. The inner option
  is the early return on a missing parent.
\<close>

partial_function (option) weighted_nodes ::
  "(u32 \<rightharpoonup> weighted_parent_step) \<Rightarrow> u32 \<Rightarrow> u32 \<Rightarrow> u32 list option option" where
  "weighted_nodes parents src current =
     (if current = src then Some (Some [current])
      else case parents current of
        None \<Rightarrow> Some None
      | Some step \<Rightarrow>
          Option.bind (weighted_nodes parents src (wp_parent step)) (\<lambda>ns.
            Some (map_option (\<lambda>ns. current # ns) ns)))"

declare weighted_nodes.simps [code]

record weighted_path_step =
  ws_step :: i32
  ws_node_table :: u32
  ws_node_id :: "u8 list"
  ws_edge_label :: "string option"
  ws_edge_weight :: "u32 option"
  ws_step_cost :: u64
  ws_total_cost :: u64

definition weighted_step ::
  "node_store \<Rightarrow> string list \<Rightarrow> (u32 \<rightharpoonup> weighted_parent_step) \<Rightarrow> u64 list \<Rightarrow> u64 \<Rightarrow> nat \<times> u32 \<Rightarrow>
    weighted_path_step option graph_result" where
  "weighted_step ns registry parents d tc = (\<lambda>(i, node).
     rbind (node_identity ns node) (\<lambda>ident.
     case ident of None \<Rightarrow> Inr None
     | Some (table, key) \<Rightarrow>
         let ps = opt_get_or \<lparr>wp_parent = node, wp_edge_type = UNTYPED, wp_edge_weight = 0\<rparr> (parents node) in
         rbind (index_r d (unat node)) (\<lambda>c.
         Inr (Some \<lparr>ws_step = word_of_nat i, ws_node_table = table, ws_node_id = key,
           ws_edge_label = (if i = 0 then None
             else Some (resolve_edge_type_label registry None (wp_edge_type ps))),
           ws_edge_weight = (if i \<noteq> 0 then Some (wp_edge_weight ps) else None),
           ws_step_cost = c, ws_total_cost = tc\<rparr>))))"

definition initial_search :: "nat \<Rightarrow> u32 \<Rightarrow> path_work_budget option \<Rightarrow> dijkstra_state graph_result" where
  "initial_search n src b =
     rbind (update_r (replicate n U64_MAX) (unat src) 0) (\<lambda>d.
       Inr \<lparr>dist = d,
         parent_of = [src \<mapsto> \<lparr>wp_parent = src, wp_edge_type = UNTYPED, wp_edge_weight = 0\<rparr>],
         heap = [(0, src)], budget = b\<rparr>)"

definition weighted_shortest_path_inner ::
  "path_env \<Rightarrow> (u32 \<Rightarrow> weighted_neighbor list graph_result) \<Rightarrow> bool \<Rightarrow> string list \<Rightarrow> u32 \<Rightarrow> u32 \<Rightarrow>
    path_work_budget option \<Rightarrow>
    (graph_error, path_work_budget option \<times> weighted_path_step list option) rust_result option" where
  "weighted_shortest_path_inner env source_of weighted_store registry src goal b =
     (let ns = pe_nodes env in
      if src \<ge> ns_node_count ns \<or> goal \<ge> ns_node_count ns \<or>
         \<not> allows_node (pe_scope env) src \<or> \<not> allows_node (pe_scope env) goal
      then Some (Inr (b, None))
      else if \<not> weighted_store then Some (Inr (b, None))
      else
        obind (Some (initial_search (unat (ns_node_count ns)) src b)) (\<lambda>s.
        obind (Some (dijkstra_loop env source_of goal s)) (\<lambda>(go, s).
        if \<not> go then Some (Inr (budget s, None))
        else
          obind (Some (index_r (dist s) (unat goal))) (\<lambda>tc.
          if tc = U64_MAX then Some (Inr (budget s, None))
          else
            Option.bind (weighted_nodes (parent_of s) src goal) (\<lambda>found.
            case found of None \<Rightarrow> Some (Inr (budget s, None))
            | Some ns_back \<Rightarrow>
                obind (Some (collect_opt (weighted_step ns registry (parent_of s) (dist s) tc)
                    (enumerate 0 (rev ns_back)))) (\<lambda>steps.
                  Some (Inr (budget s, steps))))))))"

definition weighted_shortest_path_governed ::
  "path_env \<Rightarrow> (u32 \<Rightarrow> weighted_neighbor list graph_result) \<Rightarrow> bool \<Rightarrow> string list \<Rightarrow> u32 \<Rightarrow> u32 \<Rightarrow>
    resource_governor \<Rightarrow> (graph_error, weighted_path_step list option) rust_result option" where
  "weighted_shortest_path_governed env source_of weighted_store registry src goal g =
     obind (weighted_shortest_path_inner env source_of weighted_store registry src goal (Some (new_budget g)))
       (\<lambda>(b, steps). case b of None \<Rightarrow> Some (Inr steps) | Some b \<Rightarrow> Some (budget_finish b steps))"

end
