(* ===== verification/DijkstraProofs.thy ===== *)
theory DijkstraProofs
  imports Dijkstra UnionFind NeighborWeights
begin

text \<open>
  Correctness of the weighted search: the invariant of the loop over the set of settled
  nodes, minimality of the popped cost, the parent chain and the properties of the entry
  points.
\<close>

section \<open>Walks\<close>

type_synonym weighted_source = "u32 \<Rightarrow> weighted_neighbor list graph_result"

definition weighted_link :: "path_env \<Rightarrow> weighted_neighbor \<Rightarrow> bool" where
  "weighted_link env e \<longleftrightarrow>
     allows_relationship (pe_scope env) (wn_type_id e) (wn_relationship_id e) = Inr True \<and>
     allows_node (pe_scope env) (wn_target e) \<and>
     (case pe_filter env of None \<Rightarrow> True | Some ids \<Rightarrow> wn_type_id e \<in> ids) \<and> live env (wn_target e)"

definition edges_of :: "weighted_source \<Rightarrow> u32 \<Rightarrow> weighted_neighbor set" where
  "edges_of source_of u = (case source_of u of Inl _ \<Rightarrow> {} | Inr es \<Rightarrow> set es)"

inductive weighted_walk :: "path_env \<Rightarrow> weighted_source \<Rightarrow> u32 \<Rightarrow> nat \<Rightarrow> u32 \<Rightarrow> bool"
  for env source_of u where
  start: "weighted_walk env source_of u 0 u"
| step: "weighted_walk env source_of u c v \<Longrightarrow> e \<in> edges_of source_of v \<Longrightarrow> weighted_link env e \<Longrightarrow>
    weighted_walk env source_of u (c + unat (wn_weight e)) (wn_target e)"

definition weighted_source_ok :: "path_env \<Rightarrow> weighted_source \<Rightarrow> bool" where
  "weighted_source_ok env source_of \<longleftrightarrow>
     (\<forall>u. \<exists>es. source_of u = Inr es \<and> (\<forall>e\<in>set es. unat (wn_target e) < path_nodes env))"

section \<open>Invariant\<close>

definition dist_of :: "dijkstra_state \<Rightarrow> u32 \<Rightarrow> u64" where
  "dist_of s v = dist s ! unat v"

definition paths_ok :: "path_env \<Rightarrow> weighted_source \<Rightarrow> u32 \<Rightarrow> u32 set \<Rightarrow> dijkstra_state \<Rightarrow> bool" where
  "paths_ok env src_of src D s \<longleftrightarrow>
     length (dist s) = path_nodes env \<and> unat src < path_nodes env \<and> dist_of s src = 0 \<and>
     (\<forall>v\<in>D. unat v < path_nodes env \<and> dist_of s v \<noteq> U64_MAX) \<and>
     (\<forall>v. unat v < path_nodes env \<longrightarrow> dist_of s v \<noteq> U64_MAX \<longrightarrow>
        weighted_walk env src_of src (unat (dist_of s v)) v) \<and>
     (\<forall>v. unat v < path_nodes env \<longrightarrow> dist_of s v \<noteq> U64_MAX \<longrightarrow> v \<noteq> src \<longrightarrow>
        (\<exists>p e. parent_of s v = Some p \<and> wp_parent p \<in> D \<and> e \<in> edges_of src_of (wp_parent p) \<and>
           weighted_link env e \<and> wn_target e = v \<and> wp_edge_type p = wn_type_id e \<and>
           wp_edge_weight p = wn_weight e \<and>
           unat (dist_of s v) = unat (dist_of s (wp_parent p)) + unat (wn_weight e))) \<and>
     (\<forall>v\<in>insert src D. \<exists>ns. weighted_nodes (parent_of s) src v = Some (Some ns) \<and> set ns \<subseteq> insert src D)"

lemma paths_ok_chain:
  "paths_ok env src_of src D s \<Longrightarrow> v \<in> insert src D \<Longrightarrow>
    \<exists>ns. weighted_nodes (parent_of s) src v = Some (Some ns) \<and> set ns \<subseteq> insert src D"
  unfolding paths_ok_def by (elim conjE) (rule bspec)

lemma paths_ok_parent:
  "paths_ok env src_of src D s \<Longrightarrow> unat v < path_nodes env \<Longrightarrow> dist_of s v \<noteq> U64_MAX \<Longrightarrow> v \<noteq> src \<Longrightarrow>
    \<exists>p e. parent_of s v = Some p \<and> wp_parent p \<in> D \<and> e \<in> edges_of src_of (wp_parent p) \<and>
           weighted_link env e \<and> wn_target e = v \<and> wp_edge_type p = wn_type_id e \<and>
           wp_edge_weight p = wn_weight e \<and>
           unat (dist_of s v) = unat (dist_of s (wp_parent p)) + unat (wn_weight e)"
  unfolding paths_ok_def by (elim conjE) simp

definition heap_ok :: "path_env \<Rightarrow> u32 set \<Rightarrow> dijkstra_state \<Rightarrow> bool" where
  "heap_ok env D s \<longleftrightarrow> sorted (heap s) \<and>
     (\<forall>(c, v)\<in>set (heap s). unat v < path_nodes env \<and> dist_of s v \<le> c \<and> c \<noteq> U64_MAX \<and>
        (\<forall>d\<in>D. dist_of s d \<le> c)) \<and>
     (\<forall>v. unat v < path_nodes env \<longrightarrow> dist_of s v \<noteq> U64_MAX \<longrightarrow> v \<notin> D \<longrightarrow> (dist_of s v, v) \<in> set (heap s))"

text \<open>The pairs of a settled node and an edge of it that have been relaxed.\<close>

definition relaxed_ok :: "path_env \<Rightarrow> (u32 \<times> weighted_neighbor) set \<Rightarrow> dijkstra_state \<Rightarrow> bool" where
  "relaxed_ok env X s \<longleftrightarrow>
     (\<forall>(v, e)\<in>X. weighted_link env e \<longrightarrow>
        unat (dist_of s v) + unat (wn_weight e) < unat U64_MAX \<longrightarrow>
        unat (dist_of s (wn_target e)) \<le> unat (dist_of s v) + unat (wn_weight e))"

lemma weighted_nodes_cong:
  "weighted_nodes P src v = Some (Some ns) \<Longrightarrow> (\<And>x. x \<in> set ns \<Longrightarrow> x \<noteq> src \<Longrightarrow> P' x = P x) \<Longrightarrow>
    weighted_nodes P' src v = Some (Some ns)"
proof (induction ns arbitrary: v)
  case Nil
  then show ?case
    by (subst (asm) weighted_nodes.simps)
      (auto split: if_splits option.splits Option.bind_splits)
next
  case (Cons x ns)
  show ?case
  proof (cases "v = src")
    case True
    with Cons.prems show ?thesis by (simp add: weighted_nodes.simps)
  next
    case False
    with Cons.prems(1) obtain st where st: "x = v" "P v = Some st"
      "weighted_nodes P src (wp_parent st) = Some (Some ns)"
      by (subst (asm) weighted_nodes.simps) (auto split: option.splits Option.bind_splits)
    then have "weighted_nodes P' src (wp_parent st) = Some (Some ns)"
      using Cons.IH Cons.prems(2) by auto
    moreover have "P' v = Some st" using Cons.prems(2) [of v] st False by simp
    ultimately show ?thesis using False st(1) by (simp add: weighted_nodes.simps [of P' src v])
  qed
qed

lemma weighted_nodes_step:
  assumes "v \<noteq> src" "P v = Some st" "weighted_nodes P src (wp_parent st) = Some (Some ns)"
  shows "weighted_nodes P src v = Some (Some (v # ns))"
  using assms by (simp add: weighted_nodes.simps [of P src v])

lemma dist_of_update:
  "unat x < length (dist s) \<Longrightarrow>
    dist_of (s\<lparr>dist := (dist s)[unat x := c], parent_of := p, heap := h, budget := b\<rparr>) v =
    (if v = x then c else dist_of s v)"
  by (auto simp: dist_of_def nth_list_update word_unat_eq_iff)

lemma U64_MAX_greatest: "c \<le> U64_MAX"
  by (simp add: U64_MAX_def)

section \<open>One relaxation\<close>

text \<open>The state after an improvement, and what it keeps.\<close>

definition improved :: "u32 \<Rightarrow> weighted_neighbor \<Rightarrow> u64 \<Rightarrow> dijkstra_state \<Rightarrow> dijkstra_state" where
  "improved current e c s =
     s\<lparr>dist := (dist s)[unat (wn_target e) := c],
       parent_of := (parent_of s)(wn_target e \<mapsto>
         \<lparr>wp_parent = current, wp_edge_type = wn_type_id e, wp_edge_weight = wn_weight e\<rparr>),
       heap := heap_push (c, wn_target e) (heap s)\<rparr>"

lemma dist_of_improved:
  "unat (wn_target e) < length (dist s) \<Longrightarrow>
    dist_of (improved cur e c s) v = (if v = wn_target e then c else dist_of s v)"
  by (auto simp: improved_def dist_of_def nth_list_update word_unat_eq_iff)

definition mid_ok ::
  "path_env \<Rightarrow> weighted_source \<Rightarrow> u32 \<Rightarrow> u32 \<Rightarrow> u32 set \<Rightarrow> (u32 \<times> weighted_neighbor) set \<Rightarrow> dijkstra_state \<Rightarrow> bool"
where
  "mid_ok env src_of src cur D X s \<longleftrightarrow>
     paths_ok env src_of src D s \<and> heap_ok env D s \<and> relaxed_ok env X s \<and> fst ` X \<subseteq> D \<and> cur \<in> D \<and>
     (\<forall>d\<in>D. dist_of s d \<le> dist_of s cur)"

lemma improved_ok:
  assumes mid: "mid_ok env src_of src cur D X s" and e: "e \<in> edges_of src_of cur" "weighted_link env e"
    and t: "unat (wn_target e) < path_nodes env"
    and c: "unat c = unat (dist_of s cur) + unat (wn_weight e)" "c < dist_of s (wn_target e)"
  shows "mid_ok env src_of src cur D (insert (cur, e) X) (improved cur e c s)"
proof -
  let ?x = "wn_target e" and ?s = "improved cur e c s"
  note p = mid [unfolded mid_ok_def]
  have len: "length (dist s) = path_nodes env" using p by (simp add: paths_ok_def)
  have d: "dist_of ?s v = (if v = ?x then c else dist_of s v)" for v
    using dist_of_improved t len by simp
  have cle: "dist_of s cur \<le> c" using c(1) by (simp add: word_le_nat_alt)
  have xD: "?x \<notin> D" using p c(2) cle by (metis leD order_trans)
  have "dist_of s src = 0" using p by (simp add: paths_ok_def)
  with c(2) have xs: "?x \<noteq> src" by (metis word_not_simps(1))
  have cm: "c \<noteq> U64_MAX" using c(2) U64_MAX_greatest [of "dist_of s ?x"] by (metis leD)
  have cur: "cur \<in> D" "?x \<noteq> cur" "dist_of s cur \<noteq> U64_MAX" using p xD by (auto simp: paths_ok_def)
  have walk: "weighted_walk env src_of src (unat c) ?x"
    unfolding c(1) using p cur e by (intro weighted_walk.step) (auto simp: paths_ok_def)
  have chain: "\<exists>ns. weighted_nodes (parent_of ?s) src v = Some (Some ns) \<and> set ns \<subseteq> insert src D"
    if v: "v \<in> insert src D" for v
  proof -
    obtain ns where ns: "weighted_nodes (parent_of s) src v = Some (Some ns)" "set ns \<subseteq> insert src D"
      using paths_ok_chain [OF conjunct1 [OF p] v] by (elim exE conjE)
    have "weighted_nodes (parent_of ?s) src v = Some (Some ns)"
      by (rule weighted_nodes_cong [OF ns(1)]) (use ns(2) xD xs in \<open>auto simp: improved_def\<close>)
    with ns(2) show ?thesis by blast
  qed
  have parents: "\<exists>p e'. parent_of ?s v = Some p \<and> wp_parent p \<in> D \<and> e' \<in> edges_of src_of (wp_parent p) \<and>
           weighted_link env e' \<and> wn_target e' = v \<and> wp_edge_type p = wn_type_id e' \<and>
           wp_edge_weight p = wn_weight e' \<and>
           unat (dist_of ?s v) = unat (dist_of ?s (wp_parent p)) + unat (wn_weight e')"
    if v: "unat v < path_nodes env" "dist_of ?s v \<noteq> U64_MAX" "v \<noteq> src" for v
  proof (cases "v = ?x")
    case True
    show ?thesis
      using True e cur c(1) d
      by (intro exI [of _ "\<lparr>wp_parent = cur, wp_edge_type = wn_type_id e, wp_edge_weight = wn_weight e\<rparr>"]
          exI [of _ e]) (simp add: improved_def)
  next
    case False
    with v d have "dist_of s v \<noteq> U64_MAX" by simp
    with paths_ok_parent [OF conjunct1 [OF p] v(1) _ v(3)] obtain q e' where q: "parent_of s v = Some q" "wp_parent q \<in> D"
      "e' \<in> edges_of src_of (wp_parent q)" "weighted_link env e'" "wn_target e' = v"
      "wp_edge_type q = wn_type_id e'" "wp_edge_weight q = wn_weight e'"
      "unat (dist_of s v) = unat (dist_of s (wp_parent q)) + unat (wn_weight e')"
      by blast
    have "parent_of ?s v = Some q" using q(1) False by (simp add: improved_def)
    moreover have "dist_of ?s (wp_parent q) = dist_of s (wp_parent q)" using d q(2) xD by auto
    ultimately show ?thesis using q False d by (intro exI [of _ q] exI [of _ e']) simp
  qed
  have "paths_ok env src_of src D ?s"
    unfolding paths_ok_def
  proof (intro conjI)
    show "length (dist ?s) = path_nodes env" using len by (simp add: improved_def)
    show "unat src < path_nodes env" using p by (simp add: paths_ok_def)
    show "dist_of ?s src = 0" using p xs d by (simp add: paths_ok_def)
    show "\<forall>v\<in>D. unat v < path_nodes env \<and> dist_of ?s v \<noteq> U64_MAX"
      using p xD d cm by (auto simp: paths_ok_def)
    show "\<forall>v. unat v < path_nodes env \<longrightarrow> dist_of ?s v \<noteq> U64_MAX \<longrightarrow>
        weighted_walk env src_of src (unat (dist_of ?s v)) v"
      using p walk d by (auto simp: paths_ok_def)
  qed (use parents chain in blast)+
  moreover have "heap_ok env D ?s"
  proof -
    have h: "heap ?s = insort (c, ?x) (heap s)" by (simp add: improved_def heap_push_def)
    have 1: "sorted (heap ?s)" using p by (simp add: h heap_ok_def sorted_insort)
    have 2: "unat v < path_nodes env \<and> dist_of ?s v \<le> k \<and> k \<noteq> U64_MAX \<and> (\<forall>a\<in>D. dist_of ?s a \<le> k)"
      if "(k, v) \<in> set (heap ?s)" for k v
    proof (cases "(k, v) = (c, ?x)")
      case True
      with t cm d xD p cle show ?thesis by (auto intro: order_trans)
    next
      case False
      with that have "(k, v) \<in> set (heap s)" by (auto simp: h set_insort_key)
      with p have old: "unat v < path_nodes env" "dist_of s v \<le> k" "k \<noteq> U64_MAX" "\<forall>a\<in>D. dist_of s a \<le> k"
        by (auto simp: heap_ok_def)
      moreover have "dist_of ?s v \<le> k" using old(2) d c(2) by auto
      ultimately show ?thesis using d xD by auto
    qed
    have 3: "(dist_of ?s v, v) \<in> set (heap ?s)"
      if "unat v < path_nodes env" "dist_of ?s v \<noteq> U64_MAX" "v \<notin> D" for v
      using that p d by (auto simp: h heap_ok_def set_insort_key)
    show ?thesis unfolding heap_ok_def using 1 2 3 by auto
  qed
  moreover have "relaxed_ok env (insert (cur, e) X) ?s"
    unfolding relaxed_ok_def
  proof (intro ballI, clarify)
    fix v f
    assume vf: "(v, f) \<in> insert (cur, e) X" "weighted_link env f"
      and lt: "unat (dist_of ?s v) + unat (wn_weight f) < unat U64_MAX"
    have v: "v \<in> D" using vf(1) p cur by force
    then have dv: "dist_of ?s v = dist_of s v" using xD d by auto
    show "unat (dist_of ?s (wn_target f)) \<le> unat (dist_of ?s v) + unat (wn_weight f)"
    proof (cases "(v, f) = (cur, e)")
      case True
      with c(1) dv d show ?thesis by simp
    next
      case False
      with vf(1) have "(v, f) \<in> X" by blast
      then have "unat (dist_of s (wn_target f)) \<le> unat (dist_of s v) + unat (wn_weight f)"
        using p vf(2) lt dv unfolding relaxed_ok_def by fastforce
      moreover have "unat (dist_of ?s (wn_target f)) \<le> unat (dist_of s (wn_target f))"
        using c(2) d by (auto simp: word_less_nat_alt)
      ultimately show ?thesis using dv by simp
    qed
  qed
  ultimately show ?thesis
    using p cur xD d cle by (auto simp: mid_ok_def)
qed

text \<open>Skipping an edge that cannot improve its target.\<close>

lemma skipped_ok:
  assumes mid: "mid_ok env src_of src cur D X s"
    and skip: "weighted_link env e \<Longrightarrow>
      unat (dist_of s cur) + unat (wn_weight e) < unat U64_MAX \<Longrightarrow>
      unat (dist_of s (wn_target e)) \<le> unat (dist_of s cur) + unat (wn_weight e)"
  shows "mid_ok env src_of src cur D (insert (cur, e) X) s"
  using mid skip by (auto simp: mid_ok_def relaxed_ok_def)

lemma mid_ok_budget [simp]:
  "mid_ok env src_of src cur D X (s\<lparr>budget := b\<rparr>) = mid_ok env src_of src cur D X s"
  by (simp add: mid_ok_def paths_ok_def heap_ok_def relaxed_ok_def dist_of_def)

lemma weighted_visible_step:
  assumes "path_weighted_candidate_visible env b e = (seen, b')" "budget_ok b"
  shows "budget_step b b' \<and>
    (seen \<longleftrightarrow> allows_relationship (pe_scope env) (wn_type_id e) (wn_relationship_id e) = Inr True \<and>
      allows_node (pe_scope env) (wn_target e))"
  using assms note_error_cases [of "pe_scope env" "wn_type_id e" "wn_relationship_id e" _ b]
  by (auto simp: path_weighted_candidate_visible_def budget_step_def split: sum.splits)

definition loop_step :: "dijkstra_state \<Rightarrow> bool \<Rightarrow> dijkstra_state \<Rightarrow> bool" where
  "loop_step s go t \<longleftrightarrow> budget_ok (budget t) \<and> budget_step (budget s) (budget t) \<and> (\<not> go \<longrightarrow> failed (budget t))"

lemma u64_of_weight [simp]: "unat (ucast (w :: u32) :: u64) = unat w"
proof -
  have "unat w < 2 ^ 64" using unat_u32_less [of w] by simp
  then show ?thesis by (simp add: unsigned_ucast_eq take_bit_nat_eq_self)
qed

lemma unat_U64_MAX: "unat U64_MAX = 18446744073709551615"
  by (simp add: U64_MAX_def unsigned_minus_1_eq_mask mask_eq_exp_minus_1)

lemma relax_ok:
  assumes nodes: "backing_ok (backing (pe_nodes env))"
    and mid: "mid_ok env src_of src cur D X s" and b: "budget_ok (budget s)"
    and e: "e \<in> edges_of src_of cur" and t: "unat (wn_target e) < path_nodes env"
  shows "\<exists>go s'. relax env (dist_of s cur) cur e s = Inr (go, s') \<and> loop_step s go s' \<and>
    (go \<longrightarrow> mid_ok env src_of src cur D (insert (cur, e) X) s' \<and> dist_of s' cur = dist_of s cur)"
proof -
  obtain go b1 where c: "consume_path_work env (budget s) = (go, b1)" by fastforce
  note c' = consume_step [OF c b]
  show ?thesis
  proof (cases go)
    case False
    with c c' b show ?thesis by (auto simp: relax_def loop_step_def budget_step_def)
  next
    case go: True
    let ?s1 = "s\<lparr>budget := b1\<rparr>"
    have b1: "budget_ok b1" using c' b by (simp add: budget_step_def)
    obtain seen b2 where v: "path_weighted_candidate_visible env b1 e = (seen, b2)" by fastforce
    note v' = weighted_visible_step [OF v b1]
    let ?s2 = "s\<lparr>budget := b2\<rparr>"
    have ls: "loop_step s True (r\<lparr>budget := b2\<rparr>)" for r :: dijkstra_state
      using c' v' b1 budget_step_trans [of "budget s" b1 b2] by (auto simp: loop_step_def budget_step_def)
    have mid2: "mid_ok env src_of src cur D X ?s2" using mid by simp
    have keep: ?thesis if r: "relax env (dist_of s cur) cur e s = Inr (True, ?s2)"
      and skip: "weighted_link env e \<Longrightarrow>
        unat (dist_of s cur) + unat (wn_weight e) < unat U64_MAX \<Longrightarrow>
        unat (dist_of s (wn_target e)) \<le> unat (dist_of s cur) + unat (wn_weight e)"
      using r ls [of s] skipped_ok [OF mid2, of e] skip by (auto simp: dist_of_def)
    have relax: "relax env (dist_of s cur) cur e s =
      (if \<not> seen \<or> (case pe_filter env of None \<Rightarrow> False | Some ids \<Rightarrow> wn_type_id e \<notin> ids) then Inr (True, ?s2)
       else (case checked_add_u64 (dist_of s cur) (ucast (wn_weight e)) of
             None \<Rightarrow> Inr (True, ?s2)
           | Some c \<Rightarrow>
               if \<not> c < dist_of s (wn_target e) \<or> \<not> live env (wn_target e) then Inr (True, ?s2)
               else Inr (True, improved cur e c ?s2)))"
      using mid t live_node_eq [OF nodes] go
      by (auto simp: relax_def c v Let_def mid_ok_def paths_ok_def improved_def dist_of_def split: option.splits)
    show ?thesis
    proof (cases "seen \<and> (case pe_filter env of None \<Rightarrow> True | Some ids \<Rightarrow> wn_type_id e \<in> ids)")
      case False
      show ?thesis
        by (rule keep) (use False relax v' in \<open>auto simp: weighted_link_def split: option.splits\<close>)
    next
      case True
      then have not_filtered: "\<not> (\<not> seen \<or> (case pe_filter env of None \<Rightarrow> False | Some ids \<Rightarrow> wn_type_id e \<notin> ids))"
        by (auto split: option.splits)
      show ?thesis
      proof (cases "checked_add_u64 (dist_of s cur) (ucast (wn_weight e))")
        case None
        show ?thesis
          by (rule keep) (use None relax not_filtered in \<open>auto simp: checked_add_u64_def unat_U64_MAX split: if_splits\<close>)
      next
        case (Some c)
        have c: "unat c = unat (dist_of s cur) + unat (wn_weight e)"
          using conjunct2 [OF checked_add_u64_Some [OF Some]] by (simp only: u64_of_weight)
        show ?thesis
        proof (cases "\<not> c < dist_of s (wn_target e) \<or> \<not> live env (wn_target e)")
          case skip: True
          show ?thesis
            by (rule keep) (use skip relax not_filtered Some c in
                \<open>auto simp: weighted_link_def word_less_nat_alt\<close>)
        next
          case better: False
          have link: "weighted_link env e"
            using True better v' by (auto simp: weighted_link_def split: option.splits)
          have d2: "dist_of ?s2 = dist_of s" by (simp add: dist_of_def fun_eq_iff)
          have imp: "mid_ok env src_of src cur D (insert (cur, e) X) (improved cur e c ?s2)"
            using better c d2 by (intro improved_ok [OF mid2 e link t]) auto
          have "cur \<noteq> wn_target e"
            using better c by (auto simp: word_less_nat_alt)
          then have "dist_of (improved cur e c ?s2) cur = dist_of s cur"
            using dist_of_improved [of e ?s2 cur c cur] t mid d2 by (simp add: mid_ok_def paths_ok_def)
          moreover have "improved cur e c ?s2 = (improved cur e c s)\<lparr>budget := b2\<rparr>" by (simp add: improved_def)
          ultimately show ?thesis using relax not_filtered Some better imp ls [of "improved cur e c s"] by auto
        qed
      qed
    qed
  qed
qed

lemma relax_all_ok:
  assumes nodes: "backing_ok (backing (pe_nodes env))"
    and es: "set es \<subseteq> edges_of src_of cur" "\<forall>e\<in>set es. unat (wn_target e) < path_nodes env"
    and mid: "mid_ok env src_of src cur D X s" and b: "budget_ok (budget s)"
  shows "\<exists>go s'. relax_all env (dist_of s cur) cur es s = Inr (go, s') \<and> loop_step s go s' \<and>
    (go \<longrightarrow> mid_ok env src_of src cur D (X \<union> {cur} \<times> set es) s')"
  using es mid b
proof (induction es arbitrary: s X)
  case Nil
  then show ?case by (auto simp: loop_step_def)
next
  case (Cons e es)
  obtain go s1 where 1: "relax env (dist_of s cur) cur e s = Inr (go, s1)" "loop_step s go s1"
    "go \<longrightarrow> mid_ok env src_of src cur D (insert (cur, e) X) s1 \<and> dist_of s1 cur = dist_of s cur"
    using relax_ok [OF nodes Cons.prems(3,4), of e] Cons.prems(1,2) by auto
  show ?case
  proof (cases go)
    case False
    with 1 show ?thesis by auto
  next
    case True
    have b1: "budget_ok (budget s1)" using 1(2) by (simp add: loop_step_def)
    obtain go' s2 where 2: "relax_all env (dist_of s1 cur) cur es s1 = Inr (go', s2)" "loop_step s1 go' s2"
      "go' \<longrightarrow> mid_ok env src_of src cur D (insert (cur, e) X \<union> {cur} \<times> set es) s2"
      using Cons.IH [of "insert (cur, e) X" s1] Cons.prems 1(3) True b1 by auto
    have "X \<union> {cur} \<times> set (e # es) = insert (cur, e) X \<union> {cur} \<times> set es" by auto
    with 1 2 True show ?thesis
      by (auto simp: loop_step_def intro: budget_step_trans)
  qed
qed

section \<open>The loop\<close>

definition expanded :: "weighted_source \<Rightarrow> u32 set \<Rightarrow> (u32 \<times> weighted_neighbor) set" where
  "expanded src_of D = (SIGMA v:D. edges_of src_of v)"

definition search_ok :: "path_env \<Rightarrow> weighted_source \<Rightarrow> u32 \<Rightarrow> u32 set \<Rightarrow> dijkstra_state \<Rightarrow> bool" where
  "search_ok env src_of src D s \<longleftrightarrow>
     paths_ok env src_of src D s \<and> heap_ok env D s \<and> relaxed_ok env (expanded src_of D) s"

lemma zero_U64_MAX: "0 \<noteq> U64_MAX"
  using unat_U64_MAX by auto

text \<open>
  The main lemma: every walk below the sentinel either ends in a settled node that is at least
  as near, or leaves the settled nodes over a heap entry that is at least as cheap.
\<close>

lemma walk_frontier:
  assumes ok: "search_ok env src_of src D s" and walk: "weighted_walk env src_of src c v"
    and c: "c < unat U64_MAX"
  shows "(v \<in> D \<and> unat (dist_of s v) \<le> c) \<or> (\<exists>(k, x)\<in>set (heap s). x \<notin> D \<and> unat k \<le> c)"
  using walk c
proof (induction rule: weighted_walk.induct)
  case start
  have z: "dist_of s src = 0" "unat src < path_nodes env" using ok by (auto simp: search_ok_def paths_ok_def)
  show ?case
  proof (cases "src \<in> D")
    case False
    with z zero_U64_MAX ok have "(0, src) \<in> set (heap s)" by (auto simp: search_ok_def heap_ok_def)
    with False show ?thesis by (intro disjI2 bexI [of _ "(0, src)"]) auto
  qed (use z in simp)
next
  case (step c v e)
  from step.IH step.prems consider
    (settled) "v \<in> D" "unat (dist_of s v) \<le> c" | (heap) k x where "(k, x) \<in> set (heap s)" "x \<notin> D" "unat k \<le> c"
    by fastforce
  then show ?case
  proof cases
    case settled
    have "unat (dist_of s (wn_target e)) \<le> unat (dist_of s v) + unat (wn_weight e)"
      using ok settled step.hyps step.prems
      by (auto simp: search_ok_def relaxed_ok_def expanded_def)
    with settled have le: "unat (dist_of s (wn_target e)) \<le> c + unat (wn_weight e)" by simp
    show ?thesis
    proof (cases "wn_target e \<in> D")
      case False
      have "unat (wn_target e) < path_nodes env" using step.hyps(3) by (simp add: weighted_link_def live_def)
      moreover have "dist_of s (wn_target e) \<noteq> U64_MAX" using le step.prems by auto
      ultimately have "(dist_of s (wn_target e), wn_target e) \<in> set (heap s)"
        using ok False by (simp add: search_ok_def heap_ok_def)
      with False le show ?thesis by force
    qed (use le in simp)
  next
    case heap
    then show ?thesis by (intro disjI2 bexI [of _ "(k, x)"]) auto
  qed
qed

text \<open>What holds of the final state: distance of the goal minimal, and its parents usable.\<close>

definition goal_ok :: "path_env \<Rightarrow> weighted_source \<Rightarrow> u32 \<Rightarrow> u32 \<Rightarrow> dijkstra_state \<Rightarrow> bool" where
  "goal_ok env src_of src goal t \<longleftrightarrow>
     (\<exists>D. paths_ok env src_of src D t) \<and>
     (\<forall>c. weighted_walk env src_of src c goal \<longrightarrow> unat (dist_of t goal) \<le> c)"

lemma goal_popped:
  assumes ok: "search_ok env src_of src D s" and goal: "goal \<notin> D" and h: "heap s = (cost, goal) # rest"
  shows "goal_ok env src_of src goal (s\<lparr>heap := rest\<rparr>)"
proof -
  have p: "paths_ok env src_of src D (s\<lparr>heap := rest\<rparr>)"
    using ok by (simp add: search_ok_def paths_ok_def dist_of_def)
  have s: "sorted (heap s)" and le: "dist_of s goal \<le> cost"
    using ok h by (auto simp: search_ok_def heap_ok_def)
  have "unat (dist_of s goal) \<le> c" if w: "weighted_walk env src_of src c goal" for c
  proof (cases "c < unat U64_MAX")
    case True
    from walk_frontier [OF ok w True] goal
    obtain k x where kx: "(k, x) \<in> set (heap s)" "unat k \<le> c" by auto
    have "cost \<le> k" using s kx(1) by (auto simp: h less_eq_prod_def)
    with le kx(2) show ?thesis by (auto simp: word_le_nat_alt)
  next
    case False
    with U64_MAX_greatest [of "dist_of s goal"] show ?thesis by (simp add: word_le_nat_alt)
  qed
  with p show ?thesis by (auto simp: goal_ok_def dist_of_def)
qed

lemma goal_exhausted:
  assumes ok: "search_ok env src_of src D s" and goal: "goal \<notin> D" and h: "heap s = []"
  shows "goal_ok env src_of src goal s"
proof -
  have "unat (dist_of s goal) \<le> c" if w: "weighted_walk env src_of src c goal" for c
    using walk_frontier [OF ok w] goal h U64_MAX_greatest [of "dist_of s goal"]
    by (cases "c < unat U64_MAX") (auto simp: word_le_nat_alt)
  with ok show ?thesis by (auto simp: goal_ok_def search_ok_def)
qed

lemma stale_ok:
  assumes ok: "search_ok env src_of src D s" and h: "heap s = (cost, cur) # rest"
    and stale: "dist_of s cur < cost"
  shows "search_ok env src_of src D (s\<lparr>heap := rest\<rparr>)"
proof -
  have "heap_ok env D (s\<lparr>heap := rest\<rparr>)"
    using ok h stale by (auto simp: search_ok_def heap_ok_def dist_of_def)
  with ok show ?thesis by (simp add: search_ok_def paths_ok_def relaxed_ok_def dist_of_def)
qed

lemma settle_ok:
  assumes ok: "search_ok env src_of src D s" and h: "heap s = (cost, cur) # rest"
    and fresh: "\<not> dist_of s cur < cost"
  shows "mid_ok env src_of src cur (insert cur D) (expanded src_of D) (s\<lparr>heap := rest\<rparr>)"
    "cost = dist_of s cur"
proof -
  let ?s = "s\<lparr>heap := rest\<rparr>" and ?D = "insert cur D"
  have p: "paths_ok env src_of src D s" and hp: "heap_ok env D s" and r: "relaxed_ok env (expanded src_of D) s"
    using ok by (auto simp: search_ok_def)
  have entry: "unat cur < path_nodes env" "dist_of s cur \<le> cost" "cost \<noteq> U64_MAX" "\<forall>d\<in>D. dist_of s d \<le> cost"
    using hp h by (auto simp: heap_ok_def)
  show cost: "cost = dist_of s cur" using entry(2) fresh by simp
  have ds: "dist_of ?s = dist_of s" by (simp add: dist_of_def fun_eq_iff)
  have chain: "\<exists>ns. weighted_nodes (parent_of s) src v = Some (Some ns) \<and> set ns \<subseteq> insert src ?D"
    if v: "v \<in> insert src ?D" for v
  proof (cases "v \<in> insert src D")
    case True
    from paths_ok_chain [OF p True] show ?thesis by blast
  next
    case False
    with v have cur: "v = cur" "cur \<noteq> src" by auto
    have "dist_of s cur \<noteq> U64_MAX" using cost entry(3) by simp
    from paths_ok_parent [OF p entry(1) this cur(2)] obtain q where
      q: "parent_of s cur = Some q" "wp_parent q \<in> D" by blast
    obtain ns where ns: "weighted_nodes (parent_of s) src (wp_parent q) = Some (Some ns)"
      "set ns \<subseteq> insert src D" using paths_ok_chain [OF p, of "wp_parent q"] q(2) by blast
    have "weighted_nodes (parent_of s) src cur = Some (Some (cur # ns))"
      by (rule weighted_nodes_step [of cur src "parent_of s" q ns]) (use cur(2) q(1) ns(1) in simp_all)
    with ns(2) cur(1) show ?thesis by auto
  qed
  have "paths_ok env src_of src ?D ?s"
    unfolding paths_ok_def ds
  proof (intro conjI)
    show "\<forall>v. unat v < path_nodes env \<longrightarrow> dist_of s v \<noteq> U64_MAX \<longrightarrow> v \<noteq> src \<longrightarrow>
        (\<exists>p e. parent_of ?s v = Some p \<and> wp_parent p \<in> ?D \<and> e \<in> edges_of src_of (wp_parent p) \<and>
           weighted_link env e \<and> wn_target e = v \<and> wp_edge_type p = wn_type_id e \<and>
           wp_edge_weight p = wn_weight e \<and>
           unat (dist_of s v) = unat (dist_of s (wp_parent p)) + unat (wn_weight e))"
    proof (intro allI impI)
      fix v
      assume v: "unat v < path_nodes env" "dist_of s v \<noteq> U64_MAX" "v \<noteq> src"
      from paths_ok_parent [OF p v] show "\<exists>p e. parent_of ?s v = Some p \<and> wp_parent p \<in> ?D \<and>
           e \<in> edges_of src_of (wp_parent p) \<and>
           weighted_link env e \<and> wn_target e = v \<and> wp_edge_type p = wn_type_id e \<and>
           wp_edge_weight p = wn_weight e \<and>
           unat (dist_of s v) = unat (dist_of s (wp_parent p)) + unat (wn_weight e)" by auto
    qed
    show "\<forall>v\<in>insert src ?D. \<exists>ns. weighted_nodes (parent_of ?s) src v = Some (Some ns) \<and> set ns \<subseteq> insert src ?D"
      using chain by simp
  qed (use p entry cost in \<open>auto simp: paths_ok_def\<close>)
  moreover have "heap_ok env ?D ?s"
    using hp h cost unfolding heap_ok_def ds by (auto simp: less_eq_prod_def)
  moreover have "relaxed_ok env (expanded src_of D) ?s" using r by (simp add: relaxed_ok_def ds)
  ultimately show "mid_ok env src_of src cur ?D (expanded src_of D) ?s"
    using entry(4) cost by (auto simp: mid_ok_def ds expanded_def)
qed

lemma dijkstra_loop_ok:
  assumes "backing_ok (backing (pe_nodes env))" "weighted_source_ok env src_of"
    "search_ok env src_of src D s" "goal \<notin> D" "budget_ok (budget s)"
  shows "\<exists>go t. dijkstra_loop env src_of goal s = Inr (go, t) \<and> loop_step s go t \<and>
    (go \<longrightarrow> goal_ok env src_of src goal t)"
  using assms
proof (induction env src_of goal s arbitrary: D rule: dijkstra_loop.induct)
  case (1 env src_of goal s)
  note IH = "1.IH"
  note nodes = "1.prems"(1) and src_ok = "1.prems"(2) and ok = "1.prems"(3) and goal = "1.prems"(4) and b = "1.prems"(5)
  show ?case
  proof (cases "heap s")
    case Nil
    from goal_exhausted [OF ok goal Nil] show ?thesis
      using Nil b by (intro exI [of _ True] exI [of _ s])
        (simp add: dijkstra_loop.simps [of env src_of goal s] loop_step_def)
  next
    case (Cons entry rest)
    obtain cost cur where "entry = (cost, cur)" by fastforce
    note h = Cons [unfolded this]
    let ?s = "s\<lparr>heap := rest\<rparr>"
    note simps = dijkstra_loop.simps [of env src_of goal s] h
    have in_range: "unat cur < length (dist s)"
      using ok h by (auto simp: search_ok_def heap_ok_def paths_ok_def)
    have ixs: "index_r (dist s) (unat cur) = (Inr (dist_of s cur) :: u64 graph_result)"
      using in_range by (simp add: dist_of_def)
    show ?thesis
    proof (cases "cur = goal")
      case True
      from goal_popped [OF ok goal h [unfolded True]] show ?thesis
        using True b by (intro exI [of _ True] exI [of _ ?s]) (simp add: simps loop_step_def)
    next
      case False
      show ?thesis
      proof (cases "dist_of s cur < cost")
        case stale: True
        have ix: "index_r (dist ?s) (unat cur) = (Inr (dist_of s cur) :: u64 graph_result)" using in_range by (simp add: dist_of_def)
        have "\<exists>go t. dijkstra_loop env src_of goal ?s = Inr (go, t) \<and> loop_step ?s go t \<and>
            (go \<longrightarrow> goal_ok env src_of src goal t)"
          by (rule IH(1) [OF h refl refl False ix stale nodes src_ok stale_ok [OF ok h stale] goal])
            (use b in simp)
        with False stale show ?thesis by (auto simp: simps ixs loop_step_def Let_def)
      next
        case fresh: False
        note settled = settle_ok [OF ok h fresh]
        have ix: "index_r (dist ?s) (unat cur) = (Inr cost :: u64 graph_result)" using in_range settled(2) by (simp add: dist_of_def)
        obtain es where es: "src_of cur = Inr es" "\<forall>e\<in>set es. unat (wn_target e) < path_nodes env"
          using src_ok by (auto simp: weighted_source_ok_def)
        have sub: "set es \<subseteq> edges_of src_of cur" using es(1) by (simp add: edges_of_def)
        have cost: "cost = dist_of ?s cur" using settled(2) by (simp add: dist_of_def)
        obtain go t where t: "relax_all env cost cur es ?s = Inr (go, t)" "loop_step ?s go t"
          "go \<longrightarrow> mid_ok env src_of src cur (insert cur D) (expanded src_of D \<union> {cur} \<times> set es) t"
          using relax_all_ok [OF nodes sub es(2) settled(1)] b unfolding cost by auto
        show ?thesis
        proof (cases go)
          case False
          with t \<open>cur \<noteq> goal\<close> fresh settled(2) es(1) show ?thesis by (auto simp: simps ixs loop_step_def Let_def)
        next
          case True
          have "expanded src_of D \<union> {cur} \<times> set es = expanded src_of (insert cur D)"
            using es(1) by (auto simp: expanded_def edges_of_def)
          with t(3) True have ok': "search_ok env src_of src (insert cur D) t"
            by (simp add: mid_ok_def search_ok_def)
          have goal': "goal \<notin> insert cur D" using goal False by simp
          have b': "budget_ok (budget t)" using t(2) by (simp add: loop_step_def)
          have "\<exists>go u. dijkstra_loop env src_of goal t = Inr (go, u) \<and> loop_step t go u \<and>
              (go \<longrightarrow> goal_ok env src_of src goal u)"
            by (rule IH(2) [OF h refl refl False ix _ es(1) t(1) refl True nodes src_ok ok' goal' b']) simp
          then obtain go' u where u: "dijkstra_loop env src_of goal t = Inr (go', u)" "loop_step t go' u"
            "go' \<longrightarrow> goal_ok env src_of src goal u" by blast
          have "loop_step s go' u"
            using t(2) u(2) by (auto simp: loop_step_def intro: budget_step_trans)
          with u t(1) True False fresh settled(2) es(1) show ?thesis by (simp add: simps ixs Let_def)
        qed
      qed
    qed
  qed
qed

section \<open>Start and end of a search\<close>

lemma unat_eq_word: "unat (w :: 'a :: len word) = k \<Longrightarrow> w = word_of_nat k"
  by auto

lemma initial_search_ok:
  assumes "unat src < path_nodes env"
  shows "\<exists>s. initial_search (path_nodes env) src b = Inr s \<and> search_ok env src_of src {} s \<and> budget s = b"
proof -
  let ?d = "(replicate (path_nodes env) U64_MAX)[unat src := 0]"
  let ?s = "\<lparr>dist = ?d, parent_of = [src \<mapsto> \<lparr>wp_parent = src, wp_edge_type = UNTYPED, wp_edge_weight = 0\<rparr>],
         heap = [(0, src)], budget = b\<rparr>"
  have d: "dist_of ?s v = (if v = src then 0 else U64_MAX)" if "unat v < path_nodes env" for v
    using that assms by (auto simp: dist_of_def nth_list_update word_unat_eq_iff)
  have "paths_ok env src_of src {} ?s"
    using assms d zero_U64_MAX
    by (auto simp: paths_ok_def weighted_nodes.simps split: if_splits intro: weighted_walk.start)
  moreover have "heap_ok env {} ?s" using assms d zero_U64_MAX by (auto simp: heap_ok_def split: if_splits)
  moreover have "relaxed_ok env (expanded src_of {}) ?s" by (simp add: relaxed_ok_def expanded_def)
  ultimately show ?thesis using assms by (simp add: initial_search_def search_ok_def)
qed

definition costs :: "weighted_neighbor list \<Rightarrow> nat" where
  "costs es = (\<Sum>e\<leftarrow>es. unat (wn_weight e))"

definition route ::
  "path_env \<Rightarrow> weighted_source \<Rightarrow> u32 \<Rightarrow> u32 list \<Rightarrow> weighted_neighbor list \<Rightarrow> bool" where
  "route env src_of src ns es \<longleftrightarrow>
     length ns = Suc (length es) \<and> ns ! 0 = src \<and>
     (\<forall>i<length es. es ! i \<in> edges_of src_of (ns ! i) \<and> weighted_link env (es ! i) \<and>
        wn_target (es ! i) = ns ! Suc i)"

definition recorded :: "path_env \<Rightarrow> dijkstra_state \<Rightarrow> u32 list \<Rightarrow> weighted_neighbor list \<Rightarrow> bool" where
  "recorded env s ns es \<longleftrightarrow>
     (\<forall>i<length ns. unat (ns ! i) < path_nodes env \<and> unat (dist_of s (ns ! i)) = costs (take i es)) \<and>
     (\<forall>i<length es. \<exists>p. parent_of s (ns ! Suc i) = Some p \<and> wp_edge_type p = wn_type_id (es ! i) \<and>
        wp_edge_weight p = wn_weight (es ! i))"

lemma chain_route:
  assumes p: "paths_ok env src_of src D s"
  shows "weighted_nodes (parent_of s) src v = Some (Some bs) \<Longrightarrow> unat v < path_nodes env \<Longrightarrow>
    dist_of s v \<noteq> U64_MAX \<Longrightarrow>
    \<exists>es. route env src_of src (rev bs) es \<and> recorded env s (rev bs) es \<and> last (rev bs) = v"
proof (induction bs arbitrary: v)
  case Nil
  then show ?case
    by (subst (asm) weighted_nodes.simps) (auto split: if_splits option.splits Option.bind_splits)
next
  case (Cons x bs)
  show ?case
  proof (cases "v = src")
    case True
    with Cons.prems(1) have "x = src" "bs = []" by (auto simp: weighted_nodes.simps)
    moreover have "dist_of s src = 0" using p by (simp add: paths_ok_def)
    ultimately show ?thesis using Cons.prems(2) True
      by (intro exI [of _ "[]"]) (simp add: route_def recorded_def costs_def)
  next
    case False
    obtain q e where q: "parent_of s v = Some q" "wp_parent q \<in> D" "e \<in> edges_of src_of (wp_parent q)"
      "weighted_link env e" "wn_target e = v" "wp_edge_type q = wn_type_id e" "wp_edge_weight q = wn_weight e"
      "unat (dist_of s v) = unat (dist_of s (wp_parent q)) + unat (wn_weight e)"
      using paths_ok_parent [OF p Cons.prems(2,3) False] by blast
    have x: "x = v" "weighted_nodes (parent_of s) src (wp_parent q) = Some (Some bs)"
      using Cons.prems(1) False q(1) by (auto simp: weighted_nodes.simps [of _ src v] split: Option.bind_splits)
    have pq: "unat (wp_parent q) < path_nodes env" "dist_of s (wp_parent q) \<noteq> U64_MAX"
      using p q(2) by (auto simp: paths_ok_def)
    obtain es where es: "route env src_of src (rev bs) es" "recorded env s (rev bs) es" "last (rev bs) = wp_parent q"
      using Cons.IH [OF x(2) pq] by blast
    have len: "length bs = Suc (length es)" using es(1) by (simp add: route_def)
    then have lst: "rev bs ! length es = wp_parent q" using es(3) by (metis diff_Suc_1 last_conv_nth length_0_conv length_rev nat.distinct(1))
    have "route env src_of src (rev bs @ [v]) (es @ [e])"
      using es(1) q len lst by (auto simp: route_def nth_append less_Suc_eq)
    moreover have "recorded env s (rev bs @ [v]) (es @ [e])"
    proof -
      have "unat (dist_of s v) = costs (es @ [e])"
        using es(2) len lst q(8) by (auto simp: recorded_def costs_def)
      then show ?thesis
        using es(2) q len Cons.prems(2) by (auto simp: recorded_def nth_append less_Suc_eq)
    qed
    ultimately show ?thesis using x(1) by (intro exI [of _ "es @ [e]"]) simp
  qed
qed

section \<open>Simple routes\<close>

text \<open>
  A goal that any walk reaches is reached by one that repeats no node, which is too cheap to
  be confused with the sentinel.
\<close>

lemma route_last: "route env src_of src ns es \<Longrightarrow> last ns = ns ! length es"
  by (cases ns rule: rev_cases) (auto simp: route_def nth_append)

lemma route_snoc:
  assumes "route env src_of src ns es" "e \<in> edges_of src_of (last ns)" "weighted_link env e"
  shows "route env src_of src (ns @ [wn_target e]) (es @ [e])"
proof -
  note route_last [OF assms(1)]
  with assms show ?thesis by (auto simp: route_def nth_append less_Suc_eq)
qed

lemma walk_route:
  assumes "weighted_walk env src_of src c v"
  shows "\<exists>ns es. route env src_of src ns es \<and> last ns = v \<and> costs es = c"
  using assms
proof (induction rule: weighted_walk.induct)
  case start
  show ?case by (intro exI [of _ "[src]"] exI [of _ "[]"]) (simp add: route_def costs_def)
next
  case (step c v e)
  then obtain ns es where r: "route env src_of src ns es" "last ns = v" "costs es = c" by blast
  from route_snoc [OF r(1)] r step.hyps show ?case
    by (intro exI [of _ "ns @ [wn_target e]"] exI [of _ "es @ [e]"]) (simp add: costs_def)
qed

lemma route_walk:
  assumes "route env src_of src ns es"
  shows "weighted_walk env src_of src (costs es) (last ns)"
proof -
  have "weighted_walk env src_of src (costs (take i es)) (ns ! i)" if "i \<le> length es" for i
    using that
  proof (induction i)
    case 0
    then show ?case using assms by (auto simp: route_def costs_def intro: weighted_walk.start)
  next
    case (Suc i)
    have e: "es ! i \<in> edges_of src_of (ns ! i)" "weighted_link env (es ! i)" "wn_target (es ! i) = ns ! Suc i"
      using assms Suc.prems by (auto simp: route_def)
    have "weighted_walk env src_of src (costs (take i es) + unat (wn_weight (es ! i))) (wn_target (es ! i))"
      by (rule weighted_walk.step) (use Suc e in auto)
    then show ?case using e(3) Suc.prems by (simp add: costs_def take_Suc_conv_app_nth)
  qed
  from this [of "length es"] show ?thesis by (simp add: route_last [OF assms])
qed

lemma route_shortcut:
  assumes r: "route env src_of src ns es" and ij: "i < j" "j < length ns" "ns ! i = ns ! j"
  shows "\<exists>ns' es'. route env src_of src ns' es' \<and> last ns' = last ns \<and> length ns' < length ns"
proof -
  let ?ns = "take (Suc i) ns @ drop (Suc j) ns" and ?es = "take i es @ drop j es"
  have len: "length ns = Suc (length es)" using r by (simp add: route_def)
  have nth: "?ns ! k = (if k \<le> i then ns ! k else ns ! (k + j - i))" if "k < length ?ns" for k
  proof (cases "k \<le> i")
    case False
    then have "Suc j + (k - Suc i) = k + j - i" using ij by arith
    with False that ij show ?thesis by (auto simp: nth_append min_def)
  qed (use that ij in \<open>auto simp: nth_append min_def\<close>)
  have nth': "?es ! k = (if k < i then es ! k else es ! (k + j - i))" if "k < length ?es" for k
  proof (cases "k < i")
    case False
    then have "j + (k - i) = k + j - i" by arith
    with False that ij len show ?thesis by (auto simp: nth_append min_def)
  qed (use that ij len in \<open>auto simp: nth_append min_def\<close>)
  have "route env src_of src ?ns ?es"
    unfolding route_def
  proof (intro conjI allI impI)
    show "length ?ns = Suc (length ?es)" using ij len by auto
    show "?ns ! 0 = src" using r ij by (simp add: route_def nth_append)
    fix k
    assume k: "k < length ?es"
    define m where "m = (if k < i then k else k + j - i)"
    have "m < length es" using k ij len by (auto simp: m_def)
    then have e: "es ! m \<in> edges_of src_of (ns ! m)" "weighted_link env (es ! m)" "wn_target (es ! m) = ns ! Suc m"
      using r by (auto simp: route_def)
    have "?es ! k = es ! m" using nth' [OF k] by (simp add: m_def)
    moreover have "?ns ! k = ns ! m" using nth [of k] k ij len by (auto simp: m_def)
    moreover have "?ns ! Suc k = ns ! Suc m"
      using nth [of "Suc k"] k ij len by (auto simp: m_def Suc_diff_le)
    ultimately show "?es ! k \<in> edges_of src_of (?ns ! k)" "weighted_link env (?es ! k)"
      "wn_target (?es ! k) = ?ns ! Suc k" using e by auto
  qed
  moreover have "last ?ns = last ns"
  proof (cases "Suc j = length ns")
    case True
    then have "last ns = ns ! j" using ij by (metis diff_Suc_1 last_conv_nth less_zeroE list.size(3))
    moreover have "last ?ns = ns ! i" using True ij by (simp add: take_Suc_conv_app_nth)
    ultimately show ?thesis using ij by simp
  qed (use ij in simp)
  moreover have "length ?ns < length ns" using ij by simp
  ultimately show ?thesis by blast
qed

lemma simple_route:
  assumes "route env src_of src ns es"
  shows "\<exists>ns' es'. route env src_of src ns' es' \<and> last ns' = last ns \<and> distinct ns'"
  using assms
proof (induction "length ns" arbitrary: ns es rule: less_induct)
  case less
  show ?case
  proof (cases "distinct ns")
    case False
    then obtain i j where "i < j" "j < length ns" "ns ! i = ns ! j"
      by (metis distinct_conv_nth linorder_neqE_nat)
    from route_shortcut [OF less.prems this] less.hyps show ?thesis by metis
  qed (use less.prems in blast)
qed

lemma route_nodes:
  assumes "route env src_of src ns es" "unat src < path_nodes env"
  shows "set ns \<subseteq> {v. unat v < path_nodes env}"
proof
  fix v
  assume "v \<in> set ns"
  then obtain i where i: "i < length ns" "v = ns ! i" by (auto simp: in_set_conv_nth)
  show "v \<in> {v. unat v < path_nodes env}"
  proof (cases i)
    case (Suc k)
    with assms i have "weighted_link env (es ! k)" "wn_target (es ! k) = v" by (auto simp: route_def)
    then show ?thesis by (auto simp: weighted_link_def live_def)
  qed (use assms i in \<open>auto simp: route_def\<close>)
qed

lemma costs_bound: "costs es \<le> length es * 4294967295"
proof (induction es)
  case (Cons e es)
  then show ?case using unat_u32_less [of "wn_weight e"] by (simp add: costs_def)
qed (simp add: costs_def)

lemma cheap_walk:
  assumes nodes: "backing_ok (backing (pe_nodes env))" and src: "unat src < path_nodes env"
    and walk: "weighted_walk env src_of src c v"
  shows "\<exists>c. weighted_walk env src_of src c v \<and> c < unat U64_MAX"
proof -
  obtain ns es where r: "route env src_of src ns es" "last ns = v" "distinct ns"
    using walk_route [OF walk] simple_route by metis
  have n: "path_nodes env \<le> 2 ^ 32 - 1" using path_nodes_bound [OF nodes] by simp
  have "length ns = card (set ns)" using r(3) by (simp add: distinct_card)
  also have "\<dots> \<le> card {v :: u32. unat v < path_nodes env}"
    by (rule card_mono [OF _ route_nodes [OF r(1) src]]) simp
  also have "\<dots> = path_nodes env" using n by (intro card_indices) simp
  finally have "length es \<le> 4294967294" using r(1) n by (simp add: route_def)
  from mult_le_mono1 [OF this, of 4294967295] costs_bound [of es]
  have "costs es < unat U64_MAX" by (simp add: unat_U64_MAX)
  with route_walk [OF r(1)] r(2) show ?thesis by blast
qed

section \<open>The entry points\<close>

text \<open>The rows of a path: identities in order, running costs and the total.\<close>

definition route_row ::
  "path_env \<Rightarrow> string list \<Rightarrow> u32 list \<Rightarrow> weighted_neighbor list \<Rightarrow> nat \<Rightarrow> weighted_path_step" where
  "route_row env registry ns es i =
     \<lparr>ws_step = word_of_nat i, ws_node_table = fst (identity_of env (ns ! i)),
      ws_node_id = snd (identity_of env (ns ! i)),
      ws_edge_label = (if i = 0 then None
        else Some (resolve_edge_type_label registry None (wn_type_id (es ! (i - 1))))),
      ws_edge_weight = (if i = 0 then None else Some (wn_weight (es ! (i - 1)))),
      ws_step_cost = word_of_nat (costs (take i es)), ws_total_cost = word_of_nat (costs es)\<rparr>"

definition shortest_rows ::
  "path_env \<Rightarrow> weighted_source \<Rightarrow> string list \<Rightarrow> u32 \<Rightarrow> u32 \<Rightarrow> weighted_path_step list \<Rightarrow> bool" where
  "shortest_rows env src_of registry src goal rows \<longleftrightarrow>
     (\<exists>ns es. route env src_of src ns es \<and> last ns = goal \<and> costs es < unat U64_MAX \<and>
        (\<forall>c. weighted_walk env src_of src c goal \<longrightarrow> costs es \<le> c) \<and>
        rows = map (route_row env registry ns es) [0..<length ns])"

definition no_weighted_path :: "path_env \<Rightarrow> weighted_source \<Rightarrow> bool \<Rightarrow> u32 \<Rightarrow> u32 \<Rightarrow> bool" where
  "no_weighted_path env src_of weighted_store src goal \<longleftrightarrow>
     path_nodes env \<le> unat src \<or> path_nodes env \<le> unat goal \<or>
     \<not> allows_node (pe_scope env) src \<or> \<not> allows_node (pe_scope env) goal \<or> \<not> weighted_store \<or>
     (\<nexists>c. weighted_walk env src_of src c goal)"

lemma rows_collected:
  assumes nodes: "backing_ok (backing (pe_nodes env))" and p: "paths_ok env src_of src D s"
    and r: "route env src_of src ns es" and rec: "recorded env s ns es"
    and c: "costs es < unat U64_MAX"
  shows "collect_opt (weighted_step (pe_nodes env) registry (parent_of s) (dist s) (word_of_nat (costs es)))
    (enumerate 0 ns) = Inr (Some (map (route_row env registry ns es) [0..<length ns]))"
proof -
  have row: "weighted_step (pe_nodes env) registry (parent_of s) (dist s) (word_of_nat (costs es)) (i, ns ! i) =
    Inr (Some (route_row env registry ns es i))" if i: "i < length ns" for i
  proof -
    have n: "unat (ns ! i) < path_nodes env" "unat (dist_of s (ns ! i)) = costs (take i es)"
      using rec i by (auto simp: recorded_def)
    have d: "dist_of s (ns ! i) = word_of_nat (costs (take i es))"
      using n(2) by (rule unat_eq_word)
    have len: "length (dist s) = path_nodes env" using p by (simp add: paths_ok_def)
    show ?thesis
    proof (cases i)
      case 0
      with n d len show ?thesis
        by (simp add: weighted_step_def node_identity_eq [OF nodes] route_row_def split_beta dist_of_def)
    next
      case (Suc k)
      with i r have "k < length es" by (simp add: route_def)
      with rec Suc obtain p where "parent_of s (ns ! i) = Some p" "wp_edge_type p = wn_type_id (es ! k)"
        "wp_edge_weight p = wn_weight (es ! k)" by (auto simp: recorded_def)
      with Suc n d len show ?thesis
        by (simp add: weighted_step_def node_identity_eq [OF nodes] route_row_def split_beta dist_of_def)
    qed
  qed
  have "enumerate 0 ns = map (\<lambda>i. (i, ns ! i)) [0..<length ns]"
    by (rule nth_equalityI) (simp_all add: enumerate_eq_zip)
  moreover have "collect_opt (weighted_step (pe_nodes env) registry (parent_of s) (dist s) (word_of_nat (costs es)))
    (map (\<lambda>i. (i, ns ! i)) [0..<length ns]) =
    Inr (Some (map (\<lambda>(i, _). route_row env registry ns es i) (map (\<lambda>i. (i, ns ! i)) [0..<length ns])))"
    by (rule collect_opt_ok) (auto simp: row)
  ultimately show ?thesis by (simp add: comp_def)
qed

definition weighted_outcome ::
  "path_env \<Rightarrow> weighted_source \<Rightarrow> bool \<Rightarrow> string list \<Rightarrow> u32 \<Rightarrow> u32 \<Rightarrow> weighted_path_step list option \<Rightarrow> bool" where
  "weighted_outcome env src_of weighted_store registry src goal r \<longleftrightarrow>
     (case r of None \<Rightarrow> no_weighted_path env src_of weighted_store src goal
      | Some rows \<Rightarrow> shortest_rows env src_of registry src goal rows)"

lemma weighted_inner_ok:
  assumes nodes: "backing_ok (backing (pe_nodes env))" and src_ok: "weighted_source_ok env src_of"
    and b: "budget_ok b"
  shows "\<exists>b' r. weighted_shortest_path_inner env src_of weighted_store registry src goal b = Some (Inr (b', r)) \<and>
    budget_ok b' \<and> budget_step b b' \<and>
    (failed b' \<or> weighted_outcome env src_of weighted_store registry src goal r)"
proof (cases "path_nodes env \<le> unat src \<or> path_nodes env \<le> unat goal \<or>
     \<not> allows_node (pe_scope env) src \<or> \<not> allows_node (pe_scope env) goal \<or> \<not> weighted_store")
  case True
  with b path_nodes_count [OF nodes] show ?thesis
    by (intro exI [of _ b] exI [of _ None])
      (auto simp: weighted_shortest_path_inner_def Let_def weighted_outcome_def no_weighted_path_def word_le_nat_alt)
next
  case False
  then have rng: "unat src < path_nodes env" "unat goal < path_nodes env" by auto
  have n: "unat (ns_node_count (pe_nodes env)) = path_nodes env" by (rule path_nodes_count [OF nodes])
  have guard: "\<not> (ns_node_count (pe_nodes env) \<le> src \<or> ns_node_count (pe_nodes env) \<le> goal)"
    using rng n by (simp add: word_le_nat_alt)
  obtain s0 where s0: "initial_search (path_nodes env) src b = Inr s0" "search_ok env src_of src {} s0" "budget s0 = b"
    using initial_search_ok [OF rng(1)] by blast
  obtain go t where t: "dijkstra_loop env src_of goal s0 = Inr (go, t)" "loop_step s0 go t"
    "go \<longrightarrow> goal_ok env src_of src goal t"
    using dijkstra_loop_ok [OF nodes src_ok s0(2), of goal] s0(3) b by auto
  have step: "budget_ok (budget t)" "budget_step b (budget t)" using t(2) s0(3) by (auto simp: loop_step_def)
  note unfolds = weighted_shortest_path_inner_def Let_def
  show ?thesis
  proof (cases go)
    case go: False
    then have "failed (budget t)" using t(2) by (simp add: loop_step_def)
    with go False guard n s0(1) t(1) step show ?thesis by (simp add: unfolds)
  next
    case go: True
    then obtain D where p: "paths_ok env src_of src D t"
      and least: "\<And>c. weighted_walk env src_of src c goal \<Longrightarrow> unat (dist_of t goal) \<le> c"
      using t(3) by (auto simp: goal_ok_def)
    have len: "length (dist t) = path_nodes env" using p by (simp add: paths_ok_def)
    show ?thesis
    proof (cases "dist_of t goal = U64_MAX")
      case True
      have "\<nexists>c. weighted_walk env src_of src c goal"
        using cheap_walk [OF nodes rng(1)] least True by fastforce
      then have "weighted_outcome env src_of weighted_store registry src goal None"
        by (simp add: weighted_outcome_def no_weighted_path_def)
      moreover have "weighted_shortest_path_inner env src_of weighted_store registry src goal b =
          Some (Inr (budget t, None))"
        using True go False guard n s0(1) t(1) rng len by (simp add: unfolds dist_of_def)
      ultimately show ?thesis using step by blast
    next
      case found: False
      obtain bs where bs: "weighted_nodes (parent_of t) src goal = Some (Some bs)"
      proof (cases "goal = src")
        case True
        then show ?thesis using that by (simp add: weighted_nodes.simps)
      next
        case ne: False
        obtain q where q: "parent_of t goal = Some q" "wp_parent q \<in> D"
          using paths_ok_parent [OF p rng(2) found ne] by blast
        then obtain ns where "weighted_nodes (parent_of t) src (wp_parent q) = Some (Some ns)"
          using paths_ok_chain [OF p, of "wp_parent q"] by blast
        from weighted_nodes_step [of goal src "parent_of t", OF ne q(1) this] show ?thesis by (rule that)
      qed
      obtain es where es: "route env src_of src (rev bs) es" "recorded env t (rev bs) es" "last (rev bs) = goal"
        using chain_route [OF p bs rng(2) found] by blast
      have "length (rev bs) = Suc (length es)" using es(1) by (simp add: route_def)
      then have total: "unat (dist_of t goal) = costs es"
        using es(2,3) route_last [OF es(1)] by (auto simp: recorded_def)
      then have total': "dist_of t goal = word_of_nat (costs es)" by (rule unat_eq_word)
      have small: "costs es < unat U64_MAX"
        using total found U64_MAX_greatest [of "dist_of t goal"]
        by (simp add: word_le_nat_alt word_unat_eq_iff)
      let ?rows = "map (route_row env registry (rev bs) es) [0..<length (rev bs)]"
      have "shortest_rows env src_of registry src goal ?rows"
        unfolding shortest_rows_def
        using es small least total by (intro exI [of _ "rev bs"] exI [of _ es]) simp
      moreover have "weighted_shortest_path_inner env src_of weighted_store registry src goal b =
          Some (Inr (budget t, Some ?rows))"
        using rows_collected [OF nodes p es(1,2) small, of registry] total' found bs
          go False guard n s0(1) t(1) rng len
        by (simp add: unfolds dist_of_def)
      ultimately show ?thesis using step by (auto simp: weighted_outcome_def)
    qed
  qed
qed

lemma weighted_governed_returns:
  assumes "backing_ok (backing (pe_nodes env))" "weighted_source_ok env src_of"
  shows "returns (\<lambda>f. \<exists>e. f = Err e \<and> path_error e) (weighted_outcome env src_of weighted_store registry src goal)
    (weighted_shortest_path_governed env src_of weighted_store registry src goal g)"
proof -
  have "budget_ok (Some (new_budget g))" by (simp add: budget_ok_def new_budget_def)
  then obtain b' r where r: "weighted_shortest_path_inner env src_of weighted_store registry src goal
      (Some (new_budget g)) = Some (Inr (b', r))" "budget_ok b'" "budget_step (Some (new_budget g)) b'"
    "failed b' \<or> weighted_outcome env src_of weighted_store registry src goal r"
    using weighted_inner_ok [OF assms] by blast
  then obtain b where "b' = Some b" by (cases b') (auto simp: budget_step_def)
  with r show ?thesis
    by (cases "pb_error b")
      (auto simp: weighted_shortest_path_governed_def budget_finish_def failed_def budget_ok_def)
qed

text \<open>The weighted neighbors of a well-formed store are such a source.\<close>

lemma node_rows_targets:
  assumes "csr_wf a" "x \<in> set (node_rows a i)"
  shows "unat (fst x) < node_count_of a"
proof -
  from assms(2) obtain k where k: "unat i < node_count_of a" "k < row_start a (Suc (unat i))" "x = entry a k"
    by (auto simp: node_rows_def row_def split: if_splits)
  then have "k < length (targets a)" using row_start_le [OF assms(1), of "Suc (unat i)"] by simp
  then have "targets a ! k \<in> set (targets a)" by simp
  with assms(1) k(3) show ?thesis by (auto simp: csr_wf_def entry_def)
qed

lemma store_weighted_source_ok:
  assumes st: "store_ok st" and n: "node_count_of (store_arrays st) \<le> path_nodes env"
  shows "weighted_source_ok env (weighted_neighbors st)"
  unfolding weighted_source_ok_def
proof
  fix u
  note wf = store_ok_wf [OF st]
  have "unat (wn_target e) < path_nodes env" if e: "e \<in> set (weighted_rows (store_arrays st) u)" for e
  proof -
    from e obtain x w where "x \<in> set (node_rows (store_arrays st) u)" "e = weighted_of x w"
      unfolding weighted_rows_zip [OF wf] by (auto dest: set_zip_leftD)
    then show ?thesis using node_rows_targets [OF wf] n
      by (fastforce simp: weighted_of_def Let_def adjacency_neighbor_def split: prod.splits)
  qed
  then show "\<exists>es. weighted_neighbors st u = Inr es \<and> (\<forall>e\<in>set es. unat (wn_target e) < path_nodes env)"
    using weighted_neighbors_rows [OF st] by auto
qed

section \<open>Properties\<close>

text \<open>
  C18: The weighted search always ends. It fails only with the missing relationship identity or
  a resource limit of its phase; otherwise it returns no path exactly when the endpoints are
  out of range or hidden, the graph has no weights, or no admitted walk joins them, and else a
  route of admitted edges of least total cost, row by row with its running cost.
\<close>

theorem weighted_shortest_path_exact:
  assumes "backing_ok (backing (pe_nodes env))" "weighted_source_ok env src_of"
  shows "\<exists>r. weighted_shortest_path_governed env src_of weighted_store registry src goal g = Some r \<and>
    (case r of
       Inl f \<Rightarrow> \<exists>e. f = Err e \<and> path_error e
     | Inr None \<Rightarrow> no_weighted_path env src_of weighted_store src goal
     | Inr (Some rows) \<Rightarrow> shortest_rows env src_of registry src goal rows)"
  using returns_cases [OF weighted_governed_returns [OF assms, of weighted_store registry src goal g]]
  by (auto simp: weighted_outcome_def split: option.splits)

definition sample_path_env :: path_env where
  "sample_path_env = \<lparr>pe_nodes = \<lparr>backing = OwnedNodes [True, True, True] [7, 7, 7] [[97], [98], [99]],
       max_primary_key_bytes = 1\<rparr>,
     pe_scope = Unrestricted, pe_tx_deleted = (\<lambda>_. False), pe_filter = None, pe_elapsed = (\<lambda>_. 0)\<rparr>"

definition sample_weighted_edge :: "u32 \<Rightarrow> u32 \<Rightarrow> weighted_neighbor" where
  "sample_weighted_edge v w = \<lparr>wn_target = v, wn_type_id = 1, wn_weight = w, wn_schema_reversed = False,
     wn_relationship_id = None\<rparr>"

definition sample_weighted_source :: weighted_source where
  "sample_weighted_source u = Inr (if u = 0 then [sample_weighted_edge 1 5, sample_weighted_edge 2 9]
     else if u = 1 then [sample_weighted_edge 2 1] else [])"

lemma sample_path_ok:
  "backing_ok (backing (pe_nodes sample_path_env))" "weighted_source_ok sample_path_env sample_weighted_source"
  by (auto simp: sample_path_env_def backing_ok_def utf8_ok.simps weighted_source_ok_def sample_weighted_source_def
      sample_weighted_edge_def path_nodes_def store_nodes_def)

theorem weighted_shortest_path_exact_witness:
  "\<exists>r. weighted_shortest_path_governed sample_path_env sample_weighted_source True [] 0 2
      (new_governor (memory_only 100)) = Some r \<and>
    (case r of
       Inl f \<Rightarrow> \<exists>e. f = Err e \<and> path_error e
     | Inr None \<Rightarrow> no_weighted_path sample_path_env sample_weighted_source True 0 2
     | Inr (Some rows) \<Rightarrow> shortest_rows sample_path_env sample_weighted_source [] 0 2 rows)"
  by (rule weighted_shortest_path_exact [OF sample_path_ok])

end
