(* ===== verification/ShortestPath.thy ===== *)
theory ShortestPath
  imports PathAdmission
begin

text \<open>
  Unweighted shortest paths (\<open>shortest_path_with_neighbors_inner\<close> in
  \<open>graph/src/path_finder.rs\<close>): the single-direction breadth-first search used when the graph
  has one-way edges, and the bidirectional search that expands whole levels of the smaller
  frontier. A \<open>VecDeque\<close> is a list with its front at the head, a bitmap a set, a hash map a
  partial function.
\<close>

section \<open>Shared steps\<close>

record parent_step =
  ps_parent :: u32
  ps_edge_type :: edge_type_id
  ps_depth :: int

record path_step =
  pt_step :: i32
  pt_node_table :: u32
  pt_node_id :: "u8 list"
  pt_edge_label :: "string option"

record path_request =
  rq_source :: u32
  rq_target :: u32
  rq_max_depth :: int
  rq_unidirectional :: bool
  rq_registry :: "string list"
  rq_label :: "(edge_type_id \<Rightarrow> string option) option"

text \<open>
  The gate of a candidate: the work unit, its visibility, then whether the node is live. (The
  visited test of the single-direction search stands between the last two; all are reads.)
\<close>

definition gate ::
  "path_env \<Rightarrow> path_work_budget option \<Rightarrow> neighbor \<Rightarrow> (bool \<times> bool \<times> path_work_budget option) graph_result" where
  "gate env bo e =
     (let (go, bo) = consume_path_work env bo in
      if \<not> go then Inr (False, False, bo)
      else
        let (seen, bo) = path_candidate_visible env bo e in
        if \<not> seen then Inr (True, False, bo)
        else rbind (live_node env (nb_target e)) (\<lambda>live. Inr (True, live, bo)))"

definition row_at ::
  "path_env \<Rightarrow> path_request \<Rightarrow> nat \<times> u32 \<times> edge_type_id \<Rightarrow> path_step option graph_result" where
  "row_at env rq = (\<lambda>(i, node, t).
     rbind (node_identity (pe_nodes env) node) (\<lambda>ident.
     case ident of None \<Rightarrow> Inr None
     | Some (table, key) \<Rightarrow>
         Inr (Some \<lparr>pt_step = word_of_nat i, pt_node_table = table, pt_node_id = key,
           pt_edge_label = (if i = 0 then None
             else Some (resolve_edge_type_label (rq_registry rq) (rq_label rq) t))\<rparr>)))"

section \<open>Single direction\<close>

record single_state =
  sd_visited :: "u32 set"
  sd_parent :: "u32 \<rightharpoonup> parent_step"
  sd_frontier :: "(u32 \<times> int) list"
  sd_budget :: "path_work_budget option"

datatype search_signal = Continue | Stopped | Found

fun single_expand ::
  "path_env \<Rightarrow> u32 \<Rightarrow> u32 \<Rightarrow> int \<Rightarrow> neighbor list \<Rightarrow> single_state \<Rightarrow> (search_signal \<times> single_state) graph_result"
where
  "single_expand env goal current depth [] s = Inr (Continue, s)"
| "single_expand env goal current depth (e # es) s =
     rbind (gate env (sd_budget s) e) (\<lambda>(go, ok, b).
       let s = s\<lparr>sd_budget := b\<rparr> in
       if \<not> go then Inr (Stopped, s)
       else if \<not> ok \<or> nb_target e \<in> sd_visited s then single_expand env goal current depth es s
       else
         let s = s\<lparr>sd_visited := insert (nb_target e) (sd_visited s),
           sd_parent := (sd_parent s)(nb_target e \<mapsto>
             \<lparr>ps_parent = current, ps_edge_type = nb_type_id e, ps_depth = depth + 1\<rparr>),
           sd_frontier := sd_frontier s @ [(nb_target e, depth + 1)]\<rparr> in
         if nb_target e = goal then Inr (Found, s)
         else single_expand env goal current depth es s)"

lemma single_expand_measure:
  "single_expand env goal current depth es s = Inr (sig, t) \<Longrightarrow>
    card (- sd_visited t) + length (sd_frontier t) \<le> card (- sd_visited s) + length (sd_frontier s)"
proof (induction es arbitrary: s)
  case (Cons e es)
  then obtain go ok b where g: "gate env (sd_budget s) e = Inr (go, ok, b)"
    by (auto simp: result_simps)
  have less: "Suc (card (- insert x V)) \<le> card (- V)" if "x \<notin> V" for x and V :: "u32 set"
  proof -
    have "- V = insert x (- insert x V)" using that by auto
    then show ?thesis by (metis card_insert_disjoint finite order_refl ComplD insertI1)
  qed
  show ?case
  proof (cases "go \<and> ok \<and> nb_target e \<notin> sd_visited s")
    case False
    with Cons.prems g Cons.IH [of "s\<lparr>sd_budget := b\<rparr>"] show ?thesis by (auto simp: Let_def split: if_splits)
  next
    case True
    let ?s = "s\<lparr>sd_budget := b, sd_visited := insert (nb_target e) (sd_visited s),
      sd_parent := (sd_parent s)(nb_target e \<mapsto>
             \<lparr>ps_parent = current, ps_edge_type = nb_type_id e, ps_depth = depth + 1\<rparr>),
      sd_frontier := sd_frontier s @ [(nb_target e, depth + 1)]\<rparr>"
    have "card (- sd_visited ?s) + length (sd_frontier ?s) \<le> card (- sd_visited s) + length (sd_frontier s)"
      using less [of "nb_target e" "sd_visited s"] True by simp
    with True Cons.prems g Cons.IH [of ?s] show ?thesis by (auto simp: Let_def split: if_splits)
  qed
qed simp

function (sequential) single_loop ::
  "path_env \<Rightarrow> (u32 \<Rightarrow> neighbor list graph_result) \<Rightarrow> u32 \<Rightarrow> int \<Rightarrow> single_state \<Rightarrow>
    (search_signal \<times> single_state) graph_result" where
  "single_loop env source_of goal limit s =
     (case sd_frontier s of
        [] \<Rightarrow> Inr (Continue, s)
      | (current, depth) # rest \<Rightarrow>
          (let s = s\<lparr>sd_frontier := rest\<rparr> in
           if depth \<ge> limit then single_loop env source_of goal limit s
           else
             rbind (source_of current) (\<lambda>es.
             rbind (single_expand env goal current depth es s) (\<lambda>(sig, s).
               if sig = Continue then single_loop env source_of goal limit s else Inr (sig, s)))))"
  by pat_completeness auto

termination
proof (relation "measure (\<lambda>(_, _, _, _, s). card (- sd_visited s) + length (sd_frontier s))", goal_cases)
  case 1
  then show ?case by simp
next
  case (2 env source_of goal limit s entry rest current depth s')
  then show ?case by simp
next
  case (3 env source_of goal limit s entry rest current depth s' es r sig t)
  then have "card (- sd_visited t) + length (sd_frontier t) \<le> card (- sd_visited s') + length (sd_frontier s')"
    using single_expand_measure [of env goal current depth es s' sig t] by simp
  with 3 show ?case by simp
qed

declare single_loop.simps [simp del]

text \<open>The pairs of a node and the type of the edge that found it, from the goal back.\<close>

partial_function (option) single_walk ::
  "(u32 \<rightharpoonup> parent_step) \<Rightarrow> u32 \<Rightarrow> u32 \<Rightarrow> (u32 \<times> edge_type_id) list option option" where
  "single_walk parents src current =
     (case parents current of
        None \<Rightarrow> Some None
      | Some step \<Rightarrow>
          if current = src then Some (Some [(current, ps_edge_type step)])
          else
            Option.bind (single_walk parents src (ps_parent step)) (\<lambda>path.
              Some (map_option (\<lambda>path. (current, ps_edge_type step) # path) path)))"

declare single_walk.simps [code]

definition single_start :: "u32 \<Rightarrow> path_work_budget option \<Rightarrow> single_state" where
  "single_start src b = \<lparr>sd_visited = {src},
     sd_parent = [src \<mapsto> \<lparr>ps_parent = src, ps_edge_type = UNTYPED, ps_depth = 0\<rparr>],
     sd_frontier = [(src, 0)], sd_budget = b\<rparr>"

definition single_direction_bfs ::
  "path_env \<Rightarrow> (u32 \<Rightarrow> neighbor list graph_result) \<Rightarrow> path_request \<Rightarrow> path_work_budget option \<Rightarrow>
    (graph_error, path_work_budget option \<times> path_step list option) rust_result option" where
  "single_direction_bfs env source_of rq b =
     obind (Some (single_loop env source_of (rq_target rq) (rq_max_depth rq) (single_start (rq_source rq) b)))
       (\<lambda>(sig, s).
       if sig \<noteq> Found then Some (Inr (sd_budget s, None))
       else
         Option.bind (single_walk (sd_parent s) (rq_source rq) (rq_target rq)) (\<lambda>path.
         case path of None \<Rightarrow> Some (Inr (sd_budget s, None))
         | Some path \<Rightarrow>
             obind (Some (collect_opt (row_at env rq) (enumerate 0 (rev path)))) (\<lambda>rows.
               Some (Inr (sd_budget s, rows)))))"

section \<open>Bidirectional\<close>

record search_side =
  bd_visited :: "u32 set"
  bd_parent :: "u32 \<rightharpoonup> parent_step"
  bd_frontier :: "u32 list"

record bidirectional_state =
  meeting_node :: "u32 option"
  best_combined :: int
  bi_budget :: "path_work_budget option"

definition I32_MAX :: int where
  "I32_MAX = 2 ^ 31 - 1"

definition i32_wrap :: "int \<Rightarrow> int" where
  "i32_wrap i = sint (word_of_int i :: 32 word)"

text \<open>One admitted candidate of the side that is expanded (\<open>mine\<close>) against the other side.\<close>

definition meet_candidate ::
  "u32 \<Rightarrow> int \<Rightarrow> neighbor \<Rightarrow> search_side \<Rightarrow> search_side \<Rightarrow> bidirectional_state \<Rightarrow>
    (search_side \<times> bidirectional_state) graph_result" where
  "meet_candidate current new_depth e other mine s =
     (let found = \<lparr>ps_parent = current, ps_edge_type = nb_type_id e, ps_depth = new_depth\<rparr>;
          mine = (if nb_target e \<in> bd_visited mine then mine
            else mine\<lparr>bd_visited := insert (nb_target e) (bd_visited mine),
                      bd_parent := (bd_parent mine)(nb_target e \<mapsto> found),
                      bd_frontier := bd_frontier mine @ [nb_target e]\<rparr>)
      in if nb_target e \<notin> bd_visited other then Inr (mine, s)
         else
           let mine = (if bd_parent mine (nb_target e) = None
                 then mine\<lparr>bd_parent := (bd_parent mine)(nb_target e \<mapsto> found)\<rparr> else mine) in
           rbind (ok_or Panic (bd_parent mine (nb_target e))) (\<lambda>m.
           rbind (ok_or Panic (bd_parent other (nb_target e))) (\<lambda>other_step.
             let combined = i32_wrap (ps_depth m + ps_depth other_step) in
             Inr (mine, if combined < best_combined s
               then s\<lparr>best_combined := combined, meeting_node := Some (nb_target e)\<rparr> else s))))"

fun side_expand ::
  "path_env \<Rightarrow> u32 \<Rightarrow> int \<Rightarrow> neighbor list \<Rightarrow> search_side \<Rightarrow> search_side \<Rightarrow> bidirectional_state \<Rightarrow>
    (bool \<times> search_side \<times> bidirectional_state) graph_result" where
  "side_expand env current new_depth [] other mine s = Inr (True, mine, s)"
| "side_expand env current new_depth (e # es) other mine s =
     rbind (gate env (bi_budget s) e) (\<lambda>(go, ok, b).
       let s = s\<lparr>bi_budget := b\<rparr> in
       if \<not> go then Inr (False, mine, s)
       else if \<not> ok then side_expand env current new_depth es other mine s
       else rbind (meet_candidate current new_depth e other mine s) (\<lambda>(mine, s).
         side_expand env current new_depth es other mine s))"

text \<open>One level: as many nodes are popped as the frontier held when the level began.\<close>

fun side_level ::
  "path_env \<Rightarrow> (u32 \<Rightarrow> neighbor list graph_result) \<Rightarrow> int \<Rightarrow> nat \<Rightarrow> search_side \<Rightarrow> search_side \<Rightarrow>
    bidirectional_state \<Rightarrow> (bool \<times> search_side \<times> bidirectional_state) graph_result" where
  "side_level env source_of new_depth 0 other mine s = Inr (True, mine, s)"
| "side_level env source_of new_depth (Suc k) other mine s =
     (case bd_frontier mine of
        [] \<Rightarrow> Inr (True, mine, s)
      | current # rest \<Rightarrow>
          rbind (source_of current) (\<lambda>es.
          rbind (side_expand env current new_depth es other (mine\<lparr>bd_frontier := rest\<rparr>) s) (\<lambda>(go, mine, s).
            if go then side_level env source_of new_depth k other mine s else Inr (False, mine, s))))"

function (sequential) bidirectional_loop ::
  "path_env \<Rightarrow> (u32 \<Rightarrow> neighbor list graph_result) \<Rightarrow> int \<Rightarrow> int \<Rightarrow> search_side \<Rightarrow> search_side \<Rightarrow>
    bidirectional_state \<Rightarrow> (bool \<times> search_side \<times> search_side \<times> bidirectional_state) graph_result" where
  "bidirectional_loop env source_of limit depth fwd bwd s =
     (if bd_frontier fwd = [] \<or> bd_frontier bwd = [] \<or> \<not> depth < limit then Inr (True, fwd, bwd, s)
      else
        rbind (if length (bd_frontier fwd) \<le> length (bd_frontier bwd)
            then rbind (side_level env source_of (depth + 1) (length (bd_frontier fwd)) bwd fwd s)
              (\<lambda>(go, fwd, s). Inr (go, fwd, bwd, s))
            else rbind (side_level env source_of (depth + 1) (length (bd_frontier bwd)) fwd bwd s)
              (\<lambda>(go, bwd, s). Inr (go, fwd, bwd, s))) (\<lambda>(go, fwd, bwd, s).
          if \<not> go then Inr (False, fwd, bwd, s)
          else if meeting_node s \<noteq> None then Inr (True, fwd, bwd, s)
          else bidirectional_loop env source_of limit (depth + 1) fwd bwd s))"
  by pat_completeness auto

termination
  by (relation "measure (\<lambda>(_, _, limit, depth, _). nat (limit - depth))") auto

declare bidirectional_loop.simps [simp del]

text \<open>
  Back from the meeting node to the source, and on from it to the target: in the second half
  a node is paired with the type of the edge that leads to it.
\<close>

partial_function (option) forward_walk ::
  "(u32 \<rightharpoonup> parent_step) \<Rightarrow> u32 \<Rightarrow> u32 \<Rightarrow> (u32 \<times> edge_type_id) list option option" where
  "forward_walk parents src current =
     (if current = src then Some (Some [])
      else case parents current of
        None \<Rightarrow> Some None
      | Some step \<Rightarrow>
          Option.bind (forward_walk parents src (ps_parent step)) (\<lambda>path.
            Some (map_option (\<lambda>path. (current, ps_edge_type step) # path) path)))"

partial_function (option) backward_walk ::
  "(u32 \<rightharpoonup> parent_step) \<Rightarrow> u32 \<Rightarrow> u32 \<Rightarrow> u32 \<Rightarrow> (u32 \<times> edge_type_id) list option option" where
  "backward_walk parents goal child current =
     (case parents child of
        None \<Rightarrow> Some None
      | Some step \<Rightarrow>
          if current = goal then Some (Some [(current, ps_edge_type step)])
          else
            (case parents current of
               None \<Rightarrow> Some None
             | Some up_step \<Rightarrow>
                 Option.bind (backward_walk parents goal current (ps_parent up_step)) (\<lambda>path.
                   Some (map_option (\<lambda>path. (current, ps_edge_type step) # path) path))))"

declare forward_walk.simps [code] backward_walk.simps [code]

definition side_start :: "u32 \<Rightarrow> search_side" where
  "side_start root = \<lparr>bd_visited = {root},
     bd_parent = [root \<mapsto> \<lparr>ps_parent = root, ps_edge_type = UNTYPED, ps_depth = 0\<rparr>], bd_frontier = [root]\<rparr>"

definition backward_path ::
  "(u32 \<rightharpoonup> parent_step) \<Rightarrow> u32 \<Rightarrow> u32 \<Rightarrow> (u32 \<times> edge_type_id) list option option" where
  "backward_path parents goal meet =
     (case parents meet of
        None \<Rightarrow> Some None
      | Some step \<Rightarrow>
          if ps_parent step = meet then Some (Some [])
          else backward_walk parents goal meet (ps_parent step))"

definition bidirectional_bfs ::
  "path_env \<Rightarrow> (u32 \<Rightarrow> neighbor list graph_result) \<Rightarrow> path_request \<Rightarrow> path_work_budget option \<Rightarrow>
    (graph_error, path_work_budget option \<times> path_step list option) rust_result option" where
  "bidirectional_bfs env source_of rq b =
     obind (Some (bidirectional_loop env source_of (rq_max_depth rq) 0 (side_start (rq_source rq))
         (side_start (rq_target rq)) \<lparr>meeting_node = None, best_combined = I32_MAX, bi_budget = b\<rparr>))
       (\<lambda>(go, fwd, bwd, s).
       if \<not> go then Some (Inr (bi_budget s, None))
       else
         (case meeting_node s of
            None \<Rightarrow> Some (Inr (bi_budget s, None))
          | Some meet \<Rightarrow>
              Option.bind (forward_walk (bd_parent fwd) (rq_source rq) meet) (\<lambda>fpath.
              Option.bind (backward_path (bd_parent bwd) (rq_target rq) meet) (\<lambda>bpath.
                (case (fpath, bpath) of
                   (Some fpath, Some bpath) \<Rightarrow>
                     obind (Some (collect_opt (row_at env rq)
                         (enumerate 0 ((rq_source rq, UNTYPED) # rev fpath @ bpath)))) (\<lambda>rows.
                       Some (Inr (bi_budget s, rows)))
                 | _ \<Rightarrow> Some (Inr (bi_budget s, None)))))))"

section \<open>Entry points\<close>

definition shortest_path_inner ::
  "path_env \<Rightarrow> (u32 \<Rightarrow> neighbor list graph_result) \<Rightarrow> path_request \<Rightarrow> path_work_budget option \<Rightarrow>
    (graph_error, path_work_budget option \<times> path_step list option) rust_result option" where
  "shortest_path_inner env source_of rq b =
     (if rq_source rq \<ge> ns_node_count (pe_nodes env) \<or> rq_target rq \<ge> ns_node_count (pe_nodes env) \<or>
         \<not> allows_node (pe_scope env) (rq_source rq) \<or> \<not> allows_node (pe_scope env) (rq_target rq)
      then Some (Inr (b, None))
      else if rq_source rq = rq_target rq then
        Some (rbind (row_at env rq (0, rq_source rq, UNTYPED)) (\<lambda>row. Inr (b, map_option (\<lambda>r. [r]) row)))
      else if rq_unidirectional rq then single_direction_bfs env source_of rq b
      else bidirectional_bfs env source_of rq b)"

definition shortest_path_governed ::
  "path_env \<Rightarrow> (u32 \<Rightarrow> neighbor list graph_result) \<Rightarrow> path_request \<Rightarrow> resource_governor \<Rightarrow>
    (graph_error, path_step list option) rust_result option" where
  "shortest_path_governed env source_of rq g =
     obind (shortest_path_inner env source_of rq (Some (new_budget g)))
       (\<lambda>(b, rows). case b of None \<Rightarrow> Some (Inr rows) | Some b \<Rightarrow> Some (budget_finish b rows))"

end
