(* ===== verification/ShortestPathProofs.thy ===== *)
theory ShortestPathProofs
  imports ShortestPath
begin

text \<open>
  Correctness of the unweighted searches: both find a walk of admitted edges with the fewest
  hops if one within the depth limit exists. The single-direction search is proved over the
  settled nodes of its queue, the bidirectional one over the balls its two sides have filled.
\<close>

section \<open>Walks\<close>

type_synonym path_source = "u32 \<Rightarrow> neighbor list graph_result"

definition path_link :: "path_env \<Rightarrow> neighbor \<Rightarrow> bool" where
  "path_link env e \<longleftrightarrow>
     allows_relationship (pe_scope env) (nb_type_id e) (nb_relationship_id e) = Inr True \<and>
     allows_node (pe_scope env) (nb_target e) \<and>
     (case pe_filter env of None \<Rightarrow> True | Some ids \<Rightarrow> nb_type_id e \<in> ids) \<and> live env (nb_target e)"

definition path_source_ok :: "path_source \<Rightarrow> bool" where
  "path_source_ok src_of \<longleftrightarrow> (\<forall>u. \<exists>es. src_of u = Inr es)"

definition nedges :: "path_source \<Rightarrow> u32 \<Rightarrow> neighbor set" where
  "nedges src_of u = (case src_of u of Inl _ \<Rightarrow> {} | Inr es \<Rightarrow> set es)"

definition hop :: "path_env \<Rightarrow> path_source \<Rightarrow> u32 \<Rightarrow> neighbor \<Rightarrow> bool" where
  "hop env src_of u e \<longleftrightarrow> e \<in> nedges src_of u \<and> path_link env e"

fun path_walk :: "path_env \<Rightarrow> path_source \<Rightarrow> u32 \<Rightarrow> neighbor list \<Rightarrow> u32 \<Rightarrow> bool" where
  "path_walk env src_of u [] v \<longleftrightarrow> u = v"
| "path_walk env src_of u (e # es) v \<longleftrightarrow> hop env src_of u e \<and> path_walk env src_of (nb_target e) es v"

lemma path_walk_append:
  "path_walk env src_of u (es @ fs) v \<longleftrightarrow> (\<exists>x. path_walk env src_of u es x \<and> path_walk env src_of x fs v)"
  by (induction es arbitrary: u) auto

lemma path_walk_snoc:
  "path_walk env src_of u (es @ [e]) v \<longleftrightarrow>
    (\<exists>x. path_walk env src_of u es x \<and> hop env src_of x e \<and> nb_target e = v)"
  by (auto simp: path_walk_append)

lemma path_walk_unique: "path_walk env src_of u es v \<Longrightarrow> path_walk env src_of u es w \<Longrightarrow> v = w"
  by (induction es arbitrary: u) auto

lemma visible_step:
  assumes "path_candidate_visible env b e = (seen, b')" "budget_ok b"
  shows "budget_step b b' \<and>
    (seen \<longleftrightarrow> allows_relationship (pe_scope env) (nb_type_id e) (nb_relationship_id e) = Inr True \<and>
      allows_node (pe_scope env) (nb_target e) \<and>
      (case pe_filter env of None \<Rightarrow> True | Some ids \<Rightarrow> nb_type_id e \<in> ids))"
  using assms note_error_cases [of "pe_scope env" "nb_type_id e" "nb_relationship_id e" _ b]
  by (auto simp: path_candidate_visible_def budget_step_def split: sum.splits)

lemma gate_ok:
  assumes "backing_ok (backing (pe_nodes env))" "budget_ok bo"
  shows "\<exists>go ok b. gate env bo e = Inr (go, ok, b) \<and> budget_ok b \<and> budget_step bo b \<and>
    (\<not> go \<longrightarrow> failed b) \<and> (go \<longrightarrow> (ok \<longleftrightarrow> path_link env e))"
proof -
  obtain go b1 where c: "consume_path_work env bo = (go, b1)" by fastforce
  note c' = consume_step [OF c assms(2)]
  have b1: "budget_ok b1" using c' assms(2) by (simp add: budget_step_def)
  obtain seen b2 where v: "path_candidate_visible env b1 e = (seen, b2)" by fastforce
  note v' = visible_step [OF v b1]
  have b2: "budget_ok b2" "budget_step bo b2"
    using v' b1 c' budget_step_trans by (auto simp: budget_step_def)
  show ?thesis
  proof (cases go)
    case False
    with c c' b1 show ?thesis
      by (intro exI [of _ False] exI [of _ b1]) (simp add: gate_def)
  next
    case True
    with c v v' b2 live_node_eq [OF assms(1)] show ?thesis
      by (cases seen) (auto simp: gate_def path_link_def)
  qed
qed

section \<open>Parent chains\<close>

text \<open>A list of edges from the root that the parent entries record, one entry per edge.\<close>

inductive chain ::
  "path_env \<Rightarrow> path_source \<Rightarrow> (u32 \<rightharpoonup> parent_step) \<Rightarrow> u32 \<Rightarrow> neighbor list \<Rightarrow> u32 \<Rightarrow> bool"
  for env src_of P root where
  chain_root: "P root = Some p \<Longrightarrow> ps_parent p = root \<Longrightarrow> ps_edge_type p = UNTYPED \<Longrightarrow>
    chain env src_of P root [] root"
| chain_step: "chain env src_of P root es v \<Longrightarrow> hop env src_of v e \<Longrightarrow> nb_target e \<noteq> root \<Longrightarrow>
    P (nb_target e) = Some p \<Longrightarrow> ps_parent p = v \<Longrightarrow> ps_edge_type p = nb_type_id e \<Longrightarrow>
    chain env src_of P root (es @ [e]) (nb_target e)"

lemma chain_mono:
  "chain env src_of P root es v \<Longrightarrow> P \<subseteq>\<^sub>m Q \<Longrightarrow> chain env src_of Q root es v"
proof (induction rule: chain.induct)
  case (chain_root p)
  then show ?case by (auto simp: map_le_def dom_def intro!: chain.chain_root)
next
  case (chain_step es v e p)
  then have "Q (nb_target e) = Some p" by (auto simp: map_le_def dom_def)
  with chain_step show ?case by (intro chain.chain_step [of _ _ _ _ _ v]) auto
qed

lemma chain_walk: "chain env src_of P root es v \<Longrightarrow> path_walk env src_of root es v"
  by (induction rule: chain.induct) (auto simp: path_walk_snoc)

lemma chain_self: "chain env src_of P root es v \<Longrightarrow> P v = Some p \<Longrightarrow> ps_parent p = v \<Longrightarrow> v = root"
  by (induction arbitrary: p rule: chain.induct) auto

text \<open>The rows a list of edges from the source stands for, before they are turned into steps.\<close>

definition edge_pairs :: "neighbor list \<Rightarrow> (u32 \<times> edge_type_id) list" where
  "edge_pairs es = map (\<lambda>e. (nb_target e, nb_type_id e)) es"

definition path_pairs :: "u32 \<Rightarrow> neighbor list \<Rightarrow> (u32 \<times> edge_type_id) list" where
  "path_pairs src es = (src, UNTYPED) # edge_pairs es"

lemma chain_single:
  "chain env src_of P root es v \<Longrightarrow> single_walk P root v = Some (Some (rev (path_pairs root es)))"
proof (induction rule: chain.induct)
  case (chain_root p)
  then show ?case by (subst single_walk.simps) (simp add: path_pairs_def edge_pairs_def)
next
  case (chain_step es v e p)
  then show ?case by (subst single_walk.simps) (simp add: path_pairs_def edge_pairs_def)
qed

lemma chain_forward:
  "chain env src_of P root es v \<Longrightarrow> forward_walk P root v = Some (Some (rev (edge_pairs es)))"
proof (induction rule: chain.induct)
  case (chain_root p)
  then show ?case by (subst forward_walk.simps) (simp add: edge_pairs_def)
next
  case (chain_step es v e p)
  then show ?case by (subst forward_walk.simps) (simp add: edge_pairs_def)
qed

text \<open>Walked from its end, a chain pairs each node with the type of the edge that leaves it.\<close>

fun back_pairs :: "u32 \<Rightarrow> neighbor list \<Rightarrow> (u32 \<times> edge_type_id) list" where
  "back_pairs root [] = []"
| "back_pairs root (e # es) = back_pairs (nb_target e) es @ [(root, nb_type_id e)]"

lemma back_pairs_snoc:
  "path_walk env src_of root es v \<Longrightarrow> back_pairs root (es @ [e]) = (v, nb_type_id e) # back_pairs root es"
  by (induction es arbitrary: root) auto

lemma chain_backward_walk:
  "chain env src_of P root es v \<Longrightarrow> P w = Some p \<Longrightarrow>
    backward_walk P root w v = Some (Some ((v, ps_edge_type p) # back_pairs root es))"
proof (induction arbitrary: w p rule: chain.induct)
  case (chain_root q)
  then show ?case by (subst backward_walk.simps) simp
next
  case (chain_step es v e q)
  have "backward_walk P root (nb_target e) v = Some (Some ((v, nb_type_id e) # back_pairs root es))"
    using chain_step.IH [OF chain_step.hyps(4)] chain_step.hyps(6) by simp
  with chain_step.hyps chain_step.prems back_pairs_snoc [OF chain_walk [OF chain_step.hyps(1)], of e]
  show ?case by (subst backward_walk.simps) simp
qed

lemma chain_backward:
  "chain env src_of P root es v \<Longrightarrow> backward_path P root v = Some (Some (back_pairs root es))"
proof (induction rule: chain.cases)
  case (chain_root p)
  then show ?case by (simp add: backward_path_def)
next
  case (chain_step fs u e p)
  have "u \<noteq> nb_target e"
    using chain_self [OF chain_step(3), of p] chain_step by auto
  with chain_step chain_backward_walk [OF chain_step(3), of "nb_target e" p]
    back_pairs_snoc [OF chain_walk [OF chain_step(3)], of e]
  show ?case by (simp add: backward_path_def)
qed

section \<open>Single direction: invariant\<close>

definition depth_of :: "single_state \<Rightarrow> u32 \<Rightarrow> int" where
  "depth_of s v = (case sd_parent s v of None \<Rightarrow> 0 | Some p \<Rightarrow> ps_depth p)"

definition found_ok :: "path_env \<Rightarrow> path_source \<Rightarrow> u32 \<Rightarrow> single_state \<Rightarrow> u32 \<Rightarrow> bool" where
  "found_ok env src_of src s v \<longleftrightarrow>
     (\<exists>es. chain env src_of (sd_parent s) src es v \<and> depth_of s v = int (length es))"

definition queue_ok :: "path_env \<Rightarrow> path_source \<Rightarrow> u32 \<Rightarrow> u32 set \<Rightarrow> int \<Rightarrow> single_state \<Rightarrow> bool" where
  "queue_ok env src_of src D c s \<longleftrightarrow>
     dom (sd_parent s) = sd_visited s \<and> src \<in> sd_visited s \<and>
     (\<forall>v\<in>sd_visited s. found_ok env src_of src s v) \<and>
     sd_visited s = D \<union> fst ` set (sd_frontier s) \<and>
     (\<forall>(v, d)\<in>set (sd_frontier s). d = depth_of s v \<and> c \<le> d \<and> d \<le> c + 1) \<and>
     (\<forall>v\<in>D. depth_of s v \<le> c) \<and> sorted (map snd (sd_frontier s))"

lemma queue_ok_found: "queue_ok env src_of src D c s \<Longrightarrow> v \<in> sd_visited s \<Longrightarrow> found_ok env src_of src s v"
  unfolding queue_ok_def by (elim conjE) (rule bspec)

lemma queue_ok_dom: "queue_ok env src_of src D c s \<Longrightarrow> dom (sd_parent s) = sd_visited s"
  unfolding queue_ok_def by (elim conjE) assumption

lemma queue_ok_visited: "queue_ok env src_of src D c s \<Longrightarrow> sd_visited s = D \<union> fst ` set (sd_frontier s)"
  unfolding queue_ok_def by (elim conjE) assumption

lemma queue_ok_depth: "queue_ok env src_of src D c s \<Longrightarrow> v \<in> sd_visited s \<Longrightarrow> depth_of s v \<le> c + 1"
  by (fastforce simp: queue_ok_def)

definition closed_ok :: "path_env \<Rightarrow> int \<Rightarrow> (u32 \<times> neighbor) set \<Rightarrow> single_state \<Rightarrow> bool" where
  "closed_ok env limit X s \<longleftrightarrow>
     (\<forall>(v, e)\<in>X. depth_of s v < limit \<longrightarrow> path_link env e \<longrightarrow>
        nb_target e \<in> sd_visited s \<and> depth_of s (nb_target e) \<le> depth_of s v + 1)"

definition discovered :: "u32 \<Rightarrow> int \<Rightarrow> neighbor \<Rightarrow> single_state \<Rightarrow> single_state" where
  "discovered current depth e s =
     s\<lparr>sd_visited := insert (nb_target e) (sd_visited s),
       sd_parent := (sd_parent s)(nb_target e \<mapsto>
         \<lparr>ps_parent = current, ps_edge_type = nb_type_id e, ps_depth = depth + 1\<rparr>),
       sd_frontier := sd_frontier s @ [(nb_target e, depth + 1)]\<rparr>"

lemma discovered_ok:
  assumes q: "queue_ok env src_of src D c s" and cl: "closed_ok env limit X s"
    and cur: "cur \<in> D" "depth_of s cur = c" and e: "hop env src_of cur e" "nb_target e \<notin> sd_visited s"
    and X: "fst ` X \<subseteq> D"
  shows "queue_ok env src_of src D c (discovered cur c e s)"
    "closed_ok env limit (insert (cur, e) X) (discovered cur c e s)"
    "depth_of (discovered cur c e s) cur = c"
proof -
  let ?x = "nb_target e" and ?s = "discovered cur c e s"
  note vis = queue_ok_visited [OF q]
  have d: "depth_of ?s v = (if v = ?x then c + 1 else depth_of s v)" for v
    by (simp add: depth_of_def discovered_def)
  have src: "?x \<noteq> src" using q e(2) by (auto simp: queue_ok_def)
  have curv: "cur \<in> sd_visited s" "cur \<noteq> ?x" using cur(1) vis e(2) by auto
  show "depth_of ?s cur = c" using curv cur d by simp
  have new_key: "sd_parent s ?x = None" using queue_ok_dom [OF q] e(2) by blast
  then have le: "sd_parent s \<subseteq>\<^sub>m sd_parent ?s" by (auto simp: map_le_def discovered_def)
  have old: "found_ok env src_of src ?s v" if v: "v \<in> sd_visited s" for v
  proof -
    obtain es where "chain env src_of (sd_parent s) src es v" "depth_of s v = int (length es)"
      using queue_ok_found [OF q v] unfolding found_ok_def by (elim exE conjE)
    with chain_mono [OF _ le] v e(2) show ?thesis
      unfolding found_ok_def by (intro exI [of _ es]) (auto simp: d)
  qed
  have new: "found_ok env src_of src ?s ?x"
  proof -
    obtain es where es: "chain env src_of (sd_parent ?s) src es cur" "depth_of ?s cur = int (length es)"
      using old [OF curv(1)] unfolding found_ok_def by (elim exE conjE)
    have "chain env src_of (sd_parent ?s) src (es @ [e]) ?x"
      by (rule chain_step [OF es(1) e(1) src, where p = "\<lparr>ps_parent = cur, ps_edge_type = nb_type_id e, ps_depth = c + 1\<rparr>"])
        (simp_all add: discovered_def)
    then show ?thesis
      using es(2) d cur curv unfolding found_ok_def by (intro exI [of _ "es @ [e]"]) simp
  qed
  have c0: "sorted (map snd (sd_frontier s))" "\<forall>(v, d)\<in>set (sd_frontier s). d = depth_of s v \<and> c \<le> d \<and> d \<le> c + 1"
    using q by (auto simp: queue_ok_def)
  show "queue_ok env src_of src D c ?s"
    unfolding queue_ok_def
  proof (intro conjI)
    show "dom (sd_parent ?s) = sd_visited ?s" "src \<in> sd_visited ?s"
      using q by (auto simp: queue_ok_def discovered_def)
    show "\<forall>v\<in>sd_visited ?s. found_ok env src_of src ?s v" using old new by (auto simp: discovered_def)
    show "sd_visited ?s = D \<union> fst ` set (sd_frontier ?s)" using vis by (auto simp: discovered_def)
    show "\<forall>(v, d)\<in>set (sd_frontier ?s). d = depth_of ?s v \<and> c \<le> d \<and> d \<le> c + 1"
    proof clarify
      fix v f
      assume "(v, f) \<in> set (sd_frontier ?s)"
      then consider "(v, f) \<in> set (sd_frontier s)" | "v = ?x" "f = c + 1" by (auto simp: discovered_def)
      then show "f = depth_of ?s v \<and> c \<le> f \<and> f \<le> c + 1"
      proof cases
        case 1
        then have "v \<in> sd_visited s" using vis by force
        with 1 c0(2) d e(2) show ?thesis by auto
      qed (simp add: d)
    qed
    show "\<forall>v\<in>D. depth_of ?s v \<le> c" using q d vis e(2) by (auto simp: queue_ok_def)
    show "sorted (map snd (sd_frontier ?s))"
      using c0 by (force simp: discovered_def sorted_append)
  qed
  show "closed_ok env limit (insert (cur, e) X) ?s"
    unfolding closed_ok_def
  proof (intro ballI, clarify)
    fix v f
    assume vf: "(v, f) \<in> insert (cur, e) X" "depth_of ?s v < limit" "path_link env f"
    have "v \<noteq> ?x" using vf(1) X vis e(2) curv by auto
    show "nb_target f \<in> sd_visited ?s \<and> depth_of ?s (nb_target f) \<le> depth_of ?s v + 1"
    proof (cases "(v, f) = (cur, e)")
      case True
      with d curv cur show ?thesis by (auto simp: discovered_def)
    next
      case False
      with vf(1) have "(v, f) \<in> X" by blast
      with cl vf(2,3) d \<open>v \<noteq> ?x\<close> have "nb_target f \<in> sd_visited s" "depth_of s (nb_target f) \<le> depth_of s v + 1"
        by (auto simp: closed_ok_def)
      with d \<open>v \<noteq> ?x\<close> e(2) show ?thesis by (auto simp: discovered_def)
    qed
  qed
qed

section \<open>Single direction: the loop\<close>

definition all_edges :: "path_source \<Rightarrow> u32 set \<Rightarrow> (u32 \<times> neighbor) set" where
  "all_edges src_of D = {(v, e). v \<in> D \<and> e \<in> nedges src_of v}"

lemma queue_reach:
  assumes q: "queue_ok env src_of src D c s" and src: "depth_of s src = 0"
    and cl: "\<And>v e. v \<in> sd_visited s \<Longrightarrow> depth_of s v < m \<Longrightarrow> hop env src_of v e \<Longrightarrow>
      nb_target e \<in> sd_visited s \<and> depth_of s (nb_target e) \<le> depth_of s v + 1"
  shows "path_walk env src_of src es w \<Longrightarrow> int (length es) \<le> m \<Longrightarrow>
    w \<in> sd_visited s \<and> depth_of s w \<le> int (length es)"
proof (induction es arbitrary: w rule: rev_induct)
  case Nil
  with q src show ?case by (auto simp: queue_ok_def)
next
  case (snoc e es)
  then obtain x where x: "path_walk env src_of src es x" "hop env src_of x e" "nb_target e = w"
    by (auto simp: path_walk_snoc)
  with snoc have "x \<in> sd_visited s" "depth_of s x \<le> int (length es)" by auto
  with cl [of x e] x snoc.prems(2) show ?case by auto
qed

definition loop_ok :: "path_env \<Rightarrow> path_source \<Rightarrow> int \<Rightarrow> u32 \<Rightarrow> u32 \<Rightarrow> u32 set \<Rightarrow> int \<Rightarrow> single_state \<Rightarrow> bool" where
  "loop_ok env src_of limit goal src D c s \<longleftrightarrow>
     queue_ok env src_of src D c s \<and> depth_of s src = 0 \<and> goal \<notin> sd_visited s \<and> budget_ok (sd_budget s) \<and>
     closed_ok env limit (all_edges src_of D) s"

text \<open>A goal found while a node of depth \<open>c\<close> is expanded is a nearest one.\<close>

definition single_found :: "path_env \<Rightarrow> path_source \<Rightarrow> int \<Rightarrow> u32 \<Rightarrow> u32 \<Rightarrow> single_state \<Rightarrow> bool" where
  "single_found env src_of limit goal src t \<longleftrightarrow>
     (\<exists>es. chain env src_of (sd_parent t) src es goal \<and> int (length es) \<le> limit \<and>
        (\<forall>fs. path_walk env src_of src fs goal \<longrightarrow> length es \<le> length fs))"

definition expand_result ::
  "path_env \<Rightarrow> path_source \<Rightarrow> int \<Rightarrow> u32 \<Rightarrow> u32 \<Rightarrow> u32 set \<Rightarrow> int \<Rightarrow> u32 \<Rightarrow> (u32 \<times> neighbor) set \<Rightarrow>
    search_signal \<Rightarrow> single_state \<Rightarrow> bool" where
  "expand_result env src_of limit goal src D c cur X sig t \<longleftrightarrow>
     budget_ok (sd_budget t) \<and>
     (case sig of
        Stopped \<Rightarrow> failed (sd_budget t)
      | Found \<Rightarrow> single_found env src_of limit goal src t
      | Continue \<Rightarrow> queue_ok env src_of src D c t \<and> depth_of t src = 0 \<and> goal \<notin> sd_visited t \<and>
          closed_ok env limit X t)"

lemma goal_found:
  assumes q: "queue_ok env src_of src D c s" "depth_of s src = 0" "goal \<notin> sd_visited s"
    and cl: "closed_ok env limit X s" "all_edges src_of (D - {cur}) \<subseteq> X" "c < limit"
    and cur: "depth_of s cur = c"
    and t: "queue_ok env src_of src D c t" "goal \<in> sd_visited t" "depth_of t goal = c + 1"
  shows "single_found env src_of limit goal src t"
proof -
  obtain es where es: "chain env src_of (sd_parent t) src es goal" "depth_of t goal = int (length es)"
    using queue_ok_found [OF t(1,2)] unfolding found_ok_def by (elim exE conjE)
  have step: "nb_target e \<in> sd_visited s \<and> depth_of s (nb_target e) \<le> depth_of s v + 1"
    if v: "v \<in> sd_visited s" "depth_of s v < c" "hop env src_of v e" for v e
  proof -
    have "v \<notin> fst ` set (sd_frontier s)" using v(2) q(1) by (auto simp: queue_ok_def)
    with v(1) queue_ok_visited [OF q(1)] have "v \<in> D" by auto
    then have "(v, e) \<in> X" using v cur cl(2) by (auto simp: all_edges_def hop_def)
    with cl(1,3) v show ?thesis by (auto simp: closed_ok_def hop_def)
  qed
  have "length es \<le> length fs" if "path_walk env src_of src fs goal" for fs
  proof (rule ccontr)
    assume "\<not> length es \<le> length fs"
    with es(2) t(3) have "int (length fs) \<le> c" by simp
    from queue_reach [OF q(1,2) step that this] q(3) show False by simp
  qed
  with es t(3) cl(3) show ?thesis unfolding single_found_def by (intro exI [of _ es]) auto
qed

lemma depth_discovered: "v \<noteq> nb_target e \<Longrightarrow> depth_of (discovered cur c e s) v = depth_of s v"
  by (simp add: depth_of_def discovered_def)

lemma queue_ok_budget:
  "queue_ok env src_of src D c (s\<lparr>sd_budget := b\<rparr>) = queue_ok env src_of src D c s"
  "closed_ok env limit X (s\<lparr>sd_budget := b\<rparr>) = closed_ok env limit X s"
  "depth_of (s\<lparr>sd_budget := b\<rparr>) v = depth_of s v"
  by (simp_all add: queue_ok_def closed_ok_def depth_of_def found_ok_def)

lemma single_expand_ok:
  assumes nodes: "backing_ok (backing (pe_nodes env))" and cur: "cur \<in> D" and c: "c < limit"
    and es: "set es \<subseteq> nedges src_of cur"
  shows "queue_ok env src_of src D c s \<Longrightarrow> depth_of s src = 0 \<Longrightarrow> goal \<notin> sd_visited s \<Longrightarrow>
    budget_ok (sd_budget s) \<Longrightarrow> depth_of s cur = c \<Longrightarrow> closed_ok env limit X s \<Longrightarrow> fst ` X \<subseteq> D \<Longrightarrow>
    all_edges src_of (D - {cur}) \<subseteq> X \<Longrightarrow>
    \<exists>sig t. single_expand env goal cur c es s = Inr (sig, t) \<and> budget_step (sd_budget s) (sd_budget t) \<and>
      expand_result env src_of limit goal src D c cur (X \<union> {cur} \<times> set es) sig t"
  using es
proof (induction es arbitrary: s X)
  case Nil
  then show ?case by (simp add: expand_result_def)
next
  case (Cons e es)
  obtain go ok b where g: "gate env (sd_budget s) e = Inr (go, ok, b)" "budget_ok b" "budget_step (sd_budget s) b"
    "\<not> go \<longrightarrow> failed b" "go \<longrightarrow> (ok \<longleftrightarrow> path_link env e)"
    using gate_ok [OF nodes Cons.prems(4), of e] by blast
  let ?s = "s\<lparr>sd_budget := b\<rparr>"
  have s: "queue_ok env src_of src D c ?s" "depth_of ?s src = 0" "goal \<notin> sd_visited ?s" "depth_of ?s cur = c"
    "closed_ok env limit X ?s" "budget_ok (sd_budget ?s)"
    using Cons.prems g(2) by (simp_all add: queue_ok_budget)
  have sub: "set es \<subseteq> nedges src_of cur" using Cons.prems(9) by simp
  have X: "X \<union> {cur} \<times> set (e # es) = insert (cur, e) X \<union> {cur} \<times> set es" by auto
  have X1: "fst ` insert (cur, e) X \<subseteq> D" "all_edges src_of (D - {cur}) \<subseteq> insert (cur, e) X"
    using Cons.prems(7,8) cur by auto
  consider "\<not> go" | "go" "\<not> ok \<or> nb_target e \<in> sd_visited s" | "go" "ok" "nb_target e \<notin> sd_visited s" by blast
  then show ?case
  proof cases
    case 1
    with g show ?thesis by (simp add: expand_result_def)
  next
    case 2
    have "closed_ok env limit (insert (cur, e) X) ?s"
      using 2 s(4,5) g(5) queue_ok_depth [OF s(1), of "nb_target e"]
      unfolding closed_ok_def by auto
    from Cons.IH [OF s(1-3,6,4) this X1 sub] 2 g(1,3) show ?thesis
      unfolding X by (auto simp: Let_def intro: budget_step_trans)
  next
    case 3
    have h: "hop env src_of cur e" using 3 g(5) Cons.prems(9) by (simp add: hop_def)
    have d: "discovered cur c e ?s = ?s\<lparr>sd_visited := insert (nb_target e) (sd_visited s),
      sd_parent := (sd_parent s)(nb_target e \<mapsto> \<lparr>ps_parent = cur, ps_edge_type = nb_type_id e, ps_depth = c + 1\<rparr>),
      sd_frontier := sd_frontier s @ [(nb_target e, c + 1)]\<rparr>" by (simp add: discovered_def)
    have new: "nb_target e \<notin> sd_visited ?s" using 3 by simp
    note ok' = discovered_ok [OF s(1,5) cur s(4) h new Cons.prems(7)]
    have src: "nb_target e \<noteq> src" using s(1) new by (auto simp: queue_ok_def)
    show ?thesis
    proof (cases "nb_target e = goal")
      case True
      have "depth_of (discovered cur c e ?s) goal = c + 1" "goal \<in> sd_visited (discovered cur c e ?s)"
        using True by (simp_all add: depth_of_def discovered_def)
      from goal_found [OF s(1-3,5) Cons.prems(8) c s(4) ok'(1) this(2,1)]
      show ?thesis using True 3 g d by (auto simp: Let_def expand_result_def)
    next
      case False
      have t: "depth_of (discovered cur c e ?s) src = 0" "goal \<notin> sd_visited (discovered cur c e ?s)"
        "sd_budget (discovered cur c e ?s) = b"
        using False s(2,3) src by (simp_all add: depth_discovered) (simp_all add: discovered_def)
      have "budget_ok (sd_budget (discovered cur c e ?s))" using t(3) g(2) by simp
      from Cons.IH [OF ok'(1) t(1,2) this ok'(3,2) X1 sub] False 3 g(1,3) t(3)
      show ?thesis unfolding X d by (auto simp: Let_def intro: budget_step_trans)
    qed
  qed
qed

definition loop_result ::
  "path_env \<Rightarrow> path_source \<Rightarrow> int \<Rightarrow> u32 \<Rightarrow> u32 \<Rightarrow> search_signal \<Rightarrow> single_state \<Rightarrow> bool" where
  "loop_result env src_of limit goal src sig t \<longleftrightarrow>
     budget_ok (sd_budget t) \<and>
     (case sig of
        Stopped \<Rightarrow> failed (sd_budget t)
      | Found \<Rightarrow> single_found env src_of limit goal src t
      | Continue \<Rightarrow> (\<forall>es. path_walk env src_of src es goal \<longrightarrow> limit < int (length es)))"

text \<open>The head of the queue becomes the current node.\<close>

lemma loop_ok_pop:
  assumes ok: "loop_ok env src_of limit goal src D c s" and f: "sd_frontier s = (cur, d) # rest"
  shows "queue_ok env src_of src (insert cur D) d (s\<lparr>sd_frontier := rest\<rparr>)" "depth_of s cur = d"
proof -
  have q: "queue_ok env src_of src D c s" using ok by (simp add: loop_ok_def)
  have found: "found_ok env src_of src (s\<lparr>sd_frontier := rest\<rparr>) v = found_ok env src_of src s v"
    "depth_of (s\<lparr>sd_frontier := rest\<rparr>) v = depth_of s v" for v
    by (simp_all add: found_ok_def depth_of_def)
  have "\<forall>(v, e)\<in>set ((cur, d) # rest). e = depth_of s v \<and> c \<le> e \<and> e \<le> c + 1"
    using q unfolding queue_ok_def f by (elim conjE) assumption
  moreover have "sorted (map snd ((cur, d) # rest))"
    using q unfolding queue_ok_def f by (elim conjE) assumption
  ultimately have fr: "\<forall>(v, e)\<in>set ((cur, d) # rest). e = depth_of s v \<and> c \<le> e \<and> e \<le> c + 1"
    "sorted (map snd ((cur, d) # rest))" by blast+
  then show "depth_of s cur = d" by simp
  have D: "\<forall>v\<in>D. depth_of s v \<le> c" using q by (simp add: queue_ok_def)
  show "queue_ok env src_of src (insert cur D) d (s\<lparr>sd_frontier := rest\<rparr>)"
    unfolding queue_ok_def found
  proof (intro conjI)
    show "\<forall>v\<in>sd_visited (s\<lparr>sd_frontier := rest\<rparr>). found_ok env src_of src s v"
      using queue_ok_found [OF q] by simp
    show "\<forall>v\<in>insert cur D. depth_of s v \<le> d" using D fr by fastforce
    show "\<forall>(v, e)\<in>set (sd_frontier (s\<lparr>sd_frontier := rest\<rparr>)). e = depth_of s v \<and> d \<le> e \<and> e \<le> d + 1"
    proof clarify
      fix v e
      assume "(v, e) \<in> set (sd_frontier (s\<lparr>sd_frontier := rest\<rparr>))"
      then have "(v, e) \<in> set rest" by simp
      then have "e \<in> set (map snd rest)" "e = depth_of s v" "e \<le> c + 1" using fr(1) by force+
      with fr show "e = depth_of s v \<and> d \<le> e \<and> e \<le> d + 1" by auto
    qed
    show "sorted (map snd (sd_frontier (s\<lparr>sd_frontier := rest\<rparr>)))" using fr(2) by simp
    show "sd_visited (s\<lparr>sd_frontier := rest\<rparr>) = insert cur D \<union> fst ` set (sd_frontier (s\<lparr>sd_frontier := rest\<rparr>))"
      using queue_ok_visited [OF q] f by simp
    show "src \<in> sd_visited (s\<lparr>sd_frontier := rest\<rparr>)" using q unfolding queue_ok_def by simp blast
    show "dom (sd_parent (s\<lparr>sd_frontier := rest\<rparr>)) = sd_visited (s\<lparr>sd_frontier := rest\<rparr>)"
      using queue_ok_dom [OF q] by simp
  qed
qed

lemma single_loop_ok:
  assumes nodes: "backing_ok (backing (pe_nodes env))" and src_ok: "path_source_ok src_of"
  shows "loop_ok env src_of limit goal src D c s \<Longrightarrow>
    \<exists>sig t. single_loop env src_of goal limit s = Inr (sig, t) \<and> budget_step (sd_budget s) (sd_budget t) \<and>
      loop_result env src_of limit goal src sig t"
  using assms
proof (induction env src_of goal limit s arbitrary: D c rule: single_loop.induct)
  case (1 env src_of goal limit s)
  note ok = "1.prems"(1) and nodes = "1.prems"(2) and src_ok = "1.prems"(3)
  have q: "queue_ok env src_of src D c s" "depth_of s src = 0" "goal \<notin> sd_visited s" "budget_ok (sd_budget s)"
    "closed_ok env limit (all_edges src_of D) s" using ok by (auto simp: loop_ok_def)
  show ?case
  proof (cases "sd_frontier s")
    case Nil
    have D: "D = sd_visited s" using queue_ok_visited [OF q(1)] Nil by simp
    have "limit < int (length es)" if w: "path_walk env src_of src es goal" for es
    proof (rule ccontr)
      assume "\<not> limit < int (length es)"
      moreover have "nb_target e \<in> sd_visited s \<and> depth_of s (nb_target e) \<le> depth_of s v + 1"
        if "v \<in> sd_visited s" "depth_of s v < limit" "hop env src_of v e" for v e
        using q(5) that D by (auto simp: closed_ok_def all_edges_def hop_def)
      ultimately show False using queue_reach [OF q(1,2) _ w, of limit] q(3) by fastforce
    qed
    with Nil q(4) show ?thesis by (simp add: single_loop.simps [of env] loop_result_def)
  next
    case (Cons entry rest)
    obtain cur d where e: "entry = (cur, d)" by (cases entry)
    note pop = loop_ok_pop [OF ok Cons [unfolded e]]
    let ?s = "s\<lparr>sd_frontier := rest\<rparr>"
    have s: "depth_of ?s v = depth_of s v" "sd_visited ?s = sd_visited s" "sd_budget ?s = sd_budget s" for v
      by (simp_all add: depth_of_def)
    have closed_old: "closed_ok env limit (all_edges src_of D) ?s" using q(5) by (simp add: closed_ok_def s)
    show ?thesis
    proof (cases "limit \<le> d")
      case True
      have "closed_ok env limit (all_edges src_of (insert cur D)) ?s"
        using closed_old True pop(2) by (auto simp: closed_ok_def all_edges_def s)
      then have "loop_ok env src_of limit goal src (insert cur D) d ?s"
        using pop(1) q(2-4) by (simp add: loop_ok_def s)
      from "1.IH"(1) [OF Cons e [symmetric] refl True this nodes src_ok] True Cons e
      show ?thesis by (simp add: single_loop.simps [of env _ _ _ s] s)
    next
      case False
      obtain es where es: "src_of cur = Inr es" using src_ok by (auto simp: path_source_ok_def)
      have sub: "set es \<subseteq> nedges src_of cur" using es by (simp add: nedges_def)
      have c': "d < limit" "cur \<in> insert cur D" using False by simp_all
      have s0: "depth_of ?s src = 0" "goal \<notin> sd_visited ?s" "budget_ok (sd_budget ?s)" "depth_of ?s cur = d"
        using q(2-4) pop(2) by (simp_all add: s)
      have X: "fst ` all_edges src_of D \<subseteq> insert cur D" "all_edges src_of (insert cur D - {cur}) \<subseteq> all_edges src_of D"
        by (auto simp: all_edges_def)
      obtain sig t where t: "single_expand env goal cur d es ?s = Inr (sig, t)"
        "budget_step (sd_budget ?s) (sd_budget t)"
        "expand_result env src_of limit goal src (insert cur D) d cur (all_edges src_of D \<union> {cur} \<times> set es) sig t"
        using single_expand_ok [OF nodes c'(2,1) sub pop(1) s0(1-4) closed_old X] by blast
      have edges: "all_edges src_of D \<union> {cur} \<times> set es = all_edges src_of (insert cur D)"
        using es by (auto simp: all_edges_def nedges_def)
      show ?thesis
      proof (cases sig)
        case cont: Continue
        have "loop_ok env src_of limit goal src (insert cur D) d t"
          using t(3) cont by (simp add: expand_result_def loop_ok_def edges)
        from "1.IH"(2) [OF Cons e [symmetric] refl False es t(1) refl cont this nodes src_ok]
        show ?thesis using t(1,2) cont es Cons e False
          by (auto simp: single_loop.simps [of env _ _ _ s] s intro: budget_step_trans)
      next
        case Stopped
        with t es Cons e False show ?thesis
          by (auto simp: single_loop.simps [of env _ _ _ s] s loop_result_def expand_result_def)
      next
        case Found
        with t es Cons e False show ?thesis
          by (auto simp: single_loop.simps [of env _ _ _ s] s loop_result_def expand_result_def)
      qed
    qed
  qed
qed

section \<open>Rows\<close>

definition path_row :: "path_env \<Rightarrow> path_request \<Rightarrow> nat \<times> u32 \<times> edge_type_id \<Rightarrow> path_step" where
  "path_row env rq = (\<lambda>(i, node, t). \<lparr>pt_step = word_of_nat i, pt_node_table = fst (identity_of env node),
     pt_node_id = snd (identity_of env node),
     pt_edge_label = (if i = 0 then None else Some (resolve_edge_type_label (rq_registry rq) (rq_label rq) t))\<rparr>)"

definition path_rows :: "path_env \<Rightarrow> path_request \<Rightarrow> neighbor list \<Rightarrow> path_step list" where
  "path_rows env rq es = map (path_row env rq) (enumerate 0 (path_pairs (rq_source rq) es))"

lemma row_at_eq:
  "backing_ok (backing (pe_nodes env)) \<Longrightarrow> unat v < path_nodes env \<Longrightarrow>
    row_at env rq (i, v, t) = Inr (Some (path_row env rq (i, v, t)))"
  by (simp add: row_at_def path_row_def node_identity_eq split_beta)

lemma walk_nodes:
  assumes "path_walk env src_of u es v" "unat u < path_nodes env" "e \<in> set es"
  shows "unat (nb_target e) < path_nodes env"
  using assms by (induction es arbitrary: u) (auto simp: hop_def path_link_def live_def)

lemma rows_collected_path:
  assumes "backing_ok (backing (pe_nodes env))" "path_walk env src_of (rq_source rq) es v"
    "unat (rq_source rq) < path_nodes env"
  shows "collect_opt (row_at env rq) (enumerate 0 (path_pairs (rq_source rq) es)) = Inr (Some (path_rows env rq es))"
  unfolding path_rows_def
proof (rule collect_opt_ok)
  fix x assume x: "x \<in> set (enumerate 0 (path_pairs (rq_source rq) es))"
  obtain i u t where eq: "x = (i, u, t)" by (cases x)
  have "(u, t) \<in> set (path_pairs (rq_source rq) es)"
    using x eq by (auto simp: enumerate_eq_zip dest: set_zip_rightD)
  then have "unat u < path_nodes env"
    using walk_nodes [OF assms(2,3)] assms(3) by (auto simp: path_pairs_def edge_pairs_def)
  from row_at_eq [OF assms(1) this] show "row_at env rq x = Inr (Some (path_row env rq x))"
    by (simp add: eq)
qed

definition fewest_hops :: "path_env \<Rightarrow> path_source \<Rightarrow> path_request \<Rightarrow> path_step list \<Rightarrow> bool" where
  "fewest_hops env src_of rq rows \<longleftrightarrow>
     (\<exists>es. path_walk env src_of (rq_source rq) es (rq_target rq) \<and>
        (es = [] \<or> int (length es) \<le> rq_max_depth rq) \<and>
        (\<forall>fs. path_walk env src_of (rq_source rq) fs (rq_target rq) \<longrightarrow> length es \<le> length fs) \<and>
        rows = path_rows env rq es)"

definition no_path :: "path_env \<Rightarrow> path_source \<Rightarrow> path_request \<Rightarrow> bool" where
  "no_path env src_of rq \<longleftrightarrow>
     path_nodes env \<le> unat (rq_source rq) \<or> path_nodes env \<le> unat (rq_target rq) \<or>
     \<not> allows_node (pe_scope env) (rq_source rq) \<or> \<not> allows_node (pe_scope env) (rq_target rq) \<or>
     (rq_source rq \<noteq> rq_target rq \<and>
      (\<forall>es. path_walk env src_of (rq_source rq) es (rq_target rq) \<longrightarrow> rq_max_depth rq < int (length es)))"

definition path_outcome :: "path_env \<Rightarrow> path_source \<Rightarrow> path_request \<Rightarrow> path_step list option \<Rightarrow> bool" where
  "path_outcome env src_of rq r \<longleftrightarrow>
     (case r of None \<Rightarrow> no_path env src_of rq | Some rows \<Rightarrow> fewest_hops env src_of rq rows)"

text \<open>What both searches promise: a budget that may have failed, or the outcome.\<close>

definition search_returns ::
  "path_env \<Rightarrow> path_source \<Rightarrow> path_request \<Rightarrow> path_work_budget option \<Rightarrow>
    (graph_error, path_work_budget option \<times> path_step list option) rust_result option \<Rightarrow> bool" where
  "search_returns env src_of rq b r \<longleftrightarrow>
     (\<exists>b' rows. r = Some (Inr (b', rows)) \<and> budget_ok b' \<and> budget_step b b' \<and>
        (failed b' \<or> path_outcome env src_of rq rows))"

lemma search_returnsI:
  "r = Some (Inr (b', rows)) \<Longrightarrow> budget_ok b' \<Longrightarrow> budget_step b b' \<Longrightarrow>
    failed b' \<or> path_outcome env src_of rq rows \<Longrightarrow> search_returns env src_of rq b r"
  by (auto simp: search_returns_def)

lemma single_direction_ok:
  assumes nodes: "backing_ok (backing (pe_nodes env))" and src_ok: "path_source_ok src_of" and b: "budget_ok b"
    and rng: "unat (rq_source rq) < path_nodes env" and ne: "rq_source rq \<noteq> rq_target rq"
  shows "search_returns env src_of rq b (single_direction_bfs env src_of rq b)"
proof -
  let ?src = "rq_source rq" and ?goal = "rq_target rq" and ?s = "single_start (rq_source rq) b"
  have "chain env src_of (sd_parent ?s) ?src [] ?src"
    by (rule chain_root [where p = "\<lparr>ps_parent = ?src, ps_edge_type = UNTYPED, ps_depth = 0\<rparr>"])
      (simp_all add: single_start_def)
  then have "found_ok env src_of ?src ?s ?src"
    unfolding found_ok_def by (intro exI [of _ "[]"]) (simp add: depth_of_def single_start_def)
  then have "loop_ok env src_of (rq_max_depth rq) ?goal ?src {} 0 ?s"
    using ne b by (simp add: loop_ok_def queue_ok_def single_start_def closed_ok_def all_edges_def depth_of_def)
  from single_loop_ok [OF nodes src_ok this] obtain sig t where
    t: "single_loop env src_of ?goal (rq_max_depth rq) ?s = Inr (sig, t)"
    "budget_step b (sd_budget t)" "loop_result env src_of (rq_max_depth rq) ?goal ?src sig t"
    by (auto simp: single_start_def)
  have bt: "budget_ok (sd_budget t)" using t(3) by (simp add: loop_result_def)
  show ?thesis
  proof (cases "sig = Found")
    case False
    then have "single_direction_bfs env src_of rq b = Some (Inr (sd_budget t, None))"
      using t(1) by (simp add: single_direction_bfs_def)
    moreover have "failed (sd_budget t) \<or> path_outcome env src_of rq None"
      using False t(3) ne by (cases sig) (auto simp: loop_result_def path_outcome_def no_path_def)
    ultimately show ?thesis using bt t(2) by (intro search_returnsI) 
  next
    case True
    then obtain es where es: "chain env src_of (sd_parent t) ?src es ?goal" "int (length es) \<le> rq_max_depth rq"
      "\<And>fs. path_walk env src_of ?src fs ?goal \<Longrightarrow> length es \<le> length fs"
      using t(3) by (auto simp: loop_result_def single_found_def)
    note w = chain_walk [OF es(1)]
    have "single_direction_bfs env src_of rq b = Some (Inr (sd_budget t, Some (path_rows env rq es)))"
      using t(1) True chain_single [OF es(1)] rows_collected_path [OF nodes w rng]
      by (simp add: single_direction_bfs_def)
    moreover have "path_outcome env src_of rq (Some (path_rows env rq es))"
      using es w by (auto simp: path_outcome_def fewest_hops_def)
    ultimately show ?thesis using bt t(2) by (intro search_returnsI) auto
  qed
qed

end
