(* ===== verification/BidirectionalProofs.thy ===== *)
theory BidirectionalProofs
  imports ShortestPathProofs DijkstraProofs
begin

text \<open>
  Correctness of the bidirectional search. Each side keeps the ball of the nodes within as many
  hops of its root as it expanded levels; while the balls are disjoint no walk is as short as
  the sum of their radii, so the first level that makes them meet yields a shortest path.
\<close>

section \<open>One side\<close>

definition side_ok ::
  "path_env \<Rightarrow> path_source \<Rightarrow> u32 \<Rightarrow> nat \<Rightarrow> nat \<Rightarrow> u32 set \<Rightarrow> search_side \<Rightarrow> bool" where
  "side_ok env src_of root a k W m \<longleftrightarrow>
     dom (bd_parent m) = bd_visited m \<and> root \<in> bd_visited m \<and>
     (\<forall>v\<in>bd_visited m. \<exists>es. chain env src_of (bd_parent m) root es v \<and>
        length es \<le> (if v \<in> set (drop k (bd_frontier m)) then Suc a else a)) \<and>
     (\<forall>v\<in>set (drop k (bd_frontier m)). \<forall>es. path_walk env src_of root es v \<longrightarrow> a < length es) \<and>
     set (bd_frontier m) \<subseteq> bd_visited m \<and> distinct (bd_frontier m) \<and> k \<le> length (bd_frontier m) \<and>
     (\<forall>v\<in>bd_visited m - set (bd_frontier m) - W. \<forall>e. hop env src_of v e \<longrightarrow> nb_target e \<in> bd_visited m) \<and>
     (\<forall>es v. path_walk env src_of root es v \<longrightarrow> length es \<le> a \<longrightarrow> v \<in> bd_visited m) \<and>
     (\<forall>p\<in>ran (bd_parent m). 0 \<le> ps_depth p \<and> ps_depth p < 2 ^ 30)"

lemma side_ok_dom: "side_ok env src_of root a k W m \<Longrightarrow> dom (bd_parent m) = bd_visited m"
  unfolding side_ok_def by (elim conjE) assumption

lemma side_ok_chain:
  "side_ok env src_of root a k W m \<Longrightarrow> v \<in> bd_visited m \<Longrightarrow>
    \<exists>es. chain env src_of (bd_parent m) root es v \<and>
      length es \<le> (if v \<in> set (drop k (bd_frontier m)) then Suc a else a)"
  unfolding side_ok_def by (elim conjE) (rule bspec)

lemma side_ok_new:
  "side_ok env src_of root a k W m \<Longrightarrow>
    \<forall>v\<in>set (drop k (bd_frontier m)). \<forall>es. path_walk env src_of root es v \<longrightarrow> a < length es"
  unfolding side_ok_def by (elim conjE) assumption

lemma side_ok_frontier:
  "side_ok env src_of root a k W m \<Longrightarrow>
    set (bd_frontier m) \<subseteq> bd_visited m \<and> distinct (bd_frontier m) \<and> k \<le> length (bd_frontier m)"
  unfolding side_ok_def by (elim conjE) (intro conjI)

lemma side_ok_closed:
  "side_ok env src_of root a k W m \<Longrightarrow>
    \<forall>v\<in>bd_visited m - set (bd_frontier m) - W. \<forall>e. hop env src_of v e \<longrightarrow> nb_target e \<in> bd_visited m"
  unfolding side_ok_def by (elim conjE) assumption

lemma side_ok_ball:
  "side_ok env src_of root a k W m \<Longrightarrow> path_walk env src_of root es v \<Longrightarrow> length es \<le> a \<Longrightarrow> v \<in> bd_visited m"
  unfolding side_ok_def by (elim conjE) blast

lemma side_ok_depth:
  "side_ok env src_of root a k W m \<Longrightarrow> bd_parent m v = Some p \<Longrightarrow> 0 \<le> ps_depth p \<and> ps_depth p < 2 ^ 30"
  unfolding side_ok_def by (elim conjE) (rule bspec, assumption, rule ranI)

lemma side_ok_root: "side_ok env src_of root a k W m \<Longrightarrow> root \<in> bd_visited m"
  unfolding side_ok_def by (elim conjE) assumption

text \<open>A node that the side has not visited is added at the back of its frontier.\<close>

definition enter :: "u32 \<Rightarrow> int \<Rightarrow> neighbor \<Rightarrow> search_side \<Rightarrow> search_side" where
  "enter current new_depth e m = (if nb_target e \<in> bd_visited m then m
     else m\<lparr>bd_visited := insert (nb_target e) (bd_visited m),
            bd_parent := (bd_parent m)(nb_target e \<mapsto>
              \<lparr>ps_parent = current, ps_edge_type = nb_type_id e, ps_depth = new_depth\<rparr>),
            bd_frontier := bd_frontier m @ [nb_target e]\<rparr>)"

lemma enter_visited [simp]: "bd_visited (enter cur nd e m) = insert (nb_target e) (bd_visited m)"
  by (auto simp: enter_def)

lemma enter_ok:
  assumes m: "side_ok env src_of root a k W m" and cur: "W = {cur}" "cur \<in> bd_visited m" "cur \<notin> set (drop k (bd_frontier m))"
    and e: "hop env src_of cur e" and nd: "0 \<le> nd" "nd < 2 ^ 30"
  shows "side_ok env src_of root a k W (enter cur nd e m) \<and> cur \<notin> set (drop k (bd_frontier (enter cur nd e m)))"
proof (cases "nb_target e \<in> bd_visited m")
  case True
  with m cur show ?thesis by (simp add: enter_def)
next
  case False
  let ?x = "nb_target e" and ?m = "enter cur nd e m"
  have f: "bd_frontier ?m = bd_frontier m @ [?x]"
    "bd_parent ?m = (bd_parent m)(?x \<mapsto> \<lparr>ps_parent = cur, ps_edge_type = nb_type_id e, ps_depth = nd\<rparr>)"
    using False by (simp_all add: enter_def)
  have fr: "set (bd_frontier m) \<subseteq> bd_visited m" "distinct (bd_frontier m)" "k \<le> length (bd_frontier m)"
    using side_ok_frontier [OF m] by auto
  have drop: "drop k (bd_frontier ?m) = drop k (bd_frontier m) @ [?x]" using f fr by simp
  have none: "bd_parent m ?x = None" using False side_ok_dom [OF m] by blast
  have le: "bd_parent m \<subseteq>\<^sub>m bd_parent ?m" using none by (auto simp: map_le_def f)
  have root: "root \<in> bd_visited m" by (rule side_ok_root [OF m])
  have ne: "?x \<noteq> root" "cur \<noteq> ?x" using False root cur by auto
  have chains: "\<exists>es. chain env src_of (bd_parent ?m) root es v \<and>
      length es \<le> (if v \<in> set (drop k (bd_frontier ?m)) then Suc a else a)" if v: "v \<in> bd_visited ?m" for v
  proof (cases "v = ?x")
    case True
    obtain es where es: "chain env src_of (bd_parent m) root es cur" "length es \<le> a"
      using side_ok_chain [OF m cur(2)] cur(3) by auto
    have "chain env src_of (bd_parent ?m) root (es @ [e]) ?x"
      by (rule chain_step [OF chain_mono [OF es(1) le] e ne(1),
            where p = "\<lparr>ps_parent = cur, ps_edge_type = nb_type_id e, ps_depth = nd\<rparr>"]) (simp_all add: f)
    with es(2) True drop show ?thesis by (intro exI [of _ "es @ [e]"]) simp
  next
    case False
    with v have "v \<in> bd_visited m" by simp
    from side_ok_chain [OF m this] obtain es where "chain env src_of (bd_parent m) root es v"
      "length es \<le> (if v \<in> set (drop k (bd_frontier m)) then Suc a else a)" by blast
    with chain_mono [OF _ le] False drop show ?thesis by (intro exI [of _ es]) simp
  qed
  have far: "a < length es" if "path_walk env src_of root es ?x" for es
    using side_ok_ball [OF m that] False by (rule_tac ccontr) simp
  have "side_ok env src_of root a k W ?m"
    unfolding side_ok_def
  proof (intro conjI)
    show "dom (bd_parent ?m) = bd_visited ?m" using side_ok_dom [OF m] by (simp add: f)
    show "root \<in> bd_visited ?m" using root by simp
    show "\<forall>v\<in>bd_visited ?m. \<exists>es. chain env src_of (bd_parent ?m) root es v \<and>
      length es \<le> (if v \<in> set (drop k (bd_frontier ?m)) then Suc a else a)" using chains by blast
    show "\<forall>v\<in>set (drop k (bd_frontier ?m)). \<forall>es. path_walk env src_of root es v \<longrightarrow> a < length es"
      using side_ok_new [OF m] far unfolding drop by auto
    show "set (bd_frontier ?m) \<subseteq> bd_visited ?m" "k \<le> length (bd_frontier ?m)" using fr by (auto simp: f(1))
    show "distinct (bd_frontier ?m)" using fr False by (auto simp: f(1))
    show "\<forall>v\<in>bd_visited ?m - set (bd_frontier ?m) - W. \<forall>e. hop env src_of v e \<longrightarrow> nb_target e \<in> bd_visited ?m"
      using side_ok_closed [OF m] by (auto simp: f(1))
    show "\<forall>es v. path_walk env src_of root es v \<longrightarrow> length es \<le> a \<longrightarrow> v \<in> bd_visited ?m"
      using side_ok_ball [OF m] by auto
    show "\<forall>p\<in>ran (bd_parent ?m). 0 \<le> ps_depth p \<and> ps_depth p < 2 ^ 30"
      using side_ok_depth [OF m] nd none by (auto simp: f(2) ran_def)
  qed
  with cur drop ne show ?thesis by auto
qed

section \<open>Meeting\<close>

definition meet_ok :: "search_side \<Rightarrow> search_side \<Rightarrow> bidirectional_state \<Rightarrow> bool" where
  "meet_ok mine other s \<longleftrightarrow> budget_ok (bi_budget s) \<and>
     (case meeting_node s of
        None \<Rightarrow> best_combined s = I32_MAX \<and> bd_visited mine \<inter> bd_visited other = {}
      | Some x \<Rightarrow> x \<in> bd_visited mine \<inter> bd_visited other)"

lemma i32_wrap_small: "0 \<le> i \<Longrightarrow> i < 2 ^ 31 \<Longrightarrow> i32_wrap i = i"
  by (simp add: i32_wrap_def signed_of_int signed_take_bit_int_eq_self)

lemma meet_candidate_ok:
  assumes m: "side_ok env src_of root a k W m" and cur: "W = {cur}" "cur \<in> bd_visited m" "cur \<notin> set (drop k (bd_frontier m))"
    and e: "hop env src_of cur e" and nd: "0 \<le> nd" "nd < 2 ^ 30"
    and o': "side_ok env src_of root' b j {} other" and s: "meet_ok m other s"
  shows "\<exists>t. meet_candidate cur nd e other m s = Inr (enter cur nd e m, t) \<and>
    meet_ok (enter cur nd e m) other t \<and> bi_budget t = bi_budget s"
proof -
  let ?m = "enter cur nd e m" and ?x = "nb_target e"
  have fold: "(if ?x \<in> bd_visited m then m
      else m\<lparr>bd_visited := insert ?x (bd_visited m),
             bd_parent := (bd_parent m)(?x \<mapsto> \<lparr>ps_parent = cur, ps_edge_type = nb_type_id e, ps_depth = nd\<rparr>),
             bd_frontier := bd_frontier m @ [?x]\<rparr>) = ?m" by (simp add: enter_def)
  note ok = enter_ok [OF m cur e nd, THEN conjunct1]
  show ?thesis
  proof (cases "?x \<in> bd_visited other")
    case False
    with s show ?thesis
      by (auto simp: meet_candidate_def Let_def fold meet_ok_def split: option.splits)
  next
    case True
    obtain p where p: "bd_parent ?m ?x = Some p" using side_ok_dom [OF ok] by auto
    obtain q where q: "bd_parent other ?x = Some q" using side_ok_dom [OF o'] True by auto
    have d: "0 \<le> ps_depth p + ps_depth q" "ps_depth p + ps_depth q < I32_MAX"
      using side_ok_depth [OF ok p] side_ok_depth [OF o' q] by (simp_all add: I32_MAX_def)
    then have w: "i32_wrap (ps_depth p + ps_depth q) = ps_depth p + ps_depth q"
      by (intro i32_wrap_small) (simp_all add: I32_MAX_def)
    show ?thesis
      using s True d(2) by (auto simp: meet_candidate_def Let_def fold p q w meet_ok_def split: option.splits)
  qed
qed

section \<open>Levels\<close>

lemma meet_ok_budget: "budget_ok b \<Longrightarrow> meet_ok m other s \<Longrightarrow> meet_ok m other (s\<lparr>bi_budget := b\<rparr>)"
  by (simp add: meet_ok_def split: option.splits)

lemma side_ok_close:
  "side_ok env src_of root a k W m \<Longrightarrow>
    \<forall>v\<in>bd_visited m - set (bd_frontier m) - W'. \<forall>e. hop env src_of v e \<longrightarrow> nb_target e \<in> bd_visited m \<Longrightarrow>
    side_ok env src_of root a k W' m"
  unfolding side_ok_def by (elim conjE) (intro conjI)

lemma side_expand_ok:
  assumes nodes: "backing_ok (backing (pe_nodes env))" and o': "side_ok env src_of root' b j {} other"
    and nd: "0 \<le> nd" "nd < 2 ^ 30"
  shows "side_ok env src_of root a k {cur} m \<Longrightarrow> cur \<in> bd_visited m \<Longrightarrow> cur \<notin> set (drop k (bd_frontier m)) \<Longrightarrow>
    meet_ok m other s \<Longrightarrow> set es \<subseteq> nedges src_of cur \<Longrightarrow>
    (\<And>e. e \<in> nedges src_of cur - set es \<Longrightarrow> path_link env e \<Longrightarrow> nb_target e \<in> bd_visited m) \<Longrightarrow>
    \<exists>go n t. side_expand env cur nd es other m s = Inr (go, n, t) \<and> budget_ok (bi_budget t) \<and>
      budget_step (bi_budget s) (bi_budget t) \<and> (\<not> go \<longrightarrow> failed (bi_budget t)) \<and>
      (go \<longrightarrow> side_ok env src_of root a k {} n \<and> meet_ok n other t)"
proof (induction es arbitrary: m s)
  case Nil
  have "side_ok env src_of root a k {} m"
    by (rule side_ok_close [OF Nil.prems(1)])
      (use side_ok_closed [OF Nil.prems(1)] Nil.prems(6) in \<open>auto simp: hop_def\<close>)
  with Nil.prems(4) show ?case by (intro exI [of _ True]) (simp add: meet_ok_def)
next
  case (Cons e es)
  have b: "budget_ok (bi_budget s)" using Cons.prems(4) by (simp add: meet_ok_def)
  obtain go ok c where g: "gate env (bi_budget s) e = Inr (go, ok, c)" "budget_ok c" "budget_step (bi_budget s) c"
    "\<not> go \<longrightarrow> failed c" "go \<longrightarrow> (ok \<longleftrightarrow> path_link env e)"
    using gate_ok [OF nodes b, of e] by blast
  let ?s = "s\<lparr>bi_budget := c\<rparr>"
  have s: "meet_ok m other ?s" using meet_ok_budget [OF g(2) Cons.prems(4)] .
  have sub: "set es \<subseteq> nedges src_of cur" using Cons.prems(5) by simp
  consider "\<not> go" | "go" "\<not> ok" | "go" "ok" by blast
  then show ?case
  proof cases
    case 1
    with g show ?thesis by (intro exI [of _ False]) simp
  next
    case 2
    have "nb_target f \<in> bd_visited m" if "f \<in> nedges src_of cur - set es" "path_link env f" for f
      using Cons.prems(6) that 2 g(5) by auto
    from Cons.IH [OF Cons.prems(1-3) s sub this] 2 g(1,3) show ?thesis
      by (auto simp: Let_def intro: budget_step_trans)
  next
    case 3
    have h: "hop env src_of cur e" using 3 g(5) Cons.prems(5) by (simp add: hop_def)
    note ent = enter_ok [OF Cons.prems(1) refl Cons.prems(2,3) h nd]
    obtain t where t: "meet_candidate cur nd e other m ?s = Inr (enter cur nd e m, t)"
      "meet_ok (enter cur nd e m) other t" "bi_budget t = c"
      using meet_candidate_ok [OF Cons.prems(1) refl Cons.prems(2,3) h nd o' s] by auto
    have cur: "cur \<in> bd_visited (enter cur nd e m)" using Cons.prems(2) by simp
    have rest: "nb_target f \<in> bd_visited (enter cur nd e m)"
      if "f \<in> nedges src_of cur - set es" "path_link env f" for f
      using Cons.prems(6) that by auto
    from Cons.IH [OF conjunct1 [OF ent] cur conjunct2 [OF ent] t(2) sub rest] 3 g(1,3) t(1,3)
    show ?thesis by (auto simp: Let_def intro: budget_step_trans)
  qed
qed

lemma side_pop:
  assumes m: "side_ok env src_of root a (Suc k) {} m" and f: "bd_frontier m = cur # rest"
  shows "side_ok env src_of root a k {cur} (m\<lparr>bd_frontier := rest\<rparr>)" "cur \<notin> set (drop k rest)"
    "cur \<in> bd_visited m"
proof -
  note fr = side_ok_frontier [OF m]
  show "cur \<notin> set (drop k rest)" "cur \<in> bd_visited m" using fr f by (auto dest: in_set_dropD)
  show "side_ok env src_of root a k {cur} (m\<lparr>bd_frontier := rest\<rparr>)"
    unfolding side_ok_def
  proof (intro conjI)
    show "\<forall>v\<in>bd_visited (m\<lparr>bd_frontier := rest\<rparr>). \<exists>es. chain env src_of (bd_parent (m\<lparr>bd_frontier := rest\<rparr>)) root es v \<and>
        length es \<le> (if v \<in> set (drop k (bd_frontier (m\<lparr>bd_frontier := rest\<rparr>))) then Suc a else a)"
      using side_ok_chain [OF m] f by simp
    show "\<forall>v\<in>set (drop k (bd_frontier (m\<lparr>bd_frontier := rest\<rparr>))). \<forall>es. path_walk env src_of root es v \<longrightarrow> a < length es"
      using side_ok_new [OF m] f by simp
    show "\<forall>v\<in>bd_visited (m\<lparr>bd_frontier := rest\<rparr>) - set (bd_frontier (m\<lparr>bd_frontier := rest\<rparr>)) - {cur}.
        \<forall>e. hop env src_of v e \<longrightarrow> nb_target e \<in> bd_visited (m\<lparr>bd_frontier := rest\<rparr>)"
      using side_ok_closed [OF m] f by auto
    show "\<forall>es v. path_walk env src_of root es v \<longrightarrow> length es \<le> a \<longrightarrow> v \<in> bd_visited (m\<lparr>bd_frontier := rest\<rparr>)"
      using side_ok_ball [OF m] by simp
    show "\<forall>p\<in>ran (bd_parent (m\<lparr>bd_frontier := rest\<rparr>)). 0 \<le> ps_depth p \<and> ps_depth p < 2 ^ 30"
      using m by (simp add: side_ok_def)
  qed (use fr f side_ok_dom [OF m] side_ok_root [OF m] in auto)
qed

lemma side_level_ok:
  assumes nodes: "backing_ok (backing (pe_nodes env))" and src_ok: "path_source_ok src_of"
    and o': "side_ok env src_of root' b j {} other" and nd: "0 \<le> nd" "nd < 2 ^ 30"
  shows "side_ok env src_of root a k {} m \<Longrightarrow> meet_ok m other s \<Longrightarrow>
    \<exists>go n t. side_level env src_of nd k other m s = Inr (go, n, t) \<and> budget_ok (bi_budget t) \<and>
      budget_step (bi_budget s) (bi_budget t) \<and> (\<not> go \<longrightarrow> failed (bi_budget t)) \<and>
      (go \<longrightarrow> side_ok env src_of root a 0 {} n \<and> meet_ok n other t)"
proof (induction k arbitrary: m s)
  case 0
  then show ?case by (intro exI [of _ True]) (simp add: meet_ok_def)
next
  case (Suc k)
  obtain cur rest where f: "bd_frontier m = cur # rest"
    using side_ok_frontier [OF Suc.prems(1)] by (cases "bd_frontier m") auto
  note pop = side_pop [OF Suc.prems(1) f]
  let ?m = "m\<lparr>bd_frontier := rest\<rparr>"
  obtain es where es: "src_of cur = Inr es" using src_ok by (auto simp: path_source_ok_def)
  have pre: "cur \<in> bd_visited ?m" "cur \<notin> set (drop k (bd_frontier ?m))" "meet_ok ?m other s"
    "set es \<subseteq> nedges src_of cur" "nedges src_of cur - set es = {}"
    using pop Suc.prems(2) es by (simp_all add: meet_ok_def nedges_def split: option.splits)
  obtain go n t where t: "side_expand env cur nd es other ?m s = Inr (go, n, t)" "budget_ok (bi_budget t)"
    "budget_step (bi_budget s) (bi_budget t)" "\<not> go \<longrightarrow> failed (bi_budget t)"
    "go \<longrightarrow> side_ok env src_of root a k {} n \<and> meet_ok n other t"
    using side_expand_ok [OF nodes o' nd pop(1) pre(1-4)] pre(5) by blast
  show ?case
  proof (cases go)
    case False
    with t f es show ?thesis by (intro exI [of _ False]) simp
  next
    case True
    with t(5) have "side_ok env src_of root a k {} n" "meet_ok n other t" by simp_all
    from Suc.IH [OF this] True t(1,3) f es show ?thesis by (auto intro: budget_step_trans)
  qed
qed

text \<open>A whole level gives the ball one hop wider.\<close>

lemma side_ok_wider:
  assumes m: "side_ok env src_of root a 0 {} m"
  shows "side_ok env src_of root (Suc a) (length (bd_frontier m)) {} m"
  unfolding side_ok_def
proof (intro conjI)
  show "\<forall>v\<in>bd_visited m. \<exists>es. chain env src_of (bd_parent m) root es v \<and>
      length es \<le> (if v \<in> set (drop (length (bd_frontier m)) (bd_frontier m)) then Suc (Suc a) else Suc a)"
  proof
    fix v assume "v \<in> bd_visited m"
    from side_ok_chain [OF m this] obtain es where "chain env src_of (bd_parent m) root es v"
      "length es \<le> Suc a" by (auto split: if_splits)
    then show "\<exists>es. chain env src_of (bd_parent m) root es v \<and>
      length es \<le> (if v \<in> set (drop (length (bd_frontier m)) (bd_frontier m)) then Suc (Suc a) else Suc a)" by auto
  qed
  show "\<forall>es v. path_walk env src_of root es v \<longrightarrow> length es \<le> Suc a \<longrightarrow> v \<in> bd_visited m"
  proof (intro allI impI)
    fix es v assume w: "path_walk env src_of root es v" and l: "length es \<le> Suc a"
    show "v \<in> bd_visited m"
    proof (cases es rule: rev_cases)
      case Nil
      with w side_ok_root [OF m] show ?thesis by simp
    next
      case (snoc fs e)
      with w obtain x where x: "path_walk env src_of root fs x" "hop env src_of x e" "nb_target e = v"
        by (auto simp: path_walk_snoc)
      have "length fs \<le> a" using l snoc by simp
      with x(1) side_ok_ball [OF m] side_ok_new [OF m] have "x \<in> bd_visited m" "x \<notin> set (bd_frontier m)"
        by (blast, fastforce)
      with side_ok_closed [OF m] x show ?thesis by blast
    qed
  qed
qed (use m in \<open>simp_all add: side_ok_def\<close>)

section \<open>Mirrored edges\<close>

text \<open>
  A graph without one-way edges stores every admitted edge in both directions with the same
  type; an edge is only admitted towards a node that is live and visible.
\<close>

definition good_node :: "path_env \<Rightarrow> u32 \<Rightarrow> bool" where
  "good_node env u \<longleftrightarrow> live env u \<and> allows_node (pe_scope env) u"

definition mirrored :: "path_env \<Rightarrow> path_source \<Rightarrow> bool" where
  "mirrored env src_of \<longleftrightarrow> (\<forall>u e. good_node env u \<longrightarrow> hop env src_of u e \<longrightarrow>
     (\<exists>f. hop env src_of (nb_target e) f \<and> nb_target f = u \<and> nb_type_id f = nb_type_id e))"

lemma hop_good: "hop env src_of u e \<Longrightarrow> good_node env (nb_target e)"
  by (simp add: hop_def path_link_def good_node_def)

lemma mirror_walk:
  assumes "mirrored env src_of"
  shows "path_walk env src_of u es v \<Longrightarrow> good_node env u \<Longrightarrow>
    \<exists>fs. path_walk env src_of v fs u \<and> edge_pairs fs = back_pairs u es"
proof (induction es arbitrary: u)
  case Nil
  then show ?case by (intro exI [of _ "[]"]) (simp add: edge_pairs_def)
next
  case (Cons e es)
  then have h: "hop env src_of u e" "path_walk env src_of (nb_target e) es v" by simp_all
  from Cons.IH [OF h(2) hop_good [OF h(1)]] obtain fs where
    fs: "path_walk env src_of v fs (nb_target e)" "edge_pairs fs = back_pairs (nb_target e) es" by blast
  from assms Cons.prems(2) h(1) obtain f where
    "hop env src_of (nb_target e) f" "nb_target f = u" "nb_type_id f = nb_type_id e"
    unfolding mirrored_def by blast
  with fs show ?case by (intro exI [of _ "fs @ [f]"]) (auto simp: path_walk_snoc edge_pairs_def)
qed

lemma back_pairs_length [simp]: "length (back_pairs u es) = length es"
  by (induction es arbitrary: u) auto

lemma mirror_length:
  assumes "mirrored env src_of" "path_walk env src_of u es v" "good_node env u"
  obtains fs where "path_walk env src_of v fs u" "length fs = length es" "edge_pairs fs = back_pairs u es"
proof -
  obtain fs where fs: "path_walk env src_of v fs u" "edge_pairs fs = back_pairs u es"
    using mirror_walk [OF assms] by blast
  from arg_cong [OF fs(2), of length] have "length fs = length es" by (simp add: edge_pairs_def)
  with fs that show ?thesis by blast
qed

section \<open>The loop\<close>

text \<open>No walk is as short as the sum of the radii of two disjoint balls.\<close>

lemma disjoint_far:
  assumes mir: "mirrored env src_of" and good: "good_node env src"
    and f: "side_ok env src_of src a i {} fwd" and g: "side_ok env src_of goal b j {} bwd"
    and dis: "bd_visited fwd \<inter> bd_visited bwd = {}"
    and w: "path_walk env src_of src es goal"
  shows "a + b < length es"
proof (rule ccontr)
  assume "\<not> a + b < length es"
  then have l: "length (take a es) \<le> a" "length (drop a es) \<le> b" by simp_all
  from w have "path_walk env src_of src (take a es @ drop a es) goal" by simp
  then obtain x where x: "path_walk env src_of src (take a es) x" "path_walk env src_of x (drop a es) goal"
    unfolding path_walk_append by blast
  have "good_node env x"
  proof (cases "take a es" rule: rev_cases)
    case Nil
    with x(1) good show ?thesis by simp
  next
    case (snoc fs e)
    with x(1) show ?thesis by (auto simp: path_walk_snoc dest: hop_good)
  qed
  then obtain fs where "path_walk env src_of goal fs x" "length fs = length (drop a es)"
    by (rule mirror_length [OF mir x(2)])
  with l side_ok_ball [OF f x(1)] side_ok_ball [OF g] dis show False by auto
qed

text \<open>A ball whose frontier is empty holds everything that its root reaches.\<close>

lemma side_ok_full:
  assumes "side_ok env src_of root a k {} m" "bd_frontier m = []"
  shows "path_walk env src_of root es v \<Longrightarrow> v \<in> bd_visited m"
proof (induction es arbitrary: v rule: rev_induct)
  case Nil
  with side_ok_root [OF assms(1)] show ?case by simp
next
  case (snoc e es)
  then show ?case using side_ok_closed [OF assms(1)] assms(2) by (auto simp: path_walk_snoc)
qed

definition balls_ok :: "path_env \<Rightarrow> path_source \<Rightarrow> u32 \<Rightarrow> u32 \<Rightarrow> nat \<Rightarrow> nat \<Rightarrow> search_side \<Rightarrow> search_side \<Rightarrow> bool" where
  "balls_ok env src_of src goal a b fwd bwd \<longleftrightarrow>
     side_ok env src_of src a (length (bd_frontier fwd)) {} fwd \<and>
     side_ok env src_of goal b (length (bd_frontier bwd)) {} bwd"

text \<open>What the loop leaves: a meeting node within the limit that no walk beats, or no walk.\<close>

definition met :: "path_env \<Rightarrow> path_source \<Rightarrow> u32 \<Rightarrow> u32 \<Rightarrow> int \<Rightarrow> search_side \<Rightarrow> search_side \<Rightarrow> u32 \<Rightarrow> bool" where
  "met env src_of src goal limit fwd bwd x \<longleftrightarrow>
     (\<exists>es gs. chain env src_of (bd_parent fwd) src es x \<and> chain env src_of (bd_parent bwd) goal gs x \<and>
        int (length es + length gs) \<le> limit \<and>
        (\<forall>hs. path_walk env src_of src hs goal \<longrightarrow> length es + length gs \<le> length hs))"

definition bi_result ::
  "path_env \<Rightarrow> path_source \<Rightarrow> u32 \<Rightarrow> u32 \<Rightarrow> int \<Rightarrow> search_side \<Rightarrow> search_side \<Rightarrow> bidirectional_state \<Rightarrow> bool" where
  "bi_result env src_of src goal limit fwd bwd t \<longleftrightarrow>
     (case meeting_node t of
        None \<Rightarrow> \<forall>es. path_walk env src_of src es goal \<longrightarrow> limit < int (length es)
      | Some x \<Rightarrow> met env src_of src goal limit fwd bwd x)"

lemma balls_chain:
  assumes "side_ok env src_of root a k {} m" "x \<in> bd_visited m"
  shows "k = length (bd_frontier m) \<Longrightarrow> \<exists>es. chain env src_of (bd_parent m) root es x \<and> length es \<le> a"
    "\<exists>es. chain env src_of (bd_parent m) root es x \<and> length es \<le> Suc a"
  using side_ok_chain [OF assms] by (auto split: if_splits intro: le_SucI)

lemma expanded_met:
  assumes far: "\<And>es. path_walk env src_of src es goal \<Longrightarrow> a + b < length es" and l: "int (a + b) < limit"
    and es: "chain env src_of (bd_parent fwd) src es x" and gs: "chain env src_of (bd_parent bwd) goal gs x"
    and n: "length es + length gs \<le> Suc (a + b)"
  shows "met env src_of src goal limit fwd bwd x"
  unfolding met_def using es gs n l far by (intro exI [of _ es] exI [of _ gs]) (auto simp: less_eq_Suc_le intro: order_trans)

lemma meet_ok_sym: "meet_ok m other s = meet_ok other m s"
  by (auto simp: meet_ok_def split: option.splits)

lemma bidirectional_loop_ok:
  assumes nodes: "backing_ok (backing (pe_nodes env))" and src_ok: "path_source_ok src_of"
    and mir: "mirrored env src_of" and good: "good_node env src" and limit: "limit < 2 ^ 30"
  shows "balls_ok env src_of src goal a b fwd bwd \<Longrightarrow> meet_ok fwd bwd s \<Longrightarrow> meeting_node s = None \<Longrightarrow>
    depth = int (a + b) \<Longrightarrow>
    \<exists>go f g t. bidirectional_loop env src_of limit depth fwd bwd s = Inr (go, f, g, t) \<and>
      budget_ok (bi_budget t) \<and> budget_step (bi_budget s) (bi_budget t) \<and> (\<not> go \<longrightarrow> failed (bi_budget t)) \<and>
      (go \<longrightarrow> bi_result env src_of src goal limit f g t)"
  using assms
proof (induction env src_of limit depth fwd bwd s arbitrary: a b rule: bidirectional_loop.induct)
  case (1 env src_of limit depth fwd bwd s)
  note nodes = "1.prems"(5) and src_ok = "1.prems"(6) and mir = "1.prems"(7) and good = "1.prems"(8)
  have f: "side_ok env src_of src a (length (bd_frontier fwd)) {} fwd"
    and g: "side_ok env src_of goal b (length (bd_frontier bwd)) {} bwd"
    using "1.prems"(1) by (simp_all add: balls_ok_def)
  have dis: "bd_visited fwd \<inter> bd_visited bwd = {}" and b: "budget_ok (bi_budget s)"
    using "1.prems"(2,3) by (simp_all add: meet_ok_def)
  have far: "a + b < length es" if w: "path_walk env src_of src es goal" for es
    by (rule disjoint_far [OF mir good f g dis w])
  show ?case
  proof (cases "bd_frontier fwd = [] \<or> bd_frontier bwd = [] \<or> \<not> depth < limit")
    case True
    have "limit < int (length es)" if w: "path_walk env src_of src es goal" for es
      using True
    proof (elim disjE)
      assume "bd_frontier fwd = []"
      from side_ok_full [OF _ this w] f dis side_ok_root [OF g] this show ?thesis by auto
    next
      assume e: "bd_frontier bwd = []"
      obtain fs where "path_walk env src_of goal fs src" by (rule mirror_length [OF mir w good])
      from side_ok_full [OF _ e this] g dis side_ok_root [OF f] e show ?thesis by auto
    next
      assume "\<not> depth < limit"
      with far [OF w] "1.prems"(4) show ?thesis by linarith
    qed
    then have "bi_result env src_of src goal limit fwd bwd s"
      using "1.prems"(3) by (simp add: bi_result_def)
    with True b show ?thesis
      by (intro exI [of _ True]) (simp add: bidirectional_loop.simps [of env])
  next
    case False
    then have d: "int (a + b) < limit" "0 \<le> depth + 1" "depth + 1 < 2 ^ 30" using "1.prems"(4,9) by auto
    show ?thesis
    proof (cases "length (bd_frontier fwd) \<le> length (bd_frontier bwd)")
      case small: True
      obtain go n t where t: "side_level env src_of (depth + 1) (length (bd_frontier fwd)) bwd fwd s = Inr (go, n, t)"
        "budget_ok (bi_budget t)" "budget_step (bi_budget s) (bi_budget t)" "\<not> go \<longrightarrow> failed (bi_budget t)"
        "go \<longrightarrow> side_ok env src_of src a 0 {} n \<and> meet_ok n bwd t"
        using side_level_ok [OF nodes src_ok g d(2,3) f "1.prems"(2)] by blast
      show ?thesis
      proof (cases go)
        case go: False
        with t False small show ?thesis
          by (intro exI [of _ False]) (simp add: bidirectional_loop.simps [of env])
      next
        case go: True
        then have n: "side_ok env src_of src a 0 {} n" "meet_ok n bwd t" using t(5) by simp_all
        show ?thesis
        proof (cases "meeting_node t")
          case None
          have balls: "balls_ok env src_of src goal (Suc a) b n bwd"
            using side_ok_wider [OF n(1)] g by (simp add: balls_ok_def)
          have d': "depth + 1 = int (Suc a + b)" using "1.prems"(4) by simp
          have step: "(if length (bd_frontier fwd) \<le> length (bd_frontier bwd)
              then rbind (side_level env src_of (depth + 1) (length (bd_frontier fwd)) bwd fwd s)
                (\<lambda>(go, fwd, s). Inr (go, fwd, bwd, s))
              else rbind (side_level env src_of (depth + 1) (length (bd_frontier bwd)) fwd bwd s)
                (\<lambda>(go, bwd, s). Inr (go, fwd, bwd, s))) = Inr (True, n, bwd, t)" using t(1) go small by simp
          from "1.IH" [OF False step refl refl refl _ _ balls n(2) None d' "1.prems"(5-9)] None
          obtain go' f' g' u where u: "bidirectional_loop env src_of limit (depth + 1) n bwd t = Inr (go', f', g', u)"
            "budget_ok (bi_budget u)" "budget_step (bi_budget t) (bi_budget u)" "\<not> go' \<longrightarrow> failed (bi_budget u)"
            "go' \<longrightarrow> bi_result env src_of src goal limit f' g' u" by auto
          from budget_step_trans [OF t(3) u(3)] u t(1) go None small False show ?thesis
            by (intro exI [of _ go'] exI [of _ f'] exI [of _ g'] exI [of _ u])
              (simp add: bidirectional_loop.simps [of env _ _ depth])
        next
          case (Some x)
          with n(2) have x: "x \<in> bd_visited n" "x \<in> bd_visited bwd" by (simp_all add: meet_ok_def)
          obtain es where es: "chain env src_of (bd_parent n) src es x" "length es \<le> Suc a"
            using balls_chain(2) [OF n(1) x(1)] by blast
          obtain gs where gs: "chain env src_of (bd_parent bwd) goal gs x" "length gs \<le> b"
            using balls_chain(1) [OF g x(2) refl] by blast
          have "met env src_of src goal limit n bwd x"
            by (rule expanded_met [OF far d(1) es(1) gs(1)]) (use es(2) gs(2) in simp_all)
          with Some t go small False show ?thesis
            by (intro exI [of _ True]) (simp add: bidirectional_loop.simps [of env] bi_result_def)
        qed
      qed
    next
      case large: False
      obtain go n t where t: "side_level env src_of (depth + 1) (length (bd_frontier bwd)) fwd bwd s = Inr (go, n, t)"
        "budget_ok (bi_budget t)" "budget_step (bi_budget s) (bi_budget t)" "\<not> go \<longrightarrow> failed (bi_budget t)"
        "go \<longrightarrow> side_ok env src_of goal b 0 {} n \<and> meet_ok n fwd t"
        using side_level_ok [OF nodes src_ok f d(2,3) g "1.prems"(2) [unfolded meet_ok_sym [of fwd]]] by blast
      show ?thesis
      proof (cases go)
        case go: False
        with t False large show ?thesis
          by (intro exI [of _ False]) (simp add: bidirectional_loop.simps [of env])
      next
        case go: True
        then have n: "side_ok env src_of goal b 0 {} n" "meet_ok fwd n t" using t(5) by (simp_all add: meet_ok_sym)
        show ?thesis
        proof (cases "meeting_node t")
          case None
          have balls: "balls_ok env src_of src goal a (Suc b) fwd n"
            using side_ok_wider [OF n(1)] f by (simp add: balls_ok_def)
          have d': "depth + 1 = int (a + Suc b)" using "1.prems"(4) by simp
          have step: "(if length (bd_frontier fwd) \<le> length (bd_frontier bwd)
              then rbind (side_level env src_of (depth + 1) (length (bd_frontier fwd)) bwd fwd s)
                (\<lambda>(go, fwd, s). Inr (go, fwd, bwd, s))
              else rbind (side_level env src_of (depth + 1) (length (bd_frontier bwd)) fwd bwd s)
                (\<lambda>(go, bwd, s). Inr (go, fwd, bwd, s))) = Inr (True, fwd, n, t)" using t(1) go large by simp
          from "1.IH" [OF False step refl refl refl _ _ balls n(2) None d' "1.prems"(5-9)] None
          obtain go' f' g' u where u: "bidirectional_loop env src_of limit (depth + 1) fwd n t = Inr (go', f', g', u)"
            "budget_ok (bi_budget u)" "budget_step (bi_budget t) (bi_budget u)" "\<not> go' \<longrightarrow> failed (bi_budget u)"
            "go' \<longrightarrow> bi_result env src_of src goal limit f' g' u" by auto
          from budget_step_trans [OF t(3) u(3)] u t(1) go None large False show ?thesis
            by (intro exI [of _ go'] exI [of _ f'] exI [of _ g'] exI [of _ u])
              (simp add: bidirectional_loop.simps [of env _ _ depth])
        next
          case (Some x)
          with n(2) have x: "x \<in> bd_visited fwd" "x \<in> bd_visited n" by (simp_all add: meet_ok_def)
          obtain es where es: "chain env src_of (bd_parent fwd) src es x" "length es \<le> a"
            using balls_chain(1) [OF f x(1) refl] by blast
          obtain gs where gs: "chain env src_of (bd_parent n) goal gs x" "length gs \<le> Suc b"
            using balls_chain(2) [OF n(1) x(2)] by blast
          have "met env src_of src goal limit fwd n x"
            by (rule expanded_met [OF far d(1) es(1) gs(1)]) (use es(2) gs(2) in simp_all)
          with Some t go large False show ?thesis
            by (intro exI [of _ True]) (simp add: bidirectional_loop.simps [of env] bi_result_def)
        qed
      qed
    qed
  qed
qed

section \<open>The search\<close>

lemma side_start_ok: "side_ok env src_of root 0 (length (bd_frontier (side_start root))) {} (side_start root)"
proof -
  have "chain env src_of (bd_parent (side_start root)) root [] root"
    by (rule chain_root [where p = "\<lparr>ps_parent = root, ps_edge_type = UNTYPED, ps_depth = 0\<rparr>"])
      (simp_all add: side_start_def)
  then show ?thesis by (auto simp: side_ok_def side_start_def)
qed

lemma bidirectional_ok:
  assumes nodes: "backing_ok (backing (pe_nodes env))" and src_ok: "path_source_ok src_of" and b: "budget_ok b"
    and mir: "mirrored env src_of" and good: "good_node env (rq_source rq)" "good_node env (rq_target rq)"
    and limit: "rq_max_depth rq < 2 ^ 30" and ne: "rq_source rq \<noteq> rq_target rq"
  shows "search_returns env src_of rq b (bidirectional_bfs env src_of rq b)"
proof -
  let ?src = "rq_source rq" and ?goal = "rq_target rq"
  let ?s = "\<lparr>meeting_node = None, best_combined = I32_MAX, bi_budget = b\<rparr>"
  have rng: "unat ?src < path_nodes env" using good(1) by (simp add: good_node_def live_def)
  have balls: "balls_ok env src_of ?src ?goal 0 0 (side_start ?src) (side_start ?goal)"
    by (simp add: balls_ok_def side_start_ok del: One_nat_def)
  have meet: "meet_ok (side_start ?src) (side_start ?goal) ?s"
    using b ne by (simp add: meet_ok_def side_start_def)
  obtain go f g t where t: "bidirectional_loop env src_of (rq_max_depth rq) 0 (side_start ?src) (side_start ?goal) ?s =
      Inr (go, f, g, t)" "budget_ok (bi_budget t)" "budget_step b (bi_budget t)" "\<not> go \<longrightarrow> failed (bi_budget t)"
    "go \<longrightarrow> bi_result env src_of ?src ?goal (rq_max_depth rq) f g t"
    using bidirectional_loop_ok [OF nodes src_ok mir good(1) limit balls meet, of 0] by auto
  show ?thesis
  proof (cases "go \<and> meeting_node t \<noteq> None")
    case False
    then have "bidirectional_bfs env src_of rq b = Some (Inr (bi_budget t, None))"
      using t(1) by (auto simp: bidirectional_bfs_def)
    moreover have "failed (bi_budget t) \<or> path_outcome env src_of rq None"
      using False t(4,5) ne by (auto simp: bi_result_def path_outcome_def no_path_def)
    ultimately show ?thesis using t(2,3) by (intro search_returnsI)
  next
    case True
    then obtain x where x: "meeting_node t = Some x" by auto
    then obtain es gs where es: "chain env src_of (bd_parent f) ?src es x" "chain env src_of (bd_parent g) ?goal gs x"
      "int (length es + length gs) \<le> rq_max_depth rq"
      "\<And>hs. path_walk env src_of ?src hs ?goal \<Longrightarrow> length es + length gs \<le> length hs"
      using t(5) True by (auto simp: bi_result_def met_def)
    obtain fs where fs: "path_walk env src_of x fs ?goal" "length fs = length gs" "edge_pairs fs = back_pairs ?goal gs"
      by (rule mirror_length [OF mir chain_walk [OF es(2)] good(2)])
    have w: "path_walk env src_of ?src (es @ fs) ?goal"
      using chain_walk [OF es(1)] fs(1) by (auto simp: path_walk_append)
    have pairs: "(?src, UNTYPED) # edge_pairs es @ back_pairs ?goal gs = path_pairs ?src (es @ fs)"
      by (simp add: path_pairs_def fs(3) [symmetric]) (simp add: edge_pairs_def)
    have "bidirectional_bfs env src_of rq b = Some (Inr (bi_budget t, Some (path_rows env rq (es @ fs))))"
      using t(1) True x chain_forward [OF es(1)] chain_backward [OF es(2)] rows_collected_path [OF nodes w rng]
      by (simp add: bidirectional_bfs_def pairs)
    moreover have "path_outcome env src_of rq (Some (path_rows env rq (es @ fs)))"
      using w es fs(2) by (auto simp: path_outcome_def fewest_hops_def)
    ultimately show ?thesis using t(2,3) by (intro search_returnsI) auto
  qed
qed

text \<open>The conditions the bidirectional search rests on; the engine resolves endpoints to live nodes.\<close>

definition bidirectional_ready :: "path_env \<Rightarrow> path_source \<Rightarrow> path_request \<Rightarrow> bool" where
  "bidirectional_ready env src_of rq \<longleftrightarrow>
     mirrored env src_of \<and> live env (rq_source rq) \<and> live env (rq_target rq) \<and> rq_max_depth rq < 2 ^ 30"

lemma shortest_inner_ok:
  assumes nodes: "backing_ok (backing (pe_nodes env))" and src_ok: "path_source_ok src_of" and b: "budget_ok b"
    and ready: "rq_unidirectional rq \<or> bidirectional_ready env src_of rq"
  shows "search_returns env src_of rq b (shortest_path_inner env src_of rq b)"
proof (cases "path_nodes env \<le> unat (rq_source rq) \<or> path_nodes env \<le> unat (rq_target rq) \<or>
     \<not> allows_node (pe_scope env) (rq_source rq) \<or> \<not> allows_node (pe_scope env) (rq_target rq)")
  case True
  then have "shortest_path_inner env src_of rq b = Some (Inr (b, None))"
    using path_nodes_count [OF nodes] by (auto simp: shortest_path_inner_def word_le_nat_alt)
  moreover have "path_outcome env src_of rq None" using True by (auto simp: path_outcome_def no_path_def)
  ultimately show ?thesis using b by (intro search_returnsI) auto
next
  case False
  then have rng: "unat (rq_source rq) < path_nodes env"
    and guard: "\<not> (rq_source rq \<ge> ns_node_count (pe_nodes env) \<or> rq_target rq \<ge> ns_node_count (pe_nodes env) \<or>
      \<not> allows_node (pe_scope env) (rq_source rq) \<or> \<not> allows_node (pe_scope env) (rq_target rq))"
    using path_nodes_count [OF nodes] by (auto simp: word_le_nat_alt)
  show ?thesis
  proof (cases "rq_source rq = rq_target rq")
    case True
    have row: "row_at env rq (0, rq_source rq, UNTYPED) = Inr (Some (path_row env rq (0, rq_source rq, UNTYPED)))"
      by (rule row_at_eq [OF nodes rng])
    have "shortest_path_inner env src_of rq b = Some (Inr (b, Some (path_rows env rq [])))"
      using guard True row by (simp add: shortest_path_inner_def path_rows_def path_pairs_def edge_pairs_def)
    moreover have "path_outcome env src_of rq (Some (path_rows env rq []))"
      unfolding path_outcome_def fewest_hops_def using True by (simp, intro exI [of _ "[]"], simp)
    ultimately show ?thesis using b by (intro search_returnsI) auto
  next
    case ne: False
    show ?thesis
    proof (cases "rq_unidirectional rq")
      case True
      with guard ne single_direction_ok [OF nodes src_ok b rng ne] show ?thesis
        by (simp add: shortest_path_inner_def)
    next
      case uni: False
      with ready False have "mirrored env src_of" "good_node env (rq_source rq)" "good_node env (rq_target rq)"
        "rq_max_depth rq < 2 ^ 30" by (auto simp: bidirectional_ready_def good_node_def)
      from bidirectional_ok [OF nodes src_ok b this ne] guard ne uni show ?thesis
        by (simp add: shortest_path_inner_def)
    qed
  qed
qed

lemma governed_path_returns:
  assumes "backing_ok (backing (pe_nodes env))" "path_source_ok src_of"
    "rq_unidirectional rq \<or> bidirectional_ready env src_of rq"
  shows "returns (\<lambda>f. \<exists>e. f = Err e \<and> path_error e) (path_outcome env src_of rq)
    (shortest_path_governed env src_of rq g)"
proof -
  have "budget_ok (Some (new_budget g))" by (simp add: budget_ok_def new_budget_def)
  from shortest_inner_ok [OF assms(1,2) this assms(3)] obtain b' r where
    r: "shortest_path_inner env src_of rq (Some (new_budget g)) = Some (Inr (b', r))" "budget_ok b'"
    "budget_step (Some (new_budget g)) b'" "failed b' \<or> path_outcome env src_of rq r"
    unfolding search_returns_def by (elim exE conjE)
  then obtain b where "b' = Some b" by (cases b') (auto simp: budget_step_def)
  with r show ?thesis
    by (cases "pb_error b")
      (auto simp: shortest_path_governed_def budget_finish_def failed_def budget_ok_def)
qed

section \<open>Properties\<close>

text \<open>
  C17: The unweighted search always ends, on a graph with one-way edges without further
  conditions and on a mirrored one between live endpoints. It fails only with the missing
  relationship identity or a resource limit of its phase; otherwise it returns no path exactly
  when the endpoints are out of range or hidden or every admitted walk between them is longer
  than the depth limit, and else the rows of an admitted walk with the fewest hops.
\<close>

theorem shortest_path_exact:
  assumes "backing_ok (backing (pe_nodes env))" "path_source_ok src_of"
    "rq_unidirectional rq \<or> bidirectional_ready env src_of rq"
  shows "\<exists>r. shortest_path_governed env src_of rq g = Some r \<and>
    (case r of
       Inl f \<Rightarrow> \<exists>e. f = Err e \<and> path_error e
     | Inr None \<Rightarrow> no_path env src_of rq
     | Inr (Some rows) \<Rightarrow> fewest_hops env src_of rq rows)"
  using returns_cases [OF governed_path_returns [OF assms, of g]]
  by (auto simp: path_outcome_def split: option.splits)

definition sample_hop :: "u32 \<Rightarrow> neighbor" where
  "sample_hop v = \<lparr>nb_target = v, nb_type_id = 1, nb_schema_reversed = False, nb_relationship_id = None\<rparr>"

definition sample_path_source :: path_source where
  "sample_path_source u = Inr (if u = 0 then [sample_hop 1] else if u = 1 then [sample_hop 0, sample_hop 2]
     else if u = 2 then [sample_hop 1] else [])"

definition sample_request :: path_request where
  "sample_request = \<lparr>rq_source = 0, rq_target = 2, rq_max_depth = 5, rq_unidirectional = False,
     rq_registry = [], rq_label = None\<rparr>"

lemma sample_link: "path_link sample_path_env (sample_hop v) \<longleftrightarrow> unat v < 3"
  by (auto simp: path_link_def sample_hop_def sample_path_env_def live_def path_nodes_def store_nodes_def
      less_Suc_eq numeral_3_eq_3)

lemma sample_hops:
  "hop sample_path_env sample_path_source u e \<longleftrightarrow>
    (u = 0 \<and> e = sample_hop 1) \<or> (u = 1 \<and> (e = sample_hop 0 \<or> e = sample_hop 2)) \<or> (u = 2 \<and> e = sample_hop 1)"
  by (auto simp: hop_def nedges_def sample_path_source_def sample_link)

lemma sample_mirrored: "mirrored sample_path_env sample_path_source"
  unfolding mirrored_def
proof (intro allI impI)
  fix u e assume "hop sample_path_env sample_path_source u e"
  moreover have "nb_target (sample_hop v) = v" "nb_type_id (sample_hop v) = 1" for v
    by (simp_all add: sample_hop_def)
  ultimately show "\<exists>f. hop sample_path_env sample_path_source (nb_target e) f \<and> nb_target f = u \<and>
      nb_type_id f = nb_type_id e"
    by (intro exI [of _ "sample_hop u"]) (auto simp: sample_hops)
qed

lemma sample_live: "unat v < 3 \<Longrightarrow> live sample_path_env v"
  using sample_link [of v] by (simp add: path_link_def sample_hop_def)

lemma sample_request_ok:
  "path_source_ok sample_path_source" "bidirectional_ready sample_path_env sample_path_source sample_request"
  by (simp_all add: path_source_ok_def sample_path_source_def bidirectional_ready_def sample_mirrored
      sample_live sample_request_def)

theorem shortest_path_exact_witness:
  "\<exists>r. shortest_path_governed sample_path_env sample_path_source sample_request
      (new_governor (memory_only 100)) = Some r \<and>
    (case r of
       Inl f \<Rightarrow> \<exists>e. f = Err e \<and> path_error e
     | Inr None \<Rightarrow> no_path sample_path_env sample_path_source sample_request
     | Inr (Some rows) \<Rightarrow> fewest_hops sample_path_env sample_path_source sample_request rows)"
  by (rule shortest_path_exact [OF sample_path_ok(1) sample_request_ok(1) disjI2 [OF sample_request_ok(2)]])

end
