(* ===== verification/Codec.thy ===== *)
theory Codec
  imports Prelude
begin

text \<open>
  Shared reading of serialized sections: little-endian integers (\<open>to_le_bytes\<close>,
  \<open>from_le_bytes\<close>) at checked byte offsets, and the binary search over an ordered table that
  the resolution index and the tenant dictionary use, with its contract as a locale.
\<close>

section \<open>Little-endian integers\<close>

primrec le_bytes :: "nat \<Rightarrow> nat \<Rightarrow> u8 list" where
  "le_bytes 0 n = []"
| "le_bytes (Suc k) n = word_of_nat (n mod 256) # le_bytes k (n div 256)"

definition le_nat :: "u8 list \<Rightarrow> nat" where
  "le_nat bs = foldr (\<lambda>b acc. unat b + 256 * acc) bs 0"

definition le_word :: "u8 list \<Rightarrow> 'a :: len word" where
  "le_word bs = word_of_nat (le_nat bs)"

definition bytes_u32 :: "u32 \<Rightarrow> u8 list" where
  "bytes_u32 w = le_bytes 4 (unat w)"

definition bytes_u64 :: "u64 \<Rightarrow> u8 list" where
  "bytes_u64 w = le_bytes 8 (unat w)"

text \<open>\<open>[data[i], data[i + 1], ...]\<close>: an index out of range panics.\<close>

definition bytes_at :: "u8 list \<Rightarrow> usize \<Rightarrow> nat \<Rightarrow> ('e, u8 list) rust_result" where
  "bytes_at bytes offset n = map_r (\<lambda>i. index_r bytes (offset + i)) [0..<n]"

definition u32_at :: "u8 list \<Rightarrow> usize \<Rightarrow> ('e, u32) rust_result" where
  "u32_at bytes offset = rbind (bytes_at bytes offset 4) (\<lambda>bs. Inr (le_word bs))"

definition u64_at :: "u8 list \<Rightarrow> usize \<Rightarrow> ('e, u64) rust_result" where
  "u64_at bytes offset = rbind (bytes_at bytes offset 8) (\<lambda>bs. Inr (le_word bs))"

lemma length_le_bytes [simp]: "length (le_bytes k n) = k"
  by (induction k arbitrary: n) auto

lemma length_bytes_int [simp]: "length (bytes_u32 w) = 4" "length (bytes_u64 v) = 8"
  by (simp_all add: bytes_u32_def bytes_u64_def)

lemma le_nat_bytes: "le_nat (le_bytes k n) = n mod 256 ^ k"
proof (induction k arbitrary: n)
  case (Suc k)
  have "unat (word_of_nat (n mod 256) :: u8) = n mod 256" by (simp add: unat_of_nat)
  with Suc [of "n div 256"] show ?case
    by (simp add: le_nat_def mod_mult2_eq)
qed (simp add: le_nat_def)

lemma le_word_u32 [simp]: "le_word (bytes_u32 w) = w"
proof -
  have "unat w < 4294967296" using unsigned_less [of w] by simp
  then show ?thesis by (simp add: le_word_def bytes_u32_def le_nat_bytes)
qed

lemma le_word_u64 [simp]: "le_word (bytes_u64 w) = w"
proof -
  have "unat w < 18446744073709551616" using unsigned_less [of w] by simp
  then show ?thesis by (simp add: le_word_def bytes_u64_def le_nat_bytes)
qed

lemma bytes_at_ok: "offset + n \<le> length bytes \<Longrightarrow> bytes_at bytes offset n = Inr (slice offset (offset + n) bytes)"
  unfolding bytes_at_def map_r_eq_Inr list_all2_conv_all_nth by auto

lemma u32_at_ok [simp]: "offset + 4 \<le> length bytes \<Longrightarrow> u32_at bytes offset = Inr (le_word (slice offset (offset + 4) bytes))"
  by (simp add: u32_at_def bytes_at_ok)

lemma u64_at_ok [simp]: "offset + 8 \<le> length bytes \<Longrightarrow> u64_at bytes offset = Inr (le_word (slice offset (offset + 8) bytes))"
  by (simp add: u64_at_def bytes_at_ok)

lemma slice_append1: "i \<le> j \<Longrightarrow> j \<le> length xs \<Longrightarrow> slice i j (xs @ ys) = slice i j xs"
  by (simp add: slice_def)

lemma slice_append2: "length xs \<le> i \<Longrightarrow> slice i j (xs @ ys) = slice (i - length xs) (j - length xs) ys"
  by (simp add: slice_def)

lemma slice_all [simp]: "slice 0 (length xs) xs = xs"
  by (simp add: slice_def)

lemma slice_slice: "b \<le> j - i \<Longrightarrow> slice a b (slice i j xs) = slice (i + a) (i + b) xs"
  by (simp add: slice_def drop_take add.commute min_absorb1)

text \<open>Fixed-width records one after the other.\<close>

lemma length_concat_width: "\<forall>xs\<in>set xss. length xs = w \<Longrightarrow> length (concat xss) = w * length xss"
  by (induction xss) auto

lemma slice_concat_width:
  "\<forall>xs\<in>set xss. length xs = w \<Longrightarrow> i < length xss \<Longrightarrow> slice (w * i) (w * i + w) (concat xss) = xss ! i"
proof (induction xss arbitrary: i)
  case (Cons xs xss)
  show ?case
  proof (cases i)
    case 0
    with Cons.prems(1) show ?thesis by (simp add: slice_append1 slice_def)
  next
    case (Suc k)
    with Cons have "slice (w * k) (w * k + w) (concat xss) = xss ! k" by simp
    with Suc Cons.prems(1) show ?thesis by (simp add: slice_append2 add.commute)
  qed
qed simp

section \<open>Search in results\<close>

primrec find_r :: "('a \<Rightarrow> ('e, bool) rust_result) \<Rightarrow> 'a list \<Rightarrow> ('e, 'a option) rust_result" where
  "find_r p [] = Inr None"
| "find_r p (x # xs) = rbind (p x) (\<lambda>ok. if ok then Inr (Some x) else find_r p xs)"

lemma find_r_pure: "(\<And>x. x \<in> set xs \<Longrightarrow> p x = Inr (q x)) \<Longrightarrow> find_r p xs = Inr (List.find q xs)"
  by (induction xs) auto

lemma find_r_filter:
  "find_r (\<lambda>x. if c x then p x else Inr False) xs = find_r p (filter c xs)"
  by (induction xs) (auto intro!: rbind_cong)

lemma find_r_map: "find_r p (map f xs) = rbind (find_r (\<lambda>x. p (f x)) xs) (\<lambda>r. Inr (map_option f r))"
  by (induction xs) (auto simp: rbind_assoc intro!: rbind_cong)

lemma find_r_append:
  "find_r p (xs @ ys) = rbind (find_r p xs) (\<lambda>r. if r = None then find_r p ys else Inr r)"
  by (induction xs) (auto simp: rbind_assoc intro!: rbind_cong)

section \<open>Binary search\<close>

datatype cmp = CLess | CEqual | CGreater

definition compare :: "'k :: linorder \<Rightarrow> 'k \<Rightarrow> cmp" where
  "compare a b = (if a < b then CLess else if a = b then CEqual else CGreater)"

function (sequential) bsearch :: "(nat \<Rightarrow> ('e, cmp) rust_result) \<Rightarrow> nat \<Rightarrow> nat \<Rightarrow> ('e, nat option) rust_result" where
  "bsearch at lo hi =
     (if lo < hi then
        let mid = lo + (hi - lo) div 2 in
        rbind (at mid) (\<lambda>c. case c of
          CEqual \<Rightarrow> Inr (Some mid)
        | CLess \<Rightarrow> bsearch at (mid + 1) hi
        | CGreater \<Rightarrow> bsearch at lo mid)
      else Inr None)"
  by pat_completeness auto

termination
  by (relation "measure (\<lambda>(_, lo, hi). hi - lo)") auto

declare bsearch.simps [simp del]

text \<open>
  The contract of a search: a table whose rows can be compared with a key without a fault and
  whose keys ascend. The search then returns a row with the key exactly when there is one.
\<close>

locale ordered_table =
  fixes table_ok :: "'s \<Rightarrow> bool"
    and keys :: "'s \<Rightarrow> 'k :: linorder list"
    and cmp_at :: "'s \<Rightarrow> 'k \<Rightarrow> nat \<Rightarrow> ('e, cmp) rust_result"
  assumes cmp_at_key: "table_ok s \<Longrightarrow> i < length (keys s) \<Longrightarrow> cmp_at s k i = Inr (compare (keys s ! i) k)"
    and keys_sorted: "table_ok s \<Longrightarrow> sorted (keys s)"
begin

lemma search_between:
  "table_ok s \<Longrightarrow> hi \<le> length (keys s) \<Longrightarrow>
    (\<forall>i<lo. keys s ! i < k) \<Longrightarrow> (\<forall>i<length (keys s). hi \<le> i \<longrightarrow> k < keys s ! i) \<Longrightarrow>
    \<exists>r. bsearch (cmp_at s k) lo hi = Inr r \<and>
      (case r of Some i \<Rightarrow> i < length (keys s) \<and> keys s ! i = k | None \<Rightarrow> k \<notin> set (keys s))"
proof (induction "cmp_at s k" lo hi rule: bsearch.induct)
  case (1 lo hi)
  show ?case
  proof (cases "lo < hi")
    case False
    have "keys s ! i \<noteq> k" if "i < length (keys s)" for i
      using "1.prems"(3,4) False that by (cases "i < lo") fastforce+
    then have "k \<notin> set (keys s)" by (auto simp: in_set_conv_nth)
    with False show ?thesis by (simp add: bsearch.simps [of _ lo])
  next
    case True
    define mid where "mid = lo + (hi - lo) div 2"
    have mid: "lo \<le> mid" "mid < hi" "mid < length (keys s)" using True "1.prems"(2) by (auto simp: mid_def)
    have at_mid: "cmp_at s k mid = Inr (compare (keys s ! mid) k)" by (rule cmp_at_key [OF "1.prems"(1) mid(3)])
    note srt = keys_sorted [OF "1.prems"(1)]
    have unfold: "bsearch (cmp_at s k) lo hi = (case compare (keys s ! mid) k of
        CEqual \<Rightarrow> Inr (Some mid) | CLess \<Rightarrow> bsearch (cmp_at s k) (mid + 1) hi
      | CGreater \<Rightarrow> bsearch (cmp_at s k) lo mid)"
      using True at_mid by (subst bsearch.simps) (simp add: Let_def split: cmp.split flip: mid_def)
    consider "keys s ! mid < k" | "keys s ! mid = k" | "k < keys s ! mid" by (rule linorder_cases)
    then show ?thesis
    proof cases
      case 1
      have "keys s ! i < k" if "i < mid + 1" for i
        using sorted_nth_mono [OF srt, of i mid] that mid 1 by (simp add: order_le_less_trans)
      with "1.hyps"(1) [OF True mid_def at_mid] "1.prems" 1 show ?thesis
        by (simp add: unfold compare_def)
    next
      case 2
      with mid show ?thesis by (simp add: unfold compare_def)
    next
      case 3
      have "k < keys s ! i" if "i < length (keys s)" "mid \<le> i" for i
        using sorted_nth_mono [OF srt that(2,1)] 3 by (rule order_less_le_trans [rotated])
      moreover have "compare (keys s ! mid) k = CGreater" using 3 by (auto simp: compare_def)
      ultimately show ?thesis using "1.hyps"(2) [OF True mid_def at_mid] "1.prems" mid
        by (simp add: unfold)
    qed
  qed
qed

lemma search_exact:
  "table_ok s \<Longrightarrow> \<exists>r. bsearch (cmp_at s k) 0 (length (keys s)) = Inr r \<and>
    (case r of Some i \<Rightarrow> i < length (keys s) \<and> keys s ! i = k | None \<Rightarrow> k \<notin> set (keys s))"
  by (rule search_between) auto

end

end
