(* ===== verification/ResolutionIndex.thy ===== *)
theory ResolutionIndex
  imports Codec Safety "HOL-Library.Product_Lexorder"
begin

text \<open>
  The index from a table and a primary key to a node (\<open>graph/src/resolution_index.rs\<close>): the
  build accumulator, the sorted serialized form with its binary search, and the delta of
  entries inserted after the build. The hash \<open>xxh3_64\<close> is a parameter without assumptions; every
  lookup verifies its candidates, so a collision never yields another key's node.
\<close>

section \<open>Build accumulator\<close>

record resolution_entry =
  re_table_oid :: u32
  re_pk_hash :: u64
  re_node_idx :: u32

type_synonym hash_pk = "u8 list \<Rightarrow> u64"
type_synonym verify = "u32 \<Rightarrow> bool graph_result"

definition ENTRY_SIZE :: usize where
  "ENTRY_SIZE = 16"

definition insert_hashed :: "u32 \<Rightarrow> u64 \<Rightarrow> u32 \<Rightarrow> resolution_entry list \<Rightarrow> resolution_entry list" where
  "insert_hashed oid h idx entries =
     entries @ [\<lparr>re_table_oid = oid, re_pk_hash = h, re_node_idx = idx\<rparr>]"

definition builder_insert :: "hash_pk \<Rightarrow> u32 \<Rightarrow> u8 list \<Rightarrow> u32 \<Rightarrow> resolution_entry list \<Rightarrow> resolution_entry list" where
  "builder_insert hash oid pk idx = insert_hashed oid (hash pk) idx"

definition builder_resolve_verified ::
  "hash_pk \<Rightarrow> resolution_entry list \<Rightarrow> u32 \<Rightarrow> u8 list \<Rightarrow> verify \<Rightarrow> u32 option graph_result" where
  "builder_resolve_verified hash entries oid pk verify =
     rbind (find_r (\<lambda>e. if re_table_oid e = oid \<and> re_pk_hash e = hash pk then verify (re_node_idx e) else Inr False)
       (rev entries)) (\<lambda>r. Inr (map_option re_node_idx r))"

definition entry_key :: "resolution_entry \<Rightarrow> u32 \<times> u64" where
  "entry_key e = (re_table_oid e, re_pk_hash e)"

text \<open>\<open>sort_by\<close> is a stable sort.\<close>

definition to_sorted_entries :: "resolution_entry list \<Rightarrow> resolution_entry list" where
  "to_sorted_entries entries = sort_key entry_key entries"

definition entry_bytes :: "resolution_entry \<Rightarrow> u8 list" where
  "entry_bytes e = bytes_u32 (re_table_oid e) @ bytes_u64 (re_pk_hash e) @ bytes_u32 (re_node_idx e)"

definition to_bytes :: "resolution_entry list \<Rightarrow> u8 list" where
  "to_bytes entries =
     (let entries = to_sorted_entries entries in
      bytes_u32 (word_of_nat (length entries)) @ concat (map entry_bytes entries))"

definition builder_len :: "resolution_entry list \<Rightarrow> usize" where
  "builder_len entries = length (to_sorted_entries entries)"

section \<open>Delta\<close>

type_synonym resolution_delta = "u32 \<times> u64 \<rightharpoonup> u32 list"

definition delta_insert :: "hash_pk \<Rightarrow> u32 \<Rightarrow> u8 list \<Rightarrow> u32 \<Rightarrow> resolution_delta \<Rightarrow> resolution_delta" where
  "delta_insert hash oid pk idx d =
     d((oid, hash pk) \<mapsto> opt_get_or [] (d (oid, hash pk)) @ [idx])"

definition delta_resolve_verified ::
  "hash_pk \<Rightarrow> resolution_delta \<Rightarrow> u32 \<Rightarrow> u8 list \<Rightarrow> verify \<Rightarrow> u32 option graph_result" where
  "delta_resolve_verified hash d oid pk verify =
     (case d (oid, hash pk) of None \<Rightarrow> Inr None | Some candidates \<Rightarrow> find_r verify (rev candidates))"

section \<open>Serialized index\<close>

record resolution_index =
  ri_data :: "u8 list"
  ri_entry_count :: u32

definition from_bytes :: "u8 list \<Rightarrow> resolution_index option graph_result" where
  "from_bytes bytes =
     (if length bytes < 4 then Inr None
      else rbind (u32_at bytes 0) (\<lambda>n.
        if length bytes < 4 + unat n * ENTRY_SIZE then Inr None
        else Inr (Some \<lparr>ri_data = bytes, ri_entry_count = n\<rparr>)))"

definition entry_at :: "resolution_index \<Rightarrow> usize \<Rightarrow> (u32 \<times> u64 \<times> u32) graph_result" where
  "entry_at ri i =
     (let offset = 4 + i * ENTRY_SIZE in
      rbind (u32_at (ri_data ri) offset) (\<lambda>oid.
      rbind (u64_at (ri_data ri) (offset + 4)) (\<lambda>h.
      rbind (u32_at (ri_data ri) (offset + 12)) (\<lambda>idx. Inr (oid, h, idx)))))"

definition entry_cmp :: "resolution_index \<Rightarrow> u32 \<times> u64 \<Rightarrow> usize \<Rightarrow> cmp graph_result" where
  "entry_cmp ri key i = rbind (entry_at ri i) (\<lambda>(t, h, _). Inr (compare (t, h) key))"

text \<open>The run of rows with the key around the row that the search hit.\<close>

primrec scan_first :: "resolution_index \<Rightarrow> u32 \<times> u64 \<Rightarrow> usize \<Rightarrow> usize graph_result" where
  "scan_first ri key 0 = Inr 0"
| "scan_first ri key (Suc first) =
     rbind (entry_at ri first) (\<lambda>(t, h, _). if (t, h) \<noteq> key then Inr (Suc first) else scan_first ri key first)"

function (sequential) scan_last :: "resolution_index \<Rightarrow> u32 \<times> u64 \<Rightarrow> usize \<Rightarrow> usize graph_result" where
  "scan_last ri key after =
     (if after < unat (ri_entry_count ri) then
        rbind (entry_at ri after) (\<lambda>(t, h, _). if (t, h) \<noteq> key then Inr after else scan_last ri key (after + 1))
      else Inr after)"
  by pat_completeness auto

termination
  by (relation "measure (\<lambda>(ri, _, after). unat (ri_entry_count ri) - after)") auto

declare scan_last.simps [simp del]

primrec find_map_node :: "resolution_index \<Rightarrow> verify \<Rightarrow> usize list \<Rightarrow> u32 option graph_result" where
  "find_map_node ri verify [] = Inr None"
| "find_map_node ri verify (i # is) =
     rbind (entry_at ri i) (\<lambda>(_, _, node_idx).
     rbind (verify node_idx) (\<lambda>ok. if ok then Inr (Some node_idx) else find_map_node ri verify is))"

definition index_resolve_verified ::
  "hash_pk \<Rightarrow> resolution_index \<Rightarrow> u32 \<Rightarrow> u8 list \<Rightarrow> verify \<Rightarrow> u32 option graph_result" where
  "index_resolve_verified hash ri oid pk verify =
     (let key = (oid, hash pk) in
      rbind (bsearch (entry_cmp ri key) 0 (unat (ri_entry_count ri))) (\<lambda>hit.
      case hit of
        None \<Rightarrow> Inr None
      | Some mid \<Rightarrow>
          rbind (scan_first ri key mid) (\<lambda>first.
          rbind (scan_last ri key (mid + 1)) (\<lambda>after.
            find_map_node ri verify (rev [first..<after])))))"

section \<open>Entries of serialized bytes\<close>

definition entry_row :: "resolution_index \<Rightarrow> nat \<Rightarrow> resolution_entry" where
  "entry_row ri i = (let offset = 4 + i * 16 in
     \<lparr>re_table_oid = le_word (slice offset (offset + 4) (ri_data ri)),
      re_pk_hash = le_word (slice (offset + 4) (offset + 12) (ri_data ri)),
      re_node_idx = le_word (slice (offset + 12) (offset + 16) (ri_data ri))\<rparr>)"

definition index_entries :: "resolution_index \<Rightarrow> resolution_entry list" where
  "index_entries ri = map (entry_row ri) [0..<unat (ri_entry_count ri)]"

definition index_ok :: "resolution_index \<Rightarrow> bool" where
  "index_ok ri \<longleftrightarrow> 4 + 16 * unat (ri_entry_count ri) \<le> length (ri_data ri) \<and>
     sorted (map entry_key (index_entries ri))"

lemma length_index_entries [simp]: "length (index_entries ri) = unat (ri_entry_count ri)"
  by (simp add: index_entries_def)

lemma entry_at_ok:
  assumes "4 + 16 * unat (ri_entry_count ri) \<le> length (ri_data ri)" "i < unat (ri_entry_count ri)"
  shows "entry_at ri i = Inr (let e = index_entries ri ! i in (re_table_oid e, re_pk_hash e, re_node_idx e))"
proof -
  have "4 + i * 16 + 16 \<le> length (ri_data ri)" using assms by linarith
  with assms(2) show ?thesis
    by (simp add: entry_at_def ENTRY_SIZE_def Let_def index_entries_def entry_row_def add.assoc)
qed

interpretation ri: ordered_table index_ok "\<lambda>ri. map entry_key (index_entries ri)" entry_cmp
proof
  fix ri k i
  assume "index_ok ri" "i < length (map entry_key (index_entries ri))"
  then show "entry_cmp ri k i = Inr (compare (map entry_key (index_entries ri) ! i) k)"
    by (simp add: entry_cmp_def entry_at_ok index_ok_def Let_def entry_key_def)
qed (simp add: index_ok_def)

section \<open>Lookup\<close>

text \<open>What a lookup is: the latest entry of the key whose node is verified.\<close>

definition latest ::
  "verify \<Rightarrow> u32 \<times> u64 \<Rightarrow> resolution_entry list \<Rightarrow> u32 option graph_result" where
  "latest verify key entries = find_r verify (rev (map re_node_idx (filter (\<lambda>e. entry_key e = key) entries)))"

lemma find_r_nodes:
  "rbind (find_r (\<lambda>e. verify (re_node_idx e)) es) (\<lambda>r. Inr (map_option re_node_idx r)) =
    find_r verify (map re_node_idx es)"
  by (simp add: find_r_map)

lemma builder_resolve_latest:
  "builder_resolve_verified hash entries oid pk verify = latest verify (oid, hash pk) entries"
  unfolding builder_resolve_verified_def latest_def find_r_filter find_r_nodes
  by (simp add: rev_filter rev_map entry_key_def)

lemma sort_keeps_latest: "latest verify key (to_sorted_entries entries) = latest verify key entries"
  by (simp add: latest_def to_sorted_entries_def sort_key_stable)

lemma scan_first_ok:
  assumes ok: "index_ok ri" and "mid \<le> unat (ri_entry_count ri)"
  shows "\<exists>f. scan_first ri key mid = Inr f \<and> f \<le> mid \<and>
    (\<forall>j. f \<le> j \<longrightarrow> j < mid \<longrightarrow> entry_key (index_entries ri ! j) = key) \<and>
    (0 < f \<longrightarrow> entry_key (index_entries ri ! (f - 1)) \<noteq> key)"
  using assms(2)
proof (induction mid)
  case (Suc mid)
  have at: "entry_at ri mid = Inr (let e = index_entries ri ! mid in (re_table_oid e, re_pk_hash e, re_node_idx e))"
    using ok Suc.prems by (intro entry_at_ok) (auto simp: index_ok_def)
  show ?case
  proof (cases "entry_key (index_entries ri ! mid) = key")
    case False
    with at show ?thesis
      by (intro exI [of _ "Suc mid"]) (simp add: Let_def entry_key_def)
  next
    case True
    from Suc obtain f where "scan_first ri key mid = Inr f" "f \<le> mid"
      "\<forall>j. f \<le> j \<longrightarrow> j < mid \<longrightarrow> entry_key (index_entries ri ! j) = key"
      "0 < f \<longrightarrow> entry_key (index_entries ri ! (f - 1)) \<noteq> key" by auto
    with at True show ?thesis
      by (intro exI [of _ f]) (auto simp: Let_def entry_key_def less_Suc_eq)
  qed
qed simp

lemma scan_last_ok:
  assumes "index_ok ri" "i \<le> unat (ri_entry_count ri)"
  shows "\<exists>l. scan_last ri key i = Inr l \<and> i \<le> l \<and> l \<le> unat (ri_entry_count ri) \<and>
    (\<forall>j. i \<le> j \<longrightarrow> j < l \<longrightarrow> entry_key (index_entries ri ! j) = key) \<and>
    (l < unat (ri_entry_count ri) \<longrightarrow> entry_key (index_entries ri ! l) \<noteq> key)"
  using assms
proof (induction ri key i rule: scan_last.induct)
  case (1 ri key i)
  show ?case
  proof (cases "i < unat (ri_entry_count ri)")
    case False
    with 1 show ?thesis by (simp add: scan_last.simps [of ri])
  next
    case True
    have at: "entry_at ri i = Inr (let e = index_entries ri ! i in (re_table_oid e, re_pk_hash e, re_node_idx e))"
      using "1.prems"(1) True by (intro entry_at_ok) (auto simp: index_ok_def)
    show ?thesis
    proof (cases "entry_key (index_entries ri ! i) = key")
      case False
      with at True show ?thesis
        by (intro exI [of _ i]) (simp add: scan_last.simps [of ri] Let_def entry_key_def)
    next
      case key: True
      have "i + 1 \<le> unat (ri_entry_count ri)" using True by simp
      have same: "\<not> (re_table_oid (index_entries ri ! i), re_pk_hash (index_entries ri ! i)) \<noteq> key"
        using key by (simp add: entry_key_def)
      from "1.IH" [OF True at [unfolded Let_def] refl refl same "1.prems"(1) \<open>i + 1 \<le> _\<close>] obtain l where
        l: "scan_last ri key (i + 1) = Inr l" "i + 1 \<le> l" "l \<le> unat (ri_entry_count ri)"
        "\<forall>j. i + 1 \<le> j \<longrightarrow> j < l \<longrightarrow> entry_key (index_entries ri ! j) = key"
        "l < unat (ri_entry_count ri) \<longrightarrow> entry_key (index_entries ri ! l) \<noteq> key"
        by blast
      have "entry_key (index_entries ri ! j) = key" if "i \<le> j" "j < l" for j
        using l(4) that key by (cases "j = i") auto
      with l at True key show ?thesis
        by (intro exI [of _ l]) (simp add: scan_last.simps [of ri _ i] Let_def entry_key_def)
    qed
  qed
qed

text \<open>In a table with ascending keys the rows of a key are one run.\<close>

lemma ascending_key_run:
  fixes g :: "'a \<Rightarrow> 'k :: linorder"
  assumes srt: "sorted (map g xs)" and fl: "f \<le> l" "l \<le> length xs"
    and run: "\<forall>j. f \<le> j \<longrightarrow> j < l \<longrightarrow> g (xs ! j) = k" "f < l"
    and below: "0 < f \<longrightarrow> g (xs ! (f - 1)) \<noteq> k" and above: "l < length xs \<longrightarrow> g (xs ! l) \<noteq> k"
  shows "filter (\<lambda>x. g x = k) xs = map ((!) xs) [f..<l]"
proof -
  have mono: "g (xs ! i) \<le> g (xs ! j)" if "i \<le> j" "j < length xs" for i j
    using sorted_nth_mono [OF srt that(1)] that by simp
  have lo: "g (xs ! i) \<noteq> k" if "i < f" for i
  proof -
    have "g (xs ! i) \<le> g (xs ! (f - 1))" using that fl run(2) by (intro mono) auto
    moreover have "g (xs ! (f - 1)) \<le> g (xs ! f)" using fl run(2) by (intro mono) auto
    moreover have "g (xs ! f) = k" "0 < f" using run that by auto
    ultimately show ?thesis using below by auto
  qed
  have hi: "g (xs ! i) \<noteq> k" if "l \<le> i" "i < length xs" for i
  proof -
    have "g (xs ! (l - 1)) \<le> g (xs ! l)" using that by (intro mono) auto
    moreover have "g (xs ! l) \<le> g (xs ! i)" using that by (intro mono) auto
    moreover have "f \<le> l - 1" "l - 1 < l" using run(2) by auto
    then have "g (xs ! (l - 1)) = k" using run(1) by blast
    ultimately show ?thesis using above that by auto
  qed
  have "filter (\<lambda>x. g x = k) xs = map ((!) xs) (filter (\<lambda>i. g (xs ! i) = k) [0..<length xs])"
    by (subst map_nth [of xs, symmetric], subst filter_map) (simp add: comp_def)
  also have "[0..<length xs] = [0..<f] @ [f..<l] @ [l..<length xs]"
    using upt_split [of 0 f "length xs"] upt_split [of f l "length xs"] fl by simp
  also have "filter (\<lambda>i. g (xs ! i) = k) ([0..<f] @ [f..<l] @ [l..<length xs]) = [f..<l]"
  proof -
    have "filter (\<lambda>i. g (xs ! i) = k) [0..<f] = []" by (rule filter_False) (simp add: lo)
    moreover have "filter (\<lambda>i. g (xs ! i) = k) [f..<l] = [f..<l]" by (rule filter_True) (use run in simp)
    moreover have "filter (\<lambda>i. g (xs ! i) = k) [l..<length xs] = []" by (rule filter_False) (simp add: hi)
    ultimately show ?thesis by simp
  qed
  finally show ?thesis .
qed

lemma find_map_node_ok:
  assumes "index_ok ri"
  shows "\<forall>i\<in>set is. i < unat (ri_entry_count ri) \<Longrightarrow>
    find_map_node ri verify is = find_r verify (map (\<lambda>i. re_node_idx (index_entries ri ! i)) is)"
  using assms by (induction "is") (auto simp: index_ok_def entry_at_ok Let_def intro!: rbind_cong)

lemma index_resolve_latest:
  assumes ok: "index_ok ri"
  shows "index_resolve_verified hash ri oid pk verify = latest verify (oid, hash pk) (index_entries ri)"
proof -
  let ?key = "(oid, hash pk)" and ?es = "index_entries ri" and ?n = "unat (ri_entry_count ri)"
  obtain r where r: "bsearch (entry_cmp ri ?key) 0 ?n = Inr r"
    "case r of Some i \<Rightarrow> i < ?n \<and> entry_key (?es ! i) = ?key | None \<Rightarrow> ?key \<notin> set (map entry_key ?es)"
    using ri.search_exact [OF ok, of ?key] by (auto split: option.splits)
  show ?thesis
  proof (cases r)
    case None
    with r(2) have "filter (\<lambda>e. entry_key e = ?key) ?es = []" by (force simp: filter_empty_conv)
    with r(1) None show ?thesis by (simp add: index_resolve_verified_def latest_def)
  next
    case (Some mid)
    with r(2) have mid: "mid < ?n" "entry_key (?es ! mid) = ?key" by simp_all
    obtain f where f: "scan_first ri ?key mid = Inr f" "f \<le> mid"
      "\<forall>j. f \<le> j \<longrightarrow> j < mid \<longrightarrow> entry_key (?es ! j) = ?key" "0 < f \<longrightarrow> entry_key (?es ! (f - 1)) \<noteq> ?key"
      using scan_first_ok [OF ok less_imp_le [OF mid(1)]] by blast
    obtain l where l: "scan_last ri ?key (mid + 1) = Inr l" "mid + 1 \<le> l" "l \<le> ?n"
      "\<forall>j. mid + 1 \<le> j \<longrightarrow> j < l \<longrightarrow> entry_key (?es ! j) = ?key" "l < ?n \<longrightarrow> entry_key (?es ! l) \<noteq> ?key"
      using scan_last_ok [OF ok, of "mid + 1" ?key] mid(1) by auto
    have run: "entry_key (?es ! j) = ?key" if "f \<le> j" "j < l" for j
    proof (cases "j = mid")
      case False
      with f(3) l(4) that show ?thesis by (cases "j < mid") auto
    qed (use mid in simp)
    have "filter (\<lambda>e. entry_key e = ?key) ?es = map ((!) ?es) [f..<l]"
      by (rule ascending_key_run) (use ok f l run in \<open>auto simp: index_ok_def\<close>)
    moreover have "find_map_node ri verify (rev [f..<l]) =
        find_r verify (map (\<lambda>i. re_node_idx (?es ! i)) (rev [f..<l]))"
      by (rule find_map_node_ok [OF ok]) (use l in auto)
    ultimately show ?thesis
      using r(1) Some f(1) l(1) by (simp add: index_resolve_verified_def latest_def Let_def rev_map comp_def)
  qed
qed

section \<open>Round trip\<close>

lemma length_entry_bytes [simp]: "length (entry_bytes e) = 16"
  by (simp add: entry_bytes_def)

lemma entry_row_bytes:
  assumes "ri_data ri = front @ concat (map entry_bytes es)" "length front = 4" "i < length es"
  shows "entry_row ri i = es ! i"
proof -
  let ?c = "concat (map entry_bytes es)" and ?e = "es ! i"
  have c: "slice (i * 16) (i * 16 + 16) ?c = entry_bytes ?e"
    using slice_concat_width [of "map entry_bytes es" 16 i] assms(3) by (simp add: mult.commute)
  have sub: "slice (4 + i * 16 + a) (4 + i * 16 + b) (ri_data ri) = slice a b (entry_bytes ?e)" if "b \<le> 16" for a b
    using that slice_slice [of b "i * 16 + 16" "i * 16" a ?c] assms(1,2)
    by (simp add: c slice_append2)
  have parts: "slice 0 4 (entry_bytes ?e) = bytes_u32 (re_table_oid ?e)"
    "slice 4 12 (entry_bytes ?e) = bytes_u64 (re_pk_hash ?e)"
    "slice 12 16 (entry_bytes ?e) = bytes_u32 (re_node_idx ?e)"
    by (simp_all add: entry_bytes_def slice_def)
  show ?thesis
    using sub [of 4 0] sub [of 12 4] sub [of 16 12] by (simp add: entry_row_def Let_def parts)
qed

lemma to_bytes_index:
  assumes "length entries < 2 ^ 32"
  shows "\<exists>ri. from_bytes (to_bytes entries) = Inr (Some ri) \<and> index_ok ri \<and>
    index_entries ri = to_sorted_entries entries"
proof -
  let ?es = "to_sorted_entries entries"
  let ?n = "word_of_nat (length ?es) :: u32"
  let ?ri = "\<lparr>ri_data = to_bytes entries, ri_entry_count = ?n\<rparr>"
  have len: "length ?es = length entries" by (simp add: to_sorted_entries_def)
  have n: "unat ?n = length ?es" using assms len by simp
  have bytes: "to_bytes entries = bytes_u32 ?n @ concat (map entry_bytes ?es)"
    by (simp add: to_bytes_def Let_def)
  have lb: "length (to_bytes entries) = 4 + 16 * length ?es"
    using length_concat_width [of "map entry_bytes ?es" 16] by (simp add: bytes)
  have "u32_at (to_bytes entries) 0 = (Inr ?n :: u32 graph_result)"
    using lb by (simp add: bytes slice_append1 slice_def)
  then have "from_bytes (to_bytes entries) = Inr (Some ?ri)"
    using lb n by (simp add: from_bytes_def ENTRY_SIZE_def)
  moreover have "index_entries ?ri = ?es"
  proof (rule nth_equalityI)
    fix i assume "i < length (index_entries ?ri)"
    then have "i < length ?es" using n by simp
    then show "index_entries ?ri ! i = ?es ! i"
      using entry_row_bytes [of ?ri "bytes_u32 ?n" ?es i] n by (simp add: index_entries_def bytes)
  qed (simp add: n)
  moreover have "index_ok ?ri"
    using calculation(2) lb n by (simp add: index_ok_def to_sorted_entries_def)
  ultimately show ?thesis by blast
qed

text \<open>
  C22: Serializing the build entries and opening the bytes never faults (below 2^32 entries), and
  a lookup in the sorted bytes, by binary search and a scan of the run of equal keys, equals the
  lookup in the build accumulator, for every verification, faults and call order included.
\<close>

theorem resolution_roundtrip:
  assumes "length entries < 2 ^ 32"
  shows "\<exists>ri. from_bytes (to_bytes entries) = Inr (Some ri) \<and> unat (ri_entry_count ri) = builder_len entries \<and>
    (\<forall>oid pk verify. index_resolve_verified hash ri oid pk verify =
       builder_resolve_verified hash entries oid pk verify)"
proof -
  obtain ri where ri: "from_bytes (to_bytes entries) = Inr (Some ri)" "index_ok ri"
    "index_entries ri = to_sorted_entries entries" using to_bytes_index [OF assms] by blast
  from arg_cong [OF ri(3), of length] have "unat (ri_entry_count ri) = builder_len entries"
    by (simp add: builder_len_def)
  with ri show ?thesis
    by (intro exI [of _ ri]) (simp add: index_resolve_latest builder_resolve_latest sort_keeps_latest)
qed

theorem resolution_roundtrip_witness:
  "\<exists>ri. from_bytes (to_bytes (builder_insert (\<lambda>_. 5) 7 [98] 1 (builder_insert (\<lambda>_. 5) 7 [97] 0 []))) = Inr (Some ri) \<and>
    unat (ri_entry_count ri) = builder_len (builder_insert (\<lambda>_. 5) 7 [98] 1 (builder_insert (\<lambda>_. 5) 7 [97] 0 [])) \<and>
    (\<forall>oid pk verify. index_resolve_verified (\<lambda>_. 5) ri oid pk verify =
       builder_resolve_verified (\<lambda>_. 5) (builder_insert (\<lambda>_. 5) 7 [98] 1 (builder_insert (\<lambda>_. 5) 7 [97] 0 [])) oid pk verify)"
  by (rule resolution_roundtrip) (simp add: builder_insert_def insert_hashed_def)

end
