(* ===== verification/TenantIndex.thy ===== *)
theory TenantIndex
  imports Codec NodeStore "HOL-Library.List_Lexorder"
begin

text \<open>
  The mapped tenant membership of a snapshot (\<open>graph/src/tenant_store.rs\<close>): a lexical UTF-8
  dictionary and one token per node, validated once and then read without a copy. A string is
  its UTF-8 bytes; Rust orders strings by them.
\<close>

section \<open>Reading\<close>

definition corrupt :: "string \<Rightarrow> graph_error fault" where
  "corrupt reason = Err (CorruptFile reason)"

record tenant_parts =
  tp_bytes :: "u8 list"
  tp_dictionary_range :: byte_range
  tp_tokens_range :: byte_range

record tenant_index =
  ti_bytes :: "u8 list"
  ti_tokens_range :: byte_range
  ti_entries :: "byte_range list"
  ti_node_count :: u32

definition read_u32 :: "u8 list \<Rightarrow> usize \<Rightarrow> u32 graph_result" where
  "read_u32 bytes offset =
     rbind (ok_or (corrupt ''tenant integer offset overflowed'') (checked_add_usize offset 4)) (\<lambda>stop.
     rbind (ok_or (corrupt ''tenant u32 is truncated'') (get_slice_opt bytes offset stop)) (\<lambda>raw.
       Inr (le_word raw)))"

definition read_u64 :: "u8 list \<Rightarrow> usize \<Rightarrow> u64 graph_result" where
  "read_u64 bytes offset =
     rbind (ok_or (corrupt ''tenant integer offset overflowed'') (checked_add_usize offset 8)) (\<lambda>stop.
     rbind (ok_or (corrupt ''tenant u64 is truncated'') (get_slice_opt bytes offset stop)) (\<lambda>raw.
       Inr (le_word raw)))"

definition read_dictionary_offset :: "u8 list \<Rightarrow> usize \<Rightarrow> usize graph_result" where
  "read_dictionary_offset dictionary i =
     rbind (ok_or (corrupt ''tenant dictionary offset position overflowed'')
       (Option.bind (checked_mul_usize i 8) (\<lambda>offset. checked_add_usize offset 4))) (\<lambda>relative.
     rbind (read_u64 dictionary relative) (\<lambda>offset. Inr (unat offset)))"

definition range_in_mapping :: "byte_range \<Rightarrow> usize \<Rightarrow> bool" where
  "range_in_mapping r mapping_len \<longleftrightarrow> fst r \<le> snd r \<and> snd r \<le> mapping_len"

definition ranges_overlap :: "byte_range \<Rightarrow> byte_range \<Rightarrow> bool" where
  "ranges_overlap l r \<longleftrightarrow> fst l < snd r \<and> fst r < snd l"

definition validate_section_ranges :: "tenant_parts \<Rightarrow> unit graph_result" where
  "validate_section_ranges p =
     (if \<not> range_in_mapping (tp_dictionary_range p) (length (tp_bytes p)) \<or>
         \<not> range_in_mapping (tp_tokens_range p) (length (tp_bytes p)) \<or>
         ranges_overlap (tp_dictionary_range p) (tp_tokens_range p)
      then Inl (corrupt ''invalid tenant index section layout'') else Inr ())"

definition slice_range_r :: "u8 list \<Rightarrow> byte_range \<Rightarrow> ('e, u8 list) rust_result" where
  "slice_range_r bytes r = slice_r bytes (fst r) (snd r)"

section \<open>Validation\<close>

record dictionary_scan =
  ds_entries :: "byte_range list"
  ds_previous_end :: usize
  ds_previous_value :: "u8 list option"

definition tenant_entry_error :: "usize \<Rightarrow> string \<Rightarrow> graph_error fault" where
  "tenant_entry_error token what =
     corrupt (''tenant dictionary entry '' @ show_nat (token + 1) @ what)"

definition absolute_offset :: "tenant_parts \<Rightarrow> usize \<Rightarrow> usize \<Rightarrow> usize graph_result" where
  "absolute_offset p strings_start offset =
     ok_or (corrupt ''tenant dictionary entry range overflowed'')
       (Option.bind (checked_add_usize (fst (tp_dictionary_range p)) strings_start) (\<lambda>b. checked_add_usize b offset))"

definition scan_entry ::
  "tenant_parts \<Rightarrow> u8 list \<Rightarrow> u8 list \<Rightarrow> usize \<Rightarrow> usize \<Rightarrow> dictionary_scan \<Rightarrow> dictionary_scan graph_result" where
  "scan_entry p dictionary strings strings_start token s =
     rbind (read_dictionary_offset dictionary token) (\<lambda>start.
     rbind (read_dictionary_offset dictionary (token + 1)) (\<lambda>stop.
       if start \<noteq> ds_previous_end s \<or> start > stop \<or> stop > length strings then
         Inl (tenant_entry_error token '' has invalid offsets'')
       else
         rbind (slice_r strings start stop) (\<lambda>raw.
         rbind (ok_or (tenant_entry_error token '' is not UTF-8'') (from_utf8 raw)) (\<lambda>v.
           if (case ds_previous_value s of None \<Rightarrow> False | Some previous \<Rightarrow> previous \<ge> v) then
             Inl (tenant_entry_error token '' is not strictly lexical'')
           else
             rbind (absolute_offset p strings_start start) (\<lambda>absolute_start.
             rbind (absolute_offset p strings_start stop) (\<lambda>absolute_end.
               Inr \<lparr>ds_entries = ds_entries s @ [(absolute_start, absolute_end)],
                 ds_previous_end = stop, ds_previous_value = Some v\<rparr>))))))"

text \<open>\<open>chunks_exact(4)\<close>: whole chunks from the front, a shorter rest is left out.\<close>

fun chunks4 :: "u8 list \<Rightarrow> u8 list list" where
  "chunks4 (a # b # c # d # rest) = [a, b, c, d] # chunks4 rest"
| "chunks4 _ = []"

definition check_token :: "u32 \<Rightarrow> nat \<times> u8 list \<Rightarrow> unit \<Rightarrow> unit graph_result" where
  "check_token dictionary_count = (\<lambda>(node_idx, token_bytes) _.
     rbind (read_u32 token_bytes 0) (\<lambda>token.
       if token > dictionary_count then
         Inl (corrupt (''tenant token for node '' @ show_nat node_idx @ '' is outside the dictionary''))
       else Inr ()))"

definition tenant_index_new :: "tenant_parts \<Rightarrow> u32 \<Rightarrow> tenant_index graph_result" where
  "tenant_index_new p nodes_len =
     rbind (validate_section_ranges p) (\<lambda>_.
     rbind (ok_or (corrupt ''tenant token section length overflowed'') (checked_mul_usize (unat nodes_len) 4)) (\<lambda>expected.
     if range_len (tp_tokens_range p) \<noteq> expected then
       Inl (corrupt ''tenant token section does not contain exactly one token per node'')
     else
       rbind (slice_range_r (tp_bytes p) (tp_dictionary_range p)) (\<lambda>dictionary.
       rbind (read_u32 dictionary 0) (\<lambda>count32.
       let count = unat count32 in
       rbind (ok_or (corrupt ''tenant dictionary offset count overflowed'') (checked_add_usize count 1)) (\<lambda>offset_count.
       rbind (ok_or (corrupt ''tenant dictionary offset table overflowed'') (checked_mul_usize offset_count 8)) (\<lambda>offsets_bytes.
       rbind (ok_or (corrupt ''tenant dictionary header length overflowed'') (checked_add_usize 4 offsets_bytes)) (\<lambda>strings_start.
       rbind (ok_or (corrupt ''tenant dictionary offset table is truncated'')
         (get_slice_opt dictionary strings_start (length dictionary))) (\<lambda>strings.
       rbind (read_u64 dictionary 4) (\<lambda>first_offset.
       if first_offset \<noteq> 0 then Inl (corrupt ''tenant dictionary must begin at offset zero'')
       else
         rbind (ok_or (corrupt ''tenant dictionary terminal offset overflowed'')
           (Option.bind (checked_mul_usize count 8) (\<lambda>b. checked_add_usize 4 b))) (\<lambda>terminal.
         rbind (read_u64 dictionary terminal) (\<lambda>terminal_value.
         if unat terminal_value \<noteq> length strings then
           Inl (corrupt ''tenant dictionary terminal offset does not span its payload'')
         else
           rbind (fold_r (scan_entry p dictionary strings strings_start) [0..<count]
             \<lparr>ds_entries = [], ds_previous_end = 0, ds_previous_value = None\<rparr>) (\<lambda>scan.
           rbind (slice_range_r (tp_bytes p) (tp_tokens_range p)) (\<lambda>tokens.
           rbind (fold_r (check_token count32) (enumerate 0 (chunks4 tokens)) ()) (\<lambda>_.
             Inr \<lparr>ti_bytes = tp_bytes p, ti_tokens_range = tp_tokens_range p,
               ti_entries = ds_entries scan, ti_node_count = nodes_len\<rparr>))))))))))))))"

section \<open>Membership\<close>

definition tenant_entry :: "tenant_index \<Rightarrow> usize \<Rightarrow> u8 list option graph_result" where
  "tenant_entry ix i =
     (case get_opt (ti_entries ix) i of
        None \<Rightarrow> Inr None
      | Some r \<Rightarrow> rbind (slice_range_r (ti_bytes ix) r) (\<lambda>raw. Inr (from_utf8 raw)))"

text \<open>\<open>u32::try_from(middle).ok()?.checked_add(1)\<close>\<close>

definition token_of :: "usize \<Rightarrow> u32 option" where
  "token_of i = (if i + 1 < 2 ^ 32 then Some (word_of_nat (i + 1)) else None)"

function (sequential) token_search :: "tenant_index \<Rightarrow> u8 list \<Rightarrow> usize \<Rightarrow> usize \<Rightarrow> u32 option graph_result" where
  "token_search ix tenant low high =
     (if low < high then
        let middle = low + (high - low) div 2 in
        rbind (tenant_entry ix middle) (\<lambda>v. case v of None \<Rightarrow> Inr None
        | Some v \<Rightarrow>
            (case compare v tenant of
               CLess \<Rightarrow> token_search ix tenant (middle + 1) high
             | CGreater \<Rightarrow> token_search ix tenant low middle
             | CEqual \<Rightarrow> Inr (token_of middle)))
      else Inr None)"
  by pat_completeness auto

termination
  by (relation "measure (\<lambda>(_, _, low, high). high - low)") auto

declare token_search.simps [simp del]

definition token_for_tenant :: "tenant_index \<Rightarrow> u8 list \<Rightarrow> u32 option graph_result" where
  "token_for_tenant ix tenant = token_search ix tenant 0 (length (ti_entries ix))"

definition token_for_node :: "tenant_index \<Rightarrow> u32 \<Rightarrow> u32 option" where
  "token_for_node ix node_idx =
     (if node_idx \<ge> ti_node_count ix then None
      else Option.bind (checked_mul_usize (unat node_idx) 4) (\<lambda>relative.
        Option.bind (checked_add_usize (fst (ti_tokens_range ix)) relative) (\<lambda>start.
          (case read_u32 (ti_bytes ix) start of Inr t \<Rightarrow> Some t | Inl _ \<Rightarrow> None))))"

definition tenant_index_contains :: "tenant_index \<Rightarrow> u8 list \<Rightarrow> u32 \<Rightarrow> bool graph_result" where
  "tenant_index_contains ix tenant node_idx =
     rbind (token_for_tenant ix tenant) (\<lambda>expected. case expected of
       None \<Rightarrow> Inr False | Some t \<Rightarrow> Inr (token_for_node ix node_idx = Some t))"

definition tenant_for_node :: "tenant_index \<Rightarrow> u32 \<Rightarrow> u8 list option graph_result" where
  "tenant_for_node ix node_idx =
     (case token_for_node ix node_idx of None \<Rightarrow> Inr None
      | Some token \<Rightarrow> if token = 0 then Inr None else tenant_entry ix (unat (token - 1)))"

definition tenant_heap_bytes :: "usize \<Rightarrow> usize" where
  "tenant_heap_bytes capacity = (if capacity * 16 \<le> usize_max then capacity * 16 else usize_max)"

section \<open>What a validated index holds\<close>

definition tenant_dictionary :: "tenant_index \<Rightarrow> u8 list list" where
  "tenant_dictionary ix = map (range_bytes (ti_bytes ix)) (ti_entries ix)"

definition tenant_token :: "tenant_index \<Rightarrow> nat \<Rightarrow> u32" where
  "tenant_token ix i =
     (let start = fst (ti_tokens_range ix) + 4 * i in le_word (slice start (start + 4) (ti_bytes ix)))"

definition tenant_ok :: "tenant_index \<Rightarrow> bool" where
  "tenant_ok ix \<longleftrightarrow>
     (\<forall>r\<in>set (ti_entries ix). fst r \<le> snd r \<and> snd r \<le> length (ti_bytes ix) \<and> utf8_ok (range_bytes (ti_bytes ix) r)) \<and>
     sorted_wrt (<) (tenant_dictionary ix) \<and> length (ti_entries ix) < 2 ^ 32 \<and>
     fst (ti_tokens_range ix) + 4 * unat (ti_node_count ix) \<le> length (ti_bytes ix) \<and>
     length (ti_bytes ix) \<le> usize_max \<and>
     (\<forall>i<unat (ti_node_count ix). unat (tenant_token ix i) \<le> length (ti_entries ix))"

text \<open>The tenant of a node, if it has one.\<close>

definition tenant_assignment :: "tenant_index \<Rightarrow> u32 \<Rightarrow> u8 list option" where
  "tenant_assignment ix i =
     (if unat i < unat (ti_node_count ix) \<and> tenant_token ix (unat i) \<noteq> 0
      then Some (tenant_dictionary ix ! (unat (tenant_token ix (unat i)) - 1)) else None)"

lemma tenant_entry_ok:
  assumes "tenant_ok ix" "i < length (ti_entries ix)"
  shows "tenant_entry ix i = Inr (Some (tenant_dictionary ix ! i))"
proof -
  have "ti_entries ix ! i \<in> set (ti_entries ix)" using assms(2) by simp
  with assms show ?thesis
    by (auto simp: tenant_entry_def slice_range_r_def tenant_ok_def tenant_dictionary_def from_utf8_def range_bytes_def)
qed

definition tenant_cmp :: "tenant_index \<Rightarrow> u8 list \<Rightarrow> usize \<Rightarrow> cmp graph_result" where
  "tenant_cmp ix tenant i =
     rbind (tenant_entry ix i) (\<lambda>v. case v of None \<Rightarrow> Inl Panic | Some v \<Rightarrow> Inr (compare v tenant))"

interpretation ti: ordered_table tenant_ok tenant_dictionary tenant_cmp
proof
  fix ix k i
  assume "tenant_ok ix" "i < length (tenant_dictionary ix)"
  then show "tenant_cmp ix k i = Inr (compare (tenant_dictionary ix ! i) k)"
    by (simp add: tenant_cmp_def tenant_entry_ok tenant_dictionary_def)
next
  fix ix
  assume "tenant_ok ix"
  then show "sorted (tenant_dictionary ix)"
    by (simp add: tenant_ok_def strict_sorted_imp_sorted)
qed

lemma token_search_bsearch:
  assumes "tenant_ok ix"
  shows "high \<le> length (ti_entries ix) \<Longrightarrow>
    token_search ix tenant low high =
      rbind (bsearch (tenant_cmp ix tenant) low high) (\<lambda>r. Inr (Option.bind r token_of))"
  using assms
proof (induction ix tenant low high rule: token_search.induct)
  case (1 ix tenant low high)
  define mid where "mid = low + (high - low) div 2"
  show ?case
  proof (cases "low < high")
    case False
    then show ?thesis by (simp add: token_search.simps [of ix] bsearch.simps [of _ low])
  next
    case True
    then have mid: "mid < high" "mid < length (ti_entries ix)" using "1.prems"(1) by (auto simp: mid_def)
    note e = tenant_entry_ok [OF "1.prems"(2) mid(2)]
    show ?thesis
    proof (cases "compare (tenant_dictionary ix ! mid) tenant")
      case CLess
      from "1.IH"(1) [OF True mid_def e refl CLess "1.prems"] CLess True e show ?thesis
        by (simp add: token_search.simps [of ix _ low high] bsearch.simps [of _ low high] Let_def tenant_cmp_def
            flip: mid_def)
    next
      case CEqual
      with True e show ?thesis
        by (simp add: token_search.simps [of ix _ low high] bsearch.simps [of _ low high] Let_def tenant_cmp_def
            flip: mid_def)
    next
      case CGreater
      have "mid \<le> length (ti_entries ix)" using mid(2) by simp
      from "1.IH"(2) [OF True mid_def e refl CGreater this "1.prems"(2)] CGreater True e show ?thesis
        by (simp add: token_search.simps [of ix _ low high] bsearch.simps [of _ low high] Let_def tenant_cmp_def
            flip: mid_def)
    qed
  qed
qed

lemma token_for_tenant_ok:
  assumes ok: "tenant_ok ix"
  shows "\<exists>r. token_for_tenant ix tenant = Inr r \<and>
    (case r of None \<Rightarrow> tenant \<notin> set (tenant_dictionary ix)
     | Some t \<Rightarrow> t \<noteq> 0 \<and> unat t \<le> length (ti_entries ix) \<and> tenant_dictionary ix ! (unat t - 1) = tenant)"
proof -
  have len: "length (tenant_dictionary ix) = length (ti_entries ix)" by (simp add: tenant_dictionary_def)
  obtain r where r: "bsearch (tenant_cmp ix tenant) 0 (length (ti_entries ix)) = Inr r"
    "case r of Some i \<Rightarrow> i < length (ti_entries ix) \<and> tenant_dictionary ix ! i = tenant
     | None \<Rightarrow> tenant \<notin> set (tenant_dictionary ix)"
    using ti.search_exact [OF ok, of tenant] unfolding len by blast
  have eq: "token_for_tenant ix tenant = Inr (Option.bind r token_of)"
    using token_search_bsearch [OF ok order_refl, of tenant 0] r(1) by (simp add: token_for_tenant_def)
  show ?thesis
  proof (cases r)
    case None
    with eq r(2) show ?thesis by simp
  next
    case (Some i)
    with r(2) have i: "i < length (ti_entries ix)" "tenant_dictionary ix ! i = tenant" by simp_all
    then have "i + 1 < 2 ^ 32" using ok by (simp add: tenant_ok_def)
    then have t: "token_of i = Some (word_of_nat (i + 1))" "unat (word_of_nat (i + 1) :: u32) = i + 1"
      by (simp_all add: token_of_def unat_of_nat_u32 del: of_nat_add of_nat_Suc)
    then have "(word_of_nat (i + 1) :: u32) \<noteq> 0" by (metis add_is_0 unat_0 zero_neq_one)
    with eq Some t i show ?thesis by (intro exI [of _ "token_of i"]) (simp del: of_nat_add of_nat_Suc)
  qed
qed

lemma token_for_node_ok:
  assumes ok: "tenant_ok ix"
  shows "token_for_node ix i = (if unat i < unat (ti_node_count ix) then Some (tenant_token ix (unat i)) else None)"
proof (cases "unat i < unat (ti_node_count ix)")
  case False
  then show ?thesis by (simp add: token_for_node_def word_le_nat_alt)
next
  case True
  have b: "fst (ti_tokens_range ix) + 4 * unat i + 4 \<le> length (ti_bytes ix)" "length (ti_bytes ix) \<le> usize_max"
    using ok True by (auto simp: tenant_ok_def)
  then have "read_u32 (ti_bytes ix) (fst (ti_tokens_range ix) + 4 * unat i) = Inr (tenant_token ix (unat i))"
    by (simp add: read_u32_def checked_add_usize_def get_slice_opt_def tenant_token_def Let_def)
  with b True show ?thesis
    by (simp add: token_for_node_def word_le_nat_alt checked_mul_usize_def checked_add_usize_def mult.commute)
qed

lemma tenant_lookup_ok:
  assumes ok: "tenant_ok ix"
  shows "tenant_for_node ix i = Inr (tenant_assignment ix i)"
    "tenant_index_contains ix tenant i = Inr (tenant_assignment ix i = Some tenant)"
proof -
  let ?t = "tenant_token ix (unat i)"
  have range: "unat ?t - 1 < length (ti_entries ix)" "unat (?t - 1) = unat ?t - 1"
    if "unat i < unat (ti_node_count ix)" "?t \<noteq> 0"
  proof -
    have "0 < unat ?t" using that(2) by (simp add: unat_gt_0)
    moreover have "unat ?t \<le> length (ti_entries ix)" using ok that(1) by (simp add: tenant_ok_def)
    ultimately show "unat ?t - 1 < length (ti_entries ix)" by simp
    show "unat (?t - 1) = unat ?t - 1" using that(2) by (rule unat_minus_one)
  qed
  show "tenant_for_node ix i = Inr (tenant_assignment ix i)"
    using range tenant_entry_ok [OF ok, of "unat ?t - 1"]
    by (simp add: tenant_for_node_def token_for_node_ok [OF ok] tenant_assignment_def)
  obtain r where r: "token_for_tenant ix tenant = Inr r"
    "case r of None \<Rightarrow> tenant \<notin> set (tenant_dictionary ix)
     | Some t \<Rightarrow> t \<noteq> 0 \<and> unat t \<le> length (ti_entries ix) \<and> tenant_dictionary ix ! (unat t - 1) = tenant"
    using token_for_tenant_ok [OF ok, of tenant] by blast
  have len: "length (tenant_dictionary ix) = length (ti_entries ix)" by (simp add: tenant_dictionary_def)
  have dist: "distinct (tenant_dictionary ix)" using ok by (simp add: tenant_ok_def strict_sorted_iff)
  show "tenant_index_contains ix tenant i = Inr (tenant_assignment ix i = Some tenant)"
  proof (cases "unat i < unat (ti_node_count ix) \<and> ?t \<noteq> 0")
    case False
    with r show ?thesis
      by (auto simp: tenant_index_contains_def token_for_node_ok [OF ok] tenant_assignment_def split: option.splits)
  next
    case True
    note rng = range [OF conjunct1 [OF True] conjunct2 [OF True]]
    show ?thesis
    proof (cases r)
      case None
      with r(2) have "tenant \<notin> set (tenant_dictionary ix)" by simp
      moreover have "tenant_dictionary ix ! (unat ?t - 1) \<in> set (tenant_dictionary ix)"
        using rng(1) by (intro nth_mem) (simp add: len)
      ultimately have "tenant_dictionary ix ! (unat ?t - 1) \<noteq> tenant" by auto
      with None r(1) True show ?thesis by (simp add: tenant_index_contains_def tenant_assignment_def)
    next
      case (Some t)
      with r(2) have t: "t \<noteq> 0" "unat t \<le> length (ti_entries ix)" "tenant_dictionary ix ! (unat t - 1) = tenant"
        by simp_all
      then have t0: "0 < unat t" "0 < unat ?t" using True by (simp_all add: unat_gt_0)
      have "unat t - 1 < length (tenant_dictionary ix)" "unat ?t - 1 < length (tenant_dictionary ix)"
        using t0 t(2) rng len by auto
      from nth_eq_iff_index_eq [OF dist this(2,1)]
      have "tenant_dictionary ix ! (unat ?t - 1) = tenant \<longleftrightarrow> unat ?t - 1 = unat t - 1"
        unfolding t(3) .
      also have "\<dots> \<longleftrightarrow> ?t = t" using t0 by (auto simp: word_unat_eq_iff)
      finally show ?thesis
        using Some r(1) True by (simp add: tenant_index_contains_def tenant_assignment_def token_for_node_ok [OF ok])
    qed
  qed
qed

section \<open>Validation makes it so\<close>

definition scan_ok :: "tenant_parts \<Rightarrow> dictionary_scan \<Rightarrow> bool" where
  "scan_ok p s \<longleftrightarrow>
     (\<forall>r\<in>set (ds_entries s). fst r \<le> snd r \<and> snd r \<le> length (tp_bytes p) \<and> utf8_ok (range_bytes (tp_bytes p) r)) \<and>
     sorted_wrt (<) (map (range_bytes (tp_bytes p)) (ds_entries s)) \<and>
     ds_previous_value s = (if ds_entries s = [] then None
       else Some (range_bytes (tp_bytes p) (last (ds_entries s))))"

lemma scan_entry_ok:
  assumes step: "scan_entry p dictionary strings ss token s = Inr t" and s: "scan_ok p s"
    and dict: "strings = slice (fst (tp_dictionary_range p) + ss) (snd (tp_dictionary_range p)) (tp_bytes p)"
    and rng: "fst (tp_dictionary_range p) + ss \<le> snd (tp_dictionary_range p)" "snd (tp_dictionary_range p) \<le> length (tp_bytes p)"
  shows "scan_ok p t \<and> length (ds_entries t) = Suc (length (ds_entries s))"
proof -
  define start where "start = ds_previous_end s"
  from step obtain stop v a b where
    v: "start \<le> stop" "stop \<le> length strings" "from_utf8 (slice start stop strings) = Some v"
    "\<not> (case ds_previous_value s of None \<Rightarrow> False | Some previous \<Rightarrow> previous \<ge> v)"
    "absolute_offset p ss start = Inr a" "absolute_offset p ss stop = Inr b"
    "t = \<lparr>ds_entries = ds_entries s @ [(a, b)], ds_previous_end = stop, ds_previous_value = Some v\<rparr>"
    by (auto simp: scan_entry_def result_simps start_def not_less split: if_splits)
  let ?d = "fst (tp_dictionary_range p) + ss"
  have ab: "a = ?d + start" "b = ?d + stop"
    using v(5,6) by (auto simp: absolute_offset_def result_simps bind_eq_Some_conv checked_add_usize_def split: if_splits)
  have len: "length strings = snd (tp_dictionary_range p) - ?d" using dict rng by simp
  have val: "range_bytes (tp_bytes p) (a, b) = v" "utf8_ok v"
    using v(3) slice_slice [of stop "snd (tp_dictionary_range p)" ?d start "tp_bytes p"] v(2) len
    by (auto simp: range_bytes_def ab dict from_utf8_def split: if_splits)
  have bound: "a \<le> b" "b \<le> length (tp_bytes p)" using v(1,2) len rng by (auto simp: ab)
  have lt: "range_bytes (tp_bytes p) r < v" if "r \<in> set (ds_entries s)" for r
  proof -
    have ne: "ds_entries s \<noteq> []" using that by auto
    then have last: "range_bytes (tp_bytes p) (last (ds_entries s)) < v" using v(4) s by (auto simp: scan_ok_def)
    from ne obtain front l where fl: "ds_entries s = front @ [l]" by (metis append_butlast_last_id)
    with s have "sorted_wrt (<) (map (range_bytes (tp_bytes p)) front @ [range_bytes (tp_bytes p) l])"
      by (simp add: scan_ok_def)
    then have "r \<in> set front \<Longrightarrow> range_bytes (tp_bytes p) r < range_bytes (tp_bytes p) l"
      by (auto simp: sorted_wrt_append)
    with fl last that show ?thesis by (auto intro: less_trans)
  qed
  show ?thesis
    using s val bound lt by (auto simp: v(7) scan_ok_def sorted_wrt_append)
qed

lemma scan_fold_ok:
  assumes "fold_r (scan_entry p dictionary strings ss) ks s = Inr t" "scan_ok p s"
    "strings = slice (fst (tp_dictionary_range p) + ss) (snd (tp_dictionary_range p)) (tp_bytes p)"
    "fst (tp_dictionary_range p) + ss \<le> snd (tp_dictionary_range p)" "snd (tp_dictionary_range p) \<le> length (tp_bytes p)"
  shows "scan_ok p t \<and> length (ds_entries t) = length (ds_entries s) + length ks"
  using assms(1,2)
proof (induction ks arbitrary: s)
  case (Cons k ks)
  then obtain u where u: "scan_entry p dictionary strings ss k s = Inr u"
    "fold_r (scan_entry p dictionary strings ss) ks u = Inr t" by (auto simp: result_simps)
  from scan_entry_ok [OF u(1) Cons.prems(2) assms(3-5)] Cons.IH [OF u(2)] show ?case by auto
qed simp

lemma chunks4_nth:
  "4 * n \<le> length bs \<Longrightarrow> i < n \<Longrightarrow> i < length (chunks4 bs) \<and> chunks4 bs ! i = slice (4 * i) (4 * i + 4) bs"
proof (induction bs arbitrary: n i rule: chunks4.induct)
  case (1 a b c d rest)
  show ?case
  proof (cases i)
    case 0
    then show ?thesis by (simp add: slice_def)
  next
    case (Suc k)
    with 1 have "k < length (chunks4 rest) \<and> chunks4 rest ! k = slice (4 * k) (4 * k + 4) rest"
      by (intro "1.IH" [of "n - 1"]) auto
    moreover have "drop (4 * k + 4) (a # b # c # d # rest) = drop (4 * k) rest"
      by (simp flip: drop_drop)
    ultimately show ?thesis using Suc by (simp add: slice_def add.commute)
  qed
qed auto

lemma check_tokens_ok:
  "fold_r (check_token n) xs () = Inr () \<Longrightarrow> (i, bs) \<in> set xs \<Longrightarrow> length bs = 4 \<Longrightarrow> (le_word bs :: u32) \<le> n"
proof (induction xs)
  case (Cons x xs)
  then show ?case
    by (auto simp: result_simps check_token_def read_u32_def checked_add_usize_def usize_max_def get_slice_opt_def
        slice_def split: if_splits)
qed simp

lemma tenant_index_new_ok:
  assumes new: "tenant_index_new p n = Inr ix" and len: "length (tp_bytes p) \<le> usize_max"
  shows "tenant_ok ix" "ti_node_count ix = n" "ti_bytes ix = tp_bytes p" "ti_tokens_range ix = tp_tokens_range p"
proof -
  let ?dr = "tp_dictionary_range p" and ?tr = "tp_tokens_range p"
  from new obtain expected dictionary count ob ss strings scan tokens where
    ranges: "validate_section_ranges p = Inr ()"
    and exp: "checked_mul_usize (unat n) 4 = Some expected" "range_len ?tr = expected"
    and dict: "slice_range_r (tp_bytes p) ?dr = (Inr dictionary :: u8 list graph_result)"
    and ss: "checked_add_usize 4 ob = Some ss" "get_slice_opt dictionary ss (length dictionary) = Some strings"
    and scan: "fold_r (scan_entry p dictionary strings ss) [0..<unat count]
      \<lparr>ds_entries = [], ds_previous_end = 0, ds_previous_value = None\<rparr> = Inr scan"
    and tokens: "slice_range_r (tp_bytes p) ?tr = (Inr tokens :: u8 list graph_result)"
      "fold_r (check_token count) (enumerate 0 (chunks4 tokens)) () = Inr ()"
    and ix: "ix = \<lparr>ti_bytes = tp_bytes p, ti_tokens_range = ?tr, ti_entries = ds_entries scan, ti_node_count = n\<rparr>"
    by (auto simp: tenant_index_new_def result_simps Let_def split: if_splits)
  have dr: "fst ?dr \<le> snd ?dr" "snd ?dr \<le> length (tp_bytes p)" "dictionary = slice (fst ?dr) (snd ?dr) (tp_bytes p)"
    using dict by (auto simp: slice_range_r_def result_simps)
  have ssl: "ss \<le> length dictionary" "strings = slice ss (length dictionary) dictionary"
    using ss(2) by (auto simp: get_slice_opt_def split: if_splits)
  have ld: "length dictionary = snd ?dr - fst ?dr" using dr by simp
  have str: "strings = slice (fst ?dr + ss) (snd ?dr) (tp_bytes p)"
    using slice_slice [of "length dictionary" "snd ?dr" "fst ?dr" ss "tp_bytes p"] ssl(2) dr ld by simp
  have "scan_ok p \<lparr>ds_entries = [], ds_previous_end = 0, ds_previous_value = None\<rparr>" by (simp add: scan_ok_def)
  from scan_fold_ok [OF scan this str] ssl(1) ld dr
  have sc: "scan_ok p scan" "length (ds_entries scan) = unat count" by auto
  have tr: "fst ?tr + 4 * unat n = snd ?tr" "snd ?tr \<le> length (tp_bytes p)" "tokens = slice (fst ?tr) (snd ?tr) (tp_bytes p)"
    using tokens(1) exp by (auto simp: slice_range_r_def result_simps checked_mul_usize_def range_len_def split: if_splits)
  have tok: "unat (tenant_token ix i) \<le> unat count" if i: "i < unat n" for i
  proof -
    have b: "4 * unat n \<le> length tokens" using tr by simp
    note c = chunks4_nth [OF b i]
    have sl: "slice (4 * i) (4 * i + 4) tokens = slice (fst ?tr + 4 * i) (fst ?tr + 4 * i + 4) (tp_bytes p)"
      using slice_slice [of "4 * i + 4" "snd ?tr" "fst ?tr" "4 * i" "tp_bytes p"] i tr by (simp add: add.assoc)
    have "(i, chunks4 tokens ! i) \<in> set (enumerate 0 (chunks4 tokens))"
      using c by (auto simp: in_set_enumerate_eq)
    from check_tokens_ok [OF tokens(2) this] have "(le_word (chunks4 tokens ! i) :: u32) \<le> count"
      using c i b by (simp add: slice_def)
    then show ?thesis using c sl by (simp add: tenant_token_def ix Let_def word_le_nat_alt)
  qed
  show "tenant_ok ix"
    using sc tr len tok unsigned_less [of count]
    by (auto simp: tenant_ok_def ix scan_ok_def tenant_dictionary_def)
  show "ti_node_count ix = n" "ti_bytes ix = tp_bytes p" "ti_tokens_range ix = ?tr" by (simp_all add: ix)
qed

text \<open>One node, whose tenant is \<open>a\<close>.\<close>

definition sample_tenants :: tenant_parts where
  "sample_tenants = \<lparr>tp_bytes = [1, 0, 0, 0, 0, 0, 0, 0, 0, 0, 0, 0, 1, 0, 0, 0, 0, 0, 0, 0, 97, 1, 0, 0, 0],
     tp_dictionary_range = (0, 21), tp_tokens_range = (21, 25)\<rparr>"

lemma sample_tenants_valid:
  "tenant_index_new sample_tenants 1 = Inr \<lparr>ti_bytes = tp_bytes sample_tenants, ti_tokens_range = (21, 25),
     ti_entries = [(20, 21)], ti_node_count = 1\<rparr>"
  by (simp add: tenant_index_new_def sample_tenants_def validate_section_ranges_def range_in_mapping_def
      ranges_overlap_def checked_mul_usize_def checked_add_usize_def usize_max_def range_len_def slice_range_r_def
      slice_def read_u32_def read_u64_def get_slice_opt_def le_word_def le_nat_def Let_def scan_entry_def
      read_dictionary_offset_def from_utf8_def utf8_ok.simps absolute_offset_def check_token_def)

end
