(* ===== verification/Identity.thy ===== *)
theory Identity
  imports ResolutionIndex TenantIndex
begin

text \<open>
  Row identity in the engine (\<open>graph/src/engine.rs\<close>) and the replay of source row changes on it
  (\<open>graph/src/sync.rs\<close>): nodes, the resolution index with its delta, table and tenant
  membership over a mapped base. The tombstones of the running transaction are a predicate of
  the calls. Roaring bitmaps are sets, hash maps partial functions, and a string is its bytes.
\<close>

section \<open>State\<close>

datatype resolution_store =
    Builder "resolution_entry list"
  | Finalized "u8 list"
  | MmapBacked usize usize

record engine =
  en_nodes :: node_store
  en_resolution :: resolution_store
  en_delta :: resolution_delta
  en_mmap :: "u8 list option"
  en_table_membership :: "u32 \<rightharpoonup> u32 set"
  en_tenant_membership :: "u8 list \<rightharpoonup> u32 set"
  en_tenant_removals :: "u8 list \<rightharpoonup> u32 set"
  en_tenanted_oids :: "u32 set"
  en_tenant_base :: "tenant_index option"
  en_read_only :: bool
  en_read_only_reason :: "string option"
  en_needs_vacuum :: bool

definition new_engine :: engine where
  "new_engine = \<lparr>en_nodes = new_node_store, en_resolution = Builder [], en_delta = Map.empty, en_mmap = None,
     en_table_membership = Map.empty, en_tenant_membership = Map.empty, en_tenant_removals = Map.empty,
     en_tenanted_oids = {}, en_tenant_base = None, en_read_only = False, en_read_only_reason = None,
     en_needs_vacuum = False\<rparr>"

definition read_only_error :: "engine \<Rightarrow> graph_error" where
  "read_only_error e = ReadOnly (opt_get_or ''unknown'' (en_read_only_reason e))"

section \<open>Resolution\<close>

definition resolve_with :: "hash_pk \<Rightarrow> engine \<Rightarrow> u32 \<Rightarrow> u8 list \<Rightarrow> verify \<Rightarrow> u32 option graph_result" where
  "resolve_with hash e oid pk verify =
     rbind (delta_resolve_verified hash (en_delta e) oid pk verify) (\<lambda>r. case r of
       Some i \<Rightarrow> Inr (Some i)
     | None \<Rightarrow>
         (case en_resolution e of
            Builder entries \<Rightarrow> builder_resolve_verified hash entries oid pk verify
          | Finalized bytes \<Rightarrow>
              rbind (from_bytes bytes) (\<lambda>ix. case ix of None \<Rightarrow> Inr None
              | Some ix \<Rightarrow> index_resolve_verified hash ix oid pk verify)
          | MmapBacked offset len \<Rightarrow>
              (case en_mmap e of None \<Rightarrow> Inr None
               | Some m \<Rightarrow>
                   rbind (slice_r m offset (offset + len)) (\<lambda>bytes.
                   rbind (from_bytes bytes) (\<lambda>ix. case ix of None \<Rightarrow> Inr None
                   | Some ix \<Rightarrow> index_resolve_verified hash ix oid pk verify)))))"

definition verify_live :: "(u32 \<Rightarrow> bool) \<Rightarrow> engine \<Rightarrow> u32 \<Rightarrow> u8 list \<Rightarrow> verify" where
  "verify_live deleted e oid pk i =
     (if \<not> i < ns_node_count (en_nodes e) then Inr False
      else rbind (is_active (en_nodes e) i) (\<lambda>active.
        if \<not> active \<or> deleted i \<or> table_oid (en_nodes e) i \<noteq> Some oid then Inr False
        else rbind (primary_key (en_nodes e) i) (\<lambda>key. Inr (key = Some pk))))"

definition verify_identity :: "engine \<Rightarrow> u32 \<Rightarrow> u8 list \<Rightarrow> verify" where
  "verify_identity e oid pk i =
     (if \<not> i < ns_node_count (en_nodes e) \<or> table_oid (en_nodes e) i \<noteq> Some oid then Inr False
      else rbind (primary_key (en_nodes e) i) (\<lambda>key. Inr (key = Some pk)))"

definition resolve :: "hash_pk \<Rightarrow> (u32 \<Rightarrow> bool) \<Rightarrow> engine \<Rightarrow> u32 \<Rightarrow> u8 list \<Rightarrow> u32 option graph_result" where
  "resolve hash deleted e oid pk = resolve_with hash e oid pk (verify_live deleted e oid pk)"

definition resolve_identity :: "hash_pk \<Rightarrow> engine \<Rightarrow> u32 \<Rightarrow> u8 list \<Rightarrow> u32 option graph_result" where
  "resolve_identity hash e oid pk = resolve_with hash e oid pk (verify_identity e oid pk)"

definition resolution_insert :: "hash_pk \<Rightarrow> u32 \<Rightarrow> u8 list \<Rightarrow> u32 \<Rightarrow> engine \<Rightarrow> engine" where
  "resolution_insert hash oid pk i e =
     (case en_resolution e of
        Builder entries \<Rightarrow> e\<lparr>en_resolution := Builder (builder_insert hash oid pk i entries)\<rparr>
      | _ \<Rightarrow> e\<lparr>en_delta := delta_insert hash oid pk i (en_delta e)\<rparr>)"

definition try_build_resolution_insert :: "hash_pk \<Rightarrow> u32 \<Rightarrow> u8 list \<Rightarrow> u32 \<Rightarrow> engine \<Rightarrow> engine graph_result" where
  "try_build_resolution_insert hash oid pk i e =
     (case en_resolution e of
        Builder entries \<Rightarrow> Inr (e\<lparr>en_resolution := Builder (builder_insert hash oid pk i entries)\<rparr>)
      | _ \<Rightarrow> Inl (Err (Internal ''build resolution insertion requires builder mode'')))"

definition finalize_resolution :: "engine \<Rightarrow> engine" where
  "finalize_resolution e =
     (case en_resolution e of
        Builder entries \<Rightarrow> e\<lparr>en_resolution := Finalized (to_bytes entries)\<rparr>
      | _ \<Rightarrow> e)"

section \<open>Membership\<close>

definition insert_table_membership :: "u32 \<Rightarrow> u32 \<Rightarrow> engine \<Rightarrow> engine" where
  "insert_table_membership oid i e =
     e\<lparr>en_table_membership := (en_table_membership e)(oid \<mapsto> insert i (opt_get_or {} (en_table_membership e oid)))\<rparr>"

definition remove_table_membership :: "u32 \<Rightarrow> u32 \<Rightarrow> engine \<Rightarrow> engine" where
  "remove_table_membership oid i e =
     (case en_table_membership e oid of None \<Rightarrow> e
      | Some s \<Rightarrow> e\<lparr>en_table_membership := (en_table_membership e)(oid \<mapsto> s - {i})\<rparr>)"

definition rebuild_table_membership :: "engine \<Rightarrow> engine graph_result" where
  "rebuild_table_membership e =
     fold_r (\<lambda>k e. let i = word_of_nat k in
         rbind (is_active (en_nodes e) i) (\<lambda>active.
           if active then
             (case table_oid (en_nodes e) i of None \<Rightarrow> Inr e | Some oid \<Rightarrow> Inr (insert_table_membership oid i e))
           else Inr e))
       [0..<unat (ns_node_count (en_nodes e))] (e\<lparr>en_table_membership := Map.empty\<rparr>)"

definition mapped_tenant_contains :: "engine \<Rightarrow> u8 list \<Rightarrow> u32 \<Rightarrow> bool graph_result" where
  "mapped_tenant_contains e t i =
     (case en_tenant_base e of None \<Rightarrow> Inr False | Some ix \<Rightarrow> tenant_index_contains ix t i)"

definition mapped_tenant_for_node :: "engine \<Rightarrow> u32 \<Rightarrow> u8 list option graph_result" where
  "mapped_tenant_for_node e i =
     (case en_tenant_base e of None \<Rightarrow> Inr None | Some ix \<Rightarrow> tenant_for_node ix i)"

definition insert_tenant_membership :: "u8 list \<Rightarrow> u32 \<Rightarrow> engine \<Rightarrow> engine" where
  "insert_tenant_membership t i e =
     (let e = (case en_tenant_removals e t of None \<Rightarrow> e
        | Some r \<Rightarrow> e\<lparr>en_tenant_removals := (en_tenant_removals e)(t \<mapsto> r - {i})\<rparr>) in
      e\<lparr>en_tenant_membership := (en_tenant_membership e)(t \<mapsto> insert i (opt_get_or {} (en_tenant_membership e t)))\<rparr>)"

definition remove_tenant_membership :: "u8 list \<Rightarrow> u32 \<Rightarrow> engine \<Rightarrow> engine graph_result" where
  "remove_tenant_membership t i e =
     (let e = (case en_tenant_membership e t of None \<Rightarrow> e
        | Some s \<Rightarrow> e\<lparr>en_tenant_membership := (en_tenant_membership e)(t \<mapsto> s - {i})\<rparr>) in
      rbind (mapped_tenant_contains e t i) (\<lambda>mapped.
        if mapped then Inr (e\<lparr>en_tenant_removals :=
          (en_tenant_removals e)(t \<mapsto> insert i (opt_get_or {} (en_tenant_removals e t)))\<rparr>)
        else Inr e))"

definition remove_all_tenant_memberships :: "u32 \<Rightarrow> engine \<Rightarrow> engine graph_result" where
  "remove_all_tenant_memberships i e =
     rbind (mapped_tenant_for_node e i) (\<lambda>mapped.
     rbind (case mapped of None \<Rightarrow> Inr e | Some t \<Rightarrow> remove_tenant_membership t i e) (\<lambda>e.
       Inr (e\<lparr>en_tenant_membership := (\<lambda>t. map_option (\<lambda>s. s - {i}) (en_tenant_membership e t))\<rparr>)))"

definition tenant_contains :: "engine \<Rightarrow> u8 list \<Rightarrow> u32 \<Rightarrow> bool graph_result" where
  "tenant_contains e t i =
     (if (case en_tenant_membership e t of None \<Rightarrow> False | Some s \<Rightarrow> i \<in> s) then Inr True
      else rbind (mapped_tenant_contains e t i) (\<lambda>mapped.
        Inr (mapped \<and> \<not> (case en_tenant_removals e t of None \<Rightarrow> False | Some s \<Rightarrow> i \<in> s))))"

section \<open>Nodes of a sync\<close>

definition materialize_mmap_node_store_for_sync :: "engine \<Rightarrow> engine graph_result" where
  "materialize_mmap_node_store_for_sync e =
     (if is_mmap_backed (en_nodes e)
      then rbind (to_owned_store (en_nodes e)) (\<lambda>ns. Inr (e\<lparr>en_nodes := ns\<rparr>)) else Inr e)"

definition insert_sync_node :: "u32 \<Rightarrow> u8 list \<Rightarrow> engine \<Rightarrow> (engine \<times> u32) graph_result" where
  "insert_sync_node oid pk e =
     rbind (materialize_mmap_node_store_for_sync e) (\<lambda>e.
     rbind (add_node (en_nodes e) oid pk) (\<lambda>(ns, i). Inr (e\<lparr>en_nodes := ns\<rparr>, i)))"

definition tombstone_sync_node :: "u32 \<Rightarrow> u32 \<Rightarrow> engine \<Rightarrow> (engine \<times> bool) graph_result" where
  "tombstone_sync_node oid i e =
     rbind (materialize_mmap_node_store_for_sync e) (\<lambda>e.
     rbind (is_active (en_nodes e) i) (\<lambda>active.
       if active \<and> table_oid (en_nodes e) i = Some oid
       then Inr (e\<lparr>en_nodes := deactivate (en_nodes e) i\<rparr>, True) else Inr (e, False)))"

section \<open>Replay of row changes\<close>

definition text_of :: "u8 list \<Rightarrow> string" where
  "text_of bs = map (\<lambda>b. char_of (unat b)) bs"

definition node_not_found :: "u32 \<Rightarrow> u8 list \<Rightarrow> graph_error" where
  "node_not_found oid pk = NodeNotFound (show_nat (unat oid)) (text_of pk)"

definition sync_update_tenant ::
  "hash_pk \<Rightarrow> (u32 \<Rightarrow> bool) \<Rightarrow> u32 \<Rightarrow> u8 list \<Rightarrow> u8 list option \<Rightarrow> u8 list option \<Rightarrow> engine \<Rightarrow> engine graph_result" where
  "sync_update_tenant hash deleted oid pk old_tenant new_tenant e =
     (if en_read_only e then Inl (Err (read_only_error e))
      else
        rbind (resolve hash deleted e oid pk) (\<lambda>r.
        rbind (ok_or (Err (node_not_found oid pk)) r) (\<lambda>i.
          if old_tenant \<noteq> None \<or> new_tenant \<noteq> None then
            let e = e\<lparr>en_tenanted_oids := insert oid (en_tenanted_oids e)\<rparr> in
            rbind (case old_tenant of
                Some old \<Rightarrow> remove_tenant_membership old i e
              | None \<Rightarrow> remove_all_tenant_memberships i e) (\<lambda>e.
              Inr (case new_tenant of None \<Rightarrow> e | Some t \<Rightarrow> insert_tenant_membership t i e))
          else Inr e)))"

definition sync_update :: "hash_pk \<Rightarrow> (u32 \<Rightarrow> bool) \<Rightarrow> u32 \<Rightarrow> u8 list \<Rightarrow> u8 list option \<Rightarrow> engine \<Rightarrow> engine graph_result" where
  "sync_update hash deleted oid pk new_tenant e = sync_update_tenant hash deleted oid pk None new_tenant e"

definition sync_insert :: "hash_pk \<Rightarrow> (u32 \<Rightarrow> bool) \<Rightarrow> u32 \<Rightarrow> u8 list \<Rightarrow> u8 list option \<Rightarrow> engine \<Rightarrow> engine graph_result" where
  "sync_insert hash deleted oid pk new_tenant e =
     (if en_read_only e then Inl (Err (read_only_error e))
      else
        rbind (resolve hash deleted e oid pk) (\<lambda>r.
          if r \<noteq> None then sync_update hash deleted oid pk new_tenant e
          else
            rbind (insert_sync_node oid pk e) (\<lambda>(e, i).
              let e = insert_table_membership oid i e;
                  e = (case new_tenant of None \<Rightarrow> e
                    | Some t \<Rightarrow> insert_tenant_membership t i (e\<lparr>en_tenanted_oids := insert oid (en_tenanted_oids e)\<rparr>))
              in Inr (resolution_insert hash oid pk i e))))"

definition sync_delete_tenant ::
  "hash_pk \<Rightarrow> (u32 \<Rightarrow> bool) \<Rightarrow> u32 \<Rightarrow> u8 list \<Rightarrow> u8 list option \<Rightarrow> engine \<Rightarrow> engine graph_result" where
  "sync_delete_tenant hash deleted oid pk old_tenant e =
     (if en_read_only e then Inl (Err (read_only_error e))
      else
        rbind (resolve hash deleted e oid pk) (\<lambda>r.
        rbind (ok_or (Err (node_not_found oid pk)) r) (\<lambda>i.
        rbind (tombstone_sync_node oid i e) (\<lambda>(e, dead).
          let e = (if dead then remove_table_membership oid i e else e) in
          (case old_tenant of
             Some old \<Rightarrow> remove_tenant_membership old i e
           | None \<Rightarrow> remove_all_tenant_memberships i e)))))"

definition sync_delete :: "hash_pk \<Rightarrow> (u32 \<Rightarrow> bool) \<Rightarrow> u32 \<Rightarrow> u8 list \<Rightarrow> engine \<Rightarrow> engine graph_result" where
  "sync_delete hash deleted oid pk e = sync_delete_tenant hash deleted oid pk None e"

definition sync_replace_pk ::
  "hash_pk \<Rightarrow> (u32 \<Rightarrow> bool) \<Rightarrow> u32 \<Rightarrow> u8 list \<Rightarrow> u8 list \<Rightarrow> u8 list option \<Rightarrow> engine \<Rightarrow> engine graph_result" where
  "sync_replace_pk hash deleted oid old_pk new_pk new_tenant e =
     (if old_pk = new_pk then sync_update hash deleted oid new_pk new_tenant e
      else rbind (sync_delete hash deleted oid old_pk e) (sync_insert hash deleted oid new_pk new_tenant))"

text \<open>The bitmap of a table is visited in ascending order.\<close>

definition sync_truncate :: "u32 \<Rightarrow> engine \<Rightarrow> (engine \<times> u64) graph_result" where
  "sync_truncate oid e =
     (if en_read_only e then Inl (Err (read_only_error e))
      else
        rbind (materialize_mmap_node_store_for_sync e) (\<lambda>e.
        rbind (if en_table_membership e oid = None then rebuild_table_membership e else Inr e) (\<lambda>e.
        let truncated_nodes = sorted_list_of_set (opt_get_or {} (en_table_membership e oid)) in
        rbind (fold_r (\<lambda>i (e, tombstoned). rbind (tombstone_sync_node oid i e) (\<lambda>(e, dead).
            Inr (e, if dead then tombstoned + 1 else tombstoned))) truncated_nodes (e, 0)) (\<lambda>(e, tombstoned).
        let e = e\<lparr>en_table_membership := (en_table_membership e)(oid := None)\<rparr> in
        rbind (fold_r remove_all_tenant_memberships truncated_nodes e) (\<lambda>e.
          Inr (e\<lparr>en_needs_vacuum := True\<rparr>, tombstoned))))))"

text \<open>
  The node part of one logged row change (\<open>apply_sync_row_operation\<close> in
  \<open>graph/src/sql_sync.rs\<close>); its filter and edge refreshes are other components.
\<close>

datatype sync_row_operation =
    OpInsert "u8 list" "u8 list option"
  | OpUpdate "u8 list" "u8 list" "u8 list option" "u8 list option"
  | OpDelete "u8 list" "u8 list option"
  | OpTruncate

fun apply_sync_row_operation ::
  "hash_pk \<Rightarrow> (u32 \<Rightarrow> bool) \<Rightarrow> u32 \<Rightarrow> sync_row_operation \<Rightarrow> engine \<Rightarrow> engine graph_result" where
  "apply_sync_row_operation hash deleted oid (OpInsert pk t) e = sync_insert hash deleted oid pk t e"
| "apply_sync_row_operation hash deleted oid (OpUpdate old_pk new_pk old_t new_t) e =
     (if old_pk = new_pk then sync_update_tenant hash deleted oid new_pk old_t new_t e
      else rbind (sync_delete_tenant hash deleted oid old_pk old_t e) (sync_insert hash deleted oid new_pk new_t))"
| "apply_sync_row_operation hash deleted oid (OpDelete pk old_t) e = sync_delete_tenant hash deleted oid pk old_t e"
| "apply_sync_row_operation hash deleted oid OpTruncate e =
     rbind (sync_truncate oid e) (\<lambda>(e, _). Inr e)"

end
