(* ===== verification/IdentityProofs.thy ===== *)
theory IdentityProofs
  imports Identity
begin

text \<open>
  The engine's identity operations refine a specification that knows only which node slot holds
  which row key and which tenant sees which node. The invariant ties the resolution index, the
  delta, the table membership and the mapped tenant base to it.
\<close>

section \<open>Rows and tenants\<close>

definition rows_of :: "node_store \<Rightarrow> u32 \<rightharpoonup> u32 \<times> u8 list" where
  "rows_of ns i = (if unat i < length (store_nodes ns) \<and> fst (store_nodes ns ! unat i)
     then Some (snd (store_nodes ns ! unat i)) else None)"

definition mapped_assignment :: "engine \<Rightarrow> u32 \<Rightarrow> u8 list option" where
  "mapped_assignment e i = (case en_tenant_base e of None \<Rightarrow> None | Some ix \<Rightarrow> tenant_assignment ix i)"

definition members :: "('k \<rightharpoonup> 'a set) \<Rightarrow> 'k \<Rightarrow> 'a set" where
  "members m k = opt_get_or {} (m k)"

lemma members_simps [simp]:
  "members (m(k \<mapsto> s)) l = (if l = k then s else members m l)"
  "members (m(k := None)) l = (if l = k then {} else members m l)"
  "members Map.empty l = {}"
  by (simp_all add: members_def)

lemma members_case: "(case m k of None \<Rightarrow> False | Some s \<Rightarrow> i \<in> s) \<longleftrightarrow> i \<in> members m k"
  by (simp add: members_def split: option.splits)

lemma members_remove:
  "members (case m k of None \<Rightarrow> m | Some s \<Rightarrow> m(k \<mapsto> s - {i})) l = (if l = k then members m l - {i} else members m l)"
  by (auto simp: members_def split: option.splits)

definition tenants_of :: "engine \<Rightarrow> (u8 list \<times> u32) set" where
  "tenants_of e = {(t, i). i \<in> members (en_tenant_membership e) t \<or>
     (mapped_assignment e i = Some t \<and> i \<notin> members (en_tenant_removals e) t)}"

lemma opt_get_or_members: "opt_get_or {} (m k) = members m k"
  by (simp add: members_def)

definition base_ok :: "engine \<Rightarrow> bool" where
  "base_ok e \<longleftrightarrow> (case en_tenant_base e of None \<Rightarrow> True | Some ix \<Rightarrow> tenant_ok ix)"

lemma mapped_tenant_ok:
  assumes "base_ok e"
  shows "mapped_tenant_contains e t i = Inr (mapped_assignment e i = Some t)"
    "mapped_tenant_for_node e i = Inr (mapped_assignment e i)"
  using assms by (auto simp: base_ok_def mapped_tenant_contains_def mapped_tenant_for_node_def mapped_assignment_def
      tenant_lookup_ok split: option.splits)

lemma tenant_contains_ok: "base_ok e \<Longrightarrow> tenant_contains e t i = Inr ((t, i) \<in> tenants_of e)"
  by (auto simp: tenant_contains_def tenants_of_def mapped_tenant_ok members_case)

text \<open>The parts of the engine that tenant changes leave alone.\<close>

definition same_core :: "engine \<Rightarrow> engine \<Rightarrow> bool" where
  "same_core e f \<longleftrightarrow> en_nodes f = en_nodes e \<and> en_resolution f = en_resolution e \<and> en_delta f = en_delta e \<and>
     en_mmap f = en_mmap e \<and> en_table_membership f = en_table_membership e \<and>
     en_tenant_base f = en_tenant_base e \<and> en_read_only f = en_read_only e"

lemma same_core_refl [simp]: "same_core e e"
  by (simp add: same_core_def)

lemma same_core_trans: "same_core a b \<Longrightarrow> same_core b c \<Longrightarrow> same_core a c"
  by (simp add: same_core_def)

lemma same_core_base: "same_core e f \<Longrightarrow> base_ok f = base_ok e"
  by (simp add: same_core_def base_ok_def)

lemma insert_tenant_ok:
  "tenants_of (insert_tenant_membership t i e) = insert (t, i) (tenants_of e)"
  "same_core e (insert_tenant_membership t i e)"
  "en_tenanted_oids (insert_tenant_membership t i e) = en_tenanted_oids e"
proof -
  define g where "g = (case en_tenant_removals e t of None \<Rightarrow> e
    | Some r \<Rightarrow> e\<lparr>en_tenant_removals := (en_tenant_removals e)(t \<mapsto> r - {i})\<rparr>)"
  have g: "same_core e g" "en_tenanted_oids g = en_tenanted_oids e" "en_tenant_membership g = en_tenant_membership e"
    "mapped_assignment g = mapped_assignment e"
    "en_tenant_removals g = (case en_tenant_removals e t of None \<Rightarrow> en_tenant_removals e
       | Some s \<Rightarrow> (en_tenant_removals e)(t \<mapsto> s - {i}))"
    by (auto simp: g_def same_core_def mapped_assignment_def split: option.splits)
  have f: "insert_tenant_membership t i e = g\<lparr>en_tenant_membership :=
      (en_tenant_membership e)(t \<mapsto> insert i (members (en_tenant_membership e) t))\<rparr>"
    by (simp add: insert_tenant_membership_def Let_def opt_get_or_members g(3) flip: g_def)
  have ma: "mapped_assignment (insert_tenant_membership t i e) = mapped_assignment e"
    using g(4) by (simp add: f mapped_assignment_def fun_eq_iff)
  show "tenants_of (insert_tenant_membership t i e) = insert (t, i) (tenants_of e)"
    by (auto simp: tenants_of_def ma) (auto simp: f g(5) members_remove split: if_splits)
  show "same_core e (insert_tenant_membership t i e)"
    "en_tenanted_oids (insert_tenant_membership t i e) = en_tenanted_oids e"
    using g(1,2) by (simp_all add: f same_core_def)
qed

lemma remove_tenant_ok:
  assumes "base_ok e"
  shows "\<exists>f. remove_tenant_membership t i e = Inr f \<and> tenants_of f = tenants_of e - {(t, i)} \<and> same_core e f \<and>
    en_tenanted_oids f = en_tenanted_oids e"
proof -
  define g where "g = (case en_tenant_membership e t of None \<Rightarrow> e
    | Some s \<Rightarrow> e\<lparr>en_tenant_membership := (en_tenant_membership e)(t \<mapsto> s - {i})\<rparr>)"
  have g: "same_core e g" "en_tenanted_oids g = en_tenanted_oids e" "en_tenant_removals g = en_tenant_removals e"
    "mapped_assignment g = mapped_assignment e"
    "en_tenant_membership g = (case en_tenant_membership e t of None \<Rightarrow> en_tenant_membership e
       | Some s \<Rightarrow> (en_tenant_membership e)(t \<mapsto> s - {i}))"
    by (auto simp: g_def same_core_def mapped_assignment_def split: option.splits)
  have mapped: "mapped_tenant_contains g t i = Inr (mapped_assignment e i = Some t)"
    using mapped_tenant_ok(1) [of g t i] same_core_base [OF g(1)] assms g(4) by simp
  show ?thesis
  proof (cases "mapped_assignment e i = Some t")
    case True
    let ?f = "g\<lparr>en_tenant_removals := (en_tenant_removals g)(t \<mapsto> insert i (members (en_tenant_removals g) t))\<rparr>"
    have "remove_tenant_membership t i e = Inr ?f"
      using mapped True by (simp add: remove_tenant_membership_def Let_def opt_get_or_members flip: g_def)
    moreover have "mapped_assignment ?f = mapped_assignment e" using g(4) by (simp add: mapped_assignment_def fun_eq_iff)
    then have "tenants_of ?f = tenants_of e - {(t, i)}"
      by (auto simp: tenants_of_def g(3,5) members_remove split: if_splits)
    moreover have "same_core e ?f" using g(1) by (simp add: same_core_def)
    ultimately show ?thesis using g(2) by auto
  next
    case False
    have "remove_tenant_membership t i e = Inr g"
      using mapped False by (simp add: remove_tenant_membership_def Let_def flip: g_def)
    moreover have "tenants_of g = tenants_of e - {(t, i)}"
      using False by (auto simp: tenants_of_def g(3,4,5) members_remove split: if_splits)
    ultimately show ?thesis using g(1,2) by blast
  qed
qed

lemma remove_all_tenants_ok:
  assumes "base_ok e"
  shows "\<exists>f. remove_all_tenant_memberships i e = Inr f \<and> tenants_of f = {(t, j) \<in> tenants_of e. j \<noteq> i} \<and>
    same_core e f \<and> en_tenanted_oids f = en_tenanted_oids e"
proof -
  obtain g where g: "(case mapped_assignment e i of None \<Rightarrow> Inr e | Some t \<Rightarrow> remove_tenant_membership t i e) = Inr g"
    "same_core e g" "en_tenanted_oids g = en_tenanted_oids e"
    "tenants_of g = {(t, j) \<in> tenants_of e. \<not> (j = i \<and> mapped_assignment e i = Some t)}"
  proof (cases "mapped_assignment e i")
    case None
    then show ?thesis using that [of e] by (auto simp: tenants_of_def)
  next
    case (Some t)
    then show ?thesis using remove_tenant_ok [OF assms, of t i] that by fastforce
  qed
  let ?f = "g\<lparr>en_tenant_membership := (\<lambda>t. map_option (\<lambda>s. s - {i}) (en_tenant_membership g t))\<rparr>"
  have ma: "mapped_assignment g = mapped_assignment e" "mapped_assignment ?f = mapped_assignment e"
    using g(2) by (simp_all add: mapped_assignment_def same_core_def fun_eq_iff)
  have mem: "members (en_tenant_membership ?f) t = members (en_tenant_membership g) t - {i}" for t
    by (auto simp: members_def opt_get_or_def split: option.splits)
  have rem: "i \<in> members (en_tenant_removals g) t" if "mapped_assignment e i = Some t" for t
  proof (rule ccontr)
    assume "\<not> ?thesis"
    with that ma have "(t, i) \<in> tenants_of g" by (auto simp: tenants_of_def)
    with g(4) that show False by auto
  qed
  have "remove_all_tenant_memberships i e = Inr ?f"
    using g(1) by (simp add: remove_all_tenant_memberships_def mapped_tenant_ok [OF assms])
  moreover have "tenants_of ?f = {(t, j) \<in> tenants_of g. j \<noteq> i}"
    using ma rem unfolding tenants_of_def mem by auto
  then have "tenants_of ?f = {(t, j) \<in> tenants_of e. j \<noteq> i}" using g(4) by auto
  moreover have "same_core e ?f" using g(2) by (simp add: same_core_def)
  ultimately show ?thesis using g(3) by auto
qed

section \<open>Resolution\<close>

definition base_entries :: "engine \<Rightarrow> resolution_entry list" where
  "base_entries e =
     (case en_resolution e of
        Builder entries \<Rightarrow> entries
      | Finalized bytes \<Rightarrow> (case from_bytes bytes of Inr (Some ix) \<Rightarrow> index_entries ix | _ \<Rightarrow> [])
      | MmapBacked offset len \<Rightarrow>
          (case en_mmap e of None \<Rightarrow> []
           | Some m \<Rightarrow> (case from_bytes (slice offset (offset + len) m) of Inr (Some ix) \<Rightarrow> index_entries ix | _ \<Rightarrow> [])))"

definition bytes_ok :: "u8 list \<Rightarrow> bool" where
  "bytes_ok bytes \<longleftrightarrow> (\<exists>ix. from_bytes bytes = Inr (Some ix) \<and> index_ok ix)"

definition resolution_ok :: "engine \<Rightarrow> bool" where
  "resolution_ok e \<longleftrightarrow>
     (case en_resolution e of
        Builder entries \<Rightarrow> True
      | Finalized bytes \<Rightarrow> bytes_ok bytes
      | MmapBacked offset len \<Rightarrow>
          (case en_mmap e of None \<Rightarrow> False
           | Some m \<Rightarrow> offset + len \<le> length m \<and> bytes_ok (slice offset (offset + len) m)))"

text \<open>The nodes recorded for a key, oldest first.\<close>

definition candidates :: "hash_pk \<Rightarrow> engine \<Rightarrow> u32 \<Rightarrow> u8 list \<Rightarrow> u32 list" where
  "candidates hash e oid pk =
     map re_node_idx (filter (\<lambda>x. entry_key x = (oid, hash pk)) (base_entries e)) @
     opt_get_or [] (en_delta e (oid, hash pk))"

lemma find_r_option: "rbind (find_r p xs) (\<lambda>r. case r of Some i \<Rightarrow> Inr (Some i) | None \<Rightarrow> m) =
    rbind (find_r p xs) (\<lambda>r. if r = None then m else Inr r)"
  by (rule rbind_cong) (auto split: option.splits)

lemma resolve_with_candidates:
  assumes "resolution_ok e"
  shows "resolve_with hash e oid pk verify = find_r verify (rev (candidates hash e oid pk))"
proof -
  have d: "delta_resolve_verified hash (en_delta e) oid pk verify =
      find_r verify (rev (opt_get_or [] (en_delta e (oid, hash pk))))"
    by (simp add: delta_resolve_verified_def split: option.splits)
  have b: "(case en_resolution e of
        Builder entries \<Rightarrow> builder_resolve_verified hash entries oid pk verify
      | Finalized bytes \<Rightarrow>
          rbind (from_bytes bytes) (\<lambda>ix. case ix of None \<Rightarrow> Inr None
          | Some ix \<Rightarrow> index_resolve_verified hash ix oid pk verify)
      | MmapBacked offset len \<Rightarrow>
          (case en_mmap e of None \<Rightarrow> Inr None
           | Some m \<Rightarrow>
               rbind (slice_r m offset (offset + len)) (\<lambda>bytes.
               rbind (from_bytes bytes) (\<lambda>ix. case ix of None \<Rightarrow> Inr None
               | Some ix \<Rightarrow> index_resolve_verified hash ix oid pk verify)))) =
      latest verify (oid, hash pk) (base_entries e)"
    using assms
    by (auto simp: resolution_ok_def bytes_ok_def base_entries_def builder_resolve_latest index_resolve_latest
        split: resolution_store.splits option.splits)
  show ?thesis
    unfolding resolve_with_def b d find_r_option latest_def candidates_def
    by (simp add: find_r_append)
qed

lemma verify_live_row:
  assumes "backing_ok (backing (en_nodes e))"
  shows "verify_live deleted e oid pk i = Inr (rows_of (en_nodes e) i = Some (oid, pk) \<and> \<not> deleted i)"
  using assms store_nodes_count [OF assms]
  by (auto simp: verify_live_def rows_of_def word_less_nat_alt is_active_row table_oid_row primary_key_row prod_eq_iff)

lemma resolve_candidates:
  assumes "backing_ok (backing (en_nodes e))" "resolution_ok e"
  shows "resolve hash deleted e oid pk =
    Inr (List.find (\<lambda>i. rows_of (en_nodes e) i = Some (oid, pk) \<and> \<not> deleted i) (rev (candidates hash e oid pk)))"
  unfolding resolve_def resolve_with_candidates [OF assms(2)]
  by (rule find_r_pure) (rule verify_live_row [OF assms(1)])

section \<open>Specification\<close>

record identity_spec =
  sp_rows :: "u32 \<rightharpoonup> u32 \<times> u8 list"
  sp_next :: nat
  sp_tenants :: "(u8 list \<times> u32) set"
  sp_tenanted :: "u32 set"

definition abs_engine :: "engine \<Rightarrow> identity_spec" where
  "abs_engine e = \<lparr>sp_rows = rows_of (en_nodes e), sp_next = length (store_nodes (en_nodes e)),
     sp_tenants = tenants_of e, sp_tenanted = en_tenanted_oids e\<rparr>"

lemma abs_engine_sel [simp]:
  "sp_rows (abs_engine e) = rows_of (en_nodes e)" "sp_next (abs_engine e) = length (store_nodes (en_nodes e))"
  "sp_tenants (abs_engine e) = tenants_of e" "sp_tenanted (abs_engine e) = en_tenanted_oids e"
  by (simp_all add: abs_engine_def)

text \<open>Node \<open>i\<close> is the visible row of a key.\<close>

definition holds :: "(u32 \<Rightarrow> bool) \<Rightarrow> identity_spec \<Rightarrow> u32 \<Rightarrow> u8 list \<Rightarrow> u32 \<Rightarrow> bool" where
  "holds deleted A oid pk i \<longleftrightarrow> sp_rows A i = Some (oid, pk) \<and> \<not> deleted i"

definition retenant ::
  "u32 \<Rightarrow> u8 list option \<Rightarrow> u8 list option \<Rightarrow> u32 \<Rightarrow> identity_spec \<Rightarrow> identity_spec" where
  "retenant oid old new i A =
     (if old = None \<and> new = None then A
      else A\<lparr>sp_tenanted := insert oid (sp_tenanted A),
        sp_tenants := (case old of None \<Rightarrow> {(t, j) \<in> sp_tenants A. j \<noteq> i} | Some t \<Rightarrow> sp_tenants A - {(t, i)})
          \<union> (case new of None \<Rightarrow> {} | Some t \<Rightarrow> {(t, i)})\<rparr>)"

definition add_row :: "u32 \<Rightarrow> u8 list \<Rightarrow> u8 list option \<Rightarrow> identity_spec \<Rightarrow> identity_spec" where
  "add_row oid pk new A =
     \<lparr>sp_rows = (sp_rows A)(word_of_nat (sp_next A) \<mapsto> (oid, pk)), sp_next = Suc (sp_next A),
      sp_tenants = sp_tenants A \<union> (case new of None \<Rightarrow> {} | Some t \<Rightarrow> {(t, word_of_nat (sp_next A))}),
      sp_tenanted = (case new of None \<Rightarrow> sp_tenanted A | Some _ \<Rightarrow> insert oid (sp_tenanted A))\<rparr>"

definition drop_row :: "u8 list option \<Rightarrow> u32 \<Rightarrow> identity_spec \<Rightarrow> identity_spec" where
  "drop_row old i A = A\<lparr>sp_rows := (sp_rows A)(i := None),
     sp_tenants := (case old of None \<Rightarrow> {(t, j) \<in> sp_tenants A. j \<noteq> i} | Some t \<Rightarrow> sp_tenants A - {(t, i)})\<rparr>"

definition drop_table :: "u32 \<Rightarrow> identity_spec \<Rightarrow> identity_spec" where
  "drop_table oid A = A\<lparr>sp_rows := (\<lambda>i. if map_option fst (sp_rows A i) = Some oid then None else sp_rows A i),
     sp_tenants := {(t, i) \<in> sp_tenants A. map_option fst (sp_rows A i) \<noteq> Some oid}\<rparr>"

type_synonym spec_result = "graph_error fault + identity_spec"

definition spec_insert ::
  "(u32 \<Rightarrow> bool) \<Rightarrow> u32 \<Rightarrow> u8 list \<Rightarrow> u8 list option \<Rightarrow> identity_spec \<Rightarrow> spec_result \<Rightarrow> bool" where
  "spec_insert deleted oid pk new A r \<longleftrightarrow>
     (\<exists>i. holds deleted A oid pk i \<and> r = Inr (retenant oid None new i A)) \<or>
     (\<not> (\<exists>i. holds deleted A oid pk i) \<and> r = Inr (add_row oid pk new A))"

definition spec_update ::
  "(u32 \<Rightarrow> bool) \<Rightarrow> u32 \<Rightarrow> u8 list \<Rightarrow> u8 list option \<Rightarrow> u8 list option \<Rightarrow> identity_spec \<Rightarrow> spec_result \<Rightarrow> bool" where
  "spec_update deleted oid pk old new A r \<longleftrightarrow>
     (\<exists>i. holds deleted A oid pk i \<and> r = Inr (retenant oid old new i A)) \<or>
     (\<not> (\<exists>i. holds deleted A oid pk i) \<and> r = Inl (Err (node_not_found oid pk)))"

definition spec_delete ::
  "(u32 \<Rightarrow> bool) \<Rightarrow> u32 \<Rightarrow> u8 list \<Rightarrow> u8 list option \<Rightarrow> identity_spec \<Rightarrow> spec_result \<Rightarrow> bool" where
  "spec_delete deleted oid pk old A r \<longleftrightarrow>
     (\<exists>i. holds deleted A oid pk i \<and> r = Inr (drop_row old i A)) \<or>
     (\<not> (\<exists>i. holds deleted A oid pk i) \<and> r = Inl (Err (node_not_found oid pk)))"

fun spec_op :: "(u32 \<Rightarrow> bool) \<Rightarrow> u32 \<Rightarrow> sync_row_operation \<Rightarrow> identity_spec \<Rightarrow> spec_result \<Rightarrow> bool" where
  "spec_op deleted oid (OpInsert pk t) A r \<longleftrightarrow> spec_insert deleted oid pk t A r"
| "spec_op deleted oid (OpUpdate old_pk new_pk old_t new_t) A r \<longleftrightarrow>
     (if old_pk = new_pk then spec_update deleted oid new_pk old_t new_t A r
      else \<exists>d. spec_delete deleted oid old_pk old_t A d \<and>
        (case d of Inl f \<Rightarrow> r = Inl f | Inr B \<Rightarrow> spec_insert deleted oid new_pk new_t B r))"
| "spec_op deleted oid (OpDelete pk old_t) A r \<longleftrightarrow> spec_delete deleted oid pk old_t A r"
| "spec_op deleted oid OpTruncate A r \<longleftrightarrow> r = Inr (drop_table oid A)"

section \<open>Invariant\<close>

definition engine_ok :: "hash_pk \<Rightarrow> (u32 \<Rightarrow> bool) \<Rightarrow> engine \<Rightarrow> bool" where
  "engine_ok hash deleted e \<longleftrightarrow>
     nodes_ok (en_nodes e) \<and> resolution_ok e \<and> base_ok e \<and>
     (\<forall>i oid pk. rows_of (en_nodes e) i = Some (oid, pk) \<longrightarrow> i \<in> set (candidates hash e oid pk)) \<and>
     (\<forall>i j key. rows_of (en_nodes e) i = Some key \<longrightarrow> rows_of (en_nodes e) j = Some key \<longrightarrow>
        \<not> deleted i \<longrightarrow> \<not> deleted j \<longrightarrow> i = j) \<and>
     (\<forall>oid. members (en_table_membership e) oid = {i. map_option fst (rows_of (en_nodes e) i) = Some oid})"

lemma engine_ok_nodes: "engine_ok hash deleted e \<Longrightarrow> nodes_ok (en_nodes e) \<and> backing_ok (backing (en_nodes e))"
  by (simp add: engine_ok_def nodes_ok_def)

lemma engine_ok_base: "engine_ok hash deleted e \<Longrightarrow> base_ok e"
  by (simp add: engine_ok_def)

lemma engine_ok_members:
  "engine_ok hash deleted e \<Longrightarrow>
    members (en_table_membership e) oid = {i. map_option fst (rows_of (en_nodes e) i) = Some oid}"
  by (simp add: engine_ok_def)

lemma engine_ok_unique:
  "engine_ok hash deleted e \<Longrightarrow> rows_of (en_nodes e) i = Some key \<Longrightarrow> rows_of (en_nodes e) j = Some key \<Longrightarrow>
    \<not> deleted i \<Longrightarrow> \<not> deleted j \<Longrightarrow> i = j"
  unfolding engine_ok_def by blast

lemma engine_ok_core:
  assumes ok: "engine_ok hash deleted e" and core: "same_core e f"
  shows "engine_ok hash deleted f"
proof -
  have eq: "en_nodes f = en_nodes e" "en_table_membership f = en_table_membership e" "base_ok f = base_ok e"
    using core same_core_base [OF core] by (simp_all add: same_core_def)
  have res: "base_entries f = base_entries e" "resolution_ok f = resolution_ok e"
    using core by (simp_all add: same_core_def base_entries_def resolution_ok_def cong: resolution_store.case_cong)
  then have "candidates hash f = candidates hash e"
    using core by (simp add: candidates_def same_core_def fun_eq_iff)
  with ok show ?thesis unfolding engine_ok_def eq res by simp
qed

lemma resolve_holds:
  assumes ok: "engine_ok hash deleted e"
  shows "\<exists>r. resolve hash deleted e oid pk = Inr r \<and>
    (\<forall>i. r = Some i \<longleftrightarrow> holds deleted (abs_engine e) oid pk i)"
proof -
  let ?P = "\<lambda>i. rows_of (en_nodes e) i = Some (oid, pk) \<and> \<not> deleted i"
  let ?r = "List.find ?P (rev (candidates hash e oid pk))"
  have h: "holds deleted (abs_engine e) oid pk i \<longleftrightarrow> ?P i" for i by (simp add: holds_def abs_engine_def)
  have "resolve hash deleted e oid pk = Inr ?r"
    using ok engine_ok_nodes [OF ok] by (intro resolve_candidates) (simp_all add: engine_ok_def)
  moreover have "?r = Some i \<longleftrightarrow> ?P i" for i
  proof
    assume "?r = Some i"
    then show "?P i" by (auto simp: find_Some_iff)
  next
    assume p: "?P i"
    then have "i \<in> set (rev (candidates hash e oid pk))" using ok by (simp add: engine_ok_def)
    with p have "?r \<noteq> None" by (auto simp: find_None_iff)
    then obtain j where j: "?r = Some j" by auto
    then have "?P j" by (auto simp: find_Some_iff)
    with p ok have "j = i" by (simp add: engine_ok_def)
    with j show "?r = Some i" by simp
  qed
  ultimately show ?thesis by (auto simp: h)
qed

section \<open>Nodes\<close>

lemma rows_of_backing:
  assumes "backing_ok (backing ns)"
  shows "is_active ns i = Inr (rows_of ns i \<noteq> None)"
    "rows_of ns i = Some key \<Longrightarrow> table_oid ns i = Some (fst key)"
  using assms by (auto simp: rows_of_def is_active_row table_oid_row split: if_splits)

lemma rows_of_add:
  assumes "nodes_ok ns" "\<not> is_mmap_backed ns" "length (store_nodes ns) + 1 < 2 ^ 32" "utf8_ok pk"
  shows "\<exists>t. add_node ns oid pk = Inr (t, word_of_nat (length (store_nodes ns))) \<and> nodes_ok t \<and>
    rows_of t = (rows_of ns)(word_of_nat (length (store_nodes ns)) \<mapsto> (oid, pk)) \<and>
    length (store_nodes t) = Suc (length (store_nodes ns)) \<and>
    rows_of ns (word_of_nat (length (store_nodes ns))) = None"
proof -
  obtain t where t: "add_node ns oid pk = Inr (t, word_of_nat (length (store_nodes ns)))" "nodes_ok t"
    "store_nodes t = store_nodes ns @ [(True, oid, pk)]"
    using try_add_node_owned [OF assms] by blast
  have n: "unat (word_of_nat (length (store_nodes ns)) :: u32) = length (store_nodes ns)"
    using assms(3) by (intro unat_of_nat_u32) simp
  have "rows_of t i = ((rows_of ns)(word_of_nat (length (store_nodes ns)) \<mapsto> (oid, pk))) i" for i
    using n by (auto simp: rows_of_def t(3) nth_append word_unat_eq_iff)
  with t n show ?thesis by (auto simp: rows_of_def)
qed

lemma rows_of_deactivate:
  assumes "nodes_ok ns" "\<not> is_mmap_backed ns"
  shows "nodes_ok (deactivate ns i)" "\<not> is_mmap_backed (deactivate ns i)"
    "rows_of (deactivate ns i) = (rows_of ns)(i := None)"
    "length (store_nodes (deactivate ns i)) = length (store_nodes ns)"
proof -
  note d = deactivate_owned [OF assms, of i]
  show "nodes_ok (deactivate ns i)" using d by simp
  show "\<not> is_mmap_backed (deactivate ns i)"
    using assms(2) by (auto simp: is_mmap_backed_def deactivate_def split: array_backing.splits)
  show "rows_of (deactivate ns i) = (rows_of ns)(i := None)"
    using d by (auto simp: fun_eq_iff rows_of_def nth_list_update word_unat_eq_iff)
  show "length (store_nodes (deactivate ns i)) = length (store_nodes ns)" using d by simp
qed

definition owned_as :: "engine \<Rightarrow> node_store \<Rightarrow> bool" where
  "owned_as e ns \<longleftrightarrow> nodes_ok ns \<and> \<not> is_mmap_backed ns \<and> rows_of ns = rows_of (en_nodes e) \<and>
     length (store_nodes ns) = length (store_nodes (en_nodes e))"

lemma materialize_ok:
  assumes "nodes_ok (en_nodes e)"
  shows "\<exists>ns. materialize_mmap_node_store_for_sync e = Inr (e\<lparr>en_nodes := ns\<rparr>) \<and> owned_as e ns"
proof (cases "is_mmap_backed (en_nodes e)")
  case False
  then show ?thesis using assms
    by (intro exI [of _ "en_nodes e"]) (simp add: materialize_mmap_node_store_for_sync_def owned_as_def)
next
  case True
  then obtain m where m: "backing (en_nodes e) = MmapNodes m"
    by (auto simp: is_mmap_backed_def split: array_backing.splits)
  with assms have "validate_nodes m = Some m" "max_primary_key_bytes (en_nodes e) = max_width (store_nodes (en_nodes e))"
    by (simp_all add: nodes_ok_def backing_ok_def)
  from to_owned_mapped [OF this(1) m this(2)] obtain t where
    "to_owned_store (en_nodes e) = Inr t" "nodes_ok t" "\<not> is_mmap_backed t" "store_nodes t = store_nodes (en_nodes e)"
    by blast
  then show ?thesis using True
    by (intro exI [of _ t]) (simp add: materialize_mmap_node_store_for_sync_def owned_as_def rows_of_def fun_eq_iff)
qed

section \<open>Updates and deletions\<close>

definition step_ok ::
  "hash_pk \<Rightarrow> (u32 \<Rightarrow> bool) \<Rightarrow> (identity_spec \<Rightarrow> spec_result \<Rightarrow> bool) \<Rightarrow> engine \<Rightarrow> engine graph_result \<Rightarrow> bool" where
  "step_ok hash deleted spec e m \<longleftrightarrow>
     (case m of Inl f \<Rightarrow> spec (abs_engine e) (Inl f)
      | Inr f \<Rightarrow> engine_ok hash deleted f \<and> en_read_only f = en_read_only e \<and> spec (abs_engine e) (Inr (abs_engine f)))"

lemma abs_engine_core:
  "same_core e f \<Longrightarrow> abs_engine f = (abs_engine e)\<lparr>sp_tenants := tenants_of f, sp_tenanted := en_tenanted_oids f\<rparr>"
  by (simp add: abs_engine_def same_core_def)

lemma tenant_removal_ok:
  assumes "base_ok e"
  shows "\<exists>f. (case old of Some t \<Rightarrow> remove_tenant_membership t i e | None \<Rightarrow> remove_all_tenant_memberships i e) = Inr f \<and>
    tenants_of f = (case old of None \<Rightarrow> {(t, j) \<in> tenants_of e. j \<noteq> i} | Some t \<Rightarrow> tenants_of e - {(t, i)}) \<and>
    same_core e f \<and> en_tenanted_oids f = en_tenanted_oids e"
  using remove_tenant_ok [OF assms] remove_all_tenants_ok [OF assms] by (cases old) auto

lemma retenant_ok:
  assumes ok: "engine_ok hash deleted e" and some: "old \<noteq> None \<or> new \<noteq> None"
  shows "\<exists>f. rbind (case old of
        Some t \<Rightarrow> remove_tenant_membership t i (e\<lparr>en_tenanted_oids := insert oid (en_tenanted_oids e)\<rparr>)
      | None \<Rightarrow> remove_all_tenant_memberships i (e\<lparr>en_tenanted_oids := insert oid (en_tenanted_oids e)\<rparr>))
      (\<lambda>e. Inr (case new of None \<Rightarrow> e | Some t \<Rightarrow> insert_tenant_membership t i e)) = Inr f \<and>
    same_core e f \<and> abs_engine f = retenant oid old new i (abs_engine e)"
proof -
  let ?e = "e\<lparr>en_tenanted_oids := insert oid (en_tenanted_oids e)\<rparr>"
  have c: "same_core e ?e" "base_ok ?e" using engine_ok_base [OF ok] by (simp_all add: same_core_def base_ok_def)
  have t: "tenants_of ?e = tenants_of e" by (simp add: tenants_of_def mapped_assignment_def)
  obtain g where g: "(case old of Some t \<Rightarrow> remove_tenant_membership t i ?e | None \<Rightarrow> remove_all_tenant_memberships i ?e) = Inr g"
    "tenants_of g = (case old of None \<Rightarrow> {(t, j) \<in> tenants_of e. j \<noteq> i} | Some t \<Rightarrow> tenants_of e - {(t, i)})"
    "same_core ?e g" "en_tenanted_oids g = insert oid (en_tenanted_oids e)"
    using tenant_removal_ok [OF c(2), where old = old and i = i] unfolding t by auto
  note eg = same_core_trans [OF c(1) g(3)]
  show ?thesis
  proof (cases new)
    case None
    with g some eg abs_engine_core [OF eg] show ?thesis
      by (intro exI [of _ g]) (auto simp: retenant_def split: option.split)
  next
    case (Some u)
    let ?f = "insert_tenant_membership u i g"
    have ef: "same_core e ?f" by (rule same_core_trans [OF eg insert_tenant_ok(2)])
    with g Some abs_engine_core [OF ef] show ?thesis
      by (intro exI [of _ ?f]) (auto simp: retenant_def insert_tenant_ok split: option.split)
  qed
qed

lemma sync_update_ok:
  assumes ok: "engine_ok hash deleted e" and w: "\<not> en_read_only e"
  shows "step_ok hash deleted (spec_update deleted oid pk old new) e (sync_update_tenant hash deleted oid pk old new e)"
proof -
  obtain r where r: "resolve hash deleted e oid pk = Inr r" "\<And>i. r = Some i \<longleftrightarrow> holds deleted (abs_engine e) oid pk i"
    using resolve_holds [OF ok] by blast
  show ?thesis
  proof (cases r)
    case None
    with r(2) have "\<not> (\<exists>i. holds deleted (abs_engine e) oid pk i)" by auto
    with r(1) None w show ?thesis
      by (simp add: sync_update_tenant_def step_ok_def spec_update_def)
  next
    case (Some i)
    then have i: "holds deleted (abs_engine e) oid pk i" using r(2) [of i] by simp
    show ?thesis
    proof (cases "old \<noteq> None \<or> new \<noteq> None")
      case False
      then have "sync_update_tenant hash deleted oid pk old new e = Inr e"
        using r(1) Some w by (simp add: sync_update_tenant_def)
      with False i ok show ?thesis by (auto simp: step_ok_def spec_update_def retenant_def)
    next
      case True
      from retenant_ok [OF ok True, of i oid] obtain f where
        f: "sync_update_tenant hash deleted oid pk old new e = Inr f" "same_core e f"
        "abs_engine f = retenant oid old new i (abs_engine e)"
        using r(1) Some w True by (auto simp: sync_update_tenant_def Let_def)
      with i engine_ok_core [OF ok f(2)] show ?thesis
        by (auto simp: step_ok_def spec_update_def same_core_def)
    qed
  qed
qed

section \<open>Insertion\<close>

lemma candidates_insert:
  assumes "resolution_ok e"
  shows "resolution_ok (resolution_insert hash oid pk i e)"
    "set (candidates hash (resolution_insert hash oid pk i e) oid' pk') =
      set (candidates hash e oid' pk') \<union> (if (oid', hash pk') = (oid, hash pk) then {i} else {})"
proof -
  let ?f = "resolution_insert hash oid pk i e"
  show "resolution_ok ?f"
    using assms by (auto simp: resolution_insert_def resolution_ok_def split: resolution_store.splits)
  show "set (candidates hash ?f oid' pk') =
      set (candidates hash e oid' pk') \<union> (if (oid', hash pk') = (oid, hash pk) then {i} else {})"
  proof (cases "\<exists>es. en_resolution e = Builder es")
    case True
    then have "base_entries ?f = base_entries e @ [\<lparr>re_table_oid = oid, re_pk_hash = hash pk, re_node_idx = i\<rparr>]"
      "en_delta ?f = en_delta e"
      by (auto simp: resolution_insert_def base_entries_def builder_insert_def insert_hashed_def)
    then show ?thesis
      by (simp only: candidates_def filter_append map_append set_append) (auto simp: entry_key_def)
  next
    case False
    then have "base_entries ?f = base_entries e" "en_delta ?f = delta_insert hash oid pk i (en_delta e)"
      by (auto simp: resolution_insert_def base_entries_def split: resolution_store.splits)
    then show ?thesis
      by (simp only: candidates_def set_append) (auto simp: delta_insert_def)
  qed
qed

lemma resolution_insert_core:
  "en_nodes (resolution_insert hash oid pk i e) = en_nodes e"
  "en_table_membership (resolution_insert hash oid pk i e) = en_table_membership e"
  "en_tenant_base (resolution_insert hash oid pk i e) = en_tenant_base e"
  "en_read_only (resolution_insert hash oid pk i e) = en_read_only e"
  "en_tenanted_oids (resolution_insert hash oid pk i e) = en_tenanted_oids e"
  "tenants_of (resolution_insert hash oid pk i e) = tenants_of e"
  by (auto simp: resolution_insert_def tenants_of_def mapped_assignment_def split: resolution_store.splits)

text \<open>The row is added, then its tenant, then its resolution entry.\<close>

definition with_row :: "node_store \<Rightarrow> u32 \<Rightarrow> u32 \<Rightarrow> engine \<Rightarrow> engine" where
  "with_row ns oid i e = insert_table_membership oid i (e\<lparr>en_nodes := ns\<rparr>)"

lemma with_row_simps [simp]:
  "en_nodes (with_row ns oid i e) = ns" "en_resolution (with_row ns oid i e) = en_resolution e"
  "en_delta (with_row ns oid i e) = en_delta e" "en_mmap (with_row ns oid i e) = en_mmap e"
  "members (en_table_membership (with_row ns oid i e)) oid' =
    (if oid' = oid then insert i (members (en_table_membership e) oid) else members (en_table_membership e) oid')"
  "en_tenant_base (with_row ns oid i e) = en_tenant_base e" "en_read_only (with_row ns oid i e) = en_read_only e"
  "en_tenanted_oids (with_row ns oid i e) = en_tenanted_oids e" "tenants_of (with_row ns oid i e) = tenants_of e"
  by (auto simp: with_row_def insert_table_membership_def tenants_of_def mapped_assignment_def opt_get_or_members)

definition with_tenant :: "u32 \<Rightarrow> u8 list option \<Rightarrow> u32 \<Rightarrow> engine \<Rightarrow> engine" where
  "with_tenant oid new i e = (case new of None \<Rightarrow> e
     | Some t \<Rightarrow> insert_tenant_membership t i (e\<lparr>en_tenanted_oids := insert oid (en_tenanted_oids e)\<rparr>))"

lemma with_tenant_ok:
  "same_core e (with_tenant oid new i e)"
  "tenants_of (with_tenant oid new i e) = tenants_of e \<union> (case new of None \<Rightarrow> {} | Some t \<Rightarrow> {(t, i)})"
  "en_tenanted_oids (with_tenant oid new i e) =
    (case new of None \<Rightarrow> en_tenanted_oids e | Some _ \<Rightarrow> insert oid (en_tenanted_oids e))"
proof -
  let ?e = "e\<lparr>en_tenanted_oids := insert oid (en_tenanted_oids e)\<rparr>"
  have c: "same_core e ?e" "tenants_of ?e = tenants_of e"
    by (simp_all add: same_core_def tenants_of_def mapped_assignment_def)
  then show "same_core e (with_tenant oid new i e)"
    using same_core_trans [OF c(1) insert_tenant_ok(2)] by (simp add: with_tenant_def split: option.split)
  show "tenants_of (with_tenant oid new i e) = tenants_of e \<union> (case new of None \<Rightarrow> {} | Some t \<Rightarrow> {(t, i)})"
    "en_tenanted_oids (with_tenant oid new i e) =
      (case new of None \<Rightarrow> en_tenanted_oids e | Some _ \<Rightarrow> insert oid (en_tenanted_oids e))"
    using c(2) by (simp_all add: with_tenant_def insert_tenant_ok split: option.split)
qed

lemma add_row_ok:
  assumes ok: "engine_ok hash deleted e" and free: "\<not> (\<exists>i. holds deleted (abs_engine e) oid pk i)"
    and ns: "owned_as e ns" and pk: "utf8_ok pk" and room: "Suc (sp_next (abs_engine e)) < 2 ^ 32"
  shows "\<exists>t. add_node ns oid pk = Inr (t, word_of_nat (sp_next (abs_engine e))) \<and>
    (let i = word_of_nat (sp_next (abs_engine e));
         f = resolution_insert hash oid pk i (with_tenant oid new i (with_row t oid i e))
     in engine_ok hash deleted f \<and> en_read_only f = en_read_only e \<and> abs_engine f = add_row oid pk new (abs_engine e))"
proof -
  let ?n = "sp_next (abs_engine e)" and ?rows = "rows_of (en_nodes e)"
  let ?i = "word_of_nat ?n :: u32"
  have n: "?n = length (store_nodes ns)" using ns by (simp add: abs_engine_def owned_as_def)
  have own: "nodes_ok ns" "\<not> is_mmap_backed ns" "rows_of ns = ?rows" "length (store_nodes ns) + 1 < 2 ^ 32"
    using ns room n by (simp_all add: owned_as_def)
  obtain t where t: "add_node ns oid pk = Inr (t, ?i)" "nodes_ok t" "rows_of t = ?rows(?i \<mapsto> (oid, pk))"
    "length (store_nodes t) = Suc ?n" "?rows ?i = None"
    using rows_of_add [OF own(1,2,4) pk, of oid] own(3) n by auto
  let ?g = "with_tenant oid new ?i (with_row t oid ?i e)"
  let ?f = "resolution_insert hash oid pk ?i ?g"
  note core = with_tenant_ok(1) [of "with_row t oid ?i e" oid new ?i]
  have g: "en_nodes ?g = t" "en_table_membership ?g = en_table_membership (with_row t oid ?i e)"
    "en_resolution ?g = en_resolution e" "en_delta ?g = en_delta e" "en_mmap ?g = en_mmap e" "en_tenant_base ?g = en_tenant_base e"
    "en_read_only ?g = en_read_only e"
    using core by (simp_all add: same_core_def)
  have res: "resolution_ok ?g" "candidates hash ?g = candidates hash e"
    using ok g(3-5) by (simp_all add: engine_ok_def resolution_ok_def candidates_def base_entries_def fun_eq_iff
        cong: resolution_store.case_cong)
  have "engine_ok hash deleted ?f"
    unfolding engine_ok_def resolution_insert_core g(1,2) t(3)
  proof (intro conjI allI impI)
    show "nodes_ok t" by (rule t(2))
    show "resolution_ok ?f" by (rule candidates_insert(1) [OF res(1)])
    show "base_ok ?f"
      using engine_ok_base [OF ok] by (simp only: base_ok_def resolution_insert_core g(6))
    fix j oid' pk' assume "(?rows(?i \<mapsto> (oid, pk))) j = Some (oid', pk')"
    then show "j \<in> set (candidates hash ?f oid' pk')"
      unfolding candidates_insert(2) [OF res(1)] res(2) using ok by (auto simp: engine_ok_def split: if_splits)
  next
    fix a b key
    assume ab: "(?rows(?i \<mapsto> (oid, pk))) a = Some key" "(?rows(?i \<mapsto> (oid, pk))) b = Some key" "\<not> deleted a" "\<not> deleted b"
    have none: "?rows j \<noteq> Some (oid, pk)" if "\<not> deleted j" for j
      using free that by (auto simp: holds_def abs_engine_def)
    show "a = b"
      using ab none [of a] none [of b] engine_ok_unique [OF ok, of a key b] by (auto split: if_splits)
  next
    fix oid'
    show "members (en_table_membership (with_row t oid ?i e)) oid' =
      {j. map_option fst ((?rows(?i \<mapsto> (oid, pk))) j) = Some oid'}"
      using t(5) by (auto simp: engine_ok_members [OF ok])
  qed
  moreover have "abs_engine ?f = add_row oid pk new (abs_engine e)"
    unfolding abs_engine_def [of ?f] resolution_insert_core g(1) with_tenant_ok add_row_def with_row_simps
    using t(3,4) by (auto split: option.split)
  ultimately show ?thesis using t(1) g(7) by (auto simp: Let_def resolution_insert_core)
qed

lemma sync_insert_ok:
  assumes ok: "engine_ok hash deleted e" and w: "\<not> en_read_only e" and pk: "utf8_ok pk"
    and room: "Suc (sp_next (abs_engine e)) < 2 ^ 32"
  shows "step_ok hash deleted (spec_insert deleted oid pk new) e (sync_insert hash deleted oid pk new e)"
proof -
  obtain r where r: "resolve hash deleted e oid pk = Inr r" "\<And>i. r = Some i \<longleftrightarrow> holds deleted (abs_engine e) oid pk i"
    using resolve_holds [OF ok] by blast
  show ?thesis
  proof (cases r)
    case (Some i)
    then have eq: "sync_insert hash deleted oid pk new e = sync_update_tenant hash deleted oid pk None new e"
      using r(1) w by (simp add: sync_insert_def sync_update_def)
    have "\<exists>i. holds deleted (abs_engine e) oid pk i" using r(2) [of i] Some by auto
    with sync_update_ok [OF ok w, of oid pk None new] show ?thesis
      unfolding eq step_ok_def by (auto simp: spec_update_def spec_insert_def split: sum.splits)
  next
    case None
    with r(2) have free: "\<not> (\<exists>i. holds deleted (abs_engine e) oid pk i)" by auto
    obtain ns where ns: "materialize_mmap_node_store_for_sync e = Inr (e\<lparr>en_nodes := ns\<rparr>)" "owned_as e ns"
      using materialize_ok engine_ok_nodes [OF ok] by blast
    from add_row_ok [OF ok free ns(2) pk room, of new] obtain t where
      t: "add_node ns oid pk = Inr (t, word_of_nat (sp_next (abs_engine e)))"
      and f: "let i = word_of_nat (sp_next (abs_engine e));
         f = resolution_insert hash oid pk i (with_tenant oid new i (with_row t oid i e))
        in engine_ok hash deleted f \<and> en_read_only f = en_read_only e \<and> abs_engine f = add_row oid pk new (abs_engine e)"
      by blast
    let ?i = "word_of_nat (sp_next (abs_engine e)) :: u32"
    have "sync_insert hash deleted oid pk new e =
      Inr (resolution_insert hash oid pk ?i (with_tenant oid new ?i (with_row t oid ?i e)))"
      using r(1) None w ns(1) t
      by (simp add: sync_insert_def insert_sync_node_def Let_def with_tenant_def with_row_def cong: option.case_cong)
    with f free show ?thesis by (auto simp: step_ok_def spec_insert_def Let_def)
  qed
qed

section \<open>Removal\<close>

text \<open>
  An engine whose active rows are some of those of \<open>e\<close> and whose table membership follows them
  satisfies the invariant again.
\<close>

lemma engine_ok_fewer:
  assumes ok: "engine_ok hash deleted e"
    and f: "nodes_ok (en_nodes f)" "rows_of (en_nodes f) \<subseteq>\<^sub>m rows_of (en_nodes e)"
      "en_resolution f = en_resolution e" "en_delta f = en_delta e" "en_mmap f = en_mmap e"
      "en_tenant_base f = en_tenant_base e"
      "\<And>oid. members (en_table_membership f) oid = {i. map_option fst (rows_of (en_nodes f) i) = Some oid}"
  shows "engine_ok hash deleted f"
proof -
  have sub: "rows_of (en_nodes e) i = Some key" if "rows_of (en_nodes f) i = Some key" for i key
    using f(2) that by (force simp: map_le_def)
  have b: "base_ok f = base_ok e" "resolution_ok f = resolution_ok e" "candidates hash f = candidates hash e"
    using f(3-6) by (simp_all add: base_ok_def resolution_ok_def candidates_def base_entries_def fun_eq_iff
        cong: resolution_store.case_cong)
  show ?thesis
    unfolding engine_ok_def b
    using ok f(1,7) sub engine_ok_unique [OF ok] by (auto simp: engine_ok_def)
qed

lemma tombstone_ok:
  assumes n: "nodes_ok (en_nodes e)" and row: "rows_of (en_nodes e) i = Some (oid, pk)"
  shows "\<exists>ns. tombstone_sync_node oid i e = Inr (e\<lparr>en_nodes := ns\<rparr>, True) \<and> nodes_ok ns \<and>
    rows_of ns = (rows_of (en_nodes e))(i := None) \<and>
    length (store_nodes ns) = length (store_nodes (en_nodes e))"
proof -
  obtain ns where ns: "materialize_mmap_node_store_for_sync e = Inr (e\<lparr>en_nodes := ns\<rparr>)" "owned_as e ns"
    using materialize_ok [OF n] by blast
  then have own: "nodes_ok ns" "\<not> is_mmap_backed ns" "rows_of ns i = Some (oid, pk)" "backing_ok (backing ns)"
    using row by (simp_all add: owned_as_def nodes_ok_def)
  have "tombstone_sync_node oid i e = Inr (e\<lparr>en_nodes := deactivate ns i\<rparr>, True)"
    using ns(1) own rows_of_backing [OF own(4), of i] by (simp add: tombstone_sync_node_def)
  with ns(2) rows_of_deactivate [OF own(1,2), of i] show ?thesis
    by (intro exI [of _ "deactivate ns i"]) (simp add: owned_as_def)
qed

lemma remove_table_membership_ok:
  "members (en_table_membership (remove_table_membership oid i e)) oid' =
    (if oid' = oid then members (en_table_membership e) oid - {i} else members (en_table_membership e) oid')"
  "en_nodes (remove_table_membership oid i e) = en_nodes e"
  "en_resolution (remove_table_membership oid i e) = en_resolution e"
  "en_delta (remove_table_membership oid i e) = en_delta e"
  "en_mmap (remove_table_membership oid i e) = en_mmap e"
  "en_tenant_base (remove_table_membership oid i e) = en_tenant_base e"
  "en_read_only (remove_table_membership oid i e) = en_read_only e"
  "tenants_of (remove_table_membership oid i e) = tenants_of e"
  "en_tenanted_oids (remove_table_membership oid i e) = en_tenanted_oids e"
  by (auto simp: remove_table_membership_def members_def tenants_of_def mapped_assignment_def split: option.splits)

lemma tenants_of_nodes [simp]: "tenants_of (e\<lparr>en_nodes := ns\<rparr>) = tenants_of e"
  by (simp add: tenants_of_def mapped_assignment_def)

lemma sync_delete_ok:
  assumes ok: "engine_ok hash deleted e" and w: "\<not> en_read_only e"
  shows "step_ok hash deleted (spec_delete deleted oid pk old) e (sync_delete_tenant hash deleted oid pk old e)"
proof -
  obtain r where r: "resolve hash deleted e oid pk = Inr r" "\<And>i. r = Some i \<longleftrightarrow> holds deleted (abs_engine e) oid pk i"
    using resolve_holds [OF ok] by blast
  show ?thesis
  proof (cases r)
    case None
    with r(2) have "\<not> (\<exists>i. holds deleted (abs_engine e) oid pk i)" by auto
    with r(1) None w show ?thesis
      by (simp add: sync_delete_tenant_def step_ok_def spec_delete_def)
  next
    case (Some i)
    then have i: "holds deleted (abs_engine e) oid pk i" using r(2) [of i] by simp
    then have row: "rows_of (en_nodes e) i = Some (oid, pk)" by (simp add: holds_def)
    obtain ns where ns: "tombstone_sync_node oid i e = Inr (e\<lparr>en_nodes := ns\<rparr>, True)" "nodes_ok ns"
      "rows_of ns = (rows_of (en_nodes e))(i := None)" "length (store_nodes ns) = length (store_nodes (en_nodes e))"
      using tombstone_ok [OF conjunct1 [OF engine_ok_nodes [OF ok]] row] by blast
    let ?g = "remove_table_membership oid i (e\<lparr>en_nodes := ns\<rparr>)"
    have okg: "engine_ok hash deleted ?g"
    proof (rule engine_ok_fewer [OF ok])
      fix oid'
      show "members (en_table_membership ?g) oid' = {j. map_option fst (rows_of (en_nodes ?g) j) = Some oid'}"
        using row by (auto simp: remove_table_membership_ok engine_ok_members [OF ok] ns(3))
    qed (simp_all add: remove_table_membership_ok ns map_le_def)
    obtain f where f: "(case old of Some t \<Rightarrow> remove_tenant_membership t i ?g | None \<Rightarrow> remove_all_tenant_memberships i ?g) = Inr f"
      "tenants_of f = (case old of None \<Rightarrow> {(t, j) \<in> tenants_of ?g. j \<noteq> i} | Some t \<Rightarrow> tenants_of ?g - {(t, i)})"
      "same_core ?g f" "en_tenanted_oids f = en_tenanted_oids ?g"
      using tenant_removal_ok [OF engine_ok_base [OF okg], where old = old and i = i] by blast
    have "sync_delete_tenant hash deleted oid pk old e = Inr f"
      using r(1) Some w ns(1) f(1) by (simp add: sync_delete_tenant_def cong: option.case_cong)
    moreover have "abs_engine f = drop_row old i (abs_engine e)"
      unfolding abs_engine_core [OF f(3)] f(2,4) remove_table_membership_ok tenants_of_nodes
      by (auto simp: abs_engine_def drop_row_def remove_table_membership_ok ns(3,4) split: option.split)
    moreover have "en_read_only f = en_read_only e"
      using f(3) by (simp add: same_core_def remove_table_membership_ok)
    ultimately show ?thesis
      using engine_ok_core [OF okg f(3)] i by (auto simp: step_ok_def spec_delete_def)
  qed
qed

section \<open>Truncation\<close>

lemma tombstones_ok:
  "nodes_ok (en_nodes e) \<Longrightarrow> distinct xs \<Longrightarrow> \<forall>i\<in>set xs. map_option fst (rows_of (en_nodes e) i) = Some oid \<Longrightarrow>
    \<exists>ns. fold_r (\<lambda>i (e, tombstoned). rbind (tombstone_sync_node oid i e) (\<lambda>(e, dead).
        Inr (e, if dead then tombstoned + 1 else tombstoned))) xs (e, n) =
      Inr (e\<lparr>en_nodes := ns\<rparr>, n + word_of_nat (length xs)) \<and> nodes_ok ns \<and>
      rows_of ns = (\<lambda>i. if i \<in> set xs then None else rows_of (en_nodes e) i) \<and>
      length (store_nodes ns) = length (store_nodes (en_nodes e))"
proof (induction xs arbitrary: e n)
  case Nil
  then show ?case by (intro exI [of _ "en_nodes e"]) simp
next
  case (Cons x xs)
  then obtain pk where "rows_of (en_nodes e) x = Some (oid, pk)" by auto
  from tombstone_ok [OF Cons.prems(1) this] obtain ns where
    ns: "tombstone_sync_node oid x e = Inr (e\<lparr>en_nodes := ns\<rparr>, True)" "nodes_ok ns"
    "rows_of ns = (rows_of (en_nodes e))(x := None)" "length (store_nodes ns) = length (store_nodes (en_nodes e))"
    by blast
  have "\<forall>i\<in>set xs. map_option fst (rows_of (en_nodes (e\<lparr>en_nodes := ns\<rparr>)) i) = Some oid"
    using Cons.prems(2,3) ns(3) by auto
  moreover have "nodes_ok (en_nodes (e\<lparr>en_nodes := ns\<rparr>))" "distinct xs" using ns(2) Cons.prems(2) by simp_all
  ultimately have "\<exists>ns'. fold_r (\<lambda>i (e, tombstoned). rbind (tombstone_sync_node oid i e) (\<lambda>(e, dead).
        Inr (e, if dead then tombstoned + 1 else tombstoned))) xs (e\<lparr>en_nodes := ns\<rparr>, n + 1) =
      Inr (e\<lparr>en_nodes := ns, en_nodes := ns'\<rparr>, n + 1 + word_of_nat (length xs)) \<and> nodes_ok ns' \<and>
    rows_of ns' = (\<lambda>i. if i \<in> set xs then None else rows_of (en_nodes (e\<lparr>en_nodes := ns\<rparr>)) i) \<and>
    length (store_nodes ns') = length (store_nodes (en_nodes (e\<lparr>en_nodes := ns\<rparr>)))"
    by (intro Cons.IH)
  then obtain ns' where
    ns': "fold_r (\<lambda>i (e, tombstoned). rbind (tombstone_sync_node oid i e) (\<lambda>(e, dead).
        Inr (e, if dead then tombstoned + 1 else tombstoned))) xs (e\<lparr>en_nodes := ns\<rparr>, n + 1) =
      Inr (e\<lparr>en_nodes := ns, en_nodes := ns'\<rparr>, n + 1 + word_of_nat (length xs)) \<and> nodes_ok ns' \<and>
    rows_of ns' = (\<lambda>i. if i \<in> set xs then None else rows_of (en_nodes (e\<lparr>en_nodes := ns\<rparr>)) i) \<and>
    length (store_nodes ns') = length (store_nodes (en_nodes (e\<lparr>en_nodes := ns\<rparr>)))" by (rule exE)
  with ns show ?case by (intro exI [of _ ns']) (auto simp: fun_eq_iff ac_simps)
qed

lemma remove_all_fold:
  "base_ok e \<Longrightarrow> \<exists>f. fold_r remove_all_tenant_memberships xs e = Inr f \<and>
    tenants_of f = {(t, j) \<in> tenants_of e. j \<notin> set xs} \<and> same_core e f \<and> en_tenanted_oids f = en_tenanted_oids e"
proof (induction xs arbitrary: e)
  case (Cons x xs)
  obtain g where g: "remove_all_tenant_memberships x e = Inr g" "tenants_of g = {(t, j) \<in> tenants_of e. j \<noteq> x}"
    "same_core e g" "en_tenanted_oids g = en_tenanted_oids e" using remove_all_tenants_ok [OF Cons.prems] by blast
  from Cons.IH [of g] same_core_base [OF g(3)] Cons.prems obtain f where
    "fold_r remove_all_tenant_memberships xs g = Inr f" "tenants_of f = {(t, j) \<in> tenants_of g. j \<notin> set xs}"
    "same_core g f" "en_tenanted_oids f = en_tenanted_oids g" by auto
  with g same_core_trans [OF g(3)] show ?case by (intro exI [of _ f]) auto
qed simp

lemma rebuild_ok:
  assumes "nodes_ok (en_nodes e)"
  shows "\<exists>tm. rebuild_table_membership e = Inr (e\<lparr>en_table_membership := tm\<rparr>) \<and>
    (\<forall>oid. members tm oid = {i. map_option fst (rows_of (en_nodes e) i) = Some oid})"
proof -
  let ?ns = "en_nodes e"
  let ?step = "\<lambda>k e. (let i = word_of_nat k in
         rbind (is_active (en_nodes e) i) (\<lambda>active.
           if active then
             (case table_oid (en_nodes e) i of None \<Rightarrow> Inr e | Some oid \<Rightarrow> Inr (insert_table_membership oid i e))
           else Inr e)) :: engine graph_result"
  let ?P = "\<lambda>n f. n < 2 ^ 32 \<longrightarrow> (\<exists>tm. f = e\<lparr>en_table_membership := tm\<rparr> \<and>
    (\<forall>oid. members tm oid = {i. unat i < n \<and> map_option fst (rows_of ?ns i) = Some oid}))"
  have bk: "backing_ok (backing ?ns)" using assms by (simp add: nodes_ok_def)
  have n: "unat (ns_node_count ?ns) < 2 ^ 32" using unat_u32_less [of "ns_node_count ?ns"] by simp
  have "\<exists>f. fold_r ?step [0..<unat (ns_node_count ?ns)] (e\<lparr>en_table_membership := Map.empty\<rparr>) = Inr f \<and>
    ?P (0 + length [0..<unat (ns_node_count ?ns)]) f"
  proof (rule fold_r_count)
    show "?P 0 (e\<lparr>en_table_membership := Map.empty\<rparr>)" by (intro impI exI [of _ Map.empty]) simp
  next
    fix k f
    assume k: "k < length [0..<unat (ns_node_count ?ns)]" and P: "?P (0 + k) f"
    then obtain tm where tm: "f = e\<lparr>en_table_membership := tm\<rparr>"
      "\<forall>oid. members tm oid = {i. unat i < k \<and> map_option fst (rows_of ?ns i) = Some oid}" using n by auto
    let ?i = "word_of_nat k :: u32"
    have i: "unat ?i = k" using k n by simp
    have split: "unat j < Suc k \<longleftrightarrow> unat j < k \<or> j = ?i" for j :: u32
      using i by (auto simp: word_unat_eq_iff less_Suc_eq)
    show "\<exists>f'. ?step ([0..<unat (ns_node_count ?ns)] ! k) f = Inr f' \<and> ?P (Suc (0 + k)) f'"
    proof (cases "rows_of ?ns ?i")
      case None
      have "?P (Suc k) f" using tm None split by (auto intro!: exI [of _ tm])
      with None tm(1) k rows_of_backing(1) [OF bk, of ?i] show ?thesis by simp
    next
      case (Some key)
      let ?tm = "tm(fst key \<mapsto> insert ?i (members tm (fst key)))"
      have "?P (Suc k) (e\<lparr>en_table_membership := ?tm\<rparr>)"
        using tm Some split by (cases key) (auto intro!: exI [of _ ?tm] split: if_splits)
      with Some tm(1) k rows_of_backing [OF bk, of ?i] show ?thesis
        by (simp add: Let_def insert_table_membership_def opt_get_or_members)
    qed
  qed
  then obtain tm where tm: "rebuild_table_membership e = Inr (e\<lparr>en_table_membership := tm\<rparr>)"
    "\<forall>oid. members tm oid = {i. unat i < unat (ns_node_count ?ns) \<and> map_option fst (rows_of ?ns i) = Some oid}"
    using n by (auto simp: rebuild_table_membership_def)
  have "unat i < unat (ns_node_count ?ns)" if "rows_of ?ns i \<noteq> None" for i
    using that store_nodes_count [OF bk] by (auto simp: rows_of_def split: if_splits)
  then have "\<forall>oid. members tm oid = {i. map_option fst (rows_of ?ns i) = Some oid}"
    using tm(2) by fastforce
  with tm(1) show ?thesis by blast
qed

lemma sync_truncate_ok:
  assumes ok: "engine_ok hash deleted e" and w: "\<not> en_read_only e"
  shows "\<exists>f. sync_truncate oid e = Inr (f, word_of_nat (card {i. map_option fst (rows_of (en_nodes e) i) = Some oid})) \<and>
    engine_ok hash deleted f \<and> en_read_only f = en_read_only e \<and> abs_engine f = drop_table oid (abs_engine e)"
proof -
  let ?rows = "rows_of (en_nodes e)"
  let ?S = "{i. map_option fst (?rows i) = Some oid}"
  let ?L = "sorted_list_of_set ?S"
  have L: "set ?L = ?S" "distinct ?L" "length ?L = card ?S" by simp_all
  obtain ns where ns: "materialize_mmap_node_store_for_sync e = Inr (e\<lparr>en_nodes := ns\<rparr>)" "owned_as e ns"
    using materialize_ok engine_ok_nodes [OF ok] by blast
  then have own: "nodes_ok ns" "rows_of ns = ?rows" "length (store_nodes ns) = length (store_nodes (en_nodes e))"
    by (simp_all add: owned_as_def)
  obtain tm where tm: "(if en_table_membership e oid = None then rebuild_table_membership (e\<lparr>en_nodes := ns\<rparr>)
      else Inr (e\<lparr>en_nodes := ns\<rparr>)) = Inr (e\<lparr>en_nodes := ns, en_table_membership := tm\<rparr>)"
    "\<And>oid. members tm oid = {i. map_option fst (?rows i) = Some oid}"
  proof (cases "en_table_membership e oid = None")
    case True
    have "nodes_ok (en_nodes (e\<lparr>en_nodes := ns\<rparr>))" using own(1) by simp
    from rebuild_ok [OF this] that True own(2) show ?thesis by auto
  next
    case False
    have "e\<lparr>en_nodes := ns, en_table_membership := en_table_membership e\<rparr> = e\<lparr>en_nodes := ns\<rparr>" by simp
    with False show ?thesis by (intro that [of "en_table_membership e"] engine_ok_members [OF ok]) (simp only: refl if_False)
  qed
  let ?e1 = "e\<lparr>en_nodes := ns, en_table_membership := tm\<rparr>"
  have "nodes_ok (en_nodes ?e1)" "\<forall>i\<in>set ?L. map_option fst (rows_of (en_nodes ?e1) i) = Some oid"
    using own L(1) by simp_all
  from tombstones_ok [OF this(1) L(2) this(2), of "0 :: u64"] obtain ns2 where
    ns2: "fold_r (\<lambda>i (e, tombstoned). rbind (tombstone_sync_node oid i e) (\<lambda>(e, dead).
        Inr (e, if dead then tombstoned + 1 else tombstoned))) ?L (?e1, 0) =
      Inr (?e1\<lparr>en_nodes := ns2\<rparr>, (0 :: u64) + word_of_nat (length ?L))" "nodes_ok ns2"
    "rows_of ns2 = (\<lambda>i. if i \<in> set ?L then None else rows_of (en_nodes ?e1) i)"
    "length (store_nodes ns2) = length (store_nodes (en_nodes ?e1))"
    by blast
  have rows2: "rows_of ns2 = (\<lambda>i. if i \<in> ?S then None else ?rows i)"
    "length (store_nodes ns2) = length (store_nodes (en_nodes e))"
    using ns2(3,4) own(2,3) L(1) by (simp_all cong: if_cong)
  let ?e2 = "e\<lparr>en_nodes := ns2, en_table_membership := tm(oid := None)\<rparr>"
  have ok2: "engine_ok hash deleted ?e2"
    by (rule engine_ok_fewer [OF ok]) (use ns2(2) rows2 tm(2) in \<open>auto simp: map_le_def split: if_splits\<close>)
  obtain f where f: "fold_r remove_all_tenant_memberships ?L ?e2 = Inr f"
    "tenants_of f = {(t, j) \<in> tenants_of ?e2. j \<notin> ?S}" "same_core ?e2 f" "en_tenanted_oids f = en_tenanted_oids ?e2"
    using remove_all_fold [OF engine_ok_base [OF ok2], of ?L] L(1) by auto
  let ?f = "f\<lparr>en_needs_vacuum := True\<rparr>"
  have c: "same_core f ?f" by (simp add: same_core_def)
  have te: "tenants_of ?e2 = tenants_of e" by (simp add: tenants_of_def mapped_assignment_def)
  have tf: "tenants_of ?f = tenants_of f" by (simp add: tenants_of_def mapped_assignment_def)
  have "sync_truncate oid e = Inr (?f, word_of_nat (card ?S))"
    using w ns(1) tm ns2(1) f(1) L(3) by (simp add: sync_truncate_def Let_def opt_get_or_members)
  moreover have "engine_ok hash deleted ?f" by (rule engine_ok_core [OF engine_ok_core [OF ok2 f(3)] c])
  moreover have "abs_engine ?f = drop_table oid (abs_engine e)"
    unfolding abs_engine_core [OF same_core_trans [OF f(3) c]] tf f(2) te
    using f(4) rows2 by (auto simp: abs_engine_def drop_table_def fun_eq_iff)
  moreover have "en_read_only ?f = en_read_only e" using f(3) by (simp add: same_core_def)
  ultimately show ?thesis by blast
qed

section \<open>Properties\<close>

text \<open>
  The keys of a change that may add a node are strings, and the node table has room for one more
  row. \<open>replay_steps_ok\<close> is the step of a whole log.
\<close>

definition op_fits :: "sync_row_operation \<Rightarrow> identity_spec \<Rightarrow> bool" where
  "op_fits op A \<longleftrightarrow>
     (case op of
        OpInsert pk t \<Rightarrow> utf8_ok pk \<and> Suc (sp_next A) < 2 ^ 32
      | OpUpdate old_pk new_pk old_t new_t \<Rightarrow> utf8_ok new_pk \<and> Suc (sp_next A) < 2 ^ 32
      | _ \<Rightarrow> True)"

lemma read_only_ops:
  "en_read_only e \<Longrightarrow> apply_sync_row_operation hash deleted oid op e = Inl (Err (read_only_error e))"
  by (cases op) (simp_all add: sync_insert_def sync_update_tenant_def sync_delete_tenant_def sync_truncate_def)

text \<open>
  C19: Replaying one logged row change on an engine whose parts agree does exactly what the row
  table asks for: an insert of a visible key or an update changes at most that node's tenants, an
  insert of a new key adds one slot with its key, an update of the key and a delete remove
  exactly the node that holds the old key (its table and tenant memberships, mapped ones
  included), a truncate removes exactly the table's nodes, and a missing key is the node-not-found
  error. The parts agree again afterwards; a read-only engine rejects the change unchanged.
\<close>

theorem sync_replay_refines:
  assumes ok: "engine_ok hash deleted e" and fits: "op_fits op (abs_engine e)"
  shows "case apply_sync_row_operation hash deleted oid op e of
      Inl f \<Rightarrow> (if en_read_only e then f = Err (read_only_error e) else spec_op deleted oid op (abs_engine e) (Inl f))
    | Inr f \<Rightarrow> engine_ok hash deleted f \<and> \<not> en_read_only f \<and> spec_op deleted oid op (abs_engine e) (Inr (abs_engine f))"
proof (cases "en_read_only e")
  case False
  have "step_ok hash deleted (spec_op deleted oid op) e (apply_sync_row_operation hash deleted oid op e)"
  proof (cases op)
    case (OpInsert pk t)
    with fits have "utf8_ok pk" "Suc (sp_next (abs_engine e)) < 2 ^ 32" by (simp_all add: op_fits_def)
    from sync_insert_ok [OF ok False this, of oid t] OpInsert show ?thesis
      by (simp add: step_ok_def cong: sum.case_cong)
  next
    case (OpUpdate old_pk new_pk old_t new_t)
    show ?thesis
    proof (cases "old_pk = new_pk")
      case True
      with sync_update_ok [OF ok False, of oid new_pk old_t new_t] OpUpdate show ?thesis
        by (simp add: step_ok_def cong: sum.case_cong)
    next
      case pks: False
      have d: "step_ok hash deleted (spec_delete deleted oid old_pk old_t) e (sync_delete_tenant hash deleted oid old_pk old_t e)"
        by (rule sync_delete_ok [OF ok False])
      show ?thesis
      proof (cases "sync_delete_tenant hash deleted oid old_pk old_t e")
        case (Inl f)
        with d pks OpUpdate show ?thesis by (auto simp: step_ok_def intro!: exI [of _ "Inl f"])
      next
        case (Inr g)
        with d have g: "engine_ok hash deleted g" "\<not> en_read_only g"
          "spec_delete deleted oid old_pk old_t (abs_engine e) (Inr (abs_engine g))"
          using False by (simp_all add: step_ok_def)
        then have "sp_next (abs_engine g) = sp_next (abs_engine e)"
          by (auto simp: spec_delete_def drop_row_def dest: arg_cong [where f = sp_next])
        then have "step_ok hash deleted (spec_insert deleted oid new_pk new_t) g (sync_insert hash deleted oid new_pk new_t g)"
          using fits OpUpdate by (intro sync_insert_ok g) (simp_all add: op_fits_def)
        with g Inr pks OpUpdate False show ?thesis
          by (auto simp: step_ok_def split: sum.splits intro!: exI [of _ "Inr (abs_engine g)"])
      qed
    qed
  next
    case (OpDelete pk old_t)
    with sync_delete_ok [OF ok False, of oid pk old_t] show ?thesis
      by (simp add: step_ok_def cong: sum.case_cong)
  next
    case OpTruncate
    with sync_truncate_ok [OF ok False, of oid] show ?thesis by (auto simp: step_ok_def)
  qed
  with False show ?thesis by (simp add: step_ok_def split: sum.splits)
qed (simp add: read_only_ops)

lemma new_engine_ok: "engine_ok hash deleted new_engine"
proof -
  have "nodes_ok new_node_store" "store_nodes new_node_store = []"
    by (simp_all add: nodes_ok_def backing_ok_def new_node_store_def store_nodes_def max_width_def
        ns_node_count_def)
  then show ?thesis
    by (simp add: engine_ok_def new_engine_def resolution_ok_def base_ok_def rows_of_def)
qed

text \<open>
  C20: On an engine whose parts agree, \<open>resolve\<close> never faults and finds a node exactly when it holds
  the key, is active and is not removed by the running transaction, whatever hashes collide; and
  the tenant lookup over the mapped base, its removals and the additions is the assigned tenant.
\<close>

theorem resolve_exact:
  assumes "engine_ok hash deleted e"
  shows "(\<exists>r. resolve hash deleted e oid pk = Inr r \<and>
      (\<forall>i. r = Some i \<longleftrightarrow> rows_of (en_nodes e) i = Some (oid, pk) \<and> \<not> deleted i)) \<and>
    tenant_contains e t i = Inr ((t, i) \<in> sp_tenants (abs_engine e))"
  using resolve_holds [OF assms, of oid pk] tenant_contains_ok [OF engine_ok_base [OF assms]]
  by (simp add: holds_def)

lemma finalize_candidates:
  assumes "resolution_ok e" "\<And>es. en_resolution e = Builder es \<Longrightarrow> length es < 2 ^ 32"
  shows "resolution_ok (finalize_resolution e)"
    "set (candidates hash (finalize_resolution e) oid pk) = set (candidates hash e oid pk)"
proof -
  show "resolution_ok (finalize_resolution e)"
    using assms to_bytes_index
    by (fastforce simp: finalize_resolution_def resolution_ok_def bytes_ok_def split: resolution_store.splits)
  have "set (base_entries (finalize_resolution e)) = set (base_entries e)"
  proof (cases "en_resolution e")
    case (Builder es)
    then obtain ri where "from_bytes (to_bytes es) = Inr (Some ri)" "index_entries ri = to_sorted_entries es"
      using to_bytes_index [OF assms(2)] by blast
    with Builder show ?thesis by (simp add: finalize_resolution_def base_entries_def to_sorted_entries_def)
  qed (simp_all add: finalize_resolution_def)
  moreover have "en_delta (finalize_resolution e) = en_delta e"
    by (simp add: finalize_resolution_def split: resolution_store.split)
  ultimately show "set (candidates hash (finalize_resolution e) oid pk) = set (candidates hash e oid pk)"
    by (simp add: candidates_def)
qed

text \<open>
  Freezing the build accumulator into its sorted byte form changes no answer: every key
  resolves as before (below 2^32 entries), the parts of the engine still agree and the rows,
  tenants and table membership are the same. A second call does nothing.
\<close>

theorem finalize_keeps_identity:
  assumes ok: "engine_ok hash deleted e"
    and room: "\<And>es. en_resolution e = Builder es \<Longrightarrow> builder_len es < 2 ^ 32"
  shows "engine_ok hash deleted (finalize_resolution e) \<and> abs_engine (finalize_resolution e) = abs_engine e \<and>
    finalize_resolution (finalize_resolution e) = finalize_resolution e \<and>
    resolve hash deleted (finalize_resolution e) oid pk = resolve hash deleted e oid pk"
proof -
  let ?f = "finalize_resolution e"
  have same: "en_nodes ?f = en_nodes e" "en_table_membership ?f = en_table_membership e"
    "base_ok ?f = base_ok e" "tenants_of ?f = tenants_of e" "en_tenanted_oids ?f = en_tenanted_oids e"
    by (simp_all add: finalize_resolution_def base_ok_def tenants_of_def mapped_assignment_def
        split: resolution_store.split)
  have r: "resolution_ok e" using ok by (simp add: engine_ok_def)
  have room': "length es < 2 ^ 32" if "en_resolution e = Builder es" for es
    using room [OF that] by (simp add: builder_len_def to_sorted_entries_def)
  note fin = finalize_candidates [OF r room']
  have okf: "engine_ok hash deleted ?f"
    using ok fin unfolding engine_ok_def same by (auto simp: builder_len_def)
  have a: "abs_engine ?f = abs_engine e" using same by (simp add: abs_engine_def)
  have "finalize_resolution ?f = ?f" by (simp add: finalize_resolution_def split: resolution_store.split)
  moreover have "resolve hash deleted ?f oid pk = resolve hash deleted e oid pk"
  proof -
    obtain r where r: "resolve hash deleted e oid pk = Inr r"
      "\<And>i. r = Some i \<longleftrightarrow> holds deleted (abs_engine e) oid pk i" using resolve_holds [OF ok] by blast
    obtain s where s: "resolve hash deleted ?f oid pk = Inr s"
      "\<And>i. s = Some i \<longleftrightarrow> holds deleted (abs_engine e) oid pk i" using resolve_holds [OF okf] unfolding a by blast
    have "s = r" using r(2) s(2) by (metis option.exhaust)
    with r(1) s(1) show ?thesis by simp
  qed
  ultimately show ?thesis using okf a by blast
qed

section \<open>A first row\<close>

lemma first_row:
  "\<exists>f. sync_insert (\<lambda>_. 5) (\<lambda>_. False) 7 [97] (Some [120]) new_engine = Inr f \<and>
    engine_ok (\<lambda>_. 5) (\<lambda>_. False) f \<and> rows_of (en_nodes f) 0 = Some (7, [97]) \<and> ([120], 0) \<in> tenants_of f \<and>
    (\<forall>es. en_resolution f = Builder es \<longrightarrow> builder_len es < 2 ^ 32)"
proof -
  let ?m = "sync_insert (\<lambda>_. 5) (\<lambda>_. False) 7 [97] (Some [120]) new_engine"
  have ok: "engine_ok (\<lambda>_. 5) (\<lambda>_. False) new_engine" by (rule new_engine_ok)
  have none: "store_nodes (en_nodes new_engine) = []" "rows_of (en_nodes new_engine) = Map.empty"
    by (simp_all add: new_engine_def new_node_store_def store_nodes_def rows_of_def fun_eq_iff)
  then have free: "\<not> holds (\<lambda>_. False) (abs_engine new_engine) 7 [97] i" for i by (simp add: holds_def)
  have step: "step_ok (\<lambda>_. 5) (\<lambda>_. False) (spec_insert (\<lambda>_. False) 7 [97] (Some [120])) new_engine ?m"
    by (rule sync_insert_ok [OF ok]) (simp_all add: none, simp_all add: new_engine_def)
  then obtain f where f: "?m = Inr f" "engine_ok (\<lambda>_. 5) (\<lambda>_. False) f"
    "abs_engine f = add_row 7 [97] (Some [120]) (abs_engine new_engine)"
    using free by (cases ?m) (auto simp: step_ok_def spec_insert_def)
  have n: "sp_next (abs_engine new_engine) = 0" by (simp add: none)
  have "rows_of (en_nodes f) 0 = Some (7, [97])" "([120], 0) \<in> tenants_of f"
    using arg_cong [OF f(3), of sp_rows] arg_cong [OF f(3), of sp_tenants] n by (simp_all add: add_row_def)
  moreover have "resolve (\<lambda>_. 5) (\<lambda>_. False) new_engine 7 [97] = Inr None"
  proof -
    obtain r where r: "resolve (\<lambda>_. 5) (\<lambda>_. False) new_engine 7 [97] = Inr r"
      "\<And>i. r = Some i \<longleftrightarrow> holds (\<lambda>_. False) (abs_engine new_engine) 7 [97] i" using resolve_holds [OF ok] by blast
    with free show ?thesis by (cases r) auto
  qed
  then have "en_resolution f = Builder es \<Longrightarrow> builder_len es < 2 ^ 32" for es
    using f(1) insert_tenant_ok(2) by (cases "add_node (en_nodes new_engine) 7 [97]")
      (auto simp: sync_insert_def insert_sync_node_def materialize_mmap_node_store_for_sync_def is_mmap_backed_def
        new_engine_def new_node_store_def Let_def insert_table_membership_def insert_tenant_membership_def
        resolution_insert_def builder_insert_def insert_hashed_def builder_len_def to_sorted_entries_def)
  ultimately show ?thesis using f by blast
qed

theorem sync_replay_refines_witness:
  "op_fits (OpInsert [97] (Some [120])) (abs_engine new_engine) \<and>
    (case apply_sync_row_operation (\<lambda>_. 5) (\<lambda>_. False) 7 (OpInsert [97] (Some [120])) new_engine of
       Inl f \<Rightarrow> False
     | Inr f \<Rightarrow> engine_ok (\<lambda>_. 5) (\<lambda>_. False) f \<and> rows_of (en_nodes f) 0 = Some (7, [97]) \<and>
         ([120], 0) \<in> tenants_of f)"
proof -
  let ?op = "OpInsert [97] (Some [120])" and ?m = "apply_sync_row_operation (\<lambda>_. 5) (\<lambda>_. False) 7 (OpInsert [97] (Some [120])) new_engine"
  have none: "store_nodes (en_nodes new_engine) = []" "rows_of (en_nodes new_engine) = Map.empty" "\<not> en_read_only new_engine"
    by (simp_all add: new_engine_def new_node_store_def store_nodes_def rows_of_def fun_eq_iff)
  have fits: "op_fits ?op (abs_engine new_engine)" by (simp add: op_fits_def none)
  have free: "\<not> holds (\<lambda>_. False) (abs_engine new_engine) 7 [97] i" for i by (simp add: holds_def none)
  note main = sync_replay_refines [OF new_engine_ok fits, where hash = "\<lambda>_. 5" and deleted = "\<lambda>_. False" and oid = 7]
  show ?thesis
  proof (cases ?m)
    case (Inl f)
    with main none(3) free show ?thesis by (simp add: spec_insert_def)
  next
    case (Inr f)
    with main free have f: "engine_ok (\<lambda>_. 5) (\<lambda>_. False) f" "abs_engine f = add_row 7 [97] (Some [120]) (abs_engine new_engine)"
      by (simp_all add: spec_insert_def)
    have "rows_of (en_nodes f) 0 = Some (7, [97])" "([120], 0) \<in> tenants_of f"
      using arg_cong [OF f(2), of sp_rows] arg_cong [OF f(2), of sp_tenants] none(1) by (simp_all add: add_row_def)
    with fits f(1) Inr show ?thesis by simp
  qed
qed

theorem resolve_exact_witness:
  "\<exists>f. engine_ok (\<lambda>_. 5) (\<lambda>_. False) f \<and> resolve (\<lambda>_. 5) (\<lambda>_. False) f 7 [97] = Inr (Some 0) \<and>
    resolve (\<lambda>_. 5) (\<lambda>_. False) f 7 [98] \<noteq> Inr (Some 0) \<and> tenant_contains f [120] 0 = Inr True"
proof -
  obtain f where f: "engine_ok (\<lambda>_. 5) (\<lambda>_. False) f" "rows_of (en_nodes f) 0 = Some (7, [97])" "([120], 0) \<in> tenants_of f"
    using first_row by blast
  note main = resolve_exact [OF f(1), of 7 _ "[120]" 0]
  show ?thesis using main [of "[97]"] main [of "[98]"] f by (intro exI [of _ f]) (auto dest: spec [of _ 0])
qed

theorem finalize_keeps_identity_witness:
  "\<exists>f. rows_of (en_nodes f) 0 = Some (7, [97]) \<and> engine_ok (\<lambda>_. 5) (\<lambda>_. False) (finalize_resolution f) \<and>
    resolve (\<lambda>_. 5) (\<lambda>_. False) (finalize_resolution f) 7 [97] = resolve (\<lambda>_. 5) (\<lambda>_. False) f 7 [97]"
proof -
  obtain f where f: "engine_ok (\<lambda>_. 5) (\<lambda>_. False) f" "rows_of (en_nodes f) 0 = Some (7, [97])"
    "\<And>es. en_resolution f = Builder es \<Longrightarrow> builder_len es < 2 ^ 32" using first_row by blast
  from finalize_keeps_identity [OF f(1,3), of 7 "[97]"] f(2) show ?thesis by blast
qed

end
