(* ===== verification/Validation.thy ===== *)
theory Validation
  imports TenantIndex
begin

text \<open>
  Rules for validators of persisted bytes: \<open>checked P r\<close> holds of a computation that ends with a
  corruption error or with a result satisfying \<open>P\<close>, never with a panic.
\<close>

definition checked :: "('a \<Rightarrow> bool) \<Rightarrow> 'a graph_result \<Rightarrow> bool" where
  "checked P r \<longleftrightarrow> (case r of Inl f \<Rightarrow> \<exists>reason. f = Err (CorruptFile reason) | Inr x \<Rightarrow> P x)"

lemma checked_Inr [simp]: "checked P (Inr x) \<longleftrightarrow> P x"
  by (simp add: checked_def)

lemma checked_corrupt [simp]: "checked P (Inl (corrupt s))"
  by (simp add: checked_def corrupt_def)

lemma checked_bind: "checked Q m \<Longrightarrow> (\<And>x. Q x \<Longrightarrow> checked P (f x)) \<Longrightarrow> checked P (rbind m f)"
  by (cases m) (simp_all add: checked_def)

lemma checked_mono: "checked Q m \<Longrightarrow> (\<And>x. Q x \<Longrightarrow> P x) \<Longrightarrow> checked P m"
  by (auto simp: checked_def split: sum.splits)

lemma checked_ok_or: "(\<And>x. m = Some x \<Longrightarrow> P x) \<Longrightarrow> checked P (ok_or (corrupt s) m)"
  by (cases m) simp_all

lemma checked_bind_ok_or: "(\<And>x. m = Some x \<Longrightarrow> checked P (f x)) \<Longrightarrow> checked P (rbind (ok_or (corrupt s) m) f)"
  by (cases m) simp_all

lemma checked_if: "(b \<Longrightarrow> checked P p) \<Longrightarrow> (\<not> b \<Longrightarrow> checked P q) \<Longrightarrow> checked P (if b then p else q)"
  by simp

lemma checked_bind_slice: "i \<le> j \<Longrightarrow> j \<le> length xs \<Longrightarrow> checked P (f (slice i j xs)) \<Longrightarrow> checked P (rbind (slice_r xs i j) f)"
  by simp

lemma checked_bind_index: "i < length xs \<Longrightarrow> checked P (f (xs ! i)) \<Longrightarrow> checked P (rbind (index_r xs i) f)"
  by simp

lemma checked_fold:
  assumes "\<And>pre x post s. xs = pre @ x # post \<Longrightarrow> P pre s \<Longrightarrow> checked (P (pre @ [x])) (f x s)" "P [] s"
  shows "checked (P xs) (fold_r f xs s)"
proof -
  have "checked (P xs) (fold_r f post s)" if "xs = pre @ post" "P pre s" for pre post s
    using that
  proof (induction post arbitrary: pre s)
    case (Cons x post)
    have "checked (P (pre @ [x])) (f x s)" by (rule assms(1)) (use Cons.prems in auto)
    then show ?case using Cons.IH [of "pre @ [x]"] Cons.prems(1) by (auto intro: checked_bind)
  qed simp
  from this [of "[]" xs s] assms(2) show ?thesis by simp
qed

lemma checked_done: "checked (\<lambda>_. P) m \<Longrightarrow> checked (\<lambda>_. P) (rbind m (\<lambda>_. Inr ()))"
  by (rule checked_bind) simp_all

end
