(* ===== verification/TenantProofs.thy ===== *)
theory TenantProofs
  imports Validation
begin

text \<open>
  The mapped tenant membership against the bytes it is mapped from: the layout of the two
  sections stated on their own, an exact answer of the validation (accepted if and only if the
  sections have the layout, else corruption), and the lookups in terms of the layout.
\<close>

section \<open>The layout of the sections\<close>

text \<open>
  The dictionary section is the number of tenants (4 bytes), the offsets of the tenants in the
  payload and its length (8 bytes each), and the tenants one after the other; the token section
  has 4 bytes per node, 0 for a node without tenant and otherwise one more than its index.
\<close>

definition dictionary_section :: "u8 list \<Rightarrow> u8 list list \<Rightarrow> bool" where
  "dictionary_section dictionary tenants \<longleftrightarrow>
     12 + 8 * length tenants \<le> length dictionary \<and>
     le_nat (slice 0 4 dictionary) = length tenants \<and>
     (\<forall>k\<le>length tenants.
        le_nat (slice (4 + 8 * k) (12 + 8 * k) dictionary) = length (concat (take k tenants))) \<and>
     drop (12 + 8 * length tenants) dictionary = concat tenants"

definition token_section :: "u8 list \<Rightarrow> nat list \<Rightarrow> bool" where
  "token_section section_bytes toks \<longleftrightarrow>
     length section_bytes = 4 * length toks \<and>
     (\<forall>i<length toks. le_nat (slice (4 * i) (4 * i + 4) section_bytes) = toks ! i)"

definition disjoint_sections :: "byte_range \<Rightarrow> byte_range \<Rightarrow> bool" where
  "disjoint_sections l r \<longleftrightarrow> snd r \<le> fst l \<or> snd l \<le> fst r"

definition tenant_layout :: "tenant_parts \<Rightarrow> nat \<Rightarrow> u8 list list \<Rightarrow> nat list \<Rightarrow> bool" where
  "tenant_layout p n tenants toks \<longleftrightarrow>
     range_in_region (tp_dictionary_range p) (length (tp_bytes p)) \<and>
     range_in_region (tp_tokens_range p) (length (tp_bytes p)) \<and>
     disjoint_sections (tp_dictionary_range p) (tp_tokens_range p) \<and>
     dictionary_section (range_bytes (tp_bytes p) (tp_dictionary_range p)) tenants \<and>
     (\<forall>t\<in>set tenants. utf8_ok t) \<and> sorted_wrt (<) tenants \<and>
     token_section (range_bytes (tp_bytes p) (tp_tokens_range p)) toks \<and>
     length toks = n \<and> (\<forall>t\<in>set toks. t \<le> length tenants)"

definition tenant_of :: "u8 list list \<Rightarrow> nat list \<Rightarrow> nat \<Rightarrow> u8 list option" where
  "tenant_of tenants toks i =
     (if i < length toks \<and> toks ! i \<noteq> 0 then Some (tenants ! (toks ! i - 1)) else None)"

section \<open>Validators that decide\<close>

text \<open>
  \<open>decided ok P r\<close>: a corruption error that contradicts \<open>ok\<close>, or a result satisfying \<open>P\<close>;
  \<open>checked\<close> is the case of no claim about rejection.
\<close>

definition decided :: "bool \<Rightarrow> ('a \<Rightarrow> bool) \<Rightarrow> 'a graph_result \<Rightarrow> bool" where
  "decided ok P r \<longleftrightarrow>
     (case r of Inl f \<Rightarrow> (\<exists>reason. f = Err (CorruptFile reason)) \<and> \<not> ok | Inr x \<Rightarrow> P x)"

lemma decided_Inr [simp]: "decided ok P (Inr x) \<longleftrightarrow> P x"
  by (simp add: decided_def)

lemma decided_corrupt [simp]: "decided ok P (Inl (corrupt s)) \<longleftrightarrow> \<not> ok"
  by (simp add: decided_def corrupt_def)

lemma decided_entry_error [simp]: "decided ok P (Inl (tenant_entry_error k s)) \<longleftrightarrow> \<not> ok"
  by (simp add: tenant_entry_error_def)

lemma decided_bind:
  "decided ok Q m \<Longrightarrow> (\<And>x. m = Inr x \<Longrightarrow> Q x \<Longrightarrow> decided ok P (f x)) \<Longrightarrow> decided ok P (rbind m f)"
  by (cases m) (simp_all add: decided_def)

lemma decided_bind_ok_or:
  "(m = None \<Longrightarrow> \<not> ok) \<Longrightarrow> (\<And>x. m = Some x \<Longrightarrow> decided ok P (f x)) \<Longrightarrow>
    decided ok P (rbind (ok_or (corrupt s) m) f)"
  by (cases m) simp_all

lemma decided_if:
  "(b \<Longrightarrow> decided ok P p) \<Longrightarrow> (\<not> b \<Longrightarrow> decided ok P q) \<Longrightarrow> decided ok P (if b then p else q)"
  by simp

lemma decided_mono: "decided ok Q m \<Longrightarrow> (\<And>x. Q x \<Longrightarrow> P x) \<Longrightarrow> decided ok P m"
  by (auto simp: decided_def split: sum.splits)

lemma decided_fold:
  assumes "\<And>pre x post s. xs = pre @ x # post \<Longrightarrow> P pre s \<Longrightarrow> decided ok (P (pre @ [x])) (f x s)" "P [] s"
  shows "decided ok (P xs) (fold_r f xs s)"
proof -
  have "decided ok (P xs) (fold_r f post s)" if "xs = pre @ post" "P pre s" for pre post s
    using that
  proof (induction post arbitrary: pre s)
    case (Cons x post)
    have "decided ok (P (pre @ [x])) (f x s)" by (rule assms(1)) (use Cons.prems in auto)
    then show ?case using Cons.IH [of "pre @ [x]"] Cons.prems(1) by (auto intro: decided_bind)
  qed simp
  from this [of "[]" xs s] assms(2) show ?thesis by simp
qed

section \<open>Reading a section\<close>

lemma le_nat_less: "le_nat bs < 256 ^ length bs"
proof (induction bs)
  case (Cons b bs)
  have "unat b < 256" using unsigned_less [of b] by simp
  with Cons show ?case by (simp add: le_nat_def)
qed (simp add: le_nat_def)

lemma unat_le_word:
  "length bs = 4 \<Longrightarrow> unat (le_word bs :: u32) = le_nat bs"
  "length bs = 8 \<Longrightarrow> unat (le_word bs :: u64) = le_nat bs"
  using le_nat_less [of bs] by (simp_all add: le_word_def unat_of_nat)

lemma decided_bind_u32:
  "length bytes \<le> usize_max \<Longrightarrow> (length bytes < offset + 4 \<Longrightarrow> \<not> ok) \<Longrightarrow>
    (offset + 4 \<le> length bytes \<Longrightarrow> decided ok P (f (le_word (slice offset (offset + 4) bytes)))) \<Longrightarrow>
    decided ok P (rbind (read_u32 bytes offset) f)"
  by (cases "offset + 4 \<le> length bytes") (auto simp: read_u32_def checked_add_usize_def get_slice_opt_def)

lemma decided_bind_u64:
  "length bytes \<le> usize_max \<Longrightarrow> (length bytes < offset + 8 \<Longrightarrow> \<not> ok) \<Longrightarrow>
    (offset + 8 \<le> length bytes \<Longrightarrow> decided ok P (f (le_word (slice offset (offset + 8) bytes)))) \<Longrightarrow>
    decided ok P (rbind (read_u64 bytes offset) f)"
  by (cases "offset + 8 \<le> length bytes") (auto simp: read_u64_def checked_add_usize_def get_slice_opt_def)

definition entry_offset :: "u8 list \<Rightarrow> nat \<Rightarrow> nat" where
  "entry_offset dictionary k = le_nat (slice (4 + 8 * k) (12 + 8 * k) dictionary)"

lemma read_entry_offset:
  "12 + 8 * k \<le> length dictionary \<Longrightarrow> length dictionary \<le> usize_max \<Longrightarrow>
    read_dictionary_offset dictionary k = Inr (entry_offset dictionary k)"
  by (simp add: read_dictionary_offset_def checked_mul_usize_def checked_add_usize_def read_u64_def
      get_slice_opt_def entry_offset_def unat_le_word(2) add.commute mult.commute)

lemma concat_take_Suc:
  "k < length xss \<Longrightarrow> concat (take (Suc k) xss) = concat (take k xss) @ xss ! k"
  by (simp add: take_Suc_conv_app_nth)

lemma slice_concat:
  assumes "k < length xss"
  shows "slice (length (concat (take k xss))) (length (concat (take (Suc k) xss))) (concat xss) = xss ! k"
proof -
  have "concat xss = concat (take k xss) @ xss ! k @ concat (drop (Suc k) xss)"
    using arg_cong [OF id_take_nth_drop [OF assms], of concat] by simp
  then show ?thesis by (simp add: slice_def concat_take_Suc [OF assms])
qed

lemma length_concat_take: "length (concat (take k xss)) \<le> length (concat xss)"
  by (metis append_take_drop_id concat_append length_append le_add1)

lemma upt_cut:
  assumes "[0..<c] = pre @ x # post"
  shows "pre = [0..<x]" and "x < c"
proof -
  have len: "length pre < c" using arg_cong [OF assms, of length] by simp
  have "pre = take (length pre) [0..<c]" by (simp add: assms)
  then have pre: "pre = [0..<length pre]" using len by (simp add: take_upt)
  have "x = [0..<c] ! length pre" by (simp add: assms)
  then have "x = length pre" using len by simp
  with pre len show "pre = [0..<x]" "x < c" by simp_all
qed

text \<open>Entry \<open>k\<close> of a dictionary with \<open>n\<close> entries, as its offsets cut it out of the payload.\<close>

definition entry_text :: "u8 list \<Rightarrow> nat \<Rightarrow> nat \<Rightarrow> u8 list" where
  "entry_text dictionary n k =
     slice (entry_offset dictionary k) (entry_offset dictionary (Suc k)) (drop (12 + 8 * n) dictionary)"

lemma section_entries:
  assumes "dictionary_section dictionary tenants" and "k < length tenants"
  shows "entry_text dictionary (length tenants) k = tenants ! k"
    and "entry_offset dictionary k \<le> entry_offset dictionary (Suc k)"
    and "entry_offset dictionary (Suc k) \<le> length dictionary - (12 + 8 * length tenants)"
proof -
  have o: "entry_offset dictionary i = length (concat (take i tenants))" if "i \<le> length tenants" for i
    using assms(1) that by (simp add: dictionary_section_def entry_offset_def)
  have payload: "drop (12 + 8 * length tenants) dictionary = concat tenants"
    using assms(1) by (simp add: dictionary_section_def)
  show "entry_text dictionary (length tenants) k = tenants ! k"
    using slice_concat [OF assms(2)] assms(2) by (simp only: entry_text_def payload o Suc_leI less_imp_le)
  show "entry_offset dictionary k \<le> entry_offset dictionary (Suc k)"
    using assms(2) by (simp add: o concat_take_Suc)
  show "entry_offset dictionary (Suc k) \<le> length dictionary - (12 + 8 * length tenants)"
    using assms(2) length_concat_take [of "Suc k" tenants] arg_cong [OF payload, of length] by (simp add: o)
qed

section \<open>The scan of the dictionary\<close>

definition scanned :: "usize \<Rightarrow> u8 list \<Rightarrow> nat \<Rightarrow> nat list \<Rightarrow> dictionary_scan \<Rightarrow> bool" where
  "scanned start dictionary n done_ks s \<longleftrightarrow>
     ds_entries s = map (\<lambda>k. (start + entry_offset dictionary k, start + entry_offset dictionary (Suc k))) done_ks \<and>
     ds_previous_end s = entry_offset dictionary (length done_ks) \<and>
     ds_previous_value s = (if done_ks = [] then None else Some (entry_text dictionary n (last done_ks))) \<and>
     (\<forall>k\<in>set done_ks. entry_offset dictionary k \<le> entry_offset dictionary (Suc k) \<and>
        entry_offset dictionary (Suc k) \<le> length dictionary - (12 + 8 * n) \<and>
        utf8_ok (entry_text dictionary n k)) \<and>
     sorted_wrt (<) (map (entry_text dictionary n) done_ks)"

lemma decided_entry:
  assumes D: "length dictionary \<le> usize_max" "12 + 8 * n \<le> length dictionary"
    and at: "fst (tp_dictionary_range p) + length dictionary \<le> usize_max"
    and rest: "ok \<Longrightarrow> \<exists>tenants. dictionary_section dictionary tenants \<and> length tenants = n \<and>
      (\<forall>t\<in>set tenants. utf8_ok t) \<and> sorted_wrt (<) tenants"
    and s: "scanned (fst (tp_dictionary_range p) + (12 + 8 * n)) dictionary n [0..<k] s" and k: "k < n"
  shows "decided ok (scanned (fst (tp_dictionary_range p) + (12 + 8 * n)) dictionary n [0..<Suc k])
    (scan_entry p dictionary (drop (12 + 8 * n) dictionary) (12 + 8 * n) k s)"
proof -
  let ?a = "entry_offset dictionary k" and ?b = "entry_offset dictionary (Suc k)"
    and ?S = "drop (12 + 8 * n) dictionary" and ?v = "entry_text dictionary n k"
  have reads: "read_dictionary_offset dictionary k = Inr ?a" "read_dictionary_offset dictionary (Suc k) = Inr ?b"
    using read_entry_offset D k by simp_all
  have prev: "ds_previous_end s = ?a" using s by (simp add: scanned_def)
  have good: "?a \<le> ?b \<and> ?b \<le> length dictionary - (12 + 8 * n) \<and> utf8_ok ?v \<and>
      (\<forall>j<k. entry_text dictionary n j < ?v)" if "ok"
  proof -
    from rest [OF that] obtain tenants where t: "dictionary_section dictionary tenants" "length tenants = n"
      "\<forall>t\<in>set tenants. utf8_ok t" "sorted_wrt (<) tenants" by blast
    have "entry_text dictionary n j = tenants ! j" if "j < n" for j
      using section_entries(1) [OF t(1)] t(2) that by simp
    then show ?thesis
      using section_entries(2,3) [OF t(1), of k] t k by (auto simp: sorted_wrt_iff_nth_less)
  qed
  have last: "(case ds_previous_value s of None \<Rightarrow> False | Some previous \<Rightarrow> previous \<ge> ?v) \<longleftrightarrow>
      k \<noteq> 0 \<and> entry_text dictionary n (k - 1) \<ge> ?v"
    using s by (cases k) (simp_all add: scanned_def)
  have sorted: "\<forall>j<k. entry_text dictionary n j < ?v" if "k = 0 \<or> entry_text dictionary n (k - 1) < ?v"
  proof (intro allI impI)
    fix j assume j: "j < k"
    have "sorted_wrt (<) (map (entry_text dictionary n) [0..<k])" using s by (simp add: scanned_def)
    then have "j < k - 1 \<Longrightarrow> entry_text dictionary n j < entry_text dictionary n (k - 1)"
      using j by (auto simp: sorted_wrt_iff_nth_less)
    moreover from j have "j = k - 1 \<or> j < k - 1" by auto
    ultimately show "entry_text dictionary n j < ?v" using that j by (auto intro: less_trans)
  qed
  have absolute: "absolute_offset p (12 + 8 * n) x = Inr (fst (tp_dictionary_range p) + (12 + 8 * n) + x)"
    if "x \<le> length dictionary - (12 + 8 * n)" for x
    using that D at by (simp add: absolute_offset_def checked_add_usize_def)
  show ?thesis
  proof (cases "?a \<le> ?b \<and> ?b \<le> length dictionary - (12 + 8 * n)")
    case False
    then have "scan_entry p dictionary ?S (12 + 8 * n) k s = Inl (tenant_entry_error k '' has invalid offsets'')"
      by (auto simp: scan_entry_def reads prev not_le)
    then show ?thesis using good False by auto
  next
    case True
    then have raw: "slice_r ?S ?a ?b = (Inr ?v :: u8 list graph_result)" by (simp add: entry_text_def slice_r_def)
    have step: "scan_entry p dictionary ?S (12 + 8 * n) k s =
        rbind (ok_or (tenant_entry_error k '' is not UTF-8'') (from_utf8 ?v)) (\<lambda>v.
          if (case ds_previous_value s of None \<Rightarrow> False | Some previous \<Rightarrow> previous \<ge> v) then
            Inl (tenant_entry_error k '' is not strictly lexical'')
          else Inr \<lparr>ds_entries = ds_entries s @
              [(fst (tp_dictionary_range p) + (12 + 8 * n) + ?a, fst (tp_dictionary_range p) + (12 + 8 * n) + ?b)],
            ds_previous_end = ?b, ds_previous_value = Some v\<rparr>)"
      using True absolute [of ?a] absolute [of ?b] by (simp add: scan_entry_def reads prev raw cong: if_cong)
    show ?thesis
    proof (cases "utf8_ok ?v \<and> (k = 0 \<or> entry_text dictionary n (k - 1) < ?v)")
      case False
      then have "\<not> ok" using good by auto
      with False last step show ?thesis by (auto simp: from_utf8_def not_less)
    next
      case good_entry: True
      with last step have "scan_entry p dictionary ?S (12 + 8 * n) k s = Inr \<lparr>ds_entries = ds_entries s @
          [(fst (tp_dictionary_range p) + (12 + 8 * n) + ?a, fst (tp_dictionary_range p) + (12 + 8 * n) + ?b)],
          ds_previous_end = ?b, ds_previous_value = Some ?v\<rparr>"
        by (auto simp: from_utf8_def not_le)
      with s True good_entry sorted show ?thesis
        by (auto simp: scanned_def sorted_wrt_append)
    qed
  qed
qed

lemma scanned_section:
  assumes s: "scanned start dictionary n [0..<n] s" and room: "12 + 8 * n \<le> length dictionary"
    and head: "le_nat (slice 0 4 dictionary) = n" "entry_offset dictionary 0 = 0"
    and terminal: "entry_offset dictionary n = length dictionary - (12 + 8 * n)"
  shows "dictionary_section dictionary (map (entry_text dictionary n) [0..<n])"
proof -
  let ?S = "drop (12 + 8 * n) dictionary" and ?e = "entry_text dictionary n"
  have step: "entry_offset dictionary k \<le> entry_offset dictionary (Suc k)"
    "entry_offset dictionary (Suc k) \<le> length ?S" if "k < n" for k
    using s that by (auto simp: scanned_def)
  have prefix: "k \<le> n \<Longrightarrow> concat (map ?e [0..<k]) = take (entry_offset dictionary k) ?S \<and>
      entry_offset dictionary k \<le> length ?S" for k
  proof (induction k)
    case (Suc k)
    then have "take (entry_offset dictionary (Suc k)) ?S =
        take (entry_offset dictionary k) ?S @ ?e k"
      using step [of k] take_add [of "entry_offset dictionary k"
        "entry_offset dictionary (Suc k) - entry_offset dictionary k" ?S]
      by (simp add: entry_text_def slice_def)
    with Suc step [of k] show ?case by simp
  qed (simp add: head)
  have cut: "take k (map ?e [0..<n]) = map ?e [0..<k]" if "k \<le> n" for k
    using that by (simp add: take_map)
  have "le_nat (slice (4 + 8 * k) (12 + 8 * k) dictionary) = length (concat (take k (map ?e [0..<n])))"
    if "k \<le> n" for k
    using prefix [OF that] by (simp add: cut [OF that] entry_offset_def [symmetric])
  moreover have "?S = concat (map ?e [0..<n])" using prefix [of n] terminal by simp
  ultimately show ?thesis using room head(1) by (simp add: dictionary_section_def)
qed

section \<open>The tokens\<close>

lemma length_chunks4: "length (chunks4 bs) = length bs div 4"
  by (induction bs rule: chunks4.induct) auto

lemma decided_tokens:
  assumes len: "length section_bytes = 4 * m"
    and rest: "ok \<Longrightarrow> \<forall>i<m. le_nat (slice (4 * i) (4 * i + 4) section_bytes) \<le> unat n"
  shows "decided ok (\<lambda>_. \<forall>i<m. le_nat (slice (4 * i) (4 * i + 4) section_bytes) \<le> unat n)
    (fold_r (check_token n) (enumerate 0 (chunks4 section_bytes)) ())"
proof -
  let ?t = "\<lambda>i. slice (4 * i) (4 * i + 4) section_bytes"
  have chunks: "length (chunks4 section_bytes) = m" "i < m \<Longrightarrow> chunks4 section_bytes ! i = ?t i" for i
    using len chunks4_nth [of m section_bytes i] by (simp_all add: length_chunks4)
  have enum: "enumerate 0 (chunks4 section_bytes) = map (\<lambda>i. (i, ?t i)) [0..<m]"
    by (rule nth_equalityI) (simp_all add: chunks nth_enumerate_eq)
  have four: "length (?t i) = 4" if "i < m" for i using that len by simp
  have "decided ok (\<lambda>_. \<forall>x\<in>set (map (\<lambda>i. (i, ?t i)) [0..<m]). le_nat (snd x) \<le> unat n)
      (fold_r (check_token n) (map (\<lambda>i. (i, ?t i)) [0..<m]) ())"
  proof (rule decided_fold [where P = "\<lambda>xs _. \<forall>x\<in>set xs. le_nat (snd x) \<le> unat n"])
    fix pre x post and s :: unit
    assume xs: "map (\<lambda>i. (i, ?t i)) [0..<m] = pre @ x # post" and P: "\<forall>x\<in>set pre. le_nat (snd x) \<le> unat n"
    have "x \<in> set (map (\<lambda>i. (i, ?t i)) [0..<m])" unfolding xs by simp
    then obtain i where i: "i < m" "x = (i, ?t i)" by auto
    have read: "read_u32 (?t i) 0 = Inr (le_word (?t i))"
      using four [OF i(1)] by (simp add: read_u32_def checked_add_usize_def usize_max_def get_slice_opt_def slice_def)
    have cmp: "le_word (?t i) > n \<longleftrightarrow> le_nat (?t i) > unat n"
      using unat_le_word(1) [OF four [OF i(1)]] by (simp add: word_less_nat_alt)
    have has: "ok \<Longrightarrow> le_nat (?t i) \<le> unat n" using rest i(1) by blast
    show "decided ok (\<lambda>_. \<forall>x\<in>set (pre @ [x]). le_nat (snd x) \<le> unat n) (check_token n x s)"
      using P i has by (auto simp: check_token_def read cmp not_less simp del: length_slice)
  qed simp
  then show ?thesis unfolding enum by (rule decided_mono) simp
qed

section \<open>The answer of the validation\<close>

lemma sections_read:
  assumes "range_in_region r (length bytes)"
  shows "slice_range_r bytes r = Inr (range_bytes bytes r)" and "length (range_bytes bytes r) = range_len r"
  using assms by (simp_all add: slice_range_r_def range_bytes_def range_in_region_def range_len_def)

lemma layout_facts:
  assumes "tenant_layout p n tenants toks" and c: "c = le_word (slice 0 4 (range_bytes (tp_bytes p) (tp_dictionary_range p)))"
  shows "range_in_region (tp_dictionary_range p) (length (tp_bytes p))"
    "range_in_region (tp_tokens_range p) (length (tp_bytes p))"
    "disjoint_sections (tp_dictionary_range p) (tp_tokens_range p)"
    "dictionary_section (range_bytes (tp_bytes p) (tp_dictionary_range p)) tenants"
    "length tenants = unat (c :: u32)"
    "\<forall>t\<in>set tenants. utf8_ok t" "sorted_wrt (<) tenants"
    "length (range_bytes (tp_bytes p) (tp_tokens_range p)) = 4 * n"
    "\<forall>i<n. le_nat (slice (4 * i) (4 * i + 4) (range_bytes (tp_bytes p) (tp_tokens_range p))) \<le> unat c"
proof -
  let ?D = "range_bytes (tp_bytes p) (tp_dictionary_range p)"
  show D: "dictionary_section ?D tenants" using assms(1) by (simp add: tenant_layout_def)
  have "length (slice 0 4 ?D) = 4" using D by (simp add: dictionary_section_def)
  from unat_le_word(1) [OF this] D show count: "length tenants = unat c"
    by (simp add: c dictionary_section_def)
  show "range_in_region (tp_dictionary_range p) (length (tp_bytes p))"
    "range_in_region (tp_tokens_range p) (length (tp_bytes p))"
    "disjoint_sections (tp_dictionary_range p) (tp_tokens_range p)"
    "\<forall>t\<in>set tenants. utf8_ok t" "sorted_wrt (<) tenants"
    "length (range_bytes (tp_bytes p) (tp_tokens_range p)) = 4 * n"
    "\<forall>i<n. le_nat (slice (4 * i) (4 * i + 4) (range_bytes (tp_bytes p) (tp_tokens_range p))) \<le> unat c"
    using assms(1) count by (auto simp: tenant_layout_def token_section_def)
qed

lemma decided_tenant_index:
  assumes len: "length (tp_bytes p) \<le> usize_max"
  shows "decided (\<exists>tenants toks. tenant_layout p (unat n) tenants toks)
    (\<lambda>ix. tenant_layout p (unat n) (tenant_dictionary ix)
       (map (\<lambda>i. unat (tenant_token ix i)) [0..<unat n]))
    (tenant_index_new p n)"
proof -
  let ?bytes = "tp_bytes p" and ?dr = "tp_dictionary_range p" and ?tr = "tp_tokens_range p"
  define ok where ok: "ok \<longleftrightarrow> (\<exists>tenants toks. tenant_layout p (unat n) tenants toks)"
  let ?D = "range_bytes ?bytes ?dr" and ?T = "range_bytes ?bytes ?tr"
  define c :: u32 where c: "c = le_word (slice 0 4 ?D)"
  note facts = layout_facts [OF _ c]
  have small: "unat (w :: u32) < 4294967296" for w using unsigned_less [of w] by simp
  have exp: "checked_mul_usize (unat n) 4 = Some (unat n * 4)"
    using small [of n] by (simp add: checked_mul_usize_def usize_max_def)
  have "decided ok (\<lambda>ix. tenant_layout p (unat n) (tenant_dictionary ix)
      (map (\<lambda>i. unat (tenant_token ix i)) [0..<unat n])) (tenant_index_new p n)"
  proof (cases "range_in_region ?dr (length ?bytes) \<and> range_in_region ?tr (length ?bytes) \<and>
      disjoint_sections ?dr ?tr \<and> length ?T = unat n * 4")
    case False
    then have "\<not> ok" using facts(1,2,3,8) unfolding ok by (metis mult.commute)
    moreover have "\<exists>s. tenant_index_new p n = Inl (corrupt s)"
      using False sections_read(2) [of ?tr ?bytes]
      by (auto simp: tenant_index_new_def validate_section_ranges_def range_in_region_def range_in_mapping_def
          disjoint_sections_def ranges_overlap_def not_le not_less exp)
    ultimately show ?thesis by auto
  next
    case True
    then have dr: "range_in_region ?dr (length ?bytes)" and tr: "range_in_region ?tr (length ?bytes)"
      and dj: "disjoint_sections ?dr ?tr" and T: "length ?T = unat n * 4" by simp_all
    have val: "validate_section_ranges p = Inr ()"
      using dr tr dj by (auto simp: validate_section_ranges_def range_in_region_def range_in_mapping_def
          disjoint_sections_def ranges_overlap_def not_less)
    have rl: "range_len ?tr = unat n * 4" using T sections_read(2) [OF tr] by simp
    have lenD: "length ?D \<le> usize_max" using len sections_read(2) [OF dr] dr
      by (auto simp: range_len_def range_in_region_def)
    have sect: "\<exists>tenants. dictionary_section ?D tenants \<and> length tenants = unat c \<and>
        (\<forall>t\<in>set tenants. utf8_ok t) \<and> sorted_wrt (<) tenants" if "ok"
      using facts(4-7) that unfolding ok by blast
    have adds: "checked_add_usize (unat c) 1 = Some (unat c + 1)"
      "checked_mul_usize (unat c + 1) 8 = Some ((unat c + 1) * 8)"
      "checked_add_usize 4 ((unat c + 1) * 8) = Some (12 + 8 * unat c)"
      "Option.bind (checked_mul_usize (unat c) 8) (checked_add_usize 4) = Some (4 + 8 * unat c)"
      using small [of c] by (simp_all add: checked_add_usize_def checked_mul_usize_def usize_max_def)
    have room: "12 + 8 * unat c \<le> length ?D" if "ok"
      using sect [OF that] by (auto simp: dictionary_section_def)
    have at0: "le_nat (slice 4 12 ?D) = 0" if "ok"
      using sect [OF that] by (auto simp: dictionary_section_def)
    have atn: "entry_offset ?D (unat c) = length ?D - (12 + 8 * unat c)" if "ok"
    proof -
      from sect [OF that] obtain ts where ts: "dictionary_section ?D ts" "length ts = unat c" by blast
      then have cut: "drop (12 + 8 * unat c) ?D = concat ts" by (simp add: dictionary_section_def)
      have "length ?D - (12 + 8 * unat c) = length (concat ts)"
        using arg_cong [OF cut, of length] by (simp only: length_drop)
      with ts show ?thesis by (simp add: dictionary_section_def entry_offset_def)
    qed
    have scan: "decided ok (\<lambda>s. scanned (fst ?dr + (12 + 8 * unat c)) ?D (unat c) [0..<unat c] s)
        (fold_r (scan_entry p ?D (drop (12 + 8 * unat c) ?D) (12 + 8 * unat c)) [0..<unat c]
          \<lparr>ds_entries = [], ds_previous_end = 0, ds_previous_value = None\<rparr>)"
      if fits: "12 + 8 * unat c \<le> length ?D" and zero: "entry_offset ?D 0 = 0"
    proof (rule decided_fold [where P = "scanned (fst ?dr + (12 + 8 * unat c)) ?D (unat c)"])
      fix pre k post s
      assume xs: "[0..<unat c] = pre @ k # post" and P: "scanned (fst ?dr + (12 + 8 * unat c)) ?D (unat c) pre s"
      have far: "fst ?dr + length ?D \<le> usize_max"
        using dr len sections_read(2) [OF dr] by (auto simp: range_in_region_def range_len_def)
      note k = upt_cut [OF xs]
      from decided_entry [OF lenD fits far sect P [unfolded k(1)] k(2)]
      show "decided ok (scanned (fst ?dr + (12 + 8 * unat c)) ?D (unat c) (pre @ [k]))
        (scan_entry p ?D (drop (12 + 8 * unat c) ?D) (12 + 8 * unat c) k s)"
        by (simp add: k(1))
    qed (simp add: scanned_def zero)
    have tokens: "decided ok (\<lambda>_. \<forall>i<unat n. le_nat (slice (4 * i) (4 * i + 4) ?T) \<le> unat c)
        (fold_r (check_token c) (enumerate 0 (chunks4 ?T)) ())"
      by (rule decided_tokens) (use T facts(9) ok in auto)
    have final: "tenant_layout p (unat n) (tenant_dictionary ix) (map (\<lambda>i. unat (tenant_token ix i)) [0..<unat n])"
      if fits: "12 + 8 * unat c \<le> length ?D" and zero: "entry_offset ?D 0 = 0"
        and terminal: "entry_offset ?D (unat c) = length ?D - (12 + 8 * unat c)"
        and s: "scanned (fst ?dr + (12 + 8 * unat c)) ?D (unat c) [0..<unat c] s"
        and toks: "\<forall>i<unat n. le_nat (slice (4 * i) (4 * i + 4) ?T) \<le> unat c"
        and ix: "ix = \<lparr>ti_bytes = ?bytes, ti_tokens_range = ?tr, ti_entries = ds_entries s, ti_node_count = n\<rparr>"
      for ix s
    proof -
      have "length (slice 0 4 ?D) = 4" using fits by simp
      from unat_le_word(1) [OF this] have head: "le_nat (slice 0 4 ?D) = unat c" by (simp add: c)
      have cut: "range_bytes ?bytes (fst ?dr + (12 + 8 * unat c) + a, fst ?dr + (12 + 8 * unat c) + b) =
          slice a b (drop (12 + 8 * unat c) ?D)" if "b \<le> length ?D - (12 + 8 * unat c)" for a b
        using that dr by (simp add: range_bytes_def slice_def drop_take range_in_region_def add_ac)
      have dict: "tenant_dictionary ix = map (entry_text ?D (unat c)) [0..<unat c]"
        using s by (auto simp: tenant_dictionary_def ix scanned_def entry_text_def cut)
      have tok: "unat (tenant_token ix i) = le_nat (slice (4 * i) (4 * i + 4) ?T)" if i: "i < unat n" for i
      proof -
        have "slice (4 * i) (4 * i + 4) ?T = slice (fst ?tr + 4 * i) (fst ?tr + 4 * i + 4) ?bytes"
          using i T tr slice_slice [of "4 * i + 4" "snd ?tr" "fst ?tr" "4 * i" ?bytes] sections_read(2) [OF tr]
          by (simp add: range_bytes_def add.assoc range_len_def)
        moreover have "length (slice (4 * i) (4 * i + 4) ?T) = 4" using i T by simp
        ultimately show ?thesis using unat_le_word(1) by (simp add: tenant_token_def ix Let_def)
      qed
      show ?thesis
        using dr tr dj scanned_section [OF s fits head zero terminal] s toks T
        by (auto simp: tenant_layout_def dict scanned_def token_section_def tok)
    qed
    show ?thesis
      unfolding tenant_index_new_def Let_def val exp sections_read(1) [OF dr] sections_read(1) [OF tr] rl
        rbind_Inr ok_or_simps
      apply (rule decided_if, simp)
      apply (rule decided_bind_u32 [OF lenD])
       apply (use room in fastforce)
      apply (simp only: add_0 c [symmetric] adds ok_or_simps rbind_Inr)
      apply (rule decided_bind_ok_or)
       apply (use room in \<open>fastforce simp: get_slice_opt_def\<close>)
      apply (rule decided_bind_u64 [OF lenD])
       apply (use room in fastforce)
      apply (rule decided_if)
       apply (use at0 in \<open>auto simp: le_word_def\<close>) []
      apply (rule decided_bind_u64 [OF lenD])
       apply (use room in fastforce)
      apply (rule decided_if)
      subgoal premises h for strings
        using h atn unat_le_word(2) [of "slice (4 + 8 * unat c) (12 + 8 * unat c) ?D"]
        by (auto simp: get_slice_opt_def entry_offset_def split: if_splits)
      subgoal premises h for strings
      proof -
        have fits: "12 + 8 * unat c \<le> length ?D" and str: "strings = drop (12 + 8 * unat c) ?D"
          using h by (auto simp: get_slice_opt_def slice_def split: if_splits)
        have zero: "entry_offset ?D 0 = 0"
          using h unat_le_word(2) [of "slice 4 12 ?D"] fits by (simp add: entry_offset_def)
        have terminal: "entry_offset ?D (unat c) = length ?D - (12 + 8 * unat c)"
          using h unat_le_word(2) [of "slice (4 + 8 * unat c) (12 + 8 * unat c) ?D"] str
          by (simp add: entry_offset_def)
        show ?thesis
          unfolding str
          by (rule decided_bind [OF scan [OF fits zero]], rule decided_bind [OF tokens])
            (simp add: final [OF fits zero terminal])
      qed
      done
  qed
  then show ?thesis by (simp only: ok)
qed

text \<open>
  C21: Opening the mapped tenant membership is exact. If the two sections are a dictionary of
  strictly ordered UTF-8 tenants and one token of it per node, the index opens and its lookups
  never fault: the tenant of a node is the one its token names, a node with token zero or outside
  the graph has none, and the membership test by binary search agrees for every string. If they
  are anything else, the index does not open and the error is a corrupt file, never a panic.
\<close>

theorem tenant_index_exact:
  assumes "length (tp_bytes p) \<le> usize_max"
  shows "case tenant_index_new p n of
      Inl f \<Rightarrow> (\<exists>reason. f = Err (CorruptFile reason)) \<and>
        (\<nexists>tenants toks. tenant_layout p (unat n) tenants toks)
    | Inr ix \<Rightarrow> \<exists>tenants toks. tenant_layout p (unat n) tenants toks \<and>
        (\<forall>i. tenant_for_node ix i = Inr (tenant_of tenants toks (unat i))) \<and>
        (\<forall>tenant i. tenant_index_contains ix tenant i = Inr (tenant_of tenants toks (unat i) = Some tenant))"
proof (cases "tenant_index_new p n")
  case (Inl f)
  with decided_tenant_index [OF assms, of n] show ?thesis by (simp add: decided_def)
next
  case (Inr ix)
  let ?toks = "map (\<lambda>i. unat (tenant_token ix i)) [0..<unat n]"
  have layout: "tenant_layout p (unat n) (tenant_dictionary ix) ?toks"
    using decided_tenant_index [OF assms, of n] Inr by (simp add: decided_def)
  note ok = tenant_index_new_ok [OF Inr assms]
  have "tenant_assignment ix i = tenant_of (tenant_dictionary ix) ?toks (unat i)" for i
    by (auto simp: tenant_assignment_def tenant_of_def ok(2) unat_eq_0)
  with layout Inr tenant_lookup_ok [OF ok(1)] show ?thesis by auto
qed

lemma sample_layout:
  "tenant_layout sample_tenants 1 tenants toks \<longleftrightarrow> tenants = [[97]] \<and> toks = [1]"
proof
  assume layout: "tenant_layout sample_tenants 1 tenants toks"
  then have d: "length tenants = 1" "concat tenants = [97]" and t: "length toks = 1" "toks ! 0 = 1"
    by (auto simp: tenant_layout_def sample_tenants_def range_bytes_def dictionary_section_def token_section_def
        slice_def le_nat_def dest!: sym [of "Suc 0" "length _"])
  then show "tenants = [[97]] \<and> toks = [1]" by (cases tenants; cases toks) auto
next
  assume "tenants = [[97]] \<and> toks = [1]"
  then show "tenant_layout sample_tenants 1 tenants toks"
    by (auto simp: tenant_layout_def sample_tenants_def range_bytes_def dictionary_section_def token_section_def
        slice_def le_nat_def range_in_region_def disjoint_sections_def utf8_ok.simps le_Suc_eq)
qed

text \<open>The sample opens; with overlapping sections it does not.\<close>

theorem tenant_index_exact_witness:
  "(\<exists>ix. tenant_index_new sample_tenants 1 = Inr ix \<and> tenant_for_node ix 0 = Inr (Some [97]) \<and>
      tenant_for_node ix 1 = Inr None \<and> tenant_index_contains ix [97] 0 = Inr True \<and>
      tenant_index_contains ix [98] 0 = Inr False) \<and>
   (\<exists>reason. tenant_index_new (sample_tenants \<lparr>tp_tokens_range := (0, 4)\<rparr>) 1 = Inl (Err (CorruptFile reason)))"
proof -
  have len: "length (tp_bytes sample_tenants) \<le> usize_max"
    "length (tp_bytes (sample_tenants \<lparr>tp_tokens_range := (0, 4)\<rparr>)) \<le> usize_max"
    by (simp_all add: sample_tenants_def usize_max_def)
  obtain ix where ix: "tenant_index_new sample_tenants 1 = Inr ix" using sample_tenants_valid by blast
  with tenant_index_exact [OF len(1), of 1] have
    "\<forall>i. tenant_for_node ix i = Inr (tenant_of [[97]] [1] (unat i))"
    "\<forall>tenant i. tenant_index_contains ix tenant i = Inr (tenant_of [[97]] [1] (unat i) = Some tenant)"
    by (auto simp: sample_layout [unfolded One_nat_def])
  then have "tenant_for_node ix 0 = Inr (Some [97]) \<and> tenant_for_node ix 1 = Inr None \<and>
      tenant_index_contains ix [97] 0 = Inr True \<and> tenant_index_contains ix [98] 0 = Inr False"
    by (simp add: tenant_of_def)
  moreover have "\<not> tenant_layout (sample_tenants \<lparr>tp_tokens_range := (0, 4)\<rparr>) 1 tenants toks" for tenants toks
    by (simp add: tenant_layout_def sample_tenants_def disjoint_sections_def)
  ultimately show ?thesis
    using ix tenant_index_exact [OF len(2), of 1] by (auto split: sum.splits)
qed

end
