(* ===== verification/GqlLexer.thy ===== *)
theory GqlLexer
  imports Prelude
begin

text \<open>
  The lexer of the query language (\<open>graph/src/gql/lexer.rs\<close>, \<open>gql/errors.rs\<close>). A \<open>char\<close> is its
  scalar value and a string the list of its characters; positions are byte offsets of the UTF-8
  form, and slicing a string at a byte that is not a character boundary panics. Unicode's
  character classes beyond ASCII, the debug form of a character and the conversion of decimals to
  \<open>f64\<close> (as its bits) come from the standard library's tables, a record of functions.
\<close>

section \<open>Characters and strings\<close>

type_synonym rchar = nat
type_synonym rtext = "rchar list"
type_synonym f64 = u64

record std_tables =
  uc_whitespace :: "rchar \<Rightarrow> bool"
  uc_alphabetic :: "rchar \<Rightarrow> bool"
  uc_numeric :: "rchar \<Rightarrow> bool"
  char_debug :: "rchar \<Rightarrow> rtext"
  parse_f64 :: "rtext \<Rightarrow> rtext + f64"

definition lit :: "string \<Rightarrow> rtext" where
  "lit s = map of_char s"

definition len_utf8 :: "rchar \<Rightarrow> usize" where
  "len_utf8 c = (if c < 128 then 1 else if c < 2048 then 2 else if c < 65536 then 3 else 4)"

definition byte_len :: "rtext \<Rightarrow> usize" where
  "byte_len s = sum_list (map len_utf8 s)"

fun str_from :: "rtext \<Rightarrow> usize \<Rightarrow> rtext option" where
  "str_from s 0 = Some s"
| "str_from [] (Suc n) = None"
| "str_from (c # s) (Suc n) = (if len_utf8 c \<le> Suc n then str_from s (Suc n - len_utf8 c) else None)"

fun str_upto :: "rtext \<Rightarrow> usize \<Rightarrow> rtext option" where
  "str_upto s 0 = Some []"
| "str_upto [] (Suc n) = None"
| "str_upto (c # s) (Suc n) =
     (if len_utf8 c \<le> Suc n then map_option ((#) c) (str_upto s (Suc n - len_utf8 c)) else None)"

text \<open>\<open>input[start..stop]\<close>\<close>

definition str_slice_r :: "rtext \<Rightarrow> usize \<Rightarrow> usize \<Rightarrow> ('e, rtext) rust_result" where
  "str_slice_r s start stop =
     (if start \<le> stop
      then ok_or Panic (Option.bind (str_from s start) (\<lambda>t. str_upto t (stop - start)))
      else Inl Panic)"

definition is_ascii_digit :: "rchar \<Rightarrow> bool" where
  "is_ascii_digit c \<longleftrightarrow> 48 \<le> c \<and> c \<le> 57"

definition is_ascii_alphabetic :: "rchar \<Rightarrow> bool" where
  "is_ascii_alphabetic c \<longleftrightarrow> (65 \<le> c \<and> c \<le> 90) \<or> (97 \<le> c \<and> c \<le> 122)"

definition is_whitespace :: "std_tables \<Rightarrow> rchar \<Rightarrow> bool" where
  "is_whitespace u c \<longleftrightarrow> c = 32 \<or> (9 \<le> c \<and> c \<le> 13) \<or> (127 < c \<and> uc_whitespace u c)"

definition is_alphabetic :: "std_tables \<Rightarrow> rchar \<Rightarrow> bool" where
  "is_alphabetic u c \<longleftrightarrow> is_ascii_alphabetic c \<or> (127 < c \<and> uc_alphabetic u c)"

definition is_alphanumeric :: "std_tables \<Rightarrow> rchar \<Rightarrow> bool" where
  "is_alphanumeric u c \<longleftrightarrow> is_alphabetic u c \<or> is_ascii_digit c \<or> (127 < c \<and> uc_numeric u c)"

definition to_ascii_uppercase :: "rtext \<Rightarrow> rtext" where
  "to_ascii_uppercase s = map (\<lambda>c. if 97 \<le> c \<and> c \<le> 122 then c - 32 else c) s"

definition to_ascii_lowercase :: "rtext \<Rightarrow> rtext" where
  "to_ascii_lowercase s = map (\<lambda>c. if 65 \<le> c \<and> c \<le> 90 then c + 32 else c) s"

section \<open>Errors and tokens\<close>

record gql_span =
  sp_start :: u32
  sp_end :: u32

definition span :: "usize \<Rightarrow> usize \<Rightarrow> gql_span" where
  "span start stop = \<lparr>sp_start = word_of_nat start, sp_end = word_of_nat stop\<rparr>"

datatype gql_error_kind = Syntax rtext | Unsupported rtext | Bind rtext

datatype gql_error = GqlError gql_error_kind gql_span

definition syntax_error :: "gql_span \<Rightarrow> rtext \<Rightarrow> gql_error fault" where
  "syntax_error sp message = Err (GqlError (Syntax message) sp)"

definition unsupported_error :: "gql_span \<Rightarrow> rtext \<Rightarrow> gql_error fault" where
  "unsupported_error sp feature = Err (GqlError (Unsupported feature) sp)"

type_synonym 'a gql_result = "(gql_error, 'a) rust_result"

datatype (plugins only: size) tok_kind =
    TLParen | TRParen | TLBracket | TRBracket | TLBrace | TRBrace | TColon | TComma | TPipe | TDot | TDollar | TStar
  | TDotDot | TDash | TArrowRight | TArrowLeft | TEq | TNeq | TLt | TLte | TGt | TGte | TIdent | TString | TInt | TFloat
  | TMatch | TOptional | TCreate | TSet | TRemove | TDetach | TMerge | TOn | TDelete | TWhere | TReturn | TDistinct
  | TOrder | TBy | TAsc | TDesc | TSkip | TLimit | TAnd | TOr | TNot | TIn | TIs | TNull | TTrue | TFalse | TAs | TEof

record gql_token =
  tk_kind :: tok_kind
  tk_span :: gql_span
  tk_text :: rtext

definition MAX_QUERY_BYTES :: usize where "MAX_QUERY_BYTES = 256 * 1024"
definition MAX_TOKENS :: usize where "MAX_TOKENS = 32 * 1024"

definition make_token :: "rtext \<Rightarrow> usize \<Rightarrow> tok_kind \<Rightarrow> usize \<Rightarrow> gql_token gql_result" where
  "make_token input start kind pos =
     rbind (str_slice_r input start pos) (\<lambda>text.
       Inr \<lparr>tk_kind = kind, tk_span = span start pos, tk_text = text\<rparr>)"

section \<open>Scanning\<close>

text \<open>The lexer state is the byte position; operations return the next one.\<close>

definition peek_char :: "rtext \<Rightarrow> usize \<Rightarrow> rchar option gql_result" where
  "peek_char input pos =
     rbind (ok_or Panic (str_from input pos)) (\<lambda>s. Inr (case s of [] \<Rightarrow> None | c # _ \<Rightarrow> Some c))"

definition peek_next_char :: "rtext \<Rightarrow> usize \<Rightarrow> rchar option gql_result" where
  "peek_next_char input pos =
     rbind (ok_or Panic (str_from input pos)) (\<lambda>s. Inr (case s of c # d # _ \<Rightarrow> Some d | _ \<Rightarrow> None))"

definition bump_char :: "rtext \<Rightarrow> usize \<Rightarrow> usize gql_result" where
  "bump_char input pos =
     rbind (peek_char input pos) (\<lambda>r. Inr (case r of None \<Rightarrow> pos | Some c \<Rightarrow> pos + len_utf8 c))"

definition consume_char :: "rtext \<Rightarrow> rchar \<Rightarrow> usize \<Rightarrow> (bool \<times> usize) gql_result" where
  "consume_char input expected pos =
     rbind (peek_char input pos) (\<lambda>r.
       if r = Some expected then rbind (bump_char input pos) (\<lambda>pos. Inr (True, pos)) else Inr (False, pos))"

lemma len_utf8_pos [simp]: "0 < len_utf8 c"
  by (simp add: len_utf8_def)

lemma byte_len_simps [simp]:
  "byte_len [] = 0" "byte_len (c # s) = len_utf8 c + byte_len s" "byte_len (s @ t) = byte_len s + byte_len t"
  by (simp_all add: byte_len_def)

lemma byte_len_0 [simp]: "byte_len s = 0 \<longleftrightarrow> s = []" "0 = byte_len s \<longleftrightarrow> s = []"
  by (cases s; simp)+

text \<open>A position is a character boundary exactly when it is the length of a prefix.\<close>

lemma str_from_Some: "str_from s n = Some t \<longleftrightarrow> (\<exists>p. s = p @ t \<and> n = byte_len p)"
proof (induction s n rule: str_from.induct)
  case (1 s)
  show ?case by auto
next
  case (2 n)
  show ?case by auto
next
  case (3 c s n)
  show ?case
  proof (cases "len_utf8 c \<le> Suc n")
    case True
    then have "str_from (c # s) (Suc n) = Some t \<longleftrightarrow> (\<exists>p. s = p @ t \<and> Suc n - len_utf8 c = byte_len p)" using 3 by simp
    also have "\<dots> \<longleftrightarrow> (\<exists>p. c # s = p @ t \<and> Suc n = byte_len p)"
      using True by (fastforce simp: Cons_eq_append_conv)
    finally show ?thesis .
  next
    case False
    then show ?thesis by (auto simp: Cons_eq_append_conv)
  qed
qed

lemma str_from_append [simp]: "str_from (p @ t) (byte_len p) = Some t"
  by (auto simp: str_from_Some)

lemma peek_char_progress:
  assumes "peek_char input pos = Inr (Some c)"
  shows "byte_len input - (pos + len_utf8 c) < byte_len input - pos"
proof -
  have "pos + len_utf8 c \<le> byte_len input"
    using assms by (auto simp: peek_char_def str_from_Some ok_or_def split: option.splits list.splits)
  then show ?thesis using len_utf8_pos [of c] by linarith
qed

function take_while :: "rtext \<Rightarrow> (rchar \<Rightarrow> bool) \<Rightarrow> usize \<Rightarrow> usize gql_result" where
  "take_while input p pos =
     rbind (peek_char input pos) (\<lambda>r. case r of
       None \<Rightarrow> Inr pos
     | Some c \<Rightarrow> if p c then rbind (bump_char input pos) (take_while input p) else Inr pos)"
  by pat_completeness auto
termination
  by (relation "measure (\<lambda>(input, p, pos). byte_len input - pos)")
    (auto simp: bump_char_def dest: peek_char_progress)

declare take_while.simps [simp del]

definition skip_whitespace :: "std_tables \<Rightarrow> rtext \<Rightarrow> usize \<Rightarrow> usize gql_result" where
  "skip_whitespace u input pos = take_while input (is_whitespace u) pos"

text \<open>The end of a quoted string after its opening quote, none when the input ends first.\<close>

function string_end :: "rtext \<Rightarrow> rchar \<Rightarrow> bool \<Rightarrow> usize \<Rightarrow> (bool \<times> usize) gql_result" where
  "string_end input quote escaped pos =
     rbind (peek_char input pos) (\<lambda>r. case r of
       None \<Rightarrow> Inr (False, pos)
     | Some c \<Rightarrow>
         rbind (bump_char input pos) (\<lambda>pos.
           if escaped then string_end input quote False pos
           else if c = 92 then string_end input quote True pos
           else if c = quote then Inr (True, pos)
           else string_end input quote False pos))"
  by pat_completeness auto
termination
  by (relation "measure (\<lambda>(input, quote, escaped, pos). byte_len input - pos)")
    (auto simp: bump_char_def dest: peek_char_progress)

declare string_end.simps [simp del]

definition string_token :: "rtext \<Rightarrow> usize \<Rightarrow> rchar \<Rightarrow> usize \<Rightarrow> (gql_token \<times> usize) gql_result" where
  "string_token input start quote pos =
     rbind (bump_char input pos) (\<lambda>pos.
     rbind (string_end input quote False pos) (\<lambda>(closed, pos).
       if closed then rbind (make_token input start TString pos) (\<lambda>t. Inr (t, pos))
       else Inl (syntax_error (span start pos) (lit ''unterminated string literal''))))"

definition number_token :: "rtext \<Rightarrow> usize \<Rightarrow> usize \<Rightarrow> (gql_token \<times> usize) gql_result" where
  "number_token input start pos =
     rbind (take_while input is_ascii_digit pos) (\<lambda>pos.
     rbind (peek_char input pos) (\<lambda>dot.
     rbind (if dot = Some 46 then peek_next_char input pos else Inr None) (\<lambda>after.
       if dot = Some 46 \<and> after \<noteq> Some 46 then
         rbind (bump_char input pos) (\<lambda>digits_start.
         rbind (take_while input is_ascii_digit digits_start) (\<lambda>pos.
           if digits_start = pos then
             Inl (syntax_error (span start pos) (lit ''float literal requires digits after decimal point''))
           else rbind (make_token input start TFloat pos) (\<lambda>t. Inr (t, pos))))
       else rbind (make_token input start TInt pos) (\<lambda>t. Inr (t, pos)))))"

definition is_ident_start :: "std_tables \<Rightarrow> rchar \<Rightarrow> bool" where
  "is_ident_start u c \<longleftrightarrow> c = 95 \<or> is_alphabetic u c"

definition is_ident_continue :: "std_tables \<Rightarrow> rchar \<Rightarrow> bool" where
  "is_ident_continue u c \<longleftrightarrow> c = 95 \<or> is_alphanumeric u c"

definition keyword_table :: "(string \<times> tok_kind) list" where
  "keyword_table = [(''MATCH'', TMatch), (''OPTIONAL'', TOptional), (''CREATE'', TCreate), (''SET'', TSet),
     (''REMOVE'', TRemove), (''DETACH'', TDetach), (''MERGE'', TMerge), (''ON'', TOn), (''DELETE'', TDelete),
     (''WHERE'', TWhere), (''RETURN'', TReturn), (''DISTINCT'', TDistinct), (''ORDER'', TOrder), (''BY'', TBy),
     (''ASC'', TAsc), (''DESC'', TDesc), (''SKIP'', TSkip), (''LIMIT'', TLimit), (''AND'', TAnd), (''OR'', TOr),
     (''NOT'', TNot), (''IN'', TIn), (''IS'', TIs), (''NULL'', TNull), (''TRUE'', TTrue), (''FALSE'', TFalse),
     (''AS'', TAs)]"

definition word_kind :: "rtext \<Rightarrow> tok_kind" where
  "word_kind text = opt_get_or TIdent (map_of (map (\<lambda>(k, v). (lit k, v)) keyword_table) (to_ascii_uppercase text))"

definition ident_or_keyword :: "std_tables \<Rightarrow> rtext \<Rightarrow> usize \<Rightarrow> usize \<Rightarrow> (gql_token \<times> usize) gql_result" where
  "ident_or_keyword u input start pos =
     rbind (bump_char input pos) (\<lambda>pos.
     rbind (take_while input (is_ident_continue u) pos) (\<lambda>pos.
     rbind (str_slice_r input start pos) (\<lambda>text.
     rbind (make_token input start (word_kind text) pos) (\<lambda>t. Inr (t, pos)))))"

text \<open>Tokens of one character, and those that a following character may extend.\<close>

definition single_kind :: "rchar \<Rightarrow> tok_kind option" where
  "single_kind = map_of (map (\<lambda>(c, k). (of_char c, k))
     [(CHR ''('', TLParen), (CHR '')'', TRParen), (CHR ''['', TLBracket), (CHR '']'', TRBracket),
      (CHR ''{'', TLBrace), (CHR ''}'', TRBrace), (CHR '':'', TColon), (CHR '','', TComma), (CHR ''|'', TPipe),
      (CHR ''$'', TDollar), (CHR ''*'', TStar), (CHR ''='', TEq)])"

definition extensions :: "rchar \<Rightarrow> ((rchar \<times> tok_kind) list \<times> tok_kind) option" where
  "extensions c =
     (if c = of_char (CHR ''-'') then Some ([(of_char (CHR ''>''), TArrowRight)], TDash)
      else if c = of_char (CHR ''<'') then
        Some ([(of_char (CHR ''-''), TArrowLeft), (of_char (CHR ''=''), TLte), (of_char (CHR ''>''), TNeq)], TLt)
      else if c = of_char (CHR ''>'') then Some ([(of_char (CHR ''=''), TGte)], TGt)
      else if c = of_char (CHR ''.'') then Some ([(of_char (CHR ''.''), TDotDot)], TDot)
      else None)"

primrec extended_token ::
  "rtext \<Rightarrow> usize \<Rightarrow> (rchar \<times> tok_kind) list \<Rightarrow> tok_kind \<Rightarrow> usize \<Rightarrow> (gql_token \<times> usize) gql_result" where
  "extended_token input start [] kind pos = rbind (make_token input start kind pos) (\<lambda>t. Inr (t, pos))"
| "extended_token input start (x # xs) kind pos =
     rbind (consume_char input (fst x) pos) (\<lambda>(taken, pos).
       if taken then rbind (make_token input start (snd x) pos) (\<lambda>t. Inr (t, pos))
       else extended_token input start xs kind pos)"

definition next_token :: "std_tables \<Rightarrow> rtext \<Rightarrow> usize \<Rightarrow> (gql_token \<times> usize) gql_result" where
  "next_token u input pos =
     rbind (skip_whitespace u input pos) (\<lambda>start.
     rbind (peek_char input start) (\<lambda>r. case r of
       None \<Rightarrow> Inr (\<lparr>tk_kind = TEof, tk_span = span start start, tk_text = []\<rparr>, start)
     | Some c \<Rightarrow>
         (case single_kind c of
            Some kind \<Rightarrow>
              rbind (bump_char input start) (\<lambda>pos. rbind (make_token input start kind pos) (\<lambda>t. Inr (t, pos)))
          | None \<Rightarrow>
         (case extensions c of
            Some (options, kind) \<Rightarrow> rbind (bump_char input start) (extended_token input start options kind)
          | None \<Rightarrow>
              if c = 39 \<or> c = 34 then string_token input start c start
              else if is_ascii_digit c then number_token input start start
              else if is_ident_start u c then ident_or_keyword u input start start
              else Inl (syntax_error (span start (start + len_utf8 c))
                (lit ''unexpected character '' @ char_debug u c))))))"

function tokenize_loop :: "std_tables \<Rightarrow> rtext \<Rightarrow> usize \<Rightarrow> gql_token list \<Rightarrow> gql_token list gql_result" where
  "tokenize_loop u input pos tokens =
     (if length tokens \<ge> MAX_TOKENS then
        Inl (syntax_error (span pos pos) (lit ''query exceeds the maximum GQL token count''))
      else
        rbind (next_token u input pos) (\<lambda>(token, pos).
          if tk_kind token = TEof then Inr (tokens @ [token])
          else tokenize_loop u input pos (tokens @ [token])))"
  by pat_completeness auto
termination
  by (relation "measure (\<lambda>(u, input, pos, tokens). MAX_TOKENS - length tokens)") auto

declare tokenize_loop.simps [simp del]

definition tokenize :: "std_tables \<Rightarrow> rtext \<Rightarrow> gql_token list gql_result" where
  "tokenize u input =
     (if byte_len input > MAX_QUERY_BYTES then
        Inl (syntax_error (span MAX_QUERY_BYTES (byte_len input)) (lit ''query exceeds the maximum GQL length''))
      else tokenize_loop u input 0 [])"

section \<open>Lexical grammar\<close>

text \<open>The body of a string: no unescaped quote, no open escape at its end.\<close>

fun string_body :: "rchar \<Rightarrow> bool \<Rightarrow> rtext \<Rightarrow> bool" where
  "string_body q escaped [] = (\<not> escaped)"
| "string_body q True (c # s) = string_body q False s"
| "string_body q False (c # s) = (c \<noteq> q \<and> string_body q (c = 92) s)"

definition starts :: "(rchar \<Rightarrow> bool) \<Rightarrow> rtext \<Rightarrow> bool" where
  "starts p s \<longleftrightarrow> (case s of [] \<Rightarrow> False | c # _ \<Rightarrow> p c)"

lemma starts_simps [simp]: "\<not> starts p []" "starts p (c # s) \<longleftrightarrow> p c"
  by (simp_all add: starts_def)

text \<open>\<open>t\<close> is a token of kind \<open>k\<close> when \<open>rest\<close> follows it.\<close>

inductive lexeme :: "std_tables \<Rightarrow> tok_kind \<Rightarrow> rtext \<Rightarrow> rtext \<Rightarrow> bool" for u where
  single: "single_kind c = Some k \<Longrightarrow> lexeme u k [c] rest"
| extended: "extensions c = Some (options, k) \<Longrightarrow> map_of options d = Some k' \<Longrightarrow> lexeme u k' [c, d] rest"
| unextended: "extensions c = Some (options, k) \<Longrightarrow> \<not> starts (\<lambda>d. map_of options d \<noteq> None) rest \<Longrightarrow> lexeme u k [c] rest"
| quoted: "q = 39 \<or> q = 34 \<Longrightarrow> string_body q False b \<Longrightarrow> lexeme u TString (q # b @ [q]) rest"
| integer: "ds \<noteq> [] \<Longrightarrow> list_all is_ascii_digit ds \<Longrightarrow> \<not> starts is_ascii_digit rest \<Longrightarrow>
    \<not> starts (\<lambda>c. c = 46) rest \<or> starts (\<lambda>c. c = 46) (tl rest) \<Longrightarrow> lexeme u TInt ds rest"
| decimal: "ds \<noteq> [] \<Longrightarrow> list_all is_ascii_digit ds \<Longrightarrow> es \<noteq> [] \<Longrightarrow> list_all is_ascii_digit es \<Longrightarrow>
    \<not> starts is_ascii_digit rest \<Longrightarrow> lexeme u TFloat (ds @ 46 # es) rest"
| word: "is_ident_start u c \<Longrightarrow> \<not> is_whitespace u c \<Longrightarrow> list_all (is_ident_continue u) cs \<Longrightarrow> \<not> starts (is_ident_continue u) rest \<Longrightarrow>
    lexeme u (word_kind (c # cs)) (c # cs) rest"

text \<open>A text from byte \<open>n\<close> on: whitespace, a token, and so on to the end marker.\<close>

inductive lexes :: "std_tables \<Rightarrow> usize \<Rightarrow> rtext \<Rightarrow> gql_token list \<Rightarrow> bool" for u where
  finish: "list_all (is_whitespace u) w \<Longrightarrow>
    lexes u n w [\<lparr>tk_kind = TEof, tk_span = span (n + byte_len w) (n + byte_len w), tk_text = []\<rparr>]"
| step: "list_all (is_whitespace u) w \<Longrightarrow> lexeme u k t rest \<Longrightarrow> lexes u (n + byte_len w + byte_len t) rest ts \<Longrightarrow>
    lexes u n (w @ t @ rest)
      (\<lparr>tk_kind = k, tk_span = span (n + byte_len w) (n + byte_len w + byte_len t), tk_text = t\<rparr> # ts)"

section \<open>Scanning from a boundary\<close>

lemma peek_at [simp]: "peek_char (p @ s) (byte_len p) = Inr (case s of [] \<Rightarrow> None | c # _ \<Rightarrow> Some c)"
  by (simp add: peek_char_def)

lemma peek_next_at [simp]:
  "peek_next_char (p @ s) (byte_len p) = Inr (case s of c # d # _ \<Rightarrow> Some d | _ \<Rightarrow> None)"
  by (simp add: peek_next_char_def)

lemma bump_at [simp]: "bump_char (p @ c # s) (byte_len p) = Inr (byte_len (p @ [c]))"
  by (simp add: bump_char_def)

lemma str_upto_append [simp]: "str_upto (t @ s) (byte_len t) = Some t"
proof (induction t)
  case (Cons c t)
  have "byte_len (c # t) = Suc (byte_len (c # t) - 1)" using len_utf8_pos [of c] by simp
  then obtain n where n: "byte_len (c # t) = Suc n" by metis
  then have "Suc n - len_utf8 c = byte_len t" "len_utf8 c \<le> Suc n" by simp_all
  with Cons n show ?case by simp
qed simp

lemma slice_at [simp]: "str_slice_r (p @ t @ s) (byte_len p) (byte_len p + byte_len t) = Inr t"
  by (simp add: str_slice_r_def)

lemma token_at [simp]:
  "make_token (p @ t @ s) (byte_len p) k (byte_len p + byte_len t) =
    Inr \<lparr>tk_kind = k, tk_span = span (byte_len p) (byte_len p + byte_len t), tk_text = t\<rparr>"
  by (simp add: make_token_def)

lemma take_while_at: "take_while (p @ s) f (byte_len p) = Inr (byte_len (p @ takeWhile f s))"
proof (induction s arbitrary: p)
  case Nil
  show ?case by (subst take_while.simps) (use peek_at [of p "[]"] in simp)
next
  case (Cons c s)
  show ?case
  proof (cases "f c")
    case True
    then show ?thesis using Cons [of "p @ [c]"] by (subst take_while.simps) simp
  next
    case False
    then show ?thesis by (subst take_while.simps) simp
  qed
qed

lemma string_end_Cons:
  "string_end (p @ c # s) q esc (byte_len p) =
    (if \<not> esc \<and> c \<noteq> 92 \<and> c = q then Inr (True, byte_len (p @ [c]))
     else string_end ((p @ [c]) @ s) q (\<not> esc \<and> c = 92) (byte_len (p @ [c])))"
  by (subst string_end.simps) auto

lemma string_end_closed:
  "q \<noteq> 92 \<Longrightarrow> string_body q esc b \<Longrightarrow>
    string_end (p @ b @ q # rest) q esc (byte_len p) = Inr (True, byte_len (p @ b @ [q]))"
proof (induction b arbitrary: p esc)
  case Nil
  then show ?case by (simp add: string_end_Cons)
next
  case (Cons c b)
  then show ?case using Cons.IH [of _ "p @ [c]"] string_end_Cons [of p c "b @ q # rest" q esc]
    by (cases esc) (auto simp: add.assoc)
qed

lemma string_end_cases:
  "q \<noteq> 92 \<Longrightarrow>
    (\<exists>b rest. s = b @ q # rest \<and> string_body q esc b) \<or>
    string_end (p @ s) q esc (byte_len p) = Inr (False, byte_len (p @ s))"
proof (induction s arbitrary: p esc)
  case Nil
  show ?case by (subst string_end.simps) (use peek_at [of p "[]"] in simp)
next
  case (Cons c s)
  show ?case
  proof (cases "\<not> esc \<and> c = q")
    case True
    then have "c # s = [] @ q # s \<and> string_body q esc []" by simp
    then show ?thesis by blast
  next
    case False
    from Cons.IH [OF Cons.prems, of "\<not> esc \<and> c = 92" "p @ [c]"] show ?thesis
    proof (elim disjE exE conjE)
      fix b rest assume "s = b @ q # rest" "string_body q (\<not> esc \<and> c = 92) b"
      then have "c # s = (c # b) @ q # rest \<and> string_body q esc (c # b)" using False by (cases esc) auto
      then show ?thesis by blast
    qed (use False string_end_Cons [of p c s q esc] in auto)
  qed
qed

section \<open>One token\<close>

lemma extended_token_at:
  "extended_token (p @ t @ s) (byte_len p) options k (byte_len p + byte_len t) =
    (case s of [] \<Rightarrow> Inr (\<lparr>tk_kind = k, tk_span = span (byte_len p) (byte_len p + byte_len t), tk_text = t\<rparr>, byte_len p + byte_len t)
     | d # rest \<Rightarrow>
        (case map_of options d of
           None \<Rightarrow> Inr (\<lparr>tk_kind = k, tk_span = span (byte_len p) (byte_len p + byte_len t), tk_text = t\<rparr>, byte_len p + byte_len t)
         | Some k' \<Rightarrow> Inr (\<lparr>tk_kind = k', tk_span = span (byte_len p) (byte_len p + byte_len (t @ [d])), tk_text = t @ [d]\<rparr>,
             byte_len p + byte_len (t @ [d]))))"
proof (induction options)
  case Nil
  show ?case by (simp split: list.split)
next
  case (Cons x options)
  have peek: "peek_char (p @ t @ s) (byte_len p + byte_len t) = Inr (case s of [] \<Rightarrow> None | c # _ \<Rightarrow> Some c)"
    using peek_at [of "p @ t" s] by simp
  show ?case
  proof (cases s)
    case Nil
    with Cons peek show ?thesis by (simp add: consume_char_def)
  next
    case (Cons d rest)
    have bump: "bump_char (p @ t @ d # rest) (byte_len p + byte_len t) = Inr (byte_len p + byte_len (t @ [d]))"
      using bump_at [of "p @ t" d rest] by simp
    show ?thesis
      using Cons.IH peek bump token_at [of p "t @ [d]" rest k] token_at [of p "t @ [d]" rest "snd x"] Cons
      by (cases "d = fst x") (auto simp: consume_char_def)
  qed
qed

lemma single_kind_dom:
  "single_kind c \<noteq> None \<longleftrightarrow> c \<in> {40, 41, 91, 93, 123, 125, 58, 44, 124, 36, 42, 61}"
  by (simp add: single_kind_def map_of_eq_None_iff)

lemma extensions_dom: "extensions c \<noteq> None \<longleftrightarrow> c \<in> {45, 60, 62, 46}"
  by (simp add: extensions_def)

lemma char_classes:
  "single_kind c = Some k \<Longrightarrow> \<not> is_whitespace u c"
  "extensions c = Some x \<Longrightarrow> \<not> is_whitespace u c \<and> single_kind c = None"
  "c = 39 \<or> c = 34 \<Longrightarrow> \<not> is_whitespace u c \<and> single_kind c = None \<and> extensions c = None \<and> \<not> is_ascii_digit c"
  "is_ascii_digit c \<Longrightarrow> \<not> is_whitespace u c \<and> single_kind c = None \<and> extensions c = None \<and> c \<noteq> 39 \<and> c \<noteq> 34 \<and> c \<noteq> 46"
  "is_ident_start u c \<Longrightarrow> single_kind c = None \<and> extensions c = None \<and> c \<noteq> 39 \<and> c \<noteq> 34 \<and> \<not> is_ascii_digit c"
proof -
  note cls = is_whitespace_def is_ascii_digit_def is_ident_start_def is_alphabetic_def is_ascii_alphabetic_def
  have s: "single_kind c = None \<longleftrightarrow> c \<notin> {40, 41, 91, 93, 123, 125, 58, 44, 124, 36, 42, 61}"
    using single_kind_dom [of c] by blast
  have x: "extensions c = None \<longleftrightarrow> c \<notin> {45, 60, 62, 46}" using extensions_dom [of c] by blast
  show "\<not> is_whitespace u c" if "single_kind c = Some k"
    using that single_kind_dom [of c] by (auto simp: cls)
  show "\<not> is_whitespace u c \<and> single_kind c = None" if "extensions c = Some x"
    using that extensions_dom [of c] unfolding s by (auto simp: cls)
  show "\<not> is_whitespace u c \<and> single_kind c = None \<and> extensions c = None \<and> \<not> is_ascii_digit c" if "c = 39 \<or> c = 34"
    using that unfolding s x by (auto simp: cls)
  show "\<not> is_whitespace u c \<and> single_kind c = None \<and> extensions c = None \<and> c \<noteq> 39 \<and> c \<noteq> 34 \<and> c \<noteq> 46"
    if "is_ascii_digit c" using that unfolding s x by (auto simp: cls)
  show "single_kind c = None \<and> extensions c = None \<and> c \<noteq> 39 \<and> c \<noteq> 34 \<and> \<not> is_ascii_digit c"
    if "is_ident_start u c"
  proof -
    have "c = 95 \<or> (65 \<le> c \<and> c \<le> 90) \<or> (97 \<le> c \<and> c \<le> 122) \<or> 127 < c" using that by (auto simp: cls)
    then have "c \<in> {95} \<union> {65..90} \<union> {97..122} \<union> {128..}" by auto
    then have out: "c \<notin> A" if "({95} \<union> {65..90} \<union> {97..122} \<union> {128..}) \<inter> A = {}" for A
      using that by (meson disjoint_iff)
    have "c \<notin> {40, 41, 91, 93, 123, 125, 58, 44, 124, 36, 42, 61}" by (rule out) simp
    moreover have "c \<notin> {45, 60, 62, 46}" by (rule out) simp
    moreover have "c \<noteq> 39" "c \<noteq> 34" using out [of "{39}"] out [of "{34}"] by simp_all
    moreover have "c \<notin> {48..57}" by (rule out) auto
    then have "\<not> is_ascii_digit c" by (simp add: is_ascii_digit_def)
    ultimately show ?thesis unfolding s x by (intro conjI)
  qed
qed

lemma lexeme_first:
  assumes "lexeme u k t rest"
  shows "\<exists>c t'. t = c # t' \<and> \<not> is_whitespace u c"
  using assms
proof cases
  case (single c)
  then show ?thesis using char_classes(1) by blast
next
  case (extended c options k0 d)
  then show ?thesis using char_classes(2) by blast
next
  case (unextended c options)
  then show ?thesis using char_classes(2) by blast
next
  case (quoted q b)
  then show ?thesis using char_classes(3) by auto
next
  case integer
  then show ?thesis using char_classes(4) [of "hd t" u] by (cases t) auto
next
  case (decimal ds es)
  then show ?thesis using char_classes(4) [of "hd ds" u] by (cases ds) auto
next
  case (word c cs)
  then show ?thesis by simp
qed

lemma takeWhile_all: "list_all f w \<Longrightarrow> \<not> starts f s \<Longrightarrow> takeWhile f (w @ s) = w"
  by (induction w) (auto simp: starts_def split: list.splits)

lemma next_token_start:
  assumes "list_all (is_whitespace u) w" "\<not> is_whitespace u c"
  shows "next_token u (p @ w @ c # s) (byte_len p) =
    (let input = (p @ w) @ c # s; start = byte_len (p @ w) in
     case single_kind c of
       Some kind \<Rightarrow> rbind (make_token input start kind (start + len_utf8 c)) (\<lambda>t. Inr (t, start + len_utf8 c))
     | None \<Rightarrow>
       (case extensions c of
          Some (options, kind) \<Rightarrow> extended_token input start options kind (start + len_utf8 c)
        | None \<Rightarrow>
            if c = 39 \<or> c = 34 then string_token input start c start
            else if is_ascii_digit c then number_token input start start
            else if is_ident_start u c then ident_or_keyword u input start start
            else Inl (syntax_error (span start (start + len_utf8 c))
              (lit ''unexpected character '' @ char_debug u c))))"
proof -
  have ws: "skip_whitespace u (p @ w @ c # s) (byte_len p) = Inr (byte_len (p @ w))"
    using assms by (simp add: skip_whitespace_def take_while_at takeWhile_all)
  show ?thesis
    using peek_at [of "p @ w" "c # s"] bump_at [of "p @ w" c s] unfolding next_token_def ws
    by (simp add: Let_def add.assoc cong: option.case_cong)
qed

lemma string_token_at:
  "q = 39 \<or> q = 34 \<Longrightarrow> string_body q False b \<Longrightarrow>
    string_token (p @ q # b @ q # rest) (byte_len p) q (byte_len p) =
      Inr (\<lparr>tk_kind = TString, tk_span = span (byte_len p) (byte_len p + byte_len (q # b @ [q])), tk_text = q # b @ [q]\<rparr>,
        byte_len p + byte_len (q # b @ [q]))"
  using string_end_closed [of q False b "p @ [q]" rest] token_at [of p "q # b @ [q]" rest TString] bump_at [of p q "b @ q # rest"]
  by (auto simp: string_token_def ac_simps)

lemma number_token_at:
  assumes "list_all is_ascii_digit ds" "\<not> starts is_ascii_digit rest"
  shows "number_token (p @ ds @ rest) (byte_len p) (byte_len p) =
    (case rest of
       c # rest' \<Rightarrow>
         if c = 46 \<and> \<not> starts (\<lambda>c. c = 46) rest' then
           (let es = takeWhile is_ascii_digit rest'; t = ds @ 46 # es; stop = byte_len p + byte_len t in
            if es = [] then Inl (syntax_error (span (byte_len p) stop) (lit ''float literal requires digits after decimal point''))
            else Inr (\<lparr>tk_kind = TFloat, tk_span = span (byte_len p) stop, tk_text = t\<rparr>, stop))
         else Inr (\<lparr>tk_kind = TInt, tk_span = span (byte_len p) (byte_len p + byte_len ds), tk_text = ds\<rparr>, byte_len p + byte_len ds)
     | [] \<Rightarrow> Inr (\<lparr>tk_kind = TInt, tk_span = span (byte_len p) (byte_len p + byte_len ds), tk_text = ds\<rparr>, byte_len p + byte_len ds))"
proof -
  have tw: "take_while (p @ ds @ rest) is_ascii_digit (byte_len p) = Inr (byte_len (p @ ds))"
    using assms by (simp add: take_while_at takeWhile_all)
  have peek: "peek_char (p @ ds @ rest) (byte_len (p @ ds)) = Inr (case rest of [] \<Rightarrow> None | c # _ \<Rightarrow> Some c)"
    "peek_next_char (p @ ds @ rest) (byte_len (p @ ds)) = Inr (case rest of c # d # _ \<Rightarrow> Some d | _ \<Rightarrow> None)"
    using peek_at [of "p @ ds" rest] peek_next_at [of "p @ ds" rest] by simp_all
  show ?thesis
  proof (cases "starts (\<lambda>c. c = 46) rest \<and> \<not> starts (\<lambda>c. c = 46) (tl rest)")
    case False
    have tok: "make_token (p @ ds @ rest) (byte_len p) TInt (byte_len (p @ ds)) =
      Inr \<lparr>tk_kind = TInt, tk_span = span (byte_len p) (byte_len p + byte_len ds), tk_text = ds\<rparr>"
      using token_at [of p ds rest TInt] by simp
    show ?thesis unfolding number_token_def tw rbind_Inr peek
      using False tok by (auto simp: starts_def split: list.splits)
  next
    case True
    then obtain rest' where r: "rest = 46 # rest'" "\<not> starts (\<lambda>c. c = 46) rest'"
      by (auto simp: starts_def split: list.splits)
    let ?es = "takeWhile is_ascii_digit rest'"
    have es: "take_while (p @ ds @ rest) is_ascii_digit (byte_len (p @ ds @ [46])) = Inr (byte_len (p @ ds @ 46 # ?es))"
      using take_while_at [of "p @ ds @ [46]" rest' is_ascii_digit] r(1) by simp
    have bump: "bump_char (p @ ds @ rest) (byte_len (p @ ds)) = Inr (byte_len (p @ ds @ [46]))"
      using bump_at [of "p @ ds" 46 rest'] r(1) by simp
    have tok: "make_token (p @ ds @ rest) (byte_len p) TFloat (byte_len (p @ ds @ 46 # ?es)) =
      Inr \<lparr>tk_kind = TFloat, tk_span = span (byte_len p) (byte_len p + byte_len (ds @ 46 # ?es)), tk_text = ds @ 46 # ?es\<rparr>"
      using token_at [of p "ds @ 46 # ?es" "dropWhile is_ascii_digit rest'" TFloat] r(1) by simp
    have dot: "(case rest of c # d # _ \<Rightarrow> Some d | _ \<Rightarrow> None) \<noteq> Some 46" "(case rest of [] \<Rightarrow> None | c # _ \<Rightarrow> Some c) = Some 46"
      using r by (auto simp: starts_def split: list.splits)
    show ?thesis unfolding number_token_def tw rbind_Inr peek dot(2)
      using dot(1) es bump tok r by (simp add: Let_def)
  qed
qed

lemma ident_at:
  assumes "is_ident_start u c" "list_all (is_ident_continue u) cs" "\<not> starts (is_ident_continue u) rest"
  shows "ident_or_keyword u (p @ c # cs @ rest) (byte_len p) (byte_len p) =
    Inr (\<lparr>tk_kind = word_kind (c # cs), tk_span = span (byte_len p) (byte_len p + byte_len (c # cs)), tk_text = c # cs\<rparr>,
      byte_len p + byte_len (c # cs))"
proof -
  have "take_while (p @ c # cs @ rest) (is_ident_continue u) (byte_len (p @ [c])) = Inr (byte_len (p @ c # cs))"
    using take_while_at [of "p @ [c]" "cs @ rest" "is_ident_continue u"] assms by (simp add: takeWhile_all)
  moreover have "bump_char (p @ c # cs @ rest) (byte_len p) = Inr (byte_len (p @ [c]))"
    using bump_at [of p c "cs @ rest"] by simp
  moreover have "str_slice_r (p @ (c # cs) @ rest) (byte_len p) (byte_len p + byte_len (c # cs)) = (Inr (c # cs) :: rtext gql_result)"
    by (rule slice_at)
  ultimately show ?thesis
    using token_at [of p "c # cs" rest] by (simp add: ident_or_keyword_def)
qed

definition token_of_lexeme :: "usize \<Rightarrow> tok_kind \<Rightarrow> rtext \<Rightarrow> gql_token" where
  "token_of_lexeme start k t = \<lparr>tk_kind = k, tk_span = span start (start + byte_len t), tk_text = t\<rparr>"

lemma next_token_lexeme:
  assumes w: "list_all (is_whitespace u) w" and t: "lexeme u k t rest"
  shows "next_token u (p @ w @ t @ rest) (byte_len p) =
    Inr (token_of_lexeme (byte_len (p @ w)) k t, byte_len (p @ w) + byte_len t)"
  using t
proof cases
  case (single c)
  note next_token_start [OF w char_classes(1) [OF single(2)], of p rest]
  then show ?thesis
    using single token_at [of "p @ w" "[c]" rest k] by (simp add: Let_def token_of_lexeme_def)
next
  case (extended c options k0 d)
  note c = char_classes(2) [OF extended(2), of u]
  show ?thesis
    using next_token_start [OF w, of c p "d # rest"] c extended extended_token_at [of "p @ w" "[c]" "d # rest" options k0]
    by (simp add: Let_def token_of_lexeme_def)
next
  case (unextended c options)
  note c = char_classes(2) [OF unextended(2), of u]
  show ?thesis
    using next_token_start [OF w, of c p rest] c unextended extended_token_at [of "p @ w" "[c]" rest options k]
    by (auto simp: Let_def token_of_lexeme_def starts_def split: list.splits)
next
  case (quoted q b)
  note c = char_classes(3) [OF quoted(3), of u]
  show ?thesis
    using next_token_start [OF w, of q p "b @ q # rest"] c quoted string_token_at [OF quoted(3,4), of "p @ w" rest]
    by (simp add: Let_def token_of_lexeme_def)
next
  case integer
  then obtain c t' where ct: "t = c # t'" "is_ascii_digit c" by (cases t) auto
  note c = char_classes(4) [OF ct(2), of u]
  have "number_token ((p @ w) @ t @ rest) (byte_len (p @ w)) (byte_len (p @ w)) =
    Inr (token_of_lexeme (byte_len (p @ w)) TInt t, byte_len (p @ w) + byte_len t)"
    using integer number_token_at [of t rest "p @ w"] by (auto simp: token_of_lexeme_def split: list.split)
  then show ?thesis
    using next_token_start [OF w, of c p "t' @ rest"] c ct integer by (simp add: Let_def token_of_lexeme_def)
next
  case (decimal ds es)
  then obtain c t' where ct: "ds = c # t'" "is_ascii_digit c" by (cases ds) auto
  note c = char_classes(4) [OF ct(2), of u]
  have es: "takeWhile is_ascii_digit (es @ rest) = es" using decimal by (simp add: takeWhile_all)
  have "\<not> starts (\<lambda>c. c = 46) (es @ rest)" using decimal by (cases es) (auto simp: is_ascii_digit_def)
  then have "number_token ((p @ w) @ t @ rest) (byte_len (p @ w)) (byte_len (p @ w)) =
    Inr (token_of_lexeme (byte_len (p @ w)) TFloat t, byte_len (p @ w) + byte_len t)"
    using decimal es number_token_at [of ds "46 # es @ rest" "p @ w"]
    by (simp add: token_of_lexeme_def is_ascii_digit_def Let_def)
  then show ?thesis
    using next_token_start [OF w, of c p "t' @ 46 # es @ rest"] c ct decimal by (simp add: Let_def token_of_lexeme_def)
next
  case (word c cs)
  note c = char_classes(5) [OF word(3)]
  show ?thesis
    using next_token_start [OF w word(4), of p "cs @ rest"] c word ident_at [OF word(3,5,6), of "p @ w"]
    by (simp add: Let_def token_of_lexeme_def)
qed

lemma next_token_finish:
  assumes "list_all (is_whitespace u) w"
  shows "next_token u (p @ w) (byte_len p) =
    Inr (\<lparr>tk_kind = TEof, tk_span = span (byte_len (p @ w)) (byte_len (p @ w)), tk_text = []\<rparr>, byte_len (p @ w))"
proof -
  have tw: "takeWhile (is_whitespace u) w = w" using assms takeWhile_all [of _ w "[]"] by simp
  have "skip_whitespace u (p @ w) (byte_len p) = Inr (byte_len (p @ w))"
    unfolding skip_whitespace_def take_while_at tw by (rule refl)
  moreover have "peek_char (p @ w) (byte_len (p @ w)) = Inr None" using peek_at [of "p @ w" "[]"] by simp
  ultimately show ?thesis by (simp add: next_token_def)
qed

text \<open>Where no token fits, the scan stops with a syntax error.\<close>

lemma split_while: "list_all f (takeWhile f s)" "\<not> starts f (dropWhile f s)"
proof -
  show "list_all f (takeWhile f s)" by (induction s) auto
  show "\<not> starts f (dropWhile f s)" by (induction s) auto
qed

lemma number_cases:
  assumes c: "is_ascii_digit c"
  shows "(\<exists>k t rest. c # s = t @ rest \<and> lexeme u k t rest) \<or>
    (\<exists>e. number_token (p @ c # s) (byte_len p) (byte_len p) = Inl (Err e))"
proof -
  obtain ds r0 where ds: "c # s = ds @ r0" "list_all is_ascii_digit ds" "ds \<noteq> []" "\<not> starts is_ascii_digit r0"
    using c split_while [of is_ascii_digit "c # s"] takeWhile_dropWhile_id [of is_ascii_digit "c # s"] that
    by (metis list.simps(3) takeWhile.simps(2))
  show ?thesis
  proof (cases "starts (\<lambda>c. c = 46) r0 \<and> \<not> starts (\<lambda>c. c = 46) (tl r0)")
    case False
    with ds have "lexeme u TInt ds r0" by (intro lexeme.integer) auto
    with ds(1) show ?thesis by blast
  next
    case True
    then obtain r where r: "r0 = 46 # r" "\<not> starts (\<lambda>c. c = 46) r" by (auto simp: starts_def split: list.splits)
    let ?es = "takeWhile is_ascii_digit r" and ?r' = "dropWhile is_ascii_digit r"
    show ?thesis
    proof (cases "?es = []")
      case False
      with ds split_while [of is_ascii_digit r] have "lexeme u TFloat (ds @ 46 # ?es) ?r'" by (intro lexeme.decimal)
      moreover have "c # s = (ds @ 46 # ?es) @ ?r'" using ds(1) r(1) by simp
      ultimately show ?thesis by blast
    next
      case True
      have "number_token (p @ ds @ r0) (byte_len p) (byte_len p) =
        Inl (syntax_error (span (byte_len p) (byte_len p + byte_len (ds @ [46])))
          (lit ''float literal requires digits after decimal point''))"
        using number_token_at [OF ds(2,4), of p] r True by (simp add: Let_def)
      then show ?thesis unfolding ds(1) [symmetric] by (simp add: syntax_error_def)
    qed
  qed
qed

lemma next_token_cases:
  "list_all (is_whitespace u) s \<or>
    (\<exists>w k t rest. s = w @ t @ rest \<and> list_all (is_whitespace u) w \<and> lexeme u k t rest) \<or>
    (\<exists>e. next_token u (p @ s) (byte_len p) = Inl (Err e))"
proof (cases "dropWhile (is_whitespace u) s")
  case Nil
  then show ?thesis by (simp add: list_all_iff)
next
  case (Cons c s')
  let ?w = "takeWhile (is_whitespace u) s"
  have w: "list_all (is_whitespace u) ?w" "\<not> is_whitespace u c" "s = ?w @ c # s'"
    using Cons hd_dropWhile [of "is_whitespace u" s] takeWhile_dropWhile_id [of "is_whitespace u" s]
    by (auto simp: list_all_iff dest: set_takeWhileD)
  note start = next_token_start [OF w(1,2), of p s', folded w(3)]
  have lex: ?thesis if "c # s' = t @ rest" "lexeme u k t rest" for k t rest
    using that w by metis
  have err: ?thesis if "next_token u (p @ s) (byte_len p) = Inl (syntax_error sp m)" for sp m
    using that by (auto simp: syntax_error_def)
  consider (single) k where "single_kind c = Some k"
    | (ext) x where "single_kind c = None" "extensions c = Some x"
    | (quote) "single_kind c = None" "extensions c = None" "c = 39 \<or> c = 34"
    | (digit) "single_kind c = None" "extensions c = None" "\<not> (c = 39 \<or> c = 34)" "is_ascii_digit c"
    | (ident) "single_kind c = None" "extensions c = None" "\<not> (c = 39 \<or> c = 34)" "\<not> is_ascii_digit c" "is_ident_start u c"
    | (other) "single_kind c = None" "extensions c = None" "\<not> (c = 39 \<or> c = 34)" "\<not> is_ascii_digit c" "\<not> is_ident_start u c"
    by (cases "single_kind c"; cases "extensions c") auto
  then show ?thesis
  proof cases
    case single
    then show ?thesis using lex [of "[c]" s' k] lexeme.single by simp
  next
    case ext
    obtain options k where x: "x = (options, k)" by (cases x)
    show ?thesis
    proof (cases "starts (\<lambda>d. map_of options d \<noteq> None) s'")
      case True
      then obtain d r k' where "s' = d # r" "map_of options d = Some k'" by (auto simp: starts_def split: list.splits)
      then show ?thesis using lex [of "[c, d]" r k'] lexeme.extended ext x by simp
    next
      case False
      then show ?thesis using lex [of "[c]" s' k] lexeme.unextended ext x by simp
    qed
  next
    case quote
    then have "c \<noteq> 92" by auto
    from string_end_cases [OF this, of s' False "(p @ ?w) @ [c]"] show ?thesis
    proof (elim disjE exE conjE)
      fix b rest assume "s' = b @ c # rest" "string_body c False b"
      then show ?thesis using lex [of "c # b @ [c]" rest TString] lexeme.quoted quote(3) by simp
    next
      assume "string_end (((p @ ?w) @ [c]) @ s') c False (byte_len ((p @ ?w) @ [c])) = Inr (False, byte_len (((p @ ?w) @ [c]) @ s'))"
      then have "string_token ((p @ ?w) @ c # s') (byte_len (p @ ?w)) c (byte_len (p @ ?w)) =
        Inl (syntax_error (span (byte_len (p @ ?w)) (byte_len ((p @ ?w) @ c # s'))) (lit ''unterminated string literal''))"
        using bump_at [of "p @ ?w" c s'] by (simp add: string_token_def add.assoc)
      with start quote show ?thesis by (intro err) (simp add: Let_def)
    qed
  next
    case digit
    from number_cases [OF digit(4), of s' u "p @ ?w"] show ?thesis
    proof (elim disjE exE conjE)
      fix e assume "number_token ((p @ ?w) @ c # s') (byte_len (p @ ?w)) (byte_len (p @ ?w)) = Inl (Err e)"
      with start digit show ?thesis by (auto simp: Let_def)
    qed (rule lex)
  next
    case ident
    let ?cs = "takeWhile (is_ident_continue u) s'" and ?r = "dropWhile (is_ident_continue u) s'"
    have "lexeme u (word_kind (c # ?cs)) (c # ?cs) ?r"
      using ident w(2) split_while by (intro lexeme.word)
    then show ?thesis by (rule lex [rotated]) simp
  next
    case other
    with start show ?thesis by (intro err) (simp add: Let_def)
  qed
qed

section \<open>The token sequence\<close>

lemma boundary_inj:
  assumes "a @ x = b @ y" "byte_len a = byte_len b"
  shows "a = b \<and> x = y"
proof -
  have "Some x = Some y" using str_from_append [of a x] str_from_append [of b y] assms by simp
  with assms(1) show ?thesis by simp
qed

lemma lexeme_kind: "lexeme u k t rest \<Longrightarrow> k \<noteq> TEof"
proof -
  have map_of_range: "map_of xs x = Some y \<Longrightarrow> y \<in> snd ` set xs" for xs :: "(nat \<times> tok_kind) list" and x y
    by (force dest: map_of_SomeD)
  have single: "single_kind c \<noteq> Some TEof" for c
    unfolding single_kind_def by (rule notI, drule map_of_range) simp
  have ext: "k \<noteq> TEof \<and> map_of options d \<noteq> Some TEof" if "extensions c = Some (options, k)" for c options k d
    using that by (auto simp: extensions_def split: if_splits)
  have word: "word_kind t \<noteq> TEof" for t
  proof -
    have "map_of (map (\<lambda>(k, v). (lit k, v)) keyword_table) x \<noteq> Some TEof" for x
      by (auto simp: keyword_table_def dest!: map_of_SomeD)
    then show ?thesis by (auto simp: word_kind_def opt_get_or_def split: option.splits)
  qed
  show "lexeme u k t rest \<Longrightarrow> k \<noteq> TEof"
    by (induction rule: lexeme.induct) (use single ext word in \<open>fastforce+\<close>)
qed

lemma lexes_whitespace:
  assumes "list_all (is_whitespace u) s" "lexes u n s ts"
  shows "ts = [\<lparr>tk_kind = TEof, tk_span = span (n + byte_len s) (n + byte_len s), tk_text = []\<rparr>]"
  using assms(2)
proof cases
  case (step w k t rest ts')
  obtain c t' where "t = c # t'" "\<not> is_whitespace u c" using lexeme_first [OF step(4)] by blast
  with assms(1) step(1) have False by simp
  then show ?thesis ..
qed simp

lemma lexes_token:
  assumes w: "list_all (is_whitespace u) w" "lexeme u k t rest" and l: "lexes u (byte_len p) (w @ t @ rest) ts"
  shows "\<exists>ts'. ts = token_of_lexeme (byte_len (p @ w)) k t # ts' \<and> lexes u (byte_len (p @ w @ t)) rest ts'"
  using l
proof cases
  case finish
  obtain c t' where "t = c # t'" "\<not> is_whitespace u c" using lexeme_first [OF w(2)] by blast
  with finish(2) have False by simp
  then show ?thesis ..
next
  case (step w' k' t' rest' ts')
  have "token_of_lexeme (byte_len (p @ w)) k t = token_of_lexeme (byte_len (p @ w')) k' t'"
    "byte_len (p @ w) + byte_len t = byte_len (p @ w') + byte_len t'"
    using next_token_lexeme [OF w, of p] next_token_lexeme [OF step(3,4), of p] step(1) by simp_all
  from arg_cong [OF this(1), of tk_kind] arg_cong [OF this(1), of tk_text] this(2)
  have "k = k'" "t = t'" "byte_len w = byte_len w'" by (auto simp: token_of_lexeme_def)
  moreover have "w = w' \<and> t @ rest = t' @ rest'" using boundary_inj [OF step(1)] calculation(3) by blast
  ultimately show ?thesis using step(2,5) by (simp add: token_of_lexeme_def add.assoc)
qed

lemma tokenize_loop_exact:
  "tokenize_loop u (p @ s) (byte_len p) tokens \<noteq> Inl Panic \<and>
    (tokenize_loop u (p @ s) (byte_len p) tokens = Inr out \<longleftrightarrow>
      (\<exists>ts. out = tokens @ ts \<and> lexes u (byte_len p) s ts \<and> length out \<le> MAX_TOKENS))"
proof (induction "length s" arbitrary: p s tokens rule: less_induct)
  case less
  note unfold = tokenize_loop.simps [of u "p @ s" "byte_len p" tokens]
  show ?case
  proof (cases "length tokens \<ge> MAX_TOKENS")
    case True
    have "0 < length ts" if "lexes u (byte_len p) s ts" for ts using that by cases auto
    then have "\<not> (\<exists>ts. out = tokens @ ts \<and> lexes u (byte_len p) s ts \<and> length out \<le> MAX_TOKENS)"
      using True by (metis add_le_cancel_left le_0_eq length_append le_trans less_numeral_extra(3) nat_add_left_cancel_le add.right_neutral)
    then show ?thesis using True by (subst (1 2) unfold) (simp add: syntax_error_def)
  next
    case room: False
    from next_token_cases [of u s p] show ?thesis
    proof (elim disjE exE conjE)
      assume ws: "list_all (is_whitespace u) s"
      let ?t = "\<lparr>tk_kind = TEof, tk_span = span (byte_len (p @ s)) (byte_len (p @ s)), tk_text = []\<rparr>"
      have run: "tokenize_loop u (p @ s) (byte_len p) tokens = Inr (tokens @ [?t])"
        using room next_token_finish [OF ws, of p] by (subst unfold) simp
      have lex: "lexes u (byte_len p) s ts \<longleftrightarrow> ts = [?t]" for ts
        unfolding byte_len_simps(3) using lexes_whitespace [OF ws] lexes.finish [OF ws, of "byte_len p"] by blast
      show ?thesis unfolding run lex using room by auto
    next
      fix e assume e: "next_token u (p @ s) (byte_len p) = Inl (Err e)"
      have "\<not> lexes u (byte_len p) s ts" for ts
      proof
        assume "lexes u (byte_len p) s ts"
        then show False
        proof cases
          case finish
          then show False using e next_token_finish [of u s p] by simp
        next
          case (step w k t rest ts')
          then show False using e next_token_lexeme [OF step(3,4), of p] by simp
        qed
      qed
      then show ?thesis using room e by (subst (1 2) unfold) simp
    next
      fix w k t rest
      assume s: "s = w @ t @ rest" and w: "list_all (is_whitespace u) w" and t: "lexeme u k t rest"
      let ?t = "token_of_lexeme (byte_len (p @ w)) k t"
      have len: "length rest < length s" using lexeme_first [OF t] s by auto
      have "tokenize_loop u (p @ s) (byte_len p) tokens =
          tokenize_loop u ((p @ w @ t) @ rest) (byte_len (p @ w @ t)) (tokens @ [?t])"
        using room next_token_lexeme [OF w t, of p] lexeme_kind [OF t] s
        by (subst unfold) (simp add: token_of_lexeme_def add.assoc)
      moreover have "lexes u (byte_len p) s ts \<longleftrightarrow> (\<exists>ts'. ts = ?t # ts' \<and> lexes u (byte_len (p @ w @ t)) rest ts')" for ts
        unfolding s using lexes_token [OF w t, of p ts] lexes.step [OF w t, of "byte_len p"]
        by (metis byte_len_simps(3) add.assoc token_of_lexeme_def)
      ultimately show ?thesis using less [OF len, of "p @ w @ t" "tokens @ [?t]"] by auto
    qed
  qed
qed

text \<open>
  C23: The lexer never slices the query off a character boundary nor runs forever, and it accepts a
  query exactly when the query is within the byte limit, splits into whitespace and longest
  tokens up to its end, and has at most 32768 tokens with the end marker; the result is that
  split, with the byte range and the exact text of each token.
\<close>

theorem tokenize_exact:
  "tokenize u s \<noteq> Inl Panic \<and>
    (tokenize u s = Inr ts \<longleftrightarrow> byte_len s \<le> MAX_QUERY_BYTES \<and> length ts \<le> MAX_TOKENS \<and> lexes u 0 s ts)"
  using tokenize_loop_exact [of u "[]" s "[]" ts] by (auto simp: tokenize_def syntax_error_def)

text \<open>What the parser relies on: one end marker, at the end.\<close>

definition tokens_ok :: "gql_token list \<Rightarrow> bool" where
  "tokens_ok ts \<longleftrightarrow> (\<exists>us e. ts = us @ [e] \<and> tk_kind e = TEof \<and> (\<forall>t\<in>set us. tk_kind t \<noteq> TEof))"

lemma lexes_tokens_ok: "lexes u n s ts \<Longrightarrow> tokens_ok ts"
proof (induction rule: lexes.induct)
  case (finish w n)
  then show ?case by (simp add: tokens_ok_def)
next
  case (step w k t rest n ts)
  then obtain us e where "ts = us @ [e]" "tk_kind e = TEof" "\<forall>t\<in>set us. tk_kind t \<noteq> TEof"
    by (auto simp: tokens_ok_def)
  with lexeme_kind [OF step(2)] show ?case
    unfolding tokens_ok_def by (metis append_Cons gql_token.select_convs(1) set_ConsD)
qed

lemma tokenize_tokens_ok: "tokenize u s = Inr ts \<Longrightarrow> tokens_ok ts"
proof -
  assume "tokenize u s = Inr ts"
  then have "tokenize_loop u ([] @ s) (byte_len []) [] = Inr ts" by (auto simp: tokenize_def split: if_splits)
  then have "lexes u 0 s ts" using tokenize_loop_exact [of u "[]" s "[]" ts] by auto
  then show ?thesis by (rule lexes_tokens_ok)
qed

end
