(* ===== verification/GqlParser.thy ===== *)
theory GqlParser
  imports GqlLexer
begin

text \<open>
  The syntax tree (\<open>graph/src/gql/ast.rs\<close>) and the recursive-descent parser
  (\<open>graph/src/gql/parser.rs\<close>). A parser is a function of the token list and the position. A loop
  gets fuel one above the number of tokens; running out of it is the same outcome as a panic, so
  that a parser which never panics also terminates.
\<close>

section \<open>Syntax tree\<close>

record gql_ident =
  id_text :: rtext
  id_span :: gql_span

datatype (plugins only: size) literal_value = LStr rtext | LInt "64 word" | LFloat f64 | LBool bool | LNull

datatype (plugins only: size) gql_literal = LitValue literal_value gql_span

datatype (plugins only: size) gql_operand =
    OpProperty gql_ident gql_ident gql_span
  | OpIdentity gql_ident gql_span
  | OpLiteral gql_literal
  | OpParam gql_ident gql_span
  | OpList "gql_literal list" gql_span

datatype (plugins only: size) cmp_op = CmpEq | CmpNeq | CmpLt | CmpLte | CmpGt | CmpGte | CmpIn | CmpIsNull | CmpIsNotNull

datatype (plugins only: size) gql_expr =
    EAnd gql_expr gql_expr gql_span
  | EOr gql_expr gql_expr gql_span
  | ENot gql_expr gql_span
  | ECompare gql_operand cmp_op "gql_operand option" gql_span

record property_ref =
  pr_var :: gql_ident
  pr_property :: gql_ident
  pr_span :: gql_span

record node_pat =
  np_var :: "gql_ident option"
  np_label :: "gql_ident option"
  np_props :: "(gql_ident \<times> gql_operand) list"
  np_span :: gql_span

datatype (plugins only: size) rel_direction = DirOut | DirIn | DirUndirected

record var_len =
  vl_min :: u32
  vl_max :: u32
  vl_span :: gql_span

record rel_pat =
  rp_var :: "gql_ident option"
  rp_rel_types :: "gql_ident list"
  rp_direction :: rel_direction
  rp_var_len :: "var_len option"
  rp_props :: "(gql_ident \<times> gql_operand) list"
  rp_span :: gql_span

record gql_pattern =
  pt_path_var :: "gql_ident option"
  pt_start :: node_pat
  pt_tail :: "(rel_pat \<times> node_pat) list"
  pt_span :: gql_span

record match_clause =
  mc_optional :: bool
  mc_pattern :: gql_pattern
  mc_patterns :: "gql_pattern list"
  mc_span :: gql_span

datatype (plugins only: size) aggregate_func = AggCount | AggSum | AggAvg | AggMin | AggMax | AggCollect

datatype (plugins only: size) aggregate_arg =
    ArgAll gql_span
  | ArgVar gql_ident gql_span
  | ArgProperty gql_ident gql_ident gql_span

datatype (plugins only: size) return_expr =
    RetVar gql_ident gql_span
  | RetProperty gql_ident gql_ident gql_span
  | RetFunc gql_ident "gql_ident list" gql_span
  | RetAggregate aggregate_func bool aggregate_arg gql_ident gql_span

record return_item =
  ri_expr :: return_expr
  ri_alias :: "gql_ident option"
  ri_span :: gql_span

text \<open>\<open>ReturnClause\<close> and \<open>WithClause\<close> have the same fields.\<close>

record return_clause =
  rc_distinct :: bool
  rc_items :: "return_item list"
  rc_span :: gql_span

datatype (plugins only: size) sort_key = KeyProperty gql_ident gql_ident gql_span | KeyAlias gql_ident gql_span

record sort_item =
  si_key :: sort_key
  si_desc :: bool
  si_span :: gql_span

record set_clause =
  sc_target :: property_ref
  sc_value :: gql_operand
  sc_span :: gql_span

datatype (plugins only: size) remove_target = RemoveProperty property_ref | RemoveLabel gql_ident gql_ident gql_span

text \<open>Clauses of one part and its span.\<close>

datatype (plugins only: size) 'a clause = Clause 'a gql_span

record gql_query =
  q_match :: match_clause
  q_where :: "gql_expr option"
  q_with :: "return_clause list"
  q_return :: return_clause
  q_order_by :: "sort_item list"
  q_skip :: "u64 option"
  q_limit :: "u64 option"
  q_span :: gql_span

record create_query =
  cq_create :: "node_pat clause"
  cq_return :: return_clause
  cq_span :: gql_span

record create_relationship_query =
  crq_match :: match_clause
  crq_create :: "gql_pattern clause"
  crq_return :: return_clause
  crq_span :: gql_span

text \<open>\<open>SetQuery\<close>, \<open>RemoveQuery\<close>, \<open>DeleteQuery\<close> and \<open>DetachDeleteQuery\<close> differ in their write clause.\<close>

record 'w write_query =
  wq_match :: match_clause
  wq_where :: "gql_expr option"
  wq_write :: 'w
  wq_return :: return_clause
  wq_span :: gql_span

record merge_query =
  mq_merge :: "node_pat clause"
  mq_on_create :: "set_clause option"
  mq_on_match :: "set_clause option"
  mq_return :: return_clause
  mq_span :: gql_span

datatype (plugins only: size) gql_statement =
    StRead gql_query
  | StCreate create_query
  | StCreateRelationship create_relationship_query
  | StSet "set_clause write_query"
  | StRemove "remove_target clause write_query"
  | StDelete "gql_ident clause write_query"
  | StDetachDelete "gql_ident clause write_query"
  | StMerge merge_query

section \<open>Parser primitives\<close>

type_synonym 'a parser = "gql_token list \<Rightarrow> usize \<Rightarrow> ('a \<times> usize) gql_result"

definition preturn :: "'a \<Rightarrow> 'a parser" where
  "preturn x = (\<lambda>ts i. Inr (x, i))"

definition perror :: "gql_error fault \<Rightarrow> 'a parser" where
  "perror e = (\<lambda>ts i. Inl e)"

definition pbind :: "'a parser \<Rightarrow> ('a \<Rightarrow> 'b parser) \<Rightarrow> 'b parser" where
  "pbind p q = (\<lambda>ts i. rbind (p ts i) (\<lambda>(x, j). q x ts j))"

primrec ploop_fuel :: "nat \<Rightarrow> ('s \<Rightarrow> 's option parser) \<Rightarrow> 's \<Rightarrow> 's parser" where
  "ploop_fuel 0 body s = (\<lambda>ts i. Inl Panic)"
| "ploop_fuel (Suc n) body s =
     pbind (body s) (\<lambda>r. case r of None \<Rightarrow> preturn s | Some s' \<Rightarrow> ploop_fuel n body s')"

definition ploop :: "('s \<Rightarrow> 's option parser) \<Rightarrow> 's \<Rightarrow> 's parser" where
  "ploop body s = (\<lambda>ts i. ploop_fuel (Suc (length ts)) body s ts i)"

definition current :: "gql_token parser" where
  "current = (\<lambda>ts i. rbind (index_r ts i) (\<lambda>t. Inr (t, i)))"

definition previous :: "gql_token parser" where
  "previous = (\<lambda>ts i. rbind (index_r ts (i - 1)) (\<lambda>t. Inr (t, i)))"

definition advance :: "gql_token parser" where
  "advance = (\<lambda>ts i. rbind (index_r ts i) (\<lambda>t. Inr (t, if tk_kind t \<noteq> TEof then i + 1 else i)))"

definition peek :: "tok_kind parser" where
  "peek = pbind current (\<lambda>t. preturn (tk_kind t))"

definition peek_next :: "tok_kind parser" where
  "peek_next = (\<lambda>ts i. Inr (case get_opt ts (i + 1) of None \<Rightarrow> TEof | Some t \<Rightarrow> tk_kind t, i))"

definition consume :: "tok_kind \<Rightarrow> gql_token option parser" where
  "consume kind = pbind peek (\<lambda>k. if k = kind then pbind advance (\<lambda>t. preturn (Some t)) else preturn None)"

definition expect :: "tok_kind \<Rightarrow> string \<Rightarrow> gql_token parser" where
  "expect kind message =
     pbind advance (\<lambda>t. if tk_kind t = kind then preturn t else perror (syntax_error (tk_span t) (lit message)))"

definition eq_ignore_ascii_case :: "rtext \<Rightarrow> rtext \<Rightarrow> bool" where
  "eq_ignore_ascii_case a b \<longleftrightarrow> to_ascii_lowercase a = to_ascii_lowercase b"

definition is_ident_keyword :: "string \<Rightarrow> gql_token \<Rightarrow> bool" where
  "is_ident_keyword keyword t \<longleftrightarrow> tk_kind t = TIdent \<and> eq_ignore_ascii_case (tk_text t) (lit keyword)"

definition peek_ident_keyword :: "string \<Rightarrow> bool parser" where
  "peek_ident_keyword keyword = pbind current (\<lambda>t. preturn (is_ident_keyword keyword t))"

definition expect_ident_keyword :: "string \<Rightarrow> string \<Rightarrow> gql_token parser" where
  "expect_ident_keyword keyword message =
     pbind advance (\<lambda>t. if is_ident_keyword keyword t then preturn t
       else perror (syntax_error (tk_span t) (lit message)))"

definition between :: "u32 \<Rightarrow> u32 \<Rightarrow> gql_span" where
  "between start stop = span (unat start) (unat stop)"

definition current_start :: "u32 parser" where
  "current_start = pbind current (\<lambda>t. preturn (sp_start (tk_span t)))"

definition previous_end :: "u32 parser" where
  "previous_end = pbind previous (\<lambda>t. preturn (sp_end (tk_span t)))"

text \<open>\<open>if consume(kind) { Some(p) } else { None }\<close>, \<open>loop { push(p); if !consume(sep) { break } }\<close>.\<close>

definition when_consumed :: "tok_kind \<Rightarrow> 'a \<Rightarrow> 'a parser \<Rightarrow> 'a parser" where
  "when_consumed kind absent p = pbind (consume kind) (\<lambda>t. case t of None \<Rightarrow> preturn absent | Some _ \<Rightarrow> p)"

definition optional_after :: "tok_kind \<Rightarrow> 'a parser \<Rightarrow> 'a option parser" where
  "optional_after kind p = when_consumed kind None (pbind p (\<lambda>x. preturn (Some x)))"

definition consumed :: "tok_kind \<Rightarrow> bool parser" where
  "consumed kind = pbind (consume kind) (\<lambda>t. preturn (t \<noteq> None))"

definition separated :: "tok_kind \<Rightarrow> 'a parser \<Rightarrow> 'a list parser" where
  "separated sep p =
     pbind p (\<lambda>x. ploop (\<lambda>xs. optional_after sep (pbind p (\<lambda>y. preturn (xs @ [y])))) [x])"

section \<open>Literals and identifiers\<close>

fun parse_digits :: "nat \<Rightarrow> nat \<Rightarrow> rtext \<Rightarrow> rtext + nat" where
  "parse_digits bound acc [] = Inr acc"
| "parse_digits bound acc (c # s) =
     (if \<not> is_ascii_digit c then Inl (lit ''invalid digit found in string'')
      else let n = acc * 10 + (c - 48) in
        if n > bound then Inl (lit ''number too large to fit in target type'') else parse_digits bound n s)"

text \<open>\<open>str::parse\<close> of an integer; the text of an integer token has no sign.\<close>

definition parse_int :: "nat \<Rightarrow> rtext \<Rightarrow> rtext + nat" where
  "parse_int bound s = (if s = [] then Inl (lit ''cannot parse integer from empty string'') else parse_digits bound 0 s)"

fun decode_escapes :: "rtext \<Rightarrow> rtext + rtext" where
  "decode_escapes [] = Inr []"
| "decode_escapes (c # s) =
     (if c \<noteq> 92 then map_sum id ((#) c) (decode_escapes s)
      else case s of
        [] \<Rightarrow> Inl (lit ''unterminated string escape'')
      | e # r \<Rightarrow>
          (if e = 92 \<or> e = 39 \<or> e = 34 then map_sum id ((#) e) (decode_escapes r)
           else if e = 110 then map_sum id ((#) 10) (decode_escapes r)
           else if e = 114 then map_sum id ((#) 13) (decode_escapes r)
           else if e = 116 then map_sum id ((#) 9) (decode_escapes r)
           else Inl (lit ''unsupported string escape '' @ [92, e])))"

definition decode_string_literal :: "rtext \<Rightarrow> rtext + rtext" where
  "decode_string_literal raw =
     (case raw of
        [] \<Rightarrow> Inl (lit ''empty string literal'')
      | quote # inner \<Rightarrow>
          (if inner = [] \<or> last inner \<noteq> quote then Inl (lit ''invalid string literal'')
           else decode_escapes (butlast inner)))"

definition literal_of :: "std_tables \<Rightarrow> gql_token \<Rightarrow> rtext + literal_value" where
  "literal_of u t =
     (case tk_kind t of
        TString \<Rightarrow> map_sum id LStr (decode_string_literal (tk_text t))
      | TInt \<Rightarrow> map_sum ((@) (lit ''invalid integer: '')) (\<lambda>n. LInt (word_of_nat n)) (parse_int (2 ^ 63 - 1) (tk_text t))
      | TFloat \<Rightarrow> map_sum ((@) (lit ''invalid float: '')) LFloat (parse_f64 u (tk_text t))
      | TTrue \<Rightarrow> Inr (LBool True)
      | TFalse \<Rightarrow> Inr (LBool False)
      | TNull \<Rightarrow> Inr LNull
      | _ \<Rightarrow> Inl (lit ''expected literal''))"

definition parse_literal :: "std_tables \<Rightarrow> gql_literal parser" where
  "parse_literal u = pbind advance (\<lambda>t. case literal_of u t of
     Inl message \<Rightarrow> perror (syntax_error (tk_span t) message)
   | Inr v \<Rightarrow> preturn (LitValue v (tk_span t)))"

definition parse_ident :: "gql_ident parser" where
  "parse_ident = pbind advance (\<lambda>t.
     if tk_kind t \<noteq> TIdent then perror (syntax_error (tk_span t) (lit ''expected identifier''))
     else preturn \<lparr>id_text = tk_text t, id_span = tk_span t\<rparr>)"

definition parse_property_path :: "gql_ident parser" where
  "parse_property_path =
     pbind parse_ident (\<lambda>first.
     pbind (ploop (\<lambda>(text, stop). optional_after TDot (pbind parse_ident (\<lambda>part.
         preturn (text @ [46] @ id_text part, sp_end (id_span part)))))
       (id_text first, sp_end (id_span first))) (\<lambda>(text, stop).
     preturn \<lparr>id_text = text, id_span = between (sp_start (id_span first)) stop\<rparr>))"

definition parse_unsigned :: "nat \<Rightarrow> string \<Rightarrow> nat parser" where
  "parse_unsigned bound label =
     pbind advance (\<lambda>t.
       if tk_kind t \<noteq> TInt then perror (syntax_error (tk_span t) (lit label @ lit '' requires an integer''))
       else case parse_int bound (tk_text t) of
         Inl err \<Rightarrow> perror (syntax_error (tk_span t) (lit ''invalid '' @ lit label @ lit '': '' @ err))
       | Inr n \<Rightarrow> preturn n)"

definition parse_u64 :: "string \<Rightarrow> u64 parser" where
  "parse_u64 label = pbind (parse_unsigned (2 ^ 64 - 1) label) (\<lambda>n. preturn (word_of_nat n))"

definition parse_u32 :: "string \<Rightarrow> u32 parser" where
  "parse_u32 label = pbind (parse_unsigned (2 ^ 32 - 1) label) (\<lambda>n. preturn (word_of_nat n))"

section \<open>Operands and expressions\<close>

definition join_span :: "gql_span \<Rightarrow> gql_span \<Rightarrow> gql_span" where
  "join_span a b = between (sp_start a) (sp_end b)"

fun expr_span :: "gql_expr \<Rightarrow> gql_span" where
  "expr_span (EAnd _ _ sp) = sp"
| "expr_span (EOr _ _ sp) = sp"
| "expr_span (ENot _ sp) = sp"
| "expr_span (ECompare _ _ _ sp) = sp"

definition join_expr_span :: "gql_expr \<Rightarrow> gql_expr \<Rightarrow> gql_span" where
  "join_expr_span lhs rhs = join_span (expr_span lhs) (expr_span rhs)"

definition parse_param :: "gql_operand parser" where
  "parse_param =
     pbind advance (\<lambda>t.
     pbind parse_ident (\<lambda>name.
     preturn (OpParam name (join_span (tk_span t) (id_span name)))))"

definition parse_literal_list :: "std_tables \<Rightarrow> gql_operand parser" where
  "parse_literal_list u =
     pbind (expect TLBracket (''expected '['' @ [CHR 0x27])) (\<lambda>opening.
     pbind (consume TRBracket) (\<lambda>r. case r of
       Some stop \<Rightarrow> preturn (OpList [] (join_span (tk_span opening) (tk_span stop)))
     | None \<Rightarrow>
         pbind (separated TComma (parse_literal u)) (\<lambda>vals.
         pbind (expect TRBracket ''expected ']' after list'') (\<lambda>stop.
         preturn (OpList vals (join_span (tk_span opening) (tk_span stop)))))))"

definition parse_property_ref :: "property_ref parser" where
  "parse_property_ref =
     pbind parse_ident (\<lambda>var.
     pbind (expect TDot ''expected '.' in property reference'') (\<lambda>_.
     pbind parse_property_path (\<lambda>property.
     preturn \<lparr>pr_var = var, pr_property = property, pr_span = join_span (id_span var) (id_span property)\<rparr>)))"

definition parse_operand :: "std_tables \<Rightarrow> gql_operand parser" where
  "parse_operand u =
     pbind peek (\<lambda>k.
       if k = TIdent then
         pbind parse_ident (\<lambda>var.
         pbind (consume TLParen) (\<lambda>r. case r of
           Some _ \<Rightarrow>
             (if id_text var \<noteq> lit ''id'' then
                perror (unsupported_error (id_span var)
                  (lit ''only id(variable) function operands are supported in predicates''))
              else
                pbind parse_ident (\<lambda>node_var.
                pbind (expect TRParen ''expected ')' after id() argument'') (\<lambda>stop.
                preturn (OpIdentity node_var (join_span (id_span var) (tk_span stop))))))
         | None \<Rightarrow>
             pbind (expect TDot ''expected property reference'') (\<lambda>_.
             pbind parse_property_path (\<lambda>property.
             preturn (OpProperty var property (join_span (id_span var) (id_span property)))))))
       else if k = TDollar then parse_param
       else if k = TLBracket then parse_literal_list u
       else if k \<in> {TString, TInt, TFloat, TTrue, TFalse, TNull} then
         pbind (parse_literal u) (\<lambda>l. preturn (OpLiteral l))
       else pbind current (\<lambda>t. perror (syntax_error (tk_span t) (lit ''expected operand''))))"

definition parse_literal_or_param :: "std_tables \<Rightarrow> gql_operand parser" where
  "parse_literal_or_param u =
     pbind peek (\<lambda>k.
       if k = TDollar then parse_param
       else if k = TLBracket then parse_literal_list u
       else pbind (parse_literal u) (\<lambda>l. preturn (OpLiteral l)))"

definition binary_op :: "tok_kind \<Rightarrow> cmp_op option" where
  "binary_op k =
     (case k of TEq \<Rightarrow> Some CmpEq | TNeq \<Rightarrow> Some CmpNeq | TLt \<Rightarrow> Some CmpLt | TLte \<Rightarrow> Some CmpLte
      | TGt \<Rightarrow> Some CmpGt | TGte \<Rightarrow> Some CmpGte | TIn \<Rightarrow> Some CmpIn | _ \<Rightarrow> None)"

definition parse_comparison :: "std_tables \<Rightarrow> gql_expr parser" where
  "parse_comparison u =
     pbind current_start (\<lambda>start.
     pbind (parse_operand u) (\<lambda>lhs.
     pbind peek (\<lambda>k.
     pbind (case binary_op k of
         Some cmp \<Rightarrow>
           pbind advance (\<lambda>_.
           pbind (parse_operand u) (\<lambda>rhs. preturn (cmp, Some rhs)))
       | None \<Rightarrow>
           (if k = TIs then
              pbind advance (\<lambda>_.
              pbind (consumed TNot) (\<lambda>negated.
              pbind (expect TNull ''expected NULL after IS predicate'') (\<lambda>_.
              preturn (if negated then CmpIsNotNull else CmpIsNull, None))))
            else pbind current (\<lambda>t. perror (syntax_error (tk_span t) (lit ''expected comparison operator''))))) (\<lambda>(cmp, rhs).
     pbind previous_end (\<lambda>stop.
     preturn (ECompare lhs cmp rhs (between start stop)))))))"

definition MAX_PREFIX_NOT :: usize where "MAX_PREFIX_NOT = 512"

definition parse_not :: "std_tables \<Rightarrow> gql_expr parser" where
  "parse_not u =
     pbind (ploop (\<lambda>not_spans.
       pbind peek (\<lambda>k.
         if k = TNot then
           (if length not_spans \<ge> MAX_PREFIX_NOT then
              pbind current (\<lambda>t. perror (syntax_error (tk_span t) (lit ''too many nested NOT operators'')))
            else pbind advance (\<lambda>t. preturn (Some (not_spans @ [tk_span t]))))
         else preturn None)) []) (\<lambda>not_spans.
     pbind (parse_comparison u) (\<lambda>expr.
     preturn (fold (\<lambda>not_span e. ENot e (join_span not_span (expr_span e))) (rev not_spans) expr)))"

definition parse_and :: "std_tables \<Rightarrow> gql_expr parser" where
  "parse_and u =
     pbind (parse_not u) (\<lambda>expr.
     ploop (\<lambda>expr. optional_after TAnd (pbind (parse_not u) (\<lambda>rhs.
       preturn (EAnd expr rhs (join_expr_span expr rhs))))) expr)"

definition parse_or :: "std_tables \<Rightarrow> gql_expr parser" where
  "parse_or u =
     pbind (parse_and u) (\<lambda>expr.
     ploop (\<lambda>expr. optional_after TOr (pbind (parse_and u) (\<lambda>rhs.
       preturn (EOr expr rhs (join_expr_span expr rhs))))) expr)"

definition parse_expr :: "std_tables \<Rightarrow> gql_expr parser" where
  "parse_expr u = parse_or u"

section \<open>Patterns\<close>

definition if_ident :: "gql_ident option parser" where
  "if_ident =
     pbind peek (\<lambda>k. if k = TIdent then pbind parse_ident (\<lambda>x. preturn (Some x)) else preturn None)"

definition parse_prop_map :: "std_tables \<Rightarrow> (gql_ident \<times> gql_operand) list parser" where
  "parse_prop_map u =
     pbind (consume TRBrace) (\<lambda>r. case r of
       Some _ \<Rightarrow> preturn []
     | None \<Rightarrow>
         pbind (separated TComma
           (pbind parse_property_path (\<lambda>key.
            pbind (expect TColon ''expected ':' after property name'') (\<lambda>_.
            pbind (parse_literal_or_param u) (\<lambda>v. preturn (key, v)))))) (\<lambda>props.
         pbind (expect TRBrace ''expected '}' after property map'') (\<lambda>_.
         preturn props)))"

definition parse_node_pat :: "std_tables \<Rightarrow> node_pat parser" where
  "parse_node_pat u =
     pbind (expect TLParen ''expected node pattern'') (\<lambda>opening.
     pbind if_ident (\<lambda>var.
     pbind (optional_after TColon parse_ident) (\<lambda>label.
     pbind (when_consumed TLBrace [] (parse_prop_map u)) (\<lambda>props.
     pbind (expect TRParen ''expected ')' after node pattern'') (\<lambda>closing.
     preturn \<lparr>np_var = var, np_label = label, np_props = props, np_span = join_span (tk_span opening) (tk_span closing)\<rparr>)))))"

definition parse_var_len :: "var_len parser" where
  "parse_var_len =
     pbind previous (\<lambda>star.
     pbind peek (\<lambda>k.
     pbind (if k = TInt then parse_u32 ''variable-length lower bound'' else preturn 1) (\<lambda>lo.
     pbind (consume TDotDot) (\<lambda>dots. case dots of
       None \<Rightarrow> perror (unsupported_error (tk_span star)
         (lit ''variable-length relationships require an explicit upper bound''))
     | Some _ \<Rightarrow>
     pbind peek (\<lambda>k.
       if k \<noteq> TInt then
         pbind current (\<lambda>t. perror (unsupported_error (tk_span t)
           (lit ''variable-length relationships require an explicit upper bound'')))
       else
     pbind (parse_u32 ''variable-length upper bound'') (\<lambda>hi.
     pbind previous_end (\<lambda>stop.
       if lo > hi then
         perror (syntax_error (tk_span star) (lit ''variable-length lower bound cannot exceed upper bound''))
       else preturn \<lparr>vl_min = lo, vl_max = hi, vl_span = between (sp_start (tk_span star)) stop\<rparr>)))))))"

type_synonym rel_detail =
  "gql_ident option \<times> gql_ident list \<times> var_len option \<times> (gql_ident \<times> gql_operand) list"

definition parse_optional_rel_detail :: "std_tables \<Rightarrow> rel_detail parser" where
  "parse_optional_rel_detail u =
     when_consumed TLBracket (None, [], None, [])
       (pbind if_ident (\<lambda>var.
        pbind (when_consumed TColon [] (separated TPipe parse_ident)) (\<lambda>rel_types.
        pbind (optional_after TStar parse_var_len) (\<lambda>var_len.
        pbind (when_consumed TLBrace [] (parse_prop_map u)) (\<lambda>props.
        pbind (expect TRBracket ''expected ']' after relationship detail'') (\<lambda>_.
        preturn (var, rel_types, var_len, props)))))))"

definition make_rel :: "rel_detail \<Rightarrow> rel_direction \<Rightarrow> gql_span \<Rightarrow> rel_pat" where
  "make_rel d dir sp =
     (case d of (var, rel_types, var_len, props) \<Rightarrow>
        \<lparr>rp_var = var, rp_rel_types = rel_types, rp_direction = dir, rp_var_len = var_len, rp_props = props, rp_span = sp\<rparr>)"

definition parse_rel_pat :: "std_tables \<Rightarrow> rel_pat parser" where
  "parse_rel_pat u =
     pbind peek (\<lambda>k.
       if k = TArrowLeft then
         pbind advance (\<lambda>opening.
         pbind (parse_optional_rel_detail u) (\<lambda>detail.
         pbind (expect TDash ''expected '-' after inbound relationship'') (\<lambda>closing.
         preturn (make_rel detail DirIn (join_span (tk_span opening) (tk_span closing))))))
       else
         pbind (expect TDash ''expected relationship pattern'') (\<lambda>opening.
         pbind (parse_optional_rel_detail u) (\<lambda>detail.
         pbind (consume TArrowRight) (\<lambda>arrow.
         pbind (case arrow of
             Some _ \<Rightarrow> preturn DirOut
           | None \<Rightarrow> pbind (expect TDash ''expected '-' or '->' after relationship'') (\<lambda>_. preturn DirUndirected)) (\<lambda>direction.
         pbind previous_end (\<lambda>stop.
         preturn (make_rel detail direction (between (sp_start (tk_span opening)) stop))))))))"

definition parse_pattern :: "std_tables \<Rightarrow> gql_pattern parser" where
  "parse_pattern u =
     pbind peek (\<lambda>k.
     pbind peek_next (\<lambda>k'.
     pbind (if k = TIdent \<and> k' = TEq then
         pbind parse_ident (\<lambda>var.
         pbind (expect TEq ''expected '=' after path variable'') (\<lambda>_. preturn (Some var)))
       else preturn None) (\<lambda>path_var.
     pbind (parse_node_pat u) (\<lambda>start.
     pbind (ploop (\<lambda>tail.
         pbind peek (\<lambda>k.
           if k = TDash \<or> k = TArrowLeft then
             pbind (parse_rel_pat u) (\<lambda>rel.
             pbind (parse_node_pat u) (\<lambda>node. preturn (Some (tail @ [(rel, node)]))))
           else preturn None)) []) (\<lambda>tail.
     preturn \<lparr>pt_path_var = path_var, pt_start = start, pt_tail = tail,
       pt_span = join_span (np_span start) (if tail = [] then np_span start else np_span (snd (last tail)))\<rparr>)))))"

definition pattern_end :: "gql_pattern \<Rightarrow> u32" where
  "pattern_end p = (if pt_tail p = [] then sp_end (np_span (pt_start p)) else sp_end (np_span (snd (last (pt_tail p)))))"

definition parse_match_clause :: "std_tables \<Rightarrow> match_clause parser" where
  "parse_match_clause u =
     pbind (consumed TOptional) (\<lambda>optional.
     pbind (expect TMatch ''expected MATCH clause'') (\<lambda>t.
     pbind (separated TComma (parse_pattern u)) (\<lambda>patterns.
     preturn \<lparr>mc_optional = optional, mc_pattern = hd patterns, mc_patterns = patterns,
       mc_span = between (sp_start (tk_span t)) (pattern_end (last patterns))\<rparr>)))"

section \<open>Projections\<close>

definition aggregate_func_of :: "rtext \<Rightarrow> aggregate_func option" where
  "aggregate_func_of name =
     map_of [(lit ''count'', AggCount), (lit ''sum'', AggSum), (lit ''avg'', AggAvg), (lit ''min'', AggMin),
       (lit ''max'', AggMax), (lit ''collect'', AggCollect)] (to_ascii_lowercase name)"

definition parse_aggregate_arg :: "aggregate_arg parser" where
  "parse_aggregate_arg =
     pbind (consume TStar) (\<lambda>star. case star of
       Some _ \<Rightarrow> pbind previous (\<lambda>t. preturn (ArgAll (tk_span t)))
     | None \<Rightarrow>
         pbind parse_ident (\<lambda>var.
         pbind (optional_after TDot parse_property_path) (\<lambda>property.
         preturn (case property of
           Some property \<Rightarrow> ArgProperty var property (join_span (id_span var) (id_span property))
         | None \<Rightarrow> ArgVar var (id_span var)))))"

definition parse_call :: "gql_ident \<Rightarrow> return_expr parser" where
  "parse_call ident =
     (case aggregate_func_of (id_text ident) of
        Some func \<Rightarrow>
          pbind (consumed TDistinct) (\<lambda>distinct.
          pbind parse_aggregate_arg (\<lambda>arg.
          pbind (expect TRParen ''expected ')' after aggregate argument'') (\<lambda>_.
          pbind previous_end (\<lambda>stop.
          preturn (RetAggregate func distinct arg ident (between (sp_start (id_span ident)) stop))))))
      | None \<Rightarrow>
          pbind (consume TRParen) (\<lambda>closed.
          pbind (case closed of
              Some _ \<Rightarrow> preturn []
            | None \<Rightarrow>
                pbind (separated TComma parse_ident) (\<lambda>args.
                pbind (expect TRParen ''expected ')' after function arguments'') (\<lambda>_. preturn args))) (\<lambda>args.
          pbind previous_end (\<lambda>stop.
          preturn (RetFunc ident args (between (sp_start (id_span ident)) stop))))))"

definition parse_return_expr :: "return_expr parser" where
  "parse_return_expr =
     pbind parse_ident (\<lambda>ident.
     pbind (consume TLParen) (\<lambda>call. case call of
       Some _ \<Rightarrow> parse_call ident
     | None \<Rightarrow>
         pbind (optional_after TDot parse_property_path) (\<lambda>property.
         preturn (case property of
           Some property \<Rightarrow> RetProperty ident property (join_span (id_span ident) (id_span property))
         | None \<Rightarrow> RetVar ident (id_span ident)))))"

definition parse_return_item :: "return_item parser" where
  "parse_return_item =
     pbind current_start (\<lambda>start.
     pbind parse_return_expr (\<lambda>expr.
     pbind (optional_after TAs parse_ident) (\<lambda>alias.
     pbind previous_end (\<lambda>stop.
     preturn \<lparr>ri_expr = expr, ri_alias = alias,
       ri_span = between start (case alias of None \<Rightarrow> stop | Some ident \<Rightarrow> sp_end (id_span ident))\<rparr>))))"

definition parse_projection :: "gql_token \<Rightarrow> return_clause parser" where
  "parse_projection keyword =
     pbind (consumed TDistinct) (\<lambda>distinct.
     pbind (separated TComma parse_return_item) (\<lambda>items.
     preturn \<lparr>rc_distinct = distinct, rc_items = items, rc_span = join_span (tk_span keyword) (ri_span (last items))\<rparr>))"

definition parse_return_clause :: "return_clause parser" where
  "parse_return_clause = pbind (expect TReturn ''expected RETURN clause'') parse_projection"

definition parse_with_clause :: "return_clause parser" where
  "parse_with_clause = pbind (expect_ident_keyword ''WITH'' ''expected WITH clause'') parse_projection"

definition parse_sort_item :: "sort_item parser" where
  "parse_sort_item =
     pbind current_start (\<lambda>start.
     pbind parse_ident (\<lambda>ident.
     pbind (optional_after TDot parse_property_path) (\<lambda>property.
     pbind (consumed TDesc) (\<lambda>desc.
     pbind (if desc then preturn None else consume TAsc) (\<lambda>_.
     pbind previous_end (\<lambda>stop.
     preturn \<lparr>si_key = (case property of
         Some property \<Rightarrow> KeyProperty ident property (join_span (id_span ident) (id_span property))
       | None \<Rightarrow> KeyAlias ident (id_span ident)),
       si_desc = desc, si_span = between start stop\<rparr>))))))"

definition parse_order_by :: "sort_item list parser" where
  "parse_order_by = separated TComma parse_sort_item"

section \<open>Write clauses\<close>

definition operand_span :: "gql_operand \<Rightarrow> gql_span" where
  "operand_span v =
     (case v of OpProperty _ _ sp \<Rightarrow> sp | OpIdentity _ sp \<Rightarrow> sp | OpLiteral (LitValue _ sp) \<Rightarrow> sp
      | OpParam _ sp \<Rightarrow> sp | OpList _ sp \<Rightarrow> sp)"

definition parse_create_clause :: "std_tables \<Rightarrow> node_pat clause parser" where
  "parse_create_clause u =
     pbind (expect TCreate ''expected CREATE clause'') (\<lambda>t.
     pbind (parse_node_pat u) (\<lambda>node. preturn (Clause node (join_span (tk_span t) (np_span node)))))"

definition parse_create_relationship_clause :: "std_tables \<Rightarrow> gql_pattern clause parser" where
  "parse_create_relationship_clause u =
     pbind (expect TCreate ''expected CREATE clause'') (\<lambda>t.
     pbind (parse_pattern u) (\<lambda>pattern. preturn (Clause pattern (join_span (tk_span t) (pt_span pattern)))))"

definition parse_merge_clause :: "std_tables \<Rightarrow> node_pat clause parser" where
  "parse_merge_clause u =
     pbind (expect TMerge ''expected MERGE clause'') (\<lambda>t.
     pbind (parse_node_pat u) (\<lambda>node. preturn (Clause node (join_span (tk_span t) (np_span node)))))"

definition parse_set_clause :: "std_tables \<Rightarrow> set_clause parser" where
  "parse_set_clause u =
     pbind (expect TSet ''expected SET clause'') (\<lambda>t.
     pbind parse_property_ref (\<lambda>target.
     pbind (expect TEq ''expected '=' in SET clause'') (\<lambda>_.
     pbind (parse_literal_or_param u) (\<lambda>v.
     preturn \<lparr>sc_target = target, sc_value = v, sc_span = join_span (tk_span t) (operand_span v)\<rparr>))))"

definition parse_delete_clause :: "gql_ident clause parser" where
  "parse_delete_clause =
     pbind (expect TDelete ''expected DELETE clause'') (\<lambda>t.
     pbind parse_ident (\<lambda>var. preturn (Clause var (join_span (tk_span t) (id_span var)))))"

definition parse_detach_delete_clause :: "gql_ident clause parser" where
  "parse_detach_delete_clause =
     pbind (expect TDetach ''expected DETACH clause'') (\<lambda>t.
     pbind (expect TDelete ''expected DELETE after DETACH'') (\<lambda>_.
     pbind parse_ident (\<lambda>var. preturn (Clause var (join_span (tk_span t) (id_span var))))))"

definition remove_target_span :: "remove_target \<Rightarrow> gql_span" where
  "remove_target_span r = (case r of RemoveProperty p \<Rightarrow> pr_span p | RemoveLabel _ _ sp \<Rightarrow> sp)"

definition parse_remove_clause :: "remove_target clause parser" where
  "parse_remove_clause =
     pbind (expect TRemove ''expected REMOVE clause'') (\<lambda>t.
     pbind parse_ident (\<lambda>var.
     pbind (consume TDot) (\<lambda>dot.
     pbind (case dot of
         Some _ \<Rightarrow>
           pbind parse_property_path (\<lambda>property.
           preturn (RemoveProperty
             \<lparr>pr_var = var, pr_property = property, pr_span = join_span (id_span var) (id_span property)\<rparr>))
       | None \<Rightarrow>
           pbind (consume TColon) (\<lambda>colon. case colon of
             Some _ \<Rightarrow>
               pbind parse_ident (\<lambda>label.
               preturn (RemoveLabel var label (join_span (id_span var) (id_span label))))
           | None \<Rightarrow> perror (syntax_error (id_span var)
               (lit ''expected property or label target in REMOVE clause'')))) (\<lambda>target.
     preturn (Clause target (join_span (tk_span t) (remove_target_span target)))))))"

section \<open>Statements\<close>

definition parse_where :: "std_tables \<Rightarrow> gql_expr option parser" where
  "parse_where u = optional_after TWhere (parse_expr u)"

text \<open>The end of every statement; \<open>reject_known_later_clauses\<close> accepts everything.\<close>

definition finish_statement :: "u32 parser" where
  "finish_statement = pbind (expect TEof ''expected end of query'') (\<lambda>t. preturn (sp_end (tk_span t)))"

definition parse_query :: "std_tables \<Rightarrow> gql_query parser" where
  "parse_query u =
     pbind current_start (\<lambda>start.
     pbind (parse_match_clause u) (\<lambda>matched.
     pbind (parse_where u) (\<lambda>condition.
     pbind (ploop (\<lambda>withs.
         pbind (peek_ident_keyword ''WITH'') (\<lambda>found.
           if found then pbind parse_with_clause (\<lambda>c. preturn (Some (withs @ [c]))) else preturn None)) []) (\<lambda>withs.
     pbind parse_return_clause (\<lambda>returned.
     pbind (when_consumed TOrder []
       (pbind (expect TBy ''expected BY after ORDER'') (\<lambda>_. parse_order_by))) (\<lambda>order_by.
     pbind (optional_after TSkip (parse_u64 ''SKIP'')) (\<lambda>skip.
     pbind (optional_after TLimit (parse_u64 ''LIMIT'')) (\<lambda>limit.
     pbind finish_statement (\<lambda>stop.
     preturn \<lparr>q_match = matched, q_where = condition, q_with = withs, q_return = returned, q_order_by = order_by,
       q_skip = skip, q_limit = limit, q_span = between start stop\<rparr>)))))))))"

definition parse_create_query :: "std_tables \<Rightarrow> create_query parser" where
  "parse_create_query u =
     pbind current_start (\<lambda>start.
     pbind (parse_create_clause u) (\<lambda>create.
     pbind parse_return_clause (\<lambda>returned.
     pbind finish_statement (\<lambda>stop.
     preturn \<lparr>cq_create = create, cq_return = returned, cq_span = between start stop\<rparr>))))"

definition parse_create_relationship_query :: "std_tables \<Rightarrow> create_relationship_query parser" where
  "parse_create_relationship_query u =
     pbind current_start (\<lambda>start.
     pbind (parse_match_clause u) (\<lambda>matched.
     pbind (parse_create_relationship_clause u) (\<lambda>create.
     pbind parse_return_clause (\<lambda>returned.
     pbind finish_statement (\<lambda>stop.
     preturn \<lparr>crq_match = matched, crq_create = create, crq_return = returned, crq_span = between start stop\<rparr>)))))"

definition merge_branches :: "std_tables \<Rightarrow> (set_clause option \<times> set_clause option) parser" where
  "merge_branches u =
     ploop (\<lambda>(on_create, on_match).
       optional_after TOn
         (pbind peek (\<lambda>k.
            if k = TCreate \<and> on_create = None then
              pbind advance (\<lambda>_. pbind (parse_set_clause u) (\<lambda>c. preturn (Some c, on_match)))
            else if k = TMatch \<and> on_match = None then
              pbind advance (\<lambda>_. pbind (parse_set_clause u) (\<lambda>c. preturn (on_create, Some c)))
            else if k = TCreate \<or> k = TMatch then
              pbind current (\<lambda>t. perror (syntax_error (tk_span t) (lit ''duplicate MERGE branch'')))
            else pbind current (\<lambda>t. perror (syntax_error (tk_span t) (lit ''expected CREATE or MATCH after ON''))))))
       (None, None)"

definition parse_merge_query :: "std_tables \<Rightarrow> merge_query parser" where
  "parse_merge_query u =
     pbind current_start (\<lambda>start.
     pbind (parse_merge_clause u) (\<lambda>merge.
     pbind (merge_branches u) (\<lambda>(on_create, on_match).
     pbind parse_return_clause (\<lambda>returned.
     pbind finish_statement (\<lambda>stop.
     preturn \<lparr>mq_merge = merge, mq_on_create = on_create, mq_on_match = on_match, mq_return = returned,
       mq_span = between start stop\<rparr>)))))"

definition parse_write_query :: "std_tables \<Rightarrow> 'w parser \<Rightarrow> 'w write_query parser" where
  "parse_write_query u parse_write =
     pbind current_start (\<lambda>start.
     pbind (parse_match_clause u) (\<lambda>matched.
     pbind (parse_where u) (\<lambda>condition.
     pbind parse_write (\<lambda>write.
     pbind parse_return_clause (\<lambda>returned.
     pbind finish_statement (\<lambda>stop.
     preturn \<lparr>wq_match = matched, wq_where = condition, wq_write = write, wq_return = returned,
       wq_span = between start stop\<rparr>))))))"

definition parse_set_query :: "std_tables \<Rightarrow> set_clause write_query parser" where
  "parse_set_query u = parse_write_query u (parse_set_clause u)"

definition parse_remove_query :: "std_tables \<Rightarrow> remove_target clause write_query parser" where
  "parse_remove_query u = parse_write_query u parse_remove_clause"

definition parse_delete_query :: "std_tables \<Rightarrow> gql_ident clause write_query parser" where
  "parse_delete_query u = parse_write_query u parse_delete_clause"

definition parse_detach_delete_query :: "std_tables \<Rightarrow> gql_ident clause write_query parser" where
  "parse_detach_delete_query u = parse_write_query u parse_detach_delete_clause"

definition statement_contains_before_return :: "tok_kind \<Rightarrow> bool parser" where
  "statement_contains_before_return kind = (\<lambda>ts i.
     Inr (kind \<in> tk_kind ` set (takeWhile (\<lambda>t. tk_kind t \<noteq> TReturn \<and> tk_kind t \<noteq> TEof) (drop i ts)), i))"

definition parse_statement_tokens :: "std_tables \<Rightarrow> gql_statement parser" where
  "parse_statement_tokens u =
     pbind peek (\<lambda>k.
       if k = TCreate then pbind (parse_create_query u) (\<lambda>q. preturn (StCreate q))
       else if k = TMerge then pbind (parse_merge_query u) (\<lambda>q. preturn (StMerge q))
       else
         pbind (statement_contains_before_return TCreate) (\<lambda>has_create.
         pbind (statement_contains_before_return TSet) (\<lambda>has_set.
         pbind (statement_contains_before_return TRemove) (\<lambda>has_remove.
         pbind (statement_contains_before_return TDetach) (\<lambda>has_detach.
         pbind (statement_contains_before_return TDelete) (\<lambda>has_delete.
           if (k = TMatch \<or> k = TOptional) \<and> has_create then
             pbind (parse_create_relationship_query u) (\<lambda>q. preturn (StCreateRelationship q))
           else if (k = TMatch \<or> k = TOptional) \<and> has_set then pbind (parse_set_query u) (\<lambda>q. preturn (StSet q))
           else if (k = TMatch \<or> k = TOptional) \<and> has_remove then pbind (parse_remove_query u) (\<lambda>q. preturn (StRemove q))
           else if (k = TMatch \<or> k = TOptional) \<and> has_detach then
             pbind (parse_detach_delete_query u) (\<lambda>q. preturn (StDetachDelete q))
           else if (k = TMatch \<or> k = TOptional) \<and> has_delete then pbind (parse_delete_query u) (\<lambda>q. preturn (StDelete q))
           else pbind (parse_query u) (\<lambda>q. preturn (StRead q))))))))"

definition parse :: "std_tables \<Rightarrow> rtext \<Rightarrow> gql_query gql_result" where
  "parse u input = rbind (tokenize u input) (\<lambda>ts. rbind (parse_query u ts 0) (\<lambda>(q, _). Inr q))"

definition parse_statement :: "std_tables \<Rightarrow> rtext \<Rightarrow> gql_statement gql_result" where
  "parse_statement u input =
     rbind (tokenize u input) (\<lambda>ts. rbind (parse_statement_tokens u ts 0) (\<lambda>(st, _). Inr st))"

end
