(* ===== verification/GqlParsing.thy ===== *)
theory GqlParsing
  imports GqlParser
begin

text \<open>
  Languages of tokens and the rules by which a parser is shown to accept only words of one. \<open>accepts p L\<close>: from any
  position, \<open>p\<close> neither panics nor runs out of fuel, only moves forward, and the tokens it consumed
  for a result \<open>x\<close> are a word of \<open>L x\<close>.
\<close>

section \<open>Languages\<close>

type_synonym lang = "gql_token list set"

definition conc :: "lang \<Rightarrow> lang \<Rightarrow> lang" where
  "conc A B = {v @ w |v w. v \<in> A \<and> w \<in> B}"

lemma conc_assoc [simp]: "conc (conc A B) C = conc A (conc B C)"
  by (auto simp: conc_def) (metis append.assoc)+

lemma conc_eps [simp]: "conc {[]} A = A" "conc A {[]} = A"
  by (auto simp: conc_def)

lemma conc_empty [simp]: "conc {} A = {}" "conc A {} = {}"
  by (auto simp: conc_def)

lemma concI [intro]: "v \<in> A \<Longrightarrow> w \<in> B \<Longrightarrow> v @ w \<in> conc A B"
  by (auto simp: conc_def)

lemma conc_mono: "A \<subseteq> A' \<Longrightarrow> B \<subseteq> B' \<Longrightarrow> conc A B \<subseteq> conc A' B'"
  by (auto simp: conc_def)

lemma conc_Un [simp]: "conc (A \<union> B) C = conc A C \<union> conc B C" "conc A (B \<union> C) = conc A B \<union> conc A C"
  by (auto simp: conc_def)

lemma Nil_in_conc [simp]: "[] \<in> conc A B \<longleftrightarrow> [] \<in> A \<and> [] \<in> B"
  by (auto simp: conc_def)

definition tok :: "tok_kind \<Rightarrow> lang" where
  "tok k = {[t] |t. tk_kind t = k}"

lemma Nil_tok [simp]: "[] \<notin> tok k"
  by (simp add: tok_def)

definition opt_lang :: "('a \<Rightarrow> lang) \<Rightarrow> 'a option \<Rightarrow> lang" where
  "opt_lang L x = (case x of None \<Rightarrow> {[]} | Some y \<Rightarrow> L y)"

lemma opt_lang_simps [simp]: "opt_lang L None = {[]}" "opt_lang L (Some x) = L x"
  by (simp_all add: opt_lang_def)

fun sep_lang :: "tok_kind \<Rightarrow> ('a \<Rightarrow> lang) \<Rightarrow> 'a list \<Rightarrow> lang" where
  "sep_lang k L [] = {}"
| "sep_lang k L [x] = L x"
| "sep_lang k L (x # y # xs) = conc (L x) (conc (tok k) (sep_lang k L (y # xs)))"

lemma sep_lang_snoc: "xs \<noteq> [] \<Longrightarrow> sep_lang k L (xs @ [y]) = conc (sep_lang k L xs) (conc (tok k) (L y))"
  by (induction k L xs rule: sep_lang.induct) auto

primrec many_lang :: "('a \<Rightarrow> lang) \<Rightarrow> 'a list \<Rightarrow> lang" where
  "many_lang L [] = {[]}"
| "many_lang L (x # xs) = conc (L x) (many_lang L xs)"

lemma many_lang_append [simp]: "many_lang L (xs @ ys) = conc (many_lang L xs) (many_lang L ys)"
  by (induction xs) auto

section \<open>Parsers\<close>

definition outcome :: "gql_token list \<Rightarrow> nat \<Rightarrow> nat \<Rightarrow> ('a \<Rightarrow> lang) \<Rightarrow> ('a \<times> usize) gql_result \<Rightarrow> bool" where
  "outcome ts h i L r \<longleftrightarrow>
     (case r of Inl f \<Rightarrow> f \<noteq> Panic | Inr (x, j) \<Rightarrow> i \<le> j \<and> j < length ts \<and> slice h j ts \<in> L x)"

definition accepts :: "'a parser \<Rightarrow> ('a \<Rightarrow> lang) \<Rightarrow> bool" where
  "accepts p L \<longleftrightarrow> (\<forall>ts i. tokens_ok ts \<longrightarrow> i < length ts \<longrightarrow> outcome ts i i L (p ts i))"

text \<open>The same with words of \<open>A\<close> consumed before, and a current token of a kind in \<open>K\<close>.\<close>

definition after :: "lang \<Rightarrow> tok_kind set \<Rightarrow> 'a parser \<Rightarrow> ('a \<Rightarrow> lang) \<Rightarrow> bool" where
  "after A K p L \<longleftrightarrow>
     (\<forall>ts h i. tokens_ok ts \<longrightarrow> h \<le> i \<longrightarrow> i < length ts \<longrightarrow> slice h i ts \<in> A \<longrightarrow> tk_kind (ts ! i) \<in> K \<longrightarrow>
        outcome ts h i L (p ts i))"

lemma outcome_simps [simp]:
  "outcome ts h i L (Inl f) \<longleftrightarrow> f \<noteq> Panic"
  "outcome ts h i L (Inr (x, j)) \<longleftrightarrow> i \<le> j \<and> j < length ts \<and> slice h j ts \<in> L x"
  by (simp_all add: outcome_def)

lemma afterI:
  "(\<And>ts h i. tokens_ok ts \<Longrightarrow> h \<le> i \<Longrightarrow> i < length ts \<Longrightarrow> slice h i ts \<in> A \<Longrightarrow> tk_kind (ts ! i) \<in> K \<Longrightarrow>
    outcome ts h i L (p ts i)) \<Longrightarrow> after A K p L"
  unfolding after_def by blast

lemma afterD:
  "after A K p L \<Longrightarrow> tokens_ok ts \<Longrightarrow> h \<le> i \<Longrightarrow> i < length ts \<Longrightarrow> slice h i ts \<in> A \<Longrightarrow> tk_kind (ts ! i) \<in> K \<Longrightarrow>
    outcome ts h i L (p ts i)"
  unfolding after_def by blast

lemma acceptsD: "accepts p L \<Longrightarrow> tokens_ok ts \<Longrightarrow> i < length ts \<Longrightarrow> outcome ts i i L (p ts i)"
  unfolding accepts_def by blast

lemma acceptsI: "after {[]} UNIV p L \<Longrightarrow> accepts p L"
  unfolding accepts_def by (intro allI impI, erule afterD) (simp_all add: slice_def)

lemma after_return: "A \<subseteq> L x \<Longrightarrow> after A K (preturn x) L"
  by (rule afterI) (auto simp: preturn_def)

lemma after_error: "e \<noteq> Panic \<Longrightarrow> after A K (perror e) L"
  by (rule afterI) (simp add: perror_def)

lemma slice_join: "h \<le> i \<Longrightarrow> i \<le> j \<Longrightarrow> slice h j ts = slice h i ts @ slice i j ts"
  using take_add [of "i - h" "j - i" "drop h ts"] by (simp add: slice_def)

lemma outcome_join:
  assumes "outcome ts i i M r" "h \<le> i" "slice h i ts \<in> A" "\<And>x. conc A (M x) \<subseteq> L x"
  shows "outcome ts h i L r"
proof (cases r)
  case (Inr y)
  obtain x j where y: "y = (x, j)" by (cases y)
  with assms(1-3) Inr have "slice h j ts \<in> conc A (M x)" by (simp add: slice_join [of h i j] concI)
  with assms(1,4) Inr y show ?thesis by auto
qed (use assms(1) in simp)

lemma accepts_after:
  assumes "accepts p M" "\<And>x. conc A (M x) \<subseteq> L x"
  shows "after A K p L"
  by (rule afterI, rule outcome_join [OF acceptsD [OF assms(1)] _ _ assms(2)])

lemma after_bind_after:
  assumes p: "after A K p M" and q: "\<And>x. after (M x) UNIV (q x) L"
  shows "after A K (pbind p q) L"
proof (rule afterI)
  fix ts h i assume *: "tokens_ok ts" "h \<le> i" "i < length ts" "slice h i ts \<in> A" "tk_kind (ts ! i) \<in> K"
  have pr: "outcome ts h i M (p ts i)" by (rule afterD [OF p *])
  show "outcome ts h i L (pbind p q ts i)"
  proof (cases "p ts i")
    case (Inr r)
    obtain x j where r: "r = (x, j)" by (cases r)
    with pr Inr have j: "i \<le> j" "j < length ts" "slice h j ts \<in> M x" by simp_all
    have o: "outcome ts h j L (q x ts j)" by (rule afterD [OF q *(1) _ j(2,3)]) (use *(2) j(1) in auto)
    have run: "pbind p q ts i = q x ts j" using Inr r by (simp add: pbind_def)
    show ?thesis unfolding run using o j(1) by (cases "q x ts j") auto
  qed (use pr in \<open>simp add: pbind_def\<close>)
qed

lemma after_bind:
  assumes "accepts p M" "\<And>x. after (conc A (M x)) UNIV (q x) L"
  shows "after A K (pbind p q) L"
  by (rule after_bind_after [OF accepts_after [OF assms(1) order_refl] assms(2)])

lemma outcome_mono:
  assumes "outcome ts h i M r" "\<And>x. M x \<subseteq> L x"
  shows "outcome ts h i L r"
proof (cases r)
  case (Inr y)
  then show ?thesis using assms(1) subsetD [OF assms(2)] by (cases y) auto
qed (use assms(1) in simp)

lemma after_mono: "after A K p M \<Longrightarrow> (\<And>x. M x \<subseteq> L x) \<Longrightarrow> after A K p L"
  by (rule afterI, rule outcome_mono, rule afterD)

lemma after_peek:
  assumes "\<And>k. k \<in> K \<Longrightarrow> after A {k} (q k) L"
  shows "after A K (pbind peek q) L"
proof (rule afterI)
  fix ts h i assume *: "tokens_ok ts" "h \<le> i" "i < length ts" "slice h i ts \<in> A" "tk_kind (ts ! i) \<in> K"
  have "pbind peek q ts i = q (tk_kind (ts ! i)) ts i"
    using *(3) by (simp add: pbind_def peek_def current_def preturn_def)
  with afterD [OF assms [OF *(5)] *(1-4)] show "outcome ts h i L (pbind peek q ts i)" by simp
qed

lemma after_current:
  assumes "\<And>t. tk_kind t \<in> K \<Longrightarrow> after A {tk_kind t} (q t) L"
  shows "after A K (pbind current q) L"
proof (rule afterI)
  fix ts h i assume *: "tokens_ok ts" "h \<le> i" "i < length ts" "slice h i ts \<in> A" "tk_kind (ts ! i) \<in> K"
  have "pbind current q ts i = q (ts ! i) ts i" using *(3) by (simp add: pbind_def current_def)
  with afterD [OF assms [OF *(5)] *(1-4)] show "outcome ts h i L (pbind current q ts i)" by simp
qed

lemma tokens_ok_end:
  assumes "tokens_ok ts" "i < length ts"
  shows "tk_kind (ts ! i) = TEof \<longleftrightarrow> i = length ts - 1"
proof -
  obtain us e where u: "ts = us @ [e]" "tk_kind e = TEof" "\<forall>t\<in>set us. tk_kind t \<noteq> TEof"
    using assms(1) by (auto simp: tokens_ok_def)
  show ?thesis using u assms(2) by (cases "i < length us") (auto simp: nth_append)
qed

lemma advance_token:
  assumes "tokens_ok ts" "i < length ts" "tk_kind (ts ! i) \<noteq> TEof"
  shows "advance ts i = Inr (ts ! i, i + 1)" "i + 1 < length ts" "slice i (i + 1) ts = [ts ! i]"
proof -
  show "advance ts i = Inr (ts ! i, i + 1)" using assms(2,3) by (simp add: advance_def)
  show "i + 1 < length ts" using tokens_ok_end [OF assms(1,2)] assms(2,3) by linarith
  show "slice i (i + 1) ts = [ts ! i]" using assms(2) by (simp add: slice_def Cons_nth_drop_Suc [symmetric])
qed

lemma after_advance:
  assumes "k \<noteq> TEof" and q: "\<And>t. tk_kind t = k \<Longrightarrow> after (conc A (tok k)) UNIV (q t) L"
  shows "after A {k} (pbind advance q) L"
proof (rule afterI)
  fix ts h i assume *: "tokens_ok ts" "h \<le> i" "i < length ts" "slice h i ts \<in> A" "tk_kind (ts ! i) \<in> {k}"
  note adv = advance_token [OF *(1,3)]
  have k: "tk_kind (ts ! i) = k" "tk_kind (ts ! i) \<noteq> TEof" using *(5) assms(1) by simp_all
  have sl: "slice h (i + 1) ts \<in> conc A (tok k)"
    using *(2,4) adv(3) [OF k(2)] k(1) slice_join [of h i "i + 1" ts] by (auto simp: tok_def)
  have o: "outcome ts h (i + 1) L (q (ts ! i) ts (i + 1))"
    by (rule afterD [OF q [OF k(1)] *(1) _ adv(2) [OF k(2)] sl]) (use *(2) in auto)
  have run: "pbind advance q ts i = q (ts ! i) ts (i + 1)" using adv(1) [OF k(2)] by (simp add: pbind_def)
  show "outcome ts h i L (pbind advance q ts i)"
    unfolding run using o by (cases "q (ts ! i) ts (i + 1)") auto
qed

lemma accepts_advance_if:
  assumes "\<And>t. ok t \<Longrightarrow> tk_kind t \<noteq> TEof" "\<And>t. \<not> ok t \<Longrightarrow> e t \<noteq> Panic"
  shows "accepts (pbind advance (\<lambda>t. if ok t then preturn (f t) else perror (e t))) (\<lambda>x. {[t] |t. ok t \<and> x = f t})"
  unfolding accepts_def
proof (intro allI impI)
  fix ts i assume *: "tokens_ok ts" "i < length ts"
  note adv = advance_token [OF this]
  show "outcome ts i i (\<lambda>x. {[t] |t. ok t \<and> x = f t})
    (pbind advance (\<lambda>t. if ok t then preturn (f t) else perror (e t)) ts i)"
  proof (cases "ok (ts ! i)")
    case True
    with adv assms(1) show ?thesis by (simp add: pbind_def preturn_def)
  next
    case False
    then show ?thesis using *(2) assms(2) by (simp add: pbind_def advance_def perror_def)
  qed
qed

text \<open>Control flow is executed symbolically.\<close>

lemma after_if:
  "(b \<Longrightarrow> after A K p L) \<Longrightarrow> (\<not> b \<Longrightarrow> after A K q L) \<Longrightarrow> after A K (if b then p else q) L"
  by simp

lemma after_case_option:
  "(x = None \<Longrightarrow> after A K p L) \<Longrightarrow> (\<And>y. x = Some y \<Longrightarrow> after A K (q y) L) \<Longrightarrow>
    after A K (case x of None \<Rightarrow> p | Some y \<Rightarrow> q y) L"
  by (cases x) simp_all

lemma after_case_sum:
  "(\<And>y. x = Inl y \<Longrightarrow> after A K (p y) L) \<Longrightarrow> (\<And>y. x = Inr y \<Longrightarrow> after A K (q y) L) \<Longrightarrow>
    after A K (case x of Inl y \<Rightarrow> p y | Inr y \<Rightarrow> q y) L"
  by (cases x) simp_all

lemma after_case_prod:
  "(\<And>y z. x = (y, z) \<Longrightarrow> after A K (p y z) L) \<Longrightarrow> after A K (case x of (y, z) \<Rightarrow> p y z) L"
  by (cases x) simp

lemma pbind_assoc: "pbind (pbind p q) r = pbind p (\<lambda>x. pbind (q x) r)"
  by (intro ext) (auto simp: pbind_def rbind_assoc intro!: rbind_cong split: prod.split)

lemma pbind_return [simp]: "pbind (preturn x) q = q x"
  by (intro ext) (simp add: pbind_def preturn_def)

lemma pbind_error [simp]: "pbind (perror e) q = perror e"
  by (intro ext) (simp add: pbind_def perror_def)

lemma after_bind_bind: "after A K (pbind p (\<lambda>x. pbind (q x) r)) L \<Longrightarrow> after A K (pbind (pbind p q) r) L"
  by (simp add: pbind_assoc)

lemma after_bind_return: "after A K (q x) L \<Longrightarrow> after A K (pbind (preturn x) q) L"
  by simp

lemma after_bind_error: "e \<noteq> Panic \<Longrightarrow> after A K (pbind (perror e) q) L"
  by (simp add: after_error)

lemma after_bind_if:
  "(b \<Longrightarrow> after A K (pbind p r) L) \<Longrightarrow> (\<not> b \<Longrightarrow> after A K (pbind q r) L) \<Longrightarrow>
    after A K (pbind (if b then p else q) r) L"
  by simp

lemma after_bind_case_option:
  "(x = None \<Longrightarrow> after A K (pbind p r) L) \<Longrightarrow> (\<And>y. x = Some y \<Longrightarrow> after A K (pbind (q y) r) L) \<Longrightarrow>
    after A K (pbind (case x of None \<Rightarrow> p | Some y \<Rightarrow> q y) r) L"
  by (cases x) simp_all

lemma accepts_mono: "accepts p M \<Longrightarrow> (\<And>x. M x \<subseteq> L x) \<Longrightarrow> accepts p L"
  by (rule acceptsI, rule accepts_after) simp_all

lemma syntax_error_Err [simp]: "syntax_error sp m \<noteq> Panic" "unsupported_error sp m \<noteq> Panic"
  by (simp_all add: syntax_error_def unsupported_error_def)

section \<open>Tokens\<close>

definition ident_lang :: "gql_ident \<Rightarrow> lang" where
  "ident_lang x = {[t] |t. tk_kind t = TIdent \<and> tk_text t = id_text x \<and> tk_span t = id_span x}"

definition keyword_lang :: "string \<Rightarrow> lang" where
  "keyword_lang keyword = {[t] |t. is_ident_keyword keyword t}"

named_theorems accept \<open>acceptance of the parsers\<close>

lemma accepts_stay: "(\<And>ts i. i < length ts \<Longrightarrow> \<exists>x. p ts i = Inr (x, i)) \<Longrightarrow> accepts p (\<lambda>_. {[]})"
  unfolding accepts_def by (metis empty_iff insert_iff le_refl outcome_simps(2) slice_def diff_self_eq_0 take_0)

lemma accepts_previous [accept]: "accepts previous (\<lambda>_. {[]})"
  by (rule accepts_stay) (simp add: previous_def)

lemma accepts_current_start [accept]: "accepts current_start (\<lambda>_. {[]})"
  by (rule accepts_stay) (simp add: current_start_def pbind_def current_def preturn_def)

lemma accepts_previous_end [accept]: "accepts previous_end (\<lambda>_. {[]})"
  by (rule accepts_stay) (simp add: previous_end_def pbind_def previous_def preturn_def)

lemma accepts_peek_next [accept]: "accepts peek_next (\<lambda>_. {[]})"
  by (rule accepts_stay) (simp add: peek_next_def)

lemma accepts_peek_ident_keyword [accept]: "accepts (peek_ident_keyword k) (\<lambda>_. {[]})"
  by (rule accepts_stay) (simp add: peek_ident_keyword_def pbind_def current_def preturn_def)

lemma accepts_contains [accept]: "accepts (statement_contains_before_return k) (\<lambda>_. {[]})"
  by (rule accepts_stay) (simp add: statement_contains_before_return_def)

lemma accepts_expect: "k \<noteq> TEof \<Longrightarrow> accepts (expect k m) (\<lambda>_. tok k)"
  unfolding expect_def
  by (rule accepts_mono [OF accepts_advance_if [where f = "\<lambda>t. t"]]) (auto simp: tok_def)

lemma accepts_expect_end: "accepts (expect TEof m) (\<lambda>_. {[]})"
  unfolding accepts_def
proof (intro allI impI)
  fix ts :: "gql_token list" and i assume "tokens_ok ts" "i < length ts"
  then show "outcome ts i i (\<lambda>_. {[]}) (expect TEof m ts i)"
    by (cases "tk_kind (ts ! i) = TEof") (simp_all add: expect_def pbind_def advance_def preturn_def perror_def slice_def)
qed

lemma accepts_expect_ident_keyword [accept]: "accepts (expect_ident_keyword k m) (\<lambda>_. keyword_lang k)"
  unfolding expect_ident_keyword_def
  by (rule accepts_mono [OF accepts_advance_if [where f = "\<lambda>t. t"]])
    (auto simp: keyword_lang_def is_ident_keyword_def)

lemma accepts_consume: "k \<noteq> TEof \<Longrightarrow> accepts (consume k) (\<lambda>r. if r = None then {[]} else tok k)"
  unfolding consume_def
  by (rule acceptsI, rule after_peek, rule after_if) (auto intro!: after_advance after_return)

lemma accepts_consumed: "k \<noteq> TEof \<Longrightarrow> accepts (consumed k) (\<lambda>b. if b then tok k else {[]})"
  unfolding consumed_def
  by (rule acceptsI, rule after_bind [OF accepts_consume], assumption, rule after_return) simp

lemma accepts_when_consumed:
  assumes "k \<noteq> TEof" "accepts p M"
  shows "accepts (when_consumed k d p) (\<lambda>x. (if x = d then {[]} else {}) \<union> conc (tok k) (M x))"
  unfolding when_consumed_def
  by (rule acceptsI, rule after_bind [OF accepts_consume [OF assms(1)]], rule after_case_option)
    (auto intro!: after_return accepts_after [OF assms(2)])

lemma accepts_optional_after:
  assumes "k \<noteq> TEof" "accepts p M"
  shows "accepts (optional_after k p) (opt_lang (\<lambda>x. conc (tok k) (M x)))"
  unfolding optional_after_def when_consumed_def
  by (rule acceptsI, rule after_bind [OF accepts_consume [OF assms(1)]], rule after_case_option)
    (auto intro!: after_return after_bind [OF assms(2)])

lemma accepts_ident [accept]: "accepts parse_ident ident_lang"
proof -
  have eq: "parse_ident = pbind advance (\<lambda>t. if tk_kind t = TIdent then preturn \<lparr>id_text = tk_text t, id_span = tk_span t\<rparr>
      else perror (syntax_error (tk_span t) (lit ''expected identifier'')))"
    by (simp add: parse_ident_def if_not_P cong: if_cong) (intro arg_cong [where f = "pbind advance"] ext, simp)
  show ?thesis unfolding eq by (rule accepts_mono [OF accepts_advance_if]) (auto simp: ident_lang_def)
qed

section \<open>Loops\<close>

lemma after_ploop_fuel:
  assumes body: "\<And>s. accepts (body s) (\<lambda>r. case r of None \<Rightarrow> {[]} | Some s' \<Rightarrow> D s s')"
    and ne: "\<And>s s'. [] \<notin> D s s'" and step: "\<And>s s'. conc (I s) (D s s') \<subseteq> I s'"
  shows "tokens_ok ts \<Longrightarrow> h \<le> i \<Longrightarrow> i < length ts \<Longrightarrow> slice h i ts \<in> I s \<Longrightarrow> length ts - i < n \<Longrightarrow>
    outcome ts h i I (ploop_fuel n body s ts i)"
proof (induction n arbitrary: s i)
  case (Suc n)
  have o: "outcome ts i i (\<lambda>r. case r of None \<Rightarrow> {[]} | Some s' \<Rightarrow> D s s') (body s ts i)"
    by (rule acceptsD [OF body Suc.prems(1,3)])
  show ?case
  proof (cases "body s ts i")
    case (Inl f)
    with o show ?thesis by (simp add: pbind_def)
  next
    case (Inr r)
    obtain x j where r: "r = (x, j)" by (cases r)
    with o Inr have j: "i \<le> j" "j < length ts" by simp_all
    show ?thesis
    proof (cases x)
      case None
      with o Inr r have "slice i j ts = []" by simp
      then have "slice h j ts = slice h i ts" using slice_join [OF Suc.prems(2) j(1), of ts] by simp
      with Inr r None j Suc.prems show ?thesis by (simp add: pbind_def preturn_def)
    next
      case (Some s')
      with o Inr r have d: "slice i j ts \<in> D s s'" by simp
      with ne have ij: "i < j" using j(1) by (cases "i = j") (auto simp: slice_def)
      have "slice h j ts \<in> I s'"
        using step [of s s'] Suc.prems(2,4) d slice_join [OF Suc.prems(2) j(1), of ts] by auto
      then have "outcome ts h j I (ploop_fuel n body s' ts j)"
        using Suc.prems j ij by (intro Suc.IH) auto
      then have "outcome ts h i I (ploop_fuel n body s' ts j)"
        using j(1) by (cases "ploop_fuel n body s' ts j") auto
      with Inr r Some show ?thesis by (simp add: pbind_def)
    qed
  qed
qed simp

lemma after_ploop:
  assumes "\<And>s. accepts (body s) (\<lambda>r. case r of None \<Rightarrow> {[]} | Some s' \<Rightarrow> D s s')"
    and "\<And>s s'. [] \<notin> D s s'" and "\<And>s s'. conc (I s) (D s s') \<subseteq> I s'" and "A \<subseteq> I s0"
  shows "after A K (ploop body s0) I"
  unfolding ploop_def by (intro afterI after_ploop_fuel [OF assms(1-3)]) (use assms(4) in auto)

lemma accepts_ploop:
  assumes "\<And>s. accepts (body s) (\<lambda>r. case r of None \<Rightarrow> {[]} | Some s' \<Rightarrow> D s s')"
    and "\<And>s s'. [] \<notin> D s s'" and "\<And>s s'. conc (I s) (D s s') \<subseteq> I s'" and "[] \<in> I s0"
  shows "accepts (ploop body s0) I"
  by (rule acceptsI, rule after_ploop [OF assms(1-3)]) (use assms(4) in simp)

lemma after_ploop_sep:
  assumes "k \<noteq> TEof" "\<And>s. accepts (p s) (M s)" "\<And>s s'. conc (I s) (conc (tok k) (M s s')) \<subseteq> I s'" "A \<subseteq> I s0"
  shows "after A K (ploop (\<lambda>s. optional_after k (p s)) s0) I"
  by (rule after_ploop [where D = "\<lambda>s s'. conc (tok k) (M s s')",
        OF accepts_optional_after [OF assms(1,2), unfolded opt_lang_def]])
    (use assms(3,4) in auto)

lemma accepts_separated:
  assumes "sep \<noteq> TEof" "accepts p M"
  shows "accepts (separated sep p) (sep_lang sep M)"
proof -
  let ?M = "\<lambda>xs ys. {w. \<exists>y. ys = xs @ [y] \<and> w \<in> M y}" and ?I = "\<lambda>xs. if xs = [] then {} else sep_lang sep M xs"
  have body: "accepts (pbind p (\<lambda>y. preturn (xs @ [y]))) (?M xs)" for xs
    by (rule acceptsI, rule after_bind [OF assms(2)], rule after_return) auto
  have loop: "after A K (ploop (\<lambda>xs. optional_after sep (pbind p (\<lambda>y. preturn (xs @ [y])))) [x]) ?I"
    if "A \<subseteq> M x" for A K x
    by (rule after_ploop_sep [OF assms(1) body]) (use that in \<open>auto simp: sep_lang_snoc conc_def\<close>)
  show ?thesis unfolding separated_def
    by (rule acceptsI, rule after_bind [OF assms(2)], rule after_mono [OF loop]) simp_all
qed

section \<open>Automation\<close>

lemma not_end:
  "TLParen \<noteq> TEof" "TRParen \<noteq> TEof" "TLBracket \<noteq> TEof" "TRBracket \<noteq> TEof" "TLBrace \<noteq> TEof"
  "TRBrace \<noteq> TEof" "TColon \<noteq> TEof" "TComma \<noteq> TEof" "TPipe \<noteq> TEof" "TDot \<noteq> TEof"
  "TDollar \<noteq> TEof" "TStar \<noteq> TEof" "TDotDot \<noteq> TEof" "TDash \<noteq> TEof" "TArrowRight \<noteq> TEof"
  "TArrowLeft \<noteq> TEof" "TEq \<noteq> TEof" "TMatch \<noteq> TEof" "TOptional \<noteq> TEof" "TCreate \<noteq> TEof"
  "TSet \<noteq> TEof" "TRemove \<noteq> TEof" "TDetach \<noteq> TEof" "TMerge \<noteq> TEof" "TOn \<noteq> TEof"
  "TDelete \<noteq> TEof" "TWhere \<noteq> TEof" "TReturn \<noteq> TEof" "TDistinct \<noteq> TEof" "TOrder \<noteq> TEof"
  "TBy \<noteq> TEof" "TAsc \<noteq> TEof" "TDesc \<noteq> TEof" "TSkip \<noteq> TEof" "TLimit \<noteq> TEof"
  "TAnd \<noteq> TEof" "TOr \<noteq> TEof" "TNot \<noteq> TEof" "TIs \<noteq> TEof" "TNull \<noteq> TEof"
  "TAs \<noteq> TEof"
  by simp_all

lemma after_expect:
  "k \<noteq> TEof \<Longrightarrow> (\<And>x. after (conc A (tok k)) UNIV (q x) L) \<Longrightarrow> after A K (pbind (expect k m) q) L"
  by (rule after_bind [OF accepts_expect])

lemma after_consume:
  assumes "k \<noteq> TEof" "after A UNIV (q None) L" "\<And>t. after (conc A (tok k)) UNIV (q (Some t)) L"
  shows "after A K (pbind (consume k) q) L"
proof (rule after_bind [OF accepts_consume [OF assms(1)]])
  show "after (conc A (if x = None then {[]} else tok k)) UNIV (q x) L" for x
    using assms(2,3) by (cases x) simp_all
qed

lemma after_consumed:
  assumes "k \<noteq> TEof" "after A UNIV (q False) L" "after (conc A (tok k)) UNIV (q True) L"
  shows "after A K (pbind (consumed k) q) L"
proof (rule after_bind [OF accepts_consumed [OF assms(1)]])
  show "after (conc A (if x then tok k else {[]})) UNIV (q x) L" for x
    using assms(2,3) by (cases x) simp_all
qed

lemma after_optional:
  assumes "k \<noteq> TEof" "accepts p M" "\<And>x. after (conc A (opt_lang (\<lambda>x. conc (tok k) (M x)) x)) UNIV (q x) L"
  shows "after A K (pbind (optional_after k p) q) L"
  by (rule after_bind [OF accepts_optional_after [OF assms(1,2)] assms(3)])

lemma after_when:
  assumes "k \<noteq> TEof" "accepts p M" "\<And>x. after (conc A ((if x = d then {[]} else {}) \<union> conc (tok k) (M x))) UNIV (q x) L"
  shows "after A K (pbind (when_consumed k d p) q) L"
  by (rule after_bind [OF accepts_when_consumed [OF assms(1,2)] assms(3)])

lemma after_separated:
  assumes "k \<noteq> TEof" "accepts p M" "\<And>xs. after (conc A (sep_lang k M xs)) UNIV (q xs) L"
  shows "after A K (pbind (separated k p) q) L"
  by (rule after_bind [OF accepts_separated [OF assms(1,2)] assms(3)])

lemma after_if_kind:
  "after A {c} p L \<Longrightarrow> (k \<noteq> c \<Longrightarrow> after A {k} q L) \<Longrightarrow> after A {k} (if k = c then p else q) L"
  by simp

lemmas run = not_end syntax_error_Err after_if_kind after_if after_case_option after_case_sum after_case_prod after_bind_bind after_bind_return
  after_bind_error after_bind_if after_bind_case_option after_peek after_current after_advance after_error after_expect after_consume
  after_consumed after_optional after_when after_separated after_return

end
