(* ===== verification/GqlGrammar.thy ===== *)
theory GqlGrammar
  imports GqlParsing
begin

text \<open>
  The grammar of the query language: for every syntax tree the token sequences it stands for, with
  the precedence and associativity of the operators. The parser accepts only what its result
  stands for.
\<close>

section \<open>Operands\<close>

definition literal_lang :: "std_tables \<Rightarrow> gql_literal \<Rightarrow> lang" where
  "literal_lang u x = {[t] |t. \<exists>v. x = LitValue v (tk_span t) \<and> literal_of u t = Inr v}"

inductive_set path_words :: "(rtext \<times> gql_token list) set" where
  path_one: "tk_kind t = TIdent \<Longrightarrow> (tk_text t, [t]) \<in> path_words"
| path_more: "(text, ws) \<in> path_words \<Longrightarrow> tk_kind d = TDot \<Longrightarrow> tk_kind t = TIdent \<Longrightarrow>
    (text @ 46 # tk_text t, ws @ [d, t]) \<in> path_words"

definition path_lang :: "gql_ident \<Rightarrow> lang" where
  "path_lang x = {ws. (id_text x, ws) \<in> path_words}"

definition unsigned_lang :: "nat \<Rightarrow> nat \<Rightarrow> lang" where
  "unsigned_lang bound n = {[t] |t. tk_kind t = TInt \<and> parse_int bound (tk_text t) = Inr n}"

definition u32_lang :: "u32 \<Rightarrow> lang" where
  "u32_lang x = (\<Union>n\<in>{n. x = word_of_nat n}. unsigned_lang (2 ^ 32 - 1) n)"

definition u64_lang :: "u64 \<Rightarrow> lang" where
  "u64_lang x = (\<Union>n\<in>{n. x = word_of_nat n}. unsigned_lang (2 ^ 64 - 1) n)"

definition list_lang :: "std_tables \<Rightarrow> gql_literal list \<Rightarrow> lang" where
  "list_lang u xs = conc (tok TLBracket)
     (conc (if xs = [] then {[]} else sep_lang TComma (literal_lang u) xs) (tok TRBracket))"

definition id_lang :: lang where
  "id_lang = {[t] |t. tk_kind t = TIdent \<and> tk_text t = lit ''id''}"

fun operand_lang :: "std_tables \<Rightarrow> gql_operand \<Rightarrow> lang" where
  "operand_lang u (OpProperty var property _) = conc (ident_lang var) (conc (tok TDot) (path_lang property))"
| "operand_lang u (OpIdentity var _) = conc id_lang (conc (tok TLParen) (conc (ident_lang var) (tok TRParen)))"
| "operand_lang u (OpLiteral l) = literal_lang u l"
| "operand_lang u (OpParam name _) = conc (tok TDollar) (ident_lang name)"
| "operand_lang u (OpList xs _) = list_lang u xs"

fun cmp_lang :: "cmp_op \<Rightarrow> lang" where
  "cmp_lang CmpEq = tok TEq"
| "cmp_lang CmpNeq = tok TNeq"
| "cmp_lang CmpLt = tok TLt"
| "cmp_lang CmpLte = tok TLte"
| "cmp_lang CmpGt = tok TGt"
| "cmp_lang CmpGte = tok TGte"
| "cmp_lang CmpIn = tok TIn"
| "cmp_lang CmpIsNull = conc (tok TIs) (tok TNull)"
| "cmp_lang CmpIsNotNull = conc (tok TIs) (conc (tok TNot) (tok TNull))"

text \<open>Levels: 0 \<open>OR\<close>, 1 \<open>AND\<close>, 2 \<open>NOT\<close>, 3 a comparison; both binary operators associate to the left.\<close>

fun expr_lang :: "std_tables \<Rightarrow> nat \<Rightarrow> gql_expr \<Rightarrow> lang" where
  "expr_lang u l (EOr a b _) =
     (if l = 0 then conc (expr_lang u 0 a) (conc (tok TOr) (expr_lang u 1 b)) else {})"
| "expr_lang u l (EAnd a b _) =
     (if l \<le> 1 then conc (expr_lang u 1 a) (conc (tok TAnd) (expr_lang u 2 b)) else {})"
| "expr_lang u l (ENot a _) = (if l \<le> 2 then conc (tok TNot) (expr_lang u 2 a) else {})"
| "expr_lang u l (ECompare a cmp b _) =
     conc (operand_lang u a) (conc (cmp_lang cmp)
       (case b of None \<Rightarrow> (if cmp = CmpIsNull \<or> cmp = CmpIsNotNull then {[]} else {})
        | Some r \<Rightarrow> (if cmp = CmpIsNull \<or> cmp = CmpIsNotNull then {} else operand_lang u r)))"

section \<open>Patterns\<close>

text \<open>Property values are literals, lists and parameters.\<close>

definition value_lang :: "std_tables \<Rightarrow> gql_operand \<Rightarrow> lang" where
  "value_lang u v = (case v of OpProperty _ _ _ \<Rightarrow> {} | OpIdentity _ _ \<Rightarrow> {} | _ \<Rightarrow> operand_lang u v)"

definition entry_lang :: "std_tables \<Rightarrow> gql_ident \<times> gql_operand \<Rightarrow> lang" where
  "entry_lang u e = conc (path_lang (fst e)) (conc (tok TColon) (value_lang u (snd e)))"

definition props_lang :: "std_tables \<Rightarrow> (gql_ident \<times> gql_operand) list \<Rightarrow> lang" where
  "props_lang u ps =
     conc (if ps = [] then {[]} else sep_lang TComma (entry_lang u) ps) (tok TRBrace)"

definition braces_lang :: "std_tables \<Rightarrow> (gql_ident \<times> gql_operand) list \<Rightarrow> lang" where
  "braces_lang u ps = (if ps = [] then {[]} else {}) \<union> conc (tok TLBrace) (props_lang u ps)"

definition node_lang :: "std_tables \<Rightarrow> node_pat \<Rightarrow> lang" where
  "node_lang u n = conc (tok TLParen) (conc (opt_lang ident_lang (np_var n))
     (conc (opt_lang (\<lambda>l. conc (tok TColon) (ident_lang l)) (np_label n))
       (conc (braces_lang u (np_props n)) (tok TRParen))))"

definition var_len_lang :: "var_len \<Rightarrow> lang" where
  "var_len_lang v =
     (if vl_min v \<le> vl_max v then
        conc ((if vl_min v = 1 then {[]} else {}) \<union> u32_lang (vl_min v)) (conc (tok TDotDot) (u32_lang (vl_max v)))
      else {})"

definition detail_words :: "std_tables \<Rightarrow> rel_detail \<Rightarrow> lang" where
  "detail_words u d = (case d of (var, rel_types, var_len, props) \<Rightarrow>
     conc (opt_lang ident_lang var)
       (conc ((if rel_types = [] then {[]} else {}) \<union> conc (tok TColon) (sep_lang TPipe ident_lang rel_types))
         (conc (opt_lang (\<lambda>v. conc (tok TStar) (var_len_lang v)) var_len)
           (conc (braces_lang u props) (tok TRBracket)))))"

definition detail_lang :: "std_tables \<Rightarrow> rel_detail \<Rightarrow> lang" where
  "detail_lang u d = (if d = (None, [], None, []) then {[]} else {}) \<union> conc (tok TLBracket) (detail_words u d)"

definition rel_lang :: "std_tables \<Rightarrow> rel_pat \<Rightarrow> lang" where
  "rel_lang u r =
     conc (tok (if rp_direction r = DirIn then TArrowLeft else TDash))
       (conc (detail_lang u (rp_var r, rp_rel_types r, rp_var_len r, rp_props r))
         (tok (if rp_direction r = DirOut then TArrowRight else TDash)))"

definition pattern_lang :: "std_tables \<Rightarrow> gql_pattern \<Rightarrow> lang" where
  "pattern_lang u p =
     conc (opt_lang (\<lambda>x. conc (ident_lang x) (tok TEq)) (pt_path_var p))
       (conc (node_lang u (pt_start p)) (many_lang (\<lambda>(r, n). conc (rel_lang u r) (node_lang u n)) (pt_tail p)))"

definition match_lang :: "std_tables \<Rightarrow> match_clause \<Rightarrow> lang" where
  "match_lang u m =
     (if mc_patterns m \<noteq> [] \<and> mc_pattern m = hd (mc_patterns m) then
        conc (if mc_optional m then tok TOptional else {[]})
          (conc (tok TMatch) (sep_lang TComma (pattern_lang u) (mc_patterns m)))
      else {})"

section \<open>Acceptance: operands\<close>

lemma accepts_literal [accept]: "accepts (parse_literal u) (literal_lang u)"
proof -
  have eq: "parse_literal u = pbind advance (\<lambda>t. if \<exists>v. literal_of u t = Inr v
      then preturn (LitValue (THE v. literal_of u t = Inr v) (tk_span t))
      else perror (syntax_error (tk_span t) (THE m. literal_of u t = Inl m)))"
    unfolding parse_literal_def by (rule arg_cong [where f = "pbind advance"]) (auto split: sum.split)
  show ?thesis unfolding eq
    by (rule accepts_mono [OF accepts_advance_if]) (auto simp: literal_lang_def literal_of_def)
qed

lemma accepts_unsigned [accept]: "accepts (parse_unsigned b label) (unsigned_lang b)"
proof -
  have eq: "parse_unsigned b label = pbind advance (\<lambda>t. if tk_kind t = TInt \<and> (\<exists>n. parse_int b (tk_text t) = Inr n)
      then preturn (THE n. parse_int b (tk_text t) = Inr n)
      else perror (if tk_kind t = TInt then syntax_error (tk_span t) (lit ''invalid '' @ lit label @ lit '': '' @
          (THE m. parse_int b (tk_text t) = Inl m))
        else syntax_error (tk_span t) (lit label @ lit '' requires an integer'')))"
    unfolding parse_unsigned_def by (rule arg_cong [where f = "pbind advance"]) (auto split: sum.split)
  show ?thesis unfolding eq
    by (rule accepts_mono [OF accepts_advance_if]) (auto simp: unsigned_lang_def)
qed

lemma accepts_u32 [accept]: "accepts (parse_u32 label) u32_lang"
  unfolding parse_u32_def u32_lang_def by (rule acceptsI, rule after_bind [OF accepts_unsigned], rule after_return) auto

lemma accepts_u64 [accept]: "accepts (parse_u64 label) u64_lang"
  unfolding parse_u64_def u64_lang_def by (rule acceptsI, rule after_bind [OF accepts_unsigned], rule after_return) auto

lemma path_snoc:
  "(str, ws) \<in> path_words \<Longrightarrow> d \<in> tok TDot \<Longrightarrow> v \<in> ident_lang part \<Longrightarrow> (str @ 46 # id_text part, ws @ d @ v) \<in> path_words"
  using path_more [of str ws "hd d" "hd v"] by (auto simp: tok_def ident_lang_def)

lemma accepts_property_path [accept]: "accepts parse_property_path path_lang"
proof -
  let ?step = "\<lambda>s :: rtext \<times> u32. pbind parse_ident (\<lambda>part. preturn (fst s @ [46] @ id_text part, sp_end (id_span part)))"
  let ?M = "\<lambda>s s'. {w. \<exists>part. fst s' = fst s @ 46 # id_text part \<and> w \<in> ident_lang part}"
  let ?I = "\<lambda>s. {ws. (fst s, ws) \<in> path_words}"
  have body: "accepts (?step s) (?M s)" for s
    by (rule acceptsI, rule after_bind [OF accepts_ident], rule after_return) auto
  have loop: "after A K (ploop (\<lambda>s. optional_after TDot (?step s)) s) ?I" if "A \<subseteq> ?I s" for A K s
    by (rule after_ploop_sep [OF _ body]) (use that path_snoc in \<open>auto simp: conc_def\<close>)
  have first: "ident_lang x \<subseteq> {ws. (id_text x, ws) \<in> path_words}" for x
    using path_one by (force simp: ident_lang_def)
  have eq: "parse_property_path = pbind parse_ident (\<lambda>first. pbind
      (ploop (\<lambda>s. optional_after TDot (?step s)) (id_text first, sp_end (id_span first)))
      (\<lambda>s. preturn \<lparr>id_text = fst s, id_span = between (sp_start (id_span first)) (snd s)\<rparr>))"
    by (simp add: parse_property_path_def case_prod_beta')
  show ?thesis unfolding eq
    by (rule acceptsI, rule after_bind [OF accepts_ident], rule after_bind_after [OF loop])
      (use first in \<open>auto intro!: after_return simp: path_lang_def\<close>)
qed

lemma accepts_param: "after A {TDollar} parse_param L" if "\<And>name sp. conc A (conc (tok TDollar) (ident_lang name)) \<subseteq> L (OpParam name sp)"
  unfolding parse_param_def
  by (rule after_advance, simp, rule after_bind [OF accepts_ident], rule after_return) (use that in simp)

text \<open>The proofs below run a parser symbolically: one step per call, then the words of each path.\<close>

lemma accepts_literal_list [accept]: "accepts (parse_literal_list u) (\<lambda>v. case v of OpList xs _ \<Rightarrow> list_lang u xs | _ \<Rightarrow> {})"
  unfolding parse_literal_list_def
  by (rule acceptsI, (intro run | rule accept | rule after_bind, rule accept | simp add: list_lang_def)+)

lemma ident_id_lang: "id_text x = lit ''id'' \<Longrightarrow> conc (ident_lang x) A \<subseteq> conc id_lang A"
  by (rule conc_mono) (auto simp: ident_lang_def id_lang_def)

lemma accepts_operand [accept]: "accepts (parse_operand u) (operand_lang u)"
  unfolding parse_operand_def parse_param_def
  by (rule acceptsI, (intro run | rule accept | rule after_bind, rule accept | rule accepts_after, rule accept |
      simp add: ident_id_lang split: gql_operand.splits)+)

lemma accepts_literal_or_param [accept]: "accepts (parse_literal_or_param u) (value_lang u)"
  unfolding parse_literal_or_param_def parse_param_def
  by (rule acceptsI, (intro run | rule accept | rule after_bind, rule accept | rule accepts_after, rule accept |
      simp add: value_lang_def split: gql_operand.splits)+)

lemma binary_op_lang: "binary_op k = Some cmp \<Longrightarrow> k \<noteq> TEof \<and> cmp_lang cmp = tok k \<and> cmp \<noteq> CmpIsNull \<and> cmp \<noteq> CmpIsNotNull"
  by (auto simp: binary_op_def split: tok_kind.splits)

lemma accepts_comparison [accept]: "accepts (parse_comparison u) (expr_lang u 3)"
  unfolding parse_comparison_def
  by (rule acceptsI, (intro run | rule accept | rule after_bind, rule accept | simp add: binary_op_lang)+)

section \<open>Acceptance: expressions\<close>

lemma expr_lang_mono: "l' \<le> l \<Longrightarrow> expr_lang u l e \<subseteq> expr_lang u l' e"
  by (cases e) auto

lemma not_lang_fold:
  "conc (many_lang (\<lambda>_. tok TNot) spans) (expr_lang u 3 e) \<subseteq>
    expr_lang u 2 (fold (\<lambda>sp e. ENot e (join_span sp (expr_span e))) (rev spans) e)"
proof (induction spans)
  case Nil
  show ?case using expr_lang_mono [of 2 3] by simp
next
  case (Cons sp spans)
  then show ?case by (simp add: conc_mono)
qed

lemma conc_insert_eps [simp]: "conc (insert [] A) B = B \<union> conc A B" "conc A (insert [] B) = A \<union> conc A B"
  by (auto simp: conc_def)

lemma conc_subsetI: "(\<And>v w. v \<in> A \<Longrightarrow> w \<in> B \<Longrightarrow> v @ w \<in> C) \<Longrightarrow> conc A B \<subseteq> C"
  by (auto simp: conc_def)

lemma conc_subset_Ex:
  "(\<And>c. P c \<Longrightarrow> conc A (conc T (B c)) \<subseteq> C) \<Longrightarrow> conc A (conc T {w. \<exists>c. P c \<and> w \<in> B c}) \<subseteq> C"
  by (auto simp: conc_def) blast

lemma in_concE: "x \<in> conc A B \<Longrightarrow> (\<And>v w. x = v @ w \<Longrightarrow> v \<in> A \<Longrightarrow> w \<in> B \<Longrightarrow> P) \<Longrightarrow> P"
  by (auto simp: conc_def)

lemma accepts_not [accept]: "accepts (parse_not u) (expr_lang u 2)"
proof -
  let ?body = "\<lambda>spans. pbind peek (\<lambda>k.
         if k = TNot then
           (if length spans \<ge> MAX_PREFIX_NOT then
              pbind current (\<lambda>t. perror (syntax_error (tk_span t) (lit ''too many nested NOT operators'')))
            else pbind advance (\<lambda>t. preturn (Some (spans @ [tk_span t]))))
         else preturn None)"
  let ?D = "\<lambda>spans spans'. {w \<in> tok TNot. \<exists>sp. spans' = spans @ [sp]}"
  have body: "accepts (?body spans) (\<lambda>r. case r of None \<Rightarrow> {[]} | Some spans' \<Rightarrow> ?D spans spans')" for spans
    by (rule acceptsI, (intro run | simp)+)
  have loop: "after A K (ploop ?body []) (many_lang (\<lambda>_. tok TNot))" if "A \<subseteq> {[]}" for A K
    by (rule after_ploop [OF body]) (use that in \<open>auto intro!: conc_subsetI\<close>)
  show ?thesis unfolding parse_not_def
    by (rule acceptsI, rule after_bind_after [OF loop], simp, rule after_bind [OF accepts_comparison], rule after_return,
        rule not_lang_fold)
qed

lemma accepts_and [accept]: "accepts (parse_and u) (expr_lang u 1)"
proof -
  let ?M = "\<lambda>e e'. {w. \<exists>rhs sp. e' = EAnd e rhs sp \<and> w \<in> expr_lang u 2 rhs}"
  have body: "accepts (pbind (parse_not u) (\<lambda>rhs. preturn (EAnd e rhs (join_expr_span e rhs)))) (?M e)" for e
    by (rule acceptsI, rule after_bind [OF accepts_not], rule after_return) auto
  have loop: "after A K (ploop (\<lambda>e. optional_after TAnd
      (pbind (parse_not u) (\<lambda>rhs. preturn (EAnd e rhs (join_expr_span e rhs))))) e0) (expr_lang u 1)"
    if "A \<subseteq> expr_lang u 2 e0" for A K e0
    by (rule after_ploop_sep [OF not_end(36) body]) (use that expr_lang_mono [of 1 2 u e0] in \<open>auto intro!: conc_subsetI concI elim!: in_concE\<close>)
  show ?thesis unfolding parse_and_def
    by (rule acceptsI, rule after_bind [OF accepts_not], rule loop) simp
qed

lemma accepts_or: "accepts (parse_or u) (expr_lang u 0)"
proof -
  let ?M = "\<lambda>e e'. {w. \<exists>rhs sp. e' = EOr e rhs sp \<and> w \<in> expr_lang u 1 rhs}"
  have body: "accepts (pbind (parse_and u) (\<lambda>rhs. preturn (EOr e rhs (join_expr_span e rhs)))) (?M e)" for e
    by (rule acceptsI, rule after_bind [OF accepts_and], rule after_return) auto
  have loop: "after A K (ploop (\<lambda>e. optional_after TOr
      (pbind (parse_and u) (\<lambda>rhs. preturn (EOr e rhs (join_expr_span e rhs))))) e0) (expr_lang u 0)"
    if "A \<subseteq> expr_lang u 1 e0" for A K e0
    by (rule after_ploop_sep [OF _ body]) (use that expr_lang_mono [of 0 1 u e0] in \<open>auto intro!: conc_subsetI concI elim!: in_concE\<close>)
  show ?thesis unfolding parse_or_def
    by (rule acceptsI, rule after_bind [OF accepts_and], rule loop) simp
qed

lemma accepts_expr [accept]: "accepts (parse_expr u) (expr_lang u 0)"
  unfolding parse_expr_def by (rule accepts_or)

section \<open>Acceptance: patterns\<close>

lemma accepts_if_ident [accept]: "accepts if_ident (opt_lang ident_lang)"
  unfolding if_ident_def
  by (rule acceptsI, (intro run | rule accept | rule after_bind, rule accept | simp)+)

lemma accepts_prop_map [accept]: "accepts (parse_prop_map u) (props_lang u)"
proof -
  have entry: "accepts (pbind parse_property_path (\<lambda>key.
            pbind (expect TColon ''expected ':' after property name'') (\<lambda>_.
            pbind (parse_literal_or_param u) (\<lambda>v. preturn (key, v))))) (entry_lang u)"
    by (rule acceptsI, (intro run | rule accept | rule after_bind, rule accept | simp add: entry_lang_def)+)
  show ?thesis unfolding parse_prop_map_def
    by (rule acceptsI, (intro run | rule entry | rule after_bind, rule accept | simp add: props_lang_def)+)
qed

lemma accepts_node [accept]: "accepts (parse_node_pat u) (node_lang u)"
  unfolding parse_node_pat_def
  by (rule acceptsI, (intro run | rule accept | rule after_bind, rule accept | simp add: node_lang_def braces_lang_def)+)

lemma one_le_u32: "1 \<le> (x :: u32) \<longleftrightarrow> x \<noteq> 0"
  by (metis word_less_1 not_less)

lemma accepts_var_len [accept]: "accepts parse_var_len var_len_lang"
  unfolding parse_var_len_def
  by (rule acceptsI, (intro run | rule accept | rule after_bind, rule accept | simp add: var_len_lang_def not_less one_le_u32)+)

lemma accepts_detail [accept]: "accepts (parse_optional_rel_detail u) (detail_lang u)"
  unfolding parse_optional_rel_detail_def
proof (rule accepts_mono [OF accepts_when_consumed])
  show "accepts (pbind if_ident (\<lambda>var.
        pbind (when_consumed TColon [] (separated TPipe parse_ident)) (\<lambda>rel_types.
        pbind (optional_after TStar parse_var_len) (\<lambda>var_len.
        pbind (when_consumed TLBrace [] (parse_prop_map u)) (\<lambda>props.
        pbind (expect TRBracket ''expected ']' after relationship detail'') (\<lambda>_.
        preturn (var, rel_types, var_len, props))))))) (detail_words u)"
    by (rule acceptsI, (intro run | rule accept | rule after_bind, rule accept | rule accepts_separated |
      simp add: detail_words_def braces_lang_def)+)
qed (auto simp: detail_lang_def)

lemma accepts_rel [accept]: "accepts (parse_rel_pat u) (rel_lang u)"
  unfolding parse_rel_pat_def
  by (rule acceptsI, (intro run | rule accept | rule after_bind, rule accept | simp add: rel_lang_def make_rel_def split: prod.split)+)

lemma accepts_pattern [accept]: "accepts (parse_pattern u) (pattern_lang u)"
proof -
  let ?step = "\<lambda>tail. pbind peek (\<lambda>k. if k = TDash \<or> k = TArrowLeft then
       pbind (parse_rel_pat u) (\<lambda>rel. pbind (parse_node_pat u) (\<lambda>node. preturn (Some (tail @ [(rel, node)]))))
     else preturn None)"
  let ?hop = "\<lambda>(r, n). conc (rel_lang u r) (node_lang u n)"
  let ?D = "\<lambda>tail tail'. {w. \<exists>r n. tail' = tail @ [(r, n)] \<and> w \<in> conc (rel_lang u r) (node_lang u n)}"
  have body: "accepts (?step tail) (\<lambda>r. case r of None \<Rightarrow> {[]} | Some tail' \<Rightarrow> ?D tail tail')" for tail
    by (rule acceptsI, (intro run | rule accept | rule after_bind, rule accept | simp)+)
  have loop: "accepts (ploop ?step []) (many_lang ?hop)"
    by (rule accepts_ploop [OF body]) (auto simp: rel_lang_def intro!: conc_subsetI concI)
  show ?thesis unfolding parse_pattern_def
    by (rule acceptsI, (intro run | rule accept | rule after_bind, rule accept | rule after_bind, rule loop |
        simp add: pattern_lang_def)+)
qed

lemma accepts_match [accept]: "accepts (parse_match_clause u) (match_lang u)"
  unfolding parse_match_clause_def
  by (rule acceptsI, (intro run | rule accept | rule after_bind, rule accept |
      simp add: match_lang_def split: if_split)+)

section \<open>Projections\<close>

definition ref_lang :: "gql_ident \<Rightarrow> gql_ident option \<Rightarrow> lang" where
  "ref_lang var property = conc (ident_lang var) (opt_lang (\<lambda>p. conc (tok TDot) (path_lang p)) property)"

fun arg_lang :: "aggregate_arg \<Rightarrow> lang" where
  "arg_lang (ArgAll _) = tok TStar"
| "arg_lang (ArgVar var _) = ref_lang var None"
| "arg_lang (ArgProperty var property _) = ref_lang var (Some property)"

text \<open>The words after the opening parenthesis of a call.\<close>

fun call_lang :: "gql_ident \<Rightarrow> return_expr \<Rightarrow> lang" where
  "call_lang name (RetFunc f args _) =
     (if f = name \<and> aggregate_func_of (id_text f) = None then
        conc (if args = [] then {[]} else sep_lang TComma ident_lang args) (tok TRParen) else {})"
| "call_lang name (RetAggregate func dist arg f _) =
     (if f = name \<and> aggregate_func_of (id_text f) = Some func then
        conc (if dist then tok TDistinct else {[]}) (conc (arg_lang arg) (tok TRParen)) else {})"
| "call_lang name _ = {}"

fun return_expr_lang :: "return_expr \<Rightarrow> lang" where
  "return_expr_lang (RetVar var _) = ref_lang var None"
| "return_expr_lang (RetProperty var property _) = ref_lang var (Some property)"
| "return_expr_lang (RetFunc f args sp) = conc (ident_lang f) (conc (tok TLParen) (call_lang f (RetFunc f args sp)))"
| "return_expr_lang (RetAggregate func d arg f sp) =
     conc (ident_lang f) (conc (tok TLParen) (call_lang f (RetAggregate func d arg f sp)))"

definition item_lang :: "return_item \<Rightarrow> lang" where
  "item_lang r = conc (return_expr_lang (ri_expr r)) (opt_lang (\<lambda>a. conc (tok TAs) (ident_lang a)) (ri_alias r))"

definition projection_lang :: "return_clause \<Rightarrow> lang" where
  "projection_lang r = conc (if rc_distinct r then tok TDistinct else {[]}) (sep_lang TComma item_lang (rc_items r))"

definition return_lang :: "return_clause \<Rightarrow> lang" where
  "return_lang r = conc (tok TReturn) (projection_lang r)"

definition with_lang :: "return_clause \<Rightarrow> lang" where
  "with_lang r = conc (keyword_lang ''WITH'') (projection_lang r)"

definition sort_lang :: "sort_item \<Rightarrow> lang" where
  "sort_lang s =
     conc (case si_key s of KeyProperty var property _ \<Rightarrow> ref_lang var (Some property) | KeyAlias var _ \<Rightarrow> ref_lang var None)
       (if si_desc s then tok TDesc else {[]} \<union> tok TAsc)"

lemma accepts_arg [accept]: "accepts parse_aggregate_arg arg_lang"
  unfolding parse_aggregate_arg_def
  by (rule acceptsI, (intro run | rule accept | rule after_bind, rule accept | simp add: ref_lang_def split: option.split)+)

lemma accepts_call [accept]: "accepts (parse_call name) (call_lang name)"
  unfolding parse_call_def
  by (rule acceptsI, (intro run | rule accept | rule after_bind, rule accept | simp)+)

lemma call_in_expr: "conc (ident_lang x) (conc (tok TLParen) (call_lang x e)) \<subseteq> return_expr_lang e"
  by (cases e) auto

lemma accepts_return_expr [accept]: "accepts parse_return_expr return_expr_lang"
  unfolding parse_return_expr_def
  by (rule acceptsI, (intro run | rule accept | rule after_bind, rule accept | rule accepts_after, rule accept |
      simp add: ref_lang_def call_in_expr split: option.split)+)

lemma accepts_return_item [accept]: "accepts parse_return_item item_lang"
  unfolding parse_return_item_def
  by (rule acceptsI, (intro run | rule accept | rule after_bind, rule accept | simp add: item_lang_def)+)

lemma accepts_projection [accept]: "accepts (parse_projection t) projection_lang"
  unfolding parse_projection_def
  by (rule acceptsI, (intro run | rule accept | rule after_bind, rule accept | simp add: projection_lang_def)+)

lemma accepts_return [accept]: "accepts parse_return_clause return_lang"
  unfolding parse_return_clause_def
  by (rule acceptsI, (intro run | rule accept | rule accepts_after, rule accept | simp add: return_lang_def)+)

lemma accepts_with [accept]: "accepts parse_with_clause with_lang"
  unfolding parse_with_clause_def
  by (rule acceptsI, rule after_bind, rule accept, rule accepts_after, rule accept) (simp add: with_lang_def)

lemma accepts_sort_item [accept]: "accepts parse_sort_item sort_lang"
  unfolding parse_sort_item_def
  by (rule acceptsI, (intro run | rule accept | rule after_bind, rule accept |
      simp add: sort_lang_def ref_lang_def split: option.split)+)

lemma accepts_order_by [accept]: "accepts parse_order_by (sep_lang TComma sort_lang)"
  unfolding parse_order_by_def by (rule accepts_separated) (simp_all add: accept)

section \<open>Write clauses\<close>

definition create_lang :: "std_tables \<Rightarrow> node_pat clause \<Rightarrow> lang" where
  "create_lang u c = (case c of Clause node _ \<Rightarrow> conc (tok TCreate) (node_lang u node))"

definition create_rel_lang :: "std_tables \<Rightarrow> gql_pattern clause \<Rightarrow> lang" where
  "create_rel_lang u c = (case c of Clause pattern _ \<Rightarrow> conc (tok TCreate) (pattern_lang u pattern))"

definition merge_lang :: "std_tables \<Rightarrow> node_pat clause \<Rightarrow> lang" where
  "merge_lang u c = (case c of Clause node _ \<Rightarrow> conc (tok TMerge) (node_lang u node))"

definition property_ref_lang :: "property_ref \<Rightarrow> lang" where
  "property_ref_lang p = conc (ident_lang (pr_var p)) (conc (tok TDot) (path_lang (pr_property p)))"

definition set_lang :: "std_tables \<Rightarrow> set_clause \<Rightarrow> lang" where
  "set_lang u c =
     conc (tok TSet) (conc (property_ref_lang (sc_target c)) (conc (tok TEq) (value_lang u (sc_value c))))"

definition delete_lang :: "gql_ident clause \<Rightarrow> lang" where
  "delete_lang c = (case c of Clause var _ \<Rightarrow> conc (tok TDelete) (ident_lang var))"

definition detach_delete_lang :: "gql_ident clause \<Rightarrow> lang" where
  "detach_delete_lang c = (case c of Clause var _ \<Rightarrow> conc (tok TDetach) (conc (tok TDelete) (ident_lang var)))"

definition remove_lang :: "remove_target clause \<Rightarrow> lang" where
  "remove_lang c = (case c of Clause target _ \<Rightarrow> conc (tok TRemove)
     (case target of RemoveProperty p \<Rightarrow> property_ref_lang p
      | RemoveLabel var label _ \<Rightarrow> conc (ident_lang var) (conc (tok TColon) (ident_lang label))))"

text \<open>The branches of \<open>MERGE\<close>: each at most once, in either order.\<close>

definition branch_lang :: "std_tables \<Rightarrow> tok_kind \<Rightarrow> set_clause option \<Rightarrow> lang" where
  "branch_lang u k c = opt_lang (\<lambda>c. conc (tok TOn) (conc (tok k) (set_lang u c))) c"

definition branches_lang :: "std_tables \<Rightarrow> set_clause option \<times> set_clause option \<Rightarrow> lang" where
  "branches_lang u b =
     conc (branch_lang u TCreate (fst b)) (branch_lang u TMatch (snd b)) \<union>
     conc (branch_lang u TMatch (snd b)) (branch_lang u TCreate (fst b))"

lemma accepts_create [accept]: "accepts (parse_create_clause u) (create_lang u)"
  unfolding parse_create_clause_def
  by (rule acceptsI, (intro run | rule accept | rule after_bind, rule accept | simp add: create_lang_def)+)

lemma accepts_create_relationship [accept]: "accepts (parse_create_relationship_clause u) (create_rel_lang u)"
  unfolding parse_create_relationship_clause_def
  by (rule acceptsI, (intro run | rule accept | rule after_bind, rule accept | simp add: create_rel_lang_def)+)

lemma accepts_merge [accept]: "accepts (parse_merge_clause u) (merge_lang u)"
  unfolding parse_merge_clause_def
  by (rule acceptsI, (intro run | rule accept | rule after_bind, rule accept | simp add: merge_lang_def)+)

lemma accepts_property_ref [accept]: "accepts parse_property_ref property_ref_lang"
  unfolding parse_property_ref_def
  by (rule acceptsI, (intro run | rule accept | rule after_bind, rule accept | simp add: property_ref_lang_def)+)

lemma accepts_set [accept]: "accepts (parse_set_clause u) (set_lang u)"
  unfolding parse_set_clause_def
  by (rule acceptsI, (intro run | rule accept | rule after_bind, rule accept | simp add: set_lang_def)+)

lemma accepts_delete [accept]: "accepts parse_delete_clause delete_lang"
  unfolding parse_delete_clause_def
  by (rule acceptsI, (intro run | rule accept | rule after_bind, rule accept | simp add: delete_lang_def)+)

lemma accepts_detach_delete [accept]: "accepts parse_detach_delete_clause detach_delete_lang"
  unfolding parse_detach_delete_clause_def
  by (rule acceptsI, (intro run | rule accept | rule after_bind, rule accept | simp add: detach_delete_lang_def)+)

lemma accepts_remove [accept]: "accepts parse_remove_clause remove_lang"
  unfolding parse_remove_clause_def
  by (rule acceptsI, (intro run | rule accept | rule after_bind, rule accept |
      simp add: remove_lang_def property_ref_lang_def)+)

lemma accepts_merge_branches [accept]: "accepts (merge_branches u) (branches_lang u)"
proof -
  let ?body = "\<lambda>(on_create, on_match). pbind peek (\<lambda>k.
            if k = TCreate \<and> on_create = None then
              pbind advance (\<lambda>_. pbind (parse_set_clause u) (\<lambda>c. preturn (Some c, on_match)))
            else if k = TMatch \<and> on_match = None then
              pbind advance (\<lambda>_. pbind (parse_set_clause u) (\<lambda>c. preturn (on_create, Some c)))
            else if k = TCreate \<or> k = TMatch then
              pbind current (\<lambda>t. perror (syntax_error (tk_span t) (lit ''duplicate MERGE branch'')))
            else pbind current (\<lambda>t. perror (syntax_error (tk_span t) (lit ''expected CREATE or MATCH after ON''))))"
  let ?M = "\<lambda>s s'. {w. \<exists>c. (fst s = None \<and> s' = (Some c, snd s)) \<and> w \<in> conc (tok TCreate) (set_lang u c)} \<union>
     {w. \<exists>c. (snd s = None \<and> s' = (fst s, Some c)) \<and> w \<in> conc (tok TMatch) (set_lang u c)}"
  have body: "accepts (?body s) (?M s)" for s
    by (cases s, simp) (rule acceptsI, (intro run | rule accept | rule after_bind, rule accept | simp)+)
  have step: "conc (branches_lang u s) (conc (tok TOn) (?M s s')) \<subseteq> branches_lang u s'" for s s'
    unfolding conc_Un by (intro Un_least conc_subset_Ex) (auto simp: branches_lang_def branch_lang_def)
  have eq: "merge_branches u = ploop (\<lambda>s. optional_after TOn (?body s)) (None, None)"
    unfolding merge_branches_def by (rule arg_cong2 [where f = ploop]) (simp_all add: fun_eq_iff)
  show ?thesis unfolding eq
    by (rule acceptsI, rule after_ploop_sep [OF _ body step]) (simp_all add: branches_lang_def branch_lang_def)
qed

section \<open>Statements\<close>

definition where_lang :: "std_tables \<Rightarrow> gql_expr option \<Rightarrow> lang" where
  "where_lang u = opt_lang (\<lambda>e. conc (tok TWhere) (expr_lang u 0 e))"

definition query_lang :: "std_tables \<Rightarrow> gql_query \<Rightarrow> lang" where
  "query_lang u q =
     conc (match_lang u (q_match q)) (conc (where_lang u (q_where q)) (conc (many_lang with_lang (q_with q))
       (conc (return_lang (q_return q))
         (conc ((if q_order_by q = [] then {[]} else {}) \<union>
             conc (tok TOrder) (conc (tok TBy) (sep_lang TComma sort_lang (q_order_by q))))
           (conc (opt_lang (\<lambda>n. conc (tok TSkip) (u64_lang n)) (q_skip q))
             (opt_lang (\<lambda>n. conc (tok TLimit) (u64_lang n)) (q_limit q)))))))"

definition create_query_lang :: "std_tables \<Rightarrow> create_query \<Rightarrow> lang" where
  "create_query_lang u q = conc (create_lang u (cq_create q)) (return_lang (cq_return q))"

definition create_relationship_query_lang :: "std_tables \<Rightarrow> create_relationship_query \<Rightarrow> lang" where
  "create_relationship_query_lang u q =
     conc (match_lang u (crq_match q)) (conc (create_rel_lang u (crq_create q)) (return_lang (crq_return q)))"

definition merge_query_lang :: "std_tables \<Rightarrow> merge_query \<Rightarrow> lang" where
  "merge_query_lang u q =
     conc (merge_lang u (mq_merge q)) (conc (branches_lang u (mq_on_create q, mq_on_match q)) (return_lang (mq_return q)))"

definition write_query_lang :: "std_tables \<Rightarrow> ('w \<Rightarrow> lang) \<Rightarrow> 'w write_query \<Rightarrow> lang" where
  "write_query_lang u L q =
     conc (match_lang u (wq_match q)) (conc (where_lang u (wq_where q)) (conc (L (wq_write q)) (return_lang (wq_return q))))"

fun statement_lang :: "std_tables \<Rightarrow> gql_statement \<Rightarrow> lang" where
  "statement_lang u (StRead q) = query_lang u q"
| "statement_lang u (StCreate q) = create_query_lang u q"
| "statement_lang u (StCreateRelationship q) = create_relationship_query_lang u q"
| "statement_lang u (StSet q) = write_query_lang u (set_lang u) q"
| "statement_lang u (StRemove q) = write_query_lang u remove_lang q"
| "statement_lang u (StDelete q) = write_query_lang u delete_lang q"
| "statement_lang u (StDetachDelete q) = write_query_lang u detach_delete_lang q"
| "statement_lang u (StMerge q) = merge_query_lang u q"

lemma accepts_where [accept]: "accepts (parse_where u) (where_lang u)"
  unfolding parse_where_def where_lang_def by (rule accepts_optional_after [OF _ accepts_expr]) simp

lemma accepts_finish [accept]: "accepts finish_statement (\<lambda>_. {[]})"
  unfolding finish_statement_def
  by (rule acceptsI, rule after_bind [OF accepts_expect_end], rule after_return) simp

lemma accepts_withs: "accepts (ploop (\<lambda>withs.
         pbind (peek_ident_keyword ''WITH'') (\<lambda>found.
           if found then pbind parse_with_clause (\<lambda>c. preturn (Some (withs @ [c]))) else preturn None)) [])
   (many_lang with_lang)"
proof -
  let ?step = "\<lambda>withs. pbind (peek_ident_keyword ''WITH'') (\<lambda>found.
     if found then pbind parse_with_clause (\<lambda>c. preturn (Some (withs @ [c]))) else preturn None)"
  let ?D = "\<lambda>withs withs'. {w. \<exists>c. withs' = withs @ [c] \<and> w \<in> with_lang c}"
  have body: "accepts (?step withs) (\<lambda>r. case r of None \<Rightarrow> {[]} | Some withs' \<Rightarrow> ?D withs withs')" for withs
    by (rule acceptsI, (intro run | rule accept | rule after_bind, rule accept | simp)+)
  show ?thesis
    by (rule accepts_ploop [OF body]) (auto simp: with_lang_def keyword_lang_def intro!: conc_subsetI concI)
qed

lemma accepts_order [accept]:
  "accepts (pbind (expect TBy m) (\<lambda>_. parse_order_by)) (\<lambda>s. conc (tok TBy) (sep_lang TComma sort_lang s))"
  by (rule acceptsI, (intro run | rule accepts_after, rule accept | simp)+)

lemma accepts_query [accept]: "accepts (parse_query u) (query_lang u)"
  unfolding parse_query_def
  by (rule acceptsI, (intro run | rule accept | rule after_bind, rule accept | rule after_bind, rule accepts_withs |
      simp add: query_lang_def)+)

lemma accepts_create_query [accept]: "accepts (parse_create_query u) (create_query_lang u)"
  unfolding parse_create_query_def
  by (rule acceptsI, (intro run | rule accept | rule after_bind, rule accept | simp add: create_query_lang_def)+)

lemma accepts_create_relationship_query [accept]:
  "accepts (parse_create_relationship_query u) (create_relationship_query_lang u)"
  unfolding parse_create_relationship_query_def
  by (rule acceptsI, (intro run | rule accept | rule after_bind, rule accept |
      simp add: create_relationship_query_lang_def)+)

lemma accepts_merge_query [accept]: "accepts (parse_merge_query u) (merge_query_lang u)"
  unfolding parse_merge_query_def
  by (rule acceptsI, (intro run | rule accept | rule after_bind, rule accept | simp add: merge_query_lang_def)+)

lemma accepts_write_query: "accepts p L \<Longrightarrow> accepts (parse_write_query u p) (write_query_lang u L)"
  unfolding parse_write_query_def
  by (rule acceptsI, (intro run | rule accept | rule after_bind, rule accept | rule after_bind, assumption |
      simp add: write_query_lang_def)+)

lemma accepts_write_queries [accept]:
  "accepts (parse_set_query u) (write_query_lang u (set_lang u))"
  "accepts (parse_remove_query u) (write_query_lang u remove_lang)"
  "accepts (parse_delete_query u) (write_query_lang u delete_lang)"
  "accepts (parse_detach_delete_query u) (write_query_lang u detach_delete_lang)"
  unfolding parse_set_query_def parse_remove_query_def parse_delete_query_def parse_detach_delete_query_def
  by (rule accepts_write_query, rule accept)+

lemma accepts_statement: "accepts (parse_statement_tokens u) (statement_lang u)"
  unfolding parse_statement_tokens_def
  by (rule acceptsI, (intro run | rule accept | rule after_bind, rule accept | simp)+)

section \<open>The whole input\<close>

text \<open>A parser that \<open>ends\<close> leaves only the end token.\<close>

definition ends :: "'a parser \<Rightarrow> bool" where
  "ends p \<longleftrightarrow> (\<forall>ts i x j. p ts i = Inr (x, j) \<longrightarrow> j < length ts \<and> tk_kind (ts ! j) = TEof)"

lemma ends_last: "ends (pbind finish_statement (\<lambda>stop. preturn (f stop)))"
  by (auto simp: ends_def finish_statement_def expect_def advance_def pbind_def preturn_def perror_def
      index_r_def rbind_def split: if_splits sum.splits)

lemma ends_bind: "(\<And>x. ends (q x)) \<Longrightarrow> ends (pbind p q)"
  by (auto simp: ends_def pbind_def rbind_def split: sum.splits)

lemma ends_map: "ends p \<Longrightarrow> ends (pbind p (\<lambda>x. preturn (f x)))"
  by (auto simp: ends_def pbind_def rbind_def preturn_def split: sum.splits)

lemma ends_if: "ends p \<Longrightarrow> ends q \<Longrightarrow> ends (if b then p else q)"
  by simp

lemma ends_case_prod: "(\<And>x y. ends (p x y)) \<Longrightarrow> ends (case z of (x, y) \<Rightarrow> p x y)"
  by (cases z) simp

lemmas ending = ends_last ends_map ends_if ends_case_prod ends_bind

lemma ends_queries:
  "ends (parse_query u)" "ends (parse_create_query u)" "ends (parse_create_relationship_query u)"
  "ends (parse_merge_query u)" "ends (parse_write_query u p)"
  unfolding parse_query_def parse_create_query_def parse_create_relationship_query_def parse_merge_query_def
    parse_write_query_def
  by (rule ending)+

lemma ends_statement: "ends (parse_statement_tokens u)"
  unfolding parse_statement_tokens_def parse_set_query_def parse_remove_query_def parse_delete_query_def
    parse_detach_delete_query_def
  by (rule ends_queries ending)+

lemma tokenize_no_panic: "tokenize u input \<noteq> Inl Panic"
  using tokenize_loop_exact [of u "[]" input "[]"] by (simp add: tokenize_def syntax_error_def)

lemma whole_input:
  assumes p: "accepts p L" "ends p" and t: "tokenize u input = Inr ts"
  shows "case p ts 0 of Inl f \<Rightarrow> f \<noteq> Panic | Inr (x, _) \<Rightarrow> \<exists>ws e. ts = ws @ [e] \<and> ws \<in> L x"
proof -
  have ok: "tokens_ok ts" by (rule tokenize_tokens_ok [OF t])
  then have ne: "0 < length ts" by (auto simp: tokens_ok_def)
  have o: "outcome ts 0 0 L (p ts 0)" by (rule acceptsD [OF p(1) ok ne])
  show ?thesis
  proof (cases "p ts 0")
    case (Inr r)
    obtain x j where r: "r = (x, j)" by (cases r)
    with Inr o have j: "j < length ts" "slice 0 j ts \<in> L x" by simp_all
    have "tk_kind (ts ! j) = TEof" using p(2) Inr r by (auto simp: ends_def)
    then have "j = length ts - 1" using tokens_ok_end [OF ok j(1)] by simp
    then have "slice 0 j ts = butlast ts" by (simp add: slice_def butlast_conv_take)
    with j(2) have "ts = butlast ts @ [List.last ts] \<and> butlast ts \<in> L x" using ne by simp
    with Inr r show ?thesis by auto
  qed (use o in simp)
qed

text \<open>The same of \<open>parse\<close>, which reads read queries only.\<close>

lemma parse_sound:
  "case parse u input of
     Inl f \<Rightarrow> f \<noteq> Panic
   | Inr q \<Rightarrow> \<exists>ws e. tokenize u input = Inr (ws @ [e]) \<and> ws \<in> query_lang u q"
proof (cases "tokenize u input")
  case (Inr ts)
  show ?thesis using whole_input [OF accepts_query [of u] ends_queries(1) Inr] Inr
    by (cases "parse_query u ts 0") (auto simp: parse_def rbind_def)
qed (use tokenize_no_panic [of u input] in \<open>auto simp: parse_def rbind_def\<close>)

text \<open>
  C24: Parsing a statement never panics, whatever the input (no index out of range, no missing
  pattern or item), and every loop of the parser ends. It returns a syntax tree only when the tokens
  of the whole query, up to the end marker, are a word the grammar gives for exactly that tree:
  precedence \<open>OR < AND < NOT <\<close> comparison with both binary operators associating to
  the left, the direction of every relationship, the order of clauses, items, properties and hops,
  bounds in range and a lower bound not above the upper one, and at most one branch of each kind
  in \<open>MERGE\<close>.
\<close>

theorem parse_statement_sound:
  "case parse_statement u input of
     Inl f \<Rightarrow> f \<noteq> Panic
   | Inr st \<Rightarrow> \<exists>ws e. tokenize u input = Inr (ws @ [e]) \<and> ws \<in> statement_lang u st"
proof (cases "tokenize u input")
  case (Inr ts)
  show ?thesis using whole_input [OF accepts_statement [of u] ends_statement Inr] Inr
    by (cases "parse_statement_tokens u ts 0") (auto simp: parse_statement_def rbind_def)
qed (use tokenize_no_panic [of u input] in \<open>auto simp: parse_statement_def rbind_def\<close>)

end
