(* ===== verification/FilterStorage.thy ===== *)
theory FilterStorage
  imports Codec NodeStore
begin

text \<open>
  Filter columns (\<open>graph/src/filter_index.rs\<close>, \<open>graph/src/types.rs\<close>): the encoded values, the filter
  predicates and the four owned storages of a column. Each storage is shown to be a map from nodes
  to values of the column's domain, so that the choice by sparsity is unobservable. Bitmaps
  (the \<open>roaring\<close> package) are sets of nodes, a string is its UTF-8 bytes.
\<close>

section \<open>Values and predicates\<close>

type_synonym i64 = "64 word"
type_synonym u128 = "128 word"

datatype (plugins only: size) filter_column_type = FtNumeric | FtBoolean | FtText | FtDate | FtTimestamptz | FtUuid

datatype (plugins only: size) encoded_value =
    EvNumeric i64
  | EvBoolean bool
  | EvText u32
  | EvDate i64
  | EvTimestamptz i64
  | EvUuid u128

definition persisted_tag :: "filter_column_type \<Rightarrow> u8" where
  "persisted_tag ty =
     (case ty of FtNumeric \<Rightarrow> 0 | FtBoolean \<Rightarrow> 1 | FtText \<Rightarrow> 2 | FtDate \<Rightarrow> 3 | FtTimestamptz \<Rightarrow> 4 | FtUuid \<Rightarrow> 5)"

definition persisted_width :: "filter_column_type \<Rightarrow> usize" where
  "persisted_width ty =
     (case ty of FtBoolean \<Rightarrow> 1 | FtText \<Rightarrow> 4 | FtUuid \<Rightarrow> 16 | _ \<Rightarrow> 8)"

datatype (plugins only: size) filter_condition =
    CGt u32 | CGte u32 | CLt u32 | CLte u32 | CEq u32 | CNeq u32 | CBetween u32 u32
  | CIn "u32 list" | CNotIn "u32 list"
  | CEqI64 i64 | CNeqI64 i64 | CGtI64 i64 | CGteI64 i64 | CLtI64 i64 | CLteI64 i64 | CBetweenI64 i64 i64
  | CInI64 "i64 list" | CNotInI64 "i64 list"
  | CEqBool bool | CNeqBool bool | CInBool "bool list" | CNotInBool "bool list"
  | CEqToken u32 | CNeqToken u32 | CInToken "u32 list" | CNotInToken "u32 list"
  | CContainsToken "u8 list" | CPrefixToken "u8 list"
  | CEqUuid u128 | CNeqUuid u128 | CInUuid "u128 list" | CNotInUuid "u128 list"
  | CIsNull | CIsNotNull

record filter_op =
  fo_column_idx :: usize
  fo_condition :: filter_condition

definition encoded_i64 :: "encoded_value \<Rightarrow> i64 option" where
  "encoded_i64 v = (case v of EvNumeric n \<Rightarrow> Some n | EvDate n \<Rightarrow> Some n | EvTimestamptz n \<Rightarrow> Some n | _ \<Rightarrow> None)"

text \<open>\<open>value.clamp(0, u32::MAX as i64) as u32\<close>\<close>

definition clamp_u32 :: "i64 \<Rightarrow> u32" where
  "clamp_u32 n = word_of_int (max 0 (min (2 ^ 32 - 1) (sint n)))"

definition encoded_u32 :: "encoded_value \<Rightarrow> u32" where
  "encoded_u32 v = opt_get_or 0 (map_option clamp_u32 (encoded_i64 v))"

definition is_some_and :: "('a \<Rightarrow> bool) \<Rightarrow> 'a option \<Rightarrow> bool" where
  "is_some_and p m = (case m of None \<Rightarrow> False | Some x \<Rightarrow> p x)"

text \<open>\<open>str::starts_with\<close> and \<open>str::contains\<close>.\<close>

definition starts_with :: "u8 list \<Rightarrow> u8 list \<Rightarrow> bool" where
  "starts_with s p \<longleftrightarrow> take (length p) s = p"

primrec contains_str :: "u8 list \<Rightarrow> u8 list \<Rightarrow> bool" where
  "contains_str [] p \<longleftrightarrow> p = []"
| "contains_str (c # s) p \<longleftrightarrow> starts_with (c # s) p \<or> contains_str s p"

text \<open>The condition on a value; \<open>txt\<close> reads the column's dictionary.\<close>

definition check_value :: "(u32 \<Rightarrow> u8 list option) \<Rightarrow> encoded_value \<Rightarrow> filter_condition \<Rightarrow> bool" where
  "check_value read v c =
     (case c of
        CGt t \<Rightarrow> encoded_u32 v > t
      | CGte t \<Rightarrow> encoded_u32 v \<ge> t
      | CLt t \<Rightarrow> encoded_u32 v < t
      | CLte t \<Rightarrow> encoded_u32 v \<le> t
      | CEq t \<Rightarrow> encoded_u32 v = t
      | CNeq t \<Rightarrow> encoded_u32 v \<noteq> t
      | CBetween lo hi \<Rightarrow> encoded_u32 v \<ge> lo \<and> encoded_u32 v \<le> hi
      | CIn ts \<Rightarrow> encoded_u32 v \<in> set ts
      | CNotIn ts \<Rightarrow> encoded_u32 v \<notin> set ts
      | CEqI64 t \<Rightarrow> encoded_i64 v = Some t
      | CNeqI64 t \<Rightarrow> encoded_i64 v \<noteq> Some t
      | CGtI64 t \<Rightarrow> is_some_and (\<lambda>n. sint n > sint t) (encoded_i64 v)
      | CGteI64 t \<Rightarrow> is_some_and (\<lambda>n. sint n \<ge> sint t) (encoded_i64 v)
      | CLtI64 t \<Rightarrow> is_some_and (\<lambda>n. sint n < sint t) (encoded_i64 v)
      | CLteI64 t \<Rightarrow> is_some_and (\<lambda>n. sint n \<le> sint t) (encoded_i64 v)
      | CBetweenI64 lo hi \<Rightarrow> is_some_and (\<lambda>n. sint n \<ge> sint lo \<and> sint n \<le> sint hi) (encoded_i64 v)
      | CInI64 ts \<Rightarrow> is_some_and (\<lambda>n. n \<in> set ts) (encoded_i64 v)
      | CNotInI64 ts \<Rightarrow> is_some_and (\<lambda>n. n \<notin> set ts) (encoded_i64 v)
      | CEqBool b \<Rightarrow> (case v of EvBoolean a \<Rightarrow> a = b | _ \<Rightarrow> False)
      | CNeqBool b \<Rightarrow> (case v of EvBoolean a \<Rightarrow> a \<noteq> b | _ \<Rightarrow> False)
      | CInBool bs \<Rightarrow> (case v of EvBoolean a \<Rightarrow> a \<in> set bs | _ \<Rightarrow> False)
      | CNotInBool bs \<Rightarrow> (case v of EvBoolean a \<Rightarrow> a \<notin> set bs | _ \<Rightarrow> False)
      | CEqToken t \<Rightarrow> (case v of EvText a \<Rightarrow> a = t | _ \<Rightarrow> False)
      | CNeqToken t \<Rightarrow> (case v of EvText a \<Rightarrow> a \<noteq> t | _ \<Rightarrow> False)
      | CInToken ts \<Rightarrow> (case v of EvText a \<Rightarrow> a \<in> set ts | _ \<Rightarrow> False)
      | CNotInToken ts \<Rightarrow> (case v of EvText a \<Rightarrow> a \<notin> set ts | _ \<Rightarrow> False)
      | CContainsToken s \<Rightarrow> (case v of EvText a \<Rightarrow> is_some_and (\<lambda>x. contains_str x s) (read a) | _ \<Rightarrow> False)
      | CPrefixToken s \<Rightarrow> (case v of EvText a \<Rightarrow> is_some_and (\<lambda>x. starts_with x s) (read a) | _ \<Rightarrow> False)
      | CEqUuid t \<Rightarrow> (case v of EvUuid a \<Rightarrow> a = t | _ \<Rightarrow> False)
      | CNeqUuid t \<Rightarrow> (case v of EvUuid a \<Rightarrow> a \<noteq> t | _ \<Rightarrow> False)
      | CInUuid ts \<Rightarrow> (case v of EvUuid a \<Rightarrow> a \<in> set ts | _ \<Rightarrow> False)
      | CNotInUuid ts \<Rightarrow> (case v of EvUuid a \<Rightarrow> a \<notin> set ts | _ \<Rightarrow> False)
      | CIsNull \<Rightarrow> False
      | CIsNotNull \<Rightarrow> True)"

section \<open>Owned storage\<close>

datatype (plugins only: size) column_storage =
    Dense "encoded_value list" "u32 set"
  | SparseBool "u32 set" "u32 set" "u32 set"
  | SparseLookup "(encoded_value \<times> u32 set) list" "u32 set"
  | SparseOrdered "(u32 \<times> encoded_value) list" "u32 set"

definition is_sparse :: "usize \<Rightarrow> usize \<Rightarrow> bool" where
  "is_sparse populated_count nodes_len \<longleftrightarrow>
     nodes_len \<noteq> 0 \<and> min usize_max (populated_count * 100) < min usize_max (nodes_len * 15)"

definition default_encoded_value :: "filter_column_type \<Rightarrow> encoded_value" where
  "default_encoded_value ty =
     (case ty of FtNumeric \<Rightarrow> EvNumeric 0 | FtBoolean \<Rightarrow> EvBoolean False | FtText \<Rightarrow> EvText 0
      | FtDate \<Rightarrow> EvDate 0 | FtTimestamptz \<Rightarrow> EvTimestamptz 0 | FtUuid \<Rightarrow> EvUuid 0)"

definition new_storage :: "filter_column_type \<Rightarrow> usize \<Rightarrow> usize \<Rightarrow> column_storage" where
  "new_storage ty nodes_len populated_count =
     (if is_sparse populated_count nodes_len then
        (case ty of FtBoolean \<Rightarrow> SparseBool {} {} {}
         | FtText \<Rightarrow> SparseLookup [] {} | FtUuid \<Rightarrow> SparseLookup [] {}
         | _ \<Rightarrow> SparseOrdered [] {})
      else Dense (replicate nodes_len (default_encoded_value ty)) {})"

text \<open>\<open>binary_search_by_key\<close>: \<open>Inr\<close> the index of the key, or \<open>Inl\<close> the index to insert it at.\<close>

function (sequential) search_key :: "(u32 \<times> 'v) list \<Rightarrow> u32 \<Rightarrow> nat \<Rightarrow> nat \<Rightarrow> nat + nat" where
  "search_key es k lo hi =
     (if lo < hi then
        let mid = lo + (hi - lo) div 2 in
        (case compare (fst (es ! mid)) k of
           CEqual \<Rightarrow> Inr mid
         | CLess \<Rightarrow> search_key es k (mid + 1) hi
         | CGreater \<Rightarrow> search_key es k lo mid)
      else Inl lo)"
  by pat_completeness auto

termination
  by (relation "measure (\<lambda>(_, _, lo, hi). hi - lo)") auto

declare search_key.simps [simp del]

definition storage_value :: "column_storage \<Rightarrow> u32 \<Rightarrow> encoded_value option" where
  "storage_value s i =
     (case s of
        Dense vals present \<Rightarrow> if i \<in> present then get_opt vals (unat i) else None
      | SparseBool true_set false_set present \<Rightarrow>
          if i \<notin> present then None else Some (EvBoolean (i \<in> true_set \<and> i \<notin> false_set))
      | SparseLookup bitmaps present \<Rightarrow>
          if i \<notin> present then None else map_option fst (List.find (\<lambda>(v, b). i \<in> b) bitmaps)
      | SparseOrdered entries present \<Rightarrow>
          if i \<notin> present then None
          else (case search_key entries i 0 (length entries) of Inl _ \<Rightarrow> None | Inr k \<Rightarrow> Some (snd (entries ! k))))"

text \<open>\<open>value_bitmaps.entry(value).or_default().insert(node_idx)\<close>\<close>

primrec insert_bitmap :: "encoded_value \<Rightarrow> u32 \<Rightarrow> (encoded_value \<times> u32 set) list \<Rightarrow> (encoded_value \<times> u32 set) list" where
  "insert_bitmap v i [] = [(v, {i})]"
| "insert_bitmap v i (e # es) = (if fst e = v then (v, insert i (snd e)) # es else e # insert_bitmap v i es)"

definition clear_bitmaps :: "u32 \<Rightarrow> (encoded_value \<times> u32 set) list \<Rightarrow> (encoded_value \<times> u32 set) list" where
  "clear_bitmaps i bs = map (\<lambda>(v, b). (v, b - {i})) bs"

definition column_set :: "column_storage \<Rightarrow> u32 \<Rightarrow> encoded_value option \<Rightarrow> column_storage" where
  "column_set s i v =
     (case s of
        Dense vals present \<Rightarrow>
          if unat i \<ge> length vals then s
          else (case v of
             Some x \<Rightarrow> Dense (vals[unat i := x]) (insert i present)
           | None \<Rightarrow> Dense vals (present - {i}))
      | SparseBool true_set false_set present \<Rightarrow>
          (case v of
             Some (EvBoolean True) \<Rightarrow> SparseBool (insert i (true_set - {i})) (false_set - {i}) (insert i present)
           | Some (EvBoolean False) \<Rightarrow> SparseBool (true_set - {i}) (insert i (false_set - {i})) (insert i present)
           | _ \<Rightarrow> SparseBool (true_set - {i}) (false_set - {i}) (present - {i}))
      | SparseLookup bitmaps present \<Rightarrow>
          let cleared = clear_bitmaps i bitmaps in
          (case v of
             Some (EvText t) \<Rightarrow> SparseLookup (insert_bitmap (EvText t) i cleared) (insert i present)
           | Some (EvUuid t) \<Rightarrow> SparseLookup (insert_bitmap (EvUuid t) i cleared) (insert i present)
           | _ \<Rightarrow> SparseLookup cleared (present - {i}))
      | SparseOrdered entries present \<Rightarrow>
          (case search_key entries i 0 (length entries) of
             Inr k \<Rightarrow>
               (case v of
                  Some x \<Rightarrow> SparseOrdered (entries[k := (i, x)]) (insert i present)
                | None \<Rightarrow> SparseOrdered (take k entries @ drop (Suc k) entries) (present - {i}))
           | Inl k \<Rightarrow>
               (case v of
                  Some x \<Rightarrow> SparseOrdered (take k entries @ (i, x) # drop k entries) (insert i present)
                | None \<Rightarrow> s)))"

section \<open>A table of optional values\<close>

text \<open>
  What every column storage promises: an update in range changes the value of its node and no
  other. A run of updates then is the same run on the abstract map, whatever the storage.
\<close>

locale value_table =
  fixes ok :: "'s \<Rightarrow> bool" and look :: "'s \<Rightarrow> 'k \<Rightarrow> 'v option" and put :: "'s \<Rightarrow> 'k \<Rightarrow> 'v option \<Rightarrow> 's"
    and fits :: "'k \<Rightarrow> 'v option \<Rightarrow> bool"
  assumes put_ok: "ok s \<Longrightarrow> fits k v \<Longrightarrow> ok (put s k v)"
    and look_put: "ok s \<Longrightarrow> fits k v \<Longrightarrow> look (put s k v) = (look s)(k := v)"
begin

lemma puts:
  "ok s \<Longrightarrow> \<forall>(k, v)\<in>set ops. fits k v \<Longrightarrow>
    ok (fold (\<lambda>(k, v) s. put s k v) ops s) \<and>
    look (fold (\<lambda>(k, v) s. put s k v) ops s) = fold (\<lambda>(k, v) m. m(k := v)) ops (look s)"
proof (induction ops arbitrary: s)
  case (Cons op ops)
  obtain k v where op: "op = (k, v)" by (cases op)
  with Cons.prems have f: "fits k v" by simp
  show ?case using Cons.IH [OF put_ok [OF Cons.prems(1) f]] Cons.prems f
    by (simp add: op look_put)
qed simp

end

section \<open>Storages are tables\<close>

definition in_domain :: "filter_column_type \<Rightarrow> encoded_value \<Rightarrow> bool" where
  "in_domain ty v \<longleftrightarrow>
     (case v of EvNumeric _ \<Rightarrow> ty = FtNumeric | EvBoolean _ \<Rightarrow> ty = FtBoolean | EvText _ \<Rightarrow> ty = FtText
      | EvDate _ \<Rightarrow> ty = FtDate | EvTimestamptz _ \<Rightarrow> ty = FtTimestamptz | EvUuid _ \<Rightarrow> ty = FtUuid)"

definition disjoint_bitmaps :: "(encoded_value \<times> u32 set) list \<Rightarrow> bool" where
  "disjoint_bitmaps bs \<longleftrightarrow> distinct (map fst bs) \<and> (\<forall>e\<in>set bs. \<forall>f\<in>set bs. fst e \<noteq> fst f \<longrightarrow> snd e \<inter> snd f = {})"

definition column_storage_ok :: "filter_column_type \<Rightarrow> usize \<Rightarrow> column_storage \<Rightarrow> bool" where
  "column_storage_ok ty n s \<longleftrightarrow>
     (case s of
        Dense vals present \<Rightarrow> length vals = n \<and> (\<forall>i\<in>present. unat i < n) \<and> (\<forall>v\<in>set vals. in_domain ty v)
      | SparseBool true_set false_set present \<Rightarrow>
          ty = FtBoolean \<and> true_set \<inter> false_set = {} \<and> present = true_set \<union> false_set
      | SparseLookup bitmaps present \<Rightarrow>
          (ty = FtText \<or> ty = FtUuid) \<and> disjoint_bitmaps bitmaps \<and> present = \<Union>(snd ` set bitmaps) \<and>
          (\<forall>v\<in>fst ` set bitmaps. in_domain ty v)
      | SparseOrdered entries present \<Rightarrow>
          ty \<noteq> FtBoolean \<and> ty \<noteq> FtText \<and> ty \<noteq> FtUuid \<and>
          sorted_wrt (<) (map fst entries) \<and> present = fst ` set entries \<and> (\<forall>v\<in>snd ` set entries. in_domain ty v))"

text \<open>An update that fits: a value of the domain, for a node of the graph.\<close>

definition update_fits :: "filter_column_type \<Rightarrow> usize \<Rightarrow> u32 \<Rightarrow> encoded_value option \<Rightarrow> bool" where
  "update_fits ty n i v \<longleftrightarrow> unat i < n \<and> (case v of None \<Rightarrow> True | Some x \<Rightarrow> in_domain ty x)"

lemma search_key_between:
  "sorted_wrt (<) (map fst es) \<Longrightarrow> hi \<le> length es \<Longrightarrow> lo \<le> hi \<Longrightarrow> \<forall>j<lo. fst (es ! j) < k \<Longrightarrow> \<forall>j<length es. hi \<le> j \<longrightarrow> k < fst (es ! j) \<Longrightarrow>
    (case search_key es k lo hi of
       Inr j \<Rightarrow> j < length es \<and> fst (es ! j) = k
     | Inl j \<Rightarrow> j \<le> length es \<and> (\<forall>i<j. fst (es ! i) < k) \<and> (\<forall>i<length es. j \<le> i \<longrightarrow> k < fst (es ! i)))"
proof (induction es k lo hi rule: search_key.induct)
  case (1 es k lo hi)
  have mono: "fst (es ! i) < fst (es ! j)" if "i < j" "j < length es" for i j
    using "1.prems"(1) that by (simp add: sorted_wrt_iff_nth_less)
  show ?case
  proof (cases "lo < hi")
    case False
    with "1.prems" have "lo = hi" by simp
    with "1.prems" show ?thesis by (simp add: search_key.simps [of es k hi hi])
  next
    case True
    define mid where "mid = lo + (hi - lo) div 2"
    have mid: "lo \<le> mid" "mid < hi" "mid < length es" using True "1.prems"(2) by (auto simp: mid_def)
    have unfold: "search_key es k lo hi = (case compare (fst (es ! mid)) k of
        CEqual \<Rightarrow> Inr mid | CLess \<Rightarrow> search_key es k (mid + 1) hi | CGreater \<Rightarrow> search_key es k lo mid)"
      using True by (subst search_key.simps) (simp add: Let_def flip: mid_def)
    consider "fst (es ! mid) < k" | "fst (es ! mid) = k" | "k < fst (es ! mid)" by (rule linorder_cases)
    then show ?thesis
    proof cases
      case 1
      have "fst (es ! j) < k" if "j < mid + 1" for j
        using that 1 mono [of j mid] mid(3) by (cases "j = mid") (auto intro: less_trans)
      with "1.IH"(1) [OF True mid_def] "1.prems" 1 mid show ?thesis by (simp add: unfold compare_def)
    next
      case 2
      with mid show ?thesis by (simp add: unfold compare_def)
    next
      case 3
      have "k < fst (es ! j)" if "j < length es" "mid \<le> j" for j
        using that 3 mono [of mid j] by (cases "j = mid") (auto intro: less_trans)
      moreover have "compare (fst (es ! mid)) k = CGreater" using 3 by (auto simp: compare_def)
      ultimately show ?thesis using "1.IH"(2) [OF True mid_def] "1.prems" mid by (simp add: unfold)
    qed
  qed
qed

lemma search_key_exact:
  assumes "sorted_wrt (<) (map fst es)"
  shows "case search_key es k 0 (length es) of
       Inr j \<Rightarrow> j < length es \<and> fst (es ! j) = k
     | Inl j \<Rightarrow> j \<le> length es \<and> (\<forall>i<j. fst (es ! i) < k) \<and> (\<forall>i<length es. j \<le> i \<longrightarrow> k < fst (es ! i))"
  by (rule search_key_between) (use assms in auto)

text \<open>An ordered column is the map of its entries.\<close>

lemma search_found:
  fixes es :: "(u32 \<times> 'v) list"
  assumes s: "sorted_wrt (<) (map fst es)" and j: "j < length es" "fst (es ! j) = k"
  shows "map_of es k = Some (snd (es ! j))"
proof -
  have "(k, snd (es ! j)) \<in> set es" using j by (metis nth_mem prod.collapse)
  moreover have "distinct (map fst es)" using s unfolding strict_sorted_iff by simp
  ultimately show ?thesis by simp
qed

lemma map_of_split:
  assumes "j \<le> length es"
  shows "map_of es = map_of (drop j es) ++ map_of (take j es)"
  by (metis append_take_drop_id map_of_append)

lemma search_missing:
  fixes es :: "(u32 \<times> 'v) list"
  assumes "j \<le> length es" "\<forall>i<j. fst (es ! i) < k" "\<forall>i<length es. j \<le> i \<longrightarrow> k < fst (es ! i)"
  shows "k \<notin> fst ` set es"
proof
  assume "k \<in> fst ` set es"
  then obtain i where "i < length es" "fst (es ! i) = k" by (metis imageE in_set_conv_nth)
  with assms(2,3) show False by (metis less_irrefl not_le)
qed

lemma ordered_value:
  assumes "sorted_wrt (<) (map fst es)"
  shows "storage_value (SparseOrdered es (fst ` set es)) = map_of es"
proof
  fix k
  note sk = search_key_exact [OF assms, of k]
  show "storage_value (SparseOrdered es (fst ` set es)) k = map_of es k"
  proof (cases "search_key es k 0 (length es)")
    case (Inl j)
    with sk have "k \<notin> fst ` set es" using search_missing [of j es k] by simp
    moreover from this have "map_of es k = None" by (simp add: map_of_eq_None_iff)
    ultimately show ?thesis by (simp add: storage_value_def)
  next
    case (Inr j)
    with sk have j: "j < length es" "fst (es ! j) = k" by simp_all
    then have "k \<in> fst ` set es" by (metis image_eqI nth_mem)
    with Inr search_found [OF assms j] show ?thesis by (simp add: storage_value_def)
  qed
qed

lemma sorted_insert_at:
  fixes es :: "(u32 \<times> 'v) list"
  assumes "sorted_wrt (<) (map fst es)" "j \<le> length es" "\<forall>i<j. fst (es ! i) < k" "\<forall>i<length es. j \<le> i \<longrightarrow> k < fst (es ! i)"
  shows "sorted_wrt (<) (map fst (take j es @ (k, v) # drop j es))"
proof -
  have "sorted_wrt (<) (map fst (take j es) @ map fst (drop j es))"
    using assms(1) by (simp flip: map_append)
  moreover have "\<forall>x\<in>set (take j es). fst x < k" using assms(2,3) by (auto simp: in_set_conv_nth) (metis fst_conv)
  moreover have "\<forall>x\<in>set (drop j es). k < fst x"
    using assms(2,4) by (auto simp: in_set_conv_nth) (metis add.commute fst_conv le_add2 less_diff_conv)
  ultimately show ?thesis by (fastforce simp: sorted_wrt_append)
qed

lemma map_of_insert_at:
  assumes "k \<notin> fst ` set es"
  shows "map_of (take j es @ (k, v) # drop j es) = (map_of es)(k \<mapsto> v)"
proof -
  have "map_of (take j es) k = None" using assms by (auto simp: map_of_eq_None_iff dest: in_set_takeD)
  moreover have "map_of es = map_of (drop j es) ++ map_of (take j es)" by (metis append_take_drop_id map_of_append)
  ultimately show ?thesis by (auto simp: fun_eq_iff map_add_def split: option.split)
qed

lemma map_of_replace:
  assumes "distinct (map fst es)" "j < length es" "fst (es ! j) = k"
  shows "map_of (es[j := (k, v)]) = (map_of es)(k \<mapsto> v)"
proof -
  have k: "map fst (es[j := (k, v)]) = map fst es"
    using assms(2,3) by (metis fst_conv list_update_id map_update)
  have d: "distinct (map fst (es[j := (k, v)]))" unfolding k by (rule assms(1))
  show ?thesis
  proof
    fix x
    show "map_of (es[j := (k, v)]) x = ((map_of es)(k \<mapsto> v)) x"
    proof (cases "x = k")
      case True
      have "(k, v) \<in> set (es[j := (k, v)])" using assms(2) by (simp add: set_update_memI)
      with True d show ?thesis by simp
    next
      case False
      have "map_of (es[j := (k, v)]) x = Some y \<longleftrightarrow> map_of es x = Some y" for y
        unfolding map_of_eq_Some_iff [OF d] map_of_eq_Some_iff [OF assms(1)]
        using False assms(2,3) by (auto simp: in_set_conv_nth nth_list_update) (metis fst_conv nth_list_update_neq length_list_update)+
      then have "map_of (es[j := (k, v)]) x = map_of es x" by (metis option.exhaust)
      with False show ?thesis by simp
    qed
  qed
qed

lemma map_of_remove_at:
  assumes "distinct (map fst es)" "j < length es" "fst (es ! j) = k"
  shows "map_of (take j es @ drop (Suc j) es) = (map_of es)(k := None)"
proof -
  have es: "es = take j es @ es ! j # drop (Suc j) es" using assms(2) by (simp add: Cons_nth_drop_Suc)
  then have "distinct (map fst (take j es) @ k # map fst (drop (Suc j) es))"
    using assms(1,3) by (metis list.simps(9) map_append)
  then have n: "map_of (take j es) k = None" "map_of (drop (Suc j) es) k = None"
    by (auto simp: map_of_eq_None_iff simp flip: set_map)
  have "map_of es = map_of (take j es @ (k, snd (es ! j)) # drop (Suc j) es)"
    using es assms(3) by (metis prod.collapse)
  then show ?thesis using n by (auto simp: fun_eq_iff map_add_def split: option.split)
qed

lemma remove_at:
  fixes es :: "(u32 \<times> 'v) list"
  assumes s: "sorted_wrt (<) (map fst es)" and j: "j < length es" "fst (es ! j) = k"
  shows "sorted_wrt (<) (map fst (take j es @ drop (Suc j) es))"
    "fst ` set (take j es @ drop (Suc j) es) = fst ` set es - {k}"
    "set (take j es @ drop (Suc j) es) \<subseteq> set es"
proof -
  let ?fs = "take j es @ drop (Suc j) es"
  have split: "es = take j es @ es ! j # drop (Suc j) es" using j by (simp add: Cons_nth_drop_Suc)
  have "distinct (map fst es)" using s unfolding strict_sorted_iff by simp
  then have d: "fst (es ! j) \<notin> fst ` set ?fs" by (subst (asm) split) auto
  have st: "set es = insert (es ! j) (set ?fs)" by (subst split) auto
  show "sorted_wrt (<) (map fst ?fs)" using s by (subst (asm) split) (auto simp: sorted_wrt_append)
  show "fst ` set ?fs = fst ` set es - {k}" using d j unfolding st by auto
  show "set ?fs \<subseteq> set es" unfolding st by auto
qed

lemma bitmap_value:
  assumes "disjoint_bitmaps bs" "(v, b) \<in> set bs" "i \<in> b"
  shows "List.find (\<lambda>(v, b). i \<in> b) bs = Some (v, b)"
  using assms
proof (induction bs)
  case (Cons e bs)
  show ?case
  proof (cases "i \<in> snd e")
    case True
    with Cons.prems have "fst e = v" by (fastforce simp: disjoint_bitmaps_def)
    with Cons.prems have "e = (v, b)" by (force simp: disjoint_bitmaps_def rev_image_eqI)
    with Cons.prems(3) show ?thesis by simp
  next
    case False
    with Cons.prems have "(v, b) \<in> set bs" by auto
    moreover have "disjoint_bitmaps bs" using Cons.prems(1) by (auto simp: disjoint_bitmaps_def)
    ultimately show ?thesis using Cons.IH Cons.prems(3) False by (cases e) simp
  qed
qed simp

text \<open>The order in which the bitmaps are visited does not matter.\<close>

definition bitmap_map :: "(encoded_value \<times> u32 set) list \<Rightarrow> u32 \<Rightarrow> encoded_value option" where
  "bitmap_map bs i = map_option fst (List.find (\<lambda>(v, b). i \<in> b) bs)"

lemma bitmap_map_iff:
  assumes "disjoint_bitmaps bs"
  shows "bitmap_map bs i = Some v \<longleftrightarrow> (\<exists>b. (v, b) \<in> set bs \<and> i \<in> b)"
proof
  assume "bitmap_map bs i = Some v"
  then show "\<exists>b. (v, b) \<in> set bs \<and> i \<in> b" by (auto simp: bitmap_map_def find_Some_iff) (metis nth_mem prod.collapse)
next
  assume "\<exists>b. (v, b) \<in> set bs \<and> i \<in> b"
  then show "bitmap_map bs i = Some v" using bitmap_value [OF assms] by (auto simp: bitmap_map_def)
qed

lemma bitmap_order_irrelevant:
  assumes "disjoint_bitmaps bs" "disjoint_bitmaps cs" "set bs = set cs"
  shows "bitmap_map bs = bitmap_map cs"
proof
  fix i
  have "bitmap_map bs i = Some v \<longleftrightarrow> bitmap_map cs i = Some v" for v
    using bitmap_map_iff [OF assms(1)] bitmap_map_iff [OF assms(2)] assms(3) by simp
  then show "bitmap_map bs i = bitmap_map cs i" by (metis option.exhaust)
qed

lemma lookup_value:
  assumes "disjoint_bitmaps bs"
  shows "storage_value (SparseLookup bs (\<Union>(snd ` set bs))) = bitmap_map bs"
proof
  fix i
  show "storage_value (SparseLookup bs (\<Union>(snd ` set bs))) i = bitmap_map bs i"
  proof (cases "\<exists>e\<in>set bs. i \<in> snd e")
    case False
    then have "bitmap_map bs i = None" by (auto simp: bitmap_map_def find_None_iff)
    with False show ?thesis by (simp add: storage_value_def)
  qed (simp add: storage_value_def bitmap_map_def)
qed

lemma set_insert_bitmap:
  "distinct (map fst bs) \<Longrightarrow>
    set (insert_bitmap v i bs) =
      {(v, insert i (\<Union>{b. (v, b) \<in> set bs}))} \<union> {e \<in> set bs. fst e \<noteq> v}"
proof (induction bs)
  case (Cons e bs)
  show ?case
  proof (cases "fst e = v")
    case True
    with Cons.prems have "{b. (v, b) \<in> set (e # bs)} = {snd e}" by (cases e) force
    moreover have "{e' \<in> set (e # bs). fst e' \<noteq> v} = set bs" using True Cons.prems by (auto simp: rev_image_eqI)
    ultimately show ?thesis using True by simp
  next
    case False
    then have "{b. (v, b) \<in> set (e # bs)} = {b. (v, b) \<in> set bs}" by auto
    with False Cons show ?thesis by auto
  qed
qed simp

lemma keys_insert_bitmap:
  "map fst (insert_bitmap v i bs) = (if v \<in> fst ` set bs then map fst bs else map fst bs @ [v])"
  by (induction bs) auto

lemma clear_bitmaps_ok:
  assumes "disjoint_bitmaps bs"
  shows "disjoint_bitmaps (clear_bitmaps i bs)" "map fst (clear_bitmaps i bs) = map fst bs"
    "\<Union>(snd ` set (clear_bitmaps i bs)) = \<Union>(snd ` set bs) - {i}"
    "bitmap_map (clear_bitmaps i bs) = (bitmap_map bs)(i := None)"
proof -
  show keys: "map fst (clear_bitmaps i bs) = map fst bs" by (simp add: clear_bitmaps_def case_prod_beta')
  show ok: "disjoint_bitmaps (clear_bitmaps i bs)"
    unfolding disjoint_bitmaps_def keys
  proof (intro conjI ballI impI)
    show "distinct (map fst bs)" using assms by (simp add: disjoint_bitmaps_def)
    fix e f assume "e \<in> set (clear_bitmaps i bs)" "f \<in> set (clear_bitmaps i bs)" "fst e \<noteq> fst f"
    then obtain b c where "(fst e, b) \<in> set bs" "(fst f, c) \<in> set bs" "snd e \<subseteq> b" "snd f \<subseteq> c"
      by (auto simp: clear_bitmaps_def)
    moreover from this \<open>fst e \<noteq> fst f\<close> have "b \<inter> c = {}" using assms by (fastforce simp: disjoint_bitmaps_def)
    ultimately show "snd e \<inter> snd f = {}" by blast
  qed
  show "\<Union>(snd ` set (clear_bitmaps i bs)) = \<Union>(snd ` set bs) - {i}" by (force simp: clear_bitmaps_def)
  show "bitmap_map (clear_bitmaps i bs) = (bitmap_map bs)(i := None)"
  proof
    fix j
    have "bitmap_map (clear_bitmaps i bs) j = Some v \<longleftrightarrow> ((bitmap_map bs)(i := None)) j = Some v" for v
      unfolding bitmap_map_iff [OF ok] fun_upd_apply using bitmap_map_iff [OF assms, of j v]
      by (auto simp: clear_bitmaps_def)
    then show "bitmap_map (clear_bitmaps i bs) j = ((bitmap_map bs)(i := None)) j" by (metis option.exhaust)
  qed
qed

lemma insert_bitmap_ok:
  assumes bs: "disjoint_bitmaps bs" "\<forall>e\<in>set bs. i \<notin> snd e"
  shows "disjoint_bitmaps (insert_bitmap v i bs)"
    "\<Union>(snd ` set (insert_bitmap v i bs)) = insert i (\<Union>(snd ` set bs))"
    "bitmap_map (insert_bitmap v i bs) = (bitmap_map bs)(i \<mapsto> v)"
    "fst ` set (insert_bitmap v i bs) = insert v (fst ` set bs)"
proof -
  note st = set_insert_bitmap [of bs v i]
  have d: "distinct (map fst bs)" using bs(1) by (simp add: disjoint_bitmaps_def)
  then have dk: "distinct (map fst (insert_bitmap v i bs))" by (simp add: keys_insert_bitmap)
  show ok: "disjoint_bitmaps (insert_bitmap v i bs)"
  proof -
    let ?B = "insert i (\<Union>{b. (v, b) \<in> set bs})"
    have apart: "x \<notin> snd g" if "f \<in> set bs" "g \<in> set bs" "fst f \<noteq> fst g" "x \<in> snd f" for f g x
      using bs(1) that by (auto simp: disjoint_bitmaps_def)
    have new: "snd f \<inter> ?B = {}" if "f \<in> set bs" "fst f \<noteq> v" for f
      using bs(2) that apart [OF that(1)] by fastforce
    have "snd e \<inter> snd f = {}"
      if "e \<in> insert (v, ?B) {e \<in> set bs. fst e \<noteq> v}" "f \<in> insert (v, ?B) {e \<in> set bs. fst e \<noteq> v}"
        "fst e \<noteq> fst f" for e f
      using that new [of e] new [of f] apart [of e f] by (elim insertE) (simp_all add: Int_commute, blast)
    with dk show ?thesis unfolding disjoint_bitmaps_def st [OF d] by simp
  qed
  show "\<Union>(snd ` set (insert_bitmap v i bs)) = insert i (\<Union>(snd ` set bs))"
    unfolding st [OF d] by force
  show "fst ` set (insert_bitmap v i bs) = insert v (fst ` set bs)"
    unfolding st [OF d] by force
  show "bitmap_map (insert_bitmap v i bs) = (bitmap_map bs)(i \<mapsto> v)"
  proof
    fix j
    have "bitmap_map (insert_bitmap v i bs) j = Some x \<longleftrightarrow> ((bitmap_map bs)(i \<mapsto> v)) j = Some x" for x
      unfolding bitmap_map_iff [OF ok] fun_upd_apply st [OF d] using bitmap_map_iff [OF bs(1), of j x] bs(2)
      by auto
    then show "bitmap_map (insert_bitmap v i bs) j = ((bitmap_map bs)(i \<mapsto> v)) j" by (metis option.exhaust)
  qed
qed

lemma dense_put:
  assumes s: "column_storage_ok ty n s" and fits: "update_fits ty n i v" and Dense: "s = Dense vals present"
  shows "column_storage_ok ty n (column_set s i v) \<and> storage_value (column_set s i v) = (storage_value s)(i := v)"
proof -
  have i: "unat i < length vals" using s fits by (simp add: column_storage_ok_def update_fits_def Dense)
  show ?thesis
  proof (cases v)
    case None
    with s i show ?thesis by (auto simp: column_storage_ok_def column_set_def storage_value_def Dense fun_eq_iff)
  next
    case (Some x)
    have "unat i \<noteq> unat j" if "j \<noteq> i" for j using that by (auto simp: word_unat_eq_iff)
    moreover have "in_domain ty x" using fits Some by (simp add: update_fits_def)
    ultimately show ?thesis using s i Some
      by (auto simp: column_storage_ok_def column_set_def storage_value_def Dense fun_eq_iff get_opt_def nth_list_update
          dest!: set_update_subset_insert [THEN subsetD])
  qed
qed

lemma bool_put:
  assumes s: "column_storage_ok ty n s" and fits: "update_fits ty n i v" and SparseBool: "s = SparseBool true_set false_set present"
  shows "column_storage_ok ty n (column_set s i v) \<and> storage_value (column_set s i v) = (storage_value s)(i := v)"
  using assms
  by (cases v) (auto simp: column_storage_ok_def column_set_def storage_value_def update_fits_def in_domain_def fun_eq_iff
      split: encoded_value.splits bool.splits)

lemma lookup_put:
  assumes s: "column_storage_ok ty n s" and fits: "update_fits ty n i v" and SparseLookup: "s = SparseLookup bs present"
  shows "column_storage_ok ty n (column_set s i v) \<and> storage_value (column_set s i v) = (storage_value s)(i := v)"
proof -
  from s SparseLookup have bs: "disjoint_bitmaps bs" "present = \<Union>(snd ` set bs)" "ty = FtText \<or> ty = FtUuid"
    "\<forall>v\<in>fst ` set bs. in_domain ty v" by (simp_all add: column_storage_ok_def)
  let ?c = "clear_bitmaps i bs"
  note c = clear_bitmaps_ok [OF bs(1), of i]
  have keys: "fst ` set ?c = fst ` set bs" using c(2) by (metis list.set_map)
  have free: "\<forall>e\<in>set ?c. i \<notin> snd e" by (auto simp: clear_bitmaps_def)
  note ins = insert_bitmap_ok [OF c(1) free]
  have val: "storage_value s = bitmap_map bs" using lookup_value [OF bs(1)] bs(2) SparseLookup by simp
  show ?thesis
  proof (cases v)
    case None
    then have "column_set s i v = SparseLookup ?c (\<Union>(snd ` set ?c))"
      by (simp add: column_set_def SparseLookup c(3) bs(2) Let_def)
    then show ?thesis using c(1,4) bs(3,4) keys None val by (simp add: column_storage_ok_def lookup_value)
  next
    case (Some x)
    then have x: "in_domain ty x" using fits by (simp add: update_fits_def)
    have "present = \<Union>(snd ` set bs)" by (rule bs(2))
    then have "column_set s i v = SparseLookup (insert_bitmap x i ?c) (\<Union>(snd ` set (insert_bitmap x i ?c)))"
      unfolding ins(2) c(3) using Some x bs(3)
      by (auto simp: column_set_def SparseLookup Let_def in_domain_def split: encoded_value.splits)
    then show ?thesis using ins [of x] lookup_value [OF ins(1) [of x]] c(4) bs(3,4) keys Some x val
      by (simp add: column_storage_ok_def)
  qed
qed

lemma ordered_put:
  assumes s: "column_storage_ok ty n s" and fits: "update_fits ty n i v" and SparseOrdered: "s = SparseOrdered es present"
  shows "column_storage_ok ty n (column_set s i v) \<and> storage_value (column_set s i v) = (storage_value s)(i := v)"
proof -
  from s SparseOrdered have es: "sorted_wrt (<) (map fst es)" "present = fst ` set es" "ty \<noteq> FtBoolean" "ty \<noteq> FtText" "ty \<noteq> FtUuid"
    "\<forall>v\<in>snd ` set es. in_domain ty v" by (simp_all add: column_storage_ok_def)
  have dist: "distinct (map fst es)" using es(1) unfolding strict_sorted_iff by simp
  have val: "storage_value s = map_of es" using ordered_value [OF es(1)] es(2) SparseOrdered by simp
  have result: ?thesis if "column_set s i v = SparseOrdered fs (fst ` set fs)" "sorted_wrt (<) (map fst fs)"
    "map_of fs = (map_of es)(i := v)" "\<forall>v\<in>snd ` set fs. in_domain ty v" for fs
    using that es val by (simp add: column_storage_ok_def ordered_value)
  show ?thesis
  proof (cases "search_key es i 0 (length es)")
    case (Inl k)
    note k = search_key_exact [OF es(1), of i, unfolded Inl, simplified]
    have new: "i \<notin> fst ` set es" using search_missing [of k es i] k by simp
    show ?thesis
    proof (cases v)
      case None
      show ?thesis
        by (rule result [of es]) (use None Inl es new SparseOrdered in \<open>auto simp: column_set_def map_of_eq_None_iff fun_eq_iff\<close>)
    next
      case (Some x)
      have st: "set (take k es @ (i, x) # drop k es) = insert (i, x) (set es)"
        by (metis Un_insert_right append_take_drop_id list.simps(15) set_append)
      show ?thesis
        by (rule result [of "take k es @ (i, x) # drop k es"], unfold st)
          (use Some Inl es new fits k SparseOrdered sorted_insert_at [OF es(1), of k i x] map_of_insert_at [OF new] in
            \<open>auto simp: column_set_def update_fits_def\<close>)
    qed
  next
    case (Inr k)
    note k = search_key_exact [OF es(1), of i, unfolded Inr, simplified]
    show ?thesis
    proof (cases v)
      case None
      let ?fs = "take k es @ drop (Suc k) es"
      note rem = remove_at [OF es(1), of k i]
      have "map_of ?fs = (map_of es)(i := None)" by (rule map_of_remove_at [OF dist]) (use k in auto)
      moreover have "\<forall>v\<in>snd ` set ?fs. in_domain ty v" using es(6) rem(3) k by blast
      ultimately show ?thesis using k rem(1,2) None Inr es(2) SparseOrdered
        by (intro result [of ?fs]) (simp_all add: column_set_def)
    next
      case (Some x)
      let ?fs = "es[k := (i, x)]"
      have keys: "map fst ?fs = map fst es" using k by (metis fst_conv list_update_id map_update)
      moreover from keys have "fst ` set ?fs = fst ` set es" by (metis list.set_map)
      moreover have "i \<in> fst ` set es" using k by (metis image_eqI nth_mem)
      moreover have "map_of ?fs = (map_of es)(i \<mapsto> x)" by (rule map_of_replace [OF dist]) (use k in auto)
      moreover have "\<forall>v\<in>snd ` set ?fs. in_domain ty v"
        using es(6) fits Some by (auto simp: update_fits_def dest!: set_update_subset_insert [THEN subsetD])
      ultimately show ?thesis using Some Inr es(1,2) SparseOrdered
        by (intro result [of ?fs]) (simp_all add: column_set_def insert_absorb)
    qed
  qed
qed

lemma storage_put:
  assumes "column_storage_ok ty n s" "update_fits ty n i v"
  shows "column_storage_ok ty n (column_set s i v) \<and> storage_value (column_set s i v) = (storage_value s)(i := v)"
  using dense_put [OF assms] bool_put [OF assms] lookup_put [OF assms] ordered_put [OF assms] by (cases s) blast+

interpretation st: value_table "column_storage_ok ty n" storage_value column_set "update_fits ty n"
  by unfold_locales (use storage_put in blast)+

lemma new_storage_ok: "column_storage_ok ty n (new_storage ty n k)" "storage_value (new_storage ty n k) = Map.empty"
  by (auto simp: new_storage_def column_storage_ok_def storage_value_def disjoint_bitmaps_def in_domain_def
      default_encoded_value_def fun_eq_iff split: filter_column_type.splits)

text \<open>
  C25: The storage chosen for a column by its sparsity (dense values, two bitmaps, one bitmap for each
  value, or sorted entries) is not observable. Whatever number of populated rows was announced,
  after any writes of values of the column's domain to nodes of the graph, every node reads
  the value written to it last, or null.
\<close>

theorem storage_choice_irrelevant:
  assumes "\<forall>(i, v)\<in>set ops. update_fits ty n i v"
  shows "storage_value (fold (\<lambda>(i, v) s. column_set s i v) ops (new_storage ty n k)) =
    fold (\<lambda>(i, v) m. m(i := v)) ops Map.empty"
  using st.puts [OF new_storage_ok(1) assms] by (simp add: new_storage_ok(2))

theorem storage_choice_irrelevant_witness:
  "storage_value (fold (\<lambda>(i, v) s. column_set s i v) [(7, Some (EvNumeric 5)), (2, Some (EvNumeric 1)), (7, None)]
      (new_storage FtNumeric 100 2)) =
    fold (\<lambda>(i, v) m. m(i := v)) [(7, Some (EvNumeric 5)), (2, Some (EvNumeric 1)), (7, None)] Map.empty"
  by (rule storage_choice_irrelevant) (simp add: update_fits_def in_domain_def)

text \<open>
  What happens to a value for a node beyond the column depends on the storage: a dense column
  drops it, a sparse one keeps it.
\<close>

theorem value_beyond_column:
  assumes "in_domain ty v" "n \<le> unat i"
  shows "storage_value (column_set (new_storage ty n k) i (Some v)) i = (if is_sparse k n then Some v else None)"
  using assms
  by (auto simp: new_storage_def column_set_def storage_value_def in_domain_def search_key.simps Let_def clear_bitmaps_def compare_def
      split: encoded_value.splits filter_column_type.splits bool.splits)

theorem value_beyond_column_witness:
  "storage_value (column_set (new_storage FtNumeric 100 0) 100 (Some (EvNumeric 7))) 100 = Some (EvNumeric 7) \<and>
   storage_value (column_set (new_storage FtNumeric 100 100) 100 (Some (EvNumeric 7))) 100 = None"
proof -
  have "in_domain FtNumeric (EvNumeric 7)" "100 \<le> unat (100 :: u32)" by (simp_all add: in_domain_def)
  from value_beyond_column [OF this, of 0] value_beyond_column [OF this, of 100] show ?thesis
    by (simp add: is_sparse_def usize_max_def)
qed

end
