(* ===== verification/FilterMapped.thy ===== *)
theory FilterMapped
  imports FilterStorage TenantIndex
begin

text \<open>
  The mapped base of the filter index (\<open>graph/src/filter_index.rs\<close>): three sections of an artifact
  (catalog, values, dictionaries), their validation, and the lookups that read them in place.
\<close>

section \<open>Sections\<close>

datatype (plugins only: size) persisted_storage_kind = KDense | KSparseBool | KSparseLookup | KSparseOrdered

definition parse_storage_kind :: "u8 \<Rightarrow> persisted_storage_kind graph_result" where
  "parse_storage_kind v =
     (if v = 0 then Inr KDense else if v = 1 then Inr KSparseBool else if v = 2 then Inr KSparseLookup
      else if v = 3 then Inr KSparseOrdered
      else Inl (corrupt (''unknown filter storage kind '' @ show_nat (unat v))))"

definition from_persisted_tag :: "u8 \<Rightarrow> filter_column_type graph_result" where
  "from_persisted_tag v =
     (if v = 0 then Inr FtNumeric else if v = 1 then Inr FtBoolean else if v = 2 then Inr FtText
      else if v = 3 then Inr FtDate else if v = 4 then Inr FtTimestamptz else if v = 5 then Inr FtUuid
      else Inl (corrupt (''unknown filter column type '' @ show_nat (unat v))))"

record mapped_column =
  fc_column_type :: filter_column_type
  fc_storage_kind :: persisted_storage_kind
  fc_value_width :: usize
  fc_row_count :: u32
  fc_data_range :: byte_range
  fc_dictionary_range :: byte_range
  fc_dictionary_count :: u32

record mapped_filter_base =
  mb_bytes :: "u8 list"
  mb_columns :: "mapped_column list"
  mb_node_count :: u32

record column_meta =
  cm_table_oid :: u32
  cm_column_name :: "u8 list"
  cm_column_type :: filter_column_type

definition FILTER_CATALOG_HEADER_SIZE :: usize where "FILTER_CATALOG_HEADER_SIZE = 16"
definition FILTER_DESCRIPTOR_SIZE :: usize where "FILTER_DESCRIPTOR_SIZE = 64"

section \<open>Reading\<close>

definition filter_u32 :: "u8 list \<Rightarrow> usize \<Rightarrow> u32 graph_result" where
  "filter_u32 bytes offset =
     rbind (ok_or (corrupt ''filter integer is truncated'') (get_slice_opt bytes offset (offset + 4))) (\<lambda>raw. Inr (le_word raw))"

definition filter_u64 :: "u8 list \<Rightarrow> usize \<Rightarrow> u64 graph_result" where
  "filter_u64 bytes offset =
     rbind (ok_or (corrupt ''filter integer is truncated'') (get_slice_opt bytes offset (offset + 8))) (\<lambda>raw. Inr (le_word raw))"

text \<open>\<open>result.ok()\<close>\<close>

definition result_ok :: "('e, 'a) rust_result \<Rightarrow> ('e, 'a option) rust_result" where
  "result_ok r = (case r of Inr x \<Rightarrow> Inr (Some x) | Inl Panic \<Rightarrow> Inl Panic | Inl (Err e) \<Rightarrow> Inr None)"

definition validate_range :: "byte_range \<Rightarrow> usize \<Rightarrow> string \<Rightarrow> unit graph_result" where
  "validate_range r len label =
     (if fst r > snd r \<or> snd r > len then Inl (corrupt (label @ '' range is outside the artifact'')) else Inr ())"

definition relative_range :: "u8 list \<Rightarrow> usize \<Rightarrow> usize \<Rightarrow> usize \<Rightarrow> string \<Rightarrow> byte_range graph_result" where
  "relative_range descriptor offset_field length_field section_len label =
     rbind (filter_u64 descriptor offset_field) (\<lambda>start.
     rbind (filter_u64 descriptor length_field) (\<lambda>len.
     rbind (ok_or (corrupt (label @ '' range overflowed'')) (checked_add_usize (unat start) (unat len))) (\<lambda>stop.
       if stop > section_len then Inl (corrupt (label @ '' range exceeds its section'')) else Inr (unat start, stop))))"

definition shift_range :: "byte_range \<Rightarrow> usize \<Rightarrow> byte_range graph_result" where
  "shift_range r start =
     rbind (ok_or (corrupt ''filter section range overflowed'') (checked_add_usize start (fst r))) (\<lambda>a.
     rbind (ok_or (corrupt ''filter section range overflowed'') (checked_add_usize start (snd r))) (\<lambda>b. Inr (a, b)))"

text \<open>\<open>chunks_exact(n)\<close>\<close>

definition chunks_exact :: "nat \<Rightarrow> 'a list \<Rightarrow> 'a list list" where
  "chunks_exact n xs = map (\<lambda>i. slice (n * i) (n * i + n) xs) [0..<length xs div n]"

definition column_error :: "usize \<Rightarrow> string \<Rightarrow> graph_error fault" where
  "column_error column_idx what = corrupt (''filter column '' @ show_nat column_idx @ what)"

definition text_column_error :: "usize \<Rightarrow> string \<Rightarrow> graph_error fault" where
  "text_column_error column_idx what = corrupt (''text filter column '' @ show_nat column_idx @ what)"

section \<open>Validation of a column\<close>

definition kind_matches :: "filter_column_type \<Rightarrow> persisted_storage_kind \<Rightarrow> bool" where
  "kind_matches ty kind =
     (case kind of KDense \<Rightarrow> True | KSparseBool \<Rightarrow> ty = FtBoolean | KSparseLookup \<Rightarrow> ty = FtText \<or> ty = FtUuid
      | KSparseOrdered \<Rightarrow> ty = FtNumeric \<or> ty = FtDate \<or> ty = FtTimestamptz)"

definition validate_storage_kind :: "usize \<Rightarrow> filter_column_type \<Rightarrow> persisted_storage_kind \<Rightarrow> unit graph_result" where
  "validate_storage_kind column_idx ty kind =
     (if kind_matches ty kind then Inr () else Inl (column_error column_idx '' storage kind does not match its type''))"

definition validate_value :: "u8 list \<Rightarrow> filter_column_type \<Rightarrow> u32 \<Rightarrow> unit graph_result" where
  "validate_value bytes ty dictionary_count =
     (if ty = FtBoolean then
        (if bytes \<noteq> [0] \<and> bytes \<noteq> [1] then Inl (corrupt ''boolean filter value is not 0 or 1'') else Inr ())
      else if ty = FtText then
        rbind (filter_u32 bytes 0) (\<lambda>token.
          if token \<ge> dictionary_count then Inl (corrupt ''text filter token is outside its dictionary'') else Inr ())
      else Inr ())"

definition validate_entry ::
  "u8 list \<Rightarrow> u8 list \<Rightarrow> usize \<Rightarrow> usize \<Rightarrow> u8 list option \<Rightarrow> u8 list option graph_result" where
  "validate_entry dictionary strings column_idx token previous =
     rbind (filter_u64 dictionary (token * 8)) (\<lambda>start.
     rbind (filter_u64 dictionary ((token + 1) * 8)) (\<lambda>stop.
     rbind (ok_or (corrupt ''dictionary string range is invalid'') (get_slice_opt strings (unat start) (unat stop))) (\<lambda>raw.
     rbind (ok_or (corrupt ''filter dictionary value is not UTF-8'') (from_utf8 raw)) (\<lambda>v.
       if is_some_and (\<lambda>last. last \<ge> v) previous then
         Inl (text_column_error column_idx '' dictionary is not strictly lexical'')
       else Inr (Some v)))))"

definition validate_dictionary :: "u8 list \<Rightarrow> usize \<Rightarrow> filter_column_type \<Rightarrow> byte_range \<Rightarrow> u32 \<Rightarrow> unit graph_result" where
  "validate_dictionary bytes column_idx ty r dictionary_count =
     (if ty \<noteq> FtText then
        (if fst r < snd r \<or> dictionary_count \<noteq> 0 then
           Inl (corrupt (''non-text filter column '' @ show_nat column_idx @ '' has a dictionary''))
         else Inr ())
      else
        rbind (slice_range_r bytes r) (\<lambda>dictionary.
        rbind (ok_or (corrupt ''filter dictionary length overflowed'') (checked_mul_usize (unat dictionary_count + 1) 8)) (\<lambda>offsets_len.
        rbind (if length dictionary < offsets_len then Inr True
               else rbind (filter_u64 dictionary 0) (\<lambda>first. Inr (first \<noteq> 0))) (\<lambda>bad.
        if bad then Inl (text_column_error column_idx '' has an invalid dictionary offset table'')
        else
          let strings = drop offsets_len dictionary in
          rbind (filter_u64 dictionary (unat dictionary_count * 8)) (\<lambda>terminal.
          if unat terminal \<noteq> length strings then
            Inl (text_column_error column_idx '' dictionary terminal offset is invalid'')
          else
            rbind (fold_r (validate_entry dictionary strings column_idx) [0..<unat dictionary_count] None) (\<lambda>_. Inr ()))))))"

definition expected_data_len ::
  "usize \<Rightarrow> persisted_storage_kind \<Rightarrow> usize \<Rightarrow> u32 \<Rightarrow> u32 \<Rightarrow> usize graph_result" where
  "expected_data_len column_idx kind value_width row_count nodes =
     (if kind = KDense then
        (if row_count > nodes then Inl (corrupt (''dense filter column '' @ show_nat column_idx @ '' row count exceeds node count''))
         else
           rbind (ok_or (corrupt ''filter data length overflowed'') (checked_mul_usize (unat nodes) value_width)) (\<lambda>values_len.
           ok_or (corrupt ''filter data length overflowed'') (checked_add_usize ((unat nodes + 7) div 8) values_len)))
      else ok_or (corrupt ''filter data length overflowed'') (checked_mul_usize (unat row_count) (4 + value_width)))"

definition dense_row_ok ::
  "u8 list \<Rightarrow> usize \<Rightarrow> usize \<Rightarrow> filter_column_type \<Rightarrow> u32 \<Rightarrow> usize \<Rightarrow> unit \<Rightarrow> unit graph_result" where
  "dense_row_ok data present_len value_width ty dictionary_count i _ =
     rbind (index_r data (i div 8)) (\<lambda>byte.
       if \<not> bit_set byte (i mod 8) then Inr ()
       else
         let offset = present_len + i * value_width in
         rbind (slice_r data offset (offset + value_width)) (\<lambda>raw. validate_value raw ty dictionary_count))"

definition sparse_row_ok ::
  "usize \<Rightarrow> filter_column_type \<Rightarrow> u32 \<Rightarrow> u32 \<Rightarrow> u8 list \<Rightarrow> u32 option \<Rightarrow> u32 option graph_result" where
  "sparse_row_ok column_idx ty dictionary_count nodes record_bytes previous =
     rbind (filter_u32 record_bytes 0) (\<lambda>i.
       if i \<ge> nodes \<or> is_some_and (\<lambda>last. last \<ge> i) previous then
         Inl (column_error column_idx '' sparse nodes are not strict and in range'')
       else
         rbind (slice_r record_bytes 4 (length record_bytes)) (\<lambda>raw.
         rbind (validate_value raw ty dictionary_count) (\<lambda>_. Inr (Some i))))"

definition trailing_bits :: "u8 list \<Rightarrow> usize \<Rightarrow> u32 \<Rightarrow> bool" where
  "trailing_bits data present_len nodes \<longleftrightarrow>
     unat nodes mod 8 \<noteq> 0 \<and>
     is_some_and (\<lambda>last. and last (not ((push_bit (unat nodes mod 8) 1) - 1)) \<noteq> 0) (get_opt data (present_len - 1))"

definition validate_mapped_column ::
  "u8 list \<Rightarrow> usize \<Rightarrow> filter_column_type \<Rightarrow> persisted_storage_kind \<Rightarrow> usize \<Rightarrow> u32 \<Rightarrow> byte_range \<Rightarrow> byte_range \<Rightarrow> u32 \<Rightarrow> u32
     \<Rightarrow> unit graph_result" where
  "validate_mapped_column bytes column_idx ty kind value_width row_count data_range dictionary_range dictionary_count nodes =
     rbind (slice_range_r bytes data_range) (\<lambda>data.
     rbind (expected_data_len column_idx kind value_width row_count nodes) (\<lambda>expected.
     if length data \<noteq> expected then Inl (column_error column_idx '' data length is inconsistent'')
     else
       rbind
         (if kind = KDense then
            let present_len = (unat nodes + 7) div 8 in
            if trailing_bits data present_len nodes then
              Inl (column_error column_idx '' has nonzero trailing presence bits'')
            else
              rbind (slice_r data 0 present_len) (\<lambda>present.
              if sum_list (map count_ones present) \<noteq> unat row_count then
                Inl (column_error column_idx '' row count does not match presence bits'')
              else fold_r (dense_row_ok data present_len value_width ty dictionary_count) [0..<unat nodes] ())
          else
            rbind (fold_r (sparse_row_ok column_idx ty dictionary_count nodes) (chunks_exact (4 + value_width) data) None) (\<lambda>_. Inr ()))
         (\<lambda>_. validate_dictionary bytes column_idx ty dictionary_range dictionary_count)))"

section \<open>Validation of the catalog\<close>

record column_scan =
  cs_columns :: "column_meta list"
  cs_mapped :: "mapped_column list"
  cs_name_end :: usize
  cs_data_end :: usize
  cs_dictionary_end :: usize

definition scan_column ::
  "u8 list \<Rightarrow> u8 list \<Rightarrow> u8 list \<Rightarrow> byte_range \<Rightarrow> byte_range \<Rightarrow> u32 \<Rightarrow> usize \<Rightarrow> column_scan \<Rightarrow> column_scan graph_result" where
  "scan_column bytes catalog names data_range dictionary_range nodes column_idx s =
     (let start = FILTER_CATALOG_HEADER_SIZE + column_idx * FILTER_DESCRIPTOR_SIZE in
      rbind (slice_r catalog start (start + FILTER_DESCRIPTOR_SIZE)) (\<lambda>descriptor.
      rbind (index_r descriptor 7) (\<lambda>reserved.
      rbind (slice_r descriptor 60 64) (\<lambda>tail.
      if reserved \<noteq> 0 \<or> list_ex (\<lambda>b. b \<noteq> 0) tail then Inl (column_error column_idx '' has nonzero reserved bytes'')
      else
        rbind (rbind (index_r descriptor 4) from_persisted_tag) (\<lambda>ty.
        rbind (rbind (index_r descriptor 5) parse_storage_kind) (\<lambda>kind.
        rbind (index_r descriptor 6) (\<lambda>width.
        if unat width \<noteq> persisted_width ty then Inl (column_error column_idx '' has an invalid value width'')
        else
          rbind (validate_storage_kind column_idx ty kind) (\<lambda>_.
          rbind (filter_u64 descriptor 8) (\<lambda>name_offset.
          rbind (filter_u32 descriptor 16) (\<lambda>name_len.
          rbind (ok_or (corrupt ''filter name range overflowed'') (checked_add_usize (unat name_offset) (unat name_len))) (\<lambda>name_end.
          if unat name_offset \<noteq> cs_name_end s then
            Inl (corrupt ''filter catalog names are not contiguous and canonical'')
          else
            rbind (ok_or (corrupt ''filter name is outside catalog'') (get_slice_opt names (unat name_offset) name_end)) (\<lambda>raw.
            rbind (ok_or (corrupt ''filter column name is not UTF-8'') (from_utf8 raw)) (\<lambda>name.
            rbind (filter_u32 descriptor 20) (\<lambda>row_count.
            rbind (relative_range descriptor 24 32 (range_len data_range) ''filter data'') (\<lambda>local_data.
            rbind (relative_range descriptor 40 48 (range_len dictionary_range) ''filter dictionary'') (\<lambda>local_dictionary.
            if fst local_data \<noteq> cs_data_end s \<or> fst local_dictionary \<noteq> cs_dictionary_end s then
              Inl (corrupt ''filter value or dictionary ranges are not contiguous and canonical'')
            else
              rbind (filter_u32 descriptor 56) (\<lambda>dictionary_count.
              rbind (shift_range local_data (fst data_range)) (\<lambda>data.
              rbind (shift_range local_dictionary (fst dictionary_range)) (\<lambda>dictionary.
              rbind (validate_mapped_column bytes column_idx ty kind (unat width) row_count data dictionary dictionary_count nodes) (\<lambda>_.
              rbind (filter_u32 descriptor 0) (\<lambda>table_oid.
                Inr \<lparr>cs_columns = cs_columns s @ [\<lparr>cm_table_oid = table_oid, cm_column_name = name, cm_column_type = ty\<rparr>],
                  cs_mapped = cs_mapped s @ [\<lparr>fc_column_type = ty, fc_storage_kind = kind, fc_value_width = unat width,
                    fc_row_count = row_count, fc_data_range = data, fc_dictionary_range = dictionary,
                    fc_dictionary_count = dictionary_count\<rparr>],
                  cs_name_end = name_end, cs_data_end = snd local_data, cs_dictionary_end = snd local_dictionary\<rparr>)))))))))))))))))))))"

definition map_sections ::
  "u8 list \<Rightarrow> byte_range \<Rightarrow> byte_range \<Rightarrow> byte_range \<Rightarrow> u32 \<Rightarrow> (column_meta list \<times> mapped_filter_base) graph_result" where
  "map_sections bytes catalog_range data_range dictionary_range nodes =
     rbind (validate_range catalog_range (length bytes) ''filter catalog'') (\<lambda>_.
     rbind (validate_range data_range (length bytes) ''filter data'') (\<lambda>_.
     rbind (validate_range dictionary_range (length bytes) ''filter dictionary'') (\<lambda>_.
     rbind (slice_range_r bytes catalog_range) (\<lambda>catalog.
     if length catalog < FILTER_CATALOG_HEADER_SIZE then Inl (corrupt ''filter catalog header is truncated'')
     else
       rbind (filter_u32 catalog 0) (\<lambda>column_count.
       rbind (filter_u32 catalog 4) (\<lambda>descriptor_size.
       if unat descriptor_size \<noteq> FILTER_DESCRIPTOR_SIZE then Inl (corrupt ''unexpected filter descriptor size'')
       else
         rbind (filter_u64 catalog 8) (\<lambda>names_len.
         rbind (ok_or (corrupt ''filter descriptor length overflowed'')
           (checked_mul_usize (unat column_count) FILTER_DESCRIPTOR_SIZE)) (\<lambda>descriptor_bytes.
         rbind (ok_or (corrupt ''filter catalog length overflowed'')
           (checked_add_usize FILTER_CATALOG_HEADER_SIZE descriptor_bytes)) (\<lambda>names_start.
         rbind (ok_or (corrupt ''filter catalog length overflowed'') (checked_add_usize names_start (unat names_len))) (\<lambda>catalog_end.
         if catalog_end \<noteq> length catalog then Inl (corrupt ''filter catalog length does not match its header'')
         else
           rbind (slice_r catalog names_start catalog_end) (\<lambda>names.
           rbind (fold_r (scan_column bytes catalog names data_range dictionary_range nodes) [0..<unat column_count]
             \<lparr>cs_columns = [], cs_mapped = [], cs_name_end = 0, cs_data_end = 0, cs_dictionary_end = 0\<rparr>) (\<lambda>s.
           if cs_name_end s \<noteq> length names \<or> cs_data_end s \<noteq> range_len data_range \<or>
               cs_dictionary_end s \<noteq> range_len dictionary_range then
             Inl (corrupt ''filter sections contain unreferenced trailing bytes'')
           else if \<not> distinct (map (\<lambda>c. (cm_table_oid c, cm_column_name c)) (cs_columns s)) then
             Inl (corrupt ''filter catalog contains duplicate table/column identities'')
           else Inr (cs_columns s, \<lparr>mb_bytes = bytes, mb_columns = cs_mapped s, mb_node_count = nodes\<rparr>)))))))))))))"

section \<open>Lookups\<close>

text \<open>\<open>i64::from_le_bytes(bytes.try_into()?)\<close>\<close>

definition le_exact :: "nat \<Rightarrow> string \<Rightarrow> u8 list \<Rightarrow> ('a :: len word) graph_result" where
  "le_exact width label bytes =
     (if length bytes = width then Inr (le_word bytes) else Inl (corrupt (label @ '' filter width is invalid'')))"

definition decode_value :: "u8 list \<Rightarrow> usize \<Rightarrow> mapped_filter_base \<Rightarrow> encoded_value graph_result" where
  "decode_value bytes column_idx base =
     rbind (ok_or (corrupt ''filter column is outside mapped base'') (get_opt (mb_columns base) column_idx)) (\<lambda>c.
     case fc_column_type c of
       FtBoolean \<Rightarrow> rbind (index_r bytes 0) (\<lambda>b. Inr (EvBoolean (b \<noteq> 0)))
     | FtText \<Rightarrow> rbind (filter_u32 bytes 0) (\<lambda>t. Inr (EvText t))
     | FtNumeric \<Rightarrow> rbind (le_exact 8 ''numeric'' bytes) (\<lambda>n. Inr (EvNumeric n))
     | FtDate \<Rightarrow> rbind (le_exact 8 ''date'' bytes) (\<lambda>n. Inr (EvDate n))
     | FtTimestamptz \<Rightarrow> rbind (le_exact 8 ''timestamp'' bytes) (\<lambda>n. Inr (EvTimestamptz n))
     | FtUuid \<Rightarrow> rbind (le_exact 16 ''uuid'' bytes) (\<lambda>n. Inr (EvUuid n)))"

text \<open>A binary search whose probe may be missing (\<open>?\<close> in the source).\<close>

function (sequential) search_opt :: "(nat \<Rightarrow> cmp option graph_result) \<Rightarrow> nat \<Rightarrow> nat \<Rightarrow> nat option graph_result" where
  "search_opt at lo hi =
     (if lo < hi then
        let mid = lo + (hi - lo) div 2 in
        rbind (at mid) (\<lambda>c. case c of
          None \<Rightarrow> Inr None
        | Some CEqual \<Rightarrow> Inr (Some mid)
        | Some CLess \<Rightarrow> search_opt at (mid + 1) hi
        | Some CGreater \<Rightarrow> search_opt at lo mid)
      else Inr None)"
  by pat_completeness auto

termination
  by (relation "measure (\<lambda>(_, lo, hi). hi - lo)") auto

declare search_opt.simps [simp del]

definition row_cmp :: "u8 list \<Rightarrow> usize \<Rightarrow> u32 \<Rightarrow> nat \<Rightarrow> cmp option graph_result" where
  "row_cmp data stride i mid =
     rbind (result_ok (filter_u32 data (mid * stride))) (\<lambda>candidate. Inr (map_option (\<lambda>c. compare c i) candidate))"

definition base_value :: "mapped_filter_base \<Rightarrow> usize \<Rightarrow> u32 \<Rightarrow> encoded_value option graph_result" where
  "base_value base column_idx i =
     (if i \<ge> mb_node_count base then Inr None
      else case get_opt (mb_columns base) column_idx of None \<Rightarrow> Inr None
      | Some c \<Rightarrow>
          rbind (slice_range_r (mb_bytes base) (fc_data_range c)) (\<lambda>data.
          if fc_storage_kind c = KDense then
            let present_bytes = (unat (mb_node_count base) + 7) div 8 in
            rbind (index_r data (unat i div 8)) (\<lambda>byte.
            if \<not> bit_set byte (unat i mod 8) then Inr None
            else
              let offset = present_bytes + unat i * fc_value_width c in
              rbind (slice_r data offset (offset + fc_value_width c)) (\<lambda>raw. result_ok (decode_value raw column_idx base)))
          else
            let stride = 4 + fc_value_width c in
            rbind (search_opt (row_cmp data stride i) 0 (unat (fc_row_count c))) (\<lambda>hit. case hit of None \<Rightarrow> Inr None
            | Some mid \<Rightarrow>
                rbind (slice_r data (mid * stride + 4) (mid * stride + stride)) (\<lambda>raw. result_ok (decode_value raw column_idx base)))))"

definition base_text_value :: "mapped_filter_base \<Rightarrow> usize \<Rightarrow> u32 \<Rightarrow> u8 list option graph_result" where
  "base_text_value base column_idx token =
     (case get_opt (mb_columns base) column_idx of None \<Rightarrow> Inr None
      | Some c \<Rightarrow>
          if token \<ge> fc_dictionary_count c then Inr None
          else
            rbind (slice_range_r (mb_bytes base) (fc_dictionary_range c)) (\<lambda>dictionary.
            let offsets_bytes = (unat (fc_dictionary_count c) + 1) * 8 in
            rbind (result_ok (filter_u64 dictionary (unat token * 8))) (\<lambda>start. case start of None \<Rightarrow> Inr None | Some start \<Rightarrow>
            rbind (result_ok (filter_u64 dictionary ((unat token + 1) * 8))) (\<lambda>stop. case stop of None \<Rightarrow> Inr None | Some stop \<Rightarrow>
              Inr (Option.bind (get_slice_opt dictionary (offsets_bytes + unat start) (offsets_bytes + unat stop)) from_utf8)))))"

definition text_cmp :: "mapped_filter_base \<Rightarrow> usize \<Rightarrow> u8 list \<Rightarrow> nat \<Rightarrow> cmp option graph_result" where
  "text_cmp base column_idx v mid =
     rbind (base_text_value base column_idx (word_of_nat mid)) (\<lambda>candidate. Inr (map_option (\<lambda>c. compare c v) candidate))"

definition base_lookup_text :: "mapped_filter_base \<Rightarrow> usize \<Rightarrow> u8 list \<Rightarrow> u32 option graph_result" where
  "base_lookup_text base column_idx v =
     (case get_opt (mb_columns base) column_idx of None \<Rightarrow> Inr None
      | Some c \<Rightarrow>
          rbind (search_opt (text_cmp base column_idx v) 0 (unat (fc_dictionary_count c))) (\<lambda>hit. Inr (map_option word_of_nat hit)))"

end
