(* ===== verification/FilterMappedProofs.thy ===== *)
theory FilterMappedProofs
  imports FilterMapped Validation
begin

text \<open>
  Validated filter sections: validation either reports corruption or establishes \<open>filter_base_ok\<close>, and on
  such a base every lookup is total and returns what the sections say.
\<close>

section \<open>Checked reads\<close>

lemma checked_column_error [simp]: "checked P (Inl (column_error c s))" "checked P (Inl (text_column_error c s))"
  by (simp_all add: column_error_def text_column_error_def)

lemma checked_u32: "(offset + 4 \<le> length bytes \<Longrightarrow> P (le_word (slice offset (offset + 4) bytes))) \<Longrightarrow> checked P (filter_u32 bytes offset)"
  by (simp add: filter_u32_def get_slice_opt_def)

lemma checked_u64: "(offset + 8 \<le> length bytes \<Longrightarrow> P (le_word (slice offset (offset + 8) bytes))) \<Longrightarrow> checked P (filter_u64 bytes offset)"
  by (simp add: filter_u64_def get_slice_opt_def)

lemma checked_bind_u32:
  "(offset + 4 \<le> length bytes \<Longrightarrow> checked P (f (le_word (slice offset (offset + 4) bytes)))) \<Longrightarrow>
    checked P (rbind (filter_u32 bytes offset) f)"
  by (simp add: filter_u32_def get_slice_opt_def)

lemma checked_bind_u64:
  "(offset + 8 \<le> length bytes \<Longrightarrow> checked P (f (le_word (slice offset (offset + 8) bytes)))) \<Longrightarrow>
    checked P (rbind (filter_u64 bytes offset) f)"
  by (simp add: filter_u64_def get_slice_opt_def)

lemmas verify = checked_bind_ok_or checked_bind_u32 checked_bind_u64 checked_if

section \<open>What the sections hold\<close>

definition decode_bytes :: "filter_column_type \<Rightarrow> u8 list \<Rightarrow> encoded_value" where
  "decode_bytes ty bs =
     (case ty of FtBoolean \<Rightarrow> EvBoolean (bs ! 0 \<noteq> 0) | FtText \<Rightarrow> EvText (le_word bs) | FtNumeric \<Rightarrow> EvNumeric (le_word bs)
      | FtDate \<Rightarrow> EvDate (le_word bs) | FtTimestamptz \<Rightarrow> EvTimestamptz (le_word bs) | FtUuid \<Rightarrow> EvUuid (le_word bs))"

definition value_ok :: "filter_column_type \<Rightarrow> u32 \<Rightarrow> u8 list \<Rightarrow> bool" where
  "value_ok ty dictionary_count bs \<longleftrightarrow>
     length bs = persisted_width ty \<and> (ty = FtBoolean \<longrightarrow> bs = [0] \<or> bs = [1]) \<and>
     (ty = FtText \<longrightarrow> le_word bs < dictionary_count)"

definition column_data :: "u8 list \<Rightarrow> mapped_column \<Rightarrow> u8 list" where
  "column_data bytes c = range_bytes bytes (fc_data_range c)"

definition dense_slot :: "u8 list \<Rightarrow> mapped_column \<Rightarrow> u32 \<Rightarrow> nat \<Rightarrow> u8 list" where
  "dense_slot bytes c nodes i =
     (let offset = (unat nodes + 7) div 8 + i * fc_value_width c in slice offset (offset + fc_value_width c) (column_data bytes c))"

definition dense_present :: "u8 list \<Rightarrow> mapped_column \<Rightarrow> nat \<Rightarrow> bool" where
  "dense_present bytes c i \<longleftrightarrow> bit_set (column_data bytes c ! (i div 8)) (i mod 8)"

definition sparse_rows :: "u8 list \<Rightarrow> mapped_column \<Rightarrow> (u32 \<times> u8 list) list" where
  "sparse_rows bytes c = map (\<lambda>r. (le_word (slice 0 4 r), slice 4 (length r) r)) (chunks_exact (4 + fc_value_width c) (column_data bytes c))"

definition column_value :: "u8 list \<Rightarrow> mapped_column \<Rightarrow> u32 \<Rightarrow> u32 \<Rightarrow> encoded_value option" where
  "column_value bytes c nodes i =
     (if i \<ge> nodes then None
      else if fc_storage_kind c = KDense then
        (if dense_present bytes c (unat i) then Some (decode_bytes (fc_column_type c) (dense_slot bytes c nodes (unat i))) else None)
      else map_option (decode_bytes (fc_column_type c)) (map_of (sparse_rows bytes c) i))"

definition dictionary_bytes :: "u8 list \<Rightarrow> mapped_column \<Rightarrow> u8 list" where
  "dictionary_bytes bytes c = range_bytes bytes (fc_dictionary_range c)"

definition dictionary_offset :: "u8 list \<Rightarrow> nat \<Rightarrow> nat" where
  "dictionary_offset dictionary t = unat (le_word (slice (t * 8) (t * 8 + 8) dictionary) :: u64)"

definition dictionary_entry :: "u8 list \<Rightarrow> nat \<Rightarrow> nat \<Rightarrow> u8 list" where
  "dictionary_entry dictionary n t =
     slice (dictionary_offset dictionary t) (dictionary_offset dictionary (t + 1)) (drop ((n + 1) * 8) dictionary)"

definition column_dictionary :: "u8 list \<Rightarrow> mapped_column \<Rightarrow> u8 list list" where
  "column_dictionary bytes c =
     map (dictionary_entry (dictionary_bytes bytes c) (unat (fc_dictionary_count c))) [0..<unat (fc_dictionary_count c)]"

definition dictionary_ok :: "u8 list \<Rightarrow> nat \<Rightarrow> bool" where
  "dictionary_ok dictionary n \<longleftrightarrow>
     (n + 1) * 8 \<le> length dictionary \<and>
     (\<forall>t<n. dictionary_offset dictionary t \<le> dictionary_offset dictionary (t + 1) \<and>
        dictionary_offset dictionary (t + 1) \<le> length dictionary - (n + 1) * 8 \<and> utf8_ok (dictionary_entry dictionary n t)) \<and>
     sorted_wrt (<) (map (dictionary_entry dictionary n) [0..<n])"

definition column_ok :: "u8 list \<Rightarrow> u32 \<Rightarrow> mapped_column \<Rightarrow> bool" where
  "column_ok bytes nodes c \<longleftrightarrow>
     fc_value_width c = persisted_width (fc_column_type c) \<and> kind_matches (fc_column_type c) (fc_storage_kind c) \<and>
     fst (fc_data_range c) \<le> snd (fc_data_range c) \<and> snd (fc_data_range c) \<le> length bytes \<and>
     fst (fc_dictionary_range c) \<le> snd (fc_dictionary_range c) \<and> snd (fc_dictionary_range c) \<le> length bytes \<and>
     (if fc_storage_kind c = KDense then
        length (column_data bytes c) = (unat nodes + 7) div 8 + unat nodes * fc_value_width c \<and>
        (\<forall>i<unat nodes. dense_present bytes c i \<longrightarrow> value_ok (fc_column_type c) (fc_dictionary_count c) (dense_slot bytes c nodes i))
      else
        length (column_data bytes c) = unat (fc_row_count c) * (4 + fc_value_width c) \<and>
        sorted_wrt (<) (map fst (sparse_rows bytes c)) \<and>
        (\<forall>(i, raw)\<in>set (sparse_rows bytes c). i < nodes \<and> value_ok (fc_column_type c) (fc_dictionary_count c) raw)) \<and>
     (if fc_column_type c = FtText then dictionary_ok (dictionary_bytes bytes c) (unat (fc_dictionary_count c))
      else fc_dictionary_count c = 0)"

definition filter_base_ok :: "mapped_filter_base \<Rightarrow> bool" where
  "filter_base_ok base \<longleftrightarrow> (\<forall>c\<in>set (mb_columns base). column_ok (mb_bytes base) (mb_node_count base) c)"

section \<open>What the catalog says of a column\<close>

text \<open>
  The catalog section is 16 bytes of header, whose first word is the number of columns, one
  descriptor of 64 bytes per column, and the names. The fields of a descriptor, by offset: 0 table
  oid, 4 type, 5 storage, 6 width of a value, 8 and 16 offset and length of the name, 20 number of
  rows, 24 and 32 offset and length of the data in the data section, 40 and 48 of the
  dictionary in the dictionary section, 56 number of strings.
\<close>

fun type_tag :: "filter_column_type \<Rightarrow> u8" where
  "type_tag FtNumeric = 0"
| "type_tag FtBoolean = 1"
| "type_tag FtText = 2"
| "type_tag FtDate = 3"
| "type_tag FtTimestamptz = 4"
| "type_tag FtUuid = 5"

fun kind_tag :: "persisted_storage_kind \<Rightarrow> u8" where
  "kind_tag KDense = 0"
| "kind_tag KSparseBool = 1"
| "kind_tag KSparseLookup = 2"
| "kind_tag KSparseOrdered = 3"

definition catalog_count :: "u8 list \<Rightarrow> byte_range \<Rightarrow> nat" where
  "catalog_count bytes cr = unat (le_word (slice (fst cr) (fst cr + 4) bytes) :: u32)"

definition descriptor_bytes :: "u8 list \<Rightarrow> byte_range \<Rightarrow> nat \<Rightarrow> u8 list" where
  "descriptor_bytes bytes cr k = slice (fst cr + 16 + 64 * k) (fst cr + 16 + 64 * k + 64) bytes"

definition names_bytes :: "u8 list \<Rightarrow> byte_range \<Rightarrow> u8 list" where
  "names_bytes bytes cr = slice (fst cr + 16 + 64 * catalog_count bytes cr) (snd cr) bytes"

definition field_u32 :: "u8 list \<Rightarrow> nat \<Rightarrow> u32" where
  "field_u32 d offset = le_word (slice offset (offset + 4) d)"

definition field_u64 :: "u8 list \<Rightarrow> nat \<Rightarrow> nat" where
  "field_u64 d offset = unat (le_word (slice offset (offset + 8) d) :: u64)"

definition section_range :: "u8 list \<Rightarrow> nat \<Rightarrow> byte_range \<Rightarrow> byte_range" where
  "section_range d offset r =
     (fst r + field_u64 d offset, fst r + field_u64 d offset + field_u64 d (offset + 8))"

definition descriptor_says ::
  "u8 list \<Rightarrow> u8 list \<Rightarrow> byte_range \<Rightarrow> byte_range \<Rightarrow> column_meta \<Rightarrow> mapped_column \<Rightarrow> bool" where
  "descriptor_says d names dr tr meta c \<longleftrightarrow>
     cm_table_oid meta = field_u32 d 0 \<and>
     cm_column_name meta = slice (field_u64 d 8) (field_u64 d 8 + unat (field_u32 d 16)) names \<and>
     field_u64 d 8 + unat (field_u32 d 16) \<le> length names \<and>
     type_tag (cm_column_type meta) = d ! 4 \<and> fc_column_type c = cm_column_type meta \<and>
     kind_tag (fc_storage_kind c) = d ! 5 \<and> fc_value_width c = unat (d ! 6) \<and>
     fc_row_count c = field_u32 d 20 \<and>
     fc_data_range c = section_range d 24 dr \<and> snd (fc_data_range c) \<le> snd dr \<and>
     fc_dictionary_range c = section_range d 40 tr \<and> snd (fc_dictionary_range c) \<le> snd tr \<and>
     fc_dictionary_count c = field_u32 d 56"

text \<open>The columns that the sections \<open>cr\<close>, \<open>dr\<close> and \<open>tr\<close> of an artifact describe, in order.\<close>

definition section_columns ::
  "u8 list \<Rightarrow> byte_range \<Rightarrow> byte_range \<Rightarrow> byte_range \<Rightarrow> column_meta list \<Rightarrow> mapped_column list \<Rightarrow> bool" where
  "section_columns bytes cr dr tr metas cs \<longleftrightarrow>
     fst cr + 16 + 64 * catalog_count bytes cr \<le> snd cr \<and> snd cr \<le> length bytes \<and>
     snd dr \<le> length bytes \<and> snd tr \<le> length bytes \<and>
     length metas = catalog_count bytes cr \<and> length cs = catalog_count bytes cr \<and>
     (\<forall>k<catalog_count bytes cr.
        descriptor_says (descriptor_bytes bytes cr k) (names_bytes bytes cr) dr tr (metas ! k) (cs ! k))"

section \<open>Validation establishes it\<close>

lemma persisted_width_pos: "0 < persisted_width ty"
  by (simp add: persisted_width_def split: filter_column_type.split)

lemma checked_value:
  assumes "length raw = persisted_width ty"
  shows "checked (\<lambda>_. value_ok ty n raw) (validate_value raw ty n)"
  unfolding validate_value_def
  by (intro checked_if checked_bind_u32)
    (use assms in \<open>auto simp: value_ok_def persisted_width_def slice_def not_le split: filter_column_type.splits\<close>)

lemma checked_dictionary:
  assumes len: "length dictionary \<le> usize_max" and big: "(n + 1) * 8 \<le> length dictionary"
  shows "checked (\<lambda>_. dictionary_ok dictionary n)
    (fold_r (validate_entry dictionary (drop ((n + 1) * 8) dictionary) column_idx) [0..<n] None)"
proof -
  let ?e = "dictionary_entry dictionary n"
  let ?good = "\<lambda>t. dictionary_offset dictionary t \<le> dictionary_offset dictionary (t + 1) \<and>
        dictionary_offset dictionary (t + 1) \<le> length dictionary - (n + 1) * 8 \<and> utf8_ok (?e t)"
  let ?P = "\<lambda>ts previous. previous = (if ts = [] then None else Some (?e (last ts))) \<and>
      (\<forall>t\<in>set ts. ?good t) \<and> sorted_wrt (<) (map ?e ts)"
  have "checked (?P [0..<n]) (fold_r (validate_entry dictionary (drop ((n + 1) * 8) dictionary) column_idx) [0..<n] None)"
  proof (rule checked_fold)
    fix pre t post previous
    assume P: "?P pre previous"
    have bigger: "?e s < v" if "s \<in> set pre" "\<not> is_some_and (\<lambda>last. last \<ge> v) previous" for s v
    proof -
      from that(1) obtain front l where fl: "pre = front @ [l]" by (metis append_butlast_last_id empty_iff list.set(1))
      with P that(2) have "?e l < v" by (simp add: is_some_and_def)
      moreover have "?e s \<le> ?e l" using P that(1) fl by (auto simp: sorted_wrt_append intro: less_imp_le)
      ultimately show ?thesis by simp
    qed
    show "checked (?P (pre @ [t])) (validate_entry dictionary (drop ((n + 1) * 8) dictionary) column_idx t previous)"
      unfolding validate_entry_def
      by (intro verify)
        (use P bigger in \<open>auto simp: get_slice_opt_def from_utf8_def dictionary_offset_def dictionary_entry_def sorted_wrt_append
          split: if_splits\<close>)
  qed simp
  then show ?thesis by (rule checked_mono) (use big in \<open>auto simp: dictionary_ok_def\<close>)
qed

lemma chunk_lengths: "r \<in> set (chunks_exact w xs) \<Longrightarrow> length r = w"
proof -
  assume "r \<in> set (chunks_exact w xs)"
  then obtain i where i: "i < length xs div w" "r = slice (w * i) (w * i + w) xs" by (auto simp: chunks_exact_def)
  then have "w * Suc i \<le> w * (length xs div w)" by (intro mult_le_mono2) simp
  also have "\<dots> \<le> length xs" by simp
  finally show ?thesis using i(2) by simp
qed

lemma checked_sparse:
  assumes "w = persisted_width ty" "\<forall>r\<in>set rs. length r = 4 + w"
  shows "checked (\<lambda>_. sorted_wrt (<) (map (\<lambda>r. le_word (slice 0 4 r) :: u32) rs) \<and>
      (\<forall>r\<in>set rs. (le_word (slice 0 4 r) :: u32) < nodes \<and> value_ok ty n (slice 4 (length r) r)))
    (fold_r (sparse_row_ok column_idx ty n nodes) rs None)"
proof -
  let ?k = "\<lambda>r. le_word (slice 0 4 r) :: u32"
  let ?P = "\<lambda>rs previous. previous = (if rs = [] then None else Some (?k (last rs))) \<and>
      sorted_wrt (<) (map ?k rs) \<and> (\<forall>r\<in>set rs. ?k r < nodes \<and> value_ok ty n (slice 4 (length r) r))"
  have "checked (?P rs) (fold_r (sparse_row_ok column_idx ty n nodes) rs None)"
  proof (rule checked_fold)
    fix pre r post previous
    assume rs: "rs = pre @ r # post" and P: "?P pre previous"
    have bigger: "?k s < ?k r" if "s \<in> set pre" "\<not> is_some_and (\<lambda>last. last \<ge> ?k r) previous" for s
    proof -
      from that(1) obtain front l where fl: "pre = front @ [l]" by (metis append_butlast_last_id empty_iff list.set(1))
      with P that(2) have "?k l < ?k r" by (simp add: is_some_and_def)
      moreover have "?k s \<le> ?k l" using P that(1) fl by (auto simp: sorted_wrt_append intro: less_imp_le)
      ultimately show ?thesis by simp
    qed
    have len: "length r = 4 + w" using assms(2) rs by simp
    show "checked (?P (pre @ [r])) (sparse_row_ok column_idx ty n nodes r previous)"
      unfolding sparse_row_ok_def
      by (intro verify checked_bind_slice, simp, simp add: len, simp, rule checked_bind [OF checked_value])
        (use P bigger len assms(1) in \<open>auto simp: sorted_wrt_append\<close>)
  qed simp
  then show ?thesis by (rule checked_mono) simp
qed

lemma checked_dense:
  assumes c: "fc_value_width c = persisted_width (fc_column_type c)"
    and len: "length (column_data bytes c) = (unat nodes + 7) div 8 + unat nodes * fc_value_width c"
  shows "checked (\<lambda>_. \<forall>i<unat nodes. dense_present bytes c i \<longrightarrow>
      value_ok (fc_column_type c) (fc_dictionary_count c) (dense_slot bytes c nodes i))
    (fold_r (dense_row_ok (column_data bytes c) ((unat nodes + 7) div 8) (fc_value_width c) (fc_column_type c) (fc_dictionary_count c))
      [0..<unat nodes] ())"
proof -
  let ?P = "\<lambda>js _. \<forall>i\<in>set js. dense_present bytes c i \<longrightarrow>
      value_ok (fc_column_type c) (fc_dictionary_count c) (dense_slot bytes c nodes i)"
  let ?f = "dense_row_ok (column_data bytes c) ((unat nodes + 7) div 8) (fc_value_width c) (fc_column_type c) (fc_dictionary_count c)"
  have "checked (?P [0..<unat nodes]) (fold_r ?f [0..<unat nodes] ())"
  proof (rule checked_fold)
    fix pre i post s assume js: "[0..<unat nodes] = pre @ i # post" and P: "?P pre s"
    have "i \<in> set [0..<unat nodes]" using js by (metis in_set_conv_decomp)
    then have i: "i < unat nodes" by simp
    have byte: "i div 8 < length (column_data bytes c)" using i len by linarith
    have "Suc i * fc_value_width c \<le> unat nodes * fc_value_width c" using i by (intro mult_le_mono1) simp
    then have slot: "(unat nodes + 7) div 8 + i * fc_value_width c + fc_value_width c \<le> length (column_data bytes c)"
      using len by simp
    then have lenslot: "length (dense_slot bytes c nodes i) = persisted_width (fc_column_type c)"
      using c by (simp add: dense_slot_def Let_def)
    show "checked (?P (pre @ [i])) (?f i s)"
      unfolding dense_row_ok_def Let_def
      by (rule checked_bind_index [OF byte], rule checked_if)
        (use P slot checked_mono [OF checked_value [OF lenslot]] in \<open>auto simp: dense_present_def dense_slot_def Let_def\<close>)
  qed simp
  then show ?thesis by (rule checked_mono) simp
qed

lemma checked_dictionary_section:
  assumes "fst r \<le> snd r" "snd r \<le> length bytes" "length bytes \<le> usize_max"
  shows "checked (\<lambda>_. if ty = FtText then dictionary_ok (range_bytes bytes r) (unat n) else n = 0)
    (validate_dictionary bytes column_idx ty r n)"
proof (cases "ty = FtText")
  case True
  let ?d = "range_bytes bytes r"
  have rd: "slice_range_r bytes r = Inr ?d" using assms by (simp add: slice_range_r_def range_bytes_def)
  have len: "length ?d \<le> usize_max" using assms by (simp add: range_bytes_def)
  show ?thesis
  proof (cases "length ?d < (unat n + 1) * 8")
    case False
    then have "checked_mul_usize (unat n + 1) 8 = Some ((unat n + 1) * 8)" using len by (simp add: checked_mul_usize_def)
    then show ?thesis unfolding validate_dictionary_def rd
      using True False checked_dictionary [OF len, of "unat n" column_idx]
      by (auto simp: Let_def rbind_assoc intro!: verify checked_done)
  next
    case short: True
    then show ?thesis unfolding validate_dictionary_def rd using True
      by (auto simp: checked_mul_usize_def intro!: verify)
  qed
qed (simp add: validate_dictionary_def)

lemma checked_expected:
  "checked (\<lambda>e. e = (if kind = KDense then (unat nodes + 7) div 8 + unat nodes * w else unat rows * (4 + w)))
    (expected_data_len column_idx kind w rows nodes)"
  unfolding expected_data_len_def
  by (intro checked_if checked_column_error checked_bind_ok_or checked_ok_or)
    (auto simp: checked_mul_usize_def checked_add_usize_def split: if_splits)

lemma checked_data:
  assumes c: "fc_value_width c = persisted_width (fc_column_type c)"
    and data: "length (column_data bytes c) =
      (if fc_storage_kind c = KDense then (unat nodes + 7) div 8 + unat nodes * fc_value_width c
       else unat (fc_row_count c) * (4 + fc_value_width c))"
    and ok: "\<And>u. (if fc_storage_kind c = KDense then
        \<forall>i<unat nodes. dense_present bytes c i \<longrightarrow> value_ok (fc_column_type c) (fc_dictionary_count c) (dense_slot bytes c nodes i)
      else sorted_wrt (<) (map fst (sparse_rows bytes c)) \<and>
        (\<forall>(i, raw)\<in>set (sparse_rows bytes c). i < nodes \<and> value_ok (fc_column_type c) (fc_dictionary_count c) raw)) \<Longrightarrow>
      checked P (rest u)"
  shows "checked P (rbind
         (if fc_storage_kind c = KDense then
            let present_len = (unat nodes + 7) div 8 in
            if trailing_bits (column_data bytes c) present_len nodes then
              Inl (column_error column_idx '' has nonzero trailing presence bits'')
            else
              rbind (slice_r (column_data bytes c) 0 present_len) (\<lambda>present.
              if sum_list (map count_ones present) \<noteq> unat (fc_row_count c) then
                Inl (column_error column_idx '' row count does not match presence bits'')
              else fold_r (dense_row_ok (column_data bytes c) present_len (fc_value_width c) (fc_column_type c) (fc_dictionary_count c)) [0..<unat nodes] ())
          else
            rbind (fold_r (sparse_row_ok column_idx (fc_column_type c) (fc_dictionary_count c) nodes)
              (chunks_exact (4 + fc_value_width c) (column_data bytes c)) None) (\<lambda>_. Inr ()))
         rest)"
proof (cases "fc_storage_kind c = KDense")
  case True
  with data have len: "length (column_data bytes c) = (unat nodes + 7) div 8 + unat nodes * fc_value_width c" by simp
  show ?thesis unfolding if_P [OF True] Let_def
    by (rule checked_bind [where Q = "\<lambda>_. \<forall>i<unat nodes. dense_present bytes c i \<longrightarrow>
        value_ok (fc_column_type c) (fc_dictionary_count c) (dense_slot bytes c nodes i)"],
      rule checked_if, simp, rule checked_bind_slice)
      (use checked_dense [OF c len] ok True len in \<open>simp_all add: checked_if\<close>)
next
  case False
  have chunks: "\<forall>r\<in>set (chunks_exact (4 + fc_value_width c) (column_data bytes c)). length r = 4 + fc_value_width c"
    by (simp add: chunk_lengths)
  from checked_sparse [OF c this, of nodes "fc_dictionary_count c" column_idx]
  have "checked (\<lambda>_. sorted_wrt (<) (map fst (sparse_rows bytes c)) \<and>
        (\<forall>(i, raw)\<in>set (sparse_rows bytes c). i < nodes \<and> value_ok (fc_column_type c) (fc_dictionary_count c) raw))
      (rbind (fold_r (sparse_row_ok column_idx (fc_column_type c) (fc_dictionary_count c) nodes)
              (chunks_exact (4 + fc_value_width c) (column_data bytes c)) None) (\<lambda>_. Inr ()))"
    by (intro checked_done) (simp add: sparse_rows_def o_def)
  then show ?thesis unfolding if_not_P [OF False] by (rule checked_bind) (use ok False in simp)
qed

lemma checked_column:
  assumes c: "fc_value_width c = persisted_width (fc_column_type c)" "kind_matches (fc_column_type c) (fc_storage_kind c)"
    and dr: "fst (fc_data_range c) \<le> snd (fc_data_range c)" "snd (fc_data_range c) \<le> length bytes"
    and tr: "fst (fc_dictionary_range c) \<le> snd (fc_dictionary_range c)" "snd (fc_dictionary_range c) \<le> length bytes"
    and len: "length bytes \<le> usize_max"
  shows "checked (\<lambda>_. column_ok bytes nodes c)
    (validate_mapped_column bytes column_idx (fc_column_type c) (fc_storage_kind c) (fc_value_width c) (fc_row_count c)
      (fc_data_range c) (fc_dictionary_range c) (fc_dictionary_count c) nodes)"
proof -
  have rd: "slice_range_r bytes (fc_data_range c) = Inr (column_data bytes c)"
    using dr by (simp add: slice_range_r_def column_data_def range_bytes_def)
  note dict = checked_dictionary_section [OF tr len, of "fc_column_type c" "fc_dictionary_count c" column_idx, folded dictionary_bytes_def]
  show ?thesis
    unfolding validate_mapped_column_def rd rbind_Inr
  proof (rule checked_bind [OF checked_expected], rule checked_if, simp, rule checked_data [OF c(1)])
    fix expected u
    assume e: "expected = (if fc_storage_kind c = KDense then (unat nodes + 7) div 8 + unat nodes * fc_value_width c
      else unat (fc_row_count c) * (4 + fc_value_width c))" "\<not> length (column_data bytes c) \<noteq> expected"
    then show "length (column_data bytes c) = (if fc_storage_kind c = KDense then (unat nodes + 7) div 8 + unat nodes * fc_value_width c
      else unat (fc_row_count c) * (4 + fc_value_width c))" by simp
    assume "if fc_storage_kind c = KDense then
        \<forall>i<unat nodes. dense_present bytes c i \<longrightarrow> value_ok (fc_column_type c) (fc_dictionary_count c) (dense_slot bytes c nodes i)
      else sorted_wrt (<) (map fst (sparse_rows bytes c)) \<and>
        (\<forall>(i, raw)\<in>set (sparse_rows bytes c). i < nodes \<and> value_ok (fc_column_type c) (fc_dictionary_count c) raw)"
    with e c dr tr have "column_ok bytes nodes c"
      if "if fc_column_type c = FtText then dictionary_ok (dictionary_bytes bytes c) (unat (fc_dictionary_count c))
        else fc_dictionary_count c = 0"
      using that by (auto simp: column_ok_def split: if_splits)
    then show "checked (\<lambda>_. column_ok bytes nodes c)
      (validate_dictionary bytes column_idx (fc_column_type c) (fc_dictionary_range c) (fc_dictionary_count c))"
      by (rule checked_mono [OF dict])
  qed
qed

section \<open>The catalog\<close>

lemma checked_tag: "(\<And>ty. type_tag ty = b \<Longrightarrow> checked P (f ty)) \<Longrightarrow> checked P (rbind (from_persisted_tag b) f)"
  by (auto simp: from_persisted_tag_def)

lemma checked_kind: "(\<And>kind. kind_tag kind = b \<Longrightarrow> checked P (f kind)) \<Longrightarrow> checked P (rbind (parse_storage_kind b) f)"
  by (auto simp: parse_storage_kind_def)

lemma checked_storage_kind:
  "(kind_matches ty kind \<Longrightarrow> checked P (f ())) \<Longrightarrow> checked P (rbind (validate_storage_kind i ty kind) f)"
  by (auto simp: validate_storage_kind_def)

lemma checked_relative:
  assumes "field_u64 d a + field_u64 d b \<le> len \<Longrightarrow> checked P (f (field_u64 d a, field_u64 d a + field_u64 d b))"
  shows "checked P (rbind (relative_range d a b len label) f)"
proof (rule checked_bind [where Q = "\<lambda>r. r = (field_u64 d a, field_u64 d a + field_u64 d b) \<and> snd r \<le> len"])
  show "checked (\<lambda>r. r = (field_u64 d a, field_u64 d a + field_u64 d b) \<and> snd r \<le> len) (relative_range d a b len label)"
    unfolding relative_range_def
    by (intro verify) (auto simp: checked_add_usize_def field_u64_def split: if_splits)
qed (use assms in auto)

lemma checked_shift:
  "checked P (f (start + fst r, start + snd r)) \<Longrightarrow> checked P (rbind (shift_range r start) f)"
  by (auto simp: shift_range_def checked_add_usize_def)

lemma checked_validated_column:
  assumes "w = persisted_width ty" "kind_matches ty kind"
    and "fst dr \<le> snd dr" "snd dr \<le> length bytes" "fst tr \<le> snd tr" "snd tr \<le> length bytes" "length bytes \<le> usize_max"
    and "column_ok bytes nodes \<lparr>fc_column_type = ty, fc_storage_kind = kind, fc_value_width = w, fc_row_count = rows,
      fc_data_range = dr, fc_dictionary_range = tr, fc_dictionary_count = n\<rparr> \<Longrightarrow> checked P (f ())"
  shows "checked P (rbind (validate_mapped_column bytes i ty kind w rows dr tr n nodes) f)"
proof (rule checked_bind)
  let ?c = "\<lparr>fc_column_type = ty, fc_storage_kind = kind, fc_value_width = w, fc_row_count = rows,
      fc_data_range = dr, fc_dictionary_range = tr, fc_dictionary_count = n\<rparr>"
  show "checked (\<lambda>_. column_ok bytes nodes ?c) (validate_mapped_column bytes i ty kind w rows dr tr n nodes)"
    using checked_column [of ?c bytes nodes i] assms(1-7) by simp
qed (use assms(8) in simp)

definition scan_inv ::
  "u8 list \<Rightarrow> u8 list \<Rightarrow> byte_range \<Rightarrow> byte_range \<Rightarrow> u32 \<Rightarrow> u8 list list \<Rightarrow> column_scan \<Rightarrow> bool" where
  "scan_inv bytes names dr tr nodes ds s \<longleftrightarrow>
     (\<forall>c\<in>set (cs_mapped s). column_ok bytes nodes c) \<and> (\<forall>c\<in>set (cs_columns s). utf8_ok (cm_column_name c)) \<and>
     length (cs_columns s) = length ds \<and> length (cs_mapped s) = length ds \<and>
     (\<forall>k<length ds. descriptor_says (ds ! k) names dr tr (cs_columns s ! k) (cs_mapped s ! k))"

lemma scan_inv_snoc:
  assumes "scan_inv bytes names dr tr nodes ds s"
    and "cs_columns t = cs_columns s @ [meta]" "cs_mapped t = cs_mapped s @ [c]"
    and "descriptor_says d names dr tr meta c" "column_ok bytes nodes c" "utf8_ok (cm_column_name meta)"
  shows "scan_inv bytes names dr tr nodes (ds @ [d]) t"
  using assms by (auto simp: scan_inv_def nth_append less_Suc_eq)

lemma checked_scan_column:
  assumes s: "scan_inv bytes names dr tr nodes ds s"
    and cat: "FILTER_CATALOG_HEADER_SIZE + (column_idx + 1) * FILTER_DESCRIPTOR_SIZE \<le> length catalog"
    and dr: "fst dr \<le> snd dr" "snd dr \<le> length bytes" and tr: "fst tr \<le> snd tr" "snd tr \<le> length bytes"
    and len: "length bytes \<le> usize_max"
  shows "checked (scan_inv bytes names dr tr nodes (ds @ [slice (16 + 64 * column_idx) (16 + 64 * column_idx + 64) catalog]))
    (scan_column bytes catalog names dr tr nodes column_idx s)"
proof -
  define d where "d = slice (16 + 64 * column_idx) (16 + 64 * column_idx + 64) catalog"
  have d: "slice_r catalog (FILTER_CATALOG_HEADER_SIZE + column_idx * FILTER_DESCRIPTOR_SIZE)
      (FILTER_CATALOG_HEADER_SIZE + column_idx * FILTER_DESCRIPTOR_SIZE + FILTER_DESCRIPTOR_SIZE) = Inr d"
    "length d = 64"
    using cat by (simp_all add: d_def FILTER_DESCRIPTOR_SIZE_def FILTER_CATALOG_HEADER_SIZE_def mult.commute slice_r_def)
  have fit: "x \<le> snd dr - fst dr \<longleftrightarrow> fst dr + x \<le> snd dr" "x \<le> snd tr - fst tr \<longleftrightarrow> fst tr + x \<le> snd tr" for x
    using dr tr by auto
  note snoc = scan_inv_snoc [OF s, of _ _ _ d]
  show ?thesis
    unfolding scan_column_def Let_def d(1) rbind_Inr d_def [symmetric]
    by (rule checked_bind_index, simp add: d, rule checked_bind_slice, simp, simp add: d, rule checked_if, simp,
      subst index_r_ok, simp add: d, simp only: rbind_Inr, rule checked_tag,
      subst index_r_ok, simp add: d, simp only: rbind_Inr, rule checked_kind,
      rule checked_bind_index, simp add: d, rule checked_if, simp,
      rule checked_storage_kind,
      intro verify checked_relative checked_shift checked_validated_column)
     (use dr tr len in \<open>auto simp: range_len_def fit checked_add_usize_def from_utf8_def descriptor_says_def section_range_def field_u32_def field_u64_def
        get_slice_opt_def intro!: snoc split: if_splits\<close>)
qed

lemma section_columns_types:
  assumes "section_columns bytes cr dr tr metas cs"
  shows "map cm_column_type metas = map fc_column_type cs"
proof (rule nth_equalityI)
  fix k assume "k < length (map cm_column_type metas)"
  then show "map cm_column_type metas ! k = map fc_column_type cs ! k"
    using assms by (simp add: section_columns_def descriptor_says_def)
qed (use assms in \<open>simp add: section_columns_def\<close>)

lemma checked_map_sections:
  assumes len: "length bytes \<le> usize_max"
  shows "checked (\<lambda>(columns, base). filter_base_ok base \<and> mb_node_count base = nodes \<and> mb_bytes base = bytes \<and>
      section_columns bytes cr dr tr columns (mb_columns base) \<and>
      distinct (map (\<lambda>c. (cm_table_oid c, cm_column_name c)) columns))
    (map_sections bytes cr dr tr nodes)"
proof (cases "fst cr \<le> snd cr \<and> snd cr \<le> length bytes \<and> fst dr \<le> snd dr \<and> snd dr \<le> length bytes \<and>
    fst tr \<le> snd tr \<and> snd tr \<le> length bytes")
  case False
  then show ?thesis by (auto simp: map_sections_def validate_range_def)
next
  case True
  then have cr: "fst cr \<le> snd cr" "snd cr \<le> length bytes" and dr: "fst dr \<le> snd dr" "snd dr \<le> length bytes"
    and tr: "fst tr \<le> snd tr" "snd tr \<le> length bytes" by simp_all
  have vr: "validate_range cr (length bytes) label = Inr ()" "validate_range dr (length bytes) label = Inr ()"
    "validate_range tr (length bytes) label = Inr ()" for label
    using True by (simp_all add: validate_range_def)
  define catalog where "catalog = slice (fst cr) (snd cr) bytes"
  have cat: "slice_range_r bytes cr = Inr catalog" using cr by (simp add: slice_range_r_def catalog_def)
  let ?d = "\<lambda>k. slice (16 + 64 * k) (16 + 64 * k + 64) catalog"
  have scan: "checked (scan_inv bytes names dr tr nodes (map ?d [0..<n]))
      (fold_r (scan_column bytes catalog names dr tr nodes) [0..<n]
        \<lparr>cs_columns = [], cs_mapped = [], cs_name_end = 0, cs_data_end = 0, cs_dictionary_end = 0\<rparr>)"
    if "16 + 64 * n \<le> length catalog" for n names
  proof (rule checked_fold [where P = "\<lambda>ks. scan_inv bytes names dr tr nodes (map ?d ks)"])
    fix pre k post s assume "[0..<n] = pre @ k # post" and s: "scan_inv bytes names dr tr nodes (map ?d pre) s"
    from this(1) have "k < n" by (metis atLeastLessThan_iff in_set_conv_decomp set_upt)
    then have "FILTER_CATALOG_HEADER_SIZE + (k + 1) * FILTER_DESCRIPTOR_SIZE \<le> length catalog"
      using that by (simp add: FILTER_DESCRIPTOR_SIZE_def FILTER_CATALOG_HEADER_SIZE_def)
    from checked_scan_column [OF s this dr tr len]
    show "checked (scan_inv bytes names dr tr nodes (map ?d (pre @ [k]))) (scan_column bytes catalog names dr tr nodes k s)"
      by simp
  qed (simp add: scan_inv_def)
  have lenc: "length catalog = snd cr - fst cr" using cr by (simp add: catalog_def)
  have found: "section_columns bytes cr dr tr (cs_columns s) (cs_mapped s)"
    if s: "scan_inv bytes names dr tr nodes (map ?d [0..<n]) s" and n: "n = unat (le_word (slice 0 4 catalog) :: u32)"
      and fits: "16 + 64 * n \<le> length catalog" and names: "names = slice (16 + 64 * n) (length catalog) catalog"
    for s n names
  proof -
    have part: "slice a b catalog = slice (fst cr + a) (fst cr + b) bytes" if "b \<le> length catalog" for a b
      using slice_slice [of b "snd cr" "fst cr" a bytes] that lenc by (simp add: catalog_def)
    have count: "catalog_count bytes cr = n" using part [of 4 0] fits n by (simp add: catalog_count_def)
    have "?d k = descriptor_bytes bytes cr k" if "k < n" for k
      using part [of "16 + 64 * k + 64" "16 + 64 * k"] fits that by (simp add: descriptor_bytes_def add.assoc)
    moreover have "names = names_bytes bytes cr"
      using part [of "length catalog" "16 + 64 * n"] cr lenc by (simp add: names names_bytes_def count add.assoc)
    ultimately show ?thesis
      using s fits lenc cr dr tr by (auto simp: section_columns_def count scan_inv_def)
  qed
  show ?thesis unfolding map_sections_def vr rbind_Inr cat
    by (intro verify checked_bind_slice checked_bind [OF scan])
      (auto simp: checked_add_usize_def checked_mul_usize_def scan_inv_def filter_base_ok_def
        FILTER_DESCRIPTOR_SIZE_def FILTER_CATALOG_HEADER_SIZE_def mult.commute [of _ 64] intro!: found split: if_splits)
qed

section \<open>Lookups on a validated base\<close>

definition probe :: "(nat \<Rightarrow> cmp option graph_result) \<Rightarrow> nat \<Rightarrow> cmp graph_result" where
  "probe at i = rbind (at i) (\<lambda>c. case c of None \<Rightarrow> Inl Panic | Some c \<Rightarrow> Inr c)"

lemma search_opt_bsearch:
  "\<forall>i<hi. \<exists>c. at i = Inr (Some c) \<Longrightarrow> search_opt at lo hi = bsearch (probe at) lo hi"
proof (induction "at" lo hi rule: search_opt.induct)
  case (1 "at" lo hi)
  show ?case
  proof (cases "lo < hi")
    case False
    then show ?thesis by (simp add: search_opt.simps [of _ lo] bsearch.simps [of _ lo])
  next
    case True
    define mid where "mid = lo + (hi - lo) div 2"
    have mid: "mid < hi" using True by (auto simp: mid_def)
    with "1.prems" obtain c where c: "at mid = Inr (Some c)" by blast
    show ?thesis
    proof (cases c)
      case CLess
      with "1.IH"(1) [OF True mid_def c refl CLess "1.prems"] True c show ?thesis
        by (simp add: search_opt.simps [of _ lo hi] bsearch.simps [of _ lo hi] Let_def probe_def flip: mid_def)
    next
      case CEqual
      with True c show ?thesis
        by (simp add: search_opt.simps [of _ lo hi] bsearch.simps [of _ lo hi] Let_def probe_def flip: mid_def)
    next
      case CGreater
      have "\<forall>i<mid. \<exists>c. at i = Inr (Some c)" using "1.prems" mid by simp
      with "1.IH"(2) [OF True mid_def c refl CGreater] CGreater True c show ?thesis
        by (simp add: search_opt.simps [of _ lo hi] bsearch.simps [of _ lo hi] Let_def probe_def flip: mid_def)
    qed
  qed
qed

text \<open>The rows of a sparse column.\<close>

definition row_keys :: "u8 list \<times> usize \<Rightarrow> u32 list" where
  "row_keys t = map (\<lambda>r. le_word (slice 0 4 r)) (chunks_exact (snd t) (fst t))"

definition rows_ok :: "u8 list \<times> usize \<Rightarrow> bool" where
  "rows_ok t \<longleftrightarrow> 4 \<le> snd t \<and> sorted (row_keys t)"

lemma chunk_bound: "i < length (chunks_exact w xs) \<Longrightarrow> i * w + w \<le> length xs"
proof -
  assume "i < length (chunks_exact w xs)"
  then have "Suc i * w \<le> (length xs div w) * w" by (intro mult_le_mono1) (simp add: chunks_exact_def)
  also have "\<dots> \<le> length xs" by simp
  finally show ?thesis by simp
qed

lemma chunk_nth: "i < length (chunks_exact w xs) \<Longrightarrow> chunks_exact w xs ! i = slice (i * w) (i * w + w) xs"
  by (simp add: chunks_exact_def mult.commute)

lemma row_cmp_key:
  assumes "rows_ok t" "i < length (row_keys t)"
  shows "row_cmp (fst t) (snd t) k i = Inr (Some (compare (row_keys t ! i) k))"
proof -
  have i: "i < length (chunks_exact (snd t) (fst t))" using assms(2) by (simp add: row_keys_def)
  have b: "i * snd t + 4 \<le> length (fst t)" using chunk_bound [OF i] assms(1) by (simp add: rows_ok_def)
  have "slice 0 4 (chunks_exact (snd t) (fst t) ! i) = slice (i * snd t) (i * snd t + 4) (fst t)"
    using assms(1) by (simp add: chunk_nth [OF i] slice_slice rows_ok_def)
  with i b show ?thesis by (simp add: row_cmp_def filter_u32_def get_slice_opt_def result_ok_def row_keys_def)
qed

interpretation rows: ordered_table rows_ok row_keys "\<lambda>t k. probe (row_cmp (fst t) (snd t) k)"
  by unfold_locales (simp add: probe_def row_cmp_key, simp add: rows_ok_def)

lemma row_search_exact:
  assumes "rows_ok t" "n = length (row_keys t)"
  shows "\<exists>r. search_opt (row_cmp (fst t) (snd t) k) 0 n = Inr r \<and>
    (case r of Some i \<Rightarrow> i < n \<and> row_keys t ! i = k | None \<Rightarrow> k \<notin> set (row_keys t))"
  using rows.search_exact [OF assms(1), of k] row_cmp_key [OF assms(1)] assms(2)
  by (subst search_opt_bsearch) auto

lemma decode_exact:
  assumes "get_opt (mb_columns base) k = Some c" "value_ok (fc_column_type c) n raw"
  shows "decode_value raw k base = Inr (decode_bytes (fc_column_type c) raw)"
  using assms
  by (cases "fc_column_type c")
    (auto simp: decode_value_def value_ok_def persisted_width_def decode_bytes_def le_exact_def filter_u32_def get_slice_opt_def
      slice_def)

definition base_column_value :: "mapped_filter_base \<Rightarrow> usize \<Rightarrow> u32 \<Rightarrow> encoded_value option" where
  "base_column_value base k i =
     (case get_opt (mb_columns base) k of None \<Rightarrow> None | Some c \<Rightarrow> column_value (mb_bytes base) c (mb_node_count base) i)"

definition base_dictionary :: "mapped_filter_base \<Rightarrow> usize \<Rightarrow> u8 list list" where
  "base_dictionary base k =
     (case get_opt (mb_columns base) k of None \<Rightarrow> [] | Some c \<Rightarrow> column_dictionary (mb_bytes base) c)"

lemma base_column: "filter_base_ok base \<Longrightarrow> get_opt (mb_columns base) k = Some c \<Longrightarrow> column_ok (mb_bytes base) (mb_node_count base) c"
  by (auto simp: filter_base_ok_def get_opt_def split: if_splits)

lemma base_data:
  assumes "column_ok bytes nodes c"
  shows "slice_range_r bytes (fc_data_range c) = Inr (column_data bytes c)"
  using assms by (simp add: column_ok_def slice_range_r_def column_data_def range_bytes_def)

lemma dense_value_exact:
  assumes c: "column_ok bytes nodes c" "fc_storage_kind c = KDense" and i: "i < nodes"
  shows "unat i div 8 < length (column_data bytes c)"
    "(unat nodes + 7) div 8 + unat i * fc_value_width c + fc_value_width c \<le> length (column_data bytes c)"
    "dense_present bytes c (unat i) \<Longrightarrow> value_ok (fc_column_type c) (fc_dictionary_count c) (dense_slot bytes c nodes (unat i))"
proof -
  have len: "length (column_data bytes c) = (unat nodes + 7) div 8 + unat nodes * fc_value_width c"
    using c by (simp add: column_ok_def)
  have i': "unat i < unat nodes" using i by (simp add: word_less_nat_alt)
  then show "unat i div 8 < length (column_data bytes c)" using len by linarith
  have "Suc (unat i) * fc_value_width c \<le> unat nodes * fc_value_width c" using i' by (intro mult_le_mono1) simp
  then show "(unat nodes + 7) div 8 + unat i * fc_value_width c + fc_value_width c \<le> length (column_data bytes c)"
    using len by simp
  show "dense_present bytes c (unat i) \<Longrightarrow> value_ok (fc_column_type c) (fc_dictionary_count c) (dense_slot bytes c nodes (unat i))"
    using c i' by (simp add: column_ok_def)
qed

lemma sparse_row_nth:
  assumes "column_ok bytes nodes c" "fc_storage_kind c \<noteq> KDense" "i < length (sparse_rows bytes c)"
  defines "w \<equiv> 4 + fc_value_width c"
  shows "i * w + w \<le> length (column_data bytes c)"
    "snd (sparse_rows bytes c ! i) = slice (i * w + 4) (i * w + w) (column_data bytes c)"
proof -
  have i: "i < length (chunks_exact w (column_data bytes c))" using assms(3) by (simp add: sparse_rows_def w_def)
  show b: "i * w + w \<le> length (column_data bytes c)" by (rule chunk_bound [OF i])
  have len: "length (chunks_exact w (column_data bytes c) ! i) = w" by (rule chunk_lengths [OF nth_mem [OF i]])
  have "slice 4 w (slice (i * w) (i * w + w) (column_data bytes c)) = slice (i * w + 4) (i * w + w) (column_data bytes c)"
    by (simp add: slice_slice)
  with i len show "snd (sparse_rows bytes c ! i) = slice (i * w + 4) (i * w + w) (column_data bytes c)"
    by (simp add: sparse_rows_def chunk_nth flip: w_def)
qed

lemma sparse_value_exact:
  assumes at: "get_opt (mb_columns base) k = Some c" and c: "column_ok (mb_bytes base) nodes c"
    and kind: "fc_storage_kind c \<noteq> KDense" and i: "i < nodes"
  defines "w \<equiv> 4 + fc_value_width c" and "data \<equiv> column_data (mb_bytes base) c"
  shows "rbind (search_opt (row_cmp data w i) 0 (unat (fc_row_count c))) (\<lambda>hit. case hit of None \<Rightarrow> Inr None
      | Some mid \<Rightarrow> rbind (slice_r data (mid * w + 4) (mid * w + w)) (\<lambda>raw. result_ok (decode_value raw k base))) =
    Inr (map_option (decode_bytes (fc_column_type c)) (map_of (sparse_rows (mb_bytes base) c) i))"
proof -
  let ?rows = "sparse_rows (mb_bytes base) c"
  have srt: "sorted_wrt (<) (map fst ?rows)" and len: "length data = unat (fc_row_count c) * w"
    using c kind by (simp_all add: column_ok_def data_def w_def)
  have keys: "row_keys (data, w) = map fst ?rows" by (simp add: row_keys_def sparse_rows_def data_def w_def o_def)
  have "sorted (row_keys (data, w))" unfolding keys by (rule strict_sorted_imp_sorted [OF srt])
  moreover have "4 \<le> w" by (simp add: w_def)
  ultimately have ok: "rows_ok (data, w)" by (simp add: rows_ok_def)
  have n: "unat (fc_row_count c) = length ?rows"
    using len by (simp add: sparse_rows_def chunks_exact_def w_def data_def)
  then have "unat (fc_row_count c) = length (row_keys (data, w))" by (simp add: keys)
  from row_search_exact [OF ok this, of i, unfolded fst_conv snd_conv keys]
  obtain r where r: "search_opt (row_cmp data w i) 0 (unat (fc_row_count c)) = Inr r"
    "case r of Some j \<Rightarrow> j < unat (fc_row_count c) \<and> map fst ?rows ! j = i | None \<Rightarrow> i \<notin> set (map fst ?rows)"
    by blast
  show ?thesis
  proof (cases r)
    case None
    with r show ?thesis by (simp add: map_of_eq_None_iff)
  next
    case (Some j)
    with r(2) n have "j < length ?rows" "map fst ?rows ! j = i" by simp_all
    then have j: "j < length ?rows" "fst (?rows ! j) = i" by simp_all
    note row = sparse_row_nth [OF c kind j(1), folded data_def w_def]
    have "?rows ! j \<in> set ?rows" using j(1) by simp
    then have "value_ok (fc_column_type c) (fc_dictionary_count c) (snd (?rows ! j))"
      using c kind by (fastforce simp: column_ok_def)
    from decode_exact [OF at this] have "decode_value (slice (j * w + 4) (j * w + w) data) k base =
      Inr (decode_bytes (fc_column_type c) (snd (?rows ! j)))" by (simp add: row(2))
    moreover have "map_of ?rows i = Some (snd (?rows ! j))" by (rule search_found [OF srt j])
    moreover have "j * w + 4 \<le> j * w + w" by (simp add: w_def)
    ultimately show ?thesis using Some r(1) row(1) by (simp add: result_ok_def)
  qed
qed

lemma base_value_exact:
  assumes ok: "filter_base_ok base"
  shows "base_value base k i = Inr (base_column_value base k i)"
proof (cases "get_opt (mb_columns base) k")
  case None
  then show ?thesis by (simp add: base_value_def base_column_value_def)
next
  case (Some c)
  note c = base_column [OF ok Some] and data = base_data [OF base_column [OF ok Some]]
  show ?thesis
  proof (cases "i < mb_node_count base")
    case False
    then show ?thesis using Some by (simp add: base_value_def base_column_value_def column_value_def not_less)
  next
    case i: True
    show ?thesis
    proof (cases "fc_storage_kind c = KDense")
      case True
      note d = dense_value_exact [OF c True i]
      let ?data = "column_data (mb_bytes base) c" and ?slot = "dense_slot (mb_bytes base) c (mb_node_count base) (unat i)"
      have step: "base_value base k i =
          (if \<not> dense_present (mb_bytes base) c (unat i) then Inr None else result_ok (decode_value ?slot k base))"
        using Some i True d(1,2) iffD2 [OF not_le i]
        by (simp add: data base_value_def dense_present_def dense_slot_def Let_def)
      show ?thesis
      proof (cases "dense_present (mb_bytes base) c (unat i)")
        case True
        from decode_exact [OF Some d(3) [OF this]] show ?thesis
          using step Some i True \<open>fc_storage_kind c = KDense\<close>
          by (simp add: base_column_value_def column_value_def not_le result_ok_def)
      next
        case False
        then show ?thesis using step Some i \<open>fc_storage_kind c = KDense\<close>
          by (simp add: base_column_value_def column_value_def not_le)
      qed
    next
      case False
      have "\<not> mb_node_count base \<le> i" using i by simp
      then have "base_value base k i = rbind (slice_range_r (mb_bytes base) (fc_data_range c)) (\<lambda>data.
          rbind (search_opt (row_cmp data (4 + fc_value_width c) i) 0 (unat (fc_row_count c))) (\<lambda>hit. case hit of None \<Rightarrow> Inr None
          | Some mid \<Rightarrow> rbind (slice_r data (mid * (4 + fc_value_width c) + 4) (mid * (4 + fc_value_width c) + (4 + fc_value_width c)))
              (\<lambda>raw. result_ok (decode_value raw k base))))"
        using Some False unfolding base_value_def by (simp only: if_False if_not_P option.case Let_def)
      also have "\<dots> = Inr (map_option (decode_bytes (fc_column_type c)) (map_of (sparse_rows (mb_bytes base) c) i))"
        unfolding data rbind_Inr by (rule sparse_value_exact [OF Some c False i])
      also have "\<dots> = Inr (base_column_value base k i)"
        using Some False i by (simp add: base_column_value_def column_value_def not_le)
      finally show ?thesis .
    qed
  qed
qed

lemma column_value_ok:
  assumes c: "column_ok bytes nodes c" and v: "column_value bytes c nodes i = Some v"
  shows "i < nodes \<and> in_domain (fc_column_type c) v \<and> (\<forall>t. v = EvText t \<longrightarrow> unat t < length (column_dictionary bytes c))"
proof -
  obtain raw where raw: "v = decode_bytes (fc_column_type c) raw" "value_ok (fc_column_type c) (fc_dictionary_count c) raw"
    and i: "i < nodes"
  proof (cases "fc_storage_kind c = KDense")
    case True
    with v have "i < nodes" "dense_present bytes c (unat i)" "v = decode_bytes (fc_column_type c) (dense_slot bytes c nodes (unat i))"
      by (auto simp: column_value_def not_le split: if_splits)
    with dense_value_exact(3) [OF c True] that show ?thesis by blast
  next
    case False
    with v obtain raw where m: "i < nodes" "map_of (sparse_rows bytes c) i = Some raw" "v = decode_bytes (fc_column_type c) raw"
      by (auto simp: column_value_def not_le split: if_splits)
    from map_of_SomeD [OF m(2)] have "value_ok (fc_column_type c) (fc_dictionary_count c) raw"
      using c False by (fastforce simp: column_ok_def)
    with m that show ?thesis by blast
  qed
  then show ?thesis
    by (auto simp: decode_bytes_def in_domain_def value_ok_def column_dictionary_def word_less_nat_alt split: filter_column_type.splits)
qed

lemma length_column_dictionary [simp]: "length (column_dictionary bytes c) = unat (fc_dictionary_count c)"
  by (simp add: column_dictionary_def)

lemma base_text_exact:
  assumes ok: "filter_base_ok base"
  shows "base_text_value base k t = Inr (get_opt (base_dictionary base k) (unat t))"
proof (cases "get_opt (mb_columns base) k")
  case None
  then show ?thesis by (simp add: base_text_value_def base_dictionary_def)
next
  case (Some c)
  note c = base_column [OF ok Some]
  show ?thesis
  proof (cases "t < fc_dictionary_count c")
    case False
    then show ?thesis using Some
      by (simp add: base_text_value_def base_dictionary_def not_less word_le_nat_alt)
  next
    case True
    let ?d = "dictionary_bytes (mb_bytes base) c" and ?n = "unat (fc_dictionary_count c)"
    have "fc_column_type c = FtText" using c True by (auto simp: column_ok_def split: if_splits)
    then have d: "dictionary_ok ?d ?n" using c by (simp add: column_ok_def)
    have t: "unat t < ?n" using True by (simp add: word_less_nat_alt)
    have rd: "slice_range_r (mb_bytes base) (fc_dictionary_range c) = Inr ?d"
      using c by (simp add: column_ok_def slice_range_r_def dictionary_bytes_def range_bytes_def)
    have e: "dictionary_offset ?d (unat t) \<le> dictionary_offset ?d (unat t + 1)"
      "dictionary_offset ?d (unat t + 1) \<le> length ?d - (?n + 1) * 8" "utf8_ok (dictionary_entry ?d ?n (unat t))"
      "(?n + 1) * 8 \<le> length ?d" using d t by (auto simp: dictionary_ok_def)
    have entry: "slice (8 + ?n * 8 + a) (8 + ?n * 8 + b) ?d = slice a b (drop (8 + ?n * 8) ?d)" for a b
      by (simp add: slice_def add.commute)
    have offs: "filter_u64 ?d (unat t * 8) = Inr (le_word (slice (unat t * 8) (unat t * 8 + 8) ?d))"
      "filter_u64 ?d (8 + unat t * 8) = Inr (le_word (slice (8 + unat t * 8) (16 + unat t * 8) ?d))"
      using e(4) t by (simp_all add: filter_u64_def get_slice_opt_def)
    have "base_text_value base k t = Inr (Some (dictionary_entry ?d ?n (unat t)))"
      using Some e iffD2 [OF not_le True] unfolding base_text_value_def
      by (simp add: rd offs Let_def result_ok_def get_slice_opt_def from_utf8_def dictionary_entry_def
          dictionary_offset_def entry)
    then show ?thesis using Some t by (simp add: base_dictionary_def column_dictionary_def)
  qed
qed

text \<open>The dictionary of a column is a table too.\<close>

interpretation dict: ordered_table "\<lambda>t :: mapped_filter_base \<times> usize. filter_base_ok (fst t) \<and> length (base_dictionary (fst t) (snd t)) < 2 ^ 32"
  "\<lambda>t. base_dictionary (fst t) (snd t)" "\<lambda>t v. probe (text_cmp (fst t) (snd t) v)"
proof
  fix t :: "mapped_filter_base \<times> usize" and v i
  assume ok: "filter_base_ok (fst t) \<and> length (base_dictionary (fst t) (snd t)) < 2 ^ 32" and i: "i < length (base_dictionary (fst t) (snd t))"
  then show "probe (text_cmp (fst t) (snd t) v) i = Inr (compare (base_dictionary (fst t) (snd t) ! i) v)"
    by (simp add: probe_def text_cmp_def base_text_exact)
next
  fix t :: "mapped_filter_base \<times> usize"
  assume ok: "filter_base_ok (fst t) \<and> length (base_dictionary (fst t) (snd t)) < 2 ^ 32"
  show "sorted (base_dictionary (fst t) (snd t))"
  proof (cases "get_opt (mb_columns (fst t)) (snd t)")
    case (Some c)
    with ok base_column [of "fst t" "snd t" c] have "column_ok (mb_bytes (fst t)) (mb_node_count (fst t)) c" by simp
    then have "sorted_wrt (<) (column_dictionary (mb_bytes (fst t)) c)"
      by (auto simp: column_ok_def dictionary_ok_def column_dictionary_def split: if_splits)
    with Some show ?thesis by (simp add: base_dictionary_def strict_sorted_imp_sorted)
  qed (simp add: base_dictionary_def)
qed

lemma base_lookup_exact:
  assumes ok: "filter_base_ok base"
  shows "\<exists>r. base_lookup_text base k v = Inr r \<and>
    (case r of Some t \<Rightarrow> get_opt (base_dictionary base k) (unat t) = Some v | None \<Rightarrow> v \<notin> set (base_dictionary base k))"
proof (cases "get_opt (mb_columns base) k")
  case None
  then show ?thesis by (simp add: base_lookup_text_def base_dictionary_def)
next
  case (Some c)
  let ?d = "base_dictionary base k"
  have n: "unat (fc_dictionary_count c) = length ?d" using Some by (simp add: base_dictionary_def)
  have small: "length ?d < 2 ^ 32" unfolding n [symmetric] using unsigned_less [of "fc_dictionary_count c"] by simp
  obtain r where r: "bsearch (probe (text_cmp base k v)) 0 (length ?d) = Inr r"
    "case r of Some i \<Rightarrow> i < length ?d \<and> ?d ! i = v | None \<Rightarrow> v \<notin> set ?d"
    using dict.search_exact [of "(base, k)" v, unfolded fst_conv snd_conv] ok small by blast
  have "\<forall>i<length ?d. \<exists>c. text_cmp base k v i = Inr (Some c)"
    using small by (simp add: text_cmp_def base_text_exact [OF ok])
  then have "base_lookup_text base k v = Inr (map_option word_of_nat r)"
    using Some r(1) by (simp add: base_lookup_text_def n search_opt_bsearch)
  then show ?thesis using r(2) small by (cases r) auto
qed

text \<open>
  C26: Opening the three filter sections of an artifact either reports corruption or yields exactly
  the columns the catalog section describes, each at the place of the data and dictionary
  sections its descriptor gives. On the opened base no lookup faults: a node reads the value its
  column holds for it there (by bit and slot, or by binary search over the rows), a value of the
  column's domain whose text token names a string of the column's dictionary; a token reads that
  string; and the binary search over the dictionary finds exactly the strings it contains.
\<close>

theorem mapped_filter_exact:
  assumes "length bytes \<le> usize_max"
  shows "case map_sections bytes cr dr tr nodes of
     Inl f \<Rightarrow> \<exists>reason. f = Err (CorruptFile reason)
   | Inr (columns, base) \<Rightarrow> \<exists>cs.
       section_columns bytes cr dr tr columns cs \<and>
       distinct (map (\<lambda>c. (cm_table_oid c, cm_column_name c)) columns) \<and>
       (\<forall>k i. base_value base k i =
          Inr (if k < length cs then column_value bytes (cs ! k) nodes i else None)) \<and>
       (\<forall>k t. base_text_value base k t =
          Inr (if k < length cs then get_opt (column_dictionary bytes (cs ! k)) (unat t) else None)) \<and>
       (\<forall>k i v. k < length cs \<and> column_value bytes (cs ! k) nodes i = Some v \<longrightarrow>
          i < nodes \<and> in_domain (cm_column_type (columns ! k)) v \<and>
          (\<forall>t. v = EvText t \<longrightarrow> unat t < length (column_dictionary bytes (cs ! k)))) \<and>
       (\<forall>k v. \<exists>r. base_lookup_text base k v = Inr r \<and>
          (case r of
             None \<Rightarrow> \<not> (k < length cs \<and> v \<in> set (column_dictionary bytes (cs ! k)))
           | Some t \<Rightarrow> k < length cs \<and> get_opt (column_dictionary bytes (cs ! k)) (unat t) = Some v))"
proof (cases "map_sections bytes cr dr tr nodes")
  case (Inl f)
  with checked_map_sections [OF assms, of nodes cr dr tr] show ?thesis by (simp add: checked_def)
next
  case (Inr r)
  obtain columns base where r: "r = (columns, base)" by (cases r)
  let ?cs = "mb_columns base"
  from r checked_map_sections [OF assms, of nodes cr dr tr] Inr
  have ok: "filter_base_ok base" "mb_node_count base = nodes" "mb_bytes base = bytes"
    "section_columns bytes cr dr tr columns ?cs"
    "distinct (map (\<lambda>c. (cm_table_oid c, cm_column_name c)) columns)"
    by (simp_all add: checked_def)
  have val: "base_column_value base k i = (if k < length ?cs then column_value bytes (?cs ! k) nodes i else None)" for k i
    using ok(2,3) by (simp add: base_column_value_def get_opt_def)
  have dict: "base_dictionary base k = (if k < length ?cs then column_dictionary bytes (?cs ! k) else [])" for k
    using ok(3) by (simp add: base_dictionary_def get_opt_def)
  have dom: "i < nodes \<and> in_domain (cm_column_type (columns ! k)) v \<and>
      (\<forall>t. v = EvText t \<longrightarrow> unat t < length (column_dictionary bytes (?cs ! k)))"
    if k: "k < length ?cs" and v: "column_value bytes (?cs ! k) nodes i = Some v" for k i v
  proof -
    have "cm_column_type (columns ! k) = fc_column_type (?cs ! k)"
      using ok(4) k by (simp add: section_columns_def descriptor_says_def)
    with column_value_ok [OF _ v] base_column [OF ok(1), of k] ok(2,3) k show ?thesis by (simp add: get_opt_def)
  qed
  have look: "\<exists>r. base_lookup_text base k v = Inr r \<and>
      (case r of
         None \<Rightarrow> \<not> (k < length ?cs \<and> v \<in> set (column_dictionary bytes (?cs ! k)))
       | Some t \<Rightarrow> k < length ?cs \<and> get_opt (column_dictionary bytes (?cs ! k)) (unat t) = Some v)" for k v
    using base_lookup_exact [OF ok(1), of k v] unfolding dict
    by (cases "k < length ?cs") (auto split: option.splits)
  have strs: "base_text_value base k t =
      Inr (if k < length ?cs then get_opt (column_dictionary bytes (?cs ! k)) (unat t) else None)" for k t
    by (simp add: base_text_exact [OF ok(1)] dict)
  show ?thesis
    unfolding Inr r sum.case prod.case
    by (rule exI [of _ ?cs], intro conjI, rule ok(4), rule ok(5), simp add: base_value_exact [OF ok(1)] val,
      intro allI, rule strs, intro allI impI, elim conjE, rule dom, assumption+, intro allI, rule look)
qed

text \<open>One node, one dense text column \<open>n\<close> whose value is \<open>a\<close>.\<close>

definition sample_filter :: "u8 list" where
  "sample_filter =
     [1, 0, 0, 0, 64, 0, 0, 0, 1, 0, 0, 0, 0, 0, 0, 0,
      7, 0, 0, 0, 2, 0, 4, 0, 0, 0, 0, 0, 0, 0, 0, 0,
      1, 0, 0, 0, 1, 0, 0, 0, 0, 0, 0, 0, 0, 0, 0, 0,
      5, 0, 0, 0, 0, 0, 0, 0, 0, 0, 0, 0, 0, 0, 0, 0,
      17, 0, 0, 0, 0, 0, 0, 0, 1, 0, 0, 0, 0, 0, 0, 0,
      110,
      1, 0, 0, 0, 0,
      0, 0, 0, 0, 0, 0, 0, 0, 1, 0, 0, 0, 0, 0, 0, 0, 97]"

lemma sample_filter_valid:
  "map_sections sample_filter (0, 81) (81, 86) (86, 103) 1 =
     Inr ([\<lparr>cm_table_oid = 7, cm_column_name = [110], cm_column_type = FtText\<rparr>],
       \<lparr>mb_bytes = sample_filter, mb_columns = [\<lparr>fc_column_type = FtText, fc_storage_kind = KDense, fc_value_width = 4,
         fc_row_count = 1, fc_data_range = (81, 86), fc_dictionary_range = (86, 103), fc_dictionary_count = 1\<rparr>],
         mb_node_count = 1\<rparr>)"
  by (simp add: map_sections_def sample_filter_def validate_range_def slice_range_r_def slice_def slice_r_def filter_u32_def
      filter_u64_def get_slice_opt_def le_word_def le_nat_def Let_def scan_column_def FILTER_CATALOG_HEADER_SIZE_def
      FILTER_DESCRIPTOR_SIZE_def checked_mul_usize_def checked_add_usize_def usize_max_def index_r_def from_persisted_tag_def
      parse_storage_kind_def persisted_width_def validate_storage_kind_def kind_matches_def from_utf8_def utf8_ok.simps
      relative_range_def range_len_def shift_range_def validate_mapped_column_def expected_data_len_def trailing_bits_def
      is_some_and_def get_opt_def count_ones_def dense_row_ok_def validate_value_def validate_dictionary_def validate_entry_def
      bit_set_def bit_1_iff upt_rec)

lemma sample_columns:
  assumes "section_columns sample_filter (0, 81) (81, 86) (86, 103) metas cs"
  shows "length cs = 1 \<and> column_value sample_filter (cs ! 0) 1 0 = Some (EvText 0) \<and>
    column_dictionary sample_filter (cs ! 0) = [[97]]"
proof -
  have count: "catalog_count sample_filter (0, 81) = 1"
    by (simp add: catalog_count_def sample_filter_def slice_def le_word_def le_nat_def)
  have d: "descriptor_bytes sample_filter (0, 81) 0 =
      [7, 0, 0, 0, 2, 0, 4, 0, 0, 0, 0, 0, 0, 0, 0, 0,
       1, 0, 0, 0, 1, 0, 0, 0, 0, 0, 0, 0, 0, 0, 0, 0,
       5, 0, 0, 0, 0, 0, 0, 0, 0, 0, 0, 0, 0, 0, 0, 0,
       17, 0, 0, 0, 0, 0, 0, 0, 1, 0, 0, 0, 0, 0, 0, 0]"
    by (simp add: descriptor_bytes_def sample_filter_def slice_def)
  have says: "descriptor_says (descriptor_bytes sample_filter (0, 81) 0) (names_bytes sample_filter (0, 81))
      (81, 86) (86, 103) (metas ! 0) (cs ! 0)" and len: "length cs = 1"
    using assms by (simp_all add: section_columns_def count)
  then have tags: "type_tag (fc_column_type (cs ! 0)) = 2" "kind_tag (fc_storage_kind (cs ! 0)) = 0"
    and c: "fc_value_width (cs ! 0) = 4" "fc_data_range (cs ! 0) = (81, 86)" "fc_dictionary_range (cs ! 0) = (86, 103)"
      "fc_dictionary_count (cs ! 0) = 1"
    by (simp_all add: descriptor_says_def d section_range_def field_u32_def field_u64_def slice_def le_word_def le_nat_def)
  have "fc_column_type (cs ! 0) = FtText" "fc_storage_kind (cs ! 0) = KDense"
    using tags by (cases "fc_column_type (cs ! 0)"; cases "fc_storage_kind (cs ! 0)"; simp)+
  then show ?thesis
    using c len by (simp add: column_value_def dense_present_def column_data_def range_bytes_def sample_filter_def slice_def
        bit_set_def dense_slot_def decode_bytes_def le_word_def le_nat_def column_dictionary_def dictionary_entry_def
        dictionary_offset_def dictionary_bytes_def)
qed

theorem mapped_filter_exact_witness:
  "\<exists>columns base. map_sections sample_filter (0, 81) (81, 86) (86, 103) 1 = Inr (columns, base) \<and>
     base_value base 0 0 = Inr (Some (EvText 0)) \<and> base_text_value base 0 0 = Inr (Some [97]) \<and>
     base_lookup_text base 0 [97] = Inr (Some 0)"
proof -
  have "length sample_filter \<le> usize_max" by (simp add: sample_filter_def usize_max_def)
  note exact = mapped_filter_exact [OF this, where cr = "(0, 81)" and dr = "(81, 86)" and tr = "(86, 103)" and nodes = 1]
  obtain columns base where opened: "map_sections sample_filter (0, 81) (81, 86) (86, 103) 1 = Inr (columns, base)"
    using sample_filter_valid by blast
  with exact obtain cs where cs: "section_columns sample_filter (0, 81) (81, 86) (86, 103) columns cs"
    and val: "\<And>k i. base_value base k i = Inr (if k < length cs then column_value sample_filter (cs ! k) 1 i else None)"
    and str: "\<And>k t. base_text_value base k t =
      Inr (if k < length cs then get_opt (column_dictionary sample_filter (cs ! k)) (unat t) else None)"
    and look: "\<And>k v. \<exists>r. base_lookup_text base k v = Inr r \<and>
      (case r of
         None \<Rightarrow> \<not> (k < length cs \<and> v \<in> set (column_dictionary sample_filter (cs ! k)))
       | Some t \<Rightarrow> k < length cs \<and> get_opt (column_dictionary sample_filter (cs ! k)) (unat t) = Some v)"
    by auto
  note c = sample_columns [OF cs]
  obtain r where r: "base_lookup_text base 0 [97] = Inr r" "case r of None \<Rightarrow> False | Some t \<Rightarrow> unat t = 0"
    using look [of 0 "[97]"] c by (auto simp: get_opt_def split: option.splits if_splits)
  have "r = Some 0" using r(2) by (auto simp: unat_eq_0 split: option.splits)
  with r(1) have "base_lookup_text base 0 [97] = Inr (Some 0)" by simp
  with opened val [of 0 0] str [of 0 0] c show ?thesis by (auto simp: get_opt_def)
qed

end
