(* ===== verification/FilterIndex.thy ===== *)
theory FilterIndex
  imports FilterMappedProofs "HOL-Library.AList"
begin

text \<open>
  The filter index (\<open>graph/src/filter_index.rs\<close>): owned columns or a mapped base with the updates since,
  interned text, values from projection segments and the evaluation of predicates.
  A hash map of strings is an association list with distinct keys.
\<close>

section \<open>State\<close>

type_synonym text_map = "(u8 list \<times> u32) list"

record text_delta =
  td_forward :: text_map
  td_reverse :: "u8 list list"

record filter_index =
  fi_columns :: "column_meta list"
  fi_storage :: "column_storage list"
  fi_text_dictionaries :: "text_map list"
  fi_reverse_text_dictionaries :: "u8 list list list"
  fi_mapped_base :: "mapped_filter_base option"
  fi_delta :: "(u32 \<rightharpoonup> encoded_value option) list"
  fi_text_delta :: "text_delta list"

text \<open>A value of a projection segment; text is stored as such.\<close>

datatype (plugins only: size) persisted_filter_value =
    PvNull | PvNumeric i64 | PvBoolean bool | PvText "u8 list" | PvDate i64 | PvTimestamptz i64 | PvUuid u128

definition empty_text_delta :: text_delta where
  "empty_text_delta = \<lparr>td_forward = [], td_reverse = []\<rparr>"

definition new_filter_index :: filter_index where
  "new_filter_index = \<lparr>fi_columns = [], fi_storage = [], fi_text_dictionaries = [], fi_reverse_text_dictionaries = [],
     fi_mapped_base = None, fi_delta = [], fi_text_delta = []\<rparr>"

definition from_mapped_sections :: "u8 list \<Rightarrow> byte_range \<Rightarrow> byte_range \<Rightarrow> byte_range \<Rightarrow> u32 \<Rightarrow> filter_index graph_result" where
  "from_mapped_sections bytes catalog_range data_range dictionary_range nodes =
     rbind (map_sections bytes catalog_range data_range dictionary_range nodes) (\<lambda>(columns, base).
       let n = length columns in
       Inr \<lparr>fi_columns = columns, fi_storage = [], fi_text_dictionaries = replicate n [], fi_reverse_text_dictionaries = replicate n [],
         fi_mapped_base = Some base, fi_delta = replicate n Map.empty, fi_text_delta = replicate n empty_text_delta\<rparr>)"

definition register_typed_column ::
  "filter_index \<Rightarrow> u32 \<Rightarrow> u8 list \<Rightarrow> filter_column_type \<Rightarrow> usize \<Rightarrow> usize \<Rightarrow> filter_index \<times> usize" where
  "register_typed_column ix oid name ty nodes_len populated_count =
     (ix\<lparr>fi_columns := fi_columns ix @ [\<lparr>cm_table_oid = oid, cm_column_name = name, cm_column_type = ty\<rparr>],
        fi_storage := fi_storage ix @ [new_storage ty nodes_len populated_count],
        fi_text_dictionaries := fi_text_dictionaries ix @ [[]],
        fi_reverse_text_dictionaries := fi_reverse_text_dictionaries ix @ [[]],
        fi_delta := fi_delta ix @ [Map.empty],
        fi_text_delta := fi_text_delta ix @ [empty_text_delta]\<rparr>, length (fi_columns ix))"

section \<open>Values\<close>

definition set_encoded_value :: "filter_index \<Rightarrow> usize \<Rightarrow> u32 \<Rightarrow> encoded_value option \<Rightarrow> filter_index" where
  "set_encoded_value ix k i v =
     (if fi_mapped_base ix \<noteq> None then
        (case get_opt (fi_delta ix) k of None \<Rightarrow> ix
         | Some d \<Rightarrow> ix\<lparr>fi_delta := (fi_delta ix)[k := d(i \<mapsto> v)]\<rparr>)
      else
        (case get_opt (fi_storage ix) k of None \<Rightarrow> ix
         | Some s \<Rightarrow> ix\<lparr>fi_storage := (fi_storage ix)[k := column_set s i v]\<rparr>))"

definition persistent_value :: "filter_index \<Rightarrow> usize \<Rightarrow> u32 \<Rightarrow> encoded_value option graph_result" where
  "persistent_value ix k i =
     (case Option.bind (get_opt (fi_delta ix) k) (\<lambda>d. d i) of Some v \<Rightarrow> Inr v
      | None \<Rightarrow>
          (case fi_mapped_base ix of
             Some base \<Rightarrow> base_value base k i
           | None \<Rightarrow> Inr (Option.bind (get_opt (fi_storage ix) k) (\<lambda>s. storage_value s i))))"

definition get_value :: "filter_index \<Rightarrow> usize \<Rightarrow> u32 \<Rightarrow> u32 graph_result" where
  "get_value ix k i =
     rbind (persistent_value ix k i) (\<lambda>v. Inr (opt_get_or 0 (Option.bind v (\<lambda>x. map_option clamp_u32 (encoded_i64 x)))))"

section \<open>Text\<close>

definition lookup_text_value :: "filter_index \<Rightarrow> usize \<Rightarrow> u8 list \<Rightarrow> u32 option graph_result" where
  "lookup_text_value ix k v =
     (case fi_mapped_base ix of
        Some base \<Rightarrow>
          rbind (base_lookup_text base k v) (\<lambda>r. case r of
            Some token \<Rightarrow> Inr (Some token)
          | None \<Rightarrow> Inr (Option.bind (get_opt (fi_text_delta ix) k) (\<lambda>d. map_of (td_forward d) v)))
      | None \<Rightarrow> Inr (Option.bind (get_opt (fi_text_dictionaries ix) k) (\<lambda>d. map_of d v)))"

definition text_value :: "filter_index \<Rightarrow> usize \<Rightarrow> u32 \<Rightarrow> u8 list option graph_result" where
  "text_value ix k token =
     (case fi_mapped_base ix of
        Some base \<Rightarrow>
          (case get_opt (mb_columns base) k of None \<Rightarrow> Inr None
           | Some c \<Rightarrow>
               if token < fc_dictionary_count c then base_text_value base k token
               else Inr (Option.bind (get_opt (fi_text_delta ix) k)
                 (\<lambda>d. get_opt (td_reverse d) (unat (token - fc_dictionary_count c)))))
      | None \<Rightarrow> Inr (Option.bind (get_opt (fi_reverse_text_dictionaries ix) k) (\<lambda>d. get_opt d (unat token))))"

definition u32_try_from :: "usize \<Rightarrow> u32 option" where
  "u32_try_from n = (if n < 2 ^ 32 then Some (word_of_nat n) else None)"

definition u32_checked_add :: "u32 \<Rightarrow> u32 \<Rightarrow> u32 option" where
  "u32_checked_add a b = u32_try_from (unat a + unat b)"

definition token_space_exhausted :: "graph_error fault" where
  "token_space_exhausted = Err (Internal ''text filter token space exhausted'')"

definition try_intern_text_value :: "filter_index \<Rightarrow> usize \<Rightarrow> u8 list \<Rightarrow> (filter_index \<times> u32) graph_result" where
  "try_intern_text_value ix k v =
     rbind (lookup_text_value ix k v) (\<lambda>r. case r of
       Some existing \<Rightarrow> Inr (ix, existing)
     | None \<Rightarrow>
         (case fi_mapped_base ix of
            Some base \<Rightarrow>
              let base_count = (case get_opt (mb_columns base) k of None \<Rightarrow> 0 | Some c \<Rightarrow> fc_dictionary_count c) in
              rbind (index_r (fi_text_delta ix) k) (\<lambda>d.
              rbind (ok_or token_space_exhausted (u32_try_from (length (td_reverse d)))) (\<lambda>n.
              rbind (ok_or token_space_exhausted (u32_checked_add base_count n)) (\<lambda>token.
                Inr (ix\<lparr>fi_text_delta := (fi_text_delta ix)[k :=
                  \<lparr>td_forward = AList.update v token (td_forward d), td_reverse = td_reverse d @ [v]\<rparr>]\<rparr>, token))))
          | None \<Rightarrow>
              rbind (index_r (fi_reverse_text_dictionaries ix) k) (\<lambda>reverse.
              rbind (ok_or token_space_exhausted (u32_try_from (length reverse))) (\<lambda>token.
              rbind (index_r (fi_text_dictionaries ix) k) (\<lambda>forward.
                Inr (ix\<lparr>fi_text_dictionaries := (fi_text_dictionaries ix)[k := AList.update v token forward],
                  fi_reverse_text_dictionaries := (fi_reverse_text_dictionaries ix)[k := reverse @ [v]]\<rparr>, token))))))"

definition intern_text_value :: "filter_index \<Rightarrow> usize \<Rightarrow> u8 list \<Rightarrow> (filter_index \<times> u32) graph_result" where
  "intern_text_value = try_intern_text_value"

definition intern_persisted_text_value :: "filter_index \<Rightarrow> usize \<Rightarrow> u8 list \<Rightarrow> (filter_index \<times> u32) graph_result" where
  "intern_persisted_text_value ix k v =
     (if fi_mapped_base ix \<noteq> None then try_intern_text_value ix k v
      else
        rbind (ok_or (text_column_error k '' has no forward dictionary'') (get_opt (fi_text_dictionaries ix) k)) (\<lambda>forward.
        rbind (ok_or (text_column_error k '' has no reverse dictionary'') (get_opt (fi_reverse_text_dictionaries ix) k)) (\<lambda>reverse.
        if length forward \<noteq> length reverse then Inl (text_column_error k '' dictionary directions differ in length'')
        else (case map_of forward v of
          Some existing \<Rightarrow>
            if get_opt reverse (unat existing) \<noteq> Some v then
              Inl (text_column_error k ('' dictionary token '' @ show_nat (unat existing) @ '' is inconsistent''))
            else Inr (ix, existing)
        | None \<Rightarrow>
            rbind (ok_or (corrupt ''text filter dictionary exceeds u32 tokens'') (u32_try_from (length reverse))) (\<lambda>token.
              Inr (ix\<lparr>fi_text_dictionaries := (fi_text_dictionaries ix)[k := AList.update v token forward],
                fi_reverse_text_dictionaries := (fi_reverse_text_dictionaries ix)[k := reverse @ [v]]\<rparr>, token))))))"

section \<open>Columns\<close>

fun position :: "('a \<Rightarrow> bool) \<Rightarrow> 'a list \<Rightarrow> usize option" where
  "position p [] = None"
| "position p (x # xs) = (if p x then Some 0 else map_option Suc (position p xs))"

definition find_column_for_table :: "filter_index \<Rightarrow> u32 \<Rightarrow> u8 list \<Rightarrow> usize option" where
  "find_column_for_table ix oid name =
     position (\<lambda>c. cm_table_oid c = oid \<and> cm_column_name c = name) (fi_columns ix)"

definition column_type :: "filter_index \<Rightarrow> usize \<Rightarrow> filter_column_type option" where
  "column_type ix k = map_option cm_column_type (get_opt (fi_columns ix) k)"

section \<open>Values of projection segments\<close>

text \<open>\<open>debug\<close> is the \<open>Debug\<close> form of a value or type in the message.\<close>

definition mismatch :: "(persisted_filter_value \<Rightarrow> string) \<Rightarrow> (filter_column_type \<Rightarrow> string) \<Rightarrow> usize \<Rightarrow> filter_column_type \<Rightarrow>
    persisted_filter_value \<Rightarrow> graph_error fault" where
  "mismatch debug debug_type k ty v =
     corrupt (''projection filter value '' @ debug v @ '' does not match registered column '' @ show_nat k @ '' type '' @ debug_type ty)"

definition encode_persisted ::
  "(persisted_filter_value \<Rightarrow> string) \<Rightarrow> (filter_column_type \<Rightarrow> string) \<Rightarrow> filter_index \<Rightarrow> usize \<Rightarrow> filter_column_type \<Rightarrow>
    persisted_filter_value \<Rightarrow> (filter_index \<times> encoded_value option) graph_result" where
  "encode_persisted debug debug_type ix k ty v =
     (case v of
        PvNull \<Rightarrow> Inr (ix, None)
      | PvNumeric n \<Rightarrow> if ty = FtNumeric then Inr (ix, Some (EvNumeric n)) else Inl (mismatch debug debug_type k ty v)
      | PvBoolean b \<Rightarrow> if ty = FtBoolean then Inr (ix, Some (EvBoolean b)) else Inl (mismatch debug debug_type k ty v)
      | PvText s \<Rightarrow>
          if ty = FtText then rbind (intern_persisted_text_value ix k s) (\<lambda>(ix, token). Inr (ix, Some (EvText token)))
          else Inl (mismatch debug debug_type k ty v)
      | PvDate n \<Rightarrow> if ty = FtDate then Inr (ix, Some (EvDate n)) else Inl (mismatch debug debug_type k ty v)
      | PvTimestamptz n \<Rightarrow> if ty = FtTimestamptz then Inr (ix, Some (EvTimestamptz n)) else Inl (mismatch debug debug_type k ty v)
      | PvUuid n \<Rightarrow> if ty = FtUuid then Inr (ix, Some (EvUuid n)) else Inl (mismatch debug debug_type k ty v))"

definition apply_persisted_value ::
  "(persisted_filter_value \<Rightarrow> string) \<Rightarrow> (filter_column_type \<Rightarrow> string) \<Rightarrow> filter_index \<Rightarrow> usize \<Rightarrow> u32 \<Rightarrow> u32 \<Rightarrow>
    persisted_filter_value \<Rightarrow> bool \<Rightarrow> filter_index graph_result" where
  "apply_persisted_value debug debug_type ix k i nodes v tombstone =
     (if i \<ge> nodes then
        Inl (corrupt (''projection filter node id '' @ show_nat (unat i) @ '' is outside projected node range 0..'' @ show_nat (unat nodes)))
      else
        rbind (ok_or (corrupt (''projection filter column id '' @ show_nat k @ '' is not registered in the base artifact''))
          (column_type ix k)) (\<lambda>ty.
        rbind (encode_persisted debug debug_type ix k ty v) (\<lambda>(ix, encoded).
          Inr (set_encoded_value ix k i (if tombstone then None else encoded)))))"

section \<open>Predicates\<close>

text \<open>\<open>read\<close>, the dictionary of the column, faults only as \<open>text_value\<close> does.\<close>

definition check_filter_value :: "filter_index \<Rightarrow> usize \<Rightarrow> encoded_value option \<Rightarrow> filter_condition \<Rightarrow> bool graph_result" where
  "check_filter_value ix k v c =
     (case v of
        None \<Rightarrow> Inr (case c of CIsNull \<Rightarrow> True | _ \<Rightarrow> False)
      | Some x \<Rightarrow>
          (case (c, x) of
             (CContainsToken _, EvText t) \<Rightarrow> rbind (text_value ix k t) (\<lambda>s. Inr (check_value (\<lambda>_. s) x c))
           | (CPrefixToken _, EvText t) \<Rightarrow> rbind (text_value ix k t) (\<lambda>s. Inr (check_value (\<lambda>_. s) x c))
           | _ \<Rightarrow> Inr (check_value (\<lambda>_. None) x c)))"

text \<open>\<open>tx\<close> holds the values written by the current transaction.\<close>

definition check_filter ::
  "(usize \<Rightarrow> u32 \<Rightarrow> encoded_value option option) \<Rightarrow> filter_index \<Rightarrow> u32 \<Rightarrow> filter_op \<Rightarrow> bool graph_result" where
  "check_filter tx ix i op =
     (let k = fo_column_idx op in
      case tx k i of
        Some v \<Rightarrow> check_filter_value ix k v (fo_condition op)
      | None \<Rightarrow>
          if k \<ge> length (fi_columns ix) then Inr (case fo_condition op of CIsNull \<Rightarrow> True | _ \<Rightarrow> False)
          else rbind (persistent_value ix k i) (\<lambda>v. check_filter_value ix k v (fo_condition op)))"

primrec check_filters ::
  "(usize \<Rightarrow> u32 \<Rightarrow> encoded_value option option) \<Rightarrow> filter_index \<Rightarrow> u32 \<Rightarrow> filter_op list \<Rightarrow> bool graph_result" where
  "check_filters tx ix i [] = Inr True"
| "check_filters tx ix i (op # ops) = rbind (check_filter tx ix i op) (\<lambda>b. if b then check_filters tx ix i ops else Inr False)"

end
