(* ===== verification/FilterIndexProofs.thy ===== *)
theory FilterIndexProofs
  imports FilterIndex
begin

text \<open>
  The filter index as an abstract table: every column is a map from nodes to values and a list of
  distinct strings named by tokens. Owned and mapped indexes satisfy the same contract; projected
  values are written without a fault or rejected, and predicates on tokens decide the strings.
\<close>

section \<open>Invariant\<close>

text \<open>Tokens from \<open>first\<close> on name the strings of \<open>reverse\<close>.\<close>

definition dictionary_pair :: "nat \<Rightarrow> text_map \<Rightarrow> u8 list list \<Rightarrow> bool" where
  "dictionary_pair first forward reverse \<longleftrightarrow>
     length forward = length reverse \<and> first + length reverse \<le> 2 ^ 32 \<and>
     (\<forall>v t. map_of forward v = Some t \<longleftrightarrow> first \<le> unat t \<and> get_opt reverse (unat t - first) = Some v)"

definition column_texts :: "filter_index \<Rightarrow> usize \<Rightarrow> u8 list list" where
  "column_texts ix k =
     (case fi_mapped_base ix of
        Some base \<Rightarrow> base_dictionary base k @ (case get_opt (fi_text_delta ix) k of None \<Rightarrow> [] | Some d \<Rightarrow> td_reverse d)
      | None \<Rightarrow> opt_get_or [] (get_opt (fi_reverse_text_dictionaries ix) k))"

definition node_value :: "filter_index \<Rightarrow> usize \<Rightarrow> u32 \<Rightarrow> encoded_value option" where
  "node_value ix k i =
     (case Option.bind (get_opt (fi_delta ix) k) (\<lambda>d. d i) of Some v \<Rightarrow> v
      | None \<Rightarrow>
          (case fi_mapped_base ix of
             Some base \<Rightarrow> base_column_value base k i
           | None \<Rightarrow> Option.bind (get_opt (fi_storage ix) k) (\<lambda>s. storage_value s i)))"

definition owned_column_ok :: "usize \<Rightarrow> filter_index \<Rightarrow> usize \<Rightarrow> bool" where
  "owned_column_ok n ix k \<longleftrightarrow>
     fi_delta ix ! k = Map.empty \<and> column_storage_ok (cm_column_type (fi_columns ix ! k)) n (fi_storage ix ! k) \<and>
     dictionary_pair 0 (fi_text_dictionaries ix ! k) (fi_reverse_text_dictionaries ix ! k)"

definition delta_column_ok :: "usize \<Rightarrow> mapped_filter_base \<Rightarrow> filter_index \<Rightarrow> usize \<Rightarrow> bool" where
  "delta_column_ok n base ix k \<longleftrightarrow>
     dictionary_pair (length (base_dictionary base k)) (td_forward (fi_text_delta ix ! k)) (td_reverse (fi_text_delta ix ! k)) \<and>
     set (td_reverse (fi_text_delta ix ! k)) \<inter> set (base_dictionary base k) = {} \<and>
     (\<forall>i v. (fi_delta ix ! k) i = Some v \<longrightarrow> update_fits (cm_column_type (fi_columns ix ! k)) n i v)"

definition parallel_columns :: "filter_index \<Rightarrow> bool" where
  "parallel_columns ix \<longleftrightarrow>
     length (fi_text_dictionaries ix) = length (fi_columns ix) \<and> length (fi_reverse_text_dictionaries ix) = length (fi_columns ix) \<and>
     length (fi_delta ix) = length (fi_columns ix) \<and> length (fi_text_delta ix) = length (fi_columns ix)"

definition columns_ok :: "usize \<Rightarrow> filter_index \<Rightarrow> bool" where
  "columns_ok n ix \<longleftrightarrow>
     (case fi_mapped_base ix of
        None \<Rightarrow> length (fi_storage ix) = length (fi_columns ix) \<and> (\<forall>k<length (fi_columns ix). owned_column_ok n ix k)
      | Some base \<Rightarrow>
          filter_base_ok base \<and> unat (mb_node_count base) = n \<and> map cm_column_type (fi_columns ix) = map fc_column_type (mb_columns base) \<and>
          (\<forall>k<length (fi_columns ix). delta_column_ok n base ix k))"

definition tokens_named :: "filter_index \<Rightarrow> bool" where
  "tokens_named ix \<longleftrightarrow> (\<forall>k i t. node_value ix k i = Some (EvText t) \<longrightarrow> unat t < length (column_texts ix k))"

definition filter_index_ok :: "usize \<Rightarrow> filter_index \<Rightarrow> bool" where
  "filter_index_ok n ix \<longleftrightarrow> parallel_columns ix \<and> columns_ok n ix \<and> tokens_named ix"

lemma ok_parts:
  assumes "filter_index_ok n ix"
  shows "parallel_columns ix" "columns_ok n ix" "tokens_named ix"
  using assms by (simp_all add: filter_index_ok_def)

lemma base_of:
  assumes "filter_index_ok n ix" "fi_mapped_base ix = Some base"
  shows "filter_base_ok base" "length (mb_columns base) = length (fi_columns ix)"
    "k < length (fi_columns ix) \<Longrightarrow> delta_column_ok n base ix k"
proof -
  have c: "columns_ok n ix" using assms(1) by (rule ok_parts)
  then have "map cm_column_type (fi_columns ix) = map fc_column_type (mb_columns base)"
    using assms(2) by (simp add: columns_ok_def)
  from arg_cong [OF this, of length] show "length (mb_columns base) = length (fi_columns ix)" by simp
  from c assms(2) show "filter_base_ok base" "k < length (fi_columns ix) \<Longrightarrow> delta_column_ok n base ix k"
    by (simp_all add: columns_ok_def)
qed

lemma owned_of:
  assumes "filter_index_ok n ix" "fi_mapped_base ix = None"
  shows "length (fi_storage ix) = length (fi_columns ix)" "k < length (fi_columns ix) \<Longrightarrow> owned_column_ok n ix k"
  using ok_parts(2) [OF assms(1)] assms(2) by (simp_all add: columns_ok_def)

lemma base_dictionary_outside: "length (mb_columns base) \<le> k \<Longrightarrow> base_dictionary base k = []"
  by (simp add: base_dictionary_def get_opt_def)

lemma unat_lt2: "unat (x :: u32) \<le> 2 ^ 32"
proof -
  have "unat x < 2 ^ LENGTH(32)" by (rule unsigned_less)
  then show ?thesis by simp
qed

lemma length_base_dictionary: "get_opt (mb_columns base) k = Some c \<Longrightarrow> length (base_dictionary base k) = unat (fc_dictionary_count c)"
  by (simp add: base_dictionary_def)

section \<open>Reading\<close>

lemma persistent_value_exact:
  assumes ok: "filter_index_ok n ix"
  shows "persistent_value ix k i = Inr (node_value ix k i)"
proof (cases "fi_mapped_base ix")
  case (Some base)
  then show ?thesis using base_value_exact [OF base_of(1) [OF ok Some]]
    by (simp add: persistent_value_def node_value_def split: option.split)
qed (simp add: persistent_value_def node_value_def split: option.split)

lemma node_value_outside:
  assumes "filter_index_ok n ix" "length (fi_columns ix) \<le> k"
  shows "node_value ix k i = None"
  using ok_parts(1) [OF assms(1)] assms base_of(2) [OF assms(1)] owned_of(1) [OF assms(1)]
  by (auto simp: node_value_def get_opt_def parallel_columns_def base_column_value_def split: option.split)

lemma column_texts_outside:
  assumes "filter_index_ok n ix" "length (fi_columns ix) \<le> k"
  shows "column_texts ix k = []"
  using ok_parts(1) [OF assms(1)] assms(2) base_of(2) [OF assms(1)] base_dictionary_outside
  by (auto simp: column_texts_def get_opt_def parallel_columns_def split: option.split)

lemma text_value_exact:
  assumes ok: "filter_index_ok n ix"
  shows "text_value ix k t = Inr (get_opt (column_texts ix k) (unat t))"
proof (cases "k < length (fi_columns ix)")
  case False
  then show ?thesis using column_texts_outside [OF ok, of k] ok_parts(1) [OF ok] base_of(2) [OF ok]
    by (auto simp: text_value_def get_opt_def parallel_columns_def split: option.split)
next
  case k: True
  show ?thesis
  proof (cases "fi_mapped_base ix")
    case None
    with k ok_parts(1) [OF ok] show ?thesis by (simp add: text_value_def column_texts_def get_opt_def parallel_columns_def)
  next
    case (Some base)
    then obtain c where c: "get_opt (mb_columns base) k = Some c" using k base_of(2) [OF ok] by (simp add: get_opt_def)
    note len = length_base_dictionary [OF c]
    have d: "get_opt (fi_text_delta ix) k = Some (fi_text_delta ix ! k)"
      using k ok_parts(1) [OF ok] by (simp add: get_opt_def parallel_columns_def)
    show ?thesis
    proof (cases "t < fc_dictionary_count c")
      case True
      then have "unat t < length (base_dictionary base k)" by (simp add: len word_less_nat_alt)
      then show ?thesis using Some c True d base_text_exact [OF base_of(1) [OF ok Some]]
        by (simp add: text_value_def column_texts_def get_opt_def nth_append)
    next
      case False
      then have le: "fc_dictionary_count c \<le> t" by simp
      then have "unat (t - fc_dictionary_count c) = unat t - length (base_dictionary base k)"
        "length (base_dictionary base k) \<le> unat t"
        by (simp_all add: len unat_sub word_le_nat_alt)
      then show ?thesis using Some c False d
        by (auto simp: text_value_def column_texts_def get_opt_def nth_append)
    qed
  qed
qed

lemma unat_token: "m < 2 ^ 32 \<Longrightarrow> unat (word_of_nat m :: u32) = m"
  by (simp add: unat_of_nat)

lemma pair_token:
  assumes "dictionary_pair first forward reverse" "m < length reverse"
  shows "unat (word_of_nat (first + m) :: u32) = first + m"
  by (rule unat_token) (use assms in \<open>simp add: dictionary_pair_def\<close>)

lemma pair_lookup:
  assumes "dictionary_pair first forward reverse"
  shows "map_of forward v = Some t \<Longrightarrow> get_opt reverse (unat t - first) = Some v \<and> first \<le> unat t"
    "map_of forward v = None \<Longrightarrow> v \<notin> set reverse"
proof -
  note pair = assms [unfolded dictionary_pair_def]
  show "map_of forward v = Some t \<Longrightarrow> get_opt reverse (unat t - first) = Some v \<and> first \<le> unat t" using pair by blast
  show "v \<notin> set reverse" if none: "map_of forward v = None"
  proof
    assume "v \<in> set reverse"
    then obtain j where j: "j < length reverse" "reverse ! j = v" by (auto simp: in_set_conv_nth)
    with pair_token [OF assms j(1)] pair have "map_of forward v = Some (word_of_nat (first + j))"
      by (simp add: get_opt_def del: of_nat_add)
    with none show False by simp
  qed
qed

lemma pair_distinct:
  assumes "dictionary_pair first forward reverse"
  shows "distinct reverse"
  unfolding distinct_conv_nth
proof (intro allI impI notI)
  fix i j assume ij: "i < length reverse" "j < length reverse" "i \<noteq> j" "reverse ! i = reverse ! j"
  note pair = assms [unfolded dictionary_pair_def]
  note t = pair_token [OF assms]
  have "map_of forward (reverse ! i) = Some (word_of_nat (first + m))" if "m < length reverse" "reverse ! m = reverse ! i" for m
    using pair that t [OF that(1)] by (simp add: get_opt_def del: of_nat_add)
  from this [OF ij(1)] this [OF ij(2)] ij(4)
  have "(word_of_nat (first + i) :: u32) = word_of_nat (first + j)" by simp
  then have "unat (word_of_nat (first + i) :: u32) = unat (word_of_nat (first + j) :: u32)" by simp
  with t [OF ij(1)] t [OF ij(2)] ij(3) show False by simp
qed

lemma lookup_text_exact:
  assumes ok: "filter_index_ok n ix"
  shows "\<exists>r. lookup_text_value ix k v = Inr r \<and>
    (case r of Some t \<Rightarrow> get_opt (column_texts ix k) (unat t) = Some v | None \<Rightarrow> v \<notin> set (column_texts ix k))"
proof (cases "k < length (fi_columns ix)")
  case False
  then have tx: "column_texts ix k = []" using column_texts_outside [OF ok, of k] by simp
  show ?thesis
  proof (cases "fi_mapped_base ix")
    case None
    with False tx ok_parts(1) [OF ok] show ?thesis by (simp add: lookup_text_value_def get_opt_def parallel_columns_def)
  next
    case (Some base)
    obtain r where "base_lookup_text base k v = Inr r"
      "case r of Some t \<Rightarrow> get_opt (base_dictionary base k) (unat t) = Some v | None \<Rightarrow> v \<notin> set (base_dictionary base k)"
      using base_lookup_exact [OF base_of(1) [OF ok Some]] by blast
    moreover have "base_dictionary base k = []" using base_dictionary_outside base_of(2) [OF ok Some] False by simp
    ultimately show ?thesis using Some False tx ok_parts(1) [OF ok]
      by (cases r) (simp_all add: lookup_text_value_def get_opt_def parallel_columns_def)
  qed
next
  case k: True
  note par = ok_parts(1) [OF ok, unfolded parallel_columns_def]
  show ?thesis
  proof (cases "fi_mapped_base ix")
    case None
    have pair: "dictionary_pair 0 (fi_text_dictionaries ix ! k) (fi_reverse_text_dictionaries ix ! k)"
      using owned_of(2) [OF ok None k] by (simp add: owned_column_ok_def)
    show ?thesis using pair_lookup [OF pair, of v] None k par
      by (cases "map_of (fi_text_dictionaries ix ! k) v") (simp_all add: lookup_text_value_def column_texts_def get_opt_def)
  next
    case (Some base)
    note pair = base_of(3) [OF ok Some k, unfolded delta_column_ok_def, THEN conjunct1]
    obtain r where r: "base_lookup_text base k v = Inr r"
      "case r of Some t \<Rightarrow> get_opt (base_dictionary base k) (unat t) = Some v | None \<Rightarrow> v \<notin> set (base_dictionary base k)"
      using base_lookup_exact [OF base_of(1) [OF ok Some]] by blast
    show ?thesis
    proof (cases r)
      case (Some t)
      with r \<open>fi_mapped_base ix = Some base\<close> show ?thesis
        by (auto simp: lookup_text_value_def column_texts_def get_opt_def nth_append split: if_splits)
    next
      case None
      have tx: "column_texts ix k = base_dictionary base k @ td_reverse (fi_text_delta ix ! k)"
        using Some k par by (simp add: column_texts_def get_opt_def)
      have "lookup_text_value ix k v = Inr (map_of (td_forward (fi_text_delta ix ! k)) v)"
        using Some None r(1) k par by (simp add: lookup_text_value_def get_opt_def)
      with pair_lookup [OF pair, of v] None r(2) show ?thesis
        by (cases "map_of (td_forward (fi_text_delta ix ! k)) v") (auto simp: tx get_opt_def nth_append split: if_splits)
    qed
  qed
qed

section \<open>Interning\<close>

lemma update_new: "map_of al v = None \<Longrightarrow> AList.update v t al = al @ [(v, t)]"
  by (induction al) (auto split: if_splits)

lemma get_opt_snoc: "get_opt (xs @ [x]) j = (if j = length xs then Some x else get_opt xs j)"
  by (auto simp: get_opt_def nth_append)

lemma get_opt_member: "get_opt xs j = Some x \<Longrightarrow> j < length xs \<and> x \<in> set xs"
  by (auto simp: get_opt_def split: if_splits)

lemma pair_extend:
  assumes pair: "dictionary_pair first forward reverse" and new: "map_of forward v = None" and room: "first + length reverse < 2 ^ 32"
  shows "dictionary_pair first (AList.update v (word_of_nat (first + length reverse)) forward) (reverse @ [v])"
proof -
  let ?t = "word_of_nat (first + length reverse) :: u32"
  have t: "unat ?t = first + length reverse" by (rule unat_token [OF room])
  have fresh: "v \<notin> set reverse" by (rule pair_lookup(2) [OF pair new])
  have "map_of (AList.update v ?t forward) w = Some u \<longleftrightarrow> first \<le> unat u \<and> get_opt (reverse @ [v]) (unat u - first) = Some w" for w u
  proof (cases "w = v")
    case True
    have "?t = u \<longleftrightarrow> first \<le> unat u \<and> unat u - first = length reverse"
      using t by (auto simp: word_unat_eq_iff simp del: of_nat_add)
    with True get_opt_member [of reverse _ v] fresh show ?thesis by (auto simp: update_conv' get_opt_snoc simp del: of_nat_add)
  next
    case False
    have "get_opt reverse (length reverse) = None" by (simp add: get_opt_def)
    with False pair show ?thesis by (auto simp: update_conv' get_opt_snoc dictionary_pair_def simp del: of_nat_add)
  qed
  with pair room update_new [OF new] show ?thesis by (simp add: dictionary_pair_def del: of_nat_add)
qed

definition add_text :: "filter_index \<Rightarrow> usize \<Rightarrow> u8 list \<Rightarrow> u32 \<Rightarrow> filter_index" where
  "add_text ix k v t =
     (if fi_mapped_base ix = None then
        ix\<lparr>fi_text_dictionaries := (fi_text_dictionaries ix)[k := AList.update v t (fi_text_dictionaries ix ! k)],
          fi_reverse_text_dictionaries := (fi_reverse_text_dictionaries ix)[k := fi_reverse_text_dictionaries ix ! k @ [v]]\<rparr>
      else ix\<lparr>fi_text_delta := (fi_text_delta ix)[k := \<lparr>td_forward = AList.update v t (td_forward (fi_text_delta ix ! k)),
        td_reverse = td_reverse (fi_text_delta ix ! k) @ [v]\<rparr>]\<rparr>)"

lemma add_text_same:
  "fi_columns (add_text ix k v t) = fi_columns ix" "fi_mapped_base (add_text ix k v t) = fi_mapped_base ix"
  "node_value (add_text ix k v t) = node_value ix" "parallel_columns (add_text ix k v t) = parallel_columns ix"
  by (simp_all add: add_text_def node_value_def parallel_columns_def fun_eq_iff cong: option.case_cong)

lemma add_text_texts:
  assumes "filter_index_ok n ix" "k < length (fi_columns ix)"
  shows "column_texts (add_text ix k v t) = (column_texts ix)(k := column_texts ix k @ [v])"
  using ok_parts(1) [OF assms(1), unfolded parallel_columns_def] assms(2)
  by (auto simp: add_text_def column_texts_def fun_eq_iff get_opt_def nth_list_update split: option.split)

lemma add_text_ok:
  assumes ok: "filter_index_ok n ix" and k: "k < length (fi_columns ix)" and new: "v \<notin> set (column_texts ix k)"
    and room: "length (column_texts ix k) < 2 ^ 32"
  shows "filter_index_ok n (add_text ix k v (word_of_nat (length (column_texts ix k))))"
proof -
  let ?t = "word_of_nat (length (column_texts ix k)) :: u32"
  let ?ix = "add_text ix k v ?t"
  note par = ok_parts(1) [OF ok, unfolded parallel_columns_def]
  have "columns_ok n ?ix"
  proof (cases "fi_mapped_base ix")
    case None
    note owned = owned_of(2) [OF ok None, unfolded owned_column_ok_def]
    have tx: "column_texts ix k = fi_reverse_text_dictionaries ix ! k" using None k par by (simp add: column_texts_def get_opt_def)
    have "map_of (fi_text_dictionaries ix ! k) v = None"
      using pair_lookup(1) [of 0 "fi_text_dictionaries ix ! k" _ v] owned [OF k] new get_opt_member unfolding tx
      by (metis option.exhaust)
    from pair_extend [of 0, unfolded add_0, OF _ this] owned [OF k] room
    have "dictionary_pair 0 (AList.update v ?t (fi_text_dictionaries ix ! k)) (fi_reverse_text_dictionaries ix ! k @ [v])" by (simp add: tx)
    then have "owned_column_ok n ?ix j" if "j < length (fi_columns ix)" for j
      using owned [OF that] None par k that by (auto simp: owned_column_ok_def add_text_def nth_list_update)
    with owned_of(1) [OF ok None] None show ?thesis by (simp add: columns_ok_def add_text_same) (simp add: add_text_def)
  next
    case (Some base)
    note delta = base_of(3) [OF ok Some, unfolded delta_column_ok_def]
    have tx: "column_texts ix k = base_dictionary base k @ td_reverse (fi_text_delta ix ! k)"
      using Some k par by (simp add: column_texts_def get_opt_def)
    have "map_of (td_forward (fi_text_delta ix ! k)) v = None"
      using pair_lookup(1) [of "length (base_dictionary base k)" "td_forward (fi_text_delta ix ! k)" _ v] delta [OF k] new get_opt_member
      unfolding tx by (metis UnCI option.exhaust set_append)
    from pair_extend [OF _ this] delta [OF k] room
    have "dictionary_pair (length (base_dictionary base k)) (AList.update v ?t (td_forward (fi_text_delta ix ! k)))
        (td_reverse (fi_text_delta ix ! k) @ [v])" by (simp add: tx)
    then have "delta_column_ok n base ?ix j" if "j < length (fi_columns ix)" for j
      using delta [OF that] Some par k that new by (auto simp: delta_column_ok_def add_text_def nth_list_update tx)
    with ok_parts(2) [OF ok] Some show ?thesis by (simp add: columns_ok_def add_text_same)
  qed
  moreover have "tokens_named ?ix"
    using ok_parts(3) [OF ok] by (fastforce simp: tokens_named_def add_text_same add_text_texts [OF ok k])
  ultimately show ?thesis using ok_parts(1) [OF ok] by (simp add: filter_index_ok_def add_text_same)
qed

text \<open>What interning promises: the string has a token, and no other token changes.\<close>

definition interned :: "usize \<Rightarrow> filter_index \<Rightarrow> usize \<Rightarrow> u8 list \<Rightarrow> filter_index \<times> u32 \<Rightarrow> bool" where
  "interned n ix k v r \<longleftrightarrow>
     filter_index_ok n (fst r) \<and> fi_columns (fst r) = fi_columns ix \<and> node_value (fst r) = node_value ix \<and>
     get_opt (column_texts (fst r) k) (unat (snd r)) = Some v \<and>
     column_texts (fst r) = (column_texts ix)(k := column_texts ix k @ (if v \<in> set (column_texts ix k) then [] else [v]))"

lemma interned_old:
  assumes "filter_index_ok n ix" "get_opt (column_texts ix k) (unat t) = Some v"
  shows "interned n ix k v (ix, t)"
  using assms get_opt_member [OF assms(2)] by (simp add: interned_def)

lemma interned_new:
  assumes "filter_index_ok n ix" "k < length (fi_columns ix)" "v \<notin> set (column_texts ix k)" "length (column_texts ix k) < 2 ^ 32"
  shows "interned n ix k v (add_text ix k v (word_of_nat (length (column_texts ix k))), word_of_nat (length (column_texts ix k)))"
  using add_text_ok [OF assms] assms by (simp add: interned_def add_text_same add_text_texts get_opt_snoc unat_token)

text \<open>Every way of interning keeps that promise, unless the tokens run out.\<close>

lemma lookup_cases:
  assumes ok: "filter_index_ok n ix"
  obtains t where "lookup_text_value ix k v = Inr (Some t)" "get_opt (column_texts ix k) (unat t) = Some v"
  | "lookup_text_value ix k v = Inr None" "v \<notin> set (column_texts ix k)"
proof -
  obtain r where "lookup_text_value ix k v = Inr r"
    "case r of Some t \<Rightarrow> get_opt (column_texts ix k) (unat t) = Some v | None \<Rightarrow> v \<notin> set (column_texts ix k)"
    using lookup_text_exact [OF ok, of k v] by blast
  then show thesis using that by (cases r) auto
qed

lemma try_intern_exact:
  assumes ok: "filter_index_ok n ix" and k: "k < length (fi_columns ix)"
  shows "if v \<in> set (column_texts ix k) \<or> length (column_texts ix k) < 2 ^ 32
    then \<exists>r. try_intern_text_value ix k v = Inr r \<and> interned n ix k v r
    else try_intern_text_value ix k v = Inl token_space_exhausted"
proof (rule lookup_cases [OF ok, of k v])
  fix t assume "lookup_text_value ix k v = Inr (Some t)" and at: "get_opt (column_texts ix k) (unat t) = Some v"
  then show ?thesis using interned_old [OF ok at] get_opt_member [OF at] by (simp add: try_intern_text_value_def)
next
  assume none: "lookup_text_value ix k v = Inr None" and new: "v \<notin> set (column_texts ix k)"
  note par = ok_parts(1) [OF ok, unfolded parallel_columns_def]
  have "try_intern_text_value ix k v = (if length (column_texts ix k) < 2 ^ 32
      then Inr (add_text ix k v (word_of_nat (length (column_texts ix k))), word_of_nat (length (column_texts ix k)))
      else Inl token_space_exhausted)"
  proof (cases "fi_mapped_base ix")
    case None
    then have "column_texts ix k = fi_reverse_text_dictionaries ix ! k" using k par by (simp add: column_texts_def get_opt_def)
    with None none k par show ?thesis
      by (simp add: try_intern_text_value_def u32_try_from_def add_text_def index_r_def)
  next
    case (Some base)
    then obtain c where c: "get_opt (mb_columns base) k = Some c" using k base_of(2) [OF ok] by (simp add: get_opt_def)
    have tx: "length (column_texts ix k) = unat (fc_dictionary_count c) + length (td_reverse (fi_text_delta ix ! k))"
      using Some k par c length_base_dictionary by (simp add: column_texts_def get_opt_def)
    show ?thesis
    proof (cases "length (td_reverse (fi_text_delta ix ! k)) < 2 ^ 32")
      case True
      with Some none k par c show ?thesis
        by (simp add: try_intern_text_value_def u32_try_from_def u32_checked_add_def add_text_def index_r_def tx unat_token Let_def)
    next
      case False
      with Some none k par c show ?thesis by (simp add: try_intern_text_value_def u32_try_from_def index_r_def tx)
    qed
  qed
  then show ?thesis using interned_new [OF ok k new] new by auto
qed

lemma intern_persisted_exact:
  assumes ok: "filter_index_ok n ix" and k: "k < length (fi_columns ix)"
  shows "if v \<in> set (column_texts ix k) \<or> length (column_texts ix k) < 2 ^ 32
    then \<exists>r. intern_persisted_text_value ix k v = Inr r \<and> interned n ix k v r
    else \<exists>e. intern_persisted_text_value ix k v = Inl (Err e)"
proof (cases "fi_mapped_base ix")
  case (Some base)
  with try_intern_exact [OF ok k, of v] show ?thesis by (auto simp: intern_persisted_text_value_def token_space_exhausted_def)
next
  case None
  note par = ok_parts(1) [OF ok, unfolded parallel_columns_def]
  have tx: "column_texts ix k = fi_reverse_text_dictionaries ix ! k" using None k par by (simp add: column_texts_def get_opt_def)
  have len: "length (fi_text_dictionaries ix ! k) = length (fi_reverse_text_dictionaries ix ! k)"
    using owned_of(2) [OF ok None k] by (simp add: owned_column_ok_def dictionary_pair_def)
  have look: "lookup_text_value ix k v = Inr (map_of (fi_text_dictionaries ix ! k) v)"
    using None k par by (simp add: lookup_text_value_def get_opt_def)
  show ?thesis
  proof (rule lookup_cases [OF ok, of k v])
    fix t assume "lookup_text_value ix k v = Inr (Some t)" and at: "get_opt (column_texts ix k) (unat t) = Some v"
    then show ?thesis using interned_old [OF ok at] get_opt_member [OF at] None k par len look at
      by (simp add: intern_persisted_text_value_def tx get_opt_def)
  next
    assume "lookup_text_value ix k v = Inr None" and new: "v \<notin> set (column_texts ix k)"
    then have "intern_persisted_text_value ix k v = (if length (column_texts ix k) < 2 ^ 32
        then Inr (add_text ix k v (word_of_nat (length (column_texts ix k))), word_of_nat (length (column_texts ix k)))
        else Inl (corrupt ''text filter dictionary exceeds u32 tokens''))"
      using None k par len look
      by (simp add: intern_persisted_text_value_def u32_try_from_def add_text_def tx get_opt_def)
    then show ?thesis using interned_new [OF ok k new] new by (auto simp: corrupt_def)
  qed
qed

section \<open>Writing\<close>

lemma set_value_exact:
  assumes ok: "filter_index_ok n ix" and k: "k < length (fi_columns ix)"
    and fits: "update_fits (cm_column_type (fi_columns ix ! k)) n i v"
    and named: "\<And>t. v = Some (EvText t) \<Longrightarrow> unat t < length (column_texts ix k)"
  shows "filter_index_ok n (set_encoded_value ix k i v)"
    "node_value (set_encoded_value ix k i v) = (node_value ix)(k := (node_value ix k)(i := v))"
    "column_texts (set_encoded_value ix k i v) = column_texts ix"
    "fi_columns (set_encoded_value ix k i v) = fi_columns ix"
proof -
  let ?ix = "set_encoded_value ix k i v"
  note par = ok_parts(1) [OF ok, unfolded parallel_columns_def]
  show cols: "fi_columns ?ix = fi_columns ix"
    by (simp add: set_encoded_value_def split: option.split)
  show tx: "column_texts ?ix = column_texts ix"
    by (simp add: set_encoded_value_def column_texts_def fun_eq_iff cong: option.case_cong split: option.split)
  have par': "parallel_columns ?ix" using par by (simp add: set_encoded_value_def parallel_columns_def split: option.split)
  have both: "columns_ok n ?ix \<and> node_value ?ix = (node_value ix)(k := (node_value ix k)(i := v))"
  proof (cases "fi_mapped_base ix")
    case (Some base)
    note delta = base_of(3) [OF ok Some, unfolded delta_column_ok_def]
    have ix: "?ix = ix\<lparr>fi_delta := (fi_delta ix)[k := (fi_delta ix ! k)(i \<mapsto> v)]\<rparr>"
      using Some k par by (simp add: set_encoded_value_def get_opt_def)
    have "delta_column_ok n base ?ix j" if "j < length (fi_columns ix)" for j
      using delta [OF that] fits par k that by (auto simp: delta_column_ok_def ix nth_list_update)
    moreover have "node_value ?ix = (node_value ix)(k := (node_value ix k)(i := v))"
      using k par Some by (auto simp: fun_eq_iff node_value_def ix get_opt_def nth_list_update cong: option.case_cong)
    ultimately show ?thesis using ok_parts(2) [OF ok] Some by (simp add: columns_ok_def cols) (simp add: ix)
  next
    case None
    note owned = owned_of(2) [OF ok None, unfolded owned_column_ok_def]
    have len: "length (fi_storage ix) = length (fi_columns ix)" by (rule owned_of(1) [OF ok None])
    have ix: "?ix = ix\<lparr>fi_storage := (fi_storage ix)[k := column_set (fi_storage ix ! k) i v]\<rparr>"
      using None k len by (simp add: set_encoded_value_def get_opt_def)
    have put: "column_storage_ok (cm_column_type (fi_columns ix ! k)) n (column_set (fi_storage ix ! k) i v)"
      "storage_value (column_set (fi_storage ix ! k) i v) = (storage_value (fi_storage ix ! k))(i := v)"
      using storage_put [OF _ fits] owned [OF k] by simp_all
    have "owned_column_ok n ?ix j" if "j < length (fi_columns ix)" for j
      using owned [OF that] put(1) len k that by (auto simp: owned_column_ok_def ix nth_list_update)
    moreover have "node_value ?ix = (node_value ix)(k := (node_value ix k)(i := v))"
      using k par None len owned [OF k] put(2)
      by (auto simp: fun_eq_iff node_value_def ix get_opt_def nth_list_update cong: option.case_cong)
    ultimately show ?thesis using len None by (simp add: columns_ok_def cols) (simp add: ix)
  qed
  then show val: "node_value ?ix = (node_value ix)(k := (node_value ix k)(i := v))" by simp
  have "tokens_named ?ix" using ok_parts(3) [OF ok] named by (auto simp: tokens_named_def tx val)
  with both par' show "filter_index_ok n ?ix" by (simp add: filter_index_ok_def)
qed

section \<open>The abstract table\<close>

text \<open>A node's value with its text read.\<close>

definition shown_value :: "u8 list list \<Rightarrow> encoded_value option \<Rightarrow> persisted_filter_value" where
  "shown_value texts v =
     (case v of None \<Rightarrow> PvNull | Some (EvNumeric n) \<Rightarrow> PvNumeric n | Some (EvBoolean b) \<Rightarrow> PvBoolean b
      | Some (EvText t) \<Rightarrow> PvText (texts ! unat t) | Some (EvDate n) \<Rightarrow> PvDate n
      | Some (EvTimestamptz n) \<Rightarrow> PvTimestamptz n | Some (EvUuid n) \<Rightarrow> PvUuid n)"

definition filter_view :: "filter_index \<Rightarrow> usize \<Rightarrow> u32 \<Rightarrow> persisted_filter_value" where
  "filter_view ix k i = shown_value (column_texts ix k) (node_value ix k i)"

definition accepts_value :: "filter_column_type \<Rightarrow> persisted_filter_value \<Rightarrow> bool" where
  "accepts_value ty v \<longleftrightarrow>
     (case v of PvNull \<Rightarrow> True | PvNumeric _ \<Rightarrow> ty = FtNumeric | PvBoolean _ \<Rightarrow> ty = FtBoolean | PvText _ \<Rightarrow> ty = FtText
      | PvDate _ \<Rightarrow> ty = FtDate | PvTimestamptz _ \<Rightarrow> ty = FtTimestamptz | PvUuid _ \<Rightarrow> ty = FtUuid)"

text \<open>The strings of column \<open>k\<close> have a token left for \<open>v\<close>.\<close>

definition token_left :: "filter_index \<Rightarrow> usize \<Rightarrow> persisted_filter_value \<Rightarrow> bool" where
  "token_left ix k v \<longleftrightarrow>
     (case v of PvText s \<Rightarrow> s \<in> set (column_texts ix k) \<or> length (column_texts ix k) < 2 ^ 32 | _ \<Rightarrow> True)"

lemma shown_stable:
  assumes ok: "filter_index_ok n ix" and grow: "\<And>j. \<exists>new. texts j = column_texts ix j @ new"
  shows "shown_value (texts k) (node_value ix k i) = filter_view ix k i"
proof -
  obtain new where "texts k = column_texts ix k @ new" using grow by blast
  then show ?thesis using ok_parts(3) [OF ok]
    by (auto simp: filter_view_def shown_value_def tokens_named_def nth_append split: option.split encoded_value.split)
qed

text \<open>What one encoding step yields: the value, and an index that shows what it showed before.\<close>

definition encoded_ok :: "usize \<Rightarrow> filter_index \<Rightarrow> usize \<Rightarrow> persisted_filter_value \<Rightarrow> filter_index \<times> encoded_value option \<Rightarrow> bool" where
  "encoded_ok n ix k v r \<longleftrightarrow>
     filter_index_ok n (fst r) \<and> fi_columns (fst r) = fi_columns ix \<and> filter_view (fst r) = filter_view ix \<and>
     (\<forall>x. snd r = Some x \<longrightarrow> in_domain (cm_column_type (fi_columns ix ! k)) x) \<and>
     (\<forall>t. snd r = Some (EvText t) \<longrightarrow> unat t < length (column_texts (fst r) k)) \<and>
     shown_value (column_texts (fst r) k) (snd r) = v"

lemma encoded_text:
  assumes ok: "filter_index_ok n ix" and ty: "cm_column_type (fi_columns ix ! k) = FtText"
    and r: "interned n ix k s (ix', t)"
  shows "encoded_ok n ix k (PvText s) (ix', Some (EvText t))"
proof -
  note r = r [unfolded interned_def fst_conv snd_conv]
  have "\<exists>new. column_texts ix' j = column_texts ix j @ new" for j using r by (cases "j = k") auto
  from shown_stable [OF ok this] r have "filter_view ix' = filter_view ix" by (simp add: fun_eq_iff filter_view_def)
  moreover have "unat t < length (column_texts ix' k)" "column_texts ix' k ! unat t = s"
    using r by (auto simp: get_opt_def split: if_splits)
  ultimately show ?thesis using r ty by (simp add: encoded_ok_def in_domain_def shown_value_def)
qed

lemma encode_exact:
  assumes ok: "filter_index_ok n ix" and k: "k < length (fi_columns ix)"
  shows "if accepts_value (cm_column_type (fi_columns ix ! k)) v \<and> token_left ix k v
    then \<exists>r. encode_persisted debug debug_type ix k (cm_column_type (fi_columns ix ! k)) v = Inr r \<and> encoded_ok n ix k v r
    else \<exists>e. encode_persisted debug debug_type ix k (cm_column_type (fi_columns ix ! k)) v = Inl (Err e)"
proof (cases "\<exists>s. v = PvText s \<and> cm_column_type (fi_columns ix ! k) = FtText")
  case False
  then show ?thesis using ok
    by (cases v) (auto simp: encode_persisted_def accepts_value_def token_left_def encoded_ok_def in_domain_def shown_value_def
        mismatch_def corrupt_def)
next
  case True
  then obtain s where v: "v = PvText s" and ty: "cm_column_type (fi_columns ix ! k) = FtText" by blast
  show ?thesis
  proof (cases "token_left ix k v")
    case left: True
    then obtain ix' t where r: "intern_persisted_text_value ix k s = Inr (ix', t)" "interned n ix k s (ix', t)"
      using intern_persisted_exact [OF ok k, of s] v by (force simp: token_left_def)
    have "encode_persisted debug debug_type ix k FtText v = Inr (ix', Some (EvText t))"
      using r(1) by (simp add: encode_persisted_def v)
    with encoded_text [OF ok ty r(2)] left v ty show ?thesis by (auto simp: accepts_value_def)
  next
    case False
    with intern_persisted_exact [OF ok k, of s] v ty show ?thesis
      by (auto simp: token_left_def encode_persisted_def split: if_splits)
  qed
qed

text \<open>
  C28: A value of a projection segment is either rejected with an error, exactly when the node lies
  outside the graph, the column is unknown, the value is not of the column's type or the column's
  tokens are used up, or it becomes the value of that node, null for a tombstone. The values of all
  other nodes and columns, text included, stay as they were, on an owned index as on a mapped one.
\<close>

theorem apply_persisted_exact:
  assumes ok: "filter_index_ok (unat nodes) ix"
  shows "case apply_persisted_value debug debug_type ix k i nodes v tombstone of
     Inr ix' \<Rightarrow>
       i < nodes \<and> k < length (fi_columns ix) \<and> accepts_value (cm_column_type (fi_columns ix ! k)) v \<and> token_left ix k v \<and>
       filter_index_ok (unat nodes) ix' \<and> fi_columns ix' = fi_columns ix \<and>
       filter_view ix' = (filter_view ix)(k := (filter_view ix k)(i := if tombstone then PvNull else v))
   | Inl f \<Rightarrow>
       (\<exists>e. f = Err e) \<and>
       \<not> (i < nodes \<and> k < length (fi_columns ix) \<and> accepts_value (cm_column_type (fi_columns ix ! k)) v \<and> token_left ix k v)"
proof (cases "i < nodes \<and> k < length (fi_columns ix) \<and> accepts_value (cm_column_type (fi_columns ix ! k)) v \<and> token_left ix k v")
  case False
  then show ?thesis using encode_exact [OF ok, of k v debug debug_type]
    by (auto simp: apply_persisted_value_def column_type_def get_opt_def corrupt_def not_le split: if_splits)
next
  case True
  then have i: "i < nodes" and k: "k < length (fi_columns ix)" by auto
  obtain ix' x where r: "encode_persisted debug debug_type ix k (cm_column_type (fi_columns ix ! k)) v = Inr (ix', x)"
    "encoded_ok (unat nodes) ix k v (ix', x)"
    using encode_exact [OF ok k, of v debug debug_type] True by auto
  let ?x = "if tombstone then None else x"
  note enc = r(2) [unfolded encoded_ok_def fst_conv snd_conv]
  have fits: "update_fits (cm_column_type (fi_columns ix' ! k)) (unat nodes) i ?x"
    using enc i by (auto simp: update_fits_def word_less_nat_alt split: option.split)
  have named: "unat t < length (column_texts ix' k)" if "?x = Some (EvText t)" for t
    using enc that by (auto split: if_splits)
  have k': "k < length (fi_columns ix')" and ok': "filter_index_ok (unat nodes) ix'" using enc k by simp_all
  note set = set_value_exact [OF ok' k' fits named]
  have "filter_view (set_encoded_value ix' k i ?x) = (filter_view ix)(k := (filter_view ix k)(i := if tombstone then PvNull else v))"
    unfolding enc [THEN conjunct2, THEN conjunct2, THEN conjunct1, symmetric] using enc
    by (auto simp: fun_eq_iff filter_view_def set(2,3) shown_value_def)
  moreover have "apply_persisted_value debug debug_type ix k i nodes v tombstone = Inr (set_encoded_value ix' k i ?x)"
    using i k r(1) iffD2 [OF not_le i] by (simp add: apply_persisted_value_def column_type_def get_opt_def)
  ultimately show ?thesis using True set(1,4) enc by simp
qed

section \<open>Predicates\<close>

text \<open>A condition on a shown value: a token in it stands for its string.\<close>

definition condition_holds :: "u8 list list \<Rightarrow> persisted_filter_value \<Rightarrow> filter_condition \<Rightarrow> bool" where
  "condition_holds texts v c \<longleftrightarrow>
     (case v of
        PvNull \<Rightarrow> c = CIsNull
      | PvNumeric n \<Rightarrow> check_value (\<lambda>_. None) (EvNumeric n) c
      | PvBoolean b \<Rightarrow> check_value (\<lambda>_. None) (EvBoolean b) c
      | PvText s \<Rightarrow>
          (case c of
             CEqToken t \<Rightarrow> get_opt texts (unat t) = Some s
           | CNeqToken t \<Rightarrow> get_opt texts (unat t) \<noteq> Some s
           | CInToken ts \<Rightarrow> Some s \<in> (\<lambda>t. get_opt texts (unat t)) ` set ts
           | CNotInToken ts \<Rightarrow> Some s \<notin> (\<lambda>t. get_opt texts (unat t)) ` set ts
           | CContainsToken p \<Rightarrow> contains_str s p
           | CPrefixToken p \<Rightarrow> starts_with s p
           | _ \<Rightarrow> check_value (\<lambda>_. None) (EvText 0) c)
      | PvDate n \<Rightarrow> check_value (\<lambda>_. None) (EvDate n) c
      | PvTimestamptz n \<Rightarrow> check_value (\<lambda>_. None) (EvTimestamptz n) c
      | PvUuid n \<Rightarrow> check_value (\<lambda>_. None) (EvUuid n) c)"

lemma column_texts_distinct:
  assumes ok: "filter_index_ok n ix"
  shows "distinct (column_texts ix k)"
proof (cases "k < length (fi_columns ix)")
  case False
  then show ?thesis using column_texts_outside [OF ok, of k] by simp
next
  case k: True
  note par = ok_parts(1) [OF ok, unfolded parallel_columns_def]
  show ?thesis
  proof (cases "fi_mapped_base ix")
    case None
    with k par owned_of(2) [OF ok None k] pair_distinct show ?thesis
      by (auto simp: column_texts_def get_opt_def owned_column_ok_def)
  next
    case (Some base)
    then obtain c where c: "get_opt (mb_columns base) k = Some c" using k base_of(2) [OF ok] by (simp add: get_opt_def)
    have "sorted_wrt (<) (column_dictionary (mb_bytes base) c)"
      using base_column [OF base_of(1) [OF ok Some] c]
      by (auto simp: column_ok_def dictionary_ok_def column_dictionary_def split: if_splits)
    then have "distinct (base_dictionary base k)" using c unfolding strict_sorted_iff by (simp add: base_dictionary_def)
    with Some k par base_of(3) [OF ok Some k] pair_distinct show ?thesis
      by (auto simp: column_texts_def get_opt_def delta_column_ok_def)
  qed
qed

lemma token_names:
  assumes ok: "filter_index_ok n ix" and a: "unat a < length (column_texts ix k)"
  shows "get_opt (column_texts ix k) (unat t) = Some (column_texts ix k ! unat a) \<longleftrightarrow> a = t"
  using a nth_eq_iff_index_eq [OF column_texts_distinct [OF ok] a, of "unat t"]
  by (auto simp: get_opt_def word_unat_eq_iff)

lemma check_filter_value_exact:
  assumes ok: "filter_index_ok n ix" and named: "\<And>t. v = Some (EvText t) \<Longrightarrow> unat t < length (column_texts ix k)"
  shows "check_filter_value ix k v c = Inr (condition_holds (column_texts ix k) (shown_value (column_texts ix k) v) c)"
proof (cases "\<exists>t. v = Some (EvText t)")
  case True
  then obtain t where v: "v = Some (EvText t)" by blast
  note t = named [OF v]
  have "Some (column_texts ix k ! unat t) \<in> (\<lambda>t. get_opt (column_texts ix k) (unat t)) ` set ts \<longleftrightarrow> t \<in> set ts" for ts
    using token_names [OF ok t] by (force simp: image_iff)
  then show ?thesis using t token_names [OF ok t] text_value_exact [OF ok, of k t]
    by (cases c) (auto simp: v check_filter_value_def condition_holds_def shown_value_def check_value_def is_some_and_def
        get_opt_def encoded_u32_def encoded_i64_def)
next
  case False
  show ?thesis
  proof (cases v)
    case None
    then show ?thesis by (cases c) (simp_all add: check_filter_value_def condition_holds_def shown_value_def)
  next
    case (Some x)
    with False show ?thesis
      by (cases x; cases c) (simp_all add: check_filter_value_def condition_holds_def shown_value_def)
  qed
qed

definition current_value :: "(usize \<Rightarrow> u32 \<Rightarrow> encoded_value option option) \<Rightarrow> filter_index \<Rightarrow> usize \<Rightarrow> u32 \<Rightarrow> persisted_filter_value" where
  "current_value tx ix k i = (case tx k i of Some v \<Rightarrow> shown_value (column_texts ix k) v | None \<Rightarrow> filter_view ix k i)"

lemma check_filter_exact:
  assumes ok: "filter_index_ok n ix"
    and named: "\<And>k t. tx k i = Some (Some (EvText t)) \<Longrightarrow> unat t < length (column_texts ix k)"
  shows "check_filter tx ix i op =
    Inr (condition_holds (column_texts ix (fo_column_idx op)) (current_value tx ix (fo_column_idx op) i) (fo_condition op))"
proof (cases "tx (fo_column_idx op) i")
  case (Some v)
  with check_filter_value_exact [OF ok, of v "fo_column_idx op"] named show ?thesis
    by (simp add: check_filter_def Let_def current_value_def)
next
  case None
  have "check_filter_value ix k (node_value ix k i) c = Inr (condition_holds (column_texts ix k) (filter_view ix k i) c)" for k c
    unfolding filter_view_def by (rule check_filter_value_exact [OF ok]) (use ok_parts(3) [OF ok] in \<open>auto simp: tokens_named_def\<close>)
  moreover have "node_value ix (fo_column_idx op) i = None" if "length (fi_columns ix) \<le> fo_column_idx op"
    by (rule node_value_outside [OF ok that])
  ultimately show ?thesis using None persistent_value_exact [OF ok]
    by (auto simp: check_filter_def Let_def current_value_def filter_view_def shown_value_def condition_holds_def
        split: filter_condition.split)
qed

text \<open>
  C29: Deciding a conjunction of filters for a node never faults, and the answer is the one the strings
  give: equal, listed, containing or prefixed are decided on the text the node holds, though
  the index compares 32-bit tokens and reads its dictionary only for the last two. The current
  transaction's value takes precedence over the stored one. A null value, or a column
  that does not exist, satisfies \<open>IS NULL\<close> and nothing else.
\<close>

theorem check_filters_exact:
  assumes ok: "filter_index_ok n ix"
    and named: "\<And>k t. tx k i = Some (Some (EvText t)) \<Longrightarrow> unat t < length (column_texts ix k)"
  shows "check_filters tx ix i ops =
    Inr (list_all (\<lambda>op. condition_holds (column_texts ix (fo_column_idx op)) (current_value tx ix (fo_column_idx op) i) (fo_condition op)) ops)"
  by (induction ops) (use check_filter_exact [OF ok named] in simp_all)

section \<open>How an index comes to be\<close>

lemma shown_value_null: "shown_value texts v = PvNull \<longleftrightarrow> v = None"
  by (simp add: shown_value_def split: option.split encoded_value.split)

lemma pair_empty: "first \<le> 2 ^ 32 \<Longrightarrow> dictionary_pair first [] []"
  by (simp add: dictionary_pair_def get_opt_def)

lemma new_index_ok: "filter_index_ok n new_filter_index" "filter_view new_filter_index k i = PvNull" "fi_mapped_base new_filter_index = None"
  by (simp_all add: filter_index_ok_def parallel_columns_def columns_ok_def tokens_named_def new_filter_index_def node_value_def
      get_opt_def filter_view_def shown_value_def)

lemma register_ok:
  fixes ix oid name ty pop n
  defines "ix' \<equiv> fst (register_typed_column ix oid name ty n pop)"
  assumes ok: "filter_index_ok n ix" and owned: "fi_mapped_base ix = None"
  shows "filter_index_ok n ix'" "filter_view ix' = filter_view ix" "fi_mapped_base ix' = None"
proof -
  note par = ok_parts(1) [OF ok, unfolded parallel_columns_def] and st = owned_of(1) [OF ok owned]
  have tx: "column_texts ix' = column_texts ix"
    using par owned by (auto simp: fun_eq_iff column_texts_def ix'_def register_typed_column_def get_opt_def nth_append less_Suc_eq)
  have val: "node_value ix' = node_value ix"
    using par owned st new_storage_ok(2)
    by (auto simp: fun_eq_iff node_value_def ix'_def register_typed_column_def get_opt_def nth_append less_Suc_eq cong: option.case_cong)
  show "fi_mapped_base ix' = None" using owned by (simp add: ix'_def register_typed_column_def)
  have "owned_column_ok n ix' j" if "j < Suc (length (fi_columns ix))" for j
    using that owned_of(2) [OF ok owned, of j] par st new_storage_ok(1) pair_empty [of 0]
    by (auto simp: owned_column_ok_def ix'_def register_typed_column_def nth_append less_Suc_eq)
  then have "columns_ok n ix'" using owned st by (simp add: columns_ok_def ix'_def register_typed_column_def)
  moreover have "parallel_columns ix'" using par by (simp add: parallel_columns_def ix'_def register_typed_column_def)
  moreover have "tokens_named ix'" using ok_parts(3) [OF ok] by (simp add: tokens_named_def tx val)
  ultimately show "filter_index_ok n ix'" by (simp add: filter_index_ok_def)
  show "filter_view ix' = filter_view ix" by (simp add: fun_eq_iff filter_view_def tx val)
qed

text \<open>Registering columns one after the other on a new index, with the identifiers it returns.\<close>

definition register_columns ::
  "usize \<Rightarrow> (u32 \<times> u8 list \<times> filter_column_type \<times> usize) list \<Rightarrow> filter_index \<times> usize list" where
  "register_columns n cols =
     fold (\<lambda>(oid, name, ty, pop) (ix, ids). let (ix', k) = register_typed_column ix oid name ty n pop in (ix', ids @ [k]))
       cols (new_filter_index, [])"

definition declared :: "u32 \<times> u8 list \<times> filter_column_type \<times> usize \<Rightarrow> column_meta" where
  "declared col = (case col of (oid, name, ty, pop) \<Rightarrow> \<lparr>cm_table_oid = oid, cm_column_name = name, cm_column_type = ty\<rparr>)"

lemma registered_ok:
  "filter_index_ok n (fst (register_columns n cols)) \<and> fi_mapped_base (fst (register_columns n cols)) = None \<and>
    filter_view (fst (register_columns n cols)) = (\<lambda>_ _. PvNull) \<and>
    fi_columns (fst (register_columns n cols)) = map declared cols \<and> snd (register_columns n cols) = [0..<length cols]"
proof (induction cols rule: rev_induct)
  case Nil
  have "filter_view new_filter_index = (\<lambda>_ _. PvNull)" using new_index_ok(2) by (simp add: fun_eq_iff)
  with new_index_ok show ?case by (simp add: register_columns_def) (simp add: new_filter_index_def)
next
  case (snoc col cols)
  obtain ix ids where r: "register_columns n cols = (ix, ids)" by (cases "register_columns n cols")
  obtain oid name ty pop where col: "col = (oid, name, ty, pop)" by (cases col)
  have step: "register_columns n (cols @ [col]) =
      (fst (register_typed_column ix oid name ty n pop), ids @ [snd (register_typed_column ix oid name ty n pop)])"
    using r by (simp add: register_columns_def col Let_def split_beta)
  have ix: "filter_index_ok n ix" "fi_mapped_base ix = None" "filter_view ix = (\<lambda>_ _. PvNull)"
    "fi_columns ix = map declared cols" "ids = [0..<length cols]" using snoc r by simp_all
  from register_ok [OF ix(1,2), of oid name ty pop] ix show ?case
    by (simp add: step) (simp add: register_typed_column_def declared_def col)
qed

text \<open>The first column with an identity.\<close>

definition first_column :: "column_meta list \<Rightarrow> u32 \<Rightarrow> u8 list \<Rightarrow> usize \<Rightarrow> bool" where
  "first_column metas oid name k \<longleftrightarrow>
     k < length metas \<and> (cm_table_oid (metas ! k), cm_column_name (metas ! k)) = (oid, name) \<and>
     (\<forall>j<k. (cm_table_oid (metas ! j), cm_column_name (metas ! j)) \<noteq> (oid, name))"

lemma position_Some: "position p xs = Some k \<longleftrightarrow> k < length xs \<and> p (xs ! k) \<and> (\<forall>j<k. \<not> p (xs ! j))"
proof (induction xs arbitrary: k)
  case (Cons x xs)
  then show ?case by (cases k) (auto simp: All_less_Suc2)
qed simp

lemma find_column_first: "find_column_for_table ix oid name = Some k \<longleftrightarrow> first_column (fi_columns ix) oid name k"
  by (auto simp: find_column_for_table_def position_Some first_column_def)

lemma opened_ok:
  assumes base: "filter_base_ok base" and types: "map cm_column_type columns = map fc_column_type (mb_columns base)"
  defines "ix \<equiv> \<lparr>fi_columns = columns, fi_storage = [], fi_text_dictionaries = replicate (length columns) [],
     fi_reverse_text_dictionaries = replicate (length columns) [], fi_mapped_base = Some base,
     fi_delta = replicate (length columns) Map.empty, fi_text_delta = replicate (length columns) empty_text_delta\<rparr>"
  shows "filter_index_ok (unat (mb_node_count base)) ix"
    "column_texts ix k = base_dictionary base k" "node_value ix k i = base_column_value base k i"
proof -
  have len: "length (mb_columns base) = length columns" using arg_cong [OF types, of length] by simp
  have tx: "column_texts ix j = base_dictionary base j" for j
    by (simp add: column_texts_def ix_def get_opt_def empty_text_delta_def)
  have val: "node_value ix j m = base_column_value base j m" for j m
    by (simp add: node_value_def ix_def get_opt_def)
  have "delta_column_ok (unat (mb_node_count base)) base ix j" if j: "j < length columns" for j
  proof -
    obtain c where "get_opt (mb_columns base) j = Some c" using j len by (auto simp: get_opt_def)
    from length_base_dictionary [OF this] have "length (base_dictionary base j) \<le> 2 ^ 32"
      using unat_lt2 [of "fc_dictionary_count c"] by simp
    from pair_empty [OF this] j show ?thesis by (simp add: delta_column_ok_def ix_def empty_text_delta_def)
  qed
  then have "columns_ok (unat (mb_node_count base)) ix" using base types by (simp add: columns_ok_def ix_def)
  moreover have "unat t < length (base_dictionary base j)" if "base_column_value base j m = Some (EvText t)" for j m t
  proof -
    from that obtain c where c: "get_opt (mb_columns base) j = Some c"
      "column_value (mb_bytes base) c (mb_node_count base) m = Some (EvText t)"
      by (auto simp: base_column_value_def split: option.splits)
    from column_value_ok [OF base_column [OF base c(1)] c(2)] show ?thesis by (simp add: length_base_dictionary [OF c(1)])
  qed
  ultimately show "filter_index_ok (unat (mb_node_count base)) ix"
    by (simp add: filter_index_ok_def tokens_named_def tx val) (simp add: parallel_columns_def ix_def)
  show "column_texts ix k = base_dictionary base k" "node_value ix k i = base_column_value base k i" by (rule tx, rule val)
qed

lemma registered_columns:
  shows "case register_columns n cols of (ix, ids) \<Rightarrow>
       filter_index_ok n ix \<and> ids = [0..<length cols] \<and> fi_columns ix = map declared cols \<and>
       (\<forall>k. column_type ix k = map_option (\<lambda>(_, _, ty, _). ty) (get_opt cols k)) \<and>
       (\<forall>oid name k. find_column_for_table ix oid name = Some k \<longleftrightarrow> first_column (map declared cols) oid name k) \<and>
       (\<forall>k i. persistent_value ix k i = Inr None \<and> filter_view ix k i = PvNull)"
proof -
  obtain ix ids where reg: "register_columns n cols = (ix, ids)" by (cases "register_columns n cols")
  with registered_ok [of n cols] have ix: "filter_index_ok n ix" "filter_view ix = (\<lambda>_ _. PvNull)"
    "fi_columns ix = map declared cols" "ids = [0..<length cols]" by simp_all
  have "shown_value (column_texts ix k) (node_value ix k i) = PvNull" for k i
    using ix(2) by (simp add: fun_eq_iff filter_view_def)
  then have "node_value ix k i = None" for k i
    by (metis shown_value_null)
  with ix show ?thesis
    by (auto simp: reg persistent_value_exact find_column_first column_type_def get_opt_def declared_def split_beta)
qed

lemma opened_columns:
  assumes "length bytes \<le> usize_max"
  shows "case from_mapped_sections bytes cr dr tr nodes of
       Inl f \<Rightarrow> \<exists>reason. f = Err (CorruptFile reason)
     | Inr ix \<Rightarrow> filter_index_ok (unat nodes) ix \<and>
         (\<exists>metas cs. section_columns bytes cr dr tr metas cs \<and> fi_columns ix = metas \<and>
            distinct (map (\<lambda>c. (cm_table_oid c, cm_column_name c)) metas) \<and>
            (\<forall>k. column_type ix k = map_option cm_column_type (get_opt metas k)) \<and>
            (\<forall>oid name k. find_column_for_table ix oid name = Some k \<longleftrightarrow> first_column metas oid name k) \<and>
            (\<forall>k i. persistent_value ix k i = Inr (if k < length cs then column_value bytes (cs ! k) nodes i else None) \<and>
               filter_view ix k i =
                 (if k < length cs then shown_value (column_dictionary bytes (cs ! k)) (column_value bytes (cs ! k) nodes i)
                  else PvNull)))"
proof (cases "map_sections bytes cr dr tr nodes")
  case (Inl f)
  with checked_map_sections [OF assms, of nodes cr dr tr] show ?thesis by (simp add: checked_def from_mapped_sections_def)
next
  case (Inr r)
  obtain columns base where r: "r = (columns, base)" by (cases r)
  with checked_map_sections [OF assms, of nodes cr dr tr] Inr
  have base: "filter_base_ok base" "mb_node_count base = nodes" "mb_bytes base = bytes"
    "section_columns bytes cr dr tr columns (mb_columns base)"
    "distinct (map (\<lambda>c. (cm_table_oid c, cm_column_name c)) columns)"
    by (simp_all add: checked_def)
  let ?ix = "\<lparr>fi_columns = columns, fi_storage = [], fi_text_dictionaries = replicate (length columns) [],
    fi_reverse_text_dictionaries = replicate (length columns) [], fi_mapped_base = Some base,
    fi_delta = replicate (length columns) Map.empty, fi_text_delta = replicate (length columns) empty_text_delta\<rparr>"
  note opened = opened_ok [OF base(1) section_columns_types [OF base(4)]]
  have "persistent_value ?ix k i =
        Inr (if k < length (mb_columns base) then column_value bytes (mb_columns base ! k) nodes i else None) \<and>
      filter_view ?ix k i =
        (if k < length (mb_columns base) then shown_value (column_dictionary bytes (mb_columns base ! k))
           (column_value bytes (mb_columns base ! k) nodes i) else PvNull)" for k i
    using base(2,3) by (simp add: persistent_value_exact [OF opened(1)] filter_view_def opened(2,3) base_column_value_def
        base_dictionary_def get_opt_def shown_value_null)
  moreover have "from_mapped_sections bytes cr dr tr nodes = Inr ?ix"
    by (simp add: Inr r from_mapped_sections_def Let_def)
  ultimately show ?thesis
    using base opened(1) by (auto simp: find_column_first column_type_def)
qed

text \<open>
  C27: Both ways of making a filter index establish its invariant and say which columns it has.
  Registering columns on a new index returns the identifiers 0, 1, 2, in order, the index has
  exactly these columns with their types, and every value is null. Opening the sections of
  an artifact either reports corruption or gives an index with the columns the catalog section
  describes, of distinct identities, whose values and strings are those the described places of
  the data and dictionary sections hold. In both a column is found by its table and name, the first
  one if there are several.
\<close>

theorem filter_index_established:
  assumes "length bytes \<le> usize_max"
  shows "(case register_columns n cols of (ix, ids) \<Rightarrow>
       filter_index_ok n ix \<and> ids = [0..<length cols] \<and> fi_columns ix = map declared cols \<and>
       (\<forall>k. column_type ix k = map_option (\<lambda>(_, _, ty, _). ty) (get_opt cols k)) \<and>
       (\<forall>oid name k. find_column_for_table ix oid name = Some k \<longleftrightarrow> first_column (map declared cols) oid name k) \<and>
       (\<forall>k i. persistent_value ix k i = Inr None \<and> filter_view ix k i = PvNull)) \<and>
    (case from_mapped_sections bytes cr dr tr nodes of
       Inl f \<Rightarrow> \<exists>reason. f = Err (CorruptFile reason)
     | Inr ix \<Rightarrow> filter_index_ok (unat nodes) ix \<and>
         (\<exists>metas cs. section_columns bytes cr dr tr metas cs \<and> fi_columns ix = metas \<and>
            distinct (map (\<lambda>c. (cm_table_oid c, cm_column_name c)) metas) \<and>
            (\<forall>k. column_type ix k = map_option cm_column_type (get_opt metas k)) \<and>
            (\<forall>oid name k. find_column_for_table ix oid name = Some k \<longleftrightarrow> first_column metas oid name k) \<and>
            (\<forall>k i. persistent_value ix k i = Inr (if k < length cs then column_value bytes (cs ! k) nodes i else None) \<and>
               filter_view ix k i =
                 (if k < length cs then shown_value (column_dictionary bytes (cs ! k)) (column_value bytes (cs ! k) nodes i)
                  else PvNull))))"
  using registered_columns opened_columns [OF assms] by (rule conjI)

text \<open>One text column over one node.\<close>

definition sample_index :: filter_index where
  "sample_index = fst (register_typed_column new_filter_index 7 [110] FtText 1 1)"

lemma sample_index_ok: "filter_index_ok 1 sample_index"
  unfolding sample_index_def by (rule register_ok(1) [OF new_index_ok(1,3)])

theorem apply_persisted_exact_witness:
  "\<exists>ix'. apply_persisted_value (\<lambda>_. []) (\<lambda>_. []) sample_index 0 0 1 (PvText [97]) False = Inr ix' \<and>
     filter_view ix' 0 0 = PvText [97]"
proof -
  have ok: "filter_index_ok (unat (1 :: u32)) sample_index" using sample_index_ok by simp
  have "k < length (fi_columns sample_index) \<longleftrightarrow> k = 0" "cm_column_type (fi_columns sample_index ! 0) = FtText"
    "column_texts sample_index 0 = []" for k
    by (auto simp: sample_index_def register_typed_column_def new_filter_index_def column_texts_def get_opt_def)
  then have "0 < length (fi_columns sample_index) \<and> accepts_value (cm_column_type (fi_columns sample_index ! 0)) (PvText [97]) \<and>
      token_left sample_index 0 (PvText [97])"
    by (simp add: accepts_value_def token_left_def)
  with apply_persisted_exact [OF ok, where k = 0 and i = 0 and v = "PvText [97]" and tombstone = False and debug = "\<lambda>_. []" and debug_type = "\<lambda>_. []"] show ?thesis
    by (cases "apply_persisted_value (\<lambda>_. []) (\<lambda>_. []) sample_index 0 0 1 (PvText [97]) False") auto
qed

theorem check_filters_exact_witness:
  "check_filters (\<lambda>_ _. None) sample_index 0 [\<lparr>fo_column_idx = 0, fo_condition = CIsNull\<rparr>] = Inr True"
proof -
  have "filter_view sample_index 0 0 = PvNull"
    unfolding sample_index_def register_ok(2) [OF new_index_ok(1,3)] by (rule new_index_ok(2))
  then show ?thesis
    using check_filters_exact [OF sample_index_ok, of "\<lambda>_ _. None" 0 "[\<lparr>fo_column_idx = 0, fo_condition = CIsNull\<rparr>]"]
    by (simp add: condition_holds_def current_value_def)
qed

theorem filter_index_established_witness:
  "(\<exists>ix. register_columns 1 [(7, [110], FtText, 1), (7, [109], FtDate, 0)] = (ix, [0, 1]) \<and>
      find_column_for_table ix 7 [109] = Some 1 \<and> column_type ix 1 = Some FtDate) \<and>
   (\<exists>ix. from_mapped_sections sample_filter (0, 81) (81, 86) (86, 103) 1 = Inr ix \<and> filter_index_ok 1 ix \<and>
      filter_view ix 0 0 = PvText [97])"
proof -
  have "length sample_filter \<le> usize_max" by (simp add: sample_filter_def usize_max_def)
  note est = filter_index_established [OF this, where cr = "(0, 81)" and dr = "(81, 86)" and tr = "(86, 103)" and nodes = 1
      and n = 1 and cols = "[(7, [110], FtText, 1), (7, [109], FtDate, 0)]"]
  obtain ix ids where reg: "register_columns 1 [(7, [110], FtText, 1), (7, [109], FtDate, 0)] = (ix, ids)"
    by (cases "register_columns 1 [(7, [110], FtText, 1), (7, [109], FtDate, 0)]")
  have "first_column (map declared [(7, [110], FtText, 1), (7, [109], FtDate, 0)]) 7 [109] 1"
    by (simp add: first_column_def declared_def)
  with conjunct1 [OF est] reg have one: "find_column_for_table ix 7 [109] = Some 1" "column_type ix 1 = Some FtDate" "ids = [0, 1]"
    by (auto simp: get_opt_def upt_rec)
  obtain ix' where ix': "from_mapped_sections sample_filter (0, 81) (81, 86) (86, 103) 1 = Inr ix'"
    by (simp add: from_mapped_sections_def sample_filter_valid Let_def)
  with conjunct2 [OF est] obtain metas cs where
    two: "filter_index_ok 1 ix'" "section_columns sample_filter (0, 81) (81, 86) (86, 103) metas cs"
      "\<And>k i. filter_view ix' k i = (if k < length cs then
         shown_value (column_dictionary sample_filter (cs ! k)) (column_value sample_filter (cs ! k) 1 i) else PvNull)"
    by auto
  have "filter_view ix' 0 0 = PvText [97]"
    using sample_columns [OF two(2)] by (simp add: two(3) shown_value_def)
  with one reg ix' two(1) show ?thesis by auto
qed

end
