(* ===== verification/RelationshipIdentities.thy ===== *)
theory RelationshipIdentities
  imports Validation EdgeStore
begin

text \<open>
  Durable relationship identities (\<open>graph/src/relationship_identity_store.rs\<close>): owned slots, a mapped
  table of descriptors and key bytes, and a mapped base with an owned overlay. All three represent
  one list of slots, the first of them empty; a relationship id is a position in it.
\<close>

section \<open>Representation\<close>

record relationship_identity =
  ri_mapping_id :: u64
  ri_source_key :: "u8 list"

record mapped_identities =
  mi_bytes :: "u8 list"
  mi_descriptors_range :: byte_range
  mi_key_bytes_range :: byte_range
  mi_len :: usize

datatype (plugins only: size) identity_store =
    OwnedIds "relationship_identity option list"
  | MappedIds mapped_identities
  | LayeredIds mapped_identities "relationship_identity list"

definition IDENTITY_DESCRIPTOR_SIZE :: usize where "IDENTITY_DESCRIPTOR_SIZE = 16"

definition identity_range_in_mapping :: "byte_range \<Rightarrow> usize \<Rightarrow> bool" where
  "identity_range_in_mapping r mapping_len \<longleftrightarrow> fst r \<le> snd r \<and> snd r \<le> mapping_len"

definition identity_ranges_overlap :: "byte_range \<Rightarrow> byte_range \<Rightarrow> bool" where
  "identity_ranges_overlap l r \<longleftrightarrow> fst l < snd r \<and> fst r < snd l"

definition descriptor_value :: "u8 list \<Rightarrow> usize \<Rightarrow> (u64 \<times> u64) graph_result" where
  "descriptor_value descriptors index =
     rbind (ok_or (corrupt ''relationship identity descriptor offset overflowed'')
       (checked_mul_usize index IDENTITY_DESCRIPTOR_SIZE)) (\<lambda>start.
     rbind (ok_or (corrupt ''relationship identity descriptor end overflowed'')
       (checked_add_usize start IDENTITY_DESCRIPTOR_SIZE)) (\<lambda>stop.
     rbind (ok_or (corrupt ''relationship identity descriptor is out of bounds'')
       (get_slice_opt descriptors start stop)) (\<lambda>descriptor.
     rbind (slice_r descriptor 0 8) (\<lambda>a. rbind (slice_r descriptor 8 16) (\<lambda>b. Inr (le_word a, le_word b))))))"

section \<open>Validation of a mapped table\<close>

type_synonym identity_scan = "usize \<times> (u64 \<times> u8 list) set"

definition scan_identity :: "u8 list \<Rightarrow> u8 list \<Rightarrow> usize \<Rightarrow> identity_scan \<Rightarrow> identity_scan graph_result" where
  "scan_identity descriptors key_bytes index s =
     (let previous_end = fst s; seen = snd s in
      rbind (descriptor_value descriptors index) (\<lambda>(mapping_id, key_end).
      if mapping_id = 0 then
        Inl (corrupt (''relationship identity descriptor '' @ show_nat index @ '' has mapping ID 0''))
      else if unat key_end < previous_end \<or> unat key_end > length key_bytes then
        Inl (corrupt (''relationship identity descriptor '' @ show_nat index @ '' is invalid''))
      else
        rbind (slice_r key_bytes previous_end (unat key_end)) (\<lambda>raw.
        rbind (ok_or (corrupt (''relationship identity key '' @ show_nat index @ '' is not UTF-8'')) (from_utf8 raw)) (\<lambda>source_key.
        if (mapping_id, source_key) \<in> seen then
          Inl (corrupt (''relationship identity descriptor '' @ show_nat index @ '' duplicates an earlier identity''))
        else Inr (unat key_end, insert (mapping_id, source_key) seen)))))"

definition mapped_identities_new :: "u8 list \<Rightarrow> byte_range \<Rightarrow> byte_range \<Rightarrow> mapped_identities graph_result" where
  "mapped_identities_new bytes descriptors_range key_bytes_range =
     (if \<not> identity_range_in_mapping descriptors_range (length bytes) \<or> \<not> identity_range_in_mapping key_bytes_range (length bytes) \<or>
         identity_ranges_overlap descriptors_range key_bytes_range \<or> range_len descriptors_range < IDENTITY_DESCRIPTOR_SIZE \<or>
         range_len descriptors_range mod IDENTITY_DESCRIPTOR_SIZE \<noteq> 0 then
        Inl (corrupt ''invalid relationship identity section layout'')
      else
        let len = range_len descriptors_range div IDENTITY_DESCRIPTOR_SIZE in
        if len > 4294967295 then Inl (corrupt ''relationship identity descriptor count exceeds u32'')
        else
          rbind (slice_range_r bytes descriptors_range) (\<lambda>descriptors.
          rbind (slice_range_r bytes key_bytes_range) (\<lambda>key_bytes.
          rbind (descriptor_value descriptors 0) (\<lambda>zero.
          if zero \<noteq> (0, 0) then Inl (corrupt ''relationship identity descriptor zero must be empty'')
          else
            rbind (fold_r (scan_identity descriptors key_bytes) [1..<len] (0, {})) (\<lambda>(previous_end, _).
            if previous_end \<noteq> length key_bytes then
              Inl (corrupt ''relationship identity descriptors do not span the key section'')
            else Inr \<lparr>mi_bytes = bytes, mi_descriptors_range = descriptors_range, mi_key_bytes_range = key_bytes_range,
                mi_len = len\<rparr>)))))"

section \<open>Reading\<close>

text \<open>\<open>.ok()?\<close> on a result whose errors are not panics.\<close>

definition ok_then :: "'a graph_result \<Rightarrow> ('a \<Rightarrow> 'b option graph_result) \<Rightarrow> 'b option graph_result" where
  "ok_then r f = (case r of Inr x \<Rightarrow> f x | Inl Panic \<Rightarrow> Inl Panic | Inl (Err e) \<Rightarrow> Inr None)"

definition mapped_identity_get :: "mapped_identities \<Rightarrow> relationship_id \<Rightarrow> relationship_identity option graph_result" where
  "mapped_identity_get m rid =
     (let index = unat rid in
      if index = 0 \<or> index \<ge> mi_len m then Inr None
      else
        rbind (slice_range_r (mi_bytes m) (mi_descriptors_range m)) (\<lambda>descriptors.
        rbind (slice_range_r (mi_bytes m) (mi_key_bytes_range m)) (\<lambda>key_bytes.
        ok_then (descriptor_value descriptors index) (\<lambda>(mapping_id, key_end).
        ok_then (descriptor_value descriptors (index - 1)) (\<lambda>(_, key_start).
          Inr (Option.bind (get_slice_opt key_bytes (unat key_start) (unat key_end)) (\<lambda>raw.
            map_option (\<lambda>source_key. \<lparr>ri_mapping_id = mapping_id, ri_source_key = source_key\<rparr>) (from_utf8 raw))))))))"

definition matches_identity :: "relationship_identity \<Rightarrow> relationship_identity option \<Rightarrow> bool" where
  "matches_identity ident slot \<longleftrightarrow> slot = Some ident"

text \<open>\<open>find_map\<close> over the positions, in order.\<close>

definition mapped_find_id :: "mapped_identities \<Rightarrow> relationship_identity \<Rightarrow> relationship_id option graph_result" where
  "mapped_find_id m ident =
     rbind (find_r (\<lambda>index. rbind (mapped_identity_get m (word_of_nat index)) (\<lambda>slot. Inr (matches_identity ident slot)))
       [1..<mi_len m]) (\<lambda>hit. Inr (map_option word_of_nat hit))"

definition identity_len :: "identity_store \<Rightarrow> usize" where
  "identity_len s =
     (case s of OwnedIds slots \<Rightarrow> length slots | MappedIds m \<Rightarrow> mi_len m
      | LayeredIds m overlay \<Rightarrow> saturating_add_usize (mi_len m) (length overlay))"

definition identity_get :: "identity_store \<Rightarrow> relationship_id \<Rightarrow> relationship_identity option graph_result" where
  "identity_get s rid =
     (case s of
        OwnedIds slots \<Rightarrow> Inr (Option.bind (get_opt slots (unat rid)) (\<lambda>slot. slot))
      | MappedIds m \<Rightarrow> mapped_identity_get m rid
      | LayeredIds m overlay \<Rightarrow>
          if unat rid < mi_len m then mapped_identity_get m rid else Inr (get_opt overlay (unat rid - mi_len m)))"

text \<open>The first position of the list where the predicate holds, if any.\<close>

definition find_position :: "('a \<Rightarrow> bool) \<Rightarrow> 'a list \<Rightarrow> nat option" where
  "find_position p xs = List.find (\<lambda>i. p (xs ! i)) [0..<length xs]"

definition rel_id_try_from :: "usize \<Rightarrow> relationship_id option" where
  "rel_id_try_from n = (if n < 2 ^ 32 then Some (word_of_nat n) else None)"

definition identity_find_id :: "identity_store \<Rightarrow> relationship_identity \<Rightarrow> relationship_id option graph_result" where
  "identity_find_id s ident =
     (case s of
        OwnedIds slots \<Rightarrow>
          Inr (Option.bind (List.find (\<lambda>i. matches_identity ident (slots ! i)) [1..<length slots]) rel_id_try_from)
      | MappedIds m \<Rightarrow> mapped_find_id m ident
      | LayeredIds m overlay \<Rightarrow>
          rbind (mapped_find_id m ident) (\<lambda>hit. case hit of
            Some rid \<Rightarrow> Inr (Some rid)
          | None \<Rightarrow>
              Inr (Option.bind (find_position (\<lambda>x. x = ident) overlay) (\<lambda>offset.
                Option.bind (checked_add_usize (mi_len m) offset) rel_id_try_from))))"

section \<open>Writing\<close>

definition check_slot :: "usize \<times> relationship_identity option \<Rightarrow> relationship_identity set \<Rightarrow> relationship_identity set graph_result" where
  "check_slot e seen =
     rbind (ok_or (corrupt (''relationship identity slot '' @ show_nat (fst e) @ '' is empty'')) (snd e)) (\<lambda>ident.
     if ri_mapping_id ident = 0 \<or> ident \<in> seen then
       Inl (corrupt (''relationship identity slot '' @ show_nat (fst e) @ '' is invalid or duplicated''))
     else Inr (insert ident seen))"

definition identities_try_from_owned :: "relationship_identity option list \<Rightarrow> identity_store graph_result" where
  "identities_try_from_owned slots =
     (if (case slots of [] \<Rightarrow> True | s # _ \<Rightarrow> s \<noteq> None) then
        Inl (corrupt ''relationship identity store must reserve empty slot zero'')
      else if length slots > 4294967295 then Inl (corrupt ''relationship identity count exceeds u32'')
      else rbind (fold_r check_slot (drop 1 (zip [0..<length slots] slots)) {}) (\<lambda>_. Inr (OwnedIds slots)))"

definition push_identity :: "identity_store \<Rightarrow> relationship_identity \<Rightarrow> identity_store" where
  "push_identity s ident =
     (case s of OwnedIds slots \<Rightarrow> OwnedIds (slots @ [Some ident]) | MappedIds m \<Rightarrow> LayeredIds m [ident]
      | LayeredIds m overlay \<Rightarrow> LayeredIds m (overlay @ [ident]))"

definition push_or_intern :: "identity_store \<Rightarrow> relationship_identity \<Rightarrow> (identity_store \<times> relationship_id) graph_result" where
  "push_or_intern s ident =
     (if ri_mapping_id ident = 0 then Inl (corrupt ''relationship identity mapping ID must be nonzero'')
      else
        rbind (identity_find_id s ident) (\<lambda>hit. case hit of
          Some rid \<Rightarrow> Inr (s, rid)
        | None \<Rightarrow>
            rbind (ok_or (Err (Internal ''relationship identity ID space exhausted'')) (rel_id_try_from (identity_len s)))
              (\<lambda>rid. Inr (push_identity s ident, rid))))"

definition dense_suffix :: "relationship_identity option list \<Rightarrow> usize \<Rightarrow> relationship_identity list graph_result" where
  "dense_suffix slots start =
     rbind (ok_or (corrupt ''relationship identity suffix starts outside dictionary'')
       (if start \<le> length slots then Some (drop start slots) else None)) (\<lambda>suffix.
     map_r (\<lambda>(offset, slot). ok_or (corrupt (''relationship identity overlay slot '' @
         show_nat (saturating_add_usize start offset) @ '' is empty'')) slot) (zip [0..<length suffix] suffix))"

definition overlay_or_mapped :: "mapped_identities \<Rightarrow> relationship_identity option list \<Rightarrow> identity_store graph_result" where
  "overlay_or_mapped m slots =
     rbind (dense_suffix slots (mi_len m)) (\<lambda>overlay. Inr (if overlay = [] then MappedIds m else LayeredIds m overlay))"

definition install_cumulative_owned :: "identity_store \<Rightarrow> relationship_identity option list \<Rightarrow> identity_store graph_result" where
  "install_cumulative_owned s slots =
     rbind (if length slots < identity_len s then Inr True
            else rbind (find_r (\<lambda>i. rbind (identity_get s (word_of_nat i)) (\<lambda>slot. rbind (index_r slots i) (\<lambda>new. Inr (slot \<noteq> new))))
                [0..<identity_len s]) (\<lambda>hit. Inr (hit \<noteq> None))) (\<lambda>bad.
     if bad then Inl (corrupt ''relationship identity dictionary does not extend the active store'')
     else case s of
       OwnedIds _ \<Rightarrow> identities_try_from_owned slots
     | MappedIds m \<Rightarrow> overlay_or_mapped m slots
     | LayeredIds m _ \<Rightarrow> overlay_or_mapped m slots)"

definition default_identities :: identity_store where
  "default_identities = OwnedIds [None]"

section \<open>The list of slots\<close>

definition descriptor_mapping :: "u8 list \<Rightarrow> nat \<Rightarrow> u64" where
  "descriptor_mapping ds i = le_word (slice (i * 16) (i * 16 + 8) ds)"

definition descriptor_end :: "u8 list \<Rightarrow> nat \<Rightarrow> nat" where
  "descriptor_end ds i = unat (le_word (slice (i * 16 + 8) (i * 16 + 16) ds) :: u64)"

definition section_identity :: "u8 list \<Rightarrow> u8 list \<Rightarrow> nat \<Rightarrow> relationship_identity" where
  "section_identity ds ks i =
     \<lparr>ri_mapping_id = descriptor_mapping ds i, ri_source_key = slice (descriptor_end ds (i - 1)) (descriptor_end ds i) ks\<rparr>"

definition mapped_ids :: "mapped_identities \<Rightarrow> relationship_identity list" where
  "mapped_ids m =
     map (section_identity (range_bytes (mi_bytes m) (mi_descriptors_range m)) (range_bytes (mi_bytes m) (mi_key_bytes_range m)))
       [1..<mi_len m]"

definition mapped_identities_ok :: "mapped_identities \<Rightarrow> bool" where
  "mapped_identities_ok m \<longleftrightarrow>
     (let ds = range_bytes (mi_bytes m) (mi_descriptors_range m); ks = range_bytes (mi_bytes m) (mi_key_bytes_range m) in
      identity_range_in_mapping (mi_descriptors_range m) (length (mi_bytes m)) \<and> identity_range_in_mapping (mi_key_bytes_range m) (length (mi_bytes m)) \<and>
      length ds = 16 * mi_len m \<and> length ds \<le> usize_max \<and> 0 < mi_len m \<and> mi_len m < 2 ^ 32 \<and>
      (\<forall>i. 0 < i \<and> i < mi_len m \<longrightarrow> descriptor_end ds (i - 1) \<le> descriptor_end ds i \<and> descriptor_end ds i \<le> length ks \<and>
         utf8_ok (slice (descriptor_end ds (i - 1)) (descriptor_end ds i) ks)))"

text \<open>The identities of a store in the order of their ids, which start at one.\<close>

definition store_ids :: "identity_store \<Rightarrow> relationship_identity list" where
  "store_ids s =
     (case s of OwnedIds slots \<Rightarrow> map the (tl slots) | MappedIds m \<Rightarrow> mapped_ids m | LayeredIds m overlay \<Rightarrow> mapped_ids m @ overlay)"

definition ids_ok :: "relationship_identity list \<Rightarrow> bool" where
  "ids_ok ids \<longleftrightarrow> distinct ids \<and> (\<forall>x\<in>set ids. ri_mapping_id x \<noteq> 0) \<and> length ids < 2 ^ 32"

definition identity_store_ok :: "identity_store \<Rightarrow> bool" where
  "identity_store_ok s \<longleftrightarrow>
     ids_ok (store_ids s) \<and>
     (case s of OwnedIds slots \<Rightarrow> \<exists>ids. slots = None # map Some ids
      | MappedIds m \<Rightarrow> mapped_identities_ok m | LayeredIds m overlay \<Rightarrow> mapped_identities_ok m)"

lemma descriptor_value_exact:
  assumes "i < n" "length ds = 16 * n" "length ds \<le> usize_max"
  shows "descriptor_value ds i = Inr (descriptor_mapping ds i, le_word (slice (i * 16 + 8) (i * 16 + 16) ds))"
proof -
  have "i * 16 + 16 \<le> length ds" using assms by simp
  then show ?thesis using assms(3)
    by (simp add: descriptor_value_def IDENTITY_DESCRIPTOR_SIZE_def checked_mul_usize_def checked_add_usize_def get_slice_opt_def
        slice_slice descriptor_mapping_def)
qed

text \<open>Validation establishes it.\<close>

lemma checked_descriptor:
  assumes "length ds = 16 * n" "length ds \<le> usize_max" "i < n"
    and "checked P (f (descriptor_mapping ds i, le_word (slice (i * 16 + 8) (i * 16 + 16) ds)))"
  shows "checked P (rbind (descriptor_value ds i) f)"
  using assms by (simp add: descriptor_value_exact)

definition scanned :: "u8 list \<Rightarrow> u8 list \<Rightarrow> nat list \<Rightarrow> identity_scan \<Rightarrow> bool" where
  "scanned ds ks is s \<longleftrightarrow>
     fst s = (if is = [] then 0 else descriptor_end ds (last is)) \<and>
     snd s = (\<lambda>i. (ri_mapping_id (section_identity ds ks i), ri_source_key (section_identity ds ks i))) ` set is \<and>
     distinct (map (section_identity ds ks) is) \<and>
     (\<forall>i\<in>set is. descriptor_mapping ds i \<noteq> 0 \<and> descriptor_end ds (i - 1) \<le> descriptor_end ds i \<and>
        descriptor_end ds i \<le> length ks \<and> utf8_ok (ri_source_key (section_identity ds ks i)))"

lemma scanned_snoc:
  assumes "scanned ds ks is s" "(descriptor_mapping ds i, ri_source_key (section_identity ds ks i)) \<notin> snd s"
    "descriptor_mapping ds i \<noteq> 0" "descriptor_end ds (i - 1) \<le> descriptor_end ds i" "descriptor_end ds i \<le> length ks"
    "utf8_ok (ri_source_key (section_identity ds ks i))"
  shows "scanned ds ks (is @ [i]) (descriptor_end ds i, insert (descriptor_mapping ds i, ri_source_key (section_identity ds ks i)) (snd s))"
proof -
  have m: "ri_mapping_id (section_identity ds ks i) = descriptor_mapping ds i" by (simp add: section_identity_def)
  have "section_identity ds ks i \<notin> section_identity ds ks ` set is"
  proof
    assume "section_identity ds ks i \<in> section_identity ds ks ` set is"
    then obtain j where j: "j \<in> set is" "section_identity ds ks i = section_identity ds ks j" by blast
    from assms(1) j(1) have "(ri_mapping_id (section_identity ds ks j), ri_source_key (section_identity ds ks j)) \<in> snd s"
      by (auto simp: scanned_def)
    with assms(2) show False unfolding j(2) [symmetric] m by simp
  qed
  with assms show ?thesis by (simp add: scanned_def m)
qed

lemma checked_scan:
  assumes ds: "length ds = 16 * n" "length ds \<le> usize_max" and zero: "descriptor_end ds 0 = 0"
  shows "checked (scanned ds ks [1..<n]) (fold_r (scan_identity ds ks) [1..<n] (0, {}))"
proof (rule checked_fold)
  show "scanned ds ks [] (0, {})" by (simp add: scanned_def)
  fix pre i post s assume split: "[1..<n] = pre @ i # post" and pre: "scanned ds ks pre s"
  have i: "i = length pre + 1" "i < n" and at: "pre = [1..<i]"
  proof -
    have "length pre < length [1..<n]" using split by simp
    then have "[1..<n] ! length pre = 1 + length pre" by simp
    moreover have "[1..<n] ! length pre = i" using split by simp
    ultimately show i: "i = length pre + 1" by simp
    with \<open>length pre < length [1..<n]\<close> show "i < n" by simp
    have "take (length pre) [1..<n] = pre" using split by simp
    then show "pre = [1..<i]" using i \<open>i < n\<close> by (simp add: take_upt)
  qed
  have prev: "fst s = descriptor_end ds (i - 1)"
  proof (cases "i = 1")
    case True
    then have "pre = []" using i(1) by simp
    with pre zero True show ?thesis by (simp add: scanned_def)
  next
    case False
    then have "pre \<noteq> []" using i(1) by auto
    moreover from this have "last pre = i - 1" unfolding at by simp
    ultimately show ?thesis using pre by (simp add: scanned_def)
  qed
  show "checked (scanned ds ks (pre @ [i])) (scan_identity ds ks i s)"
    unfolding scan_identity_def Let_def
  proof (rule checked_descriptor [OF ds i(2)], unfold prod.case, intro checked_if checked_corrupt)
    let ?e = "le_word (slice (i * 16 + 8) (i * 16 + 16) ds) :: u64"
    assume m: "descriptor_mapping ds i \<noteq> 0" and "\<not> (unat ?e < fst s \<or> length ks < unat ?e)"
    then have e: "descriptor_end ds (i - 1) \<le> descriptor_end ds i" "descriptor_end ds i \<le> length ks"
      by (simp_all add: prev descriptor_end_def)
    have key: "slice (fst s) (unat ?e) ks = ri_source_key (section_identity ds ks i)"
      by (simp add: section_identity_def prev descriptor_end_def)
    show "checked (scanned ds ks (pre @ [i])) (rbind (slice_r ks (fst s) (unat ?e)) (\<lambda>raw.
        rbind (ok_or (corrupt (''relationship identity key '' @ show_nat i @ '' is not UTF-8'')) (from_utf8 raw)) (\<lambda>source_key.
        if (descriptor_mapping ds i, source_key) \<in> snd s then
          Inl (corrupt (''relationship identity descriptor '' @ show_nat i @ '' duplicates an earlier identity''))
        else Inr (unat ?e, insert (descriptor_mapping ds i, source_key) (snd s)))))"
    proof (rule checked_bind_slice)
      show "fst s \<le> unat ?e" "unat ?e \<le> length ks" using e by (simp_all add: prev descriptor_end_def)
      show "checked (scanned ds ks (pre @ [i]))
         (rbind (ok_or (corrupt (''relationship identity key '' @ show_nat i @ '' is not UTF-8'')) (from_utf8 (slice (fst s) (unat ?e) ks)))
           (\<lambda>source_key. if (descriptor_mapping ds i, source_key) \<in> snd s
             then Inl (corrupt (''relationship identity descriptor '' @ show_nat i @ '' duplicates an earlier identity''))
             else Inr (unat ?e, insert (descriptor_mapping ds i, source_key) (snd s))))"
        unfolding key
      proof (intro checked_bind_ok_or checked_if checked_corrupt)
        fix source_key
        assume "from_utf8 (ri_source_key (section_identity ds ks i)) = Some source_key"
        then have u: "utf8_ok (ri_source_key (section_identity ds ks i))" "source_key = ri_source_key (section_identity ds ks i)"
          by (simp_all add: from_utf8_def split: if_splits)
        assume "(descriptor_mapping ds i, source_key) \<notin> snd s"
        from scanned_snoc [OF pre this [unfolded u(2)] m e u(1)]
        show "checked (scanned ds ks (pre @ [i])) (Inr (unat ?e, insert (descriptor_mapping ds i, source_key) (snd s)))"
          by (simp add: u(2) descriptor_end_def)
      qed
    qed
  qed
qed

lemma checked_mapped_new:
  assumes len: "length bytes \<le> usize_max"
  shows "checked (\<lambda>m. mi_bytes m = bytes \<and> mi_descriptors_range m = dr \<and> mi_key_bytes_range m = kr \<and>
      mapped_identities_ok m \<and> ids_ok (mapped_ids m))
    (mapped_identities_new bytes dr kr)"
  unfolding mapped_identities_new_def Let_def
proof (rule checked_if, simp, rule checked_if, simp)
  let ?ds = "range_bytes bytes dr" and ?ks = "range_bytes bytes kr" and ?n = "range_len dr div IDENTITY_DESCRIPTOR_SIZE"
  assume layout: "\<not> (\<not> identity_range_in_mapping dr (length bytes) \<or> \<not> identity_range_in_mapping kr (length bytes) \<or>
      identity_ranges_overlap dr kr \<or> range_len dr < IDENTITY_DESCRIPTOR_SIZE \<or> range_len dr mod IDENTITY_DESCRIPTOR_SIZE \<noteq> 0)"
    and count: "\<not> 4294967295 < ?n"
  from layout have r: "fst dr \<le> snd dr" "snd dr \<le> length bytes" "fst kr \<le> snd kr" "snd kr \<le> length bytes"
    by (simp_all add: identity_range_in_mapping_def)
  have ds: "length ?ds = 16 * ?n" "length ?ds \<le> usize_max" "0 < ?n"
    using layout r len by (auto simp: range_bytes_def slice_def range_len_def IDENTITY_DESCRIPTOR_SIZE_def mod_eq_0_iff_dvd
        dvd_mult_div_cancel div_greater_zero_iff)
  have rd: "slice_range_r bytes dr = Inr ?ds" "slice_range_r bytes kr = Inr ?ks"
    using r by (simp_all add: slice_range_r_def range_bytes_def)
  show "checked (\<lambda>m. mi_bytes m = bytes \<and> mi_descriptors_range m = dr \<and> mi_key_bytes_range m = kr \<and>
      mapped_identities_ok m \<and> ids_ok (mapped_ids m))
    (rbind (slice_range_r bytes dr) (\<lambda>descriptors. rbind (slice_range_r bytes kr) (\<lambda>key_bytes.
      rbind (descriptor_value descriptors 0) (\<lambda>zero.
        if zero \<noteq> (0, 0) then Inl (corrupt ''relationship identity descriptor zero must be empty'')
        else rbind (fold_r (scan_identity descriptors key_bytes) [1..<?n] (0, {})) (\<lambda>(previous_end, _).
          if previous_end \<noteq> length key_bytes then
            Inl (corrupt ''relationship identity descriptors do not span the key section'')
          else Inr \<lparr>mi_bytes = bytes, mi_descriptors_range = dr, mi_key_bytes_range = kr, mi_len = ?n\<rparr>)))))"
    unfolding rd rbind_Inr
  proof (rule checked_descriptor [OF ds(1,2,3)], rule checked_if, simp)
    assume "\<not> (descriptor_mapping ?ds 0, le_word (slice (0 * 16 + 8) (0 * 16 + 16) ?ds)) \<noteq> (0 :: u64, 0 :: u64)"
    then have zero: "descriptor_end ?ds 0 = 0" by (simp add: descriptor_end_def)
    show "checked (\<lambda>m. mi_bytes m = bytes \<and> mi_descriptors_range m = dr \<and> mi_key_bytes_range m = kr \<and>
        mapped_identities_ok m \<and> ids_ok (mapped_ids m))
      (rbind (fold_r (scan_identity ?ds ?ks) [1..<?n] (0, {})) (\<lambda>(previous_end, _).
          if previous_end \<noteq> length ?ks then
            Inl (corrupt ''relationship identity descriptors do not span the key section'')
          else Inr \<lparr>mi_bytes = bytes, mi_descriptors_range = dr, mi_key_bytes_range = kr, mi_len = ?n\<rparr>))"
    proof (rule checked_bind [OF checked_scan [OF ds(1,2) zero]])
      fix s assume s: "scanned ?ds ?ks [1..<?n] s"
      let ?m = "\<lparr>mi_bytes = bytes, mi_descriptors_range = dr, mi_key_bytes_range = kr, mi_len = ?n\<rparr>"
      have "mapped_identities_ok ?m"
        using s ds r count by (auto simp: mapped_identities_ok_def Let_def scanned_def identity_range_in_mapping_def section_identity_def)
      moreover have "ids_ok (mapped_ids ?m)"
        using s count by (auto simp: ids_ok_def mapped_ids_def scanned_def section_identity_def)
      ultimately show "checked (\<lambda>m. mi_bytes m = bytes \<and> mi_descriptors_range m = dr \<and> mi_key_bytes_range m = kr \<and>
          mapped_identities_ok m \<and> ids_ok (mapped_ids m))
        (case s of (previous_end, _) \<Rightarrow> if previous_end \<noteq> length ?ks then
            Inl (corrupt ''relationship identity descriptors do not span the key section'') else Inr ?m)"
        by (cases s) simp
    qed
  qed
qed

section \<open>Reading\<close>

lemma length_mapped_ids: "length (mapped_ids m) = mi_len m - 1"
  by (simp add: mapped_ids_def)

lemma mapped_get_exact:
  assumes ok: "mapped_identities_ok m"
  shows "mapped_identity_get m rid = Inr (if rid = 0 then None else get_opt (mapped_ids m) (unat rid - 1))"
proof (cases "rid = 0 \<or> mi_len m \<le> unat rid")
  case True
  then show ?thesis by (auto simp: mapped_identity_get_def get_opt_def length_mapped_ids)
next
  case False
  then have pos: "0 < unat rid" and lt: "unat rid < mi_len m" by (simp_all add: unat_gt_0)
  let ?ds = "range_bytes (mi_bytes m) (mi_descriptors_range m)" and ?ks = "range_bytes (mi_bytes m) (mi_key_bytes_range m)"
  note ok = ok [unfolded mapped_identities_ok_def Let_def]
  have rd: "slice_range_r (mi_bytes m) (mi_descriptors_range m) = Inr ?ds"
    "slice_range_r (mi_bytes m) (mi_key_bytes_range m) = Inr ?ks"
    using ok by (simp_all add: slice_range_r_def range_bytes_def identity_range_in_mapping_def)
  have "unat rid - 1 < mi_len m" using lt by simp
  note dv = descriptor_value_exact [of _ "mi_len m" ?ds, OF _ ok [THEN conjunct2, THEN conjunct2, THEN conjunct1]]
  have at: "descriptor_value ?ds (unat rid) = Inr (descriptor_mapping ?ds (unat rid), le_word (slice (unat rid * 16 + 8) (unat rid * 16 + 16) ?ds))"
    "descriptor_value ?ds (unat rid - 1) =
      Inr (descriptor_mapping ?ds (unat rid - 1), le_word (slice ((unat rid - 1) * 16 + 8) ((unat rid - 1) * 16 + 16) ?ds))"
    using ok lt by (auto intro!: dv)
  have e: "descriptor_end ?ds (unat rid - 1) \<le> descriptor_end ?ds (unat rid)" "descriptor_end ?ds (unat rid) \<le> length ?ks"
    "utf8_ok (slice (descriptor_end ?ds (unat rid - 1)) (descriptor_end ?ds (unat rid)) ?ks)"
    using ok lt pos by auto
  have "mapped_identity_get m rid = Inr (Some (section_identity ?ds ?ks (unat rid)))"
    unfolding mapped_identity_get_def Let_def rd rbind_Inr at ok_then_def sum.case prod.case
    using False pos lt e by (simp add: get_slice_opt_def from_utf8_def section_identity_def flip: descriptor_end_def)
  then show ?thesis using pos lt by (auto simp: get_opt_def length_mapped_ids mapped_ids_def)
qed

lemma owned_slots:
  assumes "identity_store_ok (OwnedIds slots)"
  shows "slots = None # map Some (store_ids (OwnedIds slots))"
  using assms by (auto simp: identity_store_ok_def store_ids_def comp_def)

lemma store_len:
  assumes "identity_store_ok s"
  shows "identity_len s = Suc (length (store_ids s))"
proof (cases s)
  case (OwnedIds slots)
  from arg_cong [OF owned_slots [OF assms [unfolded OwnedIds]], of length]
  have "length slots = Suc (length (store_ids (OwnedIds slots)))" by simp
  then show ?thesis unfolding OwnedIds identity_len_def identity_store.case .
next
  case (LayeredIds m overlay)
  with assms have "mapped_identities_ok m" and "length (mapped_ids m @ overlay) < 2 ^ 32"
    by (simp_all add: identity_store_ok_def ids_ok_def store_ids_def)
  then have "0 < mi_len m" "mi_len m - 1 + length overlay < 2 ^ 32"
    by (simp_all add: mapped_identities_ok_def Let_def length_mapped_ids)
  then have "mi_len m + length overlay \<le> usize_max" by (simp add: usize_max_def)
  then have "saturating_add_usize (mi_len m) (length overlay) = mi_len m + length overlay"
    by (simp only: saturating_add_usize_def min_absorb2)
  with LayeredIds \<open>0 < mi_len m\<close> show ?thesis by (simp add: identity_len_def store_ids_def length_mapped_ids)
qed (use assms in \<open>simp add: identity_store_ok_def mapped_identities_ok_def Let_def identity_len_def store_ids_def length_mapped_ids\<close>)

lemma identity_get_exact:
  assumes ok: "identity_store_ok s"
  shows "identity_get s rid = Inr (if rid = 0 then None else get_opt (store_ids s) (unat rid - 1))"
proof (cases s)
  case (OwnedIds slots)
  obtain ids where ids: "slots = None # map Some ids" "store_ids s = ids"
    using owned_slots ok OwnedIds by blast
  have "identity_get s rid = Inr (Option.bind (get_opt (None # map Some ids) (unat rid)) (\<lambda>slot. slot))"
    using OwnedIds ids(1) by (simp add: identity_get_def)
  then show ?thesis unfolding ids(2) by (cases "unat rid") (auto simp: get_opt_def unat_eq_0)
next
  case (MappedIds m)
  with ok mapped_get_exact [of m rid] show ?thesis by (simp add: identity_get_def identity_store_ok_def store_ids_def)
next
  case (LayeredIds m overlay)
  with ok have m: "mapped_identities_ok m" and pos: "0 < mi_len m"
    by (simp_all add: identity_store_ok_def mapped_identities_ok_def Let_def)
  show ?thesis
  proof (cases "unat rid < mi_len m")
    case True
    with LayeredIds mapped_get_exact [OF m, of rid] pos show ?thesis
      by (cases "unat rid") (auto simp: identity_get_def store_ids_def get_opt_def nth_append length_mapped_ids unat_eq_0)
  next
    case False
    then have "rid \<noteq> 0" "\<not> unat rid - 1 < mi_len m - 1" "unat rid - 1 - (mi_len m - 1) = unat rid - mi_len m"
      "unat rid - 1 < mi_len m - 1 + length overlay \<longleftrightarrow> unat rid - mi_len m < length overlay" using pos by auto
    with LayeredIds False show ?thesis
      by (simp add: identity_get_def store_ids_def get_opt_def nth_append length_mapped_ids)
  qed
qed

section \<open>Lookup by identity\<close>

text \<open>The answer a search must give: the id of the identity, or a proof that there is none.\<close>

definition names_identity :: "relationship_identity list \<Rightarrow> relationship_identity \<Rightarrow> relationship_id option \<Rightarrow> bool" where
  "names_identity ids ident r \<longleftrightarrow>
     (case r of Some rid \<Rightarrow> rid \<noteq> 0 \<and> get_opt ids (unat rid - 1) = Some ident | None \<Rightarrow> ident \<notin> set ids)"

lemma find_member: "List.find q xs = Some x \<Longrightarrow> x \<in> set xs \<and> q x"
  by (induction xs) (auto split: if_splits)

lemma find_nowhere: "List.find q xs = None \<Longrightarrow> x \<in> set xs \<Longrightarrow> \<not> q x"
  by (auto simp: find_None_iff)

lemma unat_rel_id: "n < 2 ^ 32 \<Longrightarrow> unat (word_of_nat n :: relationship_id) = n"
  by (simp add: unat_of_nat)

lemma find_slot:
  assumes len: "length ids < 2 ^ 32"
  shows "names_identity ids ident (map_option word_of_nat (List.find (\<lambda>i. ids ! (i - 1) = ident) [1..<Suc (length ids)]))"
proof (cases "List.find (\<lambda>i. ids ! (i - 1) = ident) [1..<Suc (length ids)]")
  case None
  have "ids ! k \<noteq> ident" if "k < length ids" for k
    using find_nowhere [OF None, of "Suc k"] that by (auto simp del: upt_Suc)
  then have "ident \<notin> set ids" by (auto simp: in_set_conv_nth)
  with None show ?thesis by (simp add: names_identity_def)
next
  case (Some i)
  from find_member [OF Some] have i: "1 \<le> i" "i \<le> length ids" "ids ! (i - 1) = ident" by auto
  then have "unat (word_of_nat i :: relationship_id) = i" using len by (intro unat_rel_id) simp
  moreover from this i have "(word_of_nat i :: relationship_id) \<noteq> 0" by (metis not_one_le_zero unat_0)
  ultimately show ?thesis using Some i by (simp add: names_identity_def get_opt_def)
qed

lemma mapped_find_exact:
  assumes ok: "mapped_identities_ok m"
  shows "\<exists>r. mapped_find_id m ident = Inr r \<and> names_identity (mapped_ids m) ident r"
proof -
  have len: "mi_len m = Suc (length (mapped_ids m))" "length (mapped_ids m) < 2 ^ 32"
    using ok by (auto simp: length_mapped_ids mapped_identities_ok_def Let_def)
  have at: "mapped_identity_get m (word_of_nat i) = Inr (Some (mapped_ids m ! (i - 1)))" if "i \<in> set [1..<mi_len m]" for i
  proof -
    have "i < 2 ^ 32" using that len by auto
    then have "unat (word_of_nat i :: relationship_id) = i" by (rule unat_rel_id)
    moreover from this that have "(word_of_nat i :: relationship_id) \<noteq> 0" by (metis atLeastLessThan_iff not_one_le_zero set_upt unat_0)
    ultimately show ?thesis using that len by (auto simp: mapped_get_exact [OF ok] get_opt_def simp del: upt_Suc)
  qed
  have "find_r (\<lambda>i. rbind (mapped_identity_get m (word_of_nat i)) (\<lambda>slot. Inr (matches_identity ident slot))) [1..<mi_len m] =
      Inr (List.find (\<lambda>i. mapped_ids m ! (i - 1) = ident) [1..<mi_len m])"
    by (rule find_r_pure) (simp add: at matches_identity_def)
  with find_slot [OF len(2), of ident] show ?thesis by (simp add: mapped_find_id_def len(1))
qed

lemma find_position_exact: "case find_position p xs of Some i \<Rightarrow> i < length xs \<and> p (xs ! i) | None \<Rightarrow> \<forall>x\<in>set xs. \<not> p x"
proof (cases "find_position p xs")
  case None
  from find_nowhere [OF None [unfolded find_position_def]] show ?thesis unfolding None by (auto simp: in_set_conv_nth)
next
  case (Some i)
  from find_member [OF Some [unfolded find_position_def]] show ?thesis unfolding Some by simp
qed

lemma identity_find_exact:
  assumes ok: "identity_store_ok s"
  shows "\<exists>r. identity_find_id s ident = Inr r \<and> names_identity (store_ids s) ident r"
proof (cases s)
  case (OwnedIds slots)
  let ?ids = "store_ids s"
  have slots: "slots = None # map Some ?ids" using owned_slots ok OwnedIds by simp
  have len: "length ?ids < 2 ^ 32" using ok by (simp add: identity_store_ok_def ids_ok_def)
  have same: "List.find (\<lambda>i. matches_identity ident ((None # map Some ?ids) ! i)) [1..<Suc (length ?ids)] =
      List.find (\<lambda>i. ?ids ! (i - 1) = ident) [1..<Suc (length ?ids)]"
    by (rule find_cong [OF refl]) (auto simp: matches_identity_def nth_Cons')
  have small: "Option.bind (List.find q [1..<Suc (length ?ids)]) rel_id_try_from = map_option word_of_nat (List.find q [1..<Suc (length ?ids)])" for q
  proof (cases "List.find q [1..<Suc (length ?ids)]")
    case (Some i)
    from find_member [OF Some] len have "i < 2 ^ 32" by auto
    with Some show ?thesis by (simp add: rel_id_try_from_def)
  qed simp
  have "identity_find_id s ident = Inr (map_option word_of_nat (List.find (\<lambda>i. ?ids ! (i - 1) = ident) [1..<Suc (length ?ids)]))"
  proof -
    have "identity_find_id s ident = Inr (Option.bind (List.find (\<lambda>i. matches_identity ident (slots ! i)) [1..<length slots]) rel_id_try_from)"
      by (simp only: OwnedIds identity_find_id_def identity_store.case)
    also have "\<dots> = Inr (map_option word_of_nat (List.find (\<lambda>i. ?ids ! (i - 1) = ident) [1..<Suc (length ?ids)]))"
      unfolding arg_cong [OF slots, of length, unfolded list.size length_map add_0_right plus_1_eq_Suc add_Suc_right]
      by (subst slots) (simp only: same small)
    finally show ?thesis .
  qed
  with find_slot [OF len] show ?thesis by blast
next
  case (MappedIds m)
  with ok mapped_find_exact [of m ident] show ?thesis by (simp add: identity_find_id_def identity_store_ok_def store_ids_def)
next
  case (LayeredIds m overlay)
  with ok have m: "mapped_identities_ok m" and len: "length (mapped_ids m @ overlay) < 2 ^ 32"
    by (simp_all add: identity_store_ok_def ids_ok_def store_ids_def)
  have n: "mi_len m = Suc (length (mapped_ids m))" using m by (auto simp: length_mapped_ids mapped_identities_ok_def Let_def)
  obtain r where r: "mapped_find_id m ident = Inr r" "names_identity (mapped_ids m) ident r" using mapped_find_exact [OF m] by blast
  show ?thesis
  proof (cases r)
    case (Some rid)
    with r LayeredIds show ?thesis
      by (auto simp: identity_find_id_def store_ids_def names_identity_def get_opt_def nth_append split: if_splits)
  next
    case None
    then have new: "ident \<notin> set (mapped_ids m)" using r by (simp add: names_identity_def)
    show ?thesis
    proof (cases "find_position (\<lambda>x. x = ident) overlay")
      case none: None
      with find_position_exact [where p = "\<lambda>x. x = ident" and xs = overlay] new have "names_identity (store_ids s) ident None"
        using LayeredIds by (auto simp: names_identity_def store_ids_def)
      with none None r LayeredIds show ?thesis by (simp add: identity_find_id_def)
    next
      case (Some k)
      with find_position_exact [where p = "\<lambda>x. x = ident" and xs = overlay] have k: "k < length overlay" "overlay ! k = ident" by simp_all
      let ?i = "Suc (length (mapped_ids m) + k)"
      have "?i < 2 ^ 32" using k len by simp
      then have t: "rel_id_try_from ?i = Some (word_of_nat ?i)" "checked_add_usize (mi_len m) k = Some ?i"
        "unat (word_of_nat ?i :: relationship_id) = ?i"
        by (simp_all add: rel_id_try_from_def checked_add_usize_def usize_max_def n unat_of_nat del: of_nat_Suc)
      have "(word_of_nat ?i :: relationship_id) \<noteq> 0" using t(3) by (metis nat.distinct(1) unat_0)
      then have "names_identity (store_ids s) ident (Some (word_of_nat ?i))"
        using k t(3) LayeredIds by (simp add: names_identity_def store_ids_def get_opt_def nth_append del: of_nat_Suc)
      moreover have "identity_find_id s ident = Inr (Some (word_of_nat ?i))"
        using LayeredIds None r Some t by (simp add: identity_find_id_def del: of_nat_Suc)
      ultimately show ?thesis by blast
    qed
  qed
qed

section \<open>Interning and installation\<close>

lemma push_slots:
  assumes ok: "identity_store_ok s" and new: "ids_ok (store_ids s @ [ident])"
  shows "identity_store_ok (push_identity s ident)" "store_ids (push_identity s ident) = store_ids s @ [ident]"
proof -
  show ids: "store_ids (push_identity s ident) = store_ids s @ [ident]"
    using ok by (cases s) (auto simp: push_identity_def store_ids_def identity_store_ok_def comp_def)
  have "\<exists>xs. slots @ [Some ident] = None # map Some xs" if "\<exists>ids. slots = None # map Some ids" for slots
    using that by (metis append_Cons list.simps(9) map_append list.simps(8))
  then show "identity_store_ok (push_identity s ident)"
    using ok new ids by (cases s) (simp_all add: identity_store_ok_def push_identity_def)
qed

lemma push_or_intern_step:
  assumes ok: "identity_store_ok s"
  shows "case push_or_intern s ident of
     Inl f \<Rightarrow> (\<exists>e. f = Err e) \<and> (ri_mapping_id ident = 0 \<or> ident \<notin> set (store_ids s) \<and> Suc (length (store_ids s)) = 2 ^ 32)
   | Inr (t, rid) \<Rightarrow>
       identity_store_ok t \<and> rid \<noteq> 0 \<and> get_opt (store_ids t) (unat rid - 1) = Some ident \<and>
       store_ids t = store_ids s @ (if ident \<in> set (store_ids s) then [] else [ident])"
proof -
  obtain r where r: "identity_find_id s ident = Inr r" "names_identity (store_ids s) ident r" using identity_find_exact [OF ok] by blast
  have small: "length (store_ids s) < 2 ^ 32" using ok by (simp add: identity_store_ok_def ids_ok_def)
  show ?thesis
  proof (cases "ri_mapping_id ident = 0 \<or> r \<noteq> None")
    case True
    then show ?thesis using r ok
      by (cases r) (auto simp: push_or_intern_def corrupt_def names_identity_def get_opt_def split: if_splits)
  next
    case False
    then have m: "ri_mapping_id ident \<noteq> 0" and none: "r = None" and new: "ident \<notin> set (store_ids s)"
      using r by (simp_all add: names_identity_def)
    show ?thesis
    proof (cases "Suc (length (store_ids s)) < 2 ^ 32")
      case True
      have "ids_ok (store_ids s @ [ident])" using ok m new True by (simp add: identity_store_ok_def ids_ok_def)
      note push = push_slots [OF ok this]
      have t: "unat (word_of_nat (Suc (length (store_ids s))) :: relationship_id) = Suc (length (store_ids s))"
        by (rule unat_rel_id [OF True])
      then have "(word_of_nat (Suc (length (store_ids s))) :: relationship_id) \<noteq> 0" by (metis nat.distinct(1) unat_0)
      with push t new True m none r show ?thesis
        by (simp add: push_or_intern_def store_len [OF ok] rel_id_try_from_def get_opt_def del: of_nat_Suc)
    next
      case False
      with small m none r new show ?thesis by (simp add: push_or_intern_def store_len [OF ok] rel_id_try_from_def)
    qed
  qed
qed

lemma map_r_present:
  "map_r (\<lambda>(offset, slot). ok_or (err offset) slot) (zip [n..<n + length xs] (map Some xs)) = Inr xs"
proof (induction xs arbitrary: n)
  case (Cons x xs)
  have "[n..<n + length (x # xs)] = n # [Suc n..<Suc n + length xs]" by (simp add: upt_conv_Cons del: upt_Suc)
  with Cons show ?case by (simp only: list.map zip_Cons_Cons map_r.simps prod.case ok_or_simps rbind_Inr)
qed simp

lemma dense_suffix_exact:
  "dense_suffix (None # map Some ids) (Suc k) =
    (if k \<le> length ids then Inr (drop k ids) else Inl (corrupt ''relationship identity suffix starts outside dictionary''))"
proof (cases "k \<le> length ids")
  case True
  let ?xs = "drop k ids"
  have "dense_suffix (None # map Some ids) (Suc k) = map_r (\<lambda>(offset, slot). ok_or (corrupt (''relationship identity overlay slot '' @
      show_nat (saturating_add_usize (Suc k) offset) @ '' is empty'')) slot) (zip [0..<0 + length ?xs] (map Some ?xs))"
    using True unfolding dense_suffix_def by (simp only: list.size length_map drop_Suc_Cons drop_map if_True ok_or_simps rbind_Inr
      add_0 Suc_le_mono length_drop add_Suc_right add_0_right)
  with True show ?thesis unfolding map_r_present by simp
qed (simp add: dense_suffix_def)

lemma extends_same:
  assumes ok: "identity_store_ok s" and len: "identity_len s \<le> length slots" and slots: "slots = None # map Some ids"
  shows "find_r (\<lambda>i. rbind (identity_get s (word_of_nat i)) (\<lambda>slot. rbind (index_r slots i) (\<lambda>new. Inr (slot \<noteq> new))))
      [0..<identity_len s] =
    Inr (List.find (\<lambda>i. i \<noteq> 0 \<and> store_ids s ! (i - 1) \<noteq> ids ! (i - 1)) [0..<identity_len s])"
proof (rule find_r_pure)
  fix i assume "i \<in> set [0..<identity_len s]"
  then have i: "i < Suc (length (store_ids s))" "i < length slots" using len by (auto simp: store_len [OF ok])
  have small: "length (store_ids s) < 2 ^ 32" using ok by (simp add: identity_store_ok_def ids_ok_def)
  have u: "unat (word_of_nat i :: relationship_id) = i" by (rule unat_rel_id) (use i small in simp)
  show "rbind (identity_get s (word_of_nat i)) (\<lambda>slot. rbind (index_r slots i) (\<lambda>new. Inr (slot \<noteq> new))) =
      Inr (i \<noteq> 0 \<and> store_ids s ! (i - 1) \<noteq> ids ! (i - 1))"
  proof (cases i)
    case 0
    then show ?thesis using i by (simp add: identity_get_exact [OF ok] slots)
  next
    case (Suc k)
    then have "(word_of_nat i :: relationship_id) \<noteq> 0" using u by (metis nat.distinct(1) unat_0)
    with Suc i u show ?thesis by (simp add: identity_get_exact [OF ok] slots get_opt_def del: of_nat_Suc)
  qed
qed

lemma prefix_differs:
  assumes "length xs \<le> length ys"
  shows "List.find (\<lambda>i. i \<noteq> 0 \<and> xs ! (i - 1) \<noteq> ys ! (i - 1)) [0..<Suc (length xs)] = None \<longleftrightarrow> take (length xs) ys = xs"
proof
  assume none: "List.find (\<lambda>i. i \<noteq> 0 \<and> xs ! (i - 1) \<noteq> ys ! (i - 1)) [0..<Suc (length xs)] = None"
  have "xs ! k = ys ! k" if "k < length xs" for k using find_nowhere [OF none, of "Suc k"] that by (auto simp del: upt_Suc)
  with assms show "take (length xs) ys = xs" by (intro nth_equalityI) auto
next
  assume t: "take (length xs) ys = xs"
  have eq: "xs ! k = ys ! k" if "k < length xs" for k by (subst t [symmetric]) (use that in simp)
  have "\<not> (i \<noteq> 0 \<and> xs ! (i - 1) \<noteq> ys ! (i - 1))" if "i < Suc (length xs)" for i
    using eq [of "i - 1"] that by (cases i) auto
  then show "List.find (\<lambda>i. i \<noteq> 0 \<and> xs ! (i - 1) \<noteq> ys ! (i - 1)) [0..<Suc (length xs)] = None"
    unfolding find_None_iff by (auto simp del: upt_Suc)
qed

lemma valid_slots:
  assumes "ids_ok ids" "length ids < 4294967295"
  shows "identities_try_from_owned (None # map Some ids) = Inr (OwnedIds (None # map Some ids))"
proof -
  have "\<exists>seen. fold_r check_slot (zip [n..<n + length xs] (map Some xs)) before = Inr seen"
    if "distinct xs" "set xs \<inter> before = {}" "\<forall>x\<in>set xs. ri_mapping_id x \<noteq> 0" for n xs before
    using that
  proof (induction xs arbitrary: n before)
    case (Cons x xs)
    have "[n..<n + length (x # xs)] = n # [Suc n..<Suc n + length xs]" by (simp add: upt_conv_Cons del: upt_Suc)
    moreover have "check_slot (n, Some x) before = Inr (insert x before)" using Cons.prems by (simp add: check_slot_def)
    ultimately show ?case using Cons.IH [of "insert x before" "Suc n"] Cons.prems by (simp del: upt_Suc)
  qed simp
  from this [of ids "{}" 1] assms(1) have "\<exists>seen. fold_r check_slot (zip [1..<1 + length ids] (map Some ids)) {} = Inr seen"
    by (simp add: ids_ok_def del: upt_Suc)
  moreover have "drop 1 (zip [0..<Suc (length ids)] (None # map Some ids)) = zip [1..<1 + length ids] (map Some ids)"
    by (simp add: upt_conv_Cons del: upt_Suc)
  ultimately show ?thesis using assms(2) by (auto simp: identities_try_from_owned_def simp del: upt_Suc)
qed

lemma overlay_or_mapped_exact:
  assumes m: "mapped_identities_ok m" and pre: "take (length (mapped_ids m)) ids = mapped_ids m" and ids: "ids_ok ids"
  shows "\<exists>t. overlay_or_mapped m (None # map Some ids) = Inr t \<and> identity_store_ok t \<and> store_ids t = ids"
proof -
  have n: "mi_len m = Suc (length (mapped_ids m))" using m by (auto simp: length_mapped_ids mapped_identities_ok_def Let_def)
  have le: "length (mapped_ids m) \<le> length ids" using arg_cong [OF pre, of length] by simp
  have all: "mapped_ids m @ drop (length (mapped_ids m)) ids = ids" by (metis append_take_drop_id pre)
  let ?t = "if drop (length (mapped_ids m)) ids = [] then MappedIds m else LayeredIds m (drop (length (mapped_ids m)) ids)"
  have "store_ids ?t = ids"
  proof (cases "drop (length (mapped_ids m)) ids = []")
    case True
    then have "mapped_ids m = ids" using all by simp
    with True show ?thesis by (simp add: store_ids_def)
  qed (use all in \<open>simp add: store_ids_def\<close>)
  moreover have "identity_store_ok ?t" using ids m calculation by (auto simp: identity_store_ok_def)
  moreover have "overlay_or_mapped m (None # map Some ids) = Inr ?t"
    using le by (simp add: overlay_or_mapped_def n dense_suffix_exact)
  ultimately show ?thesis by blast
qed

lemma install_extension:
  assumes ok: "identity_store_ok s" and ids: "ids_ok ids" "length ids < 4294967295"
    and pre: "take (length (store_ids s)) ids = store_ids s"
  shows "\<exists>t. install_cumulative_owned s (None # map Some ids) = Inr t \<and> identity_store_ok t \<and> store_ids t = ids"
proof -
  let ?slots = "None # map Some ids"
  have le: "length (store_ids s) \<le> length ids" using arg_cong [OF pre, of length] by simp
  have "install_cumulative_owned s ?slots = (case s of OwnedIds _ \<Rightarrow> identities_try_from_owned ?slots
       | MappedIds m \<Rightarrow> overlay_or_mapped m ?slots | LayeredIds m _ \<Rightarrow> overlay_or_mapped m ?slots)"
  proof -
    have "identity_len s \<le> length ?slots" using le by (simp add: store_len [OF ok])
    note same = extends_same [OF ok this refl]
    have "List.find (\<lambda>i. i \<noteq> 0 \<and> store_ids s ! (i - 1) \<noteq> ids ! (i - 1)) [0..<identity_len s] = None"
      using prefix_differs [OF le] pre by (simp add: store_len [OF ok] del: upt_Suc)
    with \<open>identity_len s \<le> length ?slots\<close> show ?thesis unfolding install_cumulative_owned_def same by simp
  qed
  moreover have "take (length (mapped_ids m)) ids = mapped_ids m" if "s = MappedIds m \<or> s = LayeredIds m ov" for m ov
    using that pre by (auto simp: store_ids_def) (metis append_eq_conv_conj append_take_drop_id append.assoc)
  moreover have "identity_store_ok (OwnedIds ?slots)" "store_ids (OwnedIds ?slots) = ids"
    using ids by (simp_all add: identity_store_ok_def store_ids_def comp_def)
  ultimately show ?thesis using ok valid_slots [OF ids] overlay_or_mapped_exact [OF _ _ ids(1)]
    by (cases s) (fastforce simp: identity_store_ok_def)+
qed

lemma install_rejects:
  assumes ok: "identity_store_ok s" and pre: "take (length (store_ids s)) ids \<noteq> store_ids s"
  shows "install_cumulative_owned s (None # map Some ids) = Inl (corrupt ''relationship identity dictionary does not extend the active store'')"
proof (cases "length (store_ids s) \<le> length ids")
  case False
  then show ?thesis by (simp add: install_cumulative_owned_def store_len [OF ok])
next
  case True
  then have "identity_len s \<le> length (None # map Some ids)" by (simp add: store_len [OF ok])
  note same = extends_same [OF ok this refl]
  have "List.find (\<lambda>i. i \<noteq> 0 \<and> store_ids s ! (i - 1) \<noteq> ids ! (i - 1)) [0..<identity_len s] \<noteq> None"
    using prefix_differs [OF True] pre by (simp add: store_len [OF ok] del: upt_Suc)
  with True show ?thesis unfolding install_cumulative_owned_def same by (simp add: store_len [OF ok] del: upt_Suc)
qed

section \<open>Properties\<close>

text \<open>
  C31: Opening the two identity sections of an artifact either reports corruption or yields a store whose
  ids name exactly the identities of the sections, in order and without duplicates.
\<close>

theorem mapped_identities_exact:
  assumes "length bytes \<le> usize_max"
  shows "case mapped_identities_new bytes dr kr of
     Inl f \<Rightarrow> \<exists>reason. f = Err (CorruptFile reason)
   | Inr m \<Rightarrow> distinct (store_ids (MappedIds m)) \<and>
       (\<forall>rid. identity_get (MappedIds m) rid = Inr (if 0 < rid \<and> unat rid < range_len dr div 16
          then Some (section_identity (range_bytes bytes dr) (range_bytes bytes kr) (unat rid)) else None))"
proof (cases "mapped_identities_new bytes dr kr")
  case (Inl f)
  with checked_mapped_new [OF assms, of dr kr] show ?thesis by (simp add: checked_def)
next
  case (Inr m)
  with checked_mapped_new [OF assms, of dr kr]
  have m: "mi_bytes m = bytes" "mi_descriptors_range m = dr" "mi_key_bytes_range m = kr" "mapped_identities_ok m" "ids_ok (mapped_ids m)"
    by (simp_all add: checked_def)
  have len: "mi_len m = range_len dr div 16"
    using m by (auto simp: mapped_identities_ok_def Let_def range_bytes_def slice_def range_len_def identity_range_in_mapping_def)
  have "identity_get (MappedIds m) rid = Inr (if 0 < rid \<and> unat rid < range_len dr div 16
          then Some (section_identity (range_bytes bytes dr) (range_bytes bytes kr) (unat rid)) else None)" for rid
  proof (cases "rid = 0")
    case False
    then have "0 < unat rid" by (simp add: unat_gt_0)
    with False show ?thesis unfolding len [symmetric]
      by (auto simp: identity_get_def mapped_get_exact [OF m(4)] get_opt_def length_mapped_ids mapped_ids_def m(1-3) word_neq_0_conv)
  qed (simp add: identity_get_def mapped_get_exact [OF m(4)])
  with m(5) show ?thesis by (simp add: Inr store_ids_def ids_ok_def)
qed

text \<open>
  C30: Interning an identity gives an id that reads back as the identity and leaves every id handed out
  before with the identity it had, whether the store is owned, mapped or mapped with an overlay.
  It fails only for the reserved mapping id or when no id is left, and adds nothing when the
  identity is known.
\<close>

theorem relationship_ids_stable:
  assumes "identity_store_ok s"
  shows "case push_or_intern s ident of
     Inl f \<Rightarrow> (\<exists>e. f = Err e) \<and> (ri_mapping_id ident = 0 \<or> ident \<notin> set (store_ids s) \<and> Suc (length (store_ids s)) = 2 ^ 32)
   | Inr (t, rid) \<Rightarrow>
       identity_store_ok t \<and> identity_get t rid = Inr (Some ident) \<and>
       store_ids t = store_ids s @ (if ident \<in> set (store_ids s) then [] else [ident]) \<and>
       (\<forall>old x. identity_get s old = Inr (Some x) \<longrightarrow> identity_get t old = Inr (Some x))"
proof (cases "push_or_intern s ident")
  case (Inl f)
  with push_or_intern_step [OF assms, of ident] show ?thesis by simp
next
  case (Inr r)
  obtain t rid where r: "r = (t, rid)" by (cases r)
  from push_or_intern_step [OF assms, of ident] have t: "identity_store_ok t" "rid \<noteq> 0"
    "get_opt (store_ids t) (unat rid - 1) = Some ident"
    "store_ids t = store_ids s @ (if ident \<in> set (store_ids s) then [] else [ident])"
    unfolding Inr r sum.case prod.case by blast+
  have "identity_get t old = Inr (Some x)" if "identity_get s old = Inr (Some x)" for old x
    using that unfolding identity_get_exact [OF assms] identity_get_exact [OF t(1)] t(4)
    by (auto simp: get_opt_def nth_append split: if_splits)
  moreover have "identity_get t rid = Inr (Some ident)" using t(2,3) by (simp only: identity_get_exact [OF t(1)] if_False)
  ultimately show ?thesis using t(1,4) by (simp only: Inr r sum.case prod.case) blast
qed

text \<open>
  A cumulative dictionary of valid identities replaces the identities of a store exactly when it
  extends them in id order; the mapped base stays in place. Any other dictionary is rejected.
\<close>

theorem cumulative_identities_exact:
  assumes "identity_store_ok s" "ids_ok ids" "length ids < 4294967295"
  shows "if take (length (store_ids s)) ids = store_ids s
    then \<exists>t. install_cumulative_owned s (None # map Some ids) = Inr t \<and> identity_store_ok t \<and> store_ids t = ids
    else \<exists>reason. install_cumulative_owned s (None # map Some ids) = Inl (Err (CorruptFile reason))"
  using install_extension [OF assms] install_rejects [OF assms(1), of ids] by (auto simp: corrupt_def)

section \<open>A concrete table\<close>

text \<open>One identity: mapping 5 and the key \<open>a\<close>.\<close>

definition sample_identities :: "u8 list" where
  "sample_identities =
     [0, 0, 0, 0, 0, 0, 0, 0, 0, 0, 0, 0, 0, 0, 0, 0, 5, 0, 0, 0, 0, 0, 0, 0, 1, 0, 0, 0, 0, 0, 0, 0, 97]"

lemma sample_identities_valid:
  "mapped_identities_new sample_identities (0, 32) (32, 33) =
    Inr \<lparr>mi_bytes = sample_identities, mi_descriptors_range = (0, 32), mi_key_bytes_range = (32, 33), mi_len = 2\<rparr>"
  by (simp add: mapped_identities_new_def sample_identities_def identity_range_in_mapping_def identity_ranges_overlap_def
      range_len_def IDENTITY_DESCRIPTOR_SIZE_def slice_range_r_def slice_r_def slice_def descriptor_value_def
      checked_mul_usize_def checked_add_usize_def usize_max_def get_slice_opt_def le_word_def le_nat_def scan_identity_def
      Let_def from_utf8_def utf8_ok.simps upt_rec)

theorem mapped_identities_exact_witness:
  "\<exists>m. mapped_identities_new sample_identities (0, 32) (32, 33) = Inr m \<and>
     identity_get (MappedIds m) 1 = Inr (Some (section_identity (slice 0 32 sample_identities) [97] 1))"
proof -
  have "length sample_identities \<le> usize_max" by (simp add: sample_identities_def usize_max_def)
  moreover have "range_bytes sample_identities (32, 33) = [97]" by (simp add: range_bytes_def slice_def sample_identities_def)
  ultimately show ?thesis
    using mapped_identities_exact [of sample_identities "(0, 32)" "(32, 33)"]
    by (simp add: sample_identities_valid range_len_def range_bytes_def)
qed

theorem relationship_ids_stable_witness:
  "\<exists>t rid. push_or_intern default_identities \<lparr>ri_mapping_id = 5, ri_source_key = [97]\<rparr> = Inr (t, rid) \<and>
     identity_get t rid = Inr (Some \<lparr>ri_mapping_id = 5, ri_source_key = [97]\<rparr>)"
proof -
  have "identity_store_ok default_identities" "store_ids default_identities = []"
    by (simp_all add: default_identities_def identity_store_ok_def ids_ok_def store_ids_def)
  with relationship_ids_stable [of default_identities "\<lparr>ri_mapping_id = 5, ri_source_key = [97]\<rparr>"] show ?thesis
    by (cases "push_or_intern default_identities \<lparr>ri_mapping_id = 5, ri_source_key = [97]\<rparr>") auto
qed

theorem cumulative_identities_exact_witness:
  "\<exists>t. install_cumulative_owned default_identities [None, Some \<lparr>ri_mapping_id = 5, ri_source_key = [97]\<rparr>] = Inr t \<and>
     store_ids t = [\<lparr>ri_mapping_id = 5, ri_source_key = [97]\<rparr>]"
proof -
  have "identity_store_ok default_identities" "store_ids default_identities = []"
    by (simp_all add: default_identities_def identity_store_ok_def ids_ok_def store_ids_def)
  with cumulative_identities_exact [of default_identities "[\<lparr>ri_mapping_id = 5, ri_source_key = [97]\<rparr>]"] show ?thesis
    by (simp add: ids_ok_def) blast
qed

end
