(* ===== verification/EdgeTypeRegistry.thy ===== *)
theory EdgeTypeRegistry
  imports Validation FilterIndex "HOL-Library.AList"
begin

text \<open>
  The ordered dictionary of relationship types (\<open>graph/src/edge_type_registry.rs\<close>): labels in
  identifier order, the reverse lookup, the policy limits, the incremental fingerprint and the two
  heap bounds that callers reserve memory by.

  A label is its UTF-8 bytes; an owned string carries its capacity as well. The lookup table is an
  association list in insertion order. The growth policies of the standard collections are written
  out (\<open>vec_capacity\<close>, \<open>hash_capacity\<close>; an exact string reservation yields the length). Whether the
  allocator refuses a request of \<open>n\<close> elements, and with which text, is an argument. Sums of
  capacities of live allocations fit the address space, so they are sums of naturals.
\<close>

section \<open>Allocation\<close>

record registry_alloc =
  refusal :: "usize \<Rightarrow> string option"

definition vec_capacity :: "usize \<Rightarrow> usize \<Rightarrow> usize" where
  "vec_capacity current needed = max (max (current * 2) needed) 4"

fun next_power_of_two :: "usize \<Rightarrow> usize" where
  "next_power_of_two n = (if n \<le> 1 then 1 else 2 * next_power_of_two ((n + 1) div 2))"

declare next_power_of_two.simps [simp del]

definition checked_next_power_of_two :: "usize \<Rightarrow> usize option" where
  "checked_next_power_of_two n =
     (if next_power_of_two n \<le> usize_max then Some (next_power_of_two n) else None)"

definition hash_capacity :: "usize \<Rightarrow> usize \<Rightarrow> usize" where
  "hash_capacity current needed =
     (let buckets = (if needed < 4 then 4 else if needed < 8 then 8 else next_power_of_two (needed * 8 div 7)) in
      if buckets \<le> 8 then buckets - 1 else buckets div 8 * 7)"

definition string_capacity :: "usize \<Rightarrow> usize \<Rightarrow> usize" where
  "string_capacity current needed = needed"

text \<open>A \<open>try_reserve\<close> for a collection that must hold \<open>needed\<close> elements, with the text its refusal is reported under.\<close>

definition reserve_for ::
  "registry_alloc \<Rightarrow> string \<Rightarrow> (usize \<Rightarrow> usize \<Rightarrow> usize) \<Rightarrow> usize \<Rightarrow> usize \<Rightarrow> usize graph_result" where
  "reserve_for al what policy current needed =
     (if needed \<le> current then Inr current
      else case refusal al needed of
        Some error \<Rightarrow> Inl (Err (Internal (what @ error)))
      | None \<Rightarrow> Inr (policy current needed))"

section \<open>State\<close>

type_synonym type_label = "u8 list"
type_synonym owned_label = "type_label \<times> usize"

record edge_type_registry =
  er_labels :: "type_label list"
  er_labels_capacity :: usize
  er_ids :: "(type_label \<times> edge_type_id) list"
  er_ids_capacity :: usize
  er_label_bytes :: usize
  er_ordered_capacity_bytes :: usize
  er_lookup_capacity_bytes :: usize
  er_fingerprint :: u64

definition STRING_SIZE :: usize where "STRING_SIZE = 24"

definition LOOKUP_ENTRY_SIZE :: usize where "LOOKUP_ENTRY_SIZE = 32"

definition HASH_ENTRY_OVERHEAD_BYTES :: usize where "HASH_ENTRY_OVERHEAD_BYTES = 32"

definition MAX_USER_EDGE_TYPES :: usize where "MAX_USER_EDGE_TYPES = 1000000"

definition MAX_EDGE_TYPE_LABEL_BYTES :: usize where "MAX_EDGE_TYPE_LABEL_BYTES = 1024"

definition MAX_EDGE_TYPE_DICTIONARY_BYTES :: usize where
  "MAX_EDGE_TYPE_DICTIONARY_BYTES = 256 * 1024 * 1024"

definition MAX_QUERY_EDGE_TYPE_FILTERS :: usize where "MAX_QUERY_EDGE_TYPE_FILTERS = 4096"

definition MAX_QUERY_EDGE_TYPE_FILTER_BYTES :: usize where
  "MAX_QUERY_EDGE_TYPE_FILTER_BYTES = 4 * 1024 * 1024"

section \<open>Fingerprint\<close>

definition REGISTRY_FINGERPRINT_SEED :: u64 where
  "REGISTRY_FINGERPRINT_SEED = 0xcbf29ce484222325"

definition fingerprint_append :: "u64 \<Rightarrow> type_label \<Rightarrow> u64" where
  "fingerprint_append fingerprint label =
     fold (\<lambda>byte acc. xor acc (ucast byte) * 0x100000001b3)
       (bytes_u64 (word_of_nat (length label)) @ label) fingerprint"

definition registry_fingerprint :: "type_label list \<Rightarrow> u64" where
  "registry_fingerprint labels = fold (\<lambda>label acc. fingerprint_append acc label) labels REGISTRY_FINGERPRINT_SEED"

section \<open>Construction\<close>

definition registry_new :: edge_type_registry where
  "registry_new =
     \<lparr>er_labels = [[]], er_labels_capacity = 1, er_ids = [], er_ids_capacity = 0, er_label_bytes = 0,
       er_ordered_capacity_bytes = 0, er_lookup_capacity_bytes = 0, er_fingerprint = registry_fingerprint [[]]\<rparr>"

definition validate_policy :: "usize \<Rightarrow> usize \<Rightarrow> type_label list \<Rightarrow> unit graph_result" where
  "validate_policy type_count label_bytes labels =
     (if type_count > MAX_USER_EDGE_TYPES + 1 \<or> label_bytes > MAX_EDGE_TYPE_DICTIONARY_BYTES \<or>
         list_ex (\<lambda>label. length label > MAX_EDGE_TYPE_LABEL_BYTES) (drop 1 labels) then
        Inl (corrupt ''edge type registry exceeds configured policy limits'')
      else Inr ())"

definition try_clone_label :: "registry_alloc \<Rightarrow> type_label \<Rightarrow> owned_label graph_result" where
  "try_clone_label al label =
     rbind (reserve_for al ''edge type label allocation failed: '' string_capacity 0 (length label)) (\<lambda>cap.
       Inr (label, cap))"

definition logical_id :: "graph_error fault \<Rightarrow> usize \<Rightarrow> edge_type_id graph_result" where
  "logical_id sentinel_error index =
     rbind (ok_or (Err (Internal ''edge type registry index exceeds u32'')) (u32_try_from index)) (\<lambda>raw.
       case edge_type_try_from raw of Inl _ \<Rightarrow> Inl sentinel_error | Inr i \<Rightarrow> Inr i)"

definition index_label ::
  "registry_alloc \<Rightarrow> usize \<times> type_label \<Rightarrow> (type_label \<times> edge_type_id) list \<times> usize \<Rightarrow>
     ((type_label \<times> edge_type_id) list \<times> usize) graph_result" where
  "index_label al = (\<lambda>(index, label) (ids, key_bytes).
     rbind (logical_id (corrupt ''edge type registry uses the logical sentinel'') index) (\<lambda>logical.
     rbind (try_clone_label al label) (\<lambda>(lookup_label, cap).
       if map_of ids lookup_label \<noteq> None then Inl (corrupt ''edge type registry contains duplicate labels'')
       else Inr (AList.update lookup_label logical ids, key_bytes + cap))))"

text \<open>The vector of owned labels is its capacity and its strings.\<close>

definition try_from_labels :: "registry_alloc \<Rightarrow> usize \<Rightarrow> owned_label list \<Rightarrow> edge_type_registry graph_result" where
  "try_from_labels al capacity owned =
     (let labels = map fst owned in
      if (case labels of [] \<Rightarrow> True | label # _ \<Rightarrow> label \<noteq> []) \<or> length labels > 4294967295 \<or>
         list_ex (\<lambda>label. label = []) (drop 1 labels) then
        Inl (corrupt ''edge type registry contains invalid labels'')
      else
        rbind (fold_r (\<lambda>label total. ok_or (corrupt ''edge type registry payload overflows'')
            (checked_add_usize total (length label))) labels 0) (\<lambda>label_bytes.
        rbind (validate_policy (length labels) label_bytes labels) (\<lambda>_.
        rbind (reserve_for al ''edge type registry lookup allocation failed: '' hash_capacity 0 (length labels - 1)) (\<lambda>ids_capacity.
        rbind (fold_r (index_label al) (drop 1 (zip [0..<length labels] labels)) ([], 0)) (\<lambda>(ids, key_bytes).
          Inr \<lparr>er_labels = labels, er_labels_capacity = capacity, er_ids = ids, er_ids_capacity = ids_capacity,
            er_label_bytes = label_bytes, er_ordered_capacity_bytes = sum_list (map snd owned),
            er_lookup_capacity_bytes = key_bytes, er_fingerprint = registry_fingerprint labels\<rparr>)))))"

definition try_from_v6_labels :: "registry_alloc \<Rightarrow> usize \<Rightarrow> owned_label list \<Rightarrow> edge_type_registry graph_result" where
  "try_from_v6_labels al capacity owned =
     (if length owned > unat V6_MAX_USER_ID + 1 then Inl (corrupt ''edge type registry count exceeds v6 limits'')
      else try_from_labels al capacity owned)"

section \<open>Lookup and registration\<close>

definition registry_id :: "edge_type_registry \<Rightarrow> type_label \<Rightarrow> edge_type_id option" where
  "registry_id r label = (if label = [] then Some UNTYPED else map_of (er_ids r) label)"

text \<open>\<open>&mut self\<close>: the registry is returned with the result, also on an error.\<close>

type_synonym 'a registry_step = "'a graph_result \<times> edge_type_registry"

definition or_fail :: "edge_type_registry \<Rightarrow> 'b graph_result \<Rightarrow> ('b \<Rightarrow> 'a registry_step) \<Rightarrow> 'a registry_step" where
  "or_fail r m f = (case m of Inl e \<Rightarrow> (Inl e, r) | Inr x \<Rightarrow> f x)"

definition register_inner :: "registry_alloc \<Rightarrow> edge_type_registry \<Rightarrow> type_label \<Rightarrow> edge_type_id registry_step" where
  "register_inner al r label =
     or_fail r (logical_id (Err EdgeTypeLimit) (length (er_labels r))) (\<lambda>tid.
     or_fail r (reserve_for al ''edge type registry allocation failed: '' vec_capacity
         (er_labels_capacity r) (length (er_labels r) + 1)) (\<lambda>labels_capacity.
     let r1 = r\<lparr>er_labels_capacity := labels_capacity\<rparr> in
     or_fail r1 (reserve_for al ''edge type lookup allocation failed: '' hash_capacity
         (er_ids_capacity r) (length (er_ids r) + 1)) (\<lambda>ids_capacity.
     let r2 = r1\<lparr>er_ids_capacity := ids_capacity\<rparr> in
     or_fail r2 (try_clone_label al label) (\<lambda>(ordered_label, ordered_cap).
     or_fail r2 (try_clone_label al label) (\<lambda>(lookup_label, lookup_cap).
     or_fail r2 (ok_or (Err EdgeTypeLimit) (checked_add_usize (er_label_bytes r) (length label))) (\<lambda>label_bytes.
     let r3 = r2\<lparr>er_label_bytes := label_bytes\<rparr> in
     or_fail r3 (ok_or (Err EdgeTypeLimit) (checked_add_usize (er_ordered_capacity_bytes r) ordered_cap)) (\<lambda>ordered.
     let r4 = r3\<lparr>er_ordered_capacity_bytes := ordered\<rparr> in
     or_fail r4 (ok_or (Err EdgeTypeLimit) (checked_add_usize (er_lookup_capacity_bytes r) lookup_cap)) (\<lambda>lookup.
       (Inr tid,
        r4\<lparr>er_lookup_capacity_bytes := lookup, er_labels := er_labels r @ [ordered_label],
          er_ids := AList.update lookup_label tid (er_ids r),
          er_fingerprint := fingerprint_append (er_fingerprint r) label\<rparr>)))))))))"

definition over_limits :: "edge_type_registry \<Rightarrow> type_label \<Rightarrow> usize \<Rightarrow> bool" where
  "over_limits r label next_bytes \<longleftrightarrow>
     label = [] \<or> length label > MAX_EDGE_TYPE_LABEL_BYTES \<or> length (er_labels r) > MAX_USER_EDGE_TYPES \<or>
     next_bytes > MAX_EDGE_TYPE_DICTIONARY_BYTES"

definition register :: "registry_alloc \<Rightarrow> edge_type_registry \<Rightarrow> type_label \<Rightarrow> edge_type_id registry_step" where
  "register al r label =
     (case registry_id r label of
        Some tid \<Rightarrow> (Inr tid, r)
      | None \<Rightarrow>
          or_fail r (ok_or (Err EdgeTypeLimit) (checked_add_usize (er_label_bytes r) (length label))) (\<lambda>next_bytes.
            if over_limits r label next_bytes then (Inl (Err EdgeTypeLimit), r) else register_inner al r label))"

definition validate_query_filter :: "type_label list \<Rightarrow> unit graph_result" where
  "validate_query_filter labels =
     (if length labels > MAX_QUERY_EDGE_TYPE_FILTERS then
        Inl (Err (InvalidFilter (''edge type filter has '' @ show_nat (length labels) @ '' entries; maximum is '' @
          show_nat MAX_QUERY_EDGE_TYPE_FILTERS)))
      else
        rbind (fold_r (\<lambda>label total. ok_or (Err (InvalidFilter ''edge type filter byte count overflows''))
            (checked_add_usize total (length label))) labels 0) (\<lambda>bytes.
        if bytes > MAX_QUERY_EDGE_TYPE_FILTER_BYTES then
          Inl (Err (InvalidFilter (''edge type filter uses '' @ show_nat bytes @ '' UTF-8 bytes; maximum is '' @
            show_nat MAX_QUERY_EDGE_TYPE_FILTER_BYTES)))
        else Inr ()))"

section \<open>Heap bounds\<close>

definition ordered_heap_bytes :: "edge_type_registry \<Rightarrow> usize" where
  "ordered_heap_bytes r = er_labels_capacity r * STRING_SIZE + er_ordered_capacity_bytes r"

definition registry_heap_bytes :: "edge_type_registry \<Rightarrow> usize" where
  "registry_heap_bytes r =
     ordered_heap_bytes r + er_ids_capacity r * (LOOKUP_ENTRY_SIZE + HASH_ENTRY_OVERHEAD_BYTES) +
     er_lookup_capacity_bytes r"

definition collection_capacity_upper_bound :: "usize \<Rightarrow> usize \<Rightarrow> usize graph_result" where
  "collection_capacity_upper_bound current required =
     (if current \<ge> required then Inr current
      else ok_or (Err (Internal ''edge type collection capacity overflowed''))
        (Option.bind (checked_next_power_of_two (max required 1)) (\<lambda>capacity. checked_mul_usize capacity 4)))"

definition registration_heap_upper_bound :: "edge_type_registry \<Rightarrow> type_label \<Rightarrow> usize graph_result" where
  "registration_heap_upper_bound r label =
     (if registry_id r label \<noteq> None then Inr 0
      else
        rbind (ok_or (Err EdgeTypeLimit) (checked_add_usize (er_label_bytes r) (length label))) (\<lambda>next_bytes.
        if over_limits r label next_bytes then Inl (Err EdgeTypeLimit)
        else
          rbind (ok_or (Err (Internal ''edge type registry length overflowed''))
            (checked_add_usize (length (er_labels r)) 1)) (\<lambda>next_labels.
          rbind (ok_or (Err (Internal ''edge type lookup length overflowed''))
            (checked_add_usize (length (er_ids r)) 1)) (\<lambda>next_lookup.
          rbind (collection_capacity_upper_bound (er_labels_capacity r) next_labels) (\<lambda>label_slots.
          rbind (collection_capacity_upper_bound (er_ids_capacity r) next_lookup) (\<lambda>lookup_slots.
          rbind (ok_or (Err (Internal ''edge type registry growth overflowed''))
            (Option.bind (checked_mul_usize label_slots STRING_SIZE) (\<lambda>b1.
             Option.bind (checked_add_usize b1 (er_ordered_capacity_bytes r)) (\<lambda>b2.
             Option.bind (checked_add_usize b2 (length label)) (\<lambda>b3.
             Option.bind (checked_mul_usize lookup_slots (LOOKUP_ENTRY_SIZE + HASH_ENTRY_OVERHEAD_BYTES)) (\<lambda>slots.
             Option.bind (checked_add_usize b3 slots) (\<lambda>b4.
             Option.bind (checked_add_usize b4 (er_lookup_capacity_bytes r)) (\<lambda>b5.
               checked_add_usize b5 (length label))))))))) (\<lambda>goal.
            Inr (goal - registry_heap_bytes r))))))))"

definition registry_encoded_count :: "u8 list \<Rightarrow> usize graph_result" where
  "registry_encoded_count encoded =
     rbind (ok_or (corrupt ''edge type registry is too short'') (get_slice_opt encoded 0 4)) (\<lambda>count_bytes.
     let type_count = unat (le_word count_bytes :: u32) in
     if type_count = 0 then Inl (corrupt ''edge type registry must contain the untyped entry'') else Inr type_count)"

text \<open>The bytes that a dictionary of \<open>type_count\<close> labels with \<open>payload_bytes\<close> bytes in all is charged.\<close>

definition metadata_bytes :: "usize \<Rightarrow> usize \<Rightarrow> usize graph_result" where
  "metadata_bytes type_count payload_bytes =
     rbind (ok_or (Err (Internal ''edge type lookup bound overflowed''))
       (Option.bind (checked_next_power_of_two (max (type_count - 1) 1)) (\<lambda>slots. checked_mul_usize slots 2))) (\<lambda>lookup_slots.
     ok_or (Err (Internal ''edge type metadata bound overflowed''))
       (Option.bind (checked_mul_usize type_count STRING_SIZE) (\<lambda>b1.
        Option.bind (checked_mul_usize payload_bytes 2) (\<lambda>p2.
        Option.bind (checked_add_usize b1 p2) (\<lambda>b2.
        Option.bind (checked_mul_usize lookup_slots (LOOKUP_ENTRY_SIZE + HASH_ENTRY_OVERHEAD_BYTES)) (\<lambda>slots.
          checked_add_usize b2 slots))))))"

definition check_offset :: "u8 list \<Rightarrow> usize \<Rightarrow> usize \<Rightarrow> usize \<Rightarrow> usize graph_result" where
  "check_offset encoded payload_bytes index previous =
     (let offset = 4 + (index + 1) * 8 in
      rbind (ok_or (corrupt ''edge type registry offset table is truncated'')
        (get_slice_opt encoded offset (offset + 8))) (\<lambda>raw.
      let stop = unat (le_word raw :: u64) in
      if stop < previous \<or> stop > payload_bytes \<or> (index > 0 \<and> stop - previous > MAX_EDGE_TYPE_LABEL_BYTES) then
        Inl (corrupt ''edge type registry label exceeds configured policy'')
      else Inr stop))"

definition load_metadata_upper_bound :: "u8 list \<Rightarrow> usize graph_result" where
  "load_metadata_upper_bound encoded =
     rbind (registry_encoded_count encoded) (\<lambda>type_count.
     if type_count > MAX_USER_EDGE_TYPES + 1 then Inl (corrupt ''edge type registry count exceeds logical limits'')
     else
       rbind (ok_or (corrupt ''edge type registry header overflows'')
         (Option.bind (checked_add_usize type_count 1) (\<lambda>offsets.
          Option.bind (checked_mul_usize offsets 8) (\<lambda>offsets. checked_add_usize offsets 4)))) (\<lambda>header_bytes.
       if length encoded < header_bytes then
         Inl (corrupt ''edge type registry offset table exceeds its section'')
       else
         let payload_bytes = length encoded - header_bytes in
         if payload_bytes > MAX_EDGE_TYPE_DICTIONARY_BYTES then
           Inl (corrupt ''edge type registry payload exceeds configured policy'')
         else
           rbind (fold_r (check_offset encoded payload_bytes) [0..<type_count] 0) (\<lambda>_.
             metadata_bytes type_count payload_bytes)))"

definition v6_load_metadata_upper_bound :: "u8 list \<Rightarrow> usize graph_result" where
  "v6_load_metadata_upper_bound encoded =
     rbind (registry_encoded_count encoded) (\<lambda>type_count.
     if type_count > unat V6_MAX_USER_ID + 1 then Inl (corrupt ''edge type registry count exceeds v6 limits'')
     else load_metadata_upper_bound encoded)"

definition decoded_heap_upper_bound :: "usize \<Rightarrow> usize \<Rightarrow> usize graph_result" where
  "decoded_heap_upper_bound type_count payload_bytes =
     (if type_count = 0 \<or> type_count > MAX_USER_EDGE_TYPES + 1 \<or> payload_bytes > MAX_EDGE_TYPE_DICTIONARY_BYTES then
        Inl (corrupt ''edge type registry metadata exceeds configured policy'')
      else metadata_bytes type_count payload_bytes)"

section \<open>Dictionaries that satisfy the policy\<close>

definition valid_labels :: "type_label list \<Rightarrow> bool" where
  "valid_labels labels \<longleftrightarrow>
     labels \<noteq> [] \<and> hd labels = [] \<and> distinct labels \<and> length labels \<le> MAX_USER_EDGE_TYPES + 1 \<and>
     (\<forall>l\<in>set labels. length l \<le> MAX_EDGE_TYPE_LABEL_BYTES) \<and>
     sum_list (map length labels) \<le> MAX_EDGE_TYPE_DICTIONARY_BYTES"

text \<open>The lookup table that belongs to a list of labels.\<close>

definition label_ids :: "type_label list \<Rightarrow> (type_label \<times> edge_type_id) list" where
  "label_ids labels = zip (tl labels) (map word_of_nat [1..<length labels])"

definition registry_ok :: "edge_type_registry \<Rightarrow> bool" where
  "registry_ok r \<longleftrightarrow>
     valid_labels (er_labels r) \<and> er_ids r = label_ids (er_labels r) \<and>
     er_label_bytes r = sum_list (map length (er_labels r)) \<and> er_lookup_capacity_bytes r = er_label_bytes r \<and>
     er_ordered_capacity_bytes r \<le> 2 ^ 63 + er_label_bytes r \<and>
     er_fingerprint r = registry_fingerprint (er_labels r)"

definition same_registry :: "edge_type_registry \<Rightarrow> edge_type_registry \<Rightarrow> bool" where
  "same_registry r r' \<longleftrightarrow>
     er_labels r' = er_labels r \<and> er_ids r' = er_ids r \<and> er_label_bytes r' = er_label_bytes r \<and>
     er_ordered_capacity_bytes r' = er_ordered_capacity_bytes r \<and>
     er_lookup_capacity_bytes r' = er_lookup_capacity_bytes r \<and> er_fingerprint r' = er_fingerprint r"

lemma same_registry_refl [simp]: "same_registry r r"
  by (simp add: same_registry_def)

lemma same_registry_ok: "registry_ok r \<Longrightarrow> same_registry r r' \<Longrightarrow> registry_ok r'"
  by (simp add: registry_ok_def same_registry_def)

lemma valid_labels_Cons:
  assumes "valid_labels labels"
  obtains us where "labels = [] # us" "[] \<notin> set us" "distinct us" "length us \<le> 1000000"
  using assms by (cases labels) (auto simp: valid_labels_def MAX_USER_EDGE_TYPES_def)

lemma registry_new_ok: "registry_ok registry_new"
  by (simp add: registry_ok_def registry_new_def valid_labels_def label_ids_def MAX_USER_EDGE_TYPES_def)

lemma label_ids_lookup:
  assumes "distinct us" "length us < 2 ^ 32 - 1"
  shows "map_of (label_ids (x # us)) l = Some k \<longleftrightarrow> 0 < unat k \<and> unat k \<le> length us \<and> us ! (unat k - 1) = l"
proof -
  have keys: "distinct (map fst (label_ids (x # us)))"
    using assms(1) by (simp add: label_ids_def)
  have bnd: "unat (word_of_nat (Suc i) :: u32) = Suc i" if "i < length us" for i
    using that assms(2) by (subst unat_of_nat_u32) auto
  have at: "label_ids (x # us) = map (\<lambda>i. (us ! i, word_of_nat (Suc i))) [0..<length us]"
    by (rule nth_equalityI) (simp_all add: label_ids_def del: upt_Suc of_nat_Suc)
  have "map_of (label_ids (x # us)) l = Some k \<longleftrightarrow> (l, k) \<in> set (label_ids (x # us))"
    using map_of_eq_Some_iff [OF keys] .
  also have "\<dots> \<longleftrightarrow> (\<exists>i<length us. us ! i = l \<and> word_of_nat (Suc i) = k)"
    unfolding at by auto
  also have "\<dots> \<longleftrightarrow> 0 < unat k \<and> unat k \<le> length us \<and> us ! (unat k - 1) = l"
  proof (intro iffI conjI)
    assume "0 < unat k \<and> unat k \<le> length us \<and> us ! (unat k - 1) = l"
    then show "\<exists>i<length us. us ! i = l \<and> word_of_nat (Suc i) = k"
      by (intro exI [of _ "unat k - 1"]) auto
  qed (use bnd in auto)
  finally show ?thesis .
qed

text \<open>Labels and identifiers determine each other.\<close>

lemma registry_id_iff:
  assumes "registry_ok r"
  shows "registry_id r l = Some k \<longleftrightarrow> unat k < length (er_labels r) \<and> er_labels r ! unat k = l"
proof -
  from assms have "valid_labels (er_labels r)" by (simp add: registry_ok_def)
  then obtain us where us: "er_labels r = [] # us" "[] \<notin> set us" "distinct us" "length us \<le> 1000000"
    by (rule valid_labels_Cons)
  from assms us(1) have ids: "er_ids r = label_ids ([] # us)" by (simp add: registry_ok_def)
  from us(4) have len: "length us < 2 ^ 32 - 1" by simp
  show ?thesis
  proof (cases "l = []")
    case True
    have "k = 0 \<longleftrightarrow> unat k < Suc (length us) \<and> ([] # us) ! unat k = []"
      using us(2) by (cases "unat k") (auto simp: unat_eq_0 nth_Cons dest: nth_mem)
    with True show ?thesis by (auto simp: registry_id_def UNTYPED_def us(1))
  next
    case False
    then show ?thesis
      by (cases "unat k") (auto simp: registry_id_def ids label_ids_lookup [OF us(3) len] us(1))
  qed
qed

lemma registry_id_None:
  assumes "registry_ok r"
  shows "registry_id r l = None \<longleftrightarrow> l \<notin> set (er_labels r)"
proof -
  have bnd: "length (er_labels r) < 2 ^ 32"
    using assms by (simp add: registry_ok_def valid_labels_def MAX_USER_EDGE_TYPES_def)
  show ?thesis
  proof
    assume none: "registry_id r l = None"
    show "l \<notin> set (er_labels r)"
    proof
      assume "l \<in> set (er_labels r)"
      then obtain i where i: "i < length (er_labels r)" "er_labels r ! i = l" by (auto simp: in_set_conv_nth)
      then have "unat (word_of_nat i :: u32) = i" using bnd by (subst unat_of_nat_u32) auto
      with i have "registry_id r l = Some (word_of_nat i)" by (simp add: registry_id_iff [OF assms])
      with none show False by simp
    qed
  next
    assume "l \<notin> set (er_labels r)"
    then show "registry_id r l = None"
      using registry_id_iff [OF assms, of l] by (cases "registry_id r l") (auto simp: in_set_conv_nth)
  qed
qed

section \<open>Registration\<close>

lemma or_fail_simps [simp]: "or_fail r (Inr x) f = f x" "or_fail r (Inl e) f = (Inl e, r)"
  by (simp_all add: or_fail_def)

lemma logical_id_small: "n < 2 ^ 32 - 1 \<Longrightarrow> logical_id e n = Inr (word_of_nat n)"
proof -
  assume n: "n < 2 ^ 32 - 1"
  then have "unat (word_of_nat n :: u32) = n" by (subst unat_of_nat_u32) auto
  then have "unat (word_of_nat n :: u32) \<noteq> unat SENTINEL" using n by (simp add: SENTINEL_def)
  then have "(word_of_nat n :: u32) \<noteq> SENTINEL" by metis
  with n show ?thesis by (simp add: logical_id_def u32_try_from_def edge_type_try_from_def)
qed

definition refused :: "registry_alloc \<Rightarrow> graph_error fault \<Rightarrow> bool" where
  "refused al e \<longleftrightarrow> (\<exists>n. refusal al n \<noteq> None) \<and> (\<exists>reason. e = Err (Internal reason))"

lemma reserve_for_cases:
  obtains c where "reserve_for al what policy current needed = Inr c"
    "c = (if needed \<le> current then current else policy current needed)"
  | e where "reserve_for al what policy current needed = Inl e" "refused al e"
  by (cases "needed \<le> current"; cases "refusal al needed") (auto simp: reserve_for_def refused_def)

lemma try_clone_label_cases:
  obtains "try_clone_label al label = Inr (label, length label)"
  | e where "try_clone_label al label = Inl e" "refused al e"
  by (rule reserve_for_cases [of al "''edge type label allocation failed: ''" string_capacity 0 "length label"])
     (auto simp: try_clone_label_def string_capacity_def)

lemma label_ids_snoc:
  assumes "labels \<noteq> []"
  shows "label_ids (labels @ [l]) = label_ids labels @ [(l, word_of_nat (length labels))]"
proof -
  obtain x us where "labels = x # us" using assms by (cases labels) auto
  moreover have "[1..<Suc (Suc (length us))] = [1..<Suc (length us)] @ [Suc (length us)]" by simp
  moreover have "length [1..<Suc (length us)] = length us" by (simp del: upt_Suc)
  ultimately show ?thesis by (simp add: label_ids_def del: of_nat_Suc upt_Suc)
qed

lemma update_absent: "map_of al k = None \<Longrightarrow> AList.update k v al = al @ [(k, v)]"
  by (induction al) (auto split: if_splits)

lemma registry_fingerprint_snoc:
  "registry_fingerprint (labels @ [l]) = fingerprint_append (registry_fingerprint labels) l"
  by (simp add: registry_fingerprint_def)

text \<open>What a registration that passed the policy check can end with.\<close>

lemma register_inner_outcome:
  assumes ok: "registry_ok r" and new: "registry_id r l = None"
    and lim: "\<not> over_limits r l (er_label_bytes r + length l)" and reg: "register_inner al r l = (res, r')"
  shows "case res of
      Inr k \<Rightarrow> k = word_of_nat (length (er_labels r)) \<and> er_labels r' = er_labels r @ [l] \<and> registry_ok r'
    | Inl e \<Rightarrow> same_registry r r' \<and> refused al e"
proof -
  have facts: "valid_labels (er_labels r)" "er_ids r = label_ids (er_labels r)"
    "er_label_bytes r = sum_list (map length (er_labels r))" "er_lookup_capacity_bytes r = er_label_bytes r"
    "er_ordered_capacity_bytes r \<le> 2 ^ 63 + er_label_bytes r"
    "er_fingerprint r = registry_fingerprint (er_labels r)"
    using ok by (simp_all add: registry_ok_def)
  have lims: "l \<noteq> []" "length l \<le> 1024" "length (er_labels r) \<le> 1000000"
    "er_label_bytes r + length l \<le> 268435456"
    using lim by (simp_all add: over_limits_def MAX_EDGE_TYPE_LABEL_BYTES_def MAX_USER_EDGE_TYPES_def
        MAX_EDGE_TYPE_DICTIONARY_BYTES_def)
  have lid: "logical_id (Err EdgeTypeLimit) (length (er_labels r)) = Inr (word_of_nat (length (er_labels r)))"
    using lims(3) by (intro logical_id_small) simp
  have adds: "checked_add_usize (er_label_bytes r) (length l) = Some (er_label_bytes r + length l)"
    "checked_add_usize (er_ordered_capacity_bytes r) (length l) = Some (er_ordered_capacity_bytes r + length l)"
    "checked_add_usize (er_lookup_capacity_bytes r) (length l) = Some (er_lookup_capacity_bytes r + length l)"
    using lims(4) facts(4,5) by (simp_all add: checked_add_usize_def usize_max_def)
  have fresh: "l \<notin> set (er_labels r)" using new by (simp add: registry_id_None [OF ok])
  have unmapped: "map_of (er_ids r) l = None" using new lims(1) by (simp add: registry_id_def)
  have ne: "er_labels r \<noteq> []" using facts(1) by (simp add: valid_labels_def)
  have valid: "valid_labels (er_labels r @ [l])"
    using facts(1,3) fresh lims
    by (auto simp: valid_labels_def MAX_EDGE_TYPE_LABEL_BYTES_def MAX_USER_EDGE_TYPES_def MAX_EDGE_TYPE_DICTIONARY_BYTES_def)
  note ids = update_absent [OF unmapped [unfolded facts(2)]] label_ids_snoc [OF ne]
  show ?thesis
  proof (rule reserve_for_cases [of al "''edge type registry allocation failed: ''" vec_capacity
        "er_labels_capacity r" "length (er_labels r) + 1"])
    fix e assume "reserve_for al ''edge type registry allocation failed: '' vec_capacity
        (er_labels_capacity r) (length (er_labels r) + 1) = Inl e" "refused al e"
    with reg show ?thesis by (auto simp: register_inner_def lid)
  next
    fix c1 assume c1: "reserve_for al ''edge type registry allocation failed: '' vec_capacity
        (er_labels_capacity r) (length (er_labels r) + 1) = Inr c1"
    show ?thesis
    proof (rule reserve_for_cases [of al "''edge type lookup allocation failed: ''" hash_capacity
          "er_ids_capacity r" "length (er_ids r) + 1"])
      fix e assume "reserve_for al ''edge type lookup allocation failed: '' hash_capacity
          (er_ids_capacity r) (length (er_ids r) + 1) = Inl e" "refused al e"
      with reg c1 show ?thesis by (auto simp: register_inner_def lid same_registry_def)
    next
      fix c2 assume c2: "reserve_for al ''edge type lookup allocation failed: '' hash_capacity
          (er_ids_capacity r) (length (er_ids r) + 1) = Inr c2"
      show ?thesis
      proof (rule try_clone_label_cases [of al l])
        fix e assume "try_clone_label al l = Inl e" "refused al e"
        with reg c1 c2 show ?thesis by (auto simp: register_inner_def lid same_registry_def)
      next
        assume "try_clone_label al l = Inr (l, length l)"
        with reg c1 c2 have "res = Inr (word_of_nat (length (er_labels r)))"
          "r' = r\<lparr>er_labels_capacity := c1, er_ids_capacity := c2, er_label_bytes := er_label_bytes r + length l,
            er_ordered_capacity_bytes := er_ordered_capacity_bytes r + length l,
            er_lookup_capacity_bytes := er_lookup_capacity_bytes r + length l, er_labels := er_labels r @ [l],
            er_ids := AList.update l (word_of_nat (length (er_labels r))) (er_ids r),
            er_fingerprint := fingerprint_append (er_fingerprint r) l\<rparr>"
          by (simp_all add: register_inner_def lid adds Let_def)
        then show ?thesis
          using valid facts by (simp add: registry_ok_def ids registry_fingerprint_snoc)
      qed
    qed
  qed
qed

text \<open>
  C34: registering a label in a well-formed registry keeps it well-formed and keeps every identifier
  assigned so far. On success the returned identifier and the label determine each other; on an error
  nothing is registered, and the error is the policy's limit or a refused allocation.
\<close>

theorem registered_ids_stable:
  assumes ok: "registry_ok r" and reg: "register al r label = (res, r')"
  shows "registry_ok r' \<and>
    (\<forall>l k. registry_id r l = Some k \<longrightarrow> registry_id r' l = Some k) \<and>
    (\<forall>l k. registry_id r' l = Some k \<longleftrightarrow> unat k < length (er_labels r') \<and> er_labels r' ! unat k = l) \<and>
    (case res of
       Inr k \<Rightarrow> registry_id r' label = Some k \<and>
         er_labels r' = er_labels r @ (if label \<in> set (er_labels r) then [] else [label])
     | Inl e \<Rightarrow> er_labels r' = er_labels r \<and> label \<notin> set (er_labels r) \<and>
         (refused al e \<or> e = Err EdgeTypeLimit \<and> \<not> valid_labels (er_labels r @ [label])))"
proof (cases "registry_id r label")
  case (Some k)
  with reg have "res = Inr k" "r' = r" by (simp_all add: register_def)
  moreover have "label \<in> set (er_labels r)"
    using Some registry_id_None [OF ok, of label] by (cases "label \<in> set (er_labels r)") auto
  ultimately show ?thesis using Some ok registry_id_iff [OF ok] by simp
next
  case None
  then have absent: "label \<notin> set (er_labels r)" using registry_id_None [OF ok] by blast
  have bytes: "er_label_bytes r = sum_list (map length (er_labels r))" "valid_labels (er_labels r)"
    using ok by (simp_all add: registry_ok_def)
  show ?thesis
  proof (cases "checked_add_usize (er_label_bytes r) (length label) = None \<or>
      over_limits r label (er_label_bytes r + length label)")
    case True
    then have "res = Inl (Err EdgeTypeLimit)" "r' = r"
      using reg None by (auto simp: register_def checked_add_usize_def split: if_splits)
    moreover have "\<not> valid_labels (er_labels r @ [label])"
    proof
      assume valid: "valid_labels (er_labels r @ [label])"
      moreover have "label \<noteq> []" using None by (auto simp: registry_id_def)
      ultimately have "\<not> over_limits r label (er_label_bytes r + length label)"
        by (simp add: over_limits_def valid_labels_def bytes(1))
      with True have "usize_max < er_label_bytes r + length label"
        by (simp add: checked_add_usize_def split: if_splits)
      with valid show False
        by (simp add: valid_labels_def bytes(1) usize_max_def MAX_EDGE_TYPE_DICTIONARY_BYTES_def)
    qed
    ultimately show ?thesis using ok absent registry_id_iff [OF ok] by simp
  next
    case False
    then have inner: "register_inner al r label = (res, r')"
      using reg None by (auto simp: register_def checked_add_usize_def split: if_splits)
    note out = register_inner_outcome [OF ok None _ inner]
    show ?thesis
    proof (cases res)
      case (Inl e)
      with out False have same: "same_registry r r'" "refused al e" by simp_all
      then have "registry_ok r'" using same_registry_ok [OF ok] by blast
      moreover have "registry_id r' = registry_id r"
        using same(1) by (auto simp: registry_id_def same_registry_def)
      ultimately show ?thesis
        using same Inl absent registry_id_iff [OF ok] by (simp add: same_registry_def)
    next
      case (Inr k)
      with out False have k: "k = word_of_nat (length (er_labels r))" and
        labels: "er_labels r' = er_labels r @ [label]" and ok': "registry_ok r'" by simp_all
      have "length (er_labels r) < 2 ^ 32"
        using bytes(2) by (simp add: valid_labels_def MAX_USER_EDGE_TYPES_def)
      then have "unat (word_of_nat (length (er_labels r)) :: u32) = length (er_labels r)"
        by (subst unat_of_nat_u32) auto
      then show ?thesis
        using ok' Inr absent k labels by (auto simp: registry_id_iff [OF ok] registry_id_iff [OF ok'] nth_append)
    qed
  qed
qed

definition granting :: registry_alloc where
  "granting = \<lparr>refusal = (\<lambda>_. None)\<rparr>"

lemma reserve_granting: "reserve_for granting what policy a b = Inr (if b \<le> a then a else policy a b)"
  by (simp add: reserve_for_def granting_def)

lemma register_sample: "fst (register granting registry_new [97, 98]) = Inr 1"
  by (simp add: register_def register_inner_def registry_id_def registry_new_def checked_add_usize_def usize_max_def
      over_limits_def MAX_EDGE_TYPE_LABEL_BYTES_def MAX_USER_EDGE_TYPES_def MAX_EDGE_TYPE_DICTIONARY_BYTES_def
      logical_id_small reserve_granting try_clone_label_def string_capacity_def Let_def)

theorem registered_ids_stable_witness:
  "registry_id (snd (register granting registry_new [97, 98])) [97, 98] = Some 1 \<and>
   registry_ok (snd (register granting registry_new [97, 98]))"
  using registered_ids_stable [OF registry_new_ok, where al = granting and label = "[97, 98]" and res = "Inr 1"
      and r' = "snd (register granting registry_new [97, 98])"] register_sample
  by (simp add: prod_eq_iff)

section \<open>Loading a list of labels\<close>

lemma fold_lengths:
  "t \<le> usize_max \<Longrightarrow>
   fold_r (\<lambda>label total. ok_or e (checked_add_usize total (length label))) labels t =
     (if t + sum_list (map length labels) \<le> usize_max then Inr (t + sum_list (map length labels)) else Inl e)"
  by (induction labels arbitrary: t) (auto simp: checked_add_usize_def)

lemma fold_index_labels:
  assumes "k + length us < 2 ^ 32 - 1"
  shows "case fold_r (index_label al) (zip [k..<k + length us] us) (ids, n) of
      Inr (ids', n') \<Rightarrow> ids' = ids @ zip us (map word_of_nat [k..<k + length us]) \<and> n' = n + sum_list (map length us) \<and>
        distinct us \<and> set us \<inter> fst ` set ids = {}
    | Inl e \<Rightarrow> refused al e \<or>
        e = corrupt ''edge type registry contains duplicate labels'' \<and> \<not> (distinct us \<and> set us \<inter> fst ` set ids = {})"
  using assms
proof (induction us arbitrary: k ids n)
  case (Cons l us)
  have lid: "logical_id e k = Inr (word_of_nat k)" for e
    using Cons.prems by (intro logical_id_small) simp
  have upt: "[k..<k + length (l # us)] = k # [Suc k..<Suc k + length us]"
    by (simp add: upt_conv_Cons del: upt_Suc)
  have absent: "map_of ids l = None \<longleftrightarrow> l \<notin> fst ` set ids" by (rule map_of_eq_None_iff)
  show ?case
  proof (rule try_clone_label_cases [of al l])
    fix e assume "try_clone_label al l = Inl e" "refused al e"
    then show ?thesis unfolding upt by (simp add: index_label_def lid)
  next
    assume clone: "try_clone_label al l = Inr (l, length l)"
    show ?thesis
    proof (cases "map_of ids l")
      case None
      then have up: "AList.update l (word_of_nat k) ids = ids @ [(l, word_of_nat k)]" by (rule update_absent)
      have "Suc k + length us < 2 ^ 32 - 1" using Cons.prems by simp
      from Cons.IH [OF this, of "ids @ [(l, word_of_nat k)]" "n + length l"] show ?thesis
        using None absent unfolding upt
        by (auto simp: index_label_def lid clone up simp del: upt_Suc of_nat_Suc split: sum.splits)
    next
      case (Some v)
      then show ?thesis using absent unfolding upt by (simp add: index_label_def lid clone)
    qed
  qed
qed simp

definition loaded_registry :: "usize \<Rightarrow> owned_label list \<Rightarrow> edge_type_registry" where
  "loaded_registry capacity owned =
     (let labels = map fst owned; bytes = sum_list (map length labels) in
      \<lparr>er_labels = labels, er_labels_capacity = capacity, er_ids = label_ids labels,
        er_ids_capacity = (if length labels \<le> 1 then 0 else hash_capacity 0 (length labels - 1)),
        er_label_bytes = bytes, er_ordered_capacity_bytes = sum_list (map snd owned),
        er_lookup_capacity_bytes = bytes, er_fingerprint = registry_fingerprint labels\<rparr>)"

lemma validate_policy_eq:
  "validate_policy (length ([] # us)) n ([] # us) = Inr () \<longleftrightarrow>
     length us \<le> MAX_USER_EDGE_TYPES \<and> n \<le> MAX_EDGE_TYPE_DICTIONARY_BYTES \<and>
     (\<forall>l\<in>set us. length l \<le> MAX_EDGE_TYPE_LABEL_BYTES)"
  by (simp add: validate_policy_def list_ex_iff not_less ball_Un) (auto simp: not_le)

text \<open>
  loading an ordered list of labels succeeds exactly for the lists the policy allows (reserved empty
  slot zero, no other empty label, no duplicate, within the count, label and dictionary limits), unless
  the allocator refuses; the registry has those labels in that order, and a refused list is corruption.
\<close>

theorem loaded_labels_exact:
  "case try_from_labels al capacity owned of
     Inr r \<Rightarrow> valid_labels (map fst owned) \<and> r = loaded_registry capacity owned
   | Inl e \<Rightarrow> refused al e \<or> (\<exists>reason. e = corrupt reason) \<and> \<not> valid_labels (map fst owned)"
proof (cases "valid_labels (map fst owned) \<or> (\<exists>us. map fst owned = [] # us \<and> [] \<notin> set us \<and> length us < 4294967295)")
  case False
  then have "\<not> valid_labels (map fst owned)" by simp
  moreover have "(case map fst owned of [] \<Rightarrow> True | label # _ \<Rightarrow> label \<noteq> []) \<or> length (map fst owned) > 4294967295 \<or>
      list_ex (\<lambda>label. label = []) (drop 1 (map fst owned))"
  proof (cases "map fst owned")
    case (Cons x us)
    then have "length owned = Suc (length us)" by (metis length_map length_Cons)
    with False Cons show ?thesis by (cases "x = []") (auto simp: list_ex_iff)
  qed simp
  ultimately show ?thesis
    by (auto simp: try_from_labels_def Let_def)
next
  case True
  then obtain us where us: "map fst owned = [] # us" "[] \<notin> set us" "length us < 4294967295"
  proof
    assume "valid_labels (map fst owned)"
    then show thesis by (rule valid_labels_Cons) (auto intro: that)
  qed (auto intro: that)
  let ?n = "sum_list (map length us)"
  have first: "\<not> ((case map fst owned of [] \<Rightarrow> True | label # _ \<Rightarrow> label \<noteq> []) \<or> length (map fst owned) > 4294967295 \<or>
      list_ex (\<lambda>label. label = []) (drop 1 (map fst owned)))"
    using us by (auto simp: list_ex_iff)
  have bytes: "fold_r (\<lambda>label total. ok_or (corrupt ''edge type registry payload overflows'')
      (checked_add_usize total (length label))) (map fst owned) 0 =
      (if ?n \<le> usize_max then Inr ?n else Inl (corrupt ''edge type registry payload overflows''))"
    by (subst fold_lengths) (simp_all add: us(1))
  have valid: "valid_labels (map fst owned) \<longleftrightarrow> distinct us \<and> length us \<le> MAX_USER_EDGE_TYPES \<and>
      ?n \<le> MAX_EDGE_TYPE_DICTIONARY_BYTES \<and> (\<forall>l\<in>set us. length l \<le> MAX_EDGE_TYPE_LABEL_BYTES)"
    using us(2) by (auto simp: valid_labels_def us(1))
  show ?thesis
  proof (cases "?n \<le> usize_max \<and> validate_policy (length (map fst owned)) ?n (map fst owned) = Inr ()")
    case False
    then have "\<not> valid_labels (map fst owned)"
      unfolding valid using False by (simp add: us(1) validate_policy_eq [simplified] usize_max_def
          MAX_EDGE_TYPE_DICTIONARY_BYTES_def)
    moreover have "\<exists>reason. try_from_labels al capacity owned = Inl (corrupt reason)"
      using False first bytes unfolding try_from_labels_def Let_def by (auto simp: validate_policy_def)
    ultimately show ?thesis by auto
  next
    case policy: True
    then have small: "length us \<le> 1000000" "?n \<le> MAX_EDGE_TYPE_DICTIONARY_BYTES"
        "\<forall>l\<in>set us. length l \<le> MAX_EDGE_TYPE_LABEL_BYTES"
      using validate_policy_eq [of us ?n] unfolding us(1) by (simp_all add: MAX_USER_EDGE_TYPES_def)
    have valid': "valid_labels (map fst owned) \<longleftrightarrow> distinct us"
      using small by (simp add: valid MAX_USER_EDGE_TYPES_def)
    have items: "drop 1 (zip [0..<length (map fst owned)] (map fst owned)) = zip [1..<1 + length us] us"
      unfolding us(1) by (simp add: upt_conv_Cons del: upt_Suc)
    have room: "1 + length us < 2 ^ 32 - 1" using small(1) by simp
    show ?thesis
    proof (rule reserve_for_cases [of al "''edge type registry lookup allocation failed: ''" hash_capacity 0
          "length (map fst owned) - 1"])
      fix e assume "reserve_for al ''edge type registry lookup allocation failed: '' hash_capacity 0
          (length (map fst owned) - 1) = Inl e" "refused al e"
      then show ?thesis using first bytes policy unfolding try_from_labels_def Let_def by simp
    next
      fix c assume c: "reserve_for al ''edge type registry lookup allocation failed: '' hash_capacity 0
          (length (map fst owned) - 1) = Inr c"
        "c = (if length (map fst owned) - 1 \<le> 0 then 0 else hash_capacity 0 (length (map fst owned) - 1))"
      show ?thesis
      proof (cases "fold_r (index_label al) (zip [1..<1 + length us] us) ([], 0)")
        case (Inl e)
        then have "try_from_labels al capacity owned = Inl e"
          using first bytes policy c(1) items unfolding try_from_labels_def Let_def by simp
        with fold_index_labels [OF room, of al "[]" 0] Inl valid' show ?thesis by auto
      next
        case (Inr x)
        then obtain ids n where x: "fold_r (index_label al) (zip [1..<1 + length us] us) ([], 0) = Inr (ids, n)"
          by (cases x) auto
        with fold_index_labels [OF room, of al "[]" 0] have ids: "ids = label_ids (map fst owned)" "n = ?n" "distinct us"
          by (simp_all add: label_ids_def us(1) del: upt_Suc)
        have "try_from_labels al capacity owned = Inr (loaded_registry capacity owned)"
          using first bytes policy c(1) items x ids(1,2) unfolding try_from_labels_def loaded_registry_def Let_def
          by (simp add: c(2) us(1))
        then show ?thesis using ids(3) valid' by simp
      qed
    qed
  qed
qed

section \<open>The heap bounds\<close>

lemma next_power_of_two_ge: "n \<le> next_power_of_two n \<and> 1 \<le> next_power_of_two n"
proof (induction n rule: next_power_of_two.induct)
  case (1 n)
  show ?case
  proof (cases "n \<le> 1")
    case True
    then show ?thesis by (simp add: next_power_of_two.simps [of n])
  next
    case False
    moreover have "n \<le> 2 * ((n + 1) div 2)" by simp
    ultimately show ?thesis using 1 by (simp add: next_power_of_two.simps [of n])
  qed
qed

lemma next_power_of_two_mono: "a \<le> b \<Longrightarrow> next_power_of_two a \<le> next_power_of_two b"
proof (induction b arbitrary: a rule: next_power_of_two.induct)
  case (1 b)
  show ?case
  proof (cases "a \<le> 1")
    case True
    then show ?thesis using next_power_of_two_ge [of b] by (simp add: next_power_of_two.simps [of a])
  next
    case False
    with 1 have "next_power_of_two ((a + 1) div 2) \<le> next_power_of_two ((b + 1) div 2)" by (simp add: div_le_mono)
    with False 1(2) show ?thesis by (simp add: next_power_of_two.simps [of a] next_power_of_two.simps [of b])
  qed
qed

lemma next_power_of_two_double: "1 \<le> n \<Longrightarrow> next_power_of_two (2 * n) = 2 * next_power_of_two n"
  by (subst next_power_of_two.simps) simp

lemma vec_capacity_bound: "current < needed \<Longrightarrow> vec_capacity current needed \<le> 4 * next_power_of_two (max needed 1)"
  using next_power_of_two_ge [of "max needed 1"] by (simp add: vec_capacity_def)

lemma hash_capacity_bound:
  assumes "1 \<le> needed"
  shows "hash_capacity current needed \<le> 4 * next_power_of_two needed"
    and "needed \<noteq> 1 \<Longrightarrow> hash_capacity current needed \<le> 2 * next_power_of_two needed"
proof -
  note ge = next_power_of_two_ge [of needed]
  have big: "hash_capacity current needed \<le> 2 * next_power_of_two needed" if "8 \<le> needed"
  proof -
    have "next_power_of_two (needed * 8 div 7) \<le> next_power_of_two (2 * needed)"
      by (rule next_power_of_two_mono) simp
    then have "next_power_of_two (needed * 8 div 7) \<le> 2 * next_power_of_two needed"
      using assms by (simp add: next_power_of_two_double)
    moreover have "b div 8 * 7 \<le> b" for b :: nat by simp
    ultimately show ?thesis using that by (auto simp: hash_capacity_def Let_def intro: le_trans)
  qed
  have two: "hash_capacity current needed \<le> 2 * next_power_of_two needed" if "needed \<noteq> 1"
  proof (cases "8 \<le> needed")
    case False
    then show ?thesis using ge that assms by (auto simp: hash_capacity_def)
  qed (rule big)
  then show "needed \<noteq> 1 \<Longrightarrow> hash_capacity current needed \<le> 2 * next_power_of_two needed" .
  show "hash_capacity current needed \<le> 4 * next_power_of_two needed"
  proof (cases "needed = 1")
    case True
    then show ?thesis using ge by (simp add: hash_capacity_def)
  next
    case False
    from two [OF False] show ?thesis by simp
  qed
qed

lemma collection_bound:
  assumes "collection_capacity_upper_bound current required = Inr s"
    and "current < required \<Longrightarrow> c \<le> 4 * next_power_of_two (max required 1)" "required \<le> current \<Longrightarrow> c \<le> current"
  shows "current \<le> s" "c \<le> s"
  using assms next_power_of_two_ge [of "max required 1"]
  by (auto simp: collection_capacity_upper_bound_def checked_next_power_of_two_def checked_mul_usize_def ok_or_eq_Inr
      split: if_splits Option.bind_splits)

text \<open>What a registration can do to the four quantities the heap estimate reads.\<close>

definition grown_by :: "edge_type_registry \<Rightarrow> edge_type_registry \<Rightarrow> usize \<Rightarrow> usize \<Rightarrow> usize \<Rightarrow> bool" where
  "grown_by r r' a b n \<longleftrightarrow>
     er_labels_capacity r' \<le> a \<and> er_ids_capacity r' \<le> b \<and>
     er_ordered_capacity_bytes r' \<le> er_ordered_capacity_bytes r + n \<and>
     er_lookup_capacity_bytes r' \<le> er_lookup_capacity_bytes r + n"

lemma register_inner_growth:
  assumes "register_inner al r l = (res, r')"
    and a: "er_labels_capacity r \<le> a"
      "\<And>c. c = (if length (er_labels r) + 1 \<le> er_labels_capacity r then er_labels_capacity r
        else vec_capacity (er_labels_capacity r) (length (er_labels r) + 1)) \<Longrightarrow> c \<le> a"
    and b: "er_ids_capacity r \<le> b"
      "\<And>c. c = (if length (er_ids r) + 1 \<le> er_ids_capacity r then er_ids_capacity r
        else hash_capacity (er_ids_capacity r) (length (er_ids r) + 1)) \<Longrightarrow> c \<le> b"
  shows "grown_by r r' a b (length l)"
proof (cases "logical_id (Err EdgeTypeLimit) (length (er_labels r))")
  case (Inl e)
  then show ?thesis using assms by (simp add: register_inner_def grown_by_def)
next
  case lid: (Inr k)
  show ?thesis
  proof (rule reserve_for_cases [of al "''edge type registry allocation failed: ''" vec_capacity
        "er_labels_capacity r" "length (er_labels r) + 1"])
    fix e assume "reserve_for al ''edge type registry allocation failed: '' vec_capacity
        (er_labels_capacity r) (length (er_labels r) + 1) = Inl e"
    with assms lid show ?thesis by (simp add: register_inner_def grown_by_def)
  next
    fix c1 assume "c1 = (if length (er_labels r) + 1 \<le> er_labels_capacity r then er_labels_capacity r
        else vec_capacity (er_labels_capacity r) (length (er_labels r) + 1))"
    then have c1a: "c1 \<le> a" by (rule a(2))
    assume c1: "reserve_for al ''edge type registry allocation failed: '' vec_capacity
        (er_labels_capacity r) (length (er_labels r) + 1) = Inr c1"
    show ?thesis
    proof (rule reserve_for_cases [of al "''edge type lookup allocation failed: ''" hash_capacity
          "er_ids_capacity r" "length (er_ids r) + 1"])
      fix e assume "reserve_for al ''edge type lookup allocation failed: '' hash_capacity
          (er_ids_capacity r) (length (er_ids r) + 1) = Inl e"
      with assms(1) b(1) lid c1 c1a show ?thesis by (auto simp: register_inner_def grown_by_def)
    next
      fix c2 assume "c2 = (if length (er_ids r) + 1 \<le> er_ids_capacity r then er_ids_capacity r
          else hash_capacity (er_ids_capacity r) (length (er_ids r) + 1))"
      then have c2b: "c2 \<le> b" by (rule b(2))
      assume c2: "reserve_for al ''edge type lookup allocation failed: '' hash_capacity
          (er_ids_capacity r) (length (er_ids r) + 1) = Inr c2"
      show ?thesis
      proof (rule try_clone_label_cases [of al l])
        fix e assume "try_clone_label al l = Inl e"
        with assms(1) lid c1 c1a c2 c2b show ?thesis by (auto simp: register_inner_def grown_by_def)
      next
        assume "try_clone_label al l = Inr (l, length l)"
        with assms(1) lid c1 c1a c2 c2b show ?thesis
          by (auto simp: register_inner_def grown_by_def Let_def checked_add_usize_def ok_or_def or_fail_def
              split: if_splits)
      qed
    qed
  qed
qed

lemma heap_bytes_grown:
  assumes "grown_by r r' a b n"
  shows "registry_heap_bytes r' \<le>
    a * 24 + er_ordered_capacity_bytes r + n + b * 64 + er_lookup_capacity_bytes r + n"
  using assms by (auto simp: grown_by_def registry_heap_bytes_def ordered_heap_bytes_def STRING_SIZE_def LOOKUP_ENTRY_SIZE_def
      HASH_ENTRY_OVERHEAD_BYTES_def intro!: add_mono)

lemma registration_growth:
  assumes g: "registration_heap_upper_bound r l = Inr g" and reg: "register al r l = (res, r')"
  shows "registry_heap_bytes r' \<le> registry_heap_bytes r + g"
proof (cases "registry_id r l")
  case (Some k)
  with reg show ?thesis by (simp add: register_def)
next
  case None
  let ?n = "length l"
  from g None obtain a b where
    bytes: "er_label_bytes r + ?n \<le> usize_max" and lim: "\<not> over_limits r l (er_label_bytes r + ?n)" and
    a: "collection_capacity_upper_bound (er_labels_capacity r) (length (er_labels r) + 1) = Inr a" and
    b: "collection_capacity_upper_bound (er_ids_capacity r) (length (er_ids r) + 1) = Inr b" and
    g: "g = a * 24 + er_ordered_capacity_bytes r + ?n + b * 64 + er_lookup_capacity_bytes r + ?n - registry_heap_bytes r"
    by (auto simp: registration_heap_upper_bound_def checked_add_usize_def checked_mul_usize_def ok_or_eq_Inr rbind_eq_Inr
        STRING_SIZE_def LOOKUP_ENTRY_SIZE_def HASH_ENTRY_OVERHEAD_BYTES_def bind_eq_Some_conv split: if_splits)
  have inner: "register_inner al r l = (res, r')"
    using reg None bytes lim by (simp add: register_def checked_add_usize_def)
  have "grown_by r r' a b ?n"
  proof (rule register_inner_growth [OF inner])
    show "er_labels_capacity r \<le> a" by (rule collection_bound(1) [OF a, of 0]) simp_all
    show "er_ids_capacity r \<le> b" by (rule collection_bound(1) [OF b, of 0]) simp_all
  next
    fix c assume "c = (if length (er_labels r) + 1 \<le> er_labels_capacity r then er_labels_capacity r
        else vec_capacity (er_labels_capacity r) (length (er_labels r) + 1))"
    then show "c \<le> a" using vec_capacity_bound
      by (intro collection_bound(2) [OF a]) (auto split: if_splits)
  next
    fix c assume "c = (if length (er_ids r) + 1 \<le> er_ids_capacity r then er_ids_capacity r
        else hash_capacity (er_ids_capacity r) (length (er_ids r) + 1))"
    then show "c \<le> b" using hash_capacity_bound(1) [of "length (er_ids r) + 1"]
      by (intro collection_bound(2) [OF b]) (auto split: if_splits)
  qed
  from heap_bytes_grown [OF this] g show ?thesis by simp
qed

lemma metadata_bytes_eq:
  "metadata_bytes n payload = Inr b \<Longrightarrow> b = n * 24 + payload * 2 + next_power_of_two (max (n - 1) 1) * 2 * 64"
  by (auto simp: metadata_bytes_def checked_add_usize_def checked_mul_usize_def checked_next_power_of_two_def ok_or_eq_Inr
      rbind_eq_Inr STRING_SIZE_def LOOKUP_ENTRY_SIZE_def HASH_ENTRY_OVERHEAD_BYTES_def bind_eq_Some_conv split: if_splits)

lemma loaded_heap_bytes:
  assumes "list_all (\<lambda>(label, capacity). capacity = length label) owned"
  shows "registry_heap_bytes (loaded_registry (length owned) owned) =
    length owned * 24 + 2 * sum_list (map length (map fst owned)) +
    (if length owned \<le> 1 then 0 else hash_capacity 0 (length owned - 1)) * 64"
proof -
  have "sum_list (map snd owned) = sum_list (map (length \<circ> fst) owned)"
    by (rule arg_cong [where f = sum_list]) (use assms in \<open>auto simp: list_all_iff\<close>)
  then show ?thesis
    by (simp add: registry_heap_bytes_def ordered_heap_bytes_def loaded_registry_def Let_def STRING_SIZE_def
        LOOKUP_ENTRY_SIZE_def HASH_ENTRY_OVERHEAD_BYTES_def)
qed

text \<open>
  C35: the bytes a caller reserves cover the heap the registry then holds. A registration, also one that
  fails half-way, grows the heap by at most its preflight bound; a dictionary loaded into exactly sized
  strings stays within the metadata bound, except that with a single user label the hash table's smallest
  allocation makes it 64 bytes larger than the bound.
\<close>

theorem heap_bounds_cover:
  "(registration_heap_upper_bound r label = Inr g \<and> register al r label = (res, r') \<longrightarrow>
      registry_heap_bytes r' \<le> registry_heap_bytes r + g) \<and>
   (try_from_labels al (length owned) owned = Inr loaded \<and> list_all (\<lambda>(l, c). c = length l) owned \<and>
      decoded_heap_upper_bound (length owned) (sum_list (map (length \<circ> fst) owned)) = Inr b \<longrightarrow>
      (if length owned = 2 then registry_heap_bytes loaded = b + 64 else registry_heap_bytes loaded \<le> b))"
proof (intro conjI impI)
  show "registry_heap_bytes r' \<le> registry_heap_bytes r + g"
    if "registration_heap_upper_bound r label = Inr g \<and> register al r label = (res, r')"
    using that registration_growth by blast
next
  assume "try_from_labels al (length owned) owned = Inr loaded \<and> list_all (\<lambda>(l, c). c = length l) owned \<and>
      decoded_heap_upper_bound (length owned) (sum_list (map (length \<circ> fst) owned)) = Inr b"
  then have load: "try_from_labels al (length owned) owned = Inr loaded" and exact: "list_all (\<lambda>(l, c). c = length l) owned"
    and bound: "decoded_heap_upper_bound (length owned) (sum_list (map (length \<circ> fst) owned)) = Inr b" by simp_all
  have loaded: "loaded = loaded_registry (length owned) owned"
    using loaded_labels_exact [where al = al and owned = owned and capacity = "length owned"] load by simp
  let ?k = "length owned" and ?n = "sum_list (map length (map fst owned))"
  from bound have b: "b = ?k * 24 + ?n * 2 + next_power_of_two (max (?k - 1) 1) * 2 * 64"
    by (auto simp: decoded_heap_upper_bound_def o_def dest!: metadata_bytes_eq split: if_splits)
  have heap: "registry_heap_bytes loaded = ?k * 24 + 2 * ?n + (if ?k \<le> 1 then 0 else hash_capacity 0 (?k - 1)) * 64"
    using loaded_heap_bytes [OF exact] loaded by simp
  show "if ?k = 2 then registry_heap_bytes loaded = b + 64 else registry_heap_bytes loaded \<le> b"
  proof (cases "?k = 2")
    case True
    then show ?thesis by (simp add: heap b hash_capacity_def next_power_of_two.simps)
  next
    case False
    show ?thesis
    proof (cases "?k \<le> 1")
      case True
      with False show ?thesis by (simp add: heap b)
    next
      case more: False
      with False have "hash_capacity 0 (?k - 1) \<le> 2 * next_power_of_two (?k - 1)"
        by (intro hash_capacity_bound(2)) auto
      moreover have "max (?k - 1) 1 = ?k - 1" using more by simp
      ultimately show ?thesis using False more by (simp only: heap b) simp
    qed
  qed
qed

definition sample_types :: "owned_label list" where
  "sample_types = [([], 0), ([97, 98], 2)]"

lemma sample_types_load: "try_from_labels granting 2 sample_types = Inr (loaded_registry 2 sample_types)"
  by (simp add: try_from_labels_def loaded_registry_def sample_types_def Let_def checked_add_usize_def usize_max_def
      validate_policy_def MAX_USER_EDGE_TYPES_def MAX_EDGE_TYPE_LABEL_BYTES_def MAX_EDGE_TYPE_DICTIONARY_BYTES_def
      reserve_granting index_label_def logical_id_small try_clone_label_def string_capacity_def label_ids_def)

theorem loaded_labels_exact_witness:
  "valid_labels (map fst sample_types) \<and>
   (\<exists>reason. try_from_labels granting 3 [([], 0), ([97], 1), ([97], 1)] = Inl (corrupt reason))"
proof -
  have "\<not> valid_labels (map fst [([], 0), ([97], 1), ([97 :: u8], 1 :: nat)])" by (simp add: valid_labels_def)
  then show ?thesis
    using loaded_labels_exact [where al = granting and capacity = 2 and owned = sample_types] sample_types_load
      loaded_labels_exact [where al = granting and capacity = 3 and owned = "[([], 0), ([97], 1), ([97], 1)]"]
    by (auto simp: refused_def granting_def split: sum.splits)
qed

theorem heap_bounds_cover_witness:
  "registry_heap_bytes (snd (register granting registry_new [97, 98])) \<le> registry_heap_bytes registry_new + 428 \<and>
   decoded_heap_upper_bound 2 2 = Inr 180 \<and> registry_heap_bytes (loaded_registry 2 sample_types) = 244"
proof -
  have "registration_heap_upper_bound registry_new [97, 98] = Inr 428"
    by (simp add: registration_heap_upper_bound_def registry_id_def registry_new_def checked_add_usize_def checked_mul_usize_def
        usize_max_def over_limits_def MAX_EDGE_TYPE_LABEL_BYTES_def MAX_USER_EDGE_TYPES_def MAX_EDGE_TYPE_DICTIONARY_BYTES_def
        collection_capacity_upper_bound_def checked_next_power_of_two_def next_power_of_two.simps STRING_SIZE_def
        LOOKUP_ENTRY_SIZE_def HASH_ENTRY_OVERHEAD_BYTES_def registry_heap_bytes_def ordered_heap_bytes_def)
  moreover have "decoded_heap_upper_bound 2 2 = Inr 180"
    by (simp add: decoded_heap_upper_bound_def metadata_bytes_def checked_add_usize_def checked_mul_usize_def
        checked_next_power_of_two_def next_power_of_two.simps usize_max_def STRING_SIZE_def LOOKUP_ENTRY_SIZE_def
        HASH_ENTRY_OVERHEAD_BYTES_def MAX_USER_EDGE_TYPES_def MAX_EDGE_TYPE_DICTIONARY_BYTES_def)
  ultimately show ?thesis
    using heap_bounds_cover [where r = registry_new and label = "[97, 98]" and g = 428 and al = granting and
        res = "fst (register granting registry_new [97, 98])" and r' = "snd (register granting registry_new [97, 98])" and
        owned = sample_types and loaded = "loaded_registry 2 sample_types" and b = 180] sample_types_load
    by (simp add: sample_types_def numeral_2_eq_2)
qed

end
