(* ===== verification/EdgeTypeDictionary.thy ===== *)
theory EdgeTypeDictionary
  imports EdgeTypeRegistry
begin

text \<open>
  The durable artifact of the relationship-type dictionary
  (\<open>graph/src/projection/edge_type_dictionary.rs\<close>): a 32 byte header, a table of cumulative label
  ends, the label bytes. \<open>dictionary_artifact\<close> builds the bytes that are written,
  \<open>read_dictionary_file\<close> validates and decodes the contents of a file. The hash of the third-party CRC
  crate is the argument \<open>crc\<close>, a function of the concatenated updates. File and directory
  operations and the reservations of the governor around them are not modelled.
\<close>

section \<open>Encoding\<close>

definition DICTIONARY_MAGIC :: "u8 list" where
  "DICTIONARY_MAGIC = [0x50, 0x47, 0x47, 0x54, 0x59, 0x50, 0x30, 0x31]"

definition DICTIONARY_VERSION :: u32 where "DICTIONARY_VERSION = 1"

definition DICTIONARY_HEADER_SIZE :: usize where "DICTIONARY_HEADER_SIZE = 32"

definition CHECKSUM_OFFSET :: usize where "CHECKSUM_OFFSET = 24"

definition dictionary_checksum :: "(u8 list \<Rightarrow> u32) \<Rightarrow> u8 list \<Rightarrow> u32 graph_result" where
  "dictionary_checksum crc bytes =
     rbind (slice_r bytes 0 CHECKSUM_OFFSET) (\<lambda>before.
     rbind (slice_r bytes (CHECKSUM_OFFSET + 4) (length bytes)) (\<lambda>after.
       Inr (crc (before @ [0, 0, 0, 0] @ after))))"

text \<open>\<open>format!("crc32:{checksum:08x}")\<close>.\<close>

definition hex_digit :: "nat \<Rightarrow> char" where
  "hex_digit d = char_of (if d < 10 then 48 + d else 87 + d)"

definition checksum_text :: "u32 \<Rightarrow> string" where
  "checksum_text w = ''crc32:'' @ map (\<lambda>i. hex_digit (unat w div 16 ^ (7 - i) mod 16)) [0..<8]"

definition append_offset :: "type_label \<Rightarrow> u64 \<times> u8 list \<Rightarrow> (u64 \<times> u8 list) graph_result" where
  "append_offset label = (\<lambda>(offset, bytes).
     rbind (ok_or (corrupt ''relationship type offset overflows'')
       (if unat offset + length label < 2 ^ 64 then Some (offset + word_of_nat (length label)) else None)) (\<lambda>offset.
     Inr (offset, bytes @ bytes_u64 offset)))"

definition dictionary_header :: "u32 \<Rightarrow> usize \<Rightarrow> u8 list" where
  "dictionary_header entry_count payload_len =
     DICTIONARY_MAGIC @ bytes_u32 DICTIONARY_VERSION @ bytes_u32 entry_count @ bytes_u64 (word_of_nat payload_len) @
     replicate 8 0"

definition write_checksum :: "u8 list \<Rightarrow> u32 \<Rightarrow> u8 list" where
  "write_checksum bytes checksum =
     take CHECKSUM_OFFSET bytes @ bytes_u32 checksum @ drop (CHECKSUM_OFFSET + 4) bytes"

text \<open>The bytes of the artifact, its checksum text and its length.\<close>

definition dictionary_artifact ::
  "registry_alloc \<Rightarrow> (u8 list \<Rightarrow> u32) \<Rightarrow> type_label list \<Rightarrow> (u8 list \<times> string \<times> u64) graph_result" where
  "dictionary_artifact al crc labels =
     rbind (ok_or (corrupt ''relationship type count exceeds u32'') (u32_try_from (length labels))) (\<lambda>entry_count.
     rbind (fold_r (\<lambda>label total. ok_or (corrupt ''relationship type payload length overflows'')
         (checked_add_usize total (length label))) labels 0) (\<lambda>payload_len.
     rbind (ok_or (corrupt ''relationship type offset table overflows'')
       (Option.bind (checked_add_usize (length labels) 1) (\<lambda>n. checked_mul_usize n 8))) (\<lambda>offset_bytes.
     rbind (ok_or (corrupt ''relationship type artifact length overflows'')
       (Option.bind (checked_add_usize DICTIONARY_HEADER_SIZE offset_bytes) (\<lambda>n. checked_add_usize n payload_len))) (\<lambda>total_len.
     rbind (reserve_for al ''relationship type artifact allocation failed: '' string_capacity 0 total_len) (\<lambda>_.
     rbind (fold_r append_offset labels (0, dictionary_header entry_count payload_len @ bytes_u64 0)) (\<lambda>(_, table).
     let bytes = table @ concat labels in
     rbind (dictionary_checksum crc bytes) (\<lambda>checksum.
       Inr (write_checksum bytes checksum, checksum_text checksum, word_of_nat (length bytes)))))))))"

section \<open>Decoding\<close>

definition dictionary_u32 :: "u8 list \<Rightarrow> usize \<Rightarrow> u32 graph_result" where
  "dictionary_u32 bytes offset =
     rbind (ok_or (corrupt ''relationship type u32 is out of bounds'') (get_slice_opt bytes offset (offset + 4)))
       (\<lambda>raw. Inr (le_word raw))"

definition dictionary_u64 :: "u8 list \<Rightarrow> usize \<Rightarrow> u64 graph_result" where
  "dictionary_u64 bytes offset =
     rbind (ok_or (corrupt ''relationship type u64 is out of bounds'') (get_slice_opt bytes offset (offset + 8)))
       (\<lambda>raw. Inr (le_word raw))"

text \<open>The byte count and the entry count that the manifest records.\<close>

type_synonym manifest_bounds = "(u64 \<times> u32) option"

definition bytes_mismatch :: "manifest_bounds \<Rightarrow> usize \<Rightarrow> bool" where
  "bytes_mismatch bounds file_len \<longleftrightarrow> (case bounds of None \<Rightarrow> False | Some (n, _) \<Rightarrow> unat n \<noteq> file_len)"

definition validate_dictionary_header ::
  "u8 list \<Rightarrow> usize \<Rightarrow> manifest_bounds \<Rightarrow> (usize \<times> usize \<times> usize) graph_result" where
  "validate_dictionary_header header file_len bounds =
     (if bytes_mismatch bounds file_len then Inl (corrupt ''relationship type manifest byte count mismatch'')
      else rbind (slice_r header 0 8) (\<lambda>magic.
      if magic \<noteq> DICTIONARY_MAGIC then Inl (corrupt ''invalid relationship type artifact magic'')
      else rbind (dictionary_u32 header 8) (\<lambda>version.
      if version \<noteq> DICTIONARY_VERSION then
        Inl (Err (IncompatibleVersion (''relationship type artifact version '' @ show_nat (unat version) @
          '' is unsupported; expected '' @ show_nat (unat DICTIONARY_VERSION))))
      else rbind (dictionary_u32 header 12) (\<lambda>raw_count.
      let entry_count = unat raw_count in
      if entry_count = 0 \<or> entry_count > MAX_USER_EDGE_TYPES + 1 then
        Inl (corrupt ''relationship type count exceeds policy'')
      else if (case bounds of None \<Rightarrow> False | Some (_, n) \<Rightarrow> unat n \<noteq> entry_count) then
        Inl (corrupt ''relationship type manifest count mismatch'')
      else rbind (dictionary_u64 header 16) (\<lambda>raw_len.
      let payload_len = unat raw_len in
      rbind (slice_r header 28 32) (\<lambda>reserved.
      if reserved \<noteq> [0, 0, 0, 0] then Inl (corrupt ''relationship type reserved header bytes must be zero'')
      else if payload_len > MAX_EDGE_TYPE_DICTIONARY_BYTES then
        Inl (corrupt ''relationship type payload exceeds policy'')
      else rbind (ok_or (corrupt ''relationship type offsets overflow'')
        (Option.bind (checked_add_usize entry_count 1) (\<lambda>n. checked_mul_usize n 8))) (\<lambda>offset_bytes.
      rbind (ok_or (corrupt ''relationship type artifact length overflows'')
        (Option.bind (checked_add_usize DICTIONARY_HEADER_SIZE offset_bytes) (\<lambda>n. checked_add_usize n payload_len))) (\<lambda>expected_len.
      if expected_len \<noteq> file_len then Inl (corrupt ''relationship type artifact length mismatch'')
      else Inr (entry_count, payload_len, offset_bytes)))))))))"

type_synonym offset_scan = "usize \<times> (usize \<times> usize) list"

definition scan_offset :: "u8 list \<Rightarrow> usize \<Rightarrow> usize \<Rightarrow> offset_scan \<Rightarrow> offset_scan graph_result" where
  "scan_offset offsets payload_len index = (\<lambda>(previous, ranges).
     rbind (dictionary_u64 offsets (index * 8)) (\<lambda>raw.
     let offset = unat raw in
     if offset < previous \<or> offset > payload_len then Inl (corrupt ''relationship type offsets are invalid'')
     else if index > 0 then
       if index > 1 \<and> offset - previous > MAX_EDGE_TYPE_LABEL_BYTES then
         Inl (corrupt ''relationship type label exceeds policy'')
       else Inr (offset, ranges @ [(previous, offset)])
     else Inr (offset, ranges)))"

definition decode_label :: "registry_alloc \<Rightarrow> u8 list \<Rightarrow> usize \<times> usize \<Rightarrow> owned_label graph_result" where
  "decode_label al payload r =
     rbind (slice_r payload (fst r) (snd r)) (\<lambda>raw.
     rbind (ok_or (corrupt ''relationship type label is not UTF-8'') (from_utf8 raw)) (\<lambda>label.
     rbind (reserve_for al ''relationship type string allocation failed: '' string_capacity 0 (length label)) (\<lambda>cap.
       Inr (label, cap))))"

definition decode_dictionary_bytes ::
  "registry_alloc \<Rightarrow> (u8 list \<Rightarrow> u32) \<Rightarrow> u8 list \<Rightarrow> string option \<Rightarrow> manifest_bounds \<Rightarrow> edge_type_registry graph_result" where
  "decode_dictionary_bytes al crc bytes expected_checksum bounds =
     (if length bytes < DICTIONARY_HEADER_SIZE then
        Inl (corrupt ''relationship type artifact is shorter than its header'')
      else
        rbind (slice_r bytes 0 DICTIONARY_HEADER_SIZE) (\<lambda>header.
        rbind (validate_dictionary_header header (length bytes) bounds) (\<lambda>(entry_count, payload_len, offset_bytes).
        rbind (ok_or (corrupt ''relationship type artifact length overflows'')
          (Option.bind (checked_add_usize DICTIONARY_HEADER_SIZE offset_bytes) (\<lambda>n. checked_add_usize n payload_len))) (\<lambda>_.
        rbind (ok_or (corrupt ''relationship type offsets are out of bounds'')
          (get_slice_opt bytes DICTIONARY_HEADER_SIZE (DICTIONARY_HEADER_SIZE + offset_bytes))) (\<lambda>offsets.
        rbind (reserve_for al ''relationship type offset allocation failed: '' string_capacity 0 entry_count) (\<lambda>_.
        rbind (fold_r (scan_offset offsets payload_len) [0..<entry_count + 1] (0, [])) (\<lambda>(previous, ranges).
        if previous \<noteq> payload_len \<or> (case ranges of [] \<Rightarrow> True | (a, b) # _ \<Rightarrow> a < b) then
          Inl (corrupt ''relationship type offsets do not reserve slot zero'')
        else
          rbind (dictionary_u32 bytes CHECKSUM_OFFSET) (\<lambda>stored_checksum.
          rbind (dictionary_checksum crc bytes) (\<lambda>checksum.
          if stored_checksum \<noteq> checksum \<or>
             (case expected_checksum of None \<Rightarrow> False | Some expected \<Rightarrow> expected \<noteq> checksum_text checksum) then
            Inl (corrupt ''relationship type artifact checksum mismatch'')
          else
            rbind (slice_r bytes (DICTIONARY_HEADER_SIZE + offset_bytes) (length bytes)) (\<lambda>payload.
            rbind (reserve_for al ''relationship type label allocation failed: '' string_capacity 0 entry_count) (\<lambda>capacity.
            rbind (map_r (decode_label al payload) ranges) (\<lambda>labels.
              try_from_labels al capacity labels))))))))))))"

text \<open>Reading the unchanging contents of a file.\<close>

definition read_dictionary_file ::
  "registry_alloc \<Rightarrow> (u8 list \<Rightarrow> u32) \<Rightarrow> u8 list \<Rightarrow> string \<Rightarrow> manifest_bounds \<Rightarrow> edge_type_registry graph_result" where
  "read_dictionary_file al crc contents expected_checksum bounds =
     (if bytes_mismatch bounds (length contents) then
        Inl (corrupt ''relationship type manifest byte count mismatch'')
      else if length contents < DICTIONARY_HEADER_SIZE then
        Inl (corrupt ''relationship type artifact is shorter than its header'')
      else
        rbind (validate_dictionary_header (take DICTIONARY_HEADER_SIZE contents) (length contents) bounds) (\<lambda>_.
        rbind (reserve_for al ''relationship type decode allocation failed: '' string_capacity 0 (length contents)) (\<lambda>_.
          decode_dictionary_bytes al crc contents (Some expected_checksum) bounds)))"

definition RANGE_SIZE :: usize where "RANGE_SIZE = 16"

definition dictionary_decode_upper_bound :: "usize \<Rightarrow> u32 \<Rightarrow> usize graph_result" where
  "dictionary_decode_upper_bound artifact entry_count =
     rbind (ok_or (corrupt ''relationship type offsets overflow'')
       (Option.bind (checked_add_usize (unat entry_count) 1) (\<lambda>n. checked_mul_usize n 8))) (\<lambda>offset_bytes.
     if artifact < DICTIONARY_HEADER_SIZE + offset_bytes then
       Inl (corrupt ''relationship type artifact length is invalid'')
     else
       rbind (decoded_heap_upper_bound (unat entry_count) (artifact - DICTIONARY_HEADER_SIZE - offset_bytes)) (\<lambda>registry.
       ok_or (corrupt ''relationship type decode bound overflowed'')
         (Option.bind (checked_add_usize artifact offset_bytes) (\<lambda>a.
          Option.bind (checked_mul_usize (unat entry_count) RANGE_SIZE) (\<lambda>b.
          Option.bind (checked_add_usize a b) (\<lambda>c. checked_add_usize c registry))))))"

section \<open>Layout of an artifact\<close>

definition label_end :: "type_label list \<Rightarrow> nat \<Rightarrow> nat" where
  "label_end labels i = sum_list (map length (take i labels))"

definition offset_table :: "type_label list \<Rightarrow> u8 list" where
  "offset_table labels = concat (map (\<lambda>i. bytes_u64 (word_of_nat (label_end labels i))) [0..<length labels + 1])"

definition artifact_layout :: "type_label list \<Rightarrow> u32 \<Rightarrow> u8 list" where
  "artifact_layout labels checksum =
     (DICTIONARY_MAGIC @ bytes_u32 DICTIONARY_VERSION @ bytes_u32 (word_of_nat (length labels)) @
      bytes_u64 (word_of_nat (sum_list (map length labels)))) @
     bytes_u32 checksum @ [0, 0, 0, 0] @ offset_table labels @ concat labels"

lemma unat_of_nat_u64: "n < 2 ^ 64 \<Longrightarrow> unat (word_of_nat n :: u64) = n"
  by (simp add: unat_of_nat)

lemma slice_mid: "i = length a \<Longrightarrow> j = length a + length b \<Longrightarrow> slice i j (a @ b @ c) = b"
  by (simp add: slice_def)

lemma get_slice_mid: "i = length a \<Longrightarrow> j = length a + length b \<Longrightarrow> get_slice_opt (a @ b @ c) i j = Some b"
  by (simp add: get_slice_opt_def slice_def)

lemma label_end_Suc: "i < length labels \<Longrightarrow> label_end labels (Suc i) = label_end labels i + length (labels ! i)"
  by (simp add: label_end_def take_Suc_conv_app_nth)

lemma label_end_all [simp]: "label_end labels 0 = 0" "label_end labels (length labels) = sum_list (map length labels)"
  by (simp_all add: label_end_def)

lemma label_end_le: "label_end labels i \<le> sum_list (map length labels)"
proof -
  have "label_end labels i + sum_list (map length (drop i labels)) = sum_list (map length labels)"
    unfolding label_end_def by (metis append_take_drop_id map_append sum_list_append)
  then show ?thesis by simp
qed

lemma slice_concat_label:
  assumes "i < length labels"
  shows "slice (label_end labels i) (label_end labels (Suc i)) (concat labels) = labels ! i"
proof -
  have "concat labels = concat (take i labels) @ labels ! i @ concat (drop (Suc i) labels)"
    using assms by (metis concat.simps(2) concat_append id_take_nth_drop)
  moreover have "length (concat (take i labels)) = label_end labels i"
    by (simp add: label_end_def length_concat)
  ultimately show ?thesis using label_end_Suc [OF assms] by (simp add: slice_mid)
qed

lemma length_offset_table [simp]: "length (offset_table labels) = 8 * (length labels + 1)"
  unfolding offset_table_def by (subst length_concat_width [where w = 8]) auto

lemma offset_table_at:
  assumes "i \<le> length labels" "sum_list (map length labels) < 2 ^ 64"
  shows "dictionary_u64 (offset_table labels) (i * 8) = Inr (word_of_nat (label_end labels i))"
proof -
  let ?xs = "map (\<lambda>i. bytes_u64 (word_of_nat (label_end labels i))) [0..<length labels + 1]"
  have "slice (8 * i) (8 * i + 8) (concat ?xs) = ?xs ! i"
    by (rule slice_concat_width) (use assms(1) in auto)
  moreover have "?xs ! i = bytes_u64 (word_of_nat (label_end labels i))" using assms(1) by (simp del: upt_Suc)
  ultimately have "slice (i * 8) (i * 8 + 8) (offset_table labels) = bytes_u64 (word_of_nat (label_end labels i))"
    by (simp add: offset_table_def mult.commute)
  then show ?thesis using assms(1) by (simp add: dictionary_u64_def get_slice_opt_def)
qed

lemma fold_append_offset:
  "sum_list (map length labels) < 2 ^ 64 \<Longrightarrow>
   fold_r append_offset labels (0, h @ bytes_u64 0) =
     Inr (word_of_nat (sum_list (map length labels)), h @ offset_table labels)"
proof (induction labels rule: rev_induct)
  case (snoc l labels)
  let ?n = "sum_list (map length labels)"
  have n: "unat (word_of_nat ?n :: u64) = ?n" using snoc.prems by (intro unat_of_nat_u64) simp
  have same: "label_end (labels @ [l]) i = label_end labels i" if "i \<le> length labels" for i
    using that by (simp add: label_end_def)
  let ?at = "\<lambda>labels i. bytes_u64 (word_of_nat (label_end labels i))"
  have maps: "map (?at (labels @ [l])) [0..<length labels + 1] = map (?at labels) [0..<length labels + 1]"
    by (rule map_cong [OF refl]) (auto simp: same)
  have "offset_table (labels @ [l]) =
      concat (map (?at (labels @ [l])) [0..<length labels + 1]) @ ?at (labels @ [l]) (Suc (length labels))"
    by (simp add: offset_table_def)
  then have "offset_table (labels @ [l]) = offset_table labels @ bytes_u64 (word_of_nat (?n + length l))"
    using label_end_all(2) [of "labels @ [l]"] unfolding maps by (simp add: offset_table_def)
  with snoc n show ?case by (simp add: fold_r_append append_offset_def)
qed (simp add: offset_table_def)

lemma dictionary_checksum_patch:
  assumes "28 \<le> length bytes"
  shows "dictionary_checksum crc (write_checksum bytes c) = dictionary_checksum crc bytes"
  using assms by (simp add: dictionary_checksum_def write_checksum_def CHECKSUM_OFFSET_def slice_def)

lemma dictionary_artifact_bytes:
  assumes valid: "valid_labels labels" and grant: "\<And>n. refusal al n = None"
  obtains c where "dictionary_artifact al crc labels =
      Inr (artifact_layout labels c, checksum_text c, word_of_nat (length (artifact_layout labels c)))"
    and "dictionary_checksum crc (artifact_layout labels c) = Inr c"
proof -
  let ?n = "sum_list (map length labels)" and ?k = "length labels"
  let ?h = "dictionary_header (word_of_nat ?k) ?n"
  have lim: "?k \<le> 1000001" "?n \<le> 268435456"
    using valid by (simp_all add: valid_labels_def MAX_USER_EDGE_TYPES_def MAX_EDGE_TYPE_DICTIONARY_BYTES_def)
  define bytes where "bytes = ?h @ offset_table labels @ concat labels"
  have len: "length ?h = 32" by (simp add: dictionary_header_def DICTIONARY_MAGIC_def)
  define c where "c = crc (take 24 bytes @ [0, 0, 0, 0] @ drop 28 bytes)"
  have sum: "dictionary_checksum crc bytes = Inr c"
    by (simp add: dictionary_checksum_def CHECKSUM_OFFSET_def c_def bytes_def len slice_def)
  have patched: "write_checksum bytes c = artifact_layout labels c"
    by (simp add: write_checksum_def bytes_def artifact_layout_def dictionary_header_def CHECKSUM_OFFSET_def
        DICTIONARY_MAGIC_def numeral_eq_Suc)
  have payload: "fold_r (\<lambda>label total. ok_or (corrupt ''relationship type payload length overflows'')
      (checked_add_usize total (length label))) labels 0 = Inr ?n"
    using lim(2) by (subst fold_lengths) (simp_all add: usize_max_def)
  have "dictionary_artifact al crc labels = Inr (write_checksum bytes c, checksum_text c, word_of_nat (length bytes))"
    using lim grant sum
    unfolding dictionary_artifact_def payload
    by (simp add: u32_try_from_def checked_add_usize_def checked_mul_usize_def usize_max_def
        DICTIONARY_HEADER_SIZE_def reserve_for_def fold_append_offset bytes_def Let_def)
  moreover have "length (write_checksum bytes c) = length bytes"
    by (simp add: write_checksum_def bytes_def len CHECKSUM_OFFSET_def)
  moreover have "dictionary_checksum crc (artifact_layout labels c) = Inr c"
    unfolding patched [symmetric] using dictionary_checksum_patch [of bytes crc c] sum by (simp add: bytes_def len)
  ultimately show thesis using patched by (intro that) simp_all
qed

lemma layout_header:
  "take 32 (artifact_layout labels c) =
    DICTIONARY_MAGIC @ bytes_u32 DICTIONARY_VERSION @ bytes_u32 (word_of_nat (length labels)) @
    bytes_u64 (word_of_nat (sum_list (map length labels))) @ bytes_u32 c @ [0, 0, 0, 0]"
  by (simp add: artifact_layout_def DICTIONARY_MAGIC_def numeral_eq_Suc)

lemma length_magic [simp]: "length DICTIONARY_MAGIC = 8"
  by (simp add: DICTIONARY_MAGIC_def)

lemma length_layout:
  "length (artifact_layout labels c) = 32 + 8 * (length labels + 1) + sum_list (map length labels)"
  by (simp add: artifact_layout_def length_concat)

lemma header_fields:
  fixes m v k n c z :: "u8 list"
  assumes "length m = 8" "length v = 4" "length k = 4" "length n = 8" "length c = 4" "length z = 4"
  shows "slice_r (m @ v @ k @ n @ c @ z) 0 8 = Inr m"
    and "dictionary_u32 (m @ v @ k @ n @ c @ z) 8 = Inr (le_word v)"
    and "dictionary_u32 (m @ v @ k @ n @ c @ z) 12 = Inr (le_word k)"
    and "dictionary_u64 (m @ v @ k @ n @ c @ z) 16 = Inr (le_word n)"
    and "slice_r (m @ v @ k @ n @ c @ z) 28 32 = Inr z"
  using assms get_slice_mid [of 8 m 12 v "k @ n @ c @ z"] get_slice_mid [of 12 "m @ v" 16 k "n @ c @ z"]
    get_slice_mid [of 16 "m @ v @ k" 24 n "c @ z"]
  by (simp_all add: slice_r_def dictionary_u32_def dictionary_u64_def slice_def)

lemma header_valid:
  assumes valid: "valid_labels labels" and b: "bounds = None \<or>
    bounds = Some (word_of_nat (length (artifact_layout labels c)), word_of_nat (length labels))"
  shows "validate_dictionary_header (take 32 (artifact_layout labels c)) (length (artifact_layout labels c)) bounds =
    Inr (length labels, sum_list (map length labels), (length labels + 1) * 8)"
proof -
  let ?n = "sum_list (map length labels)" and ?k = "length labels"
  have lim: "?k \<noteq> 0" "?k \<le> 1000001" "?n \<le> 268435456"
    using valid by (simp_all add: valid_labels_def MAX_USER_EDGE_TYPES_def MAX_EDGE_TYPE_DICTIONARY_BYTES_def)
  have k: "unat (word_of_nat ?k :: u32) = ?k" using lim(2) by (intro unat_of_nat_u32) simp
  have n: "unat (word_of_nat ?n :: u64) = ?n" using lim(3) by (intro unat_of_nat_u64) simp
  have len: "unat (word_of_nat (length (artifact_layout labels c)) :: u64) = length (artifact_layout labels c)"
    using lim by (intro unat_of_nat_u64) (simp add: length_layout)
  show ?thesis
    unfolding validate_dictionary_header_def layout_header
    by (subst header_fields, simp_all)+
       (use b lim k n len in \<open>auto simp: bytes_mismatch_def MAX_USER_EDGE_TYPES_def MAX_EDGE_TYPE_DICTIONARY_BYTES_def
          checked_add_usize_def checked_mul_usize_def usize_max_def DICTIONARY_HEADER_SIZE_def length_layout Let_def\<close>)
qed

lemma scan_offsets_ok:
  assumes valid: "valid_labels labels"
  shows "fold_r (scan_offset (offset_table labels) (sum_list (map length labels))) [0..<length labels + 1] (0, []) =
    Inr (sum_list (map length labels), map (\<lambda>j. (label_end labels j, label_end labels (Suc j))) [0..<length labels])"
proof -
  let ?n = "sum_list (map length labels)"
  have n: "?n \<le> 268435456"
    using valid by (simp add: valid_labels_def MAX_EDGE_TYPE_DICTIONARY_BYTES_def)
  have at: "unat (word_of_nat (label_end labels i) :: u64) = label_end labels i" for i
    using label_end_le [of labels i] n by (intro unat_of_nat_u64) simp
  define P where "P = (\<lambda>i s. s = (label_end labels (i - 1),
      map (\<lambda>j. (label_end labels j, label_end labels (Suc j))) [0..<i - 1]))"
  have "\<exists>s. fold_r (scan_offset (offset_table labels) ?n) [0..<length labels + 1] (0, []) = Inr s \<and>
      P (0 + length [0..<length labels + 1]) s"
  proof (rule fold_r_count)
    show "P 0 (0, [])" by (simp add: P_def)
    fix i s assume i: "i < length [0..<length labels + 1]" and s: "P (0 + i) s"
    then have il: "i \<le> length labels" by simp
    have idx: "[0..<length labels + 1] ! i = i" using i by (simp del: upt_Suc)
    have off: "dictionary_u64 (offset_table labels) (i * 8) = Inr (word_of_nat (label_end labels i))"
      using offset_table_at [OF il] n by simp
    show "\<exists>s'. scan_offset (offset_table labels) ?n ([0..<length labels + 1] ! i) s = Inr s' \<and> P (Suc (0 + i)) s'"
    proof (cases i)
      case 0
      then show ?thesis using s off at [of 0] unfolding idx by (simp add: P_def scan_offset_def)
    next
      case (Suc j)
      then have j: "j < length labels" using il by simp
      have "length (labels ! j) \<le> MAX_EDGE_TYPE_LABEL_BYTES" using valid j by (simp add: valid_labels_def)
      then show ?thesis
        using s off at [of i] label_end_Suc [OF j] label_end_le [of labels i] unfolding idx
        by (simp add: P_def scan_offset_def Suc Let_def)
    qed
  qed
  then show ?thesis by (simp add: P_def)
qed

lemma decode_labels_ok:
  assumes grant: "\<And>n. refusal al n = None" and utf8: "list_all utf8_ok labels"
  shows "map_r (decode_label al (concat labels)) (map (\<lambda>j. (label_end labels j, label_end labels (Suc j))) [0..<length labels]) =
    Inr (map (\<lambda>l. (l, length l)) labels)"
proof -
  have "decode_label al (concat labels) (label_end labels j, label_end labels (Suc j)) = Inr (labels ! j, length (labels ! j))"
    if j: "j < length labels" for j
  proof -
    have "label_end labels (Suc j) \<le> length (concat labels)"
      using label_end_le [of labels "Suc j"] by (simp add: length_concat)
    then show ?thesis using j utf8 grant slice_concat_label [OF j] label_end_Suc [OF j]
      by (simp add: decode_label_def from_utf8_def list_all_length reserve_for_def string_capacity_def)
  qed
  then show ?thesis unfolding map_r_eq_Inr list_all2_conv_all_nth by simp
qed

lemma loads_valid:
  assumes "valid_labels (map fst owned)" "\<And>n. refusal al n = None"
  shows "try_from_labels al capacity owned = Inr (loaded_registry capacity owned)"
  using loaded_labels_exact [where al = al and capacity = capacity and owned = owned] assms
  by (auto simp: refused_def split: sum.splits)

lemma decode_layout:
  assumes valid: "valid_labels labels" and utf8: "list_all utf8_ok labels" and grant: "\<And>n. refusal al n = None"
    and sum: "dictionary_checksum crc (artifact_layout labels c) = Inr c"
    and expected: "expected = None \<or> expected = Some (checksum_text c)" and b: "bounds = None \<or>
      bounds = Some (word_of_nat (length (artifact_layout labels c)), word_of_nat (length labels))"
  shows "decode_dictionary_bytes al crc (artifact_layout labels c) expected bounds =
    Inr (loaded_registry (length labels) (map (\<lambda>l. (l, length l)) labels))"
proof -
  let ?n = "sum_list (map length labels)" and ?k = "length labels" and ?b = "artifact_layout labels c"
  have lim: "?k \<le> 1000001" "?n \<le> 268435456" "?k \<noteq> 0"
    using valid by (simp_all add: valid_labels_def MAX_USER_EDGE_TYPES_def MAX_EDGE_TYPE_DICTIONARY_BYTES_def)
  let ?h = "take 32 ?b"
  have hlen: "length ?h = 32" by (simp add: length_layout)
  have split: "?b = ?h @ offset_table labels @ concat labels"
    unfolding layout_header by (simp add: artifact_layout_def)
  have offs: "get_slice_opt ?b 32 (32 + (?k + 1) * 8) = Some (offset_table labels)"
    by (subst split, rule get_slice_mid) (simp_all add: length_layout)
  have payload: "(slice_r ?b (32 + (?k + 1) * 8) (length ?b) :: u8 list graph_result) = Inr (concat labels)"
    using slice_mid [of "32 + (?k + 1) * 8" "?h @ offset_table labels" "length ?b" "concat labels" "[]"] split hlen
    by (simp add: slice_r_def length_layout length_concat)
  have stored: "dictionary_u32 ?b 24 = Inr c"
  proof -
    let ?m = "DICTIONARY_MAGIC @ bytes_u32 DICTIONARY_VERSION @ bytes_u32 (word_of_nat ?k) @ bytes_u64 (word_of_nat ?n)"
    have "get_slice_opt (?m @ bytes_u32 c @ [0, 0, 0, 0] @ offset_table labels @ concat labels) 24 28 = Some (bytes_u32 c)"
      by (rule get_slice_mid) simp_all
    then show ?thesis by (simp add: dictionary_u32_def artifact_layout_def)
  qed
  let ?r = "map (\<lambda>j. (label_end labels j, label_end labels (Suc j))) [0..<?k]"
  have first: "\<not> (case ?r of [] \<Rightarrow> True | (a, b) # _ \<Rightarrow> a < b)"
  proof -
    have "labels ! 0 = []" using valid by (cases labels) (simp_all add: valid_labels_def)
    then have "label_end labels (Suc 0) = 0" using label_end_Suc [of 0 labels] lim(3) by simp
    moreover have "?r = (label_end labels 0, label_end labels (Suc 0)) # map (\<lambda>j. (label_end labels j, label_end labels (Suc j))) [1..<?k]"
      using lim(3) by (simp add: upt_conv_Cons)
    ultimately show ?thesis by simp
  qed
  have ids: "map fst (map (\<lambda>l. (l, length l)) labels) = labels" by (simp add: comp_def)
  have adds: "Option.bind (checked_add_usize 32 ((?k + 1) * 8)) (\<lambda>n. checked_add_usize n ?n) = Some (32 + (?k + 1) * 8 + ?n)"
    using lim by (simp add: checked_add_usize_def usize_max_def)
  have grants: "reserve_for al what string_capacity 0 m = Inr m" for what m
    using grant by (simp add: reserve_for_def string_capacity_def)
  have big: "\<not> length ?b < 32" by (simp add: length_layout)
  have whole: "(slice_r ?b 0 32 :: u8 list graph_result) = Inr ?h" by (simp add: slice_r_def slice_def length_layout)
  show ?thesis
    unfolding decode_dictionary_bytes_def DICTIONARY_HEADER_SIZE_def CHECKSUM_OFFSET_def
    using big whole header_valid [OF valid b] adds offs grants scan_offsets_ok [OF valid] first stored sum expected payload
      decode_labels_ok [OF grant utf8] loads_valid [where owned = "map (\<lambda>l. (l, length l)) labels", unfolded ids, OF valid grant]
    by (auto simp del: upt_Suc)
qed

text \<open>
  C36: a dictionary of valid UTF-8 labels is written and read back as the registry of the same labels in
  the same order, under the checksum and the byte and entry counts that the writer reports, for every
  checksum function.
\<close>

theorem dictionary_roundtrip:
  assumes "valid_labels labels" "list_all utf8_ok labels" "\<And>n. refusal al n = None"
  shows "\<exists>contents text size_bytes. dictionary_artifact al crc labels = Inr (contents, text, size_bytes) \<and>
    read_dictionary_file al crc contents text (Some (size_bytes, word_of_nat (length labels))) =
      Inr (loaded_registry (length labels) (map (\<lambda>l. (l, length l)) labels))"
proof -
  obtain c where c: "dictionary_artifact al crc labels =
      Inr (artifact_layout labels c, checksum_text c, word_of_nat (length (artifact_layout labels c)))"
    "dictionary_checksum crc (artifact_layout labels c) = Inr c"
    by (rule dictionary_artifact_bytes [OF assms(1,3)])
  let ?b = "artifact_layout labels c"
  let ?bounds = "Some (word_of_nat (length ?b) :: u64, word_of_nat (length labels) :: u32)"
  have "sum_list (map length labels) \<le> 268435456" "length labels \<le> 1000001"
    using assms(1) by (simp_all add: valid_labels_def MAX_USER_EDGE_TYPES_def MAX_EDGE_TYPE_DICTIONARY_BYTES_def)
  then have "unat (word_of_nat (length ?b) :: u64) = length ?b"
    by (intro unat_of_nat_u64) (simp add: length_layout)
  then have "\<not> bytes_mismatch ?bounds (length ?b)" by (simp add: bytes_mismatch_def)
  moreover have "\<not> length ?b < 32" by (simp add: length_layout)
  ultimately have "read_dictionary_file al crc ?b (checksum_text c) ?bounds =
      Inr (loaded_registry (length labels) (map (\<lambda>l. (l, length l)) labels))"
    using header_valid [OF assms(1), of ?bounds c] assms(3)
      decode_layout [OF assms c(2), of "Some (checksum_text c)" ?bounds]
    by (simp add: read_dictionary_file_def DICTIONARY_HEADER_SIZE_def reserve_for_def)
  with c(1) show ?thesis by blast
qed

section \<open>What decoding establishes\<close>

definition dictionary_fault :: "registry_alloc \<Rightarrow> graph_error fault \<Rightarrow> bool" where
  "dictionary_fault al e \<longleftrightarrow>
     refused al e \<or> (\<exists>reason. e = Err (CorruptFile reason)) \<or> (\<exists>reason. e = Err (IncompatibleVersion reason))"

text \<open>\<open>decoded al P r\<close>: the computation ends with such a fault, in particular without a panic, or establishes \<open>P\<close>.\<close>

definition decoded :: "registry_alloc \<Rightarrow> ('a \<Rightarrow> bool) \<Rightarrow> 'a graph_result \<Rightarrow> bool" where
  "decoded al P r \<longleftrightarrow> (case r of Inl e \<Rightarrow> dictionary_fault al e | Inr x \<Rightarrow> P x)"

lemma decoded_simps [simp]:
  "decoded al P (Inr x) \<longleftrightarrow> P x" "decoded al P (Inl (corrupt s))" "decoded al P (Inl (Err (IncompatibleVersion s)))"
  by (simp_all add: decoded_def dictionary_fault_def corrupt_def)

lemma decoded_bind: "decoded al Q m \<Longrightarrow> (\<And>x. Q x \<Longrightarrow> decoded al P (f x)) \<Longrightarrow> decoded al P (rbind m f)"
  by (cases m) (simp_all add: decoded_def)

lemma decoded_if: "(b \<Longrightarrow> decoded al P x) \<Longrightarrow> (\<not> b \<Longrightarrow> decoded al P y) \<Longrightarrow> decoded al P (if b then x else y)"
  by simp

lemma decoded_ok_or: "(\<And>x. m = Some x \<Longrightarrow> decoded al P (f x)) \<Longrightarrow> decoded al P (rbind (ok_or (corrupt s) m) f)"
  by (cases m) simp_all

lemma decoded_reserve:
  "(\<And>c. c = (if needed \<le> current then current else policy current needed) \<Longrightarrow> decoded al P (f c)) \<Longrightarrow>
   decoded al P (rbind (reserve_for al what policy current needed) f)"
  by (rule reserve_for_cases [of al what policy current needed]) (auto simp: decoded_def dictionary_fault_def)

lemma decoded_fold:
  assumes "\<And>pre x post s. xs = pre @ x # post \<Longrightarrow> P pre s \<Longrightarrow> decoded al (P (pre @ [x])) (f x s)" "P [] s"
  shows "decoded al (P xs) (fold_r f xs s)"
proof -
  have "decoded al (P xs) (fold_r f post s)" if "xs = pre @ post" "P pre s" for pre post s
    using that
  proof (induction post arbitrary: pre s)
    case (Cons x post)
    have "decoded al (P (pre @ [x])) (f x s)" by (rule assms(1)) (use Cons.prems in auto)
    then show ?case using Cons.IH [of "pre @ [x]"] Cons.prems(1) by (auto intro: decoded_bind)
  qed simp
  from this [of "[]" xs s] assms(2) show ?thesis by simp
qed

lemma decoded_map:
  "(\<And>x. x \<in> set xs \<Longrightarrow> decoded al (Q x) (f x)) \<Longrightarrow> decoded al (list_all2 Q xs) (map_r f xs)"
proof (induction xs)
  case (Cons x xs)
  then have "decoded al (Q x) (f x)" "decoded al (list_all2 Q xs) (map_r f xs)" by simp_all
  then show ?case by (auto intro!: decoded_bind)
qed simp

lemma dictionary_u32_in: "i + 4 \<le> length bytes \<Longrightarrow> dictionary_u32 bytes i = Inr (le_word (slice i (i + 4) bytes))"
  by (simp add: dictionary_u32_def get_slice_opt_def)

lemma dictionary_u64_in: "i + 8 \<le> length bytes \<Longrightarrow> dictionary_u64 bytes i = Inr (le_word (slice i (i + 8) bytes))"
  by (simp add: dictionary_u64_def get_slice_opt_def)

definition header_facts :: "u8 list \<Rightarrow> usize \<Rightarrow> manifest_bounds \<Rightarrow> usize \<times> usize \<times> usize \<Rightarrow> bool" where
  "header_facts header file_len bounds = (\<lambda>(entry_count, payload_len, offset_bytes).
     offset_bytes = (entry_count + 1) * 8 \<and> 32 + offset_bytes + payload_len = file_len \<and>
     0 < entry_count \<and> entry_count \<le> 1000001 \<and> payload_len \<le> MAX_EDGE_TYPE_DICTIONARY_BYTES \<and>
     entry_count = unat (le_word (slice 12 16 header) :: u32) \<and>
     (\<forall>n k. bounds = Some (n, k) \<longrightarrow> unat n = file_len \<and> unat k = entry_count))"

lemma header_checked:
  assumes "length header = 32"
  shows "decoded al (header_facts header file_len bounds) (validate_dictionary_header header file_len bounds)"
proof -
  have reads: "slice_r header 0 8 = Inr (slice 0 8 header)" "slice_r header 28 32 = Inr (slice 28 32 header)"
    "dictionary_u32 header 8 = Inr (le_word (slice 8 12 header))" "dictionary_u32 header 12 = Inr (le_word (slice 12 16 header))"
    "dictionary_u64 header 16 = Inr (le_word (slice 16 24 header))"
    using assms dictionary_u32_in [of 8 header] dictionary_u32_in [of 12 header] dictionary_u64_in [of 16 header] by simp_all
  show ?thesis
    unfolding validate_dictionary_header_def reads rbind_Inr Let_def
  proof (intro decoded_if decoded_ok_or)
    fix offset_bytes expected_len
    assume "\<not> bytes_mismatch bounds file_len"
      and "\<not> (case bounds of None \<Rightarrow> False | Some (_, n) \<Rightarrow> unat n \<noteq> unat (le_word (slice 12 16 header) :: u32))"
      and "\<not> (unat (le_word (slice 12 16 header) :: u32) = 0 \<or> MAX_USER_EDGE_TYPES + 1 < unat (le_word (slice 12 16 header) :: u32))"
      and "\<not> MAX_EDGE_TYPE_DICTIONARY_BYTES < unat (le_word (slice 16 24 header) :: u64)"
      and "Option.bind (checked_add_usize (unat (le_word (slice 12 16 header) :: u32)) 1) (\<lambda>n. checked_mul_usize n 8) = Some offset_bytes"
      and "Option.bind (checked_add_usize DICTIONARY_HEADER_SIZE offset_bytes)
        (\<lambda>n. checked_add_usize n (unat (le_word (slice 16 24 header) :: u64))) = Some expected_len"
      and "\<not> expected_len \<noteq> file_len"
    then show "decoded al (header_facts header file_len bounds)
      (Inr (unat (le_word (slice 12 16 header) :: u32), unat (le_word (slice 16 24 header) :: u64), offset_bytes))"
      by (auto simp: header_facts_def bytes_mismatch_def checked_add_usize_def checked_mul_usize_def DICTIONARY_HEADER_SIZE_def
          MAX_USER_EDGE_TYPES_def bind_eq_Some_conv split: if_splits)
  qed simp_all
qed

definition stored_offset :: "u8 list \<Rightarrow> nat \<Rightarrow> nat" where
  "stored_offset offsets i = unat (le_word (slice (i * 8) (i * 8 + 8) offsets) :: u64)"

definition scanned_offsets :: "u8 list \<Rightarrow> usize \<Rightarrow> nat \<Rightarrow> offset_scan \<Rightarrow> bool" where
  "scanned_offsets offsets payload_len i = (\<lambda>(previous, ranges).
     previous = (if i = 0 then 0 else stored_offset offsets (i - 1)) \<and>
     ranges = map (\<lambda>j. (stored_offset offsets j, stored_offset offsets (Suc j))) [0..<i - 1] \<and>
     (\<forall>j. Suc j < i \<longrightarrow> stored_offset offsets j \<le> stored_offset offsets (Suc j)) \<and>
     (\<forall>j<i. stored_offset offsets j \<le> payload_len))"

lemma scan_checked:
  assumes "length offsets = 8 * (k + 1)"
  shows "decoded al (scanned_offsets offsets n (k + 1)) (fold_r (scan_offset offsets n) [0..<k + 1] (0, []))"
proof -
  have "decoded al (\<lambda>s. scanned_offsets offsets n (length [0..<k + 1]) s) (fold_r (scan_offset offsets n) [0..<k + 1] (0, []))"
  proof (rule decoded_fold)
    show "scanned_offsets offsets n (length []) (0, [])" by (simp add: scanned_offsets_def)
    fix pre i post s assume cut: "[0..<k + 1] = pre @ i # post" and P: "scanned_offsets offsets n (length pre) s"
    have pre: "length pre < k + 1" using arg_cong [OF cut, of length] by simp
    then have "[0..<k + 1] ! length pre = length pre" by (simp del: upt_Suc)
    moreover have "[0..<k + 1] ! length pre = i" unfolding cut by simp
    ultimately have i: "i = length pre" "i \<le> k" using pre by simp_all
    have read: "dictionary_u64 offsets (i * 8) = Inr (le_word (slice (i * 8) (i * 8 + 8) offsets))"
      using assms i(2) by (intro dictionary_u64_in) simp
    obtain previous ranges where s: "s = (previous, ranges)" by (cases s)
    have step: "scanned_offsets offsets n (Suc i) (stored_offset offsets i, ranges')"
      if "previous \<le> stored_offset offsets i" "stored_offset offsets i \<le> n"
        "ranges' = (if i = 0 then ranges else ranges @ [(previous, stored_offset offsets i)])" for ranges'
      using P that unfolding s i(1) [symmetric]
      by (cases i) (auto simp: scanned_offsets_def less_Suc_eq)
    show "decoded al (scanned_offsets offsets n (length (pre @ [i]))) (scan_offset offsets n i s)"
      unfolding s scan_offset_def prod.case read rbind_Inr Let_def stored_offset_def [symmetric]
      by (intro decoded_if) (use step i(1) in \<open>simp_all\<close>)
  qed
  then show ?thesis by simp
qed

lemma slice_chain: "i \<le> j \<Longrightarrow> j \<le> k \<Longrightarrow> slice i j xs @ slice j k xs = slice i k xs"
proof -
  assume ij: "i \<le> j" and jk: "j \<le> k"
  then have split: "k - i = (j - i) + (k - j)" by simp
  show ?thesis unfolding slice_def split take_add using ij by simp
qed

lemma concat_slices:
  "(\<And>j. j < k \<Longrightarrow> off j \<le> off (Suc j)) \<Longrightarrow>
   concat (map (\<lambda>j. slice (off j) (off (Suc j)) xs) [0..<k]) = slice (off 0) (off k) xs \<and> off 0 \<le> off k"
proof (induction k)
  case (Suc k)
  then have "concat (map (\<lambda>j. slice (off j) (off (Suc j)) xs) [0..<k]) = slice (off 0) (off k) xs" "off 0 \<le> off k"
    "off k \<le> off (Suc k)" by simp_all
  then show ?case by (simp add: slice_chain)
qed (simp add: slice_def)

text \<open>What a decoded registry says about the bytes it comes from.\<close>

definition decoded_from ::
  "(u8 list \<Rightarrow> u32) \<Rightarrow> u8 list \<Rightarrow> string option \<Rightarrow> manifest_bounds \<Rightarrow> edge_type_registry \<Rightarrow> bool" where
  "decoded_from crc bytes expected bounds r \<longleftrightarrow>
     (let labels = er_labels r; payload = drop (32 + 8 * (length labels + 1)) bytes in
      valid_labels labels \<and> list_all utf8_ok labels \<and>
      r = loaded_registry (length labels) (map (\<lambda>l. (l, length l)) labels) \<and>
      (\<exists>skipped. payload = skipped @ concat labels \<and> length skipped = unat (le_word (slice 32 40 bytes) :: u64)) \<and>
      32 + 8 * (length labels + 1) \<le> length bytes \<and>
      (let c = crc (take 24 bytes @ [0, 0, 0, 0] @ drop 28 bytes) in
         le_word (slice 24 28 bytes) = c \<and> (\<forall>text. expected = Some text \<longrightarrow> text = checksum_text c)) \<and>
      (\<forall>n k. bounds = Some (n, k) \<longrightarrow> unat n = length bytes \<and> unat k = length labels))"

lemma decode_checked:
  "decoded al (decoded_from crc bytes expected bounds) (decode_dictionary_bytes al crc bytes expected bounds)"
proof (cases "length bytes < 32")
  case True
  then show ?thesis by (simp add: decode_dictionary_bytes_def DICTIONARY_HEADER_SIZE_def)
next
  case False
  then have whole: "(slice_r bytes 0 32 :: u8 list graph_result) = Inr (slice 0 32 bytes)" "length (slice 0 32 bytes) = 32"
    by (simp_all add: slice_r_def)
  let ?P = "decoded_from crc bytes expected bounds"
  have "decoded al ?P (decode_dictionary_bytes al crc bytes expected bounds)"
    unfolding decode_dictionary_bytes_def DICTIONARY_HEADER_SIZE_def CHECKSUM_OFFSET_def if_not_P [OF False] whole(1) rbind_Inr
  proof (rule decoded_bind [OF header_checked [OF whole(2)]], clarify, intro decoded_ok_or decoded_reserve)
    fix k n ob offsets end_at
    assume h: "header_facts (slice 0 32 bytes) (length bytes) bounds (k, n, ob)"
      and offsets: "get_slice_opt bytes 32 (32 + ob) = Some offsets"
    from h have k: "ob = (k + 1) * 8" "32 + ob + n = length bytes" "0 < k"
      and bnd: "\<forall>m j. bounds = Some (m, j) \<longrightarrow> unat m = length bytes \<and> unat j = k"
      by (simp_all add: header_facts_def)
    have off: "offsets = slice 32 (32 + ob) bytes" "length offsets = 8 * (k + 1)"
      using offsets k by (auto simp: get_slice_opt_def split: if_splits)
    define payload where "payload = slice (32 + ob) (length bytes) bytes"
    have pay: "(slice_r bytes (32 + ob) (length bytes) :: u8 list graph_result) = Inr payload" "length payload = n"
      "payload = drop (32 + 8 * (k + 1)) bytes"
      using k by (simp_all add: slice_r_def payload_def slice_def mult.commute)
    define c where c: "c = crc (take 24 bytes @ [0, 0, 0, 0] @ drop 28 bytes)"
    have sum: "dictionary_checksum crc bytes = Inr c"
      using False by (simp add: dictionary_checksum_def CHECKSUM_OFFSET_def c slice_r_def slice_def)
    have stored: "dictionary_u32 bytes 24 = Inr (le_word (slice 24 28 bytes))"
      using False dictionary_u32_in [of 24 bytes] by simp
    show "decoded al ?P (rbind (fold_r (scan_offset offsets n) [0..<k + 1] (0, [])) (\<lambda>(previous, ranges).
        if previous \<noteq> n \<or> (case ranges of [] \<Rightarrow> True | (a, b) # _ \<Rightarrow> a < b) then
          Inl (corrupt ''relationship type offsets do not reserve slot zero'')
        else rbind (dictionary_u32 bytes 24) (\<lambda>stored_checksum. rbind (dictionary_checksum crc bytes) (\<lambda>checksum.
          if stored_checksum \<noteq> checksum \<or>
             (case expected of None \<Rightarrow> False | Some expected \<Rightarrow> expected \<noteq> checksum_text checksum) then
            Inl (corrupt ''relationship type artifact checksum mismatch'')
          else rbind (slice_r bytes (32 + ob) (length bytes)) (\<lambda>payload.
            rbind (reserve_for al ''relationship type label allocation failed: '' string_capacity 0 k) (\<lambda>capacity.
            rbind (map_r (decode_label al payload) ranges) (\<lambda>labels. try_from_labels al capacity labels))))))) "
      unfolding stored sum pay(1) rbind_Inr
    proof (rule decoded_bind [OF scan_checked [OF off(2)]], clarify, intro decoded_if)
      fix previous ranges
      assume scan: "scanned_offsets offsets n (k + 1) (previous, ranges)"
        and slot: "\<not> (previous \<noteq> n \<or> (case ranges of [] \<Rightarrow> True | (a, b) # _ \<Rightarrow> a < b))"
        and check: "\<not> (le_word (slice 24 28 bytes) \<noteq> c \<or>
          (case expected of None \<Rightarrow> False | Some expected \<Rightarrow> expected \<noteq> checksum_text c))"
      let ?o = "stored_offset offsets"
      have ranges: "ranges = map (\<lambda>j. (?o j, ?o (Suc j))) [0..<k]" and mono: "\<And>j. j < k \<Longrightarrow> ?o j \<le> ?o (Suc j)"
        and le: "\<And>j. j \<le> k \<Longrightarrow> ?o j \<le> n" and stop: "?o k = n"
        using scan slot by (auto simp: scanned_offsets_def)
      show "decoded al ?P (rbind (reserve_for al ''relationship type label allocation failed: '' string_capacity 0 k) (\<lambda>capacity.
          rbind (map_r (decode_label al payload) ranges) (\<lambda>labels. try_from_labels al capacity labels)))"
      proof (rule decoded_reserve)
        fix capacity assume "capacity = (if k \<le> 0 then 0 else string_capacity 0 k)"
        then have cap: "capacity = k" using k(3) by (simp add: string_capacity_def)
        let ?label = "\<lambda>r. slice (fst r) (snd r) payload"
        have read: "decoded al (list_all2 (\<lambda>r l. l = (?label r, length (?label r)) \<and> utf8_ok (?label r)) ranges)
            (map_r (decode_label al payload) ranges)"
        proof (rule decoded_map)
          fix r assume "r \<in> set ranges"
          then have "fst r \<le> snd r" "snd r \<le> length payload" using mono le pay(2) by (auto simp: ranges)
          then show "decoded al (\<lambda>l. l = (?label r, length (?label r)) \<and> utf8_ok (?label r)) (decode_label al payload r)"
            by (auto simp: decode_label_def from_utf8_def string_capacity_def intro!: decoded_ok_or decoded_reserve split: if_splits)
        qed
        show "decoded al ?P (rbind (map_r (decode_label al payload) ranges) (\<lambda>labels. try_from_labels al capacity labels))"
        proof (rule decoded_bind [OF read])
          fix owned assume "list_all2 (\<lambda>r l. l = (?label r, length (?label r)) \<and> utf8_ok (?label r)) ranges owned"
          then have owned: "owned = map (\<lambda>l. (l, length l)) (map ?label ranges)" and utf8: "list_all utf8_ok (map ?label ranges)"
            by (auto simp: list_all2_conv_all_nth list_all_length intro!: nth_equalityI)
          let ?labels = "map ?label ranges"
          have labels: "map fst owned = ?labels" "length ?labels = k" by (simp_all add: owned comp_def ranges)
          have "concat ?labels = slice (?o 0) n payload"
            using concat_slices [of k ?o payload] mono stop by (simp add: ranges comp_def)
          moreover have "slice 0 (?o 0) payload @ slice (?o 0) n payload = slice 0 n payload"
            by (rule slice_chain) (use le in auto)
          ultimately have whole: "payload = slice 0 (?o 0) payload @ concat ?labels"
            using pay(2) by (simp add: slice_def)
          have "?o 0 = unat (le_word (slice 32 40 bytes) :: u64)"
            using k by (simp add: stored_offset_def off(1) slice_slice)
          moreover have "length (slice 0 (?o 0) payload) = ?o 0" using le [of 0] pay(2) by simp
          ultimately have skip: "\<exists>skipped. payload = skipped @ concat ?labels \<and>
              length skipped = unat (le_word (slice 32 40 bytes) :: u64)"
            using whole by metis
          have "le_word (slice 24 28 bytes) = c \<and> (\<forall>text. expected = Some text \<longrightarrow> text = checksum_text c)"
            using check by auto
          moreover have "32 + 8 * (k + 1) \<le> length bytes" using k by simp
          ultimately have image: "valid_labels ?labels \<Longrightarrow> ?P (loaded_registry capacity owned)"
            using skip bnd utf8 labels unfolding c decoded_from_def Let_def cap owned
            by (simp add: loaded_registry_def Let_def pay(3) comp_def)
          show "decoded al ?P (try_from_labels al capacity owned)"
            using loaded_labels_exact [where al = al and capacity = capacity and owned = owned] image
            unfolding labels(1) by (auto simp: decoded_def dictionary_fault_def corrupt_def split: sum.splits)
        qed
      qed
    qed simp_all
  qed
  then show ?thesis .
qed

text \<open>
  C37: reading a dictionary artifact never panics: it ends with corruption, an unsupported version or a
  refused allocation, or with the registry of valid UTF-8 labels whose bytes end the file, whose stored
  checksum is the one of all its bytes with the checksum field zeroed and the expected one, and the
  manifest's counts are those of the file. The bytes before the first stored
  offset are the only ones of the payload that belong to no label.
\<close>

theorem decoded_dictionary_exact:
  "case read_dictionary_file al crc contents expected bounds of
     Inr r \<Rightarrow> decoded_from crc contents (Some expected) bounds r
   | Inl e \<Rightarrow> dictionary_fault al e"
proof -
  have "decoded al (decoded_from crc contents (Some expected) bounds) (read_dictionary_file al crc contents expected bounds)"
    unfolding read_dictionary_file_def DICTIONARY_HEADER_SIZE_def
  proof (intro decoded_if)
    assume "\<not> length contents < 32"
    then have "length (take 32 contents) = 32" by simp
    then show "decoded al (decoded_from crc contents (Some expected) bounds)
      (rbind (validate_dictionary_header (take 32 contents) (length contents) bounds) (\<lambda>_.
        rbind (reserve_for al ''relationship type decode allocation failed: '' string_capacity 0 (length contents)) (\<lambda>_.
          decode_dictionary_bytes al crc contents (Some expected) bounds)))"
      by (rule decoded_bind [OF header_checked]) (intro decoded_reserve decode_checked)
  qed simp_all
  then show ?thesis by (simp add: decoded_def)
qed

theorem dictionary_roundtrip_witness:
  "\<exists>contents text size_bytes. dictionary_artifact granting (\<lambda>_. 7) [[], [97, 98]] = Inr (contents, text, size_bytes) \<and>
    read_dictionary_file granting (\<lambda>_. 7) contents text (Some (size_bytes, 2)) = Inr (loaded_registry 2 sample_types)"
proof -
  have "valid_labels [[], [97, 98]]"
    by (simp add: valid_labels_def MAX_USER_EDGE_TYPES_def MAX_EDGE_TYPE_LABEL_BYTES_def MAX_EDGE_TYPE_DICTIONARY_BYTES_def)
  moreover have "list_all utf8_ok [[], [97, 98]]" by (simp add: utf8_ok.simps)
  moreover have "refusal granting n = None" for n by (simp add: granting_def)
  ultimately show ?thesis
    using dictionary_roundtrip [where labels = "[[], [97, 98]]" and al = granting and crc = "\<lambda>_. 7"]
    by (simp add: sample_types_def numeral_2_eq_2)
qed

text \<open>A file whose only label is the reserved one and whose payload is a byte no offset covers.\<close>

definition sample_dictionary_file :: "u8 list" where
  "sample_dictionary_file =
     DICTIONARY_MAGIC @ [1, 0, 0, 0] @ [1, 0, 0, 0] @ [1, 0, 0, 0, 0, 0, 0, 0] @ [7, 0, 0, 0] @ [0, 0, 0, 0] @
     [1, 0, 0, 0, 0, 0, 0, 0] @ [1, 0, 0, 0, 0, 0, 0, 0] @ [120]"

lemma le_word_one: "le_word [1, 0, 0, 0] = (1 :: u32)" "le_word [7, 0, 0, 0] = (7 :: u32)"
  "le_word [1, 0, 0, 0, 0, 0, 0, 0] = (1 :: u64)"
  by (simp_all add: le_word_def le_nat_def)

lemma sample_dictionary_reads:
  "read_dictionary_file granting (\<lambda>_. 7) sample_dictionary_file ''crc32:00000007'' None = Inr (loaded_registry 1 [([], 0)])"
proof -
  let ?f = sample_dictionary_file
  let ?h = "DICTIONARY_MAGIC @ [1, 0, 0, 0] @ [1, 0, 0, 0] @ [1, 0, 0, 0, 0, 0, 0, 0] @ [7, 0, 0, 0] @ [0, 0, 0, 0]"
  have len: "length ?f = 49" by (simp add: sample_dictionary_file_def)
  have head: "take 32 ?f = ?h" by (simp add: sample_dictionary_file_def DICTIONARY_MAGIC_def)
  have whole: "(slice_r ?f 0 32 :: u8 list graph_result) = Inr ?h" using head by (simp add: slice_r_def slice_def len)
  have reads: "slice_r ?h 0 8 = Inr DICTIONARY_MAGIC" "dictionary_u32 ?h 8 = Inr (le_word [1, 0, 0, 0])"
    "dictionary_u32 ?h 12 = Inr (le_word [1, 0, 0, 0])" "dictionary_u64 ?h 16 = Inr (le_word [1, 0, 0, 0, 0, 0, 0, 0])"
    "slice_r ?h 28 32 = Inr [0, 0, 0, 0]"
    by (rule header_fields; simp)+
  have header: "validate_dictionary_header ?h 49 None = Inr (1, 1, 16)"
    unfolding validate_dictionary_header_def reads
    by (simp add: le_word_one bytes_mismatch_def DICTIONARY_VERSION_def MAX_USER_EDGE_TYPES_def Let_def
          MAX_EDGE_TYPE_DICTIONARY_BYTES_def checked_add_usize_def checked_mul_usize_def usize_max_def DICTIONARY_HEADER_SIZE_def)
  have stored: "dictionary_u32 ?f 24 = Inr 7"
    by (simp add: dictionary_u32_in len) (simp add: sample_dictionary_file_def DICTIONARY_MAGIC_def slice_def le_word_one)
  have offsets: "get_slice_opt ?f 32 48 = Some [1, 0, 0, 0, 0, 0, 0, 0, 1, 0, 0, 0, 0, 0, 0, 0]"
    by (simp add: get_slice_opt_def len) (simp add: sample_dictionary_file_def DICTIONARY_MAGIC_def slice_def)
  have scan: "fold_r (scan_offset [1, 0, 0, 0, 0, 0, 0, 0, 1, 0, 0, 0, 0, 0, 0, 0] 1) [0, 1] (0, []) = Inr (1, [(1, 1)])"
    by (simp add: scan_offset_def dictionary_u64_def get_slice_opt_def slice_def le_word_one Let_def)
  have load: "try_from_labels granting 1 [([], 0)] = Inr (loaded_registry 1 [([], 0)])"
    by (rule loads_valid) (simp_all add: granting_def valid_labels_def MAX_USER_EDGE_TYPES_def)
  have "checksum_text 7 = ''crc32:00000007''"
    by (simp add: checksum_text_def hex_digit_def upt_rec char_of_def bit_0)
  then show ?thesis
    unfolding read_dictionary_file_def decode_dictionary_bytes_def DICTIONARY_HEADER_SIZE_def CHECKSUM_OFFSET_def len head whole
    using header offsets scan [simplified] stored load
    by (simp add: bytes_mismatch_def checked_add_usize_def usize_max_def reserve_granting string_capacity_def dictionary_checksum_def
        CHECKSUM_OFFSET_def slice_r_def len decode_label_def from_utf8_def slice_def)
qed

theorem decoded_dictionary_exact_witness:
  "read_dictionary_file granting (\<lambda>_. 7) sample_dictionary_file ''crc32:00000007'' None = Inr (loaded_registry 1 [([], 0)]) \<and>
    (\<exists>skipped. skipped \<noteq> [] \<and> drop 48 sample_dictionary_file = skipped @ concat (er_labels (loaded_registry 1 [([], 0)])))"
proof -
  have "decoded_from (\<lambda>_. 7) sample_dictionary_file (Some ''crc32:00000007'') None (loaded_registry 1 [([], 0)])"
    using decoded_dictionary_exact [where al = granting and crc = "\<lambda>_. 7" and contents = sample_dictionary_file and
        expected = "''crc32:00000007''" and bounds = None] sample_dictionary_reads by simp
  moreover have "slice 32 40 sample_dictionary_file = [1, 0, 0, 0, 0, 0, 0, 0]"
    by (simp add: sample_dictionary_file_def DICTIONARY_MAGIC_def slice_def)
  ultimately obtain skipped where
    "drop 48 sample_dictionary_file = skipped @ concat (er_labels (loaded_registry 1 [([], 0)]))" "length skipped = 1"
    by (auto simp: decoded_from_def Let_def loaded_registry_def le_word_one)
  with sample_dictionary_reads show ?thesis by (intro conjI exI [of _ skipped]) auto
qed

end
