(* ===== verification/TxDelta.thy ===== *)
theory TxDelta
  imports EdgeTypeRegistry RelationshipIdentities Neighbors
begin

text \<open>
  The changes of the running transaction (\<open>graph/src/projection/tx_delta.rs\<close>): the delta, the writes
  that extend it after a capacity check, the snapshots by which a savepoint is rolled back, and the
  readers that the engine consults. The thread-local cells are the fields of \<open>tx_state\<close>.

  The heap estimate of the delta and of its snapshots depends on the capacities of the collections; it is
  an argument of every write (\<open>te_memory\<close>, \<open>te_pending\<close>), as are the three capacities that the growth
  estimates read. Hash maps and hash sets are association lists and lists without duplicates; the order
  of a list stands for the iteration order.
\<close>

section \<open>State\<close>

datatype traversal_direction = AnyDirection | OutDirection | InDirection

record added_node =
  an_table_oid :: u32
  an_primary_key :: "u8 list"
  an_tenant :: "u8 list option"
  an_node_idx :: "u32 option"

record delta_edge =
  de_target :: u32
  de_type_id :: edge_type_id
  de_schema_reversed :: bool
  de_weight :: "u32 option"
  de_relationship_id :: "relationship_id option"

type_synonym deleted_edge = "u32 \<times> u32 \<times> edge_type_id \<times> bool \<times> relationship_id option"

record tx_delta =
  td_added_nodes :: "added_node list"
  td_max_pk_bytes :: usize
  td_deleted_nodes :: "u32 list"
  td_added_edges :: "(u32 \<times> delta_edge list) list"
  td_deleted_edges :: "deleted_edge list"
  td_filter_updates :: "((usize \<times> u32) \<times> encoded_value option) list"
  td_identities :: "relationship_identity list"
  td_missing_types :: "u32 set"
  td_base_len :: "usize option"
  td_base_fingerprint :: "u64 option"
  td_base_payload_bytes :: usize
  td_appended_payload_bytes :: usize
  td_appended_max_label_bytes :: usize
  td_appended_labels :: "type_label list"
  td_appended_ids :: "(type_label \<times> edge_type_id) list"

definition default_delta :: tx_delta where
  "default_delta =
     \<lparr>td_added_nodes = [], td_max_pk_bytes = 0, td_deleted_nodes = [], td_added_edges = [], td_deleted_edges = [],
       td_filter_updates = [], td_identities = [], td_missing_types = {}, td_base_len = None, td_base_fingerprint = None,
       td_base_payload_bytes = 0, td_appended_payload_bytes = 0, td_appended_max_label_bytes = 0,
       td_appended_labels = [], td_appended_ids = []\<rparr>"

record tx_state =
  ts_delta :: "tx_delta option"
  ts_revision :: u64
  ts_depth :: u32
  ts_snapshots :: "tx_delta option list"
  ts_callbacks :: bool

definition tx_initial :: tx_state where
  "tx_initial = \<lparr>ts_delta = None, ts_revision = 0, ts_depth = 0, ts_snapshots = [], ts_callbacks = False\<rparr>"

text \<open>What a write reads from its surroundings.\<close>

record tx_env =
  te_max_nodes :: usize
  te_max_edges :: usize
  te_max_memory :: usize
  te_memory :: usize
  te_pending :: usize
  te_labels_capacity :: usize
  te_ids_capacity :: usize
  te_deleted_capacity :: usize
  te_nest_level :: usize
  te_alloc :: registry_alloc

type_synonym 'a tx_step = "'a graph_result \<times> tx_state"

definition tx_bind :: "'a tx_step \<Rightarrow> ('a \<Rightarrow> tx_state \<Rightarrow> 'b tx_step) \<Rightarrow> 'b tx_step" where
  "tx_bind m f = (case m of (Inl e, s) \<Rightarrow> (Inl e, s) | (Inr x, s) \<Rightarrow> f x s)"

text \<open>\<open>borrow().as_ref()\<close> with a default, and \<open>get_or_insert_with(TxGraphDelta::default)\<close>.\<close>

definition current_delta :: "tx_state \<Rightarrow> tx_delta" where
  "current_delta s = opt_get_or default_delta (ts_delta s)"

definition with_delta :: "(tx_delta \<Rightarrow> 'a graph_result \<times> tx_delta) \<Rightarrow> tx_state \<Rightarrow> 'a tx_step" where
  "with_delta f s = (case f (current_delta s) of (r, d) \<Rightarrow> (r, s\<lparr>ts_delta := Some d\<rparr>))"

definition bump_topology_revision :: "tx_state \<Rightarrow> tx_state" where
  "bump_topology_revision s = s\<lparr>ts_revision := ts_revision s + 1\<rparr>"

definition bump_on_ok :: "'a tx_step \<Rightarrow> 'a tx_step" where
  "bump_on_ok m = (case m of (Inr x, s) \<Rightarrow> (Inr x, bump_topology_revision s) | (Inl e, s) \<Rightarrow> (Inl e, s))"

section \<open>Savepoints\<close>

definition start_subtransaction :: "tx_state \<Rightarrow> tx_state" where
  "start_subtransaction s = s\<lparr>ts_depth := (if ts_depth s = - 1 then ts_depth s else ts_depth s + 1)\<rparr>"

definition snapshot_active_subtransactions :: "tx_state \<Rightarrow> tx_state" where
  "snapshot_active_subtransactions s =
     (let depth = unat (ts_depth s) in
      if depth = 0 then s
      else s\<lparr>ts_snapshots := ts_snapshots s @ replicate (depth - length (ts_snapshots s)) (Some (current_delta s))\<rparr>)"

definition finish_subtransaction :: "bool \<Rightarrow> tx_state \<Rightarrow> tx_state" where
  "finish_subtransaction aborted s =
     (let depth = unat (ts_depth s) in
      if depth = 0 then s
      else
        let snapshot = Option.bind (get_opt (ts_snapshots s) (depth - 1)) (\<lambda>x. x);
            s1 = s\<lparr>ts_snapshots := take (depth - 1) (ts_snapshots s)\<rparr>;
            s2 = (case snapshot of
                Some d \<Rightarrow> if aborted then bump_topology_revision (s1\<lparr>ts_delta := Some d\<rparr>) else s1
              | None \<Rightarrow> s1)
        in s2\<lparr>ts_depth := ts_depth s2 - 1\<rparr>)"

definition clear_current_delta :: "tx_state \<Rightarrow> tx_state" where
  "clear_current_delta s = s\<lparr>ts_delta := None\<rparr>"

definition clear_current_transaction_state :: "tx_state \<Rightarrow> tx_state" where
  "clear_current_transaction_state s =
     (bump_topology_revision (clear_current_delta s))\<lparr>ts_depth := 0, ts_snapshots := []\<rparr>"

definition ensure_transaction_callbacks_registered :: "tx_env \<Rightarrow> tx_state \<Rightarrow> tx_state" where
  "ensure_transaction_callbacks_registered env s =
     (if ts_callbacks s then s else s\<lparr>ts_callbacks := True, ts_depth := word_of_nat (te_nest_level env - 1)\<rparr>)"

section \<open>Statistics and limits\<close>

record tx_delta_stats =
  st_added_nodes :: usize
  st_deleted_nodes :: usize
  st_added_edges :: usize
  st_deleted_edges :: usize
  st_filter_updates :: usize
  st_memory_bytes :: usize
  st_dirty :: bool

definition is_dirty :: "tx_delta \<Rightarrow> bool" where
  "is_dirty d \<longleftrightarrow>
     td_added_nodes d \<noteq> [] \<or> td_deleted_nodes d \<noteq> [] \<or> td_added_edges d \<noteq> [] \<or> td_deleted_edges d \<noteq> [] \<or>
     td_filter_updates d \<noteq> [] \<or> td_identities d \<noteq> [] \<or> td_appended_labels d \<noteq> []"

definition added_edge_count :: "tx_delta \<Rightarrow> usize" where
  "added_edge_count d = sum_list (map (length \<circ> snd) (td_added_edges d))"

definition tx_stats :: "tx_env \<Rightarrow> tx_state \<Rightarrow> tx_delta_stats" where
  "tx_stats env s =
     (let d = current_delta s in
      \<lparr>st_added_nodes = length (td_added_nodes d), st_deleted_nodes = length (td_deleted_nodes d),
        st_added_edges = added_edge_count d, st_deleted_edges = length (td_deleted_edges d),
        st_filter_updates = length (td_filter_updates d), st_memory_bytes = te_memory env, st_dirty = is_dirty d\<rparr>)"

definition enforce_limit :: "string \<Rightarrow> usize \<Rightarrow> usize \<Rightarrow> unit graph_result" where
  "enforce_limit kind requested limit =
     (if requested > limit then Inl (Err (OverlayLimit kind requested limit)) else Inr ())"

definition ensure_write_capacity :: "tx_env \<Rightarrow> usize \<Rightarrow> usize \<Rightarrow> usize \<Rightarrow> tx_state \<Rightarrow> unit tx_step" where
  "ensure_write_capacity env additional_nodes additional_edges additional_memory_bytes s0 =
     (let s = ensure_transaction_callbacks_registered env s0; st = tx_stats env s in
      case rbind (enforce_limit ''tx_delta_nodes''
          (saturating_add_usize (saturating_add_usize (st_added_nodes st) (st_deleted_nodes st)) additional_nodes)
          (te_max_nodes env)) (\<lambda>_.
        rbind (enforce_limit ''tx_delta_edges''
          (saturating_add_usize (saturating_add_usize (st_added_edges st) (st_deleted_edges st)) additional_edges)
          (te_max_edges env)) (\<lambda>_.
        enforce_limit ''overlay_memory_bytes''
          (saturating_add_usize (saturating_add_usize (st_memory_bytes st) (te_pending env)) additional_memory_bytes)
          (te_max_memory env))) of
        Inl e \<Rightarrow> (Inl e, s)
      | Inr _ \<Rightarrow> (Inr (), snapshot_active_subtransactions s))"

text \<open>A write: the check, the change of the delta, the new revision.\<close>

definition tx_write ::
  "tx_env \<Rightarrow> usize \<times> usize \<times> usize \<Rightarrow> (tx_delta \<Rightarrow> 'a graph_result \<times> tx_delta) \<Rightarrow> tx_state \<Rightarrow> 'a tx_step" where
  "tx_write env request change s =
     (case request of (nodes, edges, bytes) \<Rightarrow>
       tx_bind (ensure_write_capacity env nodes edges bytes s) (\<lambda>_ s. bump_on_ok (with_delta change s)))"

section \<open>Writing nodes and filter values\<close>

definition ADDED_NODE_SIZE :: usize where "ADDED_NODE_SIZE = 64"

definition estimated_added_node_bytes :: "u8 list \<Rightarrow> u8 list option \<Rightarrow> usize" where
  "estimated_added_node_bytes pk t =
     saturating_add_usize (saturating_add_usize ADDED_NODE_SIZE (length pk)) (opt_get_or 0 (map_option length t))"

definition push_added_node :: "added_node \<Rightarrow> tx_delta \<Rightarrow> tx_delta" where
  "push_added_node n d = d\<lparr>td_added_nodes := td_added_nodes d @ [n]\<rparr>"

definition note_primary_key :: "u8 list \<Rightarrow> tx_delta \<Rightarrow> tx_delta" where
  "note_primary_key pk d = d\<lparr>td_max_pk_bytes := max (td_max_pk_bytes d) (length pk)\<rparr>"

definition record_added_node :: "tx_env \<Rightarrow> u32 \<Rightarrow> u8 list \<Rightarrow> u8 list option \<Rightarrow> tx_state \<Rightarrow> unit tx_step" where
  "record_added_node env oid pk t =
     tx_write env (1, 0, estimated_added_node_bytes pk t) (\<lambda>d.
       (Inr (), push_added_node \<lparr>an_table_oid = oid, an_primary_key = pk, an_tenant = t, an_node_idx = None\<rparr>
         (note_primary_key pk d)))"

definition indexed_nodes :: "tx_delta \<Rightarrow> usize" where
  "indexed_nodes d = length (filter (\<lambda>n. an_node_idx n \<noteq> None) (td_added_nodes d))"

definition add_indexed_node :: "tx_env \<Rightarrow> u32 \<Rightarrow> u8 list \<Rightarrow> u8 list option \<Rightarrow> u32 \<Rightarrow> tx_delta \<Rightarrow> u32 graph_result \<times> tx_delta" where
  "add_indexed_node env oid pk t base_node_count d0 =
     (let d = note_primary_key pk d0;
          overflow = Err (OverlayLimit ''tx_delta_nodes'' usize_max (te_max_nodes env)) in
      case rbind (ok_or overflow (u32_try_from (indexed_nodes d))) (\<lambda>offset.
          ok_or overflow (u32_checked_add base_node_count offset)) of
        Inl e \<Rightarrow> (Inl e, d)
      | Inr node_idx \<Rightarrow>
          (Inr node_idx, push_added_node
            \<lparr>an_table_oid = oid, an_primary_key = pk, an_tenant = t, an_node_idx = Some node_idx\<rparr> d))"

definition record_added_node_indexed ::
  "tx_env \<Rightarrow> u32 \<Rightarrow> u8 list \<Rightarrow> u8 list option \<Rightarrow> u32 \<Rightarrow> tx_state \<Rightarrow> u32 tx_step" where
  "record_added_node_indexed env oid pk t base_node_count =
     tx_write env (1, 0, estimated_added_node_bytes pk t) (add_indexed_node env oid pk t base_node_count)"

definition record_deleted_node :: "tx_env \<Rightarrow> u32 \<Rightarrow> tx_state \<Rightarrow> unit tx_step" where
  "record_deleted_node env node_idx =
     tx_write env (1, 0, 4) (\<lambda>d. (Inr (), d\<lparr>td_deleted_nodes := List.insert node_idx (td_deleted_nodes d)\<rparr>))"

definition FILTER_UPDATE_BYTES :: usize where "FILTER_UPDATE_BYTES = 16 + 32"

definition record_filter_value_update :: "tx_env \<Rightarrow> usize \<Rightarrow> u32 \<Rightarrow> encoded_value option \<Rightarrow> tx_state \<Rightarrow> unit tx_step" where
  "record_filter_value_update env column_idx node_idx v =
     tx_write env (0, 0, FILTER_UPDATE_BYTES) (\<lambda>d.
       (Inr (), d\<lparr>td_filter_updates := AList.update (column_idx, node_idx) v (td_filter_updates d)\<rparr>))"

section \<open>Writing edges\<close>

definition DELTA_EDGE_SIZE :: usize where "DELTA_EDGE_SIZE = 28"

definition VEC_SIZE :: usize where "VEC_SIZE = 24"

definition DELETED_EDGE_SIZE :: usize where "DELETED_EDGE_SIZE = 24"

definition estimated_added_edge_bytes :: usize where
  "estimated_added_edge_bytes = saturating_add_usize (saturating_add_usize 4 VEC_SIZE) DELTA_EDGE_SIZE"

definition estimated_deleted_edge_bytes :: "tx_env \<Rightarrow> tx_delta \<Rightarrow> usize" where
  "estimated_deleted_edge_bytes env d =
     (let n = saturating_add_usize (length (td_deleted_edges d)) 1 in
      if n \<le> te_deleted_capacity env then 0
      else min usize_max ((max (min usize_max (next_power_of_two n * 2)) 4 - te_deleted_capacity env) * (DELETED_EDGE_SIZE * 2)))"

definition tx_edge_key :: "u32 \<Rightarrow> delta_edge \<Rightarrow> deleted_edge" where
  "tx_edge_key source_node e = (source_node, de_target e, de_type_id e, de_schema_reversed e, de_relationship_id e)"

definition push_edge :: "u32 \<Rightarrow> delta_edge \<Rightarrow> (u32 \<times> delta_edge list) list \<Rightarrow> (u32 \<times> delta_edge list) list" where
  "push_edge source_node e m = AList.update source_node (opt_get_or [] (map_of m source_node) @ [e]) m"

definition add_edge_change :: "u32 \<Rightarrow> delta_edge \<Rightarrow> tx_delta \<Rightarrow> unit graph_result \<times> tx_delta" where
  "add_edge_change source_node e d =
     (Inr (),
      if tx_edge_key source_node e \<in> set (td_deleted_edges d) then
        d\<lparr>td_deleted_edges := remove1 (tx_edge_key source_node e) (td_deleted_edges d)\<rparr>
      else d\<lparr>td_missing_types := (if de_relationship_id e = None then insert (de_type_id e) (td_missing_types d) else td_missing_types d),
        td_added_edges := push_edge source_node e (td_added_edges d)\<rparr>)"

definition record_added_edge :: "tx_env \<Rightarrow> u32 \<Rightarrow> delta_edge \<Rightarrow> tx_state \<Rightarrow> unit tx_step" where
  "record_added_edge env source_node e s =
     (let cancels_delete = tx_edge_key source_node e \<in> set (td_deleted_edges (current_delta s)) in
      tx_write env (if cancels_delete then (0, 0, 0) else (0, 1, estimated_added_edge_bytes)) (add_edge_change source_node e) s)"

definition missing_types_of :: "(u32 \<times> delta_edge list) list \<Rightarrow> u32 set" where
  "missing_types_of m = de_type_id ` set (filter (\<lambda>e. de_relationship_id e = None) (concat (map snd m)))"

definition refresh_completeness_summary :: "tx_delta \<Rightarrow> tx_delta" where
  "refresh_completeness_summary d = d\<lparr>td_missing_types := missing_types_of (td_added_edges d)\<rparr>"

text \<open>A deletion without an identity matches every edge of the same endpoints, type and direction.\<close>

definition delete_matches :: "deleted_edge \<Rightarrow> deleted_edge \<Rightarrow> bool" where
  "delete_matches k e \<longleftrightarrow>
     (case (k, e) of ((s, t, ty, rv, rid), (s', t', ty', rv', rid')) \<Rightarrow>
        s' = s \<and> t' = t \<and> ty' = ty \<and> rv' = rv \<and> (rid = None \<or> rid' = rid))"

definition cancels_insert :: "deleted_edge \<Rightarrow> tx_delta \<Rightarrow> bool" where
  "cancels_insert k d \<longleftrightarrow>
     (case map_of (td_added_edges d) (fst k) of
        None \<Rightarrow> False
      | Some edges \<Rightarrow> list_ex (\<lambda>e. delete_matches k (tx_edge_key (fst k) e)) edges)"

definition delete_edge_change :: "deleted_edge \<Rightarrow> tx_delta \<Rightarrow> unit graph_result \<times> tx_delta" where
  "delete_edge_change k d =
     (Inr (),
      case map_of (td_added_edges d) (fst k) of
        None \<Rightarrow> d\<lparr>td_deleted_edges := List.insert k (td_deleted_edges d)\<rparr>
      | Some edges \<Rightarrow>
          let kept = filter (\<lambda>e. \<not> delete_matches k (tx_edge_key (fst k) e)) edges;
              d' = d\<lparr>td_added_edges := (if kept = [] then AList.delete (fst k) (td_added_edges d)
                else AList.update (fst k) kept (td_added_edges d))\<rparr> in
          if cancels_insert k d then refresh_completeness_summary d'
          else d'\<lparr>td_deleted_edges := List.insert k (td_deleted_edges d')\<rparr>)"

definition record_deleted_edge_with_identity :: "tx_env \<Rightarrow> deleted_edge \<Rightarrow> tx_state \<Rightarrow> unit tx_step" where
  "record_deleted_edge_with_identity env k s =
     (let d = current_delta s in
      tx_write env (if cancels_insert k d then (0, 0, 0) else (0, 1, estimated_deleted_edge_bytes env d)) (delete_edge_change k) s)"

definition record_deleted_edge :: "tx_env \<Rightarrow> u32 \<Rightarrow> u32 \<Rightarrow> edge_type_id \<Rightarrow> tx_state \<Rightarrow> unit tx_step" where
  "record_deleted_edge env source_node target_node ty =
     record_deleted_edge_with_identity env (source_node, target_node, ty, False, None)"

section \<open>Relationship identities\<close>

definition RELATIONSHIP_IDENTITY_SIZE :: usize where "RELATIONSHIP_IDENTITY_SIZE = 32"

definition add_identity_change ::
  "usize \<Rightarrow> relationship_identity \<Rightarrow> tx_delta \<Rightarrow> relationship_id graph_result \<times> tx_delta" where
  "add_identity_change base ident d =
     (case rbind (ok_or (Err (Internal ''relationship identity count overflowed usize''))
         (checked_add_usize base (length (td_identities d)))) (\<lambda>rid.
       ok_or (Err (Internal (''relationship identity `'' @ show_nat rid @ ''` is out of range''))) (rel_id_try_from rid)) of
       Inl e \<Rightarrow> (Inl e, d)
     | Inr rid \<Rightarrow> (Inr rid, d\<lparr>td_identities := td_identities d @ [ident]\<rparr>))"

definition record_relationship_identity ::
  "tx_env \<Rightarrow> usize \<Rightarrow> relationship_identity \<Rightarrow> tx_state \<Rightarrow> relationship_id tx_step" where
  "record_relationship_identity env base ident =
     tx_write env (0, 0, saturating_add_usize RELATIONSHIP_IDENTITY_SIZE (length (ri_source_key ident)))
       (add_identity_change base ident)"

definition tx_relationship_identity :: "tx_state \<Rightarrow> usize \<Rightarrow> relationship_identity option" where
  "tx_relationship_identity s offset = get_opt (td_identities (current_delta s)) offset"

definition try_for_each_relationship_identity ::
  "tx_state \<Rightarrow> usize \<Rightarrow> (relationship_id \<Rightarrow> relationship_identity \<Rightarrow> 'v \<Rightarrow> 'v graph_result) \<Rightarrow> 'v \<Rightarrow> 'v graph_result" where
  "try_for_each_relationship_identity s base visit v =
     (let idents = td_identities (current_delta s) in
      fold_r (\<lambda>(offset, ident) v.
        rbind (ok_or (Err (Internal ''transaction relationship identity ID overflowed''))
          (Option.bind (checked_add_usize base offset) rel_id_try_from)) (\<lambda>rid. visit rid ident v))
        (zip [0..<length idents] idents) v)"

definition tx_missing_identity_for_types :: "tx_state \<Rightarrow> u32 list \<Rightarrow> bool" where
  "tx_missing_identity_for_types s types = list_ex (\<lambda>ty. ty \<in> td_missing_types (current_delta s)) types"

definition tx_any_missing_identity :: "tx_state \<Rightarrow> bool" where
  "tx_any_missing_identity s \<longleftrightarrow> td_missing_types (current_delta s) \<noteq> {}"

section \<open>Provisional relationship types\<close>

definition pinned_to :: "usize \<Rightarrow> u64 \<Rightarrow> tx_delta \<Rightarrow> bool" where
  "pinned_to base_len base_fingerprint d \<longleftrightarrow>
     td_base_len d = Some base_len \<and> td_base_fingerprint d = Some base_fingerprint"

definition tx_edge_type_id :: "tx_state \<Rightarrow> usize \<Rightarrow> u64 \<Rightarrow> type_label \<Rightarrow> edge_type_id option" where
  "tx_edge_type_id s base_len base_fingerprint label =
     (let d = current_delta s in
      if pinned_to base_len base_fingerprint d then map_of (td_appended_ids d) label else None)"

definition tx_edge_type_label :: "tx_state \<Rightarrow> usize \<Rightarrow> u64 \<Rightarrow> edge_type_id \<Rightarrow> type_label option" where
  "tx_edge_type_label s base_len base_fingerprint ty =
     (let d = current_delta s in
      if unat ty < base_len then None
      else if pinned_to base_len base_fingerprint d then get_opt (td_appended_labels d) (unat ty - base_len) else None)"

definition tx_edge_type_count :: "tx_state \<Rightarrow> usize \<Rightarrow> u64 \<Rightarrow> usize" where
  "tx_edge_type_count s base_len base_fingerprint =
     (let d = current_delta s in
      if pinned_to base_len base_fingerprint d then saturating_add_usize base_len (length (td_appended_labels d)) else base_len)"

definition tx_max_edge_type_label_bytes :: "tx_state \<Rightarrow> usize \<Rightarrow> u64 \<Rightarrow> usize" where
  "tx_max_edge_type_label_bytes s base_len base_fingerprint =
     (let d = current_delta s in
      if pinned_to base_len base_fingerprint d then td_appended_max_label_bytes d else 0)"

definition has_provisional_edge_types :: "tx_state \<Rightarrow> bool" where
  "has_provisional_edge_types s \<longleftrightarrow> td_appended_labels (current_delta s) \<noteq> []"

definition ensure_engine_replacement_allowed :: "tx_state \<Rightarrow> string \<Rightarrow> unit graph_result" where
  "ensure_engine_replacement_allowed s operation =
     (if has_provisional_edge_types s then
        Inl (Err (ReadOnly (operation @ '' cannot replace a graph pinned by transaction-local relationship types; commit or roll back first'')))
      else Inr ())"

definition provisional_collection_capacity_bound :: "usize \<Rightarrow> usize \<Rightarrow> usize graph_result" where
  "provisional_collection_capacity_bound current required =
     (if current \<ge> required then Inr current
      else ok_or (Err EdgeTypeLimit)
        (Option.bind (checked_next_power_of_two (max required 1)) (\<lambda>capacity. checked_mul_usize capacity 4)))"

definition provisional_edge_type_growth_bound ::
  "usize \<Rightarrow> usize \<Rightarrow> usize \<Rightarrow> usize \<Rightarrow> usize \<Rightarrow> usize graph_result" where
  "provisional_edge_type_growth_bound ordered_len ordered_capacity lookup_len lookup_capacity label_bytes =
     rbind (ok_or (Err EdgeTypeLimit) (checked_add_usize ordered_len 1)) (\<lambda>next_ordered.
     rbind (ok_or (Err EdgeTypeLimit) (checked_add_usize lookup_len 1)) (\<lambda>next_lookup.
     rbind (provisional_collection_capacity_bound ordered_capacity next_ordered) (\<lambda>ordered_goal.
     rbind (provisional_collection_capacity_bound lookup_capacity next_lookup) (\<lambda>lookup_goal.
     rbind (ok_or (Err EdgeTypeLimit) (checked_mul_usize (ordered_goal - ordered_capacity) STRING_SIZE)) (\<lambda>ordered_growth.
     rbind (ok_or (Err EdgeTypeLimit) (checked_mul_usize (lookup_goal - lookup_capacity) (LOOKUP_ENTRY_SIZE + 32))) (\<lambda>lookup_growth.
       ok_or (Err EdgeTypeLimit)
         (Option.bind (checked_add_usize ordered_growth lookup_growth) (\<lambda>bytes.
          Option.bind (checked_mul_usize label_bytes 2) (\<lambda>twice. checked_add_usize bytes twice)))))))))"

definition pin_base :: "edge_type_registry \<Rightarrow> tx_delta \<Rightarrow> tx_delta" where
  "pin_base base d =
     (if td_base_len d = None then
        d\<lparr>td_base_len := Some (length (er_labels base)), td_base_fingerprint := Some (er_fingerprint base),
          td_base_payload_bytes := er_label_bytes base\<rparr>
      else d)"

definition provisional_id :: "edge_type_registry \<Rightarrow> tx_delta \<Rightarrow> edge_type_id graph_result" where
  "provisional_id base d =
     rbind (ok_or (Err EdgeTypeLimit) (checked_add_usize (length (er_labels base)) (length (td_appended_labels d)))) (\<lambda>raw.
     rbind (ok_or (Err EdgeTypeLimit) (u32_try_from raw)) (\<lambda>raw.
     case edge_type_try_from raw of Inl _ \<Rightarrow> Inl (Err EdgeTypeLimit) | Inr i \<Rightarrow> Inr i))"

definition intern_change ::
  "tx_env \<Rightarrow> edge_type_registry \<Rightarrow> type_label \<Rightarrow> tx_delta \<Rightarrow> edge_type_id graph_result \<times> tx_delta" where
  "intern_change env base label d0 =
     (let d = pin_base base d0 in
      case map_of (td_appended_ids d) label of
        Some i \<Rightarrow> (Inr i, d)
      | None \<Rightarrow>
          case rbind (reserve_for (te_alloc env) ''edge type label allocation failed: '' vec_capacity
              (te_labels_capacity env) (length (td_appended_labels d) + 1)) (\<lambda>_.
            rbind (reserve_for (te_alloc env) ''edge type lookup allocation failed: '' hash_capacity
              (te_ids_capacity env) (length (td_appended_ids d) + 1)) (\<lambda>_.
            rbind (provisional_id base d) (\<lambda>i.
            rbind (ok_or (Err EdgeTypeLimit) (checked_add_usize (td_appended_payload_bytes d) (length label))) (\<lambda>payload.
            rbind (try_clone_label (te_alloc env) label) (\<lambda>_.
            rbind (try_clone_label (te_alloc env) label) (\<lambda>_. Inr (i, payload))))))) of
            Inl e \<Rightarrow> (Inl e, d)
          | Inr (i, payload) \<Rightarrow>
              (Inr i, d\<lparr>td_appended_labels := td_appended_labels d @ [label],
                td_appended_ids := AList.update label i (td_appended_ids d),
                td_appended_payload_bytes := payload,
                td_appended_max_label_bytes := max (td_appended_max_label_bytes d) (length label)\<rparr>))"

definition registry_changed :: "edge_type_registry \<Rightarrow> tx_delta \<Rightarrow> bool" where
  "registry_changed base d \<longleftrightarrow>
     (td_base_len d \<noteq> None \<and> td_base_len d \<noteq> Some (length (er_labels base))) \<or>
     (td_base_fingerprint d \<noteq> None \<and> td_base_fingerprint d \<noteq> Some (er_fingerprint base))"

definition intern_request :: "tx_env \<Rightarrow> edge_type_registry \<Rightarrow> type_label \<Rightarrow> tx_delta \<Rightarrow> usize graph_result" where
  "intern_request env base label d =
     (let user_count = saturating_add_usize (saturating_add_usize (length (er_labels base) - 1) (length (td_appended_labels d))) 1 in
      rbind (ok_or (Err EdgeTypeLimit)
        (Option.bind (checked_add_usize (er_label_bytes base) (td_appended_payload_bytes d)) (\<lambda>bytes.
          checked_add_usize bytes (length label)))) (\<lambda>payload_bytes.
      if user_count > MAX_USER_EDGE_TYPES \<or> length label > MAX_EDGE_TYPE_LABEL_BYTES \<or>
         payload_bytes > MAX_EDGE_TYPE_DICTIONARY_BYTES then Inl (Err EdgeTypeLimit)
      else provisional_edge_type_growth_bound (length (td_appended_labels d)) (te_labels_capacity env)
        (length (td_appended_ids d)) (te_ids_capacity env) (length label)))"

definition intern_edge_type :: "tx_env \<Rightarrow> edge_type_registry \<Rightarrow> type_label \<Rightarrow> tx_state \<Rightarrow> edge_type_id tx_step" where
  "intern_edge_type env base label s =
     (let d = current_delta s in
      if label = [] then (Inl (Err EdgeTypeLimit), s)
      else case tx_edge_type_id s (length (er_labels base)) (er_fingerprint base) label of
        Some i \<Rightarrow> (Inr i, s)
      | None \<Rightarrow>
          if registry_changed base d then
            (Inl (Err (UnsupportedOperation ''transaction-local relationship type''
              ''the loaded relationship-type registry changed during this transaction'')), s)
          else case intern_request env base label d of
            Inl e \<Rightarrow> (Inl e, s)
          | Inr growth \<Rightarrow> tx_write env (0, 0, growth) (intern_change env base label) s)"

section \<open>Reading nodes and filter values\<close>

definition tenant_admits :: "u8 list option \<Rightarrow> u8 list option \<Rightarrow> bool \<Rightarrow> bool" where
  "tenant_admits active created table_is_tenanted \<longleftrightarrow>
     (case active of
        None \<Rightarrow> True
      | Some a \<Rightarrow> if table_is_tenanted then (case created of None \<Rightarrow> False | Some c \<Rightarrow> a = c) else True)"

definition added_node_keys :: "tx_state \<Rightarrow> u32 \<Rightarrow> u8 list option \<Rightarrow> bool \<Rightarrow> u8 list list" where
  "added_node_keys s oid t table_is_tenanted =
     (let d = current_delta s in
      map an_primary_key (filter (\<lambda>n. an_table_oid n = oid \<and>
        (case an_node_idx n of None \<Rightarrow> True | Some i \<Rightarrow> i \<notin> set (td_deleted_nodes d)) \<and>
        tenant_admits t (an_tenant n) table_is_tenanted) (td_added_nodes d)))"

definition added_node_indexes :: "tx_state \<Rightarrow> u32 \<Rightarrow> u8 list option \<Rightarrow> bool \<Rightarrow> u32 list" where
  "added_node_indexes s oid t table_is_tenanted =
     (let d = current_delta s in
      filter (\<lambda>i. i \<notin> set (td_deleted_nodes d))
        (List.map_filter an_node_idx (filter (\<lambda>n. an_table_oid n = oid \<and>
          tenant_admits t (an_tenant n) table_is_tenanted) (td_added_nodes d))))"

definition max_added_node_pk_bytes :: "tx_state \<Rightarrow> usize" where
  "max_added_node_pk_bytes s = td_max_pk_bytes (current_delta s)"

definition resolve_added_node :: "tx_state \<Rightarrow> u32 \<Rightarrow> u8 list \<Rightarrow> u8 list option \<Rightarrow> bool \<Rightarrow> u32 option" where
  "resolve_added_node s oid pk t table_is_tenanted =
     (let d = current_delta s in
      Option.bind (List.find (\<lambda>n. an_table_oid n = oid \<and> an_primary_key n = pk \<and>
          (case an_node_idx n of None \<Rightarrow> False | Some i \<Rightarrow> i \<notin> set (td_deleted_nodes d)) \<and>
          tenant_admits t (an_tenant n) table_is_tenanted) (rev (td_added_nodes d))) an_node_idx)"

definition added_node_by_index :: "tx_state \<Rightarrow> u32 \<Rightarrow> added_node option" where
  "added_node_by_index s node_idx = List.find (\<lambda>n. an_node_idx n = Some node_idx) (td_added_nodes (current_delta s))"

definition tx_added_node_at :: "tx_state \<Rightarrow> usize \<Rightarrow> added_node option" where
  "tx_added_node_at s offset = get_opt (td_added_nodes (current_delta s)) offset"

definition tx_node_deleted :: "tx_state \<Rightarrow> u32 \<Rightarrow> bool" where
  "tx_node_deleted s node_idx \<longleftrightarrow> node_idx \<in> set (td_deleted_nodes (current_delta s))"

definition tx_filter_value_update :: "tx_state \<Rightarrow> usize \<Rightarrow> u32 \<Rightarrow> encoded_value option option" where
  "tx_filter_value_update s column_idx node_idx = map_of (td_filter_updates (current_delta s)) (column_idx, node_idx)"

section \<open>The edge overlay\<close>

definition edge_delta_dirty :: "tx_state \<Rightarrow> bool" where
  "edge_delta_dirty s \<longleftrightarrow> td_added_edges (current_delta s) \<noteq> [] \<or> td_deleted_edges (current_delta s) \<noteq> []"

definition orient_edge :: "traversal_direction \<Rightarrow> u32 \<Rightarrow> u32 \<Rightarrow> u32 \<times> u32" where
  "orient_edge dir source_node target_node =
     (case dir of InDirection \<Rightarrow> (target_node, source_node) | _ \<Rightarrow> (source_node, target_node))"

text \<open>\<open>map.entry(k).or_default().push(x)\<close> and \<open>.insert(x)\<close>.\<close>

definition entry_push :: "'k \<Rightarrow> 'x \<Rightarrow> ('k \<Rightarrow> 'x list option) \<Rightarrow> 'k \<Rightarrow> 'x list option" where
  "entry_push k x m = m(k \<mapsto> opt_get_or [] (m k) @ [x])"

definition entry_insert :: "'k \<Rightarrow> 'x \<Rightarrow> ('k \<Rightarrow> 'x set option) \<Rightarrow> 'k \<Rightarrow> 'x set option" where
  "entry_insert k x m = m(k \<mapsto> insert x (opt_get_or {} (m k)))"

definition push_oriented :: "traversal_direction \<Rightarrow> u32 \<Rightarrow> delta_edge \<Rightarrow> overlay_inserts \<Rightarrow> overlay_inserts" where
  "push_oriented dir source_node e =
     (case orient_edge dir source_node (de_target e) of (from_node, to_node) \<Rightarrow>
        entry_push from_node (to_node, de_type_id e, de_schema_reversed e, de_relationship_id e))"

definition overlay_deletes_of :: "traversal_direction \<Rightarrow> deleted_edge list \<Rightarrow> overlay_deletes" where
  "overlay_deletes_of dir ks =
     fold (\<lambda>(s, t, ty, rv, rid). case orient_edge dir s t of (from_node, to_node) \<Rightarrow>
       entry_insert from_node (to_node, ty, rv, rid)) ks (\<lambda>_. None)"

definition tx_edge_overlay :: "tx_state \<Rightarrow> traversal_direction \<Rightarrow> overlay_inserts \<times> overlay_deletes" where
  "tx_edge_overlay s dir =
     (let d = current_delta s in
      (fold (\<lambda>(source_node, edges). fold (push_oriented dir source_node) edges) (td_added_edges d) (\<lambda>_. None),
       overlay_deletes_of dir (td_deleted_edges d)))"

definition push_weighted ::
  "traversal_direction \<Rightarrow> u32 \<Rightarrow> delta_edge \<Rightarrow> (u32 \<Rightarrow> delta_edge list option) \<Rightarrow> u32 \<Rightarrow> delta_edge list option" where
  "push_weighted dir source_node e =
     (case orient_edge dir source_node (de_target e) of (from_node, to_node) \<Rightarrow>
        entry_push from_node (e\<lparr>de_target := to_node\<rparr>))"

definition tx_weighted_edge_overlay ::
  "tx_state \<Rightarrow> traversal_direction \<Rightarrow> (u32 \<Rightarrow> delta_edge list option) \<times> overlay_deletes" where
  "tx_weighted_edge_overlay s dir =
     (let d = current_delta s in
      (fold (\<lambda>(source_node, edges). fold (push_weighted dir source_node) edges) (td_added_edges d) (\<lambda>_. None),
       overlay_deletes_of dir (td_deleted_edges d)))"

section \<open>Sequences of events\<close>

text \<open>The writes of the module, with the surroundings of each.\<close>

datatype (plugins only: size) tx_write_op =
    AddNode u32 "u8 list" "u8 list option"
  | AddIndexedNode u32 "u8 list" "u8 list option" u32
  | DeleteNode u32
  | UpdateFilter usize u32 "encoded_value option"
  | AddEdge u32 delta_edge
  | DeleteEdge deleted_edge
  | AddIdentity usize relationship_identity
  | InternType edge_type_registry type_label

datatype (plugins only: size) tx_event = StartSub | CommitSub | AbortSub | EndTransaction | Write tx_env tx_write_op

definition tx_apply_write :: "tx_env \<Rightarrow> tx_write_op \<Rightarrow> tx_state \<Rightarrow> tx_state" where
  "tx_apply_write env w s =
     (case w of
        AddNode oid pk t \<Rightarrow> snd (record_added_node env oid pk t s)
      | AddIndexedNode oid pk t base \<Rightarrow> snd (record_added_node_indexed env oid pk t base s)
      | DeleteNode i \<Rightarrow> snd (record_deleted_node env i s)
      | UpdateFilter c i v \<Rightarrow> snd (record_filter_value_update env c i v s)
      | AddEdge i e \<Rightarrow> snd (record_added_edge env i e s)
      | DeleteEdge k \<Rightarrow> snd (record_deleted_edge_with_identity env k s)
      | AddIdentity base ident \<Rightarrow> snd (record_relationship_identity env base ident s)
      | InternType base label \<Rightarrow> snd (intern_edge_type env base label s))"

fun tx_step_event :: "tx_event \<Rightarrow> tx_state \<Rightarrow> tx_state" where
  "tx_step_event StartSub s = start_subtransaction s"
| "tx_step_event CommitSub s = finish_subtransaction False s"
| "tx_step_event AbortSub s = finish_subtransaction True s"
| "tx_step_event EndTransaction s = clear_current_transaction_state s"
| "tx_step_event (Write env w) s = tx_apply_write env w s"

definition tx_run :: "tx_event list \<Rightarrow> tx_state \<Rightarrow> tx_state" where
  "tx_run es s = fold tx_step_event es s"

end
