(* ===== verification/TxDeltaProofs.thy ===== *)
theory TxDeltaProofs
  imports TxDelta
begin

text \<open>
  Savepoints and the invariant of the transaction delta. The code copies the delta only when a write
  happens inside a savepoint that has no copy yet; the specification copies it at every savepoint. The
  proofs relate the two and carry an invariant of the delta through writes and rollbacks.
\<close>

section \<open>The specification\<close>

definition fits_limits :: "tx_env \<Rightarrow> usize \<times> usize \<times> usize \<Rightarrow> tx_delta \<Rightarrow> bool" where
  "fits_limits env request d \<longleftrightarrow>
     (case request of (nodes, edges, bytes) \<Rightarrow>
        saturating_add_usize (saturating_add_usize (length (td_added_nodes d)) (length (td_deleted_nodes d))) nodes \<le> te_max_nodes env \<and>
        saturating_add_usize (saturating_add_usize (added_edge_count d) (length (td_deleted_edges d))) edges \<le> te_max_edges env \<and>
        saturating_add_usize (saturating_add_usize (te_memory env) (te_pending env)) bytes \<le> te_max_memory env)"

text \<open>The request of a write and the delta it leaves, \<open>None\<close> when the write is refused before its check.\<close>

definition write_plan :: "tx_env \<Rightarrow> tx_write_op \<Rightarrow> tx_delta \<Rightarrow> ((usize \<times> usize \<times> usize) \<times> tx_delta) option" where
  "write_plan env w d =
     (case w of
        AddNode oid pk t \<Rightarrow> Some ((1, 0, estimated_added_node_bytes pk t),
          push_added_node \<lparr>an_table_oid = oid, an_primary_key = pk, an_tenant = t, an_node_idx = None\<rparr> (note_primary_key pk d))
      | AddIndexedNode oid pk t base \<Rightarrow>
          Some ((1, 0, estimated_added_node_bytes pk t), snd (add_indexed_node env oid pk t base d))
      | DeleteNode i \<Rightarrow> Some ((1, 0, 4), d\<lparr>td_deleted_nodes := List.insert i (td_deleted_nodes d)\<rparr>)
      | UpdateFilter c i v \<Rightarrow>
          Some ((0, 0, FILTER_UPDATE_BYTES), d\<lparr>td_filter_updates := AList.update (c, i) v (td_filter_updates d)\<rparr>)
      | AddEdge i e \<Rightarrow>
          Some (if tx_edge_key i e \<in> set (td_deleted_edges d) then (0, 0, 0) else (0, 1, estimated_added_edge_bytes),
            snd (add_edge_change i e d))
      | DeleteEdge k \<Rightarrow>
          Some (if cancels_insert k d then (0, 0, 0) else (0, 1, estimated_deleted_edge_bytes env d),
            snd (delete_edge_change k d))
      | AddIdentity base ident \<Rightarrow>
          Some ((0, 0, saturating_add_usize RELATIONSHIP_IDENTITY_SIZE (length (ri_source_key ident))),
            snd (add_identity_change base ident d))
      | InternType base label \<Rightarrow>
          if label = [] \<or> (pinned_to (length (er_labels base)) (er_fingerprint base) d \<and> map_of (td_appended_ids d) label \<noteq> None) \<or>
             registry_changed base d then None
          else case intern_request env base label d of
            Inl _ \<Rightarrow> None
          | Inr growth \<Rightarrow> Some ((0, 0, growth), snd (intern_change env base label d)))"

definition spec_write :: "tx_env \<Rightarrow> tx_write_op \<Rightarrow> tx_delta \<Rightarrow> tx_delta" where
  "spec_write env w d =
     (case write_plan env w d of None \<Rightarrow> d | Some (request, d') \<Rightarrow> if fits_limits env request d then d' else d)"

text \<open>A transaction is its delta and the delta at each open savepoint, the innermost first.\<close>

fun spec_event :: "tx_event \<Rightarrow> tx_delta \<times> tx_delta list \<Rightarrow> tx_delta \<times> tx_delta list" where
  "spec_event StartSub (d, saved) = (d, d # saved)"
| "spec_event CommitSub (d, saved) = (d, tl saved)"
| "spec_event AbortSub (d, saved) = (case saved of [] \<Rightarrow> (d, []) | d' # rest \<Rightarrow> (d', rest))"
| "spec_event EndTransaction (d, saved) = (default_delta, [])"
| "spec_event (Write env w) (d, saved) = (spec_write env w d, saved)"

section \<open>Lazy snapshots implement it\<close>

definition saved_delta :: "tx_state \<Rightarrow> nat \<Rightarrow> tx_delta" where
  "saved_delta s i = (if i < length (ts_snapshots s) then the (ts_snapshots s ! i) else current_delta s)"

definition abs_tx :: "tx_state \<Rightarrow> tx_delta \<times> tx_delta list" where
  "abs_tx s = (current_delta s, map (saved_delta s) (rev [0..<unat (ts_depth s)]))"

lemma fst_abs_tx: "fst (abs_tx s) = current_delta s"
  by (simp add: abs_tx_def)

lemma abs_tx_pair: "abs_tx s = (current_delta s, snd (abs_tx s))"
  by (simp add: abs_tx_def)

definition tx_ok :: "tx_state \<Rightarrow> bool" where
  "tx_ok s \<longleftrightarrow> ts_callbacks s \<and> length (ts_snapshots s) \<le> unat (ts_depth s) \<and> None \<notin> set (ts_snapshots s)"

lemma current_delta_simps [simp]:
  "current_delta (s\<lparr>ts_delta := Some d\<rparr>) = d" "current_delta (s\<lparr>ts_delta := None\<rparr>) = default_delta"
  "current_delta (s\<lparr>ts_revision := x\<rparr>) = current_delta s" "current_delta (s\<lparr>ts_depth := y\<rparr>) = current_delta s"
  "current_delta (s\<lparr>ts_snapshots := z\<rparr>) = current_delta s" "current_delta (bump_topology_revision s) = current_delta s"
  by (simp_all add: current_delta_def bump_topology_revision_def)

lemma bump_simps [simp]:
  "ts_depth (bump_topology_revision s) = ts_depth s" "ts_snapshots (bump_topology_revision s) = ts_snapshots s"
  "ts_callbacks (bump_topology_revision s) = ts_callbacks s" "ts_delta (bump_topology_revision s) = ts_delta s"
  by (simp_all add: bump_topology_revision_def)

lemma abs_tx_bump [simp]: "abs_tx (bump_topology_revision s) = abs_tx s" "tx_ok (bump_topology_revision s) = tx_ok s"
  by (simp_all add: abs_tx_def saved_delta_def [abs_def] tx_ok_def)

text \<open>A check passes by its limits alone, and then every open savepoint has its copy.\<close>

lemma ensure_write_capacity_outcome:
  assumes "ts_callbacks s"
  shows "(\<exists>e. ensure_write_capacity env n e' b s = (Inl e, s)) \<and> \<not> fits_limits env (n, e', b) (current_delta s) \<or>
    ensure_write_capacity env n e' b s = (Inr (), snapshot_active_subtransactions s) \<and>
    fits_limits env (n, e', b) (current_delta s)"
  using assms
  by (auto simp: ensure_write_capacity_def ensure_transaction_callbacks_registered_def tx_stats_def Let_def fits_limits_def
      enforce_limit_def)

lemma snapshot_facts:
  assumes "tx_ok s"
  shows "abs_tx (snapshot_active_subtransactions s) = abs_tx s" "tx_ok (snapshot_active_subtransactions s)"
    "length (ts_snapshots (snapshot_active_subtransactions s)) = unat (ts_depth s)"
    "current_delta (snapshot_active_subtransactions s) = current_delta s"
    "ts_depth (snapshot_active_subtransactions s) = ts_depth s"
  using assms
  by (auto simp: snapshot_active_subtransactions_def abs_tx_def tx_ok_def saved_delta_def nth_append Let_def unat_eq_0)

lemma abs_tx_write:
  assumes ok: "tx_ok s" and full: "length (ts_snapshots s) = unat (ts_depth s)"
  shows "abs_tx (s\<lparr>ts_delta := Some d\<rparr>) = (d, snd (abs_tx s))" "tx_ok (s\<lparr>ts_delta := Some d\<rparr>)"
  using assms by (auto simp: abs_tx_def tx_ok_def saved_delta_def)

lemma tx_write_outcome:
  assumes ok: "tx_ok s"
  shows "abs_tx (snd (tx_write env request change s)) =
      (if fits_limits env request (current_delta s) then (snd (change (current_delta s)), snd (abs_tx s)) else abs_tx s) \<and>
    tx_ok (snd (tx_write env request change s)) \<and> ts_depth (snd (tx_write env request change s)) = ts_depth s"
proof -
  obtain n e b where r: "request = (n, e, b)" by (cases request)
  have cb: "ts_callbacks s" using ok by (simp add: tx_ok_def)
  let ?s = "snapshot_active_subtransactions s"
  obtain x d where c: "change (current_delta s) = (x, d)" by (cases "change (current_delta s)")
  show ?thesis
  proof (cases "fits_limits env request (current_delta s)")
    case True
    then have "ensure_write_capacity env n e b s = (Inr (), ?s)"
      using ensure_write_capacity_outcome [OF cb, of env n e b] r by auto
    then have step: "tx_write env request change s = bump_on_ok (x, ?s\<lparr>ts_delta := Some d\<rparr>)"
      by (simp add: tx_write_def r tx_bind_def with_delta_def snapshot_facts(4) [OF ok] c)
    have full: "length (ts_snapshots ?s) = unat (ts_depth ?s)"
      using snapshot_facts(3,5) [OF ok] by simp
    show ?thesis
      using True abs_tx_write [OF snapshot_facts(2) [OF ok] full, of d] snapshot_facts(1,5) [OF ok] c
      unfolding step by (cases x) (simp_all add: bump_on_ok_def)
  next
    case False
    then obtain e' where "ensure_write_capacity env n e b s = (Inl e', s)"
      using ensure_write_capacity_outcome [OF cb, of env n e b] r by auto
    then have "snd (tx_write env request change s) = s" by (simp add: tx_write_def r tx_bind_def)
    with False ok show ?thesis by simp
  qed
qed

lemma intern_edge_type_cases:
  "snd (intern_edge_type env base label s) =
     (case write_plan env (InternType base label) (current_delta s) of
        None \<Rightarrow> s
      | Some (request, _) \<Rightarrow> snd (tx_write env request (intern_change env base label) s))"
  by (auto simp: intern_edge_type_def write_plan_def tx_edge_type_id_def Let_def split: option.splits sum.splits)

lemma planned_write_refines:
  assumes ok: "tx_ok s" and plan: "write_plan env w (current_delta s) = Some (request, snd (change (current_delta s)))"
    and step: "tx_apply_write env w s = snd (tx_write env request change s)"
  shows "abs_tx (tx_apply_write env w s) = spec_event (Write env w) (abs_tx s) \<and> tx_ok (tx_apply_write env w s) \<and>
    ts_depth (tx_apply_write env w s) = ts_depth s"
proof -
  have "spec_event (Write env w) (abs_tx s) =
      (if fits_limits env request (current_delta s) then (snd (change (current_delta s)), snd (abs_tx s)) else abs_tx s)"
    by (simp add: abs_tx_def spec_write_def plan)
  then show ?thesis using tx_write_outcome [OF ok, of env request change] by (simp add: step)
qed

lemmas write_defs = tx_apply_write_def write_plan_def record_added_node_def record_added_node_indexed_def
  record_deleted_node_def record_filter_value_update_def record_added_edge_def record_deleted_edge_with_identity_def
  record_relationship_identity_def Let_def

lemma write_refines:
  assumes ok: "tx_ok s"
  shows "abs_tx (tx_apply_write env w s) = spec_event (Write env w) (abs_tx s) \<and> tx_ok (tx_apply_write env w s) \<and>
    ts_depth (tx_apply_write env w s) = ts_depth s"
proof (cases w)
  case (InternType base label)
  show ?thesis
  proof (cases "write_plan env (InternType base label) (current_delta s)")
    case None
    then have "tx_apply_write env w s = s" by (simp add: tx_apply_write_def InternType intern_edge_type_cases)
    moreover have "spec_event (Write env w) (abs_tx s) = abs_tx s"
      using None by (simp add: abs_tx_def spec_write_def InternType)
    ultimately show ?thesis using ok by simp
  next
    case (Some p)
    then obtain request d where p: "write_plan env (InternType base label) (current_delta s) = Some (request, d)"
      by (cases p) auto
    then have "d = snd (intern_change env base label (current_delta s))"
      by (auto simp: write_plan_def split: if_splits sum.splits)
    with p have "write_plan env w (current_delta s) = Some (request, snd (intern_change env base label (current_delta s)))"
      by (simp add: InternType)
    moreover have "tx_apply_write env w s = snd (tx_write env request (intern_change env base label) s)"
      by (simp add: tx_apply_write_def InternType intern_edge_type_cases p)
    ultimately show ?thesis by (rule planned_write_refines [OF ok])
  qed
qed (rule planned_write_refines [OF ok]; simp add: write_defs)+

text \<open>The ends of savepoints and of the transaction.\<close>

lemma depth_minus: "ts_depth s \<noteq> 0 \<Longrightarrow> unat (ts_depth s - 1) = unat (ts_depth s) - 1"
  by (rule unat_minus_one)

lemma start_refines:
  assumes "tx_ok s" "unat (ts_depth s) < 2 ^ 32 - 1"
  shows "abs_tx (start_subtransaction s) = spec_event StartSub (abs_tx s) \<and> tx_ok (start_subtransaction s) \<and>
    unat (ts_depth (start_subtransaction s)) = Suc (unat (ts_depth s))"
proof -
  have "unat (- 1 :: u32) = 2 ^ 32 - 1" by (simp add: unsigned_minus_1_eq_mask mask_eq_exp_minus_1)
  then have "ts_depth s \<noteq> - 1" using assms(2) by auto
  moreover have "unat (ts_depth s + 1) = Suc (unat (ts_depth s))"
    using assms(2) by (intro unat_Suc_u32) simp
  ultimately show ?thesis using assms(1)
    by (simp add: start_subtransaction_def abs_tx_def tx_ok_def saved_delta_def)
qed

lemma finish_refines:
  assumes ok: "tx_ok s"
  shows "abs_tx (finish_subtransaction False s) = spec_event CommitSub (abs_tx s)"
    and "abs_tx (finish_subtransaction True s) = spec_event AbortSub (abs_tx s)"
    and "tx_ok (finish_subtransaction aborted s) \<and> unat (ts_depth (finish_subtransaction aborted s)) = unat (ts_depth s) - 1"
proof -
  have all: "abs_tx (finish_subtransaction b s) = spec_event (if b then AbortSub else CommitSub) (abs_tx s) \<and>
      tx_ok (finish_subtransaction b s) \<and> unat (ts_depth (finish_subtransaction b s)) = unat (ts_depth s) - 1" for b
  proof (cases "unat (ts_depth s)")
    case 0
    then show ?thesis using ok by (auto simp: finish_subtransaction_def abs_tx_def)
  next
    case (Suc n)
    then have "ts_depth s \<noteq> 0" by auto
    then have dec: "unat (ts_depth s - 1) = n" using depth_minus [of s] Suc by simp
    let ?h = "ts_snapshots s"
    have len: "length ?h \<le> Suc n" and none: "None \<notin> set ?h" using ok Suc by (simp_all add: tx_ok_def)
    have none': "None \<notin> set (take n ?h)" using none by (auto dest: in_set_takeD)
    have saved: "snd (abs_tx s) = saved_delta s n # map (saved_delta s) (rev [0..<n])" by (simp add: abs_tx_def Suc)
    show ?thesis
    proof (cases "n < length ?h")
      case True
      then obtain d where d: "?h ! n = Some d" using none by (metis nth_mem option.exhaust)
      define s' where "s' = (if b then bump_topology_revision (s\<lparr>ts_snapshots := take n ?h, ts_delta := Some d\<rparr>)
          else s\<lparr>ts_snapshots := take n ?h\<rparr>)\<lparr>ts_depth := ts_depth s - 1\<rparr>"
      have fin: "finish_subtransaction b s = s'"
        using True d by (simp add: finish_subtransaction_def Suc Let_def s'_def)
      have h': "ts_snapshots s' = take n ?h" "unat (ts_depth s') = n" "ts_callbacks s' = ts_callbacks s"
        "current_delta s' = (if b then d else current_delta s)"
        using dec by (simp_all add: s'_def)
      have "saved_delta s' i = saved_delta s i" if "i < n" for i
        using that True by (simp add: saved_delta_def h')
      then have "map (saved_delta s') (rev [0..<n]) = map (saved_delta s) (rev [0..<n])" by simp
      moreover have "saved_delta s n = d" using True d by (simp add: saved_delta_def)
      ultimately have "abs_tx s' = spec_event (if b then AbortSub else CommitSub) (abs_tx s)"
        by (simp add: abs_tx_def h' Suc)
      then show ?thesis using ok none' by (simp add: fin tx_ok_def h' Suc)
    next
      case False
      define s' where "s' = s\<lparr>ts_snapshots := take n ?h, ts_depth := ts_depth s - 1\<rparr>"
      have fin: "finish_subtransaction b s = s'"
        using False by (simp add: finish_subtransaction_def Suc Let_def s'_def get_opt_def)
      have h': "ts_snapshots s' = ?h" "unat (ts_depth s') = n" "ts_callbacks s' = ts_callbacks s"
        "current_delta s' = current_delta s"
        using dec False by (simp_all add: s'_def)
      have "saved_delta s' = saved_delta s" by (rule ext) (simp add: saved_delta_def h')
      moreover have "saved_delta s n = current_delta s" using False by (simp add: saved_delta_def)
      ultimately have "abs_tx s' = spec_event (if b then AbortSub else CommitSub) (abs_tx s)"
        by (simp add: abs_tx_def h' Suc)
      then show ?thesis using ok False by (simp add: fin tx_ok_def h' Suc)
    qed
  qed
  show "abs_tx (finish_subtransaction False s) = spec_event CommitSub (abs_tx s)" using all [of False] by simp
  show "abs_tx (finish_subtransaction True s) = spec_event AbortSub (abs_tx s)" using all [of True] by simp
  show "tx_ok (finish_subtransaction aborted s) \<and> unat (ts_depth (finish_subtransaction aborted s)) = unat (ts_depth s) - 1"
    using all [of aborted] by simp
qed

lemma end_refines:
  assumes "tx_ok s"
  shows "abs_tx (clear_current_transaction_state s) = (default_delta, [])" "tx_ok (clear_current_transaction_state s)"
    "ts_depth (clear_current_transaction_state s) = 0"
  using assms by (auto simp: clear_current_transaction_state_def clear_current_delta_def abs_tx_def tx_ok_def current_delta_def
      bump_topology_revision_def)

definition savepoint_starts :: "tx_event list \<Rightarrow> nat" where
  "savepoint_starts es = length (filter (\<lambda>e. case e of StartSub \<Rightarrow> True | _ \<Rightarrow> False) es)"

lemma event_refines:
  assumes ok: "tx_ok s" and room: "unat (ts_depth s) + savepoint_starts [e] < 2 ^ 32"
  shows "abs_tx (tx_step_event e s) = spec_event e (abs_tx s) \<and> tx_ok (tx_step_event e s) \<and>
    unat (ts_depth (tx_step_event e s)) \<le> unat (ts_depth s) + savepoint_starts [e]"
proof (cases e)
  case StartSub
  then show ?thesis using start_refines [OF ok] room by (simp add: savepoint_starts_def)
next
  case CommitSub
  then show ?thesis using finish_refines(1) [OF ok] finish_refines(3) [OF ok, of False] by simp
next
  case AbortSub
  then show ?thesis using finish_refines(2) [OF ok] finish_refines(3) [OF ok, of True] by simp
next
  case EndTransaction
  then show ?thesis using end_refines [OF ok] by (simp add: abs_tx_def)
next
  case (Write env w)
  then show ?thesis using write_refines [OF ok, of env w] by simp
qed

lemma run_refines:
  "tx_ok s \<Longrightarrow> unat (ts_depth s) + savepoint_starts es < 2 ^ 32 \<Longrightarrow>
   abs_tx (tx_run es s) = fold spec_event es (abs_tx s) \<and> tx_ok (tx_run es s)"
proof (induction es arbitrary: s)
  case (Cons e es)
  have split: "savepoint_starts (e # es) = savepoint_starts [e] + savepoint_starts es" by (simp add: savepoint_starts_def)
  then have "unat (ts_depth s) + savepoint_starts [e] < 2 ^ 32" using Cons.prems by simp
  from event_refines [OF Cons.prems(1) this] split Cons show ?case by (simp add: tx_run_def)
qed (simp add: tx_run_def)

section \<open>Rollback\<close>

text \<open>Events whose savepoints are all closed again.\<close>

inductive balanced :: "tx_event list \<Rightarrow> bool" where
  balanced_Nil: "balanced []"
| balanced_write: "balanced [Write env w]"
| balanced_append: "balanced as \<Longrightarrow> balanced bs \<Longrightarrow> balanced (as @ bs)"
| balanced_savepoint: "balanced es \<Longrightarrow> e = CommitSub \<or> e = AbortSub \<Longrightarrow> balanced (StartSub # es @ [e])"

lemma spec_balanced: "balanced es \<Longrightarrow> \<exists>d'. \<forall>saved. fold spec_event es (d, saved) = (d', saved)"
proof (induction arbitrary: d rule: balanced.induct)
  case balanced_Nil
  then show ?case by simp
next
  case (balanced_append as bs)
  from balanced_append.IH(1) [of d] obtain d1 where "\<forall>saved. fold spec_event as (d, saved) = (d1, saved)" by blast
  moreover from balanced_append.IH(2) [of d1] obtain d2 where "\<forall>saved. fold spec_event bs (d1, saved) = (d2, saved)" by blast
  ultimately show ?case by auto
next
  case (balanced_savepoint es e)
  from balanced_savepoint.IH [of d] obtain d1 where "\<forall>saved. fold spec_event es (d, saved) = (d1, saved)" by blast
  then have "\<forall>saved. fold spec_event (StartSub # es @ [e]) (d, saved) = (if e = AbortSub then d else d1, saved)"
    using balanced_savepoint.hyps(2) by auto
  then show ?case by blast
qed auto

section \<open>The invariant of the delta\<close>

definition types_ok :: "tx_delta \<Rightarrow> bool" where
  "types_ok d \<longleftrightarrow>
     distinct (td_appended_labels d) \<and> length (td_appended_ids d) = length (td_appended_labels d) \<and>
     (td_appended_labels d \<noteq> [] \<longrightarrow> (\<exists>n. td_base_len d = Some n \<and> n + length (td_appended_labels d) < 2 ^ 32 \<and>
        td_appended_ids d = zip (td_appended_labels d) (map word_of_nat [n..<n + length (td_appended_labels d)])))"

definition delta_ok :: "tx_delta \<Rightarrow> bool" where
  "delta_ok d \<longleftrightarrow>
     distinct (map fst (td_added_edges d)) \<and> [] \<notin> snd ` set (td_added_edges d) \<and>
     distinct (td_deleted_edges d) \<and> distinct (td_deleted_nodes d) \<and>
     td_missing_types d = missing_types_of (td_added_edges d) \<and> types_ok d"

lemma types_ok_simps [simp]:
  "types_ok (d\<lparr>td_added_nodes := a\<rparr>) = types_ok d" "types_ok (d\<lparr>td_max_pk_bytes := b\<rparr>) = types_ok d"
  "types_ok (d\<lparr>td_deleted_nodes := c\<rparr>) = types_ok d" "types_ok (d\<lparr>td_added_edges := e\<rparr>) = types_ok d"
  "types_ok (d\<lparr>td_deleted_edges := f\<rparr>) = types_ok d" "types_ok (d\<lparr>td_filter_updates := g\<rparr>) = types_ok d"
  "types_ok (d\<lparr>td_identities := h\<rparr>) = types_ok d" "types_ok (d\<lparr>td_missing_types := m\<rparr>) = types_ok d"
  by (simp_all add: types_ok_def)

definition delta_within :: "usize \<Rightarrow> usize \<Rightarrow> tx_delta \<Rightarrow> bool" where
  "delta_within max_nodes max_edges d \<longleftrightarrow>
     length (td_added_nodes d) + length (td_deleted_nodes d) \<le> max_nodes \<and>
     added_edge_count d + length (td_deleted_edges d) \<le> max_edges"

lemma default_delta_ok: "delta_ok default_delta" "delta_within n m default_delta"
  by (simp_all add: delta_ok_def types_ok_def default_delta_def missing_types_of_def delta_within_def added_edge_count_def)

lemma set_update: "distinct (map fst m) \<Longrightarrow> set (AList.update k v m) = insert (k, v) {x \<in> set m. fst x \<noteq> k}"
  by (induction m) (auto simp: image_iff)

lemma edges_update:
  "distinct (map fst m) \<Longrightarrow>
   set (concat (map snd (AList.update k v m))) = set v \<union> (\<Union>x\<in>{x \<in> set m. fst x \<noteq> k}. set (snd x))"
  by (auto simp: set_update)

lemma update_same: "map_of m k = Some v \<Longrightarrow> AList.update k v m = m"
  by (induction m) (auto split: if_splits)

lemma edges_split:
  assumes "distinct (map fst m)"
  shows "set (concat (map snd m)) = set (opt_get_or [] (map_of m k)) \<union> (\<Union>x\<in>{x \<in> set m. fst x \<noteq> k}. set (snd x))"
proof (cases "map_of m k")
  case None
  then have "{x \<in> set m. fst x \<noteq> k} = set m" by (auto simp: map_of_eq_None_iff)
  then show ?thesis using None by simp
next
  case (Some v)
  then show ?thesis using edges_update [OF assms, of k v] by (simp add: update_same)
qed

lemma missing_push_edge:
  assumes "distinct (map fst m)"
  shows "missing_types_of (push_edge k e m) =
    (if de_relationship_id e = None then insert (de_type_id e) (missing_types_of m) else missing_types_of m)"
  unfolding missing_types_of_def push_edge_def set_filter edges_update [OF assms] edges_split [OF assms, of k] by auto

lemma count_update:
  "sum_list (map (length \<circ> snd) (AList.update k v m)) + length (opt_get_or [] (map_of m k)) =
   sum_list (map (length \<circ> snd) m) + length v"
  by (induction m) auto

lemma delete_absent: "k \<notin> fst ` set m \<Longrightarrow> AList.delete k m = m"
  by (force simp: AList.delete_eq filter_id_conv)

lemma count_delete:
  "distinct (map fst m) \<Longrightarrow>
   sum_list (map (length \<circ> snd) (AList.delete k m)) + length (opt_get_or [] (map_of m k)) = sum_list (map (length \<circ> snd) m)"
proof (induction m)
  case (Cons x m)
  show ?case
  proof (cases "fst x = k")
    case True
    with Cons.prems have "AList.delete k m = m" by (intro delete_absent) auto
    then have "AList.delete k (x # m) = m" using True by (cases x) (simp add: AList.delete_eq)
    then show ?thesis using True by (cases x) simp
  next
    case False
    then have "AList.delete k (x # m) = x # AList.delete k m" by (cases x) (simp add: AList.delete_eq)
    then show ?thesis using Cons False by (cases x) simp
  qed
qed simp

lemma kept_all:
  assumes "\<not> cancels_insert k d" "map_of (td_added_edges d) (fst k) = Some edges"
  shows "filter (\<lambda>e. \<not> delete_matches k (tx_edge_key (fst k) e)) edges = edges"
  using assms by (auto simp: cancels_insert_def list_ex_iff filter_id_conv)

text \<open>What a deletion does, by whether it cancels an insertion of the transaction.\<close>

definition remove_matching :: "deleted_edge \<Rightarrow> (u32 \<times> delta_edge list) list \<Rightarrow> (u32 \<times> delta_edge list) list" where
  "remove_matching k m =
     (let kept = filter (\<lambda>e. \<not> delete_matches k (tx_edge_key (fst k) e)) (opt_get_or [] (map_of m (fst k))) in
      if kept = [] then AList.delete (fst k) m else AList.update (fst k) kept m)"

lemma delete_edge_change_eq:
  assumes "[] \<notin> snd ` set (td_added_edges d)"
  shows "snd (delete_edge_change k d) =
    (if cancels_insert k d then refresh_completeness_summary (d\<lparr>td_added_edges := remove_matching k (td_added_edges d)\<rparr>)
     else d\<lparr>td_deleted_edges := List.insert k (td_deleted_edges d)\<rparr>)"
proof (cases "map_of (td_added_edges d) (fst k)")
  case None
  then show ?thesis by (simp add: delete_edge_change_def cancels_insert_def)
next
  case (Some edges)
  then have ne: "edges \<noteq> []" using assms by (auto dest!: map_of_SomeD simp: image_iff)
  show ?thesis
  proof (cases "cancels_insert k d")
    case True
    then show ?thesis by (simp add: delete_edge_change_def Some remove_matching_def Let_def)
  next
    case False
    then show ?thesis using ne
      by (simp add: delete_edge_change_def Some Let_def kept_all [OF False Some] update_same [OF Some])
  qed
qed

lemma delete_facts:
  assumes "distinct (map fst m)" "[] \<notin> snd ` set m"
  shows "distinct (map fst (remove_matching k m))" "[] \<notin> snd ` set (remove_matching k m)"
    "sum_list (map (length \<circ> snd) (remove_matching k m)) \<le> sum_list (map (length \<circ> snd) m)"
proof -
  let ?old = "opt_get_or [] (map_of m (fst k))"
  let ?kept = "filter (\<lambda>e. \<not> delete_matches k (tx_edge_key (fst k) e)) ?old"
  show "distinct (map fst (remove_matching k m))"
    using assms(1) by (simp add: remove_matching_def Let_def distinct_update distinct_delete)
  show "[] \<notin> snd ` set (remove_matching k m)"
    using assms by (auto simp: remove_matching_def Let_def set_update AList.delete_eq)
  define old kept where "old = ?old" and "kept = ?kept"
  have "length kept \<le> length old" by (simp add: old_def kept_def)
  moreover have "remove_matching k m = (if kept = [] then AList.delete (fst k) m else AList.update (fst k) kept m)"
    by (simp add: remove_matching_def kept_def Let_def)
  ultimately show "sum_list (map (length \<circ> snd) (remove_matching k m)) \<le> sum_list (map (length \<circ> snd) m)"
    using count_update [of "fst k" kept m, folded old_def] count_delete [OF assms(1), of "fst k", folded old_def] by simp
qed

lemma push_edge_facts:
  assumes "distinct (map fst m)" "[] \<notin> snd ` set m"
  shows "distinct (map fst (push_edge k e m))" "[] \<notin> snd ` set (push_edge k e m)"
    "sum_list (map (length \<circ> snd) (push_edge k e m)) = Suc (sum_list (map (length \<circ> snd) m))"
  using assms count_update [of k "opt_get_or [] (map_of m k) @ [e]" m]
  by (auto simp: push_edge_def distinct_update set_update)

lemma remove1_within: "length (remove1 x xs) \<le> length xs"
  by (simp add: length_remove1)

lemma insert_within: "length (List.insert x xs) \<le> Suc (length xs)"
  by (simp add: List.insert_def)

lemma saturating_le: "saturating_add_usize a b \<le> n \<Longrightarrow> n < usize_max \<Longrightarrow> a + b \<le> n"
  by (simp add: saturating_add_usize_def min_def split: if_splits)

lemma fits_counts:
  assumes "fits_limits env (n, e, b) d" "te_max_nodes env < usize_max" "te_max_edges env < usize_max"
  shows "length (td_added_nodes d) + length (td_deleted_nodes d) + n \<le> te_max_nodes env"
    "added_edge_count d + length (td_deleted_edges d) + e \<le> te_max_edges env"
proof -
  have two: "x + y + z \<le> m" if "saturating_add_usize (saturating_add_usize x y) z \<le> m" "m < usize_max" for x y z m
    using that by (auto simp: saturating_add_usize_def min_def split: if_splits)
  show "length (td_added_nodes d) + length (td_deleted_nodes d) + n \<le> te_max_nodes env"
    "added_edge_count d + length (td_deleted_edges d) + e \<le> te_max_edges env"
    using assms by (auto simp: fits_limits_def intro!: two)
qed

section \<open>Writes keep the invariant\<close>

lemma added_node_keeps:
  "delta_ok (note_primary_key pk d) = delta_ok d" "delta_ok (push_added_node n d) = delta_ok d"
  "delta_within x y (note_primary_key pk d) = delta_within x y d"
  "delta_within x y (push_added_node n d) \<longleftrightarrow>
     length (td_added_nodes d) + length (td_deleted_nodes d) + 1 \<le> x \<and> added_edge_count d + length (td_deleted_edges d) \<le> y"
  "td_added_nodes (note_primary_key pk d) = td_added_nodes d" "td_deleted_nodes (note_primary_key pk d) = td_deleted_nodes d"
  "added_edge_count (note_primary_key pk d) = added_edge_count d" "td_deleted_edges (note_primary_key pk d) = td_deleted_edges d"
  by (simp_all add: note_primary_key_def push_added_node_def delta_ok_def delta_within_def added_edge_count_def)

lemma pin_base_facts:
  assumes ok: "delta_ok d" and same: "\<not> registry_changed base d"
  shows "delta_ok (pin_base base d)" "td_base_len (pin_base base d) = Some (length (er_labels base))"
    "td_appended_labels (pin_base base d) = td_appended_labels d" "td_appended_ids (pin_base base d) = td_appended_ids d"
    "td_added_nodes (pin_base base d) = td_added_nodes d" "td_deleted_nodes (pin_base base d) = td_deleted_nodes d"
    "td_added_edges (pin_base base d) = td_added_edges d" "td_deleted_edges (pin_base base d) = td_deleted_edges d"
  using assms by (auto simp: pin_base_def delta_ok_def types_ok_def registry_changed_def)

lemma provisional_id_Inr:
  "provisional_id base d = Inr i \<Longrightarrow>
   i = word_of_nat (length (er_labels base) + length (td_appended_labels d)) \<and>
   length (er_labels base) + length (td_appended_labels d) + 1 < 2 ^ 32"
proof -
  let ?n = "length (er_labels base) + length (td_appended_labels d)"
  assume "provisional_id base d = Inr i"
  then have n: "?n < 2 ^ 32" "i = word_of_nat ?n" and ne: "(word_of_nat ?n :: u32) \<noteq> SENTINEL"
    by (auto simp: provisional_id_def result_simps checked_add_usize_def u32_try_from_def edge_type_try_from_def split: if_splits)
  have "?n \<noteq> 4294967295"
  proof
    assume "?n = 4294967295"
    then have "(word_of_nat ?n :: u32) = word_of_nat 4294967295" by (rule arg_cong)
    with ne show False by (simp only: SENTINEL_def) simp
  qed
  then show ?thesis using n by simp
qed

lemma appended_lookup:
  assumes "delta_ok d"
  shows "map_of (td_appended_ids d) label = None \<longleftrightarrow> label \<notin> set (td_appended_labels d)"
proof (cases "td_appended_labels d")
  case Nil
  then show ?thesis using assms by (simp add: delta_ok_def types_ok_def)
next
  case (Cons x xs)
  then obtain n where "td_appended_ids d = zip (td_appended_labels d) (map word_of_nat [n..<n + length (td_appended_labels d)])"
    using assms by (auto simp: delta_ok_def types_ok_def)
  then show ?thesis by (simp add: map_of_zip_is_None del: upt_Suc)
qed

lemma intern_keeps:
  assumes ok: "delta_ok d" and same: "\<not> registry_changed base d"
  shows "delta_ok (snd (intern_change env base label d)) \<and>
    td_added_nodes (snd (intern_change env base label d)) = td_added_nodes d \<and>
    td_deleted_nodes (snd (intern_change env base label d)) = td_deleted_nodes d \<and>
    td_added_edges (snd (intern_change env base label d)) = td_added_edges d \<and>
    td_deleted_edges (snd (intern_change env base label d)) = td_deleted_edges d"
proof -
  define d1 where "d1 = pin_base base d"
  note f = pin_base_facts [OF ok same, folded d1_def]
  let ?L = "length (er_labels base)" and ?ls = "td_appended_labels d1"
  let ?r = "rbind (reserve_for (te_alloc env) ''edge type label allocation failed: '' vec_capacity
      (te_labels_capacity env) (length ?ls + 1)) (\<lambda>_.
    rbind (reserve_for (te_alloc env) ''edge type lookup allocation failed: '' hash_capacity
      (te_ids_capacity env) (length (td_appended_ids d1) + 1)) (\<lambda>_.
    rbind (provisional_id base d1) (\<lambda>i.
    rbind (ok_or (Err EdgeTypeLimit) (checked_add_usize (td_appended_payload_bytes d1) (length label))) (\<lambda>payload.
    rbind (try_clone_label (te_alloc env) label) (\<lambda>_.
    rbind (try_clone_label (te_alloc env) label) (\<lambda>_. Inr (i, payload)))))))"
  consider "snd (intern_change env base label d) = d1"
    | i payload where "map_of (td_appended_ids d1) label = None" "?r = Inr (i, payload)"
      "snd (intern_change env base label d) = d1\<lparr>td_appended_labels := ?ls @ [label],
         td_appended_ids := AList.update label i (td_appended_ids d1), td_appended_payload_bytes := payload,
         td_appended_max_label_bytes := max (td_appended_max_label_bytes d1) (length label)\<rparr>"
  proof (cases "map_of (td_appended_ids d1) label")
    case (Some i)
    then show thesis by (intro that(1)) (simp add: intern_change_def Let_def d1_def [symmetric])
  next
    case None
    show thesis
    proof (cases ?r)
      case (Inl e)
      then show thesis using None by (intro that(1)) (simp add: intern_change_def Let_def d1_def [symmetric])
    next
      case (Inr x)
      then show thesis using None
        by (cases x, intro that(2)) (simp_all add: intern_change_def Let_def d1_def [symmetric])
    qed
  qed
  then show ?thesis
  proof cases
    case 1
    then show ?thesis using f by simp
  next
    case (2 i payload)
    have "provisional_id base d1 = Inr i" using 2(2) by (auto simp: result_simps)
    then have i: "i = word_of_nat (?L + length ?ls)" "?L + length ?ls + 1 < 2 ^ 32"
      using provisional_id_Inr by blast+
    have fresh: "label \<notin> set ?ls" using appended_lookup [OF f(1)] 2(1) by simp
    have ids: "td_appended_ids d1 = zip ?ls (map word_of_nat [?L..<?L + length ?ls])"
    proof (cases "?ls = []")
      case True
      then show ?thesis using f(1) by (simp add: delta_ok_def types_ok_def)
    next
      case False
      then show ?thesis using f(1,2) by (auto simp: delta_ok_def types_ok_def)
    qed
    have "AList.update label i (td_appended_ids d1) = td_appended_ids d1 @ [(label, i)]"
      using update_absent [OF 2(1)] .
    also have "\<dots> = zip (?ls @ [label]) (map word_of_nat [?L..<?L + length (?ls @ [label])])"
      by (simp add: ids i(1))
    finally have "delta_ok (d1\<lparr>td_appended_labels := ?ls @ [label],
         td_appended_ids := AList.update label i (td_appended_ids d1), td_appended_payload_bytes := payload,
         td_appended_max_label_bytes := max (td_appended_max_label_bytes d1) (length label)\<rparr>)"
      using f(1,2) fresh i(2) unfolding delta_ok_def types_ok_def by (auto simp del: upt_Suc)
    then show ?thesis using f 2(3) by simp
  qed
qed

lemma write_keeps:
  assumes ok: "delta_ok d" and within: "delta_within max_nodes max_edges d"
    and env: "te_max_nodes env = max_nodes" "te_max_edges env = max_edges" "max_nodes < usize_max" "max_edges < usize_max"
  shows "delta_ok (spec_write env w d) \<and> delta_within max_nodes max_edges (spec_write env w d)"
proof (cases "write_plan env w d")
  case None
  then show ?thesis using ok within by (simp add: spec_write_def)
next
  case (Some p)
  then obtain n e b d' where p: "write_plan env w d = Some ((n, e, b), d')" by (cases p) auto
  show ?thesis
  proof (cases "fits_limits env (n, e, b) d")
    case False
    then show ?thesis using ok within p by (simp add: spec_write_def)
  next
    case True
    then have res: "spec_write env w d = d'" by (simp add: spec_write_def p)
    note counts = fits_counts [OF True, unfolded env, OF env(3,4)]
    have edges: "distinct (map fst (td_added_edges d))" "[] \<notin> snd ` set (td_added_edges d)"
      using ok by (simp_all add: delta_ok_def)
    have "delta_ok d' \<and> delta_within max_nodes max_edges d'"
    proof (cases w)
      case (AddNode oid pk t)
      then have "d' = push_added_node \<lparr>an_table_oid = oid, an_primary_key = pk, an_tenant = t, an_node_idx = None\<rparr> (note_primary_key pk d)"
        "n = 1" "e = 0" using p by (simp_all add: write_plan_def)
      then show ?thesis using ok counts by (simp add: added_node_keeps)
    next
      case (AddIndexedNode oid pk t base)
      then have d': "d' = snd (add_indexed_node env oid pk t base d)" "n = 1" "e = 0" using p by (simp_all add: write_plan_def)
      then have "d' = note_primary_key pk d \<or> (\<exists>x. d' = push_added_node x (note_primary_key pk d))"
        by (auto simp: add_indexed_node_def Let_def split: sum.splits)
      then show ?thesis using ok within counts d'(2,3) by (auto simp: added_node_keeps)
    next
      case (DeleteNode i)
      then show ?thesis using p ok within counts insert_within [of i "td_deleted_nodes d"]
        by (auto simp: write_plan_def delta_ok_def delta_within_def added_edge_count_def)
    next
      case (UpdateFilter c i v)
      then show ?thesis using p ok within
        by (auto simp: write_plan_def delta_ok_def delta_within_def added_edge_count_def)
    next
      case (AddEdge i x)
      show ?thesis
      proof (cases "tx_edge_key i x \<in> set (td_deleted_edges d)")
        case True
        then have "d' = d\<lparr>td_deleted_edges := remove1 (tx_edge_key i x) (td_deleted_edges d)\<rparr>"
          using p AddEdge by (simp add: write_plan_def add_edge_change_def)
        then show ?thesis using ok within remove1_within [of "tx_edge_key i x" "td_deleted_edges d"]
          by (simp add: delta_ok_def delta_within_def added_edge_count_def)
      next
        case False
        then have "e = 1" and "d' = snd (add_edge_change i x d)" using p AddEdge by (auto simp: write_plan_def)
        moreover have "td_missing_types d = missing_types_of (td_added_edges d)" using ok by (simp add: delta_ok_def)
        ultimately have "e = 1" and "d' = d\<lparr>td_missing_types := missing_types_of (push_edge i x (td_added_edges d)),
            td_added_edges := push_edge i x (td_added_edges d)\<rparr>"
          using False by (simp_all add: add_edge_change_def missing_push_edge [OF edges(1)])
        then show ?thesis using ok within counts push_edge_facts [OF edges, of i x]
          by (simp add: delta_ok_def delta_within_def added_edge_count_def)
      qed
    next
      case (DeleteEdge k)
      then show ?thesis using p ok within counts delete_facts [OF edges, of k] insert_within [of k "td_deleted_edges d"]
        by (auto simp: write_plan_def delete_edge_change_eq [OF edges(2)] refresh_completeness_summary_def delta_ok_def
            delta_within_def added_edge_count_def split: if_splits)
    next
      case (AddIdentity base ident)
      then show ?thesis using p ok within
        by (auto simp: write_plan_def add_identity_change_def delta_ok_def delta_within_def added_edge_count_def split: sum.splits)
    next
      case (InternType base label)
      then have "\<not> registry_changed base d" "d' = snd (intern_change env base label d)"
        using p by (auto simp: write_plan_def split: if_splits sum.splits)
      then show ?thesis using intern_keeps [OF ok] within by (simp add: delta_within_def added_edge_count_def)
    qed
    then show ?thesis by (simp add: res)
  qed
qed

section \<open>Whole transactions\<close>

definition limits_are :: "usize \<Rightarrow> usize \<Rightarrow> tx_event \<Rightarrow> bool" where
  "limits_are max_nodes max_edges e \<longleftrightarrow>
     (case e of Write env w \<Rightarrow> te_max_nodes env = max_nodes \<and> te_max_edges env = max_edges | _ \<Rightarrow> True)"

lemma spec_event_keeps:
  assumes "list_all (\<lambda>d. delta_ok d \<and> delta_within n m d) (fst x # snd x)" "limits_are n m e" "n < usize_max" "m < usize_max"
  shows "list_all (\<lambda>d. delta_ok d \<and> delta_within n m d) (fst (spec_event e x) # snd (spec_event e x))"
proof -
  obtain d saved where x: "x = (d, saved)" by (cases x)
  have d: "delta_ok d" "delta_within n m d" and saved: "list_all (\<lambda>d. delta_ok d \<and> delta_within n m d) saved"
    using assms(1) by (simp_all add: x)
  show ?thesis
  proof (cases e)
    case (Write env w)
    then show ?thesis using assms(2-4) saved write_keeps [of d n m env w] d by (simp add: x limits_are_def)
  next
    case StartSub
    then show ?thesis using d saved by (simp add: x)
  next
    case CommitSub
    then show ?thesis using d saved by (cases saved) (simp_all add: x)
  next
    case AbortSub
    then show ?thesis using d saved by (cases saved) (simp_all add: x)
  next
    case EndTransaction
    then show ?thesis using default_delta_ok by (simp add: x)
  qed
qed

lemma spec_run_keeps:
  assumes "list_all (\<lambda>d. delta_ok d \<and> delta_within n m d) (fst x # snd x)" "list_all (limits_are n m) es"
    "n < usize_max" "m < usize_max"
  shows "list_all (\<lambda>d. delta_ok d \<and> delta_within n m d) (fst (fold spec_event es x) # snd (fold spec_event es x))"
  using assms
proof (induction es arbitrary: x)
  case (Cons e es)
  have "list_all (limits_are n m) es" "limits_are n m e" using Cons.prems(2) by simp_all
  with Cons.IH [OF spec_event_keeps [OF Cons.prems(1) _ Cons.prems(3,4)]] Cons.prems(3,4) show ?case by simp
qed simp

text \<open>Provisional identifiers and labels determine each other.\<close>

lemma provisional_ids_inverse:
  assumes "delta_ok (current_delta s)"
  shows "tx_edge_type_id s n fp label = Some k \<longleftrightarrow> tx_edge_type_label s n fp k = Some label"
proof (cases "pinned_to n fp (current_delta s) \<and> td_appended_labels (current_delta s) \<noteq> []")
  case False
  have "td_appended_ids (current_delta s) = []" if "td_appended_labels (current_delta s) = []"
    using assms that by (simp add: delta_ok_def types_ok_def)
  then show ?thesis using False
    by (auto simp: tx_edge_type_id_def tx_edge_type_label_def Let_def get_opt_def)
next
  case True
  let ?ls = "td_appended_labels (current_delta s)"
  have facts: "distinct ?ls" "n + length ?ls < 2 ^ 32"
    "td_appended_ids (current_delta s) = zip ?ls (map word_of_nat [n..<n + length ?ls])"
    using assms True by (auto simp: delta_ok_def types_ok_def pinned_to_def)
  have at: "zip ?ls (map word_of_nat [n..<n + length ?ls]) = map (\<lambda>j. (?ls ! j, word_of_nat (n + j))) [0..<length ?ls]"
    by (rule nth_equalityI) simp_all
  have num: "unat (word_of_nat (n + j) :: u32) = n + j" if "j < length ?ls" for j
    using that facts(2) by (intro unat_of_nat_u32) simp
  have keys: "distinct (map fst (zip ?ls (map word_of_nat [n..<n + length ?ls] :: u32 list)))"
    using facts(1) by simp
  have "tx_edge_type_id s n fp label = Some k \<longleftrightarrow> (label, k) \<in> set (zip ?ls (map word_of_nat [n..<n + length ?ls]))"
    using True map_of_eq_Some_iff [OF keys] by (simp add: tx_edge_type_id_def Let_def facts(3))
  also have "\<dots> \<longleftrightarrow> (\<exists>j<length ?ls. ?ls ! j = label \<and> word_of_nat (n + j) = k)"
    unfolding at by auto
  also have "\<dots> \<longleftrightarrow> n \<le> unat k \<and> unat k - n < length ?ls \<and> ?ls ! (unat k - n) = label"
  proof
    assume "\<exists>j<length ?ls. ?ls ! j = label \<and> word_of_nat (n + j) = k"
    then obtain j where "j < length ?ls" "?ls ! j = label" "k = word_of_nat (n + j)" by blast
    then show "n \<le> unat k \<and> unat k - n < length ?ls \<and> ?ls ! (unat k - n) = label" using num [of j] by simp
  next
    assume r: "n \<le> unat k \<and> unat k - n < length ?ls \<and> ?ls ! (unat k - n) = label"
    then have "word_of_nat (n + (unat k - n)) = k" by simp
    with r show "\<exists>j<length ?ls. ?ls ! j = label \<and> word_of_nat (n + j) = k" by blast
  qed
  also have "\<dots> \<longleftrightarrow> tx_edge_type_label s n fp k = Some label"
    using True by (auto simp: tx_edge_type_label_def Let_def get_opt_def)
  finally show ?thesis .
qed

text \<open>The start of a transaction and the surroundings of the writes of the examples.\<close>

definition sample_tx_env :: tx_env where
  "sample_tx_env =
     \<lparr>te_max_nodes = 100, te_max_edges = 100, te_max_memory = 10000, te_memory = 0, te_pending = 0, te_labels_capacity = 0,
       te_ids_capacity = 0, te_deleted_capacity = 0, te_nest_level = 1, te_alloc = \<lparr>refusal = \<lambda>_. None\<rparr>\<rparr>"

abbreviation sample_tx_start :: tx_state where
  "sample_tx_start \<equiv> tx_initial\<lparr>ts_callbacks := True\<rparr>"

lemmas tx_eval = record_deleted_node_def sample_tx_env_def record_added_edge_def
  record_deleted_edge_with_identity_def tx_write_def tx_bind_def with_delta_def bump_on_ok_def ensure_write_capacity_def
  ensure_transaction_callbacks_registered_def tx_stats_def current_delta_def default_delta_def tx_edge_key_def
  add_edge_change_def delete_edge_change_def cancels_insert_def delete_matches_def push_edge_def enforce_limit_def
  added_edge_count_def saturating_add_usize_def usize_max_def estimated_added_edge_bytes_def VEC_SIZE_def DELTA_EDGE_SIZE_def
  estimated_deleted_edge_bytes_def DELETED_EDGE_SIZE_def snapshot_active_subtransactions_def start_subtransaction_def
  finish_subtransaction_def bump_topology_revision_def tx_initial_def tx_apply_write_def get_opt_def result_simps Let_def

text \<open>
  C39: the lazily copied snapshots implement savepoints. After any sequence of writes, savepoint savepoint_starts,
  commits and rollbacks and transaction ends, also with writes that are refused or fail half-way, the
  delta and the delta each open savepoint would restore are those of the specification that copies at
  every savepoint. In particular a rolled back savepoint restores the delta exactly.
\<close>

theorem savepoints_refine:
  assumes "tx_ok s" "unat (ts_depth s) + savepoint_starts es + 1 < 2 ^ 32"
  shows "abs_tx (tx_run es s) = fold spec_event es (abs_tx s) \<and>
    (balanced es \<longrightarrow> current_delta (tx_run (StartSub # es @ [AbortSub]) s) = current_delta s \<and>
       current_delta (tx_run (StartSub # es @ [CommitSub]) s) = current_delta (tx_run es s))"
proof (intro conjI impI)
  show run: "abs_tx (tx_run es s) = fold spec_event es (abs_tx s)"
    using run_refines [OF assms(1)] assms(2) by simp
  assume bal: "balanced es"
  then obtain d' where d': "\<forall>saved. fold spec_event es (current_delta s, saved) = (d', saved)"
    using spec_balanced by blast
  have sub: "current_delta (tx_run (StartSub # es @ [e]) s) = fst (spec_event e (d', current_delta s # snd (abs_tx s)))"
    if "e = AbortSub \<or> e = CommitSub" for e
  proof -
    have "savepoint_starts (StartSub # es @ [e]) = savepoint_starts es + 1" using that by (auto simp: savepoint_starts_def)
    then have "abs_tx (tx_run (StartSub # es @ [e]) s) = fold spec_event (StartSub # es @ [e]) (current_delta s, snd (abs_tx s))"
      using run_refines [OF assms(1), of "StartSub # es @ [e]"] assms(2) abs_tx_pair [of s] by simp
    also have "\<dots> = spec_event e (d', current_delta s # snd (abs_tx s))" using d' by simp
    finally show ?thesis using fst_abs_tx by metis
  qed
  show "current_delta (tx_run (StartSub # es @ [AbortSub]) s) = current_delta s"
    using sub [of AbortSub] by simp
  have "fst (fold spec_event es (current_delta s, snd (abs_tx s))) = d'" using d' by simp
  then have "current_delta (tx_run es s) = d'" using run abs_tx_pair [of s] fst_abs_tx [of "tx_run es s"] by simp
  then show "current_delta (tx_run (StartSub # es @ [CommitSub]) s) = current_delta (tx_run es s)"
    using sub [of CommitSub] by simp
qed

theorem savepoints_refine_witness:
  "current_delta (tx_run [StartSub, Write sample_tx_env (DeleteNode 3), AbortSub] sample_tx_start) = default_delta \<and>
   td_deleted_nodes (current_delta (tx_run [StartSub, Write sample_tx_env (DeleteNode 3), CommitSub] sample_tx_start)) = [3]"
proof -
  have "current_delta (tx_run [Write sample_tx_env (DeleteNode 3)] sample_tx_start) = default_delta\<lparr>td_deleted_nodes := [3]\<rparr>"
    by (simp add: tx_run_def tx_eval)
  moreover have "balanced [Write sample_tx_env (DeleteNode 3)]" by (rule balanced_write)
  moreover have "tx_ok sample_tx_start" "unat (ts_depth sample_tx_start) + savepoint_starts [Write sample_tx_env (DeleteNode 3)] + 1 < 2 ^ 32"
    by (simp_all add: tx_ok_def tx_initial_def savepoint_starts_def)
  moreover have "current_delta sample_tx_start = default_delta" by (simp add: current_delta_def tx_initial_def)
  ultimately show ?thesis using savepoints_refine [of sample_tx_start "[Write sample_tx_env (DeleteNode 3)]"] by simp
qed

text \<open>
  C40: what the engine reads from a transaction is consistent at every moment: the counts stay within the
  configured limits, the summary of relationship types that lack an identity is exact (also after
  cancelled insertions and rollbacks), and provisional type identifiers and labels determine each other.
\<close>

theorem transaction_reads_consistent:
  assumes "tx_ok s" "unat (ts_depth s) + savepoint_starts es < 2 ^ 32" "ts_delta s = None" "ts_snapshots s = []"
    and "list_all (limits_are max_nodes max_edges) es" "max_nodes < usize_max" "max_edges < usize_max"
  shows "(let s' = tx_run es s; st = tx_stats env s' in
    st_added_nodes st + st_deleted_nodes st \<le> max_nodes \<and> st_added_edges st + st_deleted_edges st \<le> max_edges \<and>
    (\<forall>types. tx_missing_identity_for_types s' types \<longleftrightarrow>
       (\<exists>edges\<in>snd ` set (td_added_edges (current_delta s')). \<exists>e\<in>set edges.
          de_relationship_id e = None \<and> de_type_id e \<in> set types)) \<and>
    (\<forall>n fp label k. tx_edge_type_id s' n fp label = Some k \<longleftrightarrow> tx_edge_type_label s' n fp k = Some label))"
proof -
  define s' where "s' = tx_run es s"
  have "saved_delta s i = default_delta" for i using assms(3,4) by (simp add: saved_delta_def current_delta_def)
  then have "list_all (\<lambda>d. delta_ok d \<and> delta_within max_nodes max_edges d) (fst (abs_tx s) # snd (abs_tx s))"
    using assms(3) default_delta_ok by (auto simp: abs_tx_def list_all_iff current_delta_def)
  from spec_run_keeps [OF this assms(5-7)]
  have "delta_ok (fst (abs_tx s')) \<and> delta_within max_nodes max_edges (fst (abs_tx s'))"
    using conjunct1 [OF run_refines [OF assms(1,2)]] by (simp add: s'_def)
  then have ok: "delta_ok (current_delta s')" "delta_within max_nodes max_edges (current_delta s')"
    by (simp_all add: fst_abs_tx)
  have "td_missing_types (current_delta s') = missing_types_of (td_added_edges (current_delta s'))"
    using ok(1) by (simp add: delta_ok_def)
  then have "tx_missing_identity_for_types s' types \<longleftrightarrow>
      (\<exists>edges\<in>snd ` set (td_added_edges (current_delta s')). \<exists>e\<in>set edges. de_relationship_id e = None \<and> de_type_id e \<in> set types)"
    for types
    by (force simp: tx_missing_identity_for_types_def missing_types_of_def list_ex_iff)
  with ok(2) provisional_ids_inverse [OF ok(1)] show ?thesis
    by (simp add: s'_def [symmetric] Let_def tx_stats_def delta_within_def)
qed

theorem transaction_reads_consistent_witness:
  "(let e = \<lparr>de_target = 1, de_type_id = 7, de_schema_reversed = False, de_weight = None, de_relationship_id = None\<rparr>;
        s' = tx_run [Write sample_tx_env (AddEdge 0 e)] sample_tx_start in
    tx_missing_identity_for_types s' [5, 7] \<and> \<not> tx_missing_identity_for_types s' [5] \<and>
    st_added_edges (tx_stats sample_tx_env s') \<le> 100)"
proof -
  let ?e = "\<lparr>de_target = 1, de_type_id = 7, de_schema_reversed = False, de_weight = None, de_relationship_id = None\<rparr>"
  let ?es = "[Write sample_tx_env (AddEdge 0 ?e)]"
  have "td_added_edges (current_delta (tx_run ?es sample_tx_start)) = [(0, [?e])]"
    by (simp add: tx_run_def tx_eval)
  moreover have "tx_ok sample_tx_start" "unat (ts_depth sample_tx_start) + savepoint_starts ?es < 2 ^ 32"
    "ts_delta sample_tx_start = None" "ts_snapshots sample_tx_start = []" "list_all (limits_are 100 100) ?es"
    "(100 :: usize) < usize_max"
    by (simp_all add: tx_ok_def tx_initial_def savepoint_starts_def limits_are_def sample_tx_env_def usize_max_def)
  ultimately show ?thesis
    using transaction_reads_consistent [of sample_tx_start ?es 100 100 sample_tx_env] by (simp add: Let_def)
qed

end
