(* ===== verification/TxOverlay.thy ===== *)
theory TxOverlay
  imports TxDeltaProofs
begin

text \<open>
  Reading the edges of a running transaction: the overlay that the traversal merges with the loaded
  adjacency is related to the sequence of edge writes that the transaction performed, savepoints and
  refused writes included.
\<close>

section \<open>The edges that a transaction should see\<close>

text \<open>
  What the writes of a transaction come to: the edges it inserted, and the deletions that stand, each the
  key of one edge or, without an identity, of all edges between two nodes of a type and direction.
\<close>

type_synonym edge_changes = "deleted_edge set \<times> deleted_edge set"


definition edge_identity :: "deleted_edge \<Rightarrow> relationship_id option" where
  "edge_identity k = (case k of (s, t, ty, rv, rid) \<Rightarrow> rid)"

text \<open>
  An insertion takes back the deletion of the same key if there is one, else it is an edge of the
  transaction. A deletion withdraws the edges of the transaction that it matches; if there are none, it
  stands.
\<close>

definition change_write :: "tx_write_op \<Rightarrow> edge_changes \<Rightarrow> edge_changes" where
  "change_write w c =
     (case w of
        AddEdge i e \<Rightarrow>
          (if tx_edge_key i e \<in> snd c then (fst c, snd c - {tx_edge_key i e}) else (insert (tx_edge_key i e) (fst c), snd c))
      | DeleteEdge k \<Rightarrow>
          (if \<exists>x\<in>fst c. delete_matches k x then ({x \<in> fst c. \<not> delete_matches k x}, snd c) else (fst c, insert k (snd c)))
      | _ \<Rightarrow> c)"

definition covered :: "deleted_edge set \<Rightarrow> deleted_edge \<Rightarrow> bool" where
  "covered gone x \<longleftrightarrow> (\<exists>g\<in>gone. delete_matches g x)"

definition in_sight :: "deleted_edge set \<Rightarrow> edge_changes \<Rightarrow> deleted_edge set" where
  "in_sight loaded c = {x \<in> loaded. \<not> covered (snd c) x} \<union> (fst c - loaded)"

text \<open>The plain reading of a write: an insertion adds its edge, a deletion removes every edge it matches.\<close>

definition plain_write :: "tx_write_op \<Rightarrow> deleted_edge set \<Rightarrow> deleted_edge set" where
  "plain_write w edges =
     (case w of
        AddEdge i e \<Rightarrow> insert (tx_edge_key i e) edges
      | DeleteEdge k \<Rightarrow> {x \<in> edges. \<not> delete_matches k x}
      | _ \<Rightarrow> edges)"










section \<open>The delta against the view\<close>





lemma edge_identity_key [simp]: "edge_identity (tx_edge_key i e) = de_relationship_id e"
  by (simp add: edge_identity_def tx_edge_key_def)






lemma covered_sets: "covered (insert k gone) x \<longleftrightarrow> delete_matches k x \<or> covered gone x"
  by (auto simp: covered_def)



lemma fst_tx_edge_key [simp]: "fst (tx_edge_key i e) = i"
  by (simp add: tx_edge_key_def)





section \<open>Writes\<close>







lemma repeated_deletion:
  "in_sight loaded (change_write (DeleteEdge k) (change_write (DeleteEdge k) c)) =
    plain_write (DeleteEdge k) (in_sight loaded c)"
proof (cases "\<exists>x\<in>fst c. delete_matches k x")
  case True
  then have "change_write (DeleteEdge k) (change_write (DeleteEdge k) c) =
      ({x \<in> fst c. \<not> delete_matches k x}, insert k (snd c))"
    by (simp add: change_write_def)
  then show ?thesis by (auto simp: in_sight_def plain_write_def covered_sets)
next
  case False
  then have "change_write (DeleteEdge k) (change_write (DeleteEdge k) c) = (fst c, insert k (snd c))"
    by (simp add: change_write_def)
  then show ?thesis using False by (auto simp: in_sight_def plain_write_def covered_sets)
qed


section \<open>Events\<close>





section \<open>The overlay\<close>






























end
