(* ===== verification/Resumable.thy ===== *)
theory Resumable
  imports TraversalTheorems NeighborPaging RelationshipIdentities Resource
begin

text \<open>
  The resumable traversal machine (\<open>graph/src/bfs.rs\<close>) and the loop that drives it
  (\<open>graph/src/sql_traversal.rs\<close>): adjacency is materialised in bounded candidate batches, the
  caller's visibility of each batch is resolved outside the engine, and the verdicts are
  admitted before the next batch is read. The machine keeps everything a suspended search
  needs, including the cursor of the node it is expanding and the neighbors it has read but
  not yet offered.

  What lies outside is an argument: the resolver of a batch, which answers with verdicts and
  with the projection epoch the engine then has, the clock, and the identities the running
  transaction holds beyond the store.
\<close>

section \<open>Batches\<close>

record bfs_candidate_limits =
  bl_max_candidates :: usize
  bl_max_key_bytes :: usize

record bfs_projection_epoch =
  ep_generation_id :: "u64 option"
  ep_applied_sync_id :: "64 word"
  ep_node_count :: u64
  ep_edge_count :: u64
  ep_relationship_identity_count :: u64
  ep_edge_buffer_len :: u64
  ep_edge_buffer_revision :: u64
  ep_tx_topology_revision :: u64
  ep_tx_added_nodes :: u64
  ep_tx_added_edges :: u64
  ep_tx_deleted_nodes :: u64
  ep_tx_deleted_edges :: u64

record bfs_candidate =
  bc_sequence :: u32
  bc_parent_node :: u32
  bc_parent_depth :: int
  bc_target_node :: u32
  bc_target_table_oid :: u32
  bc_target_source_key :: "u8 list"
  bc_edge_type :: edge_type_id
  bc_schema_reversed :: bool
  bc_relationship_id :: "relationship_id option"
  bc_relationship_mapping_id :: "u64 option"
  bc_relationship_source_key :: "u8 list option"

record bfs_batch =
  cb_candidates :: "bfs_candidate list"
  cb_exhausted_current :: bool

datatype bfs_materialization = MatBatch bfs_batch | MatProgress | MatComplete

definition bad_batch :: "string \<Rightarrow> graph_error fault" where
  "bad_batch reason = Err (InvalidFilter (''BFS visibility candidate '' @ reason))"

definition batch_step ::
  "bfs_candidate_limits \<Rightarrow> bfs_candidate \<Rightarrow> usize \<times> u32 option \<Rightarrow> (usize \<times> u32 option) graph_result" where
  "batch_step lim c s =
     (let (bytes, previous) = s in
      if (case previous of None \<Rightarrow> False | Some p \<Rightarrow> bc_sequence c \<le> p)
      then Inl (bad_batch ''sequence must increase'')
      else
        rbind (ok_or (bad_batch ''key bytes overflow'')
          (Option.bind (checked_add_usize bytes (length (bc_target_source_key c))) (\<lambda>value.
           checked_add_usize value (case bc_relationship_source_key c of None \<Rightarrow> 0 | Some k \<Rightarrow> length k))))
          (\<lambda>bytes.
        if bytes > bl_max_key_bytes lim then Inl (bad_batch ''key bytes exceed batch limit'')
        else Inr (bytes, Some (bc_sequence c))))"

definition bfs_batch_try_new ::
  "bfs_candidate list \<Rightarrow> bool \<Rightarrow> bfs_candidate_limits \<Rightarrow> bfs_batch graph_result" where
  "bfs_batch_try_new candidates exhausted lim =
     (if bl_max_candidates lim = 0 \<or> bl_max_key_bytes lim = 0 then Inl (bad_batch ''limits must be positive'')
      else if length candidates > bl_max_candidates lim then Inl (bad_batch ''count exceeds batch limit'')
      else
        rbind (fold_r (batch_step lim) candidates (0, None)) (\<lambda>_.
          Inr \<lparr>cb_candidates = candidates, cb_exhausted_current = exhausted\<rparr>))"

record bfs_verdict =
  vd_sequence :: u32
  vd_node_visible :: bool
  vd_relationship_visible :: bool

definition verdict_visible :: "bfs_verdict \<Rightarrow> bool" where
  "verdict_visible v \<longleftrightarrow> vd_node_visible v \<and> vd_relationship_visible v"

section \<open>The machine\<close>

datatype machine_state = NeedCandidates | NeedVisibility | ReadyToAdmit | MachineComplete

record bfs_machine =
  rm_frontier :: "u32 list"
  rm_visited :: "u32 set"
  rm_depth :: traversal_depth_map
  rm_parent :: traversal_parent_map
  rm_parent_edge_type :: traversal_parent_edge_types
  rm_outputs :: "u32 list"
  rm_cursor :: owned_neighbor_cursor
  rm_pending :: "neighbor list"
  rm_pending_exhausts :: bool
  rm_state :: machine_state
  rm_nodes_visited :: u32
  rm_active :: "u32 option"
  rm_next_sequence :: u32
  rm_pending_batch :: "(u32 option \<times> usize) option"
  rm_truncated :: bool
  rm_epoch :: "bfs_projection_epoch option"
  rm_depth_first :: bool

definition machine_try_new :: "usize \<Rightarrow> 'f bfs_config \<Rightarrow> bool \<Rightarrow> bfs_machine graph_result" where
  "machine_try_new n_nodes cfg depth_first =
     (let sparse = use_sparse_metadata n_nodes (max_nodes cfg);
          seed = seed_node cfg;
          seed_valid = unat seed < n_nodes;
          complete = (\<not> seed_valid \<or> max_depth cfg \<le> 0 \<or> type_filter cfg = NoneMatched) in
      rbind (if seed_valid then depth_set (depth_new n_nodes sparse) seed 0
             else Inr (depth_new n_nodes sparse)) (\<lambda>d.
      rbind (if seed_valid then parent_set (parent_new n_nodes sparse) seed seed
             else Inr (parent_new n_nodes sparse)) (\<lambda>p.
      rbind (if seed_valid then edge_types_set (edge_types_new n_nodes sparse) seed UNTYPED
             else Inr (edge_types_new n_nodes sparse)) (\<lambda>t.
      Inr \<lparr>rm_frontier = (if complete then [] else [seed]), rm_visited = (if seed_valid then {seed} else {}),
           rm_depth = d, rm_parent = p, rm_parent_edge_type = t,
           rm_outputs = (if seed_valid then [seed] else []), rm_cursor = Start, rm_pending = [],
           rm_pending_exhausts = False,
           rm_state = (if complete then MachineComplete else NeedCandidates),
           rm_nodes_visited = (if seed_valid then 1 else 0), rm_active = None, rm_next_sequence = 0,
           rm_pending_batch = None, rm_truncated = False, rm_epoch = None,
           rm_depth_first = depth_first\<rparr>))))"

definition bind_projection_epoch :: "bfs_projection_epoch \<Rightarrow> bfs_machine \<Rightarrow> bfs_machine" where
  "bind_projection_epoch epoch m = m\<lparr>rm_epoch := Some epoch\<rparr>"

definition require_projection_epoch :: "bfs_projection_epoch \<Rightarrow> bfs_machine \<Rightarrow> unit graph_result" where
  "require_projection_epoch actual m =
     (if rm_epoch m = Some actual then Inr ()
      else Inl (Err (Internal
        ''projection changed while caller visibility was being resolved; retry the graph query'')))"

definition is_complete :: "bfs_machine \<Rightarrow> bool" where
  "is_complete m \<longleftrightarrow> rm_state m = MachineComplete"

definition next_candidate_limit :: "usize \<Rightarrow> 'f bfs_config \<Rightarrow> bfs_machine \<Rightarrow> usize" where
  "next_candidate_limit configured cfg m =
     (let remaining_nodes = max 1 (unat (max_nodes cfg) - unat (rm_nodes_visited m));
          remaining_frontier = max 1 (unat (max_frontier cfg) - min (length (rm_frontier m)) 4294967295) in
      max 1 (min (min configured remaining_nodes) remaining_frontier))"

definition machine_finish :: "bfs_machine \<Rightarrow> bfs_result" where
  "machine_finish m =
     \<lparr>res_visited = rm_visited m, res_depth = rm_depth m, res_parent = rm_parent m,
      res_parent_edge_type = rm_parent_edge_type m, truncated = rm_truncated m\<rparr>"

section \<open>Admitting a batch\<close>

definition machine_admits ::
  "('f, 'g) traversal_env \<Rightarrow> 'f bfs_config \<Rightarrow> bfs_candidate \<Rightarrow> bfs_verdict \<Rightarrow> bfs_machine \<Rightarrow> bool graph_result" where
  "machine_admits env cfg c v m =
     (if \<not> verdict_visible v \<or> bc_target_node c \<in> rm_visited m then Inr False
      else
        rbind (is_active (nodes env) (bc_target_node c)) (\<lambda>active.
        if \<not> active \<or> tx_node_deleted env (bc_target_node c) then Inr False
        else if tenant_denies env cfg (bc_target_node c) then Inr False
        else if filter_ops cfg \<noteq> [] \<and> \<not> check_filters env (bc_target_node c) (filter_ops cfg) then Inr False
        else Inr True))"

definition saturating_inc_u32 :: "u32 \<Rightarrow> u32" where
  "saturating_inc_u32 x = (if x = - 1 then x else x + 1)"

definition machine_record :: "bfs_candidate \<Rightarrow> bfs_machine \<Rightarrow> bfs_machine graph_result" where
  "machine_record c m =
     rbind (depth_set (rm_depth m) (bc_target_node c) (bc_parent_depth c + 1)) (\<lambda>d.
     rbind (parent_set (rm_parent m) (bc_target_node c) (bc_parent_node c)) (\<lambda>p.
     rbind (edge_types_set (rm_parent_edge_type m) (bc_target_node c) (bc_edge_type c)) (\<lambda>t.
       Inr (m\<lparr>rm_visited := insert (bc_target_node c) (rm_visited m), rm_depth := d, rm_parent := p,
              rm_parent_edge_type := t, rm_outputs := rm_outputs m @ [bc_target_node c],
              rm_nodes_visited := saturating_inc_u32 (rm_nodes_visited m)\<rparr>))))"

definition stop_truncated :: "bfs_machine \<Rightarrow> bfs_machine" where
  "stop_truncated m = m\<lparr>rm_truncated := True, rm_state := MachineComplete\<rparr>"

fun admit_all ::
  "('f, 'g) traversal_env \<Rightarrow> 'f bfs_config \<Rightarrow> (bfs_candidate \<times> bfs_verdict) list \<Rightarrow> bfs_machine \<Rightarrow>
    bfs_machine graph_result" where
  "admit_all env cfg [] m = Inr (m\<lparr>rm_state := NeedCandidates\<rparr>)"
| "admit_all env cfg ((c, v) # rest) m =
     rbind (machine_admits env cfg c v m) (\<lambda>ok.
     if \<not> ok then admit_all env cfg rest m
     else
       rbind (machine_record c m) (\<lambda>m.
       if rm_nodes_visited m \<ge> max_nodes cfg then Inr (stop_truncated m)
       else if bc_parent_depth c + 1 < max_depth cfg then
         let m = m\<lparr>rm_frontier := rm_frontier m @ [bc_target_node c]\<rparr> in
         if word_of_nat (length (rm_frontier m)) \<ge> max_frontier cfg then Inr (stop_truncated m)
         else admit_all env cfg rest m
       else admit_all env cfg rest m))"

definition batch_stamp :: "bfs_batch \<Rightarrow> u32 option \<times> usize" where
  "batch_stamp b = (map_option bc_sequence (get_opt (cb_candidates b) 0), length (cb_candidates b))"

definition apply_visibility_verdicts ::
  "('f, 'g) traversal_env \<Rightarrow> 'f bfs_config \<Rightarrow> bfs_batch \<Rightarrow> bfs_verdict list \<Rightarrow> bfs_machine \<Rightarrow>
    bfs_machine graph_result" where
  "apply_visibility_verdicts env cfg batch verdicts m =
     (if rm_state m \<noteq> NeedVisibility then
        Inl (Err (Internal ''BFS machine received verdicts outside its visibility state''))
      else if length verdicts \<noteq> length (cb_candidates batch) then
        Inl (Err (Internal ''BFS visibility verdict count mismatch''))
      else if rm_pending_batch m \<noteq> Some (batch_stamp batch) then
        Inl (Err (Internal ''BFS machine received verdicts for a different candidate batch''))
      else if list_ex (\<lambda>(c, v). bc_sequence c \<noteq> vd_sequence v) (zip (cb_candidates batch) verdicts) then
        Inl (Err (Internal ''BFS visibility verdict order mismatch''))
      else
        admit_all env cfg (zip (cb_candidates batch) verdicts)
          (m\<lparr>rm_state := ReadyToAdmit, rm_pending_batch := None\<rparr>))"

section \<open>Materialising a batch\<close>

text \<open>
  The engine a machine runs against: the traversal environment, the pages of the neighbor
  source (reversed when the flag is set), the relationship identities of the store and those
  of the running transaction, and the time at which an amount of work has been done.
\<close>

record 'f machine_env =
  me_env :: "('f, resource_governor) traversal_env"
  me_fill :: "bool \<Rightarrow> u32 \<Rightarrow> owned_neighbor_cursor \<Rightarrow> usize \<Rightarrow> neighbor list \<Rightarrow> neighbor filled_page graph_result"
  me_relationships :: identity_store
  me_tx_identity :: "usize \<Rightarrow> relationship_identity option"
  me_clock :: "u64 \<Rightarrow> nat"

definition resolve_relationship_identity ::
  "'f machine_env \<Rightarrow> relationship_id \<Rightarrow> relationship_identity option graph_result" where
  "resolve_relationship_identity me rid =
     rbind (identity_get (me_relationships me) rid) (\<lambda>hit. case hit of
       Some ident \<Rightarrow> Inr (Some ident)
     | None \<Rightarrow>
         Inr (if unat rid < identity_len (me_relationships me) then None
              else me_tx_identity me (unat rid - identity_len (me_relationships me))))"

definition neighbor_identity ::
  "'f machine_env \<Rightarrow> neighbor \<Rightarrow> relationship_identity option graph_result" where
  "neighbor_identity me n =
     (case nb_relationship_id n of None \<Rightarrow> Inr None | Some rid \<Rightarrow> resolve_relationship_identity me rid)"

definition check_expand_time :: "(u64 \<Rightarrow> nat) \<Rightarrow> resource_governor \<Rightarrow> unit graph_result" where
  "check_expand_time clock g =
     map_err to_graph_error (check_elapsed_duration g QueryExpand (clock (work_used g)))"

definition consume_expansion_without_interrupt :: "resource_governor \<Rightarrow> resource_governor graph_result" where
  "consume_expansion_without_interrupt g = map_err to_graph_error (consume_work QueryExpand 1 g)"

text \<open>The accounting of the eager traversals, which reads the clock every 1024 units.\<close>

definition governed_expansion :: "(u64 \<Rightarrow> nat) \<Rightarrow> resource_governor \<Rightarrow> resource_governor graph_result" where
  "governed_expansion clock g =
     rbind (map_err to_graph_error (consume_work QueryExpand 1 g)) (\<lambda>g.
     if work_used g mod 1024 = 0 then rbind (check_expand_time clock g) (\<lambda>_. Inr g) else Inr g)"

definition type_rejected :: "'f bfs_config \<Rightarrow> neighbor \<Rightarrow> bool" where
  "type_rejected cfg n \<longleftrightarrow>
     (case type_filter cfg of NoneMatched \<Rightarrow> True | Only allowed \<Rightarrow> nb_type_id n \<notin> allowed
      | AllEdgeTypes \<Rightarrow> False)"

text \<open>Start, end and page of the node being expanded.\<close>

definition reset_active :: "bfs_machine \<Rightarrow> bfs_machine" where
  "reset_active m = m\<lparr>rm_active := None, rm_cursor := Start, rm_pending := [], rm_pending_exhausts := False\<rparr>"

definition pop_frontier :: "bfs_machine \<Rightarrow> (u32 \<times> bfs_machine) option" where
  "pop_frontier m =
     (if rm_frontier m = [] then None
      else
        let (current, waiting) =
          (if rm_depth_first m then (last (rm_frontier m), butlast (rm_frontier m))
           else (hd (rm_frontier m), tl (rm_frontier m))) in
        Some (current, m\<lparr>rm_frontier := waiting, rm_active := Some current, rm_cursor := Start,
          rm_pending := [], rm_pending_exhausts := False\<rparr>))"

definition take_active :: "bfs_machine \<Rightarrow> (u32 \<times> bfs_machine) option" where
  "take_active m = (case rm_active m of Some current \<Rightarrow> Some (current, m) | None \<Rightarrow> pop_frontier m)"

lemma take_active_measure:
  "take_active m = Some (current, m') \<Longrightarrow>
    rm_active m' = Some current \<and>
    2 * length (rm_frontier m') + 1 \<le> 2 * length (rm_frontier m) + (if rm_active m = None then 0 else 1)"
  by (cases "rm_frontier m") (auto simp: take_active_def pop_frontier_def split: option.splits if_splits)

function next_active :: "'f bfs_config \<Rightarrow> bfs_machine \<Rightarrow> (u32 \<times> int) option \<times> bfs_machine" where
  "next_active cfg m =
     (case take_active m of
        None \<Rightarrow> (None, m\<lparr>rm_state := MachineComplete\<rparr>)
      | Some (current, m) \<Rightarrow>
          let current_depth = opt_get_or (- 1) (depth_get (rm_depth m) current) in
          if current_depth \<ge> max_depth cfg then next_active cfg (reset_active m)
          else (Some (current, current_depth), m))"
  by pat_completeness auto

termination
  by (relation "measure (\<lambda>(_, m). 2 * length (rm_frontier m) + (if rm_active m = None then 0 else 1))")
    (auto simp: reset_active_def dest!: take_active_measure)

declare next_active.simps [simp del]

definition load_page ::
  "'f machine_env \<Rightarrow> usize \<Rightarrow> u32 \<Rightarrow> bfs_machine \<Rightarrow> (bool \<times> bfs_machine) graph_result" where
  "load_page me limit current m =
     (if rm_pending m = [] then
        rbind (me_fill me (rm_depth_first m) current (rm_cursor m) limit []) (\<lambda>(exhausted, cursor, adjacency).
          Inr (exhausted, m\<lparr>rm_cursor := cursor, rm_pending := adjacency, rm_pending_exhausts := exhausted\<rparr>))
      else Inr (rm_pending_exhausts m, m))"

text \<open>
  Candidates, their key bytes, the next sequence number and the governor go through the loop;
  it returns the neighbors left when the key bytes ended the batch early.
\<close>

type_synonym batch_progress = "bfs_candidate list \<times> usize \<times> u32 \<times> resource_governor"

definition candidate_of ::
  "u32 \<Rightarrow> u32 \<Rightarrow> int \<Rightarrow> neighbor \<Rightarrow> u32 \<Rightarrow> u8 list \<Rightarrow> relationship_identity option \<Rightarrow> bfs_candidate" where
  "candidate_of seq current current_depth n oid key ident =
     \<lparr>bc_sequence = seq, bc_parent_node = current, bc_parent_depth = current_depth,
      bc_target_node = nb_target n, bc_target_table_oid = oid, bc_target_source_key = key,
      bc_edge_type = nb_type_id n, bc_schema_reversed = nb_schema_reversed n,
      bc_relationship_id = nb_relationship_id n,
      bc_relationship_mapping_id = map_option ri_mapping_id ident,
      bc_relationship_source_key = map_option ri_source_key ident\<rparr>"

fun collect_candidates ::
  "'f machine_env \<Rightarrow> 'f bfs_config \<Rightarrow> bfs_candidate_limits \<Rightarrow> u32 \<Rightarrow> int \<Rightarrow> neighbor list \<Rightarrow> batch_progress \<Rightarrow>
    (neighbor list \<times> batch_progress) graph_result" where
  "collect_candidates me cfg lim current d [] s = Inr ([], s)"
| "collect_candidates me cfg lim current d (n # ns) (candidates, key_bytes, seq, g) =
     (if type_rejected cfg n then
        rbind (consume_expansion_without_interrupt g) (\<lambda>g.
          collect_candidates me cfg lim current d ns (candidates, key_bytes, seq, g))
      else
        rbind (ok_or (Err (CorruptFile (''node '' @ show_nat (unat (nb_target n)) @ '' has no table identity'')))
          (table_oid (nodes (me_env me)) (nb_target n))) (\<lambda>oid.
        rbind (primary_key (nodes (me_env me)) (nb_target n)) (\<lambda>key.
        rbind (ok_or (Err (CorruptFile (''node '' @ show_nat (unat (nb_target n)) @ '' has no source identity'')))
          key) (\<lambda>key.
        rbind (neighbor_identity me n) (\<lambda>ident.
        rbind (ok_or (bad_batch ''key bytes overflow'')
          (checked_add_usize (length key) (case ident of None \<Rightarrow> 0 | Some i \<Rightarrow> length (ri_source_key i))))
          (\<lambda>candidate_key_bytes.
        rbind (ok_or (bad_batch ''key bytes overflow'') (checked_add_usize key_bytes candidate_key_bytes))
          (\<lambda>next_key_bytes.
        if next_key_bytes > bl_max_key_bytes lim \<and> candidates = [] then
          Inl (Err (InvalidFilter ''one BFS visibility candidate exceeds the key-byte limit''))
        else if next_key_bytes > bl_max_key_bytes lim then
          Inr (n # ns, candidates, key_bytes, seq, g)
        else
          rbind (consume_expansion_without_interrupt g) (\<lambda>g.
          if seq = - 1 then Inl (Err (Internal ''BFS visibility sequence overflow''))
          else
            collect_candidates me cfg lim current d ns
              (candidates @ [candidate_of seq current d n oid key ident], next_key_bytes, seq + 1, g)))))))))"

text \<open>\<open>size_of::<BfsAdjacencyCandidate>()\<close> is 104 and \<open>size_of::<Neighbor>()\<close> is 20.\<close>

definition batch_allocation :: "bfs_candidate_limits \<Rightarrow> usize option" where
  "batch_allocation lim =
     Option.bind (checked_mul_usize (bl_max_candidates lim) 104) (\<lambda>bytes.
     Option.bind (checked_mul_usize (bl_max_candidates lim) 20) (\<lambda>raw.
     Option.bind (checked_add_usize bytes raw) (\<lambda>bytes.
       checked_add_usize bytes (bl_max_key_bytes lim))))"

text \<open>The lease on the batch's memory is released when the call returns.\<close>

definition batch_lease :: "usize \<Rightarrow> resource_governor \<Rightarrow> (resource_governor \<times> u64) graph_result" where
  "batch_lease bytes g =
     map_err to_graph_error
       (rbind (reserve_memory g QueryVisibility (word_of_nat bytes)) (\<lambda>(g, l). Inr (g, lease_amount l)))"

definition offer_candidates ::
  "bfs_candidate_limits \<Rightarrow> bool \<Rightarrow> neighbor list \<Rightarrow> bfs_candidate list \<Rightarrow> u32 \<Rightarrow> bfs_machine \<Rightarrow>
    (bfs_materialization \<times> bfs_machine) graph_result" where
  "offer_candidates lim exhausted rest candidates seq m =
     (let m = m\<lparr>rm_pending := rest, rm_next_sequence := seq\<rparr>;
          exhausted = (exhausted \<and> rest = []);
          m = (if exhausted then reset_active m else m) in
      if candidates = [] then Inr (if is_complete m then MatComplete else MatProgress, m)
      else
        rbind (bfs_batch_try_new candidates exhausted lim) (\<lambda>batch.
          Inr (MatBatch batch, m\<lparr>rm_pending_batch := Some (batch_stamp batch), rm_state := NeedVisibility\<rparr>)))"

definition materialize_candidates ::
  "'f machine_env \<Rightarrow> 'f bfs_config \<Rightarrow> bfs_candidate_limits \<Rightarrow> bfs_machine \<Rightarrow> resource_governor \<Rightarrow>
    (bfs_materialization \<times> bfs_machine \<times> resource_governor) graph_result" where
  "materialize_candidates me cfg lim m g =
     (case next_active cfg m of
        (None, m) \<Rightarrow> Inr (MatComplete, m, g)
      | (Some (current, d), m) \<Rightarrow>
          rbind (load_page me (bl_max_candidates lim) current m) (\<lambda>(exhausted, m).
          rbind (collect_candidates me cfg lim current d (rm_pending m) ([], 0, rm_next_sequence m, g))
            (\<lambda>(rest, candidates, key_bytes, seq, g).
          rbind (offer_candidates lim exhausted rest candidates seq m) (\<lambda>(mat, m).
            Inr (mat, m, g)))))"

definition materialize_bfs_candidate_batch ::
  "'f machine_env \<Rightarrow> 'f bfs_config \<Rightarrow> bfs_candidate_limits \<Rightarrow> bfs_machine \<Rightarrow> resource_governor \<Rightarrow>
    (bfs_materialization \<times> bfs_machine \<times> resource_governor) graph_result" where
  "materialize_bfs_candidate_batch me cfg lim m g =
     (if rm_state m \<noteq> NeedCandidates then
        Inl (Err (Internal ''BFS candidate materialization requires NeedCandidates state''))
      else if bl_max_candidates lim = 0 \<or> bl_max_candidates lim > RESUMABLE_BFS_PAGE_CAPACITY \<or> bl_max_key_bytes lim = 0
      then Inl (bad_batch ''limits must be positive'')
      else
        rbind (ok_or (bad_batch ''allocation estimate overflow'') (batch_allocation lim)) (\<lambda>bytes.
        rbind (batch_lease bytes g) (\<lambda>(g, amount).
        rbind (materialize_candidates me cfg lim m g) (\<lambda>(mat, m, g).
          Inr (mat, m, release_memory amount g)))))"

section \<open>The driver\<close>

definition CANDIDATE_LIMIT :: usize where "CANDIDATE_LIMIT = 64"

definition KEY_BYTE_LIMIT :: usize where "KEY_BYTE_LIMIT = 1024 * 1024"

definition driver_limits :: "'f bfs_config \<Rightarrow> bfs_machine \<Rightarrow> bfs_candidate_limits" where
  "driver_limits cfg m =
     \<lparr>bl_max_candidates = next_candidate_limit CANDIDATE_LIMIT cfg m, bl_max_key_bytes = KEY_BYTE_LIMIT\<rparr>"

text \<open>The engine's entry points, which check the projection epoch first.\<close>

definition materialize_resumable_batch ::
  "'f machine_env \<Rightarrow> 'f bfs_config \<Rightarrow> bfs_projection_epoch \<Rightarrow> bfs_candidate_limits \<Rightarrow> bfs_machine \<Rightarrow>
    resource_governor \<Rightarrow> (bfs_materialization \<times> bfs_machine \<times> resource_governor) graph_result" where
  "materialize_resumable_batch me cfg epoch lim m g =
     rbind (require_projection_epoch epoch m) (\<lambda>_. materialize_bfs_candidate_batch me cfg lim m g)"

definition admit_resumable_batch ::
  "'f machine_env \<Rightarrow> 'f bfs_config \<Rightarrow> bfs_projection_epoch \<Rightarrow> bfs_batch \<Rightarrow> bfs_verdict list \<Rightarrow> bfs_machine \<Rightarrow>
    bfs_machine graph_result" where
  "admit_resumable_batch me cfg epoch batch verdicts m =
     rbind (require_projection_epoch epoch m) (\<lambda>_. apply_visibility_verdicts (me_env me) cfg batch verdicts m)"

type_synonym batch_resolver = "bfs_batch \<Rightarrow> (bfs_verdict list \<times> bfs_projection_epoch) graph_result"

text \<open>One round: \<open>Inl\<close> is the machine with which the loop breaks.\<close>

definition drive_round ::
  "'f machine_env \<Rightarrow> batch_resolver \<Rightarrow> 'f bfs_config \<Rightarrow> bfs_machine \<Rightarrow> bfs_projection_epoch \<Rightarrow>
    resource_governor \<Rightarrow>
    ((bfs_machine \<times> bfs_projection_epoch) + (bfs_machine \<times> bfs_projection_epoch \<times> resource_governor)) graph_result" where
  "drive_round me resolve cfg m epoch g =
     rbind (materialize_resumable_batch me cfg epoch (driver_limits cfg m) m g) (\<lambda>(mat, m, g).
     rbind (check_expand_time (me_clock me) g) (\<lambda>_.
     case mat of
       MatComplete \<Rightarrow> Inr (Inl (m, epoch))
     | MatProgress \<Rightarrow> Inr (Inr (m, epoch, g))
     | MatBatch batch \<Rightarrow>
         rbind (resolve batch) (\<lambda>(verdicts, epoch).
         rbind (admit_resumable_batch me cfg epoch batch verdicts m) (\<lambda>m. Inr (Inr (m, epoch, g))))))"

text \<open>The loop, whose value is \<open>None\<close> when it does not end.\<close>

partial_function (option) drive ::
  "'f machine_env \<Rightarrow> batch_resolver \<Rightarrow> 'f bfs_config \<Rightarrow> bfs_machine \<Rightarrow> bfs_projection_epoch \<Rightarrow>
    resource_governor \<Rightarrow> (bfs_machine \<times> bfs_projection_epoch) graph_result option" where
  "drive me resolve cfg m epoch g =
     (if is_complete m then Some (Inr (m, epoch))
      else case drive_round me resolve cfg m epoch g of
        Inl e \<Rightarrow> Some (Inl e)
      | Inr (Inl done) \<Rightarrow> Some (Inr done)
      | Inr (Inr (m, epoch, g)) \<Rightarrow> drive me resolve cfg m epoch g)"

definition finish_resumable :: "bfs_projection_epoch \<Rightarrow> bfs_machine \<Rightarrow> bfs_result graph_result" where
  "finish_resumable epoch m = rbind (require_projection_epoch epoch m) (\<lambda>_. Inr (machine_finish m))"

text \<open>The root is put to the resolver like any candidate, in a batch of its own.\<close>

definition seed_candidate :: "'f bfs_config \<Rightarrow> u32 \<Rightarrow> u8 list \<Rightarrow> bfs_candidate" where
  "seed_candidate cfg root_table root_id =
     \<lparr>bc_sequence = 0, bc_parent_node = seed_node cfg, bc_parent_depth = - 1, bc_target_node = seed_node cfg,
      bc_target_table_oid = root_table, bc_target_source_key = root_id, bc_edge_type = UNTYPED,
      bc_schema_reversed = False, bc_relationship_id = None, bc_relationship_mapping_id = None,
      bc_relationship_source_key = None\<rparr>"

definition seed_batch :: "'f bfs_config \<Rightarrow> u32 \<Rightarrow> u8 list \<Rightarrow> bfs_batch graph_result" where
  "seed_batch cfg root_table root_id =
     bfs_batch_try_new [seed_candidate cfg root_table root_id] True
       \<lparr>bl_max_candidates = 1, bl_max_key_bytes = length root_id\<rparr>"

text \<open>A prepared search from the root to its result, which is \<open>None\<close> for a root the caller may not see.\<close>

definition resumable_traversal ::
  "'f machine_env \<Rightarrow> batch_resolver \<Rightarrow> bool \<Rightarrow> 'f bfs_config \<Rightarrow> bfs_projection_epoch \<Rightarrow> u32 \<Rightarrow> u8 list \<Rightarrow>
    resource_governor \<Rightarrow> bfs_result option graph_result option" where
  "resumable_traversal me resolve depth_first cfg epoch root_table root_id g =
     (case rbind (machine_try_new (unat (ns_node_count (nodes (me_env me)))) cfg depth_first) (\<lambda>m.
           rbind (seed_batch cfg root_table root_id) (\<lambda>batch.
           rbind (resolve batch) (\<lambda>(verdicts, epoch').
             Inr (bind_projection_epoch epoch m, epoch',
                  case verdicts of [] \<Rightarrow> False | v # _ \<Rightarrow> verdict_visible v)))) of
        Inl e \<Rightarrow> Some (Inl e)
      | Inr (m, epoch, seed_visible) \<Rightarrow>
          if \<not> seed_visible then Some (Inr None)
          else
            map_option (\<lambda>r. rbind r (\<lambda>(m, epoch). map_sum id Some (finish_resumable epoch m)))
              (drive me resolve cfg m epoch g))"

end
