(* ===== verification/ResumableSteps.thy ===== *)
theory ResumableSteps
  imports Resumable
begin

text \<open>
  Facts about one round of the resumable machine: the eager expansion split at the end of a
  batch, admission of a batch as visits of its candidates, collection of a batch from a page,
  and the governor's account.
\<close>

section \<open>The eager search between two batches\<close>

text \<open>How many more candidates can be looked at before a circuit breaker can fire.\<close>

definition room :: "'f bfs_config \<Rightarrow> 'g traversal_state \<Rightarrow> nat" where
  "room cfg s =
     min (max 1 (unat (max_nodes cfg) - unat (nodes_visited s)))
       (max 1 (unat (max_frontier cfg) - length (frontier s)))"

definition search_ok :: "'f bfs_config \<Rightarrow> 'g traversal_state \<Rightarrow> bool" where
  "search_ok cfg s \<longleftrightarrow>
     set (frontier s) \<subseteq> visited s \<and> distinct (frontier s) \<and>
     (nodes_visited s = 1 \<or> nodes_visited s < max_nodes cfg) \<and>
     (length (frontier s) \<le> 1 \<or> length (frontier s) < unat (max_frontier cfg))"

lemma search_ok_governor [simp]: "search_ok cfg (s\<lparr>governor := g\<rparr>) = search_ok cfg s"
  by (simp add: search_ok_def)

lemma room_governor [simp]: "room cfg (s\<lparr>governor := g\<rparr>) = room cfg s"
  by (simp add: room_def)

lemma room_pos [simp]: "0 < room cfg s" "Suc 0 \<le> room cfg s"
  by (simp_all add: room_def less_max_iff_disj)

lemma depth_set_others:
  "depth_set m i v = Inr m' \<Longrightarrow> j \<noteq> i \<Longrightarrow> depth_get m' j = depth_get m j"
  by (cases m) (auto simp: result_simps update_r_def get_opt_def word_unat_eq_iff split: if_splits)

lemma record_visit_depth:
  "record_visit cur d n s = Inr t \<Longrightarrow> i \<noteq> nb_target n \<Longrightarrow> depth_get (depth t) i = depth_get (depth s) i"
  by (auto simp: record_visit_def result_simps depth_set_others)

lemma succ_below:
  fixes x y :: u32
  assumes "x = 1 \<or> x < y"
  shows "unat (x + 1) = Suc (unat x)"
proof -
  have "Suc (unat x) < 2 ^ 32"
    using assms unat_u32_less [of y] by (auto simp: word_less_nat_alt)
  then show ?thesis by (simp add: unat_word_ariths)
qed

lemma frontier_grown:
  assumes "length f \<le> 1 \<or> length f < unat (l :: u32)"
  shows "unat (word_of_nat (Suc (length f)) :: u32) = Suc (length f)"
proof -
  have "Suc (length f) < 2 ^ 32" using assms unat_u32_less [of l] by auto
  then show ?thesis by (simp add: unat_of_nat del: of_nat_Suc)
qed

text \<open>One candidate: nothing fires while there is room, and the room shrinks by one at most.\<close>

definition advances ::
  "'f bfs_config \<Rightarrow> 'g traversal_state \<Rightarrow> 'g traversal_state \<Rightarrow> bool" where
  "advances cfg s t \<longleftrightarrow>
     governor t = governor s \<and> visited s \<subseteq> visited t \<and>
     (\<forall>i \<in> visited s. depth_get (depth t) i = depth_get (depth s) i) \<and>
     - visited t \<union> set (frontier t) \<subseteq> - visited s \<union> set (frontier s)"

lemma advances_refl [simp]: "advances cfg s s"
  by (simp add: advances_def)

lemma advances_trans: "advances cfg s t \<Longrightarrow> advances cfg t u \<Longrightarrow> advances cfg s u"
  unfolding advances_def by (intro conjI ballI; (elim conjE)?) (auto dest: subsetD)

lemma visit_step:
  assumes v: "visit_candidate st env cfg cur d n s = Inr (go, t)" and ok: "search_ok cfg s"
  shows "advances cfg s t \<and> (if go then search_ok cfg t \<and> room cfg s \<le> Suc (room cfg t) else room cfg s = 1)"
  using v
proof (cases rule: visit_candidate_cases)
  case skip
  then show ?thesis using ok by simp
next
  case (visit u)
  note u = record_visit_visited [OF visit(2)]
  have new: "nb_target n \<notin> visited s" by (rule candidate_unvisited [OF visit(1)])
  have nv: "unat (nodes_visited u) = Suc (unat (nodes_visited s))"
    using succ_below ok u by (auto simp: search_ok_def)
  have fl: "unat (word_of_nat (Suc (length (frontier u))) :: u32) = Suc (length (frontier s))"
    using frontier_grown [of "frontier s" "max_frontier cfg"] ok u by (simp add: search_ok_def)
  have "depth_get (depth u) i = depth_get (depth s) i" if "i \<in> visited s" for i
    using record_visit_depth [OF visit(2), of i] new that by blast
  then have adv: "advances cfg s t"
    using u new by (auto simp: advances_def visit(3))
  show ?thesis
  proof (cases go)
    case True
    with visit(4) have open_: "nodes_visited u < max_nodes cfg"
      "d + 1 < max_depth cfg \<Longrightarrow> Suc (length (frontier s)) < unat (max_frontier cfg)"
      by (simp_all add: word_less_nat_alt [of "word_of_nat _"] fl del: of_nat_Suc)
    have "search_ok cfg t"
      using ok open_ u new by (auto simp: search_ok_def visit(3))
    moreover have "room cfg s \<le> Suc (room cfg t)"
      using nv u open_ by (auto simp: room_def visit(3) word_less_nat_alt)
    ultimately show ?thesis using adv True by simp
  next
    case False
    with visit(4) have "max_nodes cfg \<le> nodes_visited u \<or> unat (max_frontier cfg) \<le> Suc (length (frontier s))"
      by (auto simp: not_less word_le_nat_alt [of _ "word_of_nat _"] fl simp del: of_nat_Suc)
    then have "room cfg s = 1"
      using nv by (auto simp: room_def word_le_nat_alt)
    then show ?thesis using adv False by simp
  qed
qed

section \<open>Splitting an expansion\<close>

fun visits ::
  "traversal_strategy \<Rightarrow> ('f, 'g) traversal_env \<Rightarrow> 'f bfs_config \<Rightarrow> u32 \<Rightarrow> int \<Rightarrow> neighbor list \<Rightarrow>
    'g traversal_state \<Rightarrow> (bool \<times> 'g traversal_state) graph_result" where
  "visits st env cfg cur d [] s = Inr (True, s)"
| "visits st env cfg cur d (n # ns) s =
     rbind (visit_candidate st env cfg cur d n s) (\<lambda>(go, s).
       if go then visits st env cfg cur d ns s else Inr (False, s))"

lemma visits_step:
  "visits st env cfg cur d ns s = Inr (go, t) \<Longrightarrow> search_ok cfg s \<Longrightarrow>
    advances cfg s t \<and> (go \<longrightarrow> search_ok cfg t \<and> room cfg s \<le> room cfg t + length ns)"
proof (induction ns arbitrary: s)
  case Nil
  then show ?case by auto
next
  case (Cons n ns)
  then obtain g u where v: "visit_candidate st env cfg cur d n s = Inr (g, u)"
    and r: "(if g then visits st env cfg cur d ns u else Inr (False, u)) = Inr (go, t)"
    by (auto simp: result_simps)
  note step = visit_step [OF v Cons.prems(2)]
  show ?case
  proof (cases g)
    case True
    with step Cons.IH [of u] r show ?thesis by (auto intro: advances_trans)
  next
    case False
    with step r show ?thesis by auto
  qed
qed

lemma visits_measure:
  "visits st env cfg cur d ns s = Inr (go, t) \<Longrightarrow>
    unvisited t + length (frontier t) \<le> unvisited s + length (frontier s)"
proof (induction ns arbitrary: s)
  case (Cons n ns)
  then obtain g u where v: "visit_candidate st env cfg cur d n s = Inr (g, u)"
    and r: "(if g then visits st env cfg cur d ns u else Inr (False, u)) = Inr (go, t)"
    by (auto simp: result_simps)
  with visit_candidate_measure [OF v] Cons.IH [of u] show ?case by (cases g) auto
qed simp

lemma visit_governor:
  "visit_candidate st env cfg cur d n (s\<lparr>governor := g\<rparr>) =
    rbind (visit_candidate st env cfg cur d n s) (\<lambda>(go, t). Inr (go, t\<lparr>governor := g\<rparr>))"
proof (cases "candidate_allowed env cfg n (visited s) (filter_ops cfg \<noteq> [])")
  case (Inr ok)
  have "record_visit cur d n (s\<lparr>governor := g\<rparr>) =
      rbind (record_visit cur d n s) (\<lambda>t. Inr (t\<lparr>governor := g\<rparr>))"
    by (auto simp: record_visit_def rbind_assoc intro!: rbind_cong)
  with Inr show ?thesis
    by (cases "record_visit cur d n s") (simp_all add: visit_candidate_def Let_def)
qed (simp add: visit_candidate_def)

lemma visits_governor:
  "visits st env cfg cur d ns (s\<lparr>governor := g\<rparr>) =
    rbind (visits st env cfg cur d ns s) (\<lambda>(go, t). Inr (go, t\<lparr>governor := g\<rparr>))"
proof (induction ns arbitrary: s)
  case (Cons n ns)
  show ?case
    by (cases "visit_candidate st env cfg cur d n s") (auto simp: visit_governor Cons.IH)
qed simp

primrec consume_many :: "nat \<Rightarrow> resource_governor \<Rightarrow> resource_governor graph_result" where
  "consume_many 0 g = Inr g"
| "consume_many (Suc k) g = rbind (consume_expansion_without_interrupt g) (consume_many k)"

lemma governed_expansion_consumes:
  "governed_expansion clock g = Inr h \<Longrightarrow> consume_expansion_without_interrupt g = Inr h"
  by (auto simp: governed_expansion_def consume_expansion_without_interrupt_def result_simps split: if_splits)

text \<open>
  An expansion whose first neighbors fit into the room pays for all of them before it looks
  at them, and stops among them only at the last.
\<close>

lemma expand_split:
  assumes "consume_expansion env = governed_expansion clock" "search_ok cfg s" "length xs \<le> room cfg s"
    "expand st env cfg cur d (xs @ ys) s = Inr (stop, t)"
  shows "\<exists>g go u. consume_many (length xs) (governor s) = Inr g \<and>
    visits st env cfg cur d xs (s\<lparr>governor := g\<rparr>) = Inr (go, u) \<and>
    (if go then expand st env cfg cur d ys u = Inr (stop, t) else stop \<and> t = u)"
  using assms(2-)
proof (induction xs arbitrary: s)
  case Nil
  have "consume_many (length ([] :: neighbor list)) (governor s) = Inr (governor s)"
    "visits st env cfg cur d [] (s\<lparr>governor := governor s\<rparr>) = Inr (True, s)" by simp_all
  with Nil(3) show ?case by fastforce
next
  case (Cons n xs)
  from Cons.prems(3) obtain g go u where g: "governed_expansion clock (governor s) = Inr g"
    and v: "visit_candidate st env cfg cur d n (s\<lparr>governor := g\<rparr>) = Inr (go, u)"
    and r: "(if go then expand st env cfg cur d (xs @ ys) u else Inr (True, u)) = Inr (stop, t)"
    by (auto simp: result_simps assms(1))
  note step = visit_step [OF v, simplified, OF Cons.prems(1)]
  note c = governed_expansion_consumes [OF g]
  show ?case
  proof (cases go)
    case False
    with step Cons.prems(2) have "xs = []" by simp
    with c v r False show ?thesis by auto
  next
    case True
    with step Cons.prems(2) have "search_ok cfg u" "length xs \<le> room cfg u" by simp_all
    from Cons.IH [OF this] r True obtain h go' w where
      h: "consume_many (length xs) (governor u) = Inr h"
      "visits st env cfg cur d xs (u\<lparr>governor := h\<rparr>) = Inr (go', w)"
      "if go' then expand st env cfg cur d ys w = Inr (stop, t) else stop \<and> t = w"
      by auto
    have "governor u = g" using step by (simp add: advances_def)
    moreover have "visit_candidate st env cfg cur d n (s\<lparr>governor := h\<rparr>) = Inr (go, u\<lparr>governor := h\<rparr>)"
      using v by (auto simp: visit_governor [where s = s] result_simps)
    ultimately show ?thesis using c h True by auto
  qed
qed

section \<open>Admitting a batch is visiting its candidates\<close>

definition queue :: "bfs_machine \<Rightarrow> u32 list" where
  "queue m = (if rm_depth_first m then rev (rm_frontier m) else rm_frontier m)"

definition strategy_of :: "bool \<Rightarrow> traversal_strategy" where
  "strategy_of depth_first = (if depth_first then Dfs else Bfs)"

definition agrees :: "bfs_machine \<Rightarrow> 'g traversal_state \<Rightarrow> bool" where
  "agrees m s \<longleftrightarrow>
     rm_visited m = visited s \<and> rm_depth m = depth s \<and> rm_parent m = parent s \<and>
     rm_parent_edge_type m = parent_edge_type s \<and> queue m = frontier s \<and>
     rm_nodes_visited m = nodes_visited s"

lemma agrees_reset [simp]: "agrees (reset_active m) s = agrees m s"
  by (simp add: agrees_def reset_active_def queue_def)

text \<open>What admitting a batch leaves alone.\<close>

definition same_reading :: "bfs_machine \<Rightarrow> bfs_machine \<Rightarrow> bool" where
  "same_reading m m' \<longleftrightarrow>
     rm_cursor m' = rm_cursor m \<and> rm_pending m' = rm_pending m \<and>
     rm_pending_exhausts m' = rm_pending_exhausts m \<and> rm_active m' = rm_active m \<and>
     rm_next_sequence m' = rm_next_sequence m \<and> rm_epoch m' = rm_epoch m \<and>
     rm_depth_first m' = rm_depth_first m"

definition candidate_for :: "u32 \<Rightarrow> int \<Rightarrow> neighbor \<Rightarrow> bfs_candidate \<Rightarrow> bool" where
  "candidate_for cur d n c \<longleftrightarrow>
     bc_parent_node c = cur \<and> bc_parent_depth c = d \<and> bc_target_node c = nb_target n \<and>
     bc_edge_type c = nb_type_id n \<and> bc_relationship_id c = nb_relationship_id n"

text \<open>
  The resolver that answers with a visibility scope. A candidate without a mapped relationship
  is visible when its node is.
\<close>

definition scope_verdict :: "visibility_scope \<Rightarrow> bfs_candidate \<Rightarrow> bfs_verdict" where
  "scope_verdict sc c =
     \<lparr>vd_sequence = bc_sequence c, vd_node_visible = allows_node sc (bc_target_node c),
      vd_relationship_visible =
        (case allows_relationship sc (bc_edge_type c) (bc_relationship_id c) of Inr b \<Rightarrow> b
         | Inl _ \<Rightarrow> bc_relationship_mapping_id c = None)\<rparr>"

definition scope_resolver :: "visibility_scope \<Rightarrow> bfs_projection_epoch \<Rightarrow> batch_resolver" where
  "scope_resolver sc epoch batch = Inr (map (scope_verdict sc) (cb_candidates batch), epoch)"

lemma machine_admits_iff:
  assumes "candidate_allowed env cfg n (visited s) (filter_ops cfg \<noteq> []) = Inr b"
    and "agrees m s" "candidate_for cur d n c" "\<not> type_rejected cfg n"
  shows "machine_admits env cfg c (scope_verdict (scope env) c) m = Inr b"
proof -
  have typed: "\<not> (case type_filter cfg of Only allowed \<Rightarrow> nb_type_id n \<notin> allowed | _ \<Rightarrow> False)"
    using assms(4) by (auto simp: type_rejected_def split: edge_type_filter.splits)
  then obtain rel where rel: "allows_relationship (scope env) (nb_type_id n) (nb_relationship_id n) = Inr rel"
    using assms(1) by (auto simp: candidate_allowed_def result_simps)
  have c: "bc_target_node c = nb_target n" "bc_edge_type c = nb_type_id n"
    "bc_relationship_id c = nb_relationship_id n" "rm_visited m = visited s"
    using assms(2,3) by (simp_all add: candidate_for_def agrees_def)
  define later where "later = rbind (is_active (nodes env) (nb_target n)) (\<lambda>active.
    if \<not> active \<or> tx_node_deleted env (nb_target n) then Inr False
    else if tenant_denies env cfg (nb_target n) then Inr False
    else if filter_ops cfg \<noteq> [] \<and> \<not> check_filters env (nb_target n) (filter_ops cfg) then Inr False
    else Inr True :: bool graph_result)"
  have "candidate_allowed env cfg n (visited s) (filter_ops cfg \<noteq> []) =
      (if \<not> rel \<or> \<not> allows_node (scope env) (nb_target n) then Inr False
       else if nb_target n \<in> visited s then Inr False else later)"
    by (simp only: candidate_allowed_def typed rel rbind_Inr if_False later_def)
  moreover have "machine_admits env cfg c (scope_verdict (scope env) c) m =
      (if \<not> (allows_node (scope env) (nb_target n) \<and> rel) \<or> nb_target n \<in> visited s then Inr False else later)"
    by (simp only: machine_admits_def scope_verdict_def verdict_visible_def c rel sum.case bfs_verdict.simps later_def)
  ultimately show ?thesis using assms(1) by (auto split: if_splits)
qed

lemma candidate_rejected:
  "candidate_allowed env cfg n V hf = Inr b \<Longrightarrow> type_rejected cfg n \<Longrightarrow> type_filter cfg \<noteq> NoneMatched \<Longrightarrow> \<not> b"
  by (auto simp: candidate_allowed_def type_rejected_def split: edge_type_filter.splits)

lemma visits_filter:
  "visits st env cfg cur d ns s = Inr r \<Longrightarrow> type_filter cfg \<noteq> NoneMatched \<Longrightarrow>
    visits st env cfg cur d (filter (\<lambda>n. \<not> type_rejected cfg n) ns) s = Inr r"
proof (induction ns arbitrary: s)
  case (Cons n ns)
  then obtain go u where v: "visit_candidate st env cfg cur d n s = Inr (go, u)"
    and r: "(if go then visits st env cfg cur d ns u else Inr (False, u)) = Inr r"
    by (auto simp: result_simps)
  show ?case
  proof (cases "type_rejected cfg n")
    case True
    from v have "go \<and> u = s"
      by (cases rule: visit_candidate_cases) (use candidate_rejected [OF _ True Cons.prems(2)] in auto)
    with True r Cons.IH [OF _ Cons.prems(2)] show ?thesis by simp
  next
    case False
    with v r Cons.IH [OF _ Cons.prems(2), of u] show ?thesis by (cases go) auto
  qed
qed simp

lemma machine_record_agrees:
  assumes "record_visit cur d n s = Inr u" "agrees m s" "candidate_for cur d n c" "search_ok cfg s"
  shows "\<exists>m'. machine_record c m = Inr m' \<and> agrees m' u \<and> same_reading m m' \<and>
    rm_frontier m' = rm_frontier m \<and> rm_truncated m' = rm_truncated m"
proof -
  have "nodes_visited s \<noteq> - 1"
  proof
    assume a: "nodes_visited s = - 1"
    then have "nodes_visited s < max_nodes cfg" using assms(4) by (simp add: search_ok_def)
    with a show False by simp
  qed
  with assms(1-3) show ?thesis
    by (auto simp: record_visit_def machine_record_def agrees_def candidate_for_def same_reading_def
        queue_def saturating_inc_u32_def result_simps)
qed

lemma queue_push:
  "queue (m\<lparr>rm_frontier := rm_frontier m @ [i]\<rparr>) = push_pending (strategy_of (rm_depth_first m)) i (queue m)"
  by (simp add: queue_def strategy_of_def)

lemma length_queue [simp]: "length (queue m) = length (rm_frontier m)"
  by (simp add: queue_def)

lemma stop_truncated_simps [simp]:
  "agrees (stop_truncated m) s = agrees m s" "same_reading m' (stop_truncated m) = same_reading m' m"
  "rm_truncated (stop_truncated m)" "rm_state (stop_truncated m) = MachineComplete"
  by (simp_all add: stop_truncated_def agrees_def same_reading_def queue_def)

text \<open>One candidate: the machine does what the eager search does with its neighbor.\<close>

lemma admit_one:
  assumes v: "visit_candidate st env cfg cur d n s = Inr (g, w)" and so: "search_ok cfg s" and ag: "agrees m s"
    and st: "st = strategy_of (rm_depth_first m)" and cf: "candidate_for cur d n c" and ty: "\<not> type_rejected cfg n"
  shows "\<exists>m1. agrees m1 w \<and> same_reading m m1 \<and> rm_truncated m1 = (rm_truncated m \<or> \<not> g) \<and>
    (\<not> g \<longrightarrow> rm_state m1 = MachineComplete) \<and>
    admit_all env cfg ((c, scope_verdict (scope env) c) # rest) m = (if g then admit_all env cfg rest m1 else Inr m1)"
  using v
proof (cases rule: visit_candidate_cases)
  case skip
  have "machine_admits env cfg c (scope_verdict (scope env) c) m = Inr False"
    by (rule machine_admits_iff [OF skip(1) ag cf ty])
  with skip ag show ?thesis by (intro exI [of _ m]) (simp add: same_reading_def)
next
  case (visit x)
  have adm: "machine_admits env cfg c (scope_verdict (scope env) c) m = Inr True"
    by (rule machine_admits_iff [OF visit(1) ag cf ty])
  obtain m1 where m1: "machine_record c m = Inr m1" "agrees m1 x" "same_reading m m1"
    "rm_frontier m1 = rm_frontier m" "rm_truncated m1 = rm_truncated m"
    using machine_record_agrees [OF visit(2) ag cf so] by blast
  have fx: "length (frontier x) = length (rm_frontier m1)" "nodes_visited x = rm_nodes_visited m1"
    using m1(2) by (auto simp: agrees_def simp flip: length_queue)
  have c: "bc_parent_depth c = d" "bc_target_node c = nb_target n"
    using cf by (simp_all add: candidate_for_def)
  show ?thesis
  proof (cases "nodes_visited x < max_nodes cfg \<and> d + 1 < max_depth cfg")
    case False
    then have w: "w = x" using visit(3) by auto
    show ?thesis
    proof (cases "nodes_visited x < max_nodes cfg")
      case True
      with False visit(4) adm m1 fx c w show ?thesis by (intro exI [of _ m1]) (auto simp: not_le)
    next
      case False
      with visit(4) adm m1 fx c w show ?thesis
        by (intro exI [of _ "stop_truncated m1"]) (auto simp: not_less)
    qed
  next
    case True
    let ?m2 = "m1\<lparr>rm_frontier := rm_frontier m1 @ [nb_target n]\<rparr>"
    have w: "w = x\<lparr>frontier := push_pending st (nb_target n) (frontier x)\<rparr>" using True visit(3) by simp
    have "rm_depth_first m1 = rm_depth_first m" using m1(3) by (simp add: same_reading_def)
    then have m2: "agrees ?m2 w" "same_reading m ?m2" "rm_truncated ?m2 = rm_truncated m"
      using m1(2,3,5) queue_push [of m1 "nb_target n"] st by (simp_all add: agrees_def w same_reading_def)
    have g: "g \<longleftrightarrow> \<not> word_of_nat (Suc (length (rm_frontier m1))) \<ge> max_frontier cfg"
      using visit(4) True fx by (auto simp: not_le simp del: of_nat_Suc)
    have "admit_all env cfg ((c, scope_verdict (scope env) c) # rest) m =
        (if g then admit_all env cfg rest ?m2 else Inr (stop_truncated ?m2))"
      using True adm m1(1) fx c by (cases g) (auto simp: g not_le Let_def simp del: of_nat_Suc)
    with m2 show ?thesis
      by (intro exI [of _ "if g then ?m2 else stop_truncated ?m2"]) auto
  qed
qed

lemma admit_agrees:
  assumes "visits st env cfg cur d ns s = Inr (go, u)" "search_ok cfg s" "agrees m s"
    "st = strategy_of (rm_depth_first m)" "list_all2 (candidate_for cur d) ns cs"
    "\<forall>n \<in> set ns. \<not> type_rejected cfg n"
  shows "\<exists>m'. admit_all env cfg (zip cs (map (scope_verdict (scope env)) cs)) m = Inr m' \<and> agrees m' u \<and>
    same_reading m m' \<and> rm_state m' = (if go then NeedCandidates else MachineComplete) \<and>
    rm_truncated m' = (rm_truncated m \<or> \<not> go)"
  using assms
proof (induction ns arbitrary: s m cs)
  case Nil
  then show ?case by (auto simp: agrees_def same_reading_def queue_def)
next
  case (Cons n ns)
  from Cons.prems(5) obtain c cs' where cs: "cs = c # cs'" "candidate_for cur d n c"
    "list_all2 (candidate_for cur d) ns cs'" by (auto simp: list_all2_Cons1)
  from Cons.prems(1) obtain g w where v: "visit_candidate st env cfg cur d n s = Inr (g, w)"
    and r: "(if g then visits st env cfg cur d ns w else Inr (False, w)) = Inr (go, u)"
    by (auto simp: result_simps)
  from admit_one [OF v Cons.prems(2,3,4) cs(2), of "zip cs' (map (scope_verdict (scope env)) cs')"] Cons.prems(6)
  obtain m1 where m1: "agrees m1 w" "same_reading m m1" "rm_truncated m1 = (rm_truncated m \<or> \<not> g)"
    "\<not> g \<longrightarrow> rm_state m1 = MachineComplete"
    "admit_all env cfg (zip cs (map (scope_verdict (scope env)) cs)) m =
      (if g then admit_all env cfg (zip cs' (map (scope_verdict (scope env)) cs')) m1 else Inr m1)"
    by (auto simp: cs(1))
  have "rm_depth_first m1 = rm_depth_first m" using m1(2) by (simp add: same_reading_def)
  with visit_step [OF v Cons.prems(2)] m1 r Cons.IH [of w m1 cs'] Cons.prems(4,6) cs(3) show ?case
    by (cases g) (auto simp: same_reading_def)
qed

section \<open>Collecting candidates\<close>

text \<open>A neighbor the machine can offer: it has a row and an identity, and fits into a batch alone.\<close>

definition offerable :: "'f machine_env \<Rightarrow> neighbor \<Rightarrow> bool" where
  "offerable me n \<longleftrightarrow>
     (\<exists>oid key ident. table_oid (nodes (me_env me)) (nb_target n) = Some oid \<and>
        primary_key (nodes (me_env me)) (nb_target n) = Inr (Some key) \<and> neighbor_identity me n = Inr ident \<and>
        length key + (case ident of None \<Rightarrow> 0 | Some i \<Rightarrow> length (ri_source_key i)) \<le> KEY_BYTE_LIMIT)"

lemma consume_many_add:
  "consume_many (j + k) g = rbind (consume_many j g) (consume_many k)"
  by (induction j arbitrary: g) (auto simp: rbind_assoc intro: rbind_cong)

lemma consume_many_prefix: "consume_many k g = Inr h \<Longrightarrow> j \<le> k \<Longrightarrow> \<exists>h'. consume_many j g = Inr h'"
  using consume_many_add [of j "k - j" g] by (cases "consume_many j g") auto

text \<open>What a collected batch is: a prefix of the page, paid for, in sequence order, within the bytes.\<close>

definition collected ::
  "'f bfs_config \<Rightarrow> bfs_candidate_limits \<Rightarrow> u32 \<Rightarrow> int \<Rightarrow> neighbor list \<Rightarrow> batch_progress \<Rightarrow>
    (neighbor list \<times> batch_progress) \<Rightarrow> bool" where
  "collected cfg lim cur d ns s r \<longleftrightarrow>
     (\<exists>xs cs. ns = xs @ fst r \<and> fst (snd r) = fst s @ cs \<and>
        list_all2 (candidate_for cur d) (filter (\<lambda>n. \<not> type_rejected cfg n) xs) cs \<and>
        consume_many (length xs) (snd (snd (snd s))) = Inr (snd (snd (snd (snd r)))) \<and>
        unat (fst (snd (snd (snd r)))) = unat (fst (snd (snd s))) + length cs \<and>
        (fst r \<noteq> [] \<longrightarrow> fst (snd r) \<noteq> []) \<and>
        (\<forall>p. (\<forall>q. p = Some q \<longrightarrow> q < fst (snd (snd s))) \<longrightarrow>
          (\<exists>p'. fold_r (batch_step lim) cs (fst (snd s), p) = Inr (fst (snd (snd r)), p'))))"

lemma collect_ok:
  assumes "\<forall>n \<in> set ns. \<not> type_rejected cfg n \<longrightarrow> offerable me n" "bl_max_key_bytes lim = KEY_BYTE_LIMIT"
    and "consume_many (length ns) g = Inr g'" "bytes \<le> KEY_BYTE_LIMIT" "unat seq + length ns < 2 ^ 32"
    and "acc = [] \<Longrightarrow> bytes = 0"
  shows "\<exists>r. collect_candidates me cfg lim cur d ns (acc, bytes, seq, g) = Inr r \<and>
    collected cfg lim cur d ns (acc, bytes, seq, g) r"
  using assms
proof (induction ns arbitrary: acc bytes seq g)
  case Nil
  then show ?case by (auto simp: collected_def)
next
  case (Cons n ns)
  from Cons.prems(3) obtain h where h: "consume_expansion_without_interrupt g = Inr h"
    "consume_many (length ns) h = Inr g'" by (auto simp: result_simps)
  show ?case
  proof (cases "type_rejected cfg n")
    case True
    with Cons.IH [OF _ Cons.prems(2) h(2) Cons.prems(4), of seq acc] Cons.prems(1,5,6)
    obtain r where r: "collect_candidates me cfg lim cur d ns (acc, bytes, seq, h) = Inr r"
      "collected cfg lim cur d ns (acc, bytes, seq, h) r" by auto
    then obtain xs cs where x: "ns = xs @ fst r" "fst (snd r) = acc @ cs"
      "list_all2 (candidate_for cur d) (filter (\<lambda>n. \<not> type_rejected cfg n) xs) cs"
      "consume_many (length xs) h = Inr (snd (snd (snd (snd r))))"
      "unat (fst (snd (snd (snd r)))) = unat seq + length cs" "fst r \<noteq> [] \<longrightarrow> fst (snd r) \<noteq> []"
      "\<forall>p. (\<forall>q. p = Some q \<longrightarrow> q < seq) \<longrightarrow> (\<exists>p'. fold_r (batch_step lim) cs (bytes, p) = Inr (fst (snd (snd r)), p'))"
      by (auto simp: collected_def)
    then have "collected cfg lim cur d (n # ns) (acc, bytes, seq, g) r"
      unfolding collected_def using True h(1) by (intro exI [of _ "n # xs"] exI [of _ cs]) simp
    with True r(1) h(1) show ?thesis by auto
  next
    case False
    with Cons.prems(1) obtain oid key ident where o: "table_oid (nodes (me_env me)) (nb_target n) = Some oid"
      "primary_key (nodes (me_env me)) (nb_target n) = Inr (Some key)" "neighbor_identity me n = Inr ident"
      "length key + (case ident of None \<Rightarrow> 0 | Some i \<Rightarrow> length (ri_source_key i)) \<le> KEY_BYTE_LIMIT"
      by (auto simp: offerable_def)
    let ?k = "length key + (case ident of None \<Rightarrow> 0 | Some i \<Rightarrow> length (ri_source_key i))"
    let ?c = "candidate_of seq cur d n oid key ident"
    have fits: "checked_add_usize (length key) (case ident of None \<Rightarrow> 0 | Some i \<Rightarrow> length (ri_source_key i)) = Some ?k"
      "checked_add_usize bytes ?k = Some (bytes + ?k)"
      using o(4) Cons.prems(4) by (simp_all add: checked_add_usize_def usize_max_def KEY_BYTE_LIMIT_def)
    show ?thesis
    proof (cases "bytes + ?k > KEY_BYTE_LIMIT")
      case True
      then have "acc \<noteq> []" using Cons.prems(6) o(4) by auto
      with True False o fits Cons.prems(2)
      have "collect_candidates me cfg lim cur d (n # ns) (acc, bytes, seq, g) = Inr (n # ns, acc, bytes, seq, g)"
        by simp
      moreover have "collected cfg lim cur d (n # ns) (acc, bytes, seq, g) (n # ns, acc, bytes, seq, g)"
        using \<open>acc \<noteq> []\<close> by (auto simp: collected_def)
      ultimately show ?thesis by blast
    next
      case below: False
      have "unat (seq + 1) = Suc (unat seq)"
        using Cons.prems(5) by (simp add: unat_word_ariths)
      moreover from this have "seq \<noteq> - 1" by auto
      ultimately have seq: "seq \<noteq> - 1" "unat (seq + 1) = Suc (unat seq)" by simp_all
      have "unat (seq + 1) + length ns < 2 ^ 32" using seq(2) Cons.prems(5) by simp
      with Cons.IH [OF _ Cons.prems(2) h(2), of "bytes + ?k" "seq + 1" "acc @ [?c]"] Cons.prems(1) below
      obtain r where r: "collect_candidates me cfg lim cur d ns (acc @ [?c], bytes + ?k, seq + 1, h) = Inr r"
        "collected cfg lim cur d ns (acc @ [?c], bytes + ?k, seq + 1, h) r" by auto
      then obtain xs cs where x: "ns = xs @ fst r" "fst (snd r) = (acc @ [?c]) @ cs"
        "list_all2 (candidate_for cur d) (filter (\<lambda>n. \<not> type_rejected cfg n) xs) cs"
        "consume_many (length xs) h = Inr (snd (snd (snd (snd r))))"
        "unat (fst (snd (snd (snd r)))) = unat (seq + 1) + length cs"
        "\<forall>p. (\<forall>q. p = Some q \<longrightarrow> q < seq + 1) \<longrightarrow>
          (\<exists>p'. fold_r (batch_step lim) cs (bytes + ?k, p) = Inr (fst (snd (snd r)), p'))"
        by (auto simp: collected_def)
      have c: "candidate_for cur d n ?c" by (simp add: candidate_for_def candidate_of_def)
      have step: "batch_step lim ?c (bytes, p) = Inr (bytes + ?k, Some seq)"
        if "\<forall>q. p = Some q \<longrightarrow> q < seq" for p
        using that fits below Cons.prems(2)
        by (cases p; cases ident) (auto simp: batch_step_def candidate_of_def checked_add_usize_def split: if_splits)
      have "seq < seq + 1" using seq(2) by (simp add: word_less_nat_alt)
      with x(6) step have "\<forall>p. (\<forall>q. p = Some q \<longrightarrow> q < seq) \<longrightarrow>
          (\<exists>p'. fold_r (batch_step lim) (?c # cs) (bytes, p) = Inr (fst (snd (snd r)), p'))"
        by simp
      with x seq(2) c h(1) False have "collected cfg lim cur d (n # ns) (acc, bytes, seq, g) r"
        unfolding collected_def by (intro exI [of _ "n # xs"] exI [of _ "?c # cs"]) simp
      moreover have "collect_candidates me cfg lim cur d (n # ns) (acc, bytes, seq, g) = Inr r"
        using r(1) False o fits below seq(1) h(1) Cons.prems(2) by simp
      ultimately show ?thesis by blast
    qed
  qed
qed

section \<open>The governor\<close>

text \<open>The two searches have done the same work under the same limits.\<close>

definition same_account :: "resource_governor \<Rightarrow> resource_governor \<Rightarrow> bool" where
  "same_account g h \<longleftrightarrow> work_used h = work_used g \<and> limits h = limits g"

definition LARGEST_LEASE :: nat where
  "LARGEST_LEASE = 64 * 104 + 64 * 20 + KEY_BYTE_LIMIT"

text \<open>There is memory for a batch, and the operation's time does not run out.\<close>

definition governor_open :: "(u64 \<Rightarrow> nat) \<Rightarrow> resource_governor \<Rightarrow> bool" where
  "governor_open clock g \<longleftrightarrow>
     unat (memory_used g) + LARGEST_LEASE \<le> unat (memory_limit (limits g)) \<and>
     (\<forall>w. clock w \<le> elapsed_limit (limits g))"

lemma consume_one:
  "consume_expansion_without_interrupt g = Inr g' \<Longrightarrow> same_account g h \<Longrightarrow>
    \<exists>h'. consume_expansion_without_interrupt h = Inr h' \<and> same_account g' h' \<and>
      memory_used h' = memory_used h \<and> limits h' = limits h"
  by (auto simp: consume_expansion_without_interrupt_def consume_work_def map_err_def same_account_def
      rbind_def split: sum.splits fault.splits)

lemma consume_many_account:
  "consume_many k g = Inr g' \<Longrightarrow> same_account g h \<Longrightarrow>
    \<exists>h'. consume_many k h = Inr h' \<and> same_account g' h' \<and> memory_used h' = memory_used h \<and> limits h' = limits h"
proof (induction k arbitrary: g h)
  case (Suc k)
  then obtain g1 where "consume_expansion_without_interrupt g = Inr g1" "consume_many k g1 = Inr g'"
    by (auto simp: result_simps)
  with consume_one [OF this(1) Suc.prems(2)] Suc.IH [of g1] show ?case by fastforce
qed simp

lemma batch_lease_open:
  assumes "governor_open clock g" "bytes \<le> LARGEST_LEASE"
  shows "\<exists>h. batch_lease bytes g = Inr (h, word_of_nat bytes) \<and> same_account g h \<and>
    memory_used h = memory_used g + word_of_nat bytes \<and>
    (\<forall>h'. memory_used h' = memory_used h \<longrightarrow>
      memory_used (release_memory (word_of_nat bytes) h') = memory_used g)"
proof -
  have b: "unat (word_of_nat bytes :: u64) = bytes"
    using assms(2) by (simp add: unat_of_nat LARGEST_LEASE_def KEY_BYTE_LIMIT_def)
  let ?h = "g\<lparr>memory_used := memory_used g + word_of_nat bytes,
    memory_peak := max (memory_peak g) (memory_used g + word_of_nat bytes),
    memory_peak_phase := if memory_used g + word_of_nat bytes > memory_peak g then Some QueryVisibility
      else memory_peak_phase g\<rparr>"
  have "unat (memory_used g) + bytes < 2 ^ 64"
    using assms unat_u64_less [of "memory_limit (limits g)"] by (simp add: governor_open_def)
  then have "memory_used g + word_of_nat bytes \<ge> (word_of_nat bytes :: u64)"
    using b by (simp add: word_le_nat_alt unat_word_ariths)
  then have "saturating_sub_u64 (memory_used g + word_of_nat bytes) (word_of_nat bytes) = memory_used g"
    by (simp add: saturating_sub_u64_def)
  moreover have "reserve_memory g QueryVisibility (word_of_nat bytes) =
      Inr (?h, \<lparr>lease_phase = QueryVisibility, lease_amount = word_of_nat bytes\<rparr>)"
    using assms b by (simp add: reserve_memory_Inr governor_open_def)
  ultimately show ?thesis
    by (simp add: batch_lease_def map_err_def same_account_def release_memory_def)
qed

lemma governor_open_moves:
  "governor_open clock g \<Longrightarrow> memory_used h = memory_used g \<Longrightarrow> limits h = limits g \<Longrightarrow> governor_open clock h"
  by (simp add: governor_open_def)

lemma time_open: "governor_open clock g \<Longrightarrow> check_expand_time clock g = Inr ()"
proof -
  assume "governor_open clock g"
  then have "min (clock (work_used g)) (2 ^ 64 - 1) \<le> min (elapsed_limit (limits g)) (2 ^ 64 - 1)"
    by (intro min.mono) (simp_all add: governor_open_def)
  moreover have "unat (word_of_nat (min k (2 ^ 64 - 1)) :: u64) = min k (2 ^ 64 - 1)" for k
    by (simp add: unat_of_nat)
  ultimately have "\<not> (word_of_nat (min (elapsed_limit (limits g)) (2 ^ 64 - 1)) :: u64) <
      word_of_nat (min (clock (work_used g)) (2 ^ 64 - 1))"
    unfolding word_less_nat_alt by simp
  then show ?thesis
    by (simp only: check_expand_time_def check_elapsed_duration_def Let_def if_False map_err_def sum.case)
qed

lemma batch_allocation_open:
  assumes "bl_max_candidates lim \<le> 64" "bl_max_key_bytes lim = KEY_BYTE_LIMIT"
  shows "\<exists>bytes. batch_allocation lim = Some bytes \<and> bytes \<le> LARGEST_LEASE"
  using assms
  by (auto simp: batch_allocation_def checked_mul_usize_def checked_add_usize_def usize_max_def
      LARGEST_LEASE_def KEY_BYTE_LIMIT_def)

section \<open>The limit of a round\<close>

lemma next_limit_room:
  assumes "agrees m s" "search_ok cfg s"
  shows "next_candidate_limit CANDIDATE_LIMIT cfg m = min 64 (room cfg s)"
proof -
  have "length (rm_frontier m) = length (frontier s)" "rm_nodes_visited m = nodes_visited s"
    using assms(1) by (auto simp: agrees_def simp flip: length_queue)
  moreover have "length (frontier s) \<le> 4294967295"
    using assms(2) unat_u32_less [of "max_frontier cfg"] by (auto simp: search_ok_def)
  moreover have "max 1 (min (min 64 (max 1 a)) (max 1 b)) = min 64 (min (max 1 a) (max 1 b))" for a b :: nat
    by (simp add: min.assoc max_absorb2)
  ultimately show ?thesis
    by (simp only: next_candidate_limit_def CANDIDATE_LIMIT_def room_def Let_def min_absorb1)
qed

end
