(* ===== verification/ResumableProofs.thy ===== *)
theory ResumableProofs
  imports ResumableSteps
begin

text \<open>
  The resumable machine refines the eager traversals: whenever the eager search succeeds under
  the caller's visibility, the driver, answered by a resolver with that visibility, ends with
  the same visited set, metadata and truncation flag. The locale \<open>node_pages\<close> carries the
  simulation for any paged neighbor source and is interpreted on the store with its overlay, in
  both directions. With an arbitrary resolver, nothing is visited that it does not show.
\<close>

section \<open>What a suspended machine still has to do\<close>

text \<open>The rest of the eager search: the unread neighbors of the active node, then the queue.\<close>

definition remaining_run ::
  "traversal_strategy \<Rightarrow> ('f, 'g) traversal_env \<Rightarrow> 'f bfs_config \<Rightarrow> (u32 \<Rightarrow> neighbor list graph_result) \<Rightarrow>
    u32 option \<Rightarrow> neighbor list \<Rightarrow> 'g traversal_state \<Rightarrow> (bool \<times> 'g traversal_state) graph_result" where
  "remaining_run st env cfg src active todo s =
     (case active of None \<Rightarrow> run st env cfg src s
      | Some cur \<Rightarrow>
          rbind (expand st env cfg cur (depth_at s cur) todo s) (\<lambda>(stop, s).
            if stop then Inr (True, s) else run st env cfg src s))"

definition unread :: "('n \<Rightarrow> neighbor list) \<Rightarrow> 'n set \<Rightarrow> nat" where
  "unread stream_of ns = (\<Sum>v \<in> ns. length (stream_of v))"

text \<open>
  The machine \<open>m\<close> is at the point of the eager state \<open>s\<close>, with \<open>rest\<close> behind the cursor of
  the active node.
\<close>

definition tracks ::
  "'f bfs_config \<Rightarrow> bool \<Rightarrow> (u32 \<Rightarrow> owned_neighbor_cursor \<Rightarrow> neighbor list \<Rightarrow> bool) \<Rightarrow> (u32 \<Rightarrow> neighbor list) \<Rightarrow>
    bfs_projection_epoch \<Rightarrow> bfs_machine \<Rightarrow> 'g traversal_state \<Rightarrow> neighbor list \<Rightarrow> bool" where
  "tracks cfg df unread_at stream_of epoch m s rest \<longleftrightarrow>
     rm_depth_first m = df \<and> agrees m s \<and> search_ok cfg s \<and> rm_state m = NeedCandidates \<and> \<not> rm_truncated m \<and>
     rm_epoch m = Some epoch \<and> length (rm_pending m) \<le> min 64 (room cfg s) \<and>
     (rm_pending m \<noteq> [] \<and> rm_pending_exhausts m \<longrightarrow> rest = []) \<and>
     (case rm_active m of None \<Rightarrow> rm_pending m = [] \<and> rest = []
      | Some cur \<Rightarrow> cur \<in> visited s \<and> depth_at s cur < max_depth cfg \<and> unread_at cur (rm_cursor m) rest \<and>
          set (rm_pending m @ rest) \<subseteq> set (stream_of cur)) \<and>
     unat (rm_next_sequence m) + length (rm_pending m @ rest) + unread stream_of (- visited s \<union> set (frontier s))
       < 2 ^ 32"

lemma unread_mono: "A \<subseteq> B \<Longrightarrow> finite B \<Longrightarrow> unread f A \<le> unread f B"
  unfolding unread_def by (rule sum_mono2) auto

lemma unread_remove: "finite A \<Longrightarrow> v \<notin> A \<Longrightarrow> unread f (insert v A) = length (f v) + unread f A"
  by (simp add: unread_def)

lemma pop_frontier_None: "pop_frontier m = None \<longleftrightarrow> queue m = []"
  by (simp add: pop_frontier_def queue_def Let_def)

lemma pop_frontier_Some:
  assumes "queue m = cur # waiting"
  shows "\<exists>f. pop_frontier m = Some (cur, m\<lparr>rm_frontier := f, rm_active := Some cur, rm_cursor := Start,
      rm_pending := [], rm_pending_exhausts := False\<rparr>) \<and> (if rm_depth_first m then rev f else f) = waiting"
proof (cases "rm_depth_first m")
  case True
  with assms have "rm_frontier m = rev waiting @ [cur]" by (simp add: queue_def rev_swap)
  with True show ?thesis by (intro exI [of _ "rev waiting"]) (simp add: pop_frontier_def)
next
  case False
  with assms show ?thesis by (simp add: pop_frontier_def queue_def)
qed

lemma next_active_None:
  "rm_active m = None \<Longrightarrow> queue m = [] \<Longrightarrow> next_active cfg m = (None, m\<lparr>rm_state := MachineComplete\<rparr>)"
  using pop_frontier_None [of m] by (simp add: next_active.simps [of cfg m] take_active_def)

lemma next_active_keep:
  "rm_active m = Some cur \<Longrightarrow> opt_get_or (- 1) (depth_get (rm_depth m) cur) < max_depth cfg \<Longrightarrow>
    next_active cfg m = (Some (cur, opt_get_or (- 1) (depth_get (rm_depth m) cur)), m)"
  by (simp add: next_active.simps [of cfg m] take_active_def)

text \<open>The machine after a batch: what it read is consumed, and a node read to its end is left.\<close>

definition after_batch :: "bool \<Rightarrow> neighbor list \<Rightarrow> u32 \<Rightarrow> bfs_machine \<Rightarrow> bfs_machine" where
  "after_batch exhausted p seq m =
     (let m = m\<lparr>rm_pending := p, rm_next_sequence := seq\<rparr> in if exhausted \<and> p = [] then reset_active m else m)"

definition finished :: "bfs_projection_epoch \<Rightarrow> bool \<Rightarrow> 'g traversal_state \<Rightarrow> bfs_machine \<Rightarrow> bool" where
  "finished epoch stopped t m \<longleftrightarrow>
     rm_state m = MachineComplete \<and> rm_truncated m = stopped \<and> rm_epoch m = Some epoch \<and> agrees m t"

text \<open>Offering a collected batch and admitting its verdicts.\<close>

lemma offer_and_admit:
  assumes tr: "tracks cfg df unread_at stream_of epoch m s rest" and ne: "cs \<noteq> []"
    and fits: "length cs \<le> bl_max_candidates lim" "\<exists>p'. fold_r (batch_step lim) cs (0, None) = Inr (bytes, p')"
    and lim: "0 < bl_max_candidates lim" "bl_max_key_bytes lim = KEY_BYTE_LIMIT"
    and cs: "list_all2 (candidate_for cur d) (filter (\<lambda>n. \<not> type_rejected cfg n) xs) cs"
    and vk: "visits (strategy_of df) (me_env me) cfg cur d (filter (\<lambda>n. \<not> type_rejected cfg n) xs)
      (s\<lparr>governor := g1\<rparr>) = Inr (go, u)"
  shows "\<exists>b m' m''. offer_candidates lim (rm_pending_exhausts m) p cs seq m = Inr (MatBatch b, m') \<and>
    admit_resumable_batch me cfg epoch b (map (scope_verdict (scope (me_env me))) (cb_candidates b)) m' = Inr m'' \<and>
    agrees m'' u \<and> same_reading (after_batch (rm_pending_exhausts m) p seq m) m'' \<and>
    rm_state m'' = (if go then NeedCandidates else MachineComplete) \<and> rm_truncated m'' = (\<not> go) \<and>
    rm_epoch m'' = Some epoch"
proof -
  have so: "search_ok cfg s" and ag: "agrees m s" using tr by (simp_all add: tracks_def)
  let ?b = "\<lparr>cb_candidates = cs, cb_exhausted_current = rm_pending_exhausts m \<and> p = []\<rparr>"
  let ?m = "(after_batch (rm_pending_exhausts m) p seq m)
    \<lparr>rm_pending_batch := Some (batch_stamp ?b), rm_state := NeedVisibility\<rparr>"
  let ?m3 = "?m\<lparr>rm_state := ReadyToAdmit, rm_pending_batch := None\<rparr>"
  have "bfs_batch_try_new cs (rm_pending_exhausts m \<and> p = []) lim = Inr ?b"
    using fits lim by (auto simp: bfs_batch_try_new_def KEY_BYTE_LIMIT_def)
  then have off: "offer_candidates lim (rm_pending_exhausts m) p cs seq m = Inr (MatBatch ?b, ?m)"
    using ne by (simp add: offer_candidates_def after_batch_def Let_def)
  have m3: "agrees ?m3 (s\<lparr>governor := g1\<rparr>)" "rm_depth_first ?m3 = df" "rm_truncated ?m3 = False"
    "rm_epoch ?m = Some epoch" "same_reading (after_batch (rm_pending_exhausts m) p seq m) ?m3"
    using tr ag by (auto simp: after_batch_def Let_def agrees_def reset_active_def queue_def tracks_def same_reading_def)
  have "list_ex (\<lambda>(c, v). bc_sequence c \<noteq> vd_sequence v) (zip cs (map (scope_verdict (scope (me_env me))) cs)) = False"
    by (induction cs) (simp_all add: scope_verdict_def)
  then have adm: "admit_resumable_batch me cfg epoch ?b (map (scope_verdict (scope (me_env me))) (cb_candidates ?b)) ?m =
      admit_all (me_env me) cfg (zip cs (map (scope_verdict (scope (me_env me))) cs)) ?m3"
    using m3(4) by (simp add: admit_resumable_batch_def require_projection_epoch_def apply_visibility_verdicts_def)
  have "\<forall>n \<in> set (filter (\<lambda>n. \<not> type_rejected cfg n) xs). \<not> type_rejected cfg n" by simp
  from admit_agrees [OF vk _ m3(1) _ cs this] so m3(2,3) obtain m'' where
    m'': "admit_all (me_env me) cfg (zip cs (map (scope_verdict (scope (me_env me))) cs)) ?m3 = Inr m''" "agrees m'' u"
      "same_reading ?m3 m''" "rm_state m'' = (if go then NeedCandidates else MachineComplete)"
      "rm_truncated m'' = (\<not> go)" by auto
  have sr: "same_reading (after_batch (rm_pending_exhausts m) p seq m) m''"
    using m3(5) m''(3) by (simp add: same_reading_def)
  moreover have "rm_epoch m'' = Some epoch" using m''(3) m3(4) by (simp add: same_reading_def)
  ultimately show ?thesis using off adm m'' by auto
qed

text \<open>The pages of the nodes of a graph: one stream per node.\<close>

locale node_pages = paged_stream fill ok full left work
  for fill :: "u32 \<Rightarrow> owned_neighbor_cursor \<Rightarrow> usize \<Rightarrow> neighbor list \<Rightarrow> neighbor filled_page graph_result"
    and ok :: "u32 \<Rightarrow> bool" and full :: "u32 \<Rightarrow> neighbor list"
    and left :: "u32 \<Rightarrow> owned_neighbor_cursor \<Rightarrow> neighbor list \<Rightarrow> bool"
    and work :: "u32 \<Rightarrow> owned_neighbor_cursor \<Rightarrow> nat"
begin

definition to_do :: "bfs_machine \<Rightarrow> 'g traversal_state \<Rightarrow> nat" where
  "to_do m s = 2 * (unvisited s + length (frontier s)) + (if rm_active m = None then 0 else 1)"

text \<open>
  Taking the next node to expand is what the eager loop does up to its next expansion.
\<close>

lemma next_active_tracks:
  assumes "tracks cfg df left full epoch m s rest" "\<forall>v. ok v"
    and "rm_active m = None" "remaining_run st env cfg (\<lambda>v. Inr (full v)) None [] s = Inr (stopped, t)"
  shows "case next_active cfg m of
      (None, m') \<Rightarrow> rm_state m' = MachineComplete \<and> \<not> rm_truncated m' \<and> rm_epoch m' = Some epoch \<and>
        \<not> stopped \<and> agrees m' t
    | (Some (cur, d), m') \<Rightarrow> \<exists>s' rest'. tracks cfg df left full epoch m' s' rest' \<and> rm_active m' = Some cur \<and>
        d = depth_at s' cur \<and> governor s' = governor s \<and> to_do m' s' < to_do m s \<and> rm_pending m' = [] \<and>
        room cfg s \<le> room cfg s' \<and>
        remaining_run st env cfg (\<lambda>v. Inr (full v)) (Some cur) rest' s' = Inr (stopped, t)"
  using assms(1,3,4)
proof (induction "length (frontier s)" arbitrary: m s rest)
  case 0
  then have "frontier s = []" "queue m = []" by (auto simp: tracks_def agrees_def)
  with 0 show ?case
    by (auto simp: next_active_None remaining_run_def run.simps [of st env cfg _ s] agrees_def tracks_def queue_def
        split: if_splits)
next
  case (Suc k)
  then obtain cur waiting where f: "frontier s = cur # waiting" by (metis length_Suc_conv)
  then have q: "queue m = cur # waiting" using Suc.prems(1) by (simp add: tracks_def agrees_def)
  let ?s = "s\<lparr>frontier := waiting\<rparr>" and ?d = "depth_at s cur"
  from pop_frontier_Some [OF q] obtain fr where
    p: "pop_frontier m = Some (cur, m\<lparr>rm_frontier := fr, rm_active := Some cur, rm_cursor := Start,
      rm_pending := [], rm_pending_exhausts := False\<rparr>)" "(if rm_depth_first m then rev fr else fr) = waiting"
    by blast
  let ?m = "m\<lparr>rm_frontier := fr, rm_active := Some cur, rm_cursor := Start, rm_pending := [],
    rm_pending_exhausts := False\<rparr>"
  have d: "opt_get_or (- 1) (depth_get (rm_depth ?m) cur) = ?d"
    using Suc.prems(1) by (simp add: tracks_def agrees_def)
  have ag: "agrees ?m ?s" using Suc.prems(1) p(2) by (auto simp: tracks_def agrees_def queue_def)
  have so: "search_ok cfg ?s" "cur \<in> visited s" "cur \<notin> set waiting"
    using Suc.prems(1) f by (auto simp: tracks_def search_ok_def)
  have un: "unread full (- visited s \<union> set (frontier s)) = length (full cur) + unread full (- visited s \<union> set waiting)"
    using unread_remove [of "- visited s \<union> set waiting" cur full] so by (simp add: f)
  have room: "room cfg s \<le> room cfg ?s" by (auto simp: room_def f)
  show ?case
  proof (cases "?d \<ge> max_depth cfg")
    case True
    have run: "remaining_run st env cfg (\<lambda>v. Inr (full v)) None [] ?s = Inr (stopped, t)"
      using Suc.prems(3) f True by (simp add: remaining_run_def run.simps [of st env cfg _ s] Let_def)
    have eq: "next_active cfg m = next_active cfg (reset_active ?m)"
      using p(1) Suc.prems(2) True d by (simp add: next_active.simps [of cfg m] take_active_def Let_def)
    have "tracks cfg df left full epoch (reset_active ?m) ?s []"
      using Suc.prems(1,2) ag so un by (simp add: tracks_def) (simp add: reset_active_def)
    moreover have "rm_active (reset_active ?m) = None" "k = length (frontier ?s)"
      using Suc.hyps(2) f by (simp_all add: reset_active_def)
    moreover have less: "to_do (reset_active ?m) ?s < to_do m s"
      using f Suc.prems(2) by (simp add: to_do_def unvisited_def reset_active_def)
    moreover obtain r m' where n: "next_active cfg (reset_active ?m) = (r, m')" by fastforce
    ultimately have IH: "case (r, m') of
      (None, m') \<Rightarrow> rm_state m' = MachineComplete \<and> \<not> rm_truncated m' \<and> rm_epoch m' = Some epoch \<and>
        \<not> stopped \<and> agrees m' t
    | (Some (cur, d), m') \<Rightarrow> \<exists>s' rest'. tracks cfg df left full epoch m' s' rest' \<and> rm_active m' = Some cur \<and>
        d = depth_at s' cur \<and> governor s' = governor ?s \<and> to_do m' s' < to_do (reset_active ?m) ?s \<and>
        rm_pending m' = [] \<and> room cfg ?s \<le> room cfg s' \<and>
        remaining_run st env cfg (\<lambda>v. Inr (full v)) (Some cur) rest' s' = Inr (stopped, t)"
      using Suc.hyps(1) [of ?s "reset_active ?m" "[]", OF _ _ _ run] by simp
    show ?thesis
    proof (cases r)
      case None
      with IH eq n show ?thesis by simp
    next
      case (Some cd)
      obtain c e where cd: "cd = (c, e)" by fastforce
      with Some IH obtain s' rest' where "tracks cfg df left full epoch m' s' rest'" "rm_active m' = Some c"
        "e = depth_at s' c" "governor s' = governor ?s" "to_do m' s' < to_do (reset_active ?m) ?s" "rm_pending m' = []"
        "room cfg ?s \<le> room cfg s'" "remaining_run st env cfg (\<lambda>v. Inr (full v)) (Some c) rest' s' = Inr (stopped, t)"
        by auto
      with eq n Some cd less room show ?thesis by (auto intro!: exI [of _ s'])
    qed
  next
    case False
    then have "next_active cfg m = (Some (cur, ?d), ?m)"
      using p(1) Suc.prems(2) d by (simp add: next_active.simps [of cfg m] take_active_def Let_def)
    moreover have "tracks cfg df left full epoch ?m ?s (full cur)"
      using Suc.prems(1,2) ag so un False start [of cur] assms(2)
      by (simp add: tracks_def)
    moreover have "remaining_run st env cfg (\<lambda>v. Inr (full v)) (Some cur) (full cur) ?s = Inr (stopped, t)"
      using Suc.prems(3) f False by (simp add: remaining_run_def run.simps [of st env cfg _ s] Let_def)
    moreover have "to_do ?m ?s < to_do m s"
      using f Suc.prems(2) by (simp add: to_do_def unvisited_def)
    ultimately show ?thesis using room by (auto intro!: exI [of _ ?s])
  qed
qed

text \<open>How much of the active node's stream is left to read.\<close>

definition reading :: "bfs_machine \<Rightarrow> nat" where
  "reading m =
     (if rm_pending m \<noteq> [] \<and> rm_pending_exhausts m then 0
      else case rm_active m of None \<Rightarrow> 0 | Some cur \<Rightarrow> Suc (work cur (rm_cursor m)))"

text \<open>Reading a page moves neighbors from behind the cursor to the pending ones.\<close>

lemma load_page_tracks:
  assumes "tracks cfg df left full epoch m s rest" "\<forall>v. ok v" "rm_active m = Some cur"
    and "me_fill me df = fill" "0 < limit" "limit \<le> min 64 (room cfg s)"
  shows "\<exists>fin m1 rest1. load_page me limit cur m = Inr (fin, m1) \<and> tracks cfg df left full epoch m1 s rest1 \<and>
    rm_active m1 = Some cur \<and> rm_pending m1 @ rest1 = rm_pending m @ rest \<and> rm_pending_exhausts m1 = fin \<and>
    (fin \<longrightarrow> rest1 = []) \<and> (rm_pending m \<noteq> [] \<longrightarrow> m1 = m) \<and>
    (rm_pending m = [] \<longrightarrow> length (rm_pending m1) \<le> limit) \<and>
    (rm_pending m = [] \<and> \<not> fin \<longrightarrow> work cur (rm_cursor m1) < work cur (rm_cursor m))"
proof (cases "rm_pending m = []")
  case False
  with assms show ?thesis by (auto simp: load_page_def tracks_def)
next
  case True
  have l: "left cur (rm_cursor m) rest" using assms(1,3) by (simp add: tracks_def)
  from page [OF spec [OF assms(2)] l, of limit] assms(5) obtain fin c items rest1 where
    p: "fill cur (rm_cursor m) limit [] = Inr (fin, c, items)" "rest = items @ rest1" "left cur c rest1"
      "length items \<le> limit" "fin \<longrightarrow> rest1 = []" "fin \<or> work cur c < work cur (rm_cursor m)"
    by auto
  let ?m = "m\<lparr>rm_cursor := c, rm_pending := items, rm_pending_exhausts := fin\<rparr>"
  have "load_page me limit cur m = Inr (fin, ?m)"
    using True assms(1,4) p(1) by (simp add: load_page_def tracks_def)
  moreover have "tracks cfg df left full epoch ?m s rest1"
    using assms True p by (auto simp: tracks_def agrees_def queue_def)
  ultimately show ?thesis using True p assms(3) by auto
qed

definition progress :: "u32 \<Rightarrow> bfs_machine \<Rightarrow> 'g traversal_state \<Rightarrow> bfs_machine \<Rightarrow> 'g traversal_state \<Rightarrow> bool" where
  "progress cur m s m' s' \<longleftrightarrow>
     to_do m' s' < to_do m s \<or>
     to_do m' s' \<le> to_do m s \<and> rm_active m' = Some cur \<and> rm_cursor m' = rm_cursor m \<and>
     rm_pending_exhausts m' = rm_pending_exhausts m \<and>
     (if rm_pending m' = [] then \<not> rm_pending_exhausts m else length (rm_pending m') < length (rm_pending m))"

text \<open>After a batch that stopped nothing, the machine tracks the eager search further on.\<close>

lemma resume_tracks:
  assumes t: "tracks cfg df left full epoch m s rest" "rm_active m = Some cur" "rm_pending m = xs @ p"
    and ex: "rm_pending_exhausts m \<longrightarrow> rest = []" "p \<noteq> [] \<longrightarrow> xs \<noteq> []"
    and adv: "advances cfg (s\<lparr>governor := g\<rparr>) u" "search_ok cfg u" "room cfg s \<le> room cfg u + length xs"
      "unvisited u + length (frontier u) \<le> unvisited s + length (frontier s)"
    and m': "agrees m' u" "same_reading (after_batch (rm_pending_exhausts m) p seq m) m'"
      "rm_state m' = NeedCandidates" "\<not> rm_truncated m'"
    and seq: "unat seq \<le> unat (rm_next_sequence m) + length xs"
    and run: "remaining_run st env cfg (\<lambda>v. Inr (full v)) (Some cur) (p @ rest) u = Inr (stopped, t)"
  shows "tracks cfg df left full epoch m' u rest \<and>
    remaining_run st env cfg (\<lambda>v. Inr (full v)) (rm_active m') (rm_pending m' @ rest) u = Inr (stopped, t) \<and>
    progress cur m s m' u"
proof -
  have same: "visited s \<subseteq> visited u" "\<forall>i \<in> visited s. depth_get (depth u) i = depth_get (depth s) i"
    "- visited u \<union> set (frontier u) \<subseteq> - visited s \<union> set (frontier s)"
    using adv(1) by (simp_all add: advances_def)
  have un: "unread full (- visited u \<union> set (frontier u)) \<le> unread full (- visited s \<union> set (frontier s))"
    by (rule unread_mono [OF same(3)]) simp
  have ep: "rm_epoch m' = Some epoch" "rm_depth_first m' = df"
    using t(1) m'(2) by (auto simp: tracks_def same_reading_def after_batch_def reset_active_def Let_def split: if_splits)
  have sq: "rm_next_sequence m' = seq"
    using m'(2) by (auto simp: same_reading_def after_batch_def reset_active_def Let_def split: if_splits)
  show ?thesis
  proof (cases "rm_pending_exhausts m \<and> p = []")
    case True
    then have r: "rm_active m' = None" "rm_pending m' = []" "rest = []"
      using m'(2) ex(1) by (auto simp: same_reading_def after_batch_def reset_active_def Let_def)
    have "tracks cfg df left full epoch m' u rest"
      using t(1,2) True r adv(2) m'(1,3,4) ep seq sq un by (simp add: tracks_def t(3))
    moreover have "remaining_run st env cfg (\<lambda>v. Inr (full v)) (rm_active m') (rm_pending m' @ rest) u = Inr (stopped, t)"
      using run True r by (simp add: remaining_run_def)
    moreover have "progress cur m s m' u"
      using adv(4) r t(2) by (simp add: progress_def to_do_def)
    ultimately show ?thesis by blast
  next
    case False
    then have r: "rm_active m' = Some cur" "rm_pending m' = p" "rm_cursor m' = rm_cursor m"
      "rm_pending_exhausts m' = rm_pending_exhausts m"
      using m'(2) t(2) by (auto simp: same_reading_def after_batch_def reset_active_def Let_def split: if_splits)
    have "cur \<in> visited s" using t(1,2) by (simp add: tracks_def)
    then have "depth_at u cur = depth_at s cur" "cur \<in> visited u" using same(1,2) by auto
    then have "tracks cfg df left full epoch m' u rest"
      using t(1,2) r ex adv(2,3) m'(1,3,4) ep seq sq un by (simp add: tracks_def t(3))
    moreover have "progress cur m s m' u"
      using adv(4) r t(2) False ex(2) by (auto simp: progress_def to_do_def t(3))
    ultimately show ?thesis using run r by simp
  qed
qed

text \<open>The contract of a round, against the eager search that ends in \<open>t\<close>.\<close>

definition follows ::
  "'f machine_env \<Rightarrow> 'f bfs_config \<Rightarrow> bool \<Rightarrow> bfs_projection_epoch \<Rightarrow> bool \<Rightarrow> resource_governor traversal_state \<Rightarrow>
    bfs_machine \<Rightarrow> resource_governor traversal_state \<Rightarrow> neighbor list \<Rightarrow> resource_governor \<Rightarrow> bool" where
  "follows me cfg df epoch stopped t m s rest g \<longleftrightarrow>
     tracks cfg df left full epoch m s rest \<and> same_account (governor s) g \<and>
     remaining_run (strategy_of df) (me_env me) cfg (\<lambda>v. Inr (full v)) (rm_active m) (rm_pending m @ rest) s =
       Inr (stopped, t)"

definition setting :: "'f machine_env \<Rightarrow> 'f bfs_config \<Rightarrow> bool \<Rightarrow> bool" where
  "setting me cfg df \<longleftrightarrow>
     (\<forall>v. ok v) \<and> me_fill me df = fill \<and> type_filter cfg \<noteq> NoneMatched \<and>
     consume_expansion (me_env me) = governed_expansion (me_clock me) \<and>
     (\<forall>v. \<forall>n \<in> set (full v). \<not> type_rejected cfg n \<longrightarrow> offerable me n)"

text \<open>
  A batch against the eager expansion: what is collected is paid for and visited by the eager
  search too, which either goes on behind it or stopped at its last candidate.
\<close>

lemma batch_ahead:
  assumes f: "follows me cfg df epoch stopped t m s rest g" and set: "setting me cfg df"
    and act: "rm_active m = Some cur" and ex: "rm_pending_exhausts m \<longrightarrow> rest = []"
    and lim: "length (rm_pending m) \<le> bl_max_candidates lim" "bl_max_key_bytes lim = KEY_BYTE_LIMIT"
  obtains xs p cs bytes seq g' g1 go u where
    "collect_candidates me cfg lim cur (depth_at s cur) (rm_pending m) ([], 0, rm_next_sequence m, g) =
      Inr (p, cs, bytes, seq, g')"
    "memory_used g' = memory_used g" "limits g' = limits g" "length cs \<le> bl_max_candidates lim" "p \<noteq> [] \<longrightarrow> cs \<noteq> []"
    "list_all2 (candidate_for cur (depth_at s cur)) (filter (\<lambda>n. \<not> type_rejected cfg n) xs) cs"
    "\<exists>p'. fold_r (batch_step lim) cs (0, None) = Inr (bytes, p')"
    "visits (strategy_of df) (me_env me) cfg cur (depth_at s cur) (filter (\<lambda>n. \<not> type_rejected cfg n) xs)
      (s\<lparr>governor := g1\<rparr>) = Inr (go, u)"
    "\<not> go \<longrightarrow> stopped \<and> t = u"
    "\<forall>m'. go \<and> agrees m' u \<and> same_reading (after_batch (rm_pending_exhausts m) p seq m) m' \<and>
      rm_state m' = NeedCandidates \<and> \<not> rm_truncated m' \<longrightarrow>
      follows me cfg df epoch stopped t m' u rest g' \<and> progress cur m s m' u"
proof -
  let ?st = "strategy_of df" and ?env = "me_env me" and ?d = "depth_at s cur" and ?src = "\<lambda>v. Inr (full v)"
  let ?keep = "filter (\<lambda>n. \<not> type_rejected cfg n)"
  have tr: "tracks cfg df left full epoch m s rest" and acc: "same_account (governor s) g"
    and run: "remaining_run ?st ?env cfg ?src (Some cur) (rm_pending m @ rest) s = Inr (stopped, t)"
    using f act by (simp_all add: follows_def)
  have so: "search_ok cfg s" and ag: "agrees m s" and len: "length (rm_pending m) \<le> min 64 (room cfg s)"
    and sub: "set (rm_pending m) \<subseteq> set (full cur)" and df: "rm_depth_first m = df" and st: "rm_state m = NeedCandidates"
    using tr act by (auto simp: tracks_def)
  from run obtain stop w where e: "expand ?st ?env cfg cur ?d (rm_pending m @ rest) s = Inr (stop, w)"
    and r: "(if stop then Inr (True, w) else run ?st ?env cfg ?src w) = Inr (stopped, t)"
    by (auto simp: remaining_run_def result_simps)
  have cons: "consume_expansion ?env = governed_expansion (me_clock me)" using set by (simp add: setting_def)
  from expand_split [OF cons so _ e] len obtain g0 where "consume_many (length (rm_pending m)) (governor s) = Inr g0"
    by auto
  from consume_many_account [OF this acc] obtain h0 where h0: "consume_many (length (rm_pending m)) g = Inr h0"
    by blast
  have "\<forall>n \<in> set (rm_pending m). \<not> type_rejected cfg n \<longrightarrow> offerable me n"
    using set sub by (auto simp: setting_def)
  from collect_ok [OF this lim(2) h0, of 0 "rm_next_sequence m" "[]" cur ?d] tr obtain p cs bytes seq g' where
    c: "collect_candidates me cfg lim cur ?d (rm_pending m) ([], 0, rm_next_sequence m, g) = Inr (p, cs, bytes, seq, g')"
    and cd: "collected cfg lim cur ?d (rm_pending m) ([], 0, rm_next_sequence m, g) (p, cs, bytes, seq, g')"
    by (fastforce simp: tracks_def)
  from cd obtain xs where x: "rm_pending m = xs @ p" "list_all2 (candidate_for cur ?d) (?keep xs) cs"
    "consume_many (length xs) g = Inr g'" "unat seq = unat (rm_next_sequence m) + length cs" "p \<noteq> [] \<longrightarrow> cs \<noteq> []"
    "\<exists>p'. fold_r (batch_step lim) cs (0, None) = Inr (bytes, p')"
    unfolding collected_def by auto
  have lcs: "length cs \<le> length xs" using list_all2_lengthD [OF x(2)] length_filter_le [of _ xs] by metis
  from expand_split [OF cons so, of xs ?st cur ?d "p @ rest" stop w] e x(1) len obtain g1 go u where
    g1: "consume_many (length xs) (governor s) = Inr g1"
    and v: "visits ?st ?env cfg cur ?d xs (s\<lparr>governor := g1\<rparr>) = Inr (go, u)"
    and tail: "if go then expand ?st ?env cfg cur ?d (p @ rest) u = Inr (stop, w) else stop \<and> w = u"
    by auto
  from consume_many_account [OF g1 acc] x(3) have acc': "same_account g1 g'" "memory_used g' = memory_used g"
    "limits g' = limits g" by auto
  note step = visits_step [OF v] and less = visits_measure [OF v]
  have adv: "advances cfg (s\<lparr>governor := g1\<rparr>) u" using step so by simp
  have gu: "governor u = g1" using adv by (simp add: advances_def)
  have vk: "visits ?st ?env cfg cur ?d (?keep xs) (s\<lparr>governor := g1\<rparr>) = Inr (go, u)"
    using visits_filter [OF v] set by (simp add: setting_def)
  have resume: "follows me cfg df epoch stopped t m' u rest g' \<and> progress cur m s m' u"
    if m': "agrees m' u" "same_reading (after_batch (rm_pending_exhausts m) p seq m) m'"
      "rm_state m' = NeedCandidates" "\<not> rm_truncated m'" and go: go for m'
  proof -
    have "cur \<in> visited s" using tr act by (simp add: tracks_def)
    then have "depth_at u cur = ?d" using adv by (simp add: advances_def)
    then have run': "remaining_run ?st ?env cfg ?src (Some cur) (p @ rest) u = Inr (stopped, t)"
      using tail r go by (simp add: remaining_run_def)
    have "p \<noteq> [] \<longrightarrow> xs \<noteq> []" using x(5) lcs by auto
    from resume_tracks [OF tr act x(1) ex this adv _ _ _ m' _ run'] step so less x(4) lcs go
    show ?thesis using acc'(1) gu by (simp add: follows_def unvisited_def)
  qed
  show thesis
  proof (rule that [OF c acc'(2,3) _ x(5,2,6) vk])
    show "length cs \<le> bl_max_candidates lim" using lcs x(1) len lim(1) by simp
    show "\<not> go \<longrightarrow> stopped \<and> t = u" using tail r by auto
  qed (use resume in blast)
qed

lemma collect_and_admit:
  assumes f: "follows me cfg df epoch stopped t m s rest g" and set: "setting me cfg df"
    and act: "rm_active m = Some cur" and ex: "rm_pending_exhausts m \<longrightarrow> rest = []"
    and lim: "length (rm_pending m) \<le> bl_max_candidates lim" "bl_max_key_bytes lim = KEY_BYTE_LIMIT"
    and pos: "0 < bl_max_candidates lim"
  shows "\<exists>p cs bytes seq g' mat m'.
    collect_candidates me cfg lim cur (depth_at s cur) (rm_pending m) ([], 0, rm_next_sequence m, g) =
      Inr (p, cs, bytes, seq, g') \<and> memory_used g' = memory_used g \<and> limits g' = limits g \<and>
    offer_candidates lim (rm_pending_exhausts m) p cs seq m = Inr (mat, m') \<and>
    (case mat of MatComplete \<Rightarrow> False
     | MatProgress \<Rightarrow> \<exists>s'. follows me cfg df epoch stopped t m' s' rest g' \<and> progress cur m s m' s'
     | MatBatch b \<Rightarrow> \<exists>m''. admit_resumable_batch me cfg epoch b
           (map (scope_verdict (scope (me_env me))) (cb_candidates b)) m' = Inr m'' \<and>
         (finished epoch stopped t m'' \<or>
          (\<exists>s'. follows me cfg df epoch stopped t m'' s' rest g' \<and> progress cur m s m'' s')))"
proof -
  let ?env = "me_env me" and ?keep = "filter (\<lambda>n. \<not> type_rejected cfg n)"
  have tr: "tracks cfg df left full epoch m s rest" using f by (simp add: follows_def)
  then have so: "search_ok cfg s" and ag: "agrees m s" and st: "rm_state m = NeedCandidates"
    by (simp_all add: tracks_def)
  obtain xs p cs bytes seq g' g1 go u where
    c: "collect_candidates me cfg lim cur (depth_at s cur) (rm_pending m) ([], 0, rm_next_sequence m, g) =
      Inr (p, cs, bytes, seq, g')"
    and acc': "memory_used g' = memory_used g" "limits g' = limits g"
    and x: "length cs \<le> bl_max_candidates lim" "p \<noteq> [] \<longrightarrow> cs \<noteq> []"
      "list_all2 (candidate_for cur (depth_at s cur)) (?keep xs) cs"
      "\<exists>p'. fold_r (batch_step lim) cs (0, None) = Inr (bytes, p')"
    and vk: "visits (strategy_of df) ?env cfg cur (depth_at s cur) (?keep xs) (s\<lparr>governor := g1\<rparr>) = Inr (go, u)"
    and stop: "\<not> go \<longrightarrow> stopped \<and> t = u"
    and resume: "\<forall>m'. go \<and> agrees m' u \<and> same_reading (after_batch (rm_pending_exhausts m) p seq m) m' \<and>
      rm_state m' = NeedCandidates \<and> \<not> rm_truncated m' \<longrightarrow>
      follows me cfg df epoch stopped t m' u rest g' \<and> progress cur m s m' u"
    by (rule batch_ahead [OF f set act ex lim])
  show ?thesis
  proof (cases "cs = []")
    case True
    then have "?keep xs = []" "p = []" using x(2,3) by auto
    with vk have u: "go" "u = s\<lparr>governor := g1\<rparr>" by auto
    let ?m = "after_batch (rm_pending_exhausts m) p seq m"
    have "offer_candidates lim (rm_pending_exhausts m) p cs seq m = Inr (MatProgress, ?m)"
      using True st by (simp add: offer_candidates_def after_batch_def is_complete_def reset_active_def Let_def)
    moreover have "agrees ?m u"
      using ag by (auto simp: u after_batch_def Let_def agrees_def reset_active_def queue_def)
    moreover have "rm_state ?m = NeedCandidates" "\<not> rm_truncated ?m" "same_reading ?m ?m"
      using tr by (simp_all add: after_batch_def Let_def reset_active_def tracks_def same_reading_def)
    ultimately show ?thesis using c acc' resume u(1) by auto
  next
    case False
    from offer_and_admit [OF tr False x(1,4) pos lim(2) x(3) vk, of p seq] obtain b m' m'' where
      off: "offer_candidates lim (rm_pending_exhausts m) p cs seq m = Inr (MatBatch b, m')"
      and adm: "admit_resumable_batch me cfg epoch b (map (scope_verdict (scope ?env)) (cb_candidates b)) m' = Inr m''"
      and m'': "agrees m'' u" "same_reading (after_batch (rm_pending_exhausts m) p seq m) m''"
        "rm_state m'' = (if go then NeedCandidates else MachineComplete)" "rm_truncated m'' = (\<not> go)"
        "rm_epoch m'' = Some epoch"
      by blast
    have "finished epoch stopped t m'' \<or>
      (\<exists>s'. follows me cfg df epoch stopped t m'' s' rest g' \<and> progress cur m s m'' s')"
    proof (cases go)
      case True
      with resume m'' show ?thesis by auto
    next
      case False
      with stop have "stopped" "t = u" by auto
      with False m'' show ?thesis by (simp add: finished_def)
    qed
    with c acc' off adm show ?thesis by auto
  qed
qed

lemma follows_account:
  "follows me cfg df epoch stopped t m s rest g \<Longrightarrow> work_used h = work_used g \<Longrightarrow> limits h = limits g \<Longrightarrow>
    follows me cfg df epoch stopped t m s rest h"
  by (simp add: follows_def same_account_def)

definition smaller :: "bfs_machine \<Rightarrow> 'g traversal_state \<Rightarrow> bfs_machine \<Rightarrow> 'g traversal_state \<Rightarrow> bool" where
  "smaller m' s' m s \<longleftrightarrow>
     ((to_do m' s', reading m', length (rm_pending m')), (to_do m s, reading m, length (rm_pending m)))
       \<in> less_than <*lex*> less_than <*lex*> less_than"

text \<open>Where a round leaves the machine: done, or closer to the end of the eager search.\<close>

definition moves ::
  "'f machine_env \<Rightarrow> 'f bfs_config \<Rightarrow> bool \<Rightarrow> bfs_projection_epoch \<Rightarrow> bool \<Rightarrow> resource_governor traversal_state \<Rightarrow>
    bfs_machine \<Rightarrow> resource_governor traversal_state \<Rightarrow> bfs_machine \<Rightarrow> resource_governor \<Rightarrow> bool" where
  "moves me cfg df epoch stopped t m s m' g' \<longleftrightarrow>
     (\<exists>s' rest'. follows me cfg df epoch stopped t m' s' rest' g' \<and> smaller m' s' m s)"

definition materialized ::
  "'f machine_env \<Rightarrow> 'f bfs_config \<Rightarrow> bool \<Rightarrow> bfs_projection_epoch \<Rightarrow> bool \<Rightarrow> resource_governor traversal_state \<Rightarrow>
    bfs_machine \<Rightarrow> resource_governor traversal_state \<Rightarrow> bfs_materialization \<Rightarrow> bfs_machine \<Rightarrow> resource_governor \<Rightarrow> bool" where
  "materialized me cfg df epoch stopped t m s mat m' g' \<longleftrightarrow>
     (case mat of
        MatComplete \<Rightarrow> finished epoch stopped t m'
      | MatProgress \<Rightarrow> moves me cfg df epoch stopped t m s m' g'
      | MatBatch b \<Rightarrow> \<exists>m''. admit_resumable_batch me cfg epoch b
            (map (scope_verdict (scope (me_env me))) (cb_candidates b)) m' = Inr m'' \<and>
          (finished epoch stopped t m'' \<or> moves me cfg df epoch stopped t m s m'' g'))"

lemma materialize_active:
  assumes f: "follows me cfg df epoch stopped t m s rest g" and set: "setting me cfg df"
    and act: "rm_active m = Some cur"
    and lim: "length (rm_pending m) \<le> bl_max_candidates lim" "0 < bl_max_candidates lim"
      "bl_max_candidates lim \<le> min 64 (room cfg s)" "bl_max_key_bytes lim = KEY_BYTE_LIMIT"
  shows "\<exists>mat m' g'. materialize_candidates me cfg lim m g = Inr (mat, m', g') \<and>
    memory_used g' = memory_used g \<and> limits g' = limits g \<and> materialized me cfg df epoch stopped t m s mat m' g'"
proof -
  have tr: "tracks cfg df left full epoch m s rest" using f by (simp add: follows_def)
  have na: "next_active cfg m = (Some (cur, depth_at s cur), m)"
    using next_active_keep [OF act, where cfg = cfg] tr act by (simp add: tracks_def agrees_def)
  have "\<forall>v. ok v" "me_fill me df = fill" using set by (simp_all add: setting_def)
  from load_page_tracks [OF tr this(1) act this(2) lim(2,3)] obtain fin m1 rest1 where
    l: "load_page me (bl_max_candidates lim) cur m = Inr (fin, m1)" "tracks cfg df left full epoch m1 s rest1"
      "rm_active m1 = Some cur" "rm_pending m1 @ rest1 = rm_pending m @ rest" "rm_pending_exhausts m1 = fin"
      "fin \<longrightarrow> rest1 = []" "rm_pending m \<noteq> [] \<longrightarrow> m1 = m"
      "rm_pending m = [] \<longrightarrow> length (rm_pending m1) \<le> bl_max_candidates lim"
      "rm_pending m = [] \<and> \<not> fin \<longrightarrow> work cur (rm_cursor m1) < work cur (rm_cursor m)"
    by blast
  have f1: "follows me cfg df epoch stopped t m1 s rest1 g"
    using f l(2-4) act by (simp add: follows_def)
  have len: "length (rm_pending m1) \<le> bl_max_candidates lim" using l(7,8) lim(1) by (cases "rm_pending m = []") auto
  have small: "smaller m' s' m s" if p: "progress cur m1 s m' s'" for m' and s' :: "resource_governor traversal_state"
  proof -
    have td: "to_do m1 s = to_do m s" using act l(3) by (simp add: to_do_def)
    show ?thesis
    proof (cases "rm_pending m = []")
      case True
      then have "reading m = Suc (work cur (rm_cursor m))" using act by (simp add: reading_def)
      with p td True l(3,5,9) show ?thesis
        by (cases fin) (auto simp: progress_def smaller_def reading_def split: if_splits)
    next
      case False
      with p td l(3,5,7) act show ?thesis
        by (auto simp: progress_def smaller_def reading_def split: if_splits)
    qed
  qed
  have "rm_pending_exhausts m1 \<longrightarrow> rest1 = []" using l(5,6) by simp
  from collect_and_admit [OF f1 set l(3) this len lim(4,2)] obtain p cs bytes seq g' mat m' where
    c: "collect_candidates me cfg lim cur (depth_at s cur) (rm_pending m1) ([], 0, rm_next_sequence m1, g) =
      Inr (p, cs, bytes, seq, g')" "memory_used g' = memory_used g" "limits g' = limits g"
      "offer_candidates lim fin p cs seq m1 = Inr (mat, m')"
    and r: "case mat of MatComplete \<Rightarrow> False
     | MatProgress \<Rightarrow> \<exists>s'. follows me cfg df epoch stopped t m' s' rest1 g' \<and> progress cur m1 s m' s'
     | MatBatch b \<Rightarrow> \<exists>m''. admit_resumable_batch me cfg epoch b
           (map (scope_verdict (scope (me_env me))) (cb_candidates b)) m' = Inr m'' \<and>
         (finished epoch stopped t m'' \<or>
          (\<exists>s'. follows me cfg df epoch stopped t m'' s' rest1 g' \<and> progress cur m1 s m'' s'))"
    unfolding l(5) by blast
  have "materialize_candidates me cfg lim m g = Inr (mat, m', g')"
    using na l(1) c(1,4) by (simp add: materialize_candidates_def)
  moreover have "materialized me cfg df epoch stopped t m s mat m' g'"
    using r small by (cases mat) (auto simp: materialized_def moves_def)
  ultimately show ?thesis using c(2,3) by blast
qed

lemma smaller_first: "to_do m1 s1 < to_do m s \<Longrightarrow> smaller m' s' m1 s1 \<Longrightarrow> smaller m' s' m s"
  by (auto simp: smaller_def)

lemma materialized_first:
  "to_do m1 s1 < to_do m s \<Longrightarrow> materialized me cfg df epoch stopped t m1 s1 mat m' g' \<Longrightarrow>
    materialized me cfg df epoch stopped t m s mat m' g'"
  by (cases mat) (auto simp: materialized_def moves_def intro: smaller_first)

lemma materialize_follows:
  assumes f: "follows me cfg df epoch stopped t m s rest g" and set: "setting me cfg df"
    and lim: "bl_max_candidates lim = min 64 (room cfg s)" "bl_max_key_bytes lim = KEY_BYTE_LIMIT"
  shows "\<exists>mat m' g'. materialize_candidates me cfg lim m g = Inr (mat, m', g') \<and>
    memory_used g' = memory_used g \<and> limits g' = limits g \<and> materialized me cfg df epoch stopped t m s mat m' g'"
proof (cases "rm_active m")
  case (Some cur)
  have "length (rm_pending m) \<le> bl_max_candidates lim" using f lim(1) by (simp add: follows_def tracks_def)
  with materialize_active [OF f set Some] lim show ?thesis by simp
next
  case None
  have tr: "tracks cfg df left full epoch m s rest" using f by (simp add: follows_def)
  then have e: "rm_pending m = []" "rest = []" using None by (simp_all add: tracks_def)
  have ok: "\<forall>v. ok v" using set by (simp add: setting_def)
  have "remaining_run (strategy_of df) (me_env me) cfg (\<lambda>v. Inr (full v)) None [] s = Inr (stopped, t)"
    using f None e by (simp add: follows_def)
  note ahead = next_active_tracks [OF tr ok None this]
  obtain r m1 where n: "next_active cfg m = (r, m1)" by fastforce
  show ?thesis
  proof (cases r)
    case None
    with n ahead have "finished epoch stopped t m1" by (simp add: finished_def)
    with n None show ?thesis by (simp add: materialize_candidates_def materialized_def)
  next
    case (Some cd)
    then obtain cur d where r: "r = Some (cur, d)" by (cases cd) simp
    with n ahead obtain s1 rest1 where a: "tracks cfg df left full epoch m1 s1 rest1" "rm_active m1 = Some cur"
      "d = depth_at s1 cur" "governor s1 = governor s" "to_do m1 s1 < to_do m s" "rm_pending m1 = []"
      "room cfg s \<le> room cfg s1"
      "remaining_run (strategy_of df) (me_env me) cfg (\<lambda>v. Inr (full v)) (Some cur) rest1 s1 = Inr (stopped, t)"
      by auto
    then have f1: "follows me cfg df epoch stopped t m1 s1 rest1 g"
      using f by (simp add: follows_def)
    have "min 64 (room cfg s) \<le> min 64 (room cfg s1)" using a(7) by simp
    with materialize_active [OF f1 set a(2), of lim] a(6) lim obtain mat m' g' where
      m: "materialize_candidates me cfg lim m1 g = Inr (mat, m', g')" "memory_used g' = memory_used g"
        "limits g' = limits g" "materialized me cfg df epoch stopped t m1 s1 mat m' g'" by auto
    have "next_active cfg m1 = (Some (cur, d), m1)"
      using next_active_keep [OF a(2), where cfg = cfg] a(1-3) by (simp add: tracks_def agrees_def)
    then have "materialize_candidates me cfg lim m g = materialize_candidates me cfg lim m1 g"
      using n r by (simp add: materialize_candidates_def)
    with m materialized_first [OF a(5) m(4)] show ?thesis by auto
  qed
qed

text \<open>One round of the driver.\<close>

lemma round_follows:
  assumes f: "follows me cfg df epoch stopped t m s rest g" and set: "setting me cfg df"
    and open_: "governor_open (me_clock me) g"
  shows "\<exists>m'. drive_round me (scope_resolver (scope (me_env me)) epoch) cfg m epoch g = Inr (Inl (m', epoch)) \<and>
      finished epoch stopped t m' \<or>
    (\<exists>g'. drive_round me (scope_resolver (scope (me_env me)) epoch) cfg m epoch g = Inr (Inr (m', epoch, g')) \<and>
      (finished epoch stopped t m' \<or>
       moves me cfg df epoch stopped t m s m' g' \<and> governor_open (me_clock me) g'))"
proof -
  let ?lim = "driver_limits cfg m"
  have tr: "tracks cfg df left full epoch m s rest" using f by (simp add: follows_def)
  have lim: "bl_max_candidates ?lim = min 64 (room cfg s)" "bl_max_key_bytes ?lim = KEY_BYTE_LIMIT"
    using next_limit_room [of m s cfg] tr by (simp_all add: driver_limits_def tracks_def)
  then obtain bytes where b: "batch_allocation ?lim = Some bytes" "bytes \<le> LARGEST_LEASE"
    using batch_allocation_open [of ?lim] by auto
  from batch_lease_open [OF open_ b(2)] obtain h where
    h: "batch_lease bytes g = Inr (h, word_of_nat bytes)" "same_account g h"
      "\<forall>h'. memory_used h' = memory_used h \<longrightarrow> memory_used (release_memory (word_of_nat bytes) h') = memory_used g"
    by blast
  have "follows me cfg df epoch stopped t m s rest h"
    using follows_account [OF f] h(2) by (simp add: same_account_def)
  from materialize_follows [OF this set lim] obtain mat m' g1 where
    m: "materialize_candidates me cfg ?lim m h = Inr (mat, m', g1)" "memory_used g1 = memory_used h"
      "limits g1 = limits h" "materialized me cfg df epoch stopped t m s mat m' g1" by blast
  let ?g = "release_memory (word_of_nat bytes) g1"
  have lg: "limits ?g = limits g" using m(3) h(2) by (simp add: release_memory_def same_account_def)
  then have open': "governor_open (me_clock me) ?g"
    using governor_open_moves [OF open_, of ?g] h(3) m(2) by simp
  have call: "materialize_resumable_batch me cfg epoch ?lim m g = Inr (mat, m', ?g)"
    using tr lim b(1) h(1) m(1)
    by (simp add: materialize_resumable_batch_def require_projection_epoch_def materialize_bfs_candidate_batch_def
        tracks_def RESUMABLE_BFS_PAGE_CAPACITY_def KEY_BYTE_LIMIT_def)
  have mv: "moves me cfg df epoch stopped t m s m'' g1 \<Longrightarrow> moves me cfg df epoch stopped t m s m'' ?g" for m''
    unfolding moves_def using follows_account [where g = g1 and h = ?g]
    by (elim exE conjE, intro exI conjI) (simp_all add: release_memory_def)
  show ?thesis
  proof (cases mat)
    case (MatBatch b)
    then obtain m'' where "admit_resumable_batch me cfg epoch b
          (map (scope_verdict (scope (me_env me))) (cb_candidates b)) m' = Inr m''"
      "finished epoch stopped t m'' \<or> moves me cfg df epoch stopped t m s m'' g1"
      using m(4) by (auto simp: materialized_def)
    with MatBatch call time_open [OF open'] open' mv show ?thesis
      by (intro exI [of _ m'']) (auto simp: drive_round_def scope_resolver_def)
  next
    case MatProgress
    with m(4) call time_open [OF open'] open' mv show ?thesis
      by (intro exI [of _ m']) (simp add: drive_round_def materialized_def)
  next
    case MatComplete
    with m(4) call time_open [OF open'] show ?thesis
      by (intro exI [of _ m']) (simp add: drive_round_def materialized_def)
  qed
qed

lemma wf_rounds: "wf {((m', s'), m, s :: 'g traversal_state). smaller m' s' m s}"
proof -
  have "{((m', s'), m, s :: 'g traversal_state). smaller m' s' m s} =
      inv_image (less_than <*lex*> less_than <*lex*> less_than) (\<lambda>(m, s). (to_do m s, reading m, length (rm_pending m)))"
    by (auto simp: inv_image_def smaller_def split: prod.splits)
  moreover have "wf \<dots>" by (intro wf_inv_image wf_lex_prod wf_less_than)
  ultimately show ?thesis by simp
qed

text \<open>The loop ends, and where the eager search ends.\<close>

lemma drive_follows:
  assumes set: "setting me cfg df"
  shows "follows me cfg df epoch stopped t m s rest g \<Longrightarrow> governor_open (me_clock me) g \<Longrightarrow>
    \<exists>m'. drive me (scope_resolver (scope (me_env me)) epoch) cfg m epoch g = Some (Inr (m', epoch)) \<and>
      finished epoch stopped t m'"
proof (induction "(m, s)" arbitrary: m s rest g rule: wf_induct_rule [OF wf_rounds])
  case 1
  let ?drive = "drive me (scope_resolver (scope (me_env me)) epoch) cfg"
  have run: "\<not> is_complete m" using 1(2) by (simp add: follows_def tracks_def is_complete_def)
  have stay: "?drive m' epoch g' = Some (Inr (m', epoch))" if "finished epoch stopped t m'" for m' g'
    using that by (simp add: drive.simps finished_def is_complete_def)
  from round_follows [OF 1(2) set 1(3)] obtain m' where
    "drive_round me (scope_resolver (scope (me_env me)) epoch) cfg m epoch g = Inr (Inl (m', epoch)) \<and>
      finished epoch stopped t m' \<or>
    (\<exists>g'. drive_round me (scope_resolver (scope (me_env me)) epoch) cfg m epoch g = Inr (Inr (m', epoch, g')) \<and>
      (finished epoch stopped t m' \<or>
       moves me cfg df epoch stopped t m s m' g' \<and> governor_open (me_clock me) g'))"
    by blast
  then show ?case
  proof (elim disjE conjE exE)
    assume "drive_round me (scope_resolver (scope (me_env me)) epoch) cfg m epoch g = Inr (Inl (m', epoch))"
      "finished epoch stopped t m'"
    with run show ?thesis by (simp add: drive.simps [of me _ cfg m])
  next
    fix g'
    assume "drive_round me (scope_resolver (scope (me_env me)) epoch) cfg m epoch g = Inr (Inr (m', epoch, g'))"
      "finished epoch stopped t m'"
    with run stay show ?thesis by (simp add: drive.simps [of me _ cfg m])
  next
    fix g'
    assume r: "drive_round me (scope_resolver (scope (me_env me)) epoch) cfg m epoch g = Inr (Inr (m', epoch, g'))"
      and "moves me cfg df epoch stopped t m s m' g'" and o: "governor_open (me_clock me) g'"
    then obtain s' rest' where "follows me cfg df epoch stopped t m' s' rest' g'" "smaller m' s' m s"
      by (auto simp: moves_def)
    with 1(1) [of m' s' rest' g'] o r run show ?thesis by (auto simp: drive.simps [of me _ cfg m])
  qed
qed

text \<open>From the seed: the machine starts where the eager search starts.\<close>

lemma seeded_start:
  assumes "unat (seed_node cfg) < unat (ns_node_count (nodes env))" "0 < max_depth cfg" "type_filter cfg \<noteq> NoneMatched"
    and "seed_state (seed_node cfg) (fresh_metadata env cfg g) = Inr s"
    and "unread full UNIV < 2 ^ 32"
  shows "\<exists>m. machine_try_new (unat (ns_node_count (nodes env))) cfg df = Inr m \<and>
    tracks cfg df left full epoch (bind_projection_epoch epoch m) s [] \<and> rm_active m = None \<and> rm_pending m = [] \<and>
    governor s = g"
proof -
  let ?n = "unat (ns_node_count (nodes env))" and ?seed = "seed_node cfg"
  let ?sparse = "use_sparse_metadata ?n (max_nodes cfg)"
  from assms(4) obtain d p ty where set: "depth_set (depth_new ?n ?sparse) ?seed 0 = Inr d"
    "parent_set (parent_new ?n ?sparse) ?seed ?seed = Inr p"
    "edge_types_set (edge_types_new ?n ?sparse) ?seed UNTYPED = Inr ty"
    and s: "visited s = {?seed}" "depth s = d" "parent s = p" "parent_edge_type s = ty" "frontier s = [?seed]"
      "nodes_visited s = 1" "governor s = g"
    by (auto simp: seed_state_def fresh_metadata_def Let_def result_simps)
  have "insert ?seed (- {?seed}) = UNIV" by auto
  then have un: "unread full (- visited s \<union> set (frontier s)) < 2 ^ 32" using assms(5) s by simp
  let ?m = "\<lparr>rm_frontier = [?seed], rm_visited = {?seed}, rm_depth = d, rm_parent = p, rm_parent_edge_type = ty,
    rm_outputs = [?seed], rm_cursor = Start, rm_pending = [], rm_pending_exhausts = False,
    rm_state = NeedCandidates, rm_nodes_visited = 1, rm_active = None, rm_next_sequence = 0,
    rm_pending_batch = None, rm_truncated = False, rm_epoch = None, rm_depth_first = df\<rparr>"
  have "machine_try_new ?n cfg df = Inr ?m"
    using assms(1-3) set by (simp add: machine_try_new_def Let_def)
  moreover have "agrees (bind_projection_epoch epoch ?m) s"
    using s by (simp add: agrees_def bind_projection_epoch_def queue_def)
  then have "tracks cfg df left full epoch (bind_projection_epoch epoch ?m) s []"
    using s un by (simp add: tracks_def bind_projection_epoch_def search_ok_def)
  ultimately show ?thesis using s by simp
qed

lemma run_unfit: "frontier s = [cur] \<Longrightarrow> max_depth cfg \<le> depth_at s cur \<Longrightarrow>
    run st env cfg src s = Inr (False, s\<lparr>frontier := []\<rparr>)"
  by (simp add: run.simps [of st env cfg src s] run.simps [of st env cfg src "s\<lparr>frontier := []\<rparr>"] Let_def)

lemma depth_set_get: "depth_set m i v = Inr m' \<Longrightarrow> 0 \<le> v \<Longrightarrow> depth_get m' i = Some v"
  by (cases m) (auto simp: result_simps update_r_def get_opt_def split: if_splits)

text \<open>Without an expansion the machine is complete when it is made.\<close>

lemma unexpanded_start:
  assumes "execute_traversal st env src cfg g = Inr r" "allows_node (scope env) (seed_node cfg)"
    and "unat (seed_node cfg) \<ge> unat (ns_node_count (nodes env)) \<or> max_depth cfg \<le> 0 \<or> type_filter cfg = NoneMatched"
  shows "\<exists>m. machine_try_new (unat (ns_node_count (nodes env))) cfg df = Inr m \<and> is_complete m \<and>
    machine_finish m = r"
proof (cases "unat (seed_node cfg) \<ge> unat (ns_node_count (nodes env))")
  case True
  with assms(1) show ?thesis
    by (auto simp: execute_traversal_def Let_def fresh_metadata_def result_of_def machine_try_new_def is_complete_def
        machine_finish_def)
next
  case False
  let ?n = "unat (ns_node_count (nodes env))"
  from False assms(1,2) obtain s where s: "seed_state (seed_node cfg) (fresh_metadata env cfg g) = Inr s"
    and r: "if type_filter cfg = NoneMatched then r = result_of False s
      else \<exists>stopped t. run st env cfg src s = Inr (stopped, t) \<and> r = result_of stopped t"
    by (auto simp: execute_traversal_def Let_def result_simps split: if_splits)
  have "r = result_of False s"
  proof (cases "type_filter cfg = NoneMatched")
    case False
    then have "max_depth cfg \<le> 0" using assms(3) \<open>\<not> _ \<le> _\<close> by simp
    moreover have "frontier s = [seed_node cfg]" "depth_at s (seed_node cfg) = 0"
      using s depth_set_get by (auto simp: seed_state_def result_simps) 
    ultimately show ?thesis using r False run_unfit [of s "seed_node cfg" cfg st env src] by (auto simp: result_of_def)
  qed (use r in simp)
  with False assms(3) s show ?thesis
    by (auto simp: machine_try_new_def Let_def is_complete_def machine_finish_def result_of_def seed_state_def
        fresh_metadata_def result_simps)
qed

text \<open>The whole machine search, for the pages of the locale.\<close>

lemma machine_refines:
  assumes eager: "execute_traversal (strategy_of df) (me_env me) (\<lambda>v. Inr (full v)) cfg g = Inr r"
    and visible: "allows_node (scope (me_env me)) (seed_node cfg)"
    and set: "type_filter cfg \<noteq> NoneMatched \<Longrightarrow> setting me cfg df" and open_: "governor_open (me_clock me) g"
    and few: "unread full UNIV < 2 ^ 32"
  shows "\<exists>m m'. machine_try_new (unat (ns_node_count (nodes (me_env me)))) cfg df = Inr m \<and>
    drive me (scope_resolver (scope (me_env me)) epoch) cfg (bind_projection_epoch epoch m) epoch g =
      Some (Inr (m', epoch)) \<and> finish_resumable epoch m' = Inr r"
proof (cases "unat (seed_node cfg) \<ge> unat (ns_node_count (nodes (me_env me))) \<or> max_depth cfg \<le> 0 \<or>
    type_filter cfg = NoneMatched")
  case True
  from unexpanded_start [OF eager visible True] obtain m where
    "machine_try_new (unat (ns_node_count (nodes (me_env me)))) cfg df = Inr m" "is_complete m" "machine_finish m = r"
    by blast
  then show ?thesis
    by (auto simp: drive.simps is_complete_def bind_projection_epoch_def finish_resumable_def
        require_projection_epoch_def machine_finish_def)
next
  case False
  then have seed: "unat (seed_node cfg) < unat (ns_node_count (nodes (me_env me)))" "0 < max_depth cfg"
    and typed: "type_filter cfg \<noteq> NoneMatched" by auto
  from eager seed visible typed obtain s stopped t where
    s: "seed_state (seed_node cfg) (fresh_metadata (me_env me) cfg g) = Inr s"
      "run (strategy_of df) (me_env me) cfg (\<lambda>v. Inr (full v)) s = Inr (stopped, t)" "r = result_of stopped t"
    by (auto simp: execute_traversal_def Let_def result_simps)
  from seeded_start [OF seed typed s(1) few] obtain m where
    m: "machine_try_new (unat (ns_node_count (nodes (me_env me)))) cfg df = Inr m"
      "tracks cfg df left full epoch (bind_projection_epoch epoch m) s []" "rm_active m = None" "rm_pending m = []"
      "governor s = g" by blast
  then have "follows me cfg df epoch stopped t (bind_projection_epoch epoch m) s [] g"
    using s(2) by (simp add: follows_def remaining_run_def same_account_def bind_projection_epoch_def)
  from drive_follows [OF set [OF typed] this open_] obtain m' where
    "drive me (scope_resolver (scope (me_env me)) epoch) cfg (bind_projection_epoch epoch m) epoch g =
      Some (Inr (m', epoch))" "finished epoch stopped t m'" by blast
  with m(1) s(3) show ?thesis
    by (auto simp: finish_resumable_def require_projection_epoch_def finished_def machine_finish_def result_of_def
        agrees_def)
qed

end

section \<open>The stores of the engine\<close>

definition overlay_machine_fill ::
  "edge_store \<Rightarrow> overlay_inserts \<Rightarrow> overlay_deletes \<Rightarrow> bool \<Rightarrow> u32 \<Rightarrow> owned_neighbor_cursor \<Rightarrow> usize \<Rightarrow>
    neighbor list \<Rightarrow> neighbor filled_page graph_result" where
  "overlay_machine_fill st ins del depth_first =
     (if depth_first then overlay_fill_reversed st ins del else overlay_fill st ins del)"

interpretation overlay_nodes: node_pages "overlay_fill st ins del" "\<lambda>i. overlay_source_ok (st, ins, del, i)"
  "\<lambda>i. overlay_stream (st, ins, del, i)" "\<lambda>i. overlay_left (st, ins, del, i)" "\<lambda>i. overlay_work (st, ins, del, i)"
  for st ins del
proof (unfold_locales, goal_cases)
  case (1 i)
  then show ?case by (rule overlay_pages.start)
next
  case (2 i c rest limit)
  from overlay_pages.page [OF this] show ?case by simp
qed

interpretation overlay_nodes_reversed: node_pages "overlay_fill_reversed st ins del"
  "\<lambda>i. overlay_source_ok (st, ins, del, i)" "\<lambda>i. rev (overlay_stream (st, ins, del, i))"
  "\<lambda>i. overlay_left_reversed (st, ins, del, i)" "\<lambda>i. overlay_work_reversed (st, ins, del, i)"
  for st ins del
proof (unfold_locales, goal_cases)
  case (1 i)
  then show ?case by (rule overlay_pages_reversed.start)
next
  case (2 i c rest limit)
  from overlay_pages_reversed.page [OF this] show ?case by simp
qed

lemma unread_rev: "unread (\<lambda>i. rev (f i)) = unread f"
  by (simp add: unread_def fun_eq_iff)

lemma seed_batch_ok:
  assumes "root_id \<noteq> []" "length root_id \<le> usize_max"
  shows "seed_batch cfg root_table root_id =
    Inr \<lparr>cb_candidates = [seed_candidate cfg root_table root_id], cb_exhausted_current = True\<rparr>"
  using assms
  by (simp add: seed_batch_def bfs_batch_try_new_def batch_step_def seed_candidate_def checked_add_usize_def)

lemma machine_try_new_ok: "\<exists>m. machine_try_new (unat (c :: u32)) cfg df = Inr m"
proof (cases "unat (seed_node cfg) < unat c")
  case True
  let ?sparse = "use_sparse_metadata (unat c) (max_nodes cfg)"
  have "seed_node cfg \<noteq> U32_MAX"
  proof
    assume "seed_node cfg = U32_MAX"
    with True have "4294967295 < unat c" by (simp add: U32_MAX_def)
    then show False using unat_u32_less [of c] by simp
  qed
  then obtain p where "parent_set (parent_new (unat c) ?sparse) (seed_node cfg) (seed_node cfg) = Inr p"
    using parents.set_get [OF parents.new_ok True] by blast
  moreover obtain d where "depth_set (depth_new (unat c) ?sparse) (seed_node cfg) 0 = Inr d"
    using depths.set_get [OF depths.new_ok True, of 0 ?sparse] by auto
  moreover obtain t where "edge_types_set (edge_types_new (unat c) ?sparse) (seed_node cfg) UNTYPED = Inr t"
    using edge_types.set_get [OF edge_types.new_ok True, of UNTYPED ?sparse] by (auto simp: UNTYPED_def SENTINEL_def)
  ultimately show ?thesis using True by (simp add: machine_try_new_def Let_def)
next
  case False
  then show ?thesis by (simp add: machine_try_new_def Let_def)
qed

text \<open>A scope of a traversal, as opposed to the scope of one proven node.\<close>

definition caller_scope :: "visibility_scope \<Rightarrow> bool" where
  "caller_scope sc \<longleftrightarrow> (case sc of DirectNode _ \<Rightarrow> False | _ \<Rightarrow> True)"

lemma seed_verdict:
  "caller_scope sc \<Longrightarrow>
    verdict_visible (scope_verdict sc (seed_candidate cfg root_table root_id)) = allows_node sc (seed_node cfg)"
  by (cases sc) (auto simp: caller_scope_def verdict_visible_def scope_verdict_def seed_candidate_def ok_or_def)

text \<open>
  C32: The lazily authorised traversal computes what the eager one computes. Over a well-formed
  store with its overlay, breadth or depth first, whenever the eager search succeeds under the
  caller's visibility scope and work budget, the resumable machine, driven in bounded batches
  whose visibility is resolved between reads with the same scope, returns: it ends, with no
  error, and its visited set, depths, parents, edge types and truncation flag are the eager
  ones; a root the scope hides gives no result. It needs that the key of each neighbor fits a
  batch, that the graph has fewer than \<open>2 ^ 32\<close> adjacencies, that the memory of one batch can be
  leased and that time does not run out.
\<close>

theorem resumable_refines_eager:
  assumes store: "store_ok st" "\<forall>i. sorted (map nb_key (base_neighbors st i))"
    and fill: "me_fill me = overlay_machine_fill st ins del"
    and work: "consume_expansion (me_env me) = governed_expansion (me_clock me)" "governor_open (me_clock me) g"
    and keys: "\<forall>i. \<forall>n \<in> set (overlay_spec (base_neighbors st i) (ins i) (del i)). offerable me n"
    and few: "(\<Sum>i \<in> UNIV. length (overlay_spec (base_neighbors st i) (ins i) (del i))) < 2 ^ 32"
    and root: "root_id \<noteq> []" "length root_id \<le> usize_max" and scope: "caller_scope (scope (me_env me))"
    and eager: "(if df then execute_dfs else execute_inner) (me_env me) st ins del cfg g = Inr r"
  shows "resumable_traversal me (scope_resolver (scope (me_env me)) epoch) df cfg epoch root_table root_id g =
    Some (Inr (if allows_node (scope (me_env me)) (seed_node cfg) then Some r else None))"
proof -
  have src: "overlay_source st ins del = (\<lambda>i. Inr (overlay_stream (st, ins, del, i)))"
    "overlay_source_reversed st ins del = (\<lambda>i. Inr (rev (overlay_stream (st, ins, del, i))))"
    by (rule ext, simp add: store_source [OF store(1)])+
  have un: "unread (\<lambda>i. overlay_stream (st, ins, del, i)) UNIV < 2 ^ 32" using few by (simp add: unread_def)
  have "\<exists>m m'. machine_try_new (unat (ns_node_count (nodes (me_env me)))) cfg df = Inr m \<and>
      drive me (scope_resolver (scope (me_env me)) epoch) cfg (bind_projection_epoch epoch m) epoch g =
        Some (Inr (m', epoch)) \<and> finish_resumable epoch m' = Inr r"
    if visible: "allows_node (scope (me_env me)) (seed_node cfg)"
  proof (cases df)
    case False
    with eager have e: "execute_traversal (strategy_of False) (me_env me) (\<lambda>i. Inr (overlay_stream (st, ins, del, i))) cfg g = Inr r"
      by (simp add: execute_inner_def src strategy_of_def)
    have "overlay_nodes.setting st ins del me cfg False" if "type_filter cfg \<noteq> NoneMatched"
      unfolding overlay_nodes.setting_def using that store fill work(1) keys
      by (simp add: overlay_machine_fill_def)
    from overlay_nodes.machine_refines [OF e visible this work(2) un] False show ?thesis by simp
  next
    case True
    with eager have e: "execute_traversal (strategy_of True) (me_env me) (\<lambda>i. Inr (rev (overlay_stream (st, ins, del, i)))) cfg g = Inr r"
      by (simp add: execute_dfs_def src strategy_of_def)
    have "overlay_nodes_reversed.setting st ins del me cfg True" if "type_filter cfg \<noteq> NoneMatched"
      unfolding overlay_nodes_reversed.setting_def using that store fill work(1) keys
      by (simp add: overlay_machine_fill_def)
    moreover have "unread (\<lambda>i. rev (overlay_stream (st, ins, del, i))) UNIV < 2 ^ 32"
      using un unread_rev [of "\<lambda>i. overlay_stream (st, ins, del, i)"] by simp
    ultimately show ?thesis
      using overlay_nodes_reversed.machine_refines [OF e visible _ work(2)] True by simp
  qed
  moreover have "\<exists>m. machine_try_new (unat (ns_node_count (nodes (me_env me)))) cfg df = Inr m"
    by (rule machine_try_new_ok)
  ultimately show ?thesis
    by (auto simp: resumable_traversal_def seed_batch_ok [OF root] scope_resolver_def seed_verdict [OF scope])
qed

definition sample_machine_env :: "visibility_scope \<Rightarrow> unit machine_env" where
  "sample_machine_env sc =
     \<lparr>me_env = \<lparr>nodes = sample_store, scope = sc, check_filters = (\<lambda>_ _. True),
        mapped_tenant_contains = (\<lambda>_ _. False), tx_node_deleted = (\<lambda>_. False),
        consume_expansion = governed_expansion (\<lambda>_. 0)\<rparr>,
      me_fill = overlay_machine_fill (Mmap sample_region) (\<lambda>_. None) (\<lambda>_. None),
      me_relationships = default_identities, me_tx_identity = (\<lambda>_. None), me_clock = (\<lambda>_. 0)\<rparr>"

definition roomy_governor :: resource_governor where
  "roomy_governor = new_named ''query'' (memory_only 2000000)"

lemma sample_base:
  "base_neighbors (Mmap sample_region) i =
    (if i = 0 then [\<lparr>nb_target = 1, nb_type_id = 7, nb_schema_reversed = False, nb_relationship_id = Some 42\<rparr>] else [])"
proof (cases "i = 0")
  case True
  then show ?thesis
    by (simp only: base_neighbors_def sample_region_rows) (simp add: adjacency_neighbor_def NO_RELATIONSHIP_ID_def)
next
  case False
  then have "unat i \<noteq> 0" by (simp add: unat_eq_0)
  then show ?thesis
    using False by (auto simp: base_neighbors_def node_rows_def sample_region_view node_count_of_def row_def row_start_def
        less_2_cases_iff)
qed

lemma sample_spec: "overlay_spec base None None = base"
  by (simp add: overlay_spec_def is_deleted_def fresh_inserts_def)

lemma sample_offerable:
  "offerable (sample_machine_env sc) \<lparr>nb_target = 1, nb_type_id = 7, nb_schema_reversed = False, nb_relationship_id = Some 42\<rparr>"
  by (simp add: offerable_def sample_machine_env_def sample_store_def table_oid_def primary_key_def get_opt_def
      neighbor_identity_def resolve_relationship_identity_def identity_get_def identity_len_def default_identities_def
      KEY_BYTE_LIMIT_def)

lemma sample_eager:
  assumes "allows_node sc 0" "allows_relationship sc 7 (Some 42) = Inr True"
  shows "\<exists>r. execute_inner (me_env (sample_machine_env sc)) (Mmap sample_region) (\<lambda>_. None) (\<lambda>_. None)
    (sample_cfg 100 3) roomy_governor = Inr r"
proof -
  have src: "overlay_source (Mmap sample_region) (\<lambda>_. None) (\<lambda>_. None) = (\<lambda>i. Inr (base_neighbors (Mmap sample_region) i))"
    by (rule ext) (simp add: store_source sample_region_valid sample_spec)
  have env: "nodes (me_env (sample_machine_env sc)) = sample_store" "scope (me_env (sample_machine_env sc)) = sc"
    "consume_expansion (me_env (sample_machine_env sc)) = governed_expansion (\<lambda>_. 0)"
    by (simp_all add: sample_machine_env_def)
  have pay: "governed_expansion (\<lambda>_. 0) roomy_governor = Inr (roomy_governor\<lparr>work_used := 1\<rparr>)"
    by (simp add: governed_expansion_def roomy_governor_def new_named_def new_governor_def memory_only_def
        consume_work_def consume_counter_def checked_add_u64_def map_err_def)
  have adm: "candidate_allowed (me_env (sample_machine_env sc)) (sample_cfg 100 3)
      \<lparr>nb_target = 1, nb_type_id = 7, nb_schema_reversed = False, nb_relationship_id = Some 42\<rparr> {0} False =
      Inr (allows_node sc 1)"
    using assms(2)
    by (simp add: candidate_allowed_def sample_machine_env_def sample_store_def is_active_def get_opt_def tenant_denies_def)
  show ?thesis
    using assms(1)
    by (cases "allows_node sc 1") (simp_all add: execute_inner_def src sample_base evaluate env pay adm)
qed

lemma roomy_open: "governor_open (me_clock (sample_machine_env sc)) roomy_governor"
  by (simp add: governor_open_def sample_machine_env_def roomy_governor_def new_named_def new_governor_def
      memory_only_def LARGEST_LEASE_def KEY_BYTE_LIMIT_def)

lemma sample_few: "(\<Sum>i \<in> UNIV. length (overlay_spec (base_neighbors (Mmap sample_region) i) None None)) < 2 ^ 32"
  by (simp add: sample_spec sample_base if_distrib [of length] sum.delta cong: if_cong)

definition epoch0 :: bfs_projection_epoch where
  "epoch0 =
     \<lparr>ep_generation_id = None, ep_applied_sync_id = 0, ep_node_count = 6, ep_edge_count = 1,
      ep_relationship_identity_count = 1, ep_edge_buffer_len = 0, ep_edge_buffer_revision = 0,
      ep_tx_topology_revision = 0, ep_tx_added_nodes = 0, ep_tx_added_edges = 0, ep_tx_deleted_nodes = 0,
      ep_tx_deleted_edges = 0\<rparr>"

theorem resumable_refines_eager_witness:
  "\<exists>r. execute_inner (me_env (sample_machine_env Unrestricted)) (Mmap sample_region) (\<lambda>_. None) (\<lambda>_. None) (sample_cfg 100 3)
      roomy_governor = Inr r \<and>
    resumable_traversal (sample_machine_env Unrestricted) (scope_resolver Unrestricted epoch0) False (sample_cfg 100 3) epoch0 9 [97]
      roomy_governor = Some (Inr (Some r))"
proof -
  obtain r where r: "execute_inner (me_env (sample_machine_env Unrestricted)) (Mmap sample_region) (\<lambda>_. None) (\<lambda>_. None)
      (sample_cfg 100 3) roomy_governor = Inr r"
    using sample_eager [of Unrestricted] by auto
  have sc: "scope (me_env (sample_machine_env Unrestricted)) = Unrestricted" by (simp add: sample_machine_env_def)
  have "resumable_traversal (sample_machine_env Unrestricted) (scope_resolver (scope (me_env (sample_machine_env Unrestricted))) epoch0) False
      (sample_cfg 100 3) epoch0 9 [97] roomy_governor =
    Some (Inr (if allows_node (scope (me_env (sample_machine_env Unrestricted))) (seed_node (sample_cfg 100 3)) then Some r else None))"
  proof (rule resumable_refines_eager [OF _ _ _ _ roomy_open _ sample_few])
    show "store_ok (Mmap sample_region)" by (simp add: sample_region_valid)
    show "\<forall>i. sorted (map nb_key (base_neighbors (Mmap sample_region) i))" by (simp add: sample_base)
    show "\<forall>i. \<forall>n \<in> set (overlay_spec (base_neighbors (Mmap sample_region) i) None None).
        offerable (sample_machine_env Unrestricted) n"
      by (simp add: sample_spec sample_base sample_offerable)
    show "(if False then execute_dfs else execute_inner) (me_env (sample_machine_env Unrestricted)) (Mmap sample_region) (\<lambda>_. None)
        (\<lambda>_. None) (sample_cfg 100 3) roomy_governor = Inr r"
      using r by simp
  qed (simp_all add: sample_machine_env_def caller_scope_def usize_max_def)
  with r sc show ?thesis by auto
qed

section \<open>Nothing is visited unanswered\<close>

lemma next_active_visited: "rm_visited (snd (next_active cfg m)) = rm_visited m"
proof (induction cfg m rule: next_active.induct)
  case (1 cfg m)
  have t: "rm_visited m' = rm_visited m" if "take_active m = Some (cur, m')" for cur m'
    using that by (auto simp: take_active_def pop_frontier_def Let_def split: option.splits if_splits)
  show ?case
  proof (cases "take_active m")
    case (Some p)
    then obtain cur m' where p: "take_active m = Some (cur, m')" by (cases p) simp
    with 1 [OF p refl refl] t [OF p] show ?thesis
      by (simp add: next_active.simps [of cfg m] Let_def reset_active_def)
  qed (simp add: next_active.simps [of cfg m])
qed

lemma materialize_visited:
  assumes "materialize_resumable_batch me cfg epoch lim m g = Inr (mat, m', g')"
  shows "rm_visited m' = rm_visited m"
proof -
  from assms obtain h h' where c: "materialize_candidates me cfg lim m h = Inr (mat, m', h')"
    by (auto simp: materialize_resumable_batch_def materialize_bfs_candidate_batch_def result_simps split: if_splits)
  obtain r m1 where n: "next_active cfg m = (r, m1)" by fastforce
  then have v: "rm_visited m1 = rm_visited m" using next_active_visited [of cfg m] by simp
  show ?thesis
  proof (cases r)
    case None
    with c n v show ?thesis by (simp add: materialize_candidates_def)
  next
    case (Some cd)
    obtain cur d where "cd = (cur, d)" by fastforce
    with c n Some obtain exhausted m2 p cs bytes seq h2 where
      l: "load_page me (bl_max_candidates lim) cur m1 = Inr (exhausted, m2)"
      and o: "offer_candidates lim exhausted p cs seq m2 = Inr (mat, m')"
      by (auto simp: materialize_candidates_def result_simps)
    have "rm_visited m2 = rm_visited m1" using l by (auto simp: load_page_def result_simps split: if_splits)
    moreover have "rm_visited m' = rm_visited m2"
      using o by (auto simp: offer_candidates_def reset_active_def Let_def result_simps split: if_splits)
    ultimately show ?thesis using v by simp
  qed
qed

lemma admit_all_visited:
  "admit_all env cfg cvs m = Inr m' \<Longrightarrow> \<forall>(c, v) \<in> set cvs. bc_target_node c = x \<longrightarrow> \<not> verdict_visible v \<Longrightarrow>
    x \<notin> rm_visited m \<Longrightarrow> x \<notin> rm_visited m'"
proof (induction cvs arbitrary: m)
  case (Cons cv cvs)
  obtain c v where cv: "cv = (c, v)" by fastforce
  from Cons.prems(1) cv obtain ok where ok: "machine_admits env cfg c v m = Inr ok" by (auto simp: result_simps)
  show ?case
  proof (cases ok)
    case False
    with Cons ok cv show ?thesis by auto
  next
    case True
    have "verdict_visible v" using ok True by (auto simp: machine_admits_def split: if_splits)
    then have "bc_target_node c \<noteq> x" using Cons.prems(2) cv by auto
    moreover from Cons.prems(1) cv ok True obtain m1 where m1: "machine_record c m = Inr m1"
      by (auto simp: result_simps)
    moreover have "rm_visited m1 = insert (bc_target_node c) (rm_visited m)"
      using m1 by (auto simp: machine_record_def result_simps)
    ultimately show ?thesis
      using Cons.prems Cons.IH [of m1] Cons.IH [of "m1\<lparr>rm_frontier := rm_frontier m1 @ [bc_target_node c]\<rparr>"] cv ok True
      by (auto simp: Let_def stop_truncated_def split: if_splits)
  qed
qed auto

definition never_shown :: "batch_resolver \<Rightarrow> u32 \<Rightarrow> bool" where
  "never_shown resolve x \<longleftrightarrow>
     (\<forall>batch verdicts epoch. resolve batch = Inr (verdicts, epoch) \<longrightarrow>
        (\<forall>(c, v) \<in> set (zip (cb_candidates batch) verdicts). bc_target_node c = x \<longrightarrow> \<not> verdict_visible v))"

lemma round_visited:
  assumes "drive_round me resolve cfg m epoch g = Inr r" "never_shown resolve x" "x \<notin> rm_visited m"
  shows "case r of Inl (m', _) \<Rightarrow> x \<notin> rm_visited m' | Inr (m', _, _) \<Rightarrow> x \<notin> rm_visited m'"
proof -
  from assms(1) obtain mat m1 g1 where
    m: "materialize_resumable_batch me cfg epoch (driver_limits cfg m) m g = Inr (mat, m1, g1)"
    and r: "(case mat of MatComplete \<Rightarrow> Inr (Inl (m1, epoch)) | MatProgress \<Rightarrow> Inr (Inr (m1, epoch, g1))
     | MatBatch batch \<Rightarrow>
         rbind (resolve batch) (\<lambda>(verdicts, epoch).
         rbind (admit_resumable_batch me cfg epoch batch verdicts m1) (\<lambda>m. Inr (Inr (m, epoch, g1))))) = Inr r"
    by (auto simp: drive_round_def result_simps)
  have v: "x \<notin> rm_visited m1" using materialize_visited [OF m] assms(3) by simp
  show ?thesis
  proof (cases mat)
    case (MatBatch b)
    with r obtain verdicts ep m2 where res: "resolve b = Inr (verdicts, ep)"
      and a: "admit_resumable_batch me cfg ep b verdicts m1 = Inr m2" and e: "r = Inr (m2, ep, g1)"
      by (auto simp: result_simps)
    from a have "admit_all (me_env me) cfg (zip (cb_candidates b) verdicts)
        (m1\<lparr>rm_state := ReadyToAdmit, rm_pending_batch := None\<rparr>) = Inr m2"
      by (auto simp: admit_resumable_batch_def apply_visibility_verdicts_def result_simps split: if_splits)
    moreover have "\<forall>(c, v) \<in> set (zip (cb_candidates b) verdicts). bc_target_node c = x \<longrightarrow> \<not> verdict_visible v"
      using assms(2) res unfolding never_shown_def by blast
    ultimately have "x \<notin> rm_visited m2" by (rule admit_all_visited) (simp add: v)
    with e show ?thesis by simp
  qed (use r v in auto)
qed

lemma drive_visited_all:
  assumes "drive me resolve cfg m epoch g = Some r"
  shows "never_shown resolve x \<longrightarrow> x \<notin> rm_visited m \<longrightarrow> (\<forall>m' ep. r = Inr (m', ep) \<longrightarrow> x \<notin> rm_visited m')"
proof (rule drive.raw_induct [OF _ assms], intro impI allI, goal_cases)
  case (1 drive me resolve cfg m epoch g r m' ep)
  show ?case
  proof (cases "is_complete m")
    case False
    with 1(2-) obtain q where q: "drive_round me resolve cfg m epoch g = Inr q" by (auto split: sum.splits)
    from round_visited [OF q 1(3,4)] 1 False q show ?thesis by (auto split: sum.splits)
  qed (use 1 in auto)
qed

lemma drive_visited:
  "drive me resolve cfg m epoch g = Some (Inr (m', ep)) \<Longrightarrow> never_shown resolve x \<Longrightarrow> x \<notin> rm_visited m \<Longrightarrow>
    x \<notin> rm_visited m'"
  using drive_visited_all by blast

text \<open>
  C33: No node is visited on anything but the resolver's word: for every engine, configuration and
  resolver, whatever its answers and whatever happens to the projection between batches, a node
  for which it never gives a visible verdict is not in the visited set of a search that returns,
  the root included.
\<close>

theorem unshown_nodes_stay_unvisited:
  assumes "never_shown resolve x"
    and "resumable_traversal me resolve df cfg epoch root_table root_id g = Some (Inr (Some r))"
  shows "x \<notin> res_visited r"
proof -
  from assms(2) obtain m batch verdicts ep where
    m: "machine_try_new (unat (ns_node_count (nodes (me_env me)))) cfg df = Inr m"
    and b: "seed_batch cfg root_table root_id = Inr batch" "resolve batch = Inr (verdicts, ep)"
    and v: "case verdicts of [] \<Rightarrow> False | v # _ \<Rightarrow> verdict_visible v"
    and d: "map_option (\<lambda>r. rbind r (\<lambda>(m, epoch). map_sum id Some (finish_resumable epoch m)))
      (drive me resolve cfg (bind_projection_epoch epoch m) ep g) = Some (Inr (Some r))"
    by (auto simp: resumable_traversal_def result_simps split: sum.splits if_splits)
  from d obtain m' ep' where m': "drive me resolve cfg (bind_projection_epoch epoch m) ep g = Some (Inr (m', ep'))"
    "r = machine_finish m'"
    by (fastforce simp: rbind_def finish_resumable_def require_projection_epoch_def split: sum.splits if_splits)
  obtain v0 vs where "verdicts = v0 # vs" "verdict_visible v0" using v by (cases verdicts) auto
  moreover have "cb_candidates batch = [seed_candidate cfg root_table root_id]"
    using b(1) by (auto simp: seed_batch_def bfs_batch_try_new_def result_simps split: if_splits)
  ultimately have "seed_node cfg \<noteq> x"
    using assms(1) b(2) by (fastforce simp: never_shown_def seed_candidate_def)
  then have "x \<notin> rm_visited (bind_projection_epoch epoch m)"
    using m by (auto simp: machine_try_new_def bind_projection_epoch_def Let_def result_simps split: if_splits)
  from drive_visited [OF m'(1) assms(1) this] m'(2) show ?thesis by (simp add: machine_finish_def)
qed

theorem unshown_nodes_stay_unvisited_witness:
  "\<exists>r. resumable_traversal (sample_machine_env (Enforced {1} {} (Selected {})))
      (scope_resolver (Enforced {1} {} (Selected {})) epoch0) False (sample_cfg 100 3) epoch0 9 [97] roomy_governor =
      Some (Inr (Some r)) \<and> 1 \<notin> res_visited r"
proof -
  let ?sc = "Enforced {1} {} (Selected {})"
  have sc: "scope (me_env (sample_machine_env ?sc)) = ?sc" by (simp add: sample_machine_env_def)
  obtain r where "execute_inner (me_env (sample_machine_env ?sc)) (Mmap sample_region) (\<lambda>_. None) (\<lambda>_. None)
      (sample_cfg 100 3) roomy_governor = Inr r"
    using sample_eager [of ?sc] by (auto simp: requires_identity_def)
  moreover have "overlay_source (Mmap sample_region) (\<lambda>_. None) (\<lambda>_. None) =
      (\<lambda>i. Inr (overlay_stream (Mmap sample_region, \<lambda>_. None, \<lambda>_. None, i)))"
    by (rule ext) (simp add: store_source sample_region_valid)
  ultimately have eager: "execute_traversal (strategy_of False) (me_env (sample_machine_env ?sc))
      (\<lambda>i. Inr (overlay_stream (Mmap sample_region, \<lambda>_. None, \<lambda>_. None, i))) (sample_cfg 100 3) roomy_governor = Inr r"
    by (simp add: execute_inner_def strategy_of_def)
  have set: "overlay_nodes.setting (Mmap sample_region) (\<lambda>_. None) (\<lambda>_. None) (sample_machine_env ?sc) (sample_cfg 100 3) False"
    unfolding overlay_nodes.setting_def
    by (simp add: sample_region_valid sample_base sample_spec sample_offerable)
      (simp add: sample_machine_env_def overlay_machine_fill_def)
  have "unread (\<lambda>i. overlay_stream (Mmap sample_region, \<lambda>_. None, \<lambda>_. None, i)) UNIV < 2 ^ 32"
    using sample_few by (simp add: unread_def)
  from overlay_nodes.machine_refines [OF eager _ set roomy_open this, of epoch0] obtain m m' where
    "machine_try_new (unat (ns_node_count (nodes (me_env (sample_machine_env ?sc))))) (sample_cfg 100 3) False = Inr m"
    "drive (sample_machine_env ?sc) (scope_resolver ?sc epoch0) (sample_cfg 100 3) (bind_projection_epoch epoch0 m) epoch0
      roomy_governor = Some (Inr (m', epoch0))" "finish_resumable epoch0 m' = Inr r"
    unfolding sc by auto
  then have res: "resumable_traversal (sample_machine_env ?sc) (scope_resolver ?sc epoch0) False (sample_cfg 100 3) epoch0 9
      [97] roomy_governor = Some (Inr (Some r))"
    by (auto simp: resumable_traversal_def seed_batch_ok usize_max_def scope_resolver_def seed_verdict caller_scope_def)
  have "never_shown (scope_resolver ?sc epoch0) 1"
    by (auto simp: never_shown_def scope_resolver_def in_set_zip verdict_visible_def scope_verdict_def)
  from unshown_nodes_stay_unvisited [OF this res] res show ?thesis by auto
qed

end
