(* ===== verification/Spec2Isabelle.thy ===== *)
theory Spec2Isabelle
  imports Safety EdgeBulk EdgeReverse NeighborWeights NodeStore Visibility TraversalTheorems Components
DijkstraProofs BidirectionalProofs IdentityProofs TenantProofs GqlGrammar FilterIndexProofs RelationshipIdentities EdgeTypeDictionary TxOverlay ResumableProofs
begin

text \<open>
  A verification development for pgGraph (\<open>src/graph\<close>), a PostgreSQL extension that keeps a
  graph projection of relational tables in memory and answers traversals over it.

  \<^bold>\<open>The program.\<close> A build loads source rows into a struct-of-arrays node store and a CSR
  edge store (\<open>node_store.rs\<close>, \<open>edge_store.rs\<close>), derives the reverse store, and persists both;
  a backend maps the artifact back in and validates it. Changes since the build are an overlay
  of inserted and deleted edges (\<open>projection/neighbors.rs\<close>). A traversal reads neighbors through
  the overlay, asks the caller's row-level-security scope for every node and relationship
  (\<open>visibility.rs\<close>), and runs breadth or depth first under circuit breakers (\<open>bfs.rs\<close>). Path
  queries search the same neighbors for a shortest path (\<open>path_finder.rs\<close>), and the component
  analytics fold all rows into a union-find forest (\<open>connected_components.rs\<close>). Every operation
  charges its memory, disk, rows and work to a resource governor (\<open>resource.rs\<close>). The engine finds
  the node of a row key in a resolution index and replays logged row changes (\<open>sync.rs\<close>); typed
  filter columns decide predicates on the nodes of a traversal (\<open>filter_index.rs\<close>).

  \<^bold>\<open>Conventions.\<close> \<open>Prelude\<close> holds them: fixed-width integers are words and wrap as release
  builds do, \<open>usize\<close> is \<open>nat\<close> with checked arithmetic written out, a \<open>Result\<close> is a sum whose
  left side is an error or a panic (an index out of range, a failed \<open>expect\<close>), and loops are
  folds in that result type. Hash maps and bitmaps that are only looked up are partial functions
  and sets. Failures of the allocator are modelled where a theory takes the
  allocator as an argument (\<open>EdgeTypes\<close>, \<open>EdgeTypeRegistry\<close>), elsewhere not. The target is 64-bit and little-endian.

  \<^bold>\<open>Theories, in the order of the calls.\<close>
  \<^item> \<open>Safety\<close> (\<open>safety.rs\<close>): the error type, its diagnostic codes and SQLSTATE table.
  \<^item> \<open>EdgeTypes\<close> (\<open>types.rs\<close>, \<open>edge_store.rs\<close>): edge type identifiers and the storage that
    widens from one to four bytes per identifier.
  \<^item> \<open>EdgeStore\<close>, \<open>EdgeBulk\<close> (\<open>edge_store.rs\<close>): CSR construction from sorted and unsorted edges,
    the well-formedness predicate \<open>csr_wf\<close>, and the equivalence of the construction paths.
  \<^item> \<open>EdgeAccess\<close> (\<open>edge_store.rs\<close>): owned and memory-mapped stores, validation of a mapped
    region, the little-endian words its ranges hold, and the refinement of mapped reads to owned
    ones.
  \<^item> \<open>EdgeReverse\<close> (\<open>edge_store.rs\<close>): the counting sort that builds the reverse store; its rows
    are exactly the inbound edges, in order.
  \<^item> \<open>Neighbors\<close>, \<open>NeighborPaging\<close>, \<open>NeighborWeights\<close> (\<open>projection/neighbors.rs\<close>): the neighbor
    iterators over a store and its overlay, forward and reversed, against a list
    specification, and the paged cursors, which a locale (\<open>paged_stream\<close>) shows to drain to
    the same list for every positive page size. The number of pages is bounded explicitly.
  \<^item> \<open>NodeStore\<close> (\<open>node_store.rs\<close>): owned and mapped node rows against the list of rows they
    represent; validation, reads, materialization, mutation.
  \<^item> \<open>Visibility\<close> (\<open>visibility.rs\<close>): the prepared scope with inductive rules of what it
    shows, the bounded verdict cache (a locale
    \<open>verdict_table\<close> interpreted on the cache's node and relationship tables and on the lazy
    coordinator) and the candidate, probe and verdict batches.
  \<^item> \<open>TraversalMaps\<close>, \<open>Traversal\<close>, \<open>TraversalSteps\<close>, \<open>TraversalResults\<close>, \<open>TraversalTheorems\<close>
    (\<open>bfs.rs\<close>): the depth, parent and edge-type metadata (locale \<open>node_metadata\<close>, interpreted on
    all three maps), the admission gate, the work loops, the invariant proofs and the
    properties of the entry points: shortest distances, valid paths, admission, the visit
    budget, faults, closure of depth first.
  \<^item> \<open>UnionFind\<close>, \<open>Components\<close> (\<open>connected_components.rs\<close>): the forest with union by size and path
    halving against the equivalence closure of its unions; the component computation, its sizes
    and its paged listings against undirected reachability over the rows of a store.
  \<^item> \<open>Resource\<close> (\<open>resource.rs\<close>): byte, row and work units, phases, the governor with its leases,
    adaptive batches; reachability of governor states as an inductive step relation.
  \<^item> \<open>PathAdmission\<close>, \<open>Dijkstra\<close>, \<open>DijkstraProofs\<close>, \<open>ShortestPath\<close>, \<open>ShortestPathProofs\<close>,
    \<open>BidirectionalProofs\<close> (\<open>path_finder.rs\<close>): the work budget and candidate gate, the weighted
    search, the single-direction and the bidirectional search. The proofs compare each with
    walks of admitted edges: least cost, fewest hops, or no walk within the limit.
  \<^item> \<open>Codec\<close>: little-endian integers in byte lists, slices, and binary search over any fallible
    comparison (locale \<open>ordered_table\<close>).
  \<^item> \<open>ResolutionIndex\<close> (\<open>resolution_index.rs\<close>), \<open>TenantIndex\<close>, \<open>TenantProofs\<close> (\<open>tenant_store.rs\<close>): the
    index from row keys to node slots in its build, byte and delta forms, and the mapped tenant
    dictionary with one token per node; both interpret \<open>ordered_table\<close>. The tenant index opens
    exactly when its sections have the layout \<open>tenant_layout\<close> states of their bytes.
  \<^item> \<open>Identity\<close>, \<open>IdentityProofs\<close> (\<open>engine.rs\<close>, \<open>sync.rs\<close>, \<open>sql_sync.rs\<close>): resolution, memberships
    and the replay of row changes in the engine. The proofs give a specification of rows and
    tenants, an invariant that ties the index, the memberships and the node store together, and
    the refinement of every operation.
  \<^item> \<open>GqlLexer\<close>, \<open>GqlParser\<close>, \<open>GqlParsing\<close>, \<open>GqlGrammar\<close> (\<open>gql/lexer.rs\<close>, \<open>gql/errors.rs\<close>, \<open>gql/ast.rs\<close>,
    \<open>gql/parser.rs\<close>): the query language. The lexer is compared with an inductive description of
    longest tokens; the parser, a function of the tokens and the position for each method, with
    a language of token sequences for every syntax tree. Its loops have fuel above the number of
    tokens; running out is treated as a panic and proved impossible.

  \<^item> \<open>FilterStorage\<close>, \<open>FilterMapped\<close>, \<open>FilterMappedProofs\<close>, \<open>FilterIndex\<close>, \<open>FilterIndexProofs\<close>
    (\<open>filter_index.rs\<close>): the column storages (locale \<open>value_table\<close>), the mapped sections with their
    validation, and the index over both. The proofs read the columns off the descriptors of the
    catalog section (\<open>section_columns\<close>) and turn an index into a table of values and strings that
    owned and mapped backends share.
  \<^item> \<open>Validation\<close>, \<open>RelationshipIdentities\<close> (\<open>relationship_identity_store.rs\<close>): rules for validators of
    persisted bytes, and the owned, mapped and layered stores of relationship identities as one
    list of slots.
  \<^item> \<open>EdgeTypeRegistry\<close>, \<open>EdgeTypeDictionary\<close> (\<open>edge_type_registry.rs\<close>,
    \<open>projection/edge_type_dictionary.rs\<close>): the ordered labels behind the edge type identifiers with
    their reverse lookup, limits and heap bounds, and the checksummed file they are kept in. A valid
    list of labels is written and read back; whatever else is read is refused or yields a valid list.
  \<^item> \<open>TxDelta\<close>, \<open>TxDeltaProofs\<close>, \<open>TxOverlay\<close> (\<open>projection/tx_delta.rs\<close>): the changes of the running
    transaction, their limits and savepoints, and the overlay that the traversal reads. Savepoints are
    compared with a specification that copies the delta at each of them; the overlay, merged with the
    loaded adjacency, with the replay of the accepted edge writes on own edges and standing deletions,
    which is the plain reading of the writes under stated rules.
  \<^item> \<open>Resumable\<close>, \<open>ResumableSteps\<close>, \<open>ResumableProofs\<close> (\<open>bfs.rs\<close>, \<open>engine.rs\<close>, \<open>sql_traversal.rs\<close>):
    the traversal that a query with row-level security suspends after every bounded batch of
    candidates, and its driver. The locale \<open>node_pages\<close> extends \<open>paged_stream\<close> by the simulation
    of the eager search and is interpreted on the store with its overlay in both directions.

  \<^bold>\<open>Termination and fuel.\<close> The work loop is a total function: the number of unvisited nodes
  plus the queue length decreases. Path reconstruction is an option whose \<open>None\<close> is a loop that
  never breaks, and is proved to return for the metadata a search produces; the same holds of
  the parent walks of the path searches and of the loops of the union-find forest. The weighted
  search is total because every relaxation lowers a distance. The driver of the resumable
  traversal is an option as well; it is proved to return by a measure of the queue, the unread
  pages and the pending neighbors. Running an
  iterator to its end takes fuel one above the length of the store plus its overlay, which
  \<open>store_traversals_exact\<close> shows to be enough.

  \<^bold>\<open>Not modelled.\<close> What a traversal calls outside these parts is a function of its environment
  record: the filters (the filter index is modelled on its own), the tenant lookup, the node
  tombstones of the transaction, and the clock.
  In the resumable traversal the SQL that resolves a batch of candidates is a parameter, and the
  neighbor source is the store with its overlay.
  The resumable path machines, the segments and manifests of the durable projection, Cypher, query planning and the SQL facade
  are not modelled; the facade is PostgreSQL I/O, the others are components for later extensions.
\<close>

end
